(* ===== verification/Prelude.thy ===== *)
theory Prelude
  imports Main
begin

text \<open>
  Shared vocabulary of the development: Python exceptions as values, stateful
  methods as functions that return a result together with the state they leave
  behind (also when they raise, because a Python method keeps the mutations it made
  before the exception), loops over a list, and a small calculus of pre- and
  postconditions for such programs.
\<close>

section \<open>Exceptions and stateful programs\<close>

text \<open>
  One constructor per exception class the source raises.  The string names the
  raise site; the formatted message of the source is not modelled.
\<close>

datatype pyexc =
    ValueError string
  | RuntimeError string
  | AssertionError string
  | KeyError string
  | IndexError string
  | TypeError string
  | OverflowError string
  | ZeroDivisionError string
  | NotImplementedError string
  | EngineUnavailable string
  | RequestQueueFull string
  | SamplingNumericalError string
  | InvariantViolation string
  | GgufHeaderError string

type_synonym 'a res = "pyexc + 'a"

type_synonym ('s, 'a) prog = "'s \<Rightarrow> 'a res \<times> 's"

named_theorems prog_simps \<open>evaluation of the program combinators\<close>
named_theorems prog_rules \<open>structural rules of the before/after calculus\<close>

definition ret :: "'a \<Rightarrow> ('s, 'a) prog" where
  "ret x = (\<lambda>s. (Inr x, s))"

definition raise :: "pyexc \<Rightarrow> ('s, 'a) prog" where
  "raise e = (\<lambda>s. (Inl e, s))"

definition andThen :: "('s, 'a) prog \<Rightarrow> ('a \<Rightarrow> ('s, 'b) prog) \<Rightarrow> ('s, 'b) prog" where
  "andThen m k = (\<lambda>s. case m s of (Inl e, s') \<Rightarrow> (Inl e, s') | (Inr x, s') \<Rightarrow> k x s')"

definition update :: "('s \<Rightarrow> 's) \<Rightarrow> ('s, unit) prog" where
  "update f = (\<lambda>s. (Inr (), f s))"

definition reading :: "('s \<Rightarrow> 'a) \<Rightarrow> ('a \<Rightarrow> ('s, 'b) prog) \<Rightarrow> ('s, 'b) prog" where
  "reading f k = (\<lambda>s. k (f s) s)"

text \<open>\<open>guard c e m\<close> is \<open>if c: raise e\<close> followed by \<open>m\<close>.\<close>

definition guard :: "bool \<Rightarrow> pyexc \<Rightarrow> ('s, 'a) prog \<Rightarrow> ('s, 'a) prog" where
  "guard c e m = (if c then raise e else m)"

primrec for_each :: "('x \<Rightarrow> ('s, unit) prog) \<Rightarrow> 'x list \<Rightarrow> ('s, unit) prog" where
  "for_each f [] = ret ()"
| "for_each f (x # xs) = andThen (f x) (\<lambda>_. for_each f xs)"

lemma ret_run [prog_simps, simp]: "ret x s = (Inr x, s)"
  by (simp add: ret_def)

lemma raise_run [prog_simps, simp]: "raise e s = (Inl e, s)"
  by (simp add: raise_def)

lemma update_run [prog_simps, simp]: "update f s = (Inr (), f s)"
  by (simp add: update_def)

lemma reading_run [prog_simps, simp]: "reading f k s = k (f s) s"
  by (simp add: reading_def)

lemma guard_run [prog_simps, simp]: "guard c e m s = (if c then (Inl e, s) else m s)"
  by (simp add: guard_def)

lemma andThen_Inl [prog_simps]: "m s = (Inl e, s') \<Longrightarrow> andThen m k s = (Inl e, s')"
  by (simp add: andThen_def)

lemma andThen_Inr [prog_simps]: "m s = (Inr x, s') \<Longrightarrow> andThen m k s = k x s'"
  by (simp add: andThen_def)

lemma andThen_ret [simp]: "andThen (ret x) k = k x"
  by (simp add: andThen_def fun_eq_iff)

lemma andThen_raise [simp]: "andThen (raise e) k = raise e"
  by (simp add: andThen_def fun_eq_iff)

lemma andThen_update [simp]: "andThen (update f) k s = k () (f s)"
  by (simp add: andThen_def)

lemma andThen_reading [simp]: "andThen (reading f k) k' s = andThen (k (f s)) k' s"
  by (simp add: andThen_def)

lemma andThen_guard [simp]:
  "andThen (guard c e m) k s = (if c then (Inl e, s) else andThen m k s)"
  by (simp add: andThen_def)

lemma andThen_assoc: "andThen (andThen m k) k' = andThen m (\<lambda>x. andThen (k x) k')"
  by (auto simp: andThen_def fun_eq_iff split: prod.splits sum.splits)

lemma andThen_InrE:
  assumes "andThen m k s = (Inr y, t)"
  obtains x s' where "m s = (Inr x, s')" and "k x s' = (Inr y, t)"
  using assms by (auto simp: andThen_def split: prod.splits sum.splits)

text \<open>Computations without state: sequencing, and use inside a stateful program.\<close>

definition bind_res :: "'a res \<Rightarrow> ('a \<Rightarrow> 'b res) \<Rightarrow> 'b res" where
  "bind_res m k = (case m of Inl e \<Rightarrow> Inl e | Inr x \<Rightarrow> k x)"

lemma bind_Inr: "bind_res m k = Inr y \<longleftrightarrow> (\<exists>x. m = Inr x \<and> k x = Inr y)"
  by (cases m) (auto simp: bind_res_def)

definition lift_res :: "'a res \<Rightarrow> ('s, 'a) prog" where
  "lift_res r = (\<lambda>s. (r, s))"

lemma bind_res_simps [simp]: "bind_res (Inr x) k = k x" "bind_res (Inl e) k = Inl e"
  by (simp_all add: bind_res_def)

lemma lift_res_run [prog_simps, simp]: "lift_res r s = (r, s)"
  by (simp add: lift_res_def)

lemma andThen_lift [simp]:
  "andThen (lift_res (Inr x)) k = k x" "andThen (lift_res (Inl e)) k = raise e"
  by (simp_all add: andThen_def fun_eq_iff)

text \<open>Evaluating a list of computations from left to right, stopping at the first error.\<close>

primrec map_res :: "('a \<Rightarrow> 'b res) \<Rightarrow> 'a list \<Rightarrow> 'b list res" where
  "map_res f [] = Inr []"
| "map_res f (x # xs) = bind_res (f x) (\<lambda>y. bind_res (map_res f xs) (\<lambda>ys. Inr (y # ys)))"

lemma map_res_Inr: "(\<And>x. x \<in> set xs \<Longrightarrow> f x = Inr (g x)) \<Longrightarrow> map_res f xs = Inr (map g xs)"
  by (induction xs) auto

lemma map_res_length: "map_res f xs = Inr ys \<Longrightarrow> length ys = length xs"
  by (induction xs arbitrary: ys) (auto simp: bind_Inr)

lemma map_res_nth: "map_res f xs = Inr ys \<Longrightarrow> i < length xs \<Longrightarrow> f (xs ! i) = Inr (ys ! i)"
  by (induction xs arbitrary: ys i) (auto simp: bind_Inr nth_Cons split: nat.split)

text \<open>A method of an embedded object acting on the object's field of the owner.\<close>

definition on_field :: "('s \<Rightarrow> 'f) \<Rightarrow> ('f \<Rightarrow> 's \<Rightarrow> 's) \<Rightarrow> ('f, 'a) prog \<Rightarrow> ('s, 'a) prog" where
  "on_field get put m = (\<lambda>s. case m (get s) of (r, f') \<Rightarrow> (r, put f' s))"

lemma on_field_run [prog_simps]: "m (get s) = (r, f') \<Longrightarrow> on_field get put m s = (r, put f' s)"
  by (simp add: on_field_def)

lemma snd_andThen_ret: "snd (andThen m (\<lambda>_. ret x) s) = snd (m s)"
  by (simp add: andThen_def split: prod.split sum.split)

section \<open>Before and after\<close>

text \<open>
  \<open>sound P m Q E\<close>: started in a state with \<open>P\<close>, the program \<open>m\<close> returns with \<open>Q\<close> of its
  result and final state, or raises and leaves a state with \<open>E\<close>.
\<close>

definition sound ::
  "('s \<Rightarrow> bool) \<Rightarrow> ('s, 'a) prog \<Rightarrow> ('a \<Rightarrow> 's \<Rightarrow> bool) \<Rightarrow> ('s \<Rightarrow> bool) \<Rightarrow> bool" where
  "sound P m Q E \<longleftrightarrow>
     (\<forall>s. P s \<longrightarrow> (case m s of (Inl e, s') \<Rightarrow> E s' | (Inr x, s') \<Rightarrow> Q x s'))"

text \<open>\<open>keeps I m\<close>: the invariant \<open>I\<close> survives \<open>m\<close>, also when \<open>m\<close> raises.\<close>

abbreviation keeps :: "('s \<Rightarrow> bool) \<Rightarrow> ('s, 'a) prog \<Rightarrow> bool" where
  "keeps I m \<equiv> sound I m (\<lambda>_. I) I"

lemma sound_Inr: "sound P m Q E \<Longrightarrow> P s \<Longrightarrow> m s = (Inr x, s') \<Longrightarrow> Q x s'"
  by (fastforce simp: sound_def)

lemma sound_Inl: "sound P m Q E \<Longrightarrow> P s \<Longrightarrow> m s = (Inl e, s') \<Longrightarrow> E s'"
  by (fastforce simp: sound_def)

lemma keeps_snd: "keeps I m \<Longrightarrow> I s \<Longrightarrow> I (snd (m s))"
  by (cases "m s"; cases "fst (m s)") (auto simp: sound_def)

lemma sound_intro:
  "(\<And>s. P s \<Longrightarrow> case m s of (Inl e, s') \<Rightarrow> E s' | (Inr x, s') \<Rightarrow> Q x s') \<Longrightarrow> sound P m Q E"
  by (simp add: sound_def)

lemma sound_weaken:
  assumes "sound P m Q E" and "\<And>s. P' s \<Longrightarrow> P s"
    and "\<And>x s. Q x s \<Longrightarrow> Q' x s" and "\<And>s. E s \<Longrightarrow> E' s"
  shows "sound P' m Q' E'"
  using assms by (fastforce simp: sound_def split: prod.splits sum.splits)

lemma sound_ret [prog_rules]: "(\<And>s. P s \<Longrightarrow> Q x s) \<Longrightarrow> sound P (ret x) Q E"
  by (simp add: sound_def)

lemma sound_raise [prog_rules]: "(\<And>s. P s \<Longrightarrow> E s) \<Longrightarrow> sound P (raise e) Q E"
  by (simp add: sound_def)

lemma sound_update [prog_rules]: "(\<And>s. P s \<Longrightarrow> Q () (f s)) \<Longrightarrow> sound P (update f) Q E"
  by (simp add: sound_def)

lemma sound_andThen [prog_rules]:
  assumes "sound P m R E" and "\<And>x. sound (R x) (k x) Q E"
  shows "sound P (andThen m k) Q E"
  unfolding sound_def
proof (intro allI impI)
  fix s assume "P s"
  show "case andThen m k s of (Inl e, s') \<Rightarrow> E s' | (Inr x, s') \<Rightarrow> Q x s'"
  proof (cases "m s")
    case (Pair r s')
    show ?thesis
    proof (cases r)
      case (Inl e)
      with Pair sound_Inl [OF assms(1) \<open>P s\<close>] show ?thesis
        by (simp add: andThen_def)
    next
      case (Inr x)
      with Pair sound_Inr [OF assms(1) \<open>P s\<close>] have "R x s'" by simp
      with assms(2) [of x] Pair Inr show ?thesis
        by (simp add: andThen_def sound_def)
    qed
  qed
qed

lemma keepsI: "(\<And>s. I s \<Longrightarrow> I (snd (m s))) \<Longrightarrow> keeps I m"
  by (auto simp: sound_def split: prod.splits sum.splits) (metis snd_conv)+

lemma keeps_andThen_ret: "keeps I m \<Longrightarrow> keeps I (andThen m (\<lambda>_. ret x))"
  by (rule sound_andThen) (auto intro: sound_ret)

lemma sound_reading [prog_rules]:
  "(\<And>x. sound (\<lambda>s. P s \<and> x = f s) (k x) Q E) \<Longrightarrow> sound P (reading f k) Q E"
  by (auto simp: sound_def)

lemma sound_reading_at: "sound (\<lambda>s. s = s0) (k (f s0)) Q E \<Longrightarrow> sound (\<lambda>s. s = s0) (reading f k) Q E"
  by (simp add: sound_def)

lemma sound_at:
  "sound (\<lambda>s. s = s0) m Q E \<longleftrightarrow> (case m s0 of (Inl e, s') \<Rightarrow> E s' | (Inr x, s') \<Rightarrow> Q x s')"
  by (simp add: sound_def)

lemma sound_ex: "(\<And>y. sound (P y) m Q E) \<Longrightarrow> sound (\<lambda>s. \<exists>y. P y s) m Q E"
proof (rule sound_intro)
  assume each: "\<And>y. sound (P y) m Q E"
  fix s assume "\<exists>y. P y s"
  then obtain y where "P y s" ..
  with each [of y] show "case m s of (Inl e, s') \<Rightarrow> E s' | (Inr x, s') \<Rightarrow> Q x s'" by (simp add: sound_def)
qed

lemma sound_fact: "(c \<Longrightarrow> sound P m Q E) \<Longrightarrow> sound (\<lambda>s. P s \<and> c) m Q E"
  by (simp add: sound_def)

lemma sound_guard [prog_rules]:
  assumes "\<And>s. c \<Longrightarrow> P s \<Longrightarrow> E s" and "\<not> c \<Longrightarrow> sound P m Q E"
  shows "sound P (guard c e m) Q E"
  using assms by (auto simp: sound_def guard_def)

lemma keeps_for_each [prog_rules]:
  assumes "\<And>x. x \<in> set xs \<Longrightarrow> keeps I (f x)"
  shows "keeps I (for_each f xs)"
  using assms
proof (induction xs)
  case Nil
  show ?case unfolding for_each.simps by (rule sound_ret)
next
  case (Cons x xs)
  have "keeps I (f x)" and "keeps I (for_each f xs)"
    using Cons by simp_all
  then show ?case by (auto intro: sound_andThen)
qed

text \<open>An assertion about the elements still to come, carried through a loop.\<close>

lemma sound_for_each:
  assumes "\<And>x xs. sound (P (x # xs)) (f x) (\<lambda>_. P xs) E"
  shows "sound (P xs) (for_each f xs) (\<lambda>_. P []) E"
proof (induction xs)
  case (Cons x xs)
  show ?case unfolding for_each.simps by (rule sound_andThen [OF assms Cons.IH])
qed (simp add: sound_def)

lemma sound_for_each_pair:
  assumes "\<And>a b xs. sound (P ((a, b) # xs)) (f a b) (\<lambda>_. P xs) E"
  shows "sound (P xs) (for_each (\<lambda>(a, b). f a b) xs) (\<lambda>_. P []) E"
proof (rule sound_for_each)
  fix x xs
  show "sound (P (x # xs)) (case x of (a, b) \<Rightarrow> f a b) (\<lambda>_. P xs) E"
    by (cases x) (simp only: prod.case, rule assms)
qed

lemma sound_if:
  "(c \<Longrightarrow> sound P m Q E) \<Longrightarrow> (\<not> c \<Longrightarrow> sound P m' Q E) \<Longrightarrow> sound P (if c then m else m') Q E"
  by simp

text \<open>\<open>unmoved v m\<close>: the part \<open>v\<close> of the state is the same after \<open>m\<close>, also when \<open>m\<close> raises.\<close>

definition unmoved :: "('s \<Rightarrow> 'v) \<Rightarrow> ('s, 'a) prog \<Rightarrow> bool" where
  "unmoved v m \<longleftrightarrow> (\<forall>s. v (snd (m s)) = v s)"

named_theorems frame_rules \<open>programs that leave a part of the state alone\<close>

lemma unmoved_ret [frame_rules]: "unmoved v (ret x)"
  by (simp add: unmoved_def)

lemma unmoved_raise [frame_rules]: "unmoved v (raise x)"
  by (simp add: unmoved_def)

lemma unmoved_update [frame_rules]: "(\<And>s. v (f s) = v s) \<Longrightarrow> unmoved v (update f)"
  by (simp add: unmoved_def)

lemma unmoved_reading [frame_rules]: "(\<And>x. unmoved v (k x)) \<Longrightarrow> unmoved v (reading f k)"
  by (simp add: unmoved_def)

lemma unmoved_andThen [frame_rules]: "unmoved v m \<Longrightarrow> (\<And>x. unmoved v (k x)) \<Longrightarrow> unmoved v (andThen m k)"
  unfolding unmoved_def andThen_def by (auto split: prod.split sum.split) (metis snd_conv)+

lemma unmoved_for_each [frame_rules]: "(\<And>x. unmoved v (f x)) \<Longrightarrow> unmoved v (for_each f xs)"
  by (induction xs) (auto intro: frame_rules)

lemma unmoved_if [frame_rules]: "unmoved v m \<Longrightarrow> unmoved v m' \<Longrightarrow> unmoved v (if c then m else m')"
  by simp

lemma sound_unmoved:
  assumes "unmoved v m" and "\<And>s s'. v s' = v s \<Longrightarrow> P s \<Longrightarrow> P s'"
  shows "sound P m (\<lambda>_. P) (\<lambda>_. True)"
proof (rule sound_intro)
  fix s assume "P s"
  have "v (snd (m s)) = v s" using assms(1) by (simp add: unmoved_def)
  from assms(2) [OF this \<open>P s\<close>] have keep: "P (snd (m s))" .
  obtain r s' where run: "m s = (r, s')" by (cases "m s") simp
  show "case m s of (Inl err, s') \<Rightarrow> True | (Inr x, s') \<Rightarrow> P s'"
    using keep by (simp add: run split: sum.split)
qed

section \<open>Sequences of calls\<close>

text \<open>A client's sequence of calls, an exception being caught after each call.\<close>

primrec run_calls :: "('c \<Rightarrow> ('s, 'a) prog) \<Rightarrow> 'c list \<Rightarrow> 's \<Rightarrow> 'a res list \<times> 's" where
  "run_calls f [] s = ([], s)"
| "run_calls f (c # cs) s =
     (case f c s of (r, s') \<Rightarrow> case run_calls f cs s' of (rs, s'') \<Rightarrow> (r # rs, s''))"

lemma snd_run_calls_Cons [simp]:
  "snd (run_calls f (c # cs) s) = snd (run_calls f cs (snd (f c s)))"
  by (simp split: prod.split)

lemma run_calls_refine:
  assumes "\<And>c s t. ok c \<Longrightarrow> R s t \<Longrightarrow> fst (f c s) = fst (g c t) \<and> R (snd (f c s)) (snd (g c t))"
  shows "R s t \<Longrightarrow> (\<And>c. c \<in> set cs \<Longrightarrow> ok c) \<Longrightarrow>
    fst (run_calls f cs s) = fst (run_calls g cs t) \<and>
    R (snd (run_calls f cs s)) (snd (run_calls g cs t))"
proof (induction cs arbitrary: s t)
  case Nil
  then show ?case by simp
next
  case (Cons c cs)
  have step: "fst (f c s) = fst (g c t)" "R (snd (f c s)) (snd (g c t))"
    using Cons.prems assms by auto
  show ?case
    using Cons.IH [OF step(2)] Cons.prems(2) step(1) by (auto split: prod.splits)
qed

lemma keeps_calls:
  assumes "\<And>c. keeps I (f c)"
  shows "I s \<Longrightarrow> I (snd (run_calls f cs s))"
proof (induction cs arbitrary: s)
  case (Cons c cs)
  then show ?case using keeps_snd [OF assms] by (simp del: run_calls.simps)
qed simp

section \<open>List facts shared by the components\<close>

lemma remove1_drop_take:
  "distinct xs \<Longrightarrow> xs = ys @ x # zs \<Longrightarrow> remove1 x xs = ys @ zs"
  by (simp add: remove1_append)

lemma distinct_map_fst_unique:
  "distinct (map fst al) \<Longrightarrow> (k, v) \<in> set al \<Longrightarrow> (k, w) \<in> set al \<Longrightarrow> v = w"
  by (metis map_of_is_SomeI option.inject)


section \<open>Python dictionaries and lists\<close>

text \<open>
  A dictionary whose iteration order matters is an association list in insertion order:
  assigning to a present key keeps its place, a new key goes to the end.
\<close>

fun dict_set :: "('k \<times> 'v) list \<Rightarrow> 'k \<Rightarrow> 'v \<Rightarrow> ('k \<times> 'v) list" where
  "dict_set [] k v = [(k, v)]"
| "dict_set ((k', v') # d) k v = (if k' = k then (k, v) # d else (k', v') # dict_set d k v)"

definition dict_del :: "('k \<times> 'v) list \<Rightarrow> 'k \<Rightarrow> ('k \<times> 'v) list" where
  "dict_del d k = filter (\<lambda>(k', _). k' \<noteq> k) d"

definition dict_get :: "('k \<times> 'v) list \<Rightarrow> 'k \<Rightarrow> 'v \<Rightarrow> 'v" where
  "dict_get d k dflt = (case map_of d k of None \<Rightarrow> dflt | Some v \<Rightarrow> v)"

lemma map_of_dict_set [simp]: "map_of (dict_set d k v) = (map_of d)(k \<mapsto> v)"
  by (induction d k v rule: dict_set.induct) (auto simp: fun_eq_iff)

lemma keys_dict_set [simp]: "fst ` set (dict_set d k v) = insert k (fst ` set d)"
  by (induction d k v rule: dict_set.induct) auto

lemma distinct_dict_set [simp]:
  "distinct (map fst (dict_set d k v)) = distinct (map fst d)"
proof (induction d k v rule: dict_set.induct)
  case (2 k' v' d k v)
  have "fst ` set (dict_set d k v) = insert k (fst ` set d)" by simp
  with 2 show ?case by (simp del: keys_dict_set)
qed simp

lemma map_of_dict_del [simp]: "map_of (dict_del d k) = (map_of d)(k := None)"
  by (induction d) (auto simp: dict_del_def fun_eq_iff)

lemma distinct_dict_del [simp]: "distinct (map fst d) \<Longrightarrow> distinct (map fst (dict_del d k))"
  by (auto simp: dict_del_def distinct_map intro: inj_on_subset)

lemma dict_set_ne [simp]: "dict_set d k v \<noteq> []"
  by (induction d k v rule: dict_set.induct) auto

lemma in_dict_set: "(x, y) \<in> set (dict_set d k v) \<Longrightarrow> (x, y) \<in> set d \<or> x = k \<and> y = v"
  by (induction d k v rule: dict_set.induct) (auto split: if_splits)

lemma dict_set_fresh: "k \<notin> fst ` set d \<Longrightarrow> dict_set d k v = d @ [(k, v)]"
  by (induction d k v rule: dict_set.induct) auto

text \<open>The sum of a dictionary of numbers.\<close>

definition dict_sum :: "('k \<times> int) list \<Rightarrow> int" where
  "dict_sum d = sum_list (map snd d)"

lemma dict_sum_set:
  "distinct (map fst d) \<Longrightarrow> dict_sum (dict_set d k v) = dict_sum d - dict_get d k 0 + v"
proof (induction d k v rule: dict_set.induct)
  case (2 k' v' d k v)
  then show ?case by (auto simp: dict_sum_def dict_get_def split: option.splits)
qed (simp add: dict_sum_def dict_get_def)

lemma dict_sum_del:
  "distinct (map fst d) \<Longrightarrow> dict_sum (dict_del d k) = dict_sum d - dict_get d k 0"
proof (induction d)
  case (Cons x d)
  have "dict_del d (fst x) = d" if "fst x \<notin> fst ` set d"
    unfolding dict_del_def using that by (intro filter_True) (auto simp: image_iff)
  with Cons show ?case
    by (cases x) (auto simp: dict_sum_def dict_get_def dict_del_def split: option.splits)
qed (simp add: dict_sum_def dict_get_def dict_del_def)

text \<open>Reading a list at a Python index: negative indices count from the end.\<close>

definition py_index :: "int \<Rightarrow> int \<Rightarrow> int option" where
  "py_index n i = (if 0 \<le> i \<and> i < n then Some i
     else if - n \<le> i \<and> i < 0 then Some (n + i) else None)"

end
