(* ===== verification/Free_Queue.thy ===== *)
theory Free_Queue
  imports Prelude
begin

text \<open>
  The intrusive doubly linked free queues of \<^verbatim>\<open>runtime/block_pool.py\<close>
  (\<^verbatim>\<open>FreeBlockQueue\<close>, with two sentinel blocks) and the interface both free queues of
  the program offer to the allocators above them.  Blocks are named by their integer
  identity; each pointer field of a block object is one map from identities, so a
  field assignment is a map update.
\<close>

section \<open>Chains of next and previous pointers\<close>

fun linked :: "(int \<Rightarrow> int option) \<Rightarrow> (int \<Rightarrow> int option) \<Rightarrow> int list \<Rightarrow> bool" where
  "linked nxt prv [] = True"
| "linked nxt prv [x] = True"
| "linked nxt prv (x # y # zs) =
     (nxt x = Some y \<and> prv y = Some x \<and> linked nxt prv (y # zs))"

lemma linked_append:
  "linked n p (xs @ y # ys) \<longleftrightarrow> linked n p (xs @ [y]) \<and> linked n p (y # ys)"
proof (induction xs)
  case Nil
  show ?case by simp
next
  case (Cons a xs)
  then show ?case by (cases xs) auto
qed

lemma linked_cong:
  assumes "\<And>x. x \<in> set (butlast xs) \<Longrightarrow> n' x = n x"
    and "\<And>x. x \<in> set (tl xs) \<Longrightarrow> p' x = p x"
  shows "linked n' p' xs = linked n p xs"
  using assms
proof (induction xs rule: induct_list012)
  case (3 x y zs)
  have "linked n' p' (y # zs) = linked n p (y # zs)"
    using "3.prems" by (intro "3.IH"(2)) (auto split: if_splits)
  with "3.prems" show ?case by simp
qed simp_all

lemma linked_snocD:
  assumes "linked n p (xs @ [a, b])"
  shows "n a = Some b" and "p b = Some a" and "linked n p (xs @ [a])"
  using assms linked_append [of n p xs a "[b]"] by auto

lemma linked_insert:
  assumes l: "linked n p (A @ a # z # B)" and d: "distinct (A @ a # z # B)"
    and b: "b \<notin> set (A @ a # z # B)"
  shows "linked (n(a \<mapsto> b, b \<mapsto> z)) (p(b \<mapsto> a, z \<mapsto> b)) (A @ a # b # z # B)"
proof -
  let ?n = "n(a \<mapsto> b, b \<mapsto> z)" and ?p = "p(b \<mapsto> a, z \<mapsto> b)"
  have lA: "linked n p (A @ [a])" and lB: "linked n p (z # B)"
    using l linked_append [of n p A a "z # B"] linked_append [of n p "[a]" z B] by auto
  have "linked ?n ?p (A @ [a]) = linked n p (A @ [a])"
    using d b by (intro linked_cong) (cases A; auto)+
  moreover have "linked ?n ?p (z # B) = linked n p (z # B)"
  proof (rule linked_cong)
    fix x assume "x \<in> set (butlast (z # B))"
    then have "x \<in> set (z # B)" by (rule in_set_butlastD)
    then have "x \<noteq> a" "x \<noteq> b" using d b by auto
    then show "?n x = n x" by simp
  next
    fix x assume "x \<in> set (tl (z # B))"
    then have "x \<noteq> z" "x \<noteq> b" using d b by auto
    then show "?p x = p x" by simp
  qed
  ultimately show ?thesis
    using lA lB d b linked_append [of ?n ?p A a "b # z # B"] by auto
qed

lemma linked_unlink:
  assumes l: "linked n p (A @ a # b # z # B)" and d: "distinct (A @ a # b # z # B)"
  shows "linked (n(a \<mapsto> z, b := None)) (p(z \<mapsto> a, b := None)) (A @ a # z # B)"
proof -
  let ?n = "n(a \<mapsto> z, b := None)" and ?p = "p(z \<mapsto> a, b := None)"
  have lA: "linked n p (A @ [a])" and lB: "linked n p (z # B)"
    using l linked_append [of n p A a "b # z # B"] linked_append [of n p "[a, b]" z B] by auto
  have "linked ?n ?p (A @ [a]) = linked n p (A @ [a])"
    using d by (intro linked_cong) (cases A; auto)+
  moreover have "linked ?n ?p (z # B) = linked n p (z # B)"
  proof (rule linked_cong)
    fix x assume "x \<in> set (butlast (z # B))"
    then have "x \<in> set (z # B)" by (rule in_set_butlastD)
    then have "x \<noteq> a" "x \<noteq> b" using d by auto
    then show "?n x = n x" by simp
  next
    fix x assume "x \<in> set (tl (z # B))"
    then have "x \<noteq> z" "x \<noteq> b" using d by auto
    then show "?p x = p x" by simp
  qed
  ultimately show ?thesis
    using lA lB d linked_append [of ?n ?p A a "z # B"] by auto
qed


section \<open>The interface of a free queue\<close>

text \<open>
  What the allocators rely on: a representation relation to the list of queued
  identities in eviction order, insertion at either end, removal of the head and of
  an arbitrary queued element.  Elements are the non-negative identities.
\<close>

locale lru_queue =
  fixes rep :: "'q \<Rightarrow> int list \<Rightarrow> bool"
    and enq_tail :: "int \<Rightarrow> ('q, unit) prog"
    and enq_head :: "int \<Rightarrow> ('q, unit) prog"
    and deq :: "('q, int) prog"
    and del :: "int \<Rightarrow> ('q, unit) prog"
    and member :: "'q \<Rightarrow> int \<Rightarrow> bool"
    and size_of :: "'q \<Rightarrow> int"
  assumes rep_distinct: "rep q xs \<Longrightarrow> distinct xs"
    and rep_nonneg: "rep q xs \<Longrightarrow> x \<in> set xs \<Longrightarrow> 0 \<le> x"
    and rep_unique: "rep q xs \<Longrightarrow> rep q ys \<Longrightarrow> xs = ys"
    and rep_size: "rep q xs \<Longrightarrow> size_of q = int (length xs)"
    and rep_member: "rep q xs \<Longrightarrow> 0 \<le> x \<Longrightarrow> member q x \<longleftrightarrow> x \<in> set xs"
    and enq_tail_law: "rep q xs \<Longrightarrow> 0 \<le> x \<Longrightarrow> x \<notin> set xs \<Longrightarrow>
      \<exists>q'. enq_tail x q = (Inr (), q') \<and> rep q' (xs @ [x])"
    and enq_head_law: "rep q xs \<Longrightarrow> 0 \<le> x \<Longrightarrow> x \<notin> set xs \<Longrightarrow>
      \<exists>q'. enq_head x q = (Inr (), q') \<and> rep q' (x # xs)"
    and deq_law: "rep q (x # xs) \<Longrightarrow> \<exists>q'. deq q = (Inr x, q') \<and> rep q' xs"
    and deq_empty: "rep q [] \<Longrightarrow> \<exists>e. deq q = (Inl e, q)"
    and del_law: "rep q xs \<Longrightarrow> x \<in> set xs \<Longrightarrow>
      \<exists>q'. del x q = (Inr (), q') \<and> rep q' (remove1 x xs)"
    and del_absent: "rep q xs \<Longrightarrow> 0 \<le> x \<Longrightarrow> x \<notin> set xs \<Longrightarrow> \<exists>e. del x q = (Inl e, q)"
begin

lemma enq_tailE:
  assumes "rep q xs" and "0 \<le> x" and "x \<notin> set xs"
  obtains q' where "enq_tail x q = (Inr (), q')" and "rep q' (xs @ [x])"
  using enq_tail_law [OF assms] by blast

lemma enq_headE:
  assumes "rep q xs" and "0 \<le> x" and "x \<notin> set xs"
  obtains q' where "enq_head x q = (Inr (), q')" and "rep q' (x # xs)"
  using enq_head_law [OF assms] by blast

lemma deqE:
  assumes "rep q (x # xs)"
  obtains q' where "deq q = (Inr x, q')" and "rep q' xs"
  using deq_law [OF assms] by blast

lemma delE:
  assumes "rep q xs" and "x \<in> set xs"
  obtains q' where "del x q = (Inr (), q')" and "rep q' (remove1 x xs)"
  using del_law [OF assms] by blast

lemma del_set:
  assumes "rep q xs" shows "set (remove1 x xs) = set xs - {x}"
  using rep_distinct [OF assms] by simp

text \<open>A queue in use: a script of client calls, run against the list it represents.\<close>

lemma parked_is_evicted_last:
  assumes "rep q xs" and "0 \<le> x" and "x \<notin> set xs"
  shows "\<exists>q'. enq_tail x q = (Inr (), q') \<and> rep q' (xs @ [x]) \<and> last (xs @ [x]) = x"
  using enq_tail_law [OF assms] by simp

lemma fresh_is_evicted_first:
  assumes "rep q xs" and "0 \<le> x" and "x \<notin> set xs"
  shows "\<exists>q' q''. enq_head x q = (Inr (), q') \<and> deq q' = (Inr x, q'') \<and> rep q'' xs"
proof -
  obtain q' where q': "enq_head x q = (Inr (), q')" and r: "rep q' (x # xs)"
    using assms by (rule enq_headE)
  obtain q'' where "deq q' = (Inr x, q'')" and "rep q'' xs"
    using r by (rule deqE)
  with q' show ?thesis by blast
qed

end

text \<open>A queue that also refuses to link an element twice.\<close>

locale guarded_queue = lru_queue +
  assumes enq_tail_linked: "rep q xs \<Longrightarrow> x \<in> set xs \<Longrightarrow> \<exists>e. enq_tail x q = (Inl e, q)"
    and enq_head_linked: "rep q xs \<Longrightarrow> x \<in> set xs \<Longrightarrow> \<exists>e. enq_head x q = (Inl e, q)"
begin

lemma enq_tail_total:
  assumes "rep q xs" and "0 \<le> x"
  shows "enq_tail x q = (Inr (), snd (enq_tail x q)) \<and> rep (snd (enq_tail x q)) (xs @ [x])
    \<or> (\<exists>e. enq_tail x q = (Inl e, q)) \<and> x \<in> set xs"
  using enq_tail_linked [OF assms(1), of x] enq_tail_law [OF assms, of] by (metis snd_conv)

end

section \<open>FreeBlockQueue\<close>

text \<open>The link fields of all blocks, the two sentinels included, and the length.\<close>

record fbq =
  prev_free :: "int \<Rightarrow> int option"
  next_free :: "int \<Rightarrow> int option"
  fbq_len :: int

abbreviation (input) q_head :: int where "q_head \<equiv> - 1"
abbreviation (input) q_tail :: int where "q_tail \<equiv> - 2"

definition fbq_init :: fbq where
  "fbq_init = \<lparr>prev_free = (\<lambda>_. None)(q_tail \<mapsto> q_head),
    next_free = (\<lambda>_. None)(q_head \<mapsto> q_tail), fbq_len = 0\<rparr>"

definition fbq_size :: "fbq \<Rightarrow> int" where
  "fbq_size q = fbq_len q"

definition fbq_contains :: "fbq \<Rightarrow> int \<Rightarrow> bool" where
  "fbq_contains q b \<longleftrightarrow> prev_free q b \<noteq> None \<and> next_free q b \<noteq> None"

definition fbq_append :: "int \<Rightarrow> (fbq, unit) prog" where
  "fbq_append b = (\<lambda>q.
     if prev_free q b \<noteq> None \<or> next_free q b \<noteq> None
     then (Inl (RuntimeError ''already linked in the free queue''), q)
     else case prev_free q q_tail of
       None \<Rightarrow> (Inl (AssertionError ''last is not None''), q)
     | Some l \<Rightarrow>
         (let q1 = q\<lparr>next_free := (next_free q)(l \<mapsto> b)\<rparr>;
              q2 = q1\<lparr>prev_free := (prev_free q1)(b \<mapsto> l)\<rparr>;
              q3 = q2\<lparr>next_free := (next_free q2)(b \<mapsto> q_tail)\<rparr>;
              q4 = q3\<lparr>prev_free := (prev_free q3)(q_tail \<mapsto> b)\<rparr>
          in (Inr (), q4\<lparr>fbq_len := fbq_len q4 + 1\<rparr>)))"

definition fbq_appendleft :: "int \<Rightarrow> (fbq, unit) prog" where
  "fbq_appendleft b = (\<lambda>q.
     if prev_free q b \<noteq> None \<or> next_free q b \<noteq> None
     then (Inl (RuntimeError ''already linked in the free queue''), q)
     else case next_free q q_head of
       None \<Rightarrow> (Inl (AssertionError ''first is not None''), q)
     | Some f \<Rightarrow>
         (let q1 = q\<lparr>prev_free := (prev_free q)(f \<mapsto> b)\<rparr>;
              q2 = q1\<lparr>next_free := (next_free q1)(b \<mapsto> f)\<rparr>;
              q3 = q2\<lparr>prev_free := (prev_free q2)(b \<mapsto> q_head)\<rparr>;
              q4 = q3\<lparr>next_free := (next_free q3)(q_head \<mapsto> b)\<rparr>
          in (Inr (), q4\<lparr>fbq_len := fbq_len q4 + 1\<rparr>)))"

definition fbq_unlink :: "int \<Rightarrow> (fbq, unit) prog" where
  "fbq_unlink b = (\<lambda>q.
     case (prev_free q b, next_free q b) of
       (Some p, Some n) \<Rightarrow>
         (let q1 = q\<lparr>next_free := (next_free q)(p \<mapsto> n)\<rparr>;
              q2 = q1\<lparr>prev_free := (prev_free q1)(n \<mapsto> p)\<rparr>;
              q3 = q2\<lparr>prev_free := (prev_free q2)(b := None)\<rparr>;
              q4 = q3\<lparr>next_free := (next_free q3)(b := None)\<rparr>
          in (Inr (), q4\<lparr>fbq_len := fbq_len q4 - 1\<rparr>))
     | _ \<Rightarrow> (Inl (AssertionError ''unlink of an unlinked block''), q))"

definition fbq_popleft :: "(fbq, int) prog" where
  "fbq_popleft = (\<lambda>q.
     case next_free q q_head of
       None \<Rightarrow> (Inl (RuntimeError ''popleft from an empty free queue''), q)
     | Some b \<Rightarrow>
         if b = q_tail then (Inl (RuntimeError ''popleft from an empty free queue''), q)
         else andThen (fbq_unlink b) (\<lambda>_. ret b) q)"

definition fbq_remove :: "int \<Rightarrow> (fbq, unit) prog" where
  "fbq_remove b = (\<lambda>q.
     if prev_free q b = None \<or> next_free q b = None
     then (Inl (RuntimeError ''remove() on a block not in the free queue''), q)
     else fbq_unlink b q)"

subsection \<open>The list a queue represents\<close>

definition fbq_rep :: "fbq \<Rightarrow> int list \<Rightarrow> bool" where
  "fbq_rep q xs \<longleftrightarrow>
     linked (next_free q) (prev_free q) (q_head # xs @ [q_tail]) \<and> distinct xs \<and>
     (\<forall>x \<in> set xs. 0 \<le> x) \<and> fbq_len q = int (length xs) \<and>
     (\<forall>x. 0 \<le> x \<longrightarrow> x \<notin> set xs \<longrightarrow> prev_free q x = None \<and> next_free q x = None)"

lemma fbq_rep_init: "fbq_rep fbq_init []"
  by (simp add: fbq_rep_def fbq_init_def)

lemma fbq_repI:
  assumes "linked (next_free q) (prev_free q) (q_head # xs @ [q_tail])" and "distinct xs"
    and "\<And>x. x \<in> set xs \<Longrightarrow> 0 \<le> x" and "fbq_len q = int (length xs)"
    and "\<And>x. 0 \<le> x \<Longrightarrow> x \<notin> set xs \<Longrightarrow> prev_free q x = None \<and> next_free q x = None"
  shows "fbq_rep q xs"
  using assms by (simp add: fbq_rep_def)

text \<open>Splitting the chain around one element.\<close>

lemma linked_middle:
  assumes "linked n p (A @ b # B)" and "A \<noteq> []" and "B \<noteq> []"
  shows "p b = Some (last A)" and "n b = Some (hd B)"
proof -
  obtain A' a where A: "A = A' @ [a]" using assms(2) by (cases A rule: rev_cases) auto
  obtain z B' where B: "B = z # B'" using assms(3) by (cases B) auto
  have "linked n p (a # b # z # B')"
    using assms(1) linked_append [of n p A' a "b # z # B'"] by (simp add: A B)
  then show "p b = Some (last A)" and "n b = Some (hd B)" by (simp_all add: A B)
qed

lemma fbq_rep_links:
  assumes "fbq_rep q (ys @ b # zs)"
  shows "prev_free q b = Some (last (q_head # ys))"
    and "next_free q b = Some (hd (zs @ [q_tail]))"
  using assms linked_middle [of "next_free q" "prev_free q" "q_head # ys" b "zs @ [q_tail]"]
  by (simp_all add: fbq_rep_def)

lemma fbq_rep_ends:
  assumes "fbq_rep q xs"
  shows "prev_free q q_tail = Some (last (q_head # xs))"
    and "next_free q q_head = Some (hd (xs @ [q_tail]))"
proof -
  have l: "linked (next_free q) (prev_free q) (q_head # xs @ [q_tail])"
    using assms by (simp add: fbq_rep_def)
  show "next_free q q_head = Some (hd (xs @ [q_tail]))"
    using l by (cases xs) auto
  have "q_head # xs @ [q_tail] = butlast (q_head # xs) @ [last (q_head # xs), q_tail]"
    using append_butlast_last_id [of "q_head # xs"] by (metis append.assoc append_Cons append_Nil list.distinct(1))
  then show "prev_free q q_tail = Some (last (q_head # xs))"
    using l linked_snocD(2) by metis
qed

lemma fbq_rep_in_links:
  assumes "fbq_rep q xs" and "b \<in> set xs"
  shows "prev_free q b \<noteq> None" and "next_free q b \<noteq> None"
proof -
  obtain ys zs where "xs = ys @ b # zs" using assms(2) by (meson split_list)
  then show "prev_free q b \<noteq> None" and "next_free q b \<noteq> None"
    using fbq_rep_links assms(1) by simp_all
qed

lemma fbq_rep_unique:
  assumes "fbq_rep q xs" and "fbq_rep q ys"
  shows "xs = ys"
proof -
  have aux: "linked n p (a # xs @ [z]) \<Longrightarrow> linked n p' (a # ys @ [z]) \<Longrightarrow>
      z \<notin> set xs \<Longrightarrow> z \<notin> set ys \<Longrightarrow> xs = ys" for n p p' and a z :: int and xs ys
  proof (induction xs arbitrary: a ys)
    case Nil
    then show ?case by (cases ys) auto
  next
    case (Cons x xs)
    then obtain y ys' where ys: "ys = y # ys'" by (cases ys) auto
    with Cons.prems have "x = y" by simp
    moreover have "xs = ys'"
      using Cons.prems ys \<open>x = y\<close> by (intro Cons.IH [of y]) auto
    ultimately show ?case by (simp add: ys)
  qed
  have "q_tail \<notin> set xs" and "q_tail \<notin> set ys"
    using assms by (auto simp: fbq_rep_def)
  then show ?thesis
    using assms aux [of "next_free q" "prev_free q" q_head xs q_tail "prev_free q" ys]
    by (simp add: fbq_rep_def)
qed

subsection \<open>The operations\<close>

lemma fbq_rep_distinct: "fbq_rep q xs \<Longrightarrow> distinct (q_head # xs @ [q_tail])"
  by (force simp: fbq_rep_def)

lemma chain_front: obtains A a where "q_head # xs = A @ [a]" and "a = last (q_head # xs)"
  by (metis append_butlast_last_id list.distinct(1))

lemma chain_back: obtains z B where "xs @ [q_tail] = z # B" and "z = hd (xs @ [q_tail])"
  by (cases xs) auto

lemma fbq_append_ok:
  assumes r: "fbq_rep q xs" and b: "0 \<le> b" "b \<notin> set xs"
  shows "\<exists>q'. fbq_append b q = (Inr (), q') \<and> fbq_rep q' (xs @ [b])"
proof -
  obtain A a where A: "q_head # xs = A @ [a]" and a: "a = last (q_head # xs)"
    by (rule chain_front)
  have all: "q_head # xs @ [q_tail] = A @ a # q_tail # []" using A by (metis append.assoc append_Cons append_Nil)
  have free: "prev_free q b = None" "next_free q b = None"
    using r b by (auto simp: fbq_rep_def)
  have d: "distinct (A @ a # q_tail # [])" and l: "linked (next_free q) (prev_free q) (A @ a # q_tail # [])"
    using fbq_rep_distinct [OF r] r unfolding all [symmetric] by (simp_all add: fbq_rep_def)
  have bn: "b \<notin> set (A @ a # q_tail # [])"
    using b unfolding all [symmetric] by auto
  let ?n = "(next_free q)(a \<mapsto> b, b \<mapsto> q_tail)" and ?p = "(prev_free q)(b \<mapsto> a, q_tail \<mapsto> b)"
  let ?q = "q\<lparr>next_free := ?n, prev_free := ?p, fbq_len := fbq_len q + 1\<rparr>"
  have "fbq_append b q = (Inr (), ?q)"
    using free fbq_rep_ends(1) [OF r] by (simp add: fbq_append_def Let_def a [symmetric] del: last.simps)
  moreover have "fbq_rep ?q (xs @ [b])"
  proof (rule fbq_repI)
    have eq: "q_head # (xs @ [b]) @ [q_tail] = A @ a # b # q_tail # []"
      using A by (metis append.assoc append_Cons append_Nil)
    show "linked (next_free ?q) (prev_free ?q) (q_head # (xs @ [b]) @ [q_tail])"
      unfolding eq using linked_insert [OF l d bn] by simp
  next
    fix x :: int assume x: "0 \<le> x" "x \<notin> set (xs @ [b])"
    have "a \<in> set (q_head # xs)" unfolding A by simp
    with x have "x \<noteq> a" "x \<noteq> b" "x \<notin> set xs" "x \<noteq> q_tail" by auto
    then show "prev_free ?q x = None \<and> next_free ?q x = None"
      using r x(1) by (simp add: fbq_rep_def)
  qed (use r b in \<open>auto simp: fbq_rep_def\<close>)
  ultimately show ?thesis by blast
qed

lemma fbq_appendleft_ok:
  assumes r: "fbq_rep q xs" and b: "0 \<le> b" "b \<notin> set xs"
  shows "\<exists>q'. fbq_appendleft b q = (Inr (), q') \<and> fbq_rep q' (b # xs)"
proof -
  let ?f = "hd (xs @ [q_tail])" and ?B = "tl (xs @ [q_tail])"
  have B: "xs @ [q_tail] = ?f # ?B" by (cases xs) auto
  have free: "prev_free q b = None" "next_free q b = None"
    using r b by (auto simp: fbq_rep_def)
  have d: "distinct ([] @ q_head # ?f # ?B)" and bn: "b \<notin> set ([] @ q_head # ?f # ?B)"
    using r b unfolding B [symmetric] by (auto simp: fbq_rep_def)
  have l: "linked (next_free q) (prev_free q) ([] @ q_head # ?f # ?B)"
    using r unfolding B [symmetric] by (simp add: fbq_rep_def)
  let ?n = "(next_free q)(q_head \<mapsto> b, b \<mapsto> ?f)" and ?p = "(prev_free q)(b \<mapsto> q_head, ?f \<mapsto> b)"
  let ?q = "q\<lparr>next_free := ?n, prev_free := ?p, fbq_len := fbq_len q + 1\<rparr>"
  have fb: "?f \<noteq> b" "?f \<noteq> q_head"
    using r b by (cases xs; auto simp: fbq_rep_def)+
  then have "fbq_appendleft b q = (Inr (), ?q)"
    using free b fbq_rep_ends(2) [OF r]
    by (simp add: fbq_appendleft_def Let_def fun_upd_twist)
  moreover have "fbq_rep ?q (b # xs)"
  proof (rule fbq_repI)
    show "linked (next_free ?q) (prev_free ?q) (q_head # (b # xs) @ [q_tail])"
      using linked_insert [OF l d bn] B by simp
  next
    fix x :: int assume x: "0 \<le> x" "x \<notin> set (b # xs)"
    then have "x \<noteq> ?f" "x \<noteq> b" "x \<notin> set xs" "x \<noteq> q_head"
      by (cases xs; auto)+
    then show "prev_free ?q x = None \<and> next_free ?q x = None"
      using r x by (simp add: fbq_rep_def)
  qed (use r b in \<open>auto simp: fbq_rep_def\<close>)
  ultimately show ?thesis by blast
qed

lemma fbq_unlink_ok:
  assumes r: "fbq_rep q (ys @ b # zs)"
  shows "\<exists>q'. fbq_unlink b q = (Inr (), q') \<and> fbq_rep q' (ys @ zs)"
proof -
  obtain A a where A: "q_head # ys = A @ [a]" and a: "a = last (q_head # ys)"
    by (rule chain_front)
  obtain z B where B: "zs @ [q_tail] = z # B" and z: "z = hd (zs @ [q_tail])"
    by (rule chain_back)
  have all: "q_head # (ys @ b # zs) @ [q_tail] = A @ a # b # z # B"
    using A B by (metis append.assoc append_Cons append_Nil)
  have rest: "q_head # (ys @ zs) @ [q_tail] = A @ a # z # B"
    using A B by (metis append.assoc append_Cons append_Nil)
  have l: "linked (next_free q) (prev_free q) (A @ a # b # z # B)" and d: "distinct (A @ a # b # z # B)"
    using fbq_rep_distinct [OF r] r unfolding all [symmetric] by (simp_all add: fbq_rep_def)
  let ?n = "(next_free q)(a \<mapsto> z, b := None)" and ?p = "(prev_free q)(z \<mapsto> a, b := None)"
  let ?q = "q\<lparr>next_free := ?n, prev_free := ?p, fbq_len := fbq_len q - 1\<rparr>"
  have "fbq_unlink b q = (Inr (), ?q)"
    using fbq_rep_links [OF r] by (simp add: fbq_unlink_def Let_def a [symmetric] z [symmetric] del: last.simps)
  moreover have "fbq_rep ?q (ys @ zs)"
  proof (rule fbq_repI)
    show "linked (next_free ?q) (prev_free ?q) (q_head # (ys @ zs) @ [q_tail])"
      using linked_unlink [OF l d] unfolding rest by simp
  next
    fix x :: int assume x: "0 \<le> x" "x \<notin> set (ys @ zs)"
    have "a \<in> set (q_head # ys)" "z \<in> set (zs @ [q_tail])" unfolding A B by simp_all
    with x have "x \<noteq> a" "x \<noteq> z" by auto
    then show "prev_free ?q x = None \<and> next_free ?q x = None"
      using r x by (simp add: fbq_rep_def)
  qed (use r in \<open>auto simp: fbq_rep_def\<close>)
  ultimately show ?thesis by blast
qed

lemma fbq_popleft_ok:
  assumes r: "fbq_rep q (b # xs)"
  shows "\<exists>q'. fbq_popleft q = (Inr b, q') \<and> fbq_rep q' xs"
proof -
  have "b \<noteq> q_tail" using r by (auto simp: fbq_rep_def)
  moreover obtain q' where "fbq_unlink b q = (Inr (), q')" "fbq_rep q' xs"
    using fbq_unlink_ok [of q "[]" b xs] r by auto
  ultimately show ?thesis
    using fbq_rep_ends(2) [OF r] by (simp add: fbq_popleft_def andThen_def)
qed

lemma fbq_remove_ok:
  assumes r: "fbq_rep q xs" and b: "b \<in> set xs"
  shows "\<exists>q'. fbq_remove b q = (Inr (), q') \<and> fbq_rep q' (remove1 b xs)"
proof -
  obtain ys zs where xs: "xs = ys @ b # zs" using b by (meson split_list)
  have "remove1 b xs = ys @ zs"
    using r xs by (simp add: fbq_rep_def remove1_append)
  then show ?thesis
    using fbq_unlink_ok [of q ys b zs] r fbq_rep_in_links [OF r b]
    by (simp add: fbq_remove_def xs)
qed

interpretation fbq: guarded_queue fbq_rep fbq_append fbq_appendleft fbq_popleft fbq_remove
  fbq_contains fbq_size
proof unfold_locales
  fix q xs ys x
  show "fbq_rep q xs \<Longrightarrow> distinct xs" by (simp add: fbq_rep_def)
  show "fbq_rep q xs \<Longrightarrow> x \<in> set xs \<Longrightarrow> 0 \<le> x" by (simp add: fbq_rep_def)
  show "fbq_rep q xs \<Longrightarrow> fbq_rep q ys \<Longrightarrow> xs = ys" by (rule fbq_rep_unique)
  show "fbq_rep q xs \<Longrightarrow> fbq_size q = int (length xs)" by (simp add: fbq_rep_def fbq_size_def)
  show "fbq_rep q xs \<Longrightarrow> 0 \<le> x \<Longrightarrow> fbq_contains q x \<longleftrightarrow> x \<in> set xs"
    using fbq_rep_in_links [of q xs x] by (auto simp: fbq_contains_def fbq_rep_def)
  show "fbq_rep q [] \<Longrightarrow> \<exists>e. fbq_popleft q = (Inl e, q)"
    using fbq_rep_ends(2) [of q "[]"] by (simp add: fbq_popleft_def)
  show "fbq_rep q xs \<Longrightarrow> 0 \<le> x \<Longrightarrow> x \<notin> set xs \<Longrightarrow> \<exists>e. fbq_remove x q = (Inl e, q)"
    by (simp add: fbq_remove_def fbq_rep_def)
  show "fbq_rep q xs \<Longrightarrow> x \<in> set xs \<Longrightarrow> \<exists>e. fbq_append x q = (Inl e, q)"
    using fbq_rep_in_links [of q xs x] by (simp add: fbq_append_def)
  show "fbq_rep q xs \<Longrightarrow> x \<in> set xs \<Longrightarrow> \<exists>e. fbq_appendleft x q = (Inl e, q)"
    using fbq_rep_in_links [of q xs x] by (simp add: fbq_appendleft_def)
qed (fact fbq_append_ok fbq_appendleft_ok fbq_popleft_ok fbq_remove_ok)+


section \<open>FreeBlockQueue refines a list\<close>

text \<open>Reading the queue off the next pointers, from the head sentinel.\<close>

primrec fbq_walk :: "nat \<Rightarrow> fbq \<Rightarrow> int \<Rightarrow> int list" where
  "fbq_walk 0 q x = []"
| "fbq_walk (Suc n) q x =
     (case next_free q x of
        None \<Rightarrow> []
      | Some y \<Rightarrow> if y = q_tail then [] else y # fbq_walk n q y)"

definition fbq_list :: "fbq \<Rightarrow> int list" where
  "fbq_list q = fbq_walk (nat (fbq_len q)) q q_head"

lemma fbq_walk_linked:
  "linked (next_free q) p (x # xs @ [q_tail]) \<Longrightarrow> q_tail \<notin> set xs \<Longrightarrow>
   fbq_walk (length xs) q x = xs"
  by (induction xs arbitrary: x) auto

lemma fbq_rep_list: "fbq_rep q xs \<Longrightarrow> fbq_list q = xs"
  using fbq_walk_linked [of q "prev_free q" q_head xs]
  by (force simp: fbq_list_def fbq_rep_def)

text \<open>One call of the public interface, and what it does to the list.\<close>

datatype queue_call = Append int | AppendLeft int | PopLeft | Remove int

fun call_id_ok :: "queue_call \<Rightarrow> bool" where
  "call_id_ok (Append b) = (0 \<le> b)"
| "call_id_ok (AppendLeft b) = (0 \<le> b)"
| "call_id_ok PopLeft = True"
| "call_id_ok (Remove b) = (0 \<le> b)"

fun fbq_call :: "queue_call \<Rightarrow> (fbq, int option) prog" where
  "fbq_call (Append b) = andThen (fbq_append b) (\<lambda>_. ret None)"
| "fbq_call (AppendLeft b) = andThen (fbq_appendleft b) (\<lambda>_. ret None)"
| "fbq_call PopLeft = andThen fbq_popleft (\<lambda>b. ret (Some b))"
| "fbq_call (Remove b) = andThen (fbq_remove b) (\<lambda>_. ret None)"

fun list_call :: "queue_call \<Rightarrow> (int list, int option) prog" where
  "list_call (Append b) = (\<lambda>xs.
     if b \<in> set xs then (Inl (RuntimeError ''already linked in the free queue''), xs)
     else (Inr None, xs @ [b]))"
| "list_call (AppendLeft b) = (\<lambda>xs.
     if b \<in> set xs then (Inl (RuntimeError ''already linked in the free queue''), xs)
     else (Inr None, b # xs))"
| "list_call PopLeft = (\<lambda>xs. case xs of
       [] \<Rightarrow> (Inl (RuntimeError ''popleft from an empty free queue''), xs)
     | b # ys \<Rightarrow> (Inr (Some b), ys))"
| "list_call (Remove b) = (\<lambda>xs.
     if b \<in> set xs then (Inr None, remove1 b xs)
     else (Inl (RuntimeError ''remove() on a block not in the free queue''), xs))"

lemma fbq_call_refines:
  assumes "call_id_ok c" and "fbq_rep q xs"
  shows "fst (fbq_call c q) = fst (list_call c xs) \<and> fbq_rep (snd (fbq_call c q)) (snd (list_call c xs))"
proof (cases c)
  case (Append b)
  show ?thesis
  proof (cases "b \<in> set xs")
    case True
    then show ?thesis
      using assms(2) fbq_rep_in_links [OF assms(2), of b] by (simp add: Append fbq_append_def andThen_def)
  next
    case False
    then obtain q' where "fbq_append b q = (Inr (), q')" "fbq_rep q' (xs @ [b])"
      using assms Append fbq.enq_tailE [of q xs b] by auto
    with False show ?thesis by (simp add: Append andThen_def)
  qed
next
  case (AppendLeft b)
  show ?thesis
  proof (cases "b \<in> set xs")
    case True
    then show ?thesis
      using assms(2) fbq_rep_in_links [OF assms(2), of b]
      by (simp add: AppendLeft fbq_appendleft_def andThen_def)
  next
    case False
    then obtain q' where "fbq_appendleft b q = (Inr (), q')" "fbq_rep q' (b # xs)"
      using assms AppendLeft fbq.enq_headE [of q xs b] by auto
    with False show ?thesis by (simp add: AppendLeft andThen_def)
  qed
next
  case PopLeft
  show ?thesis
  proof (cases xs)
    case Nil
    then show ?thesis
      using assms(2) fbq_rep_ends(2) [of q "[]"] by (simp add: PopLeft fbq_popleft_def andThen_def)
  next
    case (Cons b ys)
    then obtain q' where "fbq_popleft q = (Inr b, q')" "fbq_rep q' ys"
      using assms fbq.deqE [of q b ys] by auto
    with Cons show ?thesis by (simp add: PopLeft andThen_def)
  qed
next
  case (Remove b)
  show ?thesis
  proof (cases "b \<in> set xs")
    case True
    then obtain q' where "fbq_remove b q = (Inr (), q')" "fbq_rep q' (remove1 b xs)"
      using assms fbq.delE [of q xs b] by auto
    with True show ?thesis by (simp add: Remove andThen_def)
  next
    case False
    then show ?thesis
      using assms by (auto simp: Remove fbq_remove_def andThen_def fbq_rep_def)
  qed
qed


text \<open>
  C4: any sequence of calls of \<^verbatim>\<open>append\<close>, \<^verbatim>\<open>appendleft\<close>, \<^verbatim>\<open>popleft\<close> and \<^verbatim>\<open>remove\<close> on a new
  \<^verbatim>\<open>FreeBlockQueue\<close> gives, call by call, the results and exceptions of the same calls on a
  plain list, and leaves the pointers spelling out that list from the head sentinel.
\<close>

theorem fbq_refines_list:
  assumes "\<And>c. c \<in> set cs \<Longrightarrow> call_id_ok c"
  shows "fst (run_calls fbq_call cs fbq_init) = fst (run_calls list_call cs []) \<and>
    fbq_list (snd (run_calls fbq_call cs fbq_init)) = snd (run_calls list_call cs [])"
proof -
  have "fst (run_calls fbq_call cs fbq_init) = fst (run_calls list_call cs []) \<and>
      fbq_rep (snd (run_calls fbq_call cs fbq_init)) (snd (run_calls list_call cs []))"
    by (rule run_calls_refine [where ok = call_id_ok])
      (use assms in \<open>auto intro: fbq_rep_init fbq_call_refines
        [THEN conjunct1] fbq_call_refines [THEN conjunct2]\<close>)
  then show ?thesis by (simp add: fbq_rep_list)
qed

theorem fbq_refines_list_witness:
  "fst (run_calls fbq_call [Append 3, AppendLeft 4, Append 5, Append 3, Remove 3, PopLeft, PopLeft, PopLeft]
      fbq_init) =
     [Inr None, Inr None, Inr None, Inl (RuntimeError ''already linked in the free queue''),
      Inr None, Inr (Some 4), Inr (Some 5), Inl (RuntimeError ''popleft from an empty free queue'')]"
  using fbq_refines_list
    [of "[Append 3, AppendLeft 4, Append 5, Append 3, Remove 3, PopLeft, PopLeft, PopLeft]"]
  by (simp split: prod.splits) force

end
