(* ===== verification/Kv_Queue.thy ===== *)
theory Kv_Queue
  imports Free_Queue
begin

text \<open>
  The free queue of \<^verbatim>\<open>runtime/model/qwen36_kv_arena.py\<close> (\<^verbatim>\<open>_free_append\<close> and its siblings): a
  doubly linked list without sentinels, so the ends are \<^verbatim>\<open>None\<close>, a queue of one element has
  both links \<^verbatim>\<open>None\<close>, and membership also looks at the head and tail fields.
\<close>

record kvq =
  kq_prev :: "int \<Rightarrow> int option"
  kq_next :: "int \<Rightarrow> int option"
  kq_head :: "int option"
  kq_tail :: "int option"
  kq_len :: int

definition kvq_init :: kvq where
  "kvq_init = \<lparr>kq_prev = (\<lambda>_. None), kq_next = (\<lambda>_. None), kq_head = None, kq_tail = None, kq_len = 0\<rparr>"

definition kvq_append :: "int \<Rightarrow> (kvq, unit) prog" where
  "kvq_append b = (\<lambda>q.
     if \<not> (kq_prev q b = None \<and> kq_next q b = None)
     then (Inl (AssertionError ''_free_append of a linked bundle''), q)
     else (Inr (),
       (case kq_tail q of
          None \<Rightarrow> q\<lparr>kq_head := Some b, kq_tail := Some b\<rparr>
        | Some t \<Rightarrow> q\<lparr>kq_next := (kq_next q)(t \<mapsto> b), kq_prev := (kq_prev q)(b \<mapsto> t), kq_tail := Some b\<rparr>)
       \<lparr>kq_len := kq_len q + 1\<rparr>))"

definition kvq_prepend :: "int \<Rightarrow> (kvq, unit) prog" where
  "kvq_prepend b = (\<lambda>q.
     if \<not> (kq_prev q b = None \<and> kq_next q b = None)
     then (Inl (AssertionError ''_free_prepend of a linked bundle''), q)
     else (Inr (),
       (case kq_head q of
          None \<Rightarrow> q\<lparr>kq_head := Some b, kq_tail := Some b\<rparr>
        | Some h \<Rightarrow> q\<lparr>kq_prev := (kq_prev q)(h \<mapsto> b), kq_next := (kq_next q)(b \<mapsto> h), kq_head := Some b\<rparr>)
       \<lparr>kq_len := kq_len q + 1\<rparr>))"

definition kvq_popleft :: "(kvq, int) prog" where
  "kvq_popleft = (\<lambda>q. case kq_head q of
     None \<Rightarrow> (Inl (RuntimeError ''free queue is empty''), q)
   | Some b \<Rightarrow>
       (let q1 = (case kq_next q b of
            None \<Rightarrow> q\<lparr>kq_head := None, kq_tail := None\<rparr>
          | Some n \<Rightarrow> q\<lparr>kq_prev := (kq_prev q)(n := None), kq_head := Some n\<rparr>)
        in (Inr b, q1\<lparr>kq_prev := (kq_prev q1)(b := None), kq_next := (kq_next q1)(b := None),
              kq_len := kq_len q1 - 1\<rparr>)))"

definition kvq_contains :: "kvq \<Rightarrow> int \<Rightarrow> bool" where
  "kvq_contains q b \<longleftrightarrow>
     kq_head q = Some b \<or> kq_tail q = Some b \<or> kq_prev q b \<noteq> None \<or> kq_next q b \<noteq> None"

definition kvq_remove :: "int \<Rightarrow> (kvq, unit) prog" where
  "kvq_remove b = (\<lambda>q.
     if \<not> kvq_contains q b then (Inl (RuntimeError ''remove() on bundle not in the free queue''), q)
     else
       (let p = kq_prev q b; n = kq_next q b;
            q1 = (case p of None \<Rightarrow> q\<lparr>kq_head := n\<rparr> | Some x \<Rightarrow> q\<lparr>kq_next := (kq_next q)(x := n)\<rparr>);
            q2 = (case n of None \<Rightarrow> q1\<lparr>kq_tail := p\<rparr> | Some y \<Rightarrow> q1\<lparr>kq_prev := (kq_prev q1)(y := p)\<rparr>)
        in (Inr (), q2\<lparr>kq_prev := (kq_prev q2)(b := None), kq_next := (kq_next q2)(b := None),
              kq_len := kq_len q2 - 1\<rparr>)))"

definition kvq_size :: "kvq \<Rightarrow> int" where
  "kvq_size q = kq_len q"

section \<open>The list it represents\<close>

text \<open>The neighbours of the elements of a list, as the two link maps of a well-formed chain.\<close>

primrec prev_of :: "int option \<Rightarrow> int list \<Rightarrow> int \<Rightarrow> int option" where
  "prev_of p [] b = None"
| "prev_of p (x # xs) b = (if b = x then p else prev_of (Some x) xs b)"

fun next_of :: "int list \<Rightarrow> int \<Rightarrow> int option" where
  "next_of [] b = None"
| "next_of [x] b = None"
| "next_of (x # y # xs) b = (if b = x then Some y else next_of (y # xs) b)"

definition last_opt :: "int list \<Rightarrow> int option" where
  "last_opt xs = (if xs = [] then None else Some (last xs))"

definition hd_opt :: "int list \<Rightarrow> int option" where
  "hd_opt xs = (if xs = [] then None else Some (hd xs))"

definition kvq_rep :: "kvq \<Rightarrow> int list \<Rightarrow> bool" where
  "kvq_rep q xs \<longleftrightarrow> distinct xs \<and> (\<forall>x \<in> set xs. 0 \<le> x) \<and> kq_head q = hd_opt xs \<and>
     kq_tail q = last_opt xs \<and> kq_len q = int (length xs) \<and>
     (\<forall>b. 0 \<le> b \<longrightarrow> kq_prev q b = prev_of None xs b \<and> kq_next q b = next_of xs b)"

lemma prev_of_notin [simp]: "b \<notin> set xs \<Longrightarrow> prev_of p xs b = None"
  by (induction xs arbitrary: p) auto

lemma next_of_notin [simp]: "b \<notin> set xs \<Longrightarrow> next_of xs b = None"
  by (induction xs b rule: next_of.induct) auto

lemma prev_of_append:
  "b \<notin> set xs \<Longrightarrow> prev_of p (xs @ ys) b = prev_of (if xs = [] then p else Some (last xs)) ys b"
  by (induction xs arbitrary: p) auto

lemma prev_of_append_in: "b \<in> set xs \<Longrightarrow> prev_of p (xs @ ys) b = prev_of p xs b"
  by (induction xs arbitrary: p) auto

lemma next_of_append:
  "b \<notin> set xs \<Longrightarrow> next_of (xs @ ys) b = next_of ys b"
proof (induction xs)
  case (Cons x xs)
  then show ?case by (cases "xs @ ys") auto
qed simp

lemma next_of_append_in:
  "b \<in> set xs \<Longrightarrow> distinct xs \<Longrightarrow>
   next_of (xs @ ys) b = (if b = last xs then hd_opt ys else next_of xs b)"
proof (induction xs rule: induct_list012)
  case (2 x)
  then show ?case by (cases ys) (auto simp: hd_opt_def)
qed auto

lemma next_of_Cons: "next_of (x # xs) b = (if b = x then hd_opt xs else next_of xs b)"
  by (cases xs) (auto simp: hd_opt_def)

lemma next_of_last: "distinct xs \<Longrightarrow> xs \<noteq> [] \<Longrightarrow> next_of xs (last xs) = None"
  by (induction xs rule: induct_list012) auto

text \<open>The links of a list around one element, and after its removal.\<close>

lemma links_split:
  assumes "distinct (ys @ b # zs)"
  shows "prev_of None (ys @ b # zs) b = last_opt ys" and "next_of (ys @ b # zs) b = hd_opt zs"
  using assms by (simp_all add: prev_of_append next_of_append last_opt_def next_of_Cons)

lemma prev_of_unlink:
  assumes "distinct (ys @ b # zs)"
  shows "prev_of None (ys @ zs) c =
    (if hd_opt zs = Some c then last_opt ys else if c = b then None else prev_of None (ys @ b # zs) c)"
proof (cases "c \<in> set ys")
  case True
  then have "hd_opt zs \<noteq> Some c" using assms by (cases zs) (auto simp: hd_opt_def)
  moreover have "c \<noteq> b" using True assms by auto
  ultimately show ?thesis using True assms by (simp add: prev_of_append_in)
next
  case False
  then show ?thesis
    using assms by (cases zs) (auto simp: prev_of_append hd_opt_def last_opt_def)
qed

lemma next_of_unlink:
  assumes "distinct (ys @ b # zs)"
  shows "next_of (ys @ zs) c =
    (if last_opt ys = Some c then hd_opt zs else if c = b then None else next_of (ys @ b # zs) c)"
proof (cases "c \<in> set ys")
  case True
  then show ?thesis
    using assms by (auto simp: next_of_append_in last_opt_def hd_opt_def)
next
  case False
  then have "last_opt ys \<noteq> Some c" by (auto simp: last_opt_def)
  then show ?thesis
    using False assms by (auto simp: next_of_append next_of_Cons)
qed

lemma kvq_rep_contains:
  assumes "kvq_rep q xs" and "0 \<le> b"
  shows "kvq_contains q b \<longleftrightarrow> b \<in> set xs"
proof
  assume "kvq_contains q b"
  then show "b \<in> set xs"
    using assms by (auto simp: kvq_contains_def kvq_rep_def hd_opt_def last_opt_def split: if_splits)
      (metis prev_of_notin next_of_notin option.distinct(1))+
next
  assume "b \<in> set xs"
  then obtain ys zs where xs: "xs = ys @ b # zs" by (meson split_list)
  then have "distinct (ys @ b # zs)" using assms(1) by (simp add: kvq_rep_def)
  from links_split [OF this] show "kvq_contains q b"
    using assms xs by (cases ys) (auto simp: kvq_contains_def kvq_rep_def hd_opt_def last_opt_def)
qed

lemma kvq_rep_init: "kvq_rep kvq_init []"
  by (simp add: kvq_rep_def kvq_init_def hd_opt_def last_opt_def)

lemma prev_of_snoc:
  "b \<notin> set xs \<Longrightarrow> prev_of p (xs @ [b]) c =
    (if c = b then if xs = [] then p else Some (last xs) else prev_of p xs c)"
  by (induction xs arbitrary: p) auto

lemma next_of_snoc:
  "distinct xs \<Longrightarrow> next_of (xs @ [b]) c = (if xs \<noteq> [] \<and> c = last xs then Some b else next_of xs c)"
  by (induction xs rule: induct_list012) auto

lemma kvq_append_ok:
  assumes r: "kvq_rep q xs" and b: "0 \<le> b" "b \<notin> set xs"
  shows "\<exists>q'. kvq_append b q = (Inr (), q') \<and> kvq_rep q' (xs @ [b])"
proof -
  have "last xs \<noteq> b" if "xs \<noteq> []" using b that by auto
  then show ?thesis
    using assms by (cases "xs = []")
      (auto simp: kvq_append_def kvq_rep_def hd_opt_def last_opt_def prev_of_snoc next_of_snoc)
qed

lemma kvq_prepend_ok:
  assumes r: "kvq_rep q xs" and b: "0 \<le> b" "b \<notin> set xs"
  shows "\<exists>q'. kvq_prepend b q = (Inr (), q') \<and> kvq_rep q' (b # xs)"
  using assms
  by (cases xs) (auto simp: kvq_prepend_def kvq_rep_def hd_opt_def last_opt_def next_of_Cons)

lemma kvq_popleft_ok:
  assumes r: "kvq_rep q (b # xs)"
  shows "\<exists>q'. kvq_popleft q = (Inr b, q') \<and> kvq_rep q' xs"
  using assms
  by (cases xs) (auto simp: kvq_popleft_def kvq_rep_def hd_opt_def last_opt_def next_of_Cons)

lemma kvq_remove_ok:
  assumes r: "kvq_rep q xs" and b: "b \<in> set xs"
  shows "\<exists>q'. kvq_remove b q = (Inr (), q') \<and> kvq_rep q' (remove1 b xs)"
proof -
  obtain ys zs where xs: "xs = ys @ b # zs" using b by (meson split_list)
  have d: "distinct (ys @ b # zs)" and b0: "0 \<le> b" using r b by (simp_all add: kvq_rep_def xs)
  have rem: "remove1 b xs = ys @ zs" using d by (simp add: xs remove1_append)
  have links: "kq_prev q b = last_opt ys" "kq_next q b = hd_opt zs"
    using r b0 links_split [OF d] by (simp_all add: kvq_rep_def xs)
  have "kvq_contains q b" using kvq_rep_contains [OF r b0] b by simp
  then have run: "kvq_remove b q = (Inr (), snd (kvq_remove b q))"
    by (simp add: kvq_remove_def Let_def)
  have "kvq_rep (snd (kvq_remove b q)) (ys @ zs)"
  proof -
    let ?q = "snd (kvq_remove b q)"
    have prev: "kq_prev ?q c = (if hd_opt zs = Some c then last_opt ys else if c = b then None else kq_prev q c)"
      and nxt: "kq_next ?q c = (if last_opt ys = Some c then hd_opt zs else if c = b then None else kq_next q c)" for c
      using \<open>kvq_contains q b\<close> links d
      by (auto simp: kvq_remove_def Let_def hd_opt_def last_opt_def split: option.splits)
    have ends: "kq_head ?q = (if ys = [] then hd_opt zs else kq_head q)"
      "kq_tail ?q = (if zs = [] then last_opt ys else kq_tail q)" "kq_len ?q = kq_len q - 1"
      using \<open>kvq_contains q b\<close> links
      by (auto simp: kvq_remove_def Let_def hd_opt_def last_opt_def split: option.splits)
    show ?thesis
      using r d prev_of_unlink [OF d] next_of_unlink [OF d]
      unfolding kvq_rep_def xs prev nxt ends
      by (auto simp: hd_opt_def last_opt_def)
  qed
  with run rem show ?thesis by auto
qed

lemma next_of_determines:
  assumes "distinct xs" "distinct ys" "hd_opt xs = hd_opt ys" "length xs = length ys"
    and "\<And>b. b \<in> set xs \<union> set ys \<Longrightarrow> next_of xs b = next_of ys b"
  shows "xs = ys"
  using assms
proof (induction xs arbitrary: ys)
  case (Cons a xs)
  then obtain ys' where ys: "ys = a # ys'" by (cases ys) (auto simp: hd_opt_def)
  have "hd_opt xs = hd_opt ys'" using Cons.prems(5) [of a] by (simp add: ys next_of_Cons)
  moreover have "next_of xs b = next_of ys' b" if "b \<in> set xs \<union> set ys'" for b
    using Cons.prems(5) [of b] Cons.prems(1,2) that
    by (cases "b = a") (auto simp: ys next_of_Cons)
  ultimately show ?case using Cons by (simp add: ys)
qed simp

lemma kvq_rep_unique:
  assumes "kvq_rep q xs" and "kvq_rep q ys"
  shows "xs = ys"
proof (rule next_of_determines)
  show "next_of xs b = next_of ys b" if "b \<in> set xs \<union> set ys" for b
  proof -
    have "0 \<le> b" using assms that by (auto simp: kvq_rep_def)
    then show ?thesis using assms unfolding kvq_rep_def by metis
  qed
qed (use assms in \<open>auto simp: kvq_rep_def\<close>)

interpretation kvq: lru_queue kvq_rep kvq_append kvq_prepend kvq_popleft kvq_remove
  kvq_contains kvq_size
proof unfold_locales
  fix q xs ys x
  show "kvq_rep q xs \<Longrightarrow> distinct xs" by (simp add: kvq_rep_def)
  show "kvq_rep q xs \<Longrightarrow> x \<in> set xs \<Longrightarrow> 0 \<le> x" by (simp add: kvq_rep_def)
  show "kvq_rep q xs \<Longrightarrow> kvq_size q = int (length xs)" by (simp add: kvq_rep_def kvq_size_def)
  show "kvq_rep q xs \<Longrightarrow> 0 \<le> x \<Longrightarrow> kvq_contains q x \<longleftrightarrow> x \<in> set xs"
    by (rule kvq_rep_contains)
  show "kvq_rep q [] \<Longrightarrow> \<exists>e. kvq_popleft q = (Inl e, q)"
    by (simp add: kvq_rep_def kvq_popleft_def hd_opt_def)
  show "kvq_rep q xs \<Longrightarrow> 0 \<le> x \<Longrightarrow> x \<notin> set xs \<Longrightarrow> \<exists>e. kvq_remove x q = (Inl e, q)"
    using kvq_rep_contains [of q xs x] by (simp add: kvq_remove_def)
  show "kvq_rep q xs \<Longrightarrow> kvq_rep q ys \<Longrightarrow> xs = ys" by (rule kvq_rep_unique)
qed (fact kvq_append_ok kvq_prepend_ok kvq_popleft_ok kvq_remove_ok)+

end
