(* ===== verification/Kv_Arena.thy ===== *)
theory Kv_Arena
  imports Kv_Queue
begin

text \<open>
  The page-bundle pool of \<^verbatim>\<open>runtime/model/qwen36_kv_arena.py\<close> (\<^verbatim>\<open>QwenPageBundlePool\<close>): reference
  counts, published content hashes, copy-on-write targets and per-request reservations over
  the free queue of \<^verbatim>\<open>Kv_Queue\<close>.  The callback \<^verbatim>\<open>on_evict_cached\<close> is recorded as the list of
  bundle ids it was called with.
\<close>

record block_key =
  bk_value :: int
  bk_num_tokens :: int

text \<open>The per-bundle fields of \<^verbatim>\<open>QwenPageBundle\<close> are maps from bundle ids.\<close>

record arena =
  num_bundles :: int
  a_reserved :: int
  assert_inv :: bool
  b_ref :: "int \<Rightarrow> int"
  b_hash :: "int \<Rightarrow> block_key option"
  a_queue :: kvq
  hash_to_bundles :: "int \<Rightarrow> int list option"
  bundle_hashes :: "int \<Rightarrow> (int \<times> block_key) list option"
  pending_cow :: "(int \<times> int) list"
  watermark :: int
  reservations :: "(string \<times> int) list"
  evict_wired :: bool
  evicted_log :: "int list"

definition is_null :: "int \<Rightarrow> bool" where
  "is_null b \<longleftrightarrow> b = 0"

abbreviation aq :: "(kvq, 'a) prog \<Rightarrow> (arena, 'a) prog" where
  "aq \<equiv> on_field a_queue (\<lambda>q p. p\<lparr>a_queue := q\<rparr>)"

definition arena_init :: "int \<Rightarrow> int \<Rightarrow> int \<Rightarrow> bool \<Rightarrow> bool \<Rightarrow> arena res" where
  "arena_init n r wm asserting wired =
     (if n < 1 then Inl (ValueError ''num_bundles must be >= 1'')
      else if r < 1 then Inl (ValueError ''must reserve at least the null bundle (INV5/INV7)'')
      else if n \<le> r then Inl (ValueError ''num_bundles must exceed reserved'')
      else if wm < 0 then Inl (ValueError ''watermark_bundles must be >= 0'')
      else case for_each kvq_append [r..n - 1] kvq_init of
        (Inl e, _) \<Rightarrow> Inl e
      | (Inr _, q) \<Rightarrow> Inr \<lparr>num_bundles = n, a_reserved = r, assert_inv = asserting,
          b_ref = (\<lambda>_. 0), b_hash = (\<lambda>_. None), a_queue = q, hash_to_bundles = (\<lambda>_. None),
          bundle_hashes = (\<lambda>_. None), pending_cow = [], watermark = wm, reservations = [],
          evict_wired = wired, evicted_log = []\<rparr>)"

definition num_free_bundles :: "arena \<Rightarrow> int" where
  "num_free_bundles p = kvq_size (a_queue p)"

section \<open>The content index\<close>

text \<open>The loop body of \<^verbatim>\<open>_drop_hash\<close>: take the bundle out of the holders of one of its values.\<close>

definition drop_key :: "int \<Rightarrow> int \<times> block_key \<Rightarrow> (arena, unit) prog" where
  "drop_key b vk = reading (\<lambda>p. hash_to_bundles p (fst vk)) (\<lambda>h. case h of
     None \<Rightarrow> ret ()
   | Some hs \<Rightarrow>
       if hs = [] then ret ()
       else guard (b \<notin> set hs) (ValueError ''list.remove(x): x not in list'') (
         update (\<lambda>p. p\<lparr>hash_to_bundles := (hash_to_bundles p)(fst vk :=
           (if remove1 b hs = [] then None else Some (remove1 b hs)))\<rparr>)))"

definition drop_hash :: "int \<Rightarrow> (arena, block_key list) prog" where
  "drop_hash b = reading (\<lambda>p. bundle_hashes p b) (\<lambda>keys.
     andThen (update (\<lambda>p. p\<lparr>bundle_hashes := (bundle_hashes p)(b := None)\<rparr>)) (\<lambda>_.
     case keys of
       None \<Rightarrow> andThen (update (\<lambda>p. p\<lparr>b_hash := (b_hash p)(b := None)\<rparr>)) (\<lambda>_. ret [])
     | Some ks \<Rightarrow>
         if ks = [] then andThen (update (\<lambda>p. p\<lparr>b_hash := (b_hash p)(b := None)\<rparr>)) (\<lambda>_. ret [])
         else andThen (for_each (drop_key b) ks) (\<lambda>_.
           andThen (update (\<lambda>p. p\<lparr>b_hash := (b_hash p)(b := None)\<rparr>)) (\<lambda>_. ret (map snd ks)))))"

definition holders_of :: "arena \<Rightarrow> int \<Rightarrow> int list" where
  "holders_of p v = (case hash_to_bundles p v of None \<Rightarrow> [] | Some hs \<Rightarrow> hs)"

definition keys_of :: "arena \<Rightarrow> int \<Rightarrow> (int \<times> block_key) list" where
  "keys_of p b = (case bundle_hashes p b of None \<Rightarrow> [] | Some ks \<Rightarrow> ks)"

definition publish_bundle :: "int \<Rightarrow> block_key \<Rightarrow> (arena, unit) prog" where
  "publish_bundle b key =
     guard (is_null b) (RuntimeError ''null bundle can never be cached (INV5)'') (
     andThen (update (\<lambda>p. p\<lparr>bundle_hashes := (bundle_hashes p)(b \<mapsto> dict_set (keys_of p b) (bk_value key) key)\<rparr>)) (\<lambda>_.
     andThen (update (\<lambda>p. p\<lparr>hash_to_bundles := (hash_to_bundles p)(bk_value key \<mapsto>
         (let hs = holders_of p (bk_value key) in if b \<in> set hs then hs else hs @ [b]))\<rparr>)) (\<lambda>_.
     update (\<lambda>p. p\<lparr>b_hash := (b_hash p)(b \<mapsto> key)\<rparr>))))"

section \<open>The assertions\<close>

definition all_bundles :: "arena \<Rightarrow> int list" where
  "all_bundles p = [0..num_bundles p - 1]"

definition ref_live_unique :: "arena \<Rightarrow> int" where
  "ref_live_unique p = int (length (filter (\<lambda>b. b_ref p b > 0) (all_bundles p)))"

definition ref_cached_ref0 :: "arena \<Rightarrow> int" where
  "ref_cached_ref0 p = int (length (filter (\<lambda>b. b_ref p b = 0 \<and> b_hash p b \<noteq> None) (all_bundles p)))"

definition lifecycle_ok_one :: "arena \<Rightarrow> int \<Rightarrow> unit res" where
  "lifecycle_ok_one p b =
     (if is_null b then
        (if b_ref p b \<noteq> 0 \<or> b_hash p b \<noteq> None
         then Inl (RuntimeError ''null bundle must stay ref_cnt=0 and unhashed'') else Inr ())
      else if b_ref p b > 0 then
        (if kvq_contains (a_queue p) b
         then Inl (RuntimeError ''INV9: bundle is in the free queue at ref_cnt>0'') else Inr ())
      else if b_hash p b \<noteq> None then
        (if \<not> kvq_contains (a_queue p) b
         then Inl (RuntimeError ''cached bundle (ref_cnt=0, hashed) is not parked'') else Inr ())
      else
        (if \<not> kvq_contains (a_queue p) b
         then Inl (RuntimeError ''free-unhashed bundle is not in the free queue'') else Inr ()))"

fun first_error :: "('x \<Rightarrow> unit res) \<Rightarrow> 'x list \<Rightarrow> unit res" where
  "first_error f [] = Inr ()"
| "first_error f (x # xs) = (case f x of Inl e \<Rightarrow> Inl e | Inr _ \<Rightarrow> first_error f xs)"

definition assert_lifecycle :: "arena \<Rightarrow> unit res" where
  "assert_lifecycle p = first_error (lifecycle_ok_one p) (all_bundles p)"

definition assert_invariants :: "arena \<Rightarrow> unit res" where
  "assert_invariants p = (case assert_lifecycle p of
     Inl e \<Rightarrow> Inl e
   | Inr _ \<Rightarrow>
       (let usable = num_bundles p - a_reserved p;
            live = ref_live_unique p;
            cached = ref_cached_ref0 p;
            free = num_free_bundles p - cached
        in if free + cached + live \<noteq> usable then Inl (RuntimeError ''INV1 violated'') else Inr ()))"

definition maybe_invariant_check :: "(arena, unit) prog" where
  "maybe_invariant_check = (\<lambda>p. if assert_inv p then (assert_invariants p, p) else (Inr (), p))"

section \<open>Reservations\<close>

definition reserved_for :: "arena \<Rightarrow> string \<Rightarrow> int" where
  "reserved_for p owner = dict_get (reservations p) owner 0"

definition unreserved_free_bundles :: "arena \<Rightarrow> int" where
  "unreserved_free_bundles p = max 0 (num_free_bundles p - dict_sum (reservations p) - watermark p)"

definition consume_res :: "string \<Rightarrow> int \<Rightarrow> (arena, unit) prog" where
  "consume_res owner count = reading (\<lambda>p. map_of (reservations p) owner) (\<lambda>rem. case rem of
     None \<Rightarrow> ret ()
   | Some remaining \<Rightarrow>
       if count = 0 then ret ()
       else guard (count > remaining) (RuntimeError ''owner consumed more pages than reserved'') (
         update (\<lambda>p. p\<lparr>reservations :=
           (if remaining - count \<noteq> 0 then dict_set (reservations p) owner (remaining - count)
            else dict_del (reservations p) owner)\<rparr>)))"

definition consume_reservation :: "int \<Rightarrow> string \<Rightarrow> (arena, unit) prog" where
  "consume_reservation count owner =
     guard (count < 0) (ValueError ''cannot consume a negative count'') (consume_res owner count)"

definition release_reservation :: "string \<Rightarrow> (arena, int) prog" where
  "release_reservation owner = reading (\<lambda>p. reserved_for p owner) (\<lambda>r.
     andThen (update (\<lambda>p. p\<lparr>reservations := dict_del (reservations p) owner\<rparr>)) (\<lambda>_. ret r))"

definition check_admission_fits :: "int \<Rightarrow> string \<Rightarrow> bool \<Rightarrow> arena \<Rightarrow> bool res" where
  "check_admission_fits required owner include_watermark p =
     (if owner = [] then Inl (ValueError ''owner must be a non-empty string'')
      else let available = num_free_bundles p - dict_sum (dict_del (reservations p) owner)
                 - (if include_watermark then watermark p else 0)
           in Inr (required \<le> available))"

definition reserve :: "int \<Rightarrow> string \<Rightarrow> (arena, bool) prog" where
  "reserve count owner =
     guard (count < 0) (ValueError ''cannot reserve a negative count'') (
     guard (owner = []) (ValueError ''owner must be a non-empty string'') (
     reading (\<lambda>p. map_of (reservations p) owner \<noteq> None) (\<lambda>present.
     guard present (RuntimeError ''owner already has a KV reservation'') (
     reading (check_admission_fits count owner True) (\<lambda>fits. case fits of
       Inl e \<Rightarrow> raise e
     | Inr ok \<Rightarrow>
         if \<not> ok then ret False
         else if count \<noteq> 0
           then andThen (update (\<lambda>p. p\<lparr>reservations := dict_set (reservations p) owner count\<rparr>)) (\<lambda>_. ret True)
           else ret True)))))"

section \<open>Allocation and sharing\<close>

definition fire_evict :: "int \<Rightarrow> (arena, unit) prog" where
  "fire_evict b = update (\<lambda>p. if evict_wired p then p\<lparr>evicted_log := evicted_log p @ [b]\<rparr> else p)"

definition take_bundle :: "(arena, int) prog" where
  "take_bundle = andThen (aq kvq_popleft) (\<lambda>b. reading (\<lambda>p. (a_reserved p, b_ref p b, b_hash p b)) (\<lambda>(r, rc, h).
     guard (b < r) (RuntimeError ''INV7: reserved bundle was in the free queue'') (
     guard (rc \<noteq> 0) (RuntimeError ''bundle was in the free queue at ref_cnt != 0'') (
     andThen (if h \<noteq> None then andThen (drop_hash b) (\<lambda>_. fire_evict b) else ret ()) (\<lambda>_.
     andThen (update (\<lambda>p. p\<lparr>b_ref := (b_ref p)(b := 1)\<rparr>)) (\<lambda>_. ret b))))))"

primrec take_bundles :: "nat \<Rightarrow> int list \<Rightarrow> (arena, int list) prog" where
  "take_bundles 0 ids = ret ids"
| "take_bundles (Suc k) ids = andThen take_bundle (\<lambda>b. take_bundles k (ids @ [b]))"

definition kv_allocate :: "int \<Rightarrow> string \<Rightarrow> (arena, int list) prog" where
  "kv_allocate count owner =
     guard (count < 0) (ValueError ''cannot allocate a negative count'') (
     guard (owner = []) (ValueError ''owner must be a non-empty string'') (
     reading (\<lambda>p. (num_free_bundles p, reserved_for p owner, unreserved_free_bundles p)) (\<lambda>(free, own, unres).
     guard (count > free) (RuntimeError ''bundle pool exhausted'') (
     guard (own \<noteq> 0 \<and> count > own) (RuntimeError ''owner requested more bundles than reserved'') (
     guard (own = 0 \<and> count > unres) (RuntimeError ''bundle allocation would consume reserved capacity'') (
     andThen (take_bundles (nat count) []) (\<lambda>ids.
     andThen (consume_res owner count) (\<lambda>_.
     andThen maybe_invariant_check (\<lambda>_. ret ids)))))))))"

definition check_id :: "string \<Rightarrow> int \<Rightarrow> (arena, unit) prog" where
  "check_id msg b = reading (\<lambda>p. (a_reserved p, num_bundles p)) (\<lambda>(r, n).
     guard (b < r) (RuntimeError msg) (
     guard (b \<ge> n) (RuntimeError ''bundle is out of range'') (ret ())))"

definition incref_one :: "int \<Rightarrow> (arena, unit) prog" where
  "incref_one b = andThen (check_id ''INV7: cannot reference reserved bundle'' b) (\<lambda>_.
     reading (\<lambda>p. (b_ref p b, kvq_contains (a_queue p) b, b_hash p b)) (\<lambda>(rc, queued, h).
     andThen
       (if rc = 0 then
          (if queued then
             guard (h = None) (RuntimeError ''cannot reference freed-unhashed bundle'') (aq (kvq_remove b))
           else raise (RuntimeError ''cannot reference bundle at ref_cnt=0 not in free queue''))
        else ret ()) (\<lambda>_.
     update (\<lambda>p. p\<lparr>b_ref := (b_ref p)(b := b_ref p b + 1)\<rparr>))))"

definition incref :: "int list \<Rightarrow> string \<Rightarrow> (arena, unit) prog" where
  "incref ids owner =
     guard (owner = []) (ValueError ''owner must be a non-empty string'') (
     andThen (for_each (check_id ''INV7: cannot reference reserved bundle'') ids) (\<lambda>_.
     reading (\<lambda>p. (int (length (filter (\<lambda>b. b_ref p b = 0) ids)), reserved_for p owner,
                     unreserved_free_bundles p)) (\<lambda>(revivals, own, unres).
     guard (revivals > own \<and> revivals - own > unres)
       (RuntimeError ''cached hit would consume reserved capacity'') (
     andThen (for_each incref_one ids) (\<lambda>_. maybe_invariant_check)))))"

definition decref_one :: "int \<Rightarrow> (arena, unit) prog" where
  "decref_one b = andThen (check_id ''INV7: cannot free reserved bundle'' b) (\<lambda>_.
     reading (\<lambda>p. (b_ref p b, b_hash p b)) (\<lambda>(rc, h).
     guard (rc \<le> 0) (RuntimeError ''double-free of bundle'') (
     andThen (update (\<lambda>p. p\<lparr>b_ref := (b_ref p)(b := rc - 1)\<rparr>)) (\<lambda>_.
       if rc - 1 = 0 then
         (if h \<noteq> None then aq (kvq_append b) else aq (kvq_prepend b))
       else ret ()))))"

definition decref :: "int list \<Rightarrow> string \<Rightarrow> (arena, unit) prog" where
  "decref ids owner =
     guard (owner = []) (ValueError ''owner must be a non-empty string'') (
     andThen (for_each decref_one ids) (\<lambda>_. maybe_invariant_check))"

definition ensure_writable :: "int \<Rightarrow> string \<Rightarrow> (arena, int) prog" where
  "ensure_writable b owner = reading (\<lambda>p. (a_reserved p, num_bundles p, b_ref p b, b_hash p b)) (\<lambda>(r, n, rc, h).
     guard (b < r) (RuntimeError ''INV7: cannot write to reserved bundle'') (
     guard (b \<ge> n) (IndexError ''list index out of range'') (
     if rc = 1 \<and> \<not> is_null b \<and> h = None then ret b
     else guard (rc = 0) (RuntimeError ''ensure_writable on free bundle'') (
       andThen (kv_allocate 1 owner) (\<lambda>fresh. case fresh of
         [] \<Rightarrow> raise (IndexError ''list index out of range'')
       | target # _ \<Rightarrow>
           andThen (update (\<lambda>p. p\<lparr>pending_cow := dict_set (pending_cow p) target b\<rparr>)) (\<lambda>_.
           ret target))))))"

section \<open>Publication, lookup and eviction\<close>

text \<open>A negative id reads the list from its end before the reserved-id guard is reached.\<close>

definition publish_guarded :: "int \<Rightarrow> block_key \<Rightarrow> (arena, unit) prog" where
  "publish_guarded b key = reading (\<lambda>p. (num_bundles p, a_reserved p)) (\<lambda>(n, r).
     guard (b \<ge> n) (RuntimeError ''bundle is out of range'') (
     case py_index n b of
       None \<Rightarrow> raise (IndexError ''list index out of range'')
     | Some i \<Rightarrow>
         guard (is_null i) (RuntimeError ''null bundle can never be cached (INV5)'') (
         guard (b < r) (RuntimeError ''INV7: cannot cache reserved bundle'') (
         reading (\<lambda>p. b_ref p i) (\<lambda>rc.
         guard (rc < 1) (RuntimeError ''cannot publish a hash for free bundle (ref_cnt=0)'') (
         publish_bundle i key))))))"

definition publish_full_block :: "int \<Rightarrow> block_key \<Rightarrow> (arena, unit) prog" where
  "publish_full_block b key = andThen (publish_guarded b key) (\<lambda>_. maybe_invariant_check)"

definition cache_full_blocks :: "block_key list \<Rightarrow> int list \<Rightarrow> (arena, unit) prog" where
  "cache_full_blocks keys ids =
     guard (length keys \<noteq> length ids) (ValueError ''keys and bundle_ids must have equal length'') (
     andThen (for_each (\<lambda>(key, b). publish_guarded b key) (zip keys ids)) (\<lambda>_. maybe_invariant_check))"

record prefix_hit =
  ph_num_blocks :: int
  ph_effective_tokens :: int
  ph_bundle_ids :: "int list"
  ph_hit :: bool

fun lookup_loop :: "arena \<Rightarrow> block_key list \<Rightarrow> int list" where
  "lookup_loop p [] = []"
| "lookup_loop p (k # ks) = (case hash_to_bundles p (bk_value k) of
     None \<Rightarrow> []
   | Some [] \<Rightarrow> []
   | Some (h # _) \<Rightarrow> h # lookup_loop p ks)"

definition no_hit :: prefix_hit where
  "no_hit = \<lparr>ph_num_blocks = 0, ph_effective_tokens = 0, ph_bundle_ids = [], ph_hit = False\<rparr>"

definition lookup_longest_prefix :: "block_key list \<Rightarrow> nat option \<Rightarrow> arena \<Rightarrow> prefix_hit" where
  "lookup_longest_prefix keys max_blocks p =
     (if keys = [] then no_hit
      else let limit = (case max_blocks of None \<Rightarrow> length keys | Some m \<Rightarrow> min m (length keys));
               ids = lookup_loop p (take limit keys)
           in if ids = [] then no_hit
              else \<lparr>ph_num_blocks = int (length ids),
                    ph_effective_tokens = bk_num_tokens (keys ! (length ids - 1)),
                    ph_bundle_ids = ids, ph_hit = True\<rparr>)"

definition evict_candidate :: "int \<Rightarrow> (arena, unit) prog" where
  "evict_candidate b = reading (\<lambda>p. kvq_contains (a_queue p) b) (\<lambda>queued.
     andThen (if queued then aq (kvq_remove b) else ret ()) (\<lambda>_.
     andThen (drop_hash b) (\<lambda>_.
     andThen (fire_evict b) (\<lambda>_.
     aq (kvq_prepend b)))))"

fun evict_loop :: "int \<Rightarrow> int \<Rightarrow> int list \<Rightarrow> (arena, int) prog" where
  "evict_loop count evicted [] = ret evicted"
| "evict_loop count evicted (b # bs) =
     (if evicted \<ge> count then ret evicted
      else andThen (evict_candidate b) (\<lambda>_. evict_loop count (evicted + 1) bs))"

definition cached_ids :: "arena \<Rightarrow> int list" where
  "cached_ids p = filter (\<lambda>b. b_ref p b = 0 \<and> b_hash p b \<noteq> None) (all_bundles p)"

definition evict_cached :: "int \<Rightarrow> (arena, int) prog" where
  "evict_cached count =
     guard (count < 0) (ValueError ''cannot evict a negative count'') (
     reading cached_ids (\<lambda>candidates.
     andThen (evict_loop count 0 candidates) (\<lambda>evicted.
     andThen maybe_invariant_check (\<lambda>_. ret evicted))))"

definition drain_pending_cow :: "(arena, (int \<times> int) list) prog" where
  "drain_pending_cow = reading (\<lambda>p. sort_key fst (pending_cow p)) (\<lambda>pairs.
     andThen (update (\<lambda>p. p\<lparr>pending_cow := []\<rparr>)) (\<lambda>_. ret pairs))"

record kv_usage =
  total_bundles :: int
  free_bundles :: int
  live_bundles :: int
  cached_bundles :: int
  reserved_bundles :: int
  request_reserved_bundles :: int
  watermark_bundles :: int
  cow_pending :: int
  live_unique_bundles :: int

definition arena_usage :: "arena \<Rightarrow> kv_usage" where
  "arena_usage p = (let live = ref_live_unique p; cached = ref_cached_ref0 p in
     \<lparr>total_bundles = num_bundles p, free_bundles = num_free_bundles p, live_bundles = live,
      cached_bundles = cached, reserved_bundles = a_reserved p,
      request_reserved_bundles = dict_sum (reservations p), watermark_bundles = watermark p,
      cow_pending = int (length (pending_cow p)), live_unique_bundles = live\<rparr>)"


section \<open>The invariant of the pool\<close>

definition usable :: "arena \<Rightarrow> int \<Rightarrow> bool" where
  "usable p b \<longleftrightarrow> a_reserved p \<le> b \<and> b < num_bundles p"

text \<open>The free queue spells \<open>xs\<close>, the usable bundles nobody references.\<close>

definition arena_at :: "arena \<Rightarrow> int list \<Rightarrow> bool" where
  "arena_at p xs \<longleftrightarrow>
     kvq_rep (a_queue p) xs \<and> 1 \<le> a_reserved p \<and> a_reserved p < num_bundles p \<and>
     (\<forall>b. 0 \<le> b_ref p b) \<and> (\<forall>b. \<not> usable p b \<longrightarrow> b_ref p b = 0) \<and>
     set xs = {b. usable p b \<and> b_ref p b = 0}"

text \<open>
  The index from hash values to bundles and the one from bundles to their published keys are
  inverse to each other, and a bundle carries a hash exactly while it has a published key.
\<close>

definition idx_ok :: "arena \<Rightarrow> bool" where
  "idx_ok p \<longleftrightarrow>
     (\<forall>v. hash_to_bundles p v \<noteq> Some []) \<and> (\<forall>b. bundle_hashes p b \<noteq> Some []) \<and>
     (\<forall>v. distinct (holders_of p v)) \<and> (\<forall>b. distinct (map fst (keys_of p b))) \<and>
     (\<forall>v b. b \<in> set (holders_of p v) \<longleftrightarrow> v \<in> fst ` set (keys_of p b)) \<and>
     (\<forall>b. b_hash p b = None \<longleftrightarrow> keys_of p b = []) \<and>
     (\<forall>b. keys_of p b \<noteq> [] \<longrightarrow> usable p b)"

definition res_ok :: "arena \<Rightarrow> bool" where
  "res_ok p \<longleftrightarrow> distinct (map fst (reservations p)) \<and> (\<forall>(_, c) \<in> set (reservations p). 0 < c)"

definition arena_wf :: "arena \<Rightarrow> bool" where
  "arena_wf p \<longleftrightarrow> (\<exists>xs. arena_at p xs) \<and> idx_ok p \<and> res_ok p"

lemma arena_atD:
  assumes "arena_at p xs"
  shows "kvq_rep (a_queue p) xs" and "1 \<le> a_reserved p" and "a_reserved p < num_bundles p"
    and "0 \<le> b_ref p b" and "b \<in> set xs \<longleftrightarrow> usable p b \<and> b_ref p b = 0" and "distinct xs"
    and "num_free_bundles p = int (length xs)" and "0 \<le> b \<Longrightarrow> kvq_contains (a_queue p) b \<longleftrightarrow> b \<in> set xs"
    and "\<not> usable p b \<Longrightarrow> b_ref p b = 0" and "usable p b \<Longrightarrow> 0 < b"
  using assms kvq.rep_distinct kvq.rep_size kvq.rep_member
  by (auto simp: arena_at_def num_free_bundles_def usable_def)

lemma arena_at_unique: "arena_at p xs \<Longrightarrow> arena_at p ys \<Longrightarrow> xs = ys"
  using kvq.rep_unique by (auto simp: arena_at_def)

text \<open>What no operation on bundles touches.\<close>

definition same_admin :: "arena \<Rightarrow> arena \<Rightarrow> bool" where
  "same_admin p p' \<longleftrightarrow> num_bundles p' = num_bundles p \<and> a_reserved p' = a_reserved p \<and>
     assert_inv p' = assert_inv p \<and> pending_cow p' = pending_cow p \<and> watermark p' = watermark p \<and>
     reservations p' = reservations p \<and> evict_wired p' = evict_wired p"

lemma same_admin_trans: "same_admin p q \<Longrightarrow> same_admin q r \<Longrightarrow> same_admin p r"
  by (simp add: same_admin_def)

lemma same_admin_refl [simp]: "same_admin p p"
  by (simp add: same_admin_def)

lemma res_ok_cong: "same_admin p p' \<Longrightarrow> res_ok p' = res_ok p"
  by (simp add: same_admin_def res_ok_def)

lemma idx_ok_cong [simp]:
  "idx_ok (p\<lparr>a_queue := q\<rparr>) = idx_ok p" "idx_ok (p\<lparr>b_ref := r\<rparr>) = idx_ok p"
  "idx_ok (p\<lparr>evicted_log := l\<rparr>) = idx_ok p" "idx_ok (p\<lparr>reservations := rs\<rparr>) = idx_ok p"
  "idx_ok (p\<lparr>pending_cow := c\<rparr>) = idx_ok p"
  by (simp_all add: idx_ok_def holders_of_def keys_of_def usable_def)

subsection \<open>Dropping the hashes of a bundle\<close>

definition without :: "int \<Rightarrow> int list \<Rightarrow> int list option" where
  "without b hs = (if remove1 b hs = [] then None else Some (remove1 b hs))"

definition dropped :: "int \<Rightarrow> arena \<Rightarrow> arena" where
  "dropped b p = p\<lparr>bundle_hashes := (bundle_hashes p)(b := None), b_hash := (b_hash p)(b := None),
     hash_to_bundles := (\<lambda>v. if b \<in> set (holders_of p v) then without b (holders_of p v)
       else hash_to_bundles p v)\<rparr>"

lemma drop_keys_run:
  assumes "distinct (map fst ks)" and "\<forall>vk \<in> set ks. b \<in> set (holders_of p (fst vk))"
  shows "for_each (drop_key b) ks p = (Inr (), p\<lparr>hash_to_bundles := (\<lambda>v.
    if v \<in> fst ` set ks then without b (holders_of p v) else hash_to_bundles p v)\<rparr>)"
  using assms
proof (induction ks arbitrary: p)
  case Nil
  then show ?case by simp
next
  case (Cons vk ks)
  let ?p = "p\<lparr>hash_to_bundles := (hash_to_bundles p)(fst vk := without b (holders_of p (fst vk)))\<rparr>"
  have "b \<in> set (holders_of p (fst vk))" using Cons.prems(2) by simp
  then have run: "drop_key b vk p = (Inr (), ?p)"
    by (auto simp: drop_key_def holders_of_def without_def split: option.splits)
  have same: "holders_of ?p v = holders_of p v" if "v \<noteq> fst vk" for v
    using that by (simp add: holders_of_def)
  have ne: "fst vk \<notin> fst ` set ks" using Cons.prems(1) by simp
  let ?F = "\<lambda>v. if v \<in> fst ` set ks then without b (holders_of ?p v) else hash_to_bundles ?p v"
  let ?G = "\<lambda>v. if v \<in> fst ` set (vk # ks) then without b (holders_of p v) else hash_to_bundles p v"
  have eq: "?F = ?G"
  proof
    fix v
    show "?F v = ?G v" using ne same [of v] by (cases "v = fst vk") simp_all
  qed
  have "for_each (drop_key b) (vk # ks) p = for_each (drop_key b) ks ?p"
    by (simp add: andThen_def run)
  also have "\<dots> = (Inr (), ?p\<lparr>hash_to_bundles := ?F\<rparr>)"
  proof (rule Cons.IH)
    show "\<forall>wk \<in> set ks. b \<in> set (holders_of ?p (fst wk))"
      using Cons.prems(2) ne same by (metis imageI list.set_intros(2))
  qed (use Cons.prems(1) in simp)
  also have "\<dots> = (Inr (), p\<lparr>hash_to_bundles := ?G\<rparr>)"
    unfolding eq by simp
  finally show ?case .
qed

lemma idx_okD:
  assumes "idx_ok p"
  shows "bundle_hashes p b \<noteq> Some []" and "hash_to_bundles p v \<noteq> Some []"
    and "distinct (holders_of p v)" and "distinct (map fst (keys_of p b))"
    and "b \<in> set (holders_of p v) \<longleftrightarrow> v \<in> fst ` set (keys_of p b)"
    and "b_hash p b = None \<longleftrightarrow> keys_of p b = []" and "b_hash p b \<noteq> None \<Longrightarrow> usable p b"
proof -
  show *: "b_hash p b = None \<longleftrightarrow> keys_of p b = []" for b
    using assms unfolding idx_ok_def by (elim conjE) (erule allE, assumption)
  have "keys_of p b \<noteq> [] \<longrightarrow> usable p b"
    using assms unfolding idx_ok_def by (elim conjE) (erule allE, assumption)
  with * show "b_hash p b \<noteq> None \<Longrightarrow> usable p b" by simp
  show "b \<in> set (holders_of p v) \<longleftrightarrow> v \<in> fst ` set (keys_of p b)"
    using assms unfolding idx_ok_def by (elim conjE) (erule allE, erule allE, assumption)
  show "bundle_hashes p b \<noteq> Some []" "hash_to_bundles p v \<noteq> Some []"
    "distinct (holders_of p v)" "distinct (map fst (keys_of p b))"
    using assms by (simp_all add: idx_ok_def)
qed

lemma drop_hash_run:
  assumes "idx_ok p"
  shows "drop_hash b p = (Inr (map snd (keys_of p b)), dropped b p)"
proof (cases "bundle_hashes p b")
  case None
  then have "keys_of p b = []" by (simp add: keys_of_def)
  then have "b \<notin> set (holders_of p v)" for v using idx_okD(5) [OF assms, of b v] by simp
  then show ?thesis
    using None \<open>keys_of p b = []\<close> by (simp add: drop_hash_def dropped_def)
next
  case (Some ks)
  then have ks: "keys_of p b = ks" "ks \<noteq> []"
    using idx_okD(1) [OF assms] by (auto simp: keys_of_def)
  let ?p = "p\<lparr>bundle_hashes := (bundle_hashes p)(b := None)\<rparr>"
  have h: "holders_of ?p = holders_of p" by (simp add: holders_of_def fun_eq_iff)
  have "for_each (drop_key b) ks ?p = (Inr (), ?p\<lparr>hash_to_bundles := (\<lambda>v.
      if v \<in> fst ` set ks then without b (holders_of ?p v) else hash_to_bundles ?p v)\<rparr>)"
    using idx_okD(4,5) [OF assms, of b] ks by (intro drop_keys_run) (auto simp: h)
  moreover have "(\<lambda>v. if v \<in> fst ` set ks then without b (holders_of ?p v) else hash_to_bundles ?p v) =
      (\<lambda>v. if b \<in> set (holders_of p v) then without b (holders_of p v) else hash_to_bundles p v)"
    using idx_okD(5) [OF assms] ks by (simp add: h fun_eq_iff)
  ultimately show ?thesis
    using Some ks by (simp add: drop_hash_def dropped_def andThen_def)
qed

lemma dropped_views [simp]:
  "holders_of (dropped b p) v = remove1 b (holders_of p v)"
  "keys_of (dropped b p) c = (if c = b then [] else keys_of p c)"
  "b_hash (dropped b p) = (b_hash p)(b := None)" "b_ref (dropped b p) = b_ref p"
  "a_queue (dropped b p) = a_queue p" "same_admin p (dropped b p)"
  "evicted_log (dropped b p) = evicted_log p" "usable (dropped b p) = usable p"
  by (auto simp: dropped_def holders_of_def keys_of_def without_def remove1_idem same_admin_def
      usable_def fun_eq_iff split: option.splits)

lemma idx_ok_dropped:
  assumes "idx_ok p"
  shows "idx_ok (dropped b p)"
proof -
  have "hash_to_bundles (dropped b p) v \<noteq> Some []" for v
    using idx_okD(2) [OF assms] by (simp add: dropped_def without_def)
  moreover have "bundle_hashes (dropped b p) c \<noteq> Some []" for c
    using idx_okD(1) [OF assms] by (simp add: dropped_def)
  moreover have "distinct (remove1 b (holders_of p v))" for v
    using idx_okD(3) [OF assms] by simp
  moreover have "c \<in> set (remove1 b (holders_of p v)) \<longleftrightarrow> v \<in> fst ` set (if c = b then [] else keys_of p c)" for c v
    using idx_okD(3,5) [OF assms] by simp
  ultimately show ?thesis
    using idx_okD(4,6,7) [OF assms] unfolding idx_ok_def dropped_views by auto
qed

subsection \<open>Handing out bundles\<close>

lemma take_bundle_at:
  assumes "arena_at p (b # xs)" and "idx_ok p"
  obtains p' where "take_bundle p = (Inr b, p')" and "arena_at p' xs" and "idx_ok p'" and "same_admin p p'"
    and "b_ref p' = (b_ref p)(b := 1)" and "b_hash p' = (b_hash p)(b := None)"
    and "evicted_log p' = evicted_log p @ (if evict_wired p \<and> b_hash p b \<noteq> None then [b] else [])"
proof -
  note at = arena_atD [OF assms(1)]
  obtain q' where q': "kvq_popleft (a_queue p) = (Inr b, q')" "kvq_rep q' xs"
    using at(1) by (rule kvq.deqE)
  have b: "usable p b" "b_ref p b = 0" "b \<notin> set xs" using at(5) [of b] at(6) by auto
  let ?q = "p\<lparr>a_queue := q'\<rparr>"
  let ?d = "if b_hash p b \<noteq> None then snd (fire_evict b (dropped b ?q)) else ?q"
  let ?p = "?d\<lparr>b_ref := (b_ref p)(b := 1)\<rparr>"
  have ix: "idx_ok ?q" using assms(2) by simp
  have run: "take_bundle p = (Inr b, ?p)"
    using q'(1) b drop_hash_run [OF ix, of b]
    by (simp add: take_bundle_def andThen_def on_field_def usable_def fire_evict_def)
  have d: "usable ?p = usable p" "num_bundles ?p = num_bundles p" "a_reserved ?p = a_reserved p"
    "a_queue ?p = q'" "b_hash ?p = (b_hash p)(b := None)"
    by (auto simp: fire_evict_def usable_def dropped_def fun_eq_iff)
  have "arena_at ?p xs"
    using assms(1) q'(2) b d by (auto simp: arena_at_def)
  moreover have "idx_ok ?p"
    using idx_ok_dropped [OF ix, of b] ix by (simp add: fire_evict_def)
  moreover have "same_admin p ?p" by (auto simp: same_admin_def fire_evict_def dropped_def)
  moreover have "evicted_log ?p = evicted_log p @ (if evict_wired p \<and> b_hash p b \<noteq> None then [b] else [])"
    by (auto simp: fire_evict_def dropped_def)
  ultimately show ?thesis using that [OF run] d(5) by simp
qed

lemma take_bundles_at:
  assumes "arena_at p xs" and "idx_ok p" and "n \<le> length xs"
  shows "\<exists>p'. take_bundles n ids p = (Inr (ids @ take n xs), p') \<and> arena_at p' (drop n xs) \<and>
    idx_ok p' \<and> same_admin p p' \<and>
    (\<forall>c. b_ref p' c = (if c \<in> set (take n xs) then 1 else b_ref p c)) \<and>
    (\<forall>c. b_hash p' c = (if c \<in> set (take n xs) then None else b_hash p c))"
  using assms
proof (induction n arbitrary: p xs ids)
  case 0
  then show ?case by simp
next
  case (Suc n)
  then obtain b ys where xs: "xs = b # ys" by (cases xs) auto
  obtain p1 where p1: "take_bundle p = (Inr b, p1)" "arena_at p1 ys" "idx_ok p1" "same_admin p p1"
    "b_ref p1 = (b_ref p)(b := 1)" "b_hash p1 = (b_hash p)(b := None)"
    using Suc.prems(1,2) unfolding xs by (rule take_bundle_at)
  obtain p2 where p2: "take_bundles n (ids @ [b]) p1 = (Inr ((ids @ [b]) @ take n ys), p2)"
    "arena_at p2 (drop n ys)" "idx_ok p2" "same_admin p1 p2"
    "\<forall>c. b_ref p2 c = (if c \<in> set (take n ys) then 1 else b_ref p1 c)"
    "\<forall>c. b_hash p2 c = (if c \<in> set (take n ys) then None else b_hash p1 c)"
    using Suc.IH [OF p1(2,3), of "ids @ [b]"] Suc.prems(3) xs by auto
  show ?case
    using p1 p2 same_admin_trans [OF p1(4) p2(4)] by (auto simp: xs andThen_def)
qed

subsection \<open>The assertions hold\<close>

lemma first_error_ok: "(\<And>x. x \<in> set xs \<Longrightarrow> f x = Inr ()) \<Longrightarrow> first_error f xs = Inr ()"
  by (induction xs) auto

lemma live_and_free:
  assumes "arena_at p xs"
  shows "int (length xs) + ref_live_unique p = num_bundles p - a_reserved p"
proof -
  note at = arena_atD [OF assms]
  let ?live = "filter (\<lambda>b. b_ref p b > 0) (all_bundles p)"
  have "set (xs @ ?live) = {a_reserved p..<num_bundles p}"
  proof -
    have "b \<in> set (xs @ ?live) \<longleftrightarrow> b \<in> {a_reserved p..<num_bundles p}" for b
      using at(2,3) at(4) [of b] at(5) [of b] at(9) [of b] by (auto simp: all_bundles_def usable_def)
    then show ?thesis by blast
  qed
  moreover have "distinct (xs @ ?live)"
    using at(5,6) by (auto simp: all_bundles_def)
  ultimately have "length (xs @ ?live) = card {a_reserved p..<num_bundles p}"
    by (metis distinct_card)
  then show ?thesis using at(3) by (simp add: ref_live_unique_def)
qed

lemma assert_invariants_ok:
  assumes "arena_at p xs" and "idx_ok p" and "a_reserved p = 1"
  shows "assert_invariants p = Inr ()"
proof -
  note at = arena_atD [OF assms(1)]
  have "lifecycle_ok_one p b = Inr ()" if "b \<in> set (all_bundles p)" for b
  proof (cases "b = 0")
    case True
    then have "\<not> usable p b" using assms(3) by (simp add: usable_def)
    then have "b_ref p b = 0" "b_hash p b = None"
      using at(9) [of b] idx_okD(7) [OF assms(2), of b] by blast+
    then show ?thesis
      using True by (simp add: lifecycle_ok_one_def is_null_def)
  next
    case False
    then have "usable p b" "0 \<le> b" using that assms(3) by (auto simp: usable_def all_bundles_def)
    then show ?thesis
      using at(4) [of b] at(5) [of b] at(8) [of b] False by (auto simp: lifecycle_ok_one_def is_null_def)
  qed
  then have "assert_lifecycle p = Inr ()" by (simp add: assert_lifecycle_def first_error_ok)
  then show ?thesis
    using live_and_free [OF assms(1)] at(7) by (simp add: assert_invariants_def Let_def)
qed


subsection \<open>Sharing, release, publication and eviction of one bundle\<close>

lemma check_id_run:
  "check_id msg b p = (if usable p b then (Inr (), p)
     else (Inl (RuntimeError (if b < a_reserved p then msg else ''bundle is out of range'')), p))"
  by (simp add: check_id_def usable_def)

lemma arena_at_same:
  assumes "same_admin p p'" and "arena_at p xs" and "kvq_rep (a_queue p') ys"
    and "\<And>b. 0 \<le> b_ref p' b" and "\<And>b. \<not> usable p b \<Longrightarrow> b_ref p' b = 0"
    and "set ys = {b. usable p b \<and> b_ref p' b = 0}"
  shows "arena_at p' ys"
  using assms by (simp add: arena_at_def same_admin_def usable_def)

text \<open>A bundle that \<^verbatim>\<open>incref\<close> accepts: live, or parked with a published hash.\<close>

definition revivable :: "arena \<Rightarrow> int \<Rightarrow> bool" where
  "revivable p b \<longleftrightarrow> usable p b \<and> (b_ref p b = 0 \<longrightarrow> b_hash p b \<noteq> None)"

lemma incref_one_at:
  assumes "arena_at p xs" and "revivable p b"
  obtains p' where "incref_one b p = (Inr (), p')" and "arena_at p' (remove1 b xs)" and "same_admin p p'"
    and "b_ref p' = (b_ref p)(b := b_ref p b + 1)" and "b_hash p' = b_hash p"
    and "idx_ok p' = idx_ok p" and "hash_to_bundles p' = hash_to_bundles p"
proof -
  note at = arena_atD [OF assms(1)]
  have b: "usable p b" "0 \<le> b" using assms(2) at(10) [of b] by (auto simp: revivable_def)
  have "\<exists>q'. incref_one b p = (Inr (), p\<lparr>a_queue := q', b_ref := (b_ref p)(b := b_ref p b + 1)\<rparr>) \<and>
      kvq_rep q' (remove1 b xs)"
  proof (cases "b \<in> set xs")
    case True
    then obtain q' where "kvq_remove b (a_queue p) = (Inr (), q')" "kvq_rep q' (remove1 b xs)"
      using at(1) kvq.delE by blast
    then show ?thesis
      using True assms(2) at(5) [of b] at(8) [OF b(2)] b
      by (intro exI [of _ q']) (auto simp: incref_one_def andThen_def check_id_run on_field_def revivable_def)
  next
    case False
    then have "b_ref p b \<noteq> 0" using at(5) [of b] b by simp
    then show ?thesis
      using False at(1) b
      by (intro exI [of _ "a_queue p"]) (simp add: incref_one_def andThen_def check_id_run remove1_idem)
  qed
  then obtain q' where q': "kvq_rep q' (remove1 b xs)"
    "incref_one b p = (Inr (), p\<lparr>a_queue := q', b_ref := (b_ref p)(b := b_ref p b + 1)\<rparr>)" by blast
  let ?p = "p\<lparr>a_queue := q', b_ref := (b_ref p)(b := b_ref p b + 1)\<rparr>"
  have "same_admin p ?p" by (simp add: same_admin_def)
  moreover have "arena_at ?p (remove1 b xs)"
  proof (rule arena_at_same [OF \<open>same_admin p ?p\<close> assms(1)])
    have "b_ref p b + 1 \<noteq> 0" using at(4) [of b] by simp
    then show "set (remove1 b xs) = {c. usable p c \<and> b_ref ?p c = 0}"
      using at(5,6) by (auto simp: set_remove1_eq)
    show "0 \<le> b_ref ?p c" for c using at(4) [of c] at(4) [of b] by simp
    show "\<not> usable p c \<Longrightarrow> b_ref ?p c = 0" for c using at(9) [of c] b by auto
  qed (use q' in simp)
  ultimately show ?thesis using q'(2) that [of ?p] by simp
qed

lemma incref_one_bad:
  assumes "arena_at p xs" and "\<not> revivable p b"
  shows "\<exists>e. incref_one b p = (Inl (RuntimeError e), p)"
  using assms(2) by (auto simp: incref_one_def andThen_def check_id_run revivable_def)

lemma decref_one_at:
  assumes "arena_at p xs" and "usable p b" and "0 < b_ref p b"
  obtains p' where "decref_one b p = (Inr (), p')" and "same_admin p p'"
    and "arena_at p' (if 1 < b_ref p b then xs else if b_hash p b = None then b # xs else xs @ [b])"
    and "b_ref p' = (b_ref p)(b := b_ref p b - 1)" and "b_hash p' = b_hash p" and "idx_ok p' = idx_ok p"
proof -
  note at = arena_atD [OF assms(1)]
  have b: "0 \<le> b" "b \<notin> set xs" using assms at(5) [of b] at(10) [of b] by auto
  let ?xs = "if 1 < b_ref p b then xs else if b_hash p b = None then b # xs else xs @ [b]"
  have "\<exists>q'. decref_one b p = (Inr (), p\<lparr>b_ref := (b_ref p)(b := b_ref p b - 1), a_queue := q'\<rparr>) \<and>
      kvq_rep q' ?xs"
  proof (cases "1 < b_ref p b")
    case True
    then show ?thesis
      using at(1) assms(2) by (intro exI [of _ "a_queue p"]) (simp add: decref_one_def andThen_def check_id_run)
  next
    case False
    then have one: "b_ref p b = 1" using assms(3) by simp
    obtain qt where qt: "kvq_append b (a_queue p) = (Inr (), qt)" "kvq_rep qt (xs @ [b])"
      using at(1) b by (rule kvq.enq_tailE)
    obtain qh where qh: "kvq_prepend b (a_queue p) = (Inr (), qh)" "kvq_rep qh (b # xs)"
      using at(1) b by (rule kvq.enq_headE)
    show ?thesis
      using qt qh one assms(2)
      by (intro exI [of _ "if b_hash p b = None then qh else qt"])
        (simp add: decref_one_def andThen_def check_id_run on_field_def)
  qed
  then obtain q' where q': "kvq_rep q' ?xs"
    "decref_one b p = (Inr (), p\<lparr>b_ref := (b_ref p)(b := b_ref p b - 1), a_queue := q'\<rparr>)" by blast
  let ?p = "p\<lparr>b_ref := (b_ref p)(b := b_ref p b - 1), a_queue := q'\<rparr>"
  have "same_admin p ?p" by (simp add: same_admin_def)
  moreover have "arena_at ?p ?xs"
  proof (rule arena_at_same [OF \<open>same_admin p ?p\<close> assms(1)])
    show "set ?xs = {c. usable p c \<and> b_ref ?p c = 0}"
      using at(5) assms(2,3) by (auto split: if_splits)
    show "0 \<le> b_ref ?p c" for c using at(4) [of c] assms(3) by auto
    show "\<not> usable p c \<Longrightarrow> b_ref ?p c = 0" for c using at(9) [of c] assms(2) by auto
  qed (use q' in simp)
  ultimately show ?thesis using q'(2) that [of ?p] by simp
qed

lemma decref_one_bad:
  "\<not> (usable p b \<and> 0 < b_ref p b) \<Longrightarrow> \<exists>e. decref_one b p = (Inl (RuntimeError e), p)"
  by (auto simp: decref_one_def andThen_def check_id_run)

definition published :: "int \<Rightarrow> block_key \<Rightarrow> arena \<Rightarrow> arena" where
  "published b key p = p\<lparr>bundle_hashes := (bundle_hashes p)(b \<mapsto> dict_set (keys_of p b) (bk_value key) key),
     hash_to_bundles := (hash_to_bundles p)(bk_value key \<mapsto>
       (let hs = holders_of p (bk_value key) in if b \<in> set hs then hs else hs @ [b])),
     b_hash := (b_hash p)(b \<mapsto> key)\<rparr>"

lemma publish_bundle_run:
  "\<not> is_null b \<Longrightarrow> publish_bundle b key p = (Inr (), published b key p)"
  by (simp add: publish_bundle_def published_def holders_of_def)

lemma published_views:
  "holders_of (published b key p) v = (if v = bk_value key \<and> b \<notin> set (holders_of p v)
    then holders_of p v @ [b] else holders_of p v)"
  "keys_of (published b key p) c = (if c = b then dict_set (keys_of p b) (bk_value key) key else keys_of p c)"
  "b_hash (published b key p) = (b_hash p)(b \<mapsto> key)" "b_ref (published b key p) = b_ref p"
  "a_queue (published b key p) = a_queue p" "same_admin p (published b key p)"
  "usable (published b key p) = usable p"
  by (auto simp: published_def holders_of_def keys_of_def same_admin_def usable_def Let_def fun_eq_iff
      split: option.splits)

lemma idx_ok_published:
  assumes "idx_ok p" and "usable p b"
  shows "idx_ok (published b key p)"
proof -
  have "hash_to_bundles (published b key p) v \<noteq> Some []" for v
    using idx_okD(2) [OF assms(1)] by (auto simp: published_def Let_def)
  moreover have "bundle_hashes (published b key p) c \<noteq> Some []" for c
    using idx_okD(1) [OF assms(1)] by (simp add: published_def)
  ultimately show ?thesis
    using idx_okD(3-7) [OF assms(1)] assms(2) unfolding idx_ok_def published_views
    by (auto simp: fun_eq_iff)
qed

lemma evict_candidate_at:
  assumes "arena_at p xs" and "idx_ok p" and "b \<in> set xs"
  obtains p' where "evict_candidate b p = (Inr (), p')" and "arena_at p' (b # remove1 b xs)"
    and "idx_ok p'" and "same_admin p p'" and "b_ref p' = b_ref p" and "b_hash p' = (b_hash p)(b := None)"
    and "evicted_log p' = evicted_log p @ (if evict_wired p then [b] else [])"
proof -
  note at = arena_atD [OF assms(1)]
  have b: "0 \<le> b" using assms(3) at(5,10) [of b] by simp
  obtain q1 where q1: "kvq_remove b (a_queue p) = (Inr (), q1)" "kvq_rep q1 (remove1 b xs)"
    using at(1) assms(3) by (rule kvq.delE)
  have "b \<notin> set (remove1 b xs)" using at(6) by simp
  then obtain q2 where q2: "kvq_prepend b q1 = (Inr (), q2)" "kvq_rep q2 (b # remove1 b xs)"
    using q1(2) b kvq.enq_headE by blast
  let ?p1 = "p\<lparr>a_queue := q1\<rparr>"
  let ?p = "(snd (fire_evict b (dropped b ?p1)))\<lparr>a_queue := q2\<rparr>"
  have ix: "idx_ok ?p1" using assms(2) by simp
  have q: "a_queue (snd (fire_evict b (dropped b ?p1))) = q1"
    by (simp add: fire_evict_def)
  have run: "evict_candidate b p = (Inr (), ?p)"
    using q1(1) q2(1) at(8) [OF b] assms(3) drop_hash_run [OF ix, of b] q
    by (simp add: evict_candidate_def andThen_def on_field_def) (simp add: fire_evict_def)
  have adm: "same_admin p ?p" by (auto simp: same_admin_def fire_evict_def dropped_def)
  have rf: "b_ref ?p = b_ref p" by (simp add: fire_evict_def)
  have "arena_at ?p (b # remove1 b xs)"
  proof (rule arena_at_same [OF adm assms(1)])
    show "set (b # remove1 b xs) = {c. usable p c \<and> b_ref ?p c = 0}"
      using at(5,6) assms(3) by (auto simp: rf set_remove1_eq)
  qed (use q2(2) at(4,9) in \<open>simp_all add: rf\<close>)
  moreover have "idx_ok ?p"
    using idx_ok_dropped [OF ix, of b] by (simp add: fire_evict_def)
  moreover have "evicted_log ?p = evicted_log p @ (if evict_wired p then [b] else [])"
    by (auto simp: fire_evict_def dropped_def)
  moreover have "b_hash ?p = (b_hash p)(b := None)" by (simp add: fire_evict_def)
  ultimately show ?thesis using that [OF run] adm rf by blast
qed

lemma evict_loop_at:
  assumes "arena_at p xs" and "idx_ok p" and "set bs \<subseteq> set xs" and "distinct bs" and "ev \<le> count"
  shows "\<exists>p' ys. evict_loop count ev bs p = (Inr (min count (ev + int (length bs))), p') \<and>
    arena_at p' ys \<and> set ys = set xs \<and> idx_ok p' \<and> same_admin p p' \<and> b_ref p' = b_ref p \<and>
    (\<forall>c. b_hash p' c = (if c \<in> set (take (nat (count - ev)) bs) then None else b_hash p c)) \<and>
    evicted_log p' = evicted_log p @ (if evict_wired p then take (nat (count - ev)) bs else [])"
  using assms
proof (induction bs arbitrary: p xs ev)
  case Nil
  then show ?case by auto
next
  case (Cons b bs)
  show ?case
  proof (cases "count \<le> ev")
    case True
    then show ?thesis using Cons.prems by auto
  next
    case False
    obtain p1 where p1: "evict_candidate b p = (Inr (), p1)" "arena_at p1 (b # remove1 b xs)"
      "idx_ok p1" "same_admin p p1" "b_ref p1 = b_ref p" "b_hash p1 = (b_hash p)(b := None)"
      "evicted_log p1 = evicted_log p @ (if evict_wired p then [b] else [])"
      using Cons.prems(1,2,3) evict_candidate_at [of p xs b] by auto
    have sets: "set (b # remove1 b xs) = set xs"
      using Cons.prems(3) arena_atD(6) [OF Cons.prems(1)] by (auto simp: set_remove1_eq)
    obtain p2 ys where p2: "evict_loop count (ev + 1) bs p1 = (Inr (min count (ev + 1 + int (length bs))), p2)"
      "arena_at p2 ys" "set ys = set xs" "idx_ok p2" "same_admin p1 p2" "b_ref p2 = b_ref p1"
      "\<forall>c. b_hash p2 c = (if c \<in> set (take (nat (count - (ev + 1))) bs) then None else b_hash p1 c)"
      "evicted_log p2 = evicted_log p1 @ (if evict_wired p1 then take (nat (count - (ev + 1))) bs else [])"
      using Cons.IH [OF p1(2,3), of "ev + 1"] Cons.prems(3,4) False sets by auto
    have n: "nat (count - ev) = Suc (nat (count - (ev + 1)))" using False by simp
    have "evict_wired p1 = evict_wired p" using p1(4) by (simp add: same_admin_def)
    with p1 p2 n False show ?thesis
      using same_admin_trans [OF p1(4) p2(5)]
      by (intro exI [of _ p2] exI [of _ ys]) (auto simp: andThen_def)
  qed
qed


subsection \<open>Reservations\<close>

lemma res_okD:
  assumes "res_ok p"
  shows "distinct (map fst (reservations p))" and "map_of (reservations p) o' = Some c \<Longrightarrow> 0 < c"
    and "0 \<le> reserved_for p o'" and "reserved_for p o' = 0 \<longleftrightarrow> map_of (reservations p) o' = None"
proof -
  show "distinct (map fst (reservations p))" using assms by (simp add: res_ok_def)
  show *: "0 < c" if "map_of (reservations p) o' = Some c" for c
    using assms map_of_SomeD [OF that] by (auto simp: res_ok_def)
  show "0 \<le> reserved_for p o'" "reserved_for p o' = 0 \<longleftrightarrow> map_of (reservations p) o' = None"
    using * by (fastforce simp: reserved_for_def dict_get_def split: option.splits)+
qed

lemma in_dict_del: "x \<in> set (dict_del d k) \<Longrightarrow> x \<in> set d"
  by (auto simp: dict_del_def)

lemma res_ok_update:
  assumes "res_ok p" and "0 < c"
  shows "res_ok (p\<lparr>reservations := dict_set (reservations p) k c\<rparr>)"
  using assms by (auto simp: res_ok_def dest!: in_dict_set)

lemma res_ok_delete: "res_ok p \<Longrightarrow> res_ok (p\<lparr>reservations := dict_del (reservations p) k\<rparr>)"
  by (auto simp: res_ok_def dest!: in_dict_del)

text \<open>What is left of a reservation once \<open>count\<close> pages of it are used.\<close>

definition spend :: "string \<Rightarrow> int \<Rightarrow> arena \<Rightarrow> arena" where
  "spend owner count p = (if reserved_for p owner = 0 \<or> count = 0 then p
     else p\<lparr>reservations := (if reserved_for p owner = count then dict_del (reservations p) owner
       else dict_set (reservations p) owner (reserved_for p owner - count))\<rparr>)"

lemma consume_res_run:
  assumes "res_ok p"
  shows "consume_res owner count p =
    (if reserved_for p owner \<noteq> 0 \<and> count \<noteq> 0 \<and> count > reserved_for p owner
     then (Inl (RuntimeError ''owner consumed more pages than reserved''), p)
     else (Inr (), spend owner count p))"
  using res_okD(4) [OF assms, of owner]
  by (cases "map_of (reservations p) owner")
    (auto simp: consume_res_def spend_def reserved_for_def dict_get_def)

lemma spend_facts:
  assumes "res_ok p" and "count \<le> reserved_for p owner \<or> reserved_for p owner = 0" and "0 \<le> count"
  shows "res_ok (spend owner count p)"
    and "dict_sum (reservations (spend owner count p)) =
      dict_sum (reservations p) - (if reserved_for p owner = 0 then 0 else count)"
    and "reserved_for (spend owner count p) o' =
      (if o' = owner \<and> reserved_for p owner \<noteq> 0 then reserved_for p owner - count else reserved_for p o')"
proof -
  note r = res_okD [OF assms(1)]
  show "res_ok (spend owner count p)"
    using assms res_ok_update [of p "reserved_for p owner - count" owner] res_ok_delete [of p owner]
    by (auto simp: spend_def)
  show "dict_sum (reservations (spend owner count p)) =
      dict_sum (reservations p) - (if reserved_for p owner = 0 then 0 else count)"
    using r(1) by (auto simp: spend_def dict_sum_set dict_sum_del reserved_for_def)
  show "reserved_for (spend owner count p) o' =
      (if o' = owner \<and> reserved_for p owner \<noteq> 0 then reserved_for p owner - count else reserved_for p o')"
    by (auto simp: spend_def reserved_for_def dict_get_def)
qed

lemma spend_same [simp]:
  "a_queue (spend o' c p) = a_queue p" "b_ref (spend o' c p) = b_ref p" "b_hash (spend o' c p) = b_hash p"
  "idx_ok (spend o' c p) = idx_ok p" "arena_at (spend o' c p) xs = arena_at p xs"
  "num_free_bundles (spend o' c p) = num_free_bundles p" "a_reserved (spend o' c p) = a_reserved p"
  "num_bundles (spend o' c p) = num_bundles p" "assert_inv (spend o' c p) = assert_inv p"
  "watermark (spend o' c p) = watermark p"
  by (simp_all add: spend_def arena_at_def usable_def num_free_bundles_def)

subsection \<open>Every operation keeps the invariant\<close>

text \<open>An operation whose exceptional exits leave the state of a well-formed pool well formed.\<close>

lemma arena_wfI: "arena_at p xs \<Longrightarrow> idx_ok p \<Longrightarrow> res_ok p \<Longrightarrow> arena_wf p"
  by (auto simp: arena_wf_def)

lemma arena_wfE:
  assumes "arena_wf p"
  obtains xs where "arena_at p xs" and "idx_ok p" and "res_ok p"
  using assms by (auto simp: arena_wf_def)

lemma keeps_check [prog_rules]: "keeps I maybe_invariant_check"
  by (auto simp: sound_def maybe_invariant_check_def split: sum.splits)

lemma wf_take_bundle: "keeps arena_wf take_bundle"
proof (rule keepsI)
  fix p assume "arena_wf p"
  then obtain xs where w: "arena_at p xs" "idx_ok p" "res_ok p" by (rule arena_wfE)
  show "arena_wf (snd (take_bundle p))"
  proof (cases xs)
    case Nil
    then show ?thesis
      using kvq.deq_empty [of "a_queue p"] arena_atD(1) [OF w(1)] w
      by (auto simp: take_bundle_def andThen_def on_field_def intro: arena_wfI)
  next
    case (Cons b ys)
    then obtain p' where "take_bundle p = (Inr b, p')" "arena_at p' ys" "idx_ok p'" "same_admin p p'"
      using take_bundle_at [of p b ys] w by metis
    then show ?thesis using w(3) res_ok_cong by (auto intro: arena_wfI)
  qed
qed

lemma wf_take_bundles: "keeps arena_wf (take_bundles n ids)"
  by (induction n arbitrary: ids) (auto intro: sound_ret sound_andThen wf_take_bundle)

lemma wf_consume_res: "0 \<le> count \<Longrightarrow> keeps arena_wf (consume_res owner count)"
proof (rule keepsI)
  fix p assume "arena_wf p" and c: "0 \<le> count"
  then obtain xs where w: "arena_at p xs" "idx_ok p" "res_ok p" by (auto elim: arena_wfE)
  have "res_ok (spend owner count p)"
    if "\<not> (reserved_for p owner \<noteq> 0 \<and> count \<noteq> 0 \<and> count > reserved_for p owner)"
    using spend_facts(1) [OF w(3), of count owner] that c by (cases "count = 0") (auto simp: spend_def w(3))
  then show "arena_wf (snd (consume_res owner count p))"
    using w by (auto simp: consume_res_run intro: arena_wfI)
qed

lemma wf_allocate: "keeps arena_wf (kv_allocate count owner)"
  unfolding kv_allocate_def split_def
  by (intro sound_guard sound_reading)
    (auto intro!: sound_andThen [where R = "\<lambda>_. arena_wf"] sound_ret
      sound_weaken [OF wf_take_bundles] sound_weaken [OF wf_consume_res] keeps_check)

lemma wf_incref_one: "keeps arena_wf (incref_one b)"
proof (rule keepsI)
  fix p assume "arena_wf p"
  then obtain xs where w: "arena_at p xs" "idx_ok p" "res_ok p" by (rule arena_wfE)
  show "arena_wf (snd (incref_one b p))"
  proof (cases "revivable p b")
    case True
    then show ?thesis
      using incref_one_at [OF w(1) True] w res_ok_cong by (metis arena_wfI snd_conv)
  next
    case False
    then show ?thesis using incref_one_bad [OF w(1) False] w by (auto intro: arena_wfI)
  qed
qed

lemma wf_check_id: "keeps I (check_id msg b)"
  by (rule keepsI) (simp add: check_id_run)

lemma wf_incref: "keeps arena_wf (incref ids owner)"
  unfolding incref_def split_def
  by (intro sound_guard sound_reading sound_andThen [where R = "\<lambda>_. arena_wf"] keeps_for_each
      wf_check_id keeps_check)
    (auto intro!: sound_guard sound_andThen [where R = "\<lambda>_. arena_wf"] keeps_check
      sound_weaken [OF keeps_for_each [OF wf_incref_one]])

lemma wf_decref_one: "keeps arena_wf (decref_one b)"
proof (rule keepsI)
  fix p assume "arena_wf p"
  then obtain xs where w: "arena_at p xs" "idx_ok p" "res_ok p" by (rule arena_wfE)
  show "arena_wf (snd (decref_one b p))"
  proof (cases "usable p b \<and> 0 < b_ref p b")
    case True
    then show ?thesis
      using decref_one_at [OF w(1), of b] w res_ok_cong by (metis arena_wfI snd_conv)
  next
    case False
    then show ?thesis using decref_one_bad [OF False] w by (auto intro: arena_wfI)
  qed
qed

lemma wf_decref: "keeps arena_wf (decref ids owner)"
  unfolding decref_def
  by (intro sound_guard sound_andThen [where R = "\<lambda>_. arena_wf"] keeps_for_each wf_decref_one keeps_check)

lemma wf_pending: "arena_wf (p\<lparr>pending_cow := c\<rparr>) = arena_wf p"
  by (simp add: arena_wf_def arena_at_def usable_def res_ok_def)

lemma wf_ensure_writable: "keeps arena_wf (ensure_writable b owner)"
  unfolding ensure_writable_def split_def
  by (intro sound_guard sound_reading)
    (auto intro!: sound_guard sound_andThen [where R = "\<lambda>_. arena_wf"] sound_ret sound_update sound_raise
      sound_weaken [OF wf_allocate] simp: wf_pending split: list.split)

lemma publish_guarded_Inr:
  assumes "publish_guarded b key p = (r, p')" and "1 \<le> a_reserved p"
  shows "p' = p \<or> usable p b \<and> 0 < b_ref p b \<and> p' = published b key p"
proof (cases "usable p b")
  case True
  then have "\<not> is_null b" using assms(2) by (auto simp: usable_def is_null_def)
  then show ?thesis
    using assms True by (auto simp: publish_guarded_def usable_def py_index_def publish_bundle_run split: if_splits)
next
  case False
  then show ?thesis
    using assms by (auto simp: publish_guarded_def usable_def py_index_def split: if_splits option.splits)
qed

lemma wf_publish_guarded: "keeps arena_wf (publish_guarded b key)"
proof (rule keepsI)
  fix p assume "arena_wf p"
  then obtain xs where w: "arena_at p xs" "idx_ok p" "res_ok p" by (rule arena_wfE)
  have "arena_wf (published b key p)" if "usable p b"
  proof (rule arena_wfI)
    show "arena_at (published b key p) xs"
      using w(1) published_views(4-7) by (simp add: arena_at_def same_admin_def)
    show "idx_ok (published b key p)" using w(2) that by (rule idx_ok_published)
    show "res_ok (published b key p)" using w(3) res_ok_cong [OF published_views(6)] by simp
  qed
  then show "arena_wf (snd (publish_guarded b key p))"
    using publish_guarded_Inr [of b key p] w arena_atD(2) [OF w(1)] arena_wfI [OF w]
    by (cases "publish_guarded b key p") auto
qed

lemma wf_cache_full_blocks: "keeps arena_wf (cache_full_blocks keys ids)"
  unfolding cache_full_blocks_def
  by (intro sound_guard sound_andThen [where R = "\<lambda>_. arena_wf"] keeps_for_each keeps_check)
    (auto intro: wf_publish_guarded)

lemma cached_ids_queued:
  assumes "arena_at p xs" and "idx_ok p"
  shows "set (cached_ids p) \<subseteq> set xs" and "distinct (cached_ids p)"
  using arena_atD(5) [OF assms(1)] idx_okD(7) [OF assms(2)]
  by (auto simp: cached_ids_def all_bundles_def)

lemma wf_evict_cached: "keeps arena_wf (evict_cached count)"
proof (rule keepsI)
  fix p assume wf: "arena_wf p"
  then obtain xs where w: "arena_at p xs" "idx_ok p" "res_ok p" by (rule arena_wfE)
  show "arena_wf (snd (evict_cached count p))"
  proof (cases "count < 0")
    case True
    then show ?thesis using wf by (simp add: evict_cached_def)
  next
    case False
    then obtain p' ys ev where p': "evict_loop count 0 (cached_ids p) p = (Inr ev, p')" "arena_at p' ys"
      "idx_ok p'" "same_admin p p'"
      using evict_loop_at [OF w(1,2) cached_ids_queued [OF w(1,2)], of 0 count] by auto
    then have "arena_wf p'" using w(3) res_ok_cong by (auto intro: arena_wfI)
    then show ?thesis
      using False p'(1)
      by (auto simp: evict_cached_def andThen_def maybe_invariant_check_def split: sum.splits)
  qed
qed

lemma wf_reserve: "keeps arena_wf (reserve count owner)"
proof (rule keepsI)
  fix p assume wf: "arena_wf p"
  then obtain xs where w: "arena_at p xs" "idx_ok p" "res_ok p" by (rule arena_wfE)
  have "arena_wf (p\<lparr>reservations := dict_set (reservations p) owner count\<rparr>)" if "0 < count"
    using w res_ok_update [OF w(3) that] by (intro arena_wfI [of _ xs]) (simp_all add: arena_at_def usable_def)
  then show "arena_wf (snd (reserve count owner p))"
    using wf by (auto simp: reserve_def check_admission_fits_def andThen_def)
qed

lemma wf_release: "keeps arena_wf (release_reservation owner)"
proof (rule keepsI)
  fix p assume "arena_wf p"
  then obtain xs where w: "arena_at p xs" "idx_ok p" "res_ok p" by (rule arena_wfE)
  then show "arena_wf (snd (release_reservation owner p))"
    by (intro arena_wfI [of _ xs]) (simp_all add: release_reservation_def andThen_def arena_at_def usable_def res_ok_delete)
qed

lemma wf_drain: "keeps arena_wf drain_pending_cow"
  by (rule keepsI) (simp add: drain_pending_cow_def andThen_def wf_pending)

lemma arena_init_facts:
  assumes "arena_init n r wm asserting wired = Inr p"
  shows "arena_at p [r..n - 1]" and "idx_ok p" and "res_ok p" and "reservations p = []"
    and "a_reserved p = r" and "assert_inv p = asserting" and "num_bundles p = n" and "watermark p = wm"
    and "0 \<le> wm"
proof -
  have c: "1 \<le> r" "r < n" "0 \<le> wm" using assms by (auto simp: arena_init_def split: if_splits)
  have "\<exists>q'. for_each kvq_append xs q = (Inr (), q') \<and> kvq_rep q' (ys @ xs)"
    if "kvq_rep q ys" "distinct (ys @ xs)" "\<forall>x \<in> set xs. 0 \<le> x" for q ys xs
    using that
  proof (induction xs arbitrary: q ys)
    case (Cons x xs)
    obtain q1 where q1: "kvq_append x q = (Inr (), q1)" "kvq_rep q1 (ys @ [x])"
      using Cons.prems kvq.enq_tailE [of q ys x] by auto
    then show ?case using Cons.IH [OF q1(2)] Cons.prems by (auto simp: andThen_def)
  qed simp
  from this [OF kvq_rep_init, of "[r..n - 1]"]
  obtain q where q: "for_each kvq_append [r..n - 1] kvq_init = (Inr (), q)" "kvq_rep q [r..n - 1]"
    using c by auto
  have p: "p = \<lparr>num_bundles = n, a_reserved = r, assert_inv = asserting,
      b_ref = (\<lambda>_. 0), b_hash = (\<lambda>_. None), a_queue = q, hash_to_bundles = (\<lambda>_. None),
      bundle_hashes = (\<lambda>_. None), pending_cow = [], watermark = wm, reservations = [],
      evict_wired = wired, evicted_log = []\<rparr>"
    using assms q(1) c by (simp add: arena_init_def)
  show "arena_at p [r..n - 1]" using q(2) c by (auto simp: p arena_at_def usable_def)
  show "idx_ok p" by (simp add: p idx_ok_def holders_of_def keys_of_def)
  show "res_ok p" by (simp add: p res_ok_def)
qed (use assms in \<open>auto simp: arena_init_def split: if_splits prod.splits sum.splits\<close>)


section \<open>Sequences of calls\<close>

text \<open>
  One call of the pool's interface.  \<open>APin\<close> is an \<^verbatim>\<open>incref\<close> followed by \<^verbatim>\<open>consume_reservation\<close> of as
  many pages.
\<close>

datatype arena_call =
    AAllocate int string
  | AIncref "int list" string
  | APin "int list" string
  | ADecref "int list" string
  | AWritable int string
  | APublish "block_key list" "int list"
  | AEvict int
  | AReserve int string
  | ARelease string
  | AConsume int string
  | ADrain

primrec call_arena :: "arena_call \<Rightarrow> (arena, unit) prog" where
  "call_arena (AAllocate c o') = andThen (kv_allocate c o') (\<lambda>_. ret ())"
| "call_arena (AIncref ids o') = incref ids o'"
| "call_arena (APin ids o') = andThen (incref ids o') (\<lambda>_. consume_reservation (int (length ids)) o')"
| "call_arena (ADecref ids o') = decref ids o'"
| "call_arena (AWritable b o') = andThen (ensure_writable b o') (\<lambda>_. ret ())"
| "call_arena (APublish ks ids) = cache_full_blocks ks ids"
| "call_arena (AEvict c) = andThen (evict_cached c) (\<lambda>_. ret ())"
| "call_arena (AReserve c o') = andThen (reserve c o') (\<lambda>_. ret ())"
| "call_arena (ARelease o') = andThen (release_reservation o') (\<lambda>_. ret ())"
| "call_arena (AConsume c o') = consume_reservation c o'"
| "call_arena ADrain = andThen drain_pending_cow (\<lambda>_. ret ())"

text \<open>Publishing one page is publishing a run of one.\<close>

lemma publish_full_block_run: "publish_full_block b k = cache_full_blocks [k] [b]"
  by (simp add: publish_full_block_def cache_full_blocks_def guard_def andThen_assoc)

lemma wf_consume_reservation: "keeps arena_wf (consume_reservation count owner)"
  unfolding consume_reservation_def by (intro sound_guard) (auto intro: wf_consume_res)

lemma wf_call: "keeps arena_wf (call_arena c)"
proof (cases c)
  case (APin ids o')
  then show ?thesis
    by (auto intro: sound_andThen wf_incref wf_consume_reservation)
qed (auto intro: keeps_andThen_ret wf_allocate wf_incref wf_decref wf_ensure_writable wf_cache_full_blocks
    wf_evict_cached wf_reserve wf_release wf_consume_reservation wf_drain)

text \<open>
  A property of the construction parameters alone survives every operation, because each
  assigns only the mutable fields.
\<close>

locale arena_frame =
  fixes I :: "arena \<Rightarrow> bool"
  assumes stable [simp]:
    "I (p\<lparr>a_queue := q\<rparr>) = I p" "I (p\<lparr>b_ref := r\<rparr>) = I p" "I (p\<lparr>b_hash := h\<rparr>) = I p"
    "I (p\<lparr>hash_to_bundles := hb\<rparr>) = I p" "I (p\<lparr>bundle_hashes := bh\<rparr>) = I p"
    "I (p\<lparr>pending_cow := c\<rparr>) = I p" "I (p\<lparr>reservations := rs\<rparr>) = I p"
    "I (p\<lparr>evicted_log := l\<rparr>) = I p"
begin

lemma keeps_aq: "keeps I (on_field a_queue (\<lambda>q p. p\<lparr>a_queue := q\<rparr>) m)"
  by (rule keepsI) (simp add: on_field_def split: prod.split)

lemma keeps_drop_key: "keeps I (drop_key b vk)"
  by (rule keepsI) (simp add: drop_key_def split: option.split)

lemma keeps_drop_hash: "keeps I (drop_hash b)"
  unfolding drop_hash_def
  by (auto intro!: sound_reading sound_andThen [where R = "\<lambda>_. I"] sound_update sound_ret
      sound_weaken [OF keeps_for_each [OF keeps_drop_key]] split: option.split)

lemma keeps_fire: "keeps I (fire_evict b)"
  by (rule keepsI) (simp add: fire_evict_def)

lemmas keeps_steps = sound_reading sound_guard sound_andThen [where R = "\<lambda>_. I"] sound_update
  sound_ret sound_raise sound_weaken [OF keeps_aq] sound_weaken [OF keeps_drop_hash]
  sound_weaken [OF keeps_fire] wf_check_id keeps_check

lemma keeps_take_bundle: "keeps I take_bundle"
  unfolding take_bundle_def split_def by (auto intro!: keeps_steps)

lemma keeps_take_bundles: "keeps I (take_bundles k ids)"
  by (induction k arbitrary: ids) (auto intro: sound_ret sound_andThen keeps_take_bundle)

lemma keeps_consume_res: "keeps I (consume_res o' k)"
  by (rule keepsI) (simp add: consume_res_def split: option.split)

lemma keeps_allocate: "keeps I (kv_allocate k o')"
  unfolding kv_allocate_def split_def
  by (auto intro!: keeps_steps sound_weaken [OF keeps_take_bundles] sound_weaken [OF keeps_consume_res])

lemma keeps_incref_one: "keeps I (incref_one b)"
  unfolding incref_one_def split_def by (auto intro!: keeps_steps)

lemma keeps_incref: "keeps I (incref ids o')"
  unfolding incref_def split_def
  by (auto intro!: keeps_steps keeps_for_each sound_weaken [OF keeps_for_each [OF keeps_incref_one]])

lemma keeps_decref_one: "keeps I (decref_one b)"
  unfolding decref_one_def split_def by (auto intro!: keeps_steps)

lemma keeps_decref: "keeps I (decref ids o')"
  unfolding decref_def by (auto intro!: keeps_steps keeps_for_each keeps_decref_one)

lemma keeps_ensure_writable: "keeps I (ensure_writable b o')"
  unfolding ensure_writable_def split_def
  by (auto intro!: keeps_steps sound_weaken [OF keeps_allocate] split: list.split)

lemma keeps_publish_guarded: "keeps I (publish_guarded b k)"
  by (rule keepsI) (simp add: publish_guarded_def publish_bundle_run published_def split: option.split)

lemma keeps_cache_full_blocks: "keeps I (cache_full_blocks ks ids)"
  unfolding cache_full_blocks_def by (auto intro!: keeps_steps keeps_for_each keeps_publish_guarded)

lemma keeps_evict_candidate: "keeps I (evict_candidate b)"
  unfolding evict_candidate_def by (auto intro!: keeps_steps)

lemma keeps_evict_loop: "keeps I (evict_loop k e bs)"
  by (induction k e bs rule: evict_loop.induct)
    (auto intro: sound_ret sound_andThen keeps_evict_candidate simp del: ret_run)

lemma keeps_evict_cached: "keeps I (evict_cached k)"
  unfolding evict_cached_def
  by (auto intro!: keeps_steps sound_weaken [OF keeps_evict_loop] simp del: ret_run)

lemma keeps_reserve: "keeps I (reserve k o')"
  by (rule keepsI) (simp add: reserve_def andThen_def check_admission_fits_def)

lemma keeps_release: "keeps I (release_reservation o')"
  by (rule keepsI) (simp add: release_reservation_def andThen_def)

lemma keeps_consume: "keeps I (consume_reservation k o')"
  unfolding consume_reservation_def by (intro sound_guard keeps_consume_res) auto

lemma keeps_drain: "keeps I drain_pending_cow"
  by (rule keepsI) (simp add: drain_pending_cow_def andThen_def)

lemma keeps_call: "keeps I (call_arena c)"
proof (cases c)
  case (APin ids o')
  then show ?thesis by (auto intro: sound_andThen keeps_incref keeps_consume)
qed (auto intro: keeps_andThen_ret keeps_allocate keeps_incref keeps_decref keeps_ensure_writable
    keeps_cache_full_blocks keeps_evict_cached keeps_reserve keeps_release keeps_consume keeps_drain)

end

definition shape :: "int \<Rightarrow> int \<Rightarrow> bool \<Rightarrow> int \<Rightarrow> arena \<Rightarrow> bool" where
  "shape n r a w p \<longleftrightarrow> num_bundles p = n \<and> a_reserved p = r \<and> assert_inv p = a \<and> watermark p = w"

interpretation shape_frame: arena_frame "shape n r a w"
  by unfold_locales (simp_all add: shape_def)

lemma shape_calls: "shape n r a w p \<Longrightarrow> shape n r a w (snd (run_calls call_arena cs p))"
  by (rule keeps_calls [OF shape_frame.keeps_call])

lemma wf_calls: "arena_wf p \<Longrightarrow> arena_wf (snd (run_calls call_arena cs p))"
  by (rule keeps_calls [OF wf_call])

subsection \<open>The reservations are covered\<close>

definition covered :: "arena \<Rightarrow> bool" where
  "covered p \<longleftrightarrow> dict_sum (reservations p) \<le> num_free_bundles p"

text \<open>A well-formed pool whose assertions cannot fail.\<close>

definition sane :: "arena \<Rightarrow> bool" where
  "sane p \<longleftrightarrow> arena_wf p \<and> 0 \<le> watermark p \<and> (assert_inv p \<longrightarrow> a_reserved p = 1)"

lemma saneE:
  assumes "sane p"
  obtains xs where "arena_at p xs" and "idx_ok p" and "res_ok p" and "0 \<le> watermark p"
    and "assert_inv p \<Longrightarrow> a_reserved p = 1"
  using assms by (auto simp: sane_def elim: arena_wfE)

lemma maybe_check_ok: "sane p \<Longrightarrow> maybe_invariant_check p = (Inr (), p)"
  using assert_invariants_ok by (auto simp: maybe_invariant_check_def elim: saneE)

lemma sane_cong: "same_admin p p' \<Longrightarrow> arena_wf p' \<Longrightarrow> sane p \<Longrightarrow> sane p'"
  by (simp add: sane_def same_admin_def)

lemma allocate_run:
  assumes "sane p" and at: "arena_at p xs" and o: "owner \<noteq> []" and c: "0 \<le> count" "count \<le> int (length xs)"
    and cover: "if reserved_for p owner = 0 then count \<le> unreserved_free_bundles p else count \<le> reserved_for p owner"
  obtains p' where "kv_allocate count owner p = (Inr (take (nat count) xs), p')"
    and "arena_at p' (drop (nat count) xs)" and "sane p'"
    and "reservations p' = reservations (spend owner count p)"
    and "\<And>b. b_ref p' b = (if b \<in> set (take (nat count) xs) then 1 else b_ref p b)"
    and "\<And>b. b_hash p' b = (if b \<in> set (take (nat count) xs) then None else b_hash p b)"
    and "pending_cow p' = pending_cow p"
proof -
  have w: "idx_ok p" "res_ok p" using assms(1) by (auto simp: sane_def elim: arena_wfE)
  obtain p1 where p1: "take_bundles (nat count) [] p = (Inr (take (nat count) xs), p1)"
    "arena_at p1 (drop (nat count) xs)" "idx_ok p1" "same_admin p p1"
    "\<forall>b. b_ref p1 b = (if b \<in> set (take (nat count) xs) then 1 else b_ref p b)"
    "\<forall>b. b_hash p1 b = (if b \<in> set (take (nat count) xs) then None else b_hash p b)"
    using take_bundles_at [OF at w(1), of "nat count" "[]"] c(2) nat_le_iff [of count "length xs"] by auto
  have same: "reserved_for p1 owner = reserved_for p owner" "reservations p1 = reservations p"
    using p1(4) by (simp_all add: same_admin_def reserved_for_def)
  have rok: "res_ok p1" using w(2) res_ok_cong [OF p1(4)] by simp
  have fits: "count \<le> reserved_for p1 owner \<or> reserved_for p1 owner = 0"
    using cover same by (auto split: if_splits)
  let ?p = "spend owner count p1"
  have wf: "arena_wf ?p"
    using p1(2,3) spend_facts(1) [OF rok fits c(1)] by (auto intro: arena_wfI)
  have sp: "sane ?p"
    using wf assms(1) p1(4) by (auto simp: sane_def same_admin_def)
  have "kv_allocate count owner p = (Inr (take (nat count) xs), ?p)"
    using p1(1) cover c o fits same arena_atD(7) [OF at] maybe_check_ok [OF sp]
    by (auto simp: kv_allocate_def andThen_def consume_res_run [OF rok] split: if_splits)
  moreover have "reservations ?p = reservations (spend owner count p)"
    using same by (simp add: spend_def)
  moreover have "pending_cow ?p = pending_cow p"
    using p1(4) by (simp add: spend_def same_admin_def)
  ultimately show ?thesis using that [of ?p] p1 sp by simp
qed


lemma sane_call:
  assumes "sane p"
  shows "sane (snd (call_arena c p))"
proof -
  have "shape (num_bundles p) (a_reserved p) (assert_inv p) (watermark p) (snd (call_arena c p))"
    by (rule keeps_snd [OF shape_frame.keeps_call]) (simp add: shape_def)
  then show ?thesis
    using keeps_snd [OF wf_call, of p c] assms by (simp add: sane_def shape_def)
qed

lemma same_adminD:
  assumes "same_admin p p'"
  shows "reservations p' = reservations p" "watermark p' = watermark p" "reserved_for p' o' = reserved_for p o'"
  using assms by (simp_all add: same_admin_def reserved_for_def)

definition revivals :: "arena \<Rightarrow> int list \<Rightarrow> int" where
  "revivals p ids = int (length (filter (\<lambda>b. b_ref p b = 0) ids))"

lemma revivals_le: "revivals p ids \<le> int (length ids)"
  by (simp add: revivals_def)

lemma revivals_step: "0 \<le> b_ref p b \<Longrightarrow> b_ref p' = (b_ref p)(b := b_ref p b + 1) \<Longrightarrow> revivals p' ids \<le> revivals p ids"
  by (induction ids) (auto simp: revivals_def)

lemma incref_one_free:
  assumes "arena_wf p" and "incref_one b p = (r, p')"
  shows "reservations p' = reservations p" and "arena_wf p'"
    and "num_free_bundles p - revivals p [b] \<le> num_free_bundles p'" and "revivals p' ids \<le> revivals p ids"
proof -
  obtain xs where w: "arena_at p xs" "idx_ok p" "res_ok p" using assms(1) by (rule arena_wfE)
  show "arena_wf p'" using keeps_snd [OF wf_incref_one assms(1), of b] assms(2) by simp
  have "reservations p' = reservations p \<and> num_free_bundles p - revivals p [b] \<le> num_free_bundles p' \<and>
    revivals p' ids \<le> revivals p ids"
  proof (cases "revivable p b")
    case True
    obtain p1 where p1: "incref_one b p = (Inr (), p1)" "arena_at p1 (remove1 b xs)" "same_admin p p1"
      "b_ref p1 = (b_ref p)(b := b_ref p b + 1)"
      using incref_one_at [OF w(1) True] by metis
    have "p1 = p'" using p1(1) assms(2) by simp
    moreover have "num_free_bundles p - revivals p [b] \<le> num_free_bundles p1"
      using arena_atD(5) [OF w(1), of b] arena_atD(7) [OF w(1)] arena_atD(7) [OF p1(2)]
      by (auto simp: revivals_def length_remove1)
    ultimately show ?thesis
      using same_adminD(1) [OF p1(3)] revivals_step [OF arena_atD(4) [OF w(1)] p1(4)] by simp
  next
    case False
    then have "p' = p" using incref_one_bad [OF w(1) False] assms(2) by auto
    then show ?thesis by (simp add: revivals_def)
  qed
  then show "reservations p' = reservations p" "num_free_bundles p - revivals p [b] \<le> num_free_bundles p'"
    "revivals p' ids \<le> revivals p ids" by simp_all
qed

lemma incref_all_free:
  assumes "arena_wf p" and "for_each incref_one ids p = (r, p')"
  shows "reservations p' = reservations p \<and> num_free_bundles p - revivals p ids \<le> num_free_bundles p'"
  using assms
proof (induction ids arbitrary: p)
  case Nil
  then show ?case by (simp add: revivals_def)
next
  case (Cons b ids)
  obtain r1 p1 where one: "incref_one b p = (r1, p1)" by fastforce
  note f = incref_one_free [OF Cons.prems(1) one]
  have split: "revivals p (b # ids) = revivals p [b] + revivals p ids" by (simp add: revivals_def)
  show ?case
  proof (cases r1)
    case (Inl e)
    then have "p' = p1" using Cons.prems(2) one by (simp add: andThen_def)
    moreover have "0 \<le> revivals p ids" by (simp add: revivals_def)
    ultimately show ?thesis using f(1,3) split by simp
  next
    case (Inr u)
    then have "for_each incref_one ids p1 = (r, p')" using Cons.prems(2) one by (simp add: andThen_def)
    from Cons.IH [OF f(2) this] show ?thesis using f(1,3) f(4) [of ids] split by simp
  qed
qed

lemma incref_all_ok:
  assumes "arena_at p xs" and "\<forall>b \<in> set ids. revivable p b"
  shows "\<exists>p' ys. for_each incref_one ids p = (Inr (), p') \<and> arena_at p' ys \<and> same_admin p p' \<and>
    b_hash p' = b_hash p \<and> hash_to_bundles p' = hash_to_bundles p \<and> idx_ok p' = idx_ok p"
  using assms
proof (induction ids arbitrary: p xs)
  case Nil
  then show ?case by auto
next
  case (Cons b ids)
  obtain p1 where p1: "incref_one b p = (Inr (), p1)" "arena_at p1 (remove1 b xs)" "same_admin p p1"
    "b_ref p1 = (b_ref p)(b := b_ref p b + 1)" "b_hash p1 = b_hash p"
    "hash_to_bundles p1 = hash_to_bundles p" "idx_ok p1 = idx_ok p"
    using incref_one_at [OF Cons.prems(1), of b] Cons.prems(2) by auto
  have "\<forall>c \<in> set ids. revivable p1 c"
    using Cons.prems(2) p1(3-5) arena_atD(4) [OF Cons.prems(1), of b]
    by (auto simp: revivable_def same_admin_def usable_def)
  from Cons.IH [OF p1(2) this] show ?case
    using p1 same_admin_trans [OF p1(3)] by (auto simp: andThen_def)
qed

lemma check_ids_run:
  "for_each (check_id msg) ids p = ((if \<forall>b \<in> set ids. usable p b then Inr ()
     else fst (for_each (check_id msg) ids p)), p)"
  by (induction ids) (auto simp: andThen_def check_id_run split: prod.splits sum.splits)

lemma check_ids_snd: "snd (for_each (check_id msg) ids p) = p"
  by (subst check_ids_run) simp

lemma incref_run:
  assumes "sane p" and "\<forall>b \<in> set ids. revivable p b" and "owner \<noteq> []"
    and "revivals p ids \<le> reserved_for p owner \<or>
      revivals p ids - reserved_for p owner \<le> unreserved_free_bundles p"
  obtains p' where "incref ids owner p = (Inr (), p')" and "sane p'" and "same_admin p p'"
    and "num_free_bundles p - revivals p ids \<le> num_free_bundles p'"
    and "b_hash p' = b_hash p" and "hash_to_bundles p' = hash_to_bundles p"
proof -
  obtain xs where w: "arena_at p xs" "idx_ok p" "res_ok p" using assms(1) by (rule saneE)
  obtain p1 ys where p1: "for_each incref_one ids p = (Inr (), p1)" "arena_at p1 ys" "same_admin p p1"
    "b_hash p1 = b_hash p" "hash_to_bundles p1 = hash_to_bundles p" "idx_ok p1 = idx_ok p"
    using incref_all_ok [OF w(1) assms(2)] by blast
  have "arena_wf p1"
    using p1(2,6) w res_ok_cong [OF p1(3)] by (auto intro: arena_wfI)
  then have sp: "sane p1" using sane_cong [OF p1(3)] assms(1) by simp
  have "\<forall>b \<in> set ids. usable p b" using assms(2) by (simp add: revivable_def)
  then have "incref ids owner p = (Inr (), p1)"
    using assms(3,4) p1(1) maybe_check_ok [OF sp] check_ids_run [of _ ids p]
    by (auto simp: incref_def andThen_def revivals_def)
  then show ?thesis
    using that sp p1 incref_all_free [OF arena_wfI [OF w] p1(1)] by blast
qed


text \<open>Steps that leave the reservations alone and do not shrink the free queue keep them covered.\<close>

definition funded :: "arena \<Rightarrow> bool" where
  "funded p \<longleftrightarrow> sane p \<and> covered p"

lemma covered_mono:
  "covered p \<Longrightarrow> reservations p' = reservations p \<Longrightarrow> num_free_bundles p \<le> num_free_bundles p' \<Longrightarrow> covered p'"
  by (simp add: covered_def)

lemma covered_allocate:
  assumes "sane p" and "covered p"
  shows "covered (snd (kv_allocate count owner p))"
proof -
  obtain xs where w: "arena_at p xs" "idx_ok p" "res_ok p" "0 \<le> watermark p" using assms(1) by (rule saneE)
  note free = arena_atD(7) [OF w(1)]
  let ?fits = "if reserved_for p owner = 0 then count \<le> unreserved_free_bundles p
    else count \<le> reserved_for p owner"
  show ?thesis
  proof (cases "0 \<le> count \<and> owner \<noteq> [] \<and> count \<le> int (length xs) \<and> ?fits")
    case False
    then have "snd (kv_allocate count owner p) = p"
      using free by (auto simp: kv_allocate_def split: if_splits)
    then show ?thesis using assms(2) by simp
  next
    case True
    obtain p' where p': "kv_allocate count owner p = (Inr (take (nat count) xs), p')"
      "arena_at p' (drop (nat count) xs)" "reservations p' = reservations (spend owner count p)"
      using allocate_run [OF assms(1) w(1), of owner count] True by metis
    have "num_free_bundles p' = int (length xs) - count"
      using arena_atD(7) [OF p'(2)] True by auto
    moreover have "dict_sum (reservations p') =
        dict_sum (reservations p) - (if reserved_for p owner = 0 then 0 else count)"
      using spend_facts(2) [OF w(3), of count owner] True p'(3) by (auto split: if_splits)
    ultimately show ?thesis
      using assms(2) w(4) True free p'(1)
      by (auto simp: covered_def unreserved_free_bundles_def split: if_splits)
  qed
qed

lemma covered_decref_one:
  assumes "arena_wf p" and "covered p"
  shows "covered (snd (decref_one b p))"
proof -
  obtain xs where w: "arena_at p xs" using assms(1) by (rule arena_wfE)
  show ?thesis
  proof (cases "usable p b \<and> 0 < b_ref p b")
    case True
    obtain p' where p': "decref_one b p = (Inr (), p')" "same_admin p p'"
      "arena_at p' (if 1 < b_ref p b then xs else if b_hash p b = None then b # xs else xs @ [b])"
      using decref_one_at [OF w, of b] True by metis
    have "num_free_bundles p \<le> num_free_bundles p'"
      using arena_atD(7) [OF w] arena_atD(7) [OF p'(3)] by auto
    then show ?thesis
      using covered_mono [OF assms(2)] same_adminD(1) [OF p'(2)] p'(1) by simp
  next
    case False
    then show ?thesis using decref_one_bad [OF False] assms(2) by auto
  qed
qed

lemma covered_decref: "keeps (\<lambda>p. arena_wf p \<and> covered p) (decref ids owner)"
  unfolding decref_def
  by (intro sound_guard sound_andThen [where R = "\<lambda>_ p. arena_wf p \<and> covered p"] keeps_for_each keeps_check
      keepsI) (auto simp: covered_decref_one keeps_snd [OF wf_decref_one])

lemma covered_evict:
  assumes "arena_wf p" and "covered p"
  shows "covered (snd (evict_cached count p))"
proof (cases "count < 0")
  case True
  then show ?thesis using assms(2) by (simp add: evict_cached_def)
next
  case False
  obtain xs where w: "arena_at p xs" "idx_ok p" "res_ok p" using assms(1) by (rule arena_wfE)
  obtain p' ys ev where p': "evict_loop count 0 (cached_ids p) p = (Inr ev, p')" "arena_at p' ys"
    "set ys = set xs" "same_admin p p'"
    using evict_loop_at [OF w(1,2) cached_ids_queued [OF w(1,2)], of 0 count] False by auto
  have "length ys = length xs"
    using p'(3) arena_atD(6) [OF w(1)] arena_atD(6) [OF p'(2)] by (metis distinct_card)
  then have "covered p'"
    using assms(2) same_adminD(1) [OF p'(4)] arena_atD(7) [OF w(1)] arena_atD(7) [OF p'(2)]
    by (simp add: covered_def)
  then show ?thesis
    using False p'(1) by (auto simp: evict_cached_def andThen_def maybe_invariant_check_def split: sum.splits)
qed

lemma covered_incref:
  assumes "sane p" and "covered p" and "reserved_for p owner = 0"
  shows "covered (snd (incref ids owner p)) \<and>
    reservations (snd (incref ids owner p)) = reservations p"
proof -
  obtain xs where w: "arena_at p xs" "idx_ok p" "res_ok p" "0 \<le> watermark p" using assms(1) by (rule saneE)
  obtain c where c: "for_each (check_id ''INV7: cannot reference reserved bundle'') ids p = (c, p)"
    using check_ids_snd [of "''INV7: cannot reference reserved bundle''" ids p] by (metis prod.collapse)
  let ?ok = "owner \<noteq> [] \<and> c = Inr () \<and> \<not> (revivals p ids > 0 \<and> revivals p ids > unreserved_free_bundles p)"
  obtain r p1 where each: "for_each incref_one ids p = (r, p1)" by fastforce
  note f = incref_all_free [OF arena_wfI [OF w(1-3)] each]
  have "snd (incref ids owner p) = (if ?ok then p1 else p)"
    using c each assms(3)
    by (cases c; cases r)
      (auto simp: incref_def andThen_def revivals_def maybe_invariant_check_def split: sum.splits)
  moreover have "covered p1" if ?ok
    using that f assms(2) w(4) by (auto simp: covered_def unreserved_free_bundles_def)
  ultimately show ?thesis using f assms(2) by simp
qed

lemma covered_spend:
  assumes "res_ok p" and "dict_sum (reservations p) - count \<le> num_free_bundles p \<or> covered p"
    and "0 \<le> count" and "0 < reserved_for p owner" and "count \<le> reserved_for p owner"
  shows "covered (spend owner count p)"
  using spend_facts(2) [OF assms(1), of count owner] assms by (auto simp: covered_def)

lemma covered_consume:
  assumes "arena_wf p" and "covered p"
  shows "covered (snd (consume_reservation count owner p))"
proof -
  have r: "res_ok p" using assms(1) by (rule arena_wfE)
  show ?thesis
    using covered_spend [OF r, of count owner] assms(2) res_okD(3) [OF r, of owner]
    by (auto simp: consume_reservation_def consume_res_run [OF r] spend_def)
qed


text \<open>
  A discipline under which each call alone keeps the reservations covered: an owner that holds a
  reservation takes references only as a pin, paid in full, of at most that many pages that are
  still live or cached.  The slot layer pays for full pages only; \<^verbatim>\<open>Slot_Reserve\<close> shows that its calls
  keep the reservations covered all the same.
\<close>

primrec careful :: "arena \<Rightarrow> arena_call \<Rightarrow> bool" where
  "careful p (AAllocate c o') = True"
| "careful p (AIncref ids o') = (reserved_for p o' = 0)"
| "careful p (APin ids o') = (reserved_for p o' = 0 \<or>
     int (length ids) \<le> reserved_for p o' \<and> (\<forall>b \<in> set ids. revivable p b))"
| "careful p (ADecref ids o') = True"
| "careful p (AWritable b o') = True"
| "careful p (APublish ks ids) = True"
| "careful p (AEvict c) = True"
| "careful p (AReserve c o') = True"
| "careful p (ARelease o') = True"
| "careful p (AConsume c o') = True"
| "careful p ADrain = True"

primrec careful_script :: "arena_call list \<Rightarrow> arena \<Rightarrow> bool" where
  "careful_script [] p = True"
| "careful_script (c # cs) p = (careful p c \<and> careful_script cs (snd (call_arena c p)))"

lemma covered_pin:
  assumes "sane p" and "covered p" and "careful p (APin ids owner)"
  shows "covered (snd (call_arena (APin ids owner) p))"
proof (cases "reserved_for p owner = 0")
  case True
  note inc = covered_incref [OF assms(1,2) True, of ids]
  have sp: "sane (snd (incref ids owner p))"
    using sane_call [OF assms(1), of "AIncref ids owner"] by simp
  have "covered (snd (consume_reservation k owner (snd (incref ids owner p))))" for k
    using covered_consume [of "snd (incref ids owner p)"] inc sp by (simp add: sane_def)
  then show ?thesis
    using inc by (auto simp: andThen_def split: prod.splits sum.splits)
next
  case False
  then have ok: "int (length ids) \<le> reserved_for p owner" "\<forall>b \<in> set ids. revivable p b"
    using assms(3) by auto
  show ?thesis
  proof (cases "owner = []")
    case True
    then show ?thesis using assms(2) by (simp add: incref_def andThen_def)
  next
    case owner: False
    have "revivals p ids \<le> reserved_for p owner" using revivals_le [of p ids] ok(1) by linarith
    then obtain p1 where p1: "incref ids owner p = (Inr (), p1)" "sane p1" "same_admin p p1"
      "num_free_bundles p - revivals p ids \<le> num_free_bundles p1"
      using incref_run [OF assms(1) ok(2) owner] by metis
    have r: "res_ok p1" using p1(2) by (rule saneE)
    have own: "reserved_for p1 owner = reserved_for p owner" by (rule same_adminD(3) [OF p1(3)])
    have "covered (spend owner (int (length ids)) p1)"
    proof (rule covered_spend [OF r])
      show "dict_sum (reservations p1) - int (length ids) \<le> num_free_bundles p1 \<or> covered p1"
        using assms(2) p1(4) revivals_le [of p ids] same_adminD(1) [OF p1(3)] by (simp add: covered_def)
      show "0 < reserved_for p1 owner" using False res_okD(3) [OF r, of owner] own by simp
    qed (use ok own in simp_all)
    then show ?thesis
      using p1(1) ok(1) own by (simp add: andThen_def consume_reservation_def consume_res_run [OF r])
  qed
qed

lemma covered_reserve:
  assumes "sane p" and "covered p"
  shows "covered (snd (reserve count owner p))"
proof -
  have w: "res_ok p" "0 \<le> watermark p" using assms(1) by (auto elim: saneE)
  have "dict_sum (dict_set (reservations p) owner count) \<le> num_free_bundles p"
    if "map_of (reservations p) owner = None"
      "count \<le> num_free_bundles p - dict_sum (dict_del (reservations p) owner) - watermark p"
  proof -
    have "dict_get (reservations p) owner 0 = 0" using that(1) by (simp add: dict_get_def)
    then show ?thesis
      using that(2) w(2) dict_sum_del [OF res_okD(1) [OF w(1)], of owner]
        dict_sum_set [OF res_okD(1) [OF w(1)], of owner count] by linarith
  qed
  then show ?thesis
    using assms(2) by (auto simp: reserve_def check_admission_fits_def andThen_def covered_def
      num_free_bundles_def)
qed

lemma covered_publish: "keeps (\<lambda>p. arena_wf p \<and> covered p) (cache_full_blocks ks ids)"
proof -
  have "covered (snd (publish_guarded b k p))" if w: "arena_wf p" and c: "covered p" for p b k
  proof -
    have "1 \<le> a_reserved p" using w by (auto elim: arena_wfE simp: arena_at_def)
    moreover have "covered (published b k p)"
      using c published_views(5,6)
      by (simp add: covered_def num_free_bundles_def same_admin_def)
    ultimately show ?thesis
      using publish_guarded_Inr [of b k p] c by (cases "publish_guarded b k p") auto
  qed
  then have one: "keeps (\<lambda>p. arena_wf p \<and> covered p) (publish_guarded b k)" for b k
    by (intro keepsI) (simp add: keeps_snd [OF wf_publish_guarded])
  show ?thesis
    unfolding cache_full_blocks_def
    by (intro sound_guard sound_andThen [where R = "\<lambda>_ p. arena_wf p \<and> covered p"] keeps_for_each keeps_check)
      (auto intro: one)
qed

lemma covered_call:
  assumes "sane p" and "covered p" and "careful p c"
  shows "covered (snd (call_arena c p))"
proof (cases c)
  case (AAllocate n o')
  then show ?thesis using covered_allocate [OF assms(1,2)] by (simp add: snd_andThen_ret)
next
  case (AIncref ids o')
  then show ?thesis using covered_incref [OF assms(1,2)] assms(3) by simp
next
  case (APin ids o')
  show ?thesis using covered_pin [OF assms(1,2)] assms(3) unfolding APin by blast
next
  case (ADecref ids o')
  then show ?thesis
    using keeps_snd [OF covered_decref, of p] assms by (simp add: sane_def)
next
  case (AWritable b o')
  have "covered (p'\<lparr>pending_cow := pc\<rparr>)" if "covered p'" for p' pc
    using that by (simp add: covered_def num_free_bundles_def)
  then show ?thesis
    using covered_allocate [OF assms(1,2), of 1 o'] assms(2) AWritable
    by (auto simp: snd_andThen_ret ensure_writable_def andThen_def split: prod.splits sum.splits list.splits)
next
  case (APublish ks ids)
  then show ?thesis using keeps_snd [OF covered_publish, of p] assms by (simp add: sane_def)
next
  case (AEvict n)
  then show ?thesis using covered_evict assms by (simp add: snd_andThen_ret sane_def)
next
  case (AReserve n o')
  then show ?thesis using covered_reserve [OF assms(1,2)] by (simp add: snd_andThen_ret)
next
  case (ARelease o')
  have r: "res_ok p" using assms(1) by (rule saneE)
  then show ?thesis
    using ARelease assms(2) dict_sum_del [OF res_okD(1) [OF r], of o'] res_okD(3) [OF r, of o']
    by (simp add: release_reservation_def andThen_def covered_def num_free_bundles_def reserved_for_def)
next
  case (AConsume n o')
  then show ?thesis using covered_consume assms by (simp add: sane_def)
next
  case ADrain
  then show ?thesis
    using assms(2) by (simp add: drain_pending_cow_def andThen_def covered_def num_free_bundles_def)
qed

lemma careful_calls:
  "sane p \<Longrightarrow> covered p \<Longrightarrow> careful_script cs p \<Longrightarrow>
   sane (snd (run_calls call_arena cs p)) \<and> covered (snd (run_calls call_arena cs p))"
proof (induction cs arbitrary: p)
  case (Cons c cs)
  then show ?case using sane_call [of p c] covered_call [of p c] by (simp del: run_calls.simps)
qed simp

lemma arena_init_sane:
  assumes "arena_init n r wm asserting wired = Inr p" and "asserting \<longrightarrow> r = 1"
  shows "sane p" and "covered p"
proof -
  note i = arena_init_facts [OF assms(1)]
  show "sane p" using i assms(2) by (auto simp: sane_def intro: arena_wfI)
  show "covered p" using i(4) arena_atD(7) [OF i(1)] by (simp add: covered_def dict_sum_def)
qed

lemma dict_get_le_sum:
  "\<forall>(_, c) \<in> set d. 0 < c \<Longrightarrow> dict_get d k 0 \<le> dict_sum (d :: ('k \<times> int) list)"
proof (induction d)
  case (Cons x d)
  have "0 \<le> dict_sum d" using Cons.prems by (force simp: dict_sum_def intro!: sum_list_nonneg)
  with Cons show ?case by (cases x) (auto simp: dict_get_def dict_sum_def split: option.splits)
qed (simp add: dict_get_def dict_sum_def)


section \<open>What the pool promises\<close>

text \<open>
  C6: in a pool with one reserved bundle every assertion of \<^verbatim>\<open>_assert_invariants\<close> (the life cycle
  of each bundle and the accounting identity INV1) holds after any sequence of calls, whatever
  their arguments and exceptions; the free queue holds each unreferenced bundle once.
\<close>

theorem arena_assertions_hold:
  fixes cs :: "arena_call list"
  assumes "arena_init n 1 wm asserting wired = Inr p0"
  defines "p \<equiv> snd (run_calls call_arena cs p0)"
  shows "assert_invariants p = Inr () \<and>
    num_free_bundles p + ref_live_unique p = n - 1 \<and> (\<forall>b. 0 \<le> b_ref p b) \<and> b_ref p 0 = 0"
proof -
  note i = arena_init_facts [OF assms(1)]
  have "arena_wf p" unfolding p_def by (rule wf_calls) (rule arena_wfI [OF i(1-3)])
  then obtain xs where w: "arena_at p xs" "idx_ok p" by (rule arena_wfE)
  have "shape n 1 asserting wm p"
    unfolding p_def by (rule shape_calls) (simp add: shape_def i)
  then have sh: "a_reserved p = 1" "num_bundles p = n" by (simp_all add: shape_def)
  then show ?thesis
    using assert_invariants_ok [OF w] live_and_free [OF w(1)] arena_atD(4,7,9) [OF w(1)]
    by (simp add: usable_def)
qed

definition demo_arena :: arena where
  "demo_arena = (case arena_init 6 1 0 True True of Inr p \<Rightarrow> p)"

lemma demo_arena_init: "arena_init 6 1 0 True True = Inr demo_arena"
  by (simp add: demo_arena_def arena_init_def kvq_init_def kvq_append_def andThen_def upto.simps)

definition key :: "int \<Rightarrow> int \<Rightarrow> block_key" where
  "key v n = \<lparr>bk_value = v, bk_num_tokens = n\<rparr>"

definition demo_calls :: "arena_call list" where
  "demo_calls = [AReserve 3 ''a'', AAllocate 2 ''a'', APublish [key 7 16, key 9 32] [1, 2], ADecref [2, 1] ''a'']"

theorem arena_assertions_hold_witness:
  "assert_invariants (snd (run_calls call_arena demo_calls demo_arena)) = Inr ()"
  using arena_assertions_hold [OF demo_arena_init] by blast

text \<open>
  On the level of this pool alone: in any run under the discipline \<open>careful\<close>, an owner with \<^verbatim>\<open>k\<close> reserved pages can at any later point allocate any number of pages up
  to \<^verbatim>\<open>k\<close>: the call returns that many distinct bundles, none of which had a reference, each now
  held once and without a hash, and uses up exactly that part of the reservation.
\<close>

theorem reservation_is_honoured:
  assumes "arena_init n r wm asserting wired = Inr p0" and "asserting \<longrightarrow> r = 1"
    and "careful_script cs p0"
  defines "p \<equiv> snd (run_calls call_arena cs p0)"
  assumes "owner \<noteq> []" and "0 \<le> count" and "count \<le> reserved_for p owner"
  shows "\<exists>ids p'. kv_allocate count owner p = (Inr ids, p') \<and> int (length ids) = count \<and> distinct ids \<and>
    (\<forall>b \<in> set ids. r \<le> b \<and> b < n \<and> b_ref p b = 0 \<and> b_ref p' b = 1 \<and> b_hash p' b = None) \<and>
    reserved_for p' owner = reserved_for p owner - count"
proof -
  have sc: "sane p" "covered p"
    using careful_calls [OF arena_init_sane [OF assms(1,2)] assms(3)] by (simp_all add: p_def)
  obtain xs where w: "arena_at p xs" "idx_ok p" "res_ok p" "0 \<le> watermark p" using sc(1) by (rule saneE)
  have "shape n r asserting wm p"
    unfolding p_def by (rule shape_calls) (simp add: shape_def arena_init_facts [OF assms(1)])
  then have sh: "usable p b \<longleftrightarrow> r \<le> b \<and> b < n" for b by (simp add: shape_def usable_def)
  have "reserved_for p owner \<le> dict_sum (reservations p)"
    unfolding reserved_for_def using w(3) by (intro dict_get_le_sum) (simp add: res_ok_def)
  then have c: "count \<le> int (length xs)"
    using assms(7) sc(2) arena_atD(7) [OF w(1)] by (simp add: covered_def)
  have fits: "if reserved_for p owner = 0 then count \<le> unreserved_free_bundles p else count \<le> reserved_for p owner"
    using assms(6,7) by (auto simp: unreserved_free_bundles_def)
  obtain p' where p': "kv_allocate count owner p = (Inr (take (nat count) xs), p')"
    "reservations p' = reservations (spend owner count p)"
    "\<And>b. b_ref p' b = (if b \<in> set (take (nat count) xs) then 1 else b_ref p b)"
    "\<And>b. b_hash p' b = (if b \<in> set (take (nat count) xs) then None else b_hash p b)"
    using allocate_run [OF sc(1) w(1) assms(5,6) c fits] by metis
  have "reserved_for p' owner = reserved_for p owner - count"
    using spend_facts(3) [OF w(3) disjI1 [OF assms(7)] assms(6), of owner] p'(2) assms(6,7)
    by (auto simp: reserved_for_def)
  moreover have "int (length (take (nat count) xs)) = count" using c assms(6) by (auto simp: min_def)
  moreover have "r \<le> b \<and> b < n \<and> b_ref p b = 0" if "b \<in> set (take (nat count) xs)" for b
    using that arena_atD(5) [OF w(1), of b] sh in_set_takeD by metis
  ultimately show ?thesis using p'(1,3,4) arena_atD(6) [OF w(1)] by auto
qed

theorem reservation_is_honoured_witness:
  "reserved_for (snd (run_calls call_arena (take 1 demo_calls) demo_arena)) ''a'' = 3 \<and>
   (\<exists>ids p'. kv_allocate 3 ''a'' (snd (run_calls call_arena (take 1 demo_calls) demo_arena)) = (Inr ids, p')
     \<and> int (length ids) = 3)"
proof -
  have "careful_script (take 1 demo_calls) demo_arena" by code_simp
  moreover have r: "reserved_for (snd (run_calls call_arena (take 1 demo_calls) demo_arena)) ''a'' = 3"
    by code_simp
  ultimately show ?thesis
    using reservation_is_honoured [OF demo_arena_init, of "take 1 demo_calls" "''a''" 3] by auto
qed

lemma lookup_loop_spec:
  "\<exists>m \<le> length ks. lookup_loop p ks = map (\<lambda>k. hd (holders_of p (bk_value k))) (take m ks) \<and>
    (\<forall>k \<in> set (take m ks). holders_of p (bk_value k) \<noteq> []) \<and>
    (m < length ks \<longrightarrow> holders_of p (bk_value (ks ! m)) = [])"
proof (induction ks)
  case (Cons k ks)
  then obtain m where m: "m \<le> length ks" "lookup_loop p ks = map (\<lambda>k. hd (holders_of p (bk_value k))) (take m ks)"
    "\<forall>k \<in> set (take m ks). holders_of p (bk_value k) \<noteq> []"
    "m < length ks \<longrightarrow> holders_of p (bk_value (ks ! m)) = []" by blast
  show ?case
  proof (cases "holders_of p (bk_value k)")
    case Nil
    then have "lookup_loop p (k # ks) = []" by (auto simp: holders_of_def split: option.splits)
    with Nil show ?thesis by (intro exI [of _ 0]) simp
  next
    case (Cons h hs)
    then have "lookup_loop p (k # ks) = h # lookup_loop p ks" by (auto simp: holders_of_def split: option.splits)
    with Cons m show ?thesis by (intro exI [of _ "Suc m"]) simp
  qed
qed simp

lemma lookup_ids: "ph_bundle_ids (lookup_longest_prefix keys mb p) =
    lookup_loop p (take (case mb of None \<Rightarrow> length keys | Some m \<Rightarrow> min m (length keys)) keys)"
  by (simp add: lookup_longest_prefix_def no_hit_def Let_def)

text \<open>
  C7: a prefix hit is the longest one within the limit and can be pinned.  After any sequence of calls
  the bundles that \<^verbatim>\<open>lookup_longest_prefix\<close> returns are usable, each is the first holder of its key's
  value and still carries the key; there are at most \<^verbatim>\<open>max_blocks\<close> of them (if given, and not
  negative) and fewer only if nobody holds the next value; the hit reports their number and the
  tokens they end at; and an owner for whom the parked ones among them fit its reservation or the
  unreserved bundles can \<^verbatim>\<open>incref\<close> all of them without an exception.
\<close>

theorem prefix_hit_can_be_pinned:
  fixes cs :: "arena_call list" and keys :: "block_key list" and max_blocks :: "nat option"
  assumes "arena_init n r wm asserting wired = Inr p0" and "asserting \<longrightarrow> r = 1"
  defines "p \<equiv> snd (run_calls call_arena cs p0)"
  defines "hit \<equiv> lookup_longest_prefix keys max_blocks p"
  defines "ids \<equiv> ph_bundle_ids hit"
    and "limit \<equiv> (case max_blocks of None \<Rightarrow> length keys | Some m \<Rightarrow> min m (length keys))"
  assumes "owner \<noteq> []"
    and "revivals p ids \<le> reserved_for p owner \<or> revivals p ids - reserved_for p owner \<le> unreserved_free_bundles p"
  shows "length ids \<le> limit \<and>
    (\<forall>i < length ids. r \<le> ids ! i \<and> ids ! i < n \<and> ids ! i = hd (holders_of p (bk_value (keys ! i))) \<and>
       bk_value (keys ! i) \<in> fst ` set (keys_of p (ids ! i))) \<and>
    (length ids < limit \<longrightarrow> holders_of p (bk_value (keys ! length ids)) = []) \<and>
    ph_num_blocks hit = int (length ids) \<and> ph_hit hit = (ids \<noteq> []) \<and>
    ph_effective_tokens hit = (if ids = [] then 0 else bk_num_tokens (keys ! (length ids - 1))) \<and>
    fst (incref ids owner p) = Inr ()"
proof -
  note i = arena_init_facts [OF assms(1)]
  have "arena_wf p" unfolding p_def by (rule wf_calls) (rule arena_wfI [OF i(1-3)])
  moreover have sh: "shape n r asserting wm p"
    unfolding p_def by (rule shape_calls) (simp add: shape_def i)
  ultimately have sp: "sane p" using i(9) assms(2) by (simp add: sane_def shape_def)
  obtain xs where w: "arena_at p xs" "idx_ok p" using sp by (rule saneE)
  have lim: "limit \<le> length keys" by (simp add: limit_def split: option.split)
  obtain m where m: "m \<le> length (take limit keys)"
    "ids = map (\<lambda>k. hd (holders_of p (bk_value k))) (take m (take limit keys))"
    "\<forall>k \<in> set (take m (take limit keys)). holders_of p (bk_value k) \<noteq> []"
    "m < length (take limit keys) \<longrightarrow> holders_of p (bk_value (take limit keys ! m)) = []"
    using lookup_loop_spec [of "take limit keys" p] unfolding ids_def hit_def lookup_ids limit_def by blast
  have len: "length ids = m" "m \<le> limit" using m(1,2) lim by simp_all
  have at: "ids ! j = hd (holders_of p (bk_value (keys ! j))) \<and>
      bk_value (keys ! j) \<in> fst ` set (keys_of p (ids ! j)) \<and> usable p (ids ! j) \<and> b_hash p (ids ! j) \<noteq> None"
    if "j < length ids" for j
  proof -
    have key: "keys ! j \<in> set (take m (take limit keys))" "ids ! j = hd (holders_of p (bk_value (keys ! j)))"
      using that len lim m(2) by (auto simp: in_set_conv_nth)
    then have "ids ! j \<in> set (holders_of p (bk_value (keys ! j)))" using m(3) hd_in_set by metis
    then have mem: "bk_value (keys ! j) \<in> fst ` set (keys_of p (ids ! j))" using idx_okD(5) [OF w(2)] by simp
    then have "b_hash p (ids ! j) \<noteq> None" using idx_okD(6) [OF w(2), of "ids ! j"] by auto
    with mem key(2) show ?thesis using idx_okD(7) [OF w(2)] by blast
  qed
  then have "\<forall>b \<in> set ids. revivable p b" by (metis in_set_conv_nth revivable_def)
  then have "fst (incref ids owner p) = Inr ()"
    using incref_run [OF sp _ assms(7), of ids] assms(8) by (metis fst_conv)
  moreover have "ph_num_blocks hit = int (length ids)" "ph_hit hit = (ids \<noteq> [])"
    "ph_effective_tokens hit = (if ids = [] then 0 else bk_num_tokens (keys ! (length ids - 1)))"
    by (simp_all add: ids_def hit_def lookup_longest_prefix_def no_hit_def Let_def)
  moreover have "length ids \<le> limit" using len by simp
  moreover have "holders_of p (bk_value (keys ! length ids)) = []" if "length ids < limit"
    using m(4) that len lim by simp
  moreover have "r \<le> ids ! j \<and> ids ! j < n" if "j < length ids" for j
    using at [OF that] sh unfolding shape_def usable_def by blast
  ultimately show ?thesis using at by blast
qed

definition quiet_arena :: arena where
  "quiet_arena = (case arena_init 4 1 0 False True of Inr p \<Rightarrow> p)"

lemma quiet_arena_init: "arena_init 4 1 0 False True = Inr quiet_arena"
  by (simp add: quiet_arena_def arena_init_def kvq_init_def kvq_append_def andThen_def upto.simps)

definition hit_calls :: "arena_call list" where
  "hit_calls = [AAllocate 2 ''a'', APublish [key 7 16, key 9 32] [1, 2], ADecref [1] ''a'']"

theorem prefix_hit_can_be_pinned_witness:
  "let p = snd (run_calls call_arena hit_calls quiet_arena);
       hit = lookup_longest_prefix [key 7 16, key 9 32, key 8 48] (Some 1) p
   in ph_bundle_ids hit = [1] \<and> ph_effective_tokens hit = 16 \<and> fst (incref [1] ''b'' p) = Inr () \<and>
     ph_bundle_ids (lookup_longest_prefix [key 7 16, key 9 32, key 8 48] None p) = [1, 2]"
proof -
  let ?p = "snd (run_calls call_arena hit_calls quiet_arena)" and ?keys = "[key 7 16, key 9 32, key 8 48]"
  have ids: "ph_bundle_ids (lookup_longest_prefix ?keys (Some 1) ?p) = [1]"
    "ph_bundle_ids (lookup_longest_prefix ?keys None ?p) = [1, 2]"
    by code_simp+
  have "revivals ?p [1] - reserved_for ?p ''b'' \<le> unreserved_free_bundles ?p" by code_simp
  then show ?thesis
    using prefix_hit_can_be_pinned [OF quiet_arena_init, of "''b''" hit_calls ?keys "Some 1"] ids
    unfolding Let_def by (simp add: key_def)
qed

definition quiet_calls :: "arena_call list" where
  "quiet_calls = [AAllocate 2 ''a'', APublish [key 7 16] [1], ADecref [1] ''a'']"

text \<open>
  \<^verbatim>\<open>evict_cached(count)\<close> on a well-formed pool evicts the first \<^verbatim>\<open>count\<close> cached bundles in
  ascending bundle id, whatever the order of the free queue, calls the eviction callback for
  exactly those in that order, drops exactly their hashes, and never touches a live bundle.
\<close>

theorem evict_cached_spec:
  assumes "sane p" and "0 \<le> count"
  defines "evicted \<equiv> take (nat count) (filter (\<lambda>b. b_ref p b = 0 \<and> b_hash p b \<noteq> None) [0..num_bundles p - 1])"
  shows "\<exists>p'. evict_cached count p = (Inr (int (length evicted)), p') \<and> sane p' \<and>
    evicted_log p' = evicted_log p @ (if evict_wired p then evicted else []) \<and>
    (\<forall>b. b_hash p' b = (if b \<in> set evicted then None else b_hash p b)) \<and> b_ref p' = b_ref p \<and>
    sorted_wrt (<) evicted"
proof -
  obtain xs where w: "arena_at p xs" "idx_ok p" "res_ok p" using assms(1) by (rule saneE)
  have ev: "evicted = take (nat count) (cached_ids p)" by (simp add: evicted_def cached_ids_def all_bundles_def)
  obtain p' ys where p': "evict_loop count 0 (cached_ids p) p = (Inr (min count (0 + int (length (cached_ids p)))), p')"
    "arena_at p' ys" "idx_ok p'" "same_admin p p'" "b_ref p' = b_ref p"
    "\<forall>b. b_hash p' b = (if b \<in> set (take (nat (count - 0)) (cached_ids p)) then None else b_hash p b)"
    "evicted_log p' = evicted_log p @ (if evict_wired p then take (nat (count - 0)) (cached_ids p) else [])"
    using evict_loop_at [OF w(1,2) cached_ids_queued [OF w(1,2)] assms(2)] by metis
  have "arena_wf p'" using p'(2,3) w(3) res_ok_cong [OF p'(4)] by (auto intro: arena_wfI)
  then have sp: "sane p'" using sane_cong [OF p'(4)] assms(1) by simp
  have "evict_cached count p = (Inr (int (length evicted)), p')"
    using p'(1) assms(2) maybe_check_ok [OF sp] by (auto simp: evict_cached_def andThen_def ev min_def)
  moreover have "sorted_wrt (<) (cached_ids p)"
    unfolding cached_ids_def all_bundles_def by (intro sorted_wrt_filter) simp
  then have "sorted_wrt (<) evicted" unfolding ev by (rule sorted_wrt_take)
  ultimately show ?thesis using p'(5-7) sp by (auto simp: ev)
qed

theorem evict_cached_spec_witness:
  "\<exists>p'. evict_cached 5 (snd (run_calls call_arena quiet_calls quiet_arena)) = (Inr 1, p')"
proof -
  let ?p = "snd (run_calls call_arena quiet_calls quiet_arena)"
  note i = arena_init_facts [OF quiet_arena_init]
  have "arena_wf ?p" by (rule wf_calls) (rule arena_wfI [OF i(1-3)])
  moreover have "shape 4 1 False 0 ?p" by (rule shape_calls) (simp add: shape_def i)
  ultimately have "sane ?p" by (simp add: sane_def shape_def)
  moreover have "filter (\<lambda>b. b_ref ?p b = 0 \<and> b_hash ?p b \<noteq> None) [0..num_bundles ?p - 1] = [1]"
    by code_simp
  ultimately show ?thesis using evict_cached_spec [of ?p 5] by auto
qed

text \<open>
  when \<^verbatim>\<open>ensure_writable(b)\<close> returns a bundle on a well-formed pool, the caller may write to
  it: it is a usable bundle held exactly once and carrying no hash.  Either it is \<^verbatim>\<open>b\<close> itself and
  nothing changed, or it is a different bundle that nobody held, \<^verbatim>\<open>b\<close> keeps its references and its
  content hash, and the copy from \<^verbatim>\<open>b\<close> is on the pending ledger.  A bundle without references,
  cached or not, is refused.
\<close>

theorem ensure_writable_is_private:
  assumes "sane p" and "ensure_writable b owner p = (Inr t, p')"
  shows "usable p t \<and> b_ref p' t = 1 \<and> b_hash p' t = None \<and> 0 < b_ref p b \<and>
    (if t = b then p' = p
     else b_ref p t = 0 \<and> b_ref p' b = b_ref p b \<and> b_hash p' b = b_hash p b \<and>
       map_of (pending_cow p') t = Some b)"
proof -
  obtain xs where w: "arena_at p xs" "idx_ok p" "res_ok p" "0 \<le> watermark p" using assms(1) by (rule saneE)
  have u: "usable p b" using assms(2) by (auto simp: ensure_writable_def usable_def split: if_splits)
  show ?thesis
  proof (cases "b_ref p b = 1 \<and> \<not> is_null b \<and> b_hash p b = None")
    case True
    then show ?thesis using assms(2) u by (auto simp: ensure_writable_def usable_def)
  next
    case False
    then have rc: "b_ref p b \<noteq> 0"
      and run: "andThen (kv_allocate 1 owner) (\<lambda>fresh. case fresh of
         [] \<Rightarrow> raise (IndexError ''list index out of range'')
       | target # _ \<Rightarrow> andThen (update (\<lambda>p. p\<lparr>pending_cow := dict_set (pending_cow p) target b\<rparr>)) (\<lambda>_.
           ret target)) p = (Inr t, p')"
      using assms(2) u by (auto simp: ensure_writable_def usable_def split: if_splits)
    obtain ids p1 where al: "kv_allocate 1 owner p = (Inr ids, p1)" using run by (rule andThen_InrE)
    have ok: "owner \<noteq> []" "xs \<noteq> []"
      "if reserved_for p owner = 0 then 1 \<le> unreserved_free_bundles p else 1 \<le> reserved_for p owner"
      using al arena_atD(7) [OF w(1)] by (auto simp: kv_allocate_def split: if_splits)
    have len: "1 \<le> int (length xs)" using ok(2) by (cases xs) auto
    obtain p2 where p2: "kv_allocate 1 owner p = (Inr (take (nat 1) xs), p2)"
      "\<And>c. b_ref p2 c = (if c \<in> set (take (nat 1) xs) then 1 else b_ref p c)"
      "\<And>c. b_hash p2 c = (if c \<in> set (take (nat 1) xs) then None else b_hash p c)"
      using allocate_run [OF assms(1) w(1) ok(1) _ len ok(3)] by (metis zero_le_one)
    obtain x ys where xs: "xs = x # ys" using ok(2) by (cases xs) auto
    have "t = x" "p' = p2\<lparr>pending_cow := dict_set (pending_cow p2) x b\<rparr>"
      using run p2(1) by (auto simp: andThen_def xs)
    moreover have "usable p x" "b_ref p x = 0" using arena_atD(5) [OF w(1), of x] by (simp_all add: xs)
    moreover have "x \<noteq> b" using rc calculation(4) by auto
    moreover have "0 < b_ref p b" using rc arena_atD(4) [OF w(1), of b] by simp
    ultimately show ?thesis using p2(2,3) by (simp add: xs)
  qed
qed

theorem ensure_writable_is_private_witness:
  "\<exists>t p'. ensure_writable 1 ''a'' (snd (run_calls call_arena (take 2 quiet_calls) quiet_arena)) = (Inr t, p') \<and>
     t = 3 \<and> b_ref p' t = 1"
proof -
  let ?p = "snd (run_calls call_arena (take 2 quiet_calls) quiet_arena)"
  note i = arena_init_facts [OF quiet_arena_init]
  have "arena_wf ?p" by (rule wf_calls) (rule arena_wfI [OF i(1-3)])
  moreover have "shape 4 1 False 0 ?p" by (rule shape_calls) (simp add: shape_def i)
  ultimately have "sane ?p" by (simp add: sane_def shape_def)
  moreover have "fst (ensure_writable 1 ''a'' ?p) = Inr 3" by code_simp
  ultimately show ?thesis
    using ensure_writable_is_private [of ?p 1 "''a''" 3 "snd (ensure_writable 1 ''a'' ?p)"]
    by (metis prod.collapse)
qed

lemma first_error_Inl: "x \<in> set xs \<Longrightarrow> isl (f x) \<Longrightarrow> isl (first_error f xs)"
  by (induction xs) (auto split: sum.splits)

text \<open>
  A pool constructed with two or more reserved bundles and with the assertions on can never
  serve: \<^verbatim>\<open>_assert_lifecycle\<close> exempts only bundle 0 and expects every other reserved bundle in
  the free queue, so \<^verbatim>\<open>allocate\<close> raises at every point of every run.
\<close>

theorem extra_reserved_never_serves:
  assumes "arena_init n r wm True wired = Inr p0" and "2 \<le> r"
  shows "isl (fst (kv_allocate count owner (snd (run_calls call_arena cs p0))))"
proof -
  note i = arena_init_facts [OF assms(1)]
  let ?J = "\<lambda>p. arena_wf p \<and> shape n r True wm p"
  have j: "?J (snd (run_calls call_arena cs p0))"
    by (intro conjI wf_calls shape_calls arena_wfI [OF i(1-3)]) (simp add: shape_def i)
  have "isl (assert_invariants p)" if J: "?J p" for p
  proof -
    obtain xs where w: "arena_at p xs" "idx_ok p" using J by (auto simp: arena_wf_def)
    have sh: "a_reserved p = r" "num_bundles p = n" using J by (simp_all add: shape_def)
    have "r < n" using arena_atD(3) [OF w(1)] sh by simp
    have "\<not> usable p 1" using assms(2) sh by (simp add: usable_def)
    then have "isl (lifecycle_ok_one p 1)"
      using arena_atD(5,8,9) [OF w(1), of 1] idx_okD(7) [OF w(2), of 1]
      by (auto simp: lifecycle_ok_one_def is_null_def)
    moreover have "1 \<in> set (all_bundles p)" using assms(2) \<open>r < n\<close> sh by (simp add: all_bundles_def)
    ultimately have "isl (assert_lifecycle p)" unfolding assert_lifecycle_def by (intro first_error_Inl)
    then show ?thesis by (auto simp: assert_invariants_def split: sum.splits)
  qed
  then have chk: "sound ?J (andThen maybe_invariant_check (\<lambda>_. ret ids)) (\<lambda>_ _. False) (\<lambda>_. True)"
    for ids :: "int list"
    by (fastforce simp: sound_def maybe_invariant_check_def shape_def andThen_def split: sum.splits)
  have tb: "keeps ?J (take_bundles k ids)" and cr: "0 \<le> k' \<Longrightarrow> keeps ?J (consume_res owner k')" for k ids k'
    using keeps_snd [OF wf_take_bundles] keeps_snd [OF shape_frame.keeps_take_bundles]
      keeps_snd [OF wf_consume_res] keeps_snd [OF shape_frame.keeps_consume_res] by (auto intro!: keepsI)
  have "sound ?J (kv_allocate count owner) (\<lambda>_ _. False) (\<lambda>_. True)"
    unfolding kv_allocate_def split_def
    by (intro sound_guard sound_reading)
      (auto intro!: sound_andThen [where R = "\<lambda>_. ?J"] sound_weaken [OF tb] sound_weaken [OF cr] chk
        simp del: ret_run)
  from sound_Inr [OF this, of "snd (run_calls call_arena cs p0)"] j show ?thesis
    by (cases "kv_allocate count owner (snd (run_calls call_arena cs p0))";
        cases "fst (kv_allocate count owner (snd (run_calls call_arena cs p0)))") auto
qed

theorem extra_reserved_never_serves_witness:
  "\<exists>p. arena_init 4 2 0 True False = Inr p \<and> isl (fst (kv_allocate 1 ''a'' p))"
proof -
  obtain p where p: "arena_init 4 2 0 True False = Inr p"
    by (simp add: arena_init_def kvq_init_def kvq_append_def andThen_def upto.simps)
  then show ?thesis using extra_reserved_never_serves [OF p, of 1 "''a''" "[]"] by auto
qed

end
