(* ===== verification/Recurrent_Pool.thy ===== *)
theory Recurrent_Pool
  imports Prelude
begin

text \<open>
  The byte-budgeted LRU pool of recurrent-state checkpoints of
  \<^verbatim>\<open>runtime/recurrent_state_pool.py\<close>.  Checkpoint keys and hash values are opaque in the source
  and stay type variables; the callback \<^verbatim>\<open>should_drop_kv_hash\<close> is a field of the pool and the calls of
  \<^verbatim>\<open>drop_kv_hash\<close> are recorded in order.
\<close>

section \<open>Rows\<close>

definition state_slot :: "int \<Rightarrow> int \<Rightarrow> int res" where
  "state_slot logical_slot rsv =
     (if logical_slot < 0 then Inl (ValueError ''logical_slot must be non-negative'')
      else Inr (logical_slot + rsv))"

definition spec_row :: "int \<Rightarrow> int \<Rightarrow> int \<Rightarrow> int \<Rightarrow> int \<Rightarrow> int res" where
  "spec_row logical_slot col total_physical_slots num_spec rsv =
     (if col < 0 \<or> col > num_spec then Inl (ValueError ''col out of range'')
      else case state_slot logical_slot rsv of
        Inl e \<Rightarrow> Inl e
      | Inr phys \<Rightarrow> Inr (if col = 0 then phys else total_physical_slots + phys * num_spec + (col - 1)))"

section \<open>The pool\<close>

record 'h ckpt_meta =
  cm_hash :: 'h
  cm_tokens :: int
  cm_nbytes :: int

record ('k, 'h) ckpt_pool =
  cp_budget :: int
  cp_should_drop :: "('k \<Rightarrow> bool) option"
  cp_meta :: "('k \<times> 'h ckpt_meta) list"
  cp_by_hash :: "'h \<Rightarrow> 'k option"
  cp_lru :: "'k list"
  cp_pinned :: "'k set"
  cp_kv_dropped :: "'k list"

definition cp_init :: "int \<Rightarrow> ('k \<Rightarrow> bool) option \<Rightarrow> ('k, 'h) ckpt_pool res" where
  "cp_init budget should_drop =
     (if budget < 0 then Inl (ValueError ''byte_budget must be non-negative'')
      else Inr \<lparr>cp_budget = budget, cp_should_drop = should_drop, cp_meta = [], cp_by_hash = (\<lambda>_. None),
        cp_lru = [], cp_pinned = {}, cp_kv_dropped = []\<rparr>)"

definition cp_has :: "('k, 'h) ckpt_pool \<Rightarrow> 'k \<Rightarrow> bool" where
  "cp_has p k \<longleftrightarrow> k \<in> fst ` set (cp_meta p)"

definition cp_len :: "('k, 'h) ckpt_pool \<Rightarrow> int" where
  "cp_len p = int (length (cp_meta p))"

definition total_bytes :: "('k, 'h) ckpt_pool \<Rightarrow> int" where
  "total_bytes p = sum_list (map (cm_nbytes \<circ> snd) (cp_meta p))"

definition cp_register :: "'k \<Rightarrow> 'h \<Rightarrow> int \<Rightarrow> int \<Rightarrow> (('k, 'h) ckpt_pool, unit) prog" where
  "cp_register k h tokens nbytes = reading (\<lambda>p. cp_has p k) (\<lambda>present.
     guard present (RuntimeError ''checkpoint key is already registered'') (
     update (\<lambda>p. p\<lparr>cp_meta := dict_set (cp_meta p) k \<lparr>cm_hash = h, cm_tokens = tokens, cm_nbytes = nbytes\<rparr>,
       cp_by_hash := (cp_by_hash p)(h \<mapsto> k), cp_lru := cp_lru p @ [k]\<rparr>)))"

definition cp_touch :: "'k \<Rightarrow> (('k, 'h) ckpt_pool, unit) prog" where
  "cp_touch k = reading (\<lambda>p. cp_has p k) (\<lambda>present.
     guard (\<not> present) (RuntimeError ''cannot touch unregistered checkpoint key'') (
     update (\<lambda>p. p\<lparr>cp_lru := remove1 k (cp_lru p) @ [k]\<rparr>)))"

definition get_by_hash :: "('k, 'h) ckpt_pool \<Rightarrow> 'h \<Rightarrow> 'k option" where
  "get_by_hash p h = cp_by_hash p h"

definition cp_pin :: "'k \<Rightarrow> (('k, 'h) ckpt_pool, unit) prog" where
  "cp_pin k = reading (\<lambda>p. cp_has p k) (\<lambda>present.
     guard (\<not> present) (RuntimeError ''cannot pin unregistered checkpoint key'') (
     update (\<lambda>p. p\<lparr>cp_pinned := insert k (cp_pinned p)\<rparr>)))"

definition cp_unpin :: "'k \<Rightarrow> (('k, 'h) ckpt_pool, unit) prog" where
  "cp_unpin k = update (\<lambda>p. p\<lparr>cp_pinned := cp_pinned p - {k}\<rparr>)"

definition is_pinned :: "('k, 'h) ckpt_pool \<Rightarrow> 'k \<Rightarrow> bool" where
  "is_pinned p k \<longleftrightarrow> k \<in> cp_pinned p"

definition cp_evict :: "'k \<Rightarrow> (('k, 'h) ckpt_pool, unit) prog" where
  "cp_evict k = reading (\<lambda>p. (is_pinned p k \<and> cp_has p k, map_of (cp_meta p) k)) (\<lambda>(live, meta).
     guard live (RuntimeError ''refusing to evict pinned checkpoint key'') (
     case meta of
       None \<Rightarrow> ret ()
     | Some m \<Rightarrow>
         andThen (update (\<lambda>p. p\<lparr>cp_meta := dict_del (cp_meta p) k\<rparr>)) (\<lambda>_.
         andThen (update (\<lambda>p. p\<lparr>cp_by_hash := (cp_by_hash p)(cm_hash m := None)\<rparr>)) (\<lambda>_.
         andThen (update (\<lambda>p. p\<lparr>cp_lru := remove1 k (cp_lru p)\<rparr>)) (\<lambda>_.
         update (\<lambda>p. case cp_should_drop p of
           None \<Rightarrow> p
         | Some f \<Rightarrow> if f k then p\<lparr>cp_kv_dropped := cp_kv_dropped p @ [k]\<rparr> else p))))))"

text \<open>The loop of \<^verbatim>\<open>evict_for_budget\<close> over the snapshot of the keys, with the running total.\<close>

primrec budget_loop :: "int \<Rightarrow> ('k \<Rightarrow> bool) option \<Rightarrow> int \<Rightarrow> 'k list \<Rightarrow> (('k, 'h) ckpt_pool, unit) prog" where
  "budget_loop incoming incl ttl [] = ret ()"
| "budget_loop incoming incl ttl (k # ks) =
     reading (\<lambda>p. (cp_budget p, is_pinned p k)) (\<lambda>(budget, pinned).
     if ttl + incoming \<le> budget then ret ()
     else if pinned \<and> (case incl of None \<Rightarrow> True | Some f \<Rightarrow> \<not> f k)
     then budget_loop incoming incl ttl ks
     else andThen (if pinned then cp_unpin k else ret ()) (\<lambda>_.
       reading (\<lambda>p. map_of (cp_meta p) k) (\<lambda>meta. case meta of
         None \<Rightarrow> raise (KeyError ''self._meta[key]'')
       | Some m \<Rightarrow> andThen (cp_evict k) (\<lambda>_. budget_loop incoming incl (ttl - cm_nbytes m) ks))))"

definition evict_for_budget :: "int \<Rightarrow> ('k \<Rightarrow> bool) option \<Rightarrow> (('k, 'h) ckpt_pool, unit) prog" where
  "evict_for_budget incoming incl = reading (\<lambda>p. (total_bytes p, cp_lru p)) (\<lambda>(ttl, keys).
     budget_loop incoming incl ttl keys)"

section \<open>The bookkeeping invariant\<close>

definition cp_wf :: "('k, 'h) ckpt_pool \<Rightarrow> bool" where
  "cp_wf p \<longleftrightarrow> distinct (map fst (cp_meta p)) \<and> distinct (cp_lru p) \<and>
     set (cp_lru p) = fst ` set (cp_meta p) \<and> cp_pinned p \<subseteq> fst ` set (cp_meta p) \<and>
     (\<forall>h k. cp_by_hash p h = Some k \<longrightarrow> map_option cm_hash (map_of (cp_meta p) k) = Some h)"

lemma cp_wfD:
  assumes "cp_wf p"
  shows "distinct (map fst (cp_meta p))" and "distinct (cp_lru p)"
    and "set (cp_lru p) = fst ` set (cp_meta p)" and "cp_pinned p \<subseteq> set (cp_lru p)"
    and "cp_by_hash p h = Some k \<Longrightarrow> map_option cm_hash (map_of (cp_meta p) k) = Some h"
  using assms unfolding cp_wf_def by blast+

lemma cp_has_map_of: "cp_has p k \<longleftrightarrow> map_of (cp_meta p) k \<noteq> None"
  by (simp add: cp_has_def map_of_eq_None_iff)

lemma keys_dict_del: "fst ` set (dict_del d k) = fst ` set d - {k}"
  by (auto simp: dict_del_def image_iff)

lemma dict_del_absent: "k \<notin> fst ` set d \<Longrightarrow> dict_del d k = d"
  by (induction d) (auto simp: dict_del_def)

lemma sum_dict_del:
  "distinct (map fst d) \<Longrightarrow> map_of d k = Some m \<Longrightarrow>
   sum_list (map (f \<circ> snd) (dict_del d k)) = sum_list (map (f \<circ> snd) d) - (f m :: int)"
proof (induction d)
  case (Cons x d)
  then show ?case
    using dict_del_absent [of "fst x" d] by (cases x) (auto simp: dict_del_def split: if_splits)
qed simp

text \<open>The effect of dropping one registered key.\<close>

definition evicted1 :: "'k \<Rightarrow> ('k, 'h) ckpt_pool \<Rightarrow> ('k, 'h) ckpt_pool" where
  "evicted1 k p = (case map_of (cp_meta p) k of
     None \<Rightarrow> p
   | Some m \<Rightarrow> p\<lparr>cp_meta := dict_del (cp_meta p) k, cp_by_hash := (cp_by_hash p)(cm_hash m := None),
       cp_lru := remove1 k (cp_lru p),
       cp_kv_dropped := cp_kv_dropped p @
         (case cp_should_drop p of None \<Rightarrow> [] | Some f \<Rightarrow> if f k then [k] else [])\<rparr>)"

lemma cp_evict_run:
  "cp_evict k p = (if is_pinned p k \<and> cp_has p k
     then (Inl (RuntimeError ''refusing to evict pinned checkpoint key''), p)
     else (Inr (), evicted1 k p))"
  by (auto simp: cp_evict_def evicted1_def split: option.splits)

lemma evicted1_wf:
  assumes "cp_wf p" and "k \<notin> cp_pinned p"
  shows "cp_wf (evicted1 k p)"
proof (cases "map_of (cp_meta p) k")
  case None
  then show ?thesis using assms by (simp add: evicted1_def)
next
  case (Some m)
  have "map_option cm_hash (map_of (dict_del (cp_meta p) k) k') = Some h"
    if "((cp_by_hash p)(cm_hash m := None)) h = Some k'" for h k'
  proof -
    have "cp_by_hash p h = Some k'" "h \<noteq> cm_hash m" using that by (auto split: if_splits)
    then obtain z where "map_of (cp_meta p) k' = Some z" "cm_hash z = h"
      using cp_wfD(5) [OF assms(1)] by fastforce
    with Some \<open>h \<noteq> cm_hash m\<close> show ?thesis by auto
  qed
  then show ?thesis
    using assms Some cp_wfD(1-4) [OF assms(1)]
    by (auto simp: evicted1_def cp_wf_def keys_dict_del set_remove1_eq)
qed

lemma evicted1_facts:
  assumes "cp_wf p" and "map_of (cp_meta p) k = Some m"
  shows "total_bytes (evicted1 k p) = total_bytes p - cm_nbytes m"
    and "cp_lru (evicted1 k p) = remove1 k (cp_lru p)" and "cp_pinned (evicted1 k p) = cp_pinned p"
    and "cp_budget (evicted1 k p) = cp_budget p" and "cp_should_drop (evicted1 k p) = cp_should_drop p"
    and "cp_kv_dropped (evicted1 k p) = cp_kv_dropped p @
      filter (\<lambda>x. case cp_should_drop p of None \<Rightarrow> False | Some f \<Rightarrow> f x) [k]"
    and "map_of (cp_meta (evicted1 k p)) = (map_of (cp_meta p))(k := None)"
  using assms(2) sum_dict_del [OF cp_wfD(1) [OF assms(1)] assms(2), of cm_nbytes]
  by (auto simp: evicted1_def total_bytes_def split: option.splits)

section \<open>Sequences of calls\<close>

datatype ('k, 'h) cp_call =
    CRegister 'k 'h int int
  | CTouch 'k
  | CPin 'k
  | CUnpin 'k
  | CEvict 'k
  | CBudget int "('k \<Rightarrow> bool) option"

primrec call_cp :: "('k, 'h) cp_call \<Rightarrow> (('k, 'h) ckpt_pool, unit) prog" where
  "call_cp (CRegister k h t n) = cp_register k h t n"
| "call_cp (CTouch k) = cp_touch k"
| "call_cp (CPin k) = cp_pin k"
| "call_cp (CUnpin k) = cp_unpin k"
| "call_cp (CEvict k) = cp_evict k"
| "call_cp (CBudget n f) = evict_for_budget n f"

lemma wf_register: "keeps cp_wf (cp_register k h t n)"
proof (rule keepsI)
  fix p :: "('a, 'b) ckpt_pool" assume w: "cp_wf p"
  show "cp_wf (snd (cp_register k h t n p))"
  proof (cases "cp_has p k")
    case False
    then have "map_of (cp_meta p) k = None" by (simp add: cp_has_map_of)
    then show ?thesis
      using False w by (fastforce simp: cp_register_def cp_wf_def cp_has_def split: if_splits)
  qed (use w in \<open>simp add: cp_register_def\<close>)
qed

lemma wf_touch: "keeps cp_wf (cp_touch k)"
  by (rule keepsI) (auto simp: cp_touch_def cp_wf_def cp_has_def set_remove1_eq)

lemma wf_pin: "keeps cp_wf (cp_pin k)"
  by (rule keepsI) (auto simp: cp_pin_def cp_wf_def cp_has_def)

lemma wf_unpin: "keeps cp_wf (cp_unpin k)"
  by (rule keepsI) (auto simp: cp_unpin_def cp_wf_def)

lemma wf_evict: "keeps cp_wf (cp_evict k)"
proof (rule keepsI)
  fix p :: "('a, 'b) ckpt_pool" assume w: "cp_wf p"
  show "cp_wf (snd (cp_evict k p))"
  proof (cases "is_pinned p k \<and> cp_has p k")
    case False
    then have "k \<notin> cp_pinned p" using w by (auto simp: cp_wf_def is_pinned_def cp_has_def)
    then show ?thesis using w False evicted1_wf by (simp add: cp_evict_run)
  qed (use w in \<open>simp add: cp_evict_run\<close>)
qed


section \<open>Eviction under byte pressure\<close>

definition may_go :: "('k \<Rightarrow> bool) option \<Rightarrow> ('k, 'h) ckpt_pool \<Rightarrow> 'k \<Rightarrow> bool" where
  "may_go incl p k \<longleftrightarrow> (is_pinned p k \<longrightarrow> (case incl of None \<Rightarrow> False | Some f \<Rightarrow> f k))"

definition nbytes_of :: "('k, 'h) ckpt_pool \<Rightarrow> 'k \<Rightarrow> int" where
  "nbytes_of p k = (case map_of (cp_meta p) k of None \<Rightarrow> 0 | Some m \<Rightarrow> cm_nbytes m)"

text \<open>\<open>removed E p p'\<close>: exactly the checkpoints \<open>E\<close> left the pool, in that order.\<close>

definition removed :: "'k list \<Rightarrow> ('k, 'h) ckpt_pool \<Rightarrow> ('k, 'h) ckpt_pool \<Rightarrow> bool" where
  "removed E p p' \<longleftrightarrow>
     map_of (cp_meta p') = (\<lambda>k. if k \<in> set E then None else map_of (cp_meta p) k) \<and>
     cp_lru p' = filter (\<lambda>k. k \<notin> set E) (cp_lru p) \<and> cp_pinned p' = cp_pinned p - set E \<and>
     total_bytes p' = total_bytes p - sum_list (map (nbytes_of p) E) \<and>
     cp_budget p' = cp_budget p \<and> cp_should_drop p' = cp_should_drop p \<and>
     cp_kv_dropped p' = cp_kv_dropped p @
       filter (\<lambda>x. case cp_should_drop p of None \<Rightarrow> False | Some f \<Rightarrow> f x) E"

lemma removed_Nil: "removed [] p p"
  by (simp add: removed_def)

lemma removed_Cons:
  assumes "removed [k] p p1" and "removed E p1 p2" and "k \<notin> set E"
  shows "removed (k # E) p p2"
proof -
  have "nbytes_of p1 x = nbytes_of p x" if "x \<in> set E" for x
    using assms(1,3) that by (auto simp: removed_def nbytes_of_def)
  then have "sum_list (map (nbytes_of p1) E) = sum_list (map (nbytes_of p) E)"
    by (metis map_eq_conv)
  moreover have "filter (\<lambda>x. x \<notin> set E) (filter (\<lambda>x. x \<notin> set [k]) (cp_lru p)) =
      filter (\<lambda>x. x \<notin> set (k # E)) (cp_lru p)" by (auto intro: filter_cong)
  moreover have "map_of (cp_meta p2) = (\<lambda>x. if x \<in> set (k # E) then None else map_of (cp_meta p) x)"
    using assms(1,2) unfolding removed_def by (auto simp: fun_eq_iff)
  ultimately show ?thesis
    using assms(1,2) unfolding removed_def by auto
qed

lemma unpin_evict:
  assumes "cp_wf p" and "k \<in> set (cp_lru p)"
  obtains p1 m where "andThen (if is_pinned p k then cp_unpin k else ret ()) (\<lambda>_. K) p =
      K (p\<lparr>cp_pinned := cp_pinned p - {k}\<rparr>)"
    and "map_of (cp_meta p) k = Some m" and "cp_evict k (p\<lparr>cp_pinned := cp_pinned p - {k}\<rparr>) = (Inr (), p1)"
    and "cp_wf p1" and "removed [k] p p1"
proof -
  let ?p = "p\<lparr>cp_pinned := cp_pinned p - {k}\<rparr>"
  have w: "cp_wf ?p" using assms(1) by (auto simp: cp_wf_def)
  obtain m where m: "map_of (cp_meta p) k = Some m"
    using assms cp_wfD(3) [OF assms(1)] cp_has_map_of [of p k] by (auto simp: cp_has_def)
  have m': "map_of (cp_meta ?p) k = Some m" using m by simp
  have "(if is_pinned p k then cp_unpin k else ret ()) p = (Inr (), ?p)"
    by (auto simp: cp_unpin_def is_pinned_def)
  then have "andThen (if is_pinned p k then cp_unpin k else ret ()) (\<lambda>_. K) p = K ?p" by (simp add: andThen_def)
  moreover have "cp_evict k ?p = (Inr (), evicted1 k ?p)" by (simp add: cp_evict_run is_pinned_def)
  moreover have "cp_wf (evicted1 k ?p)" using w by (intro evicted1_wf) simp_all
  moreover have "removed [k] p (evicted1 k ?p)"
    using evicted1_facts [OF w m'] m cp_wfD(2) [OF assms(1)]
    by (auto simp: removed_def nbytes_of_def total_bytes_def distinct_remove1_removeAll removeAll_filter_not_eq
        fun_eq_iff intro: filter_cong)
  ultimately show ?thesis using that m by blast
qed

lemma budget_loop_spec:
  assumes "cp_wf p" and "set ks \<subseteq> set (cp_lru p)" and "distinct ks"
  shows "\<exists>n p'. budget_loop incoming incl (total_bytes p) ks p = (Inr (), p') \<and> cp_wf p' \<and>
    n \<le> length (filter (may_go incl p) ks) \<and> removed (take n (filter (may_go incl p) ks)) p p' \<and>
    (n < length (filter (may_go incl p) ks) \<longrightarrow> total_bytes p' + incoming \<le> cp_budget p) \<and>
    (\<forall>m < n. cp_budget p < total_bytes p + incoming -
       sum_list (map (nbytes_of p) (take m (filter (may_go incl p) ks))))"
  using assms
proof (induction ks arbitrary: p)
  case Nil
  then show ?case by (intro exI [of _ 0] exI [of _ p]) (simp add: removed_Nil)
next
  case (Cons k ks)
  let ?go = "may_go incl p k"
  consider "total_bytes p + incoming \<le> cp_budget p"
    | "\<not> total_bytes p + incoming \<le> cp_budget p" "\<not> ?go"
    | "\<not> total_bytes p + incoming \<le> cp_budget p" "?go" by blast
  then show ?case
  proof cases
    case 1
    then show ?thesis
      using Cons.prems(1) by (intro exI [of _ 0] exI [of _ p]) (simp add: removed_Nil)
  next
    case 2
    then have "is_pinned p k \<and> (case incl of None \<Rightarrow> True | Some f \<Rightarrow> \<not> f k)"
      by (auto simp: may_go_def split: option.splits)
    with 2 show ?thesis using Cons.IH [OF Cons.prems(1)] Cons.prems(2,3) by simp
  next
    case 3
    then have go: "\<not> (is_pinned p k \<and> (case incl of None \<Rightarrow> True | Some f \<Rightarrow> \<not> f k))"
      by (auto simp: may_go_def split: option.splits)
    have kin: "k \<in> set (cp_lru p)" using Cons.prems(2) by simp
    let ?K = "reading (\<lambda>p. map_of (cp_meta p) k) (\<lambda>meta. case meta of
         None \<Rightarrow> raise (KeyError ''self._meta[key]'')
       | Some m \<Rightarrow> andThen (cp_evict k) (\<lambda>_. budget_loop incoming incl (total_bytes p - cm_nbytes m) ks))"
    obtain p1 m where p1: "andThen (if is_pinned p k then cp_unpin k else ret ()) (\<lambda>_. ?K) p =
        ?K (p\<lparr>cp_pinned := cp_pinned p - {k}\<rparr>)"
      "map_of (cp_meta p) k = Some m" "cp_evict k (p\<lparr>cp_pinned := cp_pinned p - {k}\<rparr>) = (Inr (), p1)"
      "cp_wf p1" "removed [k] p p1"
      by (rule unpin_evict [OF Cons.prems(1) kin, of ?K])
    have nb: "nbytes_of p k = cm_nbytes m" using p1(2) by (simp add: nbytes_of_def)
    have tb: "total_bytes p1 = total_bytes p - cm_nbytes m" "cp_budget p1 = cp_budget p"
      using p1(5) nb by (simp_all add: removed_def)
    have same: "may_go incl p1 x = may_go incl p x" if "x \<in> set ks" for x
      using p1(5) Cons.prems(3) that by (auto simp: may_go_def removed_def is_pinned_def)
    then have fs: "filter (may_go incl p1) ks = filter (may_go incl p) ks" by (auto intro: filter_cong)
    have nbs: "nbytes_of p1 x = nbytes_of p x" if "x \<in> set ks" for x
      using p1(5) Cons.prems(3) that by (auto simp: removed_def nbytes_of_def)
    have "set ks \<subseteq> set (cp_lru p1)" using p1(5) Cons.prems(2,3) by (auto simp: removed_def)
    from Cons.IH [OF p1(4) this] Cons.prems(3)
    obtain n p' where n: "budget_loop incoming incl (total_bytes p1) ks p1 = (Inr (), p')" "cp_wf p'"
      "n \<le> length (filter (may_go incl p) ks)" "removed (take n (filter (may_go incl p) ks)) p1 p'"
      "n < length (filter (may_go incl p) ks) \<longrightarrow> total_bytes p' + incoming \<le> cp_budget p"
      "\<forall>m < n. cp_budget p < total_bytes p1 + incoming -
        sum_list (map (nbytes_of p1) (take m (filter (may_go incl p) ks)))"
      unfolding fs tb(2) by auto
    have "k \<notin> set (take n (filter (may_go incl p) ks))"
      using Cons.prems(3) in_set_takeD by fastforce
    then have rem: "removed (k # take n (filter (may_go incl p) ks)) p p'"
      by (rule removed_Cons [OF p1(5) n(4)])
    have least: "cp_budget p < total_bytes p + incoming -
        sum_list (map (nbytes_of p) (take j (filter (may_go incl p) (k # ks))))" if "j < Suc n" for j
    proof (cases j)
      case 0
      then show ?thesis using 3 by simp
    next
      case (Suc i)
      have "sum_list (map (nbytes_of p1) (take i (filter (may_go incl p) ks))) =
          sum_list (map (nbytes_of p) (take i (filter (may_go incl p) ks)))"
        using nbs by (intro arg_cong [of _ _ sum_list] map_cong) (auto dest: in_set_takeD)
      moreover have "cp_budget p < total_bytes p1 + incoming -
          sum_list (map (nbytes_of p1) (take i (filter (may_go incl p) ks)))"
        using n(6) that Suc by simp
      ultimately show ?thesis using Suc 3 tb nb by simp
    qed
    have "budget_loop incoming incl (total_bytes p) (k # ks) p =
        andThen (if is_pinned p k then cp_unpin k else ret ()) (\<lambda>_. ?K) p"
      using 3 go by auto
    also have "\<dots> = (Inr (), p')"
      unfolding p1(1) using p1(2,3) n(1) tb by (simp add: andThen_def)
    finally show ?thesis
      using 3 n(2,3,5) rem least by (intro exI [of _ "Suc n"] exI [of _ p']) simp
  qed
qed

lemma evict_for_budget_spec:
  assumes "cp_wf p"
  shows "\<exists>n p'. evict_for_budget incoming incl p = (Inr (), p') \<and> cp_wf p' \<and>
    n \<le> length (filter (may_go incl p) (cp_lru p)) \<and>
    removed (take n (filter (may_go incl p) (cp_lru p))) p p' \<and>
    (n < length (filter (may_go incl p) (cp_lru p)) \<longrightarrow> total_bytes p' + incoming \<le> cp_budget p) \<and>
    (\<forall>m < n. cp_budget p < total_bytes p + incoming -
       sum_list (map (nbytes_of p) (take m (filter (may_go incl p) (cp_lru p)))))"
  using budget_loop_spec [OF assms subset_refl cp_wfD(2) [OF assms]]
  by (simp add: evict_for_budget_def)

lemma wf_cp_call: "keeps cp_wf (call_cp c)"
proof (cases c)
  case (CBudget n f)
  have "keeps cp_wf (evict_for_budget n f)"
    by (rule keepsI) (metis evict_for_budget_spec snd_conv)
  then show ?thesis by (simp add: CBudget)
qed (simp_all add: wf_register wf_touch wf_pin wf_unpin wf_evict)


section \<open>What the pool promises\<close>

text \<open>
  after any sequence of calls the LRU order lists exactly the registered checkpoints, each
  once, every pinned key is registered, and a lookup by hash only answers with a registered
  checkpoint that was registered under that hash.
\<close>

theorem checkpoint_bookkeeping:
  fixes cs :: "('k, 'h) cp_call list"
  assumes "cp_init budget should_drop = Inr p0"
  defines "p \<equiv> snd (run_calls call_cp cs p0)"
  shows "distinct (cp_lru p) \<and> set (cp_lru p) = fst ` set (cp_meta p) \<and> cp_len p = int (length (cp_lru p)) \<and>
    (\<forall>k. is_pinned p k \<longrightarrow> cp_has p k) \<and>
    (\<forall>h k. get_by_hash p h = Some k \<longrightarrow> (\<exists>m. map_of (cp_meta p) k = Some m \<and> cm_hash m = h))"
proof -
  have "cp_wf p0" using assms(1) by (auto simp: cp_init_def cp_wf_def split: if_splits)
  then have w: "cp_wf p" unfolding p_def by (rule keeps_calls [OF wf_cp_call])
  note D = cp_wfD [OF w]
  have "length (cp_meta p) = length (cp_lru p)"
    using D(1-3) by (metis distinct_card length_map list.set_map)
  moreover have "\<exists>m. map_of (cp_meta p) k = Some m \<and> cm_hash m = h" if "get_by_hash p h = Some k" for h k
    using D(5) [of h k] that by (auto simp: get_by_hash_def)
  ultimately show ?thesis
    using D(2-4) by (auto simp: cp_len_def is_pinned_def cp_has_def)
qed

definition demo_cp :: "(nat, nat) cp_call list" where
  "demo_cp = [CRegister 1 10 5 40, CRegister 2 20 9 40, CPin 1, CRegister 3 30 9 40, CTouch 2]"

definition cp0 :: "(nat, nat) ckpt_pool" where
  "cp0 = (case cp_init 100 None of Inr p \<Rightarrow> p)"

lemma cp0_init: "cp_init 100 None = Inr cp0"
  by (simp add: cp0_def cp_init_def)

theorem checkpoint_bookkeeping_witness:
  "cp_lru (snd (run_calls call_cp demo_cp cp0)) = [1, 3, 2] \<and>
   cp_len (snd (run_calls call_cp demo_cp cp0)) = 3"
proof -
  have "cp_lru (snd (run_calls call_cp demo_cp cp0)) = [1, 3, 2]" by code_simp
  then show ?thesis using checkpoint_bookkeeping [OF cp0_init, of demo_cp] by simp
qed

text \<open>
  C24: \<^verbatim>\<open>evict_for_budget\<close> never raises on a well-formed pool.  It evicts an initial piece of the
  evictable checkpoints in LRU order (unpinned, or pinned and matched by the predicate), no other
  checkpoint and no more than needed, and stops only when the new bytes fit the budget or nothing
  evictable is left; the KV-hash callback fires for exactly the evicted keys that ask for it.
\<close>

theorem evict_for_budget_is_minimal_lru:
  fixes incl :: "('k \<Rightarrow> bool) option" and p :: "('k, 'h) ckpt_pool"
  assumes "cp_wf p"
  defines "evictable \<equiv> filter (\<lambda>k. \<not> is_pinned p k \<or> (\<exists>f. incl = Some f \<and> f k)) (cp_lru p)"
  shows "\<exists>n p'. evict_for_budget incoming incl p = (Inr (), p') \<and> n \<le> length evictable \<and>
    map_of (cp_meta p') = (\<lambda>k. if k \<in> set (take n evictable) then None else map_of (cp_meta p) k) \<and>
    cp_lru p' = filter (\<lambda>k. k \<notin> set (take n evictable)) (cp_lru p) \<and>
    cp_kv_dropped p' = cp_kv_dropped p @
      filter (\<lambda>k. \<exists>f. cp_should_drop p = Some f \<and> f k) (take n evictable) \<and>
    (total_bytes p' + incoming \<le> cp_budget p \<or> n = length evictable) \<and>
    (\<forall>m < n. cp_budget p < total_bytes p + incoming - sum_list (map (nbytes_of p) (take m evictable)))"
proof -
  have ev: "filter (may_go incl p) (cp_lru p) = evictable"
    unfolding evictable_def by (intro filter_cong) (auto simp: may_go_def split: option.splits)
  have cb: "(case cp_should_drop p of None \<Rightarrow> False | Some f \<Rightarrow> f k) \<longleftrightarrow> (\<exists>f. cp_should_drop p = Some f \<and> f k)" for k
    by (auto split: option.splits)
  obtain n p' where n: "evict_for_budget incoming incl p = (Inr (), p')" "n \<le> length evictable"
    "removed (take n evictable) p p'" "n < length evictable \<longrightarrow> total_bytes p' + incoming \<le> cp_budget p"
    "\<forall>m < n. cp_budget p < total_bytes p + incoming - sum_list (map (nbytes_of p) (take m evictable))"
    using evict_for_budget_spec [OF assms(1), of incoming incl] unfolding ev by blast
  show ?thesis
    using n unfolding removed_def cb by (intro exI [of _ n] exI [of _ p']) auto
qed

theorem evict_for_budget_is_minimal_lru_witness:
  "\<exists>n p'. evict_for_budget 50 None (snd (run_calls call_cp demo_cp cp0)) = (Inr (), p') \<and>
     map_of (cp_meta p') 1 = map_of (cp_meta (snd (run_calls call_cp demo_cp cp0))) 1 \<and> n \<le> length [3, 2::nat]"
proof -
  let ?p = "snd (run_calls call_cp demo_cp cp0)"
  have "cp_wf cp0" using cp0_init by (auto simp: cp_init_def cp_wf_def cp0_def)
  then have w: "cp_wf ?p" by (rule keeps_calls [OF wf_cp_call])
  have ev: "filter (\<lambda>k. \<not> is_pinned ?p k \<or> (\<exists>f. None = Some f \<and> f k)) (cp_lru ?p) = [3, 2]"
  proof -
    have "cp_lru ?p = [1, 3, 2]" by code_simp
    moreover have "cp_pinned ?p = {1}" by (simp add: demo_cp_def cp0_def cp_init_def cp_register_def cp_pin_def
      cp_touch_def cp_has_def)
    ultimately show ?thesis by (simp add: is_pinned_def)
  qed
  obtain n p' where n: "evict_for_budget 50 None ?p = (Inr (), p')" "n \<le> length [3, 2::nat]"
    "map_of (cp_meta p') = (\<lambda>k. if k \<in> set (take n [3, 2]) then None else map_of (cp_meta ?p) k)"
    using evict_for_budget_is_minimal_lru [OF w, where incl = None and incoming = 50] unfolding ev by blast
  have "(1::nat) \<notin> set (take n [3, 2])" by (auto dest: in_set_takeD)
  with n show ?thesis by auto
qed

primrec fresh_hashes :: "('k, 'h) cp_call list \<Rightarrow> ('k, 'h) ckpt_pool \<Rightarrow> bool" where
  "fresh_hashes [] p = True"
| "fresh_hashes (c # cs) p = ((case c of CRegister k h t n \<Rightarrow> get_by_hash p h = None | _ \<Rightarrow> True) \<and>
     fresh_hashes cs (snd (call_cp c p)))"

definition exact_hashes :: "('k, 'h) ckpt_pool \<Rightarrow> bool" where
  "exact_hashes p \<longleftrightarrow> cp_wf p \<and> (\<forall>k m. map_of (cp_meta p) k = Some m \<longrightarrow> cp_by_hash p (cm_hash m) = Some k)"

lemma exact_evicted1:
  assumes "exact_hashes p" and "k \<notin> cp_pinned p"
  shows "exact_hashes (evicted1 k p)"
proof -
  have "cp_by_hash (evicted1 k p) (cm_hash m) = Some k'" if "map_of (cp_meta (evicted1 k p)) k' = Some m" for k' m
  proof (cases "map_of (cp_meta p) k")
    case None
    then show ?thesis using assms(1) that by (simp add: exact_hashes_def evicted1_def)
  next
    case (Some m0)
    then have k': "k' \<noteq> k" "map_of (cp_meta p) k' = Some m"
      using that by (auto simp: evicted1_def split: if_splits)
    then have "cp_by_hash p (cm_hash m) = Some k'" "cp_by_hash p (cm_hash m0) = Some k"
      using assms(1) Some unfolding exact_hashes_def by blast+
    with k'(1) Some show ?thesis by (auto simp: evicted1_def)
  qed
  then show ?thesis using evicted1_wf [of p k] assms by (simp add: exact_hashes_def)
qed

lemma exact_pinned: "exact_hashes (p\<lparr>cp_pinned := cp_pinned p - {k}\<rparr>) = exact_hashes p" if "cp_wf p"
  using that by (auto simp: exact_hashes_def cp_wf_def)

lemma exact_budget_loop:
  "exact_hashes p \<Longrightarrow> exact_hashes (snd (budget_loop incoming incl ttl ks p))"
proof (induction ks arbitrary: p ttl)
  case (Cons k ks)
  have w: "cp_wf p" using Cons.prems by (simp add: exact_hashes_def)
  let ?p = "p\<lparr>cp_pinned := cp_pinned p - {k}\<rparr>"
  have e: "exact_hashes ?p" using exact_pinned [OF w, of k] Cons.prems by simp
  have u: "(if is_pinned p k then cp_unpin k else ret ()) p = (Inr (), ?p)"
    by (auto simp: cp_unpin_def is_pinned_def)
  have "exact_hashes (snd (budget_loop incoming incl t ks (evicted1 k ?p)))" for t
    using exact_evicted1 [OF e, of k] by (intro Cons.IH) simp
  then show ?case
    using Cons.IH [OF Cons.prems] Cons.prems u e
    by (auto simp: andThen_def cp_evict_run is_pinned_def split: option.split)
qed simp

lemma exact_call:
  assumes "exact_hashes p" and "case c of CRegister k h t n \<Rightarrow> get_by_hash p h = None | _ \<Rightarrow> True"
  shows "exact_hashes (snd (call_cp c p))"
proof (cases c)
  case (CRegister k h t n)
  have "cp_wf (snd (call_cp c p))" using keeps_snd [OF wf_cp_call] assms(1) by (auto simp: exact_hashes_def)
  then show ?thesis
    using assms CRegister
    by (fastforce simp: exact_hashes_def cp_register_def get_by_hash_def split: if_splits)
next
  case (CEvict k)
  have "exact_hashes (evicted1 k p)" if free: "\<not> (is_pinned p k \<and> cp_has p k)"
  proof (rule exact_evicted1 [OF assms(1)])
    have "cp_wf p" using assms(1) by (simp add: exact_hashes_def)
    then show "k \<notin> cp_pinned p" using free by (auto simp: cp_wf_def is_pinned_def cp_has_def)
  qed
  then show ?thesis using assms(1) by (simp add: CEvict cp_evict_run)
next
  case (CBudget n f)
  then show ?thesis using exact_budget_loop [OF assms(1)] by (simp add: evict_for_budget_def)
next
  case (CTouch k)
  then show ?thesis using assms(1) keeps_snd [OF wf_touch, of p k] by (auto simp: exact_hashes_def cp_touch_def)
next
  case (CPin k)
  then show ?thesis using assms(1) keeps_snd [OF wf_pin, of p k] by (auto simp: exact_hashes_def cp_pin_def)
next
  case (CUnpin k)
  then show ?thesis using assms(1) exact_pinned [of p k] by (simp add: cp_unpin_def exact_hashes_def)
qed

lemma exact_calls:
  "exact_hashes p \<Longrightarrow> fresh_hashes cs p \<Longrightarrow> exact_hashes (snd (run_calls call_cp cs p))"
proof (induction cs arbitrary: p)
  case (Cons c cs)
  then show ?case using exact_call [of p c] by (simp del: run_calls.simps)
qed simp

text \<open>
  While every live checkpoint is registered under a hash of its own, the lookup by hash is
  exact: it finds precisely the registered checkpoints.
\<close>

theorem hash_lookup_is_exact:
  assumes "cp_init budget should_drop = Inr p0" and "fresh_hashes cs p0"
  defines "p \<equiv> snd (run_calls call_cp cs p0)"
  shows "get_by_hash p h = Some k \<longleftrightarrow> (\<exists>m. map_of (cp_meta p) k = Some m \<and> cm_hash m = h)"
proof -
  have "exact_hashes p0" using assms(1) by (auto simp: cp_init_def exact_hashes_def cp_wf_def split: if_splits)
  then have e: "exact_hashes p" unfolding p_def using assms(2) by (rule exact_calls)
  then have w: "cp_wf p" by (simp add: exact_hashes_def)
  show ?thesis
    using e cp_wfD(5) [OF w, of h k] by (auto simp: exact_hashes_def get_by_hash_def)
qed

theorem hash_lookup_is_exact_witness:
  "get_by_hash (snd (run_calls call_cp demo_cp cp0)) 20 = Some 2"
proof -
  have "fresh_hashes demo_cp cp0" by code_simp
  moreover have "\<exists>m. map_of (cp_meta (snd (run_calls call_cp demo_cp cp0))) 2 = Some m \<and> cm_hash m = 20"
    by (rule exI [of _ "\<lparr>cm_hash = 20, cm_tokens = 9, cm_nbytes = 40\<rparr>"]) code_simp
  ultimately show ?thesis using hash_lookup_is_exact [OF cp0_init] by blast
qed

end
