(* ===== verification/Inv_Checks.thy ===== *)
theory Inv_Checks
  imports Prelude
begin

text \<open>
  The level-gated assertions of \<^verbatim>\<open>bfdiag/invariants\<close>.  The module global
  \<^verbatim>\<open>ASSERT_LEVEL\<close> is the first argument of every check; the message of the exception
  (trace rows included) is not modelled.
\<close>

definition check :: "int \<Rightarrow> int \<Rightarrow> string \<Rightarrow> bool \<Rightarrow> unit res" where
  "check assert_level level name cond =
     (if level > assert_level then Inr ()
      else if cond then Inr ()
      else Inl (InvariantViolation name))"

definition check_committed_ahead_of_kv_by_one :: "int \<Rightarrow> int \<Rightarrow> int \<Rightarrow> int \<Rightarrow> unit res" where
  "check_committed_ahead_of_kv_by_one al slot kv_len committed_len =
     check al 1 ''committed_len_is_kv_len_plus_one'' (committed_len = kv_len + 1)"

definition check_accepted_bound :: "int \<Rightarrow> int \<Rightarrow> int \<Rightarrow> int \<Rightarrow> unit res" where
  "check_accepted_bound al slot committed_n k =
     check al 1 ''accepted_n_le_k_plus_1'' (committed_n \<le> k + 1)"

definition check_no_duplicate_ids :: "int \<Rightarrow> string \<Rightarrow> int list \<Rightarrow> unit res" where
  "check_no_duplicate_ids al name ids =
     check al 1 ''no_duplicate_ids_within_call'' (length ids = length (remdups ids))"

definition check_kv_len_monotonic :: "int \<Rightarrow> int \<Rightarrow> int \<Rightarrow> int \<Rightarrow> unit res" where
  "check_kv_len_monotonic al slot prev_kv_len new_kv_len =
     check al 1 ''kv_len_monotonic_nondecreasing'' (new_kv_len \<ge> prev_kv_len)"

definition check_aux_hidden_alignment :: "int \<Rightarrow> int \<Rightarrow> int \<Rightarrow> int \<Rightarrow> int \<Rightarrow> unit res" where
  "check_aux_hidden_alignment al slot prompt_len aux_len aux_offset =
     check al 2 ''aux_offset_nonnegative'' (aux_offset \<ge> 0)"

text \<open>A page size of zero divides by zero before the level is looked at.\<close>

definition check_page_table_covers_seqlen ::
  "int \<Rightarrow> 'g \<Rightarrow> int \<Rightarrow> int \<Rightarrow> int \<Rightarrow> unit res option" where
  "check_page_table_covers_seqlen al group_key cache_seqlens n_filled_pages page_size =
     (if page_size = 0 then None
      else let pages_needed = - ((- cache_seqlens) div page_size)
           in Some (check al 1 ''page_table_covers_seqlen'' (pages_needed \<le> n_filled_pages)))"

definition check_cg_replay_slot_consistency :: "int \<Rightarrow> int \<Rightarrow> int \<Rightarrow> unit res" where
  "check_cg_replay_slot_consistency al slot replay_slot =
     check al 2 ''cg_replay_slot_matches_round_slot'' (replay_slot = slot)"

definition check_prefix_hit_state_le_kv :: "int \<Rightarrow> int \<Rightarrow> int \<Rightarrow> int \<Rightarrow> unit res" where
  "check_prefix_hit_state_le_kv al slot kv_hit state_hit =
     check al 1 ''prefix_hit_state_hit_le_kv_hit'' (state_hit \<le> kv_hit)"

definition check_lockstep_eviction :: "int \<Rightarrow> 'k \<Rightarrow> bool \<Rightarrow> bool \<Rightarrow> int \<Rightarrow> unit res" where
  "check_lockstep_eviction al key kv_hash_dropped checkpoint_dropped kv_ref_cnt =
     (let forward_ok = (\<not> kv_hash_dropped \<or> checkpoint_dropped);
          reverse_ok = (kv_ref_cnt \<le> 0 \<or> \<not> kv_hash_dropped)
      in check al 1 ''lockstep_eviction_bidirectional_asymmetric'' (forward_ok \<and> reverse_ok))"

definition check_referenced_resource_never_evicted :: "int \<Rightarrow> 'k \<Rightarrow> int \<Rightarrow> bool \<Rightarrow> unit res" where
  "check_referenced_resource_never_evicted al resource_id rc was_evicted =
     check al 1 ''referenced_resource_never_evicted'' (\<not> (rc > 0 \<and> was_evicted))"

definition check_reserved_physical_slots_agree :: "int \<Rightarrow> 'c \<Rightarrow> int \<Rightarrow> int \<Rightarrow> unit res" where
  "check_reserved_physical_slots_agree al cxt state_pool_reserved backend_reserved =
     check al 1 ''reserved_physical_slots_agree'' (state_pool_reserved = backend_reserved)"

lemma check_Inr_iff: "check al lv n c = Inr () \<longleftrightarrow> lv > al \<or> c"
  by (simp add: check_def)

lemma check_no_duplicate_ids_distinct: "distinct ids \<Longrightarrow> check_no_duplicate_ids al n ids = Inr ()"
  by (simp add: check_no_duplicate_ids_def check_def distinct_remdups_id)

text \<open>The ceiling division of the page-table check: enough pages exactly when they cover the length.\<close>

lemma le_div_int:
  fixes a b k :: int
  assumes "0 < k"
  shows "a \<le> b div k \<longleftrightarrow> a * k \<le> b"
proof
  assume "a \<le> b div k"
  then have "a * k \<le> (b div k) * k" using assms by (simp add: mult_right_mono)
  also have "\<dots> \<le> b"
    using assms pos_mod_sign [of k b] div_mult_mod_eq [of b k] by linarith
  finally show "a * k \<le> b" .
next
  assume "a * k \<le> b"
  then have "(a * k) div k \<le> b div k" using assms by (rule zdiv_mono1)
  with assms show "a \<le> b div k" by simp
qed

lemma ceiling_div_le:
  fixes n k m :: int
  assumes "0 < k"
  shows "- ((- n) div k) \<le> m \<longleftrightarrow> n \<le> m * k"
proof -
  have "- ((- n) div k) \<le> m \<longleftrightarrow> - m \<le> (- n) div k" by linarith
  also have "\<dots> \<longleftrightarrow> (- m) * k \<le> - n"
    using assms by (rule le_div_int)
  finally show ?thesis by simp
qed

end
