(* ===== verification/Block_Pool.thy ===== *)
theory Block_Pool
  imports Free_Queue Inv_Checks
begin

text \<open>
  The shared pool of attention-KV blocks of \<^verbatim>\<open>runtime/block_pool.py\<close>: physical slot
  arithmetic and \<^verbatim>\<open>BlockPool\<close>.  The pool holds the free queue of \<^verbatim>\<open>Free_Queue\<close>, one map per
  field of \<^verbatim>\<open>Block\<close>, and the content index; the runner's eviction callback is recorded
  as the list of block ids it was called with.
\<close>

section \<open>Physical slots\<close>

definition RESERVED_PHYSICAL_SLOTS :: int where
  "RESERVED_PHYSICAL_SLOTS = 1"

definition physical_slot :: "int \<Rightarrow> int" where
  "physical_slot logical_slot = logical_slot + RESERVED_PHYSICAL_SLOTS"

definition initial_block_table :: "int \<Rightarrow> int \<Rightarrow> int list" where
  "initial_block_table logical_slot blocks_per_slot =
     (let first_block = physical_slot logical_slot * blocks_per_slot
      in [first_block..first_block + blocks_per_slot - 1])"

definition ssm_spec_row :: "int \<Rightarrow> int \<Rightarrow> int \<Rightarrow> int \<Rightarrow> int" where
  "ssm_spec_row logical_slot col total_physical_slots num_spec =
     (let physical = physical_slot logical_slot
      in if col = 0 then physical
         else total_physical_slots + physical * num_spec + (col - 1))"

section \<open>The pool\<close>

record block_hash =
  bh_value :: int
  bh_num_tokens :: int

record block_pool =
  num_blocks :: int
  reserved :: int
  ref_cnt :: "int \<Rightarrow> int"
  block_hash_of :: "int \<Rightarrow> block_hash option"
  free_queue :: fbq
  on_evict_wired :: bool
  evict_log :: "int list"
  hash_to_block :: "int \<Rightarrow> int option"

abbreviation in_queue :: "(fbq, 'a) prog \<Rightarrow> (block_pool, 'a) prog" where
  "in_queue \<equiv> on_field free_queue (\<lambda>q p. p\<lparr>free_queue := q\<rparr>)"

definition bp_init :: "int \<Rightarrow> int \<Rightarrow> block_pool res" where
  "bp_init n r =
     (if r < 1 then Inl (ValueError ''must reserve at least physical block 0 (INV7)'')
      else if n \<le> r then Inl (ValueError ''num_blocks must exceed reserved'')
      else case for_each fbq_append [r..n - 1] fbq_init of
        (Inl e, _) \<Rightarrow> Inl e
      | (Inr _, q) \<Rightarrow> Inr \<lparr>num_blocks = n, reserved = r, ref_cnt = (\<lambda>_. 0),
          block_hash_of = (\<lambda>_. None), free_queue = q, on_evict_wired = False,
          evict_log = [], hash_to_block = (\<lambda>_. None)\<rparr>)"

definition num_free_blocks :: "block_pool \<Rightarrow> int" where
  "num_free_blocks p = fbq_size (free_queue p)"

definition evict_one :: "(block_pool, int) prog" where
  "evict_one = andThen (in_queue fbq_popleft) (\<lambda>b.
     reading (\<lambda>p. block_hash_of p b) (\<lambda>h. case h of
       None \<Rightarrow> ret b
     | Some bh \<Rightarrow>
         andThen (update (\<lambda>p. p\<lparr>hash_to_block := (hash_to_block p)(bh_value bh := None)\<rparr>)) (\<lambda>_.
         andThen (update (\<lambda>p. p\<lparr>block_hash_of := (block_hash_of p)(b := None)\<rparr>)) (\<lambda>_.
         andThen (update (\<lambda>p. if on_evict_wired p then p\<lparr>evict_log := evict_log p @ [b]\<rparr> else p)) (\<lambda>_.
         ret b)))))"

text \<open>The body of the loop of \<^verbatim>\<open>allocate\<close>, and the loop with the ids gathered so far.\<close>

definition allocate_one :: "(block_pool, int) prog" where
  "allocate_one = andThen evict_one (\<lambda>b. reading reserved (\<lambda>r.
     guard (b < r) (RuntimeError ''INV7 violation: reserved block was in the free queue'') (
     reading (\<lambda>p. ref_cnt p b) (\<lambda>rc.
     guard (rc \<noteq> 0) (RuntimeError ''block was in the free queue with ref_cnt != 0'') (
     andThen (update (\<lambda>p. p\<lparr>ref_cnt := (ref_cnt p)(b := 1)\<rparr>)) (\<lambda>_. ret b))))))"

primrec allocate_loop :: "nat \<Rightarrow> int list \<Rightarrow> (block_pool, int list) prog" where
  "allocate_loop 0 ids = ret ids"
| "allocate_loop (Suc k) ids = andThen allocate_one (\<lambda>b. allocate_loop k (ids @ [b]))"

definition bp_allocate :: "int \<Rightarrow> int \<Rightarrow> (block_pool, int list) prog" where
  "bp_allocate al n =
     guard (n < 0) (ValueError ''cannot allocate a negative count'') (
     reading num_free_blocks (\<lambda>free.
     guard (n > free) (RuntimeError ''block pool exhausted'') (
     andThen (allocate_loop (nat n) []) (\<lambda>ids.
       case check_no_duplicate_ids al ''block_pool.allocate'' ids of
         Inl e \<Rightarrow> raise e
       | Inr _ \<Rightarrow> ret ids))))"

definition free_one :: "int \<Rightarrow> (block_pool, unit) prog" where
  "free_one b = reading (\<lambda>p. (reserved p, num_blocks p, ref_cnt p b)) (\<lambda>(r, n, rc).
     guard (b < r) (RuntimeError ''INV7 violation: attempted to free reserved block'') (
     guard (b \<ge> n) (RuntimeError ''block is out of range'') (
     guard (rc \<le> 0) (RuntimeError ''double-free of block'') (
     andThen (update (\<lambda>p. p\<lparr>ref_cnt := (ref_cnt p)(b := rc - 1)\<rparr>)) (\<lambda>_.
       if rc - 1 = 0 then
         reading (\<lambda>p. block_hash_of p b) (\<lambda>h.
           if h \<noteq> None then in_queue (fbq_append b) else in_queue (fbq_appendleft b))
       else ret ())))))"

definition bp_free :: "int list \<Rightarrow> (block_pool, unit) prog" where
  "bp_free block_ids = for_each free_one block_ids"

text \<open>\<open>try: m  except ValueError: raise e\<close>.\<close>

definition except_ValueError :: "('s, 'a) prog \<Rightarrow> pyexc \<Rightarrow> ('s, 'a) prog" where
  "except_ValueError m e = (\<lambda>s. case m s of
     (Inl (ValueError _), s') \<Rightarrow> (Inl e, s')
   | other \<Rightarrow> other)"

definition reference_one :: "int \<Rightarrow> (block_pool, unit) prog" where
  "reference_one b = reading (\<lambda>p. (reserved p, num_blocks p, ref_cnt p b)) (\<lambda>(r, n, rc).
     guard (b < r) (RuntimeError ''INV7 violation: attempted to reference reserved block'') (
     guard (b \<ge> n) (RuntimeError ''block is out of range'') (
     andThen
       (if rc \<le> 0
        then except_ValueError (in_queue (fbq_remove b)) (RuntimeError ''cannot reference block'')
        else ret ()) (\<lambda>_.
     update (\<lambda>p. p\<lparr>ref_cnt := (ref_cnt p)(b := ref_cnt p b + 1)\<rparr>)))))"

definition bp_reference :: "int list \<Rightarrow> (block_pool, unit) prog" where
  "bp_reference block_ids = for_each reference_one block_ids"

definition bp_cache_block :: "int \<Rightarrow> block_hash \<Rightarrow> (block_pool, unit) prog" where
  "bp_cache_block b bh = reading (\<lambda>p. (reserved p, num_blocks p, hash_to_block p (bh_value bh))) (\<lambda>(r, n, hit).
     guard (b < r) (RuntimeError ''INV7 violation: attempted to publish reserved block'') (
     guard (b \<ge> n) (RuntimeError ''block is out of range'') (
     if hit \<noteq> None then ret ()
     else andThen (update (\<lambda>p. p\<lparr>block_hash_of := (block_hash_of p)(b \<mapsto> bh)\<rparr>)) (\<lambda>_.
       update (\<lambda>p. p\<lparr>hash_to_block := (hash_to_block p)(bh_value bh \<mapsto> b)\<rparr>)))))"

definition get_cached_block :: "block_pool \<Rightarrow> int \<Rightarrow> int option" where
  "get_cached_block p hash_value = hash_to_block p hash_value"

definition touch_one :: "int \<Rightarrow> (block_pool, unit) prog" where
  "touch_one b = reading (\<lambda>p. (reserved p, num_blocks p, ref_cnt p b)) (\<lambda>(r, n, rc).
     guard (b < r) (RuntimeError ''INV7 violation: attempted to touch reserved block'') (
     guard (b \<ge> n) (RuntimeError ''block is out of range'') (
     andThen (if rc = 0 then in_queue (fbq_remove b) else ret ()) (\<lambda>_.
     update (\<lambda>p. p\<lparr>ref_cnt := (ref_cnt p)(b := ref_cnt p b + 1)\<rparr>)))))"

definition bp_touch :: "int list \<Rightarrow> (block_pool, unit) prog" where
  "bp_touch block_ids = for_each touch_one block_ids"

section \<open>The allocator's invariant\<close>

text \<open>
  \<open>pool_at p xs\<close>: the free queue spells \<open>xs\<close>, which are exactly the unreserved blocks with no
  reference.
\<close>

definition pool_at :: "block_pool \<Rightarrow> int list \<Rightarrow> bool" where
  "pool_at p xs \<longleftrightarrow>
     fbq_rep (free_queue p) xs \<and> 1 \<le> reserved p \<and> reserved p < num_blocks p \<and>
     (\<forall>b. 0 \<le> ref_cnt p b) \<and>
     set xs = {b. reserved p \<le> b \<and> b < num_blocks p \<and> ref_cnt p b = 0}"

definition free_order :: "block_pool \<Rightarrow> int list" where
  "free_order p = fbq_list (free_queue p)"

definition pool_wf :: "block_pool \<Rightarrow> bool" where
  "pool_wf p \<longleftrightarrow> pool_at p (free_order p)"

lemma pool_at_order: "pool_at p xs \<Longrightarrow> free_order p = xs"
  by (simp add: pool_at_def free_order_def fbq_rep_list)

lemma pool_atD:
  assumes "pool_at p xs"
  shows "fbq_rep (free_queue p) xs" and "1 \<le> reserved p" and "distinct xs"
    and "reserved p < num_blocks p" and "0 \<le> ref_cnt p b"
    and "b \<in> set xs \<longleftrightarrow> reserved p \<le> b \<and> b < num_blocks p \<and> ref_cnt p b = 0"
  using assms fbq.rep_distinct by (auto simp: pool_at_def)

lemma pool_wf_iff: "pool_wf p \<longleftrightarrow> (\<exists>xs. pool_at p xs)"
  using pool_at_order by (auto simp: pool_wf_def)

lemma pool_at_free: "pool_at p xs \<Longrightarrow> num_free_blocks p = int (length xs)"
  by (simp add: pool_at_def num_free_blocks_def fbq.rep_size)


subsection \<open>Eviction and allocation\<close>

definition forget :: "int \<Rightarrow> block_pool \<Rightarrow> block_pool" where
  "forget b p = (case block_hash_of p b of
     None \<Rightarrow> p
   | Some bh \<Rightarrow> p\<lparr>hash_to_block := (hash_to_block p)(bh_value bh := None),
       block_hash_of := (block_hash_of p)(b := None),
       evict_log := (if on_evict_wired p then evict_log p @ [b] else evict_log p)\<rparr>)"

lemma evict_one_run:
  assumes "pool_at p (b # xs)"
  obtains q' where "fbq_rep q' xs" and "evict_one p = (Inr b, forget b (p\<lparr>free_queue := q'\<rparr>))"
proof -
  obtain q' where q': "fbq_popleft (free_queue p) = (Inr b, q')" "fbq_rep q' xs"
    using pool_atD(1) [OF assms] by (rule fbq.deqE)
  show ?thesis
  proof
    show "fbq_rep q' xs" by fact
    show "evict_one p = (Inr b, forget b (p\<lparr>free_queue := q'\<rparr>))"
      using q'(1) by (cases "block_hash_of p b")
        (simp_all add: evict_one_def andThen_def on_field_def forget_def reading_def)
  qed
qed

lemma forget_fields [simp]:
  "ref_cnt (forget b p) = ref_cnt p" "free_queue (forget b p) = free_queue p"
  "num_blocks (forget b p) = num_blocks p" "reserved (forget b p) = reserved p"
  "on_evict_wired (forget b p) = on_evict_wired p"
  "block_hash_of (forget b p) = (block_hash_of p)(b := None)"
  by (auto simp: forget_def split: option.splits)

lemma allocate_one_run:
  assumes "pool_at p (b # xs)"
  obtains q' where "fbq_rep q' xs"
    and "allocate_one p = (Inr b, (forget b (p\<lparr>free_queue := q'\<rparr>))\<lparr>ref_cnt := (ref_cnt p)(b := 1)\<rparr>)"
proof -
  obtain q' where q': "fbq_rep q' xs" "evict_one p = (Inr b, forget b (p\<lparr>free_queue := q'\<rparr>))"
    using assms by (rule evict_one_run)
  have "reserved p \<le> b" "ref_cnt p b = 0"
    using pool_atD(6) [OF assms, of b] by simp_all
  then have "allocate_one p = (Inr b, (forget b (p\<lparr>free_queue := q'\<rparr>))\<lparr>ref_cnt := (ref_cnt p)(b := 1)\<rparr>)"
    using q'(2) by (simp add: allocate_one_def andThen_def)
  with q'(1) that show ?thesis by blast
qed

text \<open>\<open>claimed xs p p'\<close>: what handing out the blocks \<open>xs\<close> does to the rest of the pool.\<close>

definition claimed :: "int list \<Rightarrow> block_pool \<Rightarrow> block_pool \<Rightarrow> bool" where
  "claimed xs p p' \<longleftrightarrow>
     num_blocks p' = num_blocks p \<and> reserved p' = reserved p \<and>
     on_evict_wired p' = on_evict_wired p \<and>
     ref_cnt p' = (\<lambda>b. if b \<in> set xs then 1 else ref_cnt p b) \<and>
     block_hash_of p' = (\<lambda>b. if b \<in> set xs then None else block_hash_of p b) \<and>
     evict_log p' = evict_log p @
       (if on_evict_wired p then filter (\<lambda>b. block_hash_of p b \<noteq> None) xs else []) \<and>
     hash_to_block p' = (\<lambda>v. if \<exists>b \<in> set xs. map_option bh_value (block_hash_of p b) = Some v
       then None else hash_to_block p v)"

lemma claimed_hash:
  assumes "claimed xs p p'"
  shows "hash_to_block p' v = (if \<exists>b \<in> set xs. map_option bh_value (block_hash_of p b) = Some v
    then None else hash_to_block p v)"
  using assms unfolding claimed_def by (elim conjE) simp

lemma claimed_Nil: "claimed [] p p"
  by (simp add: claimed_def)

lemma allocate_one_at:
  assumes "pool_at p (b # xs)"
  obtains p' where "allocate_one p = (Inr b, p')" and "pool_at p' xs" and "claimed [b] p p'"
proof -
  obtain q' where q': "fbq_rep q' xs"
    and run: "allocate_one p = (Inr b, (forget b (p\<lparr>free_queue := q'\<rparr>))\<lparr>ref_cnt := (ref_cnt p)(b := 1)\<rparr>)"
    using assms by (rule allocate_one_run)
  let ?p = "(forget b (p\<lparr>free_queue := q'\<rparr>))\<lparr>ref_cnt := (ref_cnt p)(b := 1)\<rparr>"
  have "b \<notin> set xs" using pool_atD(3) [OF assms] by simp
  with assms q' have "pool_at ?p xs" by (auto simp: pool_at_def)
  moreover have "claimed [b] p ?p"
    by (auto simp: claimed_def forget_def fun_eq_iff split: option.splits)
  ultimately show ?thesis using run that by blast
qed

lemma claimed_step:
  assumes "claimed [b] p p1" and "claimed xs p1 p2" and "b \<notin> set xs"
  shows "claimed (b # xs) p p2"
proof -
  have "filter (\<lambda>c. block_hash_of p1 c \<noteq> None) xs = filter (\<lambda>c. block_hash_of p c \<noteq> None) xs"
    using assms by (intro filter_cong) (auto simp: claimed_def)
  moreover have "(\<exists>c \<in> set xs. map_option bh_value (block_hash_of p1 c) = Some v) \<longleftrightarrow>
      (\<exists>c \<in> set xs. map_option bh_value (block_hash_of p c) = Some v)" for v
    using assms by (intro bex_cong) (auto simp: claimed_def)
  ultimately show ?thesis
    using assms by (auto simp: claimed_def fun_eq_iff)
qed

lemma allocate_loop_at:
  assumes "pool_at p xs" and "n \<le> length xs"
  shows "\<exists>p'. allocate_loop n ids p = (Inr (ids @ take n xs), p') \<and> pool_at p' (drop n xs) \<and>
    claimed (take n xs) p p'"
  using assms
proof (induction n arbitrary: p xs ids)
  case 0
  then show ?case by (simp add: claimed_Nil)
next
  case (Suc n)
  then obtain b ys where xs: "xs = b # ys" by (cases xs) auto
  obtain p1 where p1: "allocate_one p = (Inr b, p1)" "pool_at p1 ys" "claimed [b] p p1"
    using Suc.prems(1) unfolding xs by (rule allocate_one_at)
  obtain p2 where p2: "allocate_loop n (ids @ [b]) p1 = (Inr ((ids @ [b]) @ take n ys), p2)"
      "pool_at p2 (drop n ys)" "claimed (take n ys) p1 p2"
    using Suc.IH [OF p1(2)] Suc.prems(2) xs by fastforce
  have "b \<notin> set (take n ys)"
    using pool_atD(3) [OF Suc.prems(1)] xs in_set_takeD by fastforce
  with p1 p2 show ?case
    by (auto simp: xs andThen_def intro: claimed_step)
qed

lemma bp_allocate_run:
  assumes "pool_at p xs" and "0 \<le> n" and "n \<le> int (length xs)"
  obtains p' where "bp_allocate al n p = (Inr (take (nat n) xs), p')"
    and "pool_at p' (drop (nat n) xs)" and "claimed (take (nat n) xs) p p'"
proof -
  obtain p' where p': "allocate_loop (nat n) [] p = (Inr (take (nat n) xs), p')"
      "pool_at p' (drop (nat n) xs)" "claimed (take (nat n) xs) p p'"
    using allocate_loop_at [OF assms(1), of "nat n" "[]"] assms(3) nat_le_iff [of n "length xs"] by auto
  have "distinct (take (nat n) xs)" using pool_atD(3) [OF assms(1)] by simp
  then have "bp_allocate al n p = (Inr (take (nat n) xs), p')"
    using p'(1) assms pool_at_free [OF assms(1)]
    by (simp add: bp_allocate_def andThen_def check_no_duplicate_ids_distinct)
  with p' that show ?thesis by blast
qed


subsection \<open>Release, revival and publication\<close>

definition in_range :: "block_pool \<Rightarrow> int \<Rightarrow> bool" where
  "in_range p b \<longleftrightarrow> reserved p \<le> b \<and> b < num_blocks p"

lemma free_one_run:
  assumes "pool_at p xs" and "in_range p b" and "0 < ref_cnt p b"
  obtains q' where
    "free_one b p = (Inr (), p\<lparr>ref_cnt := (ref_cnt p)(b := ref_cnt p b - 1), free_queue := q'\<rparr>)"
    and "fbq_rep q' (if 1 < ref_cnt p b then xs else if block_hash_of p b = None then b # xs else xs @ [b])"
proof -
  note r = pool_atD(1) [OF assms(1)]
  have b: "0 \<le> b" "b \<notin> set xs"
    using assms pool_atD(2,6) [OF assms(1)] by (auto simp: in_range_def)
  show ?thesis
  proof (cases "1 < ref_cnt p b")
    case True
    then show ?thesis
      using that [of "free_queue p"] r assms by (simp add: free_one_def in_range_def)
  next
    case False
    then have one: "ref_cnt p b = 1" using assms(3) by simp
    obtain qt where qt: "fbq_append b (free_queue p) = (Inr (), qt)" "fbq_rep qt (xs @ [b])"
      using r b by (rule fbq.enq_tailE)
    obtain qh where qh: "fbq_appendleft b (free_queue p) = (Inr (), qh)" "fbq_rep qh (b # xs)"
      using r b by (rule fbq.enq_headE)
    show ?thesis
      using that [of "if block_hash_of p b = None then qh else qt"] qt qh one assms(2)
      by (simp add: free_one_def in_range_def on_field_def)
  qed
qed

lemma free_one_at:
  assumes "pool_at p xs" and "in_range p b" and "0 < ref_cnt p b"
  obtains p' where "free_one b p = (Inr (), p')"
    and "pool_at p' (if 1 < ref_cnt p b then xs else if block_hash_of p b = None then b # xs else xs @ [b])"
    and "p'\<lparr>ref_cnt := ref_cnt p, free_queue := free_queue p\<rparr> = p"
    and "ref_cnt p' = (ref_cnt p)(b := ref_cnt p b - 1)"
proof -
  let ?xs = "if 1 < ref_cnt p b then xs else if block_hash_of p b = None then b # xs else xs @ [b]"
  obtain q' where q': "free_one b p = (Inr (), p\<lparr>ref_cnt := (ref_cnt p)(b := ref_cnt p b - 1), free_queue := q'\<rparr>)"
    "fbq_rep q' ?xs"
    using assms by (rule free_one_run)
  have "pool_at (p\<lparr>ref_cnt := (ref_cnt p)(b := ref_cnt p b - 1), free_queue := q'\<rparr>) ?xs"
    using q'(2) assms by (auto simp: pool_at_def in_range_def)
  with q'(1) that show ?thesis by simp
qed

lemma free_one_bad:
  assumes "\<not> (in_range p b \<and> 0 < ref_cnt p b)"
  shows "\<exists>e. free_one b p = (Inl (RuntimeError e), p)"
  using assms by (auto simp: free_one_def in_range_def)

lemma touch_one_at:
  assumes "pool_at p xs" and "in_range p b"
  obtains p' where "touch_one b p = (Inr (), p')" and "pool_at p' (remove1 b xs)"
    and "p'\<lparr>ref_cnt := ref_cnt p, free_queue := free_queue p\<rparr> = p"
    and "ref_cnt p' = (ref_cnt p)(b := ref_cnt p b + 1)"
proof -
  note r = pool_atD(1) [OF assms(1)]
  have "\<exists>q'. touch_one b p = (Inr (), p\<lparr>free_queue := q', ref_cnt := (ref_cnt p)(b := ref_cnt p b + 1)\<rparr>)
      \<and> fbq_rep q' (remove1 b xs)"
  proof (cases "b \<in> set xs")
    case True
    then obtain q' where "fbq_remove b (free_queue p) = (Inr (), q')" "fbq_rep q' (remove1 b xs)"
      using r fbq.delE by blast
    then show ?thesis
      using True assms pool_atD(6) [OF assms(1)]
      by (auto simp: touch_one_def andThen_def in_range_def on_field_def)
  next
    case False
    then show ?thesis
      using r assms pool_atD(6) [OF assms(1)]
      by (intro exI [of _ "free_queue p"]) (auto simp: touch_one_def andThen_def in_range_def remove1_idem)
  qed
  then obtain q' where q': "fbq_rep q' (remove1 b xs)"
    "touch_one b p = (Inr (), p\<lparr>free_queue := q', ref_cnt := (ref_cnt p)(b := ref_cnt p b + 1)\<rparr>)"
    by blast
  have "ref_cnt p b + 1 \<noteq> 0" using pool_atD(5) [OF assms(1), of b] by simp
  then have "pool_at (p\<lparr>free_queue := q', ref_cnt := (ref_cnt p)(b := ref_cnt p b + 1)\<rparr>) (remove1 b xs)"
    using q'(1) assms fbq.del_set [OF r, of b] by (auto simp: pool_at_def in_range_def)
  with q'(2) that show ?thesis by simp
qed

lemma touch_one_bad: "\<not> in_range p b \<Longrightarrow> \<exists>e. touch_one b p = (Inl (RuntimeError e), p)"
  by (auto simp: touch_one_def in_range_def)

lemma fbq_remove_RuntimeError: "fbq_remove b q = (Inl e, q') \<Longrightarrow> e \<noteq> ValueError m"
  by (auto simp: fbq_remove_def fbq_unlink_def split: if_splits option.splits)

lemma except_ValueError_remove:
  "except_ValueError (in_queue (fbq_remove b)) e p = in_queue (fbq_remove b) p"
  using fbq_remove_RuntimeError [of b "free_queue p"]
  by (auto simp: except_ValueError_def on_field_def split: prod.splits sum.splits pyexc.splits)

lemma reference_one_touch:
  assumes "pool_at p xs" and "in_range p b"
  shows "reference_one b p = touch_one b p"
  using assms pool_atD(5) [OF assms(1), of b]
  by (simp add: reference_one_def touch_one_def in_range_def andThen_def except_ValueError_remove)

lemma reference_one_bad: "\<not> in_range p b \<Longrightarrow> \<exists>e. reference_one b p = (Inl (RuntimeError e), p)"
  by (auto simp: reference_one_def in_range_def)

text \<open>The two outcomes of \<open>cache_block\<close>.\<close>

definition publishes :: "int \<Rightarrow> block_hash \<Rightarrow> block_pool \<Rightarrow> bool" where
  "publishes b bh p \<longleftrightarrow> in_range p b \<and> hash_to_block p (bh_value bh) = None"

lemma cache_block_run:
  "snd (bp_cache_block b bh p) =
     (if publishes b bh p
      then p\<lparr>block_hash_of := (block_hash_of p)(b \<mapsto> bh), hash_to_block := (hash_to_block p)(bh_value bh \<mapsto> b)\<rparr>
      else p)"
  by (simp add: bp_cache_block_def publishes_def in_range_def)


section \<open>Sequences of calls\<close>

text \<open>One call of the pool's interface; \<open>al\<close> is the level of the invariant checks.\<close>

datatype pool_call =
    Allocate int
  | Free "int list"
  | Reference "int list"
  | Touch "int list"
  | Publish int block_hash
  | WireEviction

primrec call_pool :: "int \<Rightarrow> pool_call \<Rightarrow> (block_pool, int list) prog" where
  "call_pool al (Allocate n) = bp_allocate al n"
| "call_pool al (Free ids) = andThen (bp_free ids) (\<lambda>_. ret [])"
| "call_pool al (Reference ids) = andThen (bp_reference ids) (\<lambda>_. ret [])"
| "call_pool al (Touch ids) = andThen (bp_touch ids) (\<lambda>_. ret [])"
| "call_pool al (Publish b bh) = andThen (bp_cache_block b bh) (\<lambda>_. ret [])"
| "call_pool al WireEviction = andThen (update (\<lambda>p. p\<lparr>on_evict_wired := True\<rparr>)) (\<lambda>_. ret [])"

text \<open>
  An invariant of the pool survives every call if it survives handing out the head of the
  queue, one release, one revival and one publication.
\<close>

locale pool_invariant =
  fixes I :: "block_pool \<Rightarrow> bool"
  assumes wf: "I p \<Longrightarrow> pool_wf p"
    and claim: "I p \<Longrightarrow> allocate_one p = (Inr b, p') \<Longrightarrow> I p'"
    and release: "I p \<Longrightarrow> free_one b p = (Inr (), p') \<Longrightarrow> I p'"
    and revive: "I p \<Longrightarrow> touch_one b p = (Inr (), p') \<Longrightarrow> I p'"
    and wire: "I p \<Longrightarrow> I (p\<lparr>on_evict_wired := True\<rparr>)"
begin

lemma keeps_free: "keeps I (bp_free ids)"
  unfolding bp_free_def
proof (rule keeps_for_each, rule keepsI)
  fix b p assume I: "I p"
  show "I (snd (free_one b p))"
  proof (cases "in_range p b \<and> 0 < ref_cnt p b")
    case True
    then show ?thesis
      using free_one_at [of p "free_order p" b] release [OF I] wf [OF I]
      by (metis pool_wf_def snd_conv)
  next
    case False
    from free_one_bad [OF this] I show ?thesis by auto
  qed
qed

lemma touch_one_I: "I p \<Longrightarrow> I (snd (touch_one b p))"
  using touch_one_at [of p "free_order p" b] touch_one_bad [of p b] revive [of p b] wf [of p]
  by (metis pool_wf_def snd_conv)

lemma keeps_touch: "keeps I (bp_touch ids)"
  unfolding bp_touch_def by (rule keeps_for_each, rule keepsI, rule touch_one_I)

lemma reference_one_I: "I p \<Longrightarrow> I (snd (reference_one b p))"
  using reference_one_touch [of p "free_order p" b] reference_one_bad [of p b] touch_one_I [of p b] wf [of p]
  by (metis pool_wf_def snd_conv)

lemma keeps_reference: "keeps I (bp_reference ids)"
  unfolding bp_reference_def by (rule keeps_for_each, rule keepsI, rule reference_one_I)

lemma allocate_loop_I:
  assumes "I p" and "n \<le> length (free_order p)"
  shows "I (snd (allocate_loop n ids p))"
  using assms
proof (induction n arbitrary: p ids)
  case 0
  then show ?case by simp
next
  case (Suc n)
  have at: "pool_at p (free_order p)" using wf [OF Suc.prems(1)] by (simp add: pool_wf_def)
  then obtain b ys where xs: "free_order p = b # ys" using Suc.prems(2) by (cases "free_order p") auto
  obtain p1 where p1: "allocate_one p = (Inr b, p1)" "pool_at p1 ys"
    using at unfolding xs by (rule allocate_one_at)
  have "I p1" using claim [OF Suc.prems(1) p1(1)] .
  moreover have "n \<le> length (free_order p1)"
    using Suc.prems(2) pool_at_order [OF p1(2)] xs by simp
  ultimately show ?case
    using Suc.IH p1(1) by (simp add: andThen_def)
qed

lemma keeps_allocate: "keeps I (bp_allocate al n)"
proof (rule keepsI)
  fix p assume I: "I p"
  then have at: "pool_at p (free_order p)" using wf by (simp add: pool_wf_def)
  show "I (snd (bp_allocate al n p))"
  proof (cases "n < 0 \<or> n > num_free_blocks p")
    case True
    then show ?thesis using I by (auto simp: bp_allocate_def)
  next
    case False
    then have n: "nat n \<le> length (free_order p)"
      using pool_at_free [OF at] by linarith
    then obtain p' ids where "allocate_loop (nat n) [] p = (Inr ids, p')"
      using allocate_loop_at [OF at] by blast
    then have "snd (bp_allocate al n p) = snd (allocate_loop (nat n) [] p)"
      using False by (auto simp: bp_allocate_def andThen_def split: sum.splits)
    then show ?thesis using allocate_loop_I [OF I n] by simp
  qed
qed

lemma keeps_call:
  assumes "\<And>b bh. c = Publish b bh \<Longrightarrow> I (snd (bp_cache_block b bh p))" and "I p"
  shows "I (snd (call_pool al c p))"
proof (cases c)
  case (Publish b bh)
  then show ?thesis
    using assms by (simp add: snd_andThen_ret)
next
  case WireEviction
  then show ?thesis using wire [OF assms(2)] by (simp add: andThen_def)
qed (use assms(2) in \<open>simp_all add: keeps_snd [OF keeps_allocate] keeps_snd [OF keeps_andThen_ret]
  keeps_free keeps_touch keeps_reference\<close>)

end


subsection \<open>Two invariants\<close>

lemma allocate_one_Inr:
  assumes "pool_wf p" and "allocate_one p = (Inr b, p')"
  shows "\<exists>ys. free_order p = b # ys \<and> pool_at p' ys \<and> claimed [b] p p'"
proof -
  have at: "pool_at p (free_order p)" using assms(1) by (simp add: pool_wf_def)
  show ?thesis
  proof (cases "free_order p")
    case Nil
    then show ?thesis
      using fbq.deq_empty [of "free_queue p"] pool_atD(1) [OF at] assms(2)
      by (auto simp: allocate_one_def evict_one_def andThen_def on_field_def)
  next
    case (Cons c ys)
    then show ?thesis
      using allocate_one_at [of p c ys] at assms(2) by (metis Inr_inject Pair_inject)
  qed
qed

lemma free_one_Inr:
  assumes "pool_wf p" and "free_one b p = (Inr (), p')"
  shows "in_range p b" and "0 < ref_cnt p b"
    and "pool_at p' (if 1 < ref_cnt p b then free_order p
      else if block_hash_of p b = None then b # free_order p else free_order p @ [b])"
    and "p'\<lparr>ref_cnt := ref_cnt p, free_queue := free_queue p\<rparr> = p"
    and "ref_cnt p' = (ref_cnt p)(b := ref_cnt p b - 1)"
proof -
  have at: "pool_at p (free_order p)" using assms(1) by (simp add: pool_wf_def)
  have ok: "in_range p b \<and> 0 < ref_cnt p b"
    using free_one_bad [of p b] assms(2) by auto
  then show "in_range p b" and "0 < ref_cnt p b" by simp_all
  obtain p1 where p1: "free_one b p = (Inr (), p1)"
    "pool_at p1 (if 1 < ref_cnt p b then free_order p
      else if block_hash_of p b = None then b # free_order p else free_order p @ [b])"
    "p1\<lparr>ref_cnt := ref_cnt p, free_queue := free_queue p\<rparr> = p"
    "ref_cnt p1 = (ref_cnt p)(b := ref_cnt p b - 1)"
    using free_one_at [OF at, of b] ok by metis
  have "p1 = p'" using p1(1) assms(2) by simp
  with p1 show "pool_at p' (if 1 < ref_cnt p b then free_order p
      else if block_hash_of p b = None then b # free_order p else free_order p @ [b])"
    and "p'\<lparr>ref_cnt := ref_cnt p, free_queue := free_queue p\<rparr> = p"
    and "ref_cnt p' = (ref_cnt p)(b := ref_cnt p b - 1)" by simp_all
qed

lemma touch_one_Inr:
  assumes "pool_wf p" and "touch_one b p = (Inr (), p')"
  shows "in_range p b" and "pool_at p' (remove1 b (free_order p))"
    and "p'\<lparr>ref_cnt := ref_cnt p, free_queue := free_queue p\<rparr> = p"
    and "ref_cnt p' = (ref_cnt p)(b := ref_cnt p b + 1)"
proof -
  have at: "pool_at p (free_order p)" using assms(1) by (simp add: pool_wf_def)
  show ok: "in_range p b" using touch_one_bad [of p b] assms(2) by auto
  obtain p1 where p1: "touch_one b p = (Inr (), p1)" "pool_at p1 (remove1 b (free_order p))"
    "p1\<lparr>ref_cnt := ref_cnt p, free_queue := free_queue p\<rparr> = p"
    "ref_cnt p1 = (ref_cnt p)(b := ref_cnt p b + 1)"
    using at ok by (rule touch_one_at)
  have "p1 = p'" using p1(1) assms(2) by simp
  with p1 show "pool_at p' (remove1 b (free_order p))"
    and "p'\<lparr>ref_cnt := ref_cnt p, free_queue := free_queue p\<rparr> = p"
    and "ref_cnt p' = (ref_cnt p)(b := ref_cnt p b + 1)" by simp_all
qed

lemma same_cache_fields:
  assumes "p'\<lparr>ref_cnt := r, free_queue := q\<rparr> = p"
  shows "block_hash_of p' = block_hash_of p" "hash_to_block p' = hash_to_block p"
    "num_blocks p' = num_blocks p" "reserved p' = reserved p" "evict_log p' = evict_log p"
    "on_evict_wired p' = on_evict_wired p"
  using assms by auto

text \<open>A well-formed pool of \<open>n\<close> blocks whose first \<open>r\<close> are reserved.\<close>

definition pool_of :: "int \<Rightarrow> int \<Rightarrow> block_pool \<Rightarrow> bool" where
  "pool_of n r p \<longleftrightarrow> pool_wf p \<and> num_blocks p = n \<and> reserved p = r"

interpretation wf_inv: pool_invariant "pool_of n r"
proof unfold_locales
  fix p p' b
  show "pool_of n r p \<Longrightarrow> pool_wf p" by (simp add: pool_of_def)
  assume po: "pool_of n r p"
  then have w: "pool_wf p" by (simp add: pool_of_def)
  show "pool_of n r p'" if call: "allocate_one p = (Inr b, p')"
    using allocate_one_Inr [OF w call] po pool_wf_iff by (auto simp: pool_of_def claimed_def)
  show "pool_of n r p'" if call: "free_one b p = (Inr (), p')"
    using free_one_Inr(3) [OF w call] same_cache_fields [OF free_one_Inr(4) [OF w call]] po pool_wf_iff
    by (auto simp: pool_of_def)
  show "pool_of n r p'" if call: "touch_one b p = (Inr (), p')"
    using touch_one_Inr(2) [OF w call] same_cache_fields [OF touch_one_Inr(3) [OF w call]] po pool_wf_iff
    by (auto simp: pool_of_def)
  show "pool_of n r (p\<lparr>on_evict_wired := True\<rparr>)"
    using po by (simp add: pool_of_def pool_wf_def pool_at_def free_order_def)
qed

text \<open>
  The content index lists exactly the tagged blocks, and the untagged free blocks stand
  before the tagged ones in the free queue.
\<close>

definition index_ok :: "block_pool \<Rightarrow> bool" where
  "index_ok p \<longleftrightarrow>
     (\<forall>v b. hash_to_block p v = Some b \<longleftrightarrow> map_option bh_value (block_hash_of p b) = Some v) \<and>
     (\<forall>b. block_hash_of p b \<noteq> None \<longrightarrow> in_range p b)"

definition cached_last :: "block_pool \<Rightarrow> bool" where
  "cached_last p \<longleftrightarrow>
     sorted_wrt (\<lambda>x y. block_hash_of p x \<noteq> None \<longrightarrow> block_hash_of p y \<noteq> None) (free_order p)"

definition cache_wf :: "block_pool \<Rightarrow> bool" where
  "cache_wf p \<longleftrightarrow> pool_wf p \<and> index_ok p \<and> cached_last p"

lemma index_ok_claimed:
  assumes "index_ok p" and "claimed xs p p'"
  shows "index_ok p'"
proof -
  note D = assms(1) [unfolded index_ok_def, THEN conjunct1]
  have "hash_to_block p' v = Some c \<longleftrightarrow> map_option bh_value (block_hash_of p' c) = Some v" for v c
  proof (cases "\<exists>b \<in> set xs. map_option bh_value (block_hash_of p b) = Some v")
    case True
    then obtain b where b: "b \<in> set xs" "hash_to_block p v = Some b" using D by blast
    have "c \<in> set xs" if "map_option bh_value (block_hash_of p c) = Some v"
      using D [rule_format, of v c] that b by simp
    with True assms(2) show ?thesis
      by (auto simp only: claimed_hash [OF assms(2)] if_True) (auto simp: claimed_def split: if_splits)
  next
    case False
    then have "hash_to_block p' v = hash_to_block p v" by (simp only: claimed_hash [OF assms(2)] if_False)
    then have "hash_to_block p' v = Some c \<longleftrightarrow> map_option bh_value (block_hash_of p c) = Some v"
      using D by simp
    with False show ?thesis using assms(2) by (auto simp: claimed_def)
  qed
  moreover have "in_range p' c" if "block_hash_of p' c \<noteq> None" for c
    using that assms by (auto simp: index_ok_def claimed_def in_range_def split: if_splits)
  ultimately show ?thesis by (simp add: index_ok_def)
qed

lemma sorted_wrt_remove1: "sorted_wrt R xs \<Longrightarrow> sorted_wrt R (remove1 x xs)"
  by (induction xs) (auto dest: notin_set_remove1 simp: sorted_wrt_append)

lemma index_ok_cong:
  assumes "p'\<lparr>ref_cnt := r, free_queue := q\<rparr> = p" and "index_ok p"
  shows "index_ok p'"
  using assms(2) same_cache_fields [OF assms(1)] by (simp add: index_ok_def in_range_def)

interpretation cache_inv: pool_invariant cache_wf
proof unfold_locales
  fix p p' b
  show "cache_wf p \<Longrightarrow> pool_wf p" by (simp add: cache_wf_def)
  assume cw: "cache_wf p"
  then have w: "pool_wf p" and ix: "index_ok p" and cl: "cached_last p" by (simp_all add: cache_wf_def)
  show "cache_wf p'" if call: "allocate_one p = (Inr b, p')"
  proof -
    obtain ys where ys: "free_order p = b # ys" "pool_at p' ys" "claimed [b] p p'"
      using allocate_one_Inr [OF w call] by blast
    have "b \<notin> set ys" using w ys(1) pool_atD(3) by (fastforce simp: pool_wf_def)
    then have "cached_last p'"
      using cl ys pool_at_order [OF ys(2)]
      by (auto simp: cached_last_def claimed_def split: if_splits elim!: sorted_wrt_mono_rel [rotated])
    then show ?thesis
      using ys index_ok_claimed [OF ix] pool_wf_iff by (auto simp: cache_wf_def)
  qed
  show "cache_wf p'" if call: "free_one b p = (Inr (), p')"
  proof -
    note f = free_one_Inr [OF w call]
    have "cached_last p'"
      using cl pool_at_order [OF f(3)] same_cache_fields [OF f(4)]
      by (simp add: cached_last_def sorted_wrt_append)
    then show ?thesis
      using f(3) index_ok_cong [OF f(4) ix] pool_wf_iff by (auto simp: cache_wf_def)
  qed
  show "cache_wf p'" if call: "touch_one b p = (Inr (), p')"
  proof -
    note f = touch_one_Inr [OF w call]
    have "cached_last p'"
      using cl pool_at_order [OF f(2)] same_cache_fields [OF f(3)]
      by (simp add: cached_last_def sorted_wrt_remove1)
    then show ?thesis
      using f(2) index_ok_cong [OF f(3) ix] pool_wf_iff by (auto simp: cache_wf_def)
  qed
  show "cache_wf (p\<lparr>on_evict_wired := True\<rparr>)"
    using w ix cl by (simp add: cache_wf_def pool_wf_def pool_at_def free_order_def
      index_ok_def in_range_def cached_last_def)
qed


subsection \<open>Construction and publication\<close>

lemma fbq_append_all:
  assumes "fbq_rep q ys" and "distinct (ys @ xs)" and "\<forall>x \<in> set xs. 0 \<le> x"
  shows "\<exists>q'. for_each fbq_append xs q = (Inr (), q') \<and> fbq_rep q' (ys @ xs)"
  using assms
proof (induction xs arbitrary: q ys)
  case Nil
  then show ?case by simp
next
  case (Cons x xs)
  obtain q1 where q1: "fbq_append x q = (Inr (), q1)" "fbq_rep q1 (ys @ [x])"
    using Cons.prems fbq.enq_tailE [of q ys x] by auto
  then show ?case
    using Cons.IH [OF q1(2)] Cons.prems by (auto simp: andThen_def)
qed

lemma bp_init_at:
  assumes "bp_init n r = Inr p"
  shows "pool_at p [r..n - 1]" and "num_blocks p = n" and "reserved p = r"
    and "block_hash_of p = (\<lambda>_. None)" and "hash_to_block p = (\<lambda>_. None)" and "evict_log p = []"
proof -
  have r: "1 \<le> r" "r < n" using assms by (auto simp: bp_init_def split: if_splits)
  obtain q where q: "for_each fbq_append [r..n - 1] fbq_init = (Inr (), q)" "fbq_rep q [r..n - 1]"
    using fbq_append_all [OF fbq_rep_init, of "[r..n - 1]"] r by auto
  have p: "p = \<lparr>num_blocks = n, reserved = r, ref_cnt = (\<lambda>_. 0),
      block_hash_of = (\<lambda>_. None), free_queue = q, on_evict_wired = False,
      evict_log = [], hash_to_block = (\<lambda>_. None)\<rparr>"
    using assms q(1) r by (simp add: bp_init_def)
  show "pool_at p [r..n - 1]" using q(2) r by (auto simp: p pool_at_def)
qed (use assms in \<open>auto simp: bp_init_def split: if_splits prod.splits sum.splits\<close>)

lemma bp_init_pool_of: "bp_init n r = Inr p \<Longrightarrow> pool_of n r p"
  using bp_init_at pool_wf_iff by (auto simp: pool_of_def)

lemma bp_init_cache_wf: "bp_init n r = Inr p \<Longrightarrow> cache_wf p"
  using bp_init_at [of n r p] pool_wf_iff pool_at_order [of p]
  by (auto simp: cache_wf_def index_ok_def cached_last_def sorted_wrt_iff_nth_less)

lemma publish_pool_of: "pool_of n r p \<Longrightarrow> pool_of n r (snd (bp_cache_block b bh p))"
  by (simp add: cache_block_run pool_of_def pool_wf_def pool_at_def free_order_def)

text \<open>
  The runner's discipline: it publishes a block only while a slot holds it and before it is
  tagged; publishing a value that is already indexed does nothing.
\<close>

primrec call_disciplined :: "block_pool \<Rightarrow> pool_call \<Rightarrow> bool" where
  "call_disciplined p (Allocate n) = True"
| "call_disciplined p (Free ids) = True"
| "call_disciplined p (Reference ids) = True"
| "call_disciplined p (Touch ids) = True"
| "call_disciplined p (Publish b bh) =
     (hash_to_block p (bh_value bh) \<noteq> None \<or> 0 < ref_cnt p b \<and> block_hash_of p b = None)"
| "call_disciplined p WireEviction = True"

primrec disciplined :: "int \<Rightarrow> pool_call list \<Rightarrow> block_pool \<Rightarrow> bool" where
  "disciplined al [] p = True"
| "disciplined al (c # cs) p = (call_disciplined p c \<and> disciplined al cs (snd (call_pool al c p)))"

lemma publish_cache_wf:
  assumes "cache_wf p" and "call_disciplined p (Publish b bh)"
  shows "cache_wf (snd (bp_cache_block b bh p))"
proof (cases "publishes b bh p")
  case False
  then show ?thesis using assms(1) by (simp add: cache_block_run)
next
  case True
  then have b: "0 < ref_cnt p b" "block_hash_of p b = None" "in_range p b"
    and fresh: "hash_to_block p (bh_value bh) = None"
    using assms(2) by (auto simp: publishes_def)
  let ?p = "p\<lparr>block_hash_of := (block_hash_of p)(b \<mapsto> bh), hash_to_block := (hash_to_block p)(bh_value bh \<mapsto> b)\<rparr>"
  have w: "pool_wf p" "pool_at p (free_order p)" and ix: "index_ok p" and cl: "cached_last p"
    using assms(1) by (simp_all add: cache_wf_def pool_wf_def)
  have fo: "free_order ?p = free_order p" by (simp add: free_order_def)
  have "b \<notin> set (free_order p)" using pool_atD(6) [OF w(2)] b by simp
  then have "cached_last ?p"
    using cl unfolding cached_last_def fo by (elim sorted_wrt_mono_rel [rotated]) auto
  moreover have "pool_wf ?p" using w by (simp add: pool_wf_def pool_at_def free_order_def)
  moreover have "index_ok ?p"
    unfolding index_ok_def
  proof (intro conjI allI)
    fix v c
    have "bh_value h \<noteq> bh_value bh" if "block_hash_of p c = Some h" for h
      using ix fresh that unfolding index_ok_def by (metis option.distinct(1) option.simps(9))
    moreover have "hash_to_block p v = Some c \<longleftrightarrow> map_option bh_value (block_hash_of p c) = Some v"
      using ix by (simp add: index_ok_def)
    ultimately show "hash_to_block ?p v = Some c \<longleftrightarrow> map_option bh_value (block_hash_of ?p c) = Some v"
      using b(2) by (cases "v = bh_value bh"; cases "c = b") auto
  next
    fix c
    show "block_hash_of ?p c \<noteq> None \<longrightarrow> in_range ?p c"
      using ix b(3) by (simp add: index_ok_def in_range_def)
  qed
  ultimately show ?thesis using True by (simp add: cache_block_run cache_wf_def)
qed

lemma disciplined_cache_wf:
  "cache_wf p \<Longrightarrow> disciplined al cs p \<Longrightarrow> cache_wf (snd (run_calls (call_pool al) cs p))"
proof (induction cs arbitrary: p)
  case (Cons c cs)
  have "cache_wf (snd (call_pool al c p))"
    using Cons.prems by (intro cache_inv.keeps_call) (auto intro: publish_cache_wf)
  then show ?case using Cons by (simp del: run_calls.simps)
qed simp

lemma calls_pool_of: "pool_of n r p \<Longrightarrow> pool_of n r (snd (run_calls (call_pool al) cs p))"
proof (induction cs arbitrary: p)
  case (Cons c cs)
  have "pool_of n r (snd (call_pool al c p))"
    using Cons.prems by (intro wf_inv.keeps_call) (auto intro: publish_pool_of)
  then show ?case using Cons by (simp del: run_calls.simps)
qed simp

lemma hashless_taken:
  assumes "sorted_wrt (\<lambda>x y. \<not> P x \<longrightarrow> \<not> P y) xs" and "n \<le> length (filter P xs)"
  shows "\<forall>b \<in> set (take n xs). P b"
  using assms
proof (induction xs arbitrary: n)
  case (Cons x xs)
  show ?case
  proof (cases "P x")
    case True
    show ?thesis
    proof (cases n)
      case (Suc m)
      then have "\<forall>b \<in> set (take m xs). P b"
        using Cons.prems True by (intro Cons.IH) simp_all
      with True Suc show ?thesis by simp
    qed simp
  next
    case False
    then have "filter P (x # xs) = []" using Cons.prems(1) by (simp add: filter_empty_conv)
    then show ?thesis using Cons.prems(2) by simp
  qed
qed simp


section \<open>What the pool promises\<close>

text \<open>
  C1: whatever sequence of \<^verbatim>\<open>allocate\<close>, \<^verbatim>\<open>free\<close>, \<^verbatim>\<open>reference\<close>, \<^verbatim>\<open>touch\<close> and \<^verbatim>\<open>cache_block\<close> calls
  is made on a new pool, with any arguments and with exceptions caught between calls, the
  free queue holds every unreserved block without a reference exactly once and no other
  block, its length counter agrees, reference counts are never negative, and a reserved
  block (INV7) is never queued.
\<close>

theorem pool_calls_partition_blocks:
  fixes al :: int and cs :: "pool_call list"
  assumes "bp_init n r = Inr p0"
  defines "p \<equiv> snd (run_calls (call_pool al) cs p0)"
  shows "distinct (free_order p) \<and>
    set (free_order p) = {b. r \<le> b \<and> b < n \<and> ref_cnt p b = 0} \<and>
    num_free_blocks p = int (length (free_order p)) \<and> (\<forall>b. 0 \<le> ref_cnt p b)"
proof -
  have "pool_of n r p"
    unfolding p_def by (rule calls_pool_of) (rule bp_init_pool_of [OF assms(1)])
  then have "pool_at p (free_order p)" "num_blocks p = n" "reserved p = r"
    by (simp_all add: pool_of_def pool_wf_def)
  then show ?thesis
    using pool_atD(3) pool_at_free by (auto simp: pool_at_def)
qed

definition demo_pool :: block_pool where
  "demo_pool = (case bp_init 4 1 of Inr p \<Rightarrow> p)"

lemma demo_pool_init: "bp_init 4 1 = Inr demo_pool"
  by (simp add: demo_pool_def bp_init_def fbq_init_def fbq_append_def andThen_def upto.simps)

theorem pool_calls_partition_blocks_witness:
  "num_free_blocks (snd (run_calls (call_pool 2) [Allocate 2, Free [1, 7], Reference [0]] demo_pool)) =
     int (length (free_order (snd (run_calls (call_pool 2) [Allocate 2, Free [1, 7], Reference [0]] demo_pool))))"
  using pool_calls_partition_blocks [OF demo_pool_init] by blast

text \<open>
  on a well-formed pool \<^verbatim>\<open>allocate(n)\<close> refuses a negative count and a count above the free
  blocks without changing anything, and otherwise hands out the first \<^verbatim>\<open>n\<close> blocks of the
  eviction order, each once, with reference count one and no content hash, whatever the
  assertion level; every other block keeps its count and its hash.
\<close>

theorem allocate_spec:
  fixes n :: int
  assumes "pool_wf p"
  defines "ids \<equiv> take (nat n) (free_order p)"
  shows "bp_allocate al n p =
      (if n < 0 then (Inl (ValueError ''cannot allocate a negative count''), p)
       else if n > num_free_blocks p then (Inl (RuntimeError ''block pool exhausted''), p)
       else (Inr ids, snd (bp_allocate al n p))) \<and>
    (0 \<le> n \<and> n \<le> num_free_blocks p \<longrightarrow>
       (let p' = snd (bp_allocate al n p) in
          int (length ids) = n \<and> distinct ids \<and> free_order p' = drop (nat n) (free_order p) \<and>
          (\<forall>b. ref_cnt p' b = (if b \<in> set ids then 1 else ref_cnt p b)) \<and>
          (\<forall>b. block_hash_of p' b = (if b \<in> set ids then None else block_hash_of p b))))"
proof -
  have at: "pool_at p (free_order p)" using assms(1) by (simp add: pool_wf_def)
  note free = pool_at_free [OF at]
  show ?thesis
  proof (cases "0 \<le> n \<and> n \<le> num_free_blocks p")
    case True
    obtain p' where p': "bp_allocate al n p = (Inr ids, p')"
      "pool_at p' (drop (nat n) (free_order p))" "claimed ids p p'"
      using bp_allocate_run [OF at, of n al] True free unfolding ids_def by metis
    have "distinct ids" using pool_atD(3) [OF at] by (simp add: ids_def)
    moreover have "int (length ids) = n" using True free by (auto simp: ids_def min_def)
    ultimately show ?thesis
      using True p'(3) by (simp add: p'(1) pool_at_order [OF p'(2)] claimed_def)
  next
    case False
    then show ?thesis by (auto simp: bp_allocate_def)
  qed
qed

theorem allocate_spec_witness:
  "fst (bp_allocate 2 2 demo_pool) = Inr [1, 2] \<and> fst (bp_allocate 2 9 demo_pool) =
     Inl (RuntimeError ''block pool exhausted'')"
proof -
  have at: "pool_at demo_pool [1, 2, 3]"
    using bp_init_at(1) [OF demo_pool_init] by (simp add: upto.simps)
  then have "pool_wf demo_pool" "free_order demo_pool = [1, 2, 3]" "num_free_blocks demo_pool = 3"
    using pool_wf_iff pool_at_order pool_at_free by fastforce+
  then show ?thesis
    using allocate_spec [of demo_pool 2 2] allocate_spec [of demo_pool 2 9] by simp (metis fst_conv)
qed

text \<open>
  C2: as long as the runner publishes only blocks a slot holds and that carry no hash yet, the
  content index is exact after any sequence of calls (INV2): a probe for a hash value answers
  with a block exactly when that block still carries that value, and only with a block in range.
\<close>

theorem index_is_exact:
  assumes "bp_init n r = Inr p0" and "disciplined al cs p0"
  defines "p \<equiv> snd (run_calls (call_pool al) cs p0)"
  shows "get_cached_block p v = Some b \<longleftrightarrow>
      (\<exists>bh. block_hash_of p b = Some bh \<and> bh_value bh = v) \<and> r \<le> b \<and> b < n"
proof -
  have "cache_wf p"
    unfolding p_def by (rule disciplined_cache_wf [OF bp_init_cache_wf [OF assms(1)] assms(2)])
  moreover have "pool_of n r p"
    unfolding p_def by (rule calls_pool_of [OF bp_init_pool_of [OF assms(1)]])
  ultimately show ?thesis
    by (auto simp: cache_wf_def index_ok_def pool_of_def get_cached_block_def in_range_def)
qed


definition demo_script :: "pool_call list" where
  "demo_script = [WireEviction, Allocate 2, Publish 1 \<lparr>bh_value = 5, bh_num_tokens = 16\<rparr>,
     Free [1, 2], Allocate 2]"

lemma demo_script_disciplined: "disciplined 2 demo_script demo_pool"
  by code_simp

theorem index_is_exact_witness:
  "get_cached_block (snd (run_calls (call_pool 2) demo_script demo_pool)) 5 = Some 1"
proof -
  have "block_hash_of (snd (run_calls (call_pool 2) demo_script demo_pool)) 1 =
      Some \<lparr>bh_value = 5, bh_num_tokens = 16\<rparr>"
    by code_simp
  then show ?thesis
    using index_is_exact [OF demo_pool_init demo_script_disciplined, of 5 1] by simp
qed

text \<open>
  C3: under the same discipline cached content is evicted last: while the request can be served
  from free blocks without a hash, \<^verbatim>\<open>allocate\<close> evicts nothing, so the index and the calls of the
  eviction callback stay as they were.
\<close>

theorem cached_blocks_evicted_last:
  fixes n :: int
  assumes "bp_init N r = Inr p0" and "disciplined al cs p0"
  defines "p \<equiv> snd (run_calls (call_pool al) cs p0)"
  defines "p' \<equiv> snd (bp_allocate al n p)"
  assumes "n \<le> int (length (filter (\<lambda>b. block_hash_of p b = None) (free_order p)))"
  shows "hash_to_block p' = hash_to_block p \<and> evict_log p' = evict_log p"
proof -
  have cw: "cache_wf p"
    unfolding p_def by (rule disciplined_cache_wf [OF bp_init_cache_wf [OF assms(1)] assms(2)])
  then have at: "pool_at p (free_order p)" by (simp add: cache_wf_def pool_wf_def)
  show ?thesis
  proof (cases "n < 0")
    case True
    then show ?thesis by (simp add: p'_def bp_allocate_def)
  next
    case False
    have len: "nat n \<le> length (filter (\<lambda>b. block_hash_of p b = None) (free_order p))"
      using assms(5) False by simp
    then have "n \<le> int (length (free_order p))"
      using length_filter_le [of "\<lambda>b. block_hash_of p b = None" "free_order p"] by linarith
    then have cl: "claimed (take (nat n) (free_order p)) p p'"
      using bp_allocate_run [OF at, of n al] False unfolding p'_def by (metis not_less snd_conv)
    have plain: "\<forall>b \<in> set (take (nat n) (free_order p)). block_hash_of p b = None"
      using cw len by (intro hashless_taken) (auto simp: cache_wf_def cached_last_def)
    then have "hash_to_block p' v = hash_to_block p v" for v
      using claimed_hash [OF cl, of v] by (auto split: if_splits)
    moreover have "filter (\<lambda>b. block_hash_of p b \<noteq> None) (take (nat n) (free_order p)) = []"
      using plain by (simp add: filter_empty_conv)
    then have "evict_log p' = evict_log p" using cl unfolding claimed_def by (elim conjE) simp
    ultimately show ?thesis by (simp add: fun_eq_iff)
  qed
qed

theorem cached_blocks_evicted_last_witness:
  "let p = snd (run_calls (call_pool 2) (take 4 demo_script) demo_pool) in
     evict_log (snd (bp_allocate 2 2 p)) = evict_log p"
proof -
  have d: "disciplined 2 (take 4 demo_script) demo_pool" by code_simp
  have "2 \<le> int (length (filter (\<lambda>b. block_hash_of
      (snd (run_calls (call_pool 2) (take 4 demo_script) demo_pool)) b = None)
      (free_order (snd (run_calls (call_pool 2) (take 4 demo_script) demo_pool)))))"
    by code_simp
  from cached_blocks_evicted_last [OF demo_pool_init d this] show ?thesis by (simp add: Let_def)
qed

text \<open>
  \<^verbatim>\<open>reference\<close> does not refuse a block without references: on any list of in-range blocks of a
  well-formed pool it does exactly what \<^verbatim>\<open>touch\<close> does, so a block parked in the free queue is
  pulled out and revived, because the queue's \<^verbatim>\<open>remove\<close> never raises \<^verbatim>\<open>ValueError\<close>.
\<close>

theorem reference_is_touch:
  assumes "pool_wf p" and "\<And>b. b \<in> set ids \<Longrightarrow> in_range p b"
  shows "bp_reference ids p = bp_touch ids p \<and> fst (bp_reference ids p) = Inr ()"
  using assms
proof (induction ids arbitrary: p)
  case Nil
  then show ?case by (simp add: bp_reference_def bp_touch_def)
next
  case (Cons b ids)
  have at: "pool_at p (free_order p)" using Cons.prems(1) by (simp add: pool_wf_def)
  have b: "in_range p b" using Cons.prems(2) by simp
  obtain p1 where p1: "touch_one b p = (Inr (), p1)" "pool_at p1 (remove1 b (free_order p))"
    and same: "p1\<lparr>ref_cnt := ref_cnt p, free_queue := free_queue p\<rparr> = p"
    using at b by (rule touch_one_at)
  have "pool_wf p1" using p1(2) pool_wf_iff by blast
  moreover have "in_range p1 c" if "c \<in> set ids" for c
    using Cons.prems(2) [of c] that same_cache_fields [OF same] by (simp add: in_range_def)
  ultimately show ?case
    using Cons.IH [of p1] p1(1) reference_one_touch [OF at b]
    by (auto simp: bp_reference_def bp_touch_def andThen_def)
qed

theorem reference_is_touch_witness:
  "fst (bp_reference [2] demo_pool) = Inr () \<and>
   2 \<in> set (free_order demo_pool) \<and> free_order (snd (bp_reference [2] demo_pool)) = [1, 3]"
proof -
  have at: "pool_at demo_pool [1, 2, 3]"
    using bp_init_at(1) [OF demo_pool_init] by (simp add: upto.simps)
  then have "pool_wf demo_pool" using pool_wf_iff by blast
  moreover have "in_range demo_pool 2"
    using bp_init_at(2,3) [OF demo_pool_init] by (simp add: in_range_def)
  ultimately have "fst (bp_reference [2] demo_pool) = Inr ()"
    using reference_is_touch [of demo_pool "[2]"] by auto
  moreover have "free_order (snd (bp_reference [2] demo_pool)) = [1, 3]" by code_simp
  ultimately show ?thesis using pool_at_order [OF at] by simp
qed

section \<open>Addresses of the recurrent state\<close>

text \<open>
  The physical rows of the recurrent state for distinct (slot, column) pairs are distinct,
  column zero is the slot's own physical row, the speculative rows start past all of those, and
  reserved row zero is never used.
\<close>

theorem ssm_spec_row_injective:
  assumes "rows = S + RESERVED_PHYSICAL_SLOTS"
    and "0 \<le> l" "l < S" "0 \<le> c" "c \<le> k" and "0 \<le> l'" "l' < S" "0 \<le> c'" "c' \<le> k"
  shows "(ssm_spec_row l c rows k = ssm_spec_row l' c' rows k \<longleftrightarrow> l = l' \<and> c = c') \<and>
    0 < ssm_spec_row l c rows k \<and> ssm_spec_row l c rows k < rows + rows * k \<and>
    (ssm_spec_row l c rows k < rows \<longleftrightarrow> c = 0)"
proof -
  have row: "ssm_spec_row a d rows k = (if d = 0 then a + 1 else rows + (a + 1) * k + (d - 1))" for a d
    by (simp add: ssm_spec_row_def physical_slot_def RESERVED_PHYSICAL_SLOTS_def)
  have tot: "rows = S + 1" using assms(1) by (simp add: RESERVED_PHYSICAL_SLOTS_def)
  have pos: "0 \<le> (a + 1) * k" "(a + 1) * k + k \<le> rows * k" if "0 \<le> a" "a < S" "0 < k" for a
  proof -
    have "(a + 2) * k \<le> rows * k" using that tot by (intro mult_right_mono) auto
    then show "(a + 1) * k + k \<le> rows * k" by (simp add: algebra_simps)
  qed (use that in simp)
  have eq: "a = a' \<and> d = d'"
    if "(a + 1) * k + (d - 1) = (a' + 1) * k + (d' - 1)" "0 < d" "d \<le> k" "0 < d'" "d' \<le> k"
    for a a' d d' :: int
  proof -
    have "((a + 1) * k + (d - 1)) div k = a + 1" "((a' + 1) * k + (d' - 1)) div k = a' + 1"
      using that by (simp_all add: div_pos_pos_trivial)
    then have "a = a'" by (metis that(1) add_right_cancel)
    with that(1) show ?thesis by simp
  qed
  have "0 < k" if "c \<noteq> 0 \<or> c' \<noteq> 0" using that assms by linarith
  then show ?thesis
    using assms(2-9) pos [of l] pos [of l'] eq [of l c l' c'] mult_nonneg_nonneg [of rows k] tot
    unfolding row by (smt (verit))
qed

theorem ssm_spec_row_injective_witness:
  "ssm_spec_row 0 2 5 3 \<noteq> ssm_spec_row 1 0 5 3 \<and> ssm_spec_row 0 2 5 3 = 9"
  using ssm_spec_row_injective [of 5 4 0 2 3 1 0]
  by (simp add: RESERVED_PHYSICAL_SLOTS_def ssm_spec_row_def physical_slot_def)

end
