(* ===== verification/Slot_Resources.thy ===== *)
theory Slot_Resources
  imports Prelude Inv_Checks
begin

text \<open>
  The cache coordinator of \<^verbatim>\<open>runtime/slot_resource_manager.py\<close> and the \<^verbatim>\<open>PrefixHit\<close> and
  \<^verbatim>\<open>BackendCapabilities\<close> values of \<^verbatim>\<open>runtime/backends/protocol.py\<close>.  The backend is a record of
  the operations the coordinator calls; an operation the source probes with \<^verbatim>\<open>hasattr\<close> or
  \<^verbatim>\<open>getattr\<close> is optional.
\<close>

section \<open>Prefix hits\<close>

record backend_capabilities =
  speculative_decode :: bool
  prefix_cache :: bool
  cuda_graph :: bool
  chunked_prefill :: bool
  warm_continue :: bool
  kv_reservation :: bool
  prefix_cache_dedup :: bool

record hit =
  kv_hit :: int
  state_hit :: int

definition mk_hit :: "int \<Rightarrow> int \<Rightarrow> hit res" where
  "mk_hit kv st =
     (if st > kv then Inl (ValueError ''INV-A3-2 violated'')
      else if st < 0 \<or> kv < 0 then Inl (ValueError ''prefix hit lengths must be non-negative'')
      else Inr \<lparr>kv_hit = kv, state_hit = st\<rparr>)"

definition effective :: "hit \<Rightarrow> int" where
  "effective h = state_hit h"

definition hit_ok :: "hit \<Rightarrow> bool" where
  "hit_ok h \<longleftrightarrow> 0 \<le> state_hit h \<and> state_hit h \<le> kv_hit h"

section \<open>The backend and the coordinator\<close>

record 'key slot_backend =
  b_reconcile :: "int list \<Rightarrow> hit res"
  b_reconcile_keyed :: "(int list \<Rightarrow> 'key \<Rightarrow> hit res) option"
  b_find_best :: "int list \<Rightarrow> int list \<Rightarrow> (int \<times> int) res"
  b_find_best_keyed :: "(int list \<Rightarrow> int list \<Rightarrow> 'key \<Rightarrow> (int \<times> int) res) option"
  b_per_slot :: "(int list \<Rightarrow> int \<Rightarrow> hit res) option"
  b_per_slot_keyed :: "(int list \<Rightarrow> int \<Rightarrow> 'key \<Rightarrow> hit res) option"
  b_cross_slot :: "(int list \<Rightarrow> hit res) option"

record 'key slot_manager =
  sm_backend :: "'key slot_backend"
  sm_two_families :: bool
  sm_block_size :: int

definition sm_init :: "'key slot_backend \<Rightarrow> bool \<Rightarrow> int \<Rightarrow> 'key slot_manager" where
  "sm_init b two block_size = \<lparr>sm_backend = b, sm_two_families = two, sm_block_size = max 1 block_size\<rparr>"

definition aligned :: "'key slot_manager \<Rightarrow> hit \<Rightarrow> hit res" where
  "aligned m h =
     (let block = sm_block_size m
      in if block \<le> 1 then Inr h
         else let state = (state_hit h div block) * block
              in if state = state_hit h then Inr h else mk_hit (kv_hit h) state)"

definition reconcile :: "'key slot_manager \<Rightarrow> int list \<Rightarrow> 'key option \<Rightarrow> hit res" where
  "reconcile m toks key =
     bind_res
       (case (key, b_reconcile_keyed (sm_backend m)) of
          (Some k, Some f) \<Rightarrow> f toks k
        | _ \<Rightarrow> b_reconcile (sm_backend m) toks)
       (\<lambda>h. if \<not> sm_two_families m then Inr h else aligned m h)"

text \<open>The tuple comparison \<^verbatim>\<open>(hit.effective, hit.kv_hit) > (best.effective, best.kv_hit)\<close>.\<close>

definition better :: "hit \<Rightarrow> hit \<Rightarrow> bool" where
  "better h b \<longleftrightarrow> effective h > effective b \<or> effective h = effective b \<and> kv_hit h > kv_hit b"

fun rank_slots :: "('slot \<Rightarrow> hit res) \<Rightarrow> 'slot list \<Rightarrow> 'slot \<Rightarrow> hit \<Rightarrow> ('slot \<times> hit) res" where
  "rank_slots f [] best_slot best = Inr (best_slot, best)"
| "rank_slots f (s # ss) best_slot best = (case f s of
     Inl e \<Rightarrow> Inl e
   | Inr h \<Rightarrow> if better h best then rank_slots f ss s h else rank_slots f ss best_slot best)"

text \<open>The per-slot query the second branch uses, \<open>None\<close> when the backend has none.\<close>

definition per_slot_query :: "'key slot_manager \<Rightarrow> int list \<Rightarrow> 'key option \<Rightarrow> (int \<Rightarrow> hit res) option" where
  "per_slot_query m toks key =
     (case (key, b_per_slot_keyed (sm_backend m)) of
        (Some k, Some f) \<Rightarrow> Some (\<lambda>s. bind_res (f toks s k) (aligned m))
      | _ \<Rightarrow> map_option (\<lambda>f s. bind_res (f toks s) (aligned m)) (b_per_slot (sm_backend m)))"

definition find_best_slot :: "'key slot_manager \<Rightarrow> int list \<Rightarrow> int list \<Rightarrow> 'key option \<Rightarrow> (int \<times> int) res" where
  "find_best_slot m toks free_slots key =
     (if \<not> sm_two_families m then
        (case (key, b_find_best_keyed (sm_backend m)) of
           (Some k, Some f) \<Rightarrow> f toks free_slots k
         | _ \<Rightarrow> b_find_best (sm_backend m) toks free_slots)
      else case per_slot_query m toks key of
        None \<Rightarrow> Inl (NotImplementedError ''prefix_hit_for_slot'')
      | Some q \<Rightarrow>
          (case free_slots of
             [] \<Rightarrow> Inl (ValueError ''find_best_slot_for_prompt requires at least one free slot'')
           | s0 # _ \<Rightarrow>
               bind_res (mk_hit 0 0) (\<lambda>zero.
               bind_res (rank_slots q free_slots s0 zero) (\<lambda>(best_slot, best).
               if effective best > 0 then Inr (best_slot, effective best)
               else case b_cross_slot (sm_backend m) of
                 None \<Rightarrow> Inr (best_slot, effective best)
               | Some cross \<Rightarrow> bind_res (bind_res (cross toks) (aligned m)) (\<lambda>remote.
                   if effective remote > 0 then Inr (s0, effective remote)
                   else Inr (best_slot, effective best))))))"

section \<open>Lemmas\<close>

lemma mk_hit_Inr: "mk_hit kv st = Inr h \<longleftrightarrow> hit_ok h \<and> h = \<lparr>kv_hit = kv, state_hit = st\<rparr>"
  by (auto simp: mk_hit_def hit_ok_def)

lemma aligned_total:
  assumes "hit_ok h"
  shows "\<exists>h'. aligned m h = Inr h' \<and> hit_ok h' \<and> kv_hit h' = kv_hit h \<and> state_hit h' \<le> state_hit h \<and>
    (1 < sm_block_size m \<longrightarrow> sm_block_size m dvd state_hit h' \<and> state_hit h - state_hit h' < sm_block_size m) \<and>
    (sm_block_size m \<le> 1 \<longrightarrow> h' = h)"
proof (cases "sm_block_size m \<le> 1")
  case True
  then show ?thesis using assms by (simp add: aligned_def)
next
  case False
  let ?b = "sm_block_size m" and ?s = "(state_hit h div sm_block_size m) * sm_block_size m"
  have s: "0 \<le> ?s" "?s \<le> state_hit h" "state_hit h - ?s < ?b"
    using assms False pos_mod_bound [of ?b "state_hit h"] pos_mod_sign [of ?b "state_hit h"]
      div_mult_mod_eq [of "state_hit h" ?b] by (auto simp: hit_ok_def pos_imp_zdiv_nonneg_iff, linarith+)
  have "aligned m h = (if ?s = state_hit h then Inr h else mk_hit (kv_hit h) ?s)"
    using False by (simp add: aligned_def Let_def)
  also have "\<dots> = Inr (h\<lparr>state_hit := ?s\<rparr>)"
    using s assms by (auto simp: mk_hit_def hit_ok_def)
  finally show ?thesis
    using s assms False by (auto simp: hit_ok_def)
qed

lemma better_trans: "better a b \<Longrightarrow> better b c \<Longrightarrow> better a c"
  by (auto simp: better_def)

lemma better_asym: "better a b \<Longrightarrow> \<not> better b a"
  by (auto simp: better_def)

lemma better_trans_le: "\<not> better h b \<Longrightarrow> better c b \<Longrightarrow> \<not> better h c"
  by (auto simp: better_def)

definition ranked :: "('slot \<Rightarrow> hit res) \<Rightarrow> 'slot list \<Rightarrow> 'slot \<Rightarrow> hit \<Rightarrow> 'slot \<Rightarrow> hit \<Rightarrow> bool" where
  "ranked f ss s0 b0 bs b \<longleftrightarrow> rank_slots f ss s0 b0 = Inr (bs, b) \<and>
    (bs = s0 \<and> b = b0 \<or> bs \<in> set ss \<and> f bs = Inr b \<and> better b b0) \<and> \<not> better b0 b \<and>
    (\<forall>s \<in> set ss. \<forall>h. f s = Inr h \<longrightarrow> \<not> better h b)"

lemma rankedD:
  assumes "ranked f ss s0 b0 bs b"
  shows "rank_slots f ss s0 b0 = Inr (bs, b)"
    and "bs = s0 \<and> b = b0 \<or> bs \<in> set ss \<and> f bs = Inr b \<and> better b b0"
    and "\<not> better b0 b" and "s \<in> set ss \<Longrightarrow> f s = Inr h \<Longrightarrow> \<not> better h b"
  using assms unfolding ranked_def by blast+

lemma not_better:
  assumes "\<not> better h b"
  shows "effective h \<le> effective b" and "effective h = effective b \<Longrightarrow> kv_hit h \<le> kv_hit b"
  using assms by (auto simp: better_def)

lemma rank_slots_spec:
  assumes "\<forall>s \<in> set ss. \<exists>h. f s = Inr h"
  shows "\<exists>bs b. ranked f ss s0 b0 bs b"
  using assms
proof (induction ss arbitrary: s0 b0)
  case Nil
  have "ranked f [] s0 b0 s0 b0" by (simp add: ranked_def better_def)
  then show ?case by blast
next
  case (Cons s ss)
  then obtain h where h: "f s = Inr h" by auto
  have prem: "\<forall>s \<in> set ss. \<exists>h. f s = Inr h" using Cons.prems by simp
  show ?case
  proof (cases "better h b0")
    case True
    obtain bs b where b: "ranked f ss s h bs b" using Cons.IH [OF prem] by blast
    note r = rankedD [OF b]
    have bb: "better b b0" using r(2) True better_trans [of b h b0] by blast
    have "bs \<in> set (s # ss)" "f bs = Inr b" using r(2) h by auto
    moreover have "\<forall>s' \<in> set (s # ss). \<forall>h'. f s' = Inr h' \<longrightarrow> \<not> better h' b"
      using r(3,4) h by auto
    ultimately have "ranked f (s # ss) s0 b0 bs b"
      using r(1) h True bb better_asym [OF bb] by (simp add: ranked_def)
    then show ?thesis by blast
  next
    case False
    obtain bs b where b: "ranked f ss s0 b0 bs b" using Cons.IH [OF prem] by blast
    note r = rankedD [OF b]
    have "\<not> better h b" using r(2) False better_trans [of h b b0] by blast
    then have "\<forall>s' \<in> set (s # ss). \<forall>h'. f s' = Inr h' \<longrightarrow> \<not> better h' b"
      using r(4) h by auto
    then have "ranked f (s # ss) s0 b0 bs b"
      using r(1-3) h False by (auto simp: ranked_def)
    then show ?thesis by blast
  qed
qed

section \<open>What the coordinator promises\<close>

text \<open>
  On a backend with two cache families \<^verbatim>\<open>reconcile_prefix_hit\<close> never raises on a constructible hit,
  keeps the KV depth, floors the recurrent depth to a block boundary losing less than one block,
  and still satisfies INV-A3-2; with one family it is the backend's own answer.
\<close>

theorem reconcile_floors_state:
  assumes "1 \<le> sm_block_size m" and "key = None \<or> b_reconcile_keyed (sm_backend m) = None"
    and "b_reconcile (sm_backend m) toks = Inr h" and "hit_ok h"
  shows "\<exists>h'. reconcile m toks key = Inr h' \<and> hit_ok h' \<and> kv_hit h' = kv_hit h \<and>
    check_prefix_hit_state_le_kv al slot (kv_hit h') (effective h') = Inr () \<and>
    (if sm_two_families m
     then sm_block_size m dvd effective h' \<and> effective h' \<le> effective h \<and> effective h - effective h' < sm_block_size m
     else h' = h)"
proof -
  have run: "reconcile m toks key = (if sm_two_families m then aligned m h else Inr h)"
    using assms(2,3) by (auto simp: reconcile_def bind_res_def split: option.splits)
  obtain h' where h': "aligned m h = Inr h'" "hit_ok h'" "kv_hit h' = kv_hit h" "state_hit h' \<le> state_hit h"
    "1 < sm_block_size m \<longrightarrow> sm_block_size m dvd state_hit h' \<and> state_hit h - state_hit h' < sm_block_size m"
    "sm_block_size m \<le> 1 \<longrightarrow> h' = h"
    using aligned_total [OF assms(4), of m] by blast
  have "sm_block_size m dvd state_hit h' \<and> state_hit h - state_hit h' < sm_block_size m"
  proof (cases "sm_block_size m = 1")
    case True
    then show ?thesis using h'(6) by simp
  next
    case False
    then show ?thesis using h'(5) assms(1) by simp
  qed
  then show ?thesis
    using run h' assms(4)
    by (cases "sm_two_families m")
      (auto simp: effective_def check_prefix_hit_state_le_kv_def check_def hit_ok_def)
qed

definition demo_slots :: "unit slot_backend" where
  "demo_slots = \<lparr>b_reconcile = (\<lambda>_. mk_hit 900 70), b_reconcile_keyed = None,
     b_find_best = (\<lambda>_ ss. Inr (hd ss, 0)), b_find_best_keyed = None,
     b_per_slot = Some (\<lambda>_ s. if s = 1 then mk_hit 900 0 else if s = 2 then mk_hit 64 48 else mk_hit 0 0),
     b_per_slot_keyed = None, b_cross_slot = None\<rparr>"

theorem reconcile_floors_state_witness:
  "\<exists>h'. reconcile (sm_init demo_slots True 32) [1, 2] None = Inr h' \<and> effective h' = 64"
proof -
  have "b_reconcile (sm_backend (sm_init demo_slots True 32)) [1, 2] = Inr \<lparr>kv_hit = 900, state_hit = 70\<rparr>"
    by (simp add: sm_init_def demo_slots_def mk_hit_def)
  from reconcile_floors_state [OF _ _ this, of None 2 0]
  show ?thesis by (auto simp: sm_init_def demo_slots_def hit_ok_def effective_def)
qed

text \<open>
  on a backend with two cache families whose per-slot query answers for every free slot,
  \<^verbatim>\<open>find_best_slot_for_prompt\<close> returns one of the free slots; no free slot has a deeper block-aligned
  recurrent hit than the depth returned, and unless the depth comes from the cross-slot copy the slot
  returned has exactly that depth and, among the slots of that depth, the deepest KV hit.
\<close>

theorem find_best_slot_is_best:
  assumes "sm_two_families m" and "per_slot_query m toks key = Some q" and "free_slots \<noteq> []"
    and "\<And>s. s \<in> set free_slots \<Longrightarrow> \<exists>h. q s = Inr h \<and> hit_ok h"
    and "\<And>cross. b_cross_slot (sm_backend m) = Some cross \<Longrightarrow> \<exists>h. cross toks = Inr h \<and> hit_ok h"
  shows "\<exists>s d. find_best_slot m toks free_slots key = Inr (s, d) \<and> s \<in> set free_slots \<and> 0 \<le> d \<and>
    (\<forall>s' \<in> set free_slots. \<forall>h. q s' = Inr h \<longrightarrow> effective h \<le> d) \<and>
    ((\<exists>h. q s = Inr h \<and> effective h = d \<and>
        (0 < d \<longrightarrow> (\<forall>s' \<in> set free_slots. \<forall>h'. q s' = Inr h' \<and> effective h' = d \<longrightarrow> kv_hit h' \<le> kv_hit h)))
     \<or> (\<exists>cross h. b_cross_slot (sm_backend m) = Some cross \<and> bind_res (cross toks) (aligned m) = Inr h \<and>
          effective h = d))"
proof -
  obtain s0 ss where fs: "free_slots = s0 # ss" using assms(3) by (cases free_slots) auto
  let ?zero = "\<lparr>kv_hit = 0, state_hit = 0\<rparr>"
  have "\<forall>s \<in> set free_slots. \<exists>h. q s = Inr h" using assms(4) by blast
  from rank_slots_spec [OF this, of s0 ?zero]
  obtain bs b where r: "ranked q free_slots s0 ?zero bs b" by (elim exE)
  note b = rankedD [OF r]
  have bs: "bs \<in> set free_slots" using b(2) fs by auto
  have dom: "effective h \<le> effective b" if "s \<in> set free_slots" "q s = Inr h" for s h
    using not_better(1) [OF b(4) [OF that]] .
  have kv: "kv_hit h \<le> kv_hit b" if "s \<in> set free_slots" "q s = Inr h" "effective h = effective b" for s h
    using not_better(2) [OF b(4) [OF that(1,2)] that(3)] .
  have eb: "0 \<le> effective b" using b(2) by (auto simp: better_def effective_def)
  obtain hb where hb: "q bs = Inr hb" "hit_ok hb" using assms(4) [OF bs] by blast
  have own: "effective hb = effective b"
  proof (rule antisym)
    show "effective hb \<le> effective b" using dom [OF bs hb(1)] .
    show "effective b \<le> effective hb"
      using b(2) hb by (auto simp: effective_def hit_ok_def)
  qed
  have zero: "mk_hit 0 0 = Inr ?zero" by (simp add: mk_hit_def)
  show ?thesis
  proof (cases "0 < effective b")
    case True
    then have "b = hb" using b(2) hb(1) by (auto simp: effective_def)
    moreover have "find_best_slot m toks free_slots key = Inr (bs, effective b)"
      using assms(1,2) b(1) True zero by (simp add: find_best_slot_def fs bind_res_def)
    ultimately show ?thesis using bs dom kv hb eb by blast
  next
    case False
    then have z: "effective b = 0" using eb by simp
    show ?thesis
    proof (cases "b_cross_slot (sm_backend m)")
      case None
      then have "find_best_slot m toks free_slots key = Inr (bs, effective b)"
        using assms(1,2) b(1) False zero by (simp add: find_best_slot_def fs bind_res_def)
      then show ?thesis using bs dom hb own z by auto
    next
      case (Some cross)
      obtain h where h: "cross toks = Inr h" "hit_ok h" using assms(5) [OF Some] by blast
      obtain h' where h': "aligned m h = Inr h'" "hit_ok h'" using aligned_total [OF h(2)] by blast
      have al: "bind_res (cross toks) (aligned m) = Inr h'" using h h' by (simp add: bind_res_def)
      have run: "find_best_slot m toks free_slots key =
          (if effective h' > 0 then Inr (s0, effective h') else Inr (bs, effective b))"
        using assms(1,2) b(1) False zero Some al by (simp add: find_best_slot_def fs bind_res_def)
      show ?thesis
      proof (cases "effective h' > 0")
        case True
        then show ?thesis
          using run fs al Some dom z by (intro exI [of _ s0] exI [of _ "effective h'"]) fastforce
      next
        case False
        then show ?thesis using run bs dom hb own z by auto
      qed
    qed
  qed
qed

theorem find_best_slot_is_best_witness:
  "find_best_slot (sm_init demo_slots True 32) [1, 2] [0, 1, 2] None = Inr (2, 32) \<and>
   (\<exists>s d. find_best_slot (sm_init demo_slots True 32) [1, 2] [0, 1, 2] None = Inr (s, d) \<and> 0 \<le> d)"
proof
  show "find_best_slot (sm_init demo_slots True 32) [1, 2] [0, 1, 2] None = Inr (2, 32)"
    by code_simp
  let ?q = "\<lambda>s. bind_res (if s = 1 then mk_hit 900 0 else if s = 2 then mk_hit 64 48 else mk_hit 0 0)
      (aligned (sm_init demo_slots True 32))"
  have q: "per_slot_query (sm_init demo_slots True 32) [1, 2] None = Some ?q"
    by (simp add: per_slot_query_def sm_init_def demo_slots_def)
  have "\<exists>h. ?q s = Inr h \<and> hit_ok h" if "s \<in> set [0, 1, 2]" for s
    using that by (auto simp: bind_res_def mk_hit_def aligned_def sm_init_def hit_ok_def)
  then show "\<exists>s d. find_best_slot (sm_init demo_slots True 32) [1, 2] [0, 1, 2] None = Inr (s, d) \<and> 0 \<le> d"
    using find_best_slot_is_best [OF _ q, of "[0, 1, 2]"]
    by (fastforce simp: sm_init_def demo_slots_def)
qed

end
