(* ===== verification/Byte_Strings.thy ===== *)
theory Byte_Strings
  imports Prelude "HOL-Library.Sublist"
begin

text \<open>
  Byte strings as Python's \<^verbatim>\<open>bytes\<close>: lists of natural numbers below 256.  Integers packed at a fixed
  width (\<^verbatim>\<open>int.to_bytes\<close>, \<^verbatim>\<open>array("Q")\<close>, \<^verbatim>\<open>struct\<close>) and read back, and the UTF-8 decoder with
  \<^verbatim>\<open>errors="replace"\<close>.
\<close>

section \<open>Packed integers\<close>

primrec be_bytes :: "nat \<Rightarrow> int \<Rightarrow> nat list" where
  "be_bytes 0 h = []"
| "be_bytes (Suc k) h = be_bytes k (h div 256) @ [nat (h mod 256)]"

primrec le_bytes :: "nat \<Rightarrow> int \<Rightarrow> nat list" where
  "le_bytes 0 h = []"
| "le_bytes (Suc k) h = nat (h mod 256) # le_bytes k (h div 256)"

lemma length_be_bytes [simp]: "length (be_bytes k h) = k"
  by (induction k arbitrary: h) auto

lemma length_le_bytes [simp]: "length (le_bytes k h) = k"
  by (induction k arbitrary: h) auto

lemma nat_mod_eq: "nat (a mod 256) = nat (b mod 256) \<longleftrightarrow> a mod 256 = b mod (256 :: int)"
  by (metis eq_nat_nat_iff pos_mod_sign zero_less_numeral)

lemma div_mod_eqI: "a div 256 = b div 256 \<Longrightarrow> a mod 256 = b mod 256 \<Longrightarrow> a = (b :: int)"
  by (metis div_mult_mod_eq)

lemma be_bytes_inj:
  "0 \<le> a \<Longrightarrow> a < 256 ^ k \<Longrightarrow> 0 \<le> b \<Longrightarrow> b < 256 ^ k \<Longrightarrow> be_bytes k a = be_bytes k b \<Longrightarrow> a = b"
proof (induction k arbitrary: a b)
  case (Suc k)
  have "a div 256 < 256 ^ k" "b div 256 < 256 ^ k" using Suc.prems by auto
  then have "a div 256 = b div 256"
    using Suc.prems by (intro Suc.IH) (auto simp: pos_imp_zdiv_nonneg_iff)
  moreover have "a mod 256 = b mod 256" using Suc.prems(5) by (simp add: nat_mod_eq)
  ultimately show ?case by (rule div_mod_eqI)
qed simp

lemma le_bytes_inj:
  "0 \<le> a \<Longrightarrow> a < 256 ^ k \<Longrightarrow> 0 \<le> b \<Longrightarrow> b < 256 ^ k \<Longrightarrow> le_bytes k a = le_bytes k b \<Longrightarrow> a = b"
proof (induction k arbitrary: a b)
  case (Suc k)
  have "a div 256 < 256 ^ k" "b div 256 < 256 ^ k" using Suc.prems by auto
  then have "a div 256 = b div 256"
    using Suc.prems by (intro Suc.IH) (auto simp: pos_imp_zdiv_nonneg_iff)
  moreover have "a mod 256 = b mod 256" using Suc.prems(5) by (simp add: nat_mod_eq)
  ultimately show ?case by (rule div_mod_eqI)
qed simp

text \<open>Reading little-endian bytes: \<^verbatim>\<open>struct.unpack\<close> of an unsigned and of a signed integer.\<close>

primrec le_value :: "nat list \<Rightarrow> int" where
  "le_value [] = 0"
| "le_value (b # bs) = int b + 256 * le_value bs"

definition signed_value :: "nat list \<Rightarrow> int" where
  "signed_value bs =
     (if 2 * le_value bs < 256 ^ length bs then le_value bs else le_value bs - 256 ^ length bs)"

definition is_bytes :: "nat list \<Rightarrow> bool" where
  "is_bytes bs \<longleftrightarrow> (\<forall>b \<in> set bs. b < 256)"

lemma is_bytes_simps [simp]:
  "is_bytes []" "is_bytes (b # bs) \<longleftrightarrow> b < 256 \<and> is_bytes bs"
  "is_bytes (xs @ ys) \<longleftrightarrow> is_bytes xs \<and> is_bytes ys"
  by (auto simp: is_bytes_def)

lemma is_bytes_take_drop: "is_bytes bs \<Longrightarrow> is_bytes (take n (drop m bs))"
  by (auto simp: is_bytes_def dest: in_set_takeD in_set_dropD)

lemma le_bytes_are_bytes [simp]: "is_bytes (le_bytes k h)"
  by (induction k arbitrary: h) (auto simp: nat_less_iff)

lemma le_value_nonneg [simp]: "0 \<le> le_value bs"
  by (induction bs) auto

lemma le_value_bound: "is_bytes bs \<Longrightarrow> le_value bs < 256 ^ length bs"
proof (induction bs)
  case (Cons b bs)
  then have "le_value bs + 1 \<le> 256 ^ length bs" "int b < 256" by auto
  then show ?case by simp
qed simp

lemma le_value_le_bytes: "le_value (le_bytes k h) = h mod 256 ^ k"
proof (induction k arbitrary: h)
  case (Suc k)
  have "h mod (256 * 256 ^ k) = 256 * (h div 256 mod 256 ^ k) + h mod 256"
    by (rule zmod_zmult2_eq) simp
  then show ?case using Suc by simp
qed simp

lemma le_value_of_unsigned: "0 \<le> h \<Longrightarrow> h < 256 ^ k \<Longrightarrow> le_value (le_bytes k h) = h"
  by (simp add: le_value_le_bytes)

lemma signed_value_le_bytes:
  assumes "- (256 ^ k) \<le> 2 * h" and "2 * h < 256 ^ k"
  shows "signed_value (le_bytes k h) = h"
proof (cases "0 \<le> h")
  case True
  then have "h < 256 ^ k" using assms by simp
  then show ?thesis using True assms by (simp add: signed_value_def le_value_le_bytes)
next
  case False
  have "h mod 256 ^ k = (h + 256 ^ k) mod 256 ^ k" by simp
  also have "\<dots> = h + 256 ^ k" using False assms by (intro mod_pos_pos_trivial) simp_all
  finally show ?thesis using False assms by (simp add: signed_value_def le_value_le_bytes)
qed

section \<open>UTF-8\<close>

text \<open>
  \<^verbatim>\<open>bytes.decode("utf-8", "replace")\<close>: the lead byte fixes the number of continuation bytes, the
  range of the first one and the bits it contributes.  A lead byte with those of its continuation
  bytes that fit, when the sequence is broken off, becomes one replacement character.
\<close>

definition utf8_lead :: "nat \<Rightarrow> (nat \<times> nat \<times> nat \<times> nat) option" where
  "utf8_lead b =
     (if b < 128 then Some (0, 128, 191, b)
      else if b < 194 then None
      else if b < 224 then Some (1, 128, 191, b - 192)
      else if b = 224 then Some (2, 160, 191, 0)
      else if b = 237 then Some (2, 128, 159, 13)
      else if b < 240 then Some (2, 128, 191, b - 224)
      else if b = 240 then Some (3, 144, 191, 0)
      else if b < 244 then Some (3, 128, 191, b - 240)
      else if b = 244 then Some (3, 128, 143, 4)
      else None)"

fun utf8_tail :: "nat \<Rightarrow> nat \<Rightarrow> nat \<Rightarrow> nat \<Rightarrow> nat list \<Rightarrow> nat option \<times> nat" where
  "utf8_tail 0 lo hi acc bs = (Some acc, 0)"
| "utf8_tail (Suc n) lo hi acc [] = (None, 0)"
| "utf8_tail (Suc n) lo hi acc (b # bs) =
     (if lo \<le> b \<and> b \<le> hi
      then (case utf8_tail n 128 191 (acc * 64 + (b - 128)) bs of (r, k) \<Rightarrow> (r, Suc k))
      else (None, 0))"

definition utf8_char :: "nat \<Rightarrow> nat list \<Rightarrow> nat option \<times> nat" where
  "utf8_char b bs = (case utf8_lead b of None \<Rightarrow> (None, 0) | Some (n, lo, hi, acc) \<Rightarrow> utf8_tail n lo hi acc bs)"

function utf8_decode :: "nat list \<Rightarrow> nat list" where
  "utf8_decode [] = []"
| "utf8_decode (b # bs) =
     (case utf8_char b bs of (r, k) \<Rightarrow> (case r of Some c \<Rightarrow> c | None \<Rightarrow> 65533) # utf8_decode (drop k bs))"
  by pat_completeness auto
termination by (relation "measure length") auto

text \<open>The encoder, and the characters it is defined for.\<close>

definition utf8_encode_char :: "nat \<Rightarrow> nat list" where
  "utf8_encode_char c =
     (if c < 128 then [c]
      else if c < 2048 then [192 + c div 64, 128 + c mod 64]
      else if c < 65536 then [224 + c div 4096, 128 + c div 64 mod 64, 128 + c mod 64]
      else [240 + c div 262144, 128 + c div 4096 mod 64, 128 + c div 64 mod 64, 128 + c mod 64])"

definition utf8_encode :: "nat list \<Rightarrow> nat list" where
  "utf8_encode cs = concat (map utf8_encode_char cs)"

definition is_scalar :: "nat \<Rightarrow> bool" where
  "is_scalar c \<longleftrightarrow> c < 55296 \<or> (57343 < c \<and> c < 1114112)"

lemma utf8_tail_fits:
  "0 < n \<Longrightarrow> lo \<le> b \<Longrightarrow> b \<le> hi \<Longrightarrow>
     utf8_tail n lo hi acc (b # bs) = (case utf8_tail (n - 1) 128 191 (acc * 64 + (b - 128)) bs of (r, k) \<Rightarrow> (r, Suc k))"
  by (cases n) simp_all

lemma utf8_two:
  assumes "128 \<le> c" "c < 2048"
  shows "utf8_char (192 + c div 64) ((128 + c mod 64) # rest) = (Some c, 1)"
proof -
  have "2 \<le> c div 64" "c div 64 < 32" using assms by (simp_all add: less_mult_imp_div_less less_eq_div_iff_mult_less_eq)
  then have l: "utf8_lead (192 + c div 64) = Some (1, 128, 191, c div 64)" by (simp add: utf8_lead_def)
  have m: "c mod 64 < 64" by simp
  show ?thesis using m by (simp add: utf8_char_def l utf8_tail_fits)
qed

lemma digits3: "c div 4096 * 64 + c div 64 mod 64 = c div (64 :: nat)"
  using div_mult_mod_eq [of "c div 64" 64] by (simp add: div_mult2_eq [symmetric])

lemma utf8_three_ranges:
  fixes h m l c :: nat
  assumes "c = (h * 64 + m) * 64 + l" and "m < 64" and "l < 64" and "is_scalar c"
  shows "h = 0 \<Longrightarrow> 2048 \<le> c \<Longrightarrow> 32 \<le> m" and "h = 13 \<Longrightarrow> m < 32"
proof -
  show "32 \<le> m" if "h = 0" "2048 \<le> c" using assms(1,3) that by simp
  show "m < 32" if "h = 13" using assms that unfolding is_scalar_def by (simp; linarith)
qed

lemma utf8_four_ranges:
  fixes h i m l c :: nat
  assumes "c = ((h * 64 + i) * 64 + m) * 64 + l" and "m < 64" and "l < 64" and "is_scalar c"
    and "65536 \<le> c"
  shows "h < 5" and "h = 0 \<Longrightarrow> 16 \<le> i" and "h = 4 \<Longrightarrow> i < 16"
proof -
  have "c < 1114112" using assms(4) by (auto simp: is_scalar_def)
  then show "h < 5" using assms(1) by simp
  show "16 \<le> i" if "h = 0" using assms that by simp
  show "i < 16" if "h = 4" using assms that unfolding is_scalar_def by simp
qed

lemma utf8_char_three:
  assumes "h < 16" "m < 64" "l < 64" and "h = 0 \<Longrightarrow> 32 \<le> m" and "h = 13 \<Longrightarrow> m < 32"
  shows "utf8_char (224 + h) ((128 + m) # (128 + l) # rest) = (Some ((h * 64 + m) * 64 + l), 2)"
proof -
  have l: "utf8_lead (224 + h) = Some (2, (if h = 0 then 160 else 128), (if h = 13 then 159 else 191), h)"
    using assms(1) by (simp add: utf8_lead_def)
  show ?thesis using assms by (cases "h = 0"; cases "h = 13") (simp_all add: utf8_char_def l utf8_lead_def utf8_tail_fits)
qed

lemma utf8_char_four:
  assumes "h < 5" "i < 64" "m < 64" "l < 64" and "h = 0 \<Longrightarrow> 16 \<le> i" and "h = 4 \<Longrightarrow> i < 16"
  shows "utf8_char (240 + h) ((128 + i) # (128 + m) # (128 + l) # rest) =
    (Some (((h * 64 + i) * 64 + m) * 64 + l), 3)"
proof -
  have l: "utf8_lead (240 + h) = Some (3, (if h = 0 then 144 else 128), (if h = 4 then 143 else 191), h)"
    using assms(1) by (simp add: utf8_lead_def)
  show ?thesis using assms by (cases "h = 0"; cases "h = 4") (simp_all add: utf8_char_def l utf8_lead_def utf8_tail_fits)
qed

lemma utf8_three:
  assumes "2048 \<le> c" "c < 65536" and "is_scalar c"
  shows "utf8_char (224 + c div 4096) ((128 + c div 64 mod 64) # (128 + c mod 64) # rest) = (Some c, 2)"
proof -
  have c: "c = (c div 4096 * 64 + c div 64 mod 64) * 64 + c mod 64" unfolding digits3 by simp
  have b: "c div 64 mod 64 < 64" "c mod 64 < 64" "c div 4096 < 16"
    using assms by (simp_all add: less_mult_imp_div_less)
  note r = utf8_three_ranges [OF c b(1,2) assms(3)]
  show ?thesis
    using utf8_char_three [OF b(3,1,2) r(1) r(2)] assms(1) by (simp only: c [symmetric])
qed

lemma utf8_four:
  assumes "65536 \<le> c" and "is_scalar c"
  shows "utf8_char (240 + c div 262144)
    ((128 + c div 4096 mod 64) # (128 + c div 64 mod 64) # (128 + c mod 64) # rest) = (Some c, 3)"
proof -
  have "c div 262144 * 64 + c div 4096 mod 64 = c div 4096"
    using div_mult_mod_eq [of "c div 4096" 64] by (simp add: div_mult2_eq [symmetric])
  then have c: "c = ((c div 262144 * 64 + c div 4096 mod 64) * 64 + c div 64 mod 64) * 64 + c mod 64"
    using digits3 [of c] by simp
  have b: "c div 4096 mod 64 < 64" "c div 64 mod 64 < 64" "c mod 64 < 64" by simp_all
  note r = utf8_four_ranges [OF c b(2,3) assms(2,1)]
  show ?thesis
    using utf8_char_four [OF r(1) b r(2) r(3)] by (simp only: c [symmetric])
qed

lemma utf8_char_encode:
  assumes "is_scalar c"
  obtains b bs where "utf8_encode_char c = b # bs" "\<And>rest. utf8_char b (bs @ rest) = (Some c, length bs)"
proof -
  have "utf8_char c rest = (Some c, 0)" if "c < 128" for rest
    using that by (simp add: utf8_char_def utf8_lead_def)
  then show thesis
    using that utf8_two [of c] utf8_three [OF _ _ assms] utf8_four [OF _ assms]
    by (cases "c < 128"; cases "c < 2048"; cases "c < 65536") (simp_all add: utf8_encode_char_def)
qed

lemma utf8_roundtrip: "\<forall>c \<in> set cs. is_scalar c \<Longrightarrow> utf8_decode (utf8_encode cs) = cs"
proof (induction cs)
  case Nil
  then show ?case by (simp add: utf8_encode_def)
next
  case (Cons c cs)
  obtain b bs where b: "utf8_encode_char c = b # bs" "\<And>rest. utf8_char b (bs @ rest) = (Some c, length bs)"
    using utf8_char_encode [of c] Cons.prems by auto
  then have "utf8_encode (c # cs) = b # bs @ utf8_encode cs" by (simp add: utf8_encode_def)
  then show ?case using Cons b(2) by simp
qed

lemma utf8_encode_char_bytes: "is_scalar c \<Longrightarrow> is_bytes (utf8_encode_char c)"
  unfolding is_scalar_def utf8_encode_char_def by (auto simp: less_mult_imp_div_less)

lemma utf8_encode_bytes: "\<forall>c \<in> set cs. is_scalar c \<Longrightarrow> is_bytes (utf8_encode cs)"
  by (induction cs) (simp_all add: utf8_encode_def utf8_encode_char_bytes)

end
