(* ===== verification/Prefix_Hash.thy ===== *)
theory Prefix_Hash
  imports Block_Pool Slot_Resources Byte_Strings
begin

text \<open>
  Content addressing of attention-KV blocks: the chained block hash of
  \<^verbatim>\<open>runtime/block_pool.py\<close> (\<^verbatim>\<open>hash_block_tokens\<close>) and its use in
  \<^verbatim>\<open>oracle/qwen36_vllm/prefix_cache.py\<close> to publish committed blocks and to match a prompt.
  \<^verbatim>\<open>hashlib.blake2b\<close> with a 16-byte digest is the parameter \<open>digest\<close> from byte strings to the
  big-endian value of the digest; a byte is a natural number below 256.
\<close>

section \<open>Bytes\<close>

definition to_bytes :: "int \<Rightarrow> nat list res" where
  "to_bytes h = (if 0 \<le> h \<and> h < 2 ^ 128 then Inr (be_bytes 16 h)
     else Inl (OverflowError ''int too big to convert''))"

fun array_Q :: "int list \<Rightarrow> nat list res" where
  "array_Q [] = Inr []"
| "array_Q (t # ts) =
     (if 0 \<le> t \<and> t < 2 ^ 64 then bind_res (array_Q ts) (\<lambda>bs. Inr (le_bytes 8 t @ bs))
      else Inl (OverflowError ''unsigned int is out of range''))"

lemma to_bytes_inj: "to_bytes a = Inr bs \<Longrightarrow> to_bytes b = Inr bs \<Longrightarrow> a = b"
  by (rule be_bytes_inj [where k = 16]) (auto simp: to_bytes_def split: if_splits)

lemma to_bytes_length: "to_bytes a = Inr bs \<Longrightarrow> length bs = 16"
  by (auto simp: to_bytes_def split: if_splits)

lemma array_Q_length: "array_Q ts = Inr bs \<Longrightarrow> length bs = 8 * length ts"
  by (induction ts arbitrary: bs) (auto simp: bind_res_def split: if_splits sum.splits)

lemma array_Q_inj: "array_Q ts = Inr bs \<Longrightarrow> array_Q us = Inr bs \<Longrightarrow> ts = us"
proof (induction ts arbitrary: us bs)
  case Nil
  then show ?case using array_Q_length [of us bs] by simp
next
  case (Cons t ts)
  have "length us = length (t # ts)"
    using array_Q_length [OF Cons.prems(1)] array_Q_length [OF Cons.prems(2)] by simp
  then obtain u us' where us: "us = u # us'" by (cases us) auto
  obtain b1 where b1: "0 \<le> t" "t < 2 ^ 64" "array_Q ts = Inr b1" "bs = le_bytes 8 t @ b1"
    using Cons.prems(1) by (auto simp: bind_res_def split: if_splits sum.splits)
  obtain b2 where b2: "0 \<le> u" "u < 2 ^ 64" "array_Q us' = Inr b2" "bs = le_bytes 8 u @ b2"
    using Cons.prems(2) by (auto simp: us bind_res_def split: if_splits sum.splits)
  have "le_bytes 8 t = le_bytes 8 u" "b1 = b2" using b1(4) b2(4) by simp_all
  then have "t = u" using b1 b2 by (intro le_bytes_inj [of t 8 u]) simp_all
  moreover have "ts = us'" using Cons.IH [OF b1(3), of us'] b2(3) \<open>b1 = b2\<close> by simp
  ultimately show ?case by (simp add: us)
qed

section \<open>The chained hash\<close>

text \<open>The bytes fed to the hasher; \<open>extra\<close> are those of \<^verbatim>\<open>repr(extra_keys)\<close>, none for an empty tuple.\<close>

definition block_message :: "int \<Rightarrow> int option \<Rightarrow> int list \<Rightarrow> nat list \<Rightarrow> nat list res" where
  "block_message none_hash parent toks extra =
     bind_res (to_bytes (case parent of None \<Rightarrow> none_hash | Some h \<Rightarrow> if h = 0 then none_hash else h)) (\<lambda>pb.
     bind_res (array_Q toks) (\<lambda>tb. Inr (pb @ tb @ extra)))"

definition hash_block_tokens ::
  "(nat list \<Rightarrow> int) \<Rightarrow> int \<Rightarrow> int option \<Rightarrow> int list \<Rightarrow> nat list \<Rightarrow> int res" where
  "hash_block_tokens digest none_hash parent toks extra =
     bind_res (block_message none_hash parent toks extra) (\<lambda>m. Inr (digest m))"

text \<open>\<^verbatim>\<open>token_ids[i * block_size : (i + 1) * block_size]\<close>\<close>

definition block_tokens :: "nat \<Rightarrow> int list \<Rightarrow> nat \<Rightarrow> int list" where
  "block_tokens bs toks i = take bs (drop (i * bs) toks)"

text \<open>The loop over block indices with the parent carried along.\<close>

primrec hash_chain ::
  "(nat list \<Rightarrow> int) \<Rightarrow> int \<Rightarrow> nat \<Rightarrow> nat list \<Rightarrow> int list \<Rightarrow> nat \<Rightarrow> nat \<Rightarrow> int option \<Rightarrow> block_hash list res" where
  "hash_chain digest none_hash bs extra toks 0 i parent = Inr []"
| "hash_chain digest none_hash bs extra toks (Suc n) i parent =
     bind_res (hash_block_tokens digest none_hash parent (block_tokens bs toks i) extra) (\<lambda>h.
     bind_res (hash_chain digest none_hash bs extra toks n (i + 1) (Some h)) (\<lambda>hs.
     Inr (\<lparr>bh_value = h, bh_num_tokens = int ((i + 1) * bs)\<rparr> # hs)))"

definition compute_prompt_block_hashes ::
  "(nat list \<Rightarrow> int) \<Rightarrow> int \<Rightarrow> nat \<Rightarrow> nat list \<Rightarrow> int list \<Rightarrow> int \<Rightarrow> block_hash list res" where
  "compute_prompt_block_hashes digest none_hash bs extra toks max_tokens =
     hash_chain digest none_hash bs extra toks (if max_tokens > 0 then nat max_tokens div bs else 0) 0 None"

subsection \<open>A hash stands for a whole prefix\<close>

text \<open>The messages a chain hashes, and the absence of collisions among them.\<close>

primrec chain_messages ::
  "(nat list \<Rightarrow> int) \<Rightarrow> int \<Rightarrow> nat \<Rightarrow> nat list \<Rightarrow> int list \<Rightarrow> nat \<Rightarrow> nat \<Rightarrow> int option \<Rightarrow> nat list list" where
  "chain_messages digest none_hash bs extra toks 0 i parent = []"
| "chain_messages digest none_hash bs extra toks (Suc n) i parent =
     (case block_message none_hash parent (block_tokens bs toks i) extra of
        Inl e \<Rightarrow> []
      | Inr m \<Rightarrow> m # chain_messages digest none_hash bs extra toks n (i + 1) (Some (digest m)))"

definition collision_free :: "(nat list \<Rightarrow> int) \<Rightarrow> int \<Rightarrow> nat list set \<Rightarrow> bool" where
  "collision_free digest none_hash M \<longleftrightarrow>
     inj_on digest M \<and> (\<forall>m \<in> M. digest m \<noteq> 0 \<and> digest m \<noteq> none_hash)"

text \<open>The parent of block \<open>i\<close> and the message of block \<open>i\<close> of a successful chain.\<close>

definition parent_at :: "block_hash list \<Rightarrow> int option \<Rightarrow> nat \<Rightarrow> int option" where
  "parent_at hs parent i = (if i = 0 then parent else Some (bh_value (hs ! (i - 1))))"

lemma hash_chain_nth:
  assumes "hash_chain digest none_hash bs extra toks n i0 parent = Inr hs"
  shows "length hs = n \<and> length (chain_messages digest none_hash bs extra toks n i0 parent) = n \<and>
    (\<forall>i < n. block_message none_hash (parent_at hs parent i) (block_tokens bs toks (i0 + i)) extra =
        Inr (chain_messages digest none_hash bs extra toks n i0 parent ! i) \<and>
      bh_value (hs ! i) = digest (chain_messages digest none_hash bs extra toks n i0 parent ! i) \<and>
      bh_num_tokens (hs ! i) = int ((i0 + i + 1) * bs))"
  using assms
proof (induction n arbitrary: i0 parent hs)
  case 0
  then show ?case by simp
next
  case (Suc n)
  obtain m hs' where m: "block_message none_hash parent (block_tokens bs toks i0) extra = Inr m"
    and hs': "hash_chain digest none_hash bs extra toks n (i0 + 1) (Some (digest m)) = Inr hs'"
    and hs: "hs = \<lparr>bh_value = digest m, bh_num_tokens = int ((i0 + 1) * bs)\<rparr> # hs'"
    using Suc.prems by (auto simp: bind_Inr hash_block_tokens_def)
  note ih = Suc.IH [OF hs']
  have "block_message none_hash (parent_at hs parent i) (block_tokens bs toks (i0 + i)) extra =
        Inr (chain_messages digest none_hash bs extra toks (Suc n) i0 parent ! i) \<and>
      bh_value (hs ! i) = digest (chain_messages digest none_hash bs extra toks (Suc n) i0 parent ! i) \<and>
      bh_num_tokens (hs ! i) = int ((i0 + i + 1) * bs)" if "i < Suc n" for i
  proof (cases i)
    case 0
    then show ?thesis using m by (simp add: hs parent_at_def)
  next
    case (Suc j)
    have par: "parent_at hs parent i = parent_at hs' (Some (digest m)) j"
      using Suc by (cases j) (simp_all add: parent_at_def hs)
    show ?thesis
      using ih that Suc m unfolding par by (simp add: hs)
  qed
  then show ?case using ih m by (simp add: hs)
qed

lemma block_message_inj:
  assumes "block_message n1 p1 t1 e1 = Inr m" and "block_message n1 p2 t2 e2 = Inr m"
    and "length t1 = length t2"
  shows "(case p1 of None \<Rightarrow> n1 | Some h \<Rightarrow> if h = 0 then n1 else h) =
      (case p2 of None \<Rightarrow> n1 | Some h \<Rightarrow> if h = 0 then n1 else h)"
    and "t1 = t2" and "e1 = e2"
proof -
  let ?p1 = "case p1 of None \<Rightarrow> n1 | Some h \<Rightarrow> if h = 0 then n1 else h"
  let ?p2 = "case p2 of None \<Rightarrow> n1 | Some h \<Rightarrow> if h = 0 then n1 else h"
  obtain a1 b1 where 1: "to_bytes ?p1 = Inr a1" "array_Q t1 = Inr b1" "m = a1 @ b1 @ e1"
    using assms(1) by (auto simp: block_message_def bind_Inr)
  obtain a2 b2 where 2: "to_bytes ?p2 = Inr a2" "array_Q t2 = Inr b2" "m = a2 @ b2 @ e2"
    using assms(2) by (auto simp: block_message_def bind_Inr)
  have "length a1 = length a2" "length b1 = length b2"
    using to_bytes_length [OF 1(1)] to_bytes_length [OF 2(1)]
      array_Q_length [OF 1(2)] array_Q_length [OF 2(2)] assms(3) by simp_all
  then have eq: "a1 = a2" "b1 = b2" "e1 = e2" using 1(3) 2(3) by (auto simp: append_eq_append_conv)
  show "?p1 = ?p2" using 1(1) 2(1) eq(1) by (intro to_bytes_inj) simp_all
  show "t1 = t2" using 1(2) 2(2) eq(2) by (intro array_Q_inj) simp_all
  show "e1 = e2" by fact
qed

lemma block_tokens_length:
  assumes "i < n" and "n * bs \<le> length toks"
  shows "length (block_tokens bs toks i) = bs"
proof -
  have "Suc i * bs \<le> n * bs" using assms(1) by (intro mult_le_mono1) simp
  then have "i * bs + bs \<le> length toks" using assms(2) by simp
  then show ?thesis by (simp add: block_tokens_def)
qed

lemma take_blocks_Suc: "take (i * bs + bs) toks = take (i * bs) toks @ block_tokens bs toks i"
  by (simp add: block_tokens_def take_add)


text \<open>
  C21: equal block hashes mean equal prefixes.  If the digest has no collision among the messages
  hashed for two prompts (and hits neither zero nor the seed), then a block of one prompt and a
  block of the other with the same hash value sit at the same depth, all tokens up to the end of
  that block agree, and so do the extra keys: prompts cached under different KV formats never share.
\<close>

theorem equal_hash_equal_prefix:
  assumes "hash_chain digest none_hash bs e1 t1 n1 0 None = Inr hs1"
    and "hash_chain digest none_hash bs e2 t2 n2 0 None = Inr hs2"
    and "n1 * bs \<le> length t1" and "n2 * bs \<le> length t2"
    and "collision_free digest none_hash
      (set (chain_messages digest none_hash bs e1 t1 n1 0 None) \<union>
       set (chain_messages digest none_hash bs e2 t2 n2 0 None))"
    and "i < n1" and "j < n2" and "bh_value (hs1 ! i) = bh_value (hs2 ! j)"
  shows "i = j \<and> take ((i + 1) * bs) t1 = take ((i + 1) * bs) t2 \<and> e1 = e2"
  using assms(6-8)
proof (induction i arbitrary: j)
  case (0 j)
  note A = hash_chain_nth [OF assms(1)] and B = hash_chain_nth [OF assms(2)]
  let ?m1 = "chain_messages digest none_hash bs e1 t1 n1 0 None" and ?m2 = "chain_messages digest none_hash bs e2 t2 n2 0 None"
  have mem: "?m1 ! 0 \<in> set ?m1" "?m2 ! j \<in> set ?m2" using A B 0 by simp_all
  have "digest (?m1 ! 0) = digest (?m2 ! j)" using A B 0 by simp
  then have eq: "?m1 ! 0 = ?m2 ! j" using assms(5) mem by (auto simp: collision_free_def inj_on_def)
  have len: "length (block_tokens bs t1 0) = length (block_tokens bs t2 j)"
    using block_tokens_length [OF 0(1) assms(3)] block_tokens_length [OF 0(2) assms(4)] by simp
  have bm: "block_message none_hash None (block_tokens bs t1 0) e1 = Inr (?m1 ! 0)"
    "block_message none_hash (parent_at hs2 None j) (block_tokens bs t2 j) e2 = Inr (?m1 ! 0)"
    using A B 0 eq by (auto simp: parent_at_def)
  note inj = block_message_inj [OF bm len]
  have "j = 0"
  proof (rule ccontr)
    assume "j \<noteq> 0"
    then have "parent_at hs2 None j = Some (digest (?m2 ! (j - 1)))" using B 0 by (simp add: parent_at_def)
    moreover have "?m2 ! (j - 1) \<in> set ?m2" using B 0 \<open>j \<noteq> 0\<close> by simp
    then have "digest (?m2 ! (j - 1)) \<noteq> 0 \<and> digest (?m2 ! (j - 1)) \<noteq> none_hash"
      using assms(5) unfolding collision_free_def by blast
    ultimately show False using inj(1) by simp
  qed
  with inj show ?case by (simp add: block_tokens_def)
next
  case (Suc i j)
  note A = hash_chain_nth [OF assms(1)] and B = hash_chain_nth [OF assms(2)]
  let ?m1 = "chain_messages digest none_hash bs e1 t1 n1 0 None" and ?m2 = "chain_messages digest none_hash bs e2 t2 n2 0 None"
  have mem: "?m1 ! Suc i \<in> set ?m1" "?m1 ! i \<in> set ?m1" "?m2 ! j \<in> set ?m2" using A B Suc.prems by simp_all
  have "digest (?m1 ! Suc i) = digest (?m2 ! j)" using A B Suc.prems by simp
  then have eq: "?m1 ! Suc i = ?m2 ! j" using assms(5) mem by (auto simp: collision_free_def inj_on_def)
  have len: "length (block_tokens bs t1 (Suc i)) = length (block_tokens bs t2 j)"
    using block_tokens_length [OF Suc.prems(1) assms(3)] block_tokens_length [OF Suc.prems(2) assms(4)] by simp
  have bm: "block_message none_hash (parent_at hs1 None (Suc i)) (block_tokens bs t1 (Suc i)) e1 = Inr (?m1 ! Suc i)"
    "block_message none_hash (parent_at hs2 None j) (block_tokens bs t2 j) e2 = Inr (?m1 ! Suc i)"
    using A B Suc.prems eq by auto
  note inj = block_message_inj [OF bm len]
  have p1: "parent_at hs1 None (Suc i) = Some (digest (?m1 ! i))" using A Suc.prems by (simp add: parent_at_def)
  have cf: "digest (?m1 ! i) \<noteq> 0" "digest (?m1 ! i) \<noteq> none_hash" using assms(5) mem by (auto simp: collision_free_def)
  obtain k where j: "j = Suc k" using inj(1) p1 cf by (cases j) (auto simp: parent_at_def)
  have "parent_at hs2 None j = Some (digest (?m2 ! k))" "?m2 ! k \<in> set ?m2"
    using B Suc.prems j by (simp_all add: parent_at_def)
  then have "digest (?m1 ! i) = digest (?m2 ! k)"
    using inj(1) p1 cf assms(5) by (auto simp: collision_free_def)
  then have "bh_value (hs1 ! i) = bh_value (hs2 ! k)" using A B Suc.prems j by simp
  then have ik: "i = k" "take ((i + 1) * bs) t1 = take ((i + 1) * bs) t2" "e1 = e2"
    using Suc.IH [of k] Suc.prems j by auto
  show ?case
    using ik(2,3) inj(2) unfolding j ik(1) [symmetric]
    using take_blocks_Suc [of "Suc i" bs t1] take_blocks_Suc [of "Suc i" bs t2]
    by (simp add: add.commute)
qed

definition demo_digest :: "nat list \<Rightarrow> int" where
  "demo_digest m = foldl (\<lambda>acc b. (acc * 257 + int b + 1) mod (2 ^ 127 - 1)) 3 m"

theorem equal_hash_equal_prefix_witness:
  "take 2 [5, 6 :: int] = take 2 [5, 6, 9]"
proof -
  have "\<not> isl (hash_chain demo_digest 11 1 [7] [5, 6] 2 0 None)" by code_simp
  then obtain hs1 where 1: "hash_chain demo_digest 11 1 [7] [5, 6] 2 0 None = Inr hs1"
    by (cases "hash_chain demo_digest 11 1 [7] [5, 6] 2 0 None") auto
  have "hash_chain demo_digest 11 1 [7] [5, 6, 9] 2 0 None = hash_chain demo_digest 11 1 [7] [5, 6] 2 0 None"
    by (simp add: numeral_2_eq_2 block_tokens_def)
  with 1 have 2: "hash_chain demo_digest 11 1 [7] [5, 6, 9] 2 0 None = Inr hs1" by simp
  have "collision_free demo_digest 11 (set (chain_messages demo_digest 11 1 [7] [5, 6] 2 0 None) \<union>
       set (chain_messages demo_digest 11 1 [7] [5, 6, 9] 2 0 None))"
    unfolding collision_free_def inj_on_def by code_simp
  from equal_hash_equal_prefix [OF 1 2 _ _ this, of 1 1] show ?thesis by simp
qed

end
