(* ===== verification/Prefix_Publish.thy ===== *)
theory Prefix_Publish
  imports Prefix_Hash
begin

text \<open>
  The persistent prefix cache of \<^verbatim>\<open>oracle/qwen36_vllm/prefix_cache.py\<close>: publishing the full
  committed blocks of a slot (with write-time deduplication) and reconciling a prompt against the
  published blocks and the recurrent-state checkpoints.  The state is the part of the runner these
  methods touch.
\<close>

section \<open>The runner's cache state\<close>

record 'key runner =
  rn_persistent :: bool
  rn_block_size :: nat
  rn_extra :: "nat list"
  rn_pool :: block_pool
  rn_published :: "int \<Rightarrow> nat"
  rn_hashes :: "int \<Rightarrow> block_hash list"
  rn_table :: "int \<Rightarrow> int list"
  rn_committed :: "int \<Rightarrow> int list"
  rn_kv_len :: "int \<Rightarrow> nat"
  rn_ckpt_by_hash :: "int \<Rightarrow> 'key option"
  rn_ckpt_tokens :: "'key \<Rightarrow> int option"

abbreviation pool_op :: "(block_pool, 'a) prog \<Rightarrow> ('key runner, 'a) prog" where
  "pool_op \<equiv> on_field rn_pool (\<lambda>q r. r\<lparr>rn_pool := q\<rparr>)"

text \<open>One turn of the loop of \<^verbatim>\<open>_publish_committed_blocks\<close>; the result is the next parent hash.\<close>

definition publish_block ::
  "(nat list \<Rightarrow> int) \<Rightarrow> int \<Rightarrow> int \<Rightarrow> int list \<Rightarrow> nat \<Rightarrow> int option \<Rightarrow> ('key runner, int) prog" where
  "publish_block digest none_hash slot toks i parent = reading (\<lambda>r. (rn_block_size r, rn_extra r)) (\<lambda>(bs, extra).
     andThen (lift_res (hash_block_tokens digest none_hash parent (block_tokens bs toks i) extra)) (\<lambda>h.
     andThen (update (\<lambda>r. r\<lparr>rn_hashes := (rn_hashes r)(slot :=
         rn_hashes r slot @ [\<lparr>bh_value = h, bh_num_tokens = int ((i + 1) * bs)\<rparr>])\<rparr>)) (\<lambda>_.
     reading (\<lambda>r. (i < length (rn_table r slot), rn_table r slot ! i, get_cached_block (rn_pool r) h)) (\<lambda>(has, fresh, existing).
     guard (\<not> has) (IndexError ''list index out of range'') (
     andThen (case existing of
         Some e \<Rightarrow>
           if e \<noteq> fresh then
             reading (\<lambda>r. block_hash_of (rn_pool r) e) (\<lambda>tag.
             guard (case tag of None \<Rightarrow> True | Some t \<Rightarrow> bh_num_tokens t \<noteq> int ((i + 1) * bs))
               (RuntimeError ''prefix-cache dedup collision (R7)'') (
             andThen (update (\<lambda>r. r\<lparr>rn_table := (rn_table r)(slot := (rn_table r slot)[i := e])\<rparr>)) (\<lambda>_.
             andThen (pool_op (bp_touch [e])) (\<lambda>_. pool_op (bp_free [fresh])))))
           else pool_op (bp_cache_block fresh \<lparr>bh_value = h, bh_num_tokens = int ((i + 1) * bs)\<rparr>)
       | None \<Rightarrow> pool_op (bp_cache_block fresh \<lparr>bh_value = h, bh_num_tokens = int ((i + 1) * bs)\<rparr>)) (\<lambda>_.
     ret h))))))"

primrec publish_loop ::
  "(nat list \<Rightarrow> int) \<Rightarrow> int \<Rightarrow> int \<Rightarrow> int list \<Rightarrow> nat \<Rightarrow> nat \<Rightarrow> int option \<Rightarrow> ('key runner, unit) prog" where
  "publish_loop digest none_hash slot toks 0 i parent = ret ()"
| "publish_loop digest none_hash slot toks (Suc n) i parent =
     andThen (publish_block digest none_hash slot toks i parent) (\<lambda>h.
       publish_loop digest none_hash slot toks n (i + 1) (Some h))"

definition publish_committed_blocks ::
  "(nat list \<Rightarrow> int) \<Rightarrow> int \<Rightarrow> int \<Rightarrow> int list \<Rightarrow> nat \<Rightarrow> ('key runner, nat) prog" where
  "publish_committed_blocks digest none_hash slot toks committed_len =
     reading (\<lambda>r. (rn_persistent r, rn_published r slot, rn_block_size r)) (\<lambda>(on, cursor, bs).
     if \<not> on then ret (cursor * bs)
     else
       andThen (update (\<lambda>r. if length (rn_committed r slot) < committed_len
           then r\<lparr>rn_committed := (rn_committed r)(slot := take committed_len toks)\<rparr> else r)) (\<lambda>_.
       guard (bs = 0) (ZeroDivisionError ''integer division or modulo by zero'') (
       reading (\<lambda>r. rn_hashes r slot) (\<lambda>hashes.
       guard (cursor > length hashes) (IndexError ''list index out of range'') (
       andThen (publish_loop digest none_hash slot toks (committed_len div bs - cursor) cursor
           (if cursor > 0 then Some (bh_value (hashes ! (cursor - 1))) else None)) (\<lambda>_.
       andThen (update (\<lambda>r. r\<lparr>rn_published := (rn_published r)(slot := committed_len div bs)\<rparr>)) (\<lambda>_.
       ret (committed_len div bs * bs))))))))"

definition publish_committed_decode_blocks ::
  "(nat list \<Rightarrow> int) \<Rightarrow> int \<Rightarrow> int \<Rightarrow> int list \<Rightarrow> ('key runner, unit) prog" where
  "publish_committed_decode_blocks digest none_hash slot committed = reading rn_persistent (\<lambda>on.
     if \<not> on then ret ()
     else
       andThen (update (\<lambda>r. r\<lparr>rn_committed := (rn_committed r)(slot := rn_committed r slot @ committed)\<rparr>)) (\<lambda>_.
       reading (\<lambda>r. (rn_committed r slot, rn_kv_len r slot)) (\<lambda>(toks, kv).
       andThen (publish_committed_blocks digest none_hash slot toks kv) (\<lambda>_. ret ()))))"

section \<open>Reconciliation\<close>

text \<open>Leading hashes that hit the index, and the deepest checkpoint at or below that depth.\<close>

primrec matched_blocks :: "block_pool \<Rightarrow> block_hash list \<Rightarrow> nat" where
  "matched_blocks p [] = 0"
| "matched_blocks p (h # hs) = (case get_cached_block p (bh_value h) of
     None \<Rightarrow> 0
   | Some _ \<Rightarrow> Suc (matched_blocks p hs))"

primrec deepest_checkpoint :: "'key runner \<Rightarrow> block_hash list \<Rightarrow> nat \<Rightarrow> nat" where
  "deepest_checkpoint r hs 0 = 0"
| "deepest_checkpoint r hs (Suc k) =
     (case rn_ckpt_by_hash r (bh_value (hs ! k)) of
        None \<Rightarrow> deepest_checkpoint r hs k
      | Some key \<Rightarrow>
          if rn_ckpt_tokens r key = Some (int (Suc k * rn_block_size r)) then Suc k * rn_block_size r
          else deepest_checkpoint r hs k)"

definition reconcile_prefix ::
  "(nat list \<Rightarrow> int) \<Rightarrow> int \<Rightarrow> 'key runner \<Rightarrow> int list \<Rightarrow> nat res" where
  "reconcile_prefix digest none_hash r toks =
     (if \<not> rn_persistent r then Inr 0
      else if rn_block_size r = 0 \<and> 1 < length toks then Inl (ZeroDivisionError ''integer division or modulo by zero'')
      else bind_res (compute_prompt_block_hashes digest none_hash (rn_block_size r) (rn_extra r) toks
               (int (length toks) - 1)) (\<lambda>hs.
        let m = matched_blocks (rn_pool r) hs
        in if m * rn_block_size r = 0 then Inr 0 else Inr (deepest_checkpoint r hs m)))"

lemma matched_blocks_spec:
  "matched_blocks p hs \<le> length hs \<and>
   (\<forall>i < matched_blocks p hs. get_cached_block p (bh_value (hs ! i)) \<noteq> None) \<and>
   (matched_blocks p hs < length hs \<longrightarrow> get_cached_block p (bh_value (hs ! matched_blocks p hs)) = None)"
proof (induction hs)
  case (Cons h hs)
  then show ?case by (auto simp: nth_Cons split: option.split nat.split)
qed simp

lemma deepest_checkpoint_spec:
  "deepest_checkpoint r hs m = 0 \<or>
   (\<exists>k < m. deepest_checkpoint r hs m = Suc k * rn_block_size r \<and>
     (\<exists>key. rn_ckpt_by_hash r (bh_value (hs ! k)) = Some key \<and>
        rn_ckpt_tokens r key = Some (int (Suc k * rn_block_size r))))"
proof (induction m)
  case (Suc m)
  let ?here = "\<exists>key. rn_ckpt_by_hash r (bh_value (hs ! m)) = Some key \<and>
    rn_ckpt_tokens r key = Some (int (Suc m * rn_block_size r))"
  show ?case
  proof (cases ?here)
    case True
    then have "deepest_checkpoint r hs (Suc m) = Suc m * rn_block_size r" by auto
    with True show ?thesis by blast
  next
    case False
    then have "deepest_checkpoint r hs (Suc m) = deepest_checkpoint r hs m"
      by (auto split: option.split)
    with Suc.IH show ?thesis using less_SucI by metis
  qed
qed simp

text \<open>
  C23: the length \<^verbatim>\<open>reconcile_prefix_hit\<close> returns is a whole number of blocks, leaves at least the
  last prompt token to be computed, and is backed by both families: every block below it is in the
  content index under the prompt's own chained hash, and a checkpoint for exactly that many tokens is
  registered under the hash of its last block.
\<close>

theorem reconcile_is_backed:
  assumes "reconcile_prefix digest none_hash r toks = Inr L" and "0 < L"
  shows "\<exists>hs k. compute_prompt_block_hashes digest none_hash (rn_block_size r) (rn_extra r) toks
        (int (length toks) - 1) = Inr hs \<and> k < length hs \<and> L = Suc k * rn_block_size r \<and> L < length toks \<and>
    (\<forall>i \<le> k. get_cached_block (rn_pool r) (bh_value (hs ! i)) \<noteq> None) \<and>
    (\<exists>key. rn_ckpt_by_hash r (bh_value (hs ! k)) = Some key \<and> rn_ckpt_tokens r key = Some (int L))"
proof -
  obtain hs where hs: "compute_prompt_block_hashes digest none_hash (rn_block_size r) (rn_extra r) toks
      (int (length toks) - 1) = Inr hs"
    and L: "L = deepest_checkpoint r hs (matched_blocks (rn_pool r) hs)"
    using assms by (auto simp: reconcile_prefix_def bind_Inr Let_def split: if_splits)
  let ?m = "matched_blocks (rn_pool r) hs"
  obtain k where k: "k < ?m" "L = Suc k * rn_block_size r"
    "\<exists>key. rn_ckpt_by_hash r (bh_value (hs ! k)) = Some key \<and> rn_ckpt_tokens r key = Some (int L)"
    using deepest_checkpoint_spec [of r hs ?m] assms(2) unfolding L [symmetric] by auto
  note m = matched_blocks_spec [of "rn_pool r" hs]
  let ?n = "if int (length toks) - 1 > 0 then nat (int (length toks) - 1) div rn_block_size r else 0"
  have len: "length hs = ?n"
    using hash_chain_nth [OF hs [unfolded compute_prompt_block_hashes_def]] by simp
  have "Suc k \<le> ?n" using k(1) m len by simp
  then have "Suc k \<le> (length toks - 1) div rn_block_size r" "1 < length toks"
    by (auto simp: nat_diff_distrib split: if_splits)
  then have "Suc k * rn_block_size r \<le> length toks - 1"
    by (metis div_times_less_eq_dividend le_trans mult_le_mono1)
  then have "L < length toks" using k(2) \<open>1 < length toks\<close> by linarith
  moreover have "k < length hs" "\<forall>i \<le> k. get_cached_block (rn_pool r) (bh_value (hs ! i)) \<noteq> None"
    using k(1) m by auto
  ultimately show ?thesis using hs k(2,3) by blast
qed


section \<open>Publishing makes a prefix hit-able\<close>

lemma touch_single:
  assumes "cache_wf p" and "in_range p e"
  obtains p' where "bp_touch [e] p = (Inr (), p')" and "cache_wf p'"
    and "p'\<lparr>ref_cnt := ref_cnt p, free_queue := free_queue p\<rparr> = p"
    and "ref_cnt p' = (ref_cnt p)(e := ref_cnt p e + 1)"
proof -
  have at: "pool_at p (free_order p)" using assms(1) by (simp add: cache_wf_def pool_wf_def)
  obtain p' where p': "touch_one e p = (Inr (), p')"
    "p'\<lparr>ref_cnt := ref_cnt p, free_queue := free_queue p\<rparr> = p"
    "ref_cnt p' = (ref_cnt p)(e := ref_cnt p e + 1)"
    using touch_one_at [OF at assms(2)] by metis
  have "cache_wf p'" using cache_inv.touch_one_I [OF assms(1), of e] p'(1) by simp
  moreover have "bp_touch [e] p = (Inr (), p')" using p'(1) by (simp add: bp_touch_def andThen_def)
  ultimately show ?thesis using that p'(2,3) by blast
qed

lemma free_single:
  assumes "cache_wf p" and "in_range p b" and "0 < ref_cnt p b"
  obtains p' where "bp_free [b] p = (Inr (), p')" and "cache_wf p'"
    and "p'\<lparr>ref_cnt := ref_cnt p, free_queue := free_queue p\<rparr> = p"
    and "ref_cnt p' = (ref_cnt p)(b := ref_cnt p b - 1)"
proof -
  have at: "pool_at p (free_order p)" using assms(1) by (simp add: cache_wf_def pool_wf_def)
  obtain p' where p': "free_one b p = (Inr (), p')"
    "p'\<lparr>ref_cnt := ref_cnt p, free_queue := free_queue p\<rparr> = p"
    "ref_cnt p' = (ref_cnt p)(b := ref_cnt p b - 1)"
    using free_one_at [OF at assms(2,3)] by metis
  have run: "bp_free [b] p = (Inr (), p')" using p'(1) by (simp add: bp_free_def andThen_def)
  have "cache_wf p'" using keeps_snd [OF cache_inv.keeps_free assms(1), of "[b]"] run by simp
  with run show ?thesis using that p'(2,3) by blast
qed

text \<open>The state of the loop before block \<open>i\<close>, for a slot whose chain is \<open>hs\<close>.\<close>

definition published_upto :: "block_hash list \<Rightarrow> int \<Rightarrow> nat \<Rightarrow> 'key runner \<Rightarrow> bool" where
  "published_upto hs slot i r \<longleftrightarrow> cache_wf (rn_pool r) \<and> length hs \<le> length (rn_table r slot) \<and>
     (\<forall>j < i. get_cached_block (rn_pool r) (bh_value (hs ! j)) = Some (rn_table r slot ! j) \<and>
        0 < ref_cnt (rn_pool r) (rn_table r slot ! j)) \<and>
     (\<forall>j. i \<le> j \<and> j < length hs \<longrightarrow> in_range (rn_pool r) (rn_table r slot ! j) \<and>
        0 < ref_cnt (rn_pool r) (rn_table r slot ! j) \<and> block_hash_of (rn_pool r) (rn_table r slot ! j) = None) \<and>
     (\<forall>j k. i \<le> j \<and> j < k \<and> k < length hs \<longrightarrow> rn_table r slot ! j \<noteq> rn_table r slot ! k) \<and>
     (\<forall>j e t. i \<le> j \<and> j < length hs \<and> get_cached_block (rn_pool r) (bh_value (hs ! j)) = Some e \<and>
        block_hash_of (rn_pool r) e = Some t \<longrightarrow> bh_num_tokens t = bh_num_tokens (hs ! j))"

lemma published_uptoD:
  assumes "published_upto hs slot i r"
  shows "cache_wf (rn_pool r)" and "length hs \<le> length (rn_table r slot)"
    and "j < i \<Longrightarrow> get_cached_block (rn_pool r) (bh_value (hs ! j)) = Some (rn_table r slot ! j)"
    and "j < i \<Longrightarrow> 0 < ref_cnt (rn_pool r) (rn_table r slot ! j)"
    and "i \<le> j \<Longrightarrow> j < length hs \<Longrightarrow> in_range (rn_pool r) (rn_table r slot ! j)"
    and "i \<le> j \<Longrightarrow> j < length hs \<Longrightarrow> 0 < ref_cnt (rn_pool r) (rn_table r slot ! j)"
    and "i \<le> j \<Longrightarrow> j < length hs \<Longrightarrow> block_hash_of (rn_pool r) (rn_table r slot ! j) = None"
    and "i \<le> j \<Longrightarrow> j < k \<Longrightarrow> k < length hs \<Longrightarrow> rn_table r slot ! j \<noteq> rn_table r slot ! k"
    and "i \<le> j \<Longrightarrow> j < length hs \<Longrightarrow> get_cached_block (rn_pool r) (bh_value (hs ! j)) = Some e \<Longrightarrow>
      block_hash_of (rn_pool r) e = Some t \<Longrightarrow> bh_num_tokens t = bh_num_tokens (hs ! j)"
  using assms by (simp_all add: published_upto_def)

lemma cache_wf_index:
  assumes "cache_wf p" and "get_cached_block p v = Some e"
  shows "in_range p e" and "\<exists>t. block_hash_of p e = Some t \<and> bh_value t = v"
  using assms by (auto simp: cache_wf_def index_ok_def get_cached_block_def)

lemma publish_hit_step:
  assumes u: "published_upto hs slot i r" and i: "i < length hs"
    and e: "get_cached_block (rn_pool r) (bh_value (hs ! i)) = Some e"
  shows "\<exists>p. andThen (pool_op (bp_touch [e])) (\<lambda>_. pool_op (bp_free [rn_table r slot ! i]))
        (r\<lparr>rn_table := (rn_table r)(slot := (rn_table r slot)[i := e])\<rparr>) =
      (Inr (), r\<lparr>rn_table := (rn_table r)(slot := (rn_table r slot)[i := e]), rn_pool := p\<rparr>) \<and>
    published_upto hs slot (Suc i)
      (r\<lparr>rn_table := (rn_table r)(slot := (rn_table r slot)[i := e]), rn_pool := p\<rparr>)"
proof -
  note D = published_uptoD [OF u]
  let ?p = "rn_pool r" and ?f = "rn_table r slot ! i"
  have f: "in_range ?p ?f" "0 < ref_cnt ?p ?f" "block_hash_of ?p ?f = None" using D(5-7) [of i] i by simp_all
  note ix = cache_wf_index [OF D(1) e]
  have ne: "e \<noteq> ?f" using ix(2) f(3) by auto
  obtain p1 where p1: "bp_touch [e] ?p = (Inr (), p1)" "cache_wf p1"
    "p1\<lparr>ref_cnt := ref_cnt ?p, free_queue := free_queue ?p\<rparr> = ?p"
    "ref_cnt p1 = (ref_cnt ?p)(e := ref_cnt ?p e + 1)"
    using D(1) ix(1) by (rule touch_single)
  note s1 = same_cache_fields [OF p1(3)]
  have "in_range p1 ?f" "0 < ref_cnt p1 ?f" using f ne p1(4) s1 by (simp_all add: in_range_def)
  then obtain p2 where p2: "bp_free [?f] p1 = (Inr (), p2)" "cache_wf p2"
    "p2\<lparr>ref_cnt := ref_cnt p1, free_queue := free_queue p1\<rparr> = p1"
    "ref_cnt p2 = (ref_cnt p1)(?f := ref_cnt p1 ?f - 1)"
    using free_single [OF p1(2)] by blast
  note s2 = same_cache_fields [OF p2(3)]
  have fields: "block_hash_of p2 = block_hash_of ?p" "hash_to_block p2 = hash_to_block ?p"
    "in_range p2 = in_range ?p" using s1 s2 by (simp_all add: in_range_def fun_eq_iff)
  have ref: "0 < ref_cnt p2 c" if "0 < ref_cnt ?p c" "c \<noteq> ?f" for c
    using that p1(4) p2(4) by (cases "c = e") simp_all
  have refe: "0 < ref_cnt p2 e"
  proof -
    have "0 \<le> ref_cnt ?p e" using D(1) pool_atD(5) by (auto simp: cache_wf_def pool_wf_def)
    then show ?thesis using p1(4) p2(4) ne by simp
  qed
  let ?r = "r\<lparr>rn_table := (rn_table r)(slot := (rn_table r slot)[i := e]), rn_pool := p2\<rparr>"
  have old: "rn_table r slot ! j \<noteq> ?f" if "j < i" for j
    using cache_wf_index(2) [OF D(1) D(3) [OF that]] f(3) by auto
  have "published_upto hs slot (Suc i) ?r"
    unfolding published_upto_def
  proof (intro conjI allI impI)
    fix j assume j: "j < Suc i"
    have tbl: "rn_table ?r slot ! j = (if j = i then e else rn_table r slot ! j)"
      using i D(2) j by simp
    have less: "j < i" if "j \<noteq> i" using j that by simp
    show "get_cached_block (rn_pool ?r) (bh_value (hs ! j)) = Some (rn_table ?r slot ! j)"
      unfolding tbl using D(3) [of j] less e fields by (cases "j = i") (simp_all add: get_cached_block_def)
    show "0 < ref_cnt (rn_pool ?r) (rn_table ?r slot ! j)"
    proof (cases "j = i")
      case True
      then show ?thesis unfolding tbl using refe by simp
    next
      case False
      then show ?thesis unfolding tbl using ref [OF D(4) [OF less] old [OF less]] by simp
    qed
  next
    fix j assume "Suc i \<le> j \<and> j < length hs"
    then show "in_range (rn_pool ?r) (rn_table ?r slot ! j)" "0 < ref_cnt (rn_pool ?r) (rn_table ?r slot ! j)"
      "block_hash_of (rn_pool ?r) (rn_table ?r slot ! j) = None"
      using D(5-7) [of j] D(8) [of i j] ref fields by auto
  next
    fix j k assume "Suc i \<le> j \<and> j < k \<and> k < length hs"
    then show "rn_table ?r slot ! j \<noteq> rn_table ?r slot ! k" using D(8) [of j k] by auto
  next
    fix j e' t assume "Suc i \<le> j \<and> j < length hs \<and> get_cached_block (rn_pool ?r) (bh_value (hs ! j)) = Some e' \<and>
      block_hash_of (rn_pool ?r) e' = Some t"
    then show "bh_num_tokens t = bh_num_tokens (hs ! j)"
      using D(9) [of j e' t] fields by (simp add: get_cached_block_def)
  qed (use p2(2) D(2) in simp_all)
  moreover have "andThen (pool_op (bp_touch [e])) (\<lambda>_. pool_op (bp_free [?f]))
      (r\<lparr>rn_table := (rn_table r)(slot := (rn_table r slot)[i := e])\<rparr>) = (Inr (), ?r)"
    using p1(1) p2(1) by (simp add: andThen_def on_field_def)
  ultimately show ?thesis by blast
qed

lemma publish_miss_step:
  assumes u: "published_upto hs slot i r" and i: "i < length hs"
    and none: "get_cached_block (rn_pool r) (bh_value (hs ! i)) = None"
    and d: "distinct (map bh_value hs)"
  shows "\<exists>p. pool_op (bp_cache_block (rn_table r slot ! i) (hs ! i)) r = (Inr (), r\<lparr>rn_pool := p\<rparr>) \<and>
    published_upto hs slot (Suc i) (r\<lparr>rn_pool := p\<rparr>)"
proof -
  note D = published_uptoD [OF u]
  let ?p = "rn_pool r" and ?f = "rn_table r slot ! i"
  have f: "in_range ?p ?f" "0 < ref_cnt ?p ?f" "block_hash_of ?p ?f = None" using D(5-7) [of i] i by simp_all
  let ?q = "?p\<lparr>block_hash_of := (block_hash_of ?p)(?f \<mapsto> hs ! i),
    hash_to_block := (hash_to_block ?p)(bh_value (hs ! i) \<mapsto> ?f)\<rparr>"
  have run: "bp_cache_block ?f (hs ! i) ?p = (Inr (), ?q)"
    using f none by (simp add: bp_cache_block_def in_range_def get_cached_block_def)
  have "cache_wf (snd (bp_cache_block ?f (hs ! i) ?p))"
    using D(1) f by (intro publish_cache_wf) simp_all
  then have cw: "cache_wf ?q" using run by simp
  have other: "bh_value (hs ! j) \<noteq> bh_value (hs ! i)" if "j < length hs" "j \<noteq> i" for j
    using nth_eq_iff_index_eq [OF d, of j i] that i by simp
  have "published_upto hs slot (Suc i) (r\<lparr>rn_pool := ?q\<rparr>)"
    unfolding published_upto_def
  proof (intro conjI allI impI)
    fix j assume j: "j < Suc i"
    have less: "j < i" if "j \<noteq> i" using j that by simp
    show "get_cached_block (rn_pool (r\<lparr>rn_pool := ?q\<rparr>)) (bh_value (hs ! j)) =
        Some (rn_table (r\<lparr>rn_pool := ?q\<rparr>) slot ! j)"
      using D(3) [of j] less other [of j] i by (cases "j = i") (simp_all add: get_cached_block_def)
    show "0 < ref_cnt (rn_pool (r\<lparr>rn_pool := ?q\<rparr>)) (rn_table (r\<lparr>rn_pool := ?q\<rparr>) slot ! j)"
      using D(4) [of j] less f(2) by (cases "j = i") simp_all
  next
    fix j assume "Suc i \<le> j \<and> j < length hs"
    then show "in_range (rn_pool (r\<lparr>rn_pool := ?q\<rparr>)) (rn_table (r\<lparr>rn_pool := ?q\<rparr>) slot ! j)"
      "0 < ref_cnt (rn_pool (r\<lparr>rn_pool := ?q\<rparr>)) (rn_table (r\<lparr>rn_pool := ?q\<rparr>) slot ! j)"
      "block_hash_of (rn_pool (r\<lparr>rn_pool := ?q\<rparr>)) (rn_table (r\<lparr>rn_pool := ?q\<rparr>) slot ! j) = None"
      using D(5-7) [of j] D(8) [of i j] by (auto simp: in_range_def)
  next
    fix j k assume "Suc i \<le> j \<and> j < k \<and> k < length hs"
    then show "rn_table (r\<lparr>rn_pool := ?q\<rparr>) slot ! j \<noteq> rn_table (r\<lparr>rn_pool := ?q\<rparr>) slot ! k"
      using D(8) [of j k] by auto
  next
    fix j e t
    assume a: "Suc i \<le> j \<and> j < length hs \<and> get_cached_block (rn_pool (r\<lparr>rn_pool := ?q\<rparr>)) (bh_value (hs ! j)) = Some e \<and>
      block_hash_of (rn_pool (r\<lparr>rn_pool := ?q\<rparr>)) e = Some t"
    then have old: "get_cached_block ?p (bh_value (hs ! j)) = Some e"
      using other [of j] by (simp add: get_cached_block_def)
    then have "e \<noteq> ?f" using cache_wf_index(2) [OF D(1) old] f(3) by auto
    then show "bh_num_tokens t = bh_num_tokens (hs ! j)"
      using D(9) [of j e t] a old by simp
  qed (use cw D(2) in simp_all)
  moreover have "pool_op (bp_cache_block ?f (hs ! i)) r = (Inr (), r\<lparr>rn_pool := ?q\<rparr>)"
    using run by (simp add: on_field_def)
  ultimately show ?thesis by blast
qed


lemma unmoved_published:
  "unmoved rn_published (pool_op m)" "unmoved rn_published (lift_res x)"
  "unmoved rn_published k \<Longrightarrow> unmoved rn_published (guard c e k)"
  by (simp_all add: unmoved_def on_field_def split_def)

lemma publish_loop_published: "unmoved rn_published (publish_loop digest none_hash slot toks n i parent)"
proof -
  have "unmoved rn_published (publish_block digest none_hash slot toks i parent)" for i parent
    unfolding publish_block_def by (auto intro!: frame_rules unmoved_published split: option.split)
  then show ?thesis by (induction n arbitrary: i parent) (auto intro!: frame_rules)
qed

lemma publish_block_step:
  assumes u: "published_upto hs slot i r" and i: "i < length hs" and d: "distinct (map bh_value hs)"
    and h: "hash_block_tokens digest none_hash parent (block_tokens (rn_block_size r) toks i) (rn_extra r) =
      Inr (bh_value (hs ! i))"
    and n: "bh_num_tokens (hs ! i) = int ((i + 1) * rn_block_size r)"
  shows "\<exists>r'. publish_block digest none_hash slot toks i parent r = (Inr (bh_value (hs ! i)), r') \<and>
    published_upto hs slot (Suc i) r' \<and> rn_block_size r' = rn_block_size r \<and> rn_extra r' = rn_extra r \<and>
    rn_persistent r' = rn_persistent r \<and> length (rn_table r' slot) = length (rn_table r slot) \<and>
    rn_hashes r' = (rn_hashes r)(slot := rn_hashes r slot @ [hs ! i]) \<and> (\<forall>s. s \<noteq> slot \<longrightarrow> rn_table r' s = rn_table r s)"
proof -
  note D = published_uptoD [OF u]
  let ?r = "r\<lparr>rn_hashes := (rn_hashes r)(slot := rn_hashes r slot @ [hs ! i])\<rparr>"
  let ?f = "rn_table r slot ! i"
  have bh: "\<lparr>bh_value = bh_value (hs ! i), bh_num_tokens = int ((i + 1) * rn_block_size r)\<rparr> = hs ! i"
    using n by simp
  have ur: "published_upto hs slot i ?r" using u by (simp add: published_upto_def)
  have len: "i < length (rn_table r slot)" using D(2) i by simp
  show ?thesis
  proof (cases "get_cached_block (rn_pool r) (bh_value (hs ! i))")
    case None
    have none: "get_cached_block (rn_pool ?r) (bh_value (hs ! i)) = None" using None by simp
    obtain p where p: "pool_op (bp_cache_block ?f (hs ! i)) ?r = (Inr (), ?r\<lparr>rn_pool := p\<rparr>)"
      "published_upto hs slot (Suc i) (?r\<lparr>rn_pool := p\<rparr>)"
      using publish_miss_step [OF ur i none d] by auto
    have "publish_block digest none_hash slot toks i parent r = (Inr (bh_value (hs ! i)), ?r\<lparr>rn_pool := p\<rparr>)"
      using h None len p(1) bh
      by (simp add: publish_block_def lift_res_def andThen_def)
    then show ?thesis using p(2) by (intro exI [of _ "?r\<lparr>rn_pool := p\<rparr>"]) simp
  next
    case (Some e)
    have hit: "get_cached_block (rn_pool ?r) (bh_value (hs ! i)) = Some e" using Some by simp
    obtain p where p: "andThen (pool_op (bp_touch [e])) (\<lambda>_. pool_op (bp_free [rn_table ?r slot ! i]))
        (?r\<lparr>rn_table := (rn_table ?r)(slot := (rn_table ?r slot)[i := e])\<rparr>) =
      (Inr (), ?r\<lparr>rn_table := (rn_table ?r)(slot := (rn_table ?r slot)[i := e]), rn_pool := p\<rparr>)"
      "published_upto hs slot (Suc i)
        (?r\<lparr>rn_table := (rn_table ?r)(slot := (rn_table ?r slot)[i := e]), rn_pool := p\<rparr>)"
      using publish_hit_step [OF ur i hit] by blast
    obtain t where t: "block_hash_of (rn_pool r) e = Some t" using cache_wf_index(2) [OF D(1) Some] by blast
    have nt: "bh_num_tokens t = int ((i + 1) * rn_block_size r)" using D(9) [OF order_refl i Some t] n by simp
    have ne: "e \<noteq> ?f" using t D(7) [OF order_refl i] by auto
    let ?r' = "?r\<lparr>rn_table := (rn_table ?r)(slot := (rn_table ?r slot)[i := e]), rn_pool := p\<rparr>"
    have "publish_block digest none_hash slot toks i parent r = (Inr (bh_value (hs ! i)), ?r')"
      using h Some len p(1) bh t nt ne
      by (simp add: publish_block_def lift_res_def andThen_def)
    then show ?thesis using p(2) by (intro exI [of _ ?r']) simp
  qed
qed

lemma publish_loop_ok:
  assumes "published_upto hs slot i r" and "i + n = length hs" and "distinct (map bh_value hs)"
    and "hash_chain digest none_hash (rn_block_size r) (rn_extra r) toks (length hs) 0 None = Inr hs"
    and "rn_hashes r slot = take i hs"
  shows "\<exists>r'. publish_loop digest none_hash slot toks n i (parent_at hs None i) r = (Inr (), r') \<and>
    published_upto hs slot (length hs) r' \<and> rn_block_size r' = rn_block_size r \<and> rn_extra r' = rn_extra r \<and>
    rn_persistent r' = rn_persistent r \<and> length (rn_table r' slot) = length (rn_table r slot) \<and>
    rn_hashes r' = (rn_hashes r)(slot := hs) \<and> (\<forall>s. s \<noteq> slot \<longrightarrow> rn_table r' s = rn_table r s)"
  using assms
proof (induction n arbitrary: i r)
  case 0
  then have "rn_hashes r = (rn_hashes r)(slot := hs)" by (simp add: fun_upd_idem)
  with 0 show ?case by simp
next
  case (Suc n)
  then have i: "i < length hs" by simp
  note N = hash_chain_nth [OF Suc.prems(4)]
  have h: "hash_block_tokens digest none_hash (parent_at hs None i) (block_tokens (rn_block_size r) toks i) (rn_extra r) =
      Inr (bh_value (hs ! i))" and nt: "bh_num_tokens (hs ! i) = int ((i + 1) * rn_block_size r)"
    using N i by (simp_all add: hash_block_tokens_def bind_res_def)
  obtain r1 where r1: "publish_block digest none_hash slot toks i (parent_at hs None i) r = (Inr (bh_value (hs ! i)), r1)"
    "published_upto hs slot (Suc i) r1" "rn_block_size r1 = rn_block_size r" "rn_extra r1 = rn_extra r"
    "rn_persistent r1 = rn_persistent r" "length (rn_table r1 slot) = length (rn_table r slot)"
    "rn_hashes r1 = (rn_hashes r)(slot := rn_hashes r slot @ [hs ! i])" "\<forall>s. s \<noteq> slot \<longrightarrow> rn_table r1 s = rn_table r s"
    using publish_block_step [OF Suc.prems(1) i Suc.prems(3) h nt] by blast
  have par: "Some (bh_value (hs ! i)) = parent_at hs None (Suc i)" by (simp add: parent_at_def)
  have grown: "rn_hashes r1 slot = take (Suc i) hs" using r1(7) Suc.prems(5) i by (simp add: take_Suc_conv_app_nth)
  have pre: "Suc i + n = length hs"
    "hash_chain digest none_hash (rn_block_size r1) (rn_extra r1) toks (length hs) 0 None = Inr hs"
    using Suc.prems(2,4) r1(3,4) by simp_all
  obtain r' where "publish_loop digest none_hash slot toks n (Suc i) (parent_at hs None (Suc i)) r1 = (Inr (), r')"
    "published_upto hs slot (length hs) r'" "rn_block_size r' = rn_block_size r1" "rn_extra r' = rn_extra r1"
    "rn_persistent r' = rn_persistent r1" "length (rn_table r' slot) = length (rn_table r1 slot)"
    "rn_hashes r' = (rn_hashes r1)(slot := hs)" "\<forall>s. s \<noteq> slot \<longrightarrow> rn_table r' s = rn_table r1 s"
    using Suc.IH [OF r1(2) pre(1) Suc.prems(3) pre(2) grown] by blast
  then show ?case
    using r1 par by (intro exI [of _ r']) (simp add: andThen_def)
qed

text \<open>
  C22: publishing committed tokens makes them hit-able, at the first publication of a slot and at every
  later one.  Let the slot have published its first \<open>c\<close> blocks (they are in the index where its table
  names them, \<open>c\<close> is the cursor and the recorded hashes are the first \<open>c\<close> of the chain of the committed
  tokens), and let the blocks from \<open>c\<close> on be held, different and without a hash; the chain's hashes
  are different and no stored block has one of them with another token count (R7).  Then
  \<^verbatim>\<open>_publish_committed_blocks\<close> returns the last full block boundary and leaves every full block in
  the index, under the prompt's chained hash and at the block the slot's table now names, held by at
  least one reference: deduplicated blocks are swapped for the stored ones.  The recorded hashes are
  the whole chain again, which the next publication starts from, and the other slots' hashes and
  tables are as before.
\<close>

theorem publish_makes_hits:
  assumes "rn_persistent r" and "0 < rn_block_size r"
    and "hash_chain digest none_hash (rn_block_size r) (rn_extra r) toks (committed_len div rn_block_size r) 0 None = Inr hs"
    and "distinct (map bh_value hs)"
    and "rn_published r slot \<le> committed_len div rn_block_size r" and "rn_hashes r slot = take (rn_published r slot) hs"
    and "published_upto hs slot (rn_published r slot) r"
  shows "\<exists>r'. publish_committed_blocks digest none_hash slot toks committed_len r =
      (Inr (committed_len div rn_block_size r * rn_block_size r), r') \<and>
    rn_published r' = (rn_published r)(slot := committed_len div rn_block_size r) \<and>
    rn_hashes r' = (rn_hashes r)(slot := hs) \<and> cache_wf (rn_pool r') \<and>
    length (rn_table r' slot) = length (rn_table r slot) \<and> (\<forall>s. s \<noteq> slot \<longrightarrow> rn_table r' s = rn_table r s) \<and>
    (\<forall>i < committed_len div rn_block_size r.
       get_cached_block (rn_pool r') (bh_value (hs ! i)) = Some (rn_table r' slot ! i) \<and>
       0 < ref_cnt (rn_pool r') (rn_table r' slot ! i)) \<and>
    matched_blocks (rn_pool r') hs = committed_len div rn_block_size r"
proof -
  let ?c = "rn_published r slot"
  let ?r = "if length (rn_committed r slot) < committed_len
    then r\<lparr>rn_committed := (rn_committed r)(slot := take committed_len toks)\<rparr> else r"
  have len: "length hs = committed_len div rn_block_size r" using hash_chain_nth [OF assms(3)] by simp
  have same: "rn_block_size ?r = rn_block_size r" "rn_extra ?r = rn_extra r" "rn_table ?r = rn_table r"
    "rn_hashes ?r = rn_hashes r" "rn_published ?r = rn_published r" by simp_all
  have u: "published_upto hs slot ?c ?r" using assms(7) by (simp add: published_upto_def)
  obtain r1 where r1: "publish_loop digest none_hash slot toks (length hs - ?c) ?c (parent_at hs None ?c) ?r = (Inr (), r1)"
    "published_upto hs slot (length hs) r1" "rn_block_size r1 = rn_block_size ?r"
    "length (rn_table r1 slot) = length (rn_table ?r slot)" "rn_hashes r1 = (rn_hashes ?r)(slot := hs)"
    "\<forall>s. s \<noteq> slot \<longrightarrow> rn_table r1 s = rn_table ?r s"
    using publish_loop_ok [OF u, of "length hs - ?c" digest none_hash toks] assms(3-6) len same by auto
  have parent: "(if 0 < ?c then Some (bh_value (rn_hashes r slot ! (?c - 1))) else None) = parent_at hs None ?c"
    using assms(5,6) len by (simp add: parent_at_def)
  have pub: "rn_published r1 = rn_published r"
    using publish_loop_published r1(1) same(5) unfolding unmoved_def by (metis snd_conv)
  let ?r' = "r1\<lparr>rn_published := (rn_published r1)(slot := committed_len div rn_block_size r)\<rparr>"
  note D = published_uptoD [OF r1(2)]
  have "?c \<le> length (rn_hashes r slot)" using assms(5,6) len by simp
  then have "publish_committed_blocks digest none_hash slot toks committed_len r =
      (Inr (committed_len div rn_block_size r * rn_block_size r), ?r')"
    using assms(1,2) r1(1) len same(4) parent
    by (simp add: publish_committed_blocks_def andThen_def del: One_nat_def cong: if_cong split del: if_split)
  moreover have "matched_blocks (rn_pool ?r') hs = length hs"
  proof -
    have "matched_blocks (rn_pool r1) hs < length hs \<Longrightarrow> False"
      using matched_blocks_spec [of "rn_pool r1" hs] D(3) by fastforce
    then show ?thesis using matched_blocks_spec [of "rn_pool r1" hs] by fastforce
  qed
  ultimately show ?thesis
    using D(1,3,4) len r1(4-6) same pub by (intro exI [of _ ?r']) simp
qed

section \<open>A small runner\<close>

definition demo_runner :: "int runner" where
  "demo_runner = \<lparr>rn_persistent = True, rn_block_size = 1, rn_extra = [7],
     rn_pool = snd (bp_allocate 2 2 demo_pool), rn_published = (\<lambda>_. 0), rn_hashes = (\<lambda>_. []),
     rn_table = (\<lambda>_. [1, 2]), rn_committed = (\<lambda>_. []), rn_kv_len = (\<lambda>_. 2),
     rn_ckpt_by_hash = Some, rn_ckpt_tokens = (\<lambda>_. Some 2)\<rparr>"

definition sum_digest :: "nat list \<Rightarrow> int" where
  "sum_digest m = int (sum_list m)"

lemma demo_runner_pool:
  "cache_wf (rn_pool demo_runner)" "in_range (rn_pool demo_runner) 1" "in_range (rn_pool demo_runner) 2"
  "ref_cnt (rn_pool demo_runner) 1 = 1" "ref_cnt (rn_pool demo_runner) 2 = 1"
  "block_hash_of (rn_pool demo_runner) 1 = None" "block_hash_of (rn_pool demo_runner) 2 = None"
  "get_cached_block (rn_pool demo_runner) 23 = None" "get_cached_block (rn_pool demo_runner) 36 = None"
proof -
  show "cache_wf (rn_pool demo_runner)"
    using keeps_snd [OF cache_inv.keeps_allocate bp_init_cache_wf [OF demo_pool_init], of 2 2]
    by (simp add: demo_runner_def)
qed code_simp+

text \<open>The first block is published after the first token, the second one after the second.\<close>

definition demo_hashes :: "block_hash list" where
  "demo_hashes = [\<lparr>bh_value = 23, bh_num_tokens = 1\<rparr>, \<lparr>bh_value = 36, bh_num_tokens = 2\<rparr>]"

definition demo_published :: "int runner" where
  "demo_published = snd (publish_committed_blocks sum_digest 11 0 [5, 6] 1 demo_runner)"

lemma demo_published_state:
  "rn_persistent demo_published" "rn_block_size demo_published = 1" "rn_extra demo_published = [7]"
  "rn_published demo_published 0 = 1" "rn_hashes demo_published 0 = take 1 demo_hashes" "rn_table demo_published 0 = [1, 2]"
  "in_range (rn_pool demo_published) 2" "ref_cnt (rn_pool demo_published) 1 = 1" "ref_cnt (rn_pool demo_published) 2 = 1"
  "block_hash_of (rn_pool demo_published) 2 = None"
  "get_cached_block (rn_pool demo_published) 23 = Some 1" "get_cached_block (rn_pool demo_published) 36 = None"
  by code_simp+

lemma demo_fresh: "published_upto (take 1 demo_hashes) 0 0 demo_runner"
  using demo_runner_pool by (simp add: published_upto_def demo_hashes_def demo_runner_def)

theorem publish_makes_hits_witness:
  "rn_published demo_published 0 = 1 \<and>
   (\<exists>r'. publish_committed_blocks sum_digest 11 0 [5, 6] 2 demo_published = (Inr 2, r') \<and>
     rn_hashes r' 0 = demo_hashes \<and> get_cached_block (rn_pool r') 36 = Some 2 \<and> matched_blocks (rn_pool r') demo_hashes = 2)"
proof -
  have chain: "hash_chain sum_digest 11 1 [7] [5, 6] 1 0 None = Inr (take 1 demo_hashes)"
    "hash_chain sum_digest 11 1 [7] [5, 6] 2 0 None = Inr demo_hashes" by code_simp+
  have r0: "rn_persistent demo_runner" "rn_block_size demo_runner = 1" "rn_extra demo_runner = [7]"
    "rn_published demo_runner 0 = 0" "rn_hashes demo_runner 0 = []" by (simp_all add: demo_runner_def)
  have wf: "cache_wf (rn_pool demo_published)"
    using publish_makes_hits [of demo_runner sum_digest 11 "[5, 6]" 1 "take 1 demo_hashes" 0] r0 chain(1) demo_fresh
    by (auto simp: demo_published_def demo_hashes_def)
  have "published_upto demo_hashes 0 1 demo_published"
    using wf demo_published_state by (auto simp: published_upto_def demo_hashes_def less_Suc_eq le_Suc_eq nth_Cons')
  then obtain r' where r': "publish_committed_blocks sum_digest 11 0 [5, 6] 2 demo_published = (Inr 2, r')"
    "rn_hashes r' = (rn_hashes demo_published)(0 := demo_hashes)" "length (rn_table r' 0) = length (rn_table demo_published 0)"
    "\<forall>i < 2. get_cached_block (rn_pool r') (bh_value (demo_hashes ! i)) = Some (rn_table r' 0 ! i)"
    "matched_blocks (rn_pool r') demo_hashes = 2"
    using publish_makes_hits [of demo_published sum_digest 11 "[5, 6]" 2 demo_hashes 0] demo_published_state chain(2)
    by (auto simp: demo_hashes_def)
  have "get_cached_block (rn_pool (snd (publish_committed_blocks sum_digest 11 0 [5, 6] 2 demo_published))) 36 = Some 2" by code_simp
  then show ?thesis using r' demo_published_state(4) by simp
qed

theorem reconcile_is_backed_witness:
  "let p = demo_pool in
   reconcile_prefix sum_digest 11 (demo_runner\<lparr>rn_pool := p\<lparr>hash_to_block := [23 \<mapsto> 1, 36 \<mapsto> 2]\<rparr>\<rparr>) [5, 6, 9] = Inr 2 \<and>
   (2 :: nat) < length [5, 6, 9 :: int]"
proof -
  let ?r = "demo_runner\<lparr>rn_pool := demo_pool\<lparr>hash_to_block := [23 \<mapsto> 1, 36 \<mapsto> 2]\<rparr>\<rparr>"
  have "reconcile_prefix sum_digest 11 ?r [5, 6, 9] = Inr 2" by code_simp
  moreover from reconcile_is_backed [OF this] have "(2 :: nat) < length [5, 6, 9 :: int]" by auto
  ultimately show ?thesis by simp
qed

end
