(* ===== verification/Py_Text.thy ===== *)
theory Py_Text
  imports Prelude "HOL-Library.Sublist"
begin

text \<open>
  Python strings and sequences: a string is the list of its code points.  Searching, prefixes,
  suffixes and whitespace stripping, with the facts every text component uses.
\<close>

type_synonym str = "nat list"

definition lit :: "string \<Rightarrow> str" where
  "lit s = map of_char s"

definition newline :: nat where
  "newline = 10"

section \<open>Occurrences\<close>

definition occurs_at :: "'a list \<Rightarrow> 'a list \<Rightarrow> nat \<Rightarrow> bool" where
  "occurs_at marker xs i \<longleftrightarrow> i + length marker \<le> length xs \<and> take (length marker) (drop i xs) = marker"

lemma occurs_at_append: "occurs_at m xs i \<Longrightarrow> occurs_at m (xs @ ys) i"
  by (auto simp: occurs_at_def)

lemma occurs_at_prefix: "occurs_at m xs i \<longleftrightarrow> i \<le> length xs \<and> prefix m (drop i xs)"
  by (auto simp: occurs_at_def prefix_def)
    (metis append_take_drop_id, metis add_le_cancel_left diff_add_inverse le_add1 length_append length_drop ordered_cancel_comm_monoid_diff_class.add_diff_inverse)

lemma occurs_at_inside:
  "occurs_at m (xs @ ys) i \<Longrightarrow> i + length m \<le> length xs \<Longrightarrow> occurs_at m xs i"
  by (auto simp: occurs_at_def)

lemma occurs_at_mono: "prefix xs zs \<Longrightarrow> occurs_at m xs i \<Longrightarrow> occurs_at m zs i"
  by (auto simp: prefix_def occurs_at_append)

text \<open>The leftmost occurrence, \<^verbatim>\<open>text.find(sub)\<close>, and with a start index, \<^verbatim>\<open>text.find(sub, start)\<close>.\<close>

fun find_in :: "'a list \<Rightarrow> 'a list \<Rightarrow> nat option" where
  "find_in m [] = (if m = [] then Some 0 else None)"
| "find_in m (x # xs) = (if prefix m (x # xs) then Some 0 else map_option Suc (find_in m xs))"

definition find_from :: "'a list \<Rightarrow> 'a list \<Rightarrow> nat \<Rightarrow> nat option" where
  "find_from m xs start =
     (if start \<le> length xs then map_option (\<lambda>i. start + i) (find_in m (drop start xs)) else None)"

lemma occurs_at_Cons_Suc [simp]: "occurs_at m (x # xs) (Suc i) \<longleftrightarrow> occurs_at m xs i"
  by (simp add: occurs_at_def)

lemma occurs_at_0: "occurs_at m xs 0 \<longleftrightarrow> prefix m xs"
  by (simp add: occurs_at_prefix)

lemma find_in_Some:
  "find_in m xs = Some i \<longleftrightarrow> occurs_at m xs i \<and> (\<forall>j < i. \<not> occurs_at m xs j)"
proof (induction xs arbitrary: i)
  case Nil
  then show ?case by (cases i) (auto simp: occurs_at_def)
next
  case (Cons x xs)
  show ?case
  proof (cases "prefix m (x # xs)")
    case True
    then have "occurs_at m (x # xs) 0" by (simp add: occurs_at_0)
    then show ?thesis using True by (cases i) auto
  next
    case False
    then have "\<not> occurs_at m (x # xs) 0" by (simp add: occurs_at_0)
    then show ?thesis using False Cons.IH by (cases i) (auto simp: less_Suc_eq_0_disj)
  qed
qed

lemma find_in_None: "find_in m xs = None \<longleftrightarrow> (\<forall>i. \<not> occurs_at m xs i)"
proof
  assume "find_in m xs = None"
  then show "\<forall>i. \<not> occurs_at m xs i" using find_in_Some by (metis exists_least_iff option.distinct(1))
next
  assume "\<forall>i. \<not> occurs_at m xs i"
  then show "find_in m xs = None" using find_in_Some by (metis not_None_eq)
qed

lemma find_in_le: "find_in m xs = Some i \<Longrightarrow> i + length m \<le> length xs"
  by (simp add: find_in_Some occurs_at_def)

lemma find_in_mono:
  assumes "find_in m xs = Some i" and "prefix xs ys"
  shows "find_in m ys = Some i"
proof -
  obtain zs where ys: "ys = xs @ zs" using assms(2) by (auto simp: prefix_def)
  have i: "i + length m \<le> length xs" using find_in_le [OF assms(1)] .
  have "\<not> occurs_at m ys j" if "j < i" for j
    using assms(1) occurs_at_inside [of m xs zs j] that i by (auto simp: find_in_Some ys)
  then show ?thesis using assms(1) occurs_at_append by (auto simp: find_in_Some ys)
qed

text \<open>A match that first appears when text is added starts no earlier than the ambiguous tail.\<close>

lemma new_occurrence_tail:
  assumes "occurs_at m (xs @ ys) i" and "\<not> occurs_at m xs i" and "i < length xs"
  obtains k where "0 < k" and "k < length m" and "k \<le> length xs" and "i = length xs - k" and "suffix (take k m) xs"
proof -
  let ?k = "length xs - i"
  have long: "length xs < i + length m" using occurs_at_inside [OF assms(1)] assms(2) not_less by blast
  have "take (length m) (drop i xs @ ys) = m"
    using assms by (simp add: occurs_at_def)
  then have "take ?k m = take ?k (take (length m) (drop i xs @ ys))" by simp
  also have "\<dots> = drop i xs" using long by simp
  finally have "suffix (take ?k m) xs" by (simp add: suffix_drop)
  with long assms(3) that show ?thesis by (metis diff_diff_cancel diff_le_self less_diff_conv2 less_imp_le_nat zero_less_diff add.commute)
qed

text \<open>A marker whose first character occurs in it only once cannot overlap itself.\<close>

definition unbordered :: "str \<Rightarrow> bool" where
  "unbordered m = (case m of [] \<Rightarrow> False | c # cs \<Rightarrow> c \<notin> set cs)"

lemma find_in_delimited:
  assumes "find_in m v = None" and "unbordered m"
  shows "find_in m (v @ m @ rest) = Some (length v)"
proof -
  obtain c cs where m: "m = c # cs" "c \<notin> set cs" using assms(2) by (cases m) (simp_all add: unbordered_def)
  have "occurs_at m (v @ m @ rest) (length v)" by (simp add: occurs_at_def)
  moreover have "\<not> occurs_at m (v @ m @ rest) i" if i: "i < length v" for i
  proof
    assume occ: "occurs_at m (v @ m @ rest) i"
    show False
    proof (cases "i + length m \<le> length v")
      case True
      then have "occurs_at m v i" using occurs_at_inside [OF occ] by simp
      then show False using assms(1) unfolding find_in_None by blast
    next
      case False
      let ?k = "length v - i"
      have k: "0 < ?k" "?k < length m" using False i by linarith+
      have eq: "take (length m) (drop i (v @ m @ rest)) = m" using occ by (simp add: occurs_at_def)
      have "m ! ?k = take (length m) (drop i (v @ m @ rest)) ! ?k" using eq by simp
      also have "\<dots> = (v @ m @ rest) ! length v" using k i by (simp add: m nth_append)
      also have "\<dots> = c" by (simp add: m nth_append)
      finally have hit: "m ! ?k = c" .
      obtain j where j: "?k = Suc j" using k(1) by (cases ?k) simp_all
      have "j < length cs" using k(2) j by (simp add: m)
      then have "cs ! j \<in> set cs" by (rule nth_mem)
      moreover have "cs ! j = c" using hit unfolding j by (simp add: m)
      ultimately show False using m(2) by simp
    qed
  qed
  ultimately show ?thesis unfolding find_in_Some by blast
qed

lemma find_from_delimited:
  assumes "find_in m v = None" and "unbordered m" and "start = length d"
  shows "find_from m (d @ v @ m @ rest) start = Some (length d + length v)"
  using find_in_delimited [OF assms(1,2)] by (simp add: find_from_def assms(3))

text \<open>The text around the first occurrence; what is before it holds no other.\<close>

lemma find_in_around:
  assumes "find_in m xs = Some i"
  shows "xs = take i xs @ m @ drop (i + length m) xs" and "m \<noteq> [] \<Longrightarrow> find_in m (take i xs) = None"
proof -
  have m: "take (length m) (drop i xs) = m" using assms by (simp add: find_in_Some occurs_at_def)
  have "drop i xs = m @ drop (length m) (drop i xs)" using append_take_drop_id [of "length m" "drop i xs"] unfolding m by simp
  then have "drop i xs = m @ drop (i + length m) xs" by (simp add: add.commute)
  then show "xs = take i xs @ m @ drop (i + length m) xs" by (metis append_take_drop_id)
  show "find_in m (take i xs) = None" if "m \<noteq> []"
    unfolding find_in_None
  proof
    fix j
    show "\<not> occurs_at m (take i xs) j"
    proof
      assume occ: "occurs_at m (take i xs) j"
      have "occurs_at m xs j" by (rule occurs_at_mono [OF take_is_prefix occ])
      moreover have "j < i"
      proof -
        have "j + length m \<le> i" using occ by (simp add: occurs_at_def)
        moreover have "0 < length m" using that by simp
        ultimately show ?thesis by linarith
      qed
      ultimately show False using assms by (simp add: find_in_Some)
    qed
  qed
qed

section \<open>Longest partial match at the end\<close>

text \<open>The descending scan \<^verbatim>\<open>for plen in range(n, 0, -1): if text.endswith(marker[:plen])\<close>; 0 if none.\<close>

primrec partial_tail :: "'a list \<Rightarrow> 'a list \<Rightarrow> nat \<Rightarrow> nat" where
  "partial_tail marker xs 0 = 0"
| "partial_tail marker xs (Suc n) =
     (if suffix (take (Suc n) marker) xs then Suc n else partial_tail marker xs n)"

lemma partial_tail_le: "partial_tail m xs n \<le> n"
  by (induction n) auto

lemma partial_tail_suffix: "suffix (take (partial_tail m xs n) m) xs"
  by (induction n) auto

lemma partial_tail_max: "0 < k \<Longrightarrow> k \<le> n \<Longrightarrow> suffix (take k m) xs \<Longrightarrow> k \<le> partial_tail m xs n"
proof (induction n)
  case (Suc n)
  then show ?case by (cases "k = Suc n") auto
qed simp

section \<open>Stripping\<close>

text \<open>The code points \<^verbatim>\<open>str.strip\<close> removes.\<close>

definition is_space :: "nat \<Rightarrow> bool" where
  "is_space c \<longleftrightarrow> (9 \<le> c \<and> c \<le> 13) \<or> (28 \<le> c \<and> c \<le> 32) \<or> (8192 \<le> c \<and> c \<le> 8202) \<or>
     c \<in> {133, 160, 5760, 8232, 8233, 8239, 8287, 12288}"

definition strip :: "str \<Rightarrow> str" where
  "strip xs = rev (dropWhile is_space (rev (dropWhile is_space xs)))"

end
