(* ===== verification/Thinking_Budget.thy ===== *)
theory Thinking_Budget
  imports Py_Text
begin

text \<open>
  The thinking budget of \<^verbatim>\<open>runtime/thinking_budget.py\<close>: which position of the next output block must
  emit which token of the reasoning-end marker.  Tokens are integers; a request's state is its
  prompt and its committed output.
\<close>

section \<open>Configuration and state\<close>

record thinking_config =
  tb_budget :: int
  tb_start :: "int list"
  tb_end :: "int list"


record thinking_state =
  ts_config :: thinking_config
  ts_prompt :: "int list"
  ts_output :: "int list"

definition ts_init :: "int list \<Rightarrow> thinking_config \<Rightarrow> thinking_state" where
  "ts_init prompt cfg = \<lparr>ts_config = cfg, ts_prompt = prompt, ts_output = []\<rparr>"

definition all_token_ids :: "thinking_state \<Rightarrow> int list" where
  "all_token_ids s = ts_prompt s @ ts_output s"

definition add_output :: "int list \<Rightarrow> thinking_state \<Rightarrow> thinking_state" where
  "add_output toks s = s\<lparr>ts_output := ts_output s @ toks\<rparr>"

section \<open>Marker search\<close>

text \<open>The scan of \<^verbatim>\<open>_last_sequence_index\<close> from an index down to zero.\<close>

primrec last_index_from :: "'a list \<Rightarrow> 'a list \<Rightarrow> nat \<Rightarrow> int" where
  "last_index_from xs marker 0 = (if take (length marker) xs = marker then 0 else -1)"
| "last_index_from xs marker (Suc i) =
     (if take (length marker) (drop (Suc i) xs) = marker then int (Suc i) else last_index_from xs marker i)"

definition last_sequence_index :: "'a list \<Rightarrow> 'a list \<Rightarrow> int" where
  "last_sequence_index xs marker =
     (if marker = [] \<or> length marker > length xs then -1
      else last_index_from xs marker (length xs - length marker))"

definition span :: "thinking_config \<Rightarrow> int list \<Rightarrow> (int \<times> int) option" where
  "span cfg xs =
     (let start = last_sequence_index xs (tb_start cfg); stop = last_sequence_index xs (tb_end cfg)
      in if start < 0 \<or> start < stop then None else Some (start, stop))"

primrec end_prefix_from :: "int list \<Rightarrow> int list \<Rightarrow> nat \<Rightarrow> nat" where
  "end_prefix_from stop xs 0 = 0"
| "end_prefix_from stop xs (Suc l) =
     (if drop (length xs - Suc l) xs = take (Suc l) stop then Suc l else end_prefix_from stop xs l)"

definition end_prefix_length :: "thinking_config \<Rightarrow> int list \<Rightarrow> nat" where
  "end_prefix_length cfg xs = end_prefix_from (tb_end cfg) xs (min (length (tb_end cfg) - 1) (length xs))"

definition force_for :: "thinking_state \<Rightarrow> int \<Rightarrow> (int \<times> int) option res" where
  "force_for s max_output_positions =
     (if max_output_positions \<le> 0 then Inl (ValueError ''max_output_positions must be positive'')
      else
        let cfg = ts_config s; xs = all_token_ids s in
        case span cfg xs of
          None \<Rightarrow> Inr None
        | Some (start, stop) \<Rightarrow>
            let l = end_prefix_length cfg xs in
            if l \<noteq> 0 then Inr (Some (0, tb_end cfg ! l))
            else
              let reasoning_start = start + int (length (tb_start cfg));
                  reasoning_count = int (length xs) - reasoning_start;
                  remaining = tb_budget cfg - reasoning_count;
                  position = max 0 remaining
              in if position \<ge> max_output_positions then Inr None
                 else if tb_end cfg = [] then Inl (IndexError ''tuple index out of range'')
                 else Inr (Some (position, tb_end cfg ! 0)))"

subsection \<open>What the searches find\<close>

lemma last_index_from_spec:
  "(last_index_from xs m n = -1 \<and> (\<forall>i \<le> n. take (length m) (drop i xs) \<noteq> m)) \<or>
   (\<exists>k \<le> n. last_index_from xs m n = int k \<and> take (length m) (drop k xs) = m \<and>
      (\<forall>i. k < i \<and> i \<le> n \<longrightarrow> take (length m) (drop i xs) \<noteq> m))"
proof (induction n)
  case (Suc n)
  show ?case
  proof (cases "take (length m) (drop (Suc n) xs) = m")
    case True
    then show ?thesis by (intro disjI2 exI [of _ "Suc n"]) auto
  next
    case False
    have step: "last_index_from xs m (Suc n) = last_index_from xs m n" using False by simp
    from Suc.IH show ?thesis
    proof (elim disjE exE conjE)
      assume "last_index_from xs m n = -1" "\<forall>i \<le> n. take (length m) (drop i xs) \<noteq> m"
      then show ?thesis using False step by (intro disjI1) (simp add: le_Suc_eq)
    next
      fix k assume "k \<le> n" "last_index_from xs m n = int k" "take (length m) (drop k xs) = m"
        "\<forall>i. k < i \<and> i \<le> n \<longrightarrow> take (length m) (drop i xs) \<noteq> m"
      then show ?thesis using False step by (intro disjI2 exI [of _ k]) (auto simp: le_Suc_eq)
    qed
  qed
qed simp

lemma last_sequence_index_cases:
  assumes "m \<noteq> []"
  obtains (none) "last_sequence_index xs m = -1" "\<And>i. \<not> occurs_at m xs i"
  | (found) k where "last_sequence_index xs m = int k" "occurs_at m xs k"
      "\<And>i. k < i \<Longrightarrow> \<not> occurs_at m xs i"
proof (cases "length m > length xs")
  case True
  then show ?thesis using none by (simp add: last_sequence_index_def occurs_at_def)
next
  case False
  let ?n = "length xs - length m"
  have idx: "last_sequence_index xs m = last_index_from xs m ?n"
    using False assms by (simp add: last_sequence_index_def)
  have occ: "occurs_at m xs i \<longleftrightarrow> i \<le> ?n \<and> take (length m) (drop i xs) = m" for i
    using False by (auto simp: occurs_at_def)
  show ?thesis
    using last_index_from_spec [of xs m ?n]
  proof (elim disjE exE conjE)
    assume "last_index_from xs m ?n = -1" "\<forall>i \<le> ?n. take (length m) (drop i xs) \<noteq> m"
    then show ?thesis using none idx occ by simp
  next
    fix k assume "k \<le> ?n" "last_index_from xs m ?n = int k" "take (length m) (drop k xs) = m"
      "\<forall>i. k < i \<and> i \<le> ?n \<longrightarrow> take (length m) (drop i xs) \<noteq> m"
    then show ?thesis using found idx occ by simp
  qed
qed




section \<open>When a token is forced\<close>

text \<open>
  Inside a span: the marker's latest start, and the number of reasoning tokens after it.
\<close>

definition reasoning :: "thinking_config \<Rightarrow> int list \<Rightarrow> nat \<Rightarrow> bool" where
  "reasoning cfg xs start \<longleftrightarrow> last_sequence_index xs (tb_start cfg) = int start \<and>
     last_sequence_index xs (tb_end cfg) \<le> int start"

definition reasoning_tokens :: "thinking_config \<Rightarrow> int list \<Rightarrow> nat \<Rightarrow> int" where
  "reasoning_tokens cfg xs start = int (length xs) - int (start + length (tb_start cfg))"

definition config_ok :: "thinking_config \<Rightarrow> bool" where
  "config_ok cfg \<longleftrightarrow> 0 < tb_budget cfg \<and> tb_start cfg \<noteq> [] \<and> tb_end cfg \<noteq> []"


lemma span_reasoning:
  assumes "tb_start cfg \<noteq> []"
  shows "(span cfg xs = None \<longleftrightarrow> \<not> (\<exists>start. reasoning cfg xs start)) \<and>
    (\<forall>start. reasoning cfg xs start \<longrightarrow> span cfg xs = Some (int start, last_sequence_index xs (tb_end cfg)))"
  using assms
  by (cases rule: last_sequence_index_cases [where xs = xs]) (auto simp: span_def reasoning_def Let_def)

lemma reasoning_tokens_nonneg:
  assumes "tb_start cfg \<noteq> []" and "reasoning cfg xs start"
  shows "0 \<le> reasoning_tokens cfg xs start"
  using assms
  by (cases rule: last_sequence_index_cases [where xs = xs])
    (auto simp: reasoning_def reasoning_tokens_def occurs_at_def)

lemma force_for_run:
  assumes "config_ok (ts_config s)" and "0 < n"
  defines "cfg \<equiv> ts_config s" and "xs \<equiv> all_token_ids s"
  shows "(\<nexists>start. reasoning cfg xs start) \<Longrightarrow> force_for s n = Inr None"
    and "reasoning cfg xs start \<Longrightarrow> 0 < end_prefix_length cfg xs \<Longrightarrow>
      force_for s n = Inr (Some (0, tb_end cfg ! end_prefix_length cfg xs))"
    and "reasoning cfg xs start \<Longrightarrow> end_prefix_length cfg xs = 0 \<Longrightarrow>
      force_for s n =
        (if reasoning_tokens cfg xs start + n \<le> tb_budget cfg then Inr None
         else Inr (Some (max 0 (tb_budget cfg - reasoning_tokens cfg xs start), hd (tb_end cfg))))"
proof -
  have ne: "tb_start cfg \<noteq> []" "tb_end cfg \<noteq> []" "0 < tb_budget cfg"
    using assms(1) by (simp_all add: config_ok_def cfg_def)
  note S = span_reasoning [OF ne(1), of xs]
  note run = force_for_def [of s n, folded cfg_def xs_def, unfolded Let_def]
  have beyond: "max 0 (b - t) \<ge> n \<longleftrightarrow> t + n \<le> b" for b t :: int using assms(2) by linarith
  show "force_for s n = Inr None" if "\<nexists>start. reasoning cfg xs start"
    using S that assms(2) run by (simp add: cfg_def xs_def)
  show "force_for s n = Inr (Some (0, tb_end cfg ! end_prefix_length cfg xs))"
    if r: "reasoning cfg xs start" "0 < end_prefix_length cfg xs"
    using S that assms(2) run by (simp add: cfg_def xs_def)
  assume r: "reasoning cfg xs start" "end_prefix_length cfg xs = 0"
  have "force_for s n = (if max 0 (tb_budget cfg - reasoning_tokens cfg xs start) \<ge> n then Inr None
      else Inr (Some (max 0 (tb_budget cfg - reasoning_tokens cfg xs start), tb_end cfg ! 0)))"
    using S r assms(2) run ne(2) unfolding reasoning_tokens_def
    by (auto simp: cfg_def xs_def simp del: max_def le_max_iff_disj)
  then show "force_for s n =
      (if reasoning_tokens cfg xs start + n \<le> tb_budget cfg then Inr None
       else Inr (Some (max 0 (tb_budget cfg - reasoning_tokens cfg xs start), hd (tb_end cfg))))"
    unfolding beyond using ne(2) by (simp add: hd_conv_nth)
qed

text \<open>
  \<^verbatim>\<open>force_for\<close> on every branch.  Outside a reasoning span nothing is forced; with the tail of the
  output inside an incomplete end marker the next position gets the marker's next token; otherwise
  the first end token is forced exactly where the budget runs out (at once when it is overdrawn),
  and nothing is forced while that position lies beyond the block.
\<close>

theorem force_for_spec:
  assumes "config_ok (ts_config s)" and "0 < n"
  defines "cfg \<equiv> ts_config s" and "xs \<equiv> all_token_ids s"
  shows "((\<nexists>start. reasoning cfg xs start) \<longrightarrow> force_for s n = Inr None) \<and>
    (\<forall>start. reasoning cfg xs start \<longrightarrow>
      (0 < end_prefix_length cfg xs \<longrightarrow> force_for s n = Inr (Some (0, tb_end cfg ! end_prefix_length cfg xs))) \<and>
      (end_prefix_length cfg xs = 0 \<longrightarrow>
        force_for s n =
          (if reasoning_tokens cfg xs start + n \<le> tb_budget cfg then Inr None
           else Inr (Some (max 0 (tb_budget cfg - reasoning_tokens cfg xs start), hd (tb_end cfg))))))"
  using force_for_run [OF assms(1,2)] unfolding cfg_def xs_def by blast

definition qwen_config :: thinking_config where
  "qwen_config = \<lparr>tb_budget = 3, tb_start = [100], tb_end = [200, 201]\<rparr>"

theorem force_for_spec_witness:
  "force_for (add_output [7, 8] (ts_init [5, 100] qwen_config)) 2 = Inr (Some (1, 200)) \<and>
   force_for (ts_init [5, 100] qwen_config) 2 = Inr None"
proof -
  have ok: "config_ok qwen_config" by (simp add: config_ok_def qwen_config_def)
  have r: "reasoning qwen_config [5, 100, 7, 8] 1" "reasoning qwen_config [5, 100] 1"
    "end_prefix_length qwen_config [5, 100, 7, 8] = 0" "end_prefix_length qwen_config [5, 100] = 0"
    by code_simp+
  show ?thesis
    using force_for_spec [of "add_output [7, 8] (ts_init [5, 100] qwen_config)" 2]
      force_for_spec [of "ts_init [5, 100] qwen_config" 2] ok r
    by (auto simp: add_output_def ts_init_def all_token_ids_def reasoning_tokens_def qwen_config_def)
qed


section \<open>The budget is enforced\<close>



definition run_rounds :: "(int \<times> int list) list \<Rightarrow> thinking_state \<Rightarrow> thinking_state" where
  "run_rounds rounds s = foldl (\<lambda>s (n, block). add_output block s) s rounds"

lemma run_rounds_simps [simp]:
  "run_rounds [] s = s" "run_rounds ((n, b) # rs) s = run_rounds rs (add_output b s)"
  by (simp_all add: run_rounds_def)

lemma add_output_simps [simp]:
  "ts_config (add_output b s) = ts_config s" "all_token_ids (add_output b s) = all_token_ids s @ b"
  by (simp_all add: add_output_def all_token_ids_def)

lemma config_run_rounds [simp]: "ts_config (run_rounds rs s) = ts_config s"
  by (induction rs arbitrary: s) auto






lemma reasoning_tokens_append [simp]:
  "reasoning_tokens cfg (xs @ b) start = reasoning_tokens cfg xs start + int (length b)"
  by (simp add: reasoning_tokens_def)









end
