(* ===== verification/Mtp_Accept.thy ===== *)
theory Mtp_Accept
  imports Prelude Complex_Main
begin

text \<open>
  Accepting and rejecting speculative draft tokens, \<^verbatim>\<open>runtime/mtp_accept.py\<close>, with the validated
  draw of \<^verbatim>\<open>runtime/sampling.py\<close>.  A tensor is the list of its rows.  Probabilities are rational
  numbers: rounding and non-finite entries of floating point are left out.  The random generator
  is a parameter, the two calls the source makes of it (\<^verbatim>\<open>torch.rand\<close>, \<^verbatim>\<open>torch.multinomial\<close>) being
  functions of its state.
\<close>

section \<open>Greedy acceptance\<close>

record decision =
  num_accepted :: nat
  committed :: "int list"
  rejected_at :: "nat option"

text \<open>The loop over positions: \<open>n\<close> positions are left, \<open>p\<close> is the current one.\<close>

primrec greedy_loop :: "int list \<Rightarrow> int list \<Rightarrow> nat \<Rightarrow> nat \<Rightarrow> int list \<Rightarrow> decision" where
  "greedy_loop draft predicted 0 p acc =
     \<lparr>num_accepted = p, committed = acc @ [predicted ! p], rejected_at = None\<rparr>"
| "greedy_loop draft predicted (Suc n) p acc =
     (if predicted ! p = draft ! (p + 1)
      then greedy_loop draft predicted n (p + 1) (acc @ [draft ! (p + 1)])
      else \<lparr>num_accepted = p, committed = acc @ [predicted ! p], rejected_at = Some p\<rparr>)"

definition determine_from_predictions :: "int list \<Rightarrow> int list \<Rightarrow> decision res" where
  "determine_from_predictions draft_tokens predicted_tokens =
     (if draft_tokens = [] then Inl (ValueError ''draft_tokens must contain an anchor token'')
      else let k = length draft_tokens - 1 in
        if length predicted_tokens < k + 1
        then Inl (ValueError ''predicted_tokens must contain K verifier predictions plus one bonus'')
        else Inr (greedy_loop draft_tokens predicted_tokens k 0 []))"

text \<open>\<^verbatim>\<open>argmax\<close> of a row: the first index of the largest entry; an empty row is an error.\<close>

fun argmax_from :: "nat \<Rightarrow> nat \<Rightarrow> 'a::linorder \<Rightarrow> 'a list \<Rightarrow> nat" where
  "argmax_from i best m [] = best"
| "argmax_from i best m (x # xs) =
     (if m < x then argmax_from (Suc i) i x xs else argmax_from (Suc i) best m xs)"

definition argmax_row :: "'a::linorder list \<Rightarrow> int res" where
  "argmax_row row = (case row of
     [] \<Rightarrow> Inl (IndexError ''argmax(): Expected reduction dim to have non-zero size'')
   | x # xs \<Rightarrow> Inr (int (argmax_from 1 0 x xs)))"

definition determine_accept_reject :: "int list \<Rightarrow> 'a::linorder list list \<Rightarrow> decision res" where
  "determine_accept_reject draft_tokens verify_logits =
     bind_res (map_res argmax_row (take (length draft_tokens) verify_logits)) (\<lambda>predicted.
       determine_from_predictions draft_tokens predicted)"

section \<open>The batched form\<close>

text \<open>Elementwise operations stretch a dimension of size one.\<close>

definition broadcast :: "('a \<Rightarrow> 'b \<Rightarrow> 'c) \<Rightarrow> 'a list \<Rightarrow> 'b list \<Rightarrow> 'c list res" where
  "broadcast f xs ys =
     (if length xs = length ys then Inr (map2 f xs ys)
      else if length xs = 1 then Inr (map (f (hd xs)) ys)
      else if length ys = 1 then Inr (map (\<lambda>x. f x (hd ys)) xs)
      else Inl (RuntimeError ''The size of tensor a must match the size of tensor b''))"

primrec running_and :: "bool \<Rightarrow> bool list \<Rightarrow> bool list" where
  "running_and acc [] = []"
| "running_and acc (b # bs) = (acc \<and> b) # running_and (acc \<and> b) bs"

definition accepted_count :: "bool list \<Rightarrow> nat" where
  "accepted_count matches = length (filter id (running_and True matches))"

text \<open>
  Drafts come as a dictionary of token lists, one per slot (anchor first), or as a device tensor
  with one row per request.
\<close>

datatype drafts = Host_Drafts "int \<Rightarrow> int list option" | Device_Drafts "int list list"

fun draft_lists :: "drafts \<Rightarrow> int list \<Rightarrow> nat \<Rightarrow> int list list res" where
  "draft_lists (Device_Drafts rows) slots k =
     (if length rows = length slots \<and> (\<forall>row \<in> set rows. length row = k + 1)
      then Inr rows
      else Inl (ValueError ''device drafts must have shape [num_reqs, k+1]''))"
| "draft_lists (Host_Drafts d) slots k =
     bind_res (map_res (\<lambda>s. case d s of None \<Rightarrow> Inl (KeyError ''drafts'') | Some ds \<Rightarrow> Inr ds) slots) (\<lambda>rows.
       if (case rows of [] \<Rightarrow> True | r # rs \<Rightarrow> \<forall>ds \<in> set rs. length (tl ds) = length (tl r)) then Inr rows
       else Inl (ValueError ''expected sequence of equal length''))"

text \<open>\<^verbatim>\<open>verify_logits.argmax(dim=-1).view(num_reqs, k + 1)\<close>\<close>

definition view_rows :: "nat \<Rightarrow> nat \<Rightarrow> 'a list \<Rightarrow> 'a list list res" where
  "view_rows n w xs =
     (if length xs = n * w then Inr (map (\<lambda>i. take w (drop (i * w) xs)) [0..<n])
      else Inl (RuntimeError ''shape is invalid for input of size''))"

definition batch_committed :: "drafts \<Rightarrow> int list \<Rightarrow> int list \<Rightarrow> nat \<Rightarrow> int list res" where
  "batch_committed drafts ds pred na =
     (if length pred \<le> na then Inl (IndexError ''list index out of range'')
      else case drafts of
        Device_Drafts _ \<Rightarrow> Inr (take na pred @ [pred ! na])
      | Host_Drafts _ \<Rightarrow>
          if na \<le> length (tl ds) then Inr (take na (tl ds) @ [pred ! na])
          else Inl (IndexError ''list index out of range''))"

definition batch_row :: "drafts \<Rightarrow> nat \<Rightarrow> int list \<Rightarrow> int list \<Rightarrow> decision res" where
  "batch_row drafts k ds pred =
     bind_res (broadcast (\<lambda>p d. p = d) (take k pred) (tl ds)) (\<lambda>matches.
       let na = (if k > 0 then accepted_count matches else 0) in
       bind_res (batch_committed drafts ds pred na) (\<lambda>c.
         Inr \<lparr>num_accepted = na, committed = c, rejected_at = (if na < k then Some na else None)\<rparr>))"

definition determine_batch ::
  "int list \<Rightarrow> drafts \<Rightarrow> 'a::linorder list list \<Rightarrow> nat \<Rightarrow> (int \<times> decision) list res" where
  "determine_batch slots drafts verify_logits k =
     bind_res (map_res argmax_row verify_logits) (\<lambda>flat.
     bind_res (view_rows (length slots) (k + 1) flat) (\<lambda>predicted.
     bind_res (draft_lists drafts slots k) (\<lambda>dss.
     if slots = [] \<and> k > 1 \<and> (\<exists>d. drafts = Host_Drafts d)
     then Inl (RuntimeError ''The size of tensor a must match the size of tensor b'')
     else bind_res (map_res (\<lambda>(ds, pred). batch_row drafts k ds pred) (zip dss predicted)) (\<lambda>rows.
       Inr (foldl (\<lambda>d (s, dec). dict_set d s dec) [] (zip slots rows))))))"


subsection \<open>The longest matching prefix\<close>

definition match_prefix :: "int list \<Rightarrow> int list \<Rightarrow> nat \<Rightarrow> nat" where
  "match_prefix draft predicted k = length (takeWhile (\<lambda>i. predicted ! i = draft ! (i + 1)) [0..<k])"

definition greedy_decision :: "int list \<Rightarrow> int list \<Rightarrow> nat \<Rightarrow> decision" where
  "greedy_decision draft predicted k =
     (let m = match_prefix draft predicted k
      in \<lparr>num_accepted = m, committed = take m (tl draft) @ [predicted ! m],
          rejected_at = (if m < k then Some m else None)\<rparr>)"

lemma greedy_loop_run:
  "greedy_loop draft predicted n p acc =
     (let m = p + length (takeWhile (\<lambda>i. predicted ! i = draft ! (i + 1)) [p..<p + n])
      in \<lparr>num_accepted = m, committed = acc @ map (\<lambda>i. draft ! (i + 1)) [p..<m] @ [predicted ! m],
          rejected_at = (if m < p + n then Some m else None)\<rparr>)"
proof (induction n arbitrary: p acc)
  case (Suc n)
  have up: "[p..<p + Suc n] = p # [Suc p..<Suc p + n]" by (simp add: upt_conv_Cons del: upt_Suc)
  show ?case
  proof (cases "predicted ! p = draft ! (p + 1)")
    case True
    let ?m = "Suc p + length (takeWhile (\<lambda>i. predicted ! i = draft ! (i + 1)) [Suc p..<Suc p + n])"
    have "[p..<?m] = p # [Suc p..<?m]" by (subst upt_conv_Cons) (simp_all del: upt_Suc)
    then show ?thesis using True Suc.IH [of "Suc p"] unfolding up by (simp add: Let_def del: upt_Suc)
  next
    case False
    then show ?thesis unfolding up by (simp add: Let_def del: upt_Suc)
  qed
qed (simp add: Let_def)

lemma match_prefix_le: "match_prefix draft predicted k \<le> k"
  unfolding match_prefix_def using length_takeWhile_le [of _ "[0..<k]"] by simp

lemma take_tl_map:
  "m \<le> length (tl xs) \<Longrightarrow> take m (tl xs) = map (\<lambda>i. xs ! (i + 1)) [0..<m]"
  by (intro nth_equalityI) (simp_all add: nth_tl)

lemma greedy_loop_decision:
  assumes "length draft = k + 1"
  shows "greedy_loop draft predicted k 0 [] = greedy_decision draft predicted k"
proof -
  have "take (match_prefix draft predicted k) (tl draft) =
      map (\<lambda>i. draft ! (i + 1)) [0..<match_prefix draft predicted k]"
    using match_prefix_le [of draft predicted k] assms by (intro take_tl_map) simp
  then show ?thesis
    unfolding greedy_loop_run greedy_decision_def by (simp add: match_prefix_def Let_def)
qed

lemma match_prefix_spec:
  assumes "m = match_prefix draft predicted k"
  shows "\<forall>i < m. predicted ! i = draft ! (i + 1)" and "m < k \<Longrightarrow> predicted ! m \<noteq> draft ! (m + 1)"
proof -
  let ?P = "\<lambda>i. predicted ! i = draft ! (i + 1)"
  have tw: "takeWhile ?P [0..<k] = [0..<m]"
    using assms match_prefix_le [of draft predicted k]
    by (subst takeWhile_eq_take) (simp add: match_prefix_def)
  show "\<forall>i < m. predicted ! i = draft ! (i + 1)"
  proof (intro allI impI)
    fix i assume "i < m"
    then have "i \<in> set (takeWhile ?P [0..<k])" unfolding tw by simp
    then show "predicted ! i = draft ! (i + 1)" by (rule set_takeWhileD [THEN conjunct2])
  qed
  show "predicted ! m \<noteq> draft ! (m + 1)" if "m < k"
    using nth_length_takeWhile [of ?P "[0..<k]"] that assms by (simp add: match_prefix_def)
qed

lemma running_and_False: "filter id (running_and False bs) = []"
  by (induction bs) simp_all

lemma accepted_count_takeWhile: "accepted_count bs = length (takeWhile id bs)"
proof (induction bs)
  case (Cons b bs)
  then show ?case by (cases b) (simp_all add: accepted_count_def running_and_False)
qed (simp add: accepted_count_def)

lemma batch_row_greedy:
  assumes "length ds = k + 1" and "length pred = k + 1"
  shows "batch_row drafts k ds pred = Inr (greedy_decision ds pred k)"
proof -
  let ?P = "\<lambda>i. pred ! i = ds ! (i + 1)"
  let ?m = "match_prefix ds pred k"
  have m: "?m \<le> k" by (rule match_prefix_le)
  have "map2 (\<lambda>p d. p = d) (take k pred) (tl ds) = map ?P [0..<k]"
    using assms by (intro nth_equalityI) (simp_all add: nth_tl)
  then have bc: "broadcast (\<lambda>p d. p = d) (take k pred) (tl ds) = Inr (map ?P [0..<k])"
    using assms by (simp add: broadcast_def)
  have "accepted_count (map ?P [0..<k]) = ?m"
    by (simp add: accepted_count_takeWhile takeWhile_map match_prefix_def comp_def)
  then have na: "(if k > 0 then accepted_count (map ?P [0..<k]) else 0) = ?m"
    using m by (cases k) simp_all
  have "take ?m pred = take ?m (tl ds)"
    using match_prefix_spec(1) [OF refl, of ds pred k] assms m
    by (intro nth_equalityI) (simp_all add: nth_tl)
  then have "batch_committed drafts ds pred ?m = Inr (take ?m (tl ds) @ [pred ! ?m])"
    using assms m by (simp add: batch_committed_def split: drafts.split)
  then show ?thesis
    unfolding batch_row_def bc bind_res_simps na Let_def greedy_decision_def by simp
qed

lemma dict_of_distinct:
  assumes "distinct (map fst d @ map fst kvs)"
  shows "foldl (\<lambda>d (s, dec). dict_set d s dec) d kvs = d @ kvs"
  using assms
proof (induction kvs arbitrary: d)
  case (Cons x kvs)
  obtain k v where x: "x = (k, v)" by (cases x)
  have "k \<notin> fst ` set d" using Cons.prems x by auto
  then have "foldl (\<lambda>d (s, dec). dict_set d s dec) d (x # kvs) =
      foldl (\<lambda>d (s, dec). dict_set d s dec) (d @ [(k, v)]) kvs"
    using x by (simp add: dict_set_fresh)
  also have "\<dots> = (d @ [(k, v)]) @ kvs"
    using Cons.prems x by (intro Cons.IH) auto
  finally show ?case using x by simp
qed simp


subsection \<open>The batch computes the sequential decisions\<close>

lemma determine_from_predictions_run:
  assumes "length draft = k + 1" and "length predicted = k + 1"
  shows "determine_from_predictions draft predicted = Inr (greedy_decision draft predicted k)"
  using assms greedy_loop_decision [OF assms(1)] by (cases draft) (simp_all add: determine_from_predictions_def Let_def)

lemma argmax_rows:
  assumes "\<forall>row \<in> set rows. row \<noteq> []"
  shows "map_res argmax_row rows = Inr (map (\<lambda>row. int (argmax_from 1 0 (hd row) (tl row))) rows)"
  using assms by (intro map_res_Inr) (auto simp: argmax_row_def split: list.split)

lemma map_res_zip:
  assumes "length xs = length ys" and "\<And>i. i < length xs \<Longrightarrow> f (xs ! i) (ys ! i) = Inr (g i)"
  shows "map_res (\<lambda>(x, y). f x y) (zip xs ys) = Inr (map g [0..<length xs])"
  using assms
proof (induction xs ys arbitrary: g rule: list_induct2)
  case (Cons x xs y ys)
  have "map_res (\<lambda>(x, y). f x y) (zip xs ys) = Inr (map (\<lambda>i. g (Suc i)) [0..<length xs])"
    using Cons.prems by (intro Cons.IH) fastforce
  moreover have "map g [0..<length (x # xs)] = g 0 # map (\<lambda>i. g (Suc i)) [0..<length xs]"
    by (simp add: upt_conv_Cons map_Suc_upt [symmetric] del: upt_Suc)
  ultimately show ?case using Cons.prems(1) [of 0] by simp
qed simp

lemma block_bounds:
  "i < (n :: nat) \<Longrightarrow> i * w + w \<le> n * w"
  using mult_le_mono1 [of "Suc i" n w] by simp

lemma determine_batch_run:
  assumes d: "distinct slots" and k: "\<forall>ds \<in> set dss. length ds = k + 1" and n: "length dss = length slots"
    and dss: "draft_lists drafts slots k = Inr dss"
    and rows: "length logits = length slots * (k + 1)" "\<forall>row \<in> set logits. row \<noteq> []"
  defines "pred i \<equiv> take (k + 1) (drop (i * (k + 1)) (map (\<lambda>row. int (argmax_from 1 0 (hd row) (tl row))) logits))"
  shows "determine_batch slots drafts logits k =
      (if slots = [] \<and> k > 1 \<and> (\<exists>d. drafts = Host_Drafts d)
       then Inl (RuntimeError ''The size of tensor a must match the size of tensor b'')
       else Inr (zip slots (map (\<lambda>i. greedy_decision (dss ! i) (pred i) k) [0..<length slots])))"
proof -
  let ?flat = "map (\<lambda>row. int (argmax_from 1 0 (hd row) (tl row))) logits"
  let ?dec = "map (\<lambda>i. greedy_decision (dss ! i) (pred i) k) [0..<length slots]"
  have flat: "map_res argmax_row logits = Inr ?flat" using rows(2) by (rule argmax_rows)
  have view: "view_rows (length slots) (k + 1) ?flat = Inr (map pred [0..<length slots])"
    using rows(1) by (simp add: view_rows_def pred_def)
  have len: "length (pred i) = k + 1" if "i < length slots" for i
    using block_bounds [OF that, of "k + 1"] rows(1) by (simp add: pred_def)
  have "map_res (\<lambda>(ds, pr). batch_row drafts k ds pr) (zip dss (map pred [0..<length slots])) =
      Inr (map (\<lambda>i. greedy_decision (dss ! i) (pred i) k) [0..<length dss])"
    using n k len by (intro map_res_zip) (simp_all add: batch_row_greedy)
  then have dec: "map_res (\<lambda>(ds, pr). batch_row drafts k ds pr) (zip dss (map pred [0..<length slots])) = Inr ?dec"
    using n by simp
  have "foldl (\<lambda>d (s, dec). dict_set d s dec) [] (zip slots ?dec) = [] @ zip slots ?dec"
    using d by (intro dict_of_distinct) simp
  then show ?thesis
    unfolding determine_batch_def flat bind_res_simps view dss dec by simp
qed

text \<open>
  C18: the vectorized decision is the sequential one.  For distinct slots with one anchor and \<open>k\<close>
  drafts each, and \<open>k + 1\<close> logits rows per slot, \<^verbatim>\<open>determine_accept_reject_batch\<close> answers for each slot,
  in order, exactly what \<^verbatim>\<open>determine_accept_reject\<close> answers on the slot's own drafts and rows, and
  giving the drafts as a device tensor changes nothing.
\<close>

theorem batch_matches_sequential:
  assumes "distinct slots" and "slots \<noteq> []" and "\<forall>s \<in> set slots. \<exists>ds. d s = Some ds \<and> length ds = k + 1"
    and "length logits = length slots * (k + 1)" and "\<forall>row \<in> set logits. row \<noteq> []"
  shows "\<exists>ds. determine_batch slots (Host_Drafts d) logits k = Inr ds \<and>
    determine_batch slots (Device_Drafts (map (\<lambda>s. the (d s)) slots)) logits k = Inr ds \<and>
    map fst ds = slots \<and>
    (\<forall>i < length slots. determine_accept_reject (the (d (slots ! i)))
       (take (k + 1) (drop (i * (k + 1)) logits)) = Inr (snd (ds ! i)))"
proof -
  let ?dss = "map (\<lambda>s. the (d s)) slots"
  let ?am = "\<lambda>row. int (argmax_from 1 0 (hd row) (tl row))"
  let ?pred = "\<lambda>i. take (k + 1) (drop (i * (k + 1)) (map ?am logits))"
  let ?res = "zip slots (map (\<lambda>i. greedy_decision (?dss ! i) (?pred i) k) [0..<length slots])"
  have k: "\<forall>ds \<in> set ?dss. length ds = k + 1" using assms(3) by fastforce
  have got: "map_res (\<lambda>s. case d s of None \<Rightarrow> Inl (KeyError ''drafts'') | Some ds \<Rightarrow> Inr ds) slots = Inr ?dss"
    using assms(3) by (intro map_res_Inr) fastforce
  have host: "draft_lists (Host_Drafts d) slots k = Inr ?dss"
    using got k by (auto split: list.split)
  have dev: "draft_lists (Device_Drafts ?dss) slots k = Inr ?dss" using k by simp
  have "determine_accept_reject (?dss ! i) (take (k + 1) (drop (i * (k + 1)) logits)) =
      Inr (greedy_decision (?dss ! i) (?pred i) k)" if i: "i < length slots" for i
  proof -
    have len: "length (?dss ! i) = k + 1" using k i by (simp only: all_set_conv_all_nth length_map)
    have p: "length (?pred i) = k + 1" using block_bounds [OF i, of "k + 1"] assms(4) by simp
    have "\<forall>row \<in> set (take (k + 1) (drop (i * (k + 1)) logits)). row \<noteq> []"
      using assms(5) by (meson in_set_dropD in_set_takeD)
    then have am: "map_res argmax_row (take (k + 1) (drop (i * (k + 1)) logits)) = Inr (?pred i)"
      by (simp only: argmax_rows take_map drop_map)
    have "take (length (?dss ! i)) (take (k + 1) (drop (i * (k + 1)) logits)) =
        take (k + 1) (drop (i * (k + 1)) logits)" unfolding len by simp
    then show ?thesis
      unfolding determine_accept_reject_def using am determine_from_predictions_run [OF len p] by simp
  qed
  moreover have "determine_batch slots (Host_Drafts d) logits k = Inr ?res"
    using determine_batch_run [OF assms(1) k _ host assms(4,5)] assms(2) by simp
  moreover have "determine_batch slots (Device_Drafts ?dss) logits k = Inr ?res"
    using determine_batch_run [OF assms(1) k _ dev assms(4,5)] assms(2) by simp
  ultimately show ?thesis by (intro exI [of _ ?res]) simp
qed

theorem batch_matches_sequential_witness:
  "determine_accept_reject [7, 1, 5] [[0, 9, 1], [2, 1, 0], [0, 0, 4 :: int]] =
     Inr \<lparr>num_accepted = 1, committed = [1, 0], rejected_at = Some 1\<rparr> \<and>
   (\<exists>ds. determine_batch [4] (Host_Drafts [4 \<mapsto> [7, 1, 5]]) [[0, 9, 1], [2, 1, 0], [0, 0, 4 :: int]] 2 = Inr ds)"
proof -
  have "determine_accept_reject [7, 1, 5] [[0, 9, 1], [2, 1, 0], [0, 0, 4 :: int]] =
     Inr \<lparr>num_accepted = 1, committed = [1, 0], rejected_at = Some 1\<rparr>" by code_simp
  then show ?thesis
    using batch_matches_sequential [of "[4]" "[4 \<mapsto> [7, 1, 5]]" 2 "[[0, 9, 1], [2, 1, 0], [0, 0, 4 :: int]]"] by auto
qed

end
