(* ===== verification/Rejection_Sampling.thy ===== *)
theory Rejection_Sampling
  imports Mtp_Accept
begin

text \<open>
  The sampled counterpart of the greedy decision (\<^verbatim>\<open>sample_accept_reject\<close>, its two building blocks
  and the sparse form of \<^verbatim>\<open>runtime/mtp_accept.py\<close>), with the validation of
  \<^verbatim>\<open>runtime/sampling.py\<close>.  The generator's two calls are parameters; torch documents that a uniform
  draw lies in [0, 1) and that a multinomial draw has positive weight.
\<close>

section \<open>Distributions\<close>

definition valid_row :: "rat list \<Rightarrow> bool" where
  "valid_row row \<longleftrightarrow> (\<forall>x \<in> set row. 0 \<le> x) \<and> 0 < sum_list row"

definition validate_rows :: "rat list list \<Rightarrow> unit res" where
  "validate_rows rows =
     (if \<forall>row \<in> set rows. valid_row row then Inr ()
      else Inl (SamplingNumericalError ''probability distribution is non-finite, negative, or empty''))"

text \<open>Reading a tensor row at an index; negative indices count from the end.\<close>

definition tensor_get :: "'a list \<Rightarrow> int \<Rightarrow> 'a res" where
  "tensor_get row i = (case py_index (int (length row)) i of
     None \<Rightarrow> Inl (IndexError ''index is out of bounds for dimension'')
   | Some j \<Rightarrow> Inr (row ! nat j))"

definition clamp_ratio :: "rat \<Rightarrow> rat \<Rightarrow> rat" where
  "clamp_ratio p q = (if q \<le> 0 then 0 else min (p / q) 1)"

definition acceptance_probability :: "rat list \<Rightarrow> rat list \<Rightarrow> int \<Rightarrow> rat res" where
  "acceptance_probability target_row draft_row tok =
     bind_res (tensor_get draft_row tok) (\<lambda>q.
     if q \<le> 0 then Inr 0
     else bind_res (tensor_get target_row tok) (\<lambda>p. Inr (clamp_ratio p q)))"

definition normalized :: "rat list \<Rightarrow> rat list" where
  "normalized row = map (\<lambda>x. x / sum_list row) row"

definition residual_distribution :: "rat list \<Rightarrow> rat list \<Rightarrow> rat list res" where
  "residual_distribution target_row draft_row =
     bind_res (broadcast (-) target_row draft_row) (\<lambda>diff.
       let residual = map (max 0) diff
       in if sum_list residual \<le> 0 then Inr (normalized (map (max 0) target_row))
          else Inr (normalized residual))"

section \<open>The sampled decision\<close>

record 'g rng =
  rng_uniform :: "'g \<Rightarrow> rat \<times> 'g"
  rng_draw :: "rat list \<Rightarrow> 'g \<Rightarrow> nat \<times> 'g"

definition uniform :: "'g rng \<Rightarrow> ('g, rat) prog" where
  "uniform rng = (\<lambda>g. case rng_uniform rng g of (u, g') \<Rightarrow> (Inr u, g'))"

definition sample_from_distribution :: "'g rng \<Rightarrow> rat list \<Rightarrow> ('g, int) prog" where
  "sample_from_distribution rng probs =
     andThen (lift_res (validate_rows [probs])) (\<lambda>_ g.
       case rng_draw rng probs g of (x, g') \<Rightarrow> (Inr (int x), g'))"

text \<open>
  The loop over positions with the per-position computations as parameters: the acceptance
  probability and the distribution a rejection resamples from.
\<close>

primrec sample_loop ::
  "'g rng \<Rightarrow> (nat \<Rightarrow> rat res) \<Rightarrow> (nat \<Rightarrow> rat list res) \<Rightarrow> int list \<Rightarrow> rat list \<Rightarrow> nat \<Rightarrow> nat \<Rightarrow> int list \<Rightarrow> ('g, decision) prog" where
  "sample_loop rng accept residual drafts bonus_row 0 p acc =
     andThen (sample_from_distribution rng bonus_row) (\<lambda>bonus.
       ret \<lparr>num_accepted = p, committed = acc @ [bonus], rejected_at = None\<rparr>)"
| "sample_loop rng accept residual drafts bonus_row (Suc n) p acc =
     andThen (lift_res (accept p)) (\<lambda>a.
     andThen (uniform rng) (\<lambda>u.
     if u < a then sample_loop rng accept residual drafts bonus_row n (p + 1) (acc @ [drafts ! p])
     else
       andThen (lift_res (residual p)) (\<lambda>row.
       andThen (sample_from_distribution rng row) (\<lambda>recovered.
         ret \<lparr>num_accepted = p, committed = acc @ [recovered], rejected_at = Some p\<rparr>))))"

definition sample_accept_reject ::
  "'g rng \<Rightarrow> int list \<Rightarrow> rat list list \<Rightarrow> rat list list \<Rightarrow> ('g, decision) prog" where
  "sample_accept_reject rng draft_tokens draft_probs target_probs =
     (let k = length draft_tokens in
      guard (length draft_probs \<noteq> k) (ValueError ''draft_probs must have one row per draft token'') (
      guard (length target_probs < k + 1) (ValueError ''target_probs must contain K verifier distributions plus one bonus'') (
      andThen (lift_res (validate_rows draft_probs)) (\<lambda>_.
      andThen (lift_res (validate_rows target_probs)) (\<lambda>_.
        sample_loop rng
          (\<lambda>p. acceptance_probability (target_probs ! p) (draft_probs ! p) (draft_tokens ! p))
          (\<lambda>p. residual_distribution (target_probs ! p) (draft_probs ! p))
          draft_tokens (target_probs ! k) k 0 [])))))"

subsection \<open>The sparse form\<close>

text \<open>\<^verbatim>\<open>residual.scatter_add_(0, indices, -sparse_row)\<close>\<close>

primrec scatter_sub :: "rat list \<Rightarrow> (int \<times> rat) list \<Rightarrow> rat list res" where
  "scatter_sub row [] = Inr row"
| "scatter_sub row (e # es) =
     (case e of (i, q) \<Rightarrow>
        if 0 \<le> i \<and> i < int (length row) then scatter_sub (row[nat i := row ! nat i - q]) es
        else Inl (RuntimeError ''index is out of bounds for dimension 0''))"

definition sparse_mass :: "int list \<Rightarrow> rat list \<Rightarrow> int \<Rightarrow> rat" where
  "sparse_mass indices row tok = sum_list (map snd (filter (\<lambda>(i, _). i = tok) (zip indices row)))"

definition sparse_accept :: "int list \<Rightarrow> rat list \<Rightarrow> rat list \<Rightarrow> int \<Rightarrow> rat res" where
  "sparse_accept indices sparse_row target_row tok =
     bind_res (tensor_get target_row tok) (\<lambda>p. Inr (clamp_ratio p (sparse_mass indices sparse_row tok)))"

definition sparse_residual :: "int list \<Rightarrow> rat list \<Rightarrow> rat list \<Rightarrow> rat list res" where
  "sparse_residual indices sparse_row target_row =
     bind_res (scatter_sub target_row (zip indices sparse_row)) (\<lambda>diff.
       let residual = map (max 0) diff
       in if sum_list residual > 0 then Inr (normalized residual) else Inr target_row)"

definition sample_accept_reject_sparse ::
  "'g rng \<Rightarrow> int list \<Rightarrow> int list list \<Rightarrow> rat list list \<Rightarrow> rat list list \<Rightarrow> ('g, decision) prog" where
  "sample_accept_reject_sparse rng draft_tokens draft_indices draft_probs target_probs =
     (let k = length draft_tokens in
      guard (length draft_indices \<noteq> k) (ValueError ''draft_indices must have shape [K, top_k]'') (
      guard (map length draft_probs \<noteq> map length draft_indices)
        (ValueError ''draft_probs must have the same shape as draft_indices'') (
      guard (length target_probs < k + 1) (ValueError ''target_probs must contain K verifier rows plus one bonus row'') (
      andThen (lift_res (validate_rows draft_probs)) (\<lambda>_.
      andThen (lift_res (validate_rows target_probs)) (\<lambda>_.
        sample_loop rng
          (\<lambda>p. sparse_accept (draft_indices ! p) (draft_probs ! p) (target_probs ! p) (draft_tokens ! p))
          (\<lambda>p. sparse_residual (draft_indices ! p) (draft_probs ! p) (target_probs ! p))
          draft_tokens (target_probs ! k) k 0 []))))))"

section \<open>The marginal distribution\<close>

lemma tensor_get_nth [simp]: "i < length row \<Longrightarrow> tensor_get row (int i) = Inr (row ! i)"
  by (simp add: tensor_get_def py_index_def)

lemma accept_nth:
  "length target = length draft \<Longrightarrow> x < length draft \<Longrightarrow>
   acceptance_probability target draft (int x) = Inr (clamp_ratio (target ! x) (draft ! x))"
  by (simp add: acceptance_probability_def clamp_ratio_def)

lemma mass_accepted: "0 \<le> p \<Longrightarrow> 0 \<le> q \<Longrightarrow> q * clamp_ratio p q = min p q"
  by (auto simp: clamp_ratio_def min_def field_simps)

lemma sum_list_nonneg_zero:
  "(\<forall>x \<in> set xs. 0 \<le> x) \<Longrightarrow> sum_list xs \<le> 0 \<Longrightarrow> i < length xs \<Longrightarrow> xs ! i = (0 :: rat)"
  by (metis nth_mem order_antisym sum_list_nonneg sum_list_nonneg_eq_0_iff)

lemma residual_run:
  assumes "length target = length draft"
  shows "residual_distribution target draft =
    (let r = map2 (\<lambda>p q. max 0 (p - q)) target draft
     in if sum_list r \<le> 0 then Inr (normalized (map (max 0) target)) else Inr (normalized r))"
proof -
  have "map (max 0) (map2 (-) target draft) = map2 (\<lambda>p q. max 0 (p - q)) target draft"
    by (intro nth_equalityI) simp_all
  then show ?thesis
    unfolding residual_distribution_def broadcast_def Let_def using assms by (simp only: simp_thms if_True bind_res_simps)
qed

text \<open>The mass rejected equals the residual mass, because both rows carry the same total.\<close>

lemma rejected_mass:
  fixes target draft :: "rat list"
  assumes "length target = length draft" and "sum_list target = sum_list draft"
  shows "(\<Sum>y < length draft. draft ! y - min (target ! y) (draft ! y)) =
    sum_list (map2 (\<lambda>p q. max 0 (p - q)) target draft)"
proof -
  let ?n = "length draft"
  have s: "sum_list xs = (\<Sum>y < length xs. xs ! y)" for xs :: "rat list"
    by (simp add: sum_list_sum_nth atLeast0LessThan)
  have "(\<Sum>y < ?n. draft ! y - min (target ! y) (draft ! y)) =
      (\<Sum>y < ?n. (draft ! y - target ! y) + max 0 (target ! y - draft ! y))"
    by (intro sum.cong) (auto simp: min_def max_def)
  also have "\<dots> = (\<Sum>y < ?n. max 0 (target ! y - draft ! y))"
    using assms by (simp add: sum.distrib sum_subtractf s)
  also have "\<dots> = sum_list (map2 (\<lambda>p q. max 0 (p - q)) target draft)"
    using assms(1) unfolding s by (intro sum.cong) simp_all
  finally show ?thesis .
qed

text \<open>
  C15: rejection sampling is exact.  For two distributions over one vocabulary, whatever the draft
  distribution is, drawing a token from it, accepting with \<^verbatim>\<open>acceptance_probability\<close> and drawing from
  \<^verbatim>\<open>residual_distribution\<close> on a rejection yields each token with exactly its target probability.
\<close>

theorem rejection_sampling_exact:
  assumes "length target = length draft" and "x < length draft"
    and "\<forall>p \<in> set target. 0 \<le> p" and "\<forall>q \<in> set draft. 0 \<le> q"
    and "sum_list target = 1" and "sum_list draft = 1"
  shows "\<exists>a residual.
    (\<forall>y < length draft. acceptance_probability target draft (int y) = Inr (a y) \<and> 0 \<le> a y \<and> a y \<le> 1) \<and>
    residual_distribution target draft = Inr residual \<and>
    draft ! x * a x + (\<Sum>y < length draft. draft ! y * (1 - a y)) * residual ! x = target ! x"
proof -
  let ?a = "\<lambda>y. clamp_ratio (target ! y) (draft ! y)"
  let ?r = "map2 (\<lambda>p q. max 0 (p - q)) target draft"
  have pos: "0 \<le> target ! y" "0 \<le> draft ! y" if "y < length draft" for y
    using that assms(1,3,4) by simp_all
  have a: "acceptance_probability target draft (int y) = Inr (?a y) \<and> 0 \<le> ?a y \<and> ?a y \<le> 1"
    if "y < length draft" for y
    using accept_nth [OF assms(1) that] pos [OF that] by (auto simp: clamp_ratio_def)
  have "(\<Sum>y < length draft. draft ! y * (1 - ?a y)) =
      (\<Sum>y < length draft. draft ! y - min (target ! y) (draft ! y))"
    using mass_accepted pos by (intro sum.cong) (simp_all add: right_diff_distrib)
  then have mass: "(\<Sum>y < length draft. draft ! y * (1 - ?a y)) = sum_list ?r"
    using rejected_mass [OF assms(1)] assms(5,6) by simp
  have rx: "?r ! x = max 0 (target ! x - draft ! x)" using assms(1,2) by simp
  have acc: "draft ! x * ?a x = min (target ! x) (draft ! x)"
    using mass_accepted pos [OF assms(2)] by simp
  have nonneg: "\<forall>y \<in> set ?r. 0 \<le> y" by (auto simp: set_zip)
  show ?thesis
  proof (cases "sum_list ?r \<le> 0")
    case True
    have "sum_list ?r = 0" using True sum_list_nonneg [of ?r] nonneg by fastforce
    moreover have "?r ! x = 0" using sum_list_nonneg_zero [OF nonneg True] assms(1,2) by simp
    ultimately have "draft ! x * ?a x + (\<Sum>y < length draft. draft ! y * (1 - ?a y)) * (normalized (map (max 0) target) ! x) = target ! x"
      using acc mass rx by (simp add: min_def max_def split: if_splits)
    moreover have "residual_distribution target draft = Inr (normalized (map (max 0) target))"
      using residual_run [OF assms(1)] True by (simp add: Let_def)
    ultimately show ?thesis using a by (intro exI [of _ ?a] exI) blast
  next
    case False
    have "normalized ?r ! x = ?r ! x / sum_list ?r" using assms(1,2) by (simp add: normalized_def)
    then have "sum_list ?r * (normalized ?r ! x) = max 0 (target ! x - draft ! x)" using False rx by simp
    then have "draft ! x * ?a x + (\<Sum>y < length draft. draft ! y * (1 - ?a y)) * (normalized ?r ! x) = target ! x"
      unfolding mass acc by (simp add: min_def max_def)
    moreover have "residual_distribution target draft = Inr (normalized ?r)"
      using residual_run [OF assms(1)] False by (simp add: Let_def)
    ultimately show ?thesis using a by (intro exI [of _ ?a] exI) blast
  qed
qed

theorem rejection_sampling_exact_witness:
  "residual_distribution [1/2, 1/2] [1/4, 3/4] = Inr [1, 0] \<and>
   acceptance_probability [1/2, 1/2] [1/4, 3/4] 1 = Inr (2/3)"
proof -
  have r: "residual_distribution [1/2, 1/2] [1/4, 3/4] = Inr [1, 0]" by code_simp
  obtain a where a: "\<forall>y < length [1/4, 3/4 :: rat]. acceptance_probability [1/2, 1/2] [1/4, 3/4] (int y) = Inr (a y) \<and> 0 \<le> a y \<and> a y \<le> 1"
    "[1/4, 3/4] ! 1 * a 1 + (\<Sum>y < length [1/4, 3/4 :: rat]. [1/4, 3/4] ! y * (1 - a y)) * [1, 0] ! 1 = [1/2, 1/2 :: rat] ! 1"
    using rejection_sampling_exact [of "[1/2, 1/2]" "[1/4, 3/4]" 1] r by auto
  have "3/4 * a 1 = 1/2" using a(2) by simp
  then have "a 1 = 2/3" by simp
  then show ?thesis using a(1) r by fastforce
qed


section \<open>What a decision may contain\<close>

definition rng_ok :: "'g rng \<Rightarrow> bool" where
  "rng_ok rng \<longleftrightarrow> (\<forall>g. 0 \<le> fst (rng_uniform rng g) \<and> fst (rng_uniform rng g) < 1) \<and>
     (\<forall>row g. valid_row row \<longrightarrow>
        fst (rng_draw rng row g) < length row \<and> 0 < row ! fst (rng_draw rng row g))"

lemma rng_uniformE:
  assumes "rng_ok rng"
  obtains u g' where "uniform rng g = (Inr u, g')" and "0 \<le> u" and "u < 1"
  using assms by (cases "rng_uniform rng g") (auto simp: rng_ok_def uniform_def dest: spec [of _ g])

lemma rng_drawE:
  assumes "rng_ok rng" and "valid_row row"
  obtains x g' where "sample_from_distribution rng row g = (Inr (int x), g')" and "x < length row" and "0 < row ! x"
proof -
  obtain x g' where x: "rng_draw rng row g = (x, g')" by (cases "rng_draw rng row g")
  have "x < length row \<and> 0 < row ! x" using assms x unfolding rng_ok_def by (metis fst_conv)
  moreover have "sample_from_distribution rng row g = (Inr (int x), g')"
    using assms(2) x by (simp add: sample_from_distribution_def validate_rows_def andThen_def)
  ultimately show ?thesis using that by blast
qed

text \<open>
  One run of the loop: \<open>good i t\<close> holds of every committed token at its position when it holds of
  every accepted draft and of everything a row of weights can yield; a \<open>sure\<close> position, whose
  acceptance probability is one, is never rejected.
\<close>

lemma sample_loop_ok:
  assumes rng: "rng_ok rng"
    and step: "\<And>i. i < k \<Longrightarrow> \<exists>a row. accept i = Inr a \<and> residual i = Inr row \<and> valid_row row \<and>
      (0 < a \<longrightarrow> good i (toks ! i)) \<and> (sure i \<longrightarrow> 1 \<le> a) \<and>
      (\<forall>x < length row. 0 < row ! x \<longrightarrow> good i (int x))"
    and bonus: "valid_row bonus" "\<And>x. x < length bonus \<Longrightarrow> 0 < bonus ! x \<Longrightarrow> good k (int x)"
    and k: "k = length toks"
  shows "p + n = k \<Longrightarrow> \<exists>m c g'. sample_loop rng accept residual toks bonus n p acc g =
      (Inr \<lparr>num_accepted = m, committed = acc @ take (m - p) (drop p toks) @ [c],
        rejected_at = (if m < k then Some m else None)\<rparr>, g') \<and>
    p \<le> m \<and> m \<le> k \<and> (\<forall>i. p \<le> i \<and> i < m \<longrightarrow> good i (toks ! i)) \<and> good m c \<and> (m < k \<longrightarrow> \<not> sure m)"
proof (induction n arbitrary: p acc g)
  case 0
  obtain x g' where "sample_from_distribution rng bonus g = (Inr (int x), g')" "x < length bonus" "0 < bonus ! x"
    using rng bonus(1) by (rule rng_drawE)
  then show ?case using 0 bonus(2) by (intro exI [of _ k] exI [of _ "int x"] exI [of _ g']) (auto simp: andThen_def)
next
  case (Suc n)
  then have p: "p < k" by simp
  obtain a row where ar: "accept p = Inr a" "residual p = Inr row" "valid_row row"
    "0 < a \<longrightarrow> good p (toks ! p)" "\<forall>x < length row. 0 < row ! x \<longrightarrow> good p (int x)" "sure p \<longrightarrow> 1 \<le> a"
    using step [OF p] by blast
  obtain u g1 where u: "uniform rng g = (Inr u, g1)" "0 \<le> u" "u < 1" using rng by (rule rng_uniformE)
  show ?case
  proof (cases "u < a")
    case True
    obtain m c g' where ih: "sample_loop rng accept residual toks bonus n (p + 1) (acc @ [toks ! p]) g1 =
        (Inr \<lparr>num_accepted = m, committed = (acc @ [toks ! p]) @ take (m - (p + 1)) (drop (p + 1) toks) @ [c],
          rejected_at = (if m < k then Some m else None)\<rparr>, g')"
      "p + 1 \<le> m" "m \<le> k" "\<forall>i. p + 1 \<le> i \<and> i < m \<longrightarrow> good i (toks ! i)" "good m c" "m < k \<longrightarrow> \<not> sure m"
      using Suc.IH [of "p + 1" "acc @ [toks ! p]" g1] Suc.prems by auto
    have mp: "m - p = Suc (m - (p + 1))" using ih(2) by simp
    have "take (m - p) (drop p toks) = toks ! p # take (m - (p + 1)) (drop (p + 1) toks)"
      unfolding mp using p k by (simp add: Cons_nth_drop_Suc [symmetric])
    moreover have "good p (toks ! p)" using ar(4) True u(2) by simp
    then have "\<forall>i. p \<le> i \<and> i < m \<longrightarrow> good i (toks ! i)" using ih(4) by (metis Suc_eq_plus1 Suc_leI le_neq_implies_less)
    moreover have "sample_loop rng accept residual toks bonus (Suc n) p acc g =
        sample_loop rng accept residual toks bonus n (p + 1) (acc @ [toks ! p]) g1"
      using ar(1) u(1) True by (simp add: andThen_def)
    ultimately show ?thesis using ih by (intro exI [of _ m] exI [of _ c] exI [of _ g']) simp
  next
    case False
    obtain x g' where x: "sample_from_distribution rng row g1 = (Inr (int x), g')" "x < length row" "0 < row ! x"
      using rng ar(3) by (rule rng_drawE)
    have "sample_loop rng accept residual toks bonus (Suc n) p acc g =
        (Inr \<lparr>num_accepted = p, committed = acc @ [int x], rejected_at = Some p\<rparr>, g')"
      using ar(1,2) u(1) False x(1) by (simp add: andThen_def)
    moreover have "\<forall>i. p \<le> i \<and> i < p \<longrightarrow> good i (toks ! i)" by auto
    moreover have "\<not> sure p" using ar(6) False u(3) by auto
    ultimately show ?thesis using p ar(5) x(2,3) by (intro exI [of _ p] exI [of _ "int x"] exI [of _ g']) simp
  qed
qed

lemma sum_list_map_div: "sum_list (map (\<lambda>x. x / s) xs) = sum_list xs / (s :: rat)"
  by (induction xs) (simp_all add: add_divide_distrib)

lemma valid_normalized: "valid_row row \<Longrightarrow> valid_row (normalized row)"
  by (auto simp: valid_row_def normalized_def sum_list_map_div)

lemma normalized_pos: "x < length row \<Longrightarrow> 0 < sum_list row \<Longrightarrow> 0 < normalized row ! x \<Longrightarrow> 0 < row ! x"
  by (simp add: normalized_def zero_less_divide_iff)

lemma valid_max: "valid_row row \<Longrightarrow> map (max 0) row = row"
  by (auto simp: valid_row_def intro: map_idI)

lemma residual_ok:
  assumes "valid_row target" and "\<forall>q \<in> set draft. 0 \<le> q" and "length target = length draft"
  shows "\<exists>row. residual_distribution target draft = Inr row \<and> valid_row row \<and> length row = length target \<and>
    (\<forall>x < length row. 0 < row ! x \<longrightarrow> 0 < target ! x)"
proof -
  let ?r = "map2 (\<lambda>p q. max 0 (p - q)) target draft"
  show ?thesis
  proof (cases "sum_list ?r \<le> 0")
    case True
    then have "residual_distribution target draft = Inr (normalized target)"
      using residual_run [OF assms(3)] valid_max [OF assms(1)] by (simp add: Let_def)
    then show ?thesis
      using valid_normalized [OF assms(1)] normalized_pos [of _ target] assms(1)
      by (auto simp: valid_row_def normalized_def)
  next
    case False
    have v: "valid_row ?r" using False by (auto simp: valid_row_def set_zip)
    have "0 < target ! x" if "x < length target" "0 < normalized ?r ! x" for x
    proof -
      have "0 < ?r ! x" using normalized_pos [of x ?r] that False assms(3) by simp
      then have "draft ! x < target ! x" using that assms(3) by (auto simp: max_def split: if_splits)
      moreover have "0 \<le> draft ! x" using assms(2,3) that(1) by simp
      ultimately show ?thesis by simp
    qed
    moreover have "residual_distribution target draft = Inr (normalized ?r)"
      using residual_run [OF assms(3)] False by (simp add: Let_def)
    ultimately show ?thesis using valid_normalized [OF v] assms(3) by (auto simp: normalized_def)
  qed
qed


text \<open>Inputs the source's checks let through: enough rows, all valid, one vocabulary, tokens inside it.\<close>

definition sampling_inputs :: "nat \<Rightarrow> int list \<Rightarrow> rat list list \<Rightarrow> rat list list \<Rightarrow> bool" where
  "sampling_inputs V toks draft_probs target_probs \<longleftrightarrow>
     length draft_probs = length toks \<and> length toks < length target_probs \<and>
     (\<forall>row \<in> set draft_probs. valid_row row \<and> length row = V) \<and>
     (\<forall>row \<in> set target_probs. valid_row row \<and> length row = V) \<and>
     (\<forall>t \<in> set toks. 0 \<le> t \<and> t < int V)"

lemma sampling_inputsD:
  assumes "sampling_inputs V toks draft_probs target_probs" and "i < length toks"
  shows "valid_row (draft_probs ! i)" and "length (draft_probs ! i) = V" and "0 \<le> toks ! i" and "toks ! i < int V"
    and "\<forall>q \<in> set (draft_probs ! i). 0 \<le> q"
  using assms by (auto simp: sampling_inputs_def valid_row_def)

lemma sampling_inputs_target:
  assumes "sampling_inputs V toks draft_probs target_probs" and "i \<le> length toks"
  shows "valid_row (target_probs ! i)" and "length (target_probs ! i) = V"
  using assms by (auto simp: sampling_inputs_def)

lemma sample_run:
  assumes "sampling_inputs V toks draft_probs target_probs"
  shows "sample_accept_reject rng toks draft_probs target_probs =
    sample_loop rng (\<lambda>p. acceptance_probability (target_probs ! p) (draft_probs ! p) (toks ! p))
      (\<lambda>p. residual_distribution (target_probs ! p) (draft_probs ! p))
      toks (target_probs ! length toks) (length toks) 0 []"
  using assms by (simp add: sample_accept_reject_def sampling_inputs_def validate_rows_def Let_def guard_def)

lemma accept_at:
  assumes "sampling_inputs V toks draft_probs target_probs" and "i < length toks"
  shows "acceptance_probability (target_probs ! i) (draft_probs ! i) (toks ! i) =
    Inr (clamp_ratio (target_probs ! i ! nat (toks ! i)) (draft_probs ! i ! nat (toks ! i)))"
proof -
  note D = sampling_inputsD [OF assms] and T = sampling_inputs_target [OF assms(1), of i]
  have "toks ! i = int (nat (toks ! i))" using D(3) by simp
  then show ?thesis using accept_nth [of "target_probs ! i" "draft_probs ! i" "nat (toks ! i)"] D T assms(2) by simp
qed

lemma sample_residual_at:
  assumes "sampling_inputs V toks draft_probs target_probs" and "i < length toks"
  shows "\<exists>row. residual_distribution (target_probs ! i) (draft_probs ! i) = Inr row \<and> valid_row row \<and>
    length row = V \<and> (\<forall>x < length row. 0 < row ! x \<longrightarrow> 0 < target_probs ! i ! x)"
proof -
  note D = sampling_inputsD [OF assms] and T = sampling_inputs_target [OF assms(1), of i]
  show ?thesis using residual_ok [of "target_probs ! i" "draft_probs ! i"] D T assms(2) by fastforce
qed

lemma sample_decides:
  assumes rng: "rng_ok rng" and inp: "sampling_inputs V toks draft_probs target_probs"
    and step: "\<And>i. i < length toks \<Longrightarrow>
      \<exists>a row. acceptance_probability (target_probs ! i) (draft_probs ! i) (toks ! i) = Inr a \<and>
        residual_distribution (target_probs ! i) (draft_probs ! i) = Inr row \<and> valid_row row \<and>
        (0 < a \<longrightarrow> good i (toks ! i)) \<and> (sure i \<longrightarrow> 1 \<le> a) \<and>
        (\<forall>x < length row. 0 < row ! x \<longrightarrow> good i (int x))"
    and bonus: "\<And>x. x < V \<Longrightarrow> 0 < target_probs ! length toks ! x \<Longrightarrow> good (length toks) (int x)"
  shows "\<exists>m c g'. sample_accept_reject rng toks draft_probs target_probs g =
      (Inr \<lparr>num_accepted = m, committed = take m toks @ [c],
        rejected_at = (if m < length toks then Some m else None)\<rparr>, g') \<and>
    m \<le> length toks \<and> (\<forall>i < m. good i (toks ! i)) \<and> good m c \<and> (m < length toks \<longrightarrow> \<not> sure m)"
proof -
  note T = sampling_inputs_target [OF inp order_refl]
  have b: "\<And>x. x < length (target_probs ! length toks) \<Longrightarrow> 0 < target_probs ! length toks ! x \<Longrightarrow>
      good (length toks) (int x)"
    using bonus T(2) by simp
  have run: "0 + length toks = length toks" by simp
  show ?thesis
    unfolding sample_run [OF inp]
    using sample_loop_ok [where p = 0 and acc = "[]" and g = g, OF rng step T(1) b refl run] by simp
qed

text \<open>
  C16: on well-formed inputs \<^verbatim>\<open>sample_accept_reject\<close> always decides.  It commits the accepted prefix of
  the drafts and exactly one more token, reports the position of the rejection (none when every
  draft is accepted), and every token it commits has positive probability in the target row of its
  position, so a token the target rules out never reaches the output.
\<close>

theorem sampled_decision_supported:
  assumes "rng_ok rng" and "sampling_inputs V toks draft_probs target_probs"
  shows "\<exists>m c g'. sample_accept_reject rng toks draft_probs target_probs g =
      (Inr \<lparr>num_accepted = m, committed = take m toks @ [c],
        rejected_at = (if m < length toks then Some m else None)\<rparr>, g') \<and>
    m \<le> length toks \<and>
    (\<forall>i \<le> m. let t = (take m toks @ [c]) ! i in 0 \<le> t \<and> t < int V \<and> 0 < target_probs ! i ! nat t)"
proof -
  let ?good = "\<lambda>i t. 0 \<le> t \<and> t < int V \<and> 0 < target_probs ! i ! nat t"
  let ?k = "length toks"
  have step: "\<exists>a row. acceptance_probability (target_probs ! i) (draft_probs ! i) (toks ! i) = Inr a \<and>
      residual_distribution (target_probs ! i) (draft_probs ! i) = Inr row \<and> valid_row row \<and>
      (0 < a \<longrightarrow> ?good i (toks ! i)) \<and> (False \<longrightarrow> 1 \<le> a) \<and>
      (\<forall>x < length row. 0 < row ! x \<longrightarrow> ?good i (int x))" if i: "i < ?k" for i
  proof -
    obtain row where row: "residual_distribution (target_probs ! i) (draft_probs ! i) = Inr row" "valid_row row"
      "length row = V" "\<forall>x < length row. 0 < row ! x \<longrightarrow> 0 < target_probs ! i ! x"
      using sample_residual_at [OF assms(2) i] by blast
    have "0 < clamp_ratio p q \<Longrightarrow> 0 < p" for p q :: rat
      by (auto simp: clamp_ratio_def zero_less_divide_iff split: if_splits)
    then show ?thesis using accept_at [OF assms(2) i] row sampling_inputsD(3,4) [OF assms(2) i] by auto
  qed
  have bonus: "?good ?k (int x)" if "x < V" "0 < target_probs ! ?k ! x" for x
    using that by simp
  obtain m c g' where m: "sample_accept_reject rng toks draft_probs target_probs g =
      (Inr \<lparr>num_accepted = m, committed = take m toks @ [c],
        rejected_at = (if m < ?k then Some m else None)\<rparr>, g')"
    "m \<le> ?k" "\<forall>i < m. ?good i (toks ! i)" "?good m c"
    using sample_decides [where good = ?good and sure = "\<lambda>_. False" and g = g, OF assms step bonus] by blast
  have "let t = (take m toks @ [c]) ! i in ?good i t" if "i \<le> m" for i
    using m(2-4) that by (cases "i = m") (simp_all add: nth_append Let_def)
  with m(1,2) show ?thesis by blast
qed

definition demo_rng :: "nat rng" where
  "demo_rng = \<lparr>rng_uniform = (\<lambda>g. (1/2, Suc g)),
     rng_draw = (\<lambda>row g. (length (takeWhile (\<lambda>w. w \<le> 0) row), Suc g))\<rparr>"

lemma demo_rng_ok: "rng_ok demo_rng"
proof -
  have "length (takeWhile (\<lambda>w. w \<le> 0) row) < length row \<and> 0 < row ! length (takeWhile (\<lambda>w. w \<le> 0) row)"
    if "valid_row row" for row :: "rat list"
  proof -
    have "\<not> (\<forall>w \<in> set row. w \<le> 0)"
    proof
      assume "\<forall>w \<in> set row. w \<le> 0"
      then have "sum_list row \<le> 0" by (induction row) auto
      with that show False by (simp add: valid_row_def)
    qed
    then have less: "length (takeWhile (\<lambda>w. w \<le> 0) row) < length row"
      by (metis length_takeWhile_le le_neq_implies_less takeWhile_eq_all_conv takeWhile_eq_take take_all_iff order_refl)
    then show ?thesis using nth_length_takeWhile [OF less] by simp
  qed
  then show ?thesis by (simp add: rng_ok_def demo_rng_def)
qed

theorem sampled_decision_supported_witness:
  "\<exists>m c g'. sample_accept_reject demo_rng [1] [[1/4, 3/4]] [[1/2, 1/2], [0, 1]] 0 =
      (Inr \<lparr>num_accepted = m, committed = take m [1] @ [c],
        rejected_at = (if m < length [1 :: int] then Some m else None)\<rparr>, g')"
proof -
  have "sampling_inputs 2 [1] [[1/4, 3/4]] [[1/2, 1/2], [0, 1]]"
    by (simp add: sampling_inputs_def valid_row_def)
  from sampled_decision_supported [OF demo_rng_ok this, of 0] show ?thesis by blast
qed


section \<open>Deterministic targets\<close>

definition one_hot :: "nat \<Rightarrow> int \<Rightarrow> rat list" where
  "one_hot V t = map (\<lambda>x. if int x = t then 1 else 0) [0..<V]"

lemma one_hot_nth [simp]: "x < V \<Longrightarrow> one_hot V t ! x = (if int x = t then 1 else 0)"
  by (simp add: one_hot_def)

lemma length_one_hot [simp]: "length (one_hot V t) = V"
  by (simp add: one_hot_def)

lemma match_prefix_unique:
  assumes "m \<le> k" and "\<forall>i < m. predicted ! i = draft ! (i + 1)" and "m < k \<Longrightarrow> predicted ! m \<noteq> draft ! (m + 1)"
  shows "match_prefix draft predicted k = m"
proof -
  let ?m = "match_prefix draft predicted k"
  note S = match_prefix_spec [OF refl, of draft predicted k]
  have "\<not> ?m < m" using S(2) assms(1,2) by auto
  moreover have "\<not> m < ?m" using S(1) assms(3) match_prefix_le [of draft predicted k] by auto
  ultimately show ?thesis by simp
qed

text \<open>
  Sampling from a deterministic target is the greedy rule.  When every target row puts all its
  mass on one token and every draft token has draft probability in (0, 1], the rejection sampler
  returns the decision of the greedy routine on the anchored drafts, whatever the random draws are.
\<close>

theorem one_hot_sampling_is_greedy:
  assumes "rng_ok rng" and "length predicted = length toks + 1"
    and "\<forall>t \<in> set predicted. 0 \<le> t \<and> t < int V"
    and "sampling_inputs V toks draft_probs (map (one_hot V) predicted)"
    and "\<forall>i < length toks. 0 < draft_probs ! i ! nat (toks ! i) \<and> draft_probs ! i ! nat (toks ! i) \<le> 1"
  shows "\<exists>g'. sample_accept_reject rng toks draft_probs (map (one_hot V) predicted) g =
    (determine_from_predictions (anchor # toks) predicted, g')"
proof -
  let ?k = "length toks" and ?tp = "map (one_hot V) predicted"
  have step: "\<exists>a row. acceptance_probability (?tp ! i) (draft_probs ! i) (toks ! i) = Inr a \<and>
      residual_distribution (?tp ! i) (draft_probs ! i) = Inr row \<and> valid_row row \<and>
      (0 < a \<longrightarrow> toks ! i = predicted ! i) \<and> (toks ! i = predicted ! i \<longrightarrow> 1 \<le> a) \<and>
      (\<forall>x < length row. 0 < row ! x \<longrightarrow> int x = predicted ! i)" if i: "i < ?k" for i
  proof -
    note D = sampling_inputsD(3,4) [OF assms(4) i]
    have q: "0 < draft_probs ! i ! nat (toks ! i)" "draft_probs ! i ! nat (toks ! i) \<le> 1" using assms(5) i by auto
    have tp: "?tp ! i = one_hot V (predicted ! i)" using i assms(2) by simp
    obtain row where row: "residual_distribution (?tp ! i) (draft_probs ! i) = Inr row" "valid_row row"
      "length row = V" "\<forall>x < length row. 0 < row ! x \<longrightarrow> 0 < ?tp ! i ! x"
      using sample_residual_at [OF assms(4) i] by blast
    have "int x = predicted ! i" if "x < length row" "0 < row ! x" for x
      using row(3,4) that tp by (metis less_irrefl one_hot_nth)
    moreover have "acceptance_probability (?tp ! i) (draft_probs ! i) (toks ! i) =
        Inr (clamp_ratio (if toks ! i = predicted ! i then 1 else 0) (draft_probs ! i ! nat (toks ! i)))"
      unfolding accept_at [OF assms(4) i] unfolding tp using D by simp
    ultimately show ?thesis using row(1,2) q by (auto simp: clamp_ratio_def)
  qed
  have bonus: "int x = predicted ! ?k" if "x < V" "0 < ?tp ! ?k ! x" for x
    using that assms(2) by (simp split: if_splits)
  obtain m c g' where m: "sample_accept_reject rng toks draft_probs ?tp g =
      (Inr \<lparr>num_accepted = m, committed = take m toks @ [c], rejected_at = (if m < ?k then Some m else None)\<rparr>, g')"
    "m \<le> ?k" "\<forall>i < m. toks ! i = predicted ! i" "c = predicted ! m" "m < ?k \<longrightarrow> toks ! m \<noteq> predicted ! m"
    using sample_decides [where sure = "\<lambda>i. toks ! i = predicted ! i" and good = "\<lambda>i t. t = predicted ! i"
        and g = g, OF assms(1,4) step bonus] by blast
  have "match_prefix (anchor # toks) predicted ?k = m"
    using m(2,3,5) by (intro match_prefix_unique) auto
  then have "determine_from_predictions (anchor # toks) predicted =
      Inr \<lparr>num_accepted = m, committed = take m toks @ [c], rejected_at = (if m < ?k then Some m else None)\<rparr>"
    using determine_from_predictions_run [of "anchor # toks" ?k predicted] assms(2) m(4)
    by (simp add: greedy_decision_def Let_def)
  then show ?thesis using m(1) by auto
qed

theorem one_hot_sampling_is_greedy_witness:
  "fst (sample_accept_reject demo_rng [1] [[1/4, 3/4]] [one_hot 2 0, one_hot 2 1] 0) =
     determine_from_predictions [5, 1] [0, 1]"
proof -
  have "sampling_inputs 2 [1] [[1/4, 3/4]] (map (one_hot 2) [0, 1])"
    by (simp add: sampling_inputs_def valid_row_def one_hot_def upt_rec)
  from one_hot_sampling_is_greedy [OF demo_rng_ok _ _ this, of 0 5] show ?thesis by auto
qed


section \<open>Sparse draft rows\<close>

definition pair_mass :: "(int \<times> rat) list \<Rightarrow> int \<Rightarrow> rat" where
  "pair_mass es x = sum_list (map snd (filter (\<lambda>(i, _). i = x) es))"

definition densify :: "nat \<Rightarrow> int list \<Rightarrow> rat list \<Rightarrow> rat list" where
  "densify V indices row = map (\<lambda>x. sparse_mass indices row (int x)) [0..<V]"

lemma pair_mass_simps [simp]:
  "pair_mass [] x = 0" "pair_mass ((i, q) # es) x = (if i = x then q else 0) + pair_mass es x"
  by (simp_all add: pair_mass_def)

lemma sparse_mass_pairs: "sparse_mass indices row x = pair_mass (zip indices row) x"
  by (simp add: sparse_mass_def pair_mass_def)

lemma scatter_sub_run:
  assumes "\<forall>(i, q) \<in> set es. 0 \<le> i \<and> i < int (length row)"
  shows "scatter_sub row es = Inr (map (\<lambda>x. row ! x - pair_mass es (int x)) [0..<length row])"
  using assms
proof (induction es arbitrary: row)
  case Nil
  then show ?case by (simp add: map_nth)
next
  case (Cons e es)
  obtain i q where e: "e = (i, q)" by (cases e)
  have i: "0 \<le> i" "i < int (length row)" using Cons.prems e by auto
  let ?row = "row[nat i := row ! nat i - q]"
  have "scatter_sub ?row es = Inr (map (\<lambda>x. ?row ! x - pair_mass es (int x)) [0..<length ?row])"
    using Cons.prems by (intro Cons.IH) auto
  moreover have each: "?row ! x - pair_mass es (int x) = row ! x - pair_mass (e # es) (int x)" if "x < length row" for x
    using that i e by (cases "x = nat i") (auto simp: nth_list_update)
  from each have "map (\<lambda>x. ?row ! x - pair_mass es (int x)) [0..<length row] =
      map (\<lambda>x. row ! x - pair_mass (e # es) (int x)) [0..<length row]"
    by (intro map_cong) simp_all
  ultimately show ?case using i e by simp
qed

lemma pair_mass_nonneg: "(\<And>i q. (i, q) \<in> set es \<Longrightarrow> 0 \<le> q) \<Longrightarrow> 0 \<le> pair_mass es x"
  by (induction es) force+

lemma pair_mass_total:
  "(\<forall>(i, q) \<in> set es. 0 \<le> i \<and> i < int V) \<Longrightarrow> (\<Sum>x < V. pair_mass es (int x)) = sum_list (map snd es)"
proof (induction es)
  case (Cons e es)
  obtain i q where e: "e = (i, q)" by (cases e)
  have i: "i = int (nat i)" "nat i < V" using Cons.prems e by auto
  have "(\<Sum>x < V. if i = int x then q else 0) = (\<Sum>x < V. if x = nat i then q else 0)"
    using i by (intro sum.cong) auto
  also have "\<dots> = q" using i(2) by (simp add: sum.delta)
  finally show ?case using Cons e by (simp add: sum.distrib)
qed simp

lemma valid_densify:
  assumes "valid_row row" and "length row = length indices" and "\<forall>i \<in> set indices. 0 \<le> i \<and> i < int V"
  shows "valid_row (densify V indices row)"
proof -
  have "sum_list (densify V indices row) = (\<Sum>x < V. pair_mass (zip indices row) (int x))"
    by (simp add: densify_def sparse_mass_pairs sum_list_sum_nth atLeast0LessThan)
  also have "\<dots> = sum_list (map snd (zip indices row))"
    using assms(3) by (intro pair_mass_total) (auto dest: set_zip_leftD)
  also have "\<dots> = sum_list row" using assms(2) by simp
  finally have "0 < sum_list (densify V indices row)" using assms(1) by (simp add: valid_row_def)
  moreover have "0 \<le> pair_mass (zip indices row) x" for x
    using assms(1) by (intro pair_mass_nonneg) (auto simp: valid_row_def dest: set_zip_rightD)
  ultimately show ?thesis by (auto simp: valid_row_def densify_def sparse_mass_pairs)
qed

lemma length_densify [simp]: "length (densify V indices row) = V"
  by (simp add: densify_def)

lemma densify_nth [simp]: "x < V \<Longrightarrow> densify V indices row ! x = sparse_mass indices row (int x)"
  by (simp add: densify_def)

lemma sparse_accept_dense:
  assumes "length target = V" and "0 \<le> tok" and "tok < int V"
  shows "sparse_accept indices row target tok = acceptance_probability target (densify V indices row) tok"
proof -
  obtain x where x: "tok = int x" "x < V" using assms(2,3) by (metis nonneg_int_cases of_nat_less_iff)
  have "acceptance_probability target (densify V indices row) (int x) =
      Inr (clamp_ratio (target ! x) (densify V indices row ! x))"
    using assms(1) x(2) by (intro accept_nth) simp_all
  then show ?thesis using x assms(1) by (simp add: sparse_accept_def)
qed

lemma sparse_residual_dense:
  assumes "valid_row target" and "sum_list target = 1" and "length target = V"
    and "\<forall>i \<in> set indices. 0 \<le> i \<and> i < int V"
  shows "sparse_residual indices row target = residual_distribution target (densify V indices row)"
proof -
  let ?r = "map2 (\<lambda>p q. max 0 (p - q)) target (densify V indices row)"
  have "scatter_sub target (zip indices row) =
      Inr (map (\<lambda>x. target ! x - pair_mass (zip indices row) (int x)) [0..<length target])"
    using assms(3,4) by (intro scatter_sub_run) (auto dest: set_zip_leftD)
  moreover have "map (max 0) (map (\<lambda>x. target ! x - pair_mass (zip indices row) (int x)) [0..<length target]) = ?r"
    using assms(3) by (intro nth_equalityI) (simp_all add: sparse_mass_pairs)
  ultimately have "sparse_residual indices row target = (if sum_list ?r > 0 then Inr (normalized ?r) else Inr target)"
    unfolding sparse_residual_def Let_def by (simp only: bind_res_simps)
  moreover have "normalized (map (max 0) target) = target"
    using valid_max [OF assms(1)] assms(2) by (simp add: normalized_def)
  ultimately show ?thesis
    using residual_run [of target "densify V indices row"] assms(3) by (simp add: Let_def not_less)
qed

lemma sample_loop_cong:
  assumes "\<And>i. p \<le> i \<Longrightarrow> i < p + n \<Longrightarrow> accept i = accept' i \<and> residual i = residual' i"
  shows "sample_loop rng accept residual toks bonus n p acc = sample_loop rng accept' residual' toks bonus n p acc"
  using assms
proof (induction n arbitrary: p acc)
  case (Suc n)
  have "accept p = accept' p" "residual p = residual' p" using Suc.prems [of p] by simp_all
  moreover have "sample_loop rng accept residual toks bonus n (p + 1) acc =
      sample_loop rng accept' residual' toks bonus n (p + 1) acc" for acc
    using Suc.prems by (intro Suc.IH) simp
  ultimately show ?case by (simp only: sample_loop.simps)
qed simp

text \<open>
  C17: the sparse sampler is the dense one.  For draft rows given by their candidates and weights
  (repeated candidates add up), tokens and candidates inside the vocabulary and target rows that sum
  to one, \<^verbatim>\<open>sample_accept_reject_sparse\<close> makes the same draws and returns the same decision as
  \<^verbatim>\<open>sample_accept_reject\<close> on the rows written out over the vocabulary.
\<close>

theorem sparse_sampling_matches_dense:
  assumes "length draft_indices = length toks" and "map length draft_probs = map length draft_indices"
    and "\<forall>row \<in> set draft_probs. valid_row row" and "\<forall>idx \<in> set draft_indices. \<forall>i \<in> set idx. 0 \<le> i \<and> i < int V"
    and "length toks < length target_probs"
    and "\<forall>row \<in> set target_probs. valid_row row \<and> length row = V \<and> sum_list row = 1"
    and "\<forall>t \<in> set toks. 0 \<le> t \<and> t < int V"
  shows "sample_accept_reject_sparse rng toks draft_indices draft_probs target_probs =
    sample_accept_reject rng toks (map2 (densify V) draft_indices draft_probs) target_probs"
proof -
  let ?k = "length toks" and ?dense = "map2 (densify V) draft_indices draft_probs"
  have len: "length draft_probs = ?k" using assms(1,2) by (metis length_map)
  have row_len: "length (draft_probs ! i) = length (draft_indices ! i)" if "i < ?k" for i
    using assms(1,2) len that by (metis nth_map)
  have "valid_row (?dense ! i)" if "i < ?k" for i
    using assms(4) [rule_format, OF nth_mem, of i] valid_densify [of "draft_probs ! i" "draft_indices ! i" V] assms(1,3,4) row_len [OF that] that len by simp
  then have dense: "\<forall>row \<in> set ?dense. valid_row row \<and> length row = V"
    using assms(1) len by (auto simp: in_set_conv_nth)
  have inp: "sampling_inputs V toks ?dense target_probs"
    using assms(1,5-7) len dense by (simp add: sampling_inputs_def)
  have "sample_accept_reject_sparse rng toks draft_indices draft_probs target_probs =
      sample_loop rng (\<lambda>p. sparse_accept (draft_indices ! p) (draft_probs ! p) (target_probs ! p) (toks ! p))
        (\<lambda>p. sparse_residual (draft_indices ! p) (draft_probs ! p) (target_probs ! p))
        toks (target_probs ! ?k) ?k 0 []"
    using assms by (simp add: sample_accept_reject_sparse_def validate_rows_def Let_def guard_def)
  also have "\<dots> = sample_loop rng (\<lambda>p. acceptance_probability (target_probs ! p) (?dense ! p) (toks ! p))
        (\<lambda>p. residual_distribution (target_probs ! p) (?dense ! p)) toks (target_probs ! ?k) ?k 0 []"
  proof (intro sample_loop_cong)
    fix i assume "i < 0 + ?k"
    then have i: "i < ?k" by simp
    have t: "valid_row (target_probs ! i)" "length (target_probs ! i) = V" "sum_list (target_probs ! i) = 1"
      using assms(5,6) i by simp_all
    have "draft_indices ! i \<in> set draft_indices" using assms(1) i by simp
    with assms(4) have "\<forall>j \<in> set (draft_indices ! i). 0 \<le> j \<and> j < int V" by blast
    moreover have "?dense ! i = densify V (draft_indices ! i) (draft_probs ! i)" using assms(1) len i by simp
    ultimately show "sparse_accept (draft_indices ! i) (draft_probs ! i) (target_probs ! i) (toks ! i) =
        acceptance_probability (target_probs ! i) (?dense ! i) (toks ! i) \<and>
      sparse_residual (draft_indices ! i) (draft_probs ! i) (target_probs ! i) =
        residual_distribution (target_probs ! i) (?dense ! i)"
      using assms(7) i sparse_accept_dense [OF t(2)] sparse_residual_dense [OF t(1,3,2)] by simp
  qed
  finally show ?thesis unfolding sample_run [OF inp] .
qed

theorem sparse_sampling_matches_dense_witness:
  "sample_accept_reject_sparse demo_rng [1] [[1, 0, 1]] [[1/2, 1/4, 1/4]] [[1/2, 1/2], [0, 1]] 0 =
     sample_accept_reject demo_rng [1] [[1/4, 3/4]] [[1/2, 1/2], [0, 1]] 0"
proof -
  have "map2 (densify 2) [[1, 0, 1]] [[1/2, 1/4, 1/4]] = [[1/4, 3/4]]" by code_simp
  then show ?thesis
    using sparse_sampling_matches_dense [of "[[1, 0, 1]]" "[1]" "[[1/2, 1/4, 1/4]]" 2 "[[1/2, 1/2], [0, 1]]" demo_rng]
    by (simp add: valid_row_def)
qed

end
