(* ===== verification/Dspark_Schedule.thy ===== *)
theory Dspark_Schedule
  imports Prelude Complex_Main "HOL-Library.Product_Lexorder" "HOL-Library.Multiset"
begin

text \<open>
  The verify planner of \<^verbatim>\<open>runtime/dspark_schedule.py\<close>: cost tables, survival of draft prefixes, the
  token budget of a verify step, its distribution over requests and the width of a single request.
  Floating-point numbers are rational numbers, rounding is left out.
\<close>

section \<open>Cost tables\<close>

text \<open>\<^verbatim>\<open>bisect_right\<close> on an increasing sequence.\<close>

definition bisect_right :: "rat list \<Rightarrow> rat \<Rightarrow> nat" where
  "bisect_right xs x = length (takeWhile (\<lambda>y. y \<le> x) xs)"

record sps_table =
  sample_batch_tokens :: "int list"
  sample_steps_per_sec :: "rat list"
  max_batch_tokens :: int

definition mk_sps_table :: "int list \<Rightarrow> rat list \<Rightarrow> int \<Rightarrow> sps_table res" where
  "mk_sps_table toks rates max_toks =
     (if toks = [] then Inl (ValueError ''SpsCostTable requires at least one probe'')
      else if \<not> sorted_wrt (<) toks then Inl (ValueError ''sample_batch_tokens must be strictly increasing'')
      else if length toks \<noteq> length rates then Inl (ValueError ''must have equal length'')
      else if max_toks < last toks then Inl (ValueError ''max_batch_tokens must be >= the largest SPS probe'')
      else if \<exists>t \<in> set toks. t < 1 then Inl (ValueError ''SPS probe batch-token counts must be positive'')
      else if \<exists>r \<in> set rates. r \<le> 0 then Inl (ValueError ''SPS probe rates must be positive'')
      else Inr \<lparr>sample_batch_tokens = toks, sample_steps_per_sec = rates, max_batch_tokens = max_toks\<rparr>)"

definition lookup :: "sps_table \<Rightarrow> int \<Rightarrow> rat" where
  "lookup t batch_tokens =
     (let index = max 0 (min (int (bisect_right (map of_int (sample_batch_tokens t)) (of_int batch_tokens)) - 1)
                             (int (length (sample_steps_per_sec t)) - 1))
      in sample_steps_per_sec t ! nat index)"

record additive_table =
  bias_seconds :: rat
  bs_probes :: "int list"
  alpha_seconds :: "rat list"
  m_probes :: "int list"
  theta_seconds :: "rat list"

definition check_probes :: "int list \<Rightarrow> rat list \<Rightarrow> unit res" where
  "check_probes probes values =
     (if probes = [] \<or> \<not> sorted_wrt (<) probes then Inl (ValueError ''probes must be strictly increasing'')
      else if length probes \<noteq> length values then Inl (ValueError ''probes and values must have equal length'')
      else Inr ())"

definition mk_additive_table :: "rat \<Rightarrow> int list \<Rightarrow> rat list \<Rightarrow> int list \<Rightarrow> rat list \<Rightarrow> additive_table res" where
  "mk_additive_table bias bs alpha m theta =
     bind_res (check_probes bs alpha) (\<lambda>_.
     bind_res (check_probes m theta) (\<lambda>_.
     if bias \<le> 0 then Inl (ValueError ''bias_seconds must be positive'')
     else Inr \<lparr>bias_seconds = bias, bs_probes = bs, alpha_seconds = alpha, m_probes = m, theta_seconds = theta\<rparr>))"

definition interp_clamped :: "int list \<Rightarrow> rat list \<Rightarrow> rat \<Rightarrow> rat" where
  "interp_clamped probes values point =
     (if point \<le> of_int (probes ! 0) then values ! 0
      else if point \<ge> of_int (last probes) then last values
      else
        let high = bisect_right (map of_int probes) point;
            low = high - 1;
            fraction = (point - of_int (probes ! low)) / of_int (probes ! high - probes ! low)
        in values ! low + fraction * (values ! high - values ! low))"

definition step_time :: "additive_table \<Rightarrow> int \<Rightarrow> int \<Rightarrow> rat" where
  "step_time t num_requests budget =
     bias_seconds t + interp_clamped (bs_probes t) (alpha_seconds t) (of_int num_requests)
     + interp_clamped (m_probes t) (theta_seconds t) (of_int (num_requests + budget))"

datatype cost_table = Piecewise sps_table | Additive additive_table

definition build_uninitialized_sps_table :: "int \<Rightarrow> sps_table res" where
  "build_uninitialized_sps_table max_toks = mk_sps_table [1] [1] (max 1 max_toks)"

section \<open>Survival\<close>

definition clamp01 :: "rat \<Rightarrow> rat" where
  "clamp01 x = min (max x 0) 1"

primrec survival_from :: "rat \<Rightarrow> rat \<Rightarrow> rat list \<Rightarrow> rat list" where
  "survival_from epsilon product [] = []"
| "survival_from epsilon product (x # xs) =
     (let product' = product * clamp01 x
      in (if product' < epsilon then 0 else product') # survival_from epsilon product' xs)"

definition survival_prefix :: "rat \<Rightarrow> rat list \<Rightarrow> rat list" where
  "survival_prefix epsilon confidence = survival_from epsilon 1 confidence"

section \<open>The token budget\<close>

record budget_decision =
  bd_budget :: nat
  bd_step_seconds :: "rat option"
  bd_theta :: "rat option"

definition width_of :: "rat list list \<Rightarrow> int" where
  "width_of rows = fold max (map (\<lambda>row. int (length row)) rows) 0"

text \<open>\<^verbatim>\<open>xs[:n]\<close> for a possibly negative bound.\<close>

definition py_take :: "int \<Rightarrow> 'a list \<Rightarrow> 'a list" where
  "py_take n xs = (if 0 \<le> n then take (nat n) xs else take (length xs - nat (- n)) xs)"

primrec prefix_sums :: "rat \<Rightarrow> rat list \<Rightarrow> rat list" where
  "prefix_sums acc [] = [acc]"
| "prefix_sums acc (x # xs) = acc # prefix_sums (acc + x) xs"

text \<open>\<^verbatim>\<open>max(range(len(theta)), key=theta.__getitem__)\<close>: the first index of the largest entry.\<close>

fun first_max_from :: "nat \<Rightarrow> nat \<Rightarrow> rat \<Rightarrow> rat list \<Rightarrow> nat" where
  "first_max_from i best m [] = best"
| "first_max_from i best m (x # xs) = (if m < x then first_max_from (Suc i) i x xs else first_max_from (Suc i) best m xs)"

definition first_max :: "rat list \<Rightarrow> nat" where
  "first_max xs = first_max_from 1 0 (hd xs) (tl xs)"

definition budget_candidates :: "rat list list \<Rightarrow> int \<Rightarrow> rat \<Rightarrow> rat list" where
  "budget_candidates rows max_len survival_eps =
     map clamp01 (filter (\<lambda>v. v \<ge> survival_eps) (concat (map (py_take max_len) rows)))"

definition compute_verify_token_budget ::
  "rat list list \<Rightarrow> cost_table \<Rightarrow> int option \<Rightarrow> int \<Rightarrow> rat \<Rightarrow> budget_decision res" where
  "compute_verify_token_budget rows table max_verify_len min_verify_len survival_eps =
     (if rows = [] then Inr \<lparr>bd_budget = 0, bd_step_seconds = None, bd_theta = Some 0\<rparr>
      else
        let n = int (length rows);
            max_len = (case max_verify_len of None \<Rightarrow> width_of rows + 1 | Some m \<Rightarrow> m)
        in
        if max_len < 1 then Inl (ValueError ''max_verify_len must be positive'')
        else if min_verify_len < 0 \<or> min_verify_len > max_len then Inl (ValueError ''min_verify_len out of range'')
        else if survival_eps < 0 then Inl (ValueError ''survival_eps must be non-negative'')
        else
          let candidates = rev (sort (budget_candidates rows max_len survival_eps));
              tau = map (\<lambda>v. of_int n + v) (prefix_sums 0 candidates)
          in case table of
            Additive t \<Rightarrow>
              let steps = map (\<lambda>i. step_time t n (int i)) [0..<length tau] in
              if 0 \<in> set steps then Inl (ZeroDivisionError ''float division by zero'')
              else
                let theta = map2 (/) tau steps; best = first_max theta
                in Inr \<lparr>bd_budget = best, bd_step_seconds = Some (steps ! best), bd_theta = Some (theta ! best)\<rparr>
          | Piecewise t \<Rightarrow>
              let theta = map (\<lambda>i. tau ! i * lookup t (n + int i)) [0..<length tau];
                  best = first_max theta;
                  rate = lookup t (n + int best)
              in if rate = 0 then Inl (ZeroDivisionError ''float division by zero'')
                 else Inr \<lparr>bd_budget = best, bd_step_seconds = Some (1 / rate), bd_theta = Some (theta ! best)\<rparr>)"

section \<open>Distributing the budget\<close>

type_synonym candidate = "rat \<times> nat \<times> nat"

definition row_candidates :: "int \<Rightarrow> rat \<Rightarrow> nat \<Rightarrow> rat list \<Rightarrow> candidate list" where
  "row_candidates max_len survival_eps request row =
     map (\<lambda>(position, v). (v, position, request))
       (filter (\<lambda>(_, v). v \<ge> survival_eps) (enumerate 0 (py_take max_len (survival_prefix 0 row))))"

definition all_candidates :: "int \<Rightarrow> rat \<Rightarrow> rat list list \<Rightarrow> candidate list" where
  "all_candidates max_len survival_eps rows =
     concat (map (\<lambda>(request, row). row_candidates max_len survival_eps request row) (enumerate 0 rows))"

definition candidate_key :: "candidate \<Rightarrow> rat \<times> nat \<times> nat" where
  "candidate_key c = (- fst c, fst (snd c), snd (snd c))"

definition selected_count :: "candidate list \<Rightarrow> nat \<Rightarrow> nat" where
  "selected_count chosen request = length (filter (\<lambda>c. snd (snd c) = request) chosen)"

definition schedule_verify_lens_topk :: "rat list list \<Rightarrow> int \<Rightarrow> int \<Rightarrow> int option \<Rightarrow> rat \<Rightarrow> int list res" where
  "schedule_verify_lens_topk rows budget min_verify_len max_verify_len survival_eps =
     (let width = width_of rows;
          max_len = (case max_verify_len of None \<Rightarrow> width + 1 | Some m \<Rightarrow> m)
      in
      if min_verify_len < 0 \<or> \<not> (min_verify_len \<le> max_len \<and> max_len \<le> width + 1)
      then Inl (ValueError ''verify-len bounds must satisfy 0 <= min <= max <= gamma+1'')
      else if budget < 0 then Inl (ValueError ''verify budget must be non-negative'')
      else
        let chosen = take (nat budget) (sort_key candidate_key (all_candidates max_len survival_eps rows));
            lower_bound = max min_verify_len 1
        in Inr (map (\<lambda>request. min (max (min_verify_len + int (selected_count chosen request)) lower_bound) max_len)
             [0..<length rows]))"

definition schedule_verify_widths_topk :: "rat list list \<Rightarrow> int \<Rightarrow> int \<Rightarrow> int option \<Rightarrow> rat \<Rightarrow> int list res" where
  "schedule_verify_widths_topk rows budget min_verify_len max_verify_len survival_eps =
     bind_res (schedule_verify_lens_topk rows budget min_verify_len max_verify_len survival_eps)
       (\<lambda>lens. Inr (map (\<lambda>verify_len. verify_len - 1) lens))"

section \<open>The width of one request\<close>

primrec width_loop :: "int \<Rightarrow> rat \<Rightarrow> int \<Rightarrow> int \<Rightarrow> rat list \<Rightarrow> int" where
  "width_loop max_width threshold position width [] = width"
| "width_loop max_width threshold position width (p # ps) =
     (if position > max_width then width
      else if p \<ge> threshold then width_loop max_width threshold (position + 1) position ps
      else width)"

definition choose_verify_width :: "rat list \<Rightarrow> int \<Rightarrow> int option \<Rightarrow> rat option \<Rightarrow> int res" where
  "choose_verify_width confidence min_width max_width survival_threshold =
     (let available = int (length confidence) in
      if available \<le> 0 then Inl (ValueError ''DSpark confidence must contain at least one position'')
      else
        let max_w = (case max_width of None \<Rightarrow> available | Some m \<Rightarrow> m) in
        if \<not> (1 \<le> min_width \<and> min_width \<le> max_w \<and> max_w \<le> available)
        then Inl (ValueError ''DSpark verify width bounds must satisfy 1 <= min_width <= max_width'')
        else case survival_threshold of
          None \<Rightarrow> Inr max_w
        | Some threshold \<Rightarrow>
            if \<not> (0 \<le> threshold \<and> threshold \<le> 1)
            then Inl (ValueError ''DSpark survival threshold must be in [0,1]'')
            else Inr (width_loop max_w threshold 1 min_width (survival_prefix (1 / 1000000) confidence)))"

definition choose_verify_widths :: "rat list list \<Rightarrow> int \<Rightarrow> int option \<Rightarrow> rat option \<Rightarrow> int list res" where
  "choose_verify_widths confidences min_width max_width survival_threshold =
     map_res (\<lambda>row. choose_verify_width row min_width max_width survival_threshold) confidences"


section \<open>The width of a request\<close>

lemma width_loop_run:
  "width_loop max_w thr pos width ps =
     (let n = length (takeWhile (\<lambda>p. p \<ge> thr) (take (nat (max_w + 1 - pos)) ps))
      in if n = 0 then width else pos + int n - 1)"
proof (induction ps arbitrary: pos width)
  case (Cons p ps)
  show ?case
  proof (cases "pos > max_w")
    case False
    then have "nat (max_w + 1 - pos) = Suc (nat (max_w + 1 - (pos + 1)))" by linarith
    then show ?thesis using False Cons.IH [of "pos + 1" pos] by (simp add: Let_def)
  qed simp
qed simp

lemma length_survival [simp]: "length (survival_from e p xs) = length xs"
  by (induction xs arbitrary: p) (simp_all add: Let_def)

lemma clamp01_bounds: "0 \<le> clamp01 x" "clamp01 x \<le> 1"
  by (auto simp: clamp01_def)

lemma survival_nth:
  "i < length xs \<Longrightarrow> survival_from e p xs ! i =
     (let s = p * prod_list (map clamp01 (take (Suc i) xs)) in if s < e then 0 else s)"
proof (induction xs arbitrary: p i)
  case (Cons x xs)
  then show ?case by (cases i) (simp_all add: Let_def mult.assoc)
qed simp

lemma prod_clamped:
  fixes xs :: "rat list"
  shows "0 \<le> prod_list (map clamp01 xs)" "i \<le> j \<Longrightarrow> prod_list (map clamp01 (take j xs)) \<le> prod_list (map clamp01 (take i xs))"
proof -
  have nonneg: "0 \<le> prod_list (map clamp01 ys)" for ys by (induction ys) (simp_all add: clamp01_bounds)
  have le1: "prod_list (map clamp01 ys) \<le> 1" for ys
    by (induction ys) (simp_all add: clamp01_bounds nonneg mult_le_one)
  show "0 \<le> prod_list (map clamp01 xs)" by (rule nonneg)
  assume "i \<le> j"
  then have "take j xs = take i xs @ take (j - i) (drop i xs)" by (metis le_add_diff_inverse take_add)
  then show "prod_list (map clamp01 (take j xs)) \<le> prod_list (map clamp01 (take i xs))"
    using nonneg [of "take i xs"] le1 [of "take (j - i) (drop i xs)"] by (simp add: mult_left_le)
qed

lemma survival_falls:
  assumes "i \<le> j" and "j < length xs" and "0 \<le> e"
  shows "survival_prefix e xs ! j \<le> survival_prefix e xs ! i"
  using assms prod_clamped(1) [of "take (Suc i) xs"] prod_clamped(2) [of "Suc i" "Suc j" xs]
  by (simp add: survival_prefix_def survival_nth Let_def)

lemma less_length_takeWhile:
  "i < length (takeWhile P xs) \<longleftrightarrow> i < length xs \<and> (\<forall>j \<le> i. P (xs ! j))"
proof (induction xs arbitrary: i)
  case (Cons x xs)
  show ?case
  proof (cases i)
    case (Suc k)
    have "(\<forall>j \<le> Suc k. P ((x # xs) ! j)) \<longleftrightarrow> P x \<and> (\<forall>j \<le> k. P (xs ! j))"
      by (metis Suc_le_mono bot_nat_0.extremum not0_implies_Suc nth_Cons_0 nth_Cons_Suc)
    then show ?thesis using Cons.IH [of k] by (simp add: Suc)
  qed simp
qed simp

lemma width_one:
  assumes "choose_verify_width row 1 max_width (Some t) = Inr w"
  defines "max_w \<equiv> (case max_width of None \<Rightarrow> int (length row) | Some m \<Rightarrow> m)"
  shows "1 \<le> w \<and> w \<le> max_w \<and> max_w \<le> int (length row) \<and>
    (\<forall>i. 1 \<le> i \<and> int i < max_w \<longrightarrow> (int i < w \<longleftrightarrow> t \<le> survival_prefix (1 / 1000000) row ! i))"
proof -
  let ?s = "survival_prefix (1 / 1000000) row"
  define n where "n = length (takeWhile (\<lambda>p. p \<ge> t) (take (nat max_w) ?s))"
  have m: "1 \<le> max_w" "max_w \<le> int (length row)"
    using assms(1) by (auto simp: choose_verify_width_def Let_def max_w_def split: if_splits option.splits)
  have "width_loop max_w t 1 1 ?s = (if n = 0 then 1 else int n)"
    unfolding width_loop_run by (simp add: n_def Let_def)
  then have w: "w = (if n = 0 then 1 else int n)"
    using assms(1) by (auto simp: choose_verify_width_def Let_def max_w_def split: if_splits)
  have "n \<le> nat max_w"
    unfolding n_def using length_takeWhile_le [of _ "take (nat max_w) ?s"] by (simp add: le_trans)
  then have bound: "1 \<le> w" "w \<le> max_w" using m w by auto
  have "int i < w \<longleftrightarrow> t \<le> ?s ! i" if i: "1 \<le> i" "int i < max_w" for i
  proof -
    have il: "i < nat max_w" "i < length row" using i m by linarith+
    have "i < n \<longleftrightarrow> (\<forall>j \<le> i. t \<le> ?s ! j)"
      using il unfolding n_def less_length_takeWhile by (auto simp: survival_prefix_def)
    also have "\<dots> \<longleftrightarrow> t \<le> ?s ! i"
    proof -
      have "?s ! i \<le> ?s ! j" if "j \<le> i" for j by (rule survival_falls [OF that il(2)]) simp
      then show ?thesis by (meson order.trans order_refl)
    qed
    finally show ?thesis using w i by auto
  qed
  then show ?thesis using bound m by blast
qed

text \<open>
  C25: the width of each request of a batch under the default minimum of one token.  It lies between
  one and \<^verbatim>\<open>max_width\<close> (the length of the row, if not given); the first draft token is always verified,
  and any later one within \<^verbatim>\<open>max_width\<close> exactly if the probability that the drafts up to it survive, the
  product of the clamped confidences (0 below one millionth), reaches the threshold.
\<close>

theorem widths_follow_survival:
  assumes "choose_verify_widths confidences 1 max_width (Some t) = Inr ws"
  shows "length ws = length confidences \<and> (\<forall>r < length confidences.
    let row = confidences ! r; w = ws ! r; max_w = (case max_width of None \<Rightarrow> int (length row) | Some m \<Rightarrow> m) in
      1 \<le> w \<and> w \<le> max_w \<and> max_w \<le> int (length row) \<and>
      (\<forall>i. 1 \<le> i \<and> int i < max_w \<longrightarrow>
        (int i < w \<longleftrightarrow> t \<le> (let s = prod_list (map clamp01 (take (i + 1) row)) in if s < 1 / 1000000 then 0 else s))))"
proof -
  have len: "length ws = length confidences" using map_res_length assms unfolding choose_verify_widths_def by blast
  have "choose_verify_width (confidences ! r) 1 max_width (Some t) = Inr (ws ! r)" if "r < length confidences" for r
    using map_res_nth [OF assms [unfolded choose_verify_widths_def] that] .
  note one = width_one [OF this]
  have surv: "survival_prefix (1 / 1000000) row ! i =
      (let s = prod_list (map clamp01 (take (i + 1) row)) in if s < 1 / 1000000 then 0 else s)" if "i < length row" for row i
    using that by (simp add: survival_prefix_def survival_nth Let_def)
  show ?thesis
  proof (intro conjI allI impI len)
    fix r assume r: "r < length confidences"
    show "let row = confidences ! r; w = ws ! r; max_w = (case max_width of None \<Rightarrow> int (length row) | Some m \<Rightarrow> m) in
      1 \<le> w \<and> w \<le> max_w \<and> max_w \<le> int (length row) \<and>
      (\<forall>i. 1 \<le> i \<and> int i < max_w \<longrightarrow>
        (int i < w \<longleftrightarrow> t \<le> (let s = prod_list (map clamp01 (take (i + 1) row)) in if s < 1 / 1000000 then 0 else s)))"
      unfolding Let_def
    proof (intro conjI allI impI)
      let ?row = "confidences ! r"
      let ?m = "case max_width of None \<Rightarrow> int (length ?row) | Some m \<Rightarrow> m"
      note o = one [OF r]
      show "1 \<le> ws ! r" "ws ! r \<le> ?m" "?m \<le> int (length ?row)" using o by blast+
      fix i :: nat assume i: "1 \<le> i \<and> int i < ?m"
      have il: "i < length ?row" using i o by linarith
      have iff: "(int i < ws ! r) = (t \<le> survival_prefix (1 / 1000000) ?row ! i)" using o i by blast
      show "(int i < ws ! r) = (t \<le> (if prod_list (map clamp01 (take (i + 1) ?row)) < 1 / 1000000 then 0
          else prod_list (map clamp01 (take (i + 1) ?row))))"
        unfolding iff surv [OF il] Let_def ..
    qed
  qed
qed

theorem widths_follow_survival_witness:
  "choose_verify_widths [[9/10, 8/10, 1/10, 1], [1/10, 1, 1, 1]] 1 (Some 3) (Some (1/2)) = Inr [2, 1] \<and>
   (1 / 2 :: rat) \<le> prod_list (map clamp01 (take 2 [9/10, 8/10, 1/10, 1]))"
proof -
  have run: "choose_verify_widths [[9/10, 8/10, 1/10, 1], [1/10, 1, 1, 1]] 1 (Some 3) (Some (1/2)) = Inr [2, 1]" by code_simp
  from widths_follow_survival [OF run]
  have "int 1 < [2, 1] ! 0 \<longleftrightarrow> (1 / 2 :: rat) \<le>
      (let s = prod_list (map clamp01 (take (1 + 1) ([[9/10, 8/10, 1/10, 1], [1/10, 1, 1, 1 :: rat]] ! 0))) in if s < 1 / 1000000 then 0 else s)"
    unfolding Let_def by (elim conjE allE [of _ 0] allE [of _ 1] impE) simp_all
  then have "(1 / 2 :: rat) \<le> prod_list (map clamp01 (take 2 [9/10, 8/10, 1/10, 1]))"
    by (auto simp: Let_def numeral_2_eq_2 split: if_splits)
  then show ?thesis using run by simp
qed

section \<open>The best budget\<close>

lemma first_max_from_spec:
  fixes xs :: "rat list"
  assumes "best < i" and "i = length pre" and "m = pre ! best" and "\<forall>j < i. pre ! j \<le> m" and "\<forall>j < best. pre ! j < m"
  defines "r \<equiv> first_max_from i best m xs"
  shows "r < length (pre @ xs) \<and> (\<forall>j < length (pre @ xs). (pre @ xs) ! j \<le> (pre @ xs) ! r) \<and>
    (\<forall>j < r. (pre @ xs) ! j < (pre @ xs) ! r)"
  using assms(1-5) unfolding r_def
proof (induction xs arbitrary: i best m pre)
  case Nil
  then show ?case by simp
next
  case (Cons x xs)
  show ?case
  proof (cases "m < x")
    case True
    have "\<forall>j < Suc i. (pre @ [x]) ! j \<le> x" "\<forall>j < i. (pre @ [x]) ! j < x"
      using Cons.prems True by (auto simp: nth_append less_Suc_eq)
    then show ?thesis
      using Cons.IH [of i "Suc i" "pre @ [x]" x] Cons.prems True by simp
  next
    case False
    have "\<forall>j < Suc i. (pre @ [x]) ! j \<le> m" "\<forall>j < best. (pre @ [x]) ! j < m"
      using Cons.prems False by (auto simp: nth_append less_Suc_eq)
    then show ?thesis
      using Cons.IH [of best "Suc i" "pre @ [x]" m] Cons.prems False by (simp add: nth_append)
  qed
qed

lemma first_max_spec:
  assumes "xs \<noteq> []"
  shows "first_max xs < length xs" and "i < length xs \<Longrightarrow> xs ! i \<le> xs ! first_max xs"
    and "i < first_max xs \<Longrightarrow> xs ! i < xs ! first_max xs"
proof -
  obtain x ys where xs: "xs = x # ys" using assms by (cases xs) auto
  note S = first_max_from_spec [where best = 0 and i = 1 and pre = "[x]" and m = x and xs = ys]
  show "first_max xs < length xs" "i < length xs \<Longrightarrow> xs ! i \<le> xs ! first_max xs"
    "i < first_max xs \<Longrightarrow> xs ! i < xs ! first_max xs"
    using S by (simp_all add: xs first_max_def)
qed

lemma prefix_sums_nth:
  "length (prefix_sums acc xs) = Suc (length xs) \<and>
   (\<forall>i \<le> length xs. prefix_sums acc xs ! i = acc + sum_list (take i xs))"
proof (induction xs arbitrary: acc)
  case (Cons x xs)
  have "prefix_sums acc (x # xs) ! i = acc + sum_list (take i (x # xs))" if "i \<le> length (x # xs)" for i
    using that Cons [of "acc + x"] by (cases i) auto
  then show ?case using Cons [of "acc + x"] by auto
qed simp

text \<open>The planner's objective: expected tokens of a step with \<open>i\<close> verified drafts, times steps per second.\<close>

definition best_survivals :: "rat list list \<Rightarrow> int \<Rightarrow> rat \<Rightarrow> rat list" where
  "best_survivals rows max_len survival_eps = rev (sort (budget_candidates rows max_len survival_eps))"

definition steps_per_second :: "cost_table \<Rightarrow> int \<Rightarrow> nat \<Rightarrow> rat" where
  "steps_per_second table n i = (case table of
     Piecewise t \<Rightarrow> lookup t (n + int i)
   | Additive t \<Rightarrow> 1 / step_time t n (int i))"

definition objective :: "cost_table \<Rightarrow> int \<Rightarrow> rat list \<Rightarrow> nat \<Rightarrow> rat" where
  "objective table n survivals i =
     (of_int n + sum_list (take i survivals)) * steps_per_second table n i"

text \<open>
  C20: \<^verbatim>\<open>compute_verify_token_budget\<close> solves the planner's problem.  On inputs that pass its checks, for
  a table whose step times are not zero, the budget is the first of all the counts of verified drafts
  (taken in the order of falling survival) at which expected tokens times steps per second is
  largest, and the reported rate and step time belong to it.
\<close>

theorem verify_budget_is_optimal:
  assumes "rows \<noteq> []" and "max_len = (case max_verify_len of None \<Rightarrow> width_of rows + 1 | Some m \<Rightarrow> m)"
    and "1 \<le> max_len" and "0 \<le> min_verify_len" and "min_verify_len \<le> max_len" and "0 \<le> eps"
    and "\<And>i. i \<le> length (best_survivals rows max_len eps) \<Longrightarrow>
      (case table of Piecewise t \<Rightarrow> lookup t (int (length rows) + int i) \<noteq> 0
       | Additive t \<Rightarrow> step_time t (int (length rows)) (int i) \<noteq> 0)"
  defines "obj \<equiv> objective table (int (length rows)) (best_survivals rows max_len eps)"
  shows "\<exists>d. compute_verify_token_budget rows table max_verify_len min_verify_len eps = Inr d \<and>
    bd_budget d \<le> length (best_survivals rows max_len eps) \<and>
    (\<forall>i \<le> length (best_survivals rows max_len eps). obj i \<le> obj (bd_budget d)) \<and>
    (\<forall>i < bd_budget d. obj i < obj (bd_budget d)) \<and>
    bd_theta d = Some (obj (bd_budget d)) \<and>
    bd_step_seconds d = Some (1 / steps_per_second table (int (length rows)) (bd_budget d))"
proof -
  let ?S = "best_survivals rows max_len eps" and ?n = "int (length rows)"
  let ?tau = "map (\<lambda>v. of_int ?n + v) (prefix_sums 0 ?S)"
  let ?th = "map obj [0..<Suc (length ?S)]"
  let ?b = "first_max ?th"
  have tau: "length ?tau = Suc (length ?S)" "\<And>i. i \<le> length ?S \<Longrightarrow> ?tau ! i = of_int ?n + sum_list (take i ?S)"
    using prefix_sums_nth [of 0 ?S] by auto
  have "?th \<noteq> []" by simp
  note F = first_max_spec [OF this]
  have b: "?b \<le> length ?S" using F(1) by simp
  have nth: "?th ! i = obj i" if "i \<le> length ?S" for i using that by (simp del: upt_Suc)
  have best: "obj i \<le> obj ?b" if "i \<le> length ?S" for i
    using F(2) [of i] that nth [OF that] nth [OF b] by simp
  have first: "obj i < obj ?b" if "i < ?b" for i
    using F(3) [OF that] nth [of i] nth [OF b] that b by simp
  have guards: "compute_verify_token_budget rows table max_verify_len min_verify_len eps =
      (case table of
        Additive t \<Rightarrow>
          let steps = map (\<lambda>i. step_time t ?n (int i)) [0..<length ?tau] in
          if 0 \<in> set steps then Inl (ZeroDivisionError ''float division by zero'')
          else let theta = map2 (/) ?tau steps; best = first_max theta
            in Inr \<lparr>bd_budget = best, bd_step_seconds = Some (steps ! best), bd_theta = Some (theta ! best)\<rparr>
      | Piecewise t \<Rightarrow>
          let theta = map (\<lambda>i. ?tau ! i * lookup t (?n + int i)) [0..<length ?tau]; best = first_max theta;
            rate = lookup t (?n + int best)
          in if rate = 0 then Inl (ZeroDivisionError ''float division by zero'')
            else Inr \<lparr>bd_budget = best, bd_step_seconds = Some (1 / rate), bd_theta = Some (theta ! best)\<rparr>)"
    unfolding compute_verify_token_budget_def best_survivals_def Let_def assms(2) [symmetric]
    using assms(1,3-6) by simp
  have "compute_verify_token_budget rows table max_verify_len min_verify_len eps =
      Inr \<lparr>bd_budget = ?b, bd_step_seconds = Some (1 / steps_per_second table ?n ?b), bd_theta = Some (obj ?b)\<rparr>"
  proof (cases table)
    case (Piecewise t)
    have th: "map (\<lambda>i. ?tau ! i * lookup t (?n + int i)) [0..<length ?tau] = ?th"
    proof (intro map_cong)
      fix i assume "i \<in> set [0..<Suc (length ?S)]"
      then have "i \<le> length ?S" by auto
      from tau(2) [OF this] show "?tau ! i * lookup t (?n + int i) = obj i"
        by (simp only: obj_def objective_def steps_per_second_def Piecewise cost_table.case)
    qed (simp only: tau(1))
    have "lookup t (?n + int ?b) \<noteq> 0" using assms(7) [OF b] Piecewise by simp
    then show ?thesis
      unfolding guards unfolding Piecewise cost_table.case Let_def th
      using nth [OF b] by (simp add: steps_per_second_def del: upt_Suc)
  next
    case (Additive t)
    let ?steps = "map (\<lambda>i. step_time t ?n (int i)) [0..<length ?tau]"
    have ne: "0 \<notin> set ?steps" using assms(7) tau(1) Additive by (auto simp: image_iff less_Suc_eq_le simp del: upt_Suc)
    have th: "map2 (/) ?tau ?steps = ?th"
    proof (intro nth_equalityI)
      show "length (map2 (/) ?tau ?steps) = length ?th" using tau(1) by simp
      fix i assume "i < length (map2 (/) ?tau ?steps)"
      then have i: "i \<le> length ?S" using tau(1) by simp
      have "map2 (/) ?tau ?steps ! i = ?tau ! i / step_time t ?n (int i)"
        using i tau(1) by (simp del: upt_Suc)
      also have "\<dots> = obj i"
        unfolding tau(2) [OF i] obj_def objective_def steps_per_second_def Additive by simp
      finally show "map2 (/) ?tau ?steps ! i = ?th ! i" using nth [OF i] by simp
    qed
    have "?steps ! ?b = step_time t ?n (int ?b)" using b tau(1) by (simp del: upt_Suc)
    then show ?thesis
      unfolding guards unfolding Additive cost_table.case Let_def th
      using ne nth [OF b] by (simp add: steps_per_second_def del: upt_Suc)
  qed
  then show ?thesis using b best first by (intro exI) auto
qed

theorem verify_budget_is_optimal_witness:
  "\<exists>d. compute_verify_token_budget [[9/10, 1/10]] (Piecewise \<lparr>sample_batch_tokens = [1, 3],
      sample_steps_per_sec = [10, 8], max_batch_tokens = 4\<rparr>) None 1 (1/100) = Inr d \<and> bd_budget d = 1"
proof -
  let ?t = "\<lparr>sample_batch_tokens = [1, 3], sample_steps_per_sec = [10, 8 :: rat], max_batch_tokens = 4\<rparr>"
  have len: "length (best_survivals [[9/10, 1/10]] 3 (1/100)) = 2" by code_simp
  have ne: "lookup ?t (1 + int i) \<noteq> 0" if "i \<le> 2" for i
  proof -
    have "i = 0 \<or> i = 1 \<or> i = 2" using that by auto
    moreover have "lookup ?t 1 = 10" "lookup ?t 2 = 10" "lookup ?t 3 = 8" by code_simp+
    ultimately show ?thesis by auto
  qed
  have w: "3 = (case None of None \<Rightarrow> width_of [[9/10, 1/10 :: rat]] + 1 | Some m \<Rightarrow> m)" by code_simp
  obtain d where d: "compute_verify_token_budget [[9/10, 1/10]] (Piecewise ?t) None 1 (1/100) = Inr d"
    using verify_budget_is_optimal [OF _ w, of 1 "1/100" "Piecewise ?t"] len ne by auto
  moreover have "compute_verify_token_budget [[9/10, 1/10]] (Piecewise ?t) None 1 (1/100) =
      Inr \<lparr>bd_budget = 1, bd_step_seconds = Some (1/10), bd_theta = Some 19\<rparr>" by code_simp
  ultimately show ?thesis by auto
qed

section \<open>An optimal distribution\<close>

lemma survival_from_zero:
  assumes "0 \<le> p"
  shows "i < length xs \<Longrightarrow> survival_from 0 p xs ! i \<le> p \<and> 0 \<le> survival_from 0 p xs ! i"
    and "i \<le> j \<Longrightarrow> j < length xs \<Longrightarrow> survival_from 0 p xs ! j \<le> survival_from 0 p xs ! i"
proof -
  have step: "0 \<le> q * clamp01 x \<and> q * clamp01 x \<le> q" if "0 \<le> q" for q x
    using that by (auto simp: clamp01_def mult_le_cancel_left2 min_def max_def intro: mult_left_le)
  have bounds: "i < length xs \<Longrightarrow> survival_from 0 q xs ! i \<le> q \<and> 0 \<le> survival_from 0 q xs ! i"
    if "0 \<le> q" for q i xs
    using that
  proof (induction xs arbitrary: q i)
    case (Cons x xs)
    note st = step [OF Cons.prems(2), of x]
    show ?case
    proof (cases i)
      case 0
      then show ?thesis using st by (simp add: Let_def)
    next
      case (Suc i')
      then show ?thesis using Cons.IH [of i' "q * clamp01 x"] Cons.prems(1) st by (auto simp: Let_def)
    qed
  qed simp
  show "i < length xs \<Longrightarrow> survival_from 0 p xs ! i \<le> p \<and> 0 \<le> survival_from 0 p xs ! i"
    using bounds assms by blast
  show "i \<le> j \<Longrightarrow> j < length xs \<Longrightarrow> survival_from 0 p xs ! j \<le> survival_from 0 p xs ! i"
    using assms
  proof (induction xs arbitrary: p i j)
    case (Cons x xs)
    note st = step [OF Cons.prems(3), of x]
    show ?case
    proof (cases i)
      case 0
      then show ?thesis using bounds [of "p * clamp01 x"] st Cons.prems(2) by (cases j) (auto simp: Let_def)
    next
      case (Suc i')
      then show ?thesis using Cons.IH [of i' "j - 1" "p * clamp01 x"] Cons.prems st by (cases j) (auto simp: Let_def)
    qed
  qed simp
qed

lemma survival_prefix_zero:
  assumes "j < length row"
  shows "0 \<le> survival_prefix 0 row ! j" and "i \<le> j \<Longrightarrow> survival_prefix 0 row ! j \<le> survival_prefix 0 row ! i"
  using survival_from_zero [of 1] assms by (simp_all add: survival_prefix_def)

lemma in_enumerate: "(i, x) \<in> set (enumerate 0 xs) \<longleftrightarrow> i < length xs \<and> x = xs ! i"
  by (auto simp: in_set_enumerate_eq)

text \<open>With the default bounds a candidate is a position of a row whose survival is large enough.\<close>

definition worthwhile :: "rat list list \<Rightarrow> rat \<Rightarrow> nat \<Rightarrow> nat \<Rightarrow> bool" where
  "worthwhile rows eps r p \<longleftrightarrow> r < length rows \<and> p < length (rows ! r) \<and> eps \<le> survival_prefix 0 (rows ! r) ! p"

lemma fold_max_le: "fold max xs (a :: int) \<ge> a \<and> (\<forall>x \<in> set xs. x \<le> fold max xs a)"
proof (induction xs arbitrary: a)
  case (Cons x xs)
  have "max x a \<le> fold max xs (max x a)" "\<forall>y \<in> set xs. y \<le> fold max xs (max x a)" using Cons [of "max x a"] by blast+
  then show ?case by auto
qed simp

lemma width_of_ge: "row \<in> set rows \<Longrightarrow> int (length row) \<le> width_of rows" "0 \<le> width_of rows"
  using fold_max_le [of 0 "map (\<lambda>row. int (length row)) rows"] by (auto simp: width_of_def)

lemma all_candidates_set:
  assumes "\<forall>row \<in> set rows. int (length row) \<le> m" and "0 \<le> m"
  shows "set (all_candidates m eps rows) =
    {(survival_prefix 0 (rows ! r) ! p, p, r) | r p. worthwhile rows eps r p}"
proof -
  have full: "py_take m (survival_prefix 0 row) = survival_prefix 0 row" if "row \<in> set rows" for row
  proof -
    have "length row \<le> nat m" using assms that by (simp add: le_nat_iff)
    then show ?thesis using assms(2) by (simp add: py_take_def survival_prefix_def)
  qed
  have len: "length (survival_prefix 0 row) = length row" for row by (simp add: survival_prefix_def)
  have row: "set (row_candidates m eps r row) =
      {(survival_prefix 0 row ! p, p, r) | p. p < length row \<and> eps \<le> survival_prefix 0 row ! p}"
    if "row \<in> set rows" for r row
    unfolding row_candidates_def full [OF that] set_map set_filter
    by (auto simp: in_enumerate len image_iff)
  have mem: "c \<in> set (all_candidates m eps rows) \<longleftrightarrow>
      (\<exists>r < length rows. c \<in> set (row_candidates m eps r (rows ! r)))" for c
    unfolding all_candidates_def by (auto simp: in_set_enumerate_eq) (metis add_0 enumerate_eq_zip in_enumerate)+
  show ?thesis
  proof (intro set_eqI)
    fix c
    have "c \<in> set (row_candidates m eps r (rows ! r)) \<longleftrightarrow>
        (\<exists>p. c = (survival_prefix 0 (rows ! r) ! p, p, r) \<and> p < length (rows ! r) \<and> eps \<le> survival_prefix 0 (rows ! r) ! p)"
      if "r < length rows" for r
      using row [OF nth_mem [OF that], of r] by auto
    then show "c \<in> set (all_candidates m eps rows) \<longleftrightarrow>
        c \<in> {(survival_prefix 0 (rows ! r) ! p, p, r) | r p. worthwhile rows eps r p}"
      unfolding mem worthwhile_def by blast
  qed
qed

lemma distinct_candidates:
  "distinct (all_candidates m eps rows)"
proof -
  have row: "distinct (row_candidates m eps r row) \<and> (\<forall>c \<in> set (row_candidates m eps r row). snd (snd c) = r)" for r row
  proof -
    have "distinct (filter (\<lambda>(_, v). v \<ge> eps) (enumerate 0 (py_take m (survival_prefix 0 row))))" by simp
    moreover have "inj_on (\<lambda>(p, v). (v, p, r)) A" for A :: "(nat \<times> rat) set" by (auto simp: inj_on_def)
    ultimately show ?thesis by (auto simp: row_candidates_def distinct_map)
  qed
  have "distinct (concat (map (\<lambda>(r, row). row_candidates m eps r row) (enumerate n rows))) \<and>
      (\<forall>c \<in> set (concat (map (\<lambda>(r, row). row_candidates m eps r row) (enumerate n rows))). n \<le> snd (snd c))" for n
  proof (induction rows arbitrary: n)
    case (Cons x rows)
    let ?rest = "concat (map (\<lambda>(r, row). row_candidates m eps r row) (enumerate (Suc n) rows))"
    have ih: "distinct ?rest" "\<And>c. c \<in> set ?rest \<Longrightarrow> Suc n \<le> snd (snd c)" using Cons [of "Suc n"] by blast+
    have here: "\<And>c. c \<in> set (row_candidates m eps n x) \<Longrightarrow> snd (snd c) = n" using row by blast
    have "set (row_candidates m eps n x) \<inter> set ?rest = {}"
    proof (intro equals0I)
      fix c assume "c \<in> set (row_candidates m eps n x) \<inter> set ?rest"
      then show False using ih(2) [of c] here [of c] by simp
    qed
    moreover have "concat (map (\<lambda>(r, row). row_candidates m eps r row) (enumerate n (x # rows))) =
        row_candidates m eps n x @ ?rest" by simp
    moreover have "n \<le> snd (snd c)" if "c \<in> set (row_candidates m eps n x @ ?rest)" for c
      using that ih(2) [of c] here [of c] by fastforce
    ultimately show ?case using ih(1) row [of n x] by (simp only: distinct_append) blast
  qed simp
  then show ?thesis unfolding all_candidates_def by blast
qed


text \<open>The first \<open>k\<close> entries of a list with falling values weigh at least as much as any \<open>k\<close> others.\<close>

lemma top_k_heaviest:
  fixes v :: "'a \<Rightarrow> rat"
  assumes "distinct xs" and "\<And>i j. i < j \<Longrightarrow> j < length xs \<Longrightarrow> v (xs ! j) \<le> v (xs ! i)"
    and "\<And>x. x \<in> set xs \<Longrightarrow> 0 \<le> v x" and "S \<subseteq> set xs" and "card S \<le> k"
  shows "sum v S \<le> sum v (set (take k xs))"
proof -
  let ?T = "set (take k xs)"
  have fin: "finite S" "finite ?T" using assms(4) finite_subset by auto
  show ?thesis
  proof (cases "length xs \<le> k")
    case True
    then show ?thesis using assms(3,4) by (intro sum_mono2) auto
  next
    case False
    define m where "m = v (xs ! k)"
    have "card ?T = k" using assms(1) False by (simp add: distinct_card)
    then have "card S \<le> card ?T" using assms(5) by simp
    moreover have "card (S - ?T) = card S - card (S \<inter> ?T)" "card (?T - S) = card ?T - card (S \<inter> ?T)"
      using fin card_Diff_subset_Int [of S ?T] card_Diff_subset_Int [of ?T S] by (simp_all add: Int_commute)
    ultimately have cards: "card (S - ?T) \<le> card (?T - S)" by simp
    have out: "v x \<le> m" if "x \<in> S - ?T" for x
    proof -
      have "x \<in> set xs" using that assms(4) by blast
      then obtain i where i: "i < length xs" "x = xs ! i" unfolding in_set_conv_nth by blast
      have "\<not> i < k" using that i False by (auto simp: in_set_conv_nth)
      then show ?thesis using assms(2) [of k i] i unfolding m_def by (cases "i = k") auto
    qed
    have inside: "m \<le> v x" if "x \<in> ?T - S" for x
      using that assms(2) False unfolding m_def by (auto simp: in_set_conv_nth)
    have m: "0 \<le> m" using assms(3) False unfolding m_def by simp
    have "sum v (S - ?T) \<le> of_nat (card (S - ?T)) * m" using out by (intro sum_bounded_above) blast
    also have "\<dots> \<le> of_nat (card (?T - S)) * m" using cards m by (intro mult_right_mono) simp_all
    also have "\<dots> \<le> sum v (?T - S)" using inside by (intro sum_bounded_below) blast
    finally have "sum v (S - ?T) \<le> sum v (?T - S)" .
    moreover have "sum v S = sum v (S \<inter> ?T) + sum v (S - ?T)" using fin(1) by (simp add: sum.Int_Diff)
    moreover have "sum v ?T = sum v (S \<inter> ?T) + sum v (?T - S)" using fin(2) by (metis Int_commute sum.Int_Diff)
    ultimately show ?thesis by linarith
  qed
qed

lemma sorted_take_closed:
  assumes "sorted (map f xs)" and "x \<in> set (take k xs)" and "y \<in> set xs" and "f y < f x"
  shows "y \<in> set (take k xs)"
proof -
  obtain i where i: "i < k" "i < length xs" "x = xs ! i" using assms(2) by (auto simp: in_set_conv_nth)
  obtain j where j: "j < length xs" "y = xs ! j" using assms(3) by (auto simp: in_set_conv_nth)
  have "j < i"
  proof (rule ccontr)
    assume "\<not> j < i"
    then have "f x \<le> f y" using sorted_nth_mono [OF assms(1), of i j] i j by simp
    then show False using assms(4) by simp
  qed
  then show ?thesis using i j by (auto simp: in_set_conv_nth intro!: exI [of _ j])
qed

lemma down_closed_lessThan:
  assumes "finite P" and "\<And>p q. p \<in> P \<Longrightarrow> q < p \<Longrightarrow> q \<in> P"
  shows "P = {..<card P}"
proof (cases "P = {}")
  case False
  have max: "p \<le> Max P" if "p \<in> P" for p using assms(1) that by (rule Max_ge)
  have mem: "Max P \<in> P" using assms(1) False by (rule Max_in)
  have "P = {..<Suc (Max P)}" using max assms(2) [OF mem] mem by (auto simp: less_Suc_eq_le le_less)
  then show ?thesis by (metis card_lessThan)
qed simp

text \<open>What the default planner selects, and how its per-request counts describe it.\<close>

definition selection :: "rat list list \<Rightarrow> nat \<Rightarrow> rat \<Rightarrow> candidate list" where
  "selection rows budget eps =
     take budget (sort_key candidate_key (all_candidates (width_of rows + 1) eps rows))"

lemma candidate_key_less: "candidate_key (v, p, r) < candidate_key (v', p', r') \<longleftrightarrow> v' < v \<or> v' = v \<and> (p < p' \<or> p = p' \<and> r < r')"
  by (auto simp: candidate_key_def less_prod_def)

lemma selection_facts:
  fixes rows :: "rat list list" and budget :: nat and eps :: rat
  defines "T \<equiv> selection rows budget eps"
  shows "distinct T" and "length T \<le> budget"
    and "c \<in> set T \<Longrightarrow> \<exists>r p. c = (survival_prefix 0 (rows ! r) ! p, p, r) \<and> worthwhile rows eps r p"
    and "{p. (survival_prefix 0 (rows ! r) ! p, p, r) \<in> set T} = {..<selected_count T r}"
proof -
  let ?C = "all_candidates (width_of rows + 1) eps rows" and ?v = "\<lambda>r p. survival_prefix 0 (rows ! r) ! p"
  let ?L = "sort_key candidate_key ?C"
  have bound: "\<forall>row \<in> set rows. int (length row) \<le> width_of rows + 1" "0 \<le> width_of rows + 1"
    using width_of_ge(1) [of _ rows] width_of_ge(2) [of rows] by fastforce+
  note C = all_candidates_set [OF bound, of eps]
  have T: "T = take budget ?L" by (simp add: T_def selection_def)
  show dT: "distinct T" unfolding T using distinct_candidates by (simp add: distinct_take)
  show "length T \<le> budget" unfolding T by simp
  have sub: "set T \<subseteq> set ?C" unfolding T using set_take_subset [of budget ?L] by simp
  show shape: "\<exists>r p. c = (?v r p, p, r) \<and> worthwhile rows eps r p" if "c \<in> set T" for c
    using that sub unfolding C by blast
  let ?P = "{p. (?v r p, p, r) \<in> set T}"
  have closed: "q \<in> ?P" if "p \<in> ?P" "q < p" for p q
  proof -
    have w: "worthwhile rows eps r p" using shape [of "(?v r p, p, r)"] that(1) by auto
    have pr: "p < length (rows ! r)" "r < length rows" "eps \<le> ?v r p" using w by (simp_all add: worthwhile_def)
    have ge: "?v r p \<le> ?v r q" using survival_prefix_zero(2) [OF pr(1), of q] that(2) by simp
    then have "worthwhile rows eps r q" using pr that(2) by (simp add: worthwhile_def)
    then have "(?v r q, q, r) \<in> set ?L" unfolding set_sort C by blast
    moreover have "candidate_key (?v r q, q, r) < candidate_key (?v r p, p, r)"
      using ge that(2) by (auto simp: candidate_key_less)
    ultimately show ?thesis
      using sorted_take_closed [where f = candidate_key and xs = ?L and x = "(?v r p, p, r)" and k = budget,
          OF sorted_sort_key] that(1) by (simp add: T)
  qed
  have "set (filter (\<lambda>c. snd (snd c) = r) T) = (\<lambda>p. (?v r p, p, r)) ` ?P"
  proof (intro set_eqI iffI)
    fix c assume c: "c \<in> set (filter (\<lambda>c. snd (snd c) = r) T)"
    then obtain r' p where "c = (?v r' p, p, r')" using shape [of c] by auto
    then have "c = (?v r p, p, r)" using c by simp
    then show "c \<in> (\<lambda>p. (?v r p, p, r)) ` ?P" using c by auto
  qed auto
  moreover have inj: "inj_on (\<lambda>p. (?v r p, p, r)) ?P" by (auto simp: inj_on_def)
  ultimately have img: "set (filter (\<lambda>c. snd (snd c) = r) T) = (\<lambda>p. (?v r p, p, r)) ` ?P" "inj_on (\<lambda>p. (?v r p, p, r)) ?P"
    by blast+
  have fin: "finite ?P" using img finite_imageD [of "\<lambda>p. (?v r p, p, r)" ?P] by (metis List.finite_set)
  have "selected_count T r = card (set (filter (\<lambda>c. snd (snd c) = r) T))"
    unfolding selected_count_def using dT by (simp only: distinct_card distinct_filter)
  also have "\<dots> = card ?P" unfolding img(1) using img(2) by (rule card_image)
  finally have count: "selected_count T r = card ?P" "finite ?P" using fin by blast+
  show "?P = {..<selected_count T r}" unfolding count(1) using count(2) closed by (rule down_closed_lessThan)
qed

lemma sum_selected:
  fixes rows :: "rat list list" and budget :: nat and eps :: rat
  defines "T \<equiv> selection rows budget eps"
  shows "sum fst (set T) = (\<Sum>r < length rows. \<Sum>p < selected_count T r. survival_prefix 0 (rows ! r) ! p)"
    and "length T = (\<Sum>r < length rows. selected_count T r)"
proof -
  note F = selection_facts [where rows = rows and budget = budget and eps = eps, folded T_def]
  let ?v = "\<lambda>r p. survival_prefix 0 (rows ! r) ! p"
  let ?A = "SIGMA r : {..<length rows}. {..<selected_count T r}"
  let ?f = "\<lambda>(r, p). (?v r p, p, r)"
  have img: "set T = ?f ` ?A"
  proof (intro set_eqI iffI)
    fix c assume c: "c \<in> set T"
    then obtain r p where rp: "c = (?v r p, p, r)" "worthwhile rows eps r p" using F(3) by blast
    then have "p \<in> {..<selected_count T r}" using c F(4) [of r] by auto
    then show "c \<in> ?f ` ?A" using rp by (auto simp: worthwhile_def image_iff)
  next
    fix c assume "c \<in> ?f ` ?A"
    then obtain r p where "c = (?v r p, p, r)" "p \<in> {..<selected_count T r}" by auto
    then show "c \<in> set T" using F(4) [of r] by auto
  qed
  have inj: "inj_on ?f ?A" by (auto simp: inj_on_def)
  have "sum fst (set T) = (\<Sum>(r, p) \<in> ?A. ?v r p)"
    unfolding img using sum.reindex [OF inj, of fst] by (simp add: case_prod_unfold comp_def)
  also have "\<dots> = (\<Sum>r < length rows. \<Sum>p < selected_count T r. ?v r p)" by (simp add: sum.Sigma)
  finally show "sum fst (set T) = (\<Sum>r < length rows. \<Sum>p < selected_count T r. ?v r p)" .
  have "length T = card (set T)" using F(1) by (simp add: distinct_card)
  also have "\<dots> = card ?A" unfolding img using card_image [OF inj] by simp
  also have "\<dots> = (\<Sum>r < length rows. selected_count T r)" by simp
  finally show "length T = (\<Sum>r < length rows. selected_count T r)" .
qed


text \<open>
  C19: the default verify plan is optimal.  With the default bounds the plan gives request \<open>r\<close> its first
  \<open>ws ! r\<close> drafts, no more than it has and no more than the budget in total, and no way of giving the
  requests prefixes of drafts whose survival reaches \<open>survival_eps\<close>, within the same budget, has a
  larger total survival, that is, more expected accepted tokens.
\<close>

theorem default_plan_is_optimal:
  assumes "0 \<le> budget"
  shows "\<exists>ws. schedule_verify_widths_topk rows budget 1 None eps = Inr ws \<and> length ws = length rows \<and>
    (\<forall>r < length rows. 0 \<le> ws ! r \<and> ws ! r \<le> int (length (rows ! r))) \<and>
    (\<Sum>r < length rows. ws ! r) \<le> budget \<and>
    (\<forall>alloc. (\<forall>r < length rows. \<forall>p < alloc r. worthwhile rows eps r p) \<and>
        (\<Sum>r < length rows. int (alloc r)) \<le> budget \<longrightarrow>
      (\<Sum>r < length rows. \<Sum>p < alloc r. survival_prefix 0 (rows ! r) ! p)
        \<le> (\<Sum>r < length rows. \<Sum>p < nat (ws ! r). survival_prefix 0 (rows ! r) ! p))"
proof -
  let ?T = "selection rows (nat budget) eps" and ?v = "\<lambda>r p. survival_prefix 0 (rows ! r) ! p"
  let ?C = "all_candidates (width_of rows + 1) eps rows"
  let ?L = "sort_key candidate_key ?C"
  let ?ws = "map (\<lambda>r. int (selected_count ?T r)) [0..<length rows]"
  note F = selection_facts [where rows = rows and budget = "nat budget" and eps = eps]
  note W = width_of_ge
  have bound: "\<forall>row \<in> set rows. int (length row) \<le> width_of rows + 1" "0 \<le> width_of rows + 1"
    using W(1) [of _ rows] W(2) [of rows] by fastforce+
  note C = all_candidates_set [OF bound, of eps]
  have cnt: "selected_count ?T r \<le> length (rows ! r)" if "r < length rows" for r
  proof (rule ccontr)
    assume "\<not> ?thesis"
    then have "length (rows ! r) \<in> {..<selected_count ?T r}" by simp
    then have "(?v r (length (rows ! r)), length (rows ! r), r) \<in> set ?T" unfolding F(4) [symmetric] by simp
    from F(3) [OF this] show False by (auto simp: worthwhile_def)
  qed
  have "min (max (1 + int (selected_count ?T r)) (max 1 1)) (width_of rows + 1) - 1 = int (selected_count ?T r)"
    if "r < length rows" for r
    using cnt [OF that] W(1) [OF nth_mem [OF that]] by simp
  then have run: "schedule_verify_widths_topk rows budget 1 None eps = Inr ?ws"
    using assms W(2) [of rows]
    by (simp add: schedule_verify_widths_topk_def schedule_verify_lens_topk_def Let_def selection_def comp_def)
  have total: "(\<Sum>r < length rows. ?ws ! r) \<le> budget"
  proof -
    have "(\<Sum>r < length rows. ?ws ! r) = (\<Sum>r < length rows. int (selected_count ?T r))" by (intro sum.cong) simp_all
    also have "\<dots> = int (length ?T)" unfolding sum_selected(2) by simp
    finally show ?thesis using F(2) assms by linarith
  qed
  have best: "(\<Sum>r < length rows. \<Sum>p < alloc r. ?v r p) \<le> (\<Sum>r < length rows. \<Sum>p < selected_count ?T r. ?v r p)"
    if ok: "\<forall>r < length rows. \<forall>p < alloc r. worthwhile rows eps r p" "(\<Sum>r < length rows. int (alloc r)) \<le> budget" for alloc
  proof -
    let ?A = "SIGMA r : {..<length rows}. {..<alloc r}" and ?f = "\<lambda>(r, p). (?v r p, p, r)"
    have inj: "inj_on ?f ?A" by (auto simp: inj_on_def)
    have sub: "?f ` ?A \<subseteq> set ?L" unfolding set_sort C using ok(1) by auto
    have "card (?f ` ?A) = (\<Sum>r < length rows. alloc r)" using card_image [OF inj] by simp
    then have card: "card (?f ` ?A) \<le> nat budget" using ok(2) assms by (simp flip: of_nat_sum)
    have desc: "fst (?L ! j) \<le> fst (?L ! i)" if "i < j" "j < length ?L" for i j
    proof -
      have "candidate_key (?L ! i) \<le> candidate_key (?L ! j)"
        using sorted_nth_mono [OF sorted_sort_key, of i j candidate_key ?C] that by simp
      then show ?thesis by (auto simp: candidate_key_def less_eq_prod_def)
    qed
    have pos: "0 \<le> fst c" if "c \<in> set ?L" for c
      using that survival_prefix_zero(1) unfolding set_sort C by (auto simp: worthwhile_def)
    have "(\<Sum>r < length rows. \<Sum>p < alloc r. ?v r p) = sum fst (?f ` ?A)"
      using sum.reindex [OF inj, of fst] by (simp add: sum.Sigma case_prod_unfold comp_def)
    also have "\<dots> \<le> sum fst (set (take (nat budget) ?L))"
      using desc pos sub card by (intro top_k_heaviest) (simp_all add: distinct_candidates)
    also have "\<dots> = (\<Sum>r < length rows. \<Sum>p < selected_count ?T r. ?v r p)"
      using sum_selected(1) [of rows "nat budget" eps] by (simp add: selection_def)
    finally show ?thesis .
  qed
  show ?thesis using run cnt total best by (intro exI [of _ ?ws]) simp
qed

theorem default_plan_is_optimal_witness:
  "schedule_verify_widths_topk [[9/10, 1/2], [3/5]] 2 1 None (1/100) = Inr [1, 1] \<and>
   (\<exists>ws. schedule_verify_widths_topk [[9/10, 1/2], [3/5]] 2 1 None (1/100) = Inr ws \<and>
      (\<Sum>r < length [[9/10, 1/2], [3/5 :: rat]]. ws ! r) \<le> 2)"
proof
  show "schedule_verify_widths_topk [[9/10, 1/2], [3/5]] 2 1 None (1/100) = Inr [1, 1]" by code_simp
  show "\<exists>ws. schedule_verify_widths_topk [[9/10, 1/2], [3/5]] 2 1 None (1/100) = Inr ws \<and>
      (\<Sum>r < length [[9/10, 1/2], [3/5 :: rat]]. ws ! r) \<le> 2"
    using default_plan_is_optimal [OF zero_le_numeral, of "[[9/10, 1/2], [3/5]]" "num.Bit0 num.One" "1/100"] by blast
qed

end
