(* ===== verification/Stop_Match.thy ===== *)
theory Stop_Match
  imports Py_Text
begin

text \<open>
  Stop sequences on decoded text (\<^verbatim>\<open>server/formats/stop.py\<close>) and the two single-marker variants of the
  same idea, \<^verbatim>\<open>_trim_ambiguous_tail\<close> of \<^verbatim>\<open>server/formats/stream.py\<close> and \<^verbatim>\<open>find_tool_call_start\<close> of
  \<^verbatim>\<open>server/formats/tools.py\<close>.
\<close>

section \<open>Definitions\<close>

fun earliest_from :: "(nat \<times> 'a list) option \<Rightarrow> 'a list \<Rightarrow> 'a list list \<Rightarrow> (nat \<times> 'a list) option" where
  "earliest_from best xs [] = best"
| "earliest_from best xs (s # ss) =
     (if s = [] then earliest_from best xs ss
      else case find_in s xs of
        None \<Rightarrow> earliest_from best xs ss
      | Some i \<Rightarrow>
          (case best of
             None \<Rightarrow> earliest_from (Some (i, s)) xs ss
           | Some (b, _) \<Rightarrow> if i < b then earliest_from (Some (i, s)) xs ss else earliest_from best xs ss))"

definition find_earliest_stop_match :: "'a list \<Rightarrow> 'a list list \<Rightarrow> (nat \<times> 'a list) option" where
  "find_earliest_stop_match xs stops = earliest_from None xs stops"

fun stop_cut :: "nat \<Rightarrow> 'a list \<Rightarrow> 'a list list \<Rightarrow> nat" where
  "stop_cut lim xs [] = lim"
| "stop_cut lim xs (s # ss) =
     (if length s \<le> 1 then stop_cut lim xs ss
      else let plen = partial_tail s xs (min (length s - 1) (length xs))
        in if plen = 0 then stop_cut lim xs ss else stop_cut (min lim (length xs - plen)) xs ss)"

definition trim_ambiguous_stop_tail :: "'a list \<Rightarrow> 'a list list \<Rightarrow> 'a list" where
  "trim_ambiguous_stop_tail xs stops = take (stop_cut (length xs) xs stops) xs"

definition trim_ambiguous_tail :: "'a list \<Rightarrow> 'a list \<Rightarrow> 'a list" where
  "trim_ambiguous_tail xs marker =
     take (length xs - partial_tail marker xs (min (length marker - 1) (length xs))) xs"

definition find_tool_call_start :: "'a list \<Rightarrow> 'a list \<Rightarrow> int" where
  "find_tool_call_start xs open_tag = (case find_in open_tag xs of
     Some i \<Rightarrow> int i
   | None \<Rightarrow>
       let l = partial_tail open_tag xs (length open_tag - 1)
       in if l = 0 then -1 else int (length xs) - int l)"

section \<open>What they find\<close>

lemma earliest_from_spec:
  assumes "\<And>b s. best = Some (b, s) \<Longrightarrow> find_in s xs = Some b \<and> s \<noteq> []"
  shows "(earliest_from best xs ss = None \<longleftrightarrow> best = None \<and> (\<forall>s \<in> set ss. s \<noteq> [] \<longrightarrow> find_in s xs = None)) \<and>
    (\<forall>i s. earliest_from best xs ss = Some (i, s) \<longrightarrow>
       (s \<in> set ss \<or> best = Some (i, s)) \<and> s \<noteq> [] \<and> find_in s xs = Some i \<and>
       (\<forall>b s'. best = Some (b, s') \<longrightarrow> i \<le> b) \<and>
       (\<forall>s' \<in> set ss. \<forall>j. s' \<noteq> [] \<and> find_in s' xs = Some j \<longrightarrow> i \<le> j))"
  using assms
proof (induction ss arbitrary: best)
  case Nil
  then show ?case by auto
next
  case (Cons s ss)
  show ?case
  proof (cases "s = [] \<or> find_in s xs = None")
    case True
    then have "earliest_from best xs (s # ss) = earliest_from best xs ss" by auto
    then show ?thesis using Cons.IH [OF Cons.prems] True by auto
  next
    case False
    then obtain i where i: "find_in s xs = Some i" "s \<noteq> []" by auto
    obtain b0 s0 where b0: "earliest_from best xs (s # ss) = earliest_from (Some (b0, s0)) xs ss"
      "find_in s0 xs = Some b0" "s0 \<noteq> []" "b0 \<le> i" "s0 = s \<and> b0 = i \<or> best = Some (b0, s0)"
      "\<And>b s'. best = Some (b, s') \<Longrightarrow> b0 \<le> b"
    proof (cases best)
      case None
      then show ?thesis using i by (intro that [of i s]) simp_all
    next
      case (Some p)
      obtain b s' where p: "best = Some (b, s')" using Some by (cases p) simp
      show ?thesis
      proof (cases "i < b")
        case True
        then show ?thesis using i p by (intro that [of i s]) simp_all
      next
        case False
        then show ?thesis using i p Cons.prems [OF p] by (intro that [of b s']) simp_all
      qed
    qed
    have IH: "(earliest_from (Some (b0, s0)) xs ss = None \<longleftrightarrow>
          Some (b0, s0) = None \<and> (\<forall>s \<in> set ss. s \<noteq> [] \<longrightarrow> find_in s xs = None)) \<and>
        (\<forall>i s. earliest_from (Some (b0, s0)) xs ss = Some (i, s) \<longrightarrow>
          (s \<in> set ss \<or> Some (b0, s0) = Some (i, s)) \<and> s \<noteq> [] \<and> find_in s xs = Some i \<and>
          (\<forall>b s'. Some (b0, s0) = Some (b, s') \<longrightarrow> i \<le> b) \<and>
          (\<forall>s' \<in> set ss. \<forall>j. s' \<noteq> [] \<and> find_in s' xs = Some j \<longrightarrow> i \<le> j))"
      by (rule Cons.IH) (use b0(2,3) in simp)
    have none: "earliest_from (Some (b0, s0)) xs ss \<noteq> None" using IH by blast
    have "(s2 \<in> set (s # ss) \<or> best = Some (i2, s2)) \<and> s2 \<noteq> [] \<and> find_in s2 xs = Some i2 \<and>
        (\<forall>b s'. best = Some (b, s') \<longrightarrow> i2 \<le> b) \<and>
        (\<forall>s' \<in> set (s # ss). \<forall>j. s' \<noteq> [] \<and> find_in s' xs = Some j \<longrightarrow> i2 \<le> j)"
      if r: "earliest_from (Some (b0, s0)) xs ss = Some (i2, s2)" for i2 s2
    proof -
      have R: "s2 \<in> set ss \<or> Some (b0, s0) = Some (i2, s2)" "s2 \<noteq> []" "find_in s2 xs = Some i2" "i2 \<le> b0"
        "\<forall>s' \<in> set ss. \<forall>j. s' \<noteq> [] \<and> find_in s' xs = Some j \<longrightarrow> i2 \<le> j"
        using IH [THEN conjunct2, THEN spec, THEN spec, THEN mp, OF r] by simp_all
      have "s2 \<in> set (s # ss) \<or> best = Some (i2, s2)" using R(1) b0(5) by auto
      moreover have "\<forall>b s'. best = Some (b, s') \<longrightarrow> i2 \<le> b" using b0(6) R(4) order_trans by blast
      moreover have "i2 \<le> i" using R(4) b0(4) by simp
      ultimately show ?thesis using R(2,3,5) i(1) by simp
    qed
    moreover have "(\<forall>s' \<in> set (s # ss). s' \<noteq> [] \<longrightarrow> find_in s' xs = None) = False" using i by simp
    ultimately show ?thesis using none unfolding b0(1) by blast
  qed
qed

lemma find_earliest_None:
  "find_earliest_stop_match xs stops = None \<longleftrightarrow> (\<forall>s \<in> set stops. s \<noteq> [] \<longrightarrow> (\<forall>i. \<not> occurs_at s xs i))"
  using earliest_from_spec [of None xs stops] by (simp add: find_earliest_stop_match_def find_in_None)

lemma find_earliest_Some:
  assumes "find_earliest_stop_match xs stops = Some (i, s)"
  shows "s \<in> set stops" and "s \<noteq> []" and "occurs_at s xs i"
    and "s' \<in> set stops \<Longrightarrow> s' \<noteq> [] \<Longrightarrow> occurs_at s' xs j \<Longrightarrow> i \<le> j"
proof -
  note S = earliest_from_spec [of None xs stops, folded find_earliest_stop_match_def]
  show "s \<in> set stops" "s \<noteq> []" using S assms by auto
  show "occurs_at s xs i" using S assms by (auto simp: find_in_Some)
  assume s': "s' \<in> set stops" "s' \<noteq> []" "occurs_at s' xs j"
  then obtain k where k: "find_in s' xs = Some k" using find_in_None by (metis not_None_eq)
  have "k \<le> j" using k s'(3) by (auto simp: find_in_Some not_less [symmetric])
  moreover have "i \<le> k" using S assms s'(1,2) k by auto
  ultimately show "i \<le> j" by simp
qed

lemma stop_cut_le: "stop_cut lim xs ss \<le> lim"
proof (induction ss arbitrary: lim)
  case (Cons s ss)
  have "stop_cut (min lim n) xs ss \<le> lim" for n using Cons [of "min lim n"] by simp
  then show ?case using Cons by (simp add: Let_def)
qed simp

lemma stop_cut_bound:
  "s \<in> set ss \<Longrightarrow> 0 < k \<Longrightarrow> k < length s \<Longrightarrow> suffix (take k s) xs \<Longrightarrow> k \<le> length xs \<Longrightarrow>
   stop_cut lim xs ss \<le> length xs - k"
proof (induction ss arbitrary: lim)
  case (Cons s' ss)
  show ?case
  proof (cases "s = s'")
    case True
    let ?p = "partial_tail s xs (min (length s - 1) (length xs))"
    have "k \<le> ?p" using Cons.prems by (intro partial_tail_max) simp_all
    then have "length xs - ?p \<le> length xs - k" by simp
    moreover have "?p \<noteq> 0" "\<not> length s \<le> 1" using \<open>k \<le> ?p\<close> Cons.prems by linarith+
    ultimately show ?thesis
      using True stop_cut_le [of "min lim (length xs - ?p)" xs ss] by (simp add: Let_def)
  next
    case False
    then have "s \<in> set ss" using Cons.prems(1) by simp
    then show ?thesis using Cons.IH Cons.prems(2-5) by (simp add: Let_def)
  qed
qed simp

lemma stop_cut_cause:
  "stop_cut lim xs ss = lim \<or>
   (\<exists>s \<in> set ss. \<exists>k. 0 < k \<and> k < length s \<and> k \<le> length xs \<and> suffix (take k s) xs \<and> stop_cut lim xs ss = length xs - k)"
proof (induction ss arbitrary: lim)
  case (Cons s ss)
  let ?p = "partial_tail s xs (min (length s - 1) (length xs))"
  show ?case
  proof (cases "length s \<le> 1 \<or> ?p = 0")
    case True
    then have "stop_cut lim xs (s # ss) = stop_cut lim xs ss" by (auto simp: Let_def)
    then show ?thesis using Cons [of lim] by auto
  next
    case False
    then have run: "stop_cut lim xs (s # ss) = stop_cut (min lim (length xs - ?p)) xs ss" by (auto simp: Let_def)
    have p: "0 < ?p" "?p < length s" "?p \<le> length xs" "suffix (take ?p s) xs"
      using False partial_tail_le [of s xs "min (length s - 1) (length xs)"] partial_tail_suffix by auto
    show ?thesis
      using Cons [of "min lim (length xs - ?p)"]
    proof (elim disjE)
      assume eq: "stop_cut (min lim (length xs - ?p)) xs ss = min lim (length xs - ?p)"
      show ?thesis
      proof (cases "lim \<le> length xs - ?p")
        case True
        then show ?thesis using eq run by simp
      next
        case False
        then have "stop_cut lim xs (s # ss) = length xs - ?p" using eq run by simp
        then have "0 < ?p \<and> ?p < length s \<and> ?p \<le> length xs \<and> suffix (take ?p s) xs \<and>
            stop_cut lim xs (s # ss) = length xs - ?p" using p by blast
        then have "\<exists>k. 0 < k \<and> k < length s \<and> k \<le> length xs \<and> suffix (take k s) xs \<and>
            stop_cut lim xs (s # ss) = length xs - k" by (rule exI [of _ ?p])
        then show ?thesis by (intro disjI2 bexI [of _ s]) (assumption, rule list.set_intros)
      qed
    next
      assume "\<exists>s \<in> set ss. \<exists>k. 0 < k \<and> k < length s \<and> k \<le> length xs \<and> suffix (take k s) xs \<and>
        stop_cut (min lim (length xs - ?p)) xs ss = length xs - k"
      then obtain s' k where k: "s' \<in> set ss" "0 < k" "k < length s'" "k \<le> length xs" "suffix (take k s') xs"
        "stop_cut (min lim (length xs - ?p)) xs ss = length xs - k" by blast
      have "s' \<in> set (s # ss)" using k(1) by simp
      with k(2-6) show ?thesis unfolding run by blast
    qed
  qed
qed simp

text \<open>
  what \<^verbatim>\<open>trim_ambiguous_stop_tail\<close> lets through is never part of a stop sequence.  While no stop
  sequence occurs in the text, the first match that later text completes starts at or after the end
  of the trimmed text, whatever that later text is; and nothing is withheld needlessly: the withheld
  tail, if there is one, is the beginning of some stop sequence, so a continuation completing it
  exists.
\<close>

theorem trimmed_text_is_safe:
  assumes "find_earliest_stop_match xs stops = None"
  shows "prefix (trim_ambiguous_stop_tail xs stops) xs \<and>
    (\<forall>more i s. find_earliest_stop_match (xs @ more) stops = Some (i, s) \<longrightarrow>
       length (trim_ambiguous_stop_tail xs stops) \<le> i) \<and>
    (trim_ambiguous_stop_tail xs stops = xs \<or>
     (\<exists>s \<in> set stops. \<exists>more. occurs_at s (xs @ more) (length (trim_ambiguous_stop_tail xs stops))))"
proof -
  let ?lim = "stop_cut (length xs) xs stops"
  have le: "?lim \<le> length xs" by (rule stop_cut_le)
  then have len: "length (trim_ambiguous_stop_tail xs stops) = ?lim" by (simp add: trim_ambiguous_stop_tail_def)
  have safe: "?lim \<le> i" if m: "find_earliest_stop_match (xs @ more) stops = Some (i, s)" for more i s
  proof (cases "i < length xs")
    case True
    note F = find_earliest_Some [OF m]
    have "\<not> occurs_at s xs i" using assms F(1,2) unfolding find_earliest_None by blast
    then obtain k where k: "0 < k" "k < length s" "k \<le> length xs" "i = length xs - k" "suffix (take k s) xs"
      using new_occurrence_tail [OF F(3) _ True] by blast
    show ?thesis using stop_cut_bound [OF F(1) k(1,2,5,3)] k(4) by simp
  next
    case False
    then show ?thesis using le by simp
  qed
  have tight: "trim_ambiguous_stop_tail xs stops = xs \<or> (\<exists>s \<in> set stops. \<exists>more. occurs_at s (xs @ more) ?lim)"
    using stop_cut_cause [of "length xs" xs stops]
  proof (elim disjE)
    assume "?lim = length xs"
    then show ?thesis by (simp add: trim_ambiguous_stop_tail_def)
  next
    assume "\<exists>s \<in> set stops. \<exists>k. 0 < k \<and> k < length s \<and> k \<le> length xs \<and> suffix (take k s) xs \<and> ?lim = length xs - k"
    then obtain s k where k: "s \<in> set stops" "0 < k" "k < length s" "k \<le> length xs" "suffix (take k s) xs" "?lim = length xs - k"
      by blast
    have "drop (length xs - k) xs = take k s" using k(3-5) by (auto simp: suffix_def)
    then have "occurs_at s (xs @ drop k s) ?lim"
      using k(3,4,6) by (simp add: occurs_at_def)
    then show ?thesis using k(1) by blast
  qed
  have "prefix (trim_ambiguous_stop_tail xs stops) xs" by (simp add: trim_ambiguous_stop_tail_def take_is_prefix)
  with safe tight show ?thesis unfolding len by blast
qed

theorem trimmed_text_is_safe_witness:
  "trim_ambiguous_stop_tail (lit ''ab<E'') [lit ''<END>'', lit ''E!''] = lit ''ab'' \<and>
   find_earliest_stop_match (lit ''ab<E'' @ lit ''ND>'') [lit ''<END>'', lit ''E!''] = Some (2, lit ''<END>'') \<and>
   length (lit ''ab'') \<le> 2"
proof -
  have none: "find_earliest_stop_match (lit ''ab<E'') [lit ''<END>'', lit ''E!''] = None" by code_simp
  have t: "trim_ambiguous_stop_tail (lit ''ab<E'') [lit ''<END>'', lit ''E!''] = lit ''ab''" by code_simp
  have m: "find_earliest_stop_match (lit ''ab<E'' @ lit ''ND>'') [lit ''<END>'', lit ''E!''] = Some (2, lit ''<END>'')"
    by code_simp
  have "length (trim_ambiguous_stop_tail (lit ''ab<E'') [lit ''<END>'', lit ''E!'']) \<le> 2"
    using trimmed_text_is_safe [OF none] m by blast
  with t m show ?thesis by simp
qed

end
