(* ===== verification/Tool_Calls.thy ===== *)
theory Tool_Calls
  imports Stop_Match
begin

text \<open>
  Tool calls in model text: the scan of \<^verbatim>\<open>server/formats/tools.py\<close> over any parser, and the two parsers
  of \<^verbatim>\<open>server/formats/tool_parsers/\<close>.  Decoding one JSON value (\<^verbatim>\<open>json.loads\<close>) is a parameter; regular
  expressions are written out as searches in the order the engine tries them.
\<close>

section \<open>Parser interface\<close>

definition OPEN_TAG :: str where "OPEN_TAG = lit ''<tool_call>''"
definition CLOSE_TAG :: str where "CLOSE_TAG = lit ''</tool_call>''"

lemma tag_lengths [simp]: "length OPEN_TAG = 11" "length CLOSE_TAG = 12"
  by (simp_all add: OPEN_TAG_def CLOSE_TAG_def lit_def)

record 'v call =
  call_name :: str
  call_args :: "(str \<times> 'v) list"

record 'v tool_parser =
  parse_block :: "str \<Rightarrow> 'v call option"
  find_name :: "str \<Rightarrow> bool \<Rightarrow> str option"

section \<open>Argument values\<close>

definition ends_with :: "str \<Rightarrow> str \<Rightarrow> bool" where
  "ends_with xs tail = suffix tail xs"

text \<open>\<^verbatim>\<open>re.sub(r",\s*([}\]])", r"\1", s)\<close>: a comma whose next non-space is a closing bracket goes, with the spaces.\<close>

function drop_trailing_commas :: "str \<Rightarrow> str" where
  "drop_trailing_commas [] = []"
| "drop_trailing_commas (c # cs) =
     (case dropWhile is_space cs of
        d # ds \<Rightarrow> if c = 44 \<and> (d = 125 \<or> d = 93) then d # drop_trailing_commas ds
                  else c # drop_trailing_commas cs
      | [] \<Rightarrow> c # drop_trailing_commas cs)"
  by pat_completeness auto
termination
proof (relation "measure length")
  fix c d :: nat and cs ds
  assume "dropWhile is_space cs = d # ds"
  then have "Suc (length ds) \<le> length cs" using length_dropWhile_le [of is_space cs] by simp
  then show "(ds, c # cs) \<in> measure length" by simp
qed simp_all

definition repair_json :: "str \<Rightarrow> str" where
  "repair_json xs =
     (let s = strip xs;
          t = (if prefix (lit ''{('') s then
                 let inner = drop 2 s;
                     inner' = (if ends_with inner (lit ''})]'') then take (length inner - 3) inner @ lit ''}]''
                       else if ends_with inner (lit '')}'') then take (length inner - 2) inner @ lit ''}]''
                       else if ends_with inner (lit '')'') then take (length inner - 1) inner @ lit ''}]''
                       else inner)
                 in lit ''[{'' @ inner'
               else s)
      in drop_trailing_commas t)"

definition parse_value :: "(str \<Rightarrow> 'v option) \<Rightarrow> (str \<Rightarrow> 'v) \<Rightarrow> str \<Rightarrow> 'v" where
  "parse_value loads raw_text raw = (case loads raw of
     Some v \<Rightarrow> v
   | None \<Rightarrow> (case loads (repair_json raw) of Some v \<Rightarrow> v | None \<Rightarrow> raw_text raw))"

section \<open>The scan\<close>

text \<open>Everything from \<open>start\<close> on: the parsed calls with the spans of their blocks.\<close>

lemma find_from_Some:
  assumes "find_from m xs start = Some i"
  shows "start \<le> i" and "i + length m \<le> length xs" and "occurs_at m xs i"
    and "start \<le> j \<Longrightarrow> j < i \<Longrightarrow> \<not> occurs_at m xs j"
proof -
  obtain k where k: "start \<le> length xs" "find_in m (drop start xs) = Some k" "i = start + k"
    using assms by (auto simp: find_from_def split: if_splits)
  have shift: "occurs_at m (drop start xs) n \<longleftrightarrow> occurs_at m xs (start + n)" for n
    using k(1) by (auto simp: occurs_at_def add.commute)
  show "start \<le> i" "i + length m \<le> length xs" using k find_in_le [OF k(2)] by simp_all
  show "occurs_at m xs i" using k shift by (simp add: find_in_Some)
  show "start \<le> j \<Longrightarrow> j < i \<Longrightarrow> \<not> occurs_at m xs j"
    using k shift [of "j - start"] by (auto simp: find_in_Some)
qed

lemma find_from_mono:
  assumes "find_from m xs start = Some i" and "prefix xs ys"
  shows "find_from m ys start = Some i"
proof -
  obtain zs where ys: "ys = xs @ zs" using assms(2) by (auto simp: prefix_def)
  have start: "start \<le> length xs" using assms(1) by (simp add: find_from_def split: if_splits)
  then have "prefix (drop start xs) (drop start ys)" by (simp add: ys)
  then show ?thesis using assms(1) start find_in_mono by (fastforce simp: find_from_def ys split: if_splits)
qed

function scan_tool_calls :: "(str \<Rightarrow> 'c option) \<Rightarrow> str \<Rightarrow> nat \<Rightarrow> ((nat \<times> nat) \<times> 'c) list" where
  "scan_tool_calls parse xs start = (case find_from OPEN_TAG xs start of
     None \<Rightarrow> []
   | Some s \<Rightarrow>
       (case find_from CLOSE_TAG xs (s + length OPEN_TAG) of
          None \<Rightarrow> []
        | Some e \<Rightarrow>
            (case parse (drop (s + length OPEN_TAG) (take e xs)) of
               None \<Rightarrow> scan_tool_calls parse xs (e + length CLOSE_TAG)
             | Some c \<Rightarrow> ((s, e + length CLOSE_TAG), c) # scan_tool_calls parse xs (e + length CLOSE_TAG))))"
  by pat_completeness auto
termination
proof (relation "measure (\<lambda>(_, xs, start). length xs - start)")
  fix parse :: "str \<Rightarrow> 'c option" and xs start s e
  assume "find_from OPEN_TAG xs start = Some s" "find_from CLOSE_TAG xs (s + length OPEN_TAG) = Some e"
  then have "start < e + length CLOSE_TAG" "e + length CLOSE_TAG \<le> length xs"
    using find_from_Some(1) [of OPEN_TAG xs start s] find_from_Some(1,2) [of CLOSE_TAG xs "s + length OPEN_TAG" e]
    by simp_all
  then have less: "length xs - (e + length CLOSE_TAG) < length xs - start" by linarith
  then show "((parse, xs, e + length CLOSE_TAG), parse, xs, start) \<in> measure (\<lambda>(_, xs, start). length xs - start)"
    "((parse, xs, e + length CLOSE_TAG), parse, xs, start) \<in> measure (\<lambda>(_, xs, start). length xs - start)"
    by simp_all
qed simp

declare scan_tool_calls.simps [simp del]

primrec cut_spans :: "str \<Rightarrow> nat \<Rightarrow> (nat \<times> nat) list \<Rightarrow> str" where
  "cut_spans xs behind [] = drop behind xs"
| "cut_spans xs behind (p # ps) = (case p of (s, e) \<Rightarrow> drop behind (take s xs) @ cut_spans xs e ps)"

definition parse_tool_calls :: "(str \<Rightarrow> 'c option) \<Rightarrow> str \<Rightarrow> str \<times> 'c list" where
  "parse_tool_calls parse xs =
     (let found = scan_tool_calls parse xs 0
      in (strip (cut_spans xs 0 (map fst found)), map snd found))"

section \<open>The \<^verbatim>\<open>poolside_v1\<close> shape\<close>

definition ARG_KEY_OPEN :: str where "ARG_KEY_OPEN = lit ''<arg_key>''"
definition ARG_KEY_CLOSE :: str where "ARG_KEY_CLOSE = lit ''</arg_key>''"
definition ARG_VALUE_OPEN :: str where "ARG_VALUE_OPEN = lit ''<arg_value>''"
definition ARG_VALUE_CLOSE :: str where "ARG_VALUE_CLOSE = lit ''</arg_value>''"

definition is_letter :: "nat \<Rightarrow> bool" where
  "is_letter c \<longleftrightarrow> (65 \<le> c \<and> c \<le> 90) \<or> (97 \<le> c \<and> c \<le> 122) \<or> c = 95"

definition is_name_char :: "nat \<Rightarrow> bool" where
  "is_name_char c \<longleftrightarrow> is_letter c \<or> (48 \<le> c \<and> c \<le> 57) \<or> c = 46 \<or> c = 45"

definition is_identifier :: "str \<Rightarrow> bool" where
  "is_identifier xs = (case xs of [] \<Rightarrow> False | c # cs \<Rightarrow> is_letter c \<and> list_all is_name_char cs)"

text \<open>One match of \<^verbatim>\<open>_ARG_RE\<close> at the head of the text: key, value, and the text behind it.\<close>

definition skip_lit :: "str \<Rightarrow> str \<Rightarrow> str option" where
  "skip_lit m xs = (if prefix m xs then Some (drop (length m) xs) else None)"

definition match_arg :: "str \<Rightarrow> (str \<times> str \<times> str) option" where
  "match_arg xs = (case skip_lit ARG_KEY_OPEN xs of None \<Rightarrow> None | Some ys \<Rightarrow>
     (let key = takeWhile (\<lambda>c. c \<noteq> 60) ys in
      case skip_lit ARG_KEY_CLOSE (drop (length key) ys) of None \<Rightarrow> None | Some zs \<Rightarrow>
      (case skip_lit ARG_VALUE_OPEN (dropWhile is_space zs) of None \<Rightarrow> None | Some ws \<Rightarrow>
       (case find_in ARG_VALUE_CLOSE ws of None \<Rightarrow> None
        | Some i \<Rightarrow> Some (key, take i ws, drop (i + length ARG_VALUE_CLOSE) ws)))))"

lemma skip_lit_length: "skip_lit m xs = Some ys \<Longrightarrow> length xs = length m + length ys"
  using prefix_length_le by (fastforce simp: skip_lit_def split: if_splits)

lemma match_arg_shorter:
  assumes "match_arg xs = Some (k, v, rest)"
  shows "length rest < length xs"
proof -
  obtain ys where ys: "skip_lit ARG_KEY_OPEN xs = Some ys"
    using assms by (auto simp: match_arg_def split: option.splits)
  let ?key = "takeWhile (\<lambda>c. c \<noteq> 60) ys"
  obtain zs where zs: "skip_lit ARG_KEY_CLOSE (drop (length ?key) ys) = Some zs"
    using assms ys by (auto simp: match_arg_def Let_def split: option.splits)
  obtain ws where ws: "skip_lit ARG_VALUE_OPEN (dropWhile is_space zs) = Some ws"
    using assms ys zs by (auto simp: match_arg_def Let_def split: option.splits)
  obtain i where "rest = drop (i + length ARG_VALUE_CLOSE) ws"
    using assms ys zs ws by (auto simp: match_arg_def Let_def split: option.splits)
  then have "length rest \<le> length ws" by simp
  also have "length ws \<le> length zs"
    using skip_lit_length [OF ws] length_dropWhile_le [of is_space zs] by simp
  also have "length zs \<le> length ys" using skip_lit_length [OF zs] by simp
  also have "length ys < length xs"
    using skip_lit_length [OF ys] by (simp add: ARG_KEY_OPEN_def lit_def)
  finally show ?thesis .
qed

text \<open>\<^verbatim>\<open>_ARG_RE.finditer\<close>: try each position in turn, continue behind a match.\<close>

function find_args :: "str \<Rightarrow> (str \<times> str) list" where
  "find_args [] = []"
| "find_args (x # xs) = (case match_arg (x # xs) of
     None \<Rightarrow> find_args xs
   | Some (k, v, rest) \<Rightarrow> (k, v) # find_args rest)"
  by pat_completeness auto
termination
  by (relation "measure length") (auto dest: match_arg_shorter)

definition collect_args :: "(str \<Rightarrow> 'v) \<Rightarrow> (str \<times> str) list \<Rightarrow> (str \<times> 'v) list" where
  "collect_args val ms = foldl (\<lambda>d (k, v). dict_set d (strip k) (val (strip v))) [] ms"

definition poolside_name :: "str \<Rightarrow> str" where
  "poolside_name interior = (case find_in ARG_KEY_OPEN interior of
     Some i \<Rightarrow> strip (take i interior) | None \<Rightarrow> strip interior)"

definition poolside_parse :: "(str \<Rightarrow> 'v) \<Rightarrow> str \<Rightarrow> 'v call option" where
  "poolside_parse val interior =
     (if \<not> is_identifier (poolside_name interior) then None
      else Some \<lparr>call_name = poolside_name interior,
        call_args = collect_args val (find_args (case find_in ARG_KEY_OPEN interior of
          Some i \<Rightarrow> drop i interior | None \<Rightarrow> []))\<rparr>)"

definition poolside_find_name :: "str \<Rightarrow> bool \<Rightarrow> str option" where
  "poolside_find_name interior closed =
     (if find_in ARG_KEY_OPEN interior = None \<and> \<not> closed then None
      else if is_identifier (poolside_name interior) then Some (poolside_name interior) else None)"

definition poolside_v1 :: "(str \<Rightarrow> 'v) \<Rightarrow> 'v tool_parser" where
  "poolside_v1 val = \<lparr>parse_block = poolside_parse val, find_name = poolside_find_name\<rparr>"

lemma poolside_v1_sel [simp]:
  "parse_block (poolside_v1 val) = poolside_parse val" "find_name (poolside_v1 val) = poolside_find_name"
  by (simp_all add: poolside_v1_def)

section \<open>The \<^verbatim>\<open>qwen3_coder\<close> shape\<close>

definition FUNC_OPEN :: str where "FUNC_OPEN = lit ''<function=''"
definition FUNC_CLOSE :: str where "FUNC_CLOSE = lit ''</function>''"
definition PARAM_OPEN :: str where "PARAM_OPEN = lit ''<parameter=''"
definition PARAM_CLOSE :: str where "PARAM_CLOSE = lit ''</parameter>''"

text \<open>\<^verbatim>\<open><tag=([^>]+)>(.*?)</tag>\<close> at the head of the text.\<close>

definition match_element :: "str \<Rightarrow> str \<Rightarrow> str \<Rightarrow> (str \<times> str \<times> str) option" where
  "match_element opening closing xs = (case skip_lit opening xs of None \<Rightarrow> None | Some ys \<Rightarrow>
     (let name = takeWhile (\<lambda>c. c \<noteq> 62) ys in
      if name = [] \<or> length name = length ys then None
      else
        let body = drop (length name + 1) ys in
        case find_in closing body of None \<Rightarrow> None
        | Some i \<Rightarrow> Some (name, take i body, drop (i + length closing) body)))"

lemma match_element_shorter:
  assumes "match_element opening closing xs = Some (n, b, rest)"
  shows "length rest < length xs"
proof -
  obtain ys where ys: "skip_lit opening xs = Some ys"
    using assms by (auto simp: match_element_def split: option.splits)
  let ?name = "takeWhile (\<lambda>c. c \<noteq> 62) ys"
  have ne: "?name \<noteq> []" using assms ys by (auto simp: match_element_def Let_def split: option.splits if_splits)
  then have "0 < length ys" by auto
  obtain i where "rest = drop (i + length closing) (drop (length ?name + 1) ys)"
    using assms ys by (auto simp: match_element_def Let_def split: option.splits if_splits)
  then have "length rest < length ys" using \<open>0 < length ys\<close> by simp
  then show ?thesis using skip_lit_length [OF ys] by simp
qed

primrec search_element :: "str \<Rightarrow> str \<Rightarrow> str \<Rightarrow> (str \<times> str \<times> str) option" where
  "search_element opening closing [] = None"
| "search_element opening closing (x # xs) = (case match_element opening closing (x # xs) of
     None \<Rightarrow> search_element opening closing xs
   | Some m \<Rightarrow> Some m)"

function find_params :: "str \<Rightarrow> (str \<times> str) list" where
  "find_params [] = []"
| "find_params (x # xs) = (case match_element PARAM_OPEN PARAM_CLOSE (x # xs) of
     None \<Rightarrow> find_params xs
   | Some (k, v, rest) \<Rightarrow> (k, v) # find_params rest)"
  by pat_completeness auto
termination
  by (relation "measure length") (auto dest: match_element_shorter)

definition qwen_parse :: "(str \<Rightarrow> 'v) \<Rightarrow> str \<Rightarrow> 'v call option" where
  "qwen_parse val interior = (case search_element FUNC_OPEN FUNC_CLOSE interior of
     None \<Rightarrow> None
   | Some (name, body, _) \<Rightarrow> Some \<lparr>call_name = strip name, call_args = collect_args val (find_params body)\<rparr>)"

definition qwen_find_name :: "str \<Rightarrow> bool \<Rightarrow> str option" where
  "qwen_find_name interior closed = (case find_in FUNC_OPEN interior of
     None \<Rightarrow> None
   | Some i \<Rightarrow>
       (case find_from [62] interior (i + length FUNC_OPEN) of
          None \<Rightarrow> None
        | Some e \<Rightarrow>
            let name = strip (drop (i + length FUNC_OPEN) (take e interior))
            in if name = [] then None else Some name))"

definition qwen3_coder :: "(str \<Rightarrow> 'v) \<Rightarrow> 'v tool_parser" where
  "qwen3_coder val = \<lparr>parse_block = qwen_parse val, find_name = qwen_find_name\<rparr>"

section \<open>Blocks of a text\<close>

text \<open>The interiors the scans look at, each with whether its closing tag has arrived.\<close>

function tool_blocks :: "str \<Rightarrow> nat \<Rightarrow> (str \<times> bool) list" where
  "tool_blocks xs start = (case find_from OPEN_TAG xs start of
     None \<Rightarrow> []
   | Some s \<Rightarrow>
       (case find_from CLOSE_TAG xs (s + length OPEN_TAG) of
          None \<Rightarrow> [(drop (s + length OPEN_TAG) xs, False)]
        | Some e \<Rightarrow> (drop (s + length OPEN_TAG) (take e xs), True) # tool_blocks xs (e + length CLOSE_TAG)))"
  by pat_completeness auto
termination
proof (relation "measure (\<lambda>(xs, start). length xs - start)")
  fix xs start s e
  assume "find_from OPEN_TAG xs start = Some s" "find_from CLOSE_TAG xs (s + length OPEN_TAG) = Some e"
  then have "start < e + length CLOSE_TAG" "e + length CLOSE_TAG \<le> length xs"
    using find_from_Some(1) [of OPEN_TAG xs start s] find_from_Some(1,2) [of CLOSE_TAG xs "s + length OPEN_TAG" e]
    by simp_all
  then have "length xs - (e + length CLOSE_TAG) < length xs - start" by linarith
  then show "((xs, e + length CLOSE_TAG), xs, start) \<in> measure (\<lambda>(xs, start). length xs - start)" by simp
qed simp

declare tool_blocks.simps [simp del]

lemma tool_blocks_None: "find_from OPEN_TAG xs start = None \<Longrightarrow> tool_blocks xs start = []"
  by (subst tool_blocks.simps) simp

lemma tool_blocks_open:
  "find_from OPEN_TAG xs start = Some s \<Longrightarrow> find_from CLOSE_TAG xs (s + length OPEN_TAG) = None \<Longrightarrow>
     tool_blocks xs start = [(drop (s + length OPEN_TAG) xs, False)]"
  by (subst tool_blocks.simps) simp

lemma tool_blocks_closed:
  "find_from OPEN_TAG xs start = Some s \<Longrightarrow> find_from CLOSE_TAG xs (s + length OPEN_TAG) = Some e \<Longrightarrow>
     tool_blocks xs start = (drop (s + length OPEN_TAG) (take e xs), True) # tool_blocks xs (e + length CLOSE_TAG)"
  by (subst tool_blocks.simps) simp

definition closed_parse :: "(str \<Rightarrow> 'c option) \<Rightarrow> str \<times> bool \<Rightarrow> 'c option" where
  "closed_parse parse b = (if snd b then parse (fst b) else None)"

lemma scan_tool_calls_blocks:
  "map snd (scan_tool_calls parse xs start) = List.map_filter (closed_parse parse) (tool_blocks xs start)"
proof (induction parse xs start rule: scan_tool_calls.induct)
  case (1 parse xs start)
  show ?case
  proof (cases "find_from OPEN_TAG xs start")
    case None
    then show ?thesis by (simp add: tool_blocks_None scan_tool_calls.simps [of parse xs start] List.map_filter_simps)
  next
    case (Some s)
    show ?thesis
    proof (cases "find_from CLOSE_TAG xs (s + length OPEN_TAG)")
      case None
      then show ?thesis using Some
        by (simp add: tool_blocks_open [OF Some None] scan_tool_calls.simps [of parse xs start] List.map_filter_simps closed_parse_def)
    next
      case e: (Some e)
      let ?b = "drop (s + length OPEN_TAG) (take e xs)"
      show ?thesis
      proof (cases "parse ?b")
        case None
        show ?thesis using 1(1) [OF Some e None] None Some e
          by (simp add: tool_blocks_closed [OF Some e] scan_tool_calls.simps [of parse xs start] List.map_filter_simps closed_parse_def)
      next
        case c: (Some c)
        show ?thesis using 1(2) [OF Some e c] c Some e
          by (simp add: tool_blocks_closed [OF Some e] scan_tool_calls.simps [of parse xs start] List.map_filter_simps closed_parse_def)
      qed
    qed
  qed
qed

definition block_interior :: "str \<Rightarrow> nat \<Rightarrow> str" where
  "block_interior xs a = (case find_from CLOSE_TAG xs a of None \<Rightarrow> drop a xs | Some e \<Rightarrow> drop a (take e xs))"

text \<open>Closed blocks stay as text is added; an open one may grow or close.\<close>

lemma tool_blocks_grow:
  assumes "prefix xs zs"
  obtains (same) rest where "tool_blocks zs start = tool_blocks xs start @ rest"
  | (growing) cs a rest where "tool_blocks xs start = cs @ [(drop a xs, False)]"
      "tool_blocks zs start = cs @ (block_interior zs a, find_from CLOSE_TAG zs a \<noteq> None) # rest"
      "a \<le> length xs" "find_from CLOSE_TAG xs a = None"
proof -
  have "(\<exists>rest. tool_blocks zs start = tool_blocks xs start @ rest) \<or>
    (\<exists>cs a rest. tool_blocks xs start = cs @ [(drop a xs, False)] \<and>
      tool_blocks zs start = cs @ (block_interior zs a, find_from CLOSE_TAG zs a \<noteq> None) # rest \<and>
      a \<le> length xs \<and> find_from CLOSE_TAG xs a = None)"
    using assms
  proof (induction xs start rule: tool_blocks.induct)
    case (1 xs start)
    show ?case
    proof (cases "find_from OPEN_TAG xs start")
      case None
      then show ?thesis by (simp add: tool_blocks_None)
    next
      case (Some s)
      have o: "find_from OPEN_TAG zs start = Some s" by (rule find_from_mono [OF Some 1(2)])
      let ?a = "s + length OPEN_TAG"
      have a: "?a \<le> length xs" using find_from_Some(2) [OF Some] .
      show ?thesis
      proof (cases "find_from CLOSE_TAG xs ?a")
        case None
        have "\<exists>rest. tool_blocks zs start = (block_interior zs ?a, find_from CLOSE_TAG zs ?a \<noteq> None) # rest"
          by (cases "find_from CLOSE_TAG zs ?a") (simp_all add: tool_blocks_open [OF o] tool_blocks_closed [OF o] block_interior_def)
        then obtain rest where "tool_blocks zs start = [] @ (block_interior zs ?a, find_from CLOSE_TAG zs ?a \<noteq> None) # rest" by auto
        moreover have "tool_blocks xs start = [] @ [(drop ?a xs, False)]" by (simp add: tool_blocks_open [OF Some None])
        ultimately show ?thesis using a None by blast
      next
        case e: (Some e)
        have e': "find_from CLOSE_TAG zs ?a = Some e" by (rule find_from_mono [OF e 1(2)])
        obtain ws where "zs = xs @ ws" using 1(2) by (auto simp: prefix_def)
        then have "take e zs = take e xs" using find_from_Some(2) [OF e] by simp
        then have head: "tool_blocks zs start = (drop ?a (take e xs), True) # tool_blocks zs (e + length CLOSE_TAG)"
          "tool_blocks xs start = (drop ?a (take e xs), True) # tool_blocks xs (e + length CLOSE_TAG)"
          by (simp_all add: tool_blocks_closed [OF o e'] tool_blocks_closed [OF Some e])
        show ?thesis using 1(1) [OF Some e 1(2)]
        proof (elim disjE exE conjE)
          fix rest assume "tool_blocks zs (e + length CLOSE_TAG) = tool_blocks xs (e + length CLOSE_TAG) @ rest"
          then have "tool_blocks zs start = tool_blocks xs start @ rest" by (simp add: head)
          then show ?thesis by blast
        next
          fix cs a' rest
          assume r: "tool_blocks xs (e + length CLOSE_TAG) = cs @ [(drop a' xs, False)]"
            "tool_blocks zs (e + length CLOSE_TAG) = cs @ (block_interior zs a', find_from CLOSE_TAG zs a' \<noteq> None) # rest"
            "a' \<le> length xs" "find_from CLOSE_TAG xs a' = None"
          let ?cs = "(drop ?a (take e xs), True) # cs"
          have "tool_blocks xs start = ?cs @ [(drop a' xs, False)]" unfolding head r(1) by simp
          moreover have "tool_blocks zs start = ?cs @ (block_interior zs a', find_from CLOSE_TAG zs a' \<noteq> None) # rest"
            unfolding head r(2) by simp
          ultimately show ?thesis using r(3,4) by blast
        qed
      qed
    qed
  qed
  then show ?thesis using same growing by (elim disjE exE conjE)
qed

lemma tool_blocks_open_last: "Suc j < length (tool_blocks xs start) \<Longrightarrow> snd (tool_blocks xs start ! j)"
proof (induction xs start arbitrary: j rule: tool_blocks.induct)
  case (1 xs start)
  show ?case
  proof (cases "find_from OPEN_TAG xs start")
    case None
    then show ?thesis using 1(2) by (simp add: tool_blocks_None)
  next
    case (Some s)
    show ?thesis
    proof (cases "find_from CLOSE_TAG xs (s + length OPEN_TAG)")
      case None
      then show ?thesis using 1(2) by (simp add: tool_blocks_open [OF Some])
    next
      case (Some e)
      then show ?thesis using 1 \<open>find_from OPEN_TAG xs start = Some s\<close>
        by (cases j) (simp_all add: tool_blocks_closed)
    qed
  qed
qed

definition known_blocks :: "(str \<Rightarrow> bool \<Rightarrow> str option) \<Rightarrow> (str \<times> bool) list \<Rightarrow> (str \<times> bool) list" where
  "known_blocks name bs = takeWhile (\<lambda>b. name (fst b) (snd b) \<noteq> None) bs"

lemma known_blocks_simps [simp]:
  "known_blocks name [] = []"
  "known_blocks name (b # bs) = (if name (fst b) (snd b) = None then [] else b # known_blocks name bs)"
  by (simp_all add: known_blocks_def)

lemma known_blocks_append:
  "known_blocks name (as @ bs) =
     (if known_blocks name as = as then as @ known_blocks name bs else known_blocks name as)"
  by (induction as) auto

lemma known_blocks_extend:
  obtains more where "known_blocks name (as @ bs) = known_blocks name as @ more"
  using that [of "known_blocks name bs"] that [of "[]"]
  by (cases "known_blocks name as = as") (simp_all add: known_blocks_append)

section \<open>The parser contract\<close>

text \<open>
  What the streaming loop needs of \<^verbatim>\<open>find_name_boundary\<close>: a name reported for a block that is still
  open has been read off a beginning of it that ends in \<^verbatim>\<open>>\<close> and stays what it is, whatever follows.
\<close>

locale name_parser =
  fixes name :: "str \<Rightarrow> bool \<Rightarrow> str option"
  assumes decided: "name xs False = Some n \<Longrightarrow>
    \<exists>us. prefix (us @ [62]) xs \<and> (\<forall>ys closed. prefix (us @ [62]) ys \<longrightarrow> name ys closed = Some n)"
begin

lemma name_grows:
  assumes n: "name (drop a xs) False = Some n" and a: "a \<le> length xs"
    and no_close: "find_from CLOSE_TAG xs a = None" and zs: "prefix xs zs"
  shows "name (block_interior zs a) closed = Some n"
proof -
  obtain us where us: "prefix (us @ [62]) (drop a xs)" and det: "\<And>ys closed. prefix (us @ [62]) ys \<Longrightarrow> name ys closed = Some n"
    using decided [OF n] by blast
  obtain ws where ws: "zs = xs @ ws" using zs by (auto simp: prefix_def)
  have pre: "prefix (us @ [62]) (drop a zs)" using us a by (auto simp: ws prefix_def)
  have "prefix (us @ [62]) (block_interior zs a)"
  proof (cases "find_from CLOSE_TAG zs a")
    case None
    then show ?thesis using pre by (simp add: block_interior_def)
  next
    case (Some e)
    note F = find_from_Some [OF Some]
    have "length (us @ [62]) \<le> e - a"
    proof (rule ccontr)
      assume short: "\<not> length (us @ [62]) \<le> e - a"
      have fits: "a + length us < length xs" using prefix_length_le [OF us] a by simp
      have beyond: "length xs < e + 12"
      proof (rule ccontr)
        assume "\<not> length xs < e + 12"
        then have "occurs_at CLOSE_TAG xs e" using F(3) by (rule_tac occurs_at_inside [of _ _ ws]) (simp_all add: ws)
        then have "occurs_at CLOSE_TAG (drop a xs) (e - a)" using F(1) by (simp add: occurs_at_def diff_le_mono)
        moreover have "find_in CLOSE_TAG (drop a xs) = None" using no_close a by (simp add: find_from_def)
        ultimately show False unfolding find_in_None by blast
      qed
      let ?k = "a + length us - e"
      have "e \<le> a + length us" using short F(1) by simp
      moreover have k: "?k < 11" using fits beyond calculation by linarith
      ultimately have "zs ! (a + length us) = CLOSE_TAG ! ?k"
        using F(3) nth_take [of ?k 12 "drop e zs"] nth_drop [of e zs ?k] F(2) by (simp add: occurs_at_def)
      moreover have "zs ! (a + length us) = 62"
      proof -
        obtain tail where tail: "drop a zs = (us @ [62]) @ tail" using pre by (auto simp: prefix_def)
        have "drop a zs ! length us = 62" by (simp add: tail)
        moreover have "drop a zs ! length us = zs ! (a + length us)" using fits by (intro nth_drop) (simp add: ws)
        ultimately show ?thesis by simp
      qed
      moreover have "take 11 CLOSE_TAG ! ?k \<in> set (take 11 CLOSE_TAG)" using k by (intro nth_mem) simp
      moreover have "62 \<notin> set (take 11 CLOSE_TAG)" by (simp add: CLOSE_TAG_def lit_def)
      ultimately show False using k by simp
    qed
    moreover have "prefix (block_interior zs a) (drop a zs)" by (simp add: block_interior_def Some drop_take take_is_prefix)
    moreover have "length (block_interior zs a) = e - a" using F(2) by (simp add: block_interior_def Some)
    ultimately show ?thesis using prefix_length_prefix [OF pre] by simp
  qed
  then show ?thesis by (rule det)
qed

text \<open>The blocks with a name only gain members, and a known name or a closed block stays.\<close>

lemma known_blocks_grow:
  fixes xs zs
  defines "K \<equiv> known_blocks name (tool_blocks xs 0)" and "L \<equiv> known_blocks name (tool_blocks zs 0)"
  assumes "prefix xs zs" and i: "i < length K"
  shows "i < length L" and "name (fst (L ! i)) (snd (L ! i)) = name (fst (K ! i)) (snd (K ! i))"
    and "snd (K ! i) \<Longrightarrow> L ! i = K ! i"
proof -
  have "i < length L \<and> name (fst (L ! i)) (snd (L ! i)) = name (fst (K ! i)) (snd (K ! i)) \<and> (snd (K ! i) \<longrightarrow> L ! i = K ! i)"
  proof (rule tool_blocks_grow [OF assms(3), of 0])
    fix rest assume "tool_blocks zs 0 = tool_blocks xs 0 @ rest"
    then obtain more where "L = K @ more" unfolding L_def K_def by (metis known_blocks_extend)
    then show ?thesis using i by (simp add: nth_append)
  next
    fix cs a rest
    assume xs: "tool_blocks xs 0 = cs @ [(drop a xs, False)]"
      and zs: "tool_blocks zs 0 = cs @ (block_interior zs a, find_from CLOSE_TAG zs a \<noteq> None) # rest"
      and a: "a \<le> length xs" "find_from CLOSE_TAG xs a = None"
    show ?thesis
    proof (cases "known_blocks name cs = cs \<and> name (drop a xs) False \<noteq> None")
      case True
      then obtain n where n: "name (drop a xs) False = Some n" by auto
      have m: "name (block_interior zs a) (find_from CLOSE_TAG zs a \<noteq> None) = Some n"
        by (rule name_grows [OF n a assms(3)])
      have K: "K = cs @ [(drop a xs, False)]" unfolding K_def xs using True by (simp add: known_blocks_append)
      obtain more where L: "L = cs @ (block_interior zs a, find_from CLOSE_TAG zs a \<noteq> None) # more"
        unfolding L_def zs using True m by (simp add: known_blocks_append)
      show ?thesis
      proof (cases "i < length cs")
        case True
        then show ?thesis using K L by (simp add: nth_append)
      next
        case False
        then have "i = length cs" using i K by simp
        then show ?thesis using K L n m by (simp add: nth_append)
      qed
    next
      case False
      then have "known_blocks name (tool_blocks xs 0) = known_blocks name cs" unfolding xs by (auto simp: known_blocks_append)
      moreover obtain more where "L = known_blocks name cs @ more" unfolding L_def zs by (rule known_blocks_extend)
      ultimately show ?thesis using i unfolding K_def by (simp add: nth_append)
    qed
  qed
  then show "i < length L" and "name (fst (L ! i)) (snd (L ! i)) = name (fst (K ! i)) (snd (K ! i))"
    and "snd (K ! i) \<Longrightarrow> L ! i = K ! i" by blast+
qed

end

text \<open>With the second law the reported names are those of the blocks that parse.\<close>

locale coherent_parser = name_parser name for name :: "str \<Rightarrow> bool \<Rightarrow> str option" +
  fixes parse :: "str \<Rightarrow> 'v call option"
  assumes named: "name xs True = Some n \<longleftrightarrow> (\<exists>c. parse xs = Some c \<and> call_name c = n)"
begin

text \<open>The blocks with a known name line up with the calls of the whole text.\<close>

lemma known_call:
  fixes xs start
  defines "bs \<equiv> tool_blocks xs start"
  defines "K \<equiv> known_blocks name bs" and "calls \<equiv> List.map_filter (closed_parse parse) bs"
  assumes i: "i < length K"
  shows "snd (K ! i) \<Longrightarrow> i < length calls \<and> parse (fst (K ! i)) = Some (calls ! i)"
    and "\<not> snd (K ! i) \<Longrightarrow> length calls = i"
proof -
  have K: "K = take (length K) bs" unfolding K_def known_blocks_def by (rule takeWhile_eq_take)
  have len: "length K \<le> length bs" unfolding K_def known_blocks_def by (rule length_takeWhile_le)
  have at: "K ! j = bs ! j" "name (fst (K ! j)) (snd (K ! j)) \<noteq> None" if "j \<le> i" for j
  proof -
    have j: "j < length K" using that i by simp
    have "take (length K) bs ! j = bs ! j" using j by (rule nth_take)
    then show "K ! j = bs ! j" using K by simp
    have "K ! j \<in> set K" using j by (rule nth_mem)
    then show "name (fst (K ! j)) (snd (K ! j)) \<noteq> None"
      unfolding K_def known_blocks_def by (auto dest: set_takeWhileD)
  qed
  have before: "closed_parse parse (bs ! j) \<noteq> None" if "j < i" for j
  proof -
    have "Suc j < length bs" using that i len by simp
    then have "snd (bs ! j)" unfolding bs_def by (rule tool_blocks_open_last)
    then show ?thesis using at [of j] that named [of "fst (bs ! j)"] by (auto simp: closed_parse_def)
  qed
  have "length (List.map_filter (closed_parse parse) (take i bs)) = i"
  proof -
    have "\<forall>b \<in> set (take i bs). closed_parse parse b \<noteq> None"
    proof
      fix b assume "b \<in> set (take i bs)"
      then obtain j where "j < i" "b = bs ! j" by (auto simp only: in_set_conv_nth length_take nth_take min_less_iff_conj)
      then show "closed_parse parse b \<noteq> None" using before by blast
    qed
    then have "filter (\<lambda>b. closed_parse parse b \<noteq> None) (take i bs) = take i bs" by (simp add: filter_id_conv)
    then show ?thesis using i len by (simp add: List.map_filter_def)
  qed
  moreover have split: "bs = take i bs @ bs ! i # drop (Suc i) bs" using i len by (simp add: id_take_nth_drop)
  have "calls = List.map_filter (closed_parse parse) (take i bs) @
      List.map_filter (closed_parse parse) (bs ! i # drop (Suc i) bs)"
    unfolding calls_def by (subst split) (simp add: List.map_filter_def)
  ultimately show "snd (K ! i) \<Longrightarrow> i < length calls \<and> parse (fst (K ! i)) = Some (calls ! i)"
    and "\<not> snd (K ! i) \<Longrightarrow> length calls = i"
  proof -
    let ?pre = "List.map_filter (closed_parse parse) (take i bs)"
    assume pre: "length ?pre = i" and calls: "calls = ?pre @ List.map_filter (closed_parse parse) (bs ! i # drop (Suc i) bs)"
    show "i < length calls \<and> parse (fst (K ! i)) = Some (calls ! i)" if closed: "snd (K ! i)"
    proof -
      obtain c where "parse (fst (bs ! i)) = Some c" using at [of i] closed named [of "fst (bs ! i)"] by auto
      then show ?thesis using calls pre closed at(1) [of i]
        by (simp add: List.map_filter_simps closed_parse_def nth_append)
    qed
    show "length calls = i" if open_block: "\<not> snd (K ! i)"
    proof -
      have "\<not> Suc i < length bs" using tool_blocks_open_last [of i xs start] open_block at(1) [of i] by (auto simp: bs_def)
      then have "drop (Suc i) bs = []" by simp
      then show ?thesis using calls pre open_block at(1) [of i] by (simp add: List.map_filter_simps closed_parse_def)
    qed
  qed
qed

end

section \<open>Both parsers keep it\<close>

lemma take_occurrence: "occurs_at m xs i \<Longrightarrow> take (i + length m) xs = take i xs @ m"
  by (simp add: occurs_at_def take_add)

lemma find_in_take:
  assumes "find_in m xs = Some i"
  shows "find_in m (take (i + length m) xs) = Some i"
proof -
  have occ: "occurs_at m xs i" using assms by (simp add: find_in_Some)
  then have "i + length m \<le> length xs" by (simp add: occurs_at_def)
  then have "occurs_at m (take (i + length m) xs) i"
    unfolding take_occurrence [OF occ] by (simp add: occurs_at_def)
  moreover have "\<not> occurs_at m (take (i + length m) xs) j" if "j < i" for j
    using occurs_at_mono [OF take_is_prefix] assms that unfolding find_in_Some by blast
  ultimately show ?thesis unfolding find_in_Some by blast
qed

lemma find_from_take:
  assumes "find_from m xs s = Some e"
  shows "find_from m (take (e + length m) xs) s = Some e"
proof -
  have "find_in m (drop s xs) = Some (e - s)" "s \<le> e" "s \<le> length xs"
    using assms by (auto simp: find_from_def split: if_splits)
  then have "find_in m (drop s (take (e + length m) xs)) = Some (e - s)"
    using find_in_take [of m "drop s xs" "e - s"] by (simp add: drop_take)
  then show ?thesis using \<open>s \<le> e\<close> \<open>s \<le> length xs\<close> by (simp add: find_from_def)
qed

lemma poolside_decided:
  assumes "poolside_find_name xs False = Some n"
  shows "\<exists>us. prefix (us @ [62]) xs \<and> (\<forall>ys closed. prefix (us @ [62]) ys \<longrightarrow> poolside_find_name ys closed = Some n)"
proof -
  obtain i where i: "find_in ARG_KEY_OPEN xs = Some i" and n: "n = strip (take i xs)" "is_identifier n"
    using assms by (auto simp: poolside_find_name_def poolside_name_def split: if_splits option.splits)
  let ?us = "take i xs @ butlast ARG_KEY_OPEN"
  have split: "?us @ [62] = take (i + length ARG_KEY_OPEN) xs"
    using i take_occurrence [of ARG_KEY_OPEN xs i] by (simp add: find_in_Some ARG_KEY_OPEN_def lit_def)
  have "poolside_find_name ys closed = Some n" if ys: "prefix (?us @ [62]) ys" for ys closed
  proof -
    have f: "find_in ARG_KEY_OPEN ys = Some i"
      using ys unfolding split by (rule find_in_mono [OF find_in_take [OF i]])
    obtain ws where "ys = (?us @ [62]) @ ws" using ys by (rule prefixE)
    then have "take i ys = take i xs" using find_in_le [OF i] by simp
    then show ?thesis using f n by (simp add: poolside_find_name_def poolside_name_def)
  qed
  then show ?thesis using split take_is_prefix by metis
qed

lemma poolside_named:
  "poolside_find_name xs True = Some n \<longleftrightarrow> (\<exists>c. poolside_parse val xs = Some c \<and> call_name c = n)"
  by (auto simp: poolside_find_name_def poolside_parse_def)

lemma qwen_decided:
  assumes "qwen_find_name xs False = Some n"
  shows "\<exists>us. prefix (us @ [62]) xs \<and> (\<forall>ys closed. prefix (us @ [62]) ys \<longrightarrow> qwen_find_name ys closed = Some n)"
proof -
  obtain i e where i: "find_in FUNC_OPEN xs = Some i" and e: "find_from [62] xs (i + length FUNC_OPEN) = Some e"
    and n: "strip (drop (i + length FUNC_OPEN) (take e xs)) = n" "n \<noteq> []"
    using assms by (auto simp: qwen_find_name_def Let_def split: option.splits if_splits)
  have split: "take e xs @ [62] = take (e + 1) xs"
    using take_occurrence [of "[62]" xs e] find_from_Some(3) [OF e] by simp
  have behind: "i + length FUNC_OPEN \<le> e" using find_from_Some(1) [OF e] .
  have "qwen_find_name ys closed = Some n" if ys: "prefix (take e xs @ [62]) ys" for ys closed
  proof -
    have "prefix (take (i + length FUNC_OPEN) xs) (take (e + 1) xs)"
      using behind by (metis le_add1 le_trans take_is_prefix min.absorb1 take_take)
    then have "prefix (take (i + length FUNC_OPEN) xs) ys" using ys unfolding split by (rule prefix_order.trans)
    then have f: "find_in FUNC_OPEN ys = Some i" by (rule find_in_mono [OF find_in_take [OF i]])
    have g: "find_from [62] ys (i + length FUNC_OPEN) = Some e"
      using find_from_mono [OF find_from_take [OF e]] ys unfolding split by simp
    obtain ws where "ys = (take e xs @ [62]) @ ws" using ys by (auto simp: prefix_def)
    then have "take e ys = take e xs" using find_from_Some(2) [OF e] by simp
    then show ?thesis using f g n by (simp add: qwen_find_name_def Let_def)
  qed
  then show ?thesis using split take_is_prefix by metis
qed

interpretation poolside: coherent_parser poolside_find_name "poolside_parse val" for val :: "str \<Rightarrow> 'v"
  by unfold_locales (fact poolside_decided, fact poolside_named)

interpretation qwen: name_parser qwen_find_name
  by unfold_locales (fact qwen_decided)

end
