(* ===== verification/Think_Text.thy ===== *)
theory Think_Text
  imports Stop_Match
begin

text \<open>
  Reasoning spans and metadata artifacts in decoded text, \<^verbatim>\<open>server/formats/thinking.py\<close>.  The two
  regular expressions for \<^verbatim>\<open><usage>\<close> blocks are written out as searches: the leftmost non-greedy
  match of the first runs from an opening tag to the first closing tag behind it.
\<close>

section \<open>Markers\<close>

definition THINK_OPEN :: str where "THINK_OPEN = lit ''<think>''"
definition THINK_CLOSE :: str where "THINK_CLOSE = lit ''</think>''"
definition USAGE_OPEN :: str where "USAGE_OPEN = lit ''<usage>''"
definition USAGE_CLOSE :: str where "USAGE_CLOSE = lit ''</usage>''"

lemma marker_lengths [simp]:
  "length THINK_OPEN = 7" "length THINK_CLOSE = 8" "length USAGE_OPEN = 7" "length USAGE_CLOSE = 8"
  by (simp_all add: THINK_OPEN_def THINK_CLOSE_def USAGE_OPEN_def USAGE_CLOSE_def lit_def)

section \<open>Definitions\<close>

definition find_reasoning_span :: "str \<Rightarrow> (nat \<times> nat \<times> bool) option" where
  "find_reasoning_span xs =
     (if \<not> prefix THINK_OPEN xs then None
      else
        let body0 = drop (length THINK_OPEN) xs;
            (body, offset) = (if prefix [newline] body0 then (drop 1 body0, length THINK_OPEN + 1)
                              else (body0, length THINK_OPEN))
        in case find_in THINK_CLOSE body of
             None \<Rightarrow> Some (offset, length xs, False)
           | Some i \<Rightarrow> Some (offset, offset + i, True))"

function strip_usage_blocks :: "str \<Rightarrow> str" where
  "strip_usage_blocks xs = (case find_in USAGE_OPEN xs of
     None \<Rightarrow> xs
   | Some i \<Rightarrow>
       (case find_from USAGE_CLOSE xs (i + length USAGE_OPEN) of
          None \<Rightarrow> xs
        | Some j \<Rightarrow> take i xs @ strip_usage_blocks (dropWhile is_space (drop (j + length USAGE_CLOSE) xs))))"
  by pat_completeness auto
termination
proof (relation "measure length")
  fix xs :: str and i j
  assume "find_in USAGE_OPEN xs = Some i"
  then have "0 < length xs" using find_in_le by fastforce
  moreover have "length (dropWhile is_space (drop (j + length USAGE_CLOSE) xs)) \<le> length xs - (j + length USAGE_CLOSE)"
    using length_dropWhile_le [of is_space "drop (j + length USAGE_CLOSE) xs"] by simp
  ultimately show "(dropWhile is_space (drop (j + length USAGE_CLOSE) xs), xs) \<in> measure length"
    unfolding in_measure marker_lengths by linarith
qed simp

declare strip_usage_blocks.simps [simp del]

definition strip_unclosed_usage :: "str \<Rightarrow> str" where
  "strip_unclosed_usage xs = (case find_in USAGE_OPEN xs of None \<Rightarrow> xs | Some i \<Rightarrow> take i xs)"

definition strip_usage_artifacts :: "str \<Rightarrow> str" where
  "strip_usage_artifacts xs = strip_unclosed_usage (strip_usage_blocks xs)"

definition drop_replacement :: "str \<Rightarrow> str" where
  "drop_replacement xs = filter (\<lambda>c. c \<noteq> 65533) xs"

lemma drop_replacement_ascii [code]:
  "drop_replacement xs = (if list_all (\<lambda>c. c < 128) xs then xs else filter (\<lambda>c. c \<noteq> 65533) xs)"
  by (auto simp: drop_replacement_def list_all_iff filter_id_conv)

definition strip_thinking :: "str \<Rightarrow> str" where
  "strip_thinking xs =
     (let t = drop_replacement xs;
          u = (case find_reasoning_span t of
                 None \<Rightarrow> t
               | Some (start, stop, closed) \<Rightarrow> if \<not> closed then [] else drop (stop + length THINK_CLOSE) t)
      in strip (strip_usage_artifacts u))"

section \<open>Reasoning spans\<close>

lemma find_reasoning_span_None: "find_reasoning_span xs = None \<longleftrightarrow> \<not> prefix THINK_OPEN xs"
  by (auto simp: find_reasoning_span_def Let_def split: option.split)

lemma span_body:
  assumes "find_reasoning_span xs = Some (start, stop, closed)"
  shows "7 \<le> start" and "start \<le> stop" and "stop \<le> length xs" and "prefix THINK_OPEN xs"
    and "closed \<longleftrightarrow> (\<exists>i. occurs_at THINK_CLOSE (drop start xs) i)"
    and "closed \<Longrightarrow> find_in THINK_CLOSE (drop start xs) = Some (stop - start)"
    and "\<not> closed \<Longrightarrow> stop = length xs"
    and "start = (if prefix [newline] (drop 7 xs) then 8 else 7)"
proof -
  let ?s = "if prefix [newline] (drop 7 xs) then 8 else 7"
  have p: "prefix THINK_OPEN xs" using assms by (simp add: find_reasoning_span_def split: if_splits)
  then have len: "7 \<le> length xs" using prefix_length_le by fastforce
  have s_le: "?s \<le> length xs"
  proof (cases "prefix [newline] (drop 7 xs)")
    case True
    then have "1 \<le> length (drop 7 xs)" using prefix_length_le by fastforce
    then show ?thesis using True by simp
  qed (use len in simp)
  have run: "find_reasoning_span xs = (case find_in THINK_CLOSE (drop ?s xs) of
      None \<Rightarrow> Some (?s, length xs, False) | Some i \<Rightarrow> Some (?s, ?s + i, True))"
    using p by (simp add: find_reasoning_span_def Let_def)
  have start: "start = ?s" using assms run by (auto split: option.splits)
  show "prefix THINK_OPEN xs" "start = ?s" by fact+
  show "7 \<le> start" using start by simp
  have "find_in THINK_CLOSE (drop start xs) = (if closed then Some (stop - start) else None)"
    and bounds: "start \<le> stop" "closed \<or> stop = length xs"
    using assms run start s_le by (auto split: option.splits)
  then show "closed \<longleftrightarrow> (\<exists>i. occurs_at THINK_CLOSE (drop start xs) i)"
    "closed \<Longrightarrow> find_in THINK_CLOSE (drop start xs) = Some (stop - start)"
    "\<not> closed \<Longrightarrow> stop = length xs" "start \<le> stop"
    using find_in_None [of THINK_CLOSE "drop start xs"] by (auto split: if_splits)
  then show "stop \<le> length xs"
    using find_in_le [of THINK_CLOSE "drop start xs" "stop - start"] by (cases closed) auto
qed

section \<open>No artifact survives\<close>

lemma strip_unclosed_clean: "\<not> occurs_at USAGE_OPEN (strip_unclosed_usage xs) i"
proof (cases "find_in USAGE_OPEN xs")
  case None
  then have "strip_unclosed_usage xs = xs" by (simp add: strip_unclosed_usage_def)
  then show ?thesis using None by (simp add: find_in_None)
next
  case (Some k)
  show ?thesis
  proof
    assume occ: "occurs_at USAGE_OPEN (strip_unclosed_usage xs) i"
    then have "i + 7 \<le> k" using Some by (simp add: strip_unclosed_usage_def occurs_at_def)
    moreover have "occurs_at USAGE_OPEN xs i"
      using occurs_at_mono [of "take k xs" xs] occ Some by (simp add: strip_unclosed_usage_def take_is_prefix)
    ultimately show False using Some by (auto simp: find_in_Some)
  qed
qed

lemma usage_unbordered [simp]: "unbordered USAGE_OPEN" "unbordered USAGE_CLOSE"
  by (simp_all add: unbordered_def USAGE_OPEN_def USAGE_CLOSE_def lit_def)

text \<open>A cut at the first opening tag does not see an unclosed block behind the text.\<close>

lemma strip_unclosed_tail:
  assumes "tail = [] \<or> prefix USAGE_OPEN tail"
  shows "strip_unclosed_usage (xs @ tail) = (case find_in USAGE_OPEN xs of None \<Rightarrow> xs | Some i \<Rightarrow> take i xs)"
proof (cases "find_in USAGE_OPEN xs")
  case None
  from assms show ?thesis
  proof
    assume "prefix USAGE_OPEN tail"
    then obtain ys where "tail = USAGE_OPEN @ ys" by (rule prefixE)
    then show ?thesis
      using None find_in_delimited [OF None, of ys] by (simp add: strip_unclosed_usage_def usage_unbordered)
  qed (simp add: strip_unclosed_usage_def)
next
  case (Some i)
  then have "find_in USAGE_OPEN (xs @ tail) = Some i" by (rule find_in_mono) simp
  moreover have "i \<le> length xs" using find_in_le [OF Some] by simp
  ultimately show ?thesis using Some by (simp add: strip_unclosed_usage_def)
qed

section \<open>What is left of a text with usage blocks\<close>

text \<open>
  A text taken apart: ordinary text, then closed blocks, each with its interior, the white space behind it and the
  ordinary text that follows, and at the end nothing or an opening tag that is never closed.
\<close>

type_synonym usage_block = "str \<times> str \<times> str"

definition usage_text :: "str \<Rightarrow> usage_block list \<Rightarrow> str \<Rightarrow> str" where
  "usage_text p bs tail = p @ concat (map (\<lambda>(b, w, q). USAGE_OPEN @ b @ USAGE_CLOSE @ w @ q) bs) @ tail"

definition ordinary_text :: "str \<Rightarrow> usage_block list \<Rightarrow> str" where
  "ordinary_text p bs = p @ concat (map (\<lambda>(b, w, q). q) bs)"

definition usage_parts :: "str \<Rightarrow> usage_block list \<Rightarrow> str \<Rightarrow> bool" where
  "usage_parts p bs tail \<longleftrightarrow> find_in USAGE_OPEN p = None \<and>
     list_all (\<lambda>(b, w, q). find_in USAGE_CLOSE b = None \<and> list_all is_space w \<and> dropWhile is_space q = q \<and>
       find_in USAGE_OPEN q = None) bs \<and>
     (tail = [] \<or> prefix USAGE_OPEN tail \<and> find_in USAGE_CLOSE (drop (length USAGE_OPEN) tail) = None)"

lemma usage_text_Cons:
  "usage_text p ((b, w, q) # bs) tail = p @ USAGE_OPEN @ b @ USAGE_CLOSE @ w @ usage_text q bs tail"
  by (simp add: usage_text_def)

lemma drop_spaces:
  assumes "list_all is_space w" and "dropWhile is_space xs = xs"
  shows "dropWhile is_space (w @ xs) = xs"
  using assms by (induction w) simp_all

lemma usage_text_starts:
  assumes "dropWhile is_space q = q" and "tail = [] \<or> prefix USAGE_OPEN tail"
  shows "dropWhile is_space (usage_text q bs tail) = usage_text q bs tail"
proof (cases q)
  case (Cons c cs)
  then have "\<not> is_space c" using assms(1) length_dropWhile_le [of is_space cs] by (auto split: if_splits)
  then show ?thesis by (simp add: usage_text_def Cons)
next
  case Nil
  have "\<not> is_space 60" by (simp add: is_space_def)
  then show ?thesis using assms(2) Nil
    by (cases bs) (auto simp: usage_text_def USAGE_OPEN_def lit_def prefix_def)
qed

lemma strip_blocks_parts:
  "usage_parts p bs tail \<Longrightarrow> strip_usage_blocks (usage_text p bs tail) = ordinary_text p bs @ tail"
proof (induction bs arbitrary: p)
  case Nil
  show ?case
  proof (cases "tail = []")
    case True
    then show ?thesis using Nil by (simp add: usage_parts_def usage_text_def ordinary_text_def strip_usage_blocks.simps [of p])
  next
    case False
    then obtain ys where t: "tail = USAGE_OPEN @ ys" "find_in USAGE_CLOSE ys = None"
      using Nil by (auto simp: usage_parts_def prefix_def)
    have "find_in USAGE_OPEN (p @ USAGE_OPEN @ ys) = Some (length p)"
      using Nil by (intro find_in_delimited) (simp_all add: usage_parts_def)
    moreover have "find_from USAGE_CLOSE (p @ USAGE_OPEN @ ys) (length p + length USAGE_OPEN) = None"
      using t(2) by (simp add: find_from_def)
    ultimately show ?thesis
      by (simp add: usage_text_def ordinary_text_def t(1) strip_usage_blocks.simps [of "p @ USAGE_OPEN @ ys"])
  qed
next
  case (Cons block bs)
  obtain b w q where block: "block = (b, w, q)" by (cases block) auto
  let ?rest = "usage_text q bs tail"
  let ?xs = "p @ USAGE_OPEN @ b @ USAGE_CLOSE @ w @ ?rest"
  have ok: "find_in USAGE_OPEN p = None" "find_in USAGE_CLOSE b = None" "list_all is_space w" "dropWhile is_space q = q"
    "usage_parts q bs tail" "tail = [] \<or> prefix USAGE_OPEN tail"
    using Cons.prems by (auto simp: usage_parts_def block)
  have i: "find_in USAGE_OPEN ?xs = Some (length p)" by (rule find_in_delimited) (simp_all add: ok(1))
  have "find_from USAGE_CLOSE ((p @ USAGE_OPEN) @ b @ USAGE_CLOSE @ w @ ?rest) (length p + length USAGE_OPEN) =
      Some (length (p @ USAGE_OPEN) + length b)"
    by (rule find_from_delimited) (simp_all add: ok(2))
  then have j: "find_from USAGE_CLOSE ?xs (length p + length USAGE_OPEN) = Some (length (p @ USAGE_OPEN) + length b)"
    by simp
  have "drop (length (p @ USAGE_OPEN) + length b + length USAGE_CLOSE) ?xs = w @ ?rest" by simp
  moreover have "dropWhile is_space (w @ ?rest) = ?rest"
    using ok(3) usage_text_starts [OF ok(4,6)] by (rule drop_spaces)
  ultimately have "strip_usage_blocks ?xs = p @ strip_usage_blocks ?rest"
    by (subst strip_usage_blocks.simps) (simp only: i j option.case, simp)
  then show ?case using Cons.IH [OF ok(5)] by (simp add: block usage_text_Cons ordinary_text_def)
qed

lemma usage_parts_exist: "\<exists>p bs tail. usage_parts p bs tail \<and> xs = usage_text p bs tail"
proof (induction xs rule: strip_usage_blocks.induct)
  case (1 xs)
  show ?case
  proof (cases "find_in USAGE_OPEN xs")
    case None
    then have "usage_parts xs [] []" "xs = usage_text xs [] []" by (simp_all add: usage_parts_def usage_text_def)
    then show ?thesis by blast
  next
    case i: (Some i)
    note cut = find_in_around(1) [OF i]
    have before: "find_in USAGE_OPEN (take i xs) = None"
      by (rule find_in_around(2) [OF i]) (simp add: USAGE_OPEN_def lit_def)
    let ?ys = "drop (i + length USAGE_OPEN) xs"
    show ?thesis
    proof (cases "find_from USAGE_CLOSE xs (i + length USAGE_OPEN)")
      case None
      have "i + length USAGE_OPEN \<le> length xs" using i by (rule find_in_le)
      then have "find_in USAGE_CLOSE ?ys = None" using None by (simp add: find_from_def)
      then have "usage_parts (take i xs) [] (USAGE_OPEN @ ?ys)" using before by (simp add: usage_parts_def)
      moreover have "xs = usage_text (take i xs) [] (USAGE_OPEN @ ?ys)" using cut by (simp add: usage_text_def)
      ultimately show ?thesis by blast
    next
      case j: (Some j)
      then obtain k where k: "find_in USAGE_CLOSE ?ys = Some k" "j = i + length USAGE_OPEN + k"
        by (auto simp: find_from_def split: if_splits)
      let ?zs = "drop (j + length USAGE_CLOSE) xs"
      let ?w = "takeWhile is_space ?zs"
      obtain q bs tail where IH: "usage_parts q bs tail" "dropWhile is_space ?zs = usage_text q bs tail"
        using 1 [OF i j] by blast
      have inner: "find_in USAGE_CLOSE (take k ?ys) = None"
        by (rule find_in_around(2) [OF k(1)]) (simp add: USAGE_CLOSE_def lit_def)
      have q: "dropWhile is_space q = q"
      proof (cases q)
        case (Cons c cs)
        then have "dropWhile is_space ?zs = c # (cs @ concat (map (\<lambda>(b, w, q). USAGE_OPEN @ b @ USAGE_CLOSE @ w @ q) bs) @ tail)"
          using IH(2) by (simp add: usage_text_def)
        then have "\<not> is_space c" by (metis hd_dropWhile list.discI list.sel(1))
        then show ?thesis by (simp add: Cons)
      qed simp
      have "?ys = take k ?ys @ USAGE_CLOSE @ drop (k + length USAGE_CLOSE) ?ys"
        by (rule find_in_around(1) [OF k(1)])
      moreover have "drop (k + length USAGE_CLOSE) ?ys = ?zs" by (simp add: k(2) add.commute add.left_commute)
      moreover have "?zs = ?w @ usage_text q bs tail" using IH(2) by (metis takeWhile_dropWhile_id)
      ultimately have "xs = usage_text (take i xs) ((take k ?ys, ?w, q) # bs) tail"
        using cut unfolding usage_text_Cons by metis
      moreover have "usage_parts (take i xs) ((take k ?ys, ?w, q) # bs) tail"
        using IH(1) before inner q by (simp add: usage_parts_def list_all_iff) (metis set_takeWhileD)
      ultimately show ?thesis by blast
    qed
  qed
qed

text \<open>
  C31: what \<^verbatim>\<open>strip_usage_artifacts\<close> removes and what it keeps.  Every text can be taken apart into ordinary
  text and usage blocks, the last one possibly unclosed.  The result is all the ordinary text, with each closed
  block and the white space behind it gone and the unclosed block gone; only where the pieces of ordinary
  text join to a new opening tag is the result cut in front of it.  So no opening tag is left, a text without
  one is returned as it is, and stripping twice changes nothing.
\<close>

theorem usage_artifacts_removed:
  "(\<exists>p bs tail. usage_parts p bs tail \<and> xs = usage_text p bs tail) \<and>
   (\<forall>p bs tail. usage_parts p bs tail \<longrightarrow> strip_usage_artifacts (usage_text p bs tail) =
      (case find_in USAGE_OPEN (ordinary_text p bs) of None \<Rightarrow> ordinary_text p bs | Some i \<Rightarrow> take i (ordinary_text p bs))) \<and>
   (\<nexists>i. occurs_at USAGE_OPEN (strip_usage_artifacts xs) i) \<and>
   ((\<nexists>i. occurs_at USAGE_OPEN xs i) \<longrightarrow> strip_usage_artifacts xs = xs) \<and>
   strip_usage_artifacts (strip_usage_artifacts xs) = strip_usage_artifacts xs"
proof -
  have clean: "strip_usage_artifacts ys = ys" if "\<nexists>i. occurs_at USAGE_OPEN ys i" for ys
  proof -
    have "find_in USAGE_OPEN ys = None" using that by (simp add: find_in_None)
    then show ?thesis
      by (simp add: strip_usage_artifacts_def strip_unclosed_usage_def strip_usage_blocks.simps [of ys])
  qed
  have none: "\<nexists>i. occurs_at USAGE_OPEN (strip_usage_artifacts xs) i"
    by (simp add: strip_usage_artifacts_def strip_unclosed_clean)
  have exact: "strip_usage_artifacts (usage_text p bs tail) =
      (case find_in USAGE_OPEN (ordinary_text p bs) of None \<Rightarrow> ordinary_text p bs | Some i \<Rightarrow> take i (ordinary_text p bs))"
    if parts: "usage_parts p bs tail" for p bs tail
    unfolding strip_usage_artifacts_def strip_blocks_parts [OF parts]
    using parts by (intro strip_unclosed_tail) (auto simp: usage_parts_def)
  show ?thesis using usage_parts_exist exact none clean by blast
qed

theorem usage_artifacts_removed_witness:
  "strip_usage_artifacts (lit ''a<usage>7</usage>  b<usage>8'') = lit ''ab'' \<and>
   strip_usage_artifacts (lit ''a b'') = lit ''a b''"
proof -
  have found: "find_in USAGE_OPEN (lit ''a'') = None" "find_in USAGE_CLOSE (lit ''7'') = None" "find_in USAGE_OPEN (lit ''b'') = None"
    "prefix USAGE_OPEN (lit ''<usage>8'')" "find_in USAGE_CLOSE (drop (length USAGE_OPEN) (lit ''<usage>8'')) = None"
    by code_simp+
  have "list_all is_space (lit ''  '')" "dropWhile is_space (lit ''b'') = lit ''b''"
    by (simp_all add: lit_def is_space_def)
  with found have "usage_parts (lit ''a'') [(lit ''7'', lit ''  '', lit ''b'')] (lit ''<usage>8'')"
    by (simp add: usage_parts_def)
  moreover have "usage_text (lit ''a'') [(lit ''7'', lit ''  '', lit ''b'')] (lit ''<usage>8'') = lit ''a<usage>7</usage>  b<usage>8''"
    "ordinary_text (lit ''a'') [(lit ''7'', lit ''  '', lit ''b'')] = lit ''ab''"
    "find_in USAGE_OPEN (lit ''ab'') = None" "find_in USAGE_OPEN (lit ''a b'') = None"
    by code_simp+
  ultimately show ?thesis
    using usage_artifacts_removed [of "lit ''a b''", THEN conjunct2, THEN conjunct1]
      usage_artifacts_removed [of "lit ''a b''", THEN conjunct2, THEN conjunct2, THEN conjunct2, THEN conjunct1]
    by (metis find_in_None option.simps(4))
qed

end
