(* ===== verification/Stream_Proc.thy ===== *)
theory Stream_Proc
  imports Tool_Calls Think_Text
begin

text \<open>
  The incremental output processor, class \<^verbatim>\<open>StreamProcessor\<close> of \<^verbatim>\<open>server/formats/stream.py\<close>: token ids
  come in, deltas of reasoning text, visible content and tool-call events go out.  The tokenizer's
  \<^verbatim>\<open>decode\<close>, \<^verbatim>\<open>json.dumps\<close> and the drawing of fresh call ids are parameters.
\<close>

section \<open>State\<close>

record stream_proc =
  all_ids :: "nat list"
  thinking_capable :: bool
  thinking_done :: bool
  tool_call_started :: bool
  emitted_len :: nat
  thinking_emitted_len :: nat
  last_decode_len :: nat
  cached_raw :: str
  internal_token_ranges :: "(nat \<times> nat) list"
  tool_names_emitted :: "nat set"
  tool_args_emitted :: "nat set"
  tool_call_ids :: "nat \<rightharpoonup> str"

definition new_stream :: "bool \<Rightarrow> stream_proc" where
  "new_stream capable = \<lparr>all_ids = [], thinking_capable = capable, thinking_done = False,
     tool_call_started = False, emitted_len = 0, thinking_emitted_len = 0, last_decode_len = 0,
     cached_raw = [], internal_token_ranges = [], tool_names_emitted = {}, tool_args_emitted = {},
     tool_call_ids = Map.empty\<rparr>"

definition add_tokens :: "nat list \<Rightarrow> stream_proc \<Rightarrow> stream_proc" where
  "add_tokens ts p = p\<lparr>all_ids := all_ids p @ ts\<rparr>"

definition add_internal_tokens :: "nat list \<Rightarrow> stream_proc \<Rightarrow> stream_proc" where
  "add_internal_tokens ts p =
     (let p' = p\<lparr>all_ids := all_ids p @ ts\<rparr>
      in if ts \<noteq> [] then p'\<lparr>internal_token_ranges := internal_token_ranges p @ [(length (all_ids p), length (all_ids p'))]\<rparr>
         else p')"

section \<open>Decoded text\<close>

definition decode_ids :: "(nat list \<Rightarrow> str) \<Rightarrow> bool \<Rightarrow> nat list \<Rightarrow> str" where
  "decode_ids dec capable ids =
     (let decoded = drop_replacement (dec ids)
      in if capable \<and> \<not> prefix THINK_OPEN decoded then THINK_OPEN @ [newline] @ decoded else decoded)"

definition get_raw :: "(nat list \<Rightarrow> str) \<Rightarrow> stream_proc \<Rightarrow> str \<times> stream_proc" where
  "get_raw dec p =
     (if length (all_ids p) = last_decode_len p then (cached_raw p, p)
      else let raw = decode_ids dec (thinking_capable p) (all_ids p)
        in (raw, p\<lparr>cached_raw := raw, last_decode_len := length (all_ids p)\<rparr>))"

datatype span_view = Pending | Span "(nat \<times> nat \<times> bool) option"

definition reasoning_span :: "bool \<Rightarrow> bool \<Rightarrow> str \<Rightarrow> span_view" where
  "reasoning_span capable final raw =
     (if \<not> capable \<and> \<not> final \<and> length raw < length THINK_OPEN \<and> prefix raw THINK_OPEN then Pending
      else Span (find_reasoning_span raw))"

definition visible_text :: "bool \<Rightarrow> str \<Rightarrow> str" where
  "visible_text capable raw = (case reasoning_span capable True raw of
     Pending \<Rightarrow> raw
   | Span None \<Rightarrow> raw
   | Span (Some (start, stop, closed)) \<Rightarrow>
       if \<not> closed then []
       else let tail = drop (stop + length THINK_CLOSE) raw
         in if prefix [newline] tail then drop 1 tail else tail)"

definition has_unclosed_thinking :: "(nat list \<Rightarrow> str) \<Rightarrow> stream_proc \<Rightarrow> bool \<times> stream_proc" where
  "has_unclosed_thinking dec p =
     (let (raw, p') = get_raw dec p
      in (case reasoning_span (thinking_capable p) True raw of
            Span (Some (_, _, closed)) \<Rightarrow> \<not> closed | _ \<Rightarrow> False, p'))"

section \<open>Reasoning deltas\<close>

definition drain_thinking :: "(nat list \<Rightarrow> str) \<Rightarrow> stream_proc \<Rightarrow> str list \<times> stream_proc" where
  "drain_thinking dec p =
     (if thinking_done p then ([], p)
      else
        let (raw, p) = get_raw dec p
        in case reasoning_span (thinking_capable p) False raw of
             Span (Some (start, stop, closed)) \<Rightarrow>
               let body = drop start (take stop raw);
                   thinking = (if \<not> closed then trim_ambiguous_tail body THINK_CLOSE else body)
               in if thinking_emitted_len p < length thinking
                  then ([drop (thinking_emitted_len p) thinking], p\<lparr>thinking_emitted_len := length thinking\<rparr>)
                  else ([], p)
           | _ \<Rightarrow> ([], p))"

definition reasoning_content :: "(nat list \<Rightarrow> str) \<Rightarrow> stream_proc \<Rightarrow> str option \<times> stream_proc" where
  "reasoning_content dec p =
     (let (raw, p) = (case internal_token_ranges p of
            (first, _) # _ \<Rightarrow> (decode_ids dec (thinking_capable p) (take first (all_ids p)), p)
          | [] \<Rightarrow> get_raw dec p)
      in (case reasoning_span (thinking_capable p) True raw of
            Span (Some (start, stop, _)) \<Rightarrow>
              let t = strip (drop start (take stop raw)) in if t = [] then None else Some t
          | _ \<Rightarrow> None, p))"

section \<open>Content deltas\<close>

definition emit_content :: "str \<Rightarrow> stream_proc \<Rightarrow> str list \<times> stream_proc" where
  "emit_content safe p =
     (if emitted_len p < length safe then ([drop (emitted_len p) safe], p\<lparr>emitted_len := length safe\<rparr>)
      else ([], p))"

definition drain_visible :: "str \<Rightarrow> stream_proc \<Rightarrow> str list \<times> stream_proc" where
  "drain_visible visible p =
     (let tc_start = find_tool_call_start visible OPEN_TAG
      in if tc_start \<ge> 0 then
           emit_content (take (nat tc_start) visible)
             (if find_in OPEN_TAG visible \<noteq> None then p\<lparr>tool_call_started := True\<rparr> else p)
         else (case find_in USAGE_OPEN visible of
             Some usage_idx \<Rightarrow> emit_content (take usage_idx visible) p
           | None \<Rightarrow>
               let safe = trim_ambiguous_tail visible USAGE_OPEN
               in if length safe < length visible then emit_content safe p else emit_content visible p))"

definition drain_content :: "(nat list \<Rightarrow> str) \<Rightarrow> stream_proc \<Rightarrow> str list \<times> stream_proc" where
  "drain_content dec p =
     (if tool_call_started p then ([], p)
      else
        let (raw, p) = get_raw dec p; capable = thinking_capable p
        in if thinking_done p then drain_visible (visible_text capable raw) p
           else (case reasoning_span capable False raw of
               Pending \<Rightarrow> ([], p)
             | Span None \<Rightarrow> drain_visible (visible_text capable raw) (p\<lparr>thinking_done := True\<rparr>)
             | Span (Some (_, _, closed)) \<Rightarrow>
                 if closed then drain_visible (visible_text capable raw) (p\<lparr>thinking_done := True\<rparr>)
                 else ([], p)))"

definition content_text :: "(nat list \<Rightarrow> str) \<Rightarrow> stream_proc \<Rightarrow> str \<times> stream_proc" where
  "content_text dec p =
     (let (raw, p') = get_raw dec p in (strip_usage_artifacts (visible_text (thinking_capable p) raw), p'))"

definition stream_finalize ::
    "(nat list \<Rightarrow> str) \<Rightarrow> 'v tool_parser \<Rightarrow> stream_proc \<Rightarrow> (str \<times> 'v call list) \<times> stream_proc" where
  "stream_finalize dec parser p =
     (let (xs, p') = content_text dec p in (parse_tool_calls (parse_block parser) xs, p'))"

definition complete_tool_calls ::
    "(nat list \<Rightarrow> str) \<Rightarrow> 'v tool_parser \<Rightarrow> stream_proc \<Rightarrow> 'v call list \<times> stream_proc" where
  "complete_tool_calls dec parser p =
     (let (xs, p') = content_text dec p in (snd (parse_tool_calls (parse_block parser) xs), p'))"

section \<open>Tool-call events\<close>

datatype tool_delta = NameDelta nat str str | ArgsDelta nat str

definition emit_name :: "(nat \<Rightarrow> str) \<Rightarrow> nat \<Rightarrow> str \<Rightarrow> stream_proc \<Rightarrow> tool_delta list \<times> stream_proc" where
  "emit_name fresh i nm p =
     (if i \<in> tool_names_emitted p then ([], p)
      else
        let ids = (if tool_call_ids p i = None then (tool_call_ids p)(i \<mapsto> fresh i) else tool_call_ids p)
        in ([NameDelta i nm (the (ids i))],
            p\<lparr>tool_names_emitted := insert i (tool_names_emitted p), tool_call_ids := ids\<rparr>))"

definition emit_args ::
    "((str \<times> 'v) list \<Rightarrow> str) \<Rightarrow> 'v tool_parser \<Rightarrow> nat \<Rightarrow> str \<Rightarrow> bool \<Rightarrow> stream_proc \<Rightarrow> tool_delta list \<times> stream_proc" where
  "emit_args dumps parser i interior closed p =
     (if closed \<and> i \<notin> tool_args_emitted p then
        let args = (case parse_block parser interior of Some c \<Rightarrow> call_args c | None \<Rightarrow> [])
        in ([ArgsDelta i (dumps args)], p\<lparr>tool_args_emitted := insert i (tool_args_emitted p)\<rparr>)
      else ([], p))"

function tool_loop ::
    "(nat \<Rightarrow> str) \<Rightarrow> ((str \<times> 'v) list \<Rightarrow> str) \<Rightarrow> 'v tool_parser \<Rightarrow> str \<Rightarrow> nat \<Rightarrow> nat \<Rightarrow> stream_proc
      \<Rightarrow> tool_delta list \<times> stream_proc" where
  "tool_loop fresh dumps parser visible search_start i p =
     (case find_from OPEN_TAG visible search_start of
        None \<Rightarrow> ([], p)
      | Some tc_pos \<Rightarrow>
          let close = find_from CLOSE_TAG visible (tc_pos + length OPEN_TAG);
              interior = (case close of None \<Rightarrow> drop (tc_pos + length OPEN_TAG) visible
                          | Some e \<Rightarrow> drop (tc_pos + length OPEN_TAG) (take e visible))
          in case find_name parser interior (close \<noteq> None) of
               None \<Rightarrow> ([], p)
             | Some nm \<Rightarrow>
                 let (names, p1) = emit_name fresh i nm p;
                     (args, p2) = emit_args dumps parser i interior (close \<noteq> None) p1
                 in case close of
                      None \<Rightarrow> (names @ args, p2)
                    | Some e \<Rightarrow>
                        let (rest, p3) = tool_loop fresh dumps parser visible (e + length CLOSE_TAG) (i + 1) p2
                        in (names @ args @ rest, p3))"
  by pat_completeness auto
termination
proof (relation "measure (\<lambda>(_, _, _, visible, search_start, _). length visible - search_start)", goal_cases)
  case (2 fresh dumps parser visible search_start i p tc_pos close interior nm x names p1 x' args p2 e)
  then have "find_from OPEN_TAG visible search_start = Some tc_pos"
    "find_from CLOSE_TAG visible (tc_pos + length OPEN_TAG) = Some e" by simp_all
  then have "search_start < e + length CLOSE_TAG" "e + length CLOSE_TAG \<le> length visible"
    using find_from_Some(1) [of OPEN_TAG visible search_start tc_pos]
      find_from_Some(1,2) [of CLOSE_TAG visible "tc_pos + length OPEN_TAG" e]
    by simp_all
  then have "length visible - (e + length CLOSE_TAG) < length visible - search_start" by linarith
  then show ?case by simp
qed simp

declare tool_loop.simps [simp del]

definition drain_tool_deltas ::
    "(nat list \<Rightarrow> str) \<Rightarrow> (nat \<Rightarrow> str) \<Rightarrow> ((str \<times> 'v) list \<Rightarrow> str) \<Rightarrow> 'v tool_parser \<Rightarrow> stream_proc
      \<Rightarrow> tool_delta list \<times> stream_proc" where
  "drain_tool_deltas dec fresh dumps parser p =
     (if \<not> tool_call_started p then ([], p)
      else
        let (raw, p') = get_raw dec p
        in tool_loop fresh dumps parser (visible_text (thinking_capable p) raw) 0 0 p')"

section \<open>Text that only grows\<close>

definition raw_text :: "(nat list \<Rightarrow> str) \<Rightarrow> bool \<Rightarrow> nat list \<Rightarrow> str" where
  "raw_text dec capable ids = (if ids = [] then [] else decode_ids dec capable ids)"

text \<open>
  The tokenizer's part: while these tokens arrive, the decoded text, replacement characters dropped, is
  only extended.  Byte-level tokenizers behave so except inside a marker split over tokens.
\<close>

definition decodes_growing :: "(nat list \<Rightarrow> str) \<Rightarrow> bool \<Rightarrow> nat list \<Rightarrow> bool" where
  "decodes_growing dec capable ids \<longleftrightarrow>
     (\<forall>m \<in> {..length ids}. \<forall>n \<in> {..m}. prefix (raw_text dec capable (take n ids)) (raw_text dec capable (take m ids)))"

lemma decodes_growingD:
  "decodes_growing dec c ids \<Longrightarrow> n \<le> m \<Longrightarrow> m \<le> length ids \<Longrightarrow>
     prefix (raw_text dec c (take n ids)) (raw_text dec c (take m ids))"
  unfolding decodes_growing_def by blast

lemma decodes_growing_prefix:
  assumes "decodes_growing dec c (xs @ ys)"
  shows "decodes_growing dec c xs"
  unfolding decodes_growing_def
proof (intro ballI)
  fix m n assume "m \<in> {..length xs}" "n \<in> {..m}"
  then show "prefix (raw_text dec c (take n xs)) (raw_text dec c (take m xs))"
    using decodes_growingD [OF assms, of n m] by simp
qed

lemma decodes_growing_step:
  "decodes_growing dec c (xs @ ys) \<Longrightarrow> prefix (raw_text dec c xs) (raw_text dec c (xs @ ys))"
  using decodes_growingD [of dec c "xs @ ys" "length xs" "length (xs @ ys)"] by simp

lemma later_match_behind_tail:
  assumes "find_in m xs = None" and "prefix xs zs" and "find_in m zs = Some i"
    and "min (length m - 1) (length xs) \<le> n"
  shows "length xs - partial_tail m xs n \<le> i"
proof (cases "i < length xs")
  case True
  obtain ys where zs: "zs = xs @ ys" using assms(2) by (auto simp: prefix_def)
  have "occurs_at m (xs @ ys) i" "\<not> occurs_at m xs i"
    using assms(1,3) by (auto simp: zs find_in_Some find_in_None)
  then obtain k where k: "0 < k" "k < length m" "k \<le> length xs" "i = length xs - k" "suffix (take k m) xs"
    using True by (rule new_occurrence_tail)
  have "k \<le> partial_tail m xs n" using k(1,2,3,5) assms(4) by (intro partial_tail_max) linarith+
  then show ?thesis using k(4) by simp
qed simp

lemma trim_ambiguous_tail_prefix: "prefix (trim_ambiguous_tail xs m) xs"
  by (simp add: trim_ambiguous_tail_def take_is_prefix)

lemma trim_ambiguous_tail_length:
  "length (trim_ambiguous_tail xs m) = length xs - partial_tail m xs (min (length m - 1) (length xs))"
  by (simp add: trim_ambiguous_tail_def)

section \<open>Reasoning\<close>

definition reasoning_body :: "str \<Rightarrow> str" where
  "reasoning_body raw = (case find_reasoning_span raw of
     None \<Rightarrow> [] | Some (start, stop, _) \<Rightarrow> drop start (take stop raw))"

lemma span_grows:
  assumes "find_reasoning_span xs = Some (s, e, c)" and "prefix xs zs" and "s < length xs \<or> c"
  obtains e' c' where "find_reasoning_span zs = Some (s, e', c')" and "c \<Longrightarrow> c' \<and> e' = e"
proof -
  note B = span_body [OF assms(1)]
  have "prefix THINK_OPEN zs" using B(4) assms(2) by (rule prefix_order.trans)
  then obtain s' e' c' where z: "find_reasoning_span zs = Some (s', e', c')"
    using find_reasoning_span_None [of zs] by (cases "find_reasoning_span zs") auto
  note Z = span_body [OF z]
  obtain ys where zs: "zs = xs @ ys" using assms(2) by (auto simp: prefix_def)
  have len: "s < length xs"
  proof (cases c)
    case True
    then have "find_in THINK_CLOSE (drop s xs) = Some (e - s)" by (rule B(6))
    then show ?thesis using find_in_le by fastforce
  qed (use assms(3) in simp)
  have "7 < length xs" using len B(1) by linarith
  then obtain x rest where "drop 7 xs = x # rest" by (metis drop_eq_Nil not_le neq_Nil_conv)
  then have "prefix [newline] (drop 7 zs) \<longleftrightarrow> prefix [newline] (drop 7 xs)"
    using \<open>7 < length xs\<close> by (simp add: zs)
  then have s': "s' = s" unfolding Z(8) B(8) by simp
  have "c' \<and> e' = e" if c
  proof -
    have "prefix (drop s xs) (drop s zs)" using len by (simp add: zs)
    then have f: "find_in THINK_CLOSE (drop s zs) = Some (e - s)" using find_in_mono [OF B(6) [OF that]] by blast
    then have c': "c'" using Z(5) s' by (auto simp: find_in_Some)
    then have "e' - s' = e - s" using Z(6) f s' by simp
    then show ?thesis using c' B(2) Z(2) s' by simp
  qed
  then show ?thesis using that z s' by blast
qed

lemma trimmed_body_grows:
  assumes "find_reasoning_span xs = Some (s, e, c)" and "prefix xs zs"
  defines "t \<equiv> if \<not> c then trim_ambiguous_tail (drop s (take e xs)) THINK_CLOSE else drop s (take e xs)"
  shows "prefix t (reasoning_body zs)"
proof (cases "s < length xs \<or> c")
  case False
  then have "drop s (take e xs) = []" by (simp add: min.coboundedI1)
  then show ?thesis using False by (simp add: t_def trim_ambiguous_tail_def)
next
  case True
  obtain e' c' where z: "find_reasoning_span zs = Some (s, e', c')" "c \<Longrightarrow> c' \<and> e' = e"
    by (rule span_grows [OF assms(1,2) True]) blast
  note B = span_body [OF assms(1)] and Z = span_body [OF z(1)]
  obtain ys where zs: "zs = xs @ ys" using assms(2) by (auto simp: prefix_def)
  have body: "reasoning_body zs = drop s (take e' zs)" by (simp add: reasoning_body_def z(1))
  show ?thesis
  proof (cases c)
    case True
    then have "e' = e" using z(2) by simp
    then have "reasoning_body zs = t" using True B(3) body by (simp add: t_def zs)
    then show ?thesis by simp
  next
    case False
    let ?b = "drop s xs"
    have e: "e = length xs" using B(7) [OF False] .
    then have t: "t = trim_ambiguous_tail ?b THINK_CLOSE" using False by (simp add: t_def)
    have open_here: "find_in THINK_CLOSE ?b = None" using False B(5) by (auto simp: find_in_None)
    have pre: "prefix ?b (drop s zs)" using B(2,3) by (simp add: zs)
    have len: "length t \<le> e' - s"
    proof (cases c')
      case True
      then have "find_in THINK_CLOSE (drop s zs) = Some (e' - s)" by (rule Z(6))
      then show ?thesis using later_match_behind_tail [OF open_here pre]
        unfolding t trim_ambiguous_tail_length by blast
    next
      case False
      then have "e' = length zs" by (rule Z(7))
      then show ?thesis using prefix_length_le [OF pre] prefix_length_le [OF trim_ambiguous_tail_prefix [of ?b THINK_CLOSE]]
        unfolding t by simp
    qed
    have "prefix t (drop s zs)" using trim_ambiguous_tail_prefix pre unfolding t by (rule prefix_order.trans)
    moreover have "prefix (reasoning_body zs) (drop s zs)" by (simp add: body drop_take take_is_prefix)
    moreover have "length t \<le> length (reasoning_body zs)" using len Z(3) by (simp add: body)
    ultimately show ?thesis by (rule prefix_length_prefix)
  qed
qed

section \<open>Visible text\<close>

text \<open>A text whose reading no longer depends on what follows: the reasoning phase is decided.\<close>

definition settled :: "bool \<Rightarrow> str \<Rightarrow> bool" where
  "settled capable raw \<longleftrightarrow>
     (if capable then raw = [] \<or> prefix THINK_OPEN raw
      else \<not> (length raw < length THINK_OPEN \<and> prefix raw THINK_OPEN))"

lemma settled_raw_text [simp]: "settled True (raw_text dec True ids)"
  by (auto simp: settled_def raw_text_def decode_ids_def Let_def)

lemma settled_cases:
  assumes "settled c xs" and "prefix xs zs" and "xs \<noteq> []"
  shows "prefix THINK_OPEN xs \<longleftrightarrow> prefix THINK_OPEN zs" and "\<not> c \<Longrightarrow> settled c zs"
proof -
  show same: "prefix THINK_OPEN xs \<longleftrightarrow> prefix THINK_OPEN zs"
  proof
    assume "prefix THINK_OPEN xs"
    then show "prefix THINK_OPEN zs" using assms(2) by (rule prefix_order.trans)
  next
    assume "prefix THINK_OPEN zs"
    then have "prefix THINK_OPEN xs \<or> prefix xs THINK_OPEN" using assms(2) prefix_same_cases by blast
    moreover have "prefix THINK_OPEN xs" if "prefix xs THINK_OPEN"
    proof (cases "length xs < 7")
      case True
      then have False using assms(1,3) that by (cases c) (auto simp: settled_def dest: prefix_length_le)
      then show ?thesis ..
    next
      case False
      then have "length THINK_OPEN \<le> length xs" by simp
      then show ?thesis using that by (metis prefix_length_prefix prefix_order.refl)
    qed
    ultimately show "prefix THINK_OPEN xs" by blast
  qed
  assume "\<not> c"
  then have s: "\<not> (length xs < 7 \<and> prefix xs THINK_OPEN)" using assms(1) by (simp add: settled_def)
  have "\<not> (length zs < 7 \<and> prefix zs THINK_OPEN)"
  proof
    assume z: "length zs < 7 \<and> prefix zs THINK_OPEN"
    then have "length xs < 7" "prefix xs THINK_OPEN"
      using prefix_length_le [OF assms(2)] assms(2) prefix_order.trans by auto
    then show False using s by blast
  qed
  then show "settled c zs" using \<open>\<not> c\<close> by (simp add: settled_def)
qed

definition drop_newline :: "str \<Rightarrow> str" where
  "drop_newline xs = (if prefix [newline] xs then drop 1 xs else xs)"

lemma drop_newline_grows: "prefix xs zs \<Longrightarrow> prefix (drop_newline xs) (drop_newline zs)"
  by (cases xs; cases zs) (auto simp: drop_newline_def)

lemma visible_text_cases:
  "visible_text c raw = (case find_reasoning_span raw of
     None \<Rightarrow> raw
   | Some (_, stop, closed) \<Rightarrow> if closed then drop_newline (drop (stop + 8) raw) else [])"
  by (auto simp: visible_text_def reasoning_span_def drop_newline_def Let_def split: option.splits)

lemma visible_text_grows:
  assumes "settled c xs" and "prefix xs zs"
  shows "prefix (visible_text c xs) (visible_text c zs)"
proof (cases "xs = []")
  case True
  then have "find_reasoning_span xs = None" by (simp add: find_reasoning_span_None THINK_OPEN_def lit_def)
  then show ?thesis using True by (simp add: visible_text_cases)
next
  case False
  note same = settled_cases(1) [OF assms(1,2) False]
  show ?thesis
  proof (cases "find_reasoning_span xs")
    case None
    then have "find_reasoning_span zs = None" using same by (simp add: find_reasoning_span_None)
    then show ?thesis using None assms(2) by (simp add: visible_text_cases)
  next
    case (Some p)
    obtain s e cl where x: "find_reasoning_span xs = Some (s, e, cl)" using Some by (cases p) auto
    show ?thesis
    proof (cases cl)
      case True
      obtain e' c' where z: "find_reasoning_span zs = Some (s, e', c')" "cl \<Longrightarrow> c' \<and> e' = e"
        by (rule span_grows [OF x assms(2)]) (use True in blast)+
      have "prefix (drop (e + 8) xs) (drop (e + 8) zs)"
        using assms(2) by (auto simp: prefix_def)
      then show ?thesis using x z True drop_newline_grows by (simp add: visible_text_cases)
    next
      case False
      then show ?thesis using x by (simp add: visible_text_cases)
    qed
  qed
qed

section \<open>Content stays before a tool call\<close>

definition before_calls :: "nat \<Rightarrow> str \<Rightarrow> bool" where
  "before_calls n xs \<longleftrightarrow> (\<forall>zs i. prefix xs zs \<and> find_in OPEN_TAG zs = Some i \<longrightarrow> n \<le> i)"

lemma before_callsD: "before_calls n xs \<Longrightarrow> prefix xs zs \<Longrightarrow> find_in OPEN_TAG zs = Some i \<Longrightarrow> n \<le> i"
  by (auto simp: before_calls_def)

lemma before_calls_grows: "before_calls n xs \<Longrightarrow> prefix xs zs \<Longrightarrow> before_calls n zs"
  unfolding before_calls_def using prefix_order.trans by blast

lemma before_calls_less: "before_calls n xs \<Longrightarrow> m \<le> n \<Longrightarrow> before_calls m xs"
  unfolding before_calls_def using le_trans by blast

lemma before_calls_0 [simp]: "before_calls 0 xs"
  by (simp add: before_calls_def)

lemma before_calls_start:
  assumes "0 \<le> find_tool_call_start xs OPEN_TAG"
  shows "before_calls (nat (find_tool_call_start xs OPEN_TAG)) xs"
  unfolding before_calls_def
proof (intro allI impI, elim conjE)
  fix zs i assume z: "prefix xs zs" "find_in OPEN_TAG zs = Some i"
  show "nat (find_tool_call_start xs OPEN_TAG) \<le> i"
  proof (cases "find_in OPEN_TAG xs")
    case (Some j)
    then show ?thesis using find_in_mono [OF Some z(1)] z(2) by (simp add: find_tool_call_start_def)
  next
    case None
    have "length xs - partial_tail OPEN_TAG xs 10 \<le> i"
      by (rule later_match_behind_tail [OF None z]) simp
    then show ?thesis using None assms by (simp add: find_tool_call_start_def Let_def split: if_splits)
  qed
qed

lemma before_calls_all:
  assumes "find_tool_call_start xs OPEN_TAG < 0" and "n \<le> length xs"
  shows "before_calls n xs"
  unfolding before_calls_def
proof (intro allI impI, elim conjE)
  fix zs i assume z: "prefix xs zs" "find_in OPEN_TAG zs = Some i"
  have tag: "find_in OPEN_TAG xs = None" using assms(1) by (auto simp: find_tool_call_start_def split: option.splits)
  have "length xs - partial_tail OPEN_TAG xs 10 \<le> i"
    by (rule later_match_behind_tail [OF tag z]) simp
  moreover have "partial_tail OPEN_TAG xs 10 = 0"
    using assms(1) tag partial_tail_suffix [of OPEN_TAG xs 10] suffix_length_le [of "take (partial_tail OPEN_TAG xs 10) OPEN_TAG" xs]
      partial_tail_le [of OPEN_TAG xs 10]
    by (simp add: find_tool_call_start_def Let_def min_def split: if_splits)
  ultimately show "n \<le> i" using assms(2) by simp
qed

section \<open>What each drain does\<close>

definition cached :: "(nat list \<Rightarrow> str) \<Rightarrow> stream_proc \<Rightarrow> bool" where
  "cached dec p \<longleftrightarrow> last_decode_len p \<le> length (all_ids p) \<and>
     cached_raw p = raw_text dec (thinking_capable p) (take (last_decode_len p) (all_ids p))"

abbreviation stream_raw :: "(nat list \<Rightarrow> str) \<Rightarrow> stream_proc \<Rightarrow> str" where
  "stream_raw dec p \<equiv> raw_text dec (thinking_capable p) (all_ids p)"

abbreviation decoded :: "(nat list \<Rightarrow> str) \<Rightarrow> stream_proc \<Rightarrow> stream_proc" where
  "decoded dec p \<equiv> p\<lparr>cached_raw := stream_raw dec p, last_decode_len := length (all_ids p)\<rparr>"

lemma get_raw_cached:
  assumes "cached dec p"
  shows "get_raw dec p = (stream_raw dec p, decoded dec p)"
proof (cases "length (all_ids p) = last_decode_len p")
  case True
  then have "cached_raw p = stream_raw dec p" using assms by (simp add: cached_def)
  then show ?thesis using True by (simp add: get_raw_def)
next
  case False
  then have "all_ids p \<noteq> []" using assms by (auto simp: cached_def)
  then show ?thesis using False by (simp add: get_raw_def raw_text_def Let_def)
qed

lemma emit_content_spec:
  "concat (fst (emit_content safe p)) = drop (emitted_len p) safe"
  "snd (emit_content safe p) = p\<lparr>emitted_len := max (emitted_len p) (length safe)\<rparr>"
  by (simp_all add: emit_content_def max_def)

lemma drain_visible_spec:
  obtains safe started where "prefix safe xs" and "before_calls (length safe) xs"
    and "concat (fst (drain_visible xs p)) = drop (emitted_len p) safe"
    and "snd (drain_visible xs p) = p\<lparr>tool_call_started := started, emitted_len := max (emitted_len p) (length safe)\<rparr>"
    and "find_in OPEN_TAG xs = None \<Longrightarrow> find_in USAGE_OPEN xs = None \<Longrightarrow> length xs \<le> length safe + 10"
proof (cases "0 \<le> find_tool_call_start xs OPEN_TAG")
  case True
  let ?n = "nat (find_tool_call_start xs OPEN_TAG)"
  let ?st = "find_in OPEN_TAG xs \<noteq> None \<or> tool_call_started p"
  have run: "drain_visible xs p = emit_content (take ?n xs) (p\<lparr>tool_call_started := ?st\<rparr>)"
    using True by (simp add: drain_visible_def Let_def)
  have "before_calls (length (take ?n xs)) xs"
    using before_calls_start [OF True] by (rule before_calls_less) simp
  moreover have "length xs \<le> length (take ?n xs) + 10" if "find_in OPEN_TAG xs = None"
    using that partial_tail_le [of OPEN_TAG xs 10] True
    by (auto simp: find_tool_call_start_def Let_def min_def split: if_splits)
  ultimately show ?thesis
    using that [of "take ?n xs" ?st] by (simp add: run emit_content_spec take_is_prefix)
next
  case False
  have all: "before_calls (length safe) xs" if "prefix safe xs" for safe
    using False prefix_length_le [OF that] by (intro before_calls_all) simp_all
  have "\<exists>safe. drain_visible xs p = emit_content safe p \<and> prefix safe xs \<and>
      (find_in USAGE_OPEN xs = None \<longrightarrow> length xs \<le> length safe + 10)"
  proof (cases "find_in USAGE_OPEN xs")
    case (Some k)
    then have "drain_visible xs p = emit_content (take k xs) p" using False by (simp add: drain_visible_def Let_def)
    then show ?thesis using Some take_is_prefix by auto
  next
    case None
    let ?t = "trim_ambiguous_tail xs USAGE_OPEN"
    have "length xs \<le> length ?t + 10"
      using partial_tail_le [of USAGE_OPEN xs "min 6 (length xs)"] by (simp add: trim_ambiguous_tail_length) arith
    moreover have "drain_visible xs p = emit_content (if length ?t < length xs then ?t else xs) p"
      using None False by (simp add: drain_visible_def Let_def)
    moreover have "prefix (if length ?t < length xs then ?t else xs) xs" by (simp add: trim_ambiguous_tail_prefix)
    ultimately show ?thesis by (intro exI conjI impI) (assumption+, simp)
  qed
  then obtain safe where "drain_visible xs p = emit_content safe p \<and> prefix safe xs \<and>
      (find_in USAGE_OPEN xs = None \<longrightarrow> length xs \<le> length safe + 10)" ..
  note safe = this [THEN conjunct1] this [THEN conjunct2, THEN conjunct1] this [THEN conjunct2, THEN conjunct2]
  show ?thesis
  proof (rule that [of safe "tool_call_started p"])
    show "snd (drain_visible xs p) =
        p\<lparr>tool_call_started := tool_call_started p, emitted_len := max (emitted_len p) (length safe)\<rparr>"
      by (simp add: safe(1) emit_content_spec)
  qed (use safe all [OF safe(2)] in \<open>simp_all add: emit_content_spec\<close>)
qed

definition stream_view where
  "stream_view p = (all_ids p, thinking_capable p, thinking_done p, tool_call_started p, emitted_len p,
     thinking_emitted_len p, last_decode_len p, cached_raw p, internal_token_ranges p)"

lemma stream_view_emit [simp]:
  "stream_view (snd (emit_name fresh i nm p)) = stream_view p"
  "stream_view (snd (emit_args dumps parser i interior closed p)) = stream_view p"
  by (simp_all add: stream_view_def emit_name_def emit_args_def Let_def)

lemma stream_view_emitD:
  "emit_name fresh i nm p = (d, q) \<Longrightarrow> stream_view q = stream_view p"
  "emit_args dumps parser i interior closed p = (d, q) \<Longrightarrow> stream_view q = stream_view p"
  using stream_view_emit by (metis snd_conv)+

lemma stream_view_tool_loop:
  "stream_view (snd (tool_loop fresh dumps parser xs start i p)) = stream_view p"
proof (induction fresh dumps parser xs start i p rule: tool_loop.induct)
  case (1 fresh dumps parser xs start i p)
  show ?case
  proof (cases "find_from OPEN_TAG xs start")
    case None
    then show ?thesis by (simp add: tool_loop.simps [of fresh dumps parser xs])
  next
    case (Some tc)
    let ?close = "find_from CLOSE_TAG xs (tc + length OPEN_TAG)"
    let ?interior = "case ?close of None \<Rightarrow> drop (tc + length OPEN_TAG) xs
                     | Some e \<Rightarrow> drop (tc + length OPEN_TAG) (take e xs)"
    obtain names p1 where n: "\<And>nm. find_name parser ?interior (?close \<noteq> None) = Some nm \<Longrightarrow> emit_name fresh i nm p = (names, p1)"
      by (cases "find_name parser ?interior (?close \<noteq> None)") (auto intro: prod.exhaust)
    obtain args p2 where a: "emit_args dumps parser i ?interior (?close \<noteq> None) p1 = (args, p2)"
      by (rule prod.exhaust)
    have a2: "stream_view p2 = stream_view p1" by (rule stream_view_emitD(2) [OF a])
    show ?thesis
    proof (cases "find_name parser ?interior (?close \<noteq> None)")
      case None
      then show ?thesis using Some by (simp add: tool_loop.simps [of fresh dumps parser xs] Let_def)
    next
      case nm: (Some nm)
      have n1: "stream_view p1 = stream_view p" by (rule stream_view_emitD(1) [OF n [OF nm]])
      show ?thesis
      proof (cases ?close)
        case None
        then show ?thesis using Some nm n [OF nm] a a2 n1
          by (simp add: tool_loop.simps [of fresh dumps parser xs] Let_def)
      next
        case e: (Some e)
        obtain rest p3 where l: "tool_loop fresh dumps parser xs (e + length CLOSE_TAG) (i + 1) p2 = (rest, p3)"
          by (rule prod.exhaust)
        have "stream_view (snd (tool_loop fresh dumps parser xs (e + length CLOSE_TAG) (i + 1) p2)) = stream_view p2"
          by (rule 1 [OF Some refl refl nm n [OF nm, symmetric] refl a [symmetric] refl e])
        then show ?thesis using Some nm n [OF nm] a a2 n1 e l
          by (simp add: tool_loop.simps [of fresh dumps parser xs start] Let_def)
      qed
    qed
  qed
qed

section \<open>Histories\<close>

text \<open>Everything sent so far, under any interleaving of the processor's operations.\<close>

record stream_trace =
  stream :: stream_proc
  sent_thinking :: str
  sent_content :: str
  sent_tools :: "tool_delta list"

inductive stream_reach ::
    "(nat list \<Rightarrow> str) \<Rightarrow> (nat \<Rightarrow> str) \<Rightarrow> ((str \<times> 'v) list \<Rightarrow> str) \<Rightarrow> 'v tool_parser \<Rightarrow> bool \<Rightarrow> stream_trace \<Rightarrow> bool"
  for dec fresh dumps parser capable where
  start: "stream_reach dec fresh dumps parser capable
    \<lparr>stream = new_stream capable, sent_thinking = [], sent_content = [], sent_tools = []\<rparr>"
| tokens: "stream_reach dec fresh dumps parser capable t \<Longrightarrow>
    stream_reach dec fresh dumps parser capable (t\<lparr>stream := add_tokens ts (stream t)\<rparr>)"
| internal: "stream_reach dec fresh dumps parser capable t \<Longrightarrow>
    stream_reach dec fresh dumps parser capable (t\<lparr>stream := add_internal_tokens ts (stream t)\<rparr>)"
| query: "stream_reach dec fresh dumps parser capable t \<Longrightarrow> get_raw dec (stream t) = (raw, p) \<Longrightarrow>
    stream_reach dec fresh dumps parser capable (t\<lparr>stream := p\<rparr>)"
| thinking: "stream_reach dec fresh dumps parser capable t \<Longrightarrow> drain_thinking dec (stream t) = (ds, p) \<Longrightarrow>
    stream_reach dec fresh dumps parser capable (t\<lparr>stream := p, sent_thinking := sent_thinking t @ concat ds\<rparr>)"
| content: "stream_reach dec fresh dumps parser capable t \<Longrightarrow> drain_content dec (stream t) = (ds, p) \<Longrightarrow>
    stream_reach dec fresh dumps parser capable (t\<lparr>stream := p, sent_content := sent_content t @ concat ds\<rparr>)"
| tools: "stream_reach dec fresh dumps parser capable t \<Longrightarrow>
    drain_tool_deltas dec fresh dumps parser (stream t) = (ev, p) \<Longrightarrow>
    stream_reach dec fresh dumps parser capable (t\<lparr>stream := p, sent_tools := sent_tools t @ ev\<rparr>)"

definition stream_sent :: "(nat list \<Rightarrow> str) \<Rightarrow> bool \<Rightarrow> stream_proc \<Rightarrow> str \<Rightarrow> str \<Rightarrow> bool" where
  "stream_sent dec c p thought said \<longleftrightarrow>
     thinking_capable p = c \<and>
     thinking_emitted_len p = length thought \<and> emitted_len p = length said \<and>
     (\<not> thinking_done p \<longrightarrow> said = [] \<and> \<not> tool_call_started p) \<and>
     (thinking_done p \<longrightarrow> settled c (raw_text dec c (all_ids p)) \<and> prefix said (visible_text c (raw_text dec c (all_ids p)))) \<and>
     before_calls (length said) (visible_text c (raw_text dec c (all_ids p))) \<and>
     (\<forall>zs. prefix (raw_text dec c (all_ids p)) zs \<longrightarrow> prefix thought (reasoning_body zs))"

definition stream_ok :: "(nat list \<Rightarrow> str) \<Rightarrow> bool \<Rightarrow> stream_proc \<Rightarrow> str \<Rightarrow> str \<Rightarrow> bool" where
  "stream_ok dec c p thought said \<longleftrightarrow> cached dec p \<and> stream_sent dec c p thought said"

lemma stream_ok_new: "stream_ok dec c (new_stream c) [] []"
  by (simp add: stream_ok_def stream_sent_def new_stream_def cached_def raw_text_def)

lemma stream_ok_view:
  assumes "stream_view p = stream_view q" and "stream_ok dec c p ts cs"
  shows "stream_ok dec c q ts cs"
proof -
  have "cached dec q = cached dec p" "stream_sent dec c q ts cs = stream_sent dec c p ts cs"
    using assms(1) by (simp_all add: stream_sent_def stream_view_def cached_def)
  then show ?thesis using assms(2) by (simp add: stream_ok_def)
qed

lemma stream_ok_decoded:
  assumes "stream_ok dec c p ts cs"
  shows "stream_ok dec c (decoded dec p) ts cs"
proof -
  have "cached dec (decoded dec p)" "stream_sent dec c (decoded dec p) ts cs = stream_sent dec c p ts cs"
    by (simp_all add: stream_sent_def cached_def)
  then show ?thesis using assms by (simp add: stream_ok_def)
qed

lemma stream_ok_tokens:
  assumes "stream_ok dec c p ts cs" and "decodes_growing dec c (all_ids p @ later)"
  shows "stream_ok dec c (add_tokens later p) ts cs"
proof -
  have inv: "stream_sent dec c p ts cs" and ca: "cached dec p" using assms(1) by (simp_all add: stream_ok_def)
  then have c: "thinking_capable p = c" by (simp add: stream_sent_def)
  let ?r = "raw_text dec c (all_ids p)" and ?r' = "raw_text dec c (all_ids p @ later)"
  have g: "prefix ?r ?r'" by (rule decodes_growing_step [OF assms(2)])
  have vis: "prefix cs (visible_text c ?r') \<and> settled c ?r'" if "thinking_done p"
  proof -
    have s: "settled c ?r" "prefix cs (visible_text c ?r)" using inv that c by (auto simp: stream_sent_def)
    have "prefix cs (visible_text c ?r')" using s(2) visible_text_grows [OF s(1) g] by (rule prefix_order.trans)
    moreover have "settled c ?r'"
    proof (cases c)
      case False
      then have "?r \<noteq> []" using s(1) by (auto simp: settled_def THINK_OPEN_def lit_def)
      then show ?thesis using settled_cases(2) [OF s(1) g] False by blast
    qed simp
    ultimately show ?thesis ..
  qed
  have before: "before_calls (length cs) (visible_text c ?r')"
  proof (cases "thinking_done p")
    case True
    then have "settled c ?r" "before_calls (length cs) (visible_text c ?r)" using inv c by (auto simp: stream_sent_def)
    then show ?thesis using before_calls_grows visible_text_grows [OF _ g] by blast
  next
    case False
    then have "cs = []" using inv by (simp add: stream_sent_def)
    then show ?thesis by simp
  qed
  have think: "prefix ts (reasoning_body zs)" if "prefix ?r' zs" for zs
    using inv c prefix_order.trans [OF g that] by (simp add: stream_sent_def)
  have "stream_sent dec c (add_tokens later p) ts cs"
    using inv c vis before think by (simp add: stream_sent_def add_tokens_def)
  moreover have "cached dec (add_tokens later p)" using ca by (simp add: cached_def add_tokens_def)
  ultimately show ?thesis by (simp add: stream_ok_def)
qed

lemma prefix_extend:
  assumes "prefix xs zs" and "prefix ys zs" and "length xs \<le> length ys"
  shows "xs @ drop (length xs) ys = ys"
proof -
  have "prefix xs ys" using assms by (rule prefix_length_prefix)
  then show ?thesis by (auto simp: prefix_def)
qed

lemma stream_ok_ranges [simp]:
  "stream_ok dec c (p\<lparr>internal_token_ranges := rs\<rparr>) ts cs = stream_ok dec c p ts cs"
  by (simp add: stream_ok_def stream_sent_def cached_def)

lemma add_internal_tokens_add:
  "add_internal_tokens [] p = add_tokens [] p"
  "ts \<noteq> [] \<Longrightarrow> add_internal_tokens ts p = (add_tokens ts p)\<lparr>internal_token_ranges :=
     internal_token_ranges p @ [(length (all_ids p), length (all_ids p) + length ts)]\<rparr>"
  by (simp_all add: add_internal_tokens_def add_tokens_def)

lemma stream_ok_raw: "stream_ok dec c p ts cs \<Longrightarrow> get_raw dec p = (raw_text dec c (all_ids p), decoded dec p)"
  using get_raw_cached by (auto simp: stream_ok_def stream_sent_def)

lemma stream_ok_thinking:
  assumes ok: "stream_ok dec c p ts cs" and drain: "drain_thinking dec p = (ds, q)"
  shows "stream_ok dec c q (ts @ concat ds) cs" and "all_ids q = all_ids p"
    and "\<not> thinking_done p \<Longrightarrow> find_reasoning_span (raw_text dec c (all_ids p)) = Some (s, e, True) \<Longrightarrow>
      ts @ concat ds = reasoning_body (raw_text dec c (all_ids p))"
proof -
  let ?r = "raw_text dec c (all_ids p)"
  have c: "thinking_capable p = c" using ok by (simp add: stream_ok_def stream_sent_def)
  note raw = stream_ok_raw [OF ok] and okd = stream_ok_decoded [OF ok]
  consider (quiet) "ds = []" "q = p \<or> q = decoded dec p" "thinking_done p \<or> (\<nexists>s e. find_reasoning_span ?r = Some (s, e, True))"
    | (body) s e cl th where "find_reasoning_span ?r = Some (s, e, cl)" "\<not> thinking_done p"
      "th = (if \<not> cl then trim_ambiguous_tail (drop s (take e ?r)) THINK_CLOSE else drop s (take e ?r))"
      "(ds, q) = (if thinking_emitted_len p < length th
         then ([drop (thinking_emitted_len p) th], (decoded dec p)\<lparr>thinking_emitted_len := length th\<rparr>)
         else ([], decoded dec p))"
  proof (cases "thinking_done p")
    case True
    then show ?thesis using drain that(1) by (simp add: drain_thinking_def)
  next
    case False
    show ?thesis
    proof (cases "reasoning_span c False ?r")
      case Pending
      then have "ds = []" "q = decoded dec p" using drain False raw c by (simp_all add: drain_thinking_def)
      moreover have "\<nexists>s e. find_reasoning_span ?r = Some (s, e, True)"
        using Pending span_body(4) [of ?r] prefix_length_le [of THINK_OPEN ?r]
        by (auto simp: reasoning_span_def split: if_splits)
      ultimately show ?thesis using that(1) by blast
    next
      case (Span o')
      then have o': "o' = find_reasoning_span ?r" by (simp add: reasoning_span_def split: if_splits)
      show ?thesis
      proof (cases "find_reasoning_span ?r")
        case None
        then have "ds = []" "q = decoded dec p" using drain False raw c Span o' by (simp_all add: drain_thinking_def)
        then show ?thesis using that(1) None by simp
      next
        case (Some x)
        obtain s e cl where x: "x = (s, e, cl)" by (cases x) auto
        show ?thesis
          by (rule that(2) [OF Some [unfolded x] False refl])
            (use drain [symmetric] False raw c Span o' Some x in \<open>simp add: drain_thinking_def Let_def\<close>)
      qed
    qed
  qed
  then have "stream_ok dec c q (ts @ concat ds) cs \<and> all_ids q = all_ids p \<and>
    (\<not> thinking_done p \<and> (\<exists>s e. find_reasoning_span ?r = Some (s, e, True)) \<longrightarrow> ts @ concat ds = reasoning_body ?r)"
  proof cases
    case quiet
    then show ?thesis using ok okd by auto
  next
    case body
    have th_pre: "prefix th (reasoning_body zs)" if "prefix ?r zs" for zs
      using trimmed_body_grows [OF body(1) that] body(3) by simp
    have ts_pre: "prefix ts (reasoning_body zs)" if "prefix ?r zs" for zs
      using ok that by (simp add: stream_ok_def stream_sent_def)
    have len: "thinking_emitted_len p = length ts" using ok by (simp add: stream_ok_def stream_sent_def)
    show ?thesis
    proof (cases "length ts < length th")
      case True
      have glue: "ts @ drop (length ts) th = th"
        using True by (intro prefix_extend [OF ts_pre th_pre]) auto
      have q: "ds = [drop (length ts) th]" "q = (decoded dec p)\<lparr>thinking_emitted_len := length th\<rparr>"
        using body(4) len True by simp_all
      have "stream_sent dec c q th cs" "cached dec q"
        using ok th_pre unfolding q by (simp_all add: stream_ok_def stream_sent_def cached_def)
      then have "stream_ok dec c q (ts @ concat ds) cs" using glue q(1) by (simp add: stream_ok_def)
      moreover have "th = reasoning_body ?r" if "find_reasoning_span ?r = Some (s', e', True)" for s' e'
        using that body(1,3) by (simp add: reasoning_body_def)
      ultimately show ?thesis using glue q by auto
    next
      case False
      have q: "ds = []" "q = decoded dec p" using body(4) len False by simp_all
      have "ts = reasoning_body ?r" if "find_reasoning_span ?r = Some (s', e', True)" for s' e'
      proof -
        have "th = reasoning_body ?r" using that body(1,3) by (simp add: reasoning_body_def)
        then show ?thesis using False ts_pre [of ?r] by (auto simp: prefix_def)
      qed
      then show ?thesis using q okd by auto
    qed
  qed
  then show "stream_ok dec c q (ts @ concat ds) cs" and "all_ids q = all_ids p"
    and "\<not> thinking_done p \<Longrightarrow> find_reasoning_span ?r = Some (s, e, True) \<Longrightarrow> ts @ concat ds = reasoning_body ?r"
    by blast+
qed

lemma reasoning_span_settled:
  assumes "c \<Longrightarrow> settled c raw" and "reasoning_span c False raw \<noteq> Pending"
  shows "settled c raw"
  using assms by (cases c) (auto simp: settled_def reasoning_span_def split: if_splits)

lemma stream_ok_visible:
  assumes ok: "stream_ok dec c p ts cs" and settled: "settled c (raw_text dec c (all_ids p))"
    and drain: "drain_visible (visible_text c (raw_text dec c (all_ids p))) (p\<lparr>thinking_done := True\<rparr>) = (ds, q)"
  defines "vis \<equiv> visible_text c (raw_text dec c (all_ids p))"
  shows "stream_ok dec c q ts (cs @ concat ds)" and "all_ids q = all_ids p" and "thinking_done q"
    and "find_in OPEN_TAG vis = None \<Longrightarrow> find_in USAGE_OPEN vis = None \<Longrightarrow> length vis \<le> length (cs @ concat ds) + 10"
proof -
  have inv: "stream_sent dec c p ts cs" and ca: "cached dec p" using ok by (simp_all add: stream_ok_def)
  have cs: "prefix cs vis" "before_calls (length cs) vis" "emitted_len p = length cs"
    using inv by (cases "thinking_done p"; auto simp: stream_sent_def vis_def)+
  obtain safe st where safe: "prefix safe vis" "before_calls (length safe) vis"
    "concat ds = drop (length cs) safe"
    "q = p\<lparr>thinking_done := True, tool_call_started := st, emitted_len := max (length cs) (length safe)\<rparr>"
    "find_in OPEN_TAG vis = None \<Longrightarrow> find_in USAGE_OPEN vis = None \<Longrightarrow> length vis \<le> length safe + 10"
    using drain cs(3) by (rule_tac drain_visible_spec [of vis "p\<lparr>thinking_done := True\<rparr>"]) (simp add: vis_def)
  have sent: "cs @ concat ds = (if length cs \<le> length safe then safe else cs)"
    using safe(3) prefix_extend [OF cs(1) safe(1)] by simp
  then have pre: "prefix (cs @ concat ds) vis" and bef: "before_calls (length (cs @ concat ds)) vis"
    using cs(1,2) safe(1,2) by simp_all
  have "length (cs @ concat ds) = emitted_len q" using sent safe(4) by simp
  then have "stream_sent dec c q ts (cs @ concat ds)"
    using inv settled pre bef unfolding vis_def safe(4) by (simp add: stream_sent_def)
  moreover have "cached dec q" using ca by (simp add: cached_def safe(4))
  ultimately show "stream_ok dec c q ts (cs @ concat ds)" by (simp add: stream_ok_def)
  show "all_ids q = all_ids p" "thinking_done q" by (simp_all add: safe(4))
  show "find_in OPEN_TAG vis = None \<Longrightarrow> find_in USAGE_OPEN vis = None \<Longrightarrow> length vis \<le> length (cs @ concat ds) + 10"
    using safe(5) sent by simp
qed

lemma stream_ok_content:
  assumes ok: "stream_ok dec c p ts cs" and drain: "drain_content dec p = (ds, q)"
  defines "vis \<equiv> visible_text c (raw_text dec c (all_ids p))"
  shows "stream_ok dec c q ts (cs @ concat ds)" and "all_ids q = all_ids p"
    and "thinking_done q \<Longrightarrow> \<not> tool_call_started p \<Longrightarrow> find_in OPEN_TAG vis = None \<Longrightarrow>
      find_in USAGE_OPEN vis = None \<Longrightarrow> length vis \<le> length (cs @ concat ds) + 10"
proof -
  let ?r = "raw_text dec c (all_ids p)"
  have c: "thinking_capable p = c" using ok by (simp add: stream_ok_def stream_sent_def)
  note raw = stream_ok_raw [OF ok] and okd = stream_ok_decoded [OF ok]
  consider (frozen) "tool_call_started p" "ds = []" "q = p" | (waiting) "ds = []" "q = decoded dec p" "\<not> thinking_done p"
    | (run) "settled c ?r" "drain_visible vis ((decoded dec p)\<lparr>thinking_done := True\<rparr>) = (ds, q)"
  proof (cases "tool_call_started p")
    case True
    show ?thesis by (rule that(1)) (use drain True in \<open>simp_all add: drain_content_def\<close>)
  next
    case False
    show ?thesis
    proof (cases "thinking_done p")
      case True
      have "(decoded dec p)\<lparr>thinking_done := True\<rparr> = decoded dec p" using True by (cases p) simp
      moreover have "drain_visible vis (decoded dec p) = (ds, q)"
        using drain False raw c True by (simp add: drain_content_def vis_def)
      moreover have "settled c ?r" using ok True by (simp add: stream_ok_def stream_sent_def)
      ultimately show ?thesis using that(3) by simp
    next
      case undone: False
      show ?thesis
      proof (cases "reasoning_span c False ?r")
        case Pending
        show ?thesis by (rule that(2)) (use Pending drain False undone raw c in \<open>simp_all add: drain_content_def\<close>)
      next
        case (Span o')
        have settled: "settled c ?r"
          by (rule reasoning_span_settled) (use Span in \<open>simp_all add: settled_raw_text\<close>)
        show ?thesis
        proof (cases "o' = None \<or> (\<exists>s e. o' = Some (s, e, True))")
          case True
          then have "drain_visible vis ((decoded dec p)\<lparr>thinking_done := True\<rparr>) = (ds, q)"
            using drain False undone raw c Span by (auto simp: drain_content_def vis_def)
          then show ?thesis using that(3) settled by simp
        next
          case open_span: False
          then obtain s e where o': "o' = Some (s, e, False)" by (cases o') auto
          show ?thesis by (rule that(2)) (use o' Span drain False undone raw c in \<open>simp_all add: drain_content_def\<close>)
        qed
      qed
    qed
  qed
  then have "stream_ok dec c q ts (cs @ concat ds) \<and> all_ids q = all_ids p \<and>
    (thinking_done q \<and> \<not> tool_call_started p \<and> find_in OPEN_TAG vis = None \<and> find_in USAGE_OPEN vis = None \<longrightarrow>
      length vis \<le> length (cs @ concat ds) + 10)"
  proof cases
    case frozen
    then show ?thesis using ok by simp
  next
    case waiting
    then show ?thesis using okd by simp
  next
    case run
    have ids: "all_ids (decoded dec p) = all_ids p" by simp
    note V = stream_ok_visible [OF okd, unfolded ids, OF run(1) run(2) [unfolded vis_def], folded vis_def]
    show ?thesis by (intro conjI impI V(1,2)) (elim conjE, rule V(4))
  qed
  then show "stream_ok dec c q ts (cs @ concat ds)" and "all_ids q = all_ids p"
    and "thinking_done q \<Longrightarrow> \<not> tool_call_started p \<Longrightarrow> find_in OPEN_TAG vis = None \<Longrightarrow>
      find_in USAGE_OPEN vis = None \<Longrightarrow> length vis \<le> length (cs @ concat ds) + 10"
    by blast+
qed

lemma stream_ok_tools:
  assumes ok: "stream_ok dec c p ts cs" and drain: "drain_tool_deltas dec fresh dumps parser p = (ev, q)"
  shows "stream_ok dec c q ts cs" and "all_ids q = all_ids p"
proof -
  have "q = p \<or> stream_view (decoded dec p) = stream_view q"
  proof (cases "tool_call_started p")
    case True
    then have "tool_loop fresh dumps parser (visible_text (thinking_capable p) (raw_text dec c (all_ids p))) 0 0
        (decoded dec p) = (ev, q)"
      using drain stream_ok_raw [OF ok] by (simp add: drain_tool_deltas_def)
    then show ?thesis using stream_view_tool_loop by (metis snd_conv)
  qed (use drain in \<open>simp add: drain_tool_deltas_def\<close>)
  then show "stream_ok dec c q ts cs" "all_ids q = all_ids p"
    using ok stream_ok_view [OF _ stream_ok_decoded [OF ok]] by (auto simp: stream_view_def)
qed

lemma stream_reach_ok:
  assumes "stream_reach dec fresh dumps parser c t" and "decodes_growing dec c (all_ids (stream t))"
  shows "stream_ok dec c (stream t) (sent_thinking t) (sent_content t)"
  using assms
proof (induction rule: stream_reach.induct)
  case start
  then show ?case by (simp add: stream_ok_new)
next
  case (tokens t ts)
  then have g: "decodes_growing dec c (all_ids (stream t) @ ts)" by (simp add: add_tokens_def)
  then show ?case using tokens.IH stream_ok_tokens decodes_growing_prefix by simp
next
  case (internal t ts)
  then have g: "decodes_growing dec c (all_ids (stream t) @ ts)" by (simp add: add_internal_tokens_def Let_def split: if_splits)
  have "stream_ok dec c (add_tokens ts (stream t)) (sent_thinking t) (sent_content t)"
    using internal.IH g stream_ok_tokens decodes_growing_prefix by simp
  then show ?case by (cases "ts = []") (simp_all add: add_internal_tokens_add)
next
  case (query t raw p)
  show ?case
  proof (cases "length (all_ids (stream t)) = last_decode_len (stream t)")
    case True
    then have "p = stream t" using query.hyps by (simp add: get_raw_def)
    then show ?thesis using query by simp
  next
    case False
    then have "all_ids p = all_ids (stream t)" using query.hyps by (auto simp: get_raw_def Let_def)
    then have ok: "stream_ok dec c (stream t) (sent_thinking t) (sent_content t)" using query by simp
    show ?thesis using query.hyps(2) stream_ok_raw [OF ok] stream_ok_decoded [OF ok] by auto
  qed
next
  case (thinking t ds p)
  have "all_ids p = all_ids (stream t)"
    using thinking.hyps(2) by (auto simp: drain_thinking_def get_raw_def Let_def split: if_splits span_view.splits option.splits prod.splits)
  then have ok: "stream_ok dec c (stream t) (sent_thinking t) (sent_content t)" using thinking by simp
  show ?case using stream_ok_thinking(1) [OF ok thinking.hyps(2)] by simp
next
  case (content t ds p)
  have "all_ids p = all_ids (stream t)"
    using content.hyps(2) by (auto simp: drain_content_def drain_visible_def emit_content_def get_raw_def Let_def
        split: if_splits span_view.splits option.splits prod.splits)
  then have ok: "stream_ok dec c (stream t) (sent_thinking t) (sent_content t)" using content by simp
  show ?case using stream_ok_content(1) [OF ok content.hyps(2)] by simp
next
  case (tools t ev p)
  have "all_ids p = all_ids (stream t)"
  proof (cases "tool_call_started (stream t)")
    case True
    then obtain raw q where q: "get_raw dec (stream t) = (raw, q)" "all_ids q = all_ids (stream t)"
      "tool_loop fresh dumps parser (visible_text (thinking_capable (stream t)) raw) 0 0 q = (ev, p)"
      using tools.hyps(2) by (auto simp: drain_tool_deltas_def get_raw_def Let_def split: if_splits)
    then show ?thesis using stream_view_tool_loop [of fresh dumps parser _ 0 0 q] by (metis fst_conv snd_conv stream_view_def)
  qed (use tools.hyps(2) in \<open>simp add: drain_tool_deltas_def\<close>)
  then have ok: "stream_ok dec c (stream t) (sent_thinking t) (sent_content t)" using tools by simp
  show ?case using stream_ok_tools(1) [OF ok tools.hyps(2)] by simp
qed

section \<open>Streamed and whole text agree\<close>

lemma fst_get_raw:
  "stream_ok dec c p ts cs \<Longrightarrow> fst (get_raw dec p) = raw_text dec c (all_ids p)"
  using stream_ok_raw by simp

lemma stream_ok_capable: "stream_ok dec c p ts cs \<Longrightarrow> thinking_capable p = c"
  by (simp add: stream_ok_def stream_sent_def)

lemma stream_ok_sent:
  assumes "stream_ok dec c p ts cs"
  shows "prefix cs (visible_text c (raw_text dec c (all_ids p)))"
    and "before_calls (length cs) (visible_text c (raw_text dec c (all_ids p)))"
    and "prefix ts (reasoning_body (raw_text dec c (all_ids p)))"
proof -
  have inv: "stream_sent dec c p ts cs" using assms by (simp add: stream_ok_def)
  then show "prefix cs (visible_text c (raw_text dec c (all_ids p)))"
    by (cases "thinking_done p") (simp_all add: stream_sent_def)
  show "before_calls (length cs) (visible_text c (raw_text dec c (all_ids p)))"
    using inv by (simp add: stream_sent_def)
  show "prefix ts (reasoning_body (raw_text dec c (all_ids p)))"
    using inv by (simp add: stream_sent_def)
qed

lemma no_usage_artifacts:
  assumes "find_in USAGE_OPEN xs = None"
  shows "strip_usage_artifacts xs = xs"
  using assms by (simp add: strip_usage_artifacts_def strip_unclosed_usage_def strip_usage_blocks.simps [of xs])

lemma content_text_eq:
  assumes "stream_ok dec c p ts cs"
  shows "fst (content_text dec p) = strip_usage_artifacts (visible_text c (raw_text dec c (all_ids p)))"
  using stream_ok_raw [OF assms] stream_ok_capable [OF assms] by (simp add: content_text_def)

text \<open>
  C27: content already streamed never has to be taken back.  Under every interleaving of token batches,
  drains and queries, the content sent so far is a prefix of the visible text the tokens decode to now,
  and it ends before the first tool call in it; so nothing of the reasoning span and no tool-call markup
  is ever sent as content, also when a marker arrives split over batches.
\<close>

theorem streamed_content_is_final:
  assumes "stream_reach dec fresh dumps parser capable t" and "decodes_growing dec capable (all_ids (stream t))"
  shows "prefix (sent_content t) (visible_text capable (fst (get_raw dec (stream t)))) \<and>
    (\<forall>i. find_in OPEN_TAG (visible_text capable (fst (get_raw dec (stream t)))) = Some i \<longrightarrow> length (sent_content t) \<le> i)"
proof -
  have ok: "stream_ok dec capable (stream t) (sent_thinking t) (sent_content t)"
    using assms by (rule stream_reach_ok)
  show ?thesis
    unfolding fst_get_raw [OF ok]
    using stream_ok_sent(1,2) [OF ok] before_callsD prefix_order.refl by blast
qed

lemma identity_decoder_grows: "decodes_growing (\<lambda>ids. ids) False ids"
proof -
  have raw: "raw_text (\<lambda>ids. ids) False ids = drop_replacement ids" for ids
    by (simp add: raw_text_def decode_ids_def drop_replacement_def)
  have "prefix (drop_replacement (take n ids)) (drop_replacement (take m ids))" if "n \<le> m" for n m
  proof -
    have "take m ids = take n ids @ take (m - n) (drop n ids)" using that by (metis le_add_diff_inverse take_add)
    then show ?thesis by (simp add: drop_replacement_def)
  qed
  then show ?thesis by (simp add: decodes_growing_def raw)
qed

definition fed :: "str \<Rightarrow> stream_trace" where
  "fed xs = \<lparr>stream = add_tokens xs (new_stream False), sent_thinking = [], sent_content = [], sent_tools = []\<rparr>"

lemma fed_reach: "stream_reach dec fresh dumps parser False (fed xs)"
  using stream_reach.tokens [OF stream_reach.start] by (simp add: fed_def)

text \<open>The witnesses' tokenizer: token ids are code points.\<close>

definition fed_stream :: "str \<Rightarrow> stream_proc" where
  "fed_stream xs = (stream (fed xs))\<lparr>cached_raw := xs, last_decode_len := length xs\<rparr>"

lemma fed_get_raw:
  assumes "xs \<noteq> []" and "65533 \<notin> set xs"
  shows "get_raw (\<lambda>ids. ids) (stream (fed xs)) = (xs, fed_stream xs)"
proof -
  have "drop_replacement xs = xs" using assms(2) by (auto simp: drop_replacement_def filter_id_conv)
  then show ?thesis using assms(1)
    by (simp add: get_raw_def fed_def fed_stream_def add_tokens_def new_stream_def decode_ids_def Let_def)
qed

lemma fed_drain_content:
  assumes "xs \<noteq> []" and "65533 \<notin> set xs" and "reasoning_span False False xs = Span None"
  shows "drain_content (\<lambda>ids. ids) (stream (fed xs)) =
    drain_visible (visible_text False xs) ((fed_stream xs)\<lparr>thinking_done := True\<rparr>)"
  using assms(3) fed_get_raw [OF assms(1,2)]
  by (simp add: drain_content_def fed_def fed_stream_def add_tokens_def new_stream_def)

theorem streamed_content_is_final_witness:
  "\<exists>t. stream_reach (\<lambda>ids. ids) (\<lambda>_. []) (\<lambda>_. []) (poolside_v1 (\<lambda>v. v)) False t \<and>
     sent_content t = lit ''Hi '' \<and> all_ids (stream t) = lit ''Hi <tool_call>f'' \<and>
     prefix (lit ''Hi '') (visible_text False (fst (get_raw (\<lambda>ids. ids) (stream t))))"
proof -
  let ?R = "stream_reach (\<lambda>ids. ids) (\<lambda>_. []) (\<lambda>_. []) (poolside_v1 (\<lambda>v. v)) False"
  let ?t = "fed (lit ''Hi <tool_'')" and ?d = "drain_content (\<lambda>ids. ids)"
  define t1 where "t1 = ?t\<lparr>stream := snd (?d (stream ?t)), sent_content := sent_content ?t @ concat (fst (?d (stream ?t)))\<rparr>"
  define t2 where "t2 = t1\<lparr>stream := add_tokens (lit ''call>f'') (stream t1)\<rparr>"
  have "?R t1" unfolding t1_def by (rule stream_reach.content [OF fed_reach surjective_pairing])
  then have r: "?R t2" unfolding t2_def by (rule stream_reach.tokens)
  have run: "?d (stream ?t) = drain_visible (visible_text False (lit ''Hi <tool_'')) ((fed_stream (lit ''Hi <tool_''))\<lparr>thinking_done := True\<rparr>)"
    by (rule fed_drain_content) (simp add: lit_def, simp add: lit_def, code_simp)
  have "concat (fst (?d (stream ?t))) = lit ''Hi ''" unfolding run by code_simp
  then have sent: "sent_content t2 = lit ''Hi ''" by (simp add: t2_def t1_def fed_def)
  have "all_ids (snd (?d (stream ?t))) = lit ''Hi <tool_''" unfolding run by code_simp
  then have ids: "all_ids (stream t2) = lit ''Hi <tool_call>f''" by (simp add: t2_def t1_def add_tokens_def lit_def)
  have "prefix (sent_content t2) (visible_text False (fst (get_raw (\<lambda>ids. ids) (stream t2))))"
    using streamed_content_is_final [OF r identity_decoder_grows] by blast
  with r sent ids show ?thesis by metis
qed

text \<open>
  C28: content is delivered.  Right after a content drain that finds the reasoning phase over and neither a
  tool call nor a usage block in the text, all of the visible text that the non-streaming path would return
  has been sent, except a tail of at most ten characters that may still turn into a marker.
\<close>

theorem streamed_content_is_delivered:
  assumes "stream_reach dec fresh dumps parser capable t" and "decodes_growing dec capable (all_ids (stream t))"
    and "drain_content dec (stream t) = (ds, p)" and "thinking_done p" and "\<not> tool_call_started (stream t)"
    and "find_in OPEN_TAG (visible_text capable (fst (get_raw dec (stream t)))) = None"
    and "find_in USAGE_OPEN (visible_text capable (fst (get_raw dec (stream t)))) = None"
  shows "\<exists>held. fst (content_text dec p) = sent_content t @ concat ds @ held \<and> length held \<le> 10"
proof -
  have ok: "stream_ok dec capable (stream t) (sent_thinking t) (sent_content t)"
    using assms(1,2) by (rule stream_reach_ok)
  let ?vis = "visible_text capable (raw_text dec capable (all_ids (stream t)))"
  have tags: "find_in OPEN_TAG ?vis = None" "find_in USAGE_OPEN ?vis = None"
    using assms(6,7) unfolding fst_get_raw [OF ok] .
  note D = stream_ok_content [OF ok assms(3)]
  have whole: "fst (content_text dec p) = ?vis"
    using content_text_eq [OF D(1)] no_usage_artifacts [OF tags(2)] D(2) by simp
  obtain held where held: "?vis = (sent_content t @ concat ds) @ held"
    using stream_ok_sent(1) [OF D(1)] D(2) by (auto simp: prefix_def)
  have "length ?vis \<le> length (sent_content t @ concat ds) + 10" by (rule D(3) [OF assms(4,5) tags])
  then have "length held \<le> 10" using held by simp
  then show ?thesis using whole held by auto
qed

theorem streamed_content_is_delivered_witness:
  "\<exists>p ds held. drain_content (\<lambda>ids. ids) (stream (fed (lit ''a < b <''))) = (ds, p) \<and>
     fst (content_text (\<lambda>ids. ids) p) = concat ds @ held \<and> length held \<le> 10"
proof -
  let ?t = "fed (lit ''a < b <'')" and ?d = "drain_content (\<lambda>ids. ids)"
  have "\<exists>held. fst (content_text (\<lambda>ids. ids) (snd (?d (stream ?t)))) = sent_content ?t @ concat (fst (?d (stream ?t))) @ held \<and>
      length held \<le> 10"
  proof (rule streamed_content_is_delivered [OF fed_reach identity_decoder_grows surjective_pairing])
    have raw: "get_raw (\<lambda>ids. ids) (stream ?t) = (lit ''a < b <'', fed_stream (lit ''a < b <''))"
      by (rule fed_get_raw) (simp_all add: lit_def)
    have run: "?d (stream ?t) = drain_visible (visible_text False (lit ''a < b <'')) ((fed_stream (lit ''a < b <''))\<lparr>thinking_done := True\<rparr>)"
      by (rule fed_drain_content) (simp add: lit_def, simp add: lit_def, code_simp)
    show "thinking_done (snd (?d (stream ?t)))" unfolding run by code_simp
    show "\<not> tool_call_started (stream ?t)" by code_simp
    show "find_in OPEN_TAG (visible_text False (fst (get_raw (\<lambda>ids. ids) (stream ?t)))) = None" unfolding raw by code_simp
    show "find_in USAGE_OPEN (visible_text False (fst (get_raw (\<lambda>ids. ids) (stream ?t)))) = None" unfolding raw by code_simp
  qed
  then show ?thesis by (metis append_Nil fed_def stream_trace.select_convs(3) surjective_pairing)
qed

text \<open>
  reasoning already streamed is final as well.  The reasoning text sent so far is always a prefix of
  the reasoning body the tokens decode to now, which never contains the closing tag; and once the span has
  closed, a drain of an unfinished reasoning phase completes it: what was sent, stripped, is exactly what
  the non-streaming \<^verbatim>\<open>reasoning_content\<close> returns.
\<close>

theorem streamed_reasoning_is_final:
  assumes "stream_reach dec fresh dumps parser capable t" and "decodes_growing dec capable (all_ids (stream t))"
  shows "prefix (sent_thinking t) (reasoning_body (fst (get_raw dec (stream t)))) \<and>
    (\<forall>ds p s e. drain_thinking dec (stream t) = (ds, p) \<and> \<not> thinking_done (stream t) \<and> internal_token_ranges p = [] \<and>
       find_reasoning_span (fst (get_raw dec (stream t))) = Some (s, e, True) \<longrightarrow>
       fst (reasoning_content dec p) = (let x = strip (sent_thinking t @ concat ds) in if x = [] then None else Some x))"
proof -
  have ok: "stream_ok dec capable (stream t) (sent_thinking t) (sent_content t)"
    using assms by (rule stream_reach_ok)
  have "fst (reasoning_content dec p) = (let x = strip (sent_thinking t @ concat ds) in if x = [] then None else Some x)"
    if d: "drain_thinking dec (stream t) = (ds, p)" "\<not> thinking_done (stream t)" "internal_token_ranges p = []"
      "find_reasoning_span (raw_text dec capable (all_ids (stream t))) = Some (s, e, True)" for ds p s e
  proof -
    note D = stream_ok_thinking [OF ok d(1)]
    have body: "sent_thinking t @ concat ds = reasoning_body (raw_text dec capable (all_ids (stream t)))"
      by (rule D(3) [OF d(2,4)])
    show ?thesis
      using stream_ok_raw [OF D(1)] stream_ok_capable [OF D(1)] d(3,4) D(2)
      by (simp add: reasoning_content_def reasoning_span_def body reasoning_body_def)
  qed
  then show ?thesis
    unfolding fst_get_raw [OF ok] using stream_ok_sent(3) [OF ok] by blast
qed

lemma fed_drain_thinking:
  assumes "xs \<noteq> []" and "65533 \<notin> set xs" and "reasoning_span False False xs = Span (Some (s, e, True))"
    and "drop s (take e xs) \<noteq> []"
  shows "drain_thinking (\<lambda>ids. ids) (stream (fed xs)) =
    ([drop s (take e xs)], (fed_stream xs)\<lparr>thinking_emitted_len := length (drop s (take e xs))\<rparr>)"
proof -
  have "get_raw (\<lambda>ids. ids) (stream (fed xs)) = (xs, fed_stream xs)" using assms(1,2) by (rule fed_get_raw)
  moreover have "\<not> thinking_done (stream (fed xs))" "\<not> thinking_capable (fed_stream xs)" "thinking_emitted_len (fed_stream xs) = 0"
    by (simp_all add: fed_def fed_stream_def add_tokens_def new_stream_def)
  ultimately show ?thesis using assms(3,4) by (simp add: drain_thinking_def Let_def)
qed

theorem streamed_reasoning_is_final_witness:
  "drain_thinking (\<lambda>ids. ids) (stream (fed (lit ''<think>why </think>x''))) =
     ([lit ''why ''], (fed_stream (lit ''<think>why </think>x''))\<lparr>thinking_emitted_len := 4\<rparr>) \<and>
   fst (reasoning_content (\<lambda>ids. ids) ((fed_stream (lit ''<think>why </think>x''))\<lparr>thinking_emitted_len := 4\<rparr>))
     = Some (lit ''why'')"
proof -
  let ?x = "lit ''<think>why </think>x''"
  let ?t = "fed ?x" and ?q = "(fed_stream ?x)\<lparr>thinking_emitted_len := 4\<rparr>"
  have plain: "?x \<noteq> []" "65533 \<notin> set ?x" by (simp_all add: lit_def)
  have span: "reasoning_span False False ?x = Span (Some (7, 11, True))" "find_reasoning_span ?x = Some (7, 11, True)"
    "drop 7 (take 11 ?x) = lit ''why ''" "lit ''why '' \<noteq> []" "length (lit ''why '') = 4" by code_simp+
  have run: "drain_thinking (\<lambda>ids. ids) (stream ?t) = ([lit ''why ''], ?q)"
    using fed_drain_thinking [OF plain span(1)] span(3-5) by simp
  have raw: "fst (get_raw (\<lambda>ids. ids) (stream ?t)) = ?x" using fed_get_raw [OF plain] by simp
  have pre: "\<not> thinking_done (stream ?t)" "internal_token_ranges ?q = []" "sent_thinking ?t = []"
    by (simp_all add: fed_def fed_stream_def add_tokens_def new_stream_def)
  have reach: "stream_reach (\<lambda>ids. ids) (\<lambda>_. []) (\<lambda>_. []) (poolside_v1 (\<lambda>v. v)) False ?t" by (rule fed_reach)
  note all = streamed_reasoning_is_final [OF reach identity_decoder_grows, THEN conjunct2]
  have "drain_thinking (\<lambda>ids. ids) (stream ?t) = ([lit ''why ''], ?q) \<and> \<not> thinking_done (stream ?t) \<and>
      internal_token_ranges ?q = [] \<and> find_reasoning_span (fst (get_raw (\<lambda>ids. ids) (stream ?t))) = Some (7, 11, True)"
    unfolding raw by (intro conjI run pre(1,2) span(2))
  then have "fst (reasoning_content (\<lambda>ids. ids) ?q) =
      (let x = strip (sent_thinking ?t @ concat [lit ''why '']) in if x = [] then None else Some x)"
    by (rule all [THEN spec [of _ "[lit ''why '']"], THEN spec [of _ ?q], THEN spec [of _ 7], THEN spec [of _ 11], THEN mp])
  moreover have "strip (lit ''why '') = lit ''why''" "lit ''why'' \<noteq> []"
    by (simp_all add: strip_def is_space_def lit_def)
  ultimately show ?thesis using run pre(3) by simp
qed

end
