(* ===== verification/Tool_Stream.thy ===== *)
theory Tool_Stream
  imports Stream_Proc
begin

text \<open>
  The tool-call events of the stream processor against the calls the whole text parses to.  The event
  loop is first rewritten over the blocks of the text; then every event sent so far is accounted for by a
  block, under any interleaving of operations.
\<close>

section \<open>The loop over blocks\<close>

fun tool_events ::
    "(nat \<Rightarrow> str) \<Rightarrow> ((str \<times> 'v) list \<Rightarrow> str) \<Rightarrow> 'v tool_parser \<Rightarrow> nat \<Rightarrow> (str \<times> bool) list \<Rightarrow> stream_proc
      \<Rightarrow> tool_delta list \<times> stream_proc" where
  "tool_events fresh dumps parser i [] p = ([], p)"
| "tool_events fresh dumps parser i (b # bs) p = (case find_name parser (fst b) (snd b) of
     None \<Rightarrow> ([], p)
   | Some nm \<Rightarrow>
       let (names, p1) = emit_name fresh i nm p;
           (args, p2) = emit_args dumps parser i (fst b) (snd b) p1;
           (rest, p3) = tool_events fresh dumps parser (i + 1) bs p2
       in (names @ args @ rest, p3))"

lemma tool_loop_events:
  "tool_loop fresh dumps parser xs start i p = tool_events fresh dumps parser i (tool_blocks xs start) p"
proof (induction fresh dumps parser xs start i p rule: tool_loop.induct)
  case (1 fresh dumps parser xs start i p)
  show ?case
  proof (cases "find_from OPEN_TAG xs start")
    case None
    then show ?thesis by (simp add: tool_blocks_None tool_loop.simps [of fresh dumps parser xs])
  next
    case (Some s)
    let ?a = "s + length OPEN_TAG"
    show ?thesis
    proof (cases "find_from CLOSE_TAG xs ?a")
      case None
      show ?thesis
        unfolding tool_blocks_open [OF Some None]
        using Some None by (simp add: tool_loop.simps [of fresh dumps parser xs start] Let_def split: option.split prod.split)
    next
      case e: (Some e)
      let ?b = "drop ?a (take e xs)"
      show ?thesis
      proof (cases "find_name parser ?b True")
        case None
        then show ?thesis
          unfolding tool_blocks_closed [OF Some e]
          using Some e by (simp add: tool_loop.simps [of fresh dumps parser xs start] Let_def)
      next
        case nm: (Some nm)
        obtain names p1 where n: "emit_name fresh i nm p = (names, p1)" by (rule prod.exhaust)
        obtain args p2 where a: "emit_args dumps parser i ?b True p1 = (args, p2)" by (rule prod.exhaust)
        have "tool_loop fresh dumps parser xs (e + length CLOSE_TAG) (i + 1) p2 =
            tool_events fresh dumps parser (i + 1) (tool_blocks xs (e + length CLOSE_TAG)) p2"
          by (rule 1 [OF Some refl refl _ n [symmetric] refl _ refl e])
            (unfold e, simp_all add: nm [simplified] a [simplified])
        then show ?thesis
          unfolding tool_blocks_closed [OF Some e]
          using Some e nm n a by (simp add: tool_loop.simps [of fresh dumps parser xs start] Let_def)
      qed
    qed
  qed
qed

section \<open>Every event comes from a block\<close>

fun delta_key :: "tool_delta \<Rightarrow> bool \<times> nat" where
  "delta_key (NameDelta i _ _) = (True, i)"
| "delta_key (ArgsDelta i _) = (False, i)"

definition block_args :: "'v tool_parser \<Rightarrow> str \<Rightarrow> (str \<times> 'v) list" where
  "block_args parser interior = (case parse_block parser interior of Some c \<Rightarrow> call_args c | None \<Rightarrow> [])"

definition event_ok ::
    "((str \<times> 'v) list \<Rightarrow> str) \<Rightarrow> 'v tool_parser \<Rightarrow> (str \<times> bool) list \<Rightarrow> tool_delta \<Rightarrow> bool" where
  "event_ok dumps parser K ev = (case ev of
     NameDelta i n _ \<Rightarrow> i < length K \<and> find_name parser (fst (K ! i)) (snd (K ! i)) = Some n
   | ArgsDelta i d \<Rightarrow> i < length K \<and> snd (K ! i) \<and> d = dumps (block_args parser (fst (K ! i))))"

definition key_sent :: "stream_proc \<Rightarrow> bool \<times> nat \<Rightarrow> bool" where
  "key_sent p k = (if fst k then snd k \<in> tool_names_emitted p else snd k \<in> tool_args_emitted p)"

definition tools_ok ::
    "((str \<times> 'v) list \<Rightarrow> str) \<Rightarrow> 'v tool_parser \<Rightarrow> (str \<times> bool) list \<Rightarrow> stream_proc \<Rightarrow> tool_delta list \<Rightarrow> bool" where
  "tools_ok dumps parser K p sent \<longleftrightarrow>
     list_all (event_ok dumps parser K) sent \<and> (\<forall>ev \<in> set sent. key_sent p (delta_key ev)) \<and> distinct (map delta_key sent)"

lemma tools_ok_sent:
  assumes "tools_ok dumps parser K p sent" and "k \<in> set (map delta_key sent)"
  shows "key_sent p k"
proof -
  obtain ev where "ev \<in> set sent" "k = delta_key ev" using assms(2) by auto
  then show ?thesis using assms(1) by (simp add: tools_ok_def)
qed

lemma tools_ok_name:
  assumes "tools_ok dumps parser K p sent" and "i < length K"
    and "find_name parser (fst (K ! i)) (snd (K ! i)) = Some nm" and "emit_name fresh i nm p = (ev, q)"
  shows "tools_ok dumps parser K q (sent @ ev)"
proof (cases "i \<in> tool_names_emitted p")
  case True
  then show ?thesis using assms(1,4) by (simp add: emit_name_def)
next
  case False
  then obtain call_id where ev: "ev = [NameDelta i nm call_id]" and q: "tool_names_emitted q = insert i (tool_names_emitted p)"
    "tool_args_emitted q = tool_args_emitted p"
    using assms(4) by (auto simp: emit_name_def Let_def)
  have mono: "key_sent p k \<Longrightarrow> key_sent q k" for k by (simp add: key_sent_def q split: if_splits)
  have "(True, i) \<notin> set (map delta_key sent)"
    using tools_ok_sent [OF assms(1)] False by (fastforce simp: key_sent_def)
  then show ?thesis using assms(1-3) mono
    by (auto simp: tools_ok_def ev event_ok_def) (simp_all add: key_sent_def q)
qed

lemma tools_ok_args:
  assumes "tools_ok dumps parser K p sent" and "i < length K"
    and "emit_args dumps parser i (fst (K ! i)) (snd (K ! i)) p = (ev, q)"
  shows "tools_ok dumps parser K q (sent @ ev)"
proof (cases "snd (K ! i) \<and> i \<notin> tool_args_emitted p")
  case False
  then show ?thesis using assms(1,3) by (auto simp: emit_args_def)
next
  case True
  then have ev: "ev = [ArgsDelta i (dumps (block_args parser (fst (K ! i))))]"
    and q: "tool_args_emitted q = insert i (tool_args_emitted p)" "tool_names_emitted q = tool_names_emitted p"
    using assms(3) by (auto simp: emit_args_def block_args_def Let_def)
  have mono: "key_sent p k \<Longrightarrow> key_sent q k" for k by (simp add: key_sent_def q split: if_splits)
  have "(False, i) \<notin> set (map delta_key sent)"
    using tools_ok_sent [OF assms(1)] True by (fastforce simp: key_sent_def)
  then show ?thesis using assms(1,2) True mono
    by (auto simp: tools_ok_def ev event_ok_def) (simp_all add: key_sent_def q)
qed

lemma tools_ok_events:
  assumes "tools_ok dumps parser (pre @ known_blocks (find_name parser) bs) p sent"
    and "tool_events fresh dumps parser (length pre) bs p = (ev, q)"
  shows "tools_ok dumps parser (pre @ known_blocks (find_name parser) bs) q (sent @ ev)"
  using assms
proof (induction bs arbitrary: pre p sent ev)
  case Nil
  then show ?case by simp
next
  case (Cons b bs)
  show ?case
  proof (cases "find_name parser (fst b) (snd b)")
    case None
    then show ?thesis using Cons.prems by simp
  next
    case (Some nm)
    let ?K = "pre @ known_blocks (find_name parser) (b # bs)"
    have K: "?K = (pre @ [b]) @ known_blocks (find_name parser) bs" using Some by simp
    have at: "length pre < length ?K" "?K ! length pre = b" using Some by simp_all
    obtain names p1 where n: "emit_name fresh (length pre) nm p = (names, p1)" by (rule prod.exhaust)
    obtain args p2 where a: "emit_args dumps parser (length pre) (fst b) (snd b) p1 = (args, p2)" by (rule prod.exhaust)
    obtain rest p3 where r: "tool_events fresh dumps parser (length (pre @ [b])) bs p2 = (rest, p3)" by (rule prod.exhaust)
    have ev: "ev = names @ args @ rest" "q = p3" using Cons.prems(2) Some n a r by simp_all
    have t1: "tools_ok dumps parser ?K p1 (sent @ names)"
      by (rule tools_ok_name [OF Cons.prems(1) at(1) _ n]) (use Some at(2) in simp)
    have t2: "tools_ok dumps parser ?K p2 ((sent @ names) @ args)"
      by (rule tools_ok_args [OF t1 at(1)]) (use at(2) a in simp)
    show ?thesis using Cons.IH [OF t2 [unfolded K] r [folded ev(2)]] unfolding K ev(1) by simp
  qed
qed

section \<open>Over a history\<close>

abbreviation seen_text :: "(nat list \<Rightarrow> str) \<Rightarrow> bool \<Rightarrow> stream_proc \<Rightarrow> str" where
  "seen_text dec c p \<equiv> visible_text c (raw_text dec c (all_ids p))"

abbreviation seen_blocks :: "(nat list \<Rightarrow> str) \<Rightarrow> bool \<Rightarrow> 'v tool_parser \<Rightarrow> stream_proc \<Rightarrow> (str \<times> bool) list" where
  "seen_blocks dec c parser p \<equiv> known_blocks (find_name parser) (tool_blocks (seen_text dec c p) 0)"

lemma tools_ok_grow:
  assumes "name_parser (find_name parser)" and "prefix xs zs"
    and "tools_ok dumps parser (known_blocks (find_name parser) (tool_blocks xs 0)) p sent"
  shows "tools_ok dumps parser (known_blocks (find_name parser) (tool_blocks zs 0)) p sent"
proof -
  let ?K = "known_blocks (find_name parser) (tool_blocks xs 0)"
  let ?L = "known_blocks (find_name parser) (tool_blocks zs 0)"
  note G = name_parser.known_blocks_grow [OF assms(1,2)]
  have "event_ok dumps parser ?L ev" if "event_ok dumps parser ?K ev" for ev
  proof (cases ev)
    case (NameDelta i n call_id)
    then show ?thesis using that G [of i] by (simp add: event_ok_def)
  next
    case (ArgsDelta i d)
    then show ?thesis using that G [of i] by (simp add: event_ok_def)
  qed
  then show ?thesis using assms(3) by (simp add: tools_ok_def list_all_iff)
qed

text \<open>Everything but the tool drain leaves the emitted sets alone and never reopens the reasoning phase.\<close>

definition tool_state :: "stream_proc \<Rightarrow> nat set \<times> nat set" where
  "tool_state p = (tool_names_emitted p, tool_args_emitted p)"

lemma add_tokens_state [simp]:
  "tool_state (add_tokens ts p) = tool_state p" "tool_state (add_internal_tokens ts p) = tool_state p"
  "thinking_done (add_tokens ts p) = thinking_done p" "thinking_done (add_internal_tokens ts p) = thinking_done p"
  "all_ids (add_tokens ts p) = all_ids p @ ts" "all_ids (add_internal_tokens ts p) = all_ids p @ ts"
  by (simp_all add: tool_state_def add_tokens_def add_internal_tokens_def Let_def)

lemma get_raw_state:
  "get_raw dec p = (raw, q) \<Longrightarrow> tool_state q = tool_state p \<and> thinking_done q = thinking_done p \<and> all_ids q = all_ids p"
  by (auto simp: get_raw_def tool_state_def Let_def split: if_splits)

lemma emit_content_state [simp]:
  "tool_state (snd (emit_content safe p)) = tool_state p"
  "thinking_done (snd (emit_content safe p)) = thinking_done p"
  "all_ids (snd (emit_content safe p)) = all_ids p"
  by (simp_all add: emit_content_spec tool_state_def)

lemma drain_visible_state [simp]:
  "tool_state (snd (drain_visible xs p)) = tool_state p"
  "thinking_done (snd (drain_visible xs p)) = thinking_done p"
  "all_ids (snd (drain_visible xs p)) = all_ids p"
  by (simp_all add: drain_visible_def Let_def split: option.split) (simp_all add: tool_state_def)

lemma tools_ok_state: "tool_state p = tool_state q \<Longrightarrow> tools_ok dumps parser K p sent = tools_ok dumps parser K q sent"
  by (simp add: tools_ok_def key_sent_def tool_state_def)

lemma drain_thinking_state:
  assumes "drain_thinking dec p = (ds, q)"
  shows "tool_state q = tool_state p \<and> thinking_done q = thinking_done p \<and> all_ids q = all_ids p"
proof -
  obtain raw r where g: "get_raw dec p = (raw, r)" by (rule prod.exhaust)
  note R = get_raw_state [OF g]
  show ?thesis
    using assms R g
    by (auto simp: drain_thinking_def Let_def tool_state_def split: if_splits span_view.splits option.splits prod.splits)
qed

lemma drain_content_state:
  assumes "drain_content dec p = (ds, q)"
  shows "tool_state q = tool_state p \<and> (thinking_done p \<longrightarrow> thinking_done q) \<and> all_ids q = all_ids p"
proof (cases "tool_call_started p")
  case True
  then show ?thesis using assms by (simp add: drain_content_def)
next
  case False
  obtain raw r where g: "get_raw dec p = (raw, r)" by (rule prod.exhaust)
  note R = get_raw_state [OF g]
  let ?vis = "visible_text (thinking_capable r) raw"
  have reset: "tool_state (r\<lparr>thinking_done := True\<rparr>) = tool_state r" by (simp add: tool_state_def)
  have "q = snd (drain_visible ?vis r) \<or> q = snd (drain_visible ?vis (r\<lparr>thinking_done := True\<rparr>)) \<or> q = r"
    using assms False g
    by (auto simp: drain_content_def Let_def split: if_splits span_view.splits option.splits prod.splits)
  then show ?thesis using R reset by (elim disjE) simp_all
qed

lemma tools_ok_tokens:
  assumes np: "name_parser (find_name parser)" and g: "decodes_growing dec c (all_ids p @ ts)"
    and ok: "stream_ok dec c p thought said"
    and T: "sent = [] \<or> thinking_done p \<and> tools_ok dumps parser (seen_blocks dec c parser p) p sent"
  shows "sent = [] \<or> thinking_done p \<and> tools_ok dumps parser
    (known_blocks (find_name parser) (tool_blocks (visible_text c (raw_text dec c (all_ids p @ ts))) 0)) p sent"
proof (cases "sent = []")
  case False
  then have T: "thinking_done p" "tools_ok dumps parser (seen_blocks dec c parser p) p sent" using T by simp_all
  then have "settled c (raw_text dec c (all_ids p))" using ok by (simp add: stream_ok_def stream_sent_def)
  then have "prefix (seen_text dec c p) (visible_text c (raw_text dec c (all_ids p @ ts)))"
    using decodes_growing_step [OF g] by (rule visible_text_grows)
  from tools_ok_grow [OF np this T(2)] T(1) show ?thesis by simp
qed simp

lemma stream_reach_tools:
  assumes "stream_reach dec fresh dumps parser c t" and "decodes_growing dec c (all_ids (stream t))"
    and np: "name_parser (find_name parser)"
  shows "sent_tools t = [] \<or> thinking_done (stream t) \<and>
    tools_ok dumps parser (seen_blocks dec c parser (stream t)) (stream t) (sent_tools t)"
  using assms(1,2)
proof (induction rule: stream_reach.induct)
  case start
  then show ?case by simp
next
  case (tokens t ts)
  then have g: "decodes_growing dec c (all_ids (stream t) @ ts)" by simp
  have "stream_ok dec c (stream t) (sent_thinking t) (sent_content t)"
    using tokens.hyps decodes_growing_prefix [OF g] by (rule stream_reach_ok)
  from tools_ok_tokens [OF np g this tokens.IH [OF decodes_growing_prefix [OF g]]] show ?case
    by (simp add: tools_ok_state [of "add_tokens ts (stream t)" "stream t"])
next
  case (internal t ts)
  then have g: "decodes_growing dec c (all_ids (stream t) @ ts)" by simp
  have "stream_ok dec c (stream t) (sent_thinking t) (sent_content t)"
    using internal.hyps decodes_growing_prefix [OF g] by (rule stream_reach_ok)
  from tools_ok_tokens [OF np g this internal.IH [OF decodes_growing_prefix [OF g]]] show ?case
    by (simp add: tools_ok_state [of "add_internal_tokens ts (stream t)" "stream t"])
next
  case (query t raw p)
  note Q = get_raw_state [OF query.hyps(2)]
  then show ?case using query.IH query.prems by (simp add: tools_ok_state [of p "stream t"])
next
  case (thinking t ds p)
  note Q = drain_thinking_state [OF thinking.hyps(2)]
  then show ?case using thinking.IH thinking.prems by (simp add: tools_ok_state [of p "stream t"])
next
  case (content t ds p)
  note Q = drain_content_state [OF content.hyps(2)]
  then show ?case using content.IH content.prems by (auto simp: tools_ok_state [of p "stream t"])
next
  case (tools t ev p)
  have ids: "all_ids p = all_ids (stream t)" if "stream_view p = stream_view (stream t)" using that by (simp add: stream_view_def)
  show ?case
  proof (cases "tool_call_started (stream t)")
    case False
    then have "ev = []" "p = stream t" using tools.hyps(2) by (simp_all add: drain_tool_deltas_def)
    then show ?thesis using tools.IH tools.prems by simp
  next
    case True
    obtain raw q where g: "get_raw dec (stream t) = (raw, q)" by (rule prod.exhaust)
    note Q = get_raw_state [OF g]
    have run: "tool_events fresh dumps parser 0 (tool_blocks (visible_text (thinking_capable (stream t)) raw) 0) q = (ev, p)"
      using tools.hyps(2) True g by (simp add: drain_tool_deltas_def tool_loop_events)
    have "stream_view p = stream_view q"
      using stream_view_tool_loop [of fresh dumps parser "visible_text (thinking_capable (stream t)) raw" 0 0 q] run
      by (simp add: tool_loop_events)
    then have p: "all_ids p = all_ids (stream t)" "thinking_done p = thinking_done (stream t)"
      using Q by (simp_all add: stream_view_def)
    then have grow: "decodes_growing dec c (all_ids (stream t))" using tools.prems by simp
    have ok: "stream_ok dec c (stream t) (sent_thinking t) (sent_content t)"
      using tools.hyps(1) grow by (rule stream_reach_ok)
    then have over: "thinking_done (stream t)" using True by (auto simp: stream_ok_def stream_sent_def)
    have raw: "raw = raw_text dec c (all_ids (stream t))" "thinking_capable (stream t) = c"
      using stream_ok_raw [OF ok] stream_ok_capable [OF ok] g by simp_all
    let ?K = "seen_blocks dec c parser (stream t)"
    have "tools_ok dumps parser ?K (stream t) (sent_tools t)"
      using tools.IH [OF grow] by (auto simp: tools_ok_def)
    then have "tools_ok dumps parser ([] @ ?K) q (sent_tools t)" using Q by (simp add: tools_ok_state [of q "stream t"])
    then have "tools_ok dumps parser ([] @ ?K) p (sent_tools t @ ev)"
      by (rule tools_ok_events) (use run raw in simp)
    then show ?thesis using p over by simp
  qed
qed

section \<open>What a drain leaves unsent\<close>

text \<open>The emitted sets hold nothing that was not sent.\<close>

definition only_sent :: "stream_proc \<Rightarrow> tool_delta list \<Rightarrow> bool" where
  "only_sent p sent \<longleftrightarrow> (\<forall>i. (i \<in> tool_names_emitted p \<longrightarrow> (True, i) \<in> delta_key ` set sent) \<and>
     (i \<in> tool_args_emitted p \<longrightarrow> (False, i) \<in> delta_key ` set sent))"

lemma only_sent_state: "tool_state p = tool_state q \<Longrightarrow> only_sent p sent = only_sent q sent"
  by (simp add: only_sent_def tool_state_def)

lemma only_sent_name:
  "emit_name fresh i nm p = (ev, q) \<Longrightarrow> only_sent p sent \<Longrightarrow> only_sent q (sent @ ev) \<and> (True, i) \<in> delta_key ` set (sent @ ev)"
  by (auto simp: emit_name_def only_sent_def Let_def split: if_splits)

lemma only_sent_args:
  "emit_args dumps parser i xs closed p = (ev, q) \<Longrightarrow> only_sent p sent \<Longrightarrow>
     only_sent q (sent @ ev) \<and> (closed \<longrightarrow> (False, i) \<in> delta_key ` set (sent @ ev))"
  by (auto simp: emit_args_def only_sent_def Let_def split: if_splits)

lemma tool_events_complete:
  assumes "tool_events fresh dumps parser n bs p = (ev, q)" and "only_sent p sent"
  shows "only_sent q (sent @ ev) \<and> (\<forall>i < length (known_blocks (find_name parser) bs).
    (True, n + i) \<in> delta_key ` set (sent @ ev) \<and>
    (snd (known_blocks (find_name parser) bs ! i) \<longrightarrow> (False, n + i) \<in> delta_key ` set (sent @ ev)))"
  using assms
proof (induction bs arbitrary: n p q sent ev)
  case Nil
  then show ?case by simp
next
  case (Cons b bs)
  show ?case
  proof (cases "find_name parser (fst b) (snd b)")
    case None
    then show ?thesis using Cons.prems by simp
  next
    case (Some nm)
    obtain names p1 where n: "emit_name fresh n nm p = (names, p1)" by (rule prod.exhaust)
    obtain args p2 where a: "emit_args dumps parser n (fst b) (snd b) p1 = (args, p2)" by (rule prod.exhaust)
    obtain rest p3 where r: "tool_events fresh dumps parser (n + 1) bs p2 = (rest, p3)" by (rule prod.exhaust)
    have ev: "sent @ ev = ((sent @ names) @ args) @ rest" "q = p3" using Cons.prems(1) Some n a r by simp_all
    note N = only_sent_name [OF n Cons.prems(2)]
    note A = only_sent_args [OF a N [THEN conjunct1]]
    note IH = Cons.IH [OF r A [THEN conjunct1]]
    have here: "(True, n) \<in> delta_key ` set (sent @ ev)" "snd b \<longrightarrow> (False, n) \<in> delta_key ` set (sent @ ev)"
      using N A unfolding ev(1) by auto
    show ?thesis
    proof (intro conjI allI impI)
      show "only_sent q (sent @ ev)" using IH unfolding ev by simp
    next
      fix i assume i: "i < length (known_blocks (find_name parser) (b # bs))"
      show "(True, n + i) \<in> delta_key ` set (sent @ ev)"
        using i here(1) IH Some unfolding ev by (cases i) simp_all
      assume "snd (known_blocks (find_name parser) (b # bs) ! i)"
      then show "(False, n + i) \<in> delta_key ` set (sent @ ev)"
        using i here(2) IH Some unfolding ev by (cases i) simp_all
    qed
  qed
qed

lemma drain_tools_only_sent:
  assumes "drain_tool_deltas dec fresh dumps parser p = (ev, q)" and "only_sent p sent"
  shows "only_sent q (sent @ ev)"
proof (cases "tool_call_started p")
  case False
  then show ?thesis using assms by (simp add: drain_tool_deltas_def)
next
  case True
  obtain raw r where g: "get_raw dec p = (raw, r)" by (rule prod.exhaust)
  have "only_sent r sent" using assms(2) get_raw_state [OF g] by (simp add: only_sent_state [of r p])
  moreover have "tool_events fresh dumps parser 0 (tool_blocks (visible_text (thinking_capable p) raw) 0) r = (ev, q)"
    using assms(1) True g by (simp add: drain_tool_deltas_def tool_loop_events)
  ultimately show ?thesis using tool_events_complete by blast
qed

lemma stream_reach_only_sent:
  assumes "stream_reach dec fresh dumps parser c t"
  shows "only_sent (stream t) (sent_tools t)"
  using assms
proof (induction rule: stream_reach.induct)
  case start
  then show ?case by (simp add: only_sent_def new_stream_def)
next
  case (tokens t ts)
  then show ?case by (simp add: only_sent_state [of "add_tokens ts (stream t)" "stream t"])
next
  case (internal t ts)
  then show ?case by (simp add: only_sent_state [of "add_internal_tokens ts (stream t)" "stream t"])
next
  case (query t raw p)
  then show ?case using get_raw_state [OF query.hyps(2)] by (simp add: only_sent_state [of p "stream t"])
next
  case (thinking t ds p)
  then show ?case using drain_thinking_state [OF thinking.hyps(2)] by (simp add: only_sent_state [of p "stream t"])
next
  case (content t ds p)
  then show ?case using drain_content_state [OF content.hyps(2)] by (simp add: only_sent_state [of p "stream t"])
next
  case (tools t ev p)
  then show ?case using drain_tools_only_sent [OF tools.hyps(2)] by simp
qed

section \<open>Streamed calls are the parsed calls\<close>

text \<open>When every closed block parses, each call of the text has its closed block among the known ones.\<close>

lemma readable_calls_known:
  assumes "\<forall>b \<in> set (tool_blocks xs 0). snd b \<longrightarrow> poolside_parse val (fst b) \<noteq> None"
    and "i < length (List.map_filter (closed_parse (poolside_parse val)) (tool_blocks xs 0))"
  shows "i < length (known_blocks poolside_find_name (tool_blocks xs 0)) \<and>
    snd (known_blocks poolside_find_name (tool_blocks xs 0) ! i)"
proof -
  let ?bs = "tool_blocks xs 0"
  let ?K = "known_blocks poolside_find_name ?bs"
  let ?calls = "List.map_filter (closed_parse (poolside_parse val)) ?bs"
  have named: "poolside_find_name (fst b) (snd b) \<noteq> None" if b: "b \<in> set ?bs" "snd b" for b
  proof -
    obtain c where "poolside_parse val (fst b) = Some c" using assms(1) b by auto
    then have "poolside_find_name (fst b) True = Some (call_name c)" using poolside_named by blast
    then show ?thesis using b(2) by simp
  qed
  have "i < length ?K"
  proof (rule ccontr)
    assume none: "\<not> i < length ?K"
    have "length ?calls \<le> length ?K"
    proof (cases "length ?K < length ?bs")
      case True
      let ?b = "?bs ! length ?K"
      have "poolside_find_name (fst ?b) (snd ?b) = None"
        using nth_length_takeWhile [OF True [unfolded known_blocks_def]] by (simp add: known_blocks_def)
      then have opened: "\<not> snd ?b" using named [OF nth_mem [OF True]] by blast
      then have "\<not> Suc (length ?K) < length ?bs" using tool_blocks_open_last by blast
      then have "?bs = ?K @ [?b]"
        using True takeWhile_eq_take [of "\<lambda>b. poolside_find_name (fst b) (snd b) \<noteq> None" ?bs]
          id_take_nth_drop [OF True] by (simp add: known_blocks_def)
      moreover have "length (List.map_filter (closed_parse (poolside_parse val)) (?K @ [?b])) \<le> length ?K"
        using opened by (simp add: List.map_filter_def closed_parse_def)
      ultimately show ?thesis by metis
    next
      case False
      have "length ?calls \<le> length ?bs" by (simp add: List.map_filter_def)
      then show ?thesis using False by simp
    qed
    then show False using assms(2) none by simp
  qed
  moreover from poolside.known_call(2) [OF this, of val] have "snd (?K ! i)" using assms(2) by blast
  ultimately show ?thesis by blast
qed

lemma event_of_call:
  assumes "event_ok dumps (poolside_v1 val) (known_blocks poolside_find_name (tool_blocks xs 0)) ev"
  defines "calls \<equiv> List.map_filter (closed_parse (poolside_parse val)) (tool_blocks xs 0)"
  shows "case ev of
      NameDelta i n _ \<Rightarrow> i \<le> length calls \<and> (i < length calls \<longrightarrow> n = call_name (calls ! i))
    | ArgsDelta i d \<Rightarrow> i < length calls \<and> d = dumps (call_args (calls ! i))"
proof -
  let ?K = "known_blocks poolside_find_name (tool_blocks xs 0)"
  show ?thesis
  proof (cases ev)
    case (NameDelta i n call_id)
    then have i: "i < length ?K" and n: "poolside_find_name (fst (?K ! i)) (snd (?K ! i)) = Some n"
      using assms(1) by (simp_all add: event_ok_def)
    note C = poolside.known_call [OF i, of val]
    show ?thesis
    proof (cases "snd (?K ! i)")
      case True
      then show ?thesis using C(1) n poolside_named [of "fst (?K ! i)" n val] NameDelta by (auto simp: calls_def)
    next
      case False
      then show ?thesis using C(2) NameDelta by (simp add: calls_def)
    qed
  next
    case (ArgsDelta i d)
    then have i: "i < length ?K" and d: "snd (?K ! i)" "d = dumps (block_args (poolside_v1 val) (fst (?K ! i)))"
      using assms(1) by (simp_all add: event_ok_def)
    then show ?thesis using poolside.known_call(1) [OF i d(1), of val] ArgsDelta
      by (simp add: block_args_def calls_def)
  qed
qed

lemma sent_call:
  assumes "(True, i) \<in> delta_key ` set sent" and "(False, i) \<in> delta_key ` set sent"
    and "\<forall>e \<in> set sent. case e of
        NameDelta i n _ \<Rightarrow> i \<le> length calls \<and> (i < length calls \<longrightarrow> n = call_name (calls ! i))
      | ArgsDelta i d \<Rightarrow> i < length calls \<and> d = dumps (call_args (calls ! i))"
    and "i < length calls"
  shows "(\<exists>call_id. NameDelta i (call_name (calls ! i)) call_id \<in> set sent) \<and>
    ArgsDelta i (dumps (call_args (calls ! i))) \<in> set sent"
proof
  obtain e where e: "(True, i) = delta_key e" "e \<in> set sent" using assms(1) by (rule imageE)
  then show "\<exists>call_id. NameDelta i (call_name (calls ! i)) call_id \<in> set sent"
    using assms(3) [THEN bspec, OF e(2)] assms(4) by (cases e) auto
  obtain e where e: "(False, i) = delta_key e" "e \<in> set sent" using assms(2) by (rule imageE)
  then show "ArgsDelta i (dumps (call_args (calls ! i))) \<in> set sent"
    using assms(3) [THEN bspec, OF e(2)] assms(4) by (cases e) auto
qed

text \<open>Draining once more stays within a history, over the same text.\<close>

lemma drained_history:
  assumes "stream_reach dec fresh dumps parser c t" and "decodes_growing dec c (all_ids (stream t))"
    and "name_parser (find_name parser)" and "drain_tool_deltas dec fresh dumps parser (stream t) = (ev, q)"
  shows "distinct (map delta_key (sent_tools t @ ev)) \<and>
    list_all (event_ok dumps parser (seen_blocks dec c parser (stream t))) (sent_tools t @ ev) \<and>
    (tool_call_started (stream t) \<longrightarrow> (\<forall>i < length (seen_blocks dec c parser (stream t)).
      (True, i) \<in> delta_key ` set (sent_tools t @ ev) \<and>
      (snd (seen_blocks dec c parser (stream t) ! i) \<longrightarrow> (False, i) \<in> delta_key ` set (sent_tools t @ ev))))"
proof (cases "tool_call_started (stream t)")
  case False
  then have "ev = []" using assms(4) by (simp add: drain_tool_deltas_def)
  then show ?thesis using stream_reach_tools [OF assms(1-3)] False by (auto simp: tools_ok_def)
next
  case True
  let ?t = "t\<lparr>stream := q, sent_tools := sent_tools t @ ev\<rparr>"
  have ok: "stream_ok dec c (stream t) (sent_thinking t) (sent_content t)"
    using assms(1,2) by (rule stream_reach_ok)
  obtain raw r where g: "get_raw dec (stream t) = (raw, r)" by (rule prod.exhaust)
  note R = get_raw_state [OF g]
  have raw: "raw = raw_text dec c (all_ids (stream t))" "thinking_capable (stream t) = c"
    using stream_ok_raw [OF ok] stream_ok_capable [OF ok] g by simp_all
  have run: "tool_events fresh dumps parser 0 (tool_blocks (seen_text dec c (stream t)) 0) r = (ev, q)"
    using assms(4) True g raw by (simp add: drain_tool_deltas_def tool_loop_events)
  have "stream_view q = stream_view r"
    using stream_view_tool_loop [of fresh dumps parser "seen_text dec c (stream t)" 0 0 r] run
    by (simp add: tool_loop_events)
  then have ids: "all_ids q = all_ids (stream t)" using R by (simp add: stream_view_def)
  have "stream_reach dec fresh dumps parser c ?t" by (rule stream_reach.tools [OF assms(1,4)])
  from stream_reach_tools [OF this _ assms(3)] assms(2) ids
  have sound: "distinct (map delta_key (sent_tools t @ ev))"
    "list_all (event_ok dumps parser (seen_blocks dec c parser (stream t))) (sent_tools t @ ev)"
    by (auto simp: tools_ok_def)
  have "only_sent r (sent_tools t)"
    using stream_reach_only_sent [OF assms(1)] R by (simp add: only_sent_state [of r "stream t"])
  from tool_events_complete [OF run this] sound show ?thesis by simp
qed

text \<open>
  C29: the tool calls a client assembles from the stream are those of the whole text.  For the
  \<^verbatim>\<open>poolside_v1\<close> shape, at any point of any interleaving, count as sent what the next drain returns too.
  No name and no argument text is sent twice; arguments are sent only for a call that
  \<^verbatim>\<open>parse_tool_calls\<close> finds at that index in the visible text, and are exactly its arguments; a name is
  that call's name, or belongs to the block still open behind all of them.  Once a call has started and
  every closed block so far parses, the name and the arguments of every call have been sent.  Without a
  usage block in the visible text these calls are the ones \<^verbatim>\<open>finalize\<close> returns.
\<close>

theorem streamed_calls_are_final:
  fixes val :: "str \<Rightarrow> 'v"
  assumes "stream_reach dec fresh dumps (poolside_v1 val) capable t"
    and "decodes_growing dec capable (all_ids (stream t))"
  shows "let vis = visible_text capable (fst (get_raw dec (stream t)));
             calls = snd (parse_tool_calls (parse_block (poolside_v1 val)) vis);
             sent = sent_tools t @ fst (drain_tool_deltas dec fresh dumps (poolside_v1 val) (stream t))
         in distinct (map delta_key sent) \<and>
            (\<forall>ev \<in> set sent. case ev of
                NameDelta i n _ \<Rightarrow> i \<le> length calls \<and> (i < length calls \<longrightarrow> n = call_name (calls ! i))
              | ArgsDelta i d \<Rightarrow> i < length calls \<and> d = dumps (call_args (calls ! i))) \<and>
            (tool_call_started (stream t) \<longrightarrow>
              (\<forall>(interior, closed) \<in> set (tool_blocks vis 0). closed \<longrightarrow> parse_block (poolside_v1 val) interior \<noteq> None) \<longrightarrow>
              (\<forall>i < length calls. (\<exists>call_id. NameDelta i (call_name (calls ! i)) call_id \<in> set sent) \<and>
                 ArgsDelta i (dumps (call_args (calls ! i))) \<in> set sent)) \<and>
            (find_in USAGE_OPEN vis = None \<longrightarrow>
              snd (fst (stream_finalize dec (poolside_v1 val) (stream t))) = calls)"
proof -
  let ?P = "poolside_v1 val"
  have ok: "stream_ok dec capable (stream t) (sent_thinking t) (sent_content t)"
    using assms(1,2) by (rule stream_reach_ok)
  let ?vis = "seen_text dec capable (stream t)"
  let ?bs = "tool_blocks ?vis 0"
  let ?K = "known_blocks poolside_find_name ?bs"
  let ?calls = "List.map_filter (closed_parse (poolside_parse val)) ?bs"
  let ?sent = "sent_tools t @ fst (drain_tool_deltas dec fresh dumps ?P (stream t))"
  have vis: "visible_text capable (fst (get_raw dec (stream t))) = ?vis" by (simp add: fst_get_raw [OF ok])
  have calls: "snd (parse_tool_calls (parse_block ?P) ?vis) = ?calls"
    by (simp add: parse_tool_calls_def Let_def scan_tool_calls_blocks)
  have final: "snd (fst (stream_finalize dec ?P (stream t))) = ?calls" if "find_in USAGE_OPEN ?vis = None"
    using stream_ok_raw [OF ok] stream_ok_capable [OF ok]
    by (simp add: stream_finalize_def content_text_def no_usage_artifacts [OF that] parse_tool_calls_def Let_def
        scan_tool_calls_blocks)
  obtain ev q where d: "drain_tool_deltas dec fresh dumps ?P (stream t) = (ev, q)" by (rule prod.exhaust)
  have np: "name_parser (find_name ?P)" using poolside.name_parser_axioms by simp
  have D: "distinct (map delta_key ?sent)" "\<forall>e \<in> set ?sent. event_ok dumps ?P ?K e"
    "tool_call_started (stream t) \<longrightarrow> (\<forall>i < length ?K. (True, i) \<in> delta_key ` set ?sent \<and>
      (snd (?K ! i) \<longrightarrow> (False, i) \<in> delta_key ` set ?sent))"
    using drained_history [OF assms np d] d by (simp_all add: list_all_iff)
  have each: "\<forall>e \<in> set ?sent. case e of
         NameDelta i n _ \<Rightarrow> i \<le> length ?calls \<and> (i < length ?calls \<longrightarrow> n = call_name (?calls ! i))
       | ArgsDelta i d \<Rightarrow> i < length ?calls \<and> d = dumps (call_args (?calls ! i))"
    using D(2) event_of_call by blast
  have all: "(\<exists>call_id. NameDelta i (call_name (?calls ! i)) call_id \<in> set ?sent) \<and>
      ArgsDelta i (dumps (call_args (?calls ! i))) \<in> set ?sent"
    if started: "tool_call_started (stream t)"
      and readable: "\<forall>b \<in> set ?bs. snd b \<longrightarrow> poolside_parse val (fst b) \<noteq> None" and i: "i < length ?calls" for i
  proof -
    have "i < length ?K \<and> snd (?K ! i)" by (rule readable_calls_known [OF readable i])
    then have "(True, i) \<in> delta_key ` set ?sent" "(False, i) \<in> delta_key ` set ?sent"
      using D(3) started by blast+
    then show ?thesis using each i by (rule sent_call)
  qed
  show ?thesis
    unfolding vis calls Let_def using D(1) each all final by (auto simp: case_prod_beta)
qed

lemma plain_call:
  "poolside_find_name (lit ''f'') True = Some (lit ''f'')"
  "poolside_parse val (lit ''f'') = Some \<lparr>call_name = lit ''f'', call_args = []\<rparr>"
  by (simp_all add: poolside_find_name_def poolside_parse_def poolside_name_def is_identifier_def is_letter_def
      strip_def is_space_def collect_args_def lit_def ARG_KEY_OPEN_def)

theorem streamed_calls_are_final_witness:
  "\<exists>t. stream_reach (\<lambda>ids. ids) (\<lambda>_. lit ''id'') (\<lambda>_. lit ''{}'') (poolside_v1 (\<lambda>v. v)) False t \<and>
     snd (fst (stream_finalize (\<lambda>ids. ids) (poolside_v1 (\<lambda>v. v)) (stream t))) = [\<lparr>call_name = lit ''f'', call_args = []\<rparr>] \<and>
     ArgsDelta 0 (lit ''{}'') \<in> set (fst (drain_tool_deltas (\<lambda>ids. ids) (\<lambda>_. lit ''id'') (\<lambda>_. lit ''{}'')
       (poolside_v1 (\<lambda>v. v)) (stream t)))"
proof -
  let ?x = "lit ''<tool_call>f</tool_call>''" and ?P = "poolside_v1 (\<lambda>v. v) :: str tool_parser"
  let ?R = "stream_reach (\<lambda>ids. ids) (\<lambda>_. lit ''id'') (\<lambda>_. lit ''{}'') ?P False"
  have tags: "find_in OPEN_TAG ?x = Some 0" "find_from OPEN_TAG ?x 0 = Some 0" "find_from CLOSE_TAG ?x (0 + length OPEN_TAG) = Some 12"
    "find_from OPEN_TAG ?x (12 + length CLOSE_TAG) = None" "drop (0 + length OPEN_TAG) (take 12 ?x) = lit ''f''"
    "find_in USAGE_OPEN ?x = None" "visible_text False ?x = ?x" "reasoning_span False False ?x = Span None"
    by code_simp+
  have plain: "?x \<noteq> []" "65533 \<notin> set ?x" by (simp_all add: lit_def)
  define p where "p = (fed_stream ?x)\<lparr>thinking_done := True, tool_call_started := True\<rparr>"
  have p: "all_ids p = ?x" "tool_call_started p" "last_decode_len p = length ?x" "cached_raw p = ?x"
    by (simp_all add: p_def fed_stream_def fed_def add_tokens_def new_stream_def)
  have content: "drain_content (\<lambda>ids. ids) (stream (fed ?x)) = ([], p)"
    unfolding fed_drain_content [OF plain tags(8)] tags(7)
    by (simp add: drain_visible_def find_tool_call_start_def tags(1) emit_content_def p_def fed_stream_def fed_def)
  define t where "t = (fed ?x)\<lparr>stream := p, sent_content := sent_content (fed ?x) @ concat []\<rparr>"
  have r: "?R t" unfolding t_def by (rule stream_reach.content [OF fed_reach content])
  have s: "stream t = p" "sent_tools t = []" by (simp_all add: t_def fed_def)
  have vis: "visible_text False (fst (get_raw (\<lambda>ids. ids) (stream t))) = ?x"
    by (simp add: s p get_raw_def tags(7))
  have blocks: "tool_blocks ?x 0 = [(lit ''f'', True)]"
    unfolding tool_blocks_closed [OF tags(2,3)] tool_blocks_None [OF tags(4)] tags(5) ..
  have calls: "snd (parse_tool_calls (parse_block ?P) ?x) = [\<lparr>call_name = lit ''f'', call_args = []\<rparr>]"
    by (simp add: parse_tool_calls_def Let_def scan_tool_calls_blocks blocks closed_parse_def plain_call)
  note final = streamed_calls_are_final [OF r identity_decoder_grows, unfolded vis calls Let_def]
  have "snd (fst (stream_finalize (\<lambda>ids. ids) ?P (stream t))) = [\<lparr>call_name = lit ''f'', call_args = []\<rparr>]"
    using final tags(6) by blast
  moreover have "ArgsDelta 0 (lit ''{}'') \<in> set (sent_tools t @ fst (drain_tool_deltas (\<lambda>ids. ids) (\<lambda>_. lit ''id'') (\<lambda>_. lit ''{}'') ?P (stream t)))"
  proof -
    have "\<forall>(interior, closed) \<in> set (tool_blocks ?x 0). closed \<longrightarrow> parse_block ?P interior \<noteq> None"
      unfolding blocks by (simp add: plain_call)
    moreover have "tool_call_started (stream t)" unfolding s(1) by (rule p(2))
    ultimately have "\<forall>i < length [\<lparr>call_name = lit ''f'', call_args = []\<rparr> :: str call]. ArgsDelta i (lit ''{}'') \<in>
        set (sent_tools t @ fst (drain_tool_deltas (\<lambda>ids. ids) (\<lambda>_. lit ''id'') (\<lambda>_. lit ''{}'') ?P (stream t)))"
      using final [THEN conjunct2, THEN conjunct2, THEN conjunct1] by blast
    from this [THEN spec [of _ 0], THEN mp] show ?thesis by simp
  qed
  ultimately show ?thesis using r s(2) by (intro exI [of _ t]) simp
qed

end
