(* ===== verification/Tool_Roundtrip.thy ===== *)
theory Tool_Roundtrip
  imports Tool_Calls
begin

text \<open>
  Rendering tool calls in the \<^verbatim>\<open>poolside_v1\<close> shape (the shape the doc comment of \<^verbatim>\<open>poolside_v1.py\<close>
  quotes from the chat template) and reading them back with \<^verbatim>\<open>parse_tool_calls\<close>.
\<close>

section \<open>The shape\<close>

definition render_arg :: "str \<times> str \<Rightarrow> str" where
  "render_arg kv = ARG_KEY_OPEN @ fst kv @ ARG_KEY_CLOSE @ ARG_VALUE_OPEN @ snd kv @ ARG_VALUE_CLOSE"

definition render_interior :: "str \<Rightarrow> (str \<times> str) list \<Rightarrow> str" where
  "render_interior nm args = nm @ concat (map render_arg args)"

definition render_call :: "str \<times> (str \<times> str) list \<Rightarrow> str" where
  "render_call c = OPEN_TAG @ render_interior (fst c) (snd c) @ CLOSE_TAG"

fun render_turn :: "((str \<times> (str \<times> str) list) \<times> str) list \<Rightarrow> str" where
  "render_turn [] = []"
| "render_turn ((c, after) # cs) = render_call c @ after @ render_turn cs"

text \<open>What can be said in this shape: no key holds a \<open><\<close>, no value its closing tag, no call the closing tag of calls.\<close>

definition arg_ok :: "str \<times> str \<Rightarrow> bool" where
  "arg_ok kv \<longleftrightarrow> 60 \<notin> set (fst kv) \<and> find_in ARG_VALUE_CLOSE (snd kv) = None"

definition call_ok :: "str \<times> (str \<times> str) list \<Rightarrow> bool" where
  "call_ok c \<longleftrightarrow> is_identifier (fst c) \<and> distinct (map (strip \<circ> fst) (snd c)) \<and> list_all arg_ok (snd c) \<and>
     find_in CLOSE_TAG (render_interior (fst c) (snd c)) = None"

section \<open>Delimiters\<close>

lemma markers_unbordered [simp]:
  "unbordered OPEN_TAG" "unbordered CLOSE_TAG" "unbordered ARG_KEY_OPEN" "unbordered ARG_VALUE_CLOSE"
  by (simp_all add: unbordered_def OPEN_TAG_def CLOSE_TAG_def ARG_KEY_OPEN_def ARG_VALUE_CLOSE_def lit_def)

lemma strip_id:
  assumes "\<forall>c \<in> set xs. \<not> is_space c"
  shows "strip xs = xs"
proof -
  have "dropWhile is_space ys = ys" if "\<forall>c \<in> set ys. \<not> is_space c" for ys
    using that by (cases ys) simp_all
  from this [of xs] this [of "rev xs"] show ?thesis using assms by (simp add: strip_def)
qed

lemma identifier_chars:
  assumes "is_identifier nm"
  shows "strip nm = nm" and "60 \<notin> set nm"
proof -
  obtain c cs where "nm = c # cs" "is_letter c" "list_all is_name_char cs"
    using assms by (auto simp: is_identifier_def split: list.splits)
  then have chars: "\<forall>d \<in> set nm. is_name_char d" by (auto simp: is_name_char_def list_all_iff)
  then have "\<forall>d \<in> set nm. \<not> is_space d"
    by (auto simp: is_name_char_def is_letter_def is_space_def)
  then show "strip nm = nm" by (rule strip_id)
  show "60 \<notin> set nm" using chars by (auto simp: is_name_char_def is_letter_def)
qed

lemma find_in_absent: "c \<notin> set xs \<Longrightarrow> c \<in> set m \<Longrightarrow> find_in m xs = None"
  unfolding find_in_None occurs_at_def by (metis in_set_dropD in_set_takeD)

section \<open>One call\<close>

lemma match_render_arg:
  assumes "arg_ok kv"
  shows "match_arg (render_arg kv @ rest) = Some (fst kv, snd kv, rest)"
proof -
  obtain k v where kv: "kv = (k, v)" by (cases kv)
  have key: "takeWhile (\<lambda>c. c \<noteq> 60) (k @ ARG_KEY_CLOSE @ ys) = k" for ys
    using assms by (simp add: arg_ok_def kv takeWhile_append ARG_KEY_CLOSE_def lit_def)
  have blank: "dropWhile is_space (ARG_VALUE_OPEN @ ys) = ARG_VALUE_OPEN @ ys" for ys
    by (simp add: ARG_VALUE_OPEN_def lit_def is_space_def)
  have "find_in ARG_VALUE_CLOSE (v @ ARG_VALUE_CLOSE @ rest) = Some (length v)"
    using assms by (intro find_in_delimited) (simp_all add: arg_ok_def kv)
  then show ?thesis
    by (simp add: match_arg_def render_arg_def kv skip_lit_def key blank Let_def)
qed

lemma find_args_match: "xs \<noteq> [] \<Longrightarrow> match_arg xs = Some (k, v, rest) \<Longrightarrow> find_args xs = (k, v) # find_args rest"
  by (cases xs) simp_all

lemma find_args_render: "list_all arg_ok args \<Longrightarrow> find_args (concat (map render_arg args)) = args"
proof (induction args)
  case (Cons kv args)
  have "render_arg kv @ concat (map render_arg args) \<noteq> []" by (simp add: render_arg_def ARG_KEY_OPEN_def lit_def)
  then show ?case using Cons find_args_match match_render_arg [of kv "concat (map render_arg args)"] by simp
qed simp

definition read_args :: "(str \<Rightarrow> 'v) \<Rightarrow> (str \<times> str) list \<Rightarrow> (str \<times> 'v) list" where
  "read_args val args = map (\<lambda>(k, v). (strip k, val (strip v))) args"

lemma collect_args_distinct:
  assumes "distinct (map (strip \<circ> fst) args)"
  shows "collect_args val args = read_args val args"
proof -
  have "foldl (\<lambda>d (k, v). dict_set d (strip k) (val (strip v))) d args = d @ read_args val args"
    if "distinct (map (strip \<circ> fst) args)" "fst ` set d \<inter> (strip \<circ> fst) ` set args = {}" for d
    using that
  proof (induction args arbitrary: d)
    case (Cons kv args)
    obtain k v where kv: "kv = (k, v)" by (cases kv)
    have fresh: "strip k \<notin> fst ` set d" using Cons.prems(2) by (auto simp: kv)
    have "fst ` set (d @ [(strip k, val (strip v))]) \<inter> (strip \<circ> fst) ` set args = {}"
      using Cons.prems by (auto simp: kv)
    then show ?case using Cons by (simp add: kv dict_set_fresh [OF fresh] read_args_def)
  qed (simp add: read_args_def)
  from this [OF assms, of "[]"] show ?thesis by (simp add: collect_args_def)
qed

lemma poolside_parse_render:
  assumes "call_ok c"
  shows "poolside_parse val (render_interior (fst c) (snd c)) =
    Some \<lparr>call_name = fst c, call_args = read_args val (snd c)\<rparr>"
proof -
  obtain nm args where c: "c = (nm, args)" by (cases c)
  have ident: "is_identifier nm" and args: "distinct (map (strip \<circ> fst) args)" "list_all arg_ok args"
    using assms by (simp_all add: call_ok_def c)
  have absent: "find_in ARG_KEY_OPEN nm = None"
    using identifier_chars(2) [OF ident] by (rule find_in_absent) (simp add: ARG_KEY_OPEN_def lit_def)
  show ?thesis
  proof (cases args)
    case Nil
    have "collect_args val [] = []" by (simp add: collect_args_def)
    then show ?thesis using ident identifier_chars(1) [OF ident] absent
      by (simp add: poolside_parse_def poolside_name_def render_interior_def c Nil read_args_def)
  next
    case (Cons kv rest)
    have "render_interior nm args = nm @ ARG_KEY_OPEN @ drop (length ARG_KEY_OPEN) (concat (map render_arg args))"
      by (simp add: render_interior_def Cons render_arg_def)
    then have at: "find_in ARG_KEY_OPEN (render_interior nm args) = Some (length nm)"
      using find_in_delimited [OF absent] by simp
    then have "poolside_name (render_interior nm args) = nm"
      using identifier_chars(1) [OF ident] by (simp add: poolside_name_def render_interior_def)
    then show ?thesis using at ident args find_args_render [OF args(2)] collect_args_distinct [OF args(1)]
      by (simp add: poolside_parse_def c) (simp add: render_interior_def)
  qed
qed

section \<open>A whole turn\<close>

definition calls_of :: "(str \<Rightarrow> 'v) \<Rightarrow> ((str \<times> (str \<times> str) list) \<times> str) list \<Rightarrow> 'v call list" where
  "calls_of val cs = map (\<lambda>(c, _). \<lparr>call_name = fst c, call_args = read_args val (snd c)\<rparr>) cs"

lemma find_from_none: "find_in m v = None \<Longrightarrow> find_from m (d @ v) (length d) = None"
  by (simp add: find_from_def)

lemma scan_render:
  fixes d pre :: str and val :: "str \<Rightarrow> 'v"
  assumes "find_in OPEN_TAG pre = None"
    and "\<forall>(c, after) \<in> set cs. call_ok c \<and> find_in OPEN_TAG after = None"
  defines "found \<equiv> scan_tool_calls (poolside_parse val) (d @ pre @ render_turn cs) (length d)"
  shows "map snd found = calls_of val cs \<and>
    cut_spans (d @ pre @ render_turn cs) (length d) (map fst found) = pre @ concat (map snd cs)"
  using assms(1,2) unfolding found_def
proof (induction cs arbitrary: d pre)
  case Nil
  then have "find_from OPEN_TAG (d @ pre) (length d) = None" by (intro find_from_none)
  then show ?case by (simp add: scan_tool_calls.simps [of _ "d @ pre"] calls_of_def)
next
  case (Cons ca cs)
  obtain c after where ca: "ca = (c, after)" by (cases ca)
  have ok: "call_ok c" "find_in OPEN_TAG after = None" using Cons.prems(2) by (auto simp: ca)
  let ?in = "render_interior (fst c) (snd c)"
  let ?xs = "d @ pre @ render_turn (ca # cs)"
  let ?d' = "d @ pre @ render_call c"
  have xs: "?xs = d @ pre @ OPEN_TAG @ ?in @ CLOSE_TAG @ after @ render_turn cs"
    "?xs = ?d' @ after @ render_turn cs"
    "?xs = (d @ pre @ OPEN_TAG) @ ?in @ CLOSE_TAG @ after @ render_turn cs"
    by (simp_all add: ca render_call_def)
  have s: "find_from OPEN_TAG ?xs (length d) = Some (length d + length pre)"
    unfolding xs(1) by (rule find_from_delimited) (simp_all add: Cons.prems(1))
  have e: "find_from CLOSE_TAG ?xs (length d + length pre + length OPEN_TAG) =
      Some (length (d @ pre @ OPEN_TAG) + length ?in)"
    unfolding xs(3) by (rule find_from_delimited) (use ok(1) in \<open>simp_all add: call_ok_def\<close>)
  have inner: "drop (length d + length pre + length OPEN_TAG) (take (length (d @ pre @ OPEN_TAG) + length ?in) ?xs) = ?in"
    unfolding xs(3) by simp
  have stop: "length (d @ pre @ OPEN_TAG) + length ?in + length CLOSE_TAG = length ?d'"
    by (simp add: render_call_def)
  let ?rest = "scan_tool_calls (poolside_parse val) ?xs (length ?d')"
  have scan: "scan_tool_calls (poolside_parse val) ?xs (length d) =
      ((length d + length pre, length ?d'), \<lparr>call_name = fst c, call_args = read_args val (snd c)\<rparr>) # ?rest"
    using s e poolside_parse_render [OF ok(1), of val] unfolding stop [symmetric]
    by (subst scan_tool_calls.simps) (simp only: option.case inner)
  have IH: "map snd ?rest = calls_of val cs \<and> cut_spans ?xs (length ?d') (map fst ?rest) = after @ concat (map snd cs)"
    unfolding xs(2) by (rule Cons.IH) (use ok(2) Cons.prems(2) in auto)
  have "drop (length d) (take (length d + length pre) ?xs) = pre" by simp
  then show ?case unfolding scan using IH by (simp only: list.map fst_conv snd_conv cut_spans.simps prod.case)
      (simp add: calls_of_def ca)
qed

text \<open>
  C30: tool calls survive the trip through text.  Take any sequence of calls whose names are identifiers, whose
  keys hold no \<open><\<close> and differ after stripping, whose values do not contain \<^verbatim>\<open></arg_value>\<close> and which do not
  contain \<^verbatim>\<open></tool_call>\<close>, rendered in the \<^verbatim>\<open>poolside_v1\<close> shape between pieces of ordinary text without
  \<^verbatim>\<open><tool_call>\<close>.  The text parses back to these calls, in order and with the arguments in order, each key
  and value without its outer white space (so exactly the calls where there is none), and the visible
  text is the ordinary text alone.
\<close>

theorem tool_calls_roundtrip:
  assumes "find_in OPEN_TAG pre = None"
    and "\<forall>(c, after) \<in> set cs. call_ok c \<and> find_in OPEN_TAG after = None"
  shows "parse_tool_calls (parse_block (poolside_v1 val)) (pre @ render_turn cs) =
    (strip (pre @ concat (map snd cs)), calls_of val cs)"
  using scan_render [OF assms, of val "[]"] by (simp add: parse_tool_calls_def Let_def)

theorem tool_calls_roundtrip_witness:
  "parse_tool_calls (parse_block (poolside_v1 (\<lambda>v. v)))
     (lit ''Hi '' @ render_turn [((lit ''get'', [(lit ''city'', lit ''<Paris>'' @ [newline]), (lit '' n '', lit ''2'')]), lit '' then ''),
        ((lit ''f'', []), [])]) =
     (lit ''Hi  then'', [\<lparr>call_name = lit ''get'', call_args = [(lit ''city'', lit ''<Paris>''), (lit ''n'', lit ''2'')]\<rparr>,
        \<lparr>call_name = lit ''f'', call_args = []\<rparr>])"
proof -
  let ?args = "[(lit ''city'', lit ''<Paris>'' @ [newline]), (lit '' n '', lit ''2'')]"
  let ?cs = "[((lit ''get'', ?args), lit '' then ''), ((lit ''f'', []), [])]"
  have strips: "strip (lit ''city'') = lit ''city''" "strip (lit '' n '') = lit ''n''" "strip (lit ''2'') = lit ''2''"
    "strip (lit ''<Paris>'' @ [newline]) = lit ''<Paris>''"
    by (simp_all add: lit_def strip_def is_space_def newline_def)
  have "call_ok (lit ''get'', ?args)" "call_ok (lit ''f'', [])"
  proof -
    have "find_in CLOSE_TAG (render_interior (lit ''get'') ?args) = None"
      "find_in CLOSE_TAG (render_interior (lit ''f'') []) = None"
      "is_identifier (lit ''get'')" "is_identifier (lit ''f'')" "list_all arg_ok ?args"
      by code_simp+
    moreover have "lit ''city'' \<noteq> lit ''n''" by (simp add: lit_def)
    ultimately show "call_ok (lit ''get'', ?args)" "call_ok (lit ''f'', [])"
      by (simp_all add: call_ok_def strips)
  qed
  moreover have "find_in OPEN_TAG (lit ''Hi '') = None" "find_in OPEN_TAG (lit '' then '') = None" "find_in OPEN_TAG [] = None"
    by code_simp+
  ultimately have "parse_tool_calls (parse_block (poolside_v1 (\<lambda>v. v))) (lit ''Hi '' @ render_turn ?cs) =
      (strip (lit ''Hi '' @ concat (map snd ?cs)), calls_of (\<lambda>v. v) ?cs)"
    by (intro tool_calls_roundtrip) simp_all
  moreover have "strip (lit ''Hi '' @ concat (map snd ?cs)) = lit ''Hi  then''"
    by (simp add: lit_def strip_def is_space_def)
  ultimately show ?thesis by (simp add: calls_of_def read_args_def strips)
qed

end
