(* ===== verification/Engine_Stop.thy ===== *)
theory Engine_Stop
  imports Stream_Proc
begin

text \<open>
  Stop sequences in the engine: the per-slot tracker of \<^verbatim>\<open>server/engine.py\<close> (\<^verbatim>\<open>_stop_check_token\<close>,
  \<^verbatim>\<open>_flush_stop_pending\<close>, \<^verbatim>\<open>_drop_stop_pending_from_committed\<close>) and the token-by-token commit around it.
  The stream channel is the log of the batches put into it.
\<close>

section \<open>State and operations\<close>

record 'lp slot_stop =
  stop_tracker :: stream_proc
  stop_sequences :: "str list"
  has_channel :: bool
  streamed :: "nat list list"
  committed_tokens :: "nat list"
  logprobs_acc :: "'lp list"
  stop_pending_ids :: "nat list"
  stop_pending_text :: str

definition new_slot_stop :: "str list \<Rightarrow> bool \<Rightarrow> 'lp slot_stop" where
  "new_slot_stop stops channel = \<lparr>stop_tracker = new_stream False, stop_sequences = stops, has_channel = channel,
     streamed = [], committed_tokens = [], logprobs_acc = [], stop_pending_ids = [], stop_pending_text = []\<rparr>"

definition flush_stop_pending :: "'lp slot_stop \<Rightarrow> 'lp slot_stop" where
  "flush_stop_pending st =
     (if stop_pending_ids st = [] then st
      else (if has_channel st then st\<lparr>streamed := streamed st @ [stop_pending_ids st]\<rparr> else st)
        \<lparr>stop_pending_ids := [], stop_pending_text := []\<rparr>)"

text \<open>\<^verbatim>\<open>del xs[-n:]\<close>, which clears the list for \<open>n = 0\<close>.\<close>

definition del_tail :: "nat \<Rightarrow> 'a list \<Rightarrow> 'a list" where
  "del_tail n xs = (if n = 0 then [] else take (length xs - n) xs)"

definition drop_stop_pending_from_committed :: "'lp slot_stop \<Rightarrow> 'lp slot_stop" where
  "drop_stop_pending_from_committed st =
     (let n_drop = length (stop_pending_ids st)
      in st\<lparr>committed_tokens := del_tail n_drop (committed_tokens st),
            logprobs_acc := (if logprobs_acc st \<noteq> [] then del_tail n_drop (logprobs_acc st) else logprobs_acc st),
            stop_pending_ids := [], stop_pending_text := []\<rparr>)"

definition stop_check_token :: "(nat list \<Rightarrow> str) \<Rightarrow> nat \<Rightarrow> 'lp slot_stop \<Rightarrow> str option \<times> 'lp slot_stop" where
  "stop_check_token dec tok st =
     (let (ds, tracker) = drain_content dec (add_tokens [tok] (stop_tracker st));
          st1 = st\<lparr>stop_tracker := tracker, stop_pending_ids := stop_pending_ids st @ [tok],
                  stop_pending_text := stop_pending_text st @ concat ds\<rparr>
      in if \<not> thinking_done tracker then (None, flush_stop_pending st1)
         else case find_earliest_stop_match (stop_pending_text st1) (stop_sequences st1) of
           Some (_, s) \<Rightarrow> (Some s, st1)
         | None \<Rightarrow>
             if trim_ambiguous_stop_tail (stop_pending_text st1) (stop_sequences st1) = stop_pending_text st1
             then (None, flush_stop_pending st1) else (None, st1))"

text \<open>One committed token of a slot with stop sequences: append, check, and drop on a match.\<close>

definition commit_stop_token :: "(nat list \<Rightarrow> str) \<Rightarrow> nat \<Rightarrow> 'lp slot_stop \<Rightarrow> str option \<times> 'lp slot_stop" where
  "commit_stop_token dec tok st =
     (case stop_check_token dec tok (st\<lparr>committed_tokens := committed_tokens st @ [tok]\<rparr>) of
        (Some s, st') \<Rightarrow> (Some s, drop_stop_pending_from_committed st')
      | (None, st') \<Rightarrow> (None, st'))"

text \<open>A generation: tokens are committed one at a time until a stop sequence matches or they run out.\<close>

fun stop_run :: "(nat list \<Rightarrow> str) \<Rightarrow> nat list \<Rightarrow> 'lp slot_stop \<Rightarrow> str option \<times> 'lp slot_stop" where
  "stop_run dec [] st = (None, st)"
| "stop_run dec (tok # toks) st = (case commit_stop_token dec tok st of
     (Some s, st') \<Rightarrow> (Some s, st')
   | (None, st') \<Rightarrow> stop_run dec toks st')"

text \<open>The content the tracker reveals for the same tokens.\<close>

fun revealed :: "(nat list \<Rightarrow> str) \<Rightarrow> nat list \<Rightarrow> stream_proc \<Rightarrow> str" where
  "revealed dec [] p = []"
| "revealed dec (tok # toks) p = (case drain_content dec (add_tokens [tok] p) of
     (ds, q) \<Rightarrow> concat ds @ revealed dec toks q)"

section \<open>Matches across the flushed text\<close>

definition stop_free :: "str list \<Rightarrow> str \<Rightarrow> bool" where
  "stop_free stops xs \<longleftrightarrow> find_earliest_stop_match xs stops = None"

text \<open>\<open>clear\<close>: whatever is appended, no stop sequence can start inside the first \<open>n\<close> characters.\<close>

definition clear_upto :: "str list \<Rightarrow> nat \<Rightarrow> str \<Rightarrow> bool" where
  "clear_upto stops n xs \<longleftrightarrow> (\<forall>s \<in> set stops. \<forall>later i. s \<noteq> [] \<and> occurs_at s (xs @ later) i \<longrightarrow> n \<le> i)"

lemma stop_free_iff: "stop_free stops xs \<longleftrightarrow> (\<forall>s \<in> set stops. s \<noteq> [] \<longrightarrow> (\<forall>i. \<not> occurs_at s xs i))"
  unfolding stop_free_def find_earliest_None by (simp add: find_in_None)

lemma occurs_at_shift: "length xs \<le> i \<Longrightarrow> occurs_at s (xs @ ys) i \<longleftrightarrow> occurs_at s ys (i - length xs)"
  by (auto simp: occurs_at_def)

lemma stop_free_split:
  assumes "clear_upto stops (length fl) fl"
  shows "stop_free stops (fl @ pend) \<longleftrightarrow> stop_free stops pend"
proof
  assume free: "stop_free stops (fl @ pend)"
  show "stop_free stops pend"
    unfolding stop_free_iff
  proof (intro ballI impI allI notI)
    fix s i assume s: "s \<in> set stops" "s \<noteq> []" "occurs_at s pend i"
    then have "occurs_at s (fl @ pend) (length fl + i)" by (simp add: occurs_at_shift)
    then show False using free s(1,2) unfolding stop_free_iff by blast
  qed
next
  assume free: "stop_free stops pend"
  show "stop_free stops (fl @ pend)"
    unfolding stop_free_iff
  proof (intro ballI impI allI notI)
    fix s i assume s: "s \<in> set stops" "s \<noteq> []" "occurs_at s (fl @ pend) i"
    then have "length fl \<le> i" using assms unfolding clear_upto_def by blast
    then have "occurs_at s pend (i - length fl)" using s(3) by (simp add: occurs_at_shift)
    then show False using free s(1,2) unfolding stop_free_iff by blast
  qed
qed

lemma clear_after_flush:
  assumes "clear_upto stops (length fl) fl" and free: "stop_free stops pend"
    and trim: "trim_ambiguous_stop_tail pend stops = pend"
  shows "clear_upto stops (length (fl @ pend)) (fl @ pend)"
  unfolding clear_upto_def
proof (intro ballI allI impI, elim conjE)
  fix s later i assume s: "s \<in> set stops" "s \<noteq> []" "occurs_at s ((fl @ pend) @ later) i"
  then have "length fl \<le> i" using assms(1) unfolding clear_upto_def by (metis append_assoc)
  then have occ: "occurs_at s (pend @ later) (i - length fl)" using s(3) by (simp add: occurs_at_shift)
  show "length (fl @ pend) \<le> i"
  proof (rule ccontr)
    assume "\<not> length (fl @ pend) \<le> i"
    then have inside: "i - length fl < length pend" using \<open>length fl \<le> i\<close> by simp
    have "\<not> occurs_at s pend (i - length fl)" using free s(1,2) unfolding stop_free_iff by blast
    then obtain k where k: "0 < k" "k < length s" "k \<le> length pend" "suffix (take k s) pend"
      using new_occurrence_tail [OF occ _ inside] by blast
    have "stop_cut (length pend) pend stops \<le> length pend - k" by (rule stop_cut_bound [OF s(1) k(1,2,4,3)])
    moreover have "length pend = stop_cut (length pend) pend stops"
      using trim stop_cut_le [of "length pend" pend stops]
      by (metis trim_ambiguous_stop_tail_def length_take min.absorb2)
    ultimately show False using k(1,3) by linarith
  qed
qed

section \<open>One token\<close>

lemma drain_visible_done: "thinking_done (snd (drain_visible xs r)) = thinking_done r"
  by (rule drain_visible_spec [of xs r]) simp

lemma drain_content_quiet:
  assumes "drain_content dec p = (ds, q)" and "\<not> thinking_done q"
  shows "ds = []"
proof -
  have "ds = [] \<or> (\<exists>xs r. (ds, q) = drain_visible xs r \<and> thinking_done r)"
  proof (cases "tool_call_started p")
    case True
    then show ?thesis using assms(1) by (simp add: drain_content_def)
  next
    case False
    obtain raw r where g: "get_raw dec p = (raw, r)" by (rule prod.exhaust)
    let ?v = "visible_text (thinking_capable r) raw"
    have "ds = [] \<or> drain_visible ?v r = (ds, q) \<and> thinking_done r \<or> drain_visible ?v (r\<lparr>thinking_done := True\<rparr>) = (ds, q)"
      using assms(1) False g
      by (auto simp: drain_content_def Let_def split: if_splits span_view.splits option.splits prod.splits)
    moreover have "thinking_done (r\<lparr>thinking_done := True\<rparr>)" by simp
    ultimately show ?thesis by metis
  qed
  then show ?thesis
  proof (elim disjE exE conjE)
    fix xs r assume "(ds, q) = drain_visible xs r" "thinking_done r"
    then have "thinking_done q" using drain_visible_done [of xs r] by (metis snd_conv)
    then show ?thesis using assms(2) by simp
  qed
qed

lemma drain_content_done:
  assumes "drain_content dec p = (ds, q)" and "thinking_done p"
  shows "thinking_done q"
proof (cases "tool_call_started p")
  case False
  obtain raw r where g: "get_raw dec p = (raw, r)" by (rule prod.exhaust)
  have "thinking_done r" using g assms(2) by (auto simp: get_raw_def Let_def split: if_splits)
  moreover have "drain_visible (visible_text (thinking_capable r) raw) r = (ds, q)"
    using assms(1) False g calculation by (simp add: drain_content_def)
  ultimately show ?thesis
    using drain_visible_done [of "visible_text (thinking_capable r) raw" r] by simp
qed (use assms in \<open>simp add: drain_content_def\<close>)

text \<open>What holds between tokens: sent and pending make up the committed tokens and the revealed text.\<close>

definition stop_inv :: "'lp slot_stop \<Rightarrow> str \<Rightarrow> bool" where
  "stop_inv st fl \<longleftrightarrow>
     (has_channel st \<longrightarrow> concat (streamed st) @ stop_pending_ids st = committed_tokens st) \<and>
     length (stop_pending_ids st) \<le> length (committed_tokens st) \<and>
     (stop_pending_ids st = [] \<longrightarrow> stop_pending_text st = []) \<and>
     (\<not> thinking_done (stop_tracker st) \<longrightarrow> stop_pending_text st = []) \<and>
     clear_upto (stop_sequences st) (length fl) fl \<and> stop_free (stop_sequences st) (stop_pending_text st)"

lemma stop_inv_new: "stop_inv (new_slot_stop stops channel) []"
  by (auto simp: stop_inv_def new_slot_stop_def clear_upto_def stop_free_iff occurs_at_def)

lemma flush_facts:
  "stop_sequences (flush_stop_pending st) = stop_sequences st" "stop_tracker (flush_stop_pending st) = stop_tracker st"
  "has_channel (flush_stop_pending st) = has_channel st" "committed_tokens (flush_stop_pending st) = committed_tokens st"
  "stop_pending_ids (flush_stop_pending st) = []"
  "has_channel st \<Longrightarrow> concat (streamed (flush_stop_pending st)) = concat (streamed st) @ stop_pending_ids st"
  "stop_pending_ids st \<noteq> [] \<Longrightarrow> stop_pending_text (flush_stop_pending st) = []"
  by (simp_all add: flush_stop_pending_def)

lemma commit_stop_token_step:
  assumes inv: "stop_inv st fl" and run: "commit_stop_token dec tok st = (m, st')"
    and drain: "drain_content dec (add_tokens [tok] (stop_tracker st)) = (ds, q)"
  shows "stop_tracker st' = q \<and> stop_sequences st' = stop_sequences st \<and> has_channel st' = has_channel st \<and>
    (m = None \<longrightarrow> committed_tokens st' = committed_tokens st @ [tok] \<and>
      (\<exists>fl'. stop_inv st' fl' \<and> fl' @ stop_pending_text st' = fl @ stop_pending_text st @ concat ds)) \<and>
    (\<forall>s. m = Some s \<longrightarrow> \<not> stop_free (stop_sequences st) (fl @ stop_pending_text st @ concat ds) \<and>
      s \<in> set (stop_sequences st) \<and> (\<exists>i. occurs_at s (fl @ stop_pending_text st @ concat ds) i) \<and>
      prefix (committed_tokens st') (committed_tokens st) \<and>
      (has_channel st \<longrightarrow> concat (streamed st') = committed_tokens st'))"
proof -
  let ?P = "stop_pending_text st @ concat ds" and ?S = "stop_sequences st"
  define st1 where "st1 = st\<lparr>committed_tokens := committed_tokens st @ [tok], stop_tracker := q,
      stop_pending_ids := stop_pending_ids st @ [tok], stop_pending_text := ?P\<rparr>"
  note I = inv [unfolded stop_inv_def]
  have st1: "stop_tracker st1 = q" "stop_sequences st1 = ?S" "has_channel st1 = has_channel st"
    "committed_tokens st1 = committed_tokens st @ [tok]" "stop_pending_ids st1 = stop_pending_ids st @ [tok]"
    "stop_pending_text st1 = ?P" "streamed st1 = streamed st"
    by (simp_all add: st1_def)
  have check: "stop_check_token dec tok (st\<lparr>committed_tokens := committed_tokens st @ [tok]\<rparr>) =
      (if \<not> thinking_done q then (None, flush_stop_pending st1)
       else case find_earliest_stop_match ?P ?S of
         Some (_, s) \<Rightarrow> (Some s, st1)
       | None \<Rightarrow> if trim_ambiguous_stop_tail ?P ?S = ?P then (None, flush_stop_pending st1) else (None, st1))"
    using drain by (simp add: stop_check_token_def st1_def Let_def split: option.split)
  have flushed: ?thesis if "m = None" "st' = flush_stop_pending st1" "clear_upto ?S (length (fl @ ?P)) (fl @ ?P)"
  proof -
    have emptied: "stop_pending_text st' = []" unfolding that(2) by (rule flush_facts(7)) (simp add: st1)
    have sent: "has_channel st \<longrightarrow> concat (streamed st') @ stop_pending_ids st' = committed_tokens st'"
      using I unfolding that(2) by (simp add: flush_facts st1)
    have "stop_free ?S []" by (simp add: stop_free_iff occurs_at_def)
    then have "stop_inv st' (fl @ ?P)"
      using sent emptied that(3) unfolding stop_inv_def by (simp add: that(2) flush_facts st1)
    then have "\<exists>fl'. stop_inv st' fl' \<and> fl' @ stop_pending_text st' = fl @ ?P"
      using emptied by (intro exI [of _ "fl @ ?P"]) simp
    moreover have "stop_tracker st' = q" "stop_sequences st' = ?S" "has_channel st' = has_channel st"
      "committed_tokens st' = committed_tokens st @ [tok]"
      unfolding that(2) by (simp_all add: flush_facts st1)
    ultimately show ?thesis using that(1) by simp
  qed
  show ?thesis
  proof (cases "thinking_done q")
    case False
    then have "ds = []" using drain by (intro drain_content_quiet)
    moreover have "stop_pending_text st = []"
    proof (rule ccontr)
      assume "stop_pending_text st \<noteq> []"
      then have "thinking_done (stop_tracker st)" using I by blast
      then have "thinking_done q" using drain_content_done [OF drain] by (simp add: add_tokens_def)
      then show False using False by simp
    qed
    moreover have "m = None" "st' = flush_stop_pending st1"
      using run check False by (simp_all add: commit_stop_token_def)
    moreover have "clear_upto ?S (length fl) fl" using I by blast
    ultimately show ?thesis by (intro flushed) simp_all
  next
    case True
    show ?thesis
    proof (cases "find_earliest_stop_match ?P ?S")
      case None
      then have free: "stop_free ?S ?P" by (simp add: stop_free_def)
      show ?thesis
      proof (cases "trim_ambiguous_stop_tail ?P ?S = ?P")
        case trim: True
        then have "m = None" "st' = flush_stop_pending st1"
          using run check True None by (simp_all add: commit_stop_token_def)
        moreover have "clear_upto ?S (length (fl @ ?P)) (fl @ ?P)"
          using clear_after_flush [OF _ free trim] I by blast
        ultimately show ?thesis by (rule flushed)
      next
        case False
        then have m: "m = None" "st' = st1"
          using run check True None by (simp_all add: commit_stop_token_def)
        have "stop_inv st1 fl" using I free True unfolding stop_inv_def st1 by simp
        then have "\<exists>fl'. stop_inv st1 fl' \<and> fl' @ stop_pending_text st1 = fl @ ?P"
          by (intro exI [of _ fl]) (simp add: st1)
        then show ?thesis unfolding m by (simp add: st1)
      qed
    next
      case (Some p)
      obtain i s where p: "find_earliest_stop_match ?P ?S = Some (i, s)" using Some by (cases p) simp
      then have m: "m = Some s" "st' = drop_stop_pending_from_committed st1"
        using run check True by (simp_all add: commit_stop_token_def)
      note F = find_earliest_Some [OF p]
      have "\<not> stop_free ?S ?P" using p by (simp add: stop_free_def)
      then have "\<not> stop_free ?S (fl @ ?P)" using I stop_free_split by blast
      moreover have "occurs_at s (fl @ ?P) (length fl + i)" using F(3) by (simp add: occurs_at_shift)
      moreover have com: "committed_tokens st' = take (length (committed_tokens st) - length (stop_pending_ids st)) (committed_tokens st)"
        by (simp add: m(2) drop_stop_pending_from_committed_def del_tail_def st1 Let_def)
      moreover have "concat (streamed st') = committed_tokens st'" if "has_channel st"
      proof -
        have "committed_tokens st = concat (streamed st) @ stop_pending_ids st" using I that by simp
        then show ?thesis using com by (simp add: m(2) drop_stop_pending_from_committed_def st1 Let_def)
      qed
      moreover have "prefix (committed_tokens st') (committed_tokens st)" unfolding com by (rule take_is_prefix)
      moreover have "stop_tracker st' = q" "stop_sequences st' = ?S" "has_channel st' = has_channel st"
        by (simp_all add: m(2) drop_stop_pending_from_committed_def st1 Let_def)
      ultimately show ?thesis using F(1) m(1) by auto
    qed
  qed
qed

section \<open>A whole generation\<close>

lemma stop_run_spec:
  assumes "stop_inv st fl" and "stop_run dec toks st = (m, st')"
  shows "has_channel st' = has_channel st \<and>
    (m = None \<longrightarrow> committed_tokens st' = committed_tokens st @ toks \<and>
       stop_free (stop_sequences st) (fl @ stop_pending_text st @ revealed dec toks (stop_tracker st)) \<and>
       (\<exists>fl'. stop_inv st' fl')) \<and>
    (\<forall>s. m = Some s \<longrightarrow> s \<in> set (stop_sequences st) \<and>
       (has_channel st \<longrightarrow> concat (streamed st') = committed_tokens st') \<and>
       (\<exists>k < length toks. prefix (committed_tokens st') (committed_tokens st @ take k toks) \<and>
          stop_free (stop_sequences st) (fl @ stop_pending_text st @ revealed dec (take k toks) (stop_tracker st)) \<and>
          (\<exists>i. occurs_at s (fl @ stop_pending_text st @ revealed dec (take (Suc k) toks) (stop_tracker st)) i)))"
  using assms
proof (induction toks arbitrary: st fl)
  case Nil
  have "stop_free (stop_sequences st) (fl @ stop_pending_text st)"
    using Nil.prems(1) stop_free_split unfolding stop_inv_def by blast
  then show ?case using Nil.prems by auto
next
  case (Cons tok toks)
  obtain ds q where d: "drain_content dec (add_tokens [tok] (stop_tracker st)) = (ds, q)" by (rule prod.exhaust)
  obtain m1 st1 where c: "commit_stop_token dec tok st = (m1, st1)" by (rule prod.exhaust)
  note S = commit_stop_token_step [OF Cons.prems(1) c d]
  let ?S = "stop_sequences st" and ?D = "fl @ stop_pending_text st"
  have free: "stop_free ?S ?D" using Cons.prems(1) stop_free_split unfolding stop_inv_def by blast
  show ?case
  proof (cases m1)
    case (Some s)
    then have m: "m = Some s" "st' = st1" using Cons.prems(2) c by simp_all
    have "\<exists>i. occurs_at s (?D @ revealed dec (take (Suc 0) (tok # toks)) (stop_tracker st)) i"
      using S Some d by simp
    moreover have "stop_free ?S (?D @ revealed dec (take 0 (tok # toks)) (stop_tracker st))" using free by simp
    moreover have "prefix (committed_tokens st') (committed_tokens st @ take 0 (tok # toks))" using S Some m by simp
    moreover have "0 < length (tok # toks)" by simp
    ultimately have ex: "\<exists>k < length (tok # toks). prefix (committed_tokens st') (committed_tokens st @ take k (tok # toks)) \<and>
        stop_free ?S (?D @ revealed dec (take k (tok # toks)) (stop_tracker st)) \<and>
        (\<exists>i. occurs_at s (?D @ revealed dec (take (Suc k) (tok # toks)) (stop_tracker st)) i)"
      by (rule_tac exI [of _ 0], intro conjI) (simp_all only: append_assoc)
    have "s \<in> set ?S" "has_channel st \<longrightarrow> concat (streamed st') = committed_tokens st'" "has_channel st' = has_channel st"
      using S Some m by auto
    then show ?thesis using ex m(1) by simp
  next
    case None
    then have run: "stop_run dec toks st1 = (m, st')" using Cons.prems(2) c by simp
    have step: "stop_tracker st1 = q" "stop_sequences st1 = ?S" "has_channel st1 = has_channel st"
      "committed_tokens st1 = committed_tokens st @ [tok]" using S None by simp_all
    obtain fl' where fl': "stop_inv st1 fl'" "fl' @ stop_pending_text st1 = ?D @ concat ds"
      using S None by auto
    have D: "fl' @ stop_pending_text st1 @ revealed dec ts (stop_tracker st1) =
        ?D @ revealed dec (tok # ts) (stop_tracker st)" for ts
    proof -
      have "fl' @ stop_pending_text st1 @ revealed dec ts (stop_tracker st1) =
          (fl' @ stop_pending_text st1) @ revealed dec ts q" by (simp add: step)
      then show ?thesis using d by (simp add: fl'(2))
    qed
    note IH = Cons.IH [OF fl'(1) run, unfolded D, unfolded step]
    show ?thesis
    proof (cases m)
      case None
      then show ?thesis using IH by simp
    next
      case (Some s)
      note ihs = IH [THEN conjunct2, THEN conjunct2, THEN spec, THEN mp, OF Some]
      from ihs [THEN conjunct2, THEN conjunct2] obtain k where k: "k < length toks" "prefix (committed_tokens st') ((committed_tokens st @ [tok]) @ take k toks)"
        "stop_free ?S (?D @ revealed dec (tok # take k toks) (stop_tracker st))"
        "\<exists>i. occurs_at s (?D @ revealed dec (tok # take (Suc k) toks) (stop_tracker st)) i"
        by (elim exE conjE) (rule that, (assumption | rule exI)+)
      have "Suc k < length (tok # toks)" "prefix (committed_tokens st') (committed_tokens st @ take (Suc k) (tok # toks))"
        "stop_free ?S (?D @ revealed dec (take (Suc k) (tok # toks)) (stop_tracker st))"
        "\<exists>i. occurs_at s (?D @ revealed dec (take (Suc (Suc k)) (tok # toks)) (stop_tracker st)) i"
        using k by simp_all
      then have ex: "\<exists>k < length (tok # toks). prefix (committed_tokens st') (committed_tokens st @ take k (tok # toks)) \<and>
          stop_free ?S (?D @ revealed dec (take k (tok # toks)) (stop_tracker st)) \<and>
          (\<exists>i. occurs_at s (?D @ revealed dec (take (Suc k) (tok # toks)) (stop_tracker st)) i)"
        by (rule_tac exI [of _ "Suc k"], intro conjI) (simp_all only: append_assoc)
      have "s \<in> set ?S" "has_channel st \<longrightarrow> concat (streamed st') = committed_tokens st'" "has_channel st' = has_channel st"
        using ihs IH by blast+
      then show ?thesis using ex Some by simp
    qed
  qed
qed

text \<open>
  a stop sequence ends a generation exactly at the token whose text completes it.  Committing tokens one
  at a time, no stop sequence is reported while none occurs in the content revealed so far, also across
  flushed text; when one is reported it occurs in the content up to and including that token and in none of
  the earlier ones, only tokens before it stay committed, and those are exactly the tokens the client was
  sent.  Without a match all tokens are committed, and flushing at the end sends the rest.
\<close>

theorem stop_match_is_exact:
  assumes "stop_run dec toks (new_slot_stop stops channel) = (m, st)"
  shows "case m of
      None \<Rightarrow> committed_tokens st = toks \<and>
        find_earliest_stop_match (revealed dec toks (new_stream False)) stops = None \<and>
        (channel \<longrightarrow> concat (streamed (flush_stop_pending st)) = toks)
    | Some s \<Rightarrow> s \<in> set stops \<and> (channel \<longrightarrow> concat (streamed st) = committed_tokens st) \<and>
        (\<exists>k < length toks. prefix (committed_tokens st) (take k toks) \<and>
           find_earliest_stop_match (revealed dec (take k toks) (new_stream False)) stops = None \<and>
           find_in s (revealed dec (take (Suc k) toks) (new_stream False)) \<noteq> None)"
proof -
  have new: "stop_sequences (new_slot_stop stops channel) = stops" "stop_tracker (new_slot_stop stops channel) = new_stream False"
    "stop_pending_text (new_slot_stop stops channel) = []" "committed_tokens (new_slot_stop stops channel) = []"
    "has_channel (new_slot_stop stops channel) = channel"
    by (simp_all add: new_slot_stop_def)
  note R = stop_run_spec [OF stop_inv_new assms, unfolded new append_Nil]
  show ?thesis
  proof (cases m)
    case None
    then obtain fl where "stop_inv st fl" using R by auto
    then have "channel \<longrightarrow> concat (streamed (flush_stop_pending st)) = committed_tokens st"
      using R by (auto simp: stop_inv_def flush_facts)
    then show ?thesis using R None by (simp add: stop_free_def)
  next
    case (Some s)
    then show ?thesis using R by (auto simp: stop_free_def find_in_None)
  qed
qed

theorem stop_match_is_exact_witness:
  "fst (stop_run (\<lambda>ids. ids) (lit ''ab;c;;d'') (new_slot_stop [lit '';;''] True :: unit slot_stop)) = Some (lit '';;'') \<and>
   committed_tokens (snd (stop_run (\<lambda>ids. ids) (lit ''ab;c;;d'') (new_slot_stop [lit '';;''] True :: unit slot_stop))) = lit ''ab;c'' \<and>
   concat (streamed (snd (stop_run (\<lambda>ids. ids) (lit ''ab;c;;d'') (new_slot_stop [lit '';;''] True :: unit slot_stop)))) = lit ''ab;c''"
proof -
  let ?r = "stop_run (\<lambda>ids. ids) (lit ''ab;c;;d'') (new_slot_stop [lit '';;''] True :: unit slot_stop)"
  have m: "fst ?r = Some (lit '';;'')" by code_simp
  have c: "committed_tokens (snd ?r) = lit ''ab;c''" by code_simp
  have run: "?r = (Some (lit '';;''), snd ?r)" using m by (metis surjective_pairing)
  from stop_match_is_exact [OF run] have "concat (streamed (snd ?r)) = committed_tokens (snd ?r)" by simp
  with m c show ?thesis by simp
qed

text \<open>
  The guarantee speaks of the content the tracker reveals, and the tracker itself withholds a trailing
  \<^verbatim>\<open><\<close> as a possible tag.  A stop sequence that begins with \<^verbatim>\<open><\<close> and arrives split after it therefore
  leaves that character committed and sent.
\<close>

theorem split_tag_stop_leaks:
  "fst (stop_run (\<lambda>ids. ids) (lit ''a<END>'') (new_slot_stop [lit ''<END>''] True :: unit slot_stop)) = Some (lit ''<END>'') \<and>
   concat (streamed (snd (stop_run (\<lambda>ids. ids) (lit ''a<END>'') (new_slot_stop [lit ''<END>''] True :: unit slot_stop)))) = lit ''a<''"
  by code_simp

end
