(* ===== verification/Engine_Decode.thy ===== *)
theory Engine_Decode
  imports Engine_Stop Tool_Calls
begin

text \<open>
  Committing decoded tokens in \<^verbatim>\<open>_step_sync\<close> of \<^verbatim>\<open>server/engine.py\<close>: the plain decode path takes one token per
  slot and round, the speculative path a batch of verified tokens.  Both end a request by length, end of
  sequence, stop sequence or a complete tool call.
\<close>

section \<open>State\<close>

record 'lp decode_state =
  stops :: "'lp slot_stop"
  tool_tracker :: "stream_proc option"

datatype finish = Finish_length | Finish_eos nat | Finish_stop str | Finish_tool

type_synonym 'lp decode_step = "finish option \<times> 'lp decode_state"

record 'v decode_env =
  decode :: "nat list \<Rightarrow> str"
  parser :: "'v tool_parser"
  eos_tokens :: "nat set"
  token_limit :: int

definition committed_count :: "'lp decode_state \<Rightarrow> int" where
  "committed_count st = int (length (committed_tokens (stops st)))"

definition flush_stops :: "'lp decode_state \<Rightarrow> 'lp decode_state" where
  "flush_stops st = st\<lparr>stops := flush_stop_pending (stops st)\<rparr>"

definition stream_put :: "nat list \<Rightarrow> 'lp decode_state \<Rightarrow> 'lp decode_state" where
  "stream_put toks st = (if has_channel (stops st)
     then st\<lparr>stops := (stops st)\<lparr>streamed := streamed (stops st) @ [toks]\<rparr>\<rparr> else st)"

definition commit_token :: "nat \<Rightarrow> 'lp list \<Rightarrow> 'lp decode_state \<Rightarrow> 'lp decode_state" where
  "commit_token tok lps st = st\<lparr>stops := (stops st)\<lparr>committed_tokens := committed_tokens (stops st) @ [tok],
     logprobs_acc := logprobs_acc (stops st) @ lps\<rparr>\<rparr>"

definition tool_call_check_token :: "'v decode_env \<Rightarrow> nat \<Rightarrow> 'lp decode_state \<Rightarrow> bool \<times> 'lp decode_state" where
  "tool_call_check_token env tok st = (case tool_tracker st of
     None \<Rightarrow> (False, st)
   | Some p \<Rightarrow> (case complete_tool_calls (decode env) (parser env) (add_tokens [tok] p) of
       (calls, p') \<Rightarrow> (calls \<noteq> [], st\<lparr>tool_tracker := Some p'\<rparr>)))"

text \<open>The stop check of a slot with stop sequences; a slot without has nothing to match.\<close>

definition stop_check :: "'v decode_env \<Rightarrow> nat \<Rightarrow> 'lp decode_state \<Rightarrow> str option \<times> 'lp decode_state" where
  "stop_check env tok st = (if stop_sequences (stops st) = [] then (None, st)
     else case stop_check_token (decode env) tok (stops st) of (m, s) \<Rightarrow> (m, st\<lparr>stops := s\<rparr>))"

definition drop_stop :: "'lp decode_state \<Rightarrow> 'lp decode_state" where
  "drop_stop st = st\<lparr>stops := drop_stop_pending_from_committed (stops st)\<rparr>"

section \<open>The plain path\<close>

definition plain_token :: "'v decode_env \<Rightarrow> nat \<Rightarrow> 'lp list \<Rightarrow> 'lp decode_state \<Rightarrow> 'lp decode_step" where
  "plain_token env tok lps st =
     (if token_limit env \<le> committed_count st then (Some Finish_length, flush_stops st)
      else if tok \<in> eos_tokens env then (Some (Finish_eos tok), flush_stops st)
      else
        let has_stops = (stop_sequences (stops st) \<noteq> []);
            (matched, st1) = stop_check env tok (commit_token tok lps st)
        in case matched of
          Some s \<Rightarrow> (Some (Finish_stop s), drop_stop st1)
        | None \<Rightarrow>
            let st2 = (if has_stops then st1 else stream_put [tok] st1);
                (tool_complete, st3) = tool_call_check_token env tok st2
            in if tool_complete then (Some Finish_tool, if has_stops then flush_stops st3 else st3)
               else if token_limit env \<le> committed_count st3 then (Some Finish_length, flush_stops st3)
               else (None, st3))"

text \<open>Plain rounds of one slot.\<close>

fun plain_run :: "'v decode_env \<Rightarrow> nat list \<Rightarrow> 'lp decode_state \<Rightarrow> 'lp decode_step" where
  "plain_run env [] st = (None, st)"
| "plain_run env (tok # toks) st = (case plain_token env tok [] st of
     (Some r, st') \<Rightarrow> (Some r, st')
   | (None, st') \<Rightarrow> plain_run env toks st')"

section \<open>The speculative path\<close>

fun mtp_loop :: "'v decode_env \<Rightarrow> nat list \<Rightarrow> nat list \<Rightarrow> 'lp decode_state \<Rightarrow> finish option \<times> nat list \<times> 'lp decode_state" where
  "mtp_loop env [] kept st = (None, kept, st)"
| "mtp_loop env (t # ts) kept st =
     (if token_limit env \<le> committed_count st then (Some Finish_length, kept, st)
      else if t \<in> eos_tokens env then (Some (Finish_eos t), kept, st)
      else case stop_check env t (commit_token t [] st) of
          (Some s, st1) \<Rightarrow> (Some (Finish_stop s), kept @ [t], st1)
        | (None, st1) \<Rightarrow> (case tool_call_check_token env t st1 of
            (True, st2) \<Rightarrow> (Some Finish_tool, kept @ [t], st2)
          | (False, st2) \<Rightarrow> mtp_loop env ts (kept @ [t]) st2))"

definition mtp_finish :: "'v decode_env \<Rightarrow> finish option \<times> nat list \<times> 'lp decode_state \<Rightarrow> 'lp decode_step" where
  "mtp_finish env r = (case r of (reason, kept, st) \<Rightarrow>
     let has_stops = (stop_sequences (stops st) \<noteq> []);
         matched = (case reason of Some (Finish_stop _) \<Rightarrow> True | _ \<Rightarrow> False);
         st1 = (if matched then drop_stop st
                else if has_stops \<and> reason = Some Finish_tool then flush_stops st
                else if \<not> has_stops \<and> kept \<noteq> [] then stream_put kept st else st);
         reason1 = (if reason = None \<and> token_limit env \<le> committed_count st1 then Some Finish_length else reason)
     in (reason1, if reason1 \<noteq> None \<and> has_stops \<and> \<not> matched then flush_stops st1 else st1))"

definition mtp_commit :: "'v decode_env \<Rightarrow> nat list \<Rightarrow> 'lp list \<Rightarrow> 'lp decode_state \<Rightarrow> 'lp decode_step" where
  "mtp_commit env toks lps st =
     mtp_finish env (mtp_loop env toks [] (st\<lparr>stops := (stops st)\<lparr>logprobs_acc := logprobs_acc (stops st) @ lps\<rparr>\<rparr>))"

section \<open>A batch is the same as its tokens one by one\<close>

text \<open>What the operations leave alone.\<close>

lemma stop_check_token_fields:
  assumes "stop_check_token dec tok s = (m, s')"
  shows "committed_tokens s' = committed_tokens s" and "stop_sequences s' = stop_sequences s" and "has_channel s' = has_channel s"
  using assms by (auto simp: stop_check_token_def flush_stop_pending_def Let_def split: prod.splits if_splits option.splits)

lemma stop_check_fields:
  assumes "stop_check env tok st = (m, st')"
  shows "committed_count st' = committed_count st" and "stop_sequences (stops st') = stop_sequences (stops st)"
    and "has_channel (stops st') = has_channel (stops st)"
  using assms stop_check_token_fields [of "decode env" tok "stops st"]
  by (auto simp: stop_check_def committed_count_def split: if_splits prod.splits)

lemma tool_check_fields:
  assumes "tool_call_check_token env tok st = (b, st')"
  shows "stops st' = stops st"
  using assms by (auto simp: tool_call_check_token_def split: option.splits prod.splits)

lemma commit_fields:
  "committed_count (commit_token tok lps st) = committed_count st + 1"
  "stop_sequences (stops (commit_token tok lps st)) = stop_sequences (stops st)"
  "has_channel (stops (commit_token tok lps st)) = has_channel (stops st)"
  by (simp_all add: commit_token_def committed_count_def)

lemma flush_fields:
  "stop_sequences (stops (flush_stops st)) = stop_sequences (stops st)" "committed_count (flush_stops st) = committed_count st"
  by (simp_all add: flush_stops_def flush_stop_pending_def committed_count_def)

lemma flush_twice: "flush_stops (flush_stops st) = flush_stops st"
  by (simp add: flush_stops_def flush_stop_pending_def)

text \<open>A slot with stop sequences streams inside the stop check, so the two paths coincide.\<close>

lemma loop_at_limit:
  "token_limit env \<le> committed_count st \<Longrightarrow> \<exists>r. mtp_loop env ts kept st = (r, kept, st) \<and> (r = None \<or> r = Some Finish_length)"
  by (cases ts) auto

lemma batch_with_stops:
  assumes "stop_sequences (stops st) \<noteq> []" and "committed_count st < token_limit env"
  shows "mtp_finish env (mtp_loop env ts kept st) = plain_run env ts st"
  using assms
proof (induction ts arbitrary: kept st)
  case Nil
  then show ?case by (simp add: mtp_finish_def)
next
  case (Cons t ts)
  have below: "\<not> token_limit env \<le> committed_count st" using Cons.prems by simp
  show ?case
  proof (cases "t \<in> eos_tokens env")
    case True
    then show ?thesis using Cons.prems by (simp add: mtp_finish_def plain_token_def)
  next
    case False
    obtain m st1 where sc: "stop_check env t (commit_token t [] st) = (m, st1)" by fastforce
    note f1 = stop_check_fields [OF sc, unfolded commit_fields]
    show ?thesis
    proof (cases m)
      case (Some s)
      then show ?thesis using Cons.prems below False f1 sc by (simp add: mtp_finish_def plain_token_def)
    next
      case None
      obtain b st2 where tc: "tool_call_check_token env t st1 = (b, st2)" by fastforce
      note f2 = tool_check_fields [OF tc]
      have stops2: "stop_sequences (stops st2) \<noteq> []" using f1(2) f2 Cons.prems(1) by simp
      show ?thesis
      proof (cases b)
        case True
        then show ?thesis using below False sc None tc stops2 Cons.prems(1)
          by (simp add: mtp_finish_def plain_token_def flush_twice flush_fields)
      next
        case nb: False
        show ?thesis
        proof (cases "token_limit env \<le> committed_count st2")
          case True
          from loop_at_limit [OF True, of ts "kept @ [t]"] show ?thesis
            using True below False sc None tc nb stops2 Cons.prems(1)
            by (auto simp: mtp_finish_def plain_token_def)
        next
          case more: False
          then have "mtp_finish env (mtp_loop env ts (kept @ [t]) st2) = plain_run env ts st2"
            using Cons.IH [OF stops2, of "kept @ [t]"] by simp
          then show ?thesis using more below False sc None tc nb stops2 Cons.prems(1)
            by (simp add: plain_token_def)
        qed
      qed
    qed
  qed
qed

text \<open>
  A slot without stop sequences sends the batch in one piece.  \<open>ahead kept st\<close> is the state of the plain path,
  which has already sent the tokens \<open>kept\<close> one by one.
\<close>

definition ahead :: "nat list \<Rightarrow> 'lp decode_state \<Rightarrow> 'lp decode_state" where
  "ahead kept st = (if has_channel (stops st)
     then st\<lparr>stops := (stops st)\<lparr>streamed := streamed (stops st) @ map (\<lambda>t. [t]) kept\<rparr>\<rparr> else st)"

text \<open>Equal up to how the streamed tokens are grouped.\<close>

definition same_view :: "'lp decode_step \<Rightarrow> 'lp decode_step \<Rightarrow> bool" where
  "same_view a b \<longleftrightarrow> fst a = fst b \<and> tool_tracker (snd a) = tool_tracker (snd b) \<and>
     (stops (snd a))\<lparr>streamed := []\<rparr> = (stops (snd b))\<lparr>streamed := []\<rparr> \<and>
     concat (streamed (stops (snd a))) = concat (streamed (stops (snd b)))"

lemma same_view_refl: "same_view a a"
  by (simp add: same_view_def)

lemma ahead_fields:
  "committed_count (ahead kept st) = committed_count st" "stop_sequences (stops (ahead kept st)) = stop_sequences (stops st)"
  "stop_pending_ids (stops (ahead kept st)) = stop_pending_ids (stops st)"
  "tool_tracker (ahead kept st) = tool_tracker st" "ahead [] st = st"
  by (simp_all add: ahead_def committed_count_def)

lemma ahead_commit: "commit_token t lps (ahead kept st) = ahead kept (commit_token t lps st)"
  by (simp add: ahead_def commit_token_def)

lemma ahead_put: "stream_put [t] (ahead kept st) = ahead (kept @ [t]) st"
  by (simp add: ahead_def stream_put_def)

lemma ahead_tool:
  "tool_call_check_token env t st = (b, st') \<Longrightarrow> tool_call_check_token env t (ahead kept st) = (b, ahead kept st')"
  by (auto simp: tool_call_check_token_def ahead_def split: option.splits prod.splits)

lemma ahead_sent:
  "same_view (r, if kept \<noteq> [] then stream_put kept st else st) (r, ahead kept st)"
  by (auto simp: same_view_def stream_put_def ahead_def concat_map_singleton)

lemma flush_nothing: "stop_pending_ids (stops st) = [] \<Longrightarrow> flush_stops st = st"
  by (simp add: flush_stops_def flush_stop_pending_def)

lemma batch_without_stops:
  assumes "stop_sequences (stops st) = []" and "stop_pending_ids (stops st) = []" and "committed_count st < token_limit env"
  shows "same_view (mtp_finish env (mtp_loop env ts kept st)) (plain_run env ts (ahead kept st))"
  using assms
proof (induction ts arbitrary: kept st)
  case Nil
  then show ?case using ahead_sent [of None kept st] by (auto simp: mtp_finish_def stream_put_def committed_count_def)
next
  case (Cons t ts)
  have below: "\<not> token_limit env \<le> committed_count st" using Cons.prems by simp
  show ?case
  proof (cases "t \<in> eos_tokens env")
    case True
    then show ?thesis using Cons.prems below ahead_sent [of "Some (Finish_eos t)" kept st]
      by (auto simp: mtp_finish_def plain_token_def ahead_fields flush_nothing)
  next
    case False
    let ?st1 = "commit_token t [] st"
    obtain b st2 where tc: "tool_call_check_token env t ?st1 = (b, st2)" by fastforce
    note f2 = tool_check_fields [OF tc]
    have st2: "stop_sequences (stops st2) = []" "stop_pending_ids (stops st2) = []"
      using Cons.prems(1,2) by (simp_all add: f2 commit_token_def)
    have sc: "stop_check env t (commit_token t [] st) = (None, ?st1)"
        "stop_check env t (commit_token t [] (ahead kept st)) = (None, ahead kept ?st1)"
      using Cons.prems(1) by (simp_all add: stop_check_def commit_fields ahead_fields ahead_commit)
    have tp: "tool_call_check_token env t (stream_put [t] (ahead kept ?st1)) = (b, ahead (kept @ [t]) st2)"
      unfolding ahead_put by (rule ahead_tool [OF tc])
    have plain: "plain_token env t [] (ahead kept st) =
        (if b then (Some Finish_tool, ahead (kept @ [t]) st2)
         else if token_limit env \<le> committed_count st2 then (Some Finish_length, ahead (kept @ [t]) st2)
         else (None, ahead (kept @ [t]) st2))"
      using below False Cons.prems(1) sc(2) tp st2
      by (simp add: plain_token_def ahead_fields flush_nothing)
    show ?thesis
    proof (cases b)
      case True
      then show ?thesis using below False sc tc plain st2 ahead_sent [of "Some Finish_tool" "kept @ [t]" st2]
        by (simp add: mtp_finish_def)
    next
      case nb: False
      show ?thesis
      proof (cases "token_limit env \<le> committed_count st2")
        case True
        have lim: "token_limit env \<le> committed_count (stream_put (kept @ [t]) st2)"
          using True by (simp add: stream_put_def committed_count_def)
        from loop_at_limit [OF True, of ts "kept @ [t]"] show ?thesis
          using True lim below False sc tc nb plain st2 ahead_sent [of "Some Finish_length" "kept @ [t]" st2]
          by (auto simp: mtp_finish_def)
      next
        case more: False
        then have "same_view (mtp_finish env (mtp_loop env ts (kept @ [t]) st2)) (plain_run env ts (ahead (kept @ [t]) st2))"
          using Cons.IH [OF st2] by simp
        then show ?thesis using more below False sc tc nb plain by simp
      qed
    qed
  qed
qed

text \<open>The limit of a request is never exceeded.\<close>

lemma loop_count:
  "committed_count st \<le> token_limit env \<Longrightarrow> committed_count (snd (snd (mtp_loop env ts kept st))) \<le> token_limit env"
proof (induction env ts kept st rule: mtp_loop.induct)
  case (2 env t ts kept st)
  show ?case
  proof (cases "token_limit env \<le> committed_count st \<or> t \<in> eos_tokens env")
    case True
    then show ?thesis using "2.prems" by auto
  next
    case False
    obtain m st1 where sc: "stop_check env t (commit_token t [] st) = (m, st1)" by fastforce
    note f1 = stop_check_fields(1) [OF sc, unfolded commit_fields]
    show ?thesis
    proof (cases m)
      case (Some s)
      then show ?thesis using False sc f1 by simp
    next
      case None
      obtain b st2 where tc: "tool_call_check_token env t st1 = (b, st2)" by fastforce
      have "committed_count st2 = committed_count st1"
        using tool_check_fields [OF tc] by (simp add: committed_count_def)
      then show ?thesis using "2.IH" [OF _ _ sc [symmetric] None tc [symmetric]] False sc None tc f1
        by (cases b) auto
    qed
  qed
qed simp

lemma stream_put_count: "committed_count (stream_put toks st) = committed_count st"
  by (simp add: stream_put_def committed_count_def)

lemma drop_stop_count: "committed_count (drop_stop st) \<le> committed_count st"
  by (simp add: drop_stop_def drop_stop_pending_from_committed_def committed_count_def del_tail_def Let_def)

lemma finish_count: "committed_count (snd (mtp_finish env (r, kept, st))) \<le> committed_count st"
  using drop_stop_count [of st] by (simp add: mtp_finish_def Let_def flush_fields stream_put_count)

text \<open>
  C34: Speculative decoding does not change what a request gets: committing a verified batch of tokens ends for
  the same reason, with the same committed tokens, stop and tool state and the same tokens streamed in the
  same order as feeding them one by one through the plain path; and never more than the request's limit is
  committed.
\<close>

theorem batch_commit_is_plain:
  assumes "committed_count st < token_limit env"
    and "stop_sequences (stops st) = [] \<Longrightarrow> stop_pending_ids (stops st) = []"
  shows "same_view (mtp_commit env toks [] st) (plain_run env toks st) \<and>
    committed_count (snd (mtp_commit env toks [] st)) \<le> token_limit env"
proof
  have same: "st\<lparr>stops := (stops st)\<lparr>logprobs_acc := logprobs_acc (stops st) @ []\<rparr>\<rparr> = st" by simp
  show "same_view (mtp_commit env toks [] st) (plain_run env toks st)"
  proof (cases "stop_sequences (stops st) = []")
    case True
    from batch_without_stops [OF True assms(2) [OF True] assms(1), of toks "[]"] show ?thesis
      unfolding mtp_commit_def same by (simp add: ahead_fields)
  next
    case False
    show ?thesis unfolding mtp_commit_def same batch_with_stops [OF False assms(1)] by (rule same_view_refl)
  qed
  obtain r kept st' where loop: "mtp_loop env toks [] st = (r, kept, st')" by (rule prod_cases3)
  show "committed_count (snd (mtp_commit env toks [] st)) \<le> token_limit env"
    unfolding mtp_commit_def same loop
    using finish_count [of env r kept st'] loop_count [of st env toks "[]"] assms(1) loop by simp
qed

definition sample_decode :: "str list \<Rightarrow> unit decode_state" where
  "sample_decode seqs = \<lparr>stops = new_slot_stop seqs True, tool_tracker = None\<rparr>"

definition sample_env :: "str decode_env" where
  "sample_env = \<lparr>decode = (\<lambda>ids. ids), parser = poolside_v1 (\<lambda>v. v), eos_tokens = {0}, token_limit = 4\<rparr>"

theorem batch_commit_is_plain_witness:
  "fst (mtp_commit sample_env (lit ''ab;;c'') [] (sample_decode [lit '';;''])) = Some (Finish_stop (lit '';;'')) \<and>
   same_view (mtp_commit sample_env (lit ''ab;;c'') [] (sample_decode [lit '';;'']))
     (plain_run sample_env (lit ''ab;;c'') (sample_decode [lit '';;'']))"
proof -
  have pre: "committed_count (sample_decode [lit '';;'']) < token_limit sample_env"
    "stop_sequences (stops (sample_decode [lit '';;''])) = [] \<Longrightarrow> stop_pending_ids (stops (sample_decode [lit '';;''])) = []"
    by (simp_all add: sample_decode_def sample_env_def new_slot_stop_def committed_count_def)
  have "fst (mtp_commit sample_env (lit ''ab;;c'') [] (sample_decode [lit '';;''])) = Some (Finish_stop (lit '';;''))"
    by code_simp
  with batch_commit_is_plain [OF pre] show ?thesis by blast
qed

text \<open>
  With log probabilities the two paths differ: the speculative path takes those of the whole batch before it
  looks at the tokens, so a request that ends inside the batch has more of them than tokens.
\<close>

theorem mtp_logprobs_outnumber_tokens:
  "let st = (\<lparr>stops = new_slot_stop [] True, tool_tracker = None\<rparr> :: nat decode_state);
       r = mtp_commit sample_env [5, 6, 0, 7] [50, 60, 10, 70] st
   in fst r = Some (Finish_eos 0) \<and> committed_tokens (stops (snd r)) = [5, 6] \<and>
      logprobs_acc (stops (snd r)) = [50, 60, 10, 70]"
  by code_simp

end
