(* ===== verification/Stream_Channel.thy ===== *)
theory Stream_Channel
  imports Prelude
begin

text \<open>
  Token delivery from the engine thread to the event loop, class \<^verbatim>\<open>StreamChannel\<close> of
  \<^verbatim>\<open>server/engine.py\<close>.  The two threads interleave at the granularity of single operations on the
  shared buffer and event; \<^verbatim>\<open>call_soon_threadsafe(event.set)\<close> leaves a callback that the event loop
  runs while the consumer coroutine is suspended.
\<close>

section \<open>State\<close>

text \<open>Where the consumer is inside \<^verbatim>\<open>get\<close>: at the loop test, before each statement of the body, suspended in
  \<^verbatim>\<open>event.wait()\<close>, or about to pop.  The producer is between calls or has appended and not yet signalled.\<close>

datatype consumer_pc = Idle | Test | Create | Clear | Recheck | Waiting | Pop | Crashed
datatype producer_pc = Ready | Signal

text \<open>An item is a token batch, or \<^verbatim>\<open>None\<close> for the end of the stream.\<close>

record 'a channel =
  buf :: "'a option list"
  event :: "bool option"
  closed :: bool
  scheduled :: nat
  consumer :: consumer_pc
  producer :: producer_pc
  produced :: "'a option list"
  delivered :: "'a option list"

definition new_channel :: "'a channel" where
  "new_channel = \<lparr>buf = [], event = None, closed = False, scheduled = 0, consumer = Idle, producer = Ready,
     produced = [], delivered = []\<rparr>"

section \<open>Engine thread\<close>

definition append_item :: "'a option \<Rightarrow> 'a channel \<Rightarrow> 'a channel" where
  "append_item x c = c\<lparr>buf := buf c @ [x], produced := produced c @ [x], producer := Signal\<rparr>"

definition put_item :: "'a \<Rightarrow> 'a channel \<Rightarrow> 'a channel" where
  "put_item x c = append_item (Some x) c"

definition close_channel :: "'a channel \<Rightarrow> 'a channel" where
  "close_channel c = (if closed c then c else append_item None (c\<lparr>closed := True\<rparr>))"

definition signal :: "'a channel \<Rightarrow> 'a channel" where
  "signal c = (if event c \<noteq> None then c\<lparr>scheduled := scheduled c + 1\<rparr> else c)\<lparr>producer := Ready\<rparr>"

section \<open>Event loop\<close>

definition begin_get :: "'a channel \<Rightarrow> 'a channel" where
  "begin_get c = c\<lparr>consumer := Test\<rparr>"

text \<open>The next statement of \<^verbatim>\<open>get\<close>, or nothing while it is suspended or no call is running.\<close>

definition consumer_step :: "'a channel \<Rightarrow> 'a channel option" where
  "consumer_step c = (case consumer c of
     Idle \<Rightarrow> None
   | Test \<Rightarrow> Some (c\<lparr>consumer := (if buf c = [] then Create else Pop)\<rparr>)
   | Create \<Rightarrow> Some (c\<lparr>event := (if event c = None then Some False else event c), consumer := Clear\<rparr>)
   | Clear \<Rightarrow> Some (c\<lparr>event := Some False, consumer := Recheck\<rparr>)
   | Recheck \<Rightarrow> Some (c\<lparr>consumer := (if buf c \<noteq> [] then Test else Waiting)\<rparr>)
   | Waiting \<Rightarrow> if event c = Some True then Some (c\<lparr>consumer := Test\<rparr>) else None
   | Pop \<Rightarrow> (case buf c of
        [] \<Rightarrow> Some (c\<lparr>consumer := Crashed\<rparr>)
      | x # xs \<Rightarrow> Some (c\<lparr>buf := xs, delivered := delivered c @ [x], consumer := Idle\<rparr>))
   | Crashed \<Rightarrow> None)"

definition run_callback :: "'a channel \<Rightarrow> 'a channel" where
  "run_callback c = c\<lparr>event := Some True, scheduled := scheduled c - 1\<rparr>"

inductive channel_step :: "'a channel \<Rightarrow> 'a channel \<Rightarrow> bool" where
  putting: "producer c = Ready \<Longrightarrow> channel_step c (put_item x c)"
| closing: "producer c = Ready \<Longrightarrow> channel_step c (close_channel c)"
| signalling: "producer c = Signal \<Longrightarrow> channel_step c (signal c)"
| getting: "consumer c = Idle \<Longrightarrow> channel_step c (begin_get c)"
| consuming: "consumer_step c = Some c' \<Longrightarrow> channel_step c c'"
| callback: "0 < scheduled c \<Longrightarrow> consumer c \<in> {Idle, Waiting} \<Longrightarrow> channel_step c (run_callback c)"

definition channel_reach :: "'a channel \<Rightarrow> bool" where
  "channel_reach c \<longleftrightarrow> channel_step\<^sup>*\<^sup>* new_channel c"

section \<open>Invariant\<close>

definition channel_ok :: "'a channel \<Rightarrow> bool" where
  "channel_ok c \<longleftrightarrow> produced c = delivered c @ buf c \<and> consumer c \<noteq> Crashed \<and>
     (consumer c = Pop \<longrightarrow> buf c \<noteq> []) \<and>
     (consumer c \<in> {Clear, Recheck, Waiting} \<longrightarrow> event c \<noteq> None) \<and>
     (consumer c = Waiting \<and> buf c \<noteq> [] \<and> event c = Some False \<longrightarrow> 0 < scheduled c \<or> producer c = Signal)"

lemma channel_ok_append: "channel_ok c \<Longrightarrow> channel_ok (append_item x c)"
  by (auto simp: channel_ok_def append_item_def)

lemma channel_ok_consume:
  assumes "channel_ok c" and "consumer_step c = Some c'"
  shows "channel_ok c'"
proof (cases "consumer c")
  case Pop
  then obtain x xs where "buf c = x # xs" using assms(1) by (auto simp: channel_ok_def neq_Nil_conv)
  then show ?thesis using assms Pop by (auto simp: channel_ok_def consumer_step_def)
qed (use assms in \<open>auto simp: channel_ok_def consumer_step_def split: if_splits\<close>)

lemma channel_ok_step: "channel_step c c' \<Longrightarrow> channel_ok c \<Longrightarrow> channel_ok c'"
proof (induction rule: channel_step.induct)
  case (putting c x)
  then show ?case by (simp add: put_item_def channel_ok_append)
next
  case (closing c)
  have "channel_ok (c\<lparr>closed := True\<rparr>)" using closing(2) by (simp add: channel_ok_def)
  then show ?case using closing(2) by (simp add: close_channel_def channel_ok_append)
next
  case (signalling c)
  then show ?case by (auto simp: channel_ok_def signal_def)
next
  case (getting c)
  then show ?case by (simp add: channel_ok_def begin_get_def)
next
  case (consuming c c')
  show ?case by (rule channel_ok_consume [OF consuming(2,1)])
next
  case (callback c)
  then show ?case by (auto simp: channel_ok_def run_callback_def)
qed

lemma channel_reach_ok:
  assumes "channel_reach c"
  shows "channel_ok c"
proof -
  have "channel_step\<^sup>*\<^sup>* new_channel c" using assms by (simp add: channel_reach_def)
  then show ?thesis
    by (induction rule: rtranclp_induct) (simp add: channel_ok_def new_channel_def, rule channel_ok_step)
qed

section \<open>No wakeup is lost\<close>

text \<open>The event loop left to itself: the consumer runs while it can, then a pending callback.\<close>

definition loop_step :: "'a channel \<Rightarrow> 'a channel" where
  "loop_step c = (case consumer_step c of
     Some c' \<Rightarrow> c'
   | None \<Rightarrow> if 0 < scheduled c then run_callback c else c)"

definition got :: "'a option list \<Rightarrow> 'a channel \<Rightarrow> bool" where
  "got xs c \<longleftrightarrow> consumer c = Idle \<and> delivered c = xs"

lemma got_stays: "got xs c \<Longrightarrow> got xs (loop_step c)"
  by (simp add: got_def loop_step_def consumer_step_def run_callback_def)

lemma got_iterate: "got xs c \<Longrightarrow> got xs ((loop_step ^^ n) c)"
  by (induction n) (simp_all add: got_stays)

lemma pop_delivers: "consumer c = Pop \<Longrightarrow> buf c = x # xs \<Longrightarrow> got (delivered c @ [x]) (loop_step c)"
  by (simp add: got_def loop_step_def consumer_step_def)

lemma test_delivers: "consumer c = Test \<Longrightarrow> buf c = x # xs \<Longrightarrow> got (delivered c @ [x]) (loop_step (loop_step c))"
  using pop_delivers [of "loop_step c"] by (simp add: loop_step_def consumer_step_def)

text \<open>
  C35: the channel delivers every item, once, in order.  In every interleaving of the engine thread, the
  consumer and the event loop the delivered items followed by the buffered ones are exactly the items put,
  and \<^verbatim>\<open>popleft\<close> never meets an empty buffer; and no wakeup is lost: whenever a \<^verbatim>\<open>get\<close> is running, an item is
  buffered and the engine thread has finished its \<^verbatim>\<open>put\<close>, the event loop alone delivers the first buffered
  item within five of its steps, wherever in \<^verbatim>\<open>get\<close> the consumer was and whether the event existed or not.
\<close>

theorem channel_delivers:
  assumes "channel_reach c"
  shows "produced c = delivered c @ buf c \<and> consumer c \<noteq> Crashed \<and>
    (consumer c \<noteq> Idle \<and> buf c \<noteq> [] \<and> producer c = Ready \<longrightarrow>
       delivered ((loop_step ^^ 5) c) = delivered c @ [hd (buf c)])"
proof -
  have ok: "channel_ok c" using assms by (rule channel_reach_ok)
  have "delivered ((loop_step ^^ 5) c) = delivered c @ [hd (buf c)]"
    if running: "consumer c \<noteq> Idle" and items: "buf c \<noteq> []" and ready: "producer c = Ready"
  proof -
    obtain x xs where x: "buf c = x # xs" using items by (auto simp: neq_Nil_conv)
    have "\<exists>n \<le> 5. got (delivered c @ [x]) ((loop_step ^^ n) c)"
    proof (cases "consumer c")
      case Test
      show ?thesis using test_delivers [OF Test x] by (intro exI [of _ 2]) (simp add: numeral_2_eq_2)
    next
      case Pop
      show ?thesis using pop_delivers [OF Pop x] by (intro exI [of _ 1]) simp
    next
      case Recheck
      let ?d = "loop_step c"
      have "consumer ?d = Test" "buf ?d = x # xs" "delivered ?d = delivered c"
        using Recheck x by (simp_all add: loop_step_def consumer_step_def)
      then show ?thesis using test_delivers [of ?d x xs] by (intro exI [of _ 3]) (simp add: numeral_3_eq_3)
    next
      case Clear
      let ?d = "loop_step (loop_step c)"
      have "consumer ?d = Test" "buf ?d = x # xs" "delivered ?d = delivered c"
        using Clear x by (simp_all add: loop_step_def consumer_step_def)
      then show ?thesis using test_delivers [of ?d x xs] by (intro exI [of _ 4]) (simp add: eval_nat_numeral)
    next
      case Create
      let ?d = "loop_step (loop_step (loop_step c))"
      have "consumer ?d = Test" "buf ?d = x # xs" "delivered ?d = delivered c"
        using Create x by (simp_all add: loop_step_def consumer_step_def)
      then show ?thesis using test_delivers [of ?d x xs] by (intro exI [of _ 5]) (simp add: eval_nat_numeral)
    next
      case Waiting
      show ?thesis
      proof (cases "event c = Some True")
        case True
        let ?d = "loop_step c"
        have "consumer ?d = Test" "buf ?d = x # xs" "delivered ?d = delivered c"
          using Waiting True x by (simp_all add: loop_step_def consumer_step_def)
        then show ?thesis using test_delivers [of ?d x xs] by (intro exI [of _ 3]) (simp add: numeral_3_eq_3)
      next
        case False
        then have "0 < scheduled c" using ok Waiting items ready by (auto simp: channel_ok_def)
        let ?d = "loop_step (loop_step c)"
        have "consumer ?d = Test" "buf ?d = x # xs" "delivered ?d = delivered c"
          using Waiting False x \<open>0 < scheduled c\<close> by (simp_all add: loop_step_def consumer_step_def run_callback_def)
        then show ?thesis using test_delivers [of ?d x xs] by (intro exI [of _ 4]) (simp add: eval_nat_numeral)
      qed
    qed (use running ok in \<open>simp_all add: channel_ok_def\<close>)
    then obtain n where n: "n \<le> 5" "got (delivered c @ [x]) ((loop_step ^^ n) c)" by blast
    have "(loop_step ^^ 5) c = (loop_step ^^ (5 - n)) ((loop_step ^^ n) c)"
      using n(1) by (simp flip: funpow_add comp_apply [of "loop_step ^^ (5 - n)"])
    then have "got (delivered c @ [x]) ((loop_step ^^ 5) c)" using got_iterate [OF n(2)] by simp
    then show ?thesis by (simp add: got_def x)
  qed
  then show ?thesis using ok by (auto simp: channel_ok_def)
qed

text \<open>A consumer that suspends on the empty channel before the first item arrives.\<close>

definition demo_channel :: "nat channel" where
  "demo_channel = new_channel\<lparr>buf := [Some 7], event := Some False, scheduled := 1, consumer := Waiting,
     produced := [Some 7]\<rparr>"

lemma demo_channel_reach: "channel_reach demo_channel"
proof -
  let ?at = "\<lambda>ev pc. new_channel\<lparr>event := ev, consumer := pc\<rparr> :: nat channel"
  let ?put = "put_item 7 (?at (Some False) Waiting)"
  have "channel_step new_channel (?at None Test)"
    using channel_step.getting [of new_channel] by (simp add: begin_get_def new_channel_def)
  moreover have "channel_step (?at None Test) (?at None Create)" "channel_step (?at None Create) (?at (Some False) Clear)"
    "channel_step (?at (Some False) Clear) (?at (Some False) Recheck)"
    "channel_step (?at (Some False) Recheck) (?at (Some False) Waiting)"
    by (rule channel_step.consuming, simp add: consumer_step_def new_channel_def)+
  moreover have "channel_step (?at (Some False) Waiting) ?put"
    by (rule channel_step.putting) (simp add: new_channel_def)
  moreover have "channel_step ?put demo_channel"
    using channel_step.signalling [of ?put]
    by (simp add: put_item_def append_item_def signal_def demo_channel_def new_channel_def)
  ultimately show ?thesis
    unfolding channel_reach_def by (meson rtranclp.rtrancl_into_rtrancl rtranclp.rtrancl_refl)
qed

theorem channel_delivers_witness:
  "consumer demo_channel = Waiting \<and> delivered ((loop_step ^^ 5) demo_channel) = [Some 7]"
proof -
  have d: "consumer demo_channel = Waiting" "buf demo_channel = [Some 7]" "producer demo_channel = Ready"
    "delivered demo_channel = []"
    by (simp_all add: demo_channel_def new_channel_def)
  have "delivered ((loop_step ^^ 5) demo_channel) = delivered demo_channel @ [hd (buf demo_channel)]"
    using channel_delivers [OF demo_channel_reach] d by simp
  then show ?thesis using d by simp
qed

end
