(* ===== verification/Engine_State.thy ===== *)
theory Engine_State
  imports Prelude Complex_Main
begin

text \<open>
  The request and slot bookkeeping of \<^verbatim>\<open>ServerEngine\<close> (\<^verbatim>\<open>server/engine.py\<close>): the bounded request budget,
  activation and completion, retained warm slots, cancellation, admission, timeouts and the recovery after
  a failed round.  The backend is a record of the answers the engine uses; its \<^verbatim>\<open>reset_slot\<close> may raise.
  Counters kept for statistics, tracing and logging are left out.
\<close>

section \<open>State\<close>

record request =
  request_id :: nat
  session_id :: string
  prompt_ids :: "int list"
  max_tokens :: int

text \<open>An entry of \<^verbatim>\<open>active\<close>; times and rounds are the optional dictionary fields the code reads with \<^verbatim>\<open>get\<close>.\<close>

record slot_entry =
  entry_req :: request
  committed_len :: int
  start_time :: "rat option"
  last_progress_round :: "int option"

record warm_slot =
  warm_id :: int
  expire_t :: rat
  prior_len :: nat
  committed_full :: "int list"

datatype failure = Cancelled | TimedOut | Wedged | Round_failed pyexc

datatype outcome = Finished string | Failed failure

record engine =
  free_slots :: "int list"
  active :: "(int \<times> slot_entry) list"
  retained :: "(string \<times> warm_slot) list"
  waiting :: "request list"
  incoming :: "request list"
  pending_prefill :: bool
  pending_reqs :: "(int \<times> request) list"
  inflight_reqs :: "(int \<times> request) list"
  request_count :: int
  queue_released :: "nat set"
  outcomes :: "(nat \<times> outcome) list"
  stopped :: bool
  fatal :: bool
  round_no :: int
  retry_round :: int
  dedup_inflight :: "int list set"
  dedup_published :: "int set"

record engine_cfg =
  capacity :: int
  max_pending_requests :: int
  cfg_block_size :: nat
  spec_k :: int
  session_affinity :: bool
  prefix_cache_on :: bool
  cap_prefix_cache :: bool
  session_ttl :: rat
  eos_ids :: "int set"
  request_timeout :: rat
  max_stale_rounds :: int
  dedup_on :: bool
  kv_reservation :: bool

text \<open>
  What the engine asks the backend.  The answers are functions fixed for one execution of an operation; the
  backend's own state is outside this model.
\<close>

record engine_backend =
  reset_error :: "int \<Rightarrow> pyexc option"
  slot_fresh :: "int \<Rightarrow> bool"
  slot_state :: "int \<Rightarrow> nat \<times> int list"
  reserve_fits :: "int \<Rightarrow> int \<Rightarrow> bool"
  best_slot :: "request \<Rightarrow> int list \<Rightarrow> int"

definition engine_init :: "engine_cfg \<Rightarrow> engine" where
  "engine_init cfg = \<lparr>free_slots = [0..capacity cfg - 1], active = [], retained = [], waiting = [], incoming = [],
     pending_prefill = False, pending_reqs = [], inflight_reqs = [], request_count = 0, queue_released = {},
     outcomes = [], stopped = False, fatal = False, round_no = 0, retry_round = 0,
     dedup_inflight = {}, dedup_published = {}\<rparr>"

section \<open>Requests\<close>

definition enqueue_request :: "engine_cfg \<Rightarrow> request \<Rightarrow> (engine, unit) prog" where
  "enqueue_request cfg req = reading (\<lambda>e. (fatal e, stopped e, request_count e)) (\<lambda>(bad, stop, n).
     guard bad (EngineUnavailable ''unrecoverable runtime error'') (
     guard stop (EngineUnavailable ''inference engine is stopped'') (
     guard (max_pending_requests cfg \<le> n) (RequestQueueFull ''runtime request budget exhausted'') (
     update (\<lambda>e. e\<lparr>request_count := request_count e + 1, incoming := incoming e @ [req]\<rparr>)))))"

definition ensure_request_capacity :: "engine_cfg \<Rightarrow> (engine, unit) prog" where
  "ensure_request_capacity cfg = reading request_count (\<lambda>n.
     guard (max_pending_requests cfg \<le> n) (RequestQueueFull ''runtime request budget exhausted'') (ret ()))"

definition release_request :: "request \<Rightarrow> (engine, unit) prog" where
  "release_request req = update (\<lambda>e.
     if request_id req \<in> queue_released e then e
     else e\<lparr>queue_released := insert (request_id req) (queue_released e), request_count := max 0 (request_count e - 1)\<rparr>)"

text \<open>
  \<^verbatim>\<open>_resolve_future\<close> and \<^verbatim>\<open>_fail_future\<close>: nothing on a future that is done.  The code hands the result to the
  event loop, which sets it later; the model sets it at once, so a future is done as soon as the engine has
  answered it.
\<close>

definition settle_future :: "request \<Rightarrow> outcome \<Rightarrow> (engine, unit) prog" where
  "settle_future req out = update (\<lambda>e.
     if request_id req \<in> fst ` set (outcomes e) then e
     else e\<lparr>outcomes := outcomes e @ [(request_id req, out)]\<rparr>)"

definition fail_request :: "request \<Rightarrow> failure \<Rightarrow> (engine, unit) prog" where
  "fail_request req f = andThen (release_request req) (\<lambda>_. settle_future req (Failed f))"

definition drain_requests :: "(engine, unit) prog" where
  "drain_requests = update (\<lambda>e. e\<lparr>waiting := waiting e @ incoming e, incoming := []\<rparr>)"

section \<open>Slots\<close>

definition reset_slot :: "engine_backend \<Rightarrow> int \<Rightarrow> (engine, unit) prog" where
  "reset_slot bk slot = (case reset_error bk slot of Some err \<Rightarrow> raise err | None \<Rightarrow> ret ())"

text \<open>\<open>try: m  except Exception: log\<close>.\<close>

definition caught :: "(engine, unit) prog \<Rightarrow> (engine, unit) prog" where
  "caught m = (\<lambda>e. (Inr (), snd (m e)))"

definition free_slot :: "int \<Rightarrow> (engine, unit) prog" where
  "free_slot slot = update (\<lambda>e. e\<lparr>free_slots := free_slots e @ [slot]\<rparr>)"

definition retain_slot :: "engine_cfg \<Rightarrow> engine_backend \<Rightarrow> rat \<Rightarrow> int \<Rightarrow> string \<Rightarrow> (engine, unit) prog" where
  "retain_slot cfg bk now slot sid = update (\<lambda>e. e\<lparr>retained := dict_set (retained e) sid
     \<lparr>warm_id = slot, expire_t = now + session_ttl cfg, prior_len = fst (slot_state bk slot),
      committed_full = snd (slot_state bk slot)\<rparr>\<rparr>)"

definition finish_request ::
    "engine_cfg \<Rightarrow> engine_backend \<Rightarrow> rat \<Rightarrow> int \<Rightarrow> request \<Rightarrow> string \<Rightarrow> (engine, unit) prog" where
  "finish_request cfg bk now slot req reason =
     andThen (if kv_reservation cfg then update (\<lambda>e. e\<lparr>retry_round := 0\<rparr>) else ret ()) (\<lambda>_.
     andThen (release_request req) (\<lambda>_.
     andThen (settle_future req (Finished reason)) (\<lambda>_.
     if session_affinity cfg \<and> session_id req \<noteq> [] \<and> prefix_cache_on cfg then
       reading (\<lambda>e. map_of (retained e) (session_id req)) (\<lambda>old.
       andThen (case old of
           Some w \<Rightarrow> if warm_id w \<noteq> slot then andThen (reset_slot bk (warm_id w)) (\<lambda>_. free_slot (warm_id w)) else ret ()
         | None \<Rightarrow> ret ()) (\<lambda>_.
       retain_slot cfg bk now slot (session_id req)))
     else andThen (reset_slot bk slot) (\<lambda>_. free_slot slot))))"

text \<open>
  What a finished prefill says about a slot: its first token, the exception activation raises before using it
  (thinking constraint, bootstrap check), and the finish reason when that token completes a stop sequence
  or a tool call.
\<close>

record prefill_answer =
  anchor :: int
  anchor_error :: "pyexc option"
  anchor_ends :: "string option"

definition activate_slot ::
    "engine_cfg \<Rightarrow> engine_backend \<Rightarrow> rat \<Rightarrow> int \<Rightarrow> request \<Rightarrow> prefill_answer \<Rightarrow> (engine, unit) prog" where
  "activate_slot cfg bk now slot req ans = (case anchor_error ans of
     Some err \<Rightarrow> raise err
   | None \<Rightarrow>
       if anchor ans \<in> eos_ids cfg then finish_request cfg bk now slot req ''stop''
       else
         andThen (update (\<lambda>e. e\<lparr>active := dict_set (active e) slot
             \<lparr>entry_req = req, committed_len = 1, start_time = Some now, last_progress_round = Some (round_no e)\<rparr>\<rparr>)) (\<lambda>_.
         let drop_entry = update (\<lambda>e. e\<lparr>active := dict_del (active e) slot\<rparr>) in
         case anchor_ends ans of
           Some reason \<Rightarrow> andThen (finish_request cfg bk now slot req reason) (\<lambda>_. drop_entry)
         | None \<Rightarrow>
             if max_tokens req \<le> 1 then andThen (finish_request cfg bk now slot req ''length'') (\<lambda>_. drop_entry)
             else ret ()))"

definition expire_retained_slots :: "engine_backend \<Rightarrow> rat \<Rightarrow> (engine, unit) prog" where
  "expire_retained_slots bk now = reading retained (\<lambda>ret0.
     for_each (\<lambda>(sid, w).
       andThen (update (\<lambda>e. e\<lparr>retained := dict_del (retained e) sid\<rparr>)) (\<lambda>_.
       andThen (caught (reset_slot bk (warm_id w))) (\<lambda>_. free_slot (warm_id w))))
       (filter (\<lambda>(_, w). expire_t w \<le> now) ret0))"

definition release_all_retained :: "engine_backend \<Rightarrow> bool \<Rightarrow> (engine, unit) prog" where
  "release_all_retained bk reset_slots = reading retained (\<lambda>ret0.
     for_each (\<lambda>(sid, w).
       andThen (update (\<lambda>e. e\<lparr>retained := dict_del (retained e) sid\<rparr>)) (\<lambda>_.
       if reset_slots then caught (reset_slot bk (warm_id w)) else ret ())) ret0)"

section \<open>Cancellation\<close>

definition cancel_active :: "engine_backend \<Rightarrow> nat set \<Rightarrow> (engine, unit) prog" where
  "cancel_active bk ids = reading active (\<lambda>act.
     for_each (\<lambda>(s, st).
       andThen (update (\<lambda>e. e\<lparr>active := dict_del (active e) s\<rparr>)) (\<lambda>_.
       andThen (fail_request (entry_req st) Cancelled) (\<lambda>_.
       andThen (caught (reset_slot bk s)) (\<lambda>_.
       andThen (free_slot s) (\<lambda>_. update (\<lambda>e. e\<lparr>retry_round := 0\<rparr>))))))
       (filter (\<lambda>(_, st). request_id (entry_req st) \<in> ids) act))"

definition cancel_queued :: "nat set \<Rightarrow> (engine, unit) prog" where
  "cancel_queued ids = reading (\<lambda>e. (waiting e, incoming e)) (\<lambda>(w, q).
     andThen (for_each (\<lambda>req. fail_request req Cancelled) (filter (\<lambda>r. request_id r \<in> ids) w)) (\<lambda>_.
     andThen (update (\<lambda>e. e\<lparr>waiting := filter (\<lambda>r. request_id r \<notin> ids) w\<rparr>)) (\<lambda>_.
     andThen (for_each (\<lambda>req. fail_request req Cancelled) (filter (\<lambda>r. request_id r \<in> ids) q)) (\<lambda>_.
     update (\<lambda>e. e\<lparr>incoming := filter (\<lambda>r. request_id r \<notin> ids) q\<rparr>)))))"

definition block_aligned :: "engine_cfg \<Rightarrow> request \<Rightarrow> bool" where
  "block_aligned cfg req \<longleftrightarrow> cfg_block_size cfg \<le> length (prompt_ids req) \<and> length (prompt_ids req) mod cfg_block_size cfg = 0"

text \<open>\<^verbatim>\<open>_release_prefix_dedup_keys\<close>; \<open>hash\<close> is Python's, \<open>victim\<close> the member \<^verbatim>\<open>set.pop\<close> removes, \<open>256\<close> the bound kept.\<close>

definition release_prefix_dedup_keys ::
    "engine_cfg \<Rightarrow> (int list \<Rightarrow> int) \<Rightarrow> (int set \<Rightarrow> int) \<Rightarrow> bool \<Rightarrow> request list \<Rightarrow> (engine, unit) prog" where
  "release_prefix_dedup_keys cfg hash victim published reqs =
     for_each (\<lambda>req. update (\<lambda>e.
       if block_aligned cfg req then
         let pub = insert (hash (prompt_ids req)) (dedup_published e)
         in e\<lparr>dedup_inflight := dedup_inflight e - {prompt_ids req},
              dedup_published := (if published then (if 256 < card pub then pub - {victim pub} else pub) else dedup_published e)\<rparr>
       else e)) reqs"

definition abort_prefill ::
    "engine_cfg \<Rightarrow> engine_backend \<Rightarrow> (int list \<Rightarrow> int) \<Rightarrow> (int set \<Rightarrow> int) \<Rightarrow> nat set \<Rightarrow> (engine, unit) prog" where
  "abort_prefill cfg bk hash victim ids = reading pending_reqs (\<lambda>pending.
     if list_ex (\<lambda>(_, req). request_id req \<in> ids) pending then
       andThen (release_prefix_dedup_keys cfg hash victim False (map snd pending)) (\<lambda>_.
       andThen (update (\<lambda>e. e\<lparr>pending_prefill := False, pending_reqs := []\<rparr>)) (\<lambda>_.
       for_each (\<lambda>(slot, req).
         andThen (caught (reset_slot bk slot)) (\<lambda>_.
         andThen (update (\<lambda>e. if slot \<in> set (free_slots e) then e else e\<lparr>free_slots := free_slots e @ [slot]\<rparr>)) (\<lambda>_.
         if request_id req \<in> ids then fail_request req Cancelled
         else update (\<lambda>e. e\<lparr>waiting := req # waiting e\<rparr>)))) pending))
     else ret ())"

definition process_cancellations ::
    "engine_cfg \<Rightarrow> engine_backend \<Rightarrow> (int list \<Rightarrow> int) \<Rightarrow> (int set \<Rightarrow> int) \<Rightarrow> nat set \<Rightarrow> (engine, unit) prog" where
  "process_cancellations cfg bk hash victim ids =
     (if ids = {} then ret ()
      else andThen (cancel_active bk ids) (\<lambda>_.
        andThen (cancel_queued ids) (\<lambda>_. abort_prefill cfg bk hash victim ids)))"

section \<open>Warm continuation and prefill\<close>

definition warm_fallback :: "engine_backend \<Rightarrow> int \<Rightarrow> request \<Rightarrow> (engine, unit) prog" where
  "warm_fallback bk slot req =
     andThen (reset_slot bk slot) (\<lambda>_. andThen (free_slot slot) (\<lambda>_.
     update (\<lambda>e. e\<lparr>waiting := req # waiting e\<rparr>)))"

definition warm_continue_one ::
    "engine_cfg \<Rightarrow> engine_backend \<Rightarrow> rat \<Rightarrow> (int \<Rightarrow> request \<Rightarrow> prefill_answer res) \<Rightarrow> request \<Rightarrow> (engine, unit) prog" where
  "warm_continue_one cfg bk now warm req = reading (\<lambda>e. map_of (retained e) (session_id req)) (\<lambda>found.
     case found of
       None \<Rightarrow> ret ()
     | Some w \<Rightarrow>
         if session_id req = [] then ret ()
         else
           andThen (update (\<lambda>e. e\<lparr>retained := dict_del (retained e) (session_id req), waiting := remove1 req (waiting e)\<rparr>)) (\<lambda>_.
           if prior_len w < length (prompt_ids req) \<and> take (prior_len w) (prompt_ids req) = take (prior_len w) (committed_full w)
           then (case warm (warm_id w) req of
               Inl err \<Rightarrow> warm_fallback bk (warm_id w) req
             | Inr ans \<Rightarrow> activate_slot cfg bk now (warm_id w) req ans)
           else warm_fallback bk (warm_id w) req))"

definition warm_continue ::
    "engine_cfg \<Rightarrow> engine_backend \<Rightarrow> rat \<Rightarrow> (int \<Rightarrow> request \<Rightarrow> prefill_answer res) \<Rightarrow> (engine, unit) prog" where
  "warm_continue cfg bk now warm = reading (\<lambda>e. (retained e, waiting e)) (\<lambda>(r, w).
     if session_affinity cfg \<and> r \<noteq> [] then for_each (warm_continue_one cfg bk now warm) w else ret ())"

definition fail_slots :: "engine_backend \<Rightarrow> bool \<Rightarrow> pyexc \<Rightarrow> (int \<times> request) list \<Rightarrow> (engine, unit) prog" where
  "fail_slots bk is_fatal err reqs = for_each (\<lambda>(slot, req).
     andThen (fail_request req (Round_failed err)) (\<lambda>_.
     andThen (if is_fatal then ret () else caught (reset_slot bk slot)) (\<lambda>_. free_slot slot))) reqs"

text \<open>One step of the pending incremental prefill: it raised, is not done, or is done with an answer per slot.\<close>

definition advance_prefill ::
    "engine_cfg \<Rightarrow> engine_backend \<Rightarrow> (int list \<Rightarrow> int) \<Rightarrow> (int set \<Rightarrow> int) \<Rightarrow> (pyexc \<Rightarrow> bool) \<Rightarrow> rat \<Rightarrow>
      (int \<Rightarrow> prefill_answer) option res \<Rightarrow> (engine, unit) prog" where
  "advance_prefill cfg bk hash victim is_fatal now step = reading (\<lambda>e. (pending_prefill e, pending_reqs e)) (\<lambda>(running, reqs).
     let clear = update (\<lambda>e. e\<lparr>pending_prefill := False, pending_reqs := []\<rparr>) in
     if \<not> running then ret ()
     else case step of
       Inl err \<Rightarrow>
         andThen (release_prefix_dedup_keys cfg hash victim False (map snd reqs)) (\<lambda>_.
         andThen (fail_slots bk (is_fatal err) err reqs) (\<lambda>_.
         andThen clear (\<lambda>_. if is_fatal err then raise err else ret ())))
     | Inr None \<Rightarrow> ret ()
     | Inr (Some result) \<Rightarrow>
         andThen (release_prefix_dedup_keys cfg hash victim True (map snd reqs)) (\<lambda>_.
         andThen (for_each (\<lambda>(slot, req). activate_slot cfg bk now slot req (result slot)) reqs) (\<lambda>_. clear)))"

section \<open>Admission\<close>

text \<open>The loop of \<^verbatim>\<open>_select_admission_requests\<close> with in-batch deduplication: selected, deferred, keys now in flight.\<close>

fun select_loop ::
    "engine_cfg \<Rightarrow> (int list \<Rightarrow> int) \<Rightarrow> int set \<Rightarrow> int list set \<Rightarrow> nat \<Rightarrow> request list \<Rightarrow>
      request list \<Rightarrow> request list \<Rightarrow> int list set \<Rightarrow> request list \<times> request list \<times> int list set" where
  "select_loop cfg hash published at_start limit [] selected deferred keys = (selected, deferred, keys)"
| "select_loop cfg hash published at_start limit (req # reqs) selected deferred keys =
     (let key = prompt_ids req;
          aligned = block_aligned cfg req;
          duplicate_inflight = aligned \<and> key \<in> at_start;
          duplicate_selected = aligned \<and> key \<in> keys \<and> hash key \<notin> published
      in if length selected < limit \<and> \<not> duplicate_inflight \<and> \<not> duplicate_selected
         then select_loop cfg hash published at_start limit reqs (selected @ [req]) deferred
                (if aligned then insert key keys else keys)
         else select_loop cfg hash published at_start limit reqs selected (deferred @ [req]) keys)"

definition select_admission_requests ::
    "engine_cfg \<Rightarrow> (int list \<Rightarrow> int) \<Rightarrow> int \<Rightarrow> (engine, request list) prog" where
  "select_admission_requests cfg hash limit = (\<lambda>e.
     if limit \<le> 0 \<or> waiting e = [] then (Inr [], e)
     else if \<not> dedup_on cfg then (Inr (take (nat limit) (waiting e)), e\<lparr>waiting := drop (nat limit) (waiting e)\<rparr>)
     else case select_loop cfg hash (dedup_published e) (dedup_inflight e) (nat limit) (waiting e) [] [] {} of
       (selected, deferred, keys) \<Rightarrow>
         (Inr selected, e\<lparr>waiting := deferred, dedup_inflight := dedup_inflight e \<union> keys\<rparr>))"

text \<open>A slot per request: the backend's best free slot, or the first; with the slots left over.\<close>

fun assign_slots :: "engine_cfg \<Rightarrow> engine_backend \<Rightarrow> request list \<Rightarrow> int list \<Rightarrow> (int \<times> request) list \<times> int list" where
  "assign_slots cfg bk [] slots = ([], slots)"
| "assign_slots cfg bk (req # reqs) slots =
     (let slot = (if cap_prefix_cache cfg \<and> slots \<noteq> [] then best_slot bk req slots else hd slots)
      in case assign_slots cfg bk reqs (remove1 slot slots) of (admitted, rest) \<Rightarrow> ((slot, req) # admitted, rest))"

text \<open>The requests before the first one whose tokens do not fit.\<close>

definition fitting :: "engine_cfg \<Rightarrow> engine_backend \<Rightarrow> (int \<times> request) list \<Rightarrow> (int \<times> request) list" where
  "fitting cfg bk admitted =
     (if kv_reservation cfg
      then takeWhile (\<lambda>(slot, req). reserve_fits bk slot (int (length (prompt_ids req)) + max_tokens req + spec_k cfg)) admitted
      else admitted)"

text \<open>The exception handler of an admission wave.\<close>

definition fail_admission ::
    "engine_cfg \<Rightarrow> engine_backend \<Rightarrow> (int list \<Rightarrow> int) \<Rightarrow> (int set \<Rightarrow> int) \<Rightarrow> (pyexc \<Rightarrow> bool) \<Rightarrow>
      (int \<times> request) list \<Rightarrow> pyexc \<Rightarrow> (engine, unit) prog" where
  "fail_admission cfg bk hash victim is_fatal admit err =
     andThen (release_prefix_dedup_keys cfg hash victim False (map snd admit)) (\<lambda>_.
     andThen (fail_slots bk (is_fatal err) err admit) (\<lambda>_. if is_fatal err then raise err else ret ()))"

text \<open>The requests that have to wait for capacity go back to the head of the queue, their slots to the free ones.\<close>

definition defer_requests ::
    "engine_cfg \<Rightarrow> (int list \<Rightarrow> int) \<Rightarrow> (int set \<Rightarrow> int) \<Rightarrow> (int \<times> request) list \<Rightarrow> (engine, unit) prog" where
  "defer_requests cfg hash victim deferred =
     (if deferred = [] then ret ()
      else andThen (update (\<lambda>e. e\<lparr>waiting := map snd deferred @ waiting e\<rparr>)) (\<lambda>_.
        andThen (release_prefix_dedup_keys cfg hash victim False (map snd deferred)) (\<lambda>_.
        update (\<lambda>e. e\<lparr>free_slots := free_slots e @ map fst deferred, retry_round := round_no e + 16\<rparr>))))"

text \<open>What \<^verbatim>\<open>prefill_chunked_begin\<close> leaves: done at once with answers, or to be continued.\<close>

definition start_prefill ::
    "engine_cfg \<Rightarrow> engine_backend \<Rightarrow> (int list \<Rightarrow> int) \<Rightarrow> (int set \<Rightarrow> int) \<Rightarrow> (pyexc \<Rightarrow> bool) \<Rightarrow> rat \<Rightarrow>
      ((int \<times> request) list \<Rightarrow> (int \<Rightarrow> prefill_answer) option res) \<Rightarrow> (int \<times> request) list \<Rightarrow> (engine, unit) prog" where
  "start_prefill cfg bk hash victim is_fatal now prefill admit =
     (if admit = [] then ret ()
      else case prefill admit of
        Inl err \<Rightarrow> fail_admission cfg bk hash victim is_fatal admit err
      | Inr (Some result) \<Rightarrow>
          andThen (release_prefix_dedup_keys cfg hash victim True (map snd admit)) (\<lambda>_.
          for_each (\<lambda>(slot, req). activate_slot cfg bk now slot req (result slot)) admit)
      | Inr None \<Rightarrow> update (\<lambda>e. e\<lparr>pending_prefill := True, pending_reqs := admit\<rparr>))"

definition admit_selected ::
    "engine_cfg \<Rightarrow> engine_backend \<Rightarrow> (int list \<Rightarrow> int) \<Rightarrow> (int set \<Rightarrow> int) \<Rightarrow> (pyexc \<Rightarrow> bool) \<Rightarrow> rat \<Rightarrow>
      ((int \<times> request) list \<Rightarrow> (int \<Rightarrow> prefill_answer) option res) \<Rightarrow> int list \<Rightarrow> request list \<Rightarrow> (engine, unit) prog" where
  "admit_selected cfg bk hash victim is_fatal now prefill free reqs =
     (case assign_slots cfg bk reqs free of (admitted, rest) \<Rightarrow>
       andThen (update (\<lambda>e. e\<lparr>free_slots := rest\<rparr>)) (\<lambda>_.
       case find (\<lambda>(slot, _). \<not> slot_fresh bk slot \<and> reset_error bk slot \<noteq> None) admitted of
         Some (slot, _) \<Rightarrow> fail_admission cfg bk hash victim is_fatal admitted (the (reset_error bk slot))
       | None \<Rightarrow>
           andThen (defer_requests cfg hash victim (drop (length (fitting cfg bk admitted)) admitted)) (\<lambda>_.
           start_prefill cfg bk hash victim is_fatal now prefill (fitting cfg bk admitted))))"

definition admit_requests ::
    "engine_cfg \<Rightarrow> engine_backend \<Rightarrow> (int list \<Rightarrow> int) \<Rightarrow> (int set \<Rightarrow> int) \<Rightarrow> (pyexc \<Rightarrow> bool) \<Rightarrow> rat \<Rightarrow>
      ((int \<times> request) list \<Rightarrow> (int \<Rightarrow> prefill_answer) option res) \<Rightarrow> (engine, unit) prog" where
  "admit_requests cfg bk hash victim is_fatal now prefill =
     reading (\<lambda>e. (free_slots e, waiting e, pending_prefill e, retry_round e \<le> round_no e)) (\<lambda>(free, w, running, due).
     if running \<or> free = [] \<or> w = [] \<or> \<not> due then ret ()
     else andThen (select_admission_requests cfg hash (int (min (length free) (length w))))
            (admit_selected cfg bk hash victim is_fatal now prefill free))"

section \<open>After a decode round\<close>

definition find_timed_out_slots :: "(int \<times> slot_entry) list \<Rightarrow> rat \<Rightarrow> rat \<Rightarrow> int list" where
  "find_timed_out_slots act now timeout_s =
     (if timeout_s \<le> 0 then []
      else map fst (filter (\<lambda>(_, st). now - (case start_time st of None \<Rightarrow> now | Some t \<Rightarrow> t) > timeout_s) act))"

definition find_stale_slots :: "(int \<times> slot_entry) list \<Rightarrow> int \<Rightarrow> int \<Rightarrow> int list" where
  "find_stale_slots act current_round max_stale =
     (if max_stale \<le> 0 then []
      else map fst (filter (\<lambda>(_, st).
        current_round - (case last_progress_round st of None \<Rightarrow> 0 | Some r \<Rightarrow> r) > max_stale) act))"

definition reclaim_slot :: "engine_backend \<Rightarrow> failure \<Rightarrow> int \<Rightarrow> (engine, unit) prog" where
  "reclaim_slot bk f s = reading (\<lambda>e. map_of (active e) s) (\<lambda>entry. case entry of
     None \<Rightarrow> raise (KeyError ''active.pop'')
   | Some st \<Rightarrow>
       andThen (update (\<lambda>e. e\<lparr>active := dict_del (active e) s\<rparr>)) (\<lambda>_.
       andThen (fail_request (entry_req st) f) (\<lambda>_.
       andThen (caught (reset_slot bk s)) (\<lambda>_. free_slot s))))"

definition reclaim_timed_out :: "engine_cfg \<Rightarrow> engine_backend \<Rightarrow> rat \<Rightarrow> (engine, unit) prog" where
  "reclaim_timed_out cfg bk now = reading active (\<lambda>act.
     for_each (reclaim_slot bk TimedOut) (find_timed_out_slots act now (request_timeout cfg)))"

definition reclaim_stale :: "engine_cfg \<Rightarrow> engine_backend \<Rightarrow> (engine, unit) prog" where
  "reclaim_stale cfg bk = reading (\<lambda>e. (active e, round_no e)) (\<lambda>(act, r).
     for_each (reclaim_slot bk Wedged) (find_stale_slots act r (max_stale_rounds cfg)))"

section \<open>Recovery\<close>

fun fail_pending_slots ::
    "engine_backend \<Rightarrow> bool \<Rightarrow> pyexc \<Rightarrow> int set \<Rightarrow> (int \<times> request) list \<Rightarrow> (engine, unit) prog" where
  "fail_pending_slots bk reset_slots err seen [] = ret ()"
| "fail_pending_slots bk reset_slots err seen ((slot, req) # rest) =
     andThen (fail_request req (Round_failed err)) (\<lambda>_.
     if slot \<in> seen then fail_pending_slots bk reset_slots err seen rest
     else
       andThen (if reset_slots then caught (reset_slot bk slot) else ret ()) (\<lambda>_.
       andThen (update (\<lambda>e. if slot \<in> set (free_slots e) then e else e\<lparr>free_slots := free_slots e @ [slot]\<rparr>)) (\<lambda>_.
       fail_pending_slots bk reset_slots err (insert slot seen) rest)))"

definition fail_pending_requests ::
    "engine_cfg \<Rightarrow> engine_backend \<Rightarrow> (int list \<Rightarrow> int) \<Rightarrow> (int set \<Rightarrow> int) \<Rightarrow> bool \<Rightarrow> pyexc \<Rightarrow> (engine, unit) prog" where
  "fail_pending_requests cfg bk hash victim reset_slots err =
     reading (\<lambda>e. (incoming e @ waiting e, pending_reqs e @ inflight_reqs e)) (\<lambda>(queued, pending).
     andThen (update (\<lambda>e. e\<lparr>incoming := [], waiting := []\<rparr>)) (\<lambda>_.
     andThen (release_prefix_dedup_keys cfg hash victim False (map snd pending)) (\<lambda>_.
     andThen (update (\<lambda>e. e\<lparr>pending_prefill := False, pending_reqs := [], inflight_reqs := [],
         dedup_inflight := {}, dedup_published := {}\<rparr>)) (\<lambda>_.
     andThen (fail_pending_slots bk reset_slots err {} pending) (\<lambda>_.
     for_each (\<lambda>req. fail_request req (Round_failed err)) queued)))))"

definition recover_round ::
    "engine_cfg \<Rightarrow> engine_backend \<Rightarrow> (int list \<Rightarrow> int) \<Rightarrow> (int set \<Rightarrow> int) \<Rightarrow> pyexc \<Rightarrow> (engine, unit) prog" where
  "recover_round cfg bk hash victim err = reading active (\<lambda>act.
     andThen (for_each (\<lambda>(slot, st).
       andThen (fail_request (entry_req st) (Round_failed err)) (\<lambda>_.
       andThen (caught (reset_slot bk slot)) (\<lambda>_. free_slot slot))) act) (\<lambda>_.
     andThen (update (\<lambda>e. e\<lparr>active := []\<rparr>)) (\<lambda>_.
     andThen (fail_pending_requests cfg bk hash victim True err) (\<lambda>_.
     release_all_retained bk True))))"

definition shut_down_fatal ::
    "engine_cfg \<Rightarrow> engine_backend \<Rightarrow> (int list \<Rightarrow> int) \<Rightarrow> (int set \<Rightarrow> int) \<Rightarrow> pyexc \<Rightarrow> (engine, unit) prog" where
  "shut_down_fatal cfg bk hash victim err = reading active (\<lambda>act.
     andThen (update (\<lambda>e. e\<lparr>fatal := True, stopped := True\<rparr>)) (\<lambda>_.
     andThen (for_each (\<lambda>(slot, st).
       andThen (fail_request (entry_req st) (Round_failed err)) (\<lambda>_.
       update (\<lambda>e. if slot \<in> set (free_slots e) then e else e\<lparr>free_slots := free_slots e @ [slot]\<rparr>))) act) (\<lambda>_.
     andThen (update (\<lambda>e. e\<lparr>active := []\<rparr>)) (\<lambda>_.
     andThen (fail_pending_requests cfg bk hash victim False err) (\<lambda>_.
     release_all_retained bk False)))))"

end
