(* ===== verification/Engine_Slots.thy ===== *)
theory Engine_Slots
  imports Engine_State "HOL-Library.Multiset"
begin

text \<open>
  Slot conservation: as long as the engine's operations return, every slot is free, active, retained or in
  the pending prefill, and in one of these places only.  Two cases where an exception breaks it close the
  theory.
\<close>

section \<open>Where the slots are\<close>

definition warm_ids :: "engine \<Rightarrow> int list" where
  "warm_ids e = map (\<lambda>r. warm_id (snd r)) (retained e)"

definition core_slots :: "engine \<Rightarrow> int multiset" where
  "core_slots e = mset (free_slots e) + mset (map fst (active e)) + mset (warm_ids e)"

definition all_slots :: "engine_cfg \<Rightarrow> int multiset" where
  "all_slots cfg = mset [0..capacity cfg - 1]"

abbreviation pending :: "engine \<Rightarrow> bool \<times> (int \<times> request) list" where
  "pending e \<equiv> (pending_prefill e, pending_reqs e)"

text \<open>The slots \<open>R\<close> are in the hands of the running operation, all others have their place.\<close>

definition held :: "engine_cfg \<Rightarrow> int multiset \<Rightarrow> bool \<times> (int \<times> request) list \<Rightarrow> engine \<Rightarrow> bool" where
  "held cfg R F e \<longleftrightarrow> core_slots e + R = all_slots cfg \<and> distinct (map fst (retained e)) \<and> pending e = F"

definition slots_ok :: "engine_cfg \<Rightarrow> engine \<Rightarrow> bool" where
  "slots_ok cfg e \<longleftrightarrow> held cfg (mset (map fst (pending_reqs e))) (pending e) e \<and>
     (\<not> pending_prefill e \<longrightarrow> pending_reqs e = [])"

abbreviation partly :: "('s \<Rightarrow> bool) \<Rightarrow> ('s, 'a) prog \<Rightarrow> ('s \<Rightarrow> bool) \<Rightarrow> bool" where
  "partly P m Q \<equiv> sound P m (\<lambda>_. Q) (\<lambda>_. True)"

lemma count_all_slots: "count (all_slots cfg) s \<le> 1"
  by (simp add: all_slots_def count_mset_set' flip: mset_set_set [OF distinct_upto])

text \<open>Part of a multiset of distinct elements is such a multiset.\<close>

lemma one_place: "A + add_mset s B = all_slots cfg \<Longrightarrow> s \<notin># A \<and> s \<notin># B"
  using count_all_slots [of cfg s] by (drule_tac sym) (auto simp flip: count_eq_zero_iff)

lemma distinct_all_slots:
  assumes eq: "mset xs + B = all_slots cfg"
  shows "distinct xs"
proof -
  have "count (mset xs) s \<le> 1" for s
    using count_all_slots [of cfg s] unfolding eq [symmetric] by simp
  then show ?thesis by (auto simp: distinct_count_atmost_1 le_Suc_eq count_eq_zero_iff split: if_splits)
qed

section \<open>Dictionaries as multisets\<close>

lemma mset_dict_del:
  "distinct (map fst d) \<Longrightarrow> map_of d k = Some v \<Longrightarrow> add_mset (k, v) (mset (dict_del d k)) = mset d"
proof (induction d)
  case (Cons x d)
  have same: "dict_del d (fst x) = d" if "fst x \<notin> fst ` set d"
    unfolding dict_del_def using that by (intro filter_True) (auto simp: image_iff)
  show ?case
  proof (cases "fst x = k")
    case True
    with Cons.prems same have "dict_del (x # d) k = d" "x = (k, v)" by (auto simp: dict_del_def)
    then show ?thesis by simp
  next
    case False
    then have "dict_del (x # d) k = x # dict_del d k" by (auto simp: dict_del_def)
    then show ?thesis using Cons False by (cases x) (simp add: add_mset_commute)
  qed
qed simp

lemma mset_dict_set:
  "map_of d k = Some w \<Longrightarrow> add_mset (k, w) (mset (dict_set d k v)) = add_mset (k, v) (mset d)"
  by (induction d k v rule: dict_set.induct) (auto simp: add_mset_commute split: if_splits)

lemma warm_ids_del:
  assumes "distinct (map fst (retained e))" and "map_of (retained e) k = Some w"
  shows "add_mset (warm_id w) (mset (map (\<lambda>r. warm_id (snd r)) (dict_del (retained e) k))) = mset (warm_ids e)"
  using arg_cong [OF mset_dict_del [OF assms], of "image_mset (\<lambda>r. warm_id (snd r))"] by (simp add: warm_ids_def)

lemma warm_ids_set:
  assumes "map_of (retained e) k = Some w"
  shows "add_mset (warm_id w) (mset (map (\<lambda>r. warm_id (snd r)) (dict_set (retained e) k v))) =
    add_mset (warm_id v) (mset (warm_ids e))"
  using arg_cong [OF mset_dict_set [OF assms, of v], of "image_mset (\<lambda>r. warm_id (snd r))"]
  by (simp add: warm_ids_def)

lemma active_del:
  assumes "distinct (map fst d)" and "map_of d k = Some v"
  shows "add_mset k (mset (map fst (dict_del d k))) = mset (map fst d)"
  using arg_cong [OF mset_dict_del [OF assms], of "image_mset fst"] by simp

section \<open>Steps that move no slot\<close>

definition places :: "engine \<Rightarrow> int list \<times> (int \<times> slot_entry) list \<times> (string \<times> warm_slot) list \<times> bool \<times> (int \<times> request) list" where
  "places e = (free_slots e, active e, retained e, pending e)"

abbreviation quiet :: "(engine, 'a) prog \<Rightarrow> bool" where
  "quiet m \<equiv> unmoved places m"

lemma quiet_requests [frame_rules]:
  "quiet (release_request req)" "quiet (settle_future req out)" "quiet (fail_request req f)"
  by (auto simp: release_request_def settle_future_def fail_request_def places_def intro!: frame_rules)

lemma quiet_reset [frame_rules]: "quiet (reset_slot bk s)"
  by (auto simp: reset_slot_def intro: frame_rules split: option.split)

lemma unmoved_caught [frame_rules]: "unmoved v m \<Longrightarrow> unmoved v (caught m)"
  by (simp add: unmoved_def caught_def)

lemma quiet_dedup [frame_rules]: "quiet (release_prefix_dedup_keys cfg hash victim published reqs)"
  unfolding release_prefix_dedup_keys_def by (auto simp: places_def Let_def intro!: frame_rules)

lemma held_places: "places e' = places e \<Longrightarrow> held cfg R F e \<Longrightarrow> held cfg R F e'"
  by (simp add: held_def core_slots_def warm_ids_def places_def)

lemma held_unmoved: "quiet m \<Longrightarrow> partly (held cfg R F) m (held cfg R F)"
  by (erule sound_unmoved) (rule held_places)

lemma then_quiet:
  assumes "quiet m" and "partly P k Q" and "\<And>e e'. places e' = places e \<Longrightarrow> P e \<Longrightarrow> P e'"
  shows "partly P (andThen m (\<lambda>_. k)) Q"
  by (rule sound_andThen [OF sound_unmoved [OF assms(1,3)] assms(2)])

lemmas held_quiet = then_quiet [OF _ _ held_places]

section \<open>Finishing a request\<close>

text \<open>What finishing does to the places: the slot joins the free or the retained ones.\<close>

definition before_finish :: "int \<Rightarrow> engine \<Rightarrow> engine \<Rightarrow> bool" where
  "before_finish s e0 e \<longleftrightarrow> places e = places e0 \<and> distinct (map fst (retained e0)) \<and> s \<notin> set (warm_ids e0)"

definition finished :: "int \<Rightarrow> engine \<Rightarrow> engine \<Rightarrow> bool" where
  "finished s e0 e \<longleftrightarrow> core_slots e = add_mset s (core_slots e0) \<and> active e = active e0 \<and> pending e = pending e0 \<and>
     distinct (map fst (retained e)) \<and> set (warm_ids e) \<subseteq> insert s (set (warm_ids e0))"

lemma before_finish_places: "places e' = places e \<Longrightarrow> before_finish s e0 e \<Longrightarrow> before_finish s e0 e'"
  by (simp add: before_finish_def)

lemma finished_free: "before_finish s e0 e \<Longrightarrow> finished s e0 (e\<lparr>free_slots := free_slots e @ [s]\<rparr>)"
  by (auto simp: before_finish_def finished_def places_def core_slots_def warm_ids_def)

lemma finished_new:
  assumes "before_finish s e0 e" and "map_of (retained e) sid = None" and "warm_id w = s"
  shows "finished s e0 (e\<lparr>retained := dict_set (retained e) sid w\<rparr>)"
proof -
  have "dict_set (retained e) sid w = retained e @ [(sid, w)]"
    using assms(2) by (intro dict_set_fresh) (simp add: map_of_eq_None_iff)
  then show ?thesis using assms
    by (auto simp: before_finish_def finished_def places_def core_slots_def warm_ids_def map_of_eq_None_iff)
qed

lemma finished_again:
  assumes "before_finish s e0 e" and "map_of (retained e) sid = Some old" and "warm_id w = s"
  shows "finished s e0 (e\<lparr>free_slots := free_slots e @ [warm_id old], retained := dict_set (retained e) sid w\<rparr>)"
proof -
  have eq: "retained e0 = retained e" "distinct (map fst (retained e))"
    using assms(1) by (auto simp: before_finish_def places_def)
  have "add_mset (warm_id old) (mset (map (\<lambda>r. warm_id (snd r)) (dict_set (retained e) sid w))) =
      add_mset s (mset (warm_ids e))"
    using warm_ids_set [OF assms(2), of w] assms(3) by simp
  moreover have "warm_id (snd r) \<in> insert s (set (warm_ids e))" if "r \<in> set (dict_set (retained e) sid w)" for r
    using in_dict_set [of "fst r" "snd r" "retained e" sid w] that assms(3) by (force simp: warm_ids_def)
  ultimately show ?thesis using assms(1) eq
    by (auto simp: before_finish_def finished_def places_def core_slots_def warm_ids_def)
qed

lemma finish_request_places:
  "partly (before_finish s e0) (finish_request cfg bk now s req reason) (finished s e0)"
proof -
  have new_or_old: "partly (before_finish s e0)
      (reading (\<lambda>e. map_of (retained e) (session_id req)) (\<lambda>old.
       andThen (case old of
           Some w \<Rightarrow> if warm_id w \<noteq> s then andThen (reset_slot bk (warm_id w)) (\<lambda>_. free_slot (warm_id w)) else ret ()
         | None \<Rightarrow> ret ()) (\<lambda>_.
       retain_slot cfg bk now s (session_id req)))) (finished s e0)" (is "partly _ (reading _ ?k) _")
  proof (rule sound_intro)
    fix e assume b: "before_finish s e0 e"
    show "case reading (\<lambda>e. map_of (retained e) (session_id req)) ?k e of
        (Inl err, e') \<Rightarrow> True | (Inr x, e') \<Rightarrow> finished s e0 e'"
    proof (cases "map_of (retained e) (session_id req)")
      case None
      then show ?thesis using finished_new [OF b None] by (simp add: retain_slot_def)
    next
      case (Some w)
      have "warm_id w \<in> set (warm_ids e)" using map_of_SomeD [OF Some] by (force simp: warm_ids_def)
      then have "warm_id w \<noteq> s" using b by (auto simp: before_finish_def places_def warm_ids_def)
      then show ?thesis using finished_again [OF b Some]
        by (simp add: Some retain_slot_def free_slot_def reset_slot_def andThen_assoc split: option.split)
    qed
  qed
  have plain: "partly (before_finish s e0) (andThen (reset_slot bk s) (\<lambda>_. free_slot s)) (finished s e0)"
    by (rule then_quiet [OF quiet_reset _ before_finish_places])
       (auto simp: free_slot_def intro: sound_update finished_free)
  show ?thesis unfolding finish_request_def
    by (intro then_quiet [OF _ _ before_finish_places] sound_if new_or_old plain)
       (auto intro!: frame_rules simp: places_def)
qed

text \<open>Finishing with a slot in hand, and finishing an active slot whose entry is dropped afterwards.\<close>

lemma free_held: "partly (held cfg (add_mset s R) F) (free_slot s) (held cfg R F)"
  unfolding free_slot_def by (rule sound_update) (simp add: held_def core_slots_def warm_ids_def)

lemma in_hand:
  assumes "held cfg (add_mset s R) F e"
  shows "s \<notin> set (free_slots e)" and "s \<notin> fst ` set (active e)" and "s \<notin> set (warm_ids e)"
  using one_place [of "core_slots e" s R cfg] assms by (auto simp: held_def core_slots_def)

lemma active_once:
  assumes "held cfg R F e"
  shows "distinct (map fst (active e))" and "s \<in> fst ` set (active e) \<Longrightarrow> s \<notin> set (warm_ids e)"
proof -
  have eq: "mset (map fst (active e)) + (mset (free_slots e) + mset (warm_ids e) + R) = all_slots cfg"
    using assms by (simp add: held_def core_slots_def ac_simps)
  from distinct_all_slots [OF eq] show "distinct (map fst (active e))" .
  assume "s \<in> fst ` set (active e)"
  then obtain B where "mset (map fst (active e)) = add_mset s B"
    by (metis insert_DiffM list.set_map set_mset_mset)
  with eq have "(mset (free_slots e) + mset (warm_ids e) + R) + add_mset s B = all_slots cfg"
    by (simp add: ac_simps)
  from one_place [OF this] show "s \<notin> set (warm_ids e)" by simp
qed

lemma from_here:
  assumes "\<And>e0. P e0 \<Longrightarrow> partly (\<lambda>e. e = e0) m Q"
  shows "partly P m Q"
  using assms by (auto simp: sound_def)

lemma finish_held: "partly (held cfg (add_mset s R) F) (finish_request cfg bk now s req reason) (held cfg R F)"
proof (rule from_here)
  fix e0 assume h: "held cfg (add_mset s R) F e0"
  show "partly (\<lambda>e. e = e0) (finish_request cfg bk now s req reason) (held cfg R F)"
    by (rule sound_weaken [OF finish_request_places [of s e0]])
       (use h in_hand [OF h] in \<open>auto simp: before_finish_def finished_def held_def\<close>)
qed

definition drop_entry :: "int \<Rightarrow> (engine, unit) prog" where
  "drop_entry s = update (\<lambda>e. e\<lparr>active := dict_del (active e) s\<rparr>)"

lemma key_value: "k \<in> fst ` set d \<Longrightarrow> \<exists>v. map_of d k = Some v"
  by (metis map_of_eq_None_iff not_None_eq)

lemma core_drop:
  assumes "distinct (map fst (active e))" and "s \<in> fst ` set (active e)"
  shows "core_slots e = add_mset s (core_slots (e\<lparr>active := dict_del (active e) s\<rparr>))"
  using key_value [OF assms(2)] active_del [OF assms(1)] by (force simp: core_slots_def warm_ids_def)

lemma finish_drop:
  "partly (\<lambda>e. held cfg R F e \<and> s \<in> fst ` set (active e))
     (andThen (finish_request cfg bk now s req reason) (\<lambda>_. drop_entry s)) (held cfg R F)"
proof (rule from_here)
  fix e0 assume h: "held cfg R F e0 \<and> s \<in> fst ` set (active e0)"
  have "partly (finished s e0) (drop_entry s) (held cfg R F)"
    unfolding drop_entry_def
  proof (rule sound_update)
    fix e assume f: "finished s e0 e"
    have "core_slots e = add_mset s (core_slots (e\<lparr>active := dict_del (active e) s\<rparr>))"
      by (rule core_drop) (use f h active_once [of cfg R F e0] in \<open>auto simp: finished_def\<close>)
    then show "held cfg R F (e\<lparr>active := dict_del (active e) s\<rparr>)"
      using f h by (auto simp: finished_def held_def)
  qed
  from sound_andThen [OF finish_request_places [of s e0] this]
  show "partly (\<lambda>e. e = e0) (andThen (finish_request cfg bk now s req reason) (\<lambda>_. drop_entry s)) (held cfg R F)"
    by (rule sound_weaken) (use h active_once [of cfg R F e0] in \<open>auto simp: before_finish_def held_def\<close>)
qed

lemma activate_held: "partly (held cfg (add_mset s R) F) (activate_slot cfg bk now s req ans) (held cfg R F)"
proof (cases "anchor_error ans")
  case (Some err)
  then show ?thesis by (simp add: activate_slot_def sound_def raise_def)
next
  case None
  let ?entry = "update (\<lambda>e. e\<lparr>active := dict_set (active e) s
    \<lparr>entry_req = req, committed_len = 1, start_time = Some now, last_progress_round = Some (round_no e)\<rparr>\<rparr>)"
  have entry: "partly (held cfg (add_mset s R) F) ?entry (\<lambda>e. held cfg R F e \<and> s \<in> fst ` set (active e))"
  proof (rule sound_update)
    fix e assume "held cfg (add_mset s R) F e"
    with in_hand(2) [OF this] show "held cfg R F (e\<lparr>active := dict_set (active e) s
        \<lparr>entry_req = req, committed_len = 1, start_time = Some now, last_progress_round = Some (round_no e)\<rparr>\<rparr>) \<and>
      s \<in> fst ` set (active (e\<lparr>active := dict_set (active e) s
        \<lparr>entry_req = req, committed_len = 1, start_time = Some now, last_progress_round = Some (round_no e)\<rparr>\<rparr>))"
      by (simp add: held_def core_slots_def warm_ids_def dict_set_fresh)
  qed
  have leave: "partly (\<lambda>e. held cfg R F e \<and> s \<in> fst ` set (active e)) (ret ()) (held cfg R F)"
    by (rule sound_ret) simp
  show ?thesis
    unfolding activate_slot_def None option.case Let_def drop_entry_def [symmetric]
    by (auto intro!: sound_if finish_held sound_andThen [OF entry] finish_drop leave split: option.split)
qed

section \<open>The operations of a round\<close>

lemma dict_del_subset: "(k', v) \<in> set d \<Longrightarrow> k' \<noteq> k \<Longrightarrow> (k', v) \<in> set (dict_del d k)"
  by (simp add: dict_del_def)

lemma core_pop:
  assumes "distinct (map fst (retained e))" and "map_of (retained e) k = Some w"
  shows "core_slots e = add_mset (warm_id w) (core_slots (e\<lparr>retained := dict_del (retained e) k\<rparr>))"
  unfolding core_slots_def warm_ids_del [OF assms, symmetric] by (simp add: warm_ids_def)

lemma expire_held: "partly (held cfg R F) (expire_retained_slots bk now) (held cfg R F)"
proof -
  let ?pop = "\<lambda>sid. update (\<lambda>e. e\<lparr>retained := dict_del (retained e) sid\<rparr>)"
  define L where "L xs e \<longleftrightarrow> held cfg R F e \<and> set xs \<subseteq> set (retained e) \<and> distinct (map fst xs)" for xs e
  have pop: "partly (L ((sid, w) # xs)) (?pop sid)
      (\<lambda>e. held cfg (add_mset (warm_id w) R) F e \<and> set xs \<subseteq> set (retained e) \<and> distinct (map fst xs))" for sid w xs
  proof (rule sound_update)
    fix e assume l: "L ((sid, w) # xs) e"
    have "map_of (retained e) sid = Some w" "distinct (map fst (retained e))"
      using l by (auto simp: L_def held_def)
    from core_pop [OF this(2,1)] l
    show "held cfg (add_mset (warm_id w) R) F (e\<lparr>retained := dict_del (retained e) sid\<rparr>) \<and>
        set xs \<subseteq> set (retained (e\<lparr>retained := dict_del (retained e) sid\<rparr>)) \<and> distinct (map fst xs)"
      by (auto simp: L_def held_def image_iff intro!: dict_del_subset)
  qed
  have put_back: "partly (\<lambda>e. held cfg (add_mset s R) F e \<and> set xs \<subseteq> set (retained e) \<and> distinct (map fst xs))
      (andThen (caught (reset_slot bk s)) (\<lambda>_. free_slot s)) (L xs)" for s xs
    unfolding free_slot_def
    by (rule then_quiet) (auto intro!: frame_rules sound_update
          simp: L_def held_def core_slots_def warm_ids_def places_def)
  have loop: "partly (L xs) (for_each (\<lambda>(sid, w). andThen (?pop sid) (\<lambda>_.
      andThen (caught (reset_slot bk (warm_id w))) (\<lambda>_. free_slot (warm_id w)))) xs) (L [])" for xs
    by (rule sound_for_each_pair, rule sound_andThen [OF pop put_back])
  show ?thesis
    unfolding expire_retained_slots_def
    by (rule sound_reading, rule sound_weaken [OF loop]) (auto simp: L_def held_def distinct_map_filter)
qed

lemma drop_held:
  "partly (\<lambda>e. held cfg R F e \<and> s \<in> fst ` set (active e) \<and> X (active e))
     (drop_entry s) (\<lambda>e. held cfg (add_mset s R) F e \<and> (\<exists>a. active e = dict_del a s \<and> X a))"
  unfolding drop_entry_def
proof (rule sound_update)
  fix e assume h: "held cfg R F e \<and> s \<in> fst ` set (active e) \<and> X (active e)"
  with core_drop [of e s] active_once(1) [of cfg R F e]
  show "held cfg (add_mset s R) F (e\<lparr>active := dict_del (active e) s\<rparr>) \<and>
      (\<exists>a. active (e\<lparr>active := dict_del (active e) s\<rparr>) = dict_del a s \<and> X a)"
    by (auto simp: held_def)
qed

lemma held_active_places:
  "places e' = places e \<Longrightarrow> held cfg R F e \<and> X (active e) \<Longrightarrow> held cfg R F e' \<and> X (active e')"
  using held_places [of e' e cfg R F] by (auto simp: places_def)

lemma free_held_active:
  "partly (\<lambda>e. held cfg (add_mset s R) F e \<and> X (active e)) (free_slot s) (\<lambda>e. held cfg R F e \<and> X (active e))"
  unfolding free_slot_def by (rule sound_update) (simp add: held_def core_slots_def warm_ids_def)

text \<open>An active slot given up: its entry dropped, its request failed, the slot reset and freed.\<close>

lemma give_back_held:
  "partly (\<lambda>e. held cfg (add_mset s R) F e \<and> X (active e))
     (andThen (fail_request req f) (\<lambda>_. andThen (caught (reset_slot bk s)) (\<lambda>_. free_slot s)))
     (\<lambda>e. held cfg R F e \<and> X (active e))"
  by (rule then_quiet [OF quiet_requests(3) then_quiet [OF unmoved_caught [OF quiet_reset] free_held_active]])
     (erule held_active_places, assumption)+

lemma give_up_held:
  "partly (\<lambda>e. held cfg R F e \<and> s \<in> fst ` set (active e) \<and> X (active e))
     (andThen (drop_entry s) (\<lambda>_. andThen (fail_request req f) (\<lambda>_.
      andThen (caught (reset_slot bk s)) (\<lambda>_. free_slot s))))
     (\<lambda>e. held cfg R F e \<and> (\<exists>a. active e = dict_del a s \<and> X a))"
  by (rule sound_andThen [OF drop_held give_back_held])

lemma cancel_active_held: "partly (held cfg R F) (cancel_active bk ids) (held cfg R F)"
proof -
  define K where "K xs a \<longleftrightarrow> fst ` set xs \<subseteq> fst ` set a \<and> distinct (map fst xs)"
    for xs :: "(int \<times> slot_entry) list" and a :: "(int \<times> slot_entry) list"
  have body: "partly (\<lambda>e. held cfg R F e \<and> K ((s, st) # xs) (active e))
      (andThen (drop_entry s) (\<lambda>_. andThen (fail_request (entry_req st) Cancelled) (\<lambda>_.
        andThen (caught (reset_slot bk s)) (\<lambda>_. andThen (free_slot s) (\<lambda>_. update (\<lambda>e. e\<lparr>retry_round := 0\<rparr>))))))
      (\<lambda>e. held cfg R F e \<and> K xs (active e))" for s st xs
  proof -
    let ?m = "andThen (drop_entry s) (\<lambda>_. andThen (fail_request (entry_req st) Cancelled) (\<lambda>_.
        andThen (caught (reset_slot bk s)) (\<lambda>_. free_slot s)))"
    have given: "partly (\<lambda>e. held cfg R F e \<and> K ((s, st) # xs) (active e)) ?m (\<lambda>e. held cfg R F e \<and> K xs (active e))"
      by (rule sound_weaken [OF give_up_held [of _ _ _ _ "K ((s, st) # xs)"]])
         (auto simp: K_def dict_del_def image_iff, force+)
    have retry: "partly (\<lambda>e. held cfg R F e \<and> K xs (active e)) (update (\<lambda>e. e\<lparr>retry_round := 0\<rparr>))
        (\<lambda>e. held cfg R F e \<and> K xs (active e))"
      by (rule sound_update) (simp add: held_def core_slots_def warm_ids_def)
    show ?thesis by (rule sound_andThen [OF given retry, unfolded andThen_assoc])
  qed
  have loop: "partly (\<lambda>e. held cfg R F e \<and> K xs (active e)) (for_each (\<lambda>(s, st).
      andThen (drop_entry s) (\<lambda>_. andThen (fail_request (entry_req st) Cancelled) (\<lambda>_.
      andThen (caught (reset_slot bk s)) (\<lambda>_. andThen (free_slot s) (\<lambda>_. update (\<lambda>e. e\<lparr>retry_round := 0\<rparr>)))))) xs)
      (\<lambda>e. held cfg R F e \<and> K [] (active e))" for xs
    by (rule sound_for_each_pair, rule body)
  show ?thesis
    unfolding cancel_active_def drop_entry_def [symmetric]
    by (rule sound_reading, rule sound_weaken [OF loop])
       (auto simp: K_def distinct_map_filter dest: active_once(1))
qed

lemma reclaim_held: "partly (held cfg R F) (reclaim_slot bk f s) (held cfg R F)"
  unfolding reclaim_slot_def drop_entry_def [symmetric]
proof (rule sound_reading)
  fix entry
  show "partly (\<lambda>e. held cfg R F e \<and> entry = map_of (active e) s)
    (case entry of None \<Rightarrow> raise (KeyError ''active.pop'')
     | Some st \<Rightarrow> andThen (drop_entry s) (\<lambda>_. andThen (fail_request (entry_req st) f) (\<lambda>_.
         andThen (caught (reset_slot bk s)) (\<lambda>_. free_slot s)))) (held cfg R F)"
  proof (cases entry)
    case (Some st)
    show ?thesis unfolding Some option.case
      by (rule sound_weaken [OF give_up_held [of _ _ _ _ "\<lambda>_. True"]])
         (auto dest: map_of_SomeD [OF sym] intro: rev_image_eqI)
  qed (simp add: sound_def)
qed

lemma reclaims_held:
  "partly (held cfg R F) (reclaim_timed_out cfg bk now) (held cfg R F)"
  "partly (held cfg R F) (reclaim_stale cfg bk) (held cfg R F)"
proof -
  have loop: "partly (held cfg R F) (for_each (reclaim_slot bk f) ss) (held cfg R F)" for f ss
    by (rule sound_for_each [where P = "\<lambda>_. held cfg R F"], rule reclaim_held)
  show "partly (held cfg R F) (reclaim_timed_out cfg bk now) (held cfg R F)"
    unfolding reclaim_timed_out_def by (rule sound_reading, rule sound_weaken [OF loop]) auto
  show "partly (held cfg R F) (reclaim_stale cfg bk) (held cfg R F)"
    unfolding reclaim_stale_def
    by (rule sound_reading) (auto intro: sound_weaken [OF loop])
qed

section \<open>Cancellation\<close>

text \<open>An operation that neither touches the pending prefill nor keeps a slot in hand.\<close>

lemma ok_from_held: "(\<And>R F. partly (held cfg R F) m (held cfg R F)) \<Longrightarrow> partly (slots_ok cfg) m (slots_ok cfg)"
proof (rule from_here)
  assume keep: "\<And>R F. partly (held cfg R F) m (held cfg R F)"
  fix e0 assume ok: "slots_ok cfg e0"
  show "partly (\<lambda>e. e = e0) m (slots_ok cfg)"
    by (rule sound_weaken [OF keep [of "mset (map fst (pending_reqs e0))" "pending e0"]])
       (use ok in \<open>auto simp: slots_ok_def held_def\<close>)
qed

lemma quiet_ok: "quiet m \<Longrightarrow> partly (slots_ok cfg) m (slots_ok cfg)"
  by (rule ok_from_held, erule held_unmoved)

lemma quiet_cancel_queued [frame_rules]: "quiet (cancel_queued ids)"
  unfolding cancel_queued_def by (auto intro!: frame_rules simp: places_def)

lemma set_pending_held:
  "partly (held cfg R F) (update (\<lambda>e. e\<lparr>pending_prefill := b, pending_reqs := ps\<rparr>)) (held cfg R (b, ps))"
  by (rule sound_update) (simp add: held_def core_slots_def warm_ids_def)

lemma return_held:
  "partly (held cfg (add_mset s R) F)
     (update (\<lambda>e. if s \<in> set (free_slots e) then e else e\<lparr>free_slots := free_slots e @ [s]\<rparr>)) (held cfg R F)"
proof (rule sound_update)
  fix e assume h: "held cfg (add_mset s R) F e"
  from in_hand(1) [OF h] h
  show "held cfg R F (if s \<in> set (free_slots e) then e else e\<lparr>free_slots := free_slots e @ [s]\<rparr>)"
    by (simp add: held_def core_slots_def warm_ids_def)
qed

text \<open>A loop over \<open>(slot, request)\<close> pairs whose slots are in hand, each iteration giving its slot back.\<close>

lemma give_back_loop:
  assumes "\<And>s req R. partly (held cfg (add_mset s R) F) (f s req) (held cfg R F)"
  shows "partly (held cfg (mset (map fst xs) + R) F) (for_each (\<lambda>(s, req). f s req) xs) (held cfg R F)"
proof -
  have "partly (held cfg (mset (map fst ((s, req) # ys)) + R) F) (f s req) (held cfg (mset (map fst ys) + R) F)" for s req ys
    using assms [of s "mset (map fst ys) + R" req] by simp
  from sound_for_each_pair [where P = "\<lambda>xs. held cfg (mset (map fst xs) + R) F", OF this]
  show ?thesis by simp
qed

lemma abort_prefill_ok: "partly (slots_ok cfg) (abort_prefill cfg bk hash victim ids) (slots_ok cfg)"
proof -
  let ?give = "\<lambda>slot req. andThen (caught (reset_slot bk slot)) (\<lambda>_.
    andThen (update (\<lambda>e. if slot \<in> set (free_slots e) then e else e\<lparr>free_slots := free_slots e @ [slot]\<rparr>)) (\<lambda>_.
    if request_id req \<in> ids then fail_request req Cancelled else update (\<lambda>e. e\<lparr>waiting := req # waiting e\<rparr>)))"
  have give: "partly (held cfg (add_mset s R) F) (?give s req) (held cfg R F)" for s req R F
    by (rule held_quiet [OF unmoved_caught [OF quiet_reset] sound_andThen [OF return_held held_unmoved]])
       (auto intro!: frame_rules simp: places_def)
  have all: "partly (held cfg (mset (map fst ps)) F)
      (andThen (release_prefix_dedup_keys cfg hash victim False (map snd ps)) (\<lambda>_.
       andThen (update (\<lambda>e. e\<lparr>pending_prefill := False, pending_reqs := []\<rparr>)) (\<lambda>_.
       for_each (\<lambda>(slot, req). ?give slot req) ps))) (held cfg {#} (False, []))" for ps F
    by (rule held_quiet [OF quiet_dedup sound_andThen [OF set_pending_held]],
        rule give_back_loop [where f = ?give and R = "{#}" and xs = ps, OF give, unfolded add_0_right])
  have done_ok: "held cfg {#} (False, []) e \<Longrightarrow> slots_ok cfg e" for e
    by (auto simp: slots_ok_def held_def)
  show ?thesis
    unfolding abort_prefill_def
    by (rule sound_reading, rule sound_if, rule sound_weaken [OF all _ done_ok])
       (auto simp: slots_ok_def sound_def)
qed

lemma process_cancellations_ok:
  "partly (slots_ok cfg) (process_cancellations cfg bk hash victim ids) (slots_ok cfg)"
  unfolding process_cancellations_def
  by (intro sound_if quiet_ok [OF unmoved_ret] sound_andThen [OF ok_from_held [OF cancel_active_held]]
      sound_andThen [OF quiet_ok [OF quiet_cancel_queued]] abort_prefill_ok)

section \<open>Warm continuation, prefill, admission\<close>

lemma warm_fallback_held: "partly (held cfg (add_mset s R) F) (warm_fallback bk s req) (held cfg R F)"
  unfolding warm_fallback_def
  by (rule held_quiet [OF quiet_reset sound_andThen [OF free_held held_unmoved [OF unmoved_update]]])
     (simp_all add: places_def)

lemma warm_continue_one_held: "partly (held cfg R F) (warm_continue_one cfg bk now warm req) (held cfg R F)"
proof -
  have same: "partly (\<lambda>e. held cfg R F e \<and> P e) (ret ()) (held cfg R F)" for P
    by (rule sound_ret) simp
  have pop: "partly (\<lambda>e. held cfg R F e \<and> Some w = map_of (retained e) (session_id req))
      (update (\<lambda>e. e\<lparr>retained := dict_del (retained e) (session_id req), waiting := remove1 req (waiting e)\<rparr>))
      (held cfg (add_mset (warm_id w) R) F)" for w
  proof (rule sound_update)
    fix e assume "held cfg R F e \<and> Some w = map_of (retained e) (session_id req)"
    with core_pop [of e "session_id req" w]
    show "held cfg (add_mset (warm_id w) R) F
        (e\<lparr>retained := dict_del (retained e) (session_id req), waiting := remove1 req (waiting e)\<rparr>)"
      by (simp add: held_def core_slots_def warm_ids_def)
  qed
  show ?thesis unfolding warm_continue_one_def
    by (rule sound_reading)
       (auto intro!: same sound_andThen [OF pop] warm_fallback_held activate_held split: option.split sum.split)
qed

lemma warm_continue_held: "partly (held cfg R F) (warm_continue cfg bk now warm) (held cfg R F)"
proof -
  have loop: "partly (held cfg R F) (for_each (warm_continue_one cfg bk now warm) reqs) (held cfg R F)" for reqs
    by (rule sound_for_each [where P = "\<lambda>_. held cfg R F"], rule warm_continue_one_held)
  show ?thesis unfolding warm_continue_def
    by (rule sound_reading)
       (auto intro!: sound_if sound_weaken [OF loop] sound_ret split: prod.split)
qed

lemma fail_slots_held:
  "partly (held cfg (mset (map fst reqs) + R) F) (fail_slots bk is_fatal err reqs) (held cfg R F)"
  unfolding fail_slots_def
  by (rule give_back_loop, rule held_quiet [OF quiet_requests(3) held_quiet [OF _ free_held]])
     (intro frame_rules)

lemma activate_loop_held:
  "partly (held cfg (mset (map fst reqs) + R) F)
     (for_each (\<lambda>(slot, req). activate_slot cfg bk now slot req (result slot)) reqs) (held cfg R F)"
  by (rule give_back_loop, rule activate_held)

lemma nothing_pending: "held cfg {#} (b, []) e \<Longrightarrow> slots_ok cfg e"
  by (auto simp: slots_ok_def held_def)

lemma advance_prefill_ok:
  "partly (slots_ok cfg) (advance_prefill cfg bk hash victim is_fatal now step) (slots_ok cfg)"
proof (rule from_here)
  fix e0 assume ok: "slots_ok cfg e0"
  let ?H = "held cfg (mset (map fst (pending_reqs e0)) + {#}) (pending e0)"
  let ?clear = "update (\<lambda>e. e\<lparr>pending_prefill := False, pending_reqs := []\<rparr>)"
  have clear: "partly (held cfg {#} F) ?clear (slots_ok cfg)" for F
    by (rule sound_weaken [OF set_pending_held _ nothing_pending])
  have raised: "partly (held cfg {#} F) (andThen ?clear (\<lambda>_. if is_fatal err then raise err else ret ())) (slots_ok cfg)" for err F
    by (rule sound_andThen [OF clear]) (auto simp: sound_def)
  have failed: "partly ?H (andThen (release_prefix_dedup_keys cfg hash victim False (map snd (pending_reqs e0))) (\<lambda>_.
        andThen (fail_slots bk (is_fatal err) err (pending_reqs e0)) (\<lambda>_.
        andThen ?clear (\<lambda>_. if is_fatal err then raise err else ret ())))) (slots_ok cfg)" for err
    by (rule held_quiet [OF quiet_dedup sound_andThen [OF fail_slots_held raised]])
  have ready: "partly ?H (andThen (release_prefix_dedup_keys cfg hash victim True (map snd (pending_reqs e0))) (\<lambda>_.
        andThen (for_each (\<lambda>(slot, req). activate_slot cfg bk now slot req (result slot)) (pending_reqs e0)) (\<lambda>_. ?clear)))
        (slots_ok cfg)" for result
    by (rule held_quiet [OF quiet_dedup sound_andThen [OF activate_loop_held clear]])
  have here: "\<And>e. e = e0 \<Longrightarrow> ?H e" using ok by (simp add: slots_ok_def)
  have unchanged: "partly (\<lambda>e. e = e0) (ret ()) (slots_ok cfg)" by (rule sound_ret) (simp add: ok)
  show "partly (\<lambda>e. e = e0) (advance_prefill cfg bk hash victim is_fatal now step) (slots_ok cfg)"
    unfolding advance_prefill_def Let_def
  proof (rule sound_reading_at, unfold prod.case, rule sound_if)
    show "partly (\<lambda>e. e = e0) (ret ()) (slots_ok cfg)" by (rule unchanged)
  next
    show "partly (\<lambda>e. e = e0) (case step of
        Inl err \<Rightarrow> andThen (release_prefix_dedup_keys cfg hash victim False (map snd (pending_reqs e0))) (\<lambda>_.
          andThen (fail_slots bk (is_fatal err) err (pending_reqs e0)) (\<lambda>_.
          andThen ?clear (\<lambda>_. if is_fatal err then raise err else ret ())))
      | Inr None \<Rightarrow> ret ()
      | Inr (Some result) \<Rightarrow> andThen (release_prefix_dedup_keys cfg hash victim True (map snd (pending_reqs e0))) (\<lambda>_.
          andThen (for_each (\<lambda>(slot, req). activate_slot cfg bk now slot req (result slot)) (pending_reqs e0)) (\<lambda>_. ?clear)))
      (slots_ok cfg)"
      using sound_weaken [OF failed here] sound_weaken [OF ready here] unchanged
      by (auto split: sum.split option.split)
  qed
qed

text \<open>The backend picks one of the slots it is offered.\<close>

definition picks_offered :: "engine_backend \<Rightarrow> bool" where
  "picks_offered bk \<longleftrightarrow> (\<forall>req slots. slots \<noteq> [] \<longrightarrow> best_slot bk req slots \<in> set slots)"

lemma assign_slots_mset:
  "picks_offered bk \<Longrightarrow> length reqs \<le> length slots \<Longrightarrow> assign_slots cfg bk reqs slots = (admitted, rest) \<Longrightarrow>
    mset (map fst admitted) + mset rest = mset slots"
proof (induction reqs arbitrary: slots admitted rest)
  case (Cons req reqs)
  let ?slot = "if cap_prefix_cache cfg \<and> slots \<noteq> [] then best_slot bk req slots else hd slots"
  have "slots \<noteq> []" using Cons.prems(2) by auto
  then have mem: "?slot \<in> set slots" using Cons.prems(1) by (simp add: picks_offered_def)
  obtain adm' where rec: "assign_slots cfg bk reqs (remove1 ?slot slots) = (adm', rest)"
      and adm: "admitted = (?slot, req) # adm'"
    using Cons.prems(3) by (simp only: assign_slots.simps Let_def) (auto split: prod.splits)
  have len: "length reqs \<le> length (remove1 ?slot slots)" using Cons.prems(2) mem by (simp add: length_remove1)
  from Cons.IH [OF Cons.prems(1) len rec] adm mem show ?case by simp
qed simp

lemma select_loop_length:
  "select_loop cfg hash published at_start limit reqs selected deferred keys = (sel, def, ks) \<Longrightarrow>
    length selected \<le> limit \<Longrightarrow> length sel \<le> limit"
  by (induction cfg hash published at_start limit reqs selected deferred keys rule: select_loop.induct)
     (auto simp: Let_def split: if_splits)

lemma select_admission_places:
  "sound (\<lambda>e. places e = p) (select_admission_requests cfg hash n)
     (\<lambda>reqs e. places e = p \<and> length reqs \<le> nat n) (\<lambda>_. True)"
  unfolding select_admission_requests_def
  by (rule sound_intro) (auto simp: places_def dest: select_loop_length split: prod.split)

lemma take_slots_held:
  "partly (\<lambda>e. held cfg {#} F e \<and> mset S + mset rest = mset (free_slots e))
     (update (\<lambda>e. e\<lparr>free_slots := rest\<rparr>)) (held cfg (mset S) F)"
proof (rule sound_update)
  fix e assume h: "held cfg {#} F e \<and> mset S + mset rest = mset (free_slots e)"
  then have "mset (free_slots e) = mset S + mset rest" by simp
  with h show "held cfg (mset S) F (e\<lparr>free_slots := rest\<rparr>)"
    by (simp add: held_def core_slots_def warm_ids_def ac_simps)
qed

lemma admission_failed_ok:
  "partly (held cfg (mset (map fst admit)) (b, [])) (fail_admission cfg bk hash victim is_fatal admit err) (slots_ok cfg)"
proof -
  have last: "partly (held cfg {#} (b, [])) (if is_fatal err then raise err else ret ()) (slots_ok cfg)"
    by (auto simp: sound_def nothing_pending)
  show ?thesis unfolding fail_admission_def
    by (rule held_quiet [OF quiet_dedup sound_andThen [OF fail_slots_held [where R = "{#}", unfolded add_0_right] last]])
qed

lemma defer_held:
  "partly (held cfg (R + mset (map fst deferred)) F) (defer_requests cfg hash victim deferred) (held cfg R F)"
proof -
  have put: "partly (held cfg (R + mset (map fst deferred)) F)
      (update (\<lambda>e. e\<lparr>free_slots := free_slots e @ map fst deferred, retry_round := round_no e + 16\<rparr>)) (held cfg R F)"
    by (rule sound_update) (simp add: held_def core_slots_def warm_ids_def ac_simps)
  show ?thesis unfolding defer_requests_def
    by (rule sound_if, rule sound_ret, simp, rule held_quiet [OF unmoved_update held_quiet [OF quiet_dedup put]])
       (simp add: places_def)
qed

lemma start_ok:
  "partly (held cfg (mset (map fst admit)) (False, []))
     (start_prefill cfg bk hash victim is_fatal now prefill admit) (slots_ok cfg)"
proof -
  have none: "partly (held cfg (mset (map fst [])) (False, [])) (ret ()) (slots_ok cfg)"
    by (rule sound_ret) (simp add: nothing_pending)
  have continued: "partly (held cfg (mset (map fst admit)) (False, []))
      (update (\<lambda>e. e\<lparr>pending_prefill := True, pending_reqs := admit\<rparr>)) (slots_ok cfg)"
    by (rule sound_update) (simp add: slots_ok_def held_def core_slots_def warm_ids_def)
  have activated: "partly (held cfg (mset (map fst admit)) (False, []))
      (andThen (release_prefix_dedup_keys cfg hash victim True (map snd admit)) (\<lambda>_.
       for_each (\<lambda>(slot, req). activate_slot cfg bk now slot req (result slot)) admit)) (slots_ok cfg)" for result
    by (rule sound_weaken [OF held_quiet [OF quiet_dedup activate_loop_held [where R = "{#}", unfolded add_0_right]]])
       (auto intro: nothing_pending)
  show ?thesis
  proof (cases "admit = []")
    case True
    then show ?thesis using none by (simp add: start_prefill_def)
  next
    case False
    show ?thesis unfolding start_prefill_def if_not_P [OF False]
      by (cases "prefill admit"; cases "projr (prefill admit)")
         (simp_all only: sum.case option.case sum.sel continued activated admission_failed_ok)
  qed
qed

lemma fitting_prefix: "admitted = fitting cfg bk admitted @ drop (length (fitting cfg bk admitted)) admitted"
  by (simp add: fitting_def flip: dropWhile_eq_drop)

lemma fitting_split:
  "mset (map fst admitted) = mset (map fst (fitting cfg bk admitted)) +
     mset (map fst (drop (length (fitting cfg bk admitted)) admitted))"
  by (subst (1) fitting_prefix [of admitted cfg bk]) (simp only: map_append mset_append)

lemma admit_selected_ok:
  assumes "picks_offered bk" and "length reqs \<le> length free"
  shows "partly (\<lambda>e. held cfg {#} (False, []) e \<and> free_slots e = free)
    (admit_selected cfg bk hash victim is_fatal now prefill free reqs) (slots_ok cfg)"
proof -
  obtain admitted rest where assigned: "assign_slots cfg bk reqs free = (admitted, rest)" by fastforce
  note taken = assign_slots_mset [OF assms assigned]
  have take: "partly (\<lambda>e. held cfg {#} (False, []) e \<and> free_slots e = free)
      (update (\<lambda>e. e\<lparr>free_slots := rest\<rparr>)) (held cfg (mset (map fst admitted)) (False, []))"
    by (rule sound_weaken [OF take_slots_held [where S = "map fst admitted" and rest = rest]])
       (use taken in auto)
  have go_on: "partly (held cfg (mset (map fst admitted)) (False, []))
      (andThen (defer_requests cfg hash victim (drop (length (fitting cfg bk admitted)) admitted)) (\<lambda>_.
       start_prefill cfg bk hash victim is_fatal now prefill (fitting cfg bk admitted))) (slots_ok cfg)"
    by (subst fitting_split [of admitted cfg bk], rule sound_andThen [OF defer_held start_ok])
  show ?thesis
    unfolding admit_selected_def assigned prod.case
    by (rule sound_andThen [OF take])
       (auto intro!: go_on admission_failed_ok simp del: mset_map split: option.split)
qed

lemma admit_requests_ok:
  assumes "picks_offered bk"
  shows "partly (slots_ok cfg) (admit_requests cfg bk hash victim is_fatal now prefill) (slots_ok cfg)"
proof (rule from_here)
  fix e0 assume ok: "slots_ok cfg e0"
  let ?n = "int (min (length (free_slots e0)) (length (waiting e0)))"
  show "partly (\<lambda>e. e = e0) (admit_requests cfg bk hash victim is_fatal now prefill) (slots_ok cfg)"
    unfolding admit_requests_def
  proof (rule sound_reading_at, unfold prod.case, rule sound_if)
    show "partly (\<lambda>e. e = e0) (ret ()) (slots_ok cfg)" by (rule sound_ret) (simp add: ok)
  next
    assume "\<not> (pending_prefill e0 \<or> free_slots e0 = [] \<or> waiting e0 = [] \<or> \<not> retry_round e0 \<le> round_no e0)"
    then have idle: "held cfg {#} (False, []) e0" using ok by (auto simp: slots_ok_def)
    have sel: "sound (\<lambda>e. e = e0) (select_admission_requests cfg hash ?n)
        (\<lambda>reqs e. (held cfg {#} (False, []) e \<and> free_slots e = free_slots e0) \<and>
          length reqs \<le> length (free_slots e0)) (\<lambda>_. True)"
      by (rule sound_weaken [OF select_admission_places [of "places e0"]])
         (use held_places [OF _ idle] in \<open>auto simp: places_def\<close>)
    show "partly (\<lambda>e. e = e0) (andThen (select_admission_requests cfg hash ?n)
        (admit_selected cfg bk hash victim is_fatal now prefill (free_slots e0))) (slots_ok cfg)"
      by (rule sound_andThen [OF sel], rule sound_fact, rule admit_selected_ok [OF assms])
  qed
qed

end
