(* ===== verification/Engine_Round.thy ===== *)
theory Engine_Round
  imports Engine_Slots
begin

text \<open>
  One round of the engine thread, \<^verbatim>\<open>_step_sync\<close>, composed of the operations of \<^verbatim>\<open>Engine_State\<close> in the
  order of the code, and the reachable engine states.
\<close>

section \<open>The round\<close>

definition classify_decode_slots ::
    "int list \<Rightarrow> (int \<Rightarrow> bool) \<Rightarrow> (int \<Rightarrow> bool) \<Rightarrow> int list \<Rightarrow> bool \<Rightarrow> bool \<Rightarrow> int list \<times> int list" where
  "classify_decode_slots active_slots speculative sampled grammar_slots mtp_capable sampled_mtp_capable =
     (if \<not> mtp_capable then ([], active_slots)
      else let mtp = filter (\<lambda>s. s \<notin> set grammar_slots \<and> speculative s \<and> (sampled_mtp_capable \<or> \<not> sampled s)) active_slots
           in (mtp, filter (\<lambda>s. s \<notin> set mtp) active_slots))"

text \<open>
  What the round gets from outside: the ids to cancel, the clock, the answers of the backend, and how each
  active slot's decoded tokens are committed (how many are kept, and the finish reason).
\<close>

record round_input =
  cancel_ids :: "nat set"
  clock :: rat
  warm_answer :: "int \<Rightarrow> request \<Rightarrow> prefill_answer res"
  prefill_step :: "(int \<Rightarrow> prefill_answer) option res"
  prefill_begin :: "(int \<times> request) list \<Rightarrow> (int \<Rightarrow> prefill_answer) option res"
  speculative_slot :: "int \<Rightarrow> bool"
  sampled_slot :: "int \<Rightarrow> bool"
  decoded :: "int \<Rightarrow> slot_entry \<Rightarrow> nat \<times> string option"

record engine_env =
  env_cfg :: engine_cfg
  env_backend :: engine_backend
  env_hash :: "int list \<Rightarrow> int"
  env_victim :: "int set \<Rightarrow> int"
  env_fatal :: "pyexc \<Rightarrow> bool"
  env_mtp :: bool
  env_sampled_mtp :: bool

text \<open>The bookkeeping of one decoded slot: its entry, then its request when it is finished.\<close>

definition decode_slot :: "engine_env \<Rightarrow> round_input \<Rightarrow> int \<Rightarrow> (engine, unit) prog" where
  "decode_slot env inp s = reading (\<lambda>e. (map_of (active e) s, round_no e)) (\<lambda>(entry, r). case entry of
     None \<Rightarrow> raise (KeyError ''active'')
   | Some st \<Rightarrow> (case decoded inp s st of (n, reason) \<Rightarrow>
       andThen (if n = 0 then ret ()
         else update (\<lambda>e. e\<lparr>active := dict_set (active e) s
           (st\<lparr>committed_len := committed_len st + int n, last_progress_round := Some r\<rparr>)\<rparr>)) (\<lambda>_.
       case reason of None \<Rightarrow> ret ()
       | Some why \<Rightarrow> finish_request (env_cfg env) (env_backend env) (clock inp) s (entry_req st) why)))"

definition decode_order :: "engine_env \<Rightarrow> round_input \<Rightarrow> (int \<times> slot_entry) list \<Rightarrow> int list" where
  "decode_order env inp act = (case classify_decode_slots (map fst act) (speculative_slot inp) (sampled_slot inp) []
      (env_mtp env) (env_sampled_mtp env) of (mtp, plain) \<Rightarrow> plain @ mtp)"

definition newly_finished :: "round_input \<Rightarrow> (int \<times> slot_entry) list \<Rightarrow> int list \<Rightarrow> int list" where
  "newly_finished inp act order = filter (\<lambda>s. case map_of act s of None \<Rightarrow> False | Some st \<Rightarrow> snd (decoded inp s st) \<noteq> None) order"

definition decode_round :: "engine_env \<Rightarrow> round_input \<Rightarrow> (engine, unit) prog" where
  "decode_round env inp = reading active (\<lambda>act.
     andThen (update (\<lambda>e. e\<lparr>round_no := round_no e + 1\<rparr>)) (\<lambda>_.
     andThen (for_each (decode_slot env inp) (decode_order env inp act)) (\<lambda>_.
     for_each drop_entry (newly_finished inp act (decode_order env inp act)))))"

text \<open>\<^verbatim>\<open>_step_sync\<close>; the coalescing wait and the blocking read of the idle engine only add requests to \<^verbatim>\<open>incoming\<close>.\<close>

definition engine_round :: "engine_env \<Rightarrow> round_input \<Rightarrow> (engine, unit) prog" where
  "engine_round env inp =
     (let cfg = env_cfg env; bk = env_backend env; now = clock inp
      in andThen drain_requests (\<lambda>_.
         andThen (process_cancellations cfg bk (env_hash env) (env_victim env) (cancel_ids inp)) (\<lambda>_.
         andThen (expire_retained_slots bk now) (\<lambda>_.
         andThen (warm_continue cfg bk now (warm_answer inp)) (\<lambda>_.
         andThen (advance_prefill cfg bk (env_hash env) (env_victim env) (env_fatal env) now (prefill_step inp)) (\<lambda>_.
         andThen (admit_requests cfg bk (env_hash env) (env_victim env) (env_fatal env) now (prefill_begin inp)) (\<lambda>_.
         reading (\<lambda>e. (active e = [] \<and> \<not> pending_prefill e, waiting e = [])) (\<lambda>(idle, empty).
         if idle \<and> empty then drain_requests
         else if idle then update (\<lambda>e. e\<lparr>retry_round := 0\<rparr>)
         else andThen (decode_round env inp) (\<lambda>_.
              andThen (reclaim_timed_out cfg bk now) (\<lambda>_. reclaim_stale cfg bk))))))))))"

section \<open>Slots over a round\<close>

text \<open>
  The decode loop leaves every finished slot in two places, its entry and its new one; the loop after it
  drops the entries.  \<open>xs\<close> are the slots still to come.
\<close>

definition closing :: "engine_cfg \<Rightarrow> int multiset \<Rightarrow> bool \<times> (int \<times> request) list \<Rightarrow> round_input \<Rightarrow>
    (int \<times> slot_entry) list \<Rightarrow> int list \<Rightarrow> int list \<Rightarrow> engine \<Rightarrow> bool" where
  "closing cfg R F inp act order xs e \<longleftrightarrow>
     core_slots e + R + mset (newly_finished inp act xs) = all_slots cfg + mset (newly_finished inp act order) \<and>
     distinct (map fst (retained e)) \<and> pending e = F \<and> map fst (active e) = map fst act \<and>
     distinct xs \<and> set xs \<subseteq> fst ` set act \<and> set xs \<inter> set (warm_ids e) = {} \<and>
     (\<forall>s \<in> set xs. map_of (active e) s = map_of act s)"

lemma keys_dict_set_old: "k \<in> fst ` set d \<Longrightarrow> map fst (dict_set d k v) = map fst d"
  by (induction d k v rule: dict_set.induct) auto

lemma closingD:
  assumes "closing cfg R F inp act order xs e"
  shows "core_slots e + R + mset (newly_finished inp act xs) = all_slots cfg + mset (newly_finished inp act order)"
    and "distinct (map fst (retained e))" and "pending e = F" and "map fst (active e) = map fst act"
    and "distinct xs" and "set xs \<subseteq> fst ` set act" and "set xs \<inter> set (warm_ids e) = {}"
    and "\<And>s. s \<in> set xs \<Longrightarrow> map_of (active e) s = map_of act s"
  using assms unfolding closing_def by blast+

lemma decode_slot_closing:
  "partly (closing cfg R F inp act order (s # xs)) (decode_slot env inp s) (closing cfg R F inp act order xs)"
proof (rule from_here)
  fix e0 assume "closing cfg R F inp act order (s # xs) e0"
  note c = closingD [OF this]
  have "s \<in> fst ` set act" using c(6) by simp
  then obtain st where st: "map_of act s = Some st" using key_value by metis
  obtain n reason where dec: "decoded inp s st = (n, reason)" by fastforce
  have entry: "map_of (active e0) s = Some st" using c(8) [of s] st by simp
  have old: "s \<in> fst ` set (active e0)" using arg_cong [OF c(4), of set] \<open>s \<in> fst ` set act\<close> by simp
  let ?e = "if n = 0 then e0 else e0\<lparr>active := dict_set (active e0) s
    (st\<lparr>committed_len := committed_len st + int n, last_progress_round := Some (round_no e0)\<rparr>)\<rparr>"
  have mid: "core_slots ?e = core_slots e0" "warm_ids ?e = warm_ids e0" "retained ?e = retained e0"
      "pending ?e = pending e0" "map fst (active ?e) = map fst act"
    using c(4) by (simp_all add: core_slots_def warm_ids_def keys_dict_set_old [OF old] del: mset_map)
  have rest: "map_of (active ?e) t = map_of act t" if "t \<in> set xs" for t
    using c(5) c(8) [of t] that by auto
  have fin: "newly_finished inp act (s # xs) =
      (if reason = None then newly_finished inp act xs else s # newly_finished inp act xs)"
    by (simp add: newly_finished_def st dec)
  let ?finish = "\<lambda>why. finish_request (env_cfg env) (env_backend env) (clock inp) s (entry_req st) why"
  have "partly (\<lambda>e. e = ?e) (case reason of None \<Rightarrow> ret () | Some why \<Rightarrow> ?finish why)
      (closing cfg R F inp act order xs)"
  proof (cases reason)
    case None
    have "closing cfg R F inp act order xs ?e"
      unfolding closing_def mid using c rest by (auto simp: fin None)
    then show ?thesis by (auto simp: None intro!: sound_ret)
  next
    case (Some why)
    have "partly (\<lambda>e. e = ?e) (?finish why) (closing cfg R F inp act order xs)"
    proof (rule sound_weaken [OF finish_request_places [of s ?e]])
      fix e assume "e = ?e" then show "before_finish s ?e e"
        using c(2,7) by (simp add: before_finish_def mid)
    next
      fix e assume f: "finished s ?e e"
      have same: "active e = active ?e" "pending e = pending ?e" "distinct (map fst (retained e))"
        "set (warm_ids e) \<subseteq> insert s (set (warm_ids e0))" "core_slots e = add_mset s (core_slots e0)"
        using f unfolding finished_def mid by blast+
      have tally: "core_slots e + R + mset (newly_finished inp act xs) = all_slots cfg + mset (newly_finished inp act order)"
        using c(1) by (simp add: same fin Some)
      have apart: "set xs \<inter> set (warm_ids e) = {}" using same(4) c(5,7) by auto
      show "closing cfg R F inp act order xs e"
        unfolding closing_def same(1,2) mid
        by (intro conjI ballI, rule tally, rule same(3)) (use c(3,5,6) rest apart in simp_all)
    qed
    then show ?thesis by (simp add: Some)
  qed
  note after = this [unfolded sound_at]
  show "partly (\<lambda>e. e = e0) (decode_slot env inp s) (closing cfg R F inp act order xs)"
  proof (cases "n = 0")
    case True
    then show ?thesis using after by (simp add: sound_at decode_slot_def entry dec)
  next
    case False
    then show ?thesis using after by (simp add: sound_at decode_slot_def entry dec)
  qed
qed

definition opened :: "engine_cfg \<Rightarrow> int multiset \<Rightarrow> bool \<times> (int \<times> request) list \<Rightarrow> int list \<Rightarrow> engine \<Rightarrow> bool" where
  "opened cfg R F xs e \<longleftrightarrow> core_slots e + R = all_slots cfg + mset xs \<and>
     distinct (map fst (retained e)) \<and> pending e = F \<and> distinct (map fst (active e)) \<and>
     distinct xs \<and> set xs \<subseteq> fst ` set (active e)"

lemma drop_opened: "partly (opened cfg R F (s # xs)) (drop_entry s) (opened cfg R F xs)"
  unfolding drop_entry_def
proof (rule sound_update)
  fix e assume o: "opened cfg R F (s # xs) e"
  let ?e = "e\<lparr>active := dict_del (active e) s\<rparr>"
  have open_e: "distinct (map fst (active e))" "s \<in> fst ` set (active e)"
      "core_slots e + R = all_slots cfg + add_mset s (mset xs)" "s \<notin> set xs" "set xs \<subseteq> fst ` set (active e)"
    using o by (simp_all add: opened_def)
  from open_e(3) have "core_slots ?e + R = all_slots cfg + mset xs"
    unfolding core_drop [OF open_e(1,2)] by simp
  moreover have "set xs \<subseteq> fst ` set (dict_del (active e) s)"
  proof
    fix k assume k: "k \<in> set xs"
    then obtain v where "(k, v) \<in> set (active e)" using open_e(5) by force
    moreover have "k \<noteq> s" using k open_e(4) by blast
    ultimately show "k \<in> fst ` set (dict_del (active e) s)"
      by (intro image_eqI [of _ _ "(k, v)"] dict_del_subset) simp_all
  qed
  moreover have "distinct (map fst (retained e))" "pending e = F" "distinct xs"
    using o by (simp_all add: opened_def)
  ultimately show "opened cfg R F xs ?e" using open_e(1) by (simp add: opened_def)
qed

lemma decode_order_set:
  "distinct (map fst act) \<Longrightarrow> distinct (decode_order env inp act) \<and> set (decode_order env inp act) = fst ` set act"
  by (auto simp: decode_order_def classify_decode_slots_def Let_def split: if_splits)

lemma decode_round_held: "partly (held cfg R F) (decode_round env inp) (held cfg R F)"
proof (rule from_here)
  fix e0 assume h: "held cfg R F e0"
  let ?act = "active e0" let ?order = "decode_order env inp ?act" let ?fin = "newly_finished inp ?act ?order"
  note once = active_once [OF h] and order = decode_order_set [OF active_once(1) [OF h], of env inp]
  have "set ?order \<inter> set (warm_ids e0) = {}" using order once(2) by auto
  then have start: "closing cfg R F inp ?act ?order ?order (e0\<lparr>round_no := round_no e0 + 1\<rparr>)"
    using h order by (simp add: closing_def held_def core_slots_def warm_ids_def)
  have l1: "partly (closing cfg R F inp ?act ?order ?order) (for_each (decode_slot env inp) ?order)
      (closing cfg R F inp ?act ?order [])"
    by (rule sound_for_each, rule decode_slot_closing)
  have l2: "partly (opened cfg R F ?fin) (for_each drop_entry ?fin) (opened cfg R F [])"
    by (rule sound_for_each, rule drop_opened)
  have between: "opened cfg R F ?fin e" if "closing cfg R F inp ?act ?order [] e" for e
  proof -
    note c = closingD [OF that]
    have "set ?fin \<subseteq> fst ` set (active e)"
      using order arg_cong [OF c(4), of set] by (auto simp: newly_finished_def)
    moreover have "distinct ?fin" using order by (simp add: newly_finished_def)
    moreover have "core_slots e + R = all_slots cfg + mset ?fin" using c(1) by (simp add: newly_finished_def)
    ultimately show ?thesis using c(2,3,4) once(1) by (simp add: opened_def)
  qed
  have closed: "held cfg R F e" if "opened cfg R F [] e" for e
    using that by (simp add: opened_def held_def)
  have loops: "partly (closing cfg R F inp ?act ?order ?order)
      (andThen (for_each (decode_slot env inp) ?order) (\<lambda>_. for_each drop_entry ?fin)) (opened cfg R F [])"
    by (rule sound_andThen [OF sound_weaken [OF l1 _ between] l2]) simp_all
  show "partly (\<lambda>e. e = e0) (decode_round env inp) (held cfg R F)"
    unfolding decode_round_def
  proof (rule sound_reading_at, rule sound_andThen [OF sound_update])
    show "\<And>e. e = e0 \<Longrightarrow> closing cfg R F inp ?act ?order ?order (e\<lparr>round_no := round_no e + 1\<rparr>)"
      using start by simp
    show "partly (closing cfg R F inp ?act ?order ?order)
        (andThen (for_each (decode_slot env inp) ?order) (\<lambda>_. for_each drop_entry ?fin)) (held cfg R F)"
      by (rule sound_weaken [OF loops _ closed]) simp_all
  qed
qed

lemma quiet_drain [frame_rules]: "quiet drain_requests"
  unfolding drain_requests_def by (rule unmoved_update) (simp add: places_def)

lemmas round_ok = quiet_ok [OF quiet_drain] process_cancellations_ok advance_prefill_ok admit_requests_ok
  ok_from_held [OF expire_held] ok_from_held [OF warm_continue_held] ok_from_held [OF decode_round_held]
  ok_from_held [OF reclaims_held(1)] ok_from_held [OF reclaims_held(2)]

lemma keeps_seq: "partly I m I \<Longrightarrow> (\<And>x. partly I (k x) I) \<Longrightarrow> partly I (andThen m k) I"
  by (rule sound_andThen)

lemma engine_round_ok:
  assumes "picks_offered (env_backend env)"
  shows "partly (slots_ok (env_cfg env)) (engine_round env inp) (slots_ok (env_cfg env))"
proof -
  let ?tail = "\<lambda>(idle, empty). if idle \<and> empty then drain_requests
    else if idle then update (\<lambda>e. e\<lparr>retry_round := 0\<rparr>)
    else andThen (decode_round env inp) (\<lambda>_.
      andThen (reclaim_timed_out (env_cfg env) (env_backend env) (clock inp)) (\<lambda>_.
      reclaim_stale (env_cfg env) (env_backend env)))"
  have retry: "quiet (update (\<lambda>e. e\<lparr>retry_round := 0\<rparr>))" by (rule unmoved_update) (simp add: places_def)
  have branch: "partly (slots_ok (env_cfg env)) (?tail p) (slots_ok (env_cfg env))" for p
    by (cases p) (simp only: prod.case, intro sound_if round_ok quiet_ok [OF retry] keeps_seq)
  have tail: "partly (slots_ok (env_cfg env)) (reading f ?tail) (slots_ok (env_cfg env))" for f
    by (rule sound_reading, rule sound_weaken [OF branch]) auto
  show ?thesis unfolding engine_round_def Let_def
    by (intro keeps_seq round_ok assms tail)
qed

section \<open>Reachable engine states\<close>

text \<open>Requests may arrive at any time; rounds that raise end in the recovery and are looked at below.\<close>

inductive engine_reach :: "engine_env \<Rightarrow> engine \<Rightarrow> bool" for env where
  start: "engine_reach env (engine_init (env_cfg env))"
| arrive: "engine_reach env e \<Longrightarrow> enqueue_request (env_cfg env) req e = (r, e') \<Longrightarrow> engine_reach env e'"
| turn: "engine_reach env e \<Longrightarrow> engine_round env inp e = (Inr (), e') \<Longrightarrow> engine_reach env e'"

lemma reach_arrive: "engine_reach env e \<Longrightarrow> engine_reach env (snd (enqueue_request (env_cfg env) req e))"
  by (rule engine_reach.arrive [OF _ prod.collapse [symmetric]])

lemma reach_turn:
  "engine_reach env e \<Longrightarrow> fst (engine_round env inp e) = Inr () \<Longrightarrow> engine_reach env (snd (engine_round env inp e))"
  by (rule engine_reach.turn [of env e inp]) (simp_all add: prod_eq_iff)

lemma enqueue_quiet: "quiet (enqueue_request cfg req)"
  unfolding enqueue_request_def guard_def by (auto intro!: frame_rules simp: places_def split: prod.split)

lemma places_ok: "places e' = places e \<Longrightarrow> slots_ok cfg e \<Longrightarrow> slots_ok cfg e'"
  by (simp add: slots_ok_def held_def core_slots_def warm_ids_def places_def)

lemma engine_reach_ok: "engine_reach env e \<Longrightarrow> picks_offered (env_backend env) \<Longrightarrow> slots_ok (env_cfg env) e"
proof (induction rule: engine_reach.induct)
  case start
  show ?case by (simp add: slots_ok_def held_def core_slots_def warm_ids_def engine_init_def all_slots_def)
next
  case (arrive e req r e')
  have "places (snd (enqueue_request (env_cfg env) req e)) = places e"
    using enqueue_quiet unfolding unmoved_def by blast
  then show ?case using arrive places_ok [of e' e] by simp
next
  case (turn e inp e')
  show ?case by (rule sound_Inr [OF engine_round_ok turn.IH turn.hyps(2)]) (rule turn.prems)+
qed

text \<open>
  C33: As long as no round raises, every slot is free, active, retained or in the pending prefill, and in
  exactly one of these places.
\<close>

theorem engine_slots_conserved:
  assumes "engine_reach env e" and "picks_offered (env_backend env)"
  shows "mset (free_slots e) + mset (map fst (active e)) + mset (map (\<lambda>r. warm_id (snd r)) (retained e)) +
      mset (map fst (pending_reqs e)) = mset [0..capacity (env_cfg env) - 1]"
  using engine_reach_ok [OF assms] by (simp add: slots_ok_def held_def core_slots_def warm_ids_def all_slots_def)

definition demo_backend :: "(int \<Rightarrow> pyexc option) \<Rightarrow> engine_backend" where
  "demo_backend reset = \<lparr>reset_error = reset, slot_fresh = (\<lambda>_. True), slot_state = (\<lambda>_. (0, [])),
     reserve_fits = (\<lambda>_ _. True), best_slot = (\<lambda>_ slots. hd slots)\<rparr>"

definition demo_cfg :: engine_cfg where
  "demo_cfg = \<lparr>capacity = 2, max_pending_requests = 4, cfg_block_size = 2, spec_k = 1, session_affinity = True,
     prefix_cache_on = True, cap_prefix_cache = True, session_ttl = 5, eos_ids = {0}, request_timeout = 0,
     max_stale_rounds = 0, dedup_on = False, kv_reservation = False\<rparr>"

definition demo_env :: "(int \<Rightarrow> pyexc option) \<Rightarrow> engine_env" where
  "demo_env reset = \<lparr>env_cfg = demo_cfg, env_backend = demo_backend reset, env_hash = (\<lambda>_. 0), env_victim = (\<lambda>_. 0),
     env_fatal = (\<lambda>_. False), env_mtp = True, env_sampled_mtp = True\<rparr>"

definition demo_request :: "nat \<Rightarrow> string \<Rightarrow> request" where
  "demo_request i sid = \<lparr>request_id = i, session_id = sid, prompt_ids = [7, 8], max_tokens = 9\<rparr>"

definition demo_answer :: "pyexc option \<Rightarrow> prefill_answer" where
  "demo_answer err = \<lparr>anchor = 3, anchor_error = err, anchor_ends = None\<rparr>"

definition demo_input :: "(int \<Rightarrow> pyexc option) \<Rightarrow> (int \<Rightarrow> slot_entry \<Rightarrow> nat \<times> string option) \<Rightarrow> round_input" where
  "demo_input err dec = \<lparr>cancel_ids = {}, clock = 0, warm_answer = (\<lambda>_ _. Inr (demo_answer None)), prefill_step = Inr None,
     prefill_begin = (\<lambda>_. Inr (Some (\<lambda>s. demo_answer (err s)))), speculative_slot = (\<lambda>_. True),
     sampled_slot = (\<lambda>_. False), decoded = dec\<rparr>"

lemmas demo_defs = demo_backend_def demo_cfg_def demo_env_def demo_request_def demo_answer_def demo_input_def

text \<open>Two requests arrive and are admitted; in the same round the first one finishes and its slot is retained.\<close>

definition demo_queued :: engine where
  "demo_queued = snd (enqueue_request demo_cfg (demo_request 2 [])
     (snd (enqueue_request demo_cfg (demo_request 1 ''a'') (engine_init demo_cfg))))"

definition demo_end :: engine where
  "demo_end = snd (engine_round (demo_env (\<lambda>_. None))
     (demo_input (\<lambda>_. None) (\<lambda>s _. (1, if s = 0 then Some ''stop'' else None))) demo_queued)"

theorem engine_slots_conserved_witness:
  "free_slots demo_end = [] \<and> map fst (active demo_end) = [1] \<and> map (\<lambda>r. warm_id (snd r)) (retained demo_end) = [0] \<and>
   mset (free_slots demo_end) + mset (map fst (active demo_end)) +
     mset (map (\<lambda>r. warm_id (snd r)) (retained demo_end)) + mset (map fst (pending_reqs demo_end)) = mset [0..1]"
proof -
  have cfg: "env_cfg (demo_env (\<lambda>_. None)) = demo_cfg" by (simp add: demo_env_def)
  have q: "engine_reach (demo_env (\<lambda>_. None)) demo_queued"
    unfolding demo_queued_def by (rule reach_arrive [OF reach_arrive [OF engine_reach.start [of "demo_env (\<lambda>_. None)"]], unfolded cfg])
  have ran: "fst (engine_round (demo_env (\<lambda>_. None))
     (demo_input (\<lambda>_. None) (\<lambda>s _. (1, if s = 0 then Some ''stop'' else None))) demo_queued) = Inr ()"
    by code_simp
  have r: "engine_reach (demo_env (\<lambda>_. None)) demo_end"
    unfolding demo_end_def by (rule reach_turn [OF q ran])
  have picks: "picks_offered (env_backend (demo_env (\<lambda>_. None)))" by (simp add: picks_offered_def demo_defs)
  have "free_slots demo_end = [] \<and> map fst (active demo_end) = [1] \<and>
    map (\<lambda>r. warm_id (snd r)) (retained demo_end) = [0]" by code_simp
  with engine_slots_conserved [OF r picks] show ?thesis by (simp add: cfg demo_cfg_def)
qed

section \<open>Rounds that raise\<close>

text \<open>
  The recovery after a failed round resets the retained slots and forgets them: whatever the state, none
  is retained afterwards and none of their slots was freed by this step.
\<close>

lemma release_all_retained_keeps_free:
  "free_slots (snd (release_all_retained bk b e)) = free_slots e"
proof -
  have body: "free_slots (snd (for_each (\<lambda>(sid, w).
       andThen (update (\<lambda>e. e\<lparr>retained := dict_del (retained e) sid\<rparr>)) (\<lambda>_.
       if b then caught (reset_slot bk (warm_id w)) else ret ())) xs e)) = free_slots e" for xs e
    by (induction xs arbitrary: e)
       (auto simp: caught_def reset_slot_def andThen_def split: prod.split sum.split option.split if_splits)
  show ?thesis by (simp add: release_all_retained_def body)
qed

definition demo_fail :: "(int \<Rightarrow> pyexc option) \<Rightarrow> round_input \<Rightarrow> engine \<Rightarrow> engine" where
  "demo_fail reset inp e = (case engine_round (demo_env reset) inp e of
     (Inl err, e') \<Rightarrow> snd (recover_round demo_cfg (demo_backend reset) (\<lambda>_. 0) (\<lambda>_. 0) err e')
   | (Inr u, e') \<Rightarrow> e')"

text \<open>Slot 0 is retained when a round fails; afterwards it is in no place.\<close>

theorem recovery_loses_retained_slot:
  "let e = snd (recover_round demo_cfg (demo_backend (\<lambda>_. None)) (\<lambda>_. 0) (\<lambda>_. 0) (RuntimeError ''round'') demo_end)
   in retained e = [] \<and> active e = [] \<and> pending_reqs e = [] \<and> free_slots e = [1]"
  by code_simp

text \<open>Both requests finish in one round and resetting the second slot raises: the recovery frees slot 0 again.\<close>

theorem recovery_frees_slot_twice:
  "let reset = (\<lambda>s. if s = 1 then Some (RuntimeError ''reset'') else None);
       queued = snd (enqueue_request demo_cfg (demo_request 2 []) (snd (enqueue_request demo_cfg (demo_request 1 [])
         (engine_init demo_cfg))))
   in free_slots (demo_fail reset (demo_input (\<lambda>_. None) (\<lambda>_ _. (1, Some ''stop''))) queued) = [0, 0, 1]"
  by code_simp

text \<open>
  The bootstrap check of the first admitted request raises: the second one, taken from the queue and not
  yet active, is nowhere afterwards, never answered, and both slots are lost.
\<close>

theorem failed_activation_loses_requests:
  "let e = demo_fail (\<lambda>_. None) (demo_input (\<lambda>s. if s = 0 then Some (RuntimeError ''bootstrap'') else None) (\<lambda>_ _. (1, None)))
         demo_queued
   in waiting e = [] \<and> incoming e = [] \<and> active e = [] \<and> pending_reqs e = [] \<and> outcomes e = [] \<and>
      free_slots e = [] \<and> request_count e = 2"
  by code_simp

end
