(* ===== verification/Engine_Requests.thy ===== *)
theory Engine_Requests
  imports Engine_Round
begin

text \<open>
  Request conservation: as long as rounds return, every accepted request is waiting, in the pending
  prefill, active or answered, and in exactly one of these places.
\<close>

section \<open>Where the requests are\<close>

abbreviation ids :: "request list \<Rightarrow> nat list" where
  "ids reqs \<equiv> map request_id reqs"

definition entry_ids :: "(int \<times> slot_entry) list \<Rightarrow> nat multiset" where
  "entry_ids act = mset (map (\<lambda>r. request_id (entry_req (snd r))) act)"

definition core_reqs :: "engine \<Rightarrow> nat multiset" where
  "core_reqs e = mset (ids (incoming e)) + mset (ids (waiting e)) + entry_ids (active e) + mset (map fst (outcomes e))"

text \<open>The slots \<open>R\<close> and the requests \<open>Q\<close> are in the hands of the running operation; \<open>T\<close> are all accepted ids.\<close>

definition uniq :: "nat multiset \<Rightarrow> bool" where
  "uniq T \<longleftrightarrow> (\<forall>i. count T i \<le> 1)"

definition both :: "engine_cfg \<Rightarrow> nat multiset \<Rightarrow> int multiset \<Rightarrow> nat multiset \<Rightarrow> bool \<times> (int \<times> request) list \<Rightarrow> engine \<Rightarrow> bool" where
  "both cfg T R Q F e \<longleftrightarrow> held cfg R F e \<and> core_reqs e + Q = T \<and> uniq T"

definition all_ok :: "engine_cfg \<Rightarrow> nat multiset \<Rightarrow> engine \<Rightarrow> bool" where
  "all_ok cfg T e \<longleftrightarrow> both cfg T (mset (map fst (pending_reqs e))) (mset (ids (map snd (pending_reqs e)))) (pending e) e \<and>
     (\<not> pending_prefill e \<longrightarrow> pending_reqs e = [])"

lemma once_only: "uniq T \<Longrightarrow> A + add_mset i B = T \<Longrightarrow> i \<notin># A \<and> i \<notin># B"
  unfolding uniq_def by (drule spec [of _ i]) (auto simp flip: count_eq_zero_iff)

lemma sound_conj:
  "partly P m Q \<Longrightarrow> partly P' m Q' \<Longrightarrow> partly (\<lambda>e. P e \<and> P' e) m (\<lambda>e. Q e \<and> Q' e)"
  by (auto simp: sound_def split: prod.splits sum.splits)

text \<open>The part of the state that says where the requests are.\<close>

definition rview :: "engine \<Rightarrow> request list \<times> request list \<times> (int \<times> slot_entry) list \<times> (nat \<times> outcome) list" where
  "rview e = (incoming e, waiting e, active e, outcomes e)"

abbreviation rquiet :: "(engine, 'a) prog \<Rightarrow> bool" where
  "rquiet m \<equiv> unmoved rview m"

lemma rquiet_ops [frame_rules]:
  "rquiet (release_request req)" "rquiet (reset_slot bk s)" "rquiet (free_slot s)"
  "rquiet (retain_slot cfg bk now s sid)" "rquiet (release_prefix_dedup_keys cfg hash victim published reqs)"
  by (auto simp: release_request_def reset_slot_def free_slot_def retain_slot_def release_prefix_dedup_keys_def
      rview_def Let_def intro!: frame_rules split: option.split)

section \<open>Answering a request\<close>

text \<open>What an operation does that answers \<open>req\<close> and otherwise moves no request.\<close>

definition answers :: "request \<Rightarrow> (engine, unit) prog \<Rightarrow> bool" where
  "answers req m \<longleftrightarrow> (\<forall>e0. request_id req \<notin> fst ` set (outcomes e0) \<longrightarrow>
     partly (\<lambda>e. e = e0) m (\<lambda>e. \<exists>out. rview e = (incoming e0, waiting e0, active e0, outcomes e0 @ [(request_id req, out)])))"

lemma settle_answers: "answers req (settle_future req out)"
  by (simp add: answers_def settle_future_def sound_at rview_def)

lemma answers_after: "rquiet (m :: (engine, unit) prog) \<Longrightarrow> answers req k \<Longrightarrow> answers req (andThen m (\<lambda>_. k))"
  unfolding answers_def
proof (intro allI impI)
  fix e0 :: engine assume q: "rquiet m" and ans: "\<forall>e0. request_id req \<notin> fst ` set (outcomes e0) \<longrightarrow>
     partly (\<lambda>e. e = e0) k (\<lambda>e. \<exists>out. rview e = (incoming e0, waiting e0, active e0, outcomes e0 @ [(request_id req, out)]))"
    and new: "request_id req \<notin> fst ` set (outcomes e0)"
  have same: "partly (\<lambda>e. e = e0) m (\<lambda>e. rview e = rview e0)"
    by (rule sound_weaken [OF sound_unmoved [OF q, of "\<lambda>e. rview e = rview e0"]]) auto
  show "partly (\<lambda>e. e = e0) (andThen m (\<lambda>_. k))
      (\<lambda>e. \<exists>out. rview e = (incoming e0, waiting e0, active e0, outcomes e0 @ [(request_id req, out)]))"
  proof (rule sound_andThen [OF same], rule from_here)
    fix e1 assume r: "rview e1 = rview e0"
    have same: "incoming e1 = incoming e0" "waiting e1 = waiting e0" "active e1 = active e0" "outcomes e1 = outcomes e0"
      using r by (simp_all add: rview_def)
    from ans [rule_format, of e1, unfolded same, OF new] show "partly (\<lambda>e. e = e1) k
        (\<lambda>e. \<exists>out. rview e = (incoming e0, waiting e0, active e0, outcomes e0 @ [(request_id req, out)]))"
      by (auto simp: rview_def)
  qed
qed

lemma answers_before: "answers req m \<Longrightarrow> rquiet k \<Longrightarrow> answers req (andThen m (\<lambda>_. k))"
  unfolding answers_def
  by (intro allI impI, drule spec, drule mp, assumption, erule sound_andThen, rule sound_unmoved) auto

lemma fail_answers: "answers req (fail_request req f)"
  unfolding fail_request_def by (rule answers_after [OF rquiet_ops(1) settle_answers])

lemma finish_answers: "answers req (finish_request cfg bk now s req reason)"
  unfolding finish_request_def
  by (intro answers_after answers_before settle_answers)
     (auto intro!: frame_rules simp: rview_def split: option.split)

lemma core_rview: "rview e' = rview e \<Longrightarrow> core_reqs e' = core_reqs e"
  by (simp add: core_reqs_def rview_def)

text \<open>The answered request leaves the operation's hands.\<close>

lemma answered:
  assumes "answers req m" and "uniq T"
  shows "partly (\<lambda>e. core_reqs e + add_mset (request_id req) Q = T) m (\<lambda>e. core_reqs e + Q = T)"
proof (rule from_here)
  fix e0 assume t: "core_reqs e0 + add_mset (request_id req) Q = T"
  have "request_id req \<notin># core_reqs e0" using once_only [OF assms(2) t] by simp
  then have "request_id req \<notin> fst ` set (outcomes e0)" by (simp add: core_reqs_def)
  then have "partly (\<lambda>e. e = e0) m
      (\<lambda>e. \<exists>out. rview e = (incoming e0, waiting e0, active e0, outcomes e0 @ [(request_id req, out)]))"
    using assms(1) by (simp add: answers_def)
  then show "partly (\<lambda>e. e = e0) m (\<lambda>e. core_reqs e + Q = T)"
    by (rule sound_weaken) (use t in \<open>auto simp: core_reqs_def rview_def\<close>)
qed

text \<open>From a step for the slots and a step for the requests to a step for both.\<close>

lemma both_step:
  assumes "partly (held cfg R F) m (held cfg R' F')"
    and "uniq T \<Longrightarrow> partly (\<lambda>e. core_reqs e + Q = T) m (\<lambda>e. core_reqs e + Q' = T)"
  shows "partly (both cfg T R Q F) m (both cfg T R' Q' F')"
proof (cases "uniq T")
  case True
  from sound_conj [OF assms(1) assms(2) [OF True]] show ?thesis
    by (rule sound_weaken) (use True in \<open>auto simp: both_def\<close>)
next
  case False
  then show ?thesis by (simp add: both_def sound_def)
qed

lemma rquiet_both:
  assumes "rquiet m" and "partly (held cfg R F) m (held cfg R' F')"
  shows "partly (both cfg T R Q F) m (both cfg T R' Q F')"
  by (rule both_step [OF assms(2)], rule sound_unmoved [OF assms(1)]) (drule core_rview, simp)

lemma all_quiet_both: "rquiet m \<Longrightarrow> quiet m \<Longrightarrow> partly (both cfg T R Q F) m (both cfg T R Q F)"
  by (rule rquiet_both [OF _ held_unmoved])

section \<open>Single slots\<close>

lemma finish_both:
  "partly (both cfg T (add_mset s R) (add_mset (request_id req) Q) F) (finish_request cfg' bk now s req reason) (both cfg T R Q F)"
  if "cfg' = cfg"
  unfolding that by (rule both_step [OF finish_held answered [OF finish_answers]])

lemma fail_both:
  "partly (both cfg T R (add_mset (request_id req) Q) F) (fail_request req f) (both cfg T R Q F)"
  by (rule both_step [OF held_unmoved [OF quiet_requests(3)] answered [OF fail_answers]])

lemma free_both: "partly (both cfg T (add_mset s R) Q F) (free_slot s) (both cfg T R Q F)"
  by (rule rquiet_both [OF rquiet_ops(3) free_held])

lemma entry_ids_del:
  assumes "distinct (map fst d)" and "map_of d s = Some st"
  shows "entry_ids d = add_mset (request_id (entry_req st)) (entry_ids (dict_del d s))"
  using arg_cong [OF mset_dict_del [OF assms], of "image_mset (\<lambda>r. request_id (entry_req (snd r)))"]
  by (simp add: entry_ids_def)

text \<open>An active slot \<open>s\<close> with its entry.\<close>

definition active_with :: "engine_cfg \<Rightarrow> nat multiset \<Rightarrow> int multiset \<Rightarrow> nat multiset \<Rightarrow> bool \<times> (int \<times> request) list \<Rightarrow>
    int \<Rightarrow> slot_entry \<Rightarrow> engine \<Rightarrow> bool" where
  "active_with cfg T R Q F s st e \<longleftrightarrow> both cfg T R Q F e \<and> map_of (active e) s = Some st"

lemma active_with_held:
  assumes "active_with cfg T R Q F s st e"
  shows "held cfg R F e" and "s \<in> fst ` set (active e)" and "distinct (map fst (active e))"
    and "uniq T" and "core_reqs e + Q = T" and "map_of (active e) s = Some st"
proof -
  show h: "held cfg R F e" and "uniq T" "core_reqs e + Q = T" and m: "map_of (active e) s = Some st"
    using assms by (simp_all add: active_with_def both_def)
  show "distinct (map fst (active e))" by (rule active_once(1) [OF h])
  show "s \<in> fst ` set (active e)" using map_of_SomeD [OF m] by force
qed

lemma drop_requests:
  "partly (active_with cfg T R Q F s st) (drop_entry s) (\<lambda>e. core_reqs e + add_mset (request_id (entry_req st)) Q = T)"
  unfolding drop_entry_def
proof (rule sound_update)
  fix e assume "active_with cfg T R Q F s st e"
  note a = active_with_held [OF this]
  from a(5) show "core_reqs (e\<lparr>active := dict_del (active e) s\<rparr>) + add_mset (request_id (entry_req st)) Q = T"
    by (simp add: core_reqs_def entry_ids_del [OF a(3,6)])
qed

lemma finish_drop_both:
  assumes "entry_req st = req"
  shows "partly (active_with cfg T R Q F s st) (andThen (finish_request cfg bk now s req reason) (\<lambda>_. drop_entry s))
    (both cfg T R Q F)"
proof (rule from_here)
  fix e0 assume "active_with cfg T R Q F s st e0"
  note a = active_with_held [OF this]
  have id: "request_id req \<notin> fst ` set (outcomes e0)"
  proof -
    have "(mset (ids (incoming e0)) + mset (ids (waiting e0)) + entry_ids (dict_del (active e0) s) +
        mset (map fst (outcomes e0)) + Q) + add_mset (request_id req) {#} = T"
      using a(5) by (simp add: core_reqs_def entry_ids_del [OF a(3,6)] assms)
    from once_only [OF a(4) this] show ?thesis by simp
  qed
  have fin: "partly (\<lambda>e. e = e0) (finish_request cfg bk now s req reason)
      (\<lambda>e. \<exists>out. rview e = (incoming e0, waiting e0, active e0, outcomes e0 @ [(request_id req, out)]))"
    using finish_answers id unfolding answers_def by blast
  have drop: "partly (\<lambda>e. \<exists>out. rview e = (incoming e0, waiting e0, active e0, outcomes e0 @ [(request_id req, out)]))
      (drop_entry s) (\<lambda>e. core_reqs e + Q = T)"
    unfolding drop_entry_def
    by (rule sound_update)
       (use a(5) in \<open>auto simp: core_reqs_def rview_def entry_ids_del [OF a(3,6)] assms\<close>)
  have slots: "partly (\<lambda>e. e = e0) (andThen (finish_request cfg bk now s req reason) (\<lambda>_. drop_entry s)) (held cfg R F)"
    by (rule sound_weaken [OF finish_drop]) (use a in auto)
  show "partly (\<lambda>e. e = e0) (andThen (finish_request cfg bk now s req reason) (\<lambda>_. drop_entry s)) (both cfg T R Q F)"
    by (rule sound_weaken [OF sound_conj [OF slots sound_andThen [OF fin drop]]]) (use a(4) in \<open>auto simp: both_def\<close>)
qed

lemma activate_both:
  "partly (both cfg T (add_mset s R) (add_mset (request_id req) Q) F) (activate_slot cfg bk now s req ans) (both cfg T R Q F)"
proof (cases "anchor_error ans")
  case (Some err)
  then show ?thesis by (simp add: activate_slot_def sound_def raise_def)
next
  case None
  let ?st = "\<lambda>e. \<lparr>entry_req = req, committed_len = 1, start_time = Some now, last_progress_round = Some (round_no e)\<rparr>"
  let ?entry = "update (\<lambda>e. e\<lparr>active := dict_set (active e) s (?st e)\<rparr>)"
  let ?A = "\<lambda>e. \<exists>st. active_with cfg T R Q F s st e \<and> entry_req st = req"
  have entry: "partly (both cfg T (add_mset s R) (add_mset (request_id req) Q) F) ?entry ?A"
  proof (rule sound_update)
    fix e assume b: "both cfg T (add_mset s R) (add_mset (request_id req) Q) F e"
    then have "held cfg (add_mset s R) F e" by (simp add: both_def)
    from in_hand(2) [OF this] b have "both cfg T R Q F (e\<lparr>active := dict_set (active e) s (?st e)\<rparr>)"
      by (simp add: both_def held_def core_slots_def warm_ids_def core_reqs_def entry_ids_def dict_set_fresh)
    then have here: "active_with cfg T R Q F s (?st e) (e\<lparr>active := dict_set (active e) s (?st e)\<rparr>)"
      unfolding active_with_def by simp
    show "?A (e\<lparr>active := dict_set (active e) s (?st e)\<rparr>)"
      by (rule exI [of _ "?st e"], rule conjI [OF here], rule slot_entry.select_convs(1))
  qed
  have fin: "partly ?A (andThen (finish_request cfg bk now s req reason) (\<lambda>_. drop_entry s)) (both cfg T R Q F)" for reason
    by (rule sound_ex, rule sound_fact, rule finish_drop_both)
  have leave: "partly ?A (ret ()) (both cfg T R Q F)"
    by (rule sound_ret) (auto simp: active_with_def)
  show ?thesis
    unfolding activate_slot_def None option.case Let_def drop_entry_def [symmetric]
    by (auto intro!: sound_if finish_both sound_andThen [OF entry] fin leave split: option.split)
qed

text \<open>A slot given up with its request failed.\<close>

lemma give_up_both:
  "partly (active_with cfg T R Q F s st) (andThen (drop_entry s) (\<lambda>_. andThen (fail_request (entry_req st) f) (\<lambda>_.
     andThen (caught (reset_slot bk s)) (\<lambda>_. free_slot s)))) (both cfg T R Q F)"
proof (cases "uniq T")
  case True
  have slots: "partly (\<lambda>e. held cfg R F e \<and> s \<in> fst ` set (active e) \<and> True) (andThen (drop_entry s) (\<lambda>_.
      andThen (fail_request (entry_req st) f) (\<lambda>_. andThen (caught (reset_slot bk s)) (\<lambda>_. free_slot s))))
      (\<lambda>e. held cfg R F e \<and> (\<exists>a. active e = dict_del a s \<and> True))"
    by (rule give_up_held [where X = "\<lambda>_. True"])
  have rest: "answers (entry_req st) (andThen (fail_request (entry_req st) f) (\<lambda>_.
      andThen (caught (reset_slot bk s)) (\<lambda>_. free_slot s)))"
    by (rule answers_before [OF fail_answers]) (intro frame_rules)
  show ?thesis
    by (rule sound_weaken [OF sound_conj [OF slots sound_andThen [OF drop_requests answered [OF rest True]]]])
       (use True in \<open>auto dest: active_with_held simp: both_def\<close>)
qed (auto simp: active_with_def both_def sound_def)

section \<open>The operations of a round\<close>

lemma ok_from_both: "(\<And>R Q F. partly (both cfg T R Q F) m (both cfg T R Q F)) \<Longrightarrow> partly (all_ok cfg T) m (all_ok cfg T)"
proof (rule from_here)
  assume keep: "\<And>R Q F. partly (both cfg T R Q F) m (both cfg T R Q F)"
  fix e0 assume ok: "all_ok cfg T e0"
  show "partly (\<lambda>e. e = e0) m (all_ok cfg T)"
    by (rule sound_weaken [OF keep [of "mset (map fst (pending_reqs e0))" "mset (ids (map snd (pending_reqs e0)))" "pending e0"]])
       (use ok in \<open>auto simp: all_ok_def both_def held_def\<close>)
qed

lemma drain_both: "partly (both cfg T R Q F) drain_requests (both cfg T R Q F)"
  unfolding drain_requests_def
  by (rule sound_update) (simp add: both_def held_def core_slots_def warm_ids_def core_reqs_def ac_simps)

lemma expire_rquiet: "rquiet (expire_retained_slots bk now)"
  unfolding expire_retained_slots_def by (auto intro!: frame_rules simp: rview_def split: prod.split)

lemma reclaim_both: "partly (both cfg T R Q F) (reclaim_slot bk f s) (both cfg T R Q F)"
  unfolding reclaim_slot_def drop_entry_def [symmetric]
proof (rule sound_reading)
  fix entry
  show "partly (\<lambda>e. both cfg T R Q F e \<and> entry = map_of (active e) s)
    (case entry of None \<Rightarrow> raise (KeyError ''active.pop'')
     | Some st \<Rightarrow> andThen (drop_entry s) (\<lambda>_. andThen (fail_request (entry_req st) f) (\<lambda>_.
         andThen (caught (reset_slot bk s)) (\<lambda>_. free_slot s)))) (both cfg T R Q F)"
  proof (cases entry)
    case (Some st)
    show ?thesis unfolding Some option.case
      by (rule sound_weaken [OF give_up_both]) (auto simp: active_with_def)
  qed (simp add: sound_def)
qed

lemma reclaims_both:
  "partly (both cfg T R Q F) (reclaim_timed_out cfg' bk now) (both cfg T R Q F)"
  "partly (both cfg T R Q F) (reclaim_stale cfg' bk) (both cfg T R Q F)"
proof -
  have loop: "partly (both cfg T R Q F) (for_each (reclaim_slot bk f) ss) (both cfg T R Q F)" for f ss
    by (rule sound_for_each [where P = "\<lambda>_. both cfg T R Q F"], rule reclaim_both)
  show "partly (both cfg T R Q F) (reclaim_timed_out cfg' bk now) (both cfg T R Q F)"
    unfolding reclaim_timed_out_def by (rule sound_reading, rule sound_weaken [OF loop]) auto
  show "partly (both cfg T R Q F) (reclaim_stale cfg' bk) (both cfg T R Q F)"
    unfolding reclaim_stale_def
    by (rule sound_reading) (auto intro: sound_weaken [OF loop])
qed

lemma cancel_active_both: "partly (both cfg T R Q F) (cancel_active bk is) (both cfg T R Q F)"
proof -
  define K where "K xs a \<longleftrightarrow> (\<forall>(s, st) \<in> set xs. map_of a s = Some st) \<and> distinct (map fst xs)"
    for xs :: "(int \<times> slot_entry) list" and a :: "(int \<times> slot_entry) list"
  have body: "partly (\<lambda>e. both cfg T R Q F e \<and> K ((s, st) # xs) (active e))
      (andThen (drop_entry s) (\<lambda>_. andThen (fail_request (entry_req st) Cancelled) (\<lambda>_.
        andThen (caught (reset_slot bk s)) (\<lambda>_. andThen (free_slot s) (\<lambda>_. update (\<lambda>e. e\<lparr>retry_round := 0\<rparr>))))))
      (\<lambda>e. both cfg T R Q F e \<and> K xs (active e))" for s st xs
  proof -
    let ?m = "andThen (drop_entry s) (\<lambda>_. andThen (fail_request (entry_req st) Cancelled) (\<lambda>_.
        andThen (caught (reset_slot bk s)) (\<lambda>_. free_slot s)))"
    have given: "partly (\<lambda>e. both cfg T R Q F e \<and> K ((s, st) # xs) (active e)) ?m
        (\<lambda>e. both cfg T R Q F e \<and> K xs (active e))"
    proof (rule sound_weaken [OF sound_conj [OF give_up_both give_up_held [where X = "K ((s, st) # xs)"]]])
      fix e assume "both cfg T R Q F e \<and> K ((s, st) # xs) (active e)"
      then show "active_with cfg T R Q F s st e \<and> held cfg R F e \<and> s \<in> fst ` set (active e) \<and> K ((s, st) # xs) (active e)"
        by (force simp: active_with_def both_def K_def dest: map_of_SomeD)
    next
      fix e assume "both cfg T R Q F e \<and> held cfg R F e \<and> (\<exists>a. active e = dict_del a s \<and> K ((s, st) # xs) a)"
      then show "both cfg T R Q F e \<and> K xs (active e)" by (force simp: K_def)
    qed simp
    have retry: "partly (\<lambda>e. both cfg T R Q F e \<and> K xs (active e)) (update (\<lambda>e. e\<lparr>retry_round := 0\<rparr>))
        (\<lambda>e. both cfg T R Q F e \<and> K xs (active e))"
      by (rule sound_update) (simp add: both_def held_def core_slots_def warm_ids_def core_reqs_def)
    show ?thesis by (rule sound_andThen [OF given retry, unfolded andThen_assoc])
  qed
  have loop: "partly (\<lambda>e. both cfg T R Q F e \<and> K xs (active e)) (for_each (\<lambda>(s, st).
      andThen (drop_entry s) (\<lambda>_. andThen (fail_request (entry_req st) Cancelled) (\<lambda>_.
      andThen (caught (reset_slot bk s)) (\<lambda>_. andThen (free_slot s) (\<lambda>_. update (\<lambda>e. e\<lparr>retry_round := 0\<rparr>)))))) xs)
      (\<lambda>e. both cfg T R Q F e \<and> K [] (active e))" for xs
    by (rule sound_for_each_pair, rule body)
  have start: "both cfg T R Q F e \<Longrightarrow> K (filter P (active e)) (active e)" for e P
    using active_once(1) [of cfg R F e] by (auto simp: both_def K_def distinct_map_filter)
  show ?thesis
    unfolding cancel_active_def drop_entry_def [symmetric]
    by (rule sound_reading, rule sound_weaken [OF loop]) (auto intro: start)
qed

text \<open>Failing queued requests that are not answered yet.\<close>

lemma fail_all:
  "distinct (ids xs) \<Longrightarrow> set (ids xs) \<inter> fst ` set (outcomes e0) = {} \<Longrightarrow>
   partly (\<lambda>e. e = e0) (for_each (\<lambda>req. fail_request req f) xs)
     (\<lambda>e. \<exists>outs. rview e = (incoming e0, waiting e0, active e0, outcomes e0 @ outs) \<and> map fst outs = ids xs)"
proof (induction xs arbitrary: e0)
  case Nil
  then show ?case by (simp add: sound_at rview_def)
next
  case (Cons req xs)
  have first: "partly (\<lambda>e. e = e0) (fail_request req f)
      (\<lambda>e. \<exists>out. rview e = (incoming e0, waiting e0, active e0, outcomes e0 @ [(request_id req, out)]))"
    using fail_answers [of req f] Cons.prems by (auto simp: answers_def)
  show ?case unfolding for_each.simps
  proof (rule sound_andThen [OF first], rule from_here)
    fix e1 assume "\<exists>out. rview e1 = (incoming e0, waiting e0, active e0, outcomes e0 @ [(request_id req, out)])"
    then obtain out where e1: "incoming e1 = incoming e0" "waiting e1 = waiting e0" "active e1 = active e0"
        "outcomes e1 = outcomes e0 @ [(request_id req, out)]" by (auto simp: rview_def)
    have "partly (\<lambda>e. e = e1) (for_each (\<lambda>req. fail_request req f) xs)
        (\<lambda>e. \<exists>outs. rview e = (incoming e1, waiting e1, active e1, outcomes e1 @ outs) \<and> map fst outs = ids xs)"
      by (rule Cons.IH) (use Cons.prems e1(4) in auto)
    then show "partly (\<lambda>e. e = e1) (for_each (\<lambda>req. fail_request req f) xs) (\<lambda>e. \<exists>outs.
        rview e = (incoming e0, waiting e0, active e0, outcomes e0 @ outs) \<and> map fst outs = ids (req # xs))"
    proof (rule sound_weaken)
      fix e assume "\<exists>outs. rview e = (incoming e1, waiting e1, active e1, outcomes e1 @ outs) \<and> map fst outs = ids xs"
      then obtain outs where "rview e = (incoming e1, waiting e1, active e1, outcomes e1 @ outs)" "map fst outs = ids xs"
        by blast
      then show "\<exists>outs. rview e = (incoming e0, waiting e0, active e0, outcomes e0 @ outs) \<and> map fst outs = ids (req # xs)"
        by (intro exI [of _ "(request_id req, out) # outs"]) (simp add: e1)
    qed simp_all
  qed
qed

lemma uniq_list:
  assumes "uniq T" and "mset xs + B = T"
  shows "distinct xs" and "set xs \<inter> set_mset B = {}" and "uniq B"
proof -
  have c: "count (mset xs) i + count B i \<le> 1" for i
    using assms by (auto simp: uniq_def dest: spec [of _ i])
  have "count (mset xs) i \<le> 1" "count B i \<le> 1" for i using c [of i] by simp_all
  then show "distinct xs" "uniq B"
    by (auto simp: uniq_def distinct_count_atmost_1 le_Suc_eq count_eq_zero_iff split: if_splits)
  show "set xs \<inter> set_mset B = {}"
  proof (rule equals0I)
    fix i assume "i \<in> set xs \<inter> set_mset B"
    then have "0 < count (mset xs) i" "0 < count B i" by simp_all
    with c [of i] show False by simp
  qed
qed

lemma ids_split: "mset (ids (filter P xs)) + mset (ids (filter (\<lambda>x. \<not> P x) xs)) = mset (ids xs)"
  by (induction xs) auto

lemma cancel_queued_core:
  assumes "uniq T"
  shows "partly (\<lambda>e. core_reqs e + Q = T) (cancel_queued is) (\<lambda>e. core_reqs e + Q = T)"
proof (rule from_here)
  fix e0 assume t: "core_reqs e0 + Q = T"
  let ?w = "waiting e0" let ?q = "incoming e0"
  let ?cw = "filter (\<lambda>r. request_id r \<in> is) ?w" let ?cq = "filter (\<lambda>r. request_id r \<in> is) ?q"
  let ?kw = "filter (\<lambda>r. request_id r \<notin> is) ?w" let ?kq = "filter (\<lambda>r. request_id r \<notin> is) ?q"
  let ?outs = "outcomes e0"
  have parts: "mset (ids ?cw @ ids ?cq @ map fst ?outs) + (mset (ids ?kw) + mset (ids ?kq) + entry_ids (active e0) + Q) = T"
    using t ids_split [of "\<lambda>r. request_id r \<in> is" ?w, symmetric] ids_split [of "\<lambda>r. request_id r \<in> is" ?q, symmetric]
    by (simp add: core_reqs_def ac_simps)
  note d = uniq_list(1) [OF assms parts]
  let ?S1 = "\<lambda>e. \<exists>o1. rview e = (?q, ?w, active e0, ?outs @ o1) \<and> map fst o1 = ids ?cw"
  let ?S2 = "\<lambda>e. \<exists>o1. rview e = (?q, ?kw, active e0, ?outs @ o1) \<and> map fst o1 = ids ?cw"
  let ?S3 = "\<lambda>e. \<exists>o1. rview e = (?q, ?kw, active e0, ?outs @ o1) \<and> map fst o1 = ids ?cw @ ids ?cq"
  have s1: "partly (\<lambda>e. e = e0) (for_each (\<lambda>req. fail_request req Cancelled) ?cw) ?S1"
    by (rule fail_all) (use d in auto)
  have s2: "partly ?S1 (update (\<lambda>e. e\<lparr>waiting := ?kw\<rparr>)) ?S2"
    by (rule sound_update) (auto simp: rview_def)
  have s3: "partly ?S2 (for_each (\<lambda>req. fail_request req Cancelled) ?cq) ?S3"
  proof (rule from_here)
    fix e1 assume "?S2 e1"
    then obtain o1 where e1: "incoming e1 = ?q" "waiting e1 = ?kw" "active e1 = active e0" "outcomes e1 = ?outs @ o1"
        "map fst o1 = ids ?cw" by (auto simp: rview_def)
    have out1: "fst ` set (outcomes e1) = set (map fst ?outs) \<union> set (ids ?cw)"
      unfolding e1(4) e1(5) [symmetric] by (simp add: image_Un)
    have "partly (\<lambda>e. e = e1) (for_each (\<lambda>req. fail_request req Cancelled) ?cq)
        (\<lambda>e. \<exists>outs. rview e = (incoming e1, waiting e1, active e1, outcomes e1 @ outs) \<and> map fst outs = ids ?cq)"
      by (rule fail_all) (use d out1 in auto)
    then show "partly (\<lambda>e. e = e1) (for_each (\<lambda>req. fail_request req Cancelled) ?cq) ?S3"
    proof (rule sound_weaken)
      fix e assume "\<exists>outs. rview e = (incoming e1, waiting e1, active e1, outcomes e1 @ outs) \<and> map fst outs = ids ?cq"
      then obtain o2 where "rview e = (incoming e1, waiting e1, active e1, outcomes e1 @ o2)" "map fst o2 = ids ?cq"
        by blast
      then show "?S3 e" by (intro exI [of _ "o1 @ o2"]) (simp add: e1)
    qed simp_all
  qed
  have s4: "partly ?S3 (update (\<lambda>e. e\<lparr>incoming := ?kq\<rparr>)) (\<lambda>e. core_reqs e + Q = T)"
  proof (rule sound_update)
    fix e assume "?S3 e"
    then obtain o1 where o1: "waiting e = ?kw" "active e = active e0" "outcomes e = ?outs @ o1"
        "map fst o1 = ids ?cw @ ids ?cq" by (auto simp: rview_def)
    have "mset (map fst (outcomes e)) = mset (map fst ?outs) + mset (ids ?cw @ ids ?cq)"
      unfolding o1(3) map_append o1(4) mset_append ..
    with parts show "core_reqs (e\<lparr>incoming := ?kq\<rparr>) + Q = T"
      by (simp add: core_reqs_def o1(1,2) ac_simps)
  qed
  show "partly (\<lambda>e. e = e0) (cancel_queued is) (\<lambda>e. core_reqs e + Q = T)"
    unfolding cancel_queued_def
    by (rule sound_reading_at, unfold prod.case, rule sound_andThen [OF s1 sound_andThen [OF s2 sound_andThen [OF s3 s4]]])
qed

lemma cancel_queued_both: "partly (both cfg T R Q F) (cancel_queued is) (both cfg T R Q F)"
  by (rule both_step [OF held_unmoved [OF quiet_cancel_queued] cancel_queued_core])

text \<open>Loops over \<open>(slot, request)\<close> pairs in hand.\<close>

lemma give_back_both:
  assumes "\<And>s req R Q. partly (both cfg T (add_mset s R) (add_mset (request_id req) Q) F) (f s req) (both cfg T R Q F)"
  shows "partly (both cfg T (mset (map fst xs)) (mset (ids (map snd xs))) F)
    (for_each (\<lambda>(s, req). f s req) xs) (both cfg T {#} {#} F)"
proof -
  have "partly (both cfg T (mset (map fst ((s, req) # ys))) (mset (ids (map snd ((s, req) # ys)))) F) (f s req)
      (both cfg T (mset (map fst ys)) (mset (ids (map snd ys))) F)" for s req ys
    using assms [of s "mset (map fst ys)" req "mset (ids (map snd ys))"] by simp
  from sound_for_each_pair [where P = "\<lambda>xs. both cfg T (mset (map fst xs)) (mset (ids (map snd xs))) F", OF this]
  show ?thesis by simp
qed

lemma set_pending_both:
  "partly (both cfg T R Q F) (update (\<lambda>e. e\<lparr>pending_prefill := b, pending_reqs := ps\<rparr>)) (both cfg T R Q (b, ps))"
  by (rule rquiet_both [OF _ set_pending_held]) (rule unmoved_update, simp add: rview_def)

lemma nothing_pending_both: "both cfg T {#} {#} (b, []) e \<Longrightarrow> all_ok cfg T e"
  by (auto simp: all_ok_def both_def held_def)

lemma requeue_both:
  "partly (both cfg T R (add_mset (request_id req) Q) F) (update (\<lambda>e. e\<lparr>waiting := req # waiting e\<rparr>)) (both cfg T R Q F)"
  by (rule sound_update) (simp add: both_def held_def core_slots_def warm_ids_def core_reqs_def)

lemma dedup_both:
  "partly (both cfg T R Q F) (release_prefix_dedup_keys cfg' hash victim published reqs) (both cfg T R Q F)"
  by (rule all_quiet_both [OF rquiet_ops(5) quiet_dedup])

lemma reset_both:
  "partly (both cfg T R Q F) (reset_slot bk s) (both cfg T R Q F)"
  "partly (both cfg T R Q F) (caught (reset_slot bk s)) (both cfg T R Q F)"
  by (rule all_quiet_both, rule rquiet_ops, rule quiet_reset)
     (rule all_quiet_both, rule unmoved_caught, rule rquiet_ops, rule unmoved_caught, rule quiet_reset)

lemma abort_prefill_both: "partly (all_ok cfg T) (abort_prefill cfg' bk hash victim is) (all_ok cfg T)"
proof (rule from_here)
  fix e0 assume ok: "all_ok cfg T e0"
  let ?give = "\<lambda>slot req. andThen (caught (reset_slot bk slot)) (\<lambda>_.
    andThen (update (\<lambda>e. if slot \<in> set (free_slots e) then e else e\<lparr>free_slots := free_slots e @ [slot]\<rparr>)) (\<lambda>_.
    if request_id req \<in> is then fail_request req Cancelled else update (\<lambda>e. e\<lparr>waiting := req # waiting e\<rparr>)))"
  have put: "partly (both cfg T (add_mset s R) Q F)
      (update (\<lambda>e. if s \<in> set (free_slots e) then e else e\<lparr>free_slots := free_slots e @ [s]\<rparr>)) (both cfg T R Q F)" for s R Q F
    by (rule rquiet_both [OF _ return_held], rule unmoved_update) (simp add: rview_def)
  have give: "partly (both cfg T (add_mset s R) (add_mset (request_id req) Q) F) (?give s req) (both cfg T R Q F)" for s req R Q F
    by (rule sound_andThen [OF reset_both(2) sound_andThen [OF put sound_if]]) (rule fail_both requeue_both)+
  let ?ps = "pending_reqs e0"
  have all: "partly (both cfg T (mset (map fst ?ps)) (mset (ids (map snd ?ps))) (pending e0))
      (andThen (release_prefix_dedup_keys cfg' hash victim False (map snd ?ps)) (\<lambda>_.
       andThen (update (\<lambda>e. e\<lparr>pending_prefill := False, pending_reqs := []\<rparr>)) (\<lambda>_.
       for_each (\<lambda>(slot, req). ?give slot req) ?ps))) (both cfg T {#} {#} (False, []))"
    by (rule sound_andThen [OF dedup_both sound_andThen [OF set_pending_both]], rule give_back_both, rule give)
  have start: "\<And>e. e = e0 \<Longrightarrow> both cfg T (mset (map fst ?ps)) (mset (ids (map snd ?ps))) (pending e0) e"
    using ok by (simp add: all_ok_def)
  show "partly (\<lambda>e. e = e0) (abort_prefill cfg' bk hash victim is) (all_ok cfg T)"
    unfolding abort_prefill_def
  proof (rule sound_reading_at, rule sound_if)
    show "partly (\<lambda>e. e = e0) (ret ()) (all_ok cfg T)" by (rule sound_ret) (simp add: ok)
  qed (rule sound_weaken [OF all start nothing_pending_both], simp_all)
qed

lemma keeps_all: "partly I m I \<Longrightarrow> (\<And>x. partly I (k x) I) \<Longrightarrow> partly I (andThen m k) I"
  by (rule sound_andThen)

lemma process_cancellations_both:
  "partly (all_ok cfg T) (process_cancellations cfg' bk hash victim is) (all_ok cfg T)"
  unfolding process_cancellations_def
  by (intro sound_if keeps_all ok_from_both [OF cancel_active_both] ok_from_both [OF cancel_queued_both] abort_prefill_both)
     (rule sound_ret)

section \<open>Warm continuation\<close>

lemma waiting_unmoved [frame_rules]:
  "unmoved waiting (release_request req)" "unmoved waiting (settle_future req out)" "unmoved waiting (reset_slot bk s)"
  "unmoved waiting (free_slot s)" "unmoved waiting (retain_slot cfg bk now s sid)"
  by (auto simp: release_request_def settle_future_def reset_slot_def free_slot_def retain_slot_def
      intro!: frame_rules split: option.split)

lemma waiting_finish [frame_rules]: "unmoved waiting (finish_request cfg bk now s req reason)"
  unfolding finish_request_def by (auto intro!: frame_rules split: option.split)

lemma waiting_activate: "unmoved waiting (activate_slot cfg bk now s req ans)"
  unfolding activate_slot_def Let_def by (auto intro!: frame_rules split: option.split)

text \<open>The requests of the snapshot that are still to be looked at are waiting.\<close>

definition still_waiting :: "request list \<Rightarrow> engine \<Rightarrow> bool" where
  "still_waiting xs e \<longleftrightarrow> set xs \<subseteq> set (waiting e) \<and> distinct (ids xs)"

lemma fallback_both:
  "partly (\<lambda>e. both cfg T (add_mset s R) (add_mset (request_id req) Q) F e \<and> still_waiting xs e)
     (warm_fallback bk s req) (\<lambda>e. both cfg T R Q F e \<and> still_waiting xs e)"
proof -
  have still: "partly (still_waiting xs) (reset_slot bk s) (still_waiting xs)" "partly (still_waiting xs) (free_slot s) (still_waiting xs)"
    by (rule sound_unmoved [of waiting], rule waiting_unmoved, simp add: still_waiting_def)+
  have requeued: "partly (still_waiting xs) (update (\<lambda>e. e\<lparr>waiting := req # waiting e\<rparr>)) (still_waiting xs)"
    by (rule sound_update) (auto simp: still_waiting_def)
  show ?thesis unfolding warm_fallback_def
    by (rule sound_conj [OF sound_andThen [OF reset_both(1) sound_andThen [OF free_both requeue_both]]
        sound_andThen [OF still(1) sound_andThen [OF still(2) requeued]]])
qed

lemma warm_one_both:
  "partly (\<lambda>e. both cfg T R Q F e \<and> still_waiting (req # xs) e) (warm_continue_one cfg bk now warm req)
     (\<lambda>e. both cfg T R Q F e \<and> still_waiting xs e)"
proof -
  have same: "partly (\<lambda>e. both cfg T R Q F e \<and> still_waiting (req # xs) e \<and> P e) (ret ())
      (\<lambda>e. both cfg T R Q F e \<and> still_waiting xs e)" for P
    by (rule sound_ret) (simp add: still_waiting_def)
  have pop: "partly (\<lambda>e. both cfg T R Q F e \<and> still_waiting (req # xs) e \<and> Some w = map_of (retained e) (session_id req))
      (update (\<lambda>e. e\<lparr>retained := dict_del (retained e) (session_id req), waiting := remove1 req (waiting e)\<rparr>))
      (\<lambda>e. both cfg T (add_mset (warm_id w) R) (add_mset (request_id req) Q) F e \<and> still_waiting xs e)" for w
  proof (rule sound_update)
    fix e assume e: "both cfg T R Q F e \<and> still_waiting (req # xs) e \<and> Some w = map_of (retained e) (session_id req)"
    let ?e = "e\<lparr>retained := dict_del (retained e) (session_id req), waiting := remove1 req (waiting e)\<rparr>"
    have "held cfg (add_mset (warm_id w) R) F ?e"
      using e core_pop [of e "session_id req" w] by (simp add: both_def held_def core_slots_def warm_ids_def)
    moreover have "mset (waiting e) = add_mset req (mset (remove1 req (waiting e)))"
      using e by (simp add: still_waiting_def)
    from arg_cong [OF this, of "image_mset request_id"]
    have "mset (ids (waiting e)) = add_mset (request_id req) (mset (ids (remove1 req (waiting e))))"
      by (simp del: mset_remove1)
    then have "core_reqs ?e + add_mset (request_id req) Q = T" using e by (simp add: both_def core_reqs_def)
    moreover have "still_waiting xs ?e"
    proof -
      have sub: "set xs \<subseteq> set (waiting e)" "distinct (ids xs)" "req \<notin> set xs"
        using e by (auto simp: still_waiting_def)
      have "x \<in> set (remove1 req (waiting e))" if "x \<in> set xs" for x
        using sub that by (subst in_set_remove1) auto
      then show ?thesis using sub(2) by (auto simp: still_waiting_def)
    qed
    ultimately show "both cfg T (add_mset (warm_id w) R) (add_mset (request_id req) Q) F ?e \<and> still_waiting xs ?e"
      using e by (simp add: both_def)
  qed
  have still: "partly (still_waiting xs) (activate_slot cfg bk now s req ans) (still_waiting xs)" for s ans
    by (rule sound_unmoved [OF waiting_activate]) (simp add: still_waiting_def)
  have act: "partly (\<lambda>e. both cfg T (add_mset s R) (add_mset (request_id req) Q) F e \<and> still_waiting xs e)
      (activate_slot cfg bk now s req ans) (\<lambda>e. both cfg T R Q F e \<and> still_waiting xs e)" for s ans
    by (rule sound_conj [OF activate_both still])
  show ?thesis unfolding warm_continue_one_def
    by (rule sound_reading)
       (auto intro!: same sound_andThen [OF pop] fallback_both act split: option.split sum.split)
qed

lemma waiting_distinct: "both cfg T R Q F e \<Longrightarrow> distinct (ids (waiting e))"
  by (rule uniq_list(1) [of T _ "mset (ids (incoming e)) + entry_ids (active e) + mset (map fst (outcomes e)) + Q"])
     (simp_all add: both_def core_reqs_def ac_simps)

lemma warm_both: "partly (both cfg T R Q F) (warm_continue cfg bk now warm) (both cfg T R Q F)"
proof -
  have loop: "partly (\<lambda>e. both cfg T R Q F e \<and> still_waiting xs e) (for_each (warm_continue_one cfg bk now warm) xs)
      (\<lambda>e. both cfg T R Q F e \<and> still_waiting [] e)" for xs
    by (rule sound_for_each [where P = "\<lambda>xs e. both cfg T R Q F e \<and> still_waiting xs e"], rule warm_one_both)
  show ?thesis unfolding warm_continue_def
    by (rule sound_reading)
       (auto intro!: sound_if sound_weaken [OF loop] sound_ret simp: still_waiting_def waiting_distinct split: prod.split)
qed

section \<open>Prefill and admission\<close>

lemma fail_slots_both:
  "partly (both cfg T (mset (map fst reqs)) (mset (ids (map snd reqs))) F) (fail_slots bk is_fatal err reqs) (both cfg T {#} {#} F)"
proof -
  have opt: "partly (both cfg T R Q F) (if is_fatal then ret () else caught (reset_slot bk s)) (both cfg T R Q F)" for R Q F s
    by (rule sound_if, rule sound_ret, assumption, rule reset_both(2))
  show ?thesis unfolding fail_slots_def
    by (rule give_back_both, rule sound_andThen [OF fail_both sound_andThen [OF opt free_both]])
qed

lemma activate_loop_both:
  "partly (both cfg T (mset (map fst reqs)) (mset (ids (map snd reqs))) F)
     (for_each (\<lambda>(slot, req). activate_slot cfg bk now slot req (result slot)) reqs) (both cfg T {#} {#} F)"
  by (rule give_back_both, rule activate_both)

lemma advance_prefill_both:
  "partly (all_ok cfg T) (advance_prefill cfg bk hash victim is_fatal now step) (all_ok cfg T)"
proof (rule from_here)
  fix e0 assume ok: "all_ok cfg T e0"
  let ?ps = "pending_reqs e0"
  let ?H = "both cfg T (mset (map fst ?ps)) (mset (ids (map snd ?ps))) (pending e0)"
  let ?clear = "update (\<lambda>e. e\<lparr>pending_prefill := False, pending_reqs := []\<rparr>)"
  have clear: "partly (both cfg T {#} {#} F) ?clear (all_ok cfg T)" for F
    by (rule sound_weaken [OF set_pending_both _ nothing_pending_both])
  have raised: "partly (both cfg T {#} {#} F) (andThen ?clear (\<lambda>_. if is_fatal err then raise err else ret ())) (all_ok cfg T)"
    for err F
    by (rule sound_andThen [OF clear]) (auto simp: sound_def)
  have failed: "partly ?H (andThen (release_prefix_dedup_keys cfg hash victim False (map snd ?ps)) (\<lambda>_.
        andThen (fail_slots bk (is_fatal err) err ?ps) (\<lambda>_.
        andThen ?clear (\<lambda>_. if is_fatal err then raise err else ret ())))) (all_ok cfg T)" for err
    by (rule sound_andThen [OF dedup_both sound_andThen [OF fail_slots_both raised]])
  have ready: "partly ?H (andThen (release_prefix_dedup_keys cfg hash victim True (map snd ?ps)) (\<lambda>_.
        andThen (for_each (\<lambda>(slot, req). activate_slot cfg bk now slot req (result slot)) ?ps) (\<lambda>_. ?clear)))
        (all_ok cfg T)" for result
    by (rule sound_andThen [OF dedup_both sound_andThen [OF activate_loop_both clear]])
  have here: "\<And>e. e = e0 \<Longrightarrow> ?H e" using ok by (simp add: all_ok_def)
  have unchanged: "partly (\<lambda>e. e = e0) (ret ()) (all_ok cfg T)" by (rule sound_ret) (simp add: ok)
  show "partly (\<lambda>e. e = e0) (advance_prefill cfg bk hash victim is_fatal now step) (all_ok cfg T)"
    unfolding advance_prefill_def Let_def
  proof (rule sound_reading_at, unfold prod.case, rule sound_if)
    show "partly (\<lambda>e. e = e0) (ret ()) (all_ok cfg T)" by (rule unchanged)
  next
    show "partly (\<lambda>e. e = e0) (case step of
        Inl err \<Rightarrow> andThen (release_prefix_dedup_keys cfg hash victim False (map snd ?ps)) (\<lambda>_.
          andThen (fail_slots bk (is_fatal err) err ?ps) (\<lambda>_.
          andThen ?clear (\<lambda>_. if is_fatal err then raise err else ret ())))
      | Inr None \<Rightarrow> ret ()
      | Inr (Some result) \<Rightarrow> andThen (release_prefix_dedup_keys cfg hash victim True (map snd ?ps)) (\<lambda>_.
          andThen (for_each (\<lambda>(slot, req). activate_slot cfg bk now slot req (result slot)) ?ps) (\<lambda>_. ?clear)))
      (all_ok cfg T)"
      using sound_weaken [OF failed here] sound_weaken [OF ready here] unchanged
      by (auto split: sum.split option.split)
  qed
qed

lemma select_loop_mset:
  "select_loop cfg hash published at_start limit reqs selected deferred keys = (sel, def, ks) \<Longrightarrow>
    mset sel + mset def = mset selected + mset deferred + mset reqs"
  by (induction cfg hash published at_start limit reqs selected deferred keys rule: select_loop.induct)
     (auto simp: Let_def split: if_splits)

lemma select_both:
  "sound (both cfg T R {#} F) (select_admission_requests cfg' hash n) (\<lambda>reqs. both cfg T R (mset (ids reqs)) F) (\<lambda>_. True)"
proof (rule sound_intro)
  fix e assume b: "both cfg T R {#} F e"
  have moved: "both cfg T R (mset (ids sel)) F (e\<lparr>waiting := rest, dedup_inflight := d\<rparr>)"
    if "mset sel + mset rest = mset (waiting e)" for sel rest d
  proof -
    have "mset (ids sel) + mset (ids rest) = mset (ids (waiting e))"
      using arg_cong [OF that, of "image_mset request_id"] by simp
    then show ?thesis using b by (auto simp: both_def held_def core_slots_def warm_ids_def core_reqs_def ac_simps)
  qed
  have take: "mset (take (nat n) (waiting e)) + mset (drop (nat n) (waiting e)) = mset (waiting e)"
    by (metis append_take_drop_id mset_append)
  have chosen: "mset sel + mset def = mset (waiting e)"
    if "select_loop cfg' hash (dedup_published e) (dedup_inflight e) (nat n) (waiting e) [] [] {} = (sel, def, ks)" for sel def ks
    using select_loop_mset [OF that] by simp
  show "case select_admission_requests cfg' hash n e of
      (Inl err, e') \<Rightarrow> True | (Inr reqs, e') \<Rightarrow> both cfg T R (mset (ids reqs)) F e'"
    using b moved [OF take, of "dedup_inflight e"] moved [OF chosen]
    by (auto simp: select_admission_requests_def split: prod.split)
qed

lemma assign_slots_reqs: "assign_slots cfg bk reqs slots = (admitted, rest) \<Longrightarrow> map snd admitted = reqs"
  by (induction cfg bk reqs slots arbitrary: admitted rest rule: assign_slots.induct)
     (auto simp: Let_def split: prod.splits)

lemma admission_failed_both:
  "partly (both cfg T (mset (map fst admit)) (mset (ids (map snd admit))) (b, []))
     (fail_admission cfg bk hash victim is_fatal admit err) (all_ok cfg T)"
proof -
  have last: "partly (both cfg T {#} {#} (b, [])) (if is_fatal err then raise err else ret ()) (all_ok cfg T)"
    by (auto simp: sound_def nothing_pending_both)
  show ?thesis unfolding fail_admission_def
    by (rule sound_andThen [OF dedup_both sound_andThen [OF fail_slots_both last]])
qed

lemma defer_both:
  "partly (both cfg T (R + mset (map fst deferred)) (Q + mset (ids (map snd deferred))) F)
     (defer_requests cfg hash victim deferred) (both cfg T R Q F)"
proof -
  have queue: "partly (both cfg T (R + mset (map fst deferred)) (Q + mset (ids (map snd deferred))) F)
      (update (\<lambda>e. e\<lparr>waiting := map snd deferred @ waiting e\<rparr>)) (both cfg T (R + mset (map fst deferred)) Q F)"
    by (rule sound_update) (simp add: both_def held_def core_slots_def warm_ids_def core_reqs_def ac_simps)
  have put: "partly (both cfg T (R + mset (map fst deferred)) Q F)
      (update (\<lambda>e. e\<lparr>free_slots := free_slots e @ map fst deferred, retry_round := round_no e + 16\<rparr>)) (both cfg T R Q F)"
    by (rule sound_update) (simp add: both_def held_def core_slots_def warm_ids_def core_reqs_def ac_simps)
  show ?thesis unfolding defer_requests_def
    by (rule sound_if, rule sound_ret, simp, rule sound_andThen [OF queue sound_andThen [OF dedup_both put]])
qed

lemma start_both:
  "partly (both cfg T (mset (map fst admit)) (mset (ids (map snd admit))) (False, []))
     (start_prefill cfg bk hash victim is_fatal now prefill admit) (all_ok cfg T)"
    (is "partly ?H _ _")
proof -
  have none: "partly (both cfg T (mset (map fst [])) (mset (ids (map snd []))) (False, [])) (ret ()) (all_ok cfg T)"
    by (rule sound_ret) (simp add: nothing_pending_both)
  have continued: "partly ?H (update (\<lambda>e. e\<lparr>pending_prefill := True, pending_reqs := admit\<rparr>)) (all_ok cfg T)"
    by (rule sound_update) (simp add: all_ok_def both_def held_def core_slots_def warm_ids_def core_reqs_def)
  have activated: "partly ?H (andThen (release_prefix_dedup_keys cfg hash victim True (map snd admit)) (\<lambda>_.
       for_each (\<lambda>(slot, req). activate_slot cfg bk now slot req (result slot)) admit)) (all_ok cfg T)" for result
    by (rule sound_weaken [OF sound_andThen [OF dedup_both activate_loop_both]]) (auto intro: nothing_pending_both)
  show ?thesis
  proof (cases "admit = []")
    case True
    then show ?thesis using none by (simp add: start_prefill_def)
  next
    case False
    show ?thesis unfolding start_prefill_def if_not_P [OF False]
      by (cases "prefill admit"; cases "projr (prefill admit)")
         (simp_all only: sum.case option.case sum.sel continued activated admission_failed_both)
  qed
qed

lemma fitting_split_reqs:
  "mset (ids (map snd admitted)) = mset (ids (map snd (fitting cfg bk admitted))) +
     mset (ids (map snd (drop (length (fitting cfg bk admitted)) admitted)))"
  by (subst (1) fitting_prefix [of admitted cfg bk]) (simp only: map_append mset_append)

lemma admit_selected_both:
  assumes "picks_offered bk" and "length reqs \<le> length free"
  shows "partly (\<lambda>e. both cfg T {#} (mset (ids reqs)) (False, []) e \<and> free_slots e = free)
    (admit_selected cfg bk hash victim is_fatal now prefill free reqs) (all_ok cfg T)"
proof -
  obtain admitted rest where assigned: "assign_slots cfg bk reqs free = (admitted, rest)" by fastforce
  note taken = assign_slots_mset [OF assms assigned] and reqs = assign_slots_reqs [OF assigned]
  have take: "partly (\<lambda>e. both cfg T {#} (mset (ids reqs)) (False, []) e \<and> free_slots e = free)
      (update (\<lambda>e. e\<lparr>free_slots := rest\<rparr>))
      (both cfg T (mset (map fst admitted)) (mset (ids (map snd admitted))) (False, []))"
  proof (rule sound_update)
    fix e assume b: "both cfg T {#} (mset (ids reqs)) (False, []) e \<and> free_slots e = free"
    then have "mset (free_slots e) = mset (map fst admitted) + mset rest" using taken by simp
    with b show "both cfg T (mset (map fst admitted)) (mset (ids (map snd admitted))) (False, []) (e\<lparr>free_slots := rest\<rparr>)"
      by (simp add: both_def held_def core_slots_def warm_ids_def core_reqs_def reqs ac_simps)
  qed
  have go_on: "partly (both cfg T (mset (map fst admitted)) (mset (ids (map snd admitted))) (False, []))
      (andThen (defer_requests cfg hash victim (drop (length (fitting cfg bk admitted)) admitted)) (\<lambda>_.
       start_prefill cfg bk hash victim is_fatal now prefill (fitting cfg bk admitted))) (all_ok cfg T)"
    by (subst fitting_split [of admitted cfg bk], subst fitting_split_reqs [of admitted cfg bk],
        rule sound_andThen [OF defer_both start_both])
  show ?thesis
    unfolding admit_selected_def assigned prod.case
    by (rule sound_andThen [OF take])
       (auto intro!: go_on admission_failed_both simp del: mset_map map_map split: option.split)
qed

lemma admit_requests_both:
  assumes "picks_offered bk"
  shows "partly (all_ok cfg T) (admit_requests cfg bk hash victim is_fatal now prefill) (all_ok cfg T)"
proof (rule from_here)
  fix e0 assume ok: "all_ok cfg T e0"
  let ?n = "int (min (length (free_slots e0)) (length (waiting e0)))"
  show "partly (\<lambda>e. e = e0) (admit_requests cfg bk hash victim is_fatal now prefill) (all_ok cfg T)"
    unfolding admit_requests_def
  proof (rule sound_reading_at, unfold prod.case, rule sound_if)
    show "partly (\<lambda>e. e = e0) (ret ()) (all_ok cfg T)" by (rule sound_ret) (simp add: ok)
  next
    assume "\<not> (pending_prefill e0 \<or> free_slots e0 = [] \<or> waiting e0 = [] \<or> \<not> retry_round e0 \<le> round_no e0)"
    then have idle: "both cfg T {#} {#} (False, []) e0" using ok by (auto simp: all_ok_def)
    have both: "sound (\<lambda>e. e = e0) (select_admission_requests cfg hash ?n)
        (\<lambda>reqs. both cfg T {#} (mset (ids reqs)) (False, [])) (\<lambda>_. True)"
      by (rule sound_weaken [OF select_both]) (use idle in auto)
    have sel: "sound (\<lambda>e. e = e0) (select_admission_requests cfg hash ?n)
        (\<lambda>reqs e. (both cfg T {#} (mset (ids reqs)) (False, []) e \<and> free_slots e = free_slots e0) \<and>
          length reqs \<le> length (free_slots e0)) (\<lambda>_. True)"
      using both select_admission_places [of "places e0" cfg hash ?n]
      by (auto simp: sound_def places_def split: prod.splits sum.splits)
    show "partly (\<lambda>e. e = e0) (andThen (select_admission_requests cfg hash ?n)
        (admit_selected cfg bk hash victim is_fatal now prefill (free_slots e0))) (all_ok cfg T)"
      by (rule sound_andThen [OF sel], rule sound_fact, rule admit_selected_both [OF assms])
  qed
qed

section \<open>A decode round\<close>

text \<open>Which request sits on which slot; committing tokens does not change it.\<close>

definition seats :: "(int \<times> slot_entry) list \<Rightarrow> (int \<times> request) list" where
  "seats act = map (\<lambda>r. (fst r, entry_req (snd r))) act"

definition seat_id :: "(int \<times> slot_entry) list \<Rightarrow> int \<Rightarrow> nat" where
  "seat_id act s = request_id (the (map_of (seats act) s))"

lemma seats_dict_set: "map_of d s = Some st \<Longrightarrow> entry_req st' = entry_req st \<Longrightarrow> seats (dict_set d s st') = seats d"
  by (induction d s st' rule: dict_set.induct) (auto simp: seats_def)

lemma map_of_seats: "map_of (seats d) s = map_option entry_req (map_of d s)"
  by (induction d) (auto simp: seats_def)

lemma seats_keys: "map fst (seats d) = map fst d"
  by (simp add: seats_def)

lemma entry_ids_seats: "entry_ids d = mset (map (\<lambda>r. request_id (snd r)) (seats d))"
  by (simp add: entry_ids_def seats_def multiset.map_comp comp_def)

lemma seats_del: "seats (dict_del d s) = filter (\<lambda>r. fst r \<noteq> s) (seats d)"
  by (induction d) (auto simp: seats_def dict_del_def)

lemma entry_ids_order:
  assumes "distinct (map fst act)" and "distinct order" and "set order = fst ` set act"
  shows "mset (map (seat_id act) order) = entry_ids act"
proof -
  have "mset order = mset (map fst act)"
    using assms by (intro set_eq_iff_mset_eq_distinct [THEN iffD1]) auto
  from arg_cong [OF this, of "image_mset (seat_id act)"]
  have "mset (map (seat_id act) order) = mset (map (seat_id act) (map fst (seats act)))"
    by (simp add: seats_keys [symmetric] del: map_map)
  also have "map (seat_id act) (map fst (seats act)) = map (\<lambda>r. request_id (snd r)) (seats act)"
    using assms(1) by (auto simp: seat_id_def seats_keys [symmetric])
  finally show ?thesis by (simp add: entry_ids_seats)
qed

lemma uniq_mset: "distinct xs \<Longrightarrow> uniq (mset xs)"
  by (simp add: uniq_def distinct_count_atmost_1)

text \<open>Between two slots of the decode loop: the finished ones are answered but still seated.\<close>

definition answering :: "round_input \<Rightarrow> (int \<times> slot_entry) list \<Rightarrow> int list \<Rightarrow> engine \<Rightarrow> int list \<Rightarrow> engine \<Rightarrow> bool" where
  "answering inp act order e0 xs e \<longleftrightarrow> incoming e = incoming e0 \<and> waiting e = waiting e0 \<and> seats (active e) = seats act \<and>
     (\<exists>outs. outcomes e = outcomes e0 @ outs \<and>
       mset (map fst outs) + mset (map (seat_id act) (newly_finished inp act xs)) =
         mset (map (seat_id act) (newly_finished inp act order)))"

lemma decode_slot_answering:
  assumes new: "distinct (map (seat_id act) order)" "set (map (seat_id act) order) \<inter> fst ` set (outcomes e0) = {}"
    and suffix: "\<exists>pre. order = pre @ s # xs"
  shows "partly (\<lambda>e. closing cfg R F inp act order (s # xs) e \<and> answering inp act order e0 (s # xs) e)
    (decode_slot env inp s) (answering inp act order e0 xs)"
proof (rule from_here)
  fix e1 assume pre: "closing cfg R F inp act order (s # xs) e1 \<and> answering inp act order e0 (s # xs) e1"
  note c = closingD [OF conjunct1 [OF pre]]
  have "s \<in> fst ` set act" using c(6) by simp
  then obtain st where st: "map_of act s = Some st" using key_value by metis
  obtain n reason where dec: "decoded inp s st = (n, reason)" by fastforce
  have entry: "map_of (active e1) s = Some st" using c(8) [of s] st by simp
  have id: "seat_id act s = request_id (entry_req st)" by (simp add: seat_id_def map_of_seats st)
  let ?e = "if n = 0 then e1 else e1\<lparr>active := dict_set (active e1) s
    (st\<lparr>committed_len := committed_len st + int n, last_progress_round := Some (round_no e1)\<rparr>)\<rparr>"
  let ?all = "mset (map (seat_id act) (newly_finished inp act order))"
  have "seats (dict_set (active e1) s
      (st\<lparr>committed_len := committed_len st + int n, last_progress_round := Some (round_no e1)\<rparr>)) = seats (active e1)"
    by (rule seats_dict_set [OF entry]) simp
  then have mid: "incoming ?e = incoming e0" "waiting ?e = waiting e0" "seats (active ?e) = seats act"
    using pre unfolding answering_def by simp_all
  obtain outs where o1: "outcomes e1 = outcomes e0 @ outs" and
      o2: "mset (map fst outs) + mset (map (seat_id act) (newly_finished inp act (s # xs))) = ?all"
    using pre unfolding answering_def by blast
  have outs: "outcomes ?e = outcomes e0 @ outs"
      "mset (map fst outs) + mset (map (seat_id act) (newly_finished inp act (s # xs))) = ?all"
    using o1 by simp (rule o2)
  have fin: "newly_finished inp act (s # xs) =
      (if reason = None then newly_finished inp act xs else s # newly_finished inp act xs)"
    by (simp add: newly_finished_def st dec)
  let ?finish = "\<lambda>why. finish_request (env_cfg env) (env_backend env) (clock inp) s (entry_req st) why"
  have "partly (\<lambda>e. e = ?e) (case reason of None \<Rightarrow> ret () | Some why \<Rightarrow> ?finish why) (answering inp act order e0 xs)"
  proof (cases reason)
    case None
    have "answering inp act order e0 xs ?e"
      unfolding answering_def mid using outs by (auto simp: fin None)
    then show ?thesis by (auto simp: None intro!: sound_ret)
  next
    case (Some why)
    have "uniq ?all"
      unfolding newly_finished_def by (rule uniq_mset, rule distinct_map_filter [OF new(1)])
    then have "request_id (entry_req st) \<notin># mset (map fst outs)"
      using once_only [of ?all "mset (map fst outs)" "seat_id act s"] outs(2) by (simp add: fin Some id)
    moreover have "request_id (entry_req st) \<notin> fst ` set (outcomes e0)" using new(2) suffix id by auto
    ultimately have "request_id (entry_req st) \<notin> fst ` set (outcomes ?e)" by (auto simp: outs(1))
    then have "partly (\<lambda>e. e = ?e) (?finish why)
        (\<lambda>e. \<exists>out. rview e = (incoming ?e, waiting ?e, active ?e, outcomes ?e @ [(request_id (entry_req st), out)]))"
      using finish_answers unfolding answers_def by blast
    then have "partly (\<lambda>e. e = ?e) (?finish why) (answering inp act order e0 xs)"
    proof (rule sound_weaken)
      fix e assume "\<exists>out. rview e = (incoming ?e, waiting ?e, active ?e, outcomes ?e @ [(request_id (entry_req st), out)])"
      then obtain out where e: "incoming e = incoming ?e" "waiting e = waiting ?e" "active e = active ?e"
          "outcomes e = outcomes ?e @ [(request_id (entry_req st), out)]" unfolding rview_def by blast
      have tally: "mset (map fst (outs @ [(request_id (entry_req st), out)])) +
          mset (map (seat_id act) (newly_finished inp act xs)) = ?all"
        using outs(2) by (simp add: fin Some id)
      show "answering inp act order e0 xs e"
        unfolding answering_def e(1,2,3) mid
        by (intro conjI refl exI [of _ "outs @ [(request_id (entry_req st), out)]"])
           (simp add: e(4) outs(1), rule tally)
    qed simp_all
    then show ?thesis by (simp add: Some)
  qed
  note after = this [unfolded sound_at]
  show "partly (\<lambda>e. e = e1) (decode_slot env inp s) (answering inp act order e0 xs)"
  proof (cases "n = 0")
    case True
    then show ?thesis using after by (simp add: sound_at decode_slot_def entry dec)
  next
    case False
    then show ?thesis using after by (simp add: sound_at decode_slot_def entry dec)
  qed
qed

definition dropping :: "nat multiset \<Rightarrow> nat multiset \<Rightarrow> (int \<times> slot_entry) list \<Rightarrow> int list \<Rightarrow> engine \<Rightarrow> bool" where
  "dropping T Q act xs e \<longleftrightarrow> core_reqs e + Q = T + mset (map (seat_id act) xs) \<and>
     (\<forall>s \<in> set xs. map_of (seats (active e)) s = map_of (seats act) s)"

lemma drop_dropping:
  "partly (\<lambda>e. opened cfg R F (s # xs) e \<and> dropping T Q act (s # xs) e) (drop_entry s) (dropping T Q act xs)"
  unfolding drop_entry_def
proof (rule sound_update)
  fix e assume pre: "opened cfg R F (s # xs) e \<and> dropping T Q act (s # xs) e"
  let ?e = "e\<lparr>active := dict_del (active e) s\<rparr>"
  have d: "distinct (map fst (active e))" "s \<in> fst ` set (active e)" "s \<notin> set xs"
    using pre by (simp_all add: opened_def)
  obtain st where st: "map_of (active e) s = Some st" using key_value [OF d(2)] by blast
  have seat: "map_of (seats act) s = map_of (seats (active e)) s" using pre by (simp add: dropping_def)
  have id: "seat_id act s = request_id (entry_req st)" unfolding seat_id_def seat by (simp add: map_of_seats st)
  have "core_reqs e + Q = T + mset (map (seat_id act) (s # xs))" using pre by (simp add: dropping_def)
  then have "core_reqs ?e + Q = T + mset (map (seat_id act) xs)"
    by (simp add: core_reqs_def entry_ids_del [OF d(1) st] id)
  moreover have "map_of (seats (active ?e)) t = map_of (seats act) t" if "t \<in> set xs" for t
  proof -
    have "map_of (seats (active e)) t = map_of (seats act) t" using pre that by (simp add: dropping_def)
    moreover have "t \<noteq> s" using that d(3) by blast
    ultimately show ?thesis by (simp add: map_of_seats)
  qed
  ultimately show "dropping T Q act xs ?e" by (simp add: dropping_def)
qed

lemma decode_round_core:
  assumes "uniq T"
  shows "partly (\<lambda>e. held cfg R F e \<and> core_reqs e + Q = T) (decode_round env inp) (\<lambda>e. core_reqs e + Q = T)"
proof (rule from_here)
  fix e0 assume pre: "held cfg R F e0 \<and> core_reqs e0 + Q = T"
  note h = conjunct1 [OF pre] and t = conjunct2 [OF pre]
  let ?act = "active e0" let ?order = "decode_order env inp ?act" let ?fin = "newly_finished inp ?act ?order"
  note once = active_once [OF h] and order = decode_order_set [OF active_once(1) [OF h], of env inp]
  have ids: "mset (map (seat_id ?act) ?order) = entry_ids ?act"
    by (rule entry_ids_order) (use once(1) order in auto)
  have parts: "mset (map (seat_id ?act) ?order) +
      (mset (ids (incoming e0)) + mset (ids (waiting e0)) + mset (map fst (outcomes e0)) + Q) = T"
    unfolding ids using t by (simp add: core_reqs_def ac_simps)
  have new: "distinct (map (seat_id ?act) ?order)" "set (map (seat_id ?act) ?order) \<inter> fst ` set (outcomes e0) = {}"
    using uniq_list(1,2) [OF assms parts] by auto
  let ?P = "\<lambda>xs e. closing cfg R F inp ?act ?order xs e \<and> answering inp ?act ?order e0 xs e \<and> (\<exists>pre. ?order = pre @ xs)"
  have step1: "partly (?P (s # xs)) (decode_slot env inp s) (?P xs)" for s xs
  proof -
    have "partly (\<lambda>e. (closing cfg R F inp ?act ?order (s # xs) e \<and>
        (closing cfg R F inp ?act ?order (s # xs) e \<and> answering inp ?act ?order e0 (s # xs) e)) \<and> (\<exists>pre. ?order = pre @ s # xs))
      (decode_slot env inp s) (?P xs)"
    proof (rule sound_fact)
      assume suffix: "\<exists>pre. ?order = pre @ s # xs"
      then have rest: "\<exists>pre. ?order = pre @ xs" by (metis append_Cons append_Nil append_assoc)
      show "partly (\<lambda>e. closing cfg R F inp ?act ?order (s # xs) e \<and>
          closing cfg R F inp ?act ?order (s # xs) e \<and> answering inp ?act ?order e0 (s # xs) e) (decode_slot env inp s) (?P xs)"
        by (rule sound_weaken [OF sound_conj [OF decode_slot_closing decode_slot_answering [OF new suffix, where cfg = cfg and R = R and F = F]]]) (use rest in simp_all)
    qed
    then show ?thesis by (rule sound_weaken) auto
  qed
  have l1: "partly (?P ?order) (for_each (decode_slot env inp) ?order) (?P [])"
    by (rule sound_for_each [where P = ?P], rule step1)
  let ?D = "\<lambda>xs e. opened cfg R F xs e \<and> dropping T Q ?act xs e"
  have step2: "partly (?D (s # xs)) (drop_entry s) (?D xs)" for s xs
    by (rule sound_weaken [OF sound_conj [OF drop_opened drop_dropping]]) auto
  have l2: "partly (?D ?fin) (for_each drop_entry ?fin) (?D [])"
    by (rule sound_for_each [where P = ?D], rule step2)
  have between: "?D ?fin e" if p: "?P [] e" for e
  proof -
    note c = closingD [OF conjunct1 [OF p]]
    have "set ?fin \<subseteq> fst ` set (active e)"
      using order arg_cong [OF c(4), of set] by (auto simp: newly_finished_def)
    moreover have "distinct ?fin" using order by (simp add: newly_finished_def)
    moreover have "core_slots e + R = all_slots cfg + mset ?fin" using c(1) by (simp add: newly_finished_def)
    ultimately have o: "opened cfg R F ?fin e" using c(2,3,4) once(1) by (simp add: opened_def)
    obtain outs where outs: "outcomes e = outcomes e0 @ outs" "mset (map fst outs) = mset (map (seat_id ?act) ?fin)"
        and same: "incoming e = incoming e0" "waiting e = waiting e0" "seats (active e) = seats ?act"
      using p by (auto simp: answering_def newly_finished_def [of inp ?act "[]"])
    have "core_reqs e = core_reqs e0 + mset (map (seat_id ?act) ?fin)"
      unfolding outs(2) [symmetric] by (simp add: core_reqs_def entry_ids_seats same outs(1))
    then have "dropping T Q ?act ?fin e" using t same(3) by (simp add: dropping_def ac_simps)
    with o show ?thesis by simp
  qed
  have start: "?P ?order (e0\<lparr>round_no := round_no e0 + 1\<rparr>)"
  proof -
    have "set ?order \<inter> set (warm_ids e0) = {}" using order once(2) by auto
    then show ?thesis
      using h order by (simp add: closing_def answering_def held_def core_slots_def warm_ids_def)
  qed
  have loops: "partly (?P ?order) (andThen (for_each (decode_slot env inp) ?order) (\<lambda>_. for_each drop_entry ?fin)) (?D [])"
    by (rule sound_andThen [OF sound_weaken [OF l1 _ between] l2]) simp_all
  show "partly (\<lambda>e. e = e0) (decode_round env inp) (\<lambda>e. core_reqs e + Q = T)"
    unfolding decode_round_def
  proof (rule sound_reading_at, rule sound_andThen [OF sound_update])
    show "\<And>e. e = e0 \<Longrightarrow> ?P ?order (e\<lparr>round_no := round_no e + 1\<rparr>)" using start by simp
    show "partly (?P ?order) (andThen (for_each (decode_slot env inp) ?order) (\<lambda>_. for_each drop_entry ?fin))
        (\<lambda>e. core_reqs e + Q = T)"
      by (rule sound_weaken [OF loops]) (simp_all add: dropping_def)
  qed
qed

lemma decode_round_both: "partly (both cfg T R Q F) (decode_round env inp) (both cfg T R Q F)"
proof (cases "uniq T")
  case True
  from sound_conj [OF decode_round_held decode_round_core [OF True]] show ?thesis
    by (rule sound_weaken) (use True in \<open>auto simp: both_def\<close>)
qed (simp add: both_def sound_def)

section \<open>Rounds and reachable states\<close>

lemmas round_both = ok_from_both [OF drain_both] process_cancellations_both advance_prefill_both admit_requests_both
  ok_from_both [OF rquiet_both [OF expire_rquiet expire_held]] ok_from_both [OF warm_both]
  ok_from_both [OF decode_round_both] ok_from_both [OF reclaims_both(1)] ok_from_both [OF reclaims_both(2)]

lemma engine_round_both:
  assumes "picks_offered (env_backend env)"
  shows "partly (all_ok (env_cfg env) T) (engine_round env inp) (all_ok (env_cfg env) T)"
proof -
  let ?I = "all_ok (env_cfg env) T"
  let ?tail = "\<lambda>(idle, empty). if idle \<and> empty then drain_requests
    else if idle then update (\<lambda>e. e\<lparr>retry_round := 0\<rparr>)
    else andThen (decode_round env inp) (\<lambda>_.
      andThen (reclaim_timed_out (env_cfg env) (env_backend env) (clock inp)) (\<lambda>_.
      reclaim_stale (env_cfg env) (env_backend env)))"
  have retry: "partly ?I (update (\<lambda>e. e\<lparr>retry_round := 0\<rparr>)) ?I"
    by (rule ok_from_both, rule all_quiet_both) (rule unmoved_update, simp add: rview_def places_def)+
  have branch: "partly ?I (?tail p) ?I" for p
    by (cases p) (simp only: prod.case, intro sound_if round_both retry keeps_all)
  have tail: "partly ?I (reading f ?tail) ?I" for f
    by (rule sound_reading, rule sound_weaken [OF branch]) auto
  show ?thesis unfolding engine_round_def Let_def
    by (intro keeps_all round_both assms tail)
qed

text \<open>The reachable states with the ids of the requests accepted so far; an id is used once.\<close>

inductive engine_serves :: "engine_env \<Rightarrow> nat list \<Rightarrow> engine \<Rightarrow> bool" for env where
  start: "engine_serves env [] (engine_init (env_cfg env))"
| accept: "engine_serves env accepted e \<Longrightarrow> enqueue_request (env_cfg env) req e = (Inr (), e') \<Longrightarrow>
    request_id req \<notin> set accepted \<Longrightarrow> engine_serves env (accepted @ [request_id req]) e'"
| reject: "engine_serves env accepted e \<Longrightarrow> enqueue_request (env_cfg env) req e = (Inl err, e') \<Longrightarrow>
    engine_serves env accepted e'"
| turn: "engine_serves env accepted e \<Longrightarrow> engine_round env inp e = (Inr (), e') \<Longrightarrow> engine_serves env accepted e'"

lemma enqueue_cases:
  "enqueue_request cfg req e = (r, e') \<Longrightarrow> (if r = Inr ()
     then e' = e\<lparr>request_count := request_count e + 1, incoming := incoming e @ [req]\<rparr> else e' = e)"
  by (auto simp: enqueue_request_def split: if_splits)

lemma engine_serves_ok:
  "engine_serves env accepted e \<Longrightarrow> picks_offered (env_backend env) \<Longrightarrow>
    distinct accepted \<and> all_ok (env_cfg env) (mset accepted) e"
proof (induction rule: engine_serves.induct)
  case start
  show ?case
    by (simp add: all_ok_def both_def held_def core_slots_def warm_ids_def engine_init_def all_slots_def core_reqs_def
        entry_ids_def uniq_def)
next
  case (accept accepted e req e')
  have e': "e' = e\<lparr>request_count := request_count e + 1, incoming := incoming e @ [req]\<rparr>"
    using enqueue_cases [OF accept.hyps(2)] by simp
  have "distinct (accepted @ [request_id req])" using accept by simp
  from uniq_mset [OF this] accept.IH [OF accept.prems] show ?case
    unfolding e' using accept.hyps(3)
    by (simp add: all_ok_def both_def held_def core_slots_def warm_ids_def core_reqs_def)
next
  case (reject accepted e req err e')
  then show ?case using enqueue_cases [OF reject.hyps(2)] by simp
next
  case (turn accepted e inp e')
  note ih = turn.IH [OF turn.prems]
  show ?case
    using sound_Inr [OF engine_round_both [OF turn.prems] conjunct2 [OF ih] turn.hyps(2)] conjunct1 [OF ih] by blast
qed

text \<open>
  C32: As long as no round raises, every accepted request is in exactly one place: queued, in the pending
  prefill, active on a slot, or answered.  None is lost and none is answered twice.
\<close>

theorem engine_requests_conserved:
  assumes "engine_serves env accepted e" and "picks_offered (env_backend env)"
  shows "distinct accepted \<and> mset (map request_id (incoming e @ waiting e)) +
      mset (map (\<lambda>r. request_id (snd r)) (pending_reqs e)) +
      mset (map (\<lambda>r. request_id (entry_req (snd r))) (active e)) + mset (map fst (outcomes e)) = mset accepted"
  using engine_serves_ok [OF assms] by (auto simp: all_ok_def both_def core_reqs_def entry_ids_def comp_def ac_simps)

theorem engine_requests_conserved_witness:
  "map (\<lambda>r. request_id (entry_req (snd r))) (active demo_end) = [2] \<and> map fst (outcomes demo_end) = [1] \<and>
   distinct [1::nat, 2] \<and> mset (map request_id (incoming demo_end @ waiting demo_end)) +
      mset (map (\<lambda>r. request_id (snd r)) (pending_reqs demo_end)) +
      mset (map (\<lambda>r. request_id (entry_req (snd r))) (active demo_end)) + mset (map fst (outcomes demo_end)) = mset [1, 2]"
proof -
  let ?env = "demo_env (\<lambda>_. None)"
  let ?e1 = "snd (enqueue_request demo_cfg (demo_request 1 ''a'') (engine_init demo_cfg))"
  have cfg: "env_cfg ?env = demo_cfg" by (simp add: demo_env_def)
  have a1: "engine_serves ?env ([] @ [request_id (demo_request 1 ''a'')]) ?e1"
    by (rule engine_serves.accept [OF engine_serves.start]) (simp_all add: cfg prod_eq_iff, code_simp)
  have a2: "engine_serves ?env (([] @ [request_id (demo_request 1 ''a'')]) @ [request_id (demo_request 2 [])]) demo_queued"
    by (rule engine_serves.accept [OF a1]) (simp_all add: cfg prod_eq_iff demo_queued_def, code_simp, code_simp)
  have t: "engine_serves ?env (([] @ [request_id (demo_request 1 ''a'')]) @ [request_id (demo_request 2 [])]) demo_end"
    by (rule engine_serves.turn [OF a2, of "demo_input (\<lambda>_. None) (\<lambda>s _. (1, if s = 0 then Some ''stop'' else None))"])
       (simp add: prod_eq_iff demo_end_def, code_simp)
  have picks: "picks_offered (env_backend ?env)" by (simp add: picks_offered_def demo_defs)
  have "map (\<lambda>r. request_id (entry_req (snd r))) (active demo_end) = [2] \<and> map fst (outcomes demo_end) = [1]"
    by code_simp
  with engine_requests_conserved [OF t picks] show ?thesis by (simp add: demo_request_def)
qed

end
