(* ===== verification/Gguf_Header.thy ===== *)
theory Gguf_Header
  imports Byte_Strings Py_Text "HOL-Library.AList"
begin

text \<open>
  \<^verbatim>\<open>loader/gguf_header.py\<close>: the reader of the metadata and the tensor index of a GGUF checkpoint.  An
  open file is its bytes and a position; \<^verbatim>\<open>read\<close> moves the position by what it delivers.  A metadata
  value is a \<open>gvalue\<close>; a float is represented by its bytes.  The file system is the argument: the
  bytes of the file.
\<close>

section \<open>Types\<close>

datatype gvalue =
    GInt int
  | GBool bool
  | GFloat "nat list"
  | GStr str
  | GList "gvalue list"

record gguf_source =
  src_bytes :: "nat list"
  src_pos :: nat

record tensor_info =
  ti_name :: str
  ti_dims :: "int list"
  ti_type_id :: int
  ti_offset :: int

record gguf_header =
  gh_version :: int
  gh_kv :: "(str \<times> gvalue) list"
  gh_tensors :: "tensor_info list"
  gh_header_end :: int
  gh_data_start :: int

definition GGUF_MAGIC :: "nat list" where
  "GGUF_MAGIC = [71, 71, 85, 70]"

definition MAX_KV_COUNT :: int where "MAX_KV_COUNT = 4096"
definition MAX_TENSOR_COUNT :: int where "MAX_TENSOR_COUNT = 1000000"
definition MAX_NAME_LENGTH :: int where "MAX_NAME_LENGTH = 4096"
definition MAX_STRING_VALUE_LENGTH :: int where "MAX_STRING_VALUE_LENGTH = 1000000"
definition MAX_ARRAY_LENGTH :: int where "MAX_ARRAY_LENGTH = 4000000"

lemmas gguf_limits =
  MAX_KV_COUNT_def MAX_TENSOR_COUNT_def MAX_NAME_LENGTH_def MAX_STRING_VALUE_LENGTH_def
  MAX_ARRAY_LENGTH_def

text \<open>The table of ggml types: name, elements per block, bytes per block.\<close>

definition GGML_TYPES :: "(int \<times> string \<times> int \<times> int) list" where
  "GGML_TYPES =
    [(0, ''F32'', 1, 4),
     (1, ''F16'', 1, 2),
     (2, ''Q4_0'', 32, 18),
     (3, ''Q4_1'', 32, 20),
     (6, ''Q5_0'', 32, 22),
     (7, ''Q5_1'', 32, 24),
     (8, ''Q8_0'', 32, 34),
     (9, ''Q8_1'', 32, 36),
     (10, ''Q2_K'', 256, 84),
     (11, ''Q3_K'', 256, 110),
     (12, ''Q4_K'', 256, 144),
     (13, ''Q5_K'', 256, 176),
     (14, ''Q6_K'', 256, 210),
     (15, ''Q8_K'', 256, 292),
     (16, ''IQ2_XXS'', 256, 66),
     (17, ''IQ2_XS'', 256, 74),
     (18, ''IQ3_XXS'', 256, 98),
     (19, ''IQ1_S'', 256, 50),
     (20, ''IQ4_NL'', 32, 18),
     (21, ''IQ3_S'', 256, 110),
     (22, ''IQ2_S'', 256, 82),
     (23, ''IQ4_XS'', 256, 136),
     (24, ''I8'', 1, 1),
     (25, ''I16'', 1, 2),
     (26, ''I32'', 1, 4),
     (27, ''I64'', 1, 8),
     (28, ''F64'', 1, 8),
     (29, ''IQ1_M'', 256, 56),
     (30, ''BF16'', 1, 2)]"

text \<open>The \<^verbatim>\<open>struct\<close> formats of the scalar value types.\<close>

datatype fmt = FmtB | Fmtb | FmtH | Fmth | FmtI | Fmti | Fmtf | FmtBool | FmtQ | Fmtq | Fmtd

definition KV_STRING :: int where "KV_STRING = 8"
definition KV_ARRAY :: int where "KV_ARRAY = 9"

definition SCALAR_FORMATS :: "(int \<times> fmt) list" where
  "SCALAR_FORMATS =
    [(0, FmtB), (1, Fmtb), (2, FmtH), (3, Fmth), (4, FmtI), (5, Fmti), (6, Fmtf), (7, FmtBool),
     (10, FmtQ), (11, Fmtq), (12, Fmtd)]"

definition ARRAY_ELEMENT_FORMATS :: "(int \<times> fmt) list" where
  "ARRAY_ELEMENT_FORMATS =
    [(0, FmtB), (1, Fmtb), (2, FmtH), (3, Fmth), (4, FmtI), (5, Fmti), (6, Fmtf), (7, FmtBool),
     (10, FmtQ), (11, Fmtq), (12, Fmtd)]"

fun calcsize :: "fmt \<Rightarrow> nat" where
  "calcsize FmtB = 1" | "calcsize Fmtb = 1" | "calcsize FmtBool = 1"
| "calcsize FmtH = 2" | "calcsize Fmth = 2"
| "calcsize FmtI = 4" | "calcsize Fmti = 4" | "calcsize Fmtf = 4"
| "calcsize FmtQ = 8" | "calcsize Fmtq = 8" | "calcsize Fmtd = 8"

fun unpack :: "fmt \<Rightarrow> nat list \<Rightarrow> gvalue" where
  "unpack FmtB bs = GInt (le_value bs)"
| "unpack FmtH bs = GInt (le_value bs)"
| "unpack FmtI bs = GInt (le_value bs)"
| "unpack FmtQ bs = GInt (le_value bs)"
| "unpack Fmtb bs = GInt (signed_value bs)"
| "unpack Fmth bs = GInt (signed_value bs)"
| "unpack Fmti bs = GInt (signed_value bs)"
| "unpack Fmtq bs = GInt (signed_value bs)"
| "unpack FmtBool bs = GBool (le_value bs \<noteq> 0)"
| "unpack Fmtf bs = GFloat bs"
| "unpack Fmtd bs = GFloat bs"

text \<open>\<^verbatim>\<open>struct.unpack(f"<{count}{c}", data)\<close>: consecutive items of the width of \<open>c\<close>.\<close>

primrec unpack_many :: "fmt \<Rightarrow> nat \<Rightarrow> nat list \<Rightarrow> gvalue list" where
  "unpack_many f 0 bs = []"
| "unpack_many f (Suc n) bs = unpack f (take (calcsize f) bs) # unpack_many f n (drop (calcsize f) bs)"

section \<open>The reader\<close>

definition reader_take :: "nat \<Rightarrow> (gguf_source, nat list) prog" where
  "reader_take count =
     reading (\<lambda>s. take count (drop (src_pos s) (src_bytes s))) (\<lambda>data.
     andThen (update (\<lambda>s. s\<lparr>src_pos := src_pos s + length data\<rparr>)) (\<lambda>_.
     guard (length data \<noteq> count) (GgufHeaderError ''truncated GGUF header'') (ret data)))"

definition reader_u32 :: "(gguf_source, int) prog" where
  "reader_u32 = andThen (reader_take 4) (\<lambda>d. ret (le_value d))"

definition reader_u64 :: "(gguf_source, int) prog" where
  "reader_u64 = andThen (reader_take 8) (\<lambda>d. ret (le_value d))"

definition reader_string :: "int \<Rightarrow> (gguf_source, str) prog" where
  "reader_string max_length =
     andThen reader_u64 (\<lambda>n.
     guard (n > max_length) (GgufHeaderError ''implausible string length'') (
     andThen (reader_take (nat n)) (\<lambda>d. ret (utf8_decode d))))"

definition reader_scalar :: "int \<Rightarrow> (gguf_source, gvalue) prog" where
  "reader_scalar type_id = (case map_of SCALAR_FORMATS type_id of
     None \<Rightarrow> raise (GgufHeaderError ''unsupported GGUF scalar value type'')
   | Some f \<Rightarrow> andThen (reader_take (calcsize f)) (\<lambda>d. ret (unpack f d)))"

text \<open>A list comprehension over \<^verbatim>\<open>range(count)\<close>.\<close>

primrec read_times :: "nat \<Rightarrow> ('s, 'a) prog \<Rightarrow> ('s, 'a list) prog" where
  "read_times 0 m = ret []"
| "read_times (Suc n) m = andThen m (\<lambda>x. andThen (read_times n m) (\<lambda>xs. ret (x # xs)))"

definition reader_array :: "(gguf_source, gvalue) prog" where
  "reader_array =
     andThen reader_u32 (\<lambda>elem_type.
     andThen reader_u64 (\<lambda>count.
     guard (count > MAX_ARRAY_LENGTH) (GgufHeaderError ''implausible array length'') (
     if elem_type = KV_STRING
     then andThen (read_times (nat count) (reader_string MAX_STRING_VALUE_LENGTH)) (\<lambda>xs. ret (GList (map GStr xs)))
     else (case map_of ARRAY_ELEMENT_FORMATS elem_type of
         None \<Rightarrow> raise (GgufHeaderError ''unsupported GGUF array element type'')
       | Some f \<Rightarrow> andThen (reader_take (calcsize f * nat count)) (\<lambda>d. ret (GList (unpack_many f (nat count) d)))))))"

definition reader_value :: "(gguf_source, gvalue) prog" where
  "reader_value =
     andThen reader_u32 (\<lambda>type_id.
     if type_id = KV_STRING then andThen (reader_string MAX_STRING_VALUE_LENGTH) (\<lambda>s. ret (GStr s))
     else if type_id = KV_ARRAY then reader_array
     else reader_scalar type_id)"

text \<open>The metadata loop; \<^verbatim>\<open>kv[key] = value\<close> keeps the place of a repeated key and replaces its value.\<close>

primrec read_kvs :: "nat \<Rightarrow> (str \<times> gvalue) list \<Rightarrow> (gguf_source, (str \<times> gvalue) list) prog" where
  "read_kvs 0 kv = ret kv"
| "read_kvs (Suc n) kv =
     andThen (reader_string MAX_NAME_LENGTH) (\<lambda>key.
     andThen reader_value (\<lambda>v. read_kvs n (AList.update key v kv)))"

definition read_tensor :: "(gguf_source, tensor_info) prog" where
  "read_tensor =
     andThen (reader_string MAX_NAME_LENGTH) (\<lambda>name.
     andThen reader_u32 (\<lambda>n_dims.
     guard (\<not> (0 < n_dims \<and> n_dims \<le> 8)) (GgufHeaderError ''implausible n_dims'') (
     andThen (read_times (nat n_dims) reader_u64) (\<lambda>dims.
     andThen reader_u32 (\<lambda>type_id.
     andThen reader_u64 (\<lambda>offset.
     ret \<lparr>ti_name = name, ti_dims = dims, ti_type_id = type_id, ti_offset = offset\<rparr>))))))"

definition read_index :: "(gguf_source, int \<times> (str \<times> gvalue) list \<times> tensor_info list \<times> int) prog" where
  "read_index =
     andThen (reader_take 4) (\<lambda>magic.
     guard (magic \<noteq> GGUF_MAGIC) (GgufHeaderError ''not a GGUF file'') (
     andThen reader_u32 (\<lambda>version.
     guard (version \<noteq> 3) (GgufHeaderError ''unsupported GGUF version'') (
     andThen reader_u64 (\<lambda>tensor_count.
     andThen reader_u64 (\<lambda>kv_count.
     guard (tensor_count > MAX_TENSOR_COUNT \<or> kv_count > MAX_KV_COUNT) (GgufHeaderError ''implausible counts'') (
     andThen (read_kvs (nat kv_count) []) (\<lambda>kv.
     andThen (read_times (nat tensor_count) read_tensor) (\<lambda>tensors.
     reading (\<lambda>s. int (src_pos s)) (\<lambda>header_end.
     ret (version, kv, tensors, header_end)))))))))))"

section \<open>Alignment\<close>

text \<open>The integer a value counts as: \<^verbatim>\<open>bool\<close> is a subclass of \<^verbatim>\<open>int\<close>.\<close>

fun as_int :: "gvalue \<Rightarrow> int option" where
  "as_int (GInt n) = Some n"
| "as_int (GBool b) = Some (of_bool b)"
| "as_int _ = None"

definition power_of_two_check :: "int \<Rightarrow> bool" where
  "power_of_two_check n \<longleftrightarrow> and n (n - 1) = 0"

definition checked_alignment :: "gvalue \<Rightarrow> int res" where
  "checked_alignment v = (case as_int v of
     None \<Rightarrow> Inl (GgufHeaderError ''invalid general.alignment'')
   | Some n \<Rightarrow> if n \<le> 0 \<or> \<not> power_of_two_check n then Inl (GgufHeaderError ''invalid general.alignment'')
       else Inr n)"

definition ALIGNMENT_KEY :: str where
  "ALIGNMENT_KEY = lit ''general.alignment''"

definition read_gguf_header :: "nat list \<Rightarrow> gguf_header res" where
  "read_gguf_header file =
     bind_res (fst (read_index \<lparr>src_bytes = file, src_pos = 0\<rparr>)) (\<lambda>(version, kv, tensors, header_end).
     bind_res (case map_of kv ALIGNMENT_KEY of None \<Rightarrow> Inr 32 | Some v \<Rightarrow> checked_alignment v) (\<lambda>alignment.
     Inr \<lparr>gh_version = version, gh_kv = kv, gh_tensors = tensors, gh_header_end = header_end,
          gh_data_start = (header_end + alignment - 1) div alignment * alignment\<rparr>))"

definition gh_alignment :: "gguf_header \<Rightarrow> int res" where
  "gh_alignment h = checked_alignment (case map_of (gh_kv h) ALIGNMENT_KEY of None \<Rightarrow> GInt 32 | Some v \<Rightarrow> v)"

section \<open>Sizes\<close>

definition ti_numel :: "tensor_info \<Rightarrow> int" where
  "ti_numel t = foldl (*) 1 (ti_dims t)"

text \<open>\<open>None\<close> is the name \<^verbatim>\<open>UNKNOWN_<id>\<close>.\<close>

definition ti_type_name :: "tensor_info \<Rightarrow> string option" where
  "ti_type_name t = map_option fst (map_of GGML_TYPES (ti_type_id t))"

definition ti_nbytes :: "tensor_info \<Rightarrow> int res" where
  "ti_nbytes t = (case map_of GGML_TYPES (ti_type_id t) of
     None \<Rightarrow> Inl (GgufHeaderError ''cannot size tensor'')
   | Some (_, block_size, block_bytes) \<Rightarrow>
       if ti_numel t mod block_size \<noteq> 0 then Inl (GgufHeaderError ''numel not a multiple of block size'')
       else Inr (ti_numel t div block_size * block_bytes))"

definition gh_tensor :: "gguf_header \<Rightarrow> str \<Rightarrow> tensor_info res" where
  "gh_tensor h name = (case find (\<lambda>t. ti_name t = name) (gh_tensors h) of
     Some t \<Rightarrow> Inr t
   | None \<Rightarrow> Inl (KeyError ''tensor''))"

definition absolute_offset :: "gguf_header \<Rightarrow> tensor_info \<Rightarrow> int" where
  "absolute_offset h t = gh_data_start h + ti_offset t"

section \<open>What a reader looks at\<close>

text \<open>
  A successful read leaves the bytes alone, moves forward within the file, and depends only on the
  bytes it has passed.
\<close>

definition reads_ahead :: "(gguf_source, 'a) prog \<Rightarrow> bool" where
  "reads_ahead m \<longleftrightarrow> (\<forall>f p x s'. p \<le> length f \<longrightarrow> m \<lparr>src_bytes = f, src_pos = p\<rparr> = (Inr x, s') \<longrightarrow>
     (\<exists>q. s' = \<lparr>src_bytes = f, src_pos = q\<rparr> \<and> p \<le> q \<and> q \<le> length f \<and>
        (\<forall>g. take q g = take q f \<longrightarrow> m \<lparr>src_bytes = g, src_pos = p\<rparr> = (Inr x, \<lparr>src_bytes = g, src_pos = q\<rparr>))))"

definition header_errors_only :: "('s, 'a) prog \<Rightarrow> bool" where
  "header_errors_only m \<longleftrightarrow> (\<forall>s e s'. m s = (Inl e, s') \<longrightarrow> (\<exists>t. e = GgufHeaderError t))"

named_theorems reader_rules \<open>rules of the readers\<close>

lemma reads_aheadE:
  assumes "reads_ahead m" and "m \<lparr>src_bytes = f, src_pos = p\<rparr> = (Inr x, s')" and "p \<le> length f"
  obtains q where "s' = \<lparr>src_bytes = f, src_pos = q\<rparr>" "p \<le> q" "q \<le> length f"
    "\<And>g. take q g = take q f \<Longrightarrow> m \<lparr>src_bytes = g, src_pos = p\<rparr> = (Inr x, \<lparr>src_bytes = g, src_pos = q\<rparr>)"
  using assms unfolding reads_ahead_def by meson

lemma reads_ahead_ret [reader_rules]: "reads_ahead (ret x)"
  by (auto simp: reads_ahead_def)

lemma reads_ahead_raise [reader_rules]: "reads_ahead (raise e)"
  by (simp add: reads_ahead_def)

lemma reads_ahead_guard [reader_rules]: "reads_ahead m \<Longrightarrow> reads_ahead (guard c e m)"
  by (simp add: guard_def reads_ahead_raise)

lemma take_eq_mono: "take q g = take q f \<Longrightarrow> p \<le> q \<Longrightarrow> take p g = take p (f :: 'a list)"
  by (metis min.absorb1 take_take)

lemma reads_ahead_andThen [reader_rules]:
  assumes m: "reads_ahead m" and k: "\<And>x. reads_ahead (k x)"
  shows "reads_ahead (andThen m k)"
  unfolding reads_ahead_def
proof (intro allI impI)
  fix f p y t
  assume p: "p \<le> length f" and "andThen m k \<lparr>src_bytes = f, src_pos = p\<rparr> = (Inr y, t)"
  then obtain x s' where x: "m \<lparr>src_bytes = f, src_pos = p\<rparr> = (Inr x, s')" and y: "k x s' = (Inr y, t)"
    by (elim andThen_InrE)
  obtain q where q: "s' = \<lparr>src_bytes = f, src_pos = q\<rparr>" "p \<le> q" "q \<le> length f"
    "\<And>g. take q g = take q f \<Longrightarrow> m \<lparr>src_bytes = g, src_pos = p\<rparr> = (Inr x, \<lparr>src_bytes = g, src_pos = q\<rparr>)"
    using reads_aheadE [OF m x p] by metis
  obtain r where r: "t = \<lparr>src_bytes = f, src_pos = r\<rparr>" "q \<le> r" "r \<le> length f"
    "\<And>g. take r g = take r f \<Longrightarrow> k x \<lparr>src_bytes = g, src_pos = q\<rparr> = (Inr y, \<lparr>src_bytes = g, src_pos = r\<rparr>)"
    using reads_aheadE [OF k y [unfolded q(1)] q(3)] by metis
  have "andThen m k \<lparr>src_bytes = g, src_pos = p\<rparr> = (Inr y, \<lparr>src_bytes = g, src_pos = r\<rparr>)"
    if g: "take r g = take r f" for g
    using q(4) [OF take_eq_mono [OF g r(2)]] r(4) [OF g] by (simp add: andThen_Inr)
  then show "\<exists>q. t = \<lparr>src_bytes = f, src_pos = q\<rparr> \<and> p \<le> q \<and> q \<le> length f \<and>
      (\<forall>g. take q g = take q f \<longrightarrow>
        andThen m k \<lparr>src_bytes = g, src_pos = p\<rparr> = (Inr y, \<lparr>src_bytes = g, src_pos = q\<rparr>))"
    using r(1-3) q(2) by auto
qed

lemma reads_ahead_take [reader_rules]: "reads_ahead (reader_take n)"
  unfolding reads_ahead_def
proof (intro allI impI)
  fix f p x s'
  assume "p \<le> length f" and r: "reader_take n \<lparr>src_bytes = f, src_pos = p\<rparr> = (Inr x, s')"
  then have l: "p + n \<le> length f" and x: "x = take n (drop p f)" "s' = \<lparr>src_bytes = f, src_pos = p + n\<rparr>"
    by (auto simp: reader_take_def split: if_splits)
  have "reader_take n \<lparr>src_bytes = g, src_pos = p\<rparr> = (Inr x, \<lparr>src_bytes = g, src_pos = p + n\<rparr>)"
    if g: "take (p + n) g = take (p + n) f" for g
  proof -
    have "take n (drop p g) = take n (drop p f)" using g by (metis add.commute take_drop)
    moreover have "length (take n (drop p f)) = n" using l by simp
    ultimately show ?thesis using x(1) by (simp add: reader_take_def del: length_take)
  qed
  then show "\<exists>q. s' = \<lparr>src_bytes = f, src_pos = q\<rparr> \<and> p \<le> q \<and> q \<le> length f \<and>
      (\<forall>g. take q g = take q f \<longrightarrow>
        reader_take n \<lparr>src_bytes = g, src_pos = p\<rparr> = (Inr x, \<lparr>src_bytes = g, src_pos = q\<rparr>))"
    using l x(2) by auto
qed

lemma reads_ahead_times [reader_rules]: "reads_ahead m \<Longrightarrow> reads_ahead (read_times n m)"
  by (induction n) (simp_all add: reader_rules)

lemma reads_ahead_position [reader_rules]:
  "(\<And>v. reads_ahead (k v)) \<Longrightarrow> reads_ahead (reading (\<lambda>s. int (src_pos s)) k)"
  by (simp add: reads_ahead_def)

lemma header_errors_rules [reader_rules]:
  "header_errors_only (ret x)"
  "header_errors_only (raise (GgufHeaderError t))"
  "header_errors_only m \<Longrightarrow> header_errors_only (guard c (GgufHeaderError t) m)"
  "(\<And>v. header_errors_only (k v)) \<Longrightarrow> header_errors_only (reading g k)"
  by (simp_all add: header_errors_only_def)

lemma header_errors_andThen [reader_rules]:
  "header_errors_only m \<Longrightarrow> (\<And>x. header_errors_only (j x)) \<Longrightarrow> header_errors_only (andThen m j)"
  by (auto simp: header_errors_only_def andThen_def split: prod.splits sum.splits)

lemma header_errors_take [reader_rules]: "header_errors_only (reader_take n)"
  by (auto simp: header_errors_only_def reader_take_def)

lemma header_errors_times [reader_rules]: "header_errors_only m \<Longrightarrow> header_errors_only (read_times n m)"
  by (induction n) (simp_all add: reader_rules)

lemma reader_basic [reader_rules]:
  "reads_ahead reader_u32" "header_errors_only reader_u32"
  "reads_ahead reader_u64" "header_errors_only reader_u64"
  by (simp_all add: reader_u32_def reader_u64_def reader_rules)

lemma reader_string_rules [reader_rules]:
  "reads_ahead (reader_string m)" "header_errors_only (reader_string m)"
  by (simp_all add: reader_string_def reader_rules)

lemma reader_value_rules [reader_rules]: "reads_ahead reader_value" "header_errors_only reader_value"
  by (auto simp: reader_value_def reader_array_def reader_scalar_def split: option.split intro!: reader_rules)

lemma read_kvs_rules [reader_rules]: "reads_ahead (read_kvs n kv)" "header_errors_only (read_kvs n kv)"
  by (induction n arbitrary: kv) (simp_all add: reader_rules)

lemma read_tensor_rules [reader_rules]: "reads_ahead read_tensor" "header_errors_only read_tensor"
  by (auto simp: read_tensor_def intro!: reader_rules)

lemma read_index_rules [reader_rules]: "reads_ahead read_index" "header_errors_only read_index"
  by (auto simp: read_index_def intro!: reader_rules)

section \<open>What a reader returns\<close>

definition yields :: "('a \<Rightarrow> bool) \<Rightarrow> ('s, 'a) prog \<Rightarrow> bool" where
  "yields P m \<longleftrightarrow> (\<forall>s x s'. m s = (Inr x, s') \<longrightarrow> P x)"

named_theorems yields_rules

lemma yields_andThen: "(\<And>x. yields P (k x)) \<Longrightarrow> yields P (andThen m k)"
  by (auto simp: yields_def elim!: andThen_InrE)

lemma yields_andThen': "yields R m \<Longrightarrow> (\<And>x. R x \<Longrightarrow> yields P (k x)) \<Longrightarrow> yields P (andThen m k)"
  unfolding yields_def by (blast elim: andThen_InrE)

lemma yields_ret: "P x \<Longrightarrow> yields P (ret x)"
  by (auto simp: yields_def)

lemma yields_guard: "(\<not> c \<Longrightarrow> yields P m) \<Longrightarrow> yields P (guard c e m)"
  by (auto simp: yields_def)

lemma yields_times: "yields P m \<Longrightarrow> yields (\<lambda>xs. length xs = n \<and> (\<forall>x \<in> set xs. P x)) (read_times n m)"
  by (induction n) (auto intro!: yields_ret yields_andThen')

definition tensor_ok :: "tensor_info \<Rightarrow> bool" where
  "tensor_ok t \<longleftrightarrow> 1 \<le> length (ti_dims t) \<and> length (ti_dims t) \<le> 8 \<and>
     (\<forall>d \<in> set (ti_dims t). 0 \<le> d) \<and> 0 \<le> ti_type_id t \<and> 0 \<le> ti_offset t"

lemma yields_u32: "yields (\<lambda>n. 0 \<le> n) reader_u32"
  by (auto simp: reader_u32_def intro!: yields_andThen yields_ret)

lemma yields_u64: "yields (\<lambda>n. 0 \<le> n) reader_u64"
  by (auto simp: reader_u64_def intro!: yields_andThen yields_ret)

lemma yields_tensor: "yields tensor_ok read_tensor"
proof -
  have n: "nat d \<le> 8" if "d \<le> 8" for d using that by simp
  show ?thesis
    unfolding read_tensor_def
    by (intro yields_andThen [where m = "reader_string _"] yields_guard
          yields_andThen' [OF yields_u32] yields_andThen' [OF yields_u64]
          yields_andThen' [OF yields_times [OF yields_u64]] yields_ret)
       (auto simp: tensor_ok_def)
qed

lemma yields_kvs:
  "length kv + n \<le> k \<Longrightarrow> distinct (map fst kv) \<Longrightarrow>
     yields (\<lambda>r. length r \<le> k \<and> distinct (map fst r)) (read_kvs n kv)"
proof (induction n arbitrary: kv)
  case (Suc n)
  have l: "length (AList.update a v kv) \<le> Suc (length kv)" for a v
    by (induction kv) auto
  have "yields (\<lambda>r. length r \<le> k \<and> distinct (map fst r)) (read_kvs n (AList.update a v kv))" for a v
    using Suc.prems l [of a v] by (intro Suc.IH distinct_update) simp_all
  then show ?case by (auto intro!: yields_andThen)
qed (auto intro!: yields_ret)

text \<open>The facts a successful read of the whole index establishes.\<close>

definition index_ok :: "int \<times> (str \<times> gvalue) list \<times> tensor_info list \<times> int \<Rightarrow> bool" where
  "index_ok r = (case r of (version, kv, tensors, _) \<Rightarrow>
     version = 3 \<and> int (length kv) \<le> MAX_KV_COUNT \<and> distinct (map fst kv) \<and>
     int (length tensors) \<le> MAX_TENSOR_COUNT \<and> (\<forall>t \<in> set tensors. tensor_ok t))"

lemma yields_reading: "(\<And>v. yields P (k v)) \<Longrightarrow> yields P (reading g k)"
  by (auto simp: yields_def)

lemma yields_index: "yields index_ok read_index"
proof -
  have "yields index_ok
      (andThen (read_kvs (nat kc) []) (\<lambda>kv. andThen (read_times (nat tc) read_tensor) (\<lambda>tensors.
         reading (\<lambda>s. int (src_pos s)) (\<lambda>e. ret (3, kv, tensors, e)))))"
    if c: "\<not> (tc > MAX_TENSOR_COUNT \<or> kc > MAX_KV_COUNT)" "0 \<le> kc" "0 \<le> tc" for tc kc
    by (rule yields_andThen' [OF yields_kvs [where k = "nat kc"]], simp, simp,
        rule yields_andThen' [OF yields_times [OF yields_tensor]], intro yields_reading yields_ret)
       (use c in \<open>auto simp: index_ok_def gguf_limits\<close>)
  then show ?thesis
    unfolding read_index_def
    by (intro yields_andThen [where m = "reader_take _"] yields_andThen [where m = reader_u32] yields_guard
          yields_andThen' [OF yields_u64]) simp
qed

lemma read_index_position:
  "read_index \<lparr>src_bytes = f, src_pos = 0\<rparr> = (Inr (v, kv, ts, e), s') \<Longrightarrow> e = int (src_pos s')"
  by (auto simp: read_index_def split: if_splits elim!: andThen_InrE)

text \<open>The test of \<^verbatim>\<open>n & (n - 1)\<close>.\<close>

lemma power_of_two_check: "0 < n \<Longrightarrow> power_of_two_check n \<longleftrightarrow> (\<exists>k. n = 2 ^ k)"
proof (induction "nat n" arbitrary: n rule: less_induct)
  case less
  show ?case
  proof (cases "even n")
    case True
    then obtain m where m: "n = 2 * m" by blast
    then have "0 < m" using less.prems by simp
    have "(n - 1) div 2 = m - 1" "n div 2 = m" using m by presburger+
    then have "and n (n - 1) = 2 * and m (m - 1)"
      by (subst and_rec) (use m in simp)
    then have "power_of_two_check n \<longleftrightarrow> power_of_two_check m" by (simp add: power_of_two_check_def)
    also have "\<dots> \<longleftrightarrow> (\<exists>k. m = 2 ^ k)" using less.hyps [of m] \<open>0 < m\<close> m by simp
    also have "\<dots> \<longleftrightarrow> (\<exists>k. n = 2 ^ k)"
    proof
      assume "\<exists>k. n = 2 ^ k"
      then obtain k where k: "n = 2 ^ k" ..
      then have "k \<noteq> 0" using True by (intro notI) simp
      then show "\<exists>k. m = 2 ^ k" using k m by (cases k) auto
    qed (use m in \<open>auto intro: exI [of _ "Suc _"]\<close>)
    finally show ?thesis .
  next
    case False
    then obtain m where m: "n = 2 * m + 1" by (elim oddE)
    then have "0 \<le> m" using less.prems by simp
    have "and n (n - 1) = 2 * m" by (subst and_rec) (use m in simp)
    then have "power_of_two_check n \<longleftrightarrow> n = 1" using m by (simp add: power_of_two_check_def)
    also have "\<dots> \<longleftrightarrow> (\<exists>k. n = 2 ^ k)"
    proof
      assume "\<exists>k. n = 2 ^ k"
      then obtain k where "n = 2 ^ k" ..
      with False show "n = 1" by (cases k) auto
    qed (auto intro: exI [of _ 0])
    finally show ?thesis .
  qed
qed

lemma read_header_cases:
  assumes "read_gguf_header f = Inr h"
  obtains q a where "read_index \<lparr>src_bytes = f, src_pos = 0\<rparr> =
      (Inr (gh_version h, gh_kv h, gh_tensors h, gh_header_end h), \<lparr>src_bytes = f, src_pos = q\<rparr>)"
    "gh_header_end h = int q" "q \<le> length f" "gh_alignment h = Inr a" "0 < a" "power_of_two_check a"
    "gh_data_start h = (int q + a - 1) div a * a"
proof -
  obtain v kv ts e s' where r: "read_index \<lparr>src_bytes = f, src_pos = 0\<rparr> = (Inr (v, kv, ts, e), s')"
    using assms by (cases "read_index \<lparr>src_bytes = f, src_pos = 0\<rparr>"; cases "fst (read_index \<lparr>src_bytes = f, src_pos = 0\<rparr>)")
      (auto simp: read_gguf_header_def)
  obtain q where q: "s' = \<lparr>src_bytes = f, src_pos = q\<rparr>" "q \<le> length f"
    using reads_aheadE [OF read_index_rules(1) r] by auto
  have e: "e = int q" using read_index_position [OF r] q by simp
  obtain a where a: "(case map_of kv ALIGNMENT_KEY of None \<Rightarrow> Inr 32 | Some v \<Rightarrow> checked_alignment v) = Inr a"
      and h: "h = \<lparr>gh_version = v, gh_kv = kv, gh_tensors = ts, gh_header_end = e,
          gh_data_start = (e + a - 1) div a * a\<rparr>"
    using assms r by (auto simp: read_gguf_header_def bind_Inr)
  have c: "checked_alignment (case map_of kv ALIGNMENT_KEY of None \<Rightarrow> GInt 32 | Some v \<Rightarrow> v) = Inr a"
    using a by (auto simp: checked_alignment_def power_of_two_check_def split: option.splits)
  then have "0 < a" "power_of_two_check a"
    by (auto simp: checked_alignment_def split: option.splits if_splits)
  then show thesis using that [of q a] r q e h c by (simp add: gh_alignment_def)
qed

text \<open>
  C38: Whatever the bytes are, the reader either raises \<^verbatim>\<open>GgufHeaderError\<close> and nothing else, or returns a
  version 3 header within its limits: distinct keys, every tensor with one to eight dimensions, the end
  of the header inside the file, and the data section at the first multiple of the alignment, a power
  of two, that is not before it.
\<close>

theorem gguf_header_checked:
  "case read_gguf_header f of
     Inl e \<Rightarrow> \<exists>t. e = GgufHeaderError t
   | Inr h \<Rightarrow> gh_version h = 3 \<and> distinct (map fst (gh_kv h)) \<and> int (length (gh_kv h)) \<le> MAX_KV_COUNT \<and>
       int (length (gh_tensors h)) \<le> MAX_TENSOR_COUNT \<and> list_all tensor_ok (gh_tensors h) \<and>
       0 \<le> gh_header_end h \<and> gh_header_end h \<le> int (length f) \<and>
       (\<exists>a k. gh_alignment h = Inr a \<and> a = 2 ^ k \<and> a dvd gh_data_start h \<and>
          gh_header_end h \<le> gh_data_start h \<and> gh_data_start h < gh_header_end h + a)"
proof (cases "read_gguf_header f")
  case (Inl e)
  have "\<exists>t. d = GgufHeaderError t" if "fst (read_index \<lparr>src_bytes = f, src_pos = 0\<rparr>) = Inl d" for d
    using read_index_rules(2) that unfolding header_errors_only_def by (metis prod.collapse)
  moreover have "\<exists>t. d = GgufHeaderError t" if "checked_alignment v = Inl d" for v d
    using that by (auto simp: checked_alignment_def split: option.splits if_splits)
  ultimately show ?thesis
    using Inl by (auto simp: read_gguf_header_def bind_res_def split: sum.splits option.splits)
next
  case (Inr h)
  obtain q a where r: "read_index \<lparr>src_bytes = f, src_pos = 0\<rparr> =
      (Inr (gh_version h, gh_kv h, gh_tensors h, gh_header_end h), \<lparr>src_bytes = f, src_pos = q\<rparr>)"
    and q: "gh_header_end h = int q" "q \<le> length f"
    and a: "gh_alignment h = Inr a" "0 < a" "power_of_two_check a"
    and d: "gh_data_start h = (int q + a - 1) div a * a"
    using read_header_cases [OF Inr] by blast
  have ok: "index_ok (gh_version h, gh_kv h, gh_tensors h, gh_header_end h)"
    using yields_index r unfolding yields_def by blast
  obtain k where k: "a = 2 ^ k" using a power_of_two_check [of a] by auto
  have "(int q + a - 1) mod a < a" "0 \<le> (int q + a - 1) mod a" using a(2) by simp_all
  then have "int q \<le> gh_data_start h" "gh_data_start h < int q + a"
    using div_mult_mod_eq [of "int q + a - 1" a] unfolding d by linarith+
  moreover have "a dvd gh_data_start h" by (simp add: d)
  ultimately have "\<exists>a k. gh_alignment h = Inr a \<and> a = 2 ^ k \<and> a dvd gh_data_start h \<and>
          gh_header_end h \<le> gh_data_start h \<and> gh_data_start h < gh_header_end h + a"
    using a(1) k q(1) by auto
  with ok q show ?thesis by (simp add: Inr index_ok_def list_all_iff)
qed

text \<open>
  C37: The header is read off its own bytes: any file that agrees with a readable one up to the end of
  its header, a partially downloaded one for instance, gives the same header.
\<close>

theorem partial_file_same_header:
  assumes "read_gguf_header f = Inr h"
    and "take (nat (gh_header_end h)) g = take (nat (gh_header_end h)) f"
  shows "read_gguf_header g = Inr h"
proof -
  obtain q a where r: "read_index \<lparr>src_bytes = f, src_pos = 0\<rparr> =
      (Inr (gh_version h, gh_kv h, gh_tensors h, gh_header_end h), \<lparr>src_bytes = f, src_pos = q\<rparr>)"
    and q: "gh_header_end h = int q"
    using read_header_cases [OF assms(1)] by blast
  have "read_index \<lparr>src_bytes = g, src_pos = 0\<rparr> =
      (Inr (gh_version h, gh_kv h, gh_tensors h, gh_header_end h), \<lparr>src_bytes = g, src_pos = q\<rparr>)"
    using reads_aheadE [OF read_index_rules(1) r] assms(2) q
    by (metis gguf_source.ext_inject nat_int zero_le)
  then show ?thesis using assms(1) r by (simp add: read_gguf_header_def)
qed

section \<open>Writing a header\<close>

text \<open>
  The format the reader is for: a metadata value as it is written, with its type.
\<close>

datatype wire =
    WScalar fmt gvalue
  | WString str
  | WArray fmt "gvalue list"
  | WStrings "str list"

fun fmt_id :: "fmt \<Rightarrow> int" where
  "fmt_id FmtB = 0" | "fmt_id Fmtb = 1" | "fmt_id FmtH = 2" | "fmt_id Fmth = 3" | "fmt_id FmtI = 4"
| "fmt_id Fmti = 5" | "fmt_id Fmtf = 6" | "fmt_id FmtBool = 7" | "fmt_id FmtQ = 10"
| "fmt_id Fmtq = 11" | "fmt_id Fmtd = 12"

definition is_signed :: "fmt \<Rightarrow> bool" where
  "is_signed f \<longleftrightarrow> f \<in> {Fmtb, Fmth, Fmti, Fmtq}"

fun fits :: "fmt \<Rightarrow> gvalue \<Rightarrow> bool" where
  "fits f (GInt n) \<longleftrightarrow> f \<in> {FmtB, Fmtb, FmtH, Fmth, FmtI, Fmti, FmtQ, Fmtq} \<and>
     (if is_signed f then - (256 ^ calcsize f) \<le> 2 * n \<and> 2 * n < 256 ^ calcsize f
      else 0 \<le> n \<and> n < 256 ^ calcsize f)"
| "fits f (GBool b) \<longleftrightarrow> f = FmtBool"
| "fits f (GFloat bs) \<longleftrightarrow> f \<in> {Fmtf, Fmtd} \<and> length bs = calcsize f"
| "fits f _ \<longleftrightarrow> False"

fun pack :: "fmt \<Rightarrow> gvalue \<Rightarrow> nat list" where
  "pack f (GInt n) = le_bytes (calcsize f) n"
| "pack f (GBool b) = [of_bool b]"
| "pack f (GFloat bs) = bs"
| "pack f _ = []"

definition string_ok :: "int \<Rightarrow> str \<Rightarrow> bool" where
  "string_ok limit s \<longleftrightarrow> list_all is_scalar s \<and> int (length (utf8_encode s)) \<le> limit"

definition u32_bytes :: "int \<Rightarrow> nat list" where "u32_bytes n = le_bytes 4 n"
definition u64_bytes :: "int \<Rightarrow> nat list" where "u64_bytes n = le_bytes 8 n"

definition string_bytes :: "str \<Rightarrow> nat list" where
  "string_bytes s = u64_bytes (int (length (utf8_encode s))) @ utf8_encode s"

fun wire_ok :: "wire \<Rightarrow> bool" where
  "wire_ok (WScalar f v) \<longleftrightarrow> fits f v"
| "wire_ok (WString s) \<longleftrightarrow> string_ok MAX_STRING_VALUE_LENGTH s"
| "wire_ok (WArray f vs) \<longleftrightarrow> list_all (fits f) vs \<and> int (length vs) \<le> MAX_ARRAY_LENGTH"
| "wire_ok (WStrings ss) \<longleftrightarrow> list_all (string_ok MAX_STRING_VALUE_LENGTH) ss \<and> int (length ss) \<le> MAX_ARRAY_LENGTH"

fun wire_value :: "wire \<Rightarrow> gvalue" where
  "wire_value (WScalar f v) = v"
| "wire_value (WString s) = GStr s"
| "wire_value (WArray f vs) = GList vs"
| "wire_value (WStrings ss) = GList (map GStr ss)"

fun wire_bytes :: "wire \<Rightarrow> nat list" where
  "wire_bytes (WScalar f v) = u32_bytes (fmt_id f) @ pack f v"
| "wire_bytes (WString s) = u32_bytes KV_STRING @ string_bytes s"
| "wire_bytes (WArray f vs) =
     u32_bytes KV_ARRAY @ u32_bytes (fmt_id f) @ u64_bytes (int (length vs)) @ concat (map (pack f) vs)"
| "wire_bytes (WStrings ss) =
     u32_bytes KV_ARRAY @ u32_bytes KV_STRING @ u64_bytes (int (length ss)) @ concat (map string_bytes ss)"

definition kv_bytes :: "str \<times> wire \<Rightarrow> nat list" where
  "kv_bytes kv = string_bytes (fst kv) @ wire_bytes (snd kv)"

definition tensor_fits :: "tensor_info \<Rightarrow> bool" where
  "tensor_fits t \<longleftrightarrow> string_ok MAX_NAME_LENGTH (ti_name t) \<and>
     1 \<le> length (ti_dims t) \<and> length (ti_dims t) \<le> 8 \<and>
     list_all (\<lambda>d. 0 \<le> d \<and> d < 2 ^ 64) (ti_dims t) \<and>
     0 \<le> ti_type_id t \<and> ti_type_id t < 2 ^ 32 \<and> 0 \<le> ti_offset t \<and> ti_offset t < 2 ^ 64"

definition tensor_bytes :: "tensor_info \<Rightarrow> nat list" where
  "tensor_bytes t = string_bytes (ti_name t) @ u32_bytes (int (length (ti_dims t))) @
     concat (map u64_bytes (ti_dims t)) @ u32_bytes (ti_type_id t) @ u64_bytes (ti_offset t)"

definition header_bytes :: "(str \<times> wire) list \<Rightarrow> tensor_info list \<Rightarrow> nat list" where
  "header_bytes kvs ts = GGUF_MAGIC @ u32_bytes 3 @ u64_bytes (int (length ts)) @ u64_bytes (int (length kvs)) @
     concat (map kv_bytes kvs) @ concat (map tensor_bytes ts)"

definition header_fits :: "(str \<times> wire) list \<Rightarrow> tensor_info list \<Rightarrow> bool" where
  "header_fits kvs ts \<longleftrightarrow> distinct (map fst kvs) \<and>
     list_all (\<lambda>(k, w). string_ok MAX_NAME_LENGTH k \<and> wire_ok w) kvs \<and> list_all tensor_fits ts \<and>
     int (length kvs) \<le> MAX_KV_COUNT \<and> int (length ts) \<le> MAX_TENSOR_COUNT"

text \<open>\<open>parses m bs x\<close>: standing before \<open>bs\<close>, the reader returns \<open>x\<close> and stands behind it.\<close>

definition parses :: "(gguf_source, 'a) prog \<Rightarrow> nat list \<Rightarrow> 'a \<Rightarrow> bool" where
  "parses m bs x \<longleftrightarrow> (\<forall>pre post. m \<lparr>src_bytes = pre @ bs @ post, src_pos = length pre\<rparr> =
     (Inr x, \<lparr>src_bytes = pre @ bs @ post, src_pos = length pre + length bs\<rparr>))"

lemma parses_ret: "parses (ret x) [] x"
  by (simp add: parses_def)

lemma parses_andThen:
  assumes "parses m bs x" and "parses (k x) cs y"
  shows "parses (andThen m k) (bs @ cs) y"
  unfolding parses_def
proof (intro allI)
  fix pre post
  have "m \<lparr>src_bytes = pre @ (bs @ cs) @ post, src_pos = length pre\<rparr> =
      (Inr x, \<lparr>src_bytes = pre @ (bs @ cs) @ post, src_pos = length pre + length bs\<rparr>)"
    using assms(1) [unfolded parses_def, rule_format, of pre "cs @ post"] by simp
  moreover have "k x \<lparr>src_bytes = pre @ (bs @ cs) @ post, src_pos = length pre + length bs\<rparr> =
      (Inr y, \<lparr>src_bytes = pre @ (bs @ cs) @ post, src_pos = length pre + length (bs @ cs)\<rparr>)"
    using assms(2) [unfolded parses_def, rule_format, of "pre @ bs" post] by (simp add: add.assoc)
  ultimately show "andThen m k \<lparr>src_bytes = pre @ (bs @ cs) @ post, src_pos = length pre\<rparr> =
      (Inr y, \<lparr>src_bytes = pre @ (bs @ cs) @ post, src_pos = length pre + length (bs @ cs)\<rparr>)"
    by (simp add: andThen_Inr)
qed

lemma parses_map: "parses m bs x \<Longrightarrow> parses (andThen m (\<lambda>x. ret (f x))) bs (f x)"
  using parses_andThen [of m bs x "\<lambda>x. ret (f x)" "[]"] parses_ret by fastforce

lemma parses_guard: "\<not> c \<Longrightarrow> parses m bs x \<Longrightarrow> parses (guard c e m) bs x"
  by (simp add: parses_def)

lemma parses_take: "length bs = n \<Longrightarrow> parses (reader_take n) bs bs"
  by (simp add: parses_def reader_take_def)

lemma parses_times:
  "list_all (\<lambda>x. parses m (f x) x) xs \<Longrightarrow> n = length xs \<Longrightarrow> parses (read_times n m) (concat (map f xs)) xs"
  by (induction xs arbitrary: n) (auto intro!: parses_ret parses_andThen parses_map)

lemma parses_u32: "0 \<le> n \<Longrightarrow> n < 2 ^ 32 \<Longrightarrow> parses reader_u32 (u32_bytes n) n"
  using parses_map [OF parses_take, of "u32_bytes n" 4 le_value]
  by (simp add: reader_u32_def u32_bytes_def le_value_of_unsigned)

lemma parses_u64: "0 \<le> n \<Longrightarrow> n < 2 ^ 64 \<Longrightarrow> parses reader_u64 (u64_bytes n) n"
  using parses_map [OF parses_take, of "u64_bytes n" 8 le_value]
  by (simp add: reader_u64_def u64_bytes_def le_value_of_unsigned)

lemma parses_string:
  assumes "string_ok limit s" and "limit < 2 ^ 64"
  shows "parses (reader_string limit) (string_bytes s) s"
proof -
  have l: "int (length (utf8_encode s)) \<le> limit" "utf8_decode (utf8_encode s) = s"
    using assms(1) by (auto simp: string_ok_def list_all_iff intro: utf8_roundtrip)
  show ?thesis
    unfolding reader_string_def string_bytes_def
    using l assms(2) parses_map [OF parses_take, of "utf8_encode s" _ utf8_decode]
    by (intro parses_andThen [OF parses_u64] parses_guard) simp_all
qed

lemma pack_length: "fits f v \<Longrightarrow> length (pack f v) = calcsize f"
  by (cases v) auto

lemma unpack_int:
  "f \<in> {FmtB, Fmtb, FmtH, Fmth, FmtI, Fmti, FmtQ, Fmtq} \<Longrightarrow>
     unpack f bs = GInt (if is_signed f then signed_value bs else le_value bs)"
  by (auto simp: is_signed_def)

lemma unpack_pack: "fits f v \<Longrightarrow> unpack f (pack f v) = v"
proof (cases v)
  case (GInt n)
  assume "fits f v"
  then show ?thesis
    using signed_value_le_bytes [of "calcsize f" n] le_value_of_unsigned [of n "calcsize f"]
    by (simp add: GInt unpack_int split: if_splits)
qed auto

lemma unpack_many_pack:
  "list_all (fits f) vs \<Longrightarrow> unpack_many f (length vs) (concat (map (pack f) vs)) = vs"
  by (induction vs) (simp_all add: pack_length unpack_pack)

lemma length_pack_many: "list_all (fits f) vs \<Longrightarrow> length (concat (map (pack f) vs)) = calcsize f * length vs"
  by (induction vs) (simp_all add: pack_length)

lemma fmt_id_table:
  "map_of SCALAR_FORMATS (fmt_id f) = Some f" "map_of ARRAY_ELEMENT_FORMATS (fmt_id f) = Some f"
  "fmt_id f \<noteq> KV_STRING" "fmt_id f \<noteq> KV_ARRAY" "0 \<le> fmt_id f" "fmt_id f < 2 ^ 32"
  by (cases f; simp add: SCALAR_FORMATS_def ARRAY_ELEMENT_FORMATS_def KV_STRING_def KV_ARRAY_def)+

lemma kv_type_ids: "KV_STRING \<noteq> KV_ARRAY" "parses reader_u32 (u32_bytes KV_STRING) KV_STRING"
    "parses reader_u32 (u32_bytes KV_ARRAY) KV_ARRAY"
  by (simp_all add: KV_STRING_def KV_ARRAY_def parses_u32)

lemma parses_fmt_id: "parses reader_u32 (u32_bytes (fmt_id f)) (fmt_id f)"
  by (rule parses_u32) (rule fmt_id_table)+

lemma parses_array:
  "wire_ok (WArray f vs) \<Longrightarrow> parses reader_array
     (u32_bytes (fmt_id f) @ u64_bytes (int (length vs)) @ concat (map (pack f) vs)) (GList vs)"
  unfolding reader_array_def
  using parses_map [OF parses_take [OF length_pack_many], of f vs "\<lambda>d. GList (unpack_many f (length vs) d)"]
  by (intro parses_andThen [OF parses_fmt_id] parses_andThen [OF parses_u64] parses_guard)
    (simp_all add: fmt_id_table unpack_many_pack gguf_limits)

lemma parses_string_array:
  "wire_ok (WStrings ss) \<Longrightarrow> parses reader_array
     (u32_bytes KV_STRING @ u64_bytes (int (length ss)) @ concat (map string_bytes ss)) (GList (map GStr ss))"
  unfolding reader_array_def
  using parses_map [OF parses_times, of "reader_string MAX_STRING_VALUE_LENGTH" string_bytes ss "length ss"
      "\<lambda>xs. GList (map GStr xs)"]
  by (intro parses_andThen [OF kv_type_ids(2)] parses_andThen [OF parses_u64] parses_guard)
    (auto simp: gguf_limits list_all_iff parses_string)

lemma parses_value: "wire_ok w \<Longrightarrow> parses reader_value (wire_bytes w) (wire_value w)"
proof (cases w)
  case (WScalar f v)
  assume "wire_ok w"
  then have "parses (andThen (reader_take (calcsize f)) (\<lambda>d. ret (unpack f d))) (pack f v) v"
    using parses_map [OF parses_take, of "pack f v" "calcsize f" "unpack f"] WScalar
    by (simp add: pack_length unpack_pack)
  then have "parses reader_value (u32_bytes (fmt_id f) @ pack f v) v"
    unfolding reader_value_def
    by (intro parses_andThen [OF parses_fmt_id]) (simp add: fmt_id_table reader_scalar_def)
  then show ?thesis using WScalar by simp
next
  case (WString s)
  assume "wire_ok w"
  then have "parses reader_value (u32_bytes KV_STRING @ string_bytes s) (GStr s)"
    unfolding reader_value_def
    by (intro parses_andThen [OF kv_type_ids(2)]) (simp add: WString parses_map parses_string gguf_limits)
  then show ?thesis using WString by simp
next
  case (WArray f vs)
  assume "wire_ok w"
  then show ?thesis
    using parses_andThen [OF kv_type_ids(3), of "\<lambda>t. if t = KV_STRING then _ t else if t = KV_ARRAY then reader_array else _ t"]
      parses_array [of f vs] WArray kv_type_ids(1) unfolding reader_value_def by (simp add: parses_andThen [OF kv_type_ids(3)])
next
  case (WStrings ss)
  assume "wire_ok w"
  then show ?thesis
    using parses_string_array [of ss] WStrings kv_type_ids(1) unfolding reader_value_def
    by (simp add: parses_andThen [OF kv_type_ids(3)])
qed

lemma parses_kvs:
  "distinct (map fst (kv @ map (apsnd wire_value) kvs)) \<Longrightarrow>
     list_all (\<lambda>(k, w). string_ok MAX_NAME_LENGTH k \<and> wire_ok w) kvs \<Longrightarrow>
     parses (read_kvs (length kvs) kv) (concat (map kv_bytes kvs)) (kv @ map (apsnd wire_value) kvs)"
proof (induction kvs arbitrary: kv)
  case Nil
  show ?case
    unfolding list.size read_kvs.simps list.map concat.simps append_Nil2 by (rule parses_ret)
next
  case (Cons p kvs)
  obtain k w where p: "p = (k, w)" by (cases p)
  have "k \<notin> set (map fst kv)" using Cons.prems(1) by (auto simp: p)
  then have u: "AList.update k (wire_value w) kv = kv @ [(k, wire_value w)]"
    by (induction kv) auto
  have "parses (read_kvs (length kvs) (AList.update k (wire_value w) kv)) (concat (map kv_bytes kvs))
      (kv @ map (apsnd wire_value) (p # kvs))"
    using Cons.IH [of "kv @ [(k, wire_value w)]"] Cons.prems by (simp add: u p)
  then have "parses (read_kvs (length (p # kvs)) kv)
      (string_bytes k @ wire_bytes w @ concat (map kv_bytes kvs)) (kv @ map (apsnd wire_value) (p # kvs))"
    using Cons.prems(2) unfolding read_kvs.simps list.size add_0_right add_Suc_right
    by (intro parses_andThen [OF parses_string] parses_andThen [OF parses_value])
      (simp_all add: p gguf_limits)
  moreover have "concat (map kv_bytes (p # kvs)) = string_bytes k @ wire_bytes w @ concat (map kv_bytes kvs)"
    by (simp add: p kv_bytes_def [of "(k, w)"])
  ultimately show ?case by simp
qed

lemma parses_tensor: "tensor_fits t \<Longrightarrow> parses read_tensor (tensor_bytes t) t"
proof -
  assume t: "tensor_fits t"
  have eta: "\<lparr>ti_name = ti_name t, ti_dims = ti_dims t, ti_type_id = ti_type_id t, ti_offset = ti_offset t\<rparr> = t"
    by simp
  have off: "parses (andThen reader_u64 (\<lambda>off. ret \<lparr>ti_name = ti_name t, ti_dims = ti_dims t,
      ti_type_id = ti_type_id t, ti_offset = off\<rparr>)) (u64_bytes (ti_offset t)) t"
    using parses_map [OF parses_u64, of "ti_offset t" "\<lambda>off. \<lparr>ti_name = ti_name t, ti_dims = ti_dims t,
      ti_type_id = ti_type_id t, ti_offset = off\<rparr>"] t
    unfolding eta by (simp add: tensor_fits_def)
  show ?thesis
    unfolding read_tensor_def tensor_bytes_def
    by (intro parses_andThen [OF parses_string] parses_andThen [OF parses_u32] parses_guard
        parses_andThen [OF parses_times] off)
      (use t in \<open>auto simp: tensor_fits_def gguf_limits list_all_iff parses_u64\<close>)
qed

text \<open>The index without the position at its end.\<close>

definition index_body :: "(gguf_source, int \<times> (str \<times> gvalue) list \<times> tensor_info list) prog" where
  "index_body =
     andThen (reader_take 4) (\<lambda>magic.
     guard (magic \<noteq> GGUF_MAGIC) (GgufHeaderError ''not a GGUF file'') (
     andThen reader_u32 (\<lambda>version.
     guard (version \<noteq> 3) (GgufHeaderError ''unsupported GGUF version'') (
     andThen reader_u64 (\<lambda>tensor_count.
     andThen reader_u64 (\<lambda>kv_count.
     guard (tensor_count > MAX_TENSOR_COUNT \<or> kv_count > MAX_KV_COUNT) (GgufHeaderError ''implausible counts'') (
     andThen (read_kvs (nat kv_count) []) (\<lambda>kv.
     andThen (read_times (nat tensor_count) read_tensor) (\<lambda>tensors.
     ret (version, kv, tensors))))))))))"

lemma andThen_guard_out: "andThen (guard c e m) k = guard c e (andThen m k)"
  by (simp add: fun_eq_iff)

lemma read_index_body:
  "read_index = andThen index_body (\<lambda>(version, kv, tensors).
     reading (\<lambda>s. int (src_pos s)) (\<lambda>header_end. ret (version, kv, tensors, header_end)))"
  unfolding read_index_def index_body_def andThen_assoc andThen_guard_out andThen_ret case_prod_conv
  by (rule refl)

lemma parses_index_body:
  assumes "header_fits kvs ts"
  shows "parses index_body (header_bytes kvs ts) (3, map (apsnd wire_value) kvs, ts)"
proof -
  have tensors: "parses (read_times (nat (int (length ts))) read_tensor) (concat (map tensor_bytes ts)) ts"
    using assms by (intro parses_times) (auto simp: header_fits_def list_all_iff parses_tensor)
  have kvs: "parses (read_kvs (nat (int (length kvs))) []) (concat (map kv_bytes kvs)) (map (apsnd wire_value) kvs)"
    using parses_kvs [of "[]" kvs] assms by (simp add: header_fits_def)
  have n: "int (length ts) \<le> MAX_TENSOR_COUNT" "int (length kvs) \<le> MAX_KV_COUNT"
    "int (length ts) < 2 ^ 64" "int (length kvs) < 2 ^ 64"
    using assms by (simp_all add: header_fits_def gguf_limits)
  have magic: "parses (reader_take 4) GGUF_MAGIC GGUF_MAGIC"
    by (rule parses_take) (simp add: GGUF_MAGIC_def)
  have three: "parses reader_u32 (u32_bytes 3) 3" by (rule parses_u32) simp_all
  show ?thesis
    unfolding index_body_def header_bytes_def
    by (intro parses_andThen [OF magic] parses_guard parses_andThen [OF three]
        parses_andThen [OF parses_u64 [OF of_nat_0_le_iff n(3)]]
        parses_andThen [OF parses_u64 [OF of_nat_0_le_iff n(4)]]
        parses_andThen [OF kvs]
        parses_map [OF tensors, of "\<lambda>ts. (3, map (apsnd wire_value) kvs, ts)"])
      (use n in simp_all)
qed

lemma header_read_back:
  assumes "header_fits kvs ts"
    and "checked_alignment (case map_of (map (apsnd wire_value) kvs) ALIGNMENT_KEY of None \<Rightarrow> GInt 32 | Some v \<Rightarrow> v) = Inr a"
  shows "read_gguf_header (header_bytes kvs ts @ rest) = Inr
    \<lparr>gh_version = 3, gh_kv = map (apsnd wire_value) kvs, gh_tensors = ts,
     gh_header_end = int (length (header_bytes kvs ts)),
     gh_data_start = (int (length (header_bytes kvs ts)) + a - 1) div a * a\<rparr>"
proof -
  have "fst (read_index \<lparr>src_bytes = header_bytes kvs ts @ rest, src_pos = 0\<rparr>) =
    Inr (3, map (apsnd wire_value) kvs, ts, int (length (header_bytes kvs ts)))"
    using parses_index_body [OF assms(1), unfolded parses_def, rule_format, of "[]" rest]
    unfolding read_index_body by (simp add: andThen_Inr)
  moreover have "(case map_of (map (apsnd wire_value) kvs) ALIGNMENT_KEY of None \<Rightarrow> Inr 32
      | Some v \<Rightarrow> checked_alignment v) = Inr a"
    using assms(2) by (auto simp: checked_alignment_def power_of_two_check_def split: option.splits if_splits)
  ultimately show ?thesis by (simp add: read_gguf_header_def)
qed

text \<open>
  C36: A header written in the GGUF format, whatever follows it in the file, is read back exactly: the
  metadata in order with its values, every tensor entry, its own length, and the start of the data
  section for the alignment it declares.
\<close>

theorem gguf_header_roundtrip:
  assumes "header_fits kvs ts"
    and "checked_alignment (case map_of (map (apsnd wire_value) kvs) ALIGNMENT_KEY of None \<Rightarrow> GInt 32 | Some v \<Rightarrow> v) = Inr a"
  shows "read_gguf_header (header_bytes kvs ts @ rest) = Inr
    \<lparr>gh_version = 3, gh_kv = map (apsnd wire_value) kvs, gh_tensors = ts,
     gh_header_end = int (length (header_bytes kvs ts)),
     gh_data_start = (int (length (header_bytes kvs ts)) + a - 1) div a * a\<rparr>"
  using assms by (rule header_read_back)

definition sample_kvs :: "(str \<times> wire) list" where
  "sample_kvs =
    [(lit ''general.alignment'', WScalar FmtI (GInt 64)), (lit ''n'', WScalar Fmtb (GInt (-2))),
     ([233, 8364], WStrings [lit ''a'', [128512]]), (lit ''r'', WArray Fmti [GInt 4, GInt (-128)])]"

definition sample_tensors :: "tensor_info list" where
  "sample_tensors = [\<lparr>ti_name = lit ''w'', ti_dims = [256, 2], ti_type_id = 12, ti_offset = 0\<rparr>]"

lemmas sample_defs = sample_kvs_def sample_tensors_def string_ok_def utf8_encode_def utf8_encode_char_def
  is_scalar_def lit_def gguf_limits

lemma sample_fits: "header_fits sample_kvs sample_tensors"
  by (simp add: header_fits_def tensor_fits_def is_signed_def sample_defs)

lemma sample_length: "length (header_bytes sample_kvs sample_tensors) = 195"
  by (simp add: header_bytes_def kv_bytes_def tensor_bytes_def string_bytes_def u32_bytes_def u64_bytes_def
      GGUF_MAGIC_def sample_defs)

lemma sample_alignment:
  "checked_alignment (case map_of (map (apsnd wire_value) sample_kvs) ALIGNMENT_KEY of
     None \<Rightarrow> GInt 32 | Some v \<Rightarrow> v) = Inr 64"
  by (simp add: sample_defs ALIGNMENT_KEY_def checked_alignment_def power_of_two_check_def)

lemma gguf_header_roundtrip_witness:
  "read_gguf_header (header_bytes sample_kvs sample_tensors @ [1, 2, 3]) = Inr
    \<lparr>gh_version = 3, gh_kv = map (apsnd wire_value) sample_kvs, gh_tensors = sample_tensors,
     gh_header_end = 195, gh_data_start = 256\<rparr>"
  using gguf_header_roundtrip [OF sample_fits sample_alignment, of "[1, 2, 3]"]
  by (simp add: sample_length)

lemma sample_read:
  "read_gguf_header (header_bytes sample_kvs sample_tensors @ rest) = Inr
    \<lparr>gh_version = 3, gh_kv = map (apsnd wire_value) sample_kvs, gh_tensors = sample_tensors,
     gh_header_end = 195, gh_data_start = 256\<rparr>"
  using header_read_back [OF sample_fits sample_alignment, of rest] by (simp add: sample_length)

lemma partial_file_same_header_witness:
  "\<exists>h. read_gguf_header (header_bytes sample_kvs sample_tensors) = Inr h \<and> gh_header_end h = 195"
  using partial_file_same_header [OF sample_read [of "[7, 8]"], of "header_bytes sample_kvs sample_tensors"]
  by (simp add: sample_length)


end
