(* ===== verification/Gguf_Dequant.thy ===== *)
theory Gguf_Dequant
  imports Byte_Strings "HOL-Library.Word" Complex_Main
begin

text \<open>
  \<^verbatim>\<open>loader/gguf_dequant.py\<close> with the tables of \<^verbatim>\<open>loader/gguf_quant_tables.py\<close>: the reference
  dequantizers of the GGUF block formats.  A byte is a natural number below 256.  The machine's
  floating-point operations are the argument \<open>F\<close>: literals and converted integers, the value of
  half-precision bits, rounding to single precision, product, sum, difference and negation.
\<close>

unbundle bit_operations_syntax

section \<open>The code\<close>

record 'f float_ops =
  fl_num :: "rat \<Rightarrow> 'f"
  fl_half16 :: "nat \<Rightarrow> 'f"
  fl_round32 :: "'f \<Rightarrow> 'f"
  fl_mul :: "'f \<Rightarrow> 'f \<Rightarrow> 'f"
  fl_add :: "'f \<Rightarrow> 'f \<Rightarrow> 'f"
  fl_sub :: "'f \<Rightarrow> 'f \<Rightarrow> 'f"
  fl_neg :: "'f \<Rightarrow> 'f"

definition Q8_0_BLOCK_BYTES :: nat where "Q8_0_BLOCK_BYTES = 34"
definition Q4_K_BLOCK_BYTES :: nat where "Q4_K_BLOCK_BYTES = 144"
definition Q4_K_BLOCK_ELEMENTS :: nat where "Q4_K_BLOCK_ELEMENTS = 256"
definition Q5_K_BLOCK_BYTES :: nat where "Q5_K_BLOCK_BYTES = 176"
definition Q5_K_BLOCK_ELEMENTS :: nat where "Q5_K_BLOCK_ELEMENTS = 256"
definition Q6_K_BLOCK_BYTES :: nat where "Q6_K_BLOCK_BYTES = 210"
definition Q6_K_BLOCK_ELEMENTS :: nat where "Q6_K_BLOCK_ELEMENTS = 256"
definition IQ2_XS_BLOCK_BYTES :: nat where "IQ2_XS_BLOCK_BYTES = 74"
definition IQ2_XS_BLOCK_ELEMENTS :: nat where "IQ2_XS_BLOCK_ELEMENTS = 256"

lemmas block_sizes =
  Q8_0_BLOCK_BYTES_def Q4_K_BLOCK_BYTES_def Q4_K_BLOCK_ELEMENTS_def Q5_K_BLOCK_BYTES_def
  Q5_K_BLOCK_ELEMENTS_def Q6_K_BLOCK_BYTES_def Q6_K_BLOCK_ELEMENTS_def IQ2_XS_BLOCK_BYTES_def
  IQ2_XS_BLOCK_ELEMENTS_def

definition KMASK_IQ2XS :: "nat list" where
  "KMASK_IQ2XS = [0x01, 0x02, 0x04, 0x08, 0x10, 0x20, 0x40, 0x80]"

definition KSIGNS_IQ2XS :: "nat list" where
  "KSIGNS_IQ2XS =
    [0x00, 0x81, 0x82, 0x03, 0x84, 0x05, 0x06, 0x87, 0x88, 0x09, 0x0a, 0x8b, 0x0c, 0x8d, 0x8e, 0x0f,
     0x90, 0x11, 0x12, 0x93, 0x14, 0x95, 0x96, 0x17, 0x18, 0x99, 0x9a, 0x1b, 0x9c, 0x1d, 0x1e, 0x9f,
     0xa0, 0x21, 0x22, 0xa3, 0x24, 0xa5, 0xa6, 0x27, 0x28, 0xa9, 0xaa, 0x2b, 0xac, 0x2d, 0x2e, 0xaf,
     0x30, 0xb1, 0xb2, 0x33, 0xb4, 0x35, 0x36, 0xb7, 0xb8, 0x39, 0x3a, 0xbb, 0x3c, 0xbd, 0xbe, 0x3f,
     0xc0, 0x41, 0x42, 0xc3, 0x44, 0xc5, 0xc6, 0x47, 0x48, 0xc9, 0xca, 0x4b, 0xcc, 0x4d, 0x4e, 0xcf,
     0x50, 0xd1, 0xd2, 0x53, 0xd4, 0x55, 0x56, 0xd7, 0xd8, 0x59, 0x5a, 0xdb, 0x5c, 0xdd, 0xde, 0x5f,
     0x60, 0xe1, 0xe2, 0x63, 0xe4, 0x65, 0x66, 0xe7, 0xe8, 0x69, 0x6a, 0xeb, 0x6c, 0xed, 0xee, 0x6f,
     0xf0, 0x71, 0x72, 0xf3, 0x74, 0xf5, 0xf6, 0x77, 0x78, 0xf9, 0xfa, 0x7b, 0xfc, 0x7d, 0x7e, 0xff]"

definition IQ2XS_GRID :: "nat list" where
  "IQ2XS_GRID =
    [0x0808080808080808, 0x080808080808082b, 0x0808080808081919, 0x0808080808082b08,
     0x0808080808082b2b, 0x0808080808190819, 0x0808080808191908, 0x080808080819192b,
     0x0808080808192b19, 0x08080808082b0808, 0x08080808082b082b, 0x08080808082b1919,
     0x08080808082b2b08, 0x0808080819080819, 0x0808080819081908, 0x080808081908192b,
     0x0808080819082b19, 0x0808080819190808, 0x080808081919082b, 0x0808080819191919,
     0x0808080819192b08, 0x08080808192b0819, 0x08080808192b1908, 0x080808082b080808,
     0x080808082b08082b, 0x080808082b081919, 0x080808082b082b08, 0x080808082b190819,
     0x080808082b191908, 0x080808082b192b19, 0x080808082b2b0808, 0x0808081908080819,
     0x0808081908081908, 0x080808190808192b, 0x0808081908082b19, 0x0808081908190808,
     0x080808190819082b, 0x0808081908191919, 0x0808081908192b08, 0x0808081908192b2b,
     0x08080819082b0819, 0x08080819082b1908, 0x0808081919080808, 0x080808191908082b,
     0x0808081919081919, 0x0808081919082b08, 0x0808081919190819, 0x0808081919191908,
     0x08080819192b0808, 0x08080819192b2b08, 0x080808192b080819, 0x080808192b081908,
     0x080808192b190808, 0x0808082b08080808, 0x0808082b0808082b, 0x0808082b08081919,
     0x0808082b08082b08, 0x0808082b08190819, 0x0808082b08191908, 0x0808082b082b0808,
     0x0808082b19080819, 0x0808082b19081908, 0x0808082b19190808, 0x0808082b19191919,
     0x0808082b2b080808, 0x0808082b2b082b2b, 0x0808190808080819, 0x0808190808081908,
     0x080819080808192b, 0x0808190808082b19, 0x0808190808190808, 0x080819080819082b,
     0x0808190808191919, 0x0808190808192b08, 0x08081908082b0819, 0x08081908082b1908,
     0x0808190819080808, 0x080819081908082b, 0x0808190819081919, 0x0808190819082b08,
     0x0808190819190819, 0x0808190819191908, 0x080819081919192b, 0x08081908192b0808,
     0x080819082b080819, 0x080819082b081908, 0x080819082b190808, 0x0808191908080808,
     0x080819190808082b, 0x0808191908081919, 0x0808191908082b08, 0x0808191908190819,
     0x0808191908191908, 0x08081919082b0808, 0x0808191919080819, 0x0808191919081908,
     0x0808191919190808, 0x08081919192b0819, 0x080819192b080808, 0x0808192b08080819,
     0x0808192b08081908, 0x0808192b08190808, 0x0808192b082b192b, 0x0808192b19080808,
     0x0808192b1908082b, 0x0808192b2b081908, 0x08082b0808080808, 0x08082b080808082b,
     0x08082b0808081919, 0x08082b0808082b08, 0x08082b0808082b2b, 0x08082b0808190819,
     0x08082b0808191908, 0x08082b08082b0808, 0x08082b08082b1919, 0x08082b0819080819,
     0x08082b0819081908, 0x08082b0819190808, 0x08082b0819192b08, 0x08082b082b080808,
     0x08082b082b2b0808, 0x08082b082b2b2b2b, 0x08082b1908080819, 0x08082b1908081908,
     0x08082b1908190808, 0x08082b1919080808, 0x08082b192b080819, 0x08082b192b082b19,
     0x08082b2b08080808, 0x08082b2b082b0808, 0x08082b2b082b2b08, 0x08082b2b2b19192b,
     0x08082b2b2b2b0808, 0x0819080808080819, 0x0819080808081908, 0x081908080808192b,
     0x0819080808082b19, 0x0819080808190808, 0x081908080819082b, 0x0819080808191919,
     0x0819080808192b08, 0x08190808082b0819, 0x08190808082b1908, 0x0819080819080808,
     0x081908081908082b, 0x0819080819081919, 0x0819080819082b08, 0x0819080819190819,
     0x0819080819191908, 0x08190808192b0808, 0x08190808192b2b2b, 0x081908082b080819,
     0x081908082b081908, 0x081908082b190808, 0x0819081908080808, 0x081908190808082b,
     0x0819081908081919, 0x0819081908082b08, 0x0819081908190819, 0x0819081908191908,
     0x08190819082b0808, 0x0819081919080819, 0x0819081919081908, 0x0819081919190808,
     0x081908192b080808, 0x081908192b191908, 0x081908192b19192b, 0x0819082b08080819,
     0x0819082b08081908, 0x0819082b0808192b, 0x0819082b08190808, 0x0819082b19080808,
     0x0819082b192b0808, 0x0819190808080808, 0x081919080808082b, 0x0819190808081919,
     0x0819190808082b08, 0x0819190808190819, 0x0819190808191908, 0x08191908082b0808,
     0x0819190819080819, 0x0819190819081908, 0x0819190819082b19, 0x0819190819190808,
     0x08191908192b1908, 0x081919082b080808, 0x0819191908080819, 0x0819191908081908,
     0x0819191908190808, 0x0819191919080808, 0x0819192b08080808, 0x0819192b08191908,
     0x0819192b19082b19, 0x08192b0808080819, 0x08192b0808081908, 0x08192b0808190808,
     0x08192b080819082b, 0x08192b0819080808, 0x08192b0819191908, 0x08192b082b08192b,
     0x08192b1908080808, 0x08192b1908081919, 0x08192b19192b192b, 0x08192b2b19190819,
     0x08192b2b2b2b2b19, 0x082b080808080808, 0x082b08080808082b, 0x082b080808081919,
     0x082b080808082b08, 0x082b080808082b2b, 0x082b080808190819, 0x082b080808191908,
     0x082b0808082b0808, 0x082b080819080819, 0x082b080819081908, 0x082b080819190808,
     0x082b08082b080808, 0x082b08082b2b0808, 0x082b081908080819, 0x082b081908081908,
     0x082b081908190808, 0x082b081919080808, 0x082b081919082b08, 0x082b0819192b1919,
     0x082b082b08080808, 0x082b082b082b082b, 0x082b082b2b080808, 0x082b082b2b2b2b08,
     0x082b190808080819, 0x082b190808081908, 0x082b190808190808, 0x082b1908082b2b19,
     0x082b190819080808, 0x082b191908080808, 0x082b191919080819, 0x082b19191919082b,
     0x082b19192b192b19, 0x082b192b08080819, 0x082b192b08192b2b, 0x082b192b2b2b192b,
     0x082b2b0808080808, 0x082b2b0808082b08, 0x082b2b0808082b2b, 0x082b2b08082b0808,
     0x082b2b0819191919, 0x082b2b082b082b08, 0x082b2b082b2b082b, 0x082b2b19192b2b08,
     0x082b2b192b190808, 0x082b2b2b08082b08, 0x082b2b2b082b0808, 0x082b2b2b2b08082b,
     0x082b2b2b2b082b08, 0x082b2b2b2b082b2b, 0x1908080808080819, 0x1908080808081908,
     0x190808080808192b, 0x1908080808082b19, 0x1908080808190808, 0x190808080819082b,
     0x1908080808191919, 0x1908080808192b08, 0x19080808082b0819, 0x19080808082b1908,
     0x1908080819080808, 0x190808081908082b, 0x1908080819081919, 0x1908080819082b08,
     0x1908080819082b2b, 0x1908080819190819, 0x1908080819191908, 0x19080808192b0808,
     0x19080808192b1919, 0x190808082b080819, 0x190808082b081908, 0x190808082b190808,
     0x1908081908080808, 0x190808190808082b, 0x1908081908081919, 0x1908081908082b08,
     0x1908081908190819, 0x1908081908191908, 0x19080819082b0808, 0x1908081919080819,
     0x1908081919081908, 0x1908081919190808, 0x190808192b080808, 0x190808192b081919,
     0x190808192b2b082b, 0x1908082b08080819, 0x1908082b08081908, 0x1908082b08190808,
     0x1908082b0819082b, 0x1908082b082b2b19, 0x1908082b19080808, 0x1908190808080808,
     0x190819080808082b, 0x1908190808081919, 0x1908190808082b08, 0x1908190808190819,
     0x1908190808191908, 0x1908190808192b19, 0x19081908082b0808, 0x1908190819080819,
     0x1908190819081908, 0x1908190819190808, 0x190819082b080808, 0x190819082b191908,
     0x1908191908080819, 0x1908191908081908, 0x1908191908190808, 0x19081919082b1908,
     0x1908191919080808, 0x190819192b192b2b, 0x1908192b08080808, 0x1908192b08082b2b,
     0x1908192b19081908, 0x1908192b19190808, 0x19082b0808080819, 0x19082b0808081908,
     0x19082b0808190808, 0x19082b0819080808, 0x19082b0819081919, 0x19082b0819191908,
     0x19082b08192b082b, 0x19082b1908080808, 0x19082b1908190819, 0x19082b1919081908,
     0x19082b1919190808, 0x19082b19192b2b19, 0x19082b2b08081908, 0x1919080808080808,
     0x191908080808082b, 0x1919080808081919, 0x1919080808082b08, 0x1919080808190819,
     0x1919080808191908, 0x19190808082b0808, 0x19190808082b2b08, 0x1919080819080819,
     0x1919080819081908, 0x1919080819190808, 0x191908082b080808, 0x1919081908080819,
     0x1919081908081908, 0x1919081908190808, 0x1919081908191919, 0x1919081919080808,
     0x191908191908082b, 0x1919082b08080808, 0x1919082b19081908, 0x1919082b2b2b2b2b,
     0x1919190808080819, 0x1919190808081908, 0x1919190808190808, 0x19191908082b0819,
     0x1919190819080808, 0x19191908192b0808, 0x191919082b080819, 0x191919082b2b0819,
     0x1919191908080808, 0x1919191908082b08, 0x191919192b080808, 0x191919192b082b08,
     0x1919192b082b0819, 0x1919192b192b2b08, 0x1919192b2b2b0819, 0x19192b0808080808,
     0x19192b0808191908, 0x19192b0819080819, 0x19192b0819190808, 0x19192b082b192b19,
     0x19192b1908192b2b, 0x19192b1919080808, 0x19192b191908082b, 0x19192b2b2b081919,
     0x192b080808080819, 0x192b080808081908, 0x192b080808190808, 0x192b080819080808,
     0x192b080819191908, 0x192b0808192b082b, 0x192b08082b08192b, 0x192b08082b2b2b19,
     0x192b081908080808, 0x192b082b082b1908, 0x192b082b19082b2b, 0x192b082b2b19082b,
     0x192b190808080808, 0x192b19080819192b, 0x192b191908190808, 0x192b191919080808,
     0x192b191919081919, 0x192b19192b2b1908, 0x192b2b0808080819, 0x192b2b08192b2b2b,
     0x192b2b19082b1919, 0x192b2b2b0808192b, 0x192b2b2b19191908, 0x192b2b2b192b082b,
     0x2b08080808080808, 0x2b0808080808082b, 0x2b08080808081919, 0x2b08080808082b08,
     0x2b08080808190819, 0x2b08080808191908, 0x2b080808082b0808, 0x2b080808082b2b2b,
     0x2b08080819080819, 0x2b08080819081908, 0x2b08080819190808, 0x2b0808082b080808,
     0x2b0808082b08082b, 0x2b0808082b2b2b08, 0x2b0808082b2b2b2b, 0x2b08081908080819,
     0x2b08081908081908, 0x2b0808190808192b, 0x2b08081908190808, 0x2b08081919080808,
     0x2b08081919190819, 0x2b08081919192b19, 0x2b08082b08080808, 0x2b08082b082b0808,
     0x2b08082b2b080808, 0x2b08082b2b08082b, 0x2b08082b2b2b0808, 0x2b08082b2b2b2b08,
     0x2b08190808080819, 0x2b08190808081908, 0x2b08190808190808, 0x2b0819080819082b,
     0x2b08190808191919, 0x2b08190819080808, 0x2b081908192b0808, 0x2b0819082b082b19,
     0x2b08191908080808, 0x2b08191919081908, 0x2b0819192b2b1919, 0x2b08192b08192b08,
     0x2b08192b192b2b2b, 0x2b082b0808080808, 0x2b082b0808082b08, 0x2b082b08082b1919,
     0x2b082b0819192b2b, 0x2b082b082b080808, 0x2b082b082b08082b, 0x2b082b082b2b2b08,
     0x2b082b190808192b, 0x2b082b2b082b082b, 0x2b082b2b2b080808, 0x2b082b2b2b082b08,
     0x2b082b2b2b19192b, 0x2b082b2b2b2b2b08, 0x2b19080808080819, 0x2b19080808081908,
     0x2b19080808190808, 0x2b19080819080808, 0x2b1908081919192b, 0x2b1908082b081908,
     0x2b19081908080808, 0x2b190819082b082b, 0x2b190819192b1908, 0x2b19082b1919192b,
     0x2b19082b2b082b19, 0x2b19190808080808, 0x2b19190808081919, 0x2b19190819081908,
     0x2b19190819190808, 0x2b19190819192b08, 0x2b191919082b2b19, 0x2b1919192b190808,
     0x2b1919192b19082b, 0x2b19192b19080819, 0x2b192b0819190819, 0x2b192b082b2b192b,
     0x2b192b1919082b19, 0x2b192b2b08191919, 0x2b192b2b192b0808, 0x2b2b080808080808,
     0x2b2b08080808082b, 0x2b2b080808082b08, 0x2b2b080808082b2b, 0x2b2b0808082b0808,
     0x2b2b0808082b2b2b, 0x2b2b08082b2b0808, 0x2b2b081919190819, 0x2b2b081919192b19,
     0x2b2b08192b2b192b, 0x2b2b082b08080808, 0x2b2b082b0808082b, 0x2b2b082b08082b08,
     0x2b2b082b082b2b2b, 0x2b2b082b2b080808, 0x2b2b082b2b2b0808, 0x2b2b190819080808,
     0x2b2b19082b191919, 0x2b2b192b192b1919, 0x2b2b192b2b192b08, 0x2b2b2b0808082b2b,
     0x2b2b2b08082b0808, 0x2b2b2b08082b082b, 0x2b2b2b08082b2b08, 0x2b2b2b082b2b0808,
     0x2b2b2b082b2b2b08, 0x2b2b2b1908081908, 0x2b2b2b192b081908, 0x2b2b2b192b08192b,
     0x2b2b2b2b082b2b08, 0x2b2b2b2b082b2b2b, 0x2b2b2b2b2b190819, 0x2b2b2b2b2b2b2b2b]"

text \<open>\<^verbatim>\<open>struct.unpack_from("<H", block, off)[0]\<close> and one signed byte.\<close>

definition u16_at :: "nat list \<Rightarrow> nat \<Rightarrow> nat" where
  "u16_at block off = nat (le_value (take 2 (drop off block)))"

definition signed_byte :: "nat \<Rightarrow> int" where
  "signed_byte b = signed_value [b]"

definition fp16_bits_to_fp32 :: "'f float_ops \<Rightarrow> nat \<Rightarrow> 'f" where
  "fp16_bits_to_fp32 F bits = fl_half16 F (bits AND 0xFFFF)"

definition dequantize_q8_0_block :: "'f float_ops \<Rightarrow> nat list \<Rightarrow> 'f list res" where
  "dequantize_q8_0_block F block =
     (if length block \<noteq> Q8_0_BLOCK_BYTES then Inl (ValueError ''Q8_0 block'')
      else let d = fp16_bits_to_fp32 F (u16_at block 0);
               quants = map signed_byte (drop 2 block)
           in Inr (map (\<lambda>q. fl_round32 F (fl_mul F d (fl_num F (of_int q)))) quants))"

definition get_scale_min_k4 :: "nat list \<Rightarrow> nat \<Rightarrow> nat \<times> nat" where
  "get_scale_min_k4 scales index =
     (if index < 4 then (scales ! index AND 63, scales ! (index + 4) AND 63)
      else ((scales ! (index + 4) AND 0xF) OR push_bit 4 (drop_bit 6 (scales ! (index - 4))),
            drop_bit 4 (scales ! (index + 4)) OR push_bit 4 (drop_bit 6 (scales ! index))))"

text \<open>The two assignments in the inner loops of \<^verbatim>\<open>Q4_K\<close> and \<^verbatim>\<open>Q5_K\<close>.\<close>

definition scaled_min :: "'f float_ops \<Rightarrow> 'f \<Rightarrow> 'f \<Rightarrow> nat \<Rightarrow> 'f" where
  "scaled_min F d m q = fl_round32 F (fl_sub F (fl_round32 F (fl_mul F d (fl_num F (of_nat q)))) m)"

definition scaled :: "'f float_ops \<Rightarrow> 'f \<Rightarrow> nat \<Rightarrow> 'f" where
  "scaled F d sc = fl_round32 F (fl_mul F d (fl_num F (of_nat sc)))"

definition q4_K_chunk :: "'f float_ops \<Rightarrow> nat list \<Rightarrow> nat \<Rightarrow> 'f list \<Rightarrow> 'f list" where
  "q4_K_chunk F block chunk out =
     (let d = fp16_bits_to_fp32 F (u16_at block 0);
          dmin = fp16_bits_to_fp32 F (u16_at block 2);
          scales = take 12 (drop 4 block);
          qs = drop 16 block;
          (sc0, m0) = get_scale_min_k4 scales (2 * chunk);
          (sc1, m1) = get_scale_min_k4 scales (2 * chunk + 1);
          d0 = scaled F d sc0; d1 = scaled F d sc1;
          min0 = scaled F dmin m0; min1 = scaled F dmin m1;
          q = take 32 (drop (32 * chunk) qs);
          base = 64 * chunk
      in fold (\<lambda>(index, v) out.
           (out[base + index := scaled_min F d0 min0 (v AND 0xF)])
             [base + 32 + index := scaled_min F d1 min1 (drop_bit 4 v)])
           (enumerate 0 q) out)"

definition dequantize_q4_K_block :: "'f float_ops \<Rightarrow> nat list \<Rightarrow> 'f list res" where
  "dequantize_q4_K_block F block =
     (if length block \<noteq> Q4_K_BLOCK_BYTES then Inl (ValueError ''Q4_K block'')
      else Inr (fold (q4_K_chunk F block) [0..<4] (replicate Q4_K_BLOCK_ELEMENTS (fl_num F 0))))"

definition q5_K_chunk :: "'f float_ops \<Rightarrow> nat list \<Rightarrow> nat \<Rightarrow> 'f list \<Rightarrow> 'f list" where
  "q5_K_chunk F block chunk out =
     (let d = fp16_bits_to_fp32 F (u16_at block 0);
          dmin = fp16_bits_to_fp32 F (u16_at block 2);
          scales = take 12 (drop 4 block);
          qh = take 32 (drop 16 block);
          ql = drop 48 block;
          (sc0, m0) = get_scale_min_k4 scales (2 * chunk);
          (sc1, m1) = get_scale_min_k4 scales (2 * chunk + 1);
          d0 = scaled F d sc0; d1 = scaled F d sc1;
          min0 = scaled F dmin m0; min1 = scaled F dmin m1;
          low_bit = push_bit (2 * chunk) 1;
          high_bit = push_bit (2 * chunk) 2;
          q = take 32 (drop (32 * chunk) ql);
          base = 64 * chunk
      in fold (\<lambda>(index, v) out.
           let q0 = (v AND 0xF) + (if qh ! index AND low_bit \<noteq> 0 then 16 else 0);
               q1 = drop_bit 4 v + (if qh ! index AND high_bit \<noteq> 0 then 16 else 0)
           in (out[base + index := scaled_min F d0 min0 q0])[base + 32 + index := scaled_min F d1 min1 q1])
           (enumerate 0 q) out)"

definition dequantize_q5_K_block :: "'f float_ops \<Rightarrow> nat list \<Rightarrow> 'f list res" where
  "dequantize_q5_K_block F block =
     (if length block \<noteq> Q5_K_BLOCK_BYTES then Inl (ValueError ''Q5_K block'')
      else Inr (fold (q5_K_chunk F block) [0..<4] (replicate Q5_K_BLOCK_ELEMENTS (fl_num F 0))))"

definition q6_value :: "'f float_ops \<Rightarrow> 'f \<Rightarrow> int \<Rightarrow> int \<Rightarrow> 'f" where
  "q6_value F d sc q = fl_round32 F (fl_mul F (fl_mul F d (fl_num F (of_int sc))) (fl_num F (of_int q)))"

definition q6_K_half :: "'f float_ops \<Rightarrow> nat list \<Rightarrow> nat \<Rightarrow> 'f list \<Rightarrow> 'f list" where
  "q6_K_half F block half out =
     (let ql = take 128 block;
          qh = take 64 (drop 128 block);
          scales = map signed_byte (take 16 (drop 192 block));
          d = fp16_bits_to_fp32 F (u16_at block 208);
          ql_half = take 64 (drop (64 * half) ql);
          qh_half = take 32 (drop (32 * half) qh);
          sc = take 8 (drop (8 * half) scales);
          base = 128 * half
      in fold (\<lambda>index out.
           let scale_index = index div 16;
               q1 = int ((ql_half ! index AND 0xF) OR push_bit 4 (qh_half ! index AND 3)) - 32;
               q2 = int ((ql_half ! (index + 32) AND 0xF) OR push_bit 4 (drop_bit 2 (qh_half ! index) AND 3)) - 32;
               q3 = int (drop_bit 4 (ql_half ! index) OR push_bit 4 (drop_bit 4 (qh_half ! index) AND 3)) - 32;
               q4 = int (drop_bit 4 (ql_half ! (index + 32)) OR push_bit 4 (drop_bit 6 (qh_half ! index) AND 3)) - 32
           in (((out[base + index := q6_value F d (sc ! (scale_index + 0)) q1])
                 [base + 32 + index := q6_value F d (sc ! (scale_index + 2)) q2])
                 [base + 64 + index := q6_value F d (sc ! (scale_index + 4)) q3])
                 [base + 96 + index := q6_value F d (sc ! (scale_index + 6)) q4])
           [0..<32] out)"

definition dequantize_q6_K_block :: "'f float_ops \<Rightarrow> nat list \<Rightarrow> 'f list res" where
  "dequantize_q6_K_block F block =
     (if length block \<noteq> Q6_K_BLOCK_BYTES then Inl (ValueError ''Q6_K block'')
      else Inr (fold (q6_K_half F block) [0..<2] (replicate Q6_K_BLOCK_ELEMENTS (fl_num F 0))))"

definition iq2_delta :: "'f float_ops \<Rightarrow> 'f \<Rightarrow> nat \<Rightarrow> 'f" where
  "iq2_delta F d nibble =
     fl_round32 F (fl_mul F (fl_round32 F (fl_mul F d (fl_round32 F
       (fl_add F (fl_num F (1 / 2)) (fl_num F (of_nat nibble)))))) (fl_num F (1 / 4)))"

definition iq2_xs_group :: "'f float_ops \<Rightarrow> nat list \<Rightarrow> nat \<Rightarrow> nat \<Rightarrow> 'f list \<Rightarrow> 'f list" where
  "iq2_xs_group F block ib32 grp out =
     (let d = fp16_bits_to_fp32 F (u16_at block 0);
          scale_byte = take 8 (drop 66 block) ! ib32;
          db0 = iq2_delta F d (scale_byte AND 0xF);
          db1 = iq2_delta F d (drop_bit 4 scale_byte);
          code = u16_at (take 64 (drop 2 block)) (2 * (4 * ib32 + grp));
          grid = IQ2XS_GRID ! (code AND 511);
          signs = KSIGNS_IQ2XS ! drop_bit 9 code;
          delta = (if grp < 2 then db0 else db1);
          base = 32 * ib32 + 8 * grp
      in fold (\<lambda>j out.
           let m = fl_num F (of_nat (drop_bit (8 * j) grid AND 0xFF));
               magnitude = (if signs AND KMASK_IQ2XS ! j \<noteq> 0 then fl_neg F m else m)
           in out[base + j := fl_round32 F (fl_mul F delta magnitude)])
           [0..<8] out)"

definition dequantize_iq2_xs_block :: "'f float_ops \<Rightarrow> nat list \<Rightarrow> 'f list res" where
  "dequantize_iq2_xs_block F block =
     (if length block \<noteq> IQ2_XS_BLOCK_BYTES then Inl (ValueError ''IQ2_XS block'')
      else Inr (fold (\<lambda>ib32. fold (iq2_xs_group F block ib32) [0..<4]) [0..<8]
             (replicate IQ2_XS_BLOCK_ELEMENTS (fl_num F 0))))"

text \<open>Rows: the blocks of \<^verbatim>\<open>range(0, len(data), block_bytes)\<close> one after the other.\<close>

definition row_blocks :: "nat \<Rightarrow> nat list \<Rightarrow> nat list list" where
  "row_blocks bb data = map (\<lambda>i. take bb (drop (i * bb) data)) [0..<(length data + bb - 1) div bb]"

definition dequantize_row :: "nat list \<Rightarrow> nat \<Rightarrow> (nat list \<Rightarrow> 'f list res) \<Rightarrow> 'f list res" where
  "dequantize_row data block_bytes block_fn =
     (if length data mod block_bytes \<noteq> 0 then Inl (ValueError ''row length'')
      else bind_res (map_res block_fn (row_blocks block_bytes data)) (\<lambda>bs. Inr (concat bs)))"

definition dequantize_q8_0_row :: "'f float_ops \<Rightarrow> nat list \<Rightarrow> 'f list res" where
  "dequantize_q8_0_row F data =
     (if length data mod Q8_0_BLOCK_BYTES \<noteq> 0 then Inl (ValueError ''Q8_0 row length'')
      else bind_res (map_res (dequantize_q8_0_block F) (row_blocks Q8_0_BLOCK_BYTES data)) (\<lambda>bs. Inr (concat bs)))"

definition dequantize_q4_K_row :: "'f float_ops \<Rightarrow> nat list \<Rightarrow> 'f list res" where
  "dequantize_q4_K_row F data = dequantize_row data Q4_K_BLOCK_BYTES (dequantize_q4_K_block F)"

definition dequantize_q5_K_row :: "'f float_ops \<Rightarrow> nat list \<Rightarrow> 'f list res" where
  "dequantize_q5_K_row F data = dequantize_row data Q5_K_BLOCK_BYTES (dequantize_q5_K_block F)"

definition dequantize_q6_K_row :: "'f float_ops \<Rightarrow> nat list \<Rightarrow> 'f list res" where
  "dequantize_q6_K_row F data = dequantize_row data Q6_K_BLOCK_BYTES (dequantize_q6_K_block F)"

definition dequantize_iq2_xs_row :: "'f float_ops \<Rightarrow> nat list \<Rightarrow> 'f list res" where
  "dequantize_iq2_xs_row F data =
     (if length data mod IQ2_XS_BLOCK_BYTES \<noteq> 0 then Inl (ValueError ''IQ2_XS row length'')
      else bind_res (map_res (dequantize_iq2_xs_block F) (row_blocks IQ2_XS_BLOCK_BYTES data)) (\<lambda>bs. Inr (concat bs)))"

section \<open>Loops that fill a list\<close>

text \<open>\<open>fills g S f\<close>: \<open>f\<close> writes \<open>g p\<close> at the positions \<open>p\<close> in \<open>S\<close> and nothing else.\<close>

definition fills :: "(nat \<Rightarrow> 'a) \<Rightarrow> nat set \<Rightarrow> ('a list \<Rightarrow> 'a list) \<Rightarrow> bool" where
  "fills g S f \<longleftrightarrow> (\<forall>out. length (f out) = length out \<and>
     (\<forall>p < length out. f out ! p = (if p \<in> S then g p else out ! p)))"

lemma fills_update: "v = g p \<Longrightarrow> fills g {p} (\<lambda>out. out[p := v])"
  by (auto simp: fills_def nth_list_update)

lemma nth_update_split: "j < length xs \<Longrightarrow> xs[i := x] ! j = (if i = j then x else xs ! j)"
  by (auto simp: nth_list_update)

lemma fills_then_update: "v = g p \<Longrightarrow> fills g S f \<Longrightarrow> fills g (insert p S) (\<lambda>out. (f out)[p := v])"
  by (auto simp: fills_def nth_update_split)

lemma fills_fold:
  "(\<And>x. x \<in> set xs \<Longrightarrow> fills g (S x) (f x)) \<Longrightarrow> fills g (\<Union>x \<in> set xs. S x) (fold f xs)"
proof (induction xs)
  case (Cons x xs)
  then have "fills g (S x) (f x)" "fills g (\<Union>x \<in> set xs. S x) (fold f xs)" by simp_all
  then show ?case by (auto simp: fills_def)
qed (simp add: fills_def)

lemma fills_all: "fills g S f \<Longrightarrow> {..<n} \<subseteq> S \<Longrightarrow> f (replicate n z) = map g [0..<n]"
  by (auto simp: fills_def list_eq_iff_nth_eq)

lemma enumerate_member: "(i, v) \<in> set (enumerate 0 xs) \<longleftrightarrow> i < length xs \<and> v = xs ! i"
  by (auto simp: in_set_enumerate_eq)

section \<open>Bit fields\<close>

lemma and_low_bits:
  "x AND 15 = x mod 16" "x AND 63 = x mod 64" "x AND 3 = x mod 4" "x AND 65535 = x mod 65536"
  "x AND 511 = x mod 512" "x AND 255 = x mod 256" for x :: nat
  using take_bit_eq_mask [of 4 x] take_bit_eq_mask [of 6 x] take_bit_eq_mask [of 2 x]
    take_bit_eq_mask [of 16 x] take_bit_eq_mask [of 9 x] take_bit_eq_mask [of 8 x]
  by (simp_all add: take_bit_eq_mod mask_eq_exp_minus_1)

lemma or_shifted: "x < 2 ^ n \<Longrightarrow> x OR push_bit n y = x + 2 ^ n * y" for x :: nat
proof -
  assume "x < 2 ^ n"
  then have "take_bit n x = x" by (simp add: take_bit_nat_eq_self_iff)
  then have "\<not> bit x k \<or> \<not> bit (push_bit n y) k" for k
    by (metis bit_push_bit_iff bit_take_bit_iff not_le)
  then show ?thesis using disjunctive_add [of x "push_bit n y"] by (simp add: push_bit_eq_mult mult.commute)
qed

lemma or_nibble: "x < 16 \<Longrightarrow> x OR push_bit 4 y = x + 16 * y" for x :: nat
  using or_shifted [of x 4 y] by simp

lemma drop_bits: "drop_bit 4 x = x div 16" "drop_bit 6 x = x div 64" "drop_bit 2 x = x div 4"
    "drop_bit 9 x = x div 512" for x :: nat
  by (simp_all add: drop_bit_eq_div)

lemmas bit_fields = and_low_bits or_nibble drop_bits

lemma u16_at_append: "u16_at (le_bytes 2 (int n) @ rest) 0 = n mod 65536"
  "length pre = k \<Longrightarrow> u16_at (pre @ le_bytes 2 (int n) @ rest) k = n mod 65536"
  using le_value_le_bytes [of 2 "int n"] by (simp_all add: u16_at_def nat_mod_distrib)

section \<open>Packing\<close>

text \<open>
  The block formats, from the side of the quantizer: \<open>d\<close> and \<open>dmin\<close> are the bits of the two scales,
  \<open>sc\<close> and \<open>m\<close> the 6-bit scales and minima of the eight groups of 32 elements, \<open>q\<close> the quants.
\<close>

definition pack_scales :: "(nat \<Rightarrow> nat) \<Rightarrow> (nat \<Rightarrow> nat) \<Rightarrow> nat list" where
  "pack_scales sc m =
     map (\<lambda>j. sc j + 64 * (sc (j + 4) div 16)) [0..<4] @
     map (\<lambda>j. m j + 64 * (m (j + 4) div 16)) [0..<4] @
     map (\<lambda>j. sc (j + 4) mod 16 + 16 * (m (j + 4) mod 16)) [0..<4]"

definition pack_nibbles :: "(nat \<Rightarrow> nat) \<Rightarrow> nat list" where
  "pack_nibbles q = map (\<lambda>k. q (64 * (k div 32) + k mod 32) mod 16 + 16 * (q (64 * (k div 32) + 32 + k mod 32) mod 16))
     [0..<128]"

definition pack_q4_K :: "nat \<Rightarrow> nat \<Rightarrow> (nat \<Rightarrow> nat) \<Rightarrow> (nat \<Rightarrow> nat) \<Rightarrow> (nat \<Rightarrow> nat) \<Rightarrow> nat list" where
  "pack_q4_K d dmin sc m q =
     le_bytes 2 (int d) @ le_bytes 2 (int dmin) @ pack_scales sc m @ pack_nibbles q"

text \<open>The fifth bits: bit \<open>k\<close> of byte \<open>i\<close> belongs to element \<open>32 k + i\<close>.\<close>

definition pack_fifth_bits :: "(nat \<Rightarrow> nat) \<Rightarrow> nat list" where
  "pack_fifth_bits q = map (\<lambda>i. horner_sum of_bool 2 (map (\<lambda>k. 16 \<le> q (32 * k + i)) [0..<8])) [0..<32]"

definition pack_q5_K :: "nat \<Rightarrow> nat \<Rightarrow> (nat \<Rightarrow> nat) \<Rightarrow> (nat \<Rightarrow> nat) \<Rightarrow> (nat \<Rightarrow> nat) \<Rightarrow> nat list" where
  "pack_q5_K d dmin sc m q =
     le_bytes 2 (int d) @ le_bytes 2 (int dmin) @ pack_scales sc m @ pack_fifth_bits q @ pack_nibbles q"

lemma pack_lengths [simp]:
  "length (pack_scales sc m) = 12" "length (pack_nibbles q) = 128" "length (pack_fifth_bits q) = 32"
  by (simp_all add: pack_scales_def pack_nibbles_def pack_fifth_bits_def)

lemma less_8_cases: "j < 8 \<longleftrightarrow> j \<in> {0, 1, 2, 3, 4, 5, 6, 7 :: nat}"
  by auto

lemma scales_unpacked:
  assumes "j < 8" and "\<forall>i < 8. sc i < 64 \<and> m i < 64"
  shows "get_scale_min_k4 (pack_scales sc m) j = (sc j, m j)"
proof -
  have r: "pack_scales sc m =
     [sc 0 + 64 * (sc 4 div 16), sc 1 + 64 * (sc 5 div 16), sc 2 + 64 * (sc 6 div 16), sc 3 + 64 * (sc 7 div 16),
      m 0 + 64 * (m 4 div 16), m 1 + 64 * (m 5 div 16), m 2 + 64 * (m 6 div 16), m 3 + 64 * (m 7 div 16),
      sc 4 mod 16 + 16 * (m 4 mod 16), sc 5 mod 16 + 16 * (m 5 mod 16),
      sc 6 mod 16 + 16 * (m 6 mod 16), sc 7 mod 16 + 16 * (m 7 mod 16)]"
    by (simp add: pack_scales_def upt_rec numeral_2_eq_2 numeral_3_eq_3)
  have six: "sc i < 64" "m i < 64" "sc i div 16 < 4" "m i div 16 < 4" if "i < 8" for i
    using assms(2) that by (auto simp: less_mult_imp_div_less)
  have low: "(a + 64 * b) mod 64 = a" "(a + 64 * b) div 64 = b" if "a < 64" for a b :: nat
    using that by simp_all
  have split: "x mod 16 + 16 * (x div 16) = x" for x :: nat by simp
  show ?thesis
    using assms(1) unfolding less_8_cases get_scale_min_k4_def r
    by (elim insertE emptyE) (simp_all add: bit_fields six low split)
qed

lemma fills_id: "fills g {} (\<lambda>out. out)"
  by (simp add: fills_def)

lemma nibble_byte:
  assumes "c < 4" and "i < 32"
  shows "pack_nibbles q ! (32 * c + i) = q (64 * c + i) mod 16 + 16 * (q (64 * c + 32 + i) mod 16)"
proof -
  have "32 * c + i < 128" using assms by simp
  moreover have "(32 * c + i) div 32 = c" "(32 * c + i) mod 32 = i" using assms(2) by simp_all
  ultimately show ?thesis by (simp add: pack_nibbles_def)
qed

lemma chunk_nibbles:
  assumes "c < 4"
  shows "length (take 32 (drop (32 * c) (pack_nibbles q))) = 32"
    and "i < 32 \<Longrightarrow> take 32 (drop (32 * c) (pack_nibbles q)) ! i =
      q (64 * c + i) mod 16 + 16 * (q (64 * c + 32 + i) mod 16)"
  using assms by (simp_all add: nibble_byte)

text \<open>The positions of one chunk.\<close>

lemma chunk_positions: "{..<256} \<subseteq> (\<Union>c \<in> set [0..<4]. \<Union>iv \<in> set (enumerate 0 (take 32 (drop (32 * c) (pack_nibbles q)))).
    insert (64 * c + 32 + fst iv) {64 * c + fst iv})"
proof
  fix p :: nat
  assume "p \<in> {..<256}"
  define c i where "c = p div 64" and "i = p mod 32"
  have c: "c < 4" using \<open>p \<in> _\<close> by (simp add: c_def less_mult_imp_div_less)
  have i: "i < 32" by (simp add: i_def)
  have e: "64 * c + p mod 64 = p" by (simp add: c_def)
  have "p mod 64 = 32 * (p div 32 mod 2) + i" using mod_mult2_eq [of p 32 2] by (simp add: i_def)
  moreover have "p div 32 mod 2 = 0 \<or> p div 32 mod 2 = 1" by linarith
  ultimately have "p mod 64 = i \<or> p mod 64 = 32 + i" by fastforce
  then have p: "p = 64 * c + i \<or> p = 64 * c + 32 + i" using e by (metis add.assoc)
  let ?q = "take 32 (drop (32 * c) (pack_nibbles q))"
  have m: "(i, ?q ! i) \<in> set (enumerate 0 ?q)"
    using i chunk_nibbles(1) [OF c] by (simp add: enumerate_member)
  have "p \<in> insert (64 * c + 32 + fst (i, ?q ! i)) {64 * c + fst (i, ?q ! i)}" using p by auto
  moreover have "c \<in> set [0..<4]" using c by simp
  ultimately show "p \<in> (\<Union>c \<in> set [0..<4]. \<Union>iv \<in> set (enumerate 0 (take 32 (drop (32 * c) (pack_nibbles q)))).
    insert (64 * c + 32 + fst iv) {64 * c + fst iv})"
    using m by blast
qed

definition k_value :: "'f float_ops \<Rightarrow> nat \<Rightarrow> nat \<Rightarrow> (nat \<Rightarrow> nat) \<Rightarrow> (nat \<Rightarrow> nat) \<Rightarrow> (nat \<Rightarrow> nat) \<Rightarrow> nat \<Rightarrow> 'f" where
  "k_value F d dmin sc m q p =
     scaled_min F (scaled F (fl_half16 F d) (sc (p div 32))) (scaled F (fl_half16 F dmin) (m (p div 32))) (q p)"

lemma group_of_position:
  assumes "i < 32"
  shows "(64 * c + i) div 32 = 2 * c" "(64 * c + 32 + i) div 32 = 2 * c + (1 :: nat)"
  using assms by simp_all

lemma header_fields:
  "u16_at (le_bytes 2 (int d) @ le_bytes 2 (int dmin) @ r) 0 = d mod 65536"
  "u16_at (le_bytes 2 (int d) @ le_bytes 2 (int dmin) @ r) 2 = dmin mod 65536"
  using u16_at_append(1) [of d] u16_at_append(2) [of "le_bytes 2 (int d)" 2 dmin] by simp_all

lemma q4_K_chunk_fills:
  assumes c: "c < 4" and s: "\<forall>i < 8. sc i < 64 \<and> m i < 64" and q: "\<forall>p < 256. q p < 16"
    and d: "d < 65536" "dmin < 65536"
  shows "fills (k_value F d dmin sc m q)
    (\<Union>iv \<in> set (enumerate 0 (take 32 (drop (32 * c) (pack_nibbles q)))).
       insert (64 * c + 32 + fst iv) {64 * c + fst iv})
    (q4_K_chunk F (pack_q4_K d dmin sc m q) c)"
proof -
  let ?b = "pack_q4_K d dmin sc m q"
  have f: "fp16_bits_to_fp32 F (u16_at ?b 0) = fl_half16 F d" "fp16_bits_to_fp32 F (u16_at ?b 2) = fl_half16 F dmin"
    "take 12 (drop 4 ?b) = pack_scales sc m" "drop 16 ?b = pack_nibbles q"
    using d by (simp_all add: pack_q4_K_def header_fields fp16_bits_to_fp32_def and_low_bits)
  have k: "get_scale_min_k4 (pack_scales sc m) (2 * c) = (sc (2 * c), m (2 * c))"
    "get_scale_min_k4 (pack_scales sc m) (2 * c + 1) = (sc (2 * c + 1), m (2 * c + 1))"
    using c s by (simp_all add: scales_unpacked)
  have v: "(q (64 * c + i) mod 16 + 16 * (q (64 * c + 32 + i) mod 16)) mod 16 = q (64 * c + i)"
    "(q (64 * c + i) mod 16 + 16 * (q (64 * c + 32 + i) mod 16)) div 16 = q (64 * c + 32 + i)" if "i < 32" for i
    using q c that by simp_all
  show ?thesis
    unfolding q4_K_chunk_def Let_def f k prod.case case_prod_beta
    by (intro fills_fold fills_then_update fills_update)
      (use chunk_nibbles [OF c] v in
        \<open>auto simp: enumerate_member k_value_def group_of_position bit_fields\<close>)
qed

text \<open>
  A \<^verbatim>\<open>Q4_K\<close> block packed from 6-bit scales and minima and 4-bit quants is dequantized to its 256
  elements in order, each from the scale and the minimum of its group of 32.
\<close>

lemma q4_K_roundtrip:
  assumes "\<forall>i < 8. sc i < 64 \<and> m i < 64" and "\<forall>p < 256. q p < 16" and "d < 65536" and "dmin < 65536"
  shows "dequantize_q4_K_block F (pack_q4_K d dmin sc m q) = Inr (map (k_value F d dmin sc m q) [0..<256])"
proof -
  have "length (pack_q4_K d dmin sc m q) = Q4_K_BLOCK_BYTES" by (simp add: pack_q4_K_def block_sizes)
  moreover have "fold (q4_K_chunk F (pack_q4_K d dmin sc m q)) [0..<4] (replicate 256 (fl_num F 0)) =
      map (k_value F d dmin sc m q) [0..<256]"
    by (rule fills_all [OF fills_fold chunk_positions])
      (use q4_K_chunk_fills [OF _ assms] in simp)
  ultimately show ?thesis by (simp add: dequantize_q4_K_block_def block_sizes)
qed

lemma q5_K_chunk_fills:
  assumes c: "c < 4" and s: "\<forall>i < 8. sc i < 64 \<and> m i < 64" and q: "\<forall>p < 256. q p < 32"
    and d: "d < 65536" "dmin < 65536"
  shows "fills (k_value F d dmin sc m q)
    (\<Union>iv \<in> set (enumerate 0 (take 32 (drop (32 * c) (pack_nibbles q)))).
       insert (64 * c + 32 + fst iv) {64 * c + fst iv})
    (q5_K_chunk F (pack_q5_K d dmin sc m q) c)"
proof -
  let ?b = "pack_q5_K d dmin sc m q"
  have f: "fp16_bits_to_fp32 F (u16_at ?b 0) = fl_half16 F d" "fp16_bits_to_fp32 F (u16_at ?b 2) = fl_half16 F dmin"
    "take 12 (drop 4 ?b) = pack_scales sc m" "take 32 (drop 16 ?b) = pack_fifth_bits q" "drop 48 ?b = pack_nibbles q"
    using d by (simp_all add: pack_q5_K_def header_fields fp16_bits_to_fp32_def and_low_bits)
  have k: "get_scale_min_k4 (pack_scales sc m) (2 * c) = (sc (2 * c), m (2 * c))"
    "get_scale_min_k4 (pack_scales sc m) (2 * c + 1) = (sc (2 * c + 1), m (2 * c + 1))"
    using c s by (simp_all add: scales_unpacked)
  have h: "(pack_fifth_bits q ! i AND push_bit (2 * c) 1 \<noteq> 0) = (16 \<le> q (64 * c + i))"
    "(pack_fifth_bits q ! i AND push_bit (2 * c) 2 \<noteq> 0) = (16 \<le> q (64 * c + 32 + i))" if "i < 32" for i
    using c that and_exp_eq_0_iff_not_bit [of "pack_fifth_bits q ! i" "2 * c"]
      and_exp_eq_0_iff_not_bit [of "pack_fifth_bits q ! i" "2 * c + 1"]
    by (simp_all add: pack_fifth_bits_def push_bit_eq_mult bit_horner_sum_bit_iff algebra_simps)
  have split: "x mod 16 + (if 16 \<le> x then 16 else 0) = x" if "x < 32" for x :: nat
    using that by (auto simp: mod_if)
  have q': "q (64 * c + i) < 32" "q (64 * c + 32 + i) < 32" if "i < 32" for i
    using q c that by simp_all
  have n: "(q (64 * c + i) mod 16 + 16 * (q (64 * c + 32 + i) mod 16)) mod 16 = q (64 * c + i) mod 16"
    "(q (64 * c + i) mod 16 + 16 * (q (64 * c + 32 + i) mod 16)) div 16 = q (64 * c + 32 + i) mod 16" for i
    by simp_all
  show ?thesis
    unfolding q5_K_chunk_def Let_def f k split_def fst_conv snd_conv
  proof (rule fills_fold)
    fix iv
    assume "iv \<in> set (enumerate 0 (take 32 (drop (32 * c) (pack_nibbles q))))"
    then have i: "fst iv < 32" "snd iv = q (64 * c + fst iv) mod 16 + 16 * (q (64 * c + 32 + fst iv) mod 16)"
      using chunk_nibbles [OF c] by (auto simp: enumerate_member prod_eq_iff dest: in_set_enumerate_eq [THEN iffD1])
    have low: "(snd iv AND 15) + (if pack_fifth_bits q ! fst iv AND push_bit (2 * c) 1 \<noteq> 0 then 16 else 0) =
        q (64 * c + fst iv)"
      unfolding h [OF i(1)] bit_fields i(2) n split [OF q'(1) [OF i(1)]] by (rule refl)
    have high: "drop_bit 4 (snd iv) + (if pack_fifth_bits q ! fst iv AND push_bit (2 * c) 2 \<noteq> 0 then 16 else 0) =
        q (64 * c + 32 + fst iv)"
      unfolding h [OF i(1)] bit_fields i(2) n split [OF q'(2) [OF i(1)]] by (rule refl)
    show "fills (k_value F d dmin sc m q) (insert (64 * c + 32 + fst iv) {64 * c + fst iv})
        (\<lambda>out. (out[64 * c + fst iv := scaled_min F (scaled F (fl_half16 F d) (sc (2 * c)))
             (scaled F (fl_half16 F dmin) (m (2 * c)))
             ((snd iv AND 15) + (if pack_fifth_bits q ! fst iv AND push_bit (2 * c) 1 \<noteq> 0 then 16 else 0))])
           [64 * c + 32 + fst iv := scaled_min F (scaled F (fl_half16 F d) (sc (2 * c + 1)))
             (scaled F (fl_half16 F dmin) (m (2 * c + 1)))
             (drop_bit 4 (snd iv) + (if pack_fifth_bits q ! fst iv AND push_bit (2 * c) 2 \<noteq> 0 then 16 else 0))])"
      unfolding low high
      by (intro fills_then_update fills_update) (simp_all add: k_value_def group_of_position i(1))
  qed
qed
text \<open>
  A \<^verbatim>\<open>Q5_K\<close> block packed from 6-bit scales and minima and 5-bit quants, their fifth bits apart,
  is dequantized to its 256 elements in order, each from the scale and the minimum of its group.
\<close>

lemma q5_K_roundtrip:
  assumes "\<forall>i < 8. sc i < 64 \<and> m i < 64" and "\<forall>p < 256. q p < 32" and "d < 65536" and "dmin < 65536"
  shows "dequantize_q5_K_block F (pack_q5_K d dmin sc m q) = Inr (map (k_value F d dmin sc m q) [0..<256])"
proof -
  have "length (pack_q5_K d dmin sc m q) = Q5_K_BLOCK_BYTES" by (simp add: pack_q5_K_def block_sizes)
  moreover have "fold (q5_K_chunk F (pack_q5_K d dmin sc m q)) [0..<4] (replicate 256 (fl_num F 0)) =
      map (k_value F d dmin sc m q) [0..<256]"
    by (rule fills_all [OF fills_fold chunk_positions])
      (use q5_K_chunk_fills [OF _ assms] in simp)
  ultimately show ?thesis by (simp add: dequantize_q5_K_block_def block_sizes)
qed

definition pack_q6_K :: "nat \<Rightarrow> (nat \<Rightarrow> int) \<Rightarrow> (nat \<Rightarrow> nat) \<Rightarrow> nat list" where
  "pack_q6_K d sc q =
     map (\<lambda>k. let p = 128 * (k div 64) + k mod 64 in q p mod 16 + 16 * (q (p + 64) mod 16)) [0..<128] @
     map (\<lambda>k. let p = 128 * (k div 32) + k mod 32
              in q p div 16 + 4 * (q (p + 32) div 16) + 16 * (q (p + 64) div 16) + 64 * (q (p + 96) div 16)) [0..<64] @
     map (\<lambda>g. nat (sc g mod 256)) [0..<16] @
     le_bytes 2 (int d)"

definition q6_element :: "'f float_ops \<Rightarrow> nat \<Rightarrow> (nat \<Rightarrow> int) \<Rightarrow> (nat \<Rightarrow> nat) \<Rightarrow> nat \<Rightarrow> 'f" where
  "q6_element F d sc q p = q6_value F (fl_half16 F d) (sc (p div 16)) (int (q p) - 32)"

lemma signed_byte_value: "- 128 \<le> n \<Longrightarrow> n < 128 \<Longrightarrow> signed_byte (nat (n mod 256)) = n"
  using signed_value_le_bytes [of 1 n] by (simp add: signed_byte_def)

lemma two_bits:
  fixes a b c d :: nat
  assumes "a < 4" "b < 4" "c < 4" "d < 4"
  shows "(a + 4 * b + 16 * c + 64 * d) mod 4 = a" "(a + 4 * b + 16 * c + 64 * d) div 4 mod 4 = b"
    "(a + 4 * b + 16 * c + 64 * d) div 16 mod 4 = c" "(a + 4 * b + 16 * c + 64 * d) div 64 mod 4 = d"
proof -
  have e: "a + 4 * b + 16 * c + 64 * d = a + 4 * (b + 4 * (c + 4 * d))" by simp
  have q: "(x + 4 * y) mod 4 = x" "(x + 4 * y) div 4 = y" if "x < 4" for x y :: nat
    using that by simp_all
  have "y div 16 = y div 4 div 4" "y div 64 = y div 4 div 4 div 4" for y :: nat
    by (simp_all add: div_mult2_eq [symmetric])
  then show "(a + 4 * b + 16 * c + 64 * d) mod 4 = a" "(a + 4 * b + 16 * c + 64 * d) div 4 mod 4 = b"
    "(a + 4 * b + 16 * c + 64 * d) div 16 mod 4 = c" "(a + 4 * b + 16 * c + 64 * d) div 64 mod 4 = d"
    unfolding e using assms by (simp_all only: q mod_less)
qed

lemma q6_K_half_fills:
  assumes h: "h < 2" and s: "\<forall>g < 16. - 128 \<le> sc g \<and> sc g < 128" and q: "\<forall>p < 256. q p < 64" and d: "d < 65536"
  shows "fills (q6_element F d sc q)
    (\<Union>i \<in> set [0..<32]. insert (128 * h + 96 + i) (insert (128 * h + 64 + i) (insert (128 * h + 32 + i) {128 * h + i})))
    (q6_K_half F (pack_q6_K d sc q) h)"
proof -
  let ?b = "pack_q6_K d sc q"
  have split: "?b = xs @ ys @ zs @ le_bytes 2 (int d) \<Longrightarrow> length xs = 128 \<Longrightarrow> length ys = 64 \<Longrightarrow> length zs = 16 \<Longrightarrow>
      take 128 ?b = xs \<and> take 64 (drop 128 ?b) = ys \<and> take 16 (drop 192 ?b) = zs \<and> u16_at ?b 208 = d mod 65536"
    for xs ys zs
    using u16_at_append(2) [of "xs @ ys @ zs" 208 d "[]"] by simp
  have d': "fp16_bits_to_fp32 F (u16_at ?b 208) = fl_half16 F d"
    using split [OF pack_q6_K_def] d by (simp add: fp16_bits_to_fp32_def and_low_bits)
  have ql: "take 64 (drop (64 * h) (take 128 ?b)) ! i = q (128 * h + i) mod 16 + 16 * (q (128 * h + 64 + i) mod 16)"
    if "i < 64" for i
  proof -
    have "(64 * h + i) div 64 = h" "(64 * h + i) mod 64 = i" "64 * h + i < 128" using that h by simp_all
    then show ?thesis using split [OF pack_q6_K_def] that h by (simp add: Let_def ac_simps)
  qed
  have qh: "take 32 (drop (32 * h) (take 64 (drop 128 ?b))) ! i = q (128 * h + i) div 16 +
      4 * (q (128 * h + 32 + i) div 16) + 16 * (q (128 * h + 64 + i) div 16) + 64 * (q (128 * h + 96 + i) div 16)"
    if "i < 32" for i
  proof -
    have "(32 * h + i) div 32 = h" "(32 * h + i) mod 32 = i" "32 * h + i < 64" using that h by simp_all
    then show ?thesis using split [OF pack_q6_K_def] that h by (simp add: Let_def ac_simps)
  qed
  have sc: "take 8 (drop (8 * h) (map signed_byte (take 16 (drop 192 ?b)))) ! g = sc (8 * h + g)" if "g < 8" for g
  proof -
    have "8 * h + g < 16" using that h by simp
    then show ?thesis using split [OF pack_q6_K_def] that s by (simp add: signed_byte_value)
  qed
  have q4: "q (128 * h + k + i) div 16 < 4" "q (128 * h + i) div 16 < 4" if "k \<le> 96" "i < 32" for k i
    using q h that by (simp_all add: less_mult_imp_div_less)
  have nib: "x mod 16 + 16 * (x div 16) = x" for x :: nat by simp
  have low: "(x mod 16 + 16 * (y mod 16)) mod 16 = x mod 16" "(x mod 16 + 16 * (y mod 16)) div 16 = y mod 16" for x y :: nat
    by simp_all
  let ?l = "take 64 (drop (64 * h) (take 128 ?b))" and ?h = "take 32 (drop (32 * h) (take 64 (drop 128 ?b)))"
    and ?s = "take 8 (drop (8 * h) (map signed_byte (take 16 (drop 192 ?b))))"
  have vals: "q6_value F (fl_half16 F d) (?s ! (i div 16 + 0)) (int ((?l ! i AND 15) OR push_bit 4 (?h ! i AND 3)) - 32) =
      q6_element F d sc q (128 * h + i)"
    "q6_value F (fl_half16 F d) (?s ! (i div 16 + 2)) (int ((?l ! (i + 32) AND 15) OR push_bit 4 (drop_bit 2 (?h ! i) AND 3)) - 32) =
      q6_element F d sc q (128 * h + 32 + i)"
    "q6_value F (fl_half16 F d) (?s ! (i div 16 + 4)) (int (drop_bit 4 (?l ! i) OR push_bit 4 (drop_bit 4 (?h ! i) AND 3)) - 32) =
      q6_element F d sc q (128 * h + 64 + i)"
    "q6_value F (fl_half16 F d) (?s ! (i div 16 + 6)) (int (drop_bit 4 (?l ! (i + 32)) OR push_bit 4 (drop_bit 6 (?h ! i) AND 3)) - 32) =
      q6_element F d sc q (128 * h + 96 + i)"
    if "i \<in> set [0..<32]" for i
  proof -
    have i: "i < 32" "i < 64" "i + 32 < 64" using that by simp_all
    have g: "i div 16 + 0 < 8" "i div 16 + 2 < 8" "i div 16 + 4 < 8" "i div 16 + 6 < 8"
      using i(1) by (simp_all add: less_mult_imp_div_less)
    have e: "128 * h + (i + 32) = 128 * h + 32 + i" "128 * h + 64 + (i + 32) = 128 * h + 96 + i" by simp_all
    have p: "(128 * h + i) div 16 = 8 * h + (i div 16 + 0)" "(128 * h + 32 + i) div 16 = 8 * h + (i div 16 + 2)"
      "(128 * h + 64 + i) div 16 = 8 * h + (i div 16 + 4)" "(128 * h + 96 + i) div 16 = 8 * h + (i div 16 + 6)"
      by simp_all
    note t = two_bits [OF q4(2) [of 0 i, simplified, OF i(1)] q4(1) [of 32 i, simplified, OF i(1)]
        q4(1) [of 64 i, simplified, OF i(1)] q4(1) [of 96 i, simplified, OF i(1)]]
    have v: "(x mod 16) OR push_bit 4 (y div 16) = x mod 16 + 16 * (y div 16)" for x y :: nat
      by (simp add: or_nibble)
    note eval = ql [OF i(2)] ql [OF i(3)] qh [OF i(1)] sc [OF g(1)] sc [OF g(2)] sc [OF g(3)] sc [OF g(4)] e
      and_low_bits drop_bits low t v nib q6_element_def p
    show "q6_value F (fl_half16 F d) (?s ! (i div 16 + 0)) (int ((?l ! i AND 15) OR push_bit 4 (?h ! i AND 3)) - 32) =
        q6_element F d sc q (128 * h + i)"
      by (simp only: eval)
    show "q6_value F (fl_half16 F d) (?s ! (i div 16 + 2)) (int ((?l ! (i + 32) AND 15) OR push_bit 4 (drop_bit 2 (?h ! i) AND 3)) - 32) =
        q6_element F d sc q (128 * h + 32 + i)"
      by (simp only: eval)
    show "q6_value F (fl_half16 F d) (?s ! (i div 16 + 4)) (int (drop_bit 4 (?l ! i) OR push_bit 4 (drop_bit 4 (?h ! i) AND 3)) - 32) =
        q6_element F d sc q (128 * h + 64 + i)"
      by (simp only: eval)
    show "q6_value F (fl_half16 F d) (?s ! (i div 16 + 6)) (int (drop_bit 4 (?l ! (i + 32)) OR push_bit 4 (drop_bit 6 (?h ! i) AND 3)) - 32) =
        q6_element F d sc q (128 * h + 96 + i)"
      by (simp only: eval)
  qed
  show ?thesis
    unfolding q6_K_half_def Let_def d'
    by (intro fills_fold fills_then_update fills_update) (erule vals)+
qed

lemma q6_K_positions: "{..<256} \<subseteq> (\<Union>h \<in> set [0..<2]. \<Union>i \<in> set [0..<32].
    insert (128 * h + 96 + i) (insert (128 * h + 64 + i) (insert (128 * h + 32 + i) {128 * h + i})))"
proof
  fix p :: nat
  assume "p \<in> {..<256}"
  define h k i where "h = p div 128" and "k = p div 32 mod 4" and "i = p mod 32"
  have "h \<in> set [0..<2]" "i \<in> set [0..<32]"
    using \<open>p \<in> _\<close> by (simp_all add: h_def i_def less_mult_imp_div_less)
  moreover have "p mod 128 = 32 * k + i" using mod_mult2_eq [of p 32 4] by (simp add: k_def i_def)
  then have "p = 128 * h + (32 * k + i)" using mult_div_mod_eq [of 128 p] by (simp add: h_def)
  moreover have "k = 0 \<or> k = 1 \<or> k = 2 \<or> k = 3" unfolding k_def by linarith
  then have "128 * h + (32 * k + i) \<in>
      insert (128 * h + 96 + i) (insert (128 * h + 64 + i) (insert (128 * h + 32 + i) {128 * h + i}))"
    by auto
  ultimately show "p \<in> (\<Union>h \<in> set [0..<2]. \<Union>i \<in> set [0..<32].
    insert (128 * h + 96 + i) (insert (128 * h + 64 + i) (insert (128 * h + 32 + i) {128 * h + i})))"
    by blast
qed

text \<open>A \<^verbatim>\<open>Q6_K\<close> block packed from signed scales and 6-bit quants.\<close>

lemma q6_K_roundtrip:
  assumes "\<forall>g < 16. - 128 \<le> sc g \<and> sc g < 128" and "\<forall>p < 256. q p < 64" and "d < 65536"
  shows "dequantize_q6_K_block F (pack_q6_K d sc q) = Inr (map (q6_element F d sc q) [0..<256])"
proof -
  have "length (pack_q6_K d sc q) = Q6_K_BLOCK_BYTES" by (simp add: pack_q6_K_def block_sizes)
  moreover have "fold (q6_K_half F (pack_q6_K d sc q)) [0..<2] (replicate 256 (fl_num F 0)) =
      map (q6_element F d sc q) [0..<256]"
    by (rule fills_all [OF fills_fold q6_K_positions]) (use q6_K_half_fills [OF _ assms] in simp)
  ultimately show ?thesis by (simp add: dequantize_q6_K_block_def block_sizes)
qed

text \<open>
  C39: Blocks of the three K formats, packed from their fields, are dequantized to the 256 elements in
  order: \<^verbatim>\<open>Q4_K\<close> and \<^verbatim>\<open>Q5_K\<close> from the 6-bit scale and minimum of the element's group of 32 (spread over
  twelve bytes), with the fifth bit kept apart, and \<^verbatim>\<open>Q6_K\<close> from the signed scale of its group of 16.
\<close>

theorem k_quants_roundtrip:
  assumes "\<forall>i < 8. sc i < 64 \<and> m i < 64" and "\<forall>g < 16. - 128 \<le> sg g \<and> sg g < 128"
    and "\<forall>p < 256. q4 p < 16 \<and> q5 p < 32 \<and> q6 p < 64" and "d < 65536" and "dmin < 65536"
  shows "dequantize_q4_K_block F (pack_q4_K d dmin sc m q4) = Inr (map (k_value F d dmin sc m q4) [0..<256])
    \<and> dequantize_q5_K_block F (pack_q5_K d dmin sc m q5) = Inr (map (k_value F d dmin sc m q5) [0..<256])
    \<and> dequantize_q6_K_block F (pack_q6_K d sg q6) = Inr (map (q6_element F d sg q6) [0..<256])"
  using q4_K_roundtrip [OF assms(1) _ assms(4,5)] q5_K_roundtrip [OF assms(1) _ assms(4,5)]
    q6_K_roundtrip [OF assms(2) _ assms(4)] assms(3) by blast

definition rat_ops :: "rat float_ops" where
  "rat_ops = \<lparr>fl_num = id, fl_half16 = of_nat, fl_round32 = id, fl_mul = (*), fl_add = (+), fl_sub = (-), fl_neg = uminus\<rparr>"

lemma k_quants_roundtrip_witness:
  "\<exists>out. dequantize_q5_K_block rat_ops (pack_q5_K 2 3 (\<lambda>i. 7 * i) (\<lambda>i. i + 50) (\<lambda>p. p mod 32)) = Inr out
     \<and> out ! 255 = 2 * 49 * 31 - 3 * 57 \<and> length out = 256"
  using k_quants_roundtrip [of "\<lambda>i. 7 * i" "\<lambda>i. i + 50" "\<lambda>g. int g - 8" "\<lambda>p. p mod 16" "\<lambda>p. p mod 32"
      "\<lambda>p. p mod 64" 2 3 rat_ops]
  by (simp add: k_value_def scaled_min_def scaled_def rat_ops_def)

section \<open>Rows\<close>

lemma length_fold_same: "(\<And>x out. length (f x out) = length out) \<Longrightarrow> length (fold f xs out) = length out"
  by (induction xs arbitrary: out) simp_all

lemma blocks_return:
  "\<forall>b. length b = 34 \<longrightarrow> (\<exists>r. dequantize_q8_0_block F b = Inr r \<and> length r = 32)"
  "\<forall>b. length b = 144 \<longrightarrow> (\<exists>r. dequantize_q4_K_block F b = Inr r \<and> length r = 256)"
  "\<forall>b. length b = 176 \<longrightarrow> (\<exists>r. dequantize_q5_K_block F b = Inr r \<and> length r = 256)"
  "\<forall>b. length b = 210 \<longrightarrow> (\<exists>r. dequantize_q6_K_block F b = Inr r \<and> length r = 256)"
  "\<forall>b. length b = 74 \<longrightarrow> (\<exists>r. dequantize_iq2_xs_block F b = Inr r \<and> length r = 256)"
  by (simp_all add: dequantize_q8_0_block_def dequantize_q4_K_block_def dequantize_q5_K_block_def
      dequantize_q6_K_block_def dequantize_iq2_xs_block_def q4_K_chunk_def q5_K_chunk_def q6_K_half_def
      iq2_xs_group_def block_sizes Let_def length_fold_same split_def)

lemma row_blocks_exact:
  assumes "0 < bb" and "length data = n * bb"
  shows "length (row_blocks bb data) = n" and "\<forall>b \<in> set (row_blocks bb data). length b = bb"
proof -
  have "n * bb + bb - 1 = (bb - 1) + n * bb" using assms(1) by simp
  also have "\<dots> div bb = n" using assms(1) by (simp only: div_mult_self1) simp
  finally have n: "(length data + bb - 1) div bb = n" using assms(2) by simp
  then show "length (row_blocks bb data) = n" by (simp add: row_blocks_def)
  have "bb \<le> length data - i * bb" if "i < n" for i
  proof -
    have "Suc i * bb \<le> n * bb" using that by (intro mult_le_mono1) simp
    then show ?thesis using assms(2) by simp
  qed
  then show "\<forall>b \<in> set (row_blocks bb data). length b = bb" unfolding row_blocks_def n by (auto simp: min_absorb2)
qed

lemma rows_return:
  assumes "0 < bb" and "length data = n * bb"
    and "\<forall>b. length b = bb \<longrightarrow> (\<exists>r. f b = Inr r \<and> length r = e)"
  shows "\<exists>rs. map_res f (row_blocks bb data) = Inr rs \<and> length (concat rs) = n * e"
proof -
  have "map_res f xs = Inr (map (\<lambda>b. projr (f b)) xs)" if "\<forall>b \<in> set xs. length b = bb" for xs
    using that assms(3) by (intro map_res_Inr) fastforce
  then have r: "map_res f (row_blocks bb data) = Inr (map (\<lambda>b. projr (f b)) (row_blocks bb data))"
    using row_blocks_exact(2) [OF assms(1,2)] by blast
  have "length (projr (f b)) = e" if "b \<in> set (row_blocks bb data)" for b
    using row_blocks_exact(2) [OF assms(1,2)] assms(3) that by fastforce
  then have "map length (map (\<lambda>b. projr (f b)) (row_blocks bb data)) = replicate n e"
    using row_blocks_exact(1) [OF assms(1,2)] by (intro replicate_eqI) auto
  then show ?thesis using r by (simp add: length_concat sum_list_replicate)
qed

lemma length_mod_multiple: "length data = n * bb \<Longrightarrow> length data mod bb = 0"
  by simp

lemmas row_defs = dequantize_q8_0_row_def dequantize_q4_K_row_def dequantize_q5_K_row_def
  dequantize_q6_K_row_def dequantize_iq2_xs_row_def dequantize_row_def block_sizes length_mod_multiple

text \<open>A row of \<open>n\<close> blocks has \<open>n\<close> times as many elements as a block.\<close>

lemma row_elements:
  "length data = n * 34 \<Longrightarrow> \<exists>r. dequantize_q8_0_row F data = Inr r \<and> length r = n * 32"
  "length data = n * 144 \<Longrightarrow> \<exists>r. dequantize_q4_K_row F data = Inr r \<and> length r = n * 256"
  "length data = n * 176 \<Longrightarrow> \<exists>r. dequantize_q5_K_row F data = Inr r \<and> length r = n * 256"
  "length data = n * 210 \<Longrightarrow> \<exists>r. dequantize_q6_K_row F data = Inr r \<and> length r = n * 256"
  "length data = n * 74 \<Longrightarrow> \<exists>r. dequantize_iq2_xs_row F data = Inr r \<and> length r = n * 256"
proof -
  show "\<exists>r. dequantize_q8_0_row F data = Inr r \<and> length r = n * 32" if "length data = n * 34"
    using rows_return [where f = "dequantize_q8_0_block F" and bb = 34 and e = 32, OF _ that blocks_return(1)] that
    by (auto simp: row_defs)
  show "\<exists>r. dequantize_q4_K_row F data = Inr r \<and> length r = n * 256" if "length data = n * 144"
    using rows_return [where f = "dequantize_q4_K_block F" and bb = 144 and e = 256, OF _ that blocks_return(2)] that
    by (auto simp: row_defs)
  show "\<exists>r. dequantize_q5_K_row F data = Inr r \<and> length r = n * 256" if "length data = n * 176"
    using rows_return [where f = "dequantize_q5_K_block F" and bb = 176 and e = 256, OF _ that blocks_return(3)] that
    by (auto simp: row_defs)
  show "\<exists>r. dequantize_q6_K_row F data = Inr r \<and> length r = n * 256" if "length data = n * 210"
    using rows_return [where f = "dequantize_q6_K_block F" and bb = 210 and e = 256, OF _ that blocks_return(4)] that
    by (auto simp: row_defs)
  show "\<exists>r. dequantize_iq2_xs_row F data = Inr r \<and> length r = n * 256" if "length data = n * 74"
    using rows_return [where f = "dequantize_iq2_xs_block F" and bb = 74 and e = 256, OF _ that blocks_return(5)] that
    by (auto simp: row_defs)
qed

section \<open>The lookup tables\<close>

lemma iq2_table_sizes: "length IQ2XS_GRID = 512" "length KSIGNS_IQ2XS = 128" "length KMASK_IQ2XS = 8"
  by (simp_all add: IQ2XS_GRID_def KSIGNS_IQ2XS_def KMASK_IQ2XS_def)

text \<open>The grid and sign indices of a code stay inside the tables.\<close>

lemma iq2_indices:
  assumes "code < 65536"
  shows "code AND 511 < length IQ2XS_GRID" "drop_bit 9 code < length KSIGNS_IQ2XS"
  using assms by (simp_all add: iq2_table_sizes and_low_bits drop_bits less_mult_imp_div_less)

end
