(* ===== verification/Gguf_Loader.thy ===== *)
theory Gguf_Loader
  imports Gguf_Header Gguf_Dequant
begin

text \<open>
  \<^verbatim>\<open>runtime/loading/gguf.py\<close>: the stream of the tensors of a GGUF file and the dequantization of packed
  K-format tensors on the host, and the summary of \<^verbatim>\<open>loader/inspect_gguf.py\<close>.  Tensors of the torch
  library are the type \<open>'t\<close>; the calls that make, view and read them are the argument \<open>T\<close>.
\<close>

section \<open>The stream of tensors\<close>

record 't torch_ops =
  tt_from_buffer :: "nat list \<Rightarrow> 't res"
  tt_view :: "string \<Rightarrow> int list \<Rightarrow> 't \<Rightarrow> 't res"
  tt_to_device :: "'t \<Rightarrow> 't res"
  tt_bytes :: "'t \<Rightarrow> nat list"

record 't gguf_tensor =
  gt_name :: str
  gt_type_name :: "string option"
  gt_shape :: "int list"
  gt_data :: 't

definition PLAIN_DTYPES :: "string list" where
  "PLAIN_DTYPES = [''F32'', ''BF16'', ''I32'', ''I64'', ''F16'', ''I8'']"

definition torch_shape :: "tensor_info \<Rightarrow> int list" where
  "torch_shape info = rev (ti_dims info)"

text \<open>One turn of the generator; the state is the list of the tensors yielded so far.\<close>

definition stream_tensor ::
  "'t torch_ops \<Rightarrow> nat list \<Rightarrow> gguf_header \<Rightarrow> str set option \<Rightarrow> tensor_info \<Rightarrow> ('t gguf_tensor list, unit) prog" where
  "stream_tensor T file h names info =
     (if (case names of None \<Rightarrow> False | Some ns \<Rightarrow> ti_name info \<notin> ns) then ret ()
      else let start = absolute_offset h info in
        andThen (lift_res (ti_nbytes info)) (\<lambda>nbytes.
        let raw = take (nat nbytes) (drop (nat start) file) in
        guard (int (length raw) \<noteq> nbytes) (ValueError ''truncated tensor payload'') (
        andThen (lift_res (tt_from_buffer T raw)) (\<lambda>payload.
        andThen (lift_res (case ti_type_name info of
            Some n \<Rightarrow> if n \<in> set PLAIN_DTYPES then tt_view T n (torch_shape info) payload else Inr payload
          | None \<Rightarrow> Inr payload)) (\<lambda>payload.
        andThen (lift_res (tt_to_device T payload)) (\<lambda>data.
        update (\<lambda>out. out @ [\<lparr>gt_name = ti_name info, gt_type_name = ti_type_name info,
          gt_shape = torch_shape info, gt_data = data\<rparr>])))))))"

definition iterate_gguf_checkpoint ::
  "'t torch_ops \<Rightarrow> nat list \<Rightarrow> str set option \<Rightarrow> unit res \<times> 't gguf_tensor list" where
  "iterate_gguf_checkpoint T file names = (case read_gguf_header file of
     Inl e \<Rightarrow> (Inl e, [])
   | Inr h \<Rightarrow> for_each (stream_tensor T file h names) (gh_tensors h) [])"

section \<open>Dequantization on the host\<close>

definition shape_numel :: "int list \<Rightarrow> int" where
  "shape_numel shape = foldl (*) 1 shape"

definition dequantize_k_packed ::
  "'t torch_ops \<Rightarrow> 't \<Rightarrow> int list \<Rightarrow> nat \<Rightarrow> (nat list \<Rightarrow> 'f list res) \<Rightarrow> ('f list \<times> int list) res" where
  "dequantize_k_packed T packed shape block_bytes row_dequantizer =
     (let raw = tt_bytes T packed in
      if length raw mod block_bytes \<noteq> 0 then Inl (ValueError ''packed payload'')
      else bind_res (row_dequantizer raw) (\<lambda>vals.
        if int (length vals) \<noteq> shape_numel shape then Inl (ValueError ''dequant size'')
        else Inr (vals, shape)))"

definition dequantize_q4_K_packed where
  "dequantize_q4_K_packed T F packed shape = dequantize_k_packed T packed shape Q4_K_BLOCK_BYTES (dequantize_q4_K_row F)"

definition dequantize_q5_K_packed where
  "dequantize_q5_K_packed T F packed shape = dequantize_k_packed T packed shape Q5_K_BLOCK_BYTES (dequantize_q5_K_row F)"

definition dequantize_q6_K_packed where
  "dequantize_q6_K_packed T F packed shape = dequantize_k_packed T packed shape Q6_K_BLOCK_BYTES (dequantize_q6_K_row F)"

section \<open>The summary\<close>

text \<open>Python's \<^verbatim>\<open>d[k] += v\<close> on a \<^verbatim>\<open>defaultdict(int)\<close>.\<close>

definition add_at :: "'k \<Rightarrow> int \<Rightarrow> ('k \<times> int) list \<Rightarrow> ('k \<times> int) list" where
  "add_at k v d = AList.update k ((case map_of d k of Some n \<Rightarrow> n | None \<Rightarrow> 0) + v) d"

primrec bytes_by_type :: "(string option \<times> int) list \<Rightarrow> tensor_info list \<Rightarrow> (string option \<times> int) list res" where
  "bytes_by_type d [] = Inr d"
| "bytes_by_type d (t # ts) = bind_res (ti_nbytes t) (\<lambda>n. bytes_by_type (add_at (ti_type_name t) n d) ts)"

definition total_payload :: "gguf_header \<Rightarrow> int res" where
  "total_payload h = bind_res (bytes_by_type [] (gh_tensors h)) (\<lambda>d. Inr (sum_list (map snd d)))"

definition summary_complete :: "gguf_header \<Rightarrow> int \<Rightarrow> bool res" where
  "summary_complete h file_size = bind_res (total_payload h) (\<lambda>total. Inr (file_size \<ge> gh_data_start h + total))"

lemma add_at_sum: "sum_list (map snd (add_at k v d)) = sum_list (map snd d) + v"
proof (induction d)
  case (Cons p d)
  have "sum_list (map snd (AList.update k (n + v) d)) = sum_list (map snd d) + v" if "map_of d k = Some n" for n
    using Cons that by (simp add: add_at_def)
  moreover have "sum_list (map snd (AList.update k v d)) = sum_list (map snd d) + v" if "map_of d k = None"
    using Cons that by (simp add: add_at_def)
  ultimately show ?case by (cases p) (auto simp: add_at_def split: option.split)
qed (simp add: add_at_def)

text \<open>The total of the summary is the sum of the tensor sizes.\<close>

lemma total_payload_sum:
  "total_payload h = bind_res (map_res ti_nbytes (gh_tensors h)) (\<lambda>ns. Inr (sum_list ns))"
proof -
  have "bind_res (bytes_by_type d ts) (\<lambda>d. Inr (sum_list (map snd d))) =
      bind_res (map_res ti_nbytes ts) (\<lambda>ns. Inr (sum_list (map snd d) + sum_list ns))" for d ts
  proof (induction ts arbitrary: d)
    case (Cons t ts)
    show ?case
      by (cases "ti_nbytes t"; cases "map_res ti_nbytes ts") (simp_all add: Cons.IH add_at_sum)
  qed simp
  from this [of "[]"] show ?thesis by (simp add: total_payload_def)
qed

text \<open>
  The summary counts the payloads without the padding between them: a file it calls complete can lack
  the end of the last tensor, and the stream then raises.
\<close>

definition padded_tensors :: "tensor_info list" where
  "padded_tensors =
    [\<lparr>ti_name = [97], ti_dims = [1], ti_type_id = 0, ti_offset = 0\<rparr>,
     \<lparr>ti_name = [98], ti_dims = [1], ti_type_id = 0, ti_offset = 32\<rparr>]"

definition padded_header :: gguf_header where
  "padded_header = \<lparr>gh_version = 3, gh_kv = [], gh_tensors = padded_tensors, gh_header_end = 90, gh_data_start = 96\<rparr>"

definition padded_file :: "nat list" where
  "padded_file = header_bytes [] padded_tensors @ replicate 14 0"

lemma padded_read: "read_gguf_header padded_file = Inr padded_header"
proof -
  have "header_fits [] padded_tensors"
    by (simp add: header_fits_def tensor_fits_def padded_tensors_def string_ok_def utf8_encode_def
        utf8_encode_char_def is_scalar_def gguf_limits)
  moreover have "length (header_bytes [] padded_tensors) = 90"
    by (simp add: header_bytes_def tensor_bytes_def string_bytes_def u32_bytes_def u64_bytes_def GGUF_MAGIC_def
        padded_tensors_def utf8_encode_def utf8_encode_char_def)
  ultimately show ?thesis
    using header_read_back [of "[]" padded_tensors 32 "replicate 14 0"]
    by (simp add: padded_file_def padded_header_def checked_alignment_def power_of_two_check_def)
qed

lemma complete_ignores_padding:
  "summary_complete padded_header (int (length padded_file)) = Inr True"
  "fst (iterate_gguf_checkpoint T padded_file None) \<noteq> Inr ()"
proof -
  have l: "length padded_file = 104"
    by (simp add: padded_file_def header_bytes_def tensor_bytes_def string_bytes_def u32_bytes_def u64_bytes_def
        GGUF_MAGIC_def padded_tensors_def utf8_encode_def utf8_encode_char_def)
  show "summary_complete padded_header (int (length padded_file)) = Inr True"
    by (simp add: l summary_complete_def total_payload_sum padded_header_def padded_tensors_def ti_nbytes_def
        ti_numel_def GGML_TYPES_def)
  have n: "ti_nbytes \<lparr>ti_name = [98], ti_dims = [1], ti_type_id = 0, ti_offset = 32\<rparr> = Inr 4"
    by (simp add: ti_nbytes_def ti_numel_def GGML_TYPES_def)
  have "stream_tensor T padded_file padded_header None \<lparr>ti_name = [98], ti_dims = [1], ti_type_id = 0, ti_offset = 32\<rparr> s =
      (Inl (ValueError ''truncated tensor payload''), s)" for s
    by (simp add: stream_tensor_def n l absolute_offset_def padded_header_def)
  then have "fst (andThen m (\<lambda>_. andThen (stream_tensor T padded_file padded_header None
      \<lparr>ti_name = [98], ti_dims = [1], ti_type_id = 0, ti_offset = 32\<rparr>) (\<lambda>_. ret ())) s) \<noteq> Inr ()" for m s
    by (auto simp: andThen_def split: prod.splits sum.splits)
  then show "fst (iterate_gguf_checkpoint T padded_file None) \<noteq> Inr ()"
    by (simp add: iterate_gguf_checkpoint_def padded_read padded_header_def padded_tensors_def)
qed

section \<open>What the stream yields\<close>

text \<open>The laws of the library: a buffer keeps its bytes, on the device too.\<close>

definition torch_keeps_bytes :: "'t torch_ops \<Rightarrow> bool" where
  "torch_keeps_bytes T \<longleftrightarrow> (\<forall>raw t u. tt_from_buffer T raw = Inr t \<longrightarrow> tt_to_device T t = Inr u \<longrightarrow> tt_bytes T u = raw)"

text \<open>A yielded tensor comes from an index entry; the packed ones hold exactly the bytes of its place.\<close>

definition faithful :: "'t torch_ops \<Rightarrow> nat list \<Rightarrow> gguf_header \<Rightarrow> str set option \<Rightarrow> 't gguf_tensor \<Rightarrow> bool" where
  "faithful T file h names g \<longleftrightarrow> (\<exists>info \<in> set (gh_tensors h). \<exists>n. gt_name g = ti_name info \<and>
     (\<forall>ns. names = Some ns \<longrightarrow> gt_name g \<in> ns) \<and>
     gt_type_name g = ti_type_name info \<and> gt_shape g = rev (ti_dims info) \<and> ti_nbytes info = Inr n \<and>
     (\<forall>tn. gt_type_name g = Some tn \<longrightarrow> tn \<notin> set PLAIN_DTYPES \<longrightarrow>
        tt_bytes T (gt_data g) = take (nat n) (drop (nat (absolute_offset h info)) file) \<and>
        int (length (tt_bytes T (gt_data g))) = n))"

lemma andThen_lift_cases:
  "andThen (lift_res r) k s = (case r of Inl e \<Rightarrow> (Inl e, s) | Inr x \<Rightarrow> k x s)"
  by (cases r) simp_all

lemma stream_tensor_outcome:
  assumes "stream_tensor T file h names info out = (r, out')"
  shows "out' = out \<or> (\<exists>n t p u. (\<forall>ns. names = Some ns \<longrightarrow> ti_name info \<in> ns) \<and> ti_nbytes info = Inr n \<and>
     int (length (take (nat n) (drop (nat (absolute_offset h info)) file))) = n \<and>
     tt_from_buffer T (take (nat n) (drop (nat (absolute_offset h info)) file)) = Inr t \<and>
     (case ti_type_name info of Some n \<Rightarrow> if n \<in> set PLAIN_DTYPES then tt_view T n (torch_shape info) t else Inr t
        | None \<Rightarrow> Inr t) = Inr p \<and> tt_to_device T p = Inr u \<and>
     out' = out @ [\<lparr>gt_name = ti_name info, gt_type_name = ti_type_name info, gt_shape = torch_shape info, gt_data = u\<rparr>])"
proof (cases "case names of None \<Rightarrow> False | Some ns \<Rightarrow> ti_name info \<notin> ns")
  case True
  then show ?thesis using assms by (simp add: stream_tensor_def)
next
  case False
  then have "\<forall>ns. names = Some ns \<longrightarrow> ti_name info \<in> ns" by auto
  with False show ?thesis
    using assms unfolding stream_tensor_def Let_def andThen_lift_cases guard_run
    by (simp split: sum.splits if_splits)
qed

lemma stream_tensor_faithful:
  fixes T :: "'t torch_ops"
  assumes "torch_keeps_bytes T" and "info \<in> set (gh_tensors h)"
  shows "keeps (\<lambda>out. list_all (faithful T file h names) out) (stream_tensor T file h names info)"
proof (rule sound_intro)
  fix out
  assume out: "list_all (faithful T file h names) out"
  have "list_all (faithful T file h names) out'"
    if "stream_tensor T file h names info out = (r, out')" for r out'
    using stream_tensor_outcome [OF that]
  proof (elim disjE exE conjE)
    fix n and t p u :: 't
    let ?raw = "take (nat n) (drop (nat (absolute_offset h info)) file)"
      and ?g = "\<lparr>gt_name = ti_name info, gt_type_name = ti_type_name info, gt_shape = torch_shape info, gt_data = u\<rparr>"
    assume f: "\<forall>ns. names = Some ns \<longrightarrow> ti_name info \<in> ns" "ti_nbytes info = Inr n" "int (length ?raw) = n"
      "tt_from_buffer T ?raw = Inr t" "tt_to_device T p = Inr u"
      and p: "(case ti_type_name info of Some n \<Rightarrow> if n \<in> set PLAIN_DTYPES then tt_view T n (torch_shape info) t else Inr t
        | None \<Rightarrow> Inr t) = Inr p"
      and o: "out' = out @ [?g]"
    have "tt_bytes T u = ?raw" if "ti_type_name info = Some tn" "tn \<notin> set PLAIN_DTYPES" for tn
    proof -
      have "p = t" using p that by simp
      then show ?thesis using assms(1) f(4,5) unfolding torch_keeps_bytes_def by blast
    qed
    then have "faithful T file h names ?g"
      unfolding faithful_def using assms(2) f(1-3) by (intro bexI [of _ info] exI [of _ n]) (auto simp: torch_shape_def)
    then show ?thesis using out o by simp
  qed (use out in simp)
  then show "case stream_tensor T file h names info out of
      (Inl e, s') \<Rightarrow> list_all (faithful T file h names) s' | (Inr x, s') \<Rightarrow> list_all (faithful T file h names) s'"
    by (auto split: prod.split sum.split)
qed

lemma streamed_faithful:
  assumes "torch_keeps_bytes T" and "g \<in> set (snd (iterate_gguf_checkpoint T file names))"
  shows "\<exists>h. read_gguf_header file = Inr h \<and> faithful T file h names g"
proof (cases "read_gguf_header file")
  case (Inr h)
  have k: "keeps (\<lambda>out. list_all (faithful T file h names) out) (for_each (stream_tensor T file h names) infos)"
    if "set infos \<subseteq> set (gh_tensors h)" for infos
    using that
  proof (induction infos)
    case Nil
    show ?case unfolding for_each.simps by (rule sound_ret)
  next
    case (Cons info infos)
    show ?case
      unfolding for_each.simps
      by (rule sound_andThen [OF stream_tensor_faithful [OF assms(1)]]) (use Cons in simp_all)
  qed
  have "list_all (faithful T file h names) (snd (for_each (stream_tensor T file h names) (gh_tensors h) []))"
    using keeps_snd [OF k [OF subset_refl], of "[]"] by simp
  then show ?thesis using assms(2) Inr by (auto simp: iterate_gguf_checkpoint_def list_all_iff)
qed (use assms(2) in \<open>simp add: iterate_gguf_checkpoint_def\<close>)

lemma foldl_mult: "foldl (*) a xs = a * prod_list xs" for a :: int
  by (induction xs arbitrary: a) (simp_all add: mult.assoc)

lemma shape_numel_rev: "shape_numel (rev (ti_dims info)) = ti_numel info"
proof -
  have "prod_list (rev xs) = prod_list xs" for xs :: "int list"
    by (induction xs) (simp_all add: mult.commute)
  then show ?thesis by (simp add: shape_numel_def ti_numel_def foldl_mult)
qed

lemma k_type_entries:
  "ti_type_name info = Some ''Q4_K'' \<Longrightarrow> map_of GGML_TYPES (ti_type_id info) = Some (''Q4_K'', 256, 144)"
  "ti_type_name info = Some ''Q5_K'' \<Longrightarrow> map_of GGML_TYPES (ti_type_id info) = Some (''Q5_K'', 256, 176)"
  "ti_type_name info = Some ''Q6_K'' \<Longrightarrow> map_of GGML_TYPES (ti_type_id info) = Some (''Q6_K'', 256, 210)"
  by (auto simp: ti_type_name_def GGML_TYPES_def split: if_splits)

lemma k_payload_blocks:
  assumes "map_of GGML_TYPES (ti_type_id info) = Some (tn, 256, int bb)" and "0 < bb"
    and "ti_nbytes info = Inr n" and "int (length bs) = n"
  shows "\<exists>k. length bs = k * bb \<and> ti_numel info = int (k * 256)"
proof -
  let ?k = "ti_numel info div 256"
  have n: "ti_numel info mod 256 = 0" "n = ?k * int bb"
    using assms(1,3) by (auto simp: ti_nbytes_def split: if_splits)
  have "0 \<le> ?k * int bb" using n(2) assms(4) by linarith
  then have k: "0 \<le> ?k" using assms(2) by (simp add: zero_le_mult_iff)
  have "int (length bs) = int (nat ?k * bb)" using n(2) assms(4) k by simp
  then have "length bs = nat ?k * bb" by linarith
  moreover have "ti_numel info = ?k * 256" using n(1) div_mult_mod_eq [of "ti_numel info" 256] by simp
  then have "ti_numel info = int (nat ?k * 256)" using k by simp
  ultimately show ?thesis by blast
qed

lemma k_packed_returns:
  assumes "length (tt_bytes T p) = k * bb" and "shape_numel shape = int (k * 256)"
    and "\<exists>r. f (tt_bytes T p) = Inr r \<and> length r = k * 256"
  shows "\<exists>vals. dequantize_k_packed T p shape bb f = Inr (vals, shape) \<and> int (length vals) = shape_numel shape"
  using assms by (auto simp: dequantize_k_packed_def)

text \<open>
  C40: Every K-quantized tensor the stream yields, also before a later tensor raises, is dequantized
  without an error to exactly as many values as its shape has elements.
\<close>

theorem streamed_tensors_dequantize:
  assumes "torch_keeps_bytes T" and "g \<in> set (snd (iterate_gguf_checkpoint T file names))"
  shows "(gt_type_name g = Some ''Q4_K'' \<longrightarrow> (\<exists>vals. dequantize_q4_K_packed T F (gt_data g) (gt_shape g) =
        Inr (vals, gt_shape g) \<and> int (length vals) = shape_numel (gt_shape g)))
    \<and> (gt_type_name g = Some ''Q5_K'' \<longrightarrow> (\<exists>vals. dequantize_q5_K_packed T F (gt_data g) (gt_shape g) =
        Inr (vals, gt_shape g) \<and> int (length vals) = shape_numel (gt_shape g)))
    \<and> (gt_type_name g = Some ''Q6_K'' \<longrightarrow> (\<exists>vals. dequantize_q6_K_packed T F (gt_data g) (gt_shape g) =
        Inr (vals, gt_shape g) \<and> int (length vals) = shape_numel (gt_shape g)))"
proof -
  obtain h info n where i: "gt_type_name g = ti_type_name info" "gt_shape g = rev (ti_dims info)" "ti_nbytes info = Inr n"
    and b: "\<forall>tn. gt_type_name g = Some tn \<longrightarrow> tn \<notin> set PLAIN_DTYPES \<longrightarrow> int (length (tt_bytes T (gt_data g))) = n"
    using streamed_faithful [OF assms] unfolding faithful_def by blast
  have k: "\<exists>vals. dequantize_k_packed T (gt_data g) (gt_shape g) bb f = Inr (vals, gt_shape g) \<and>
      int (length vals) = shape_numel (gt_shape g)"
    if tn: "gt_type_name g = Some tn" "tn \<notin> set PLAIN_DTYPES" "0 < bb"
      and entry: "map_of GGML_TYPES (ti_type_id info) = Some (tn, 256, int bb)"
      and row: "\<And>data k. length data = k * bb \<Longrightarrow> \<exists>r. f data = Inr r \<and> length r = k * 256" for tn bb f
  proof -
    obtain k where "length (tt_bytes T (gt_data g)) = k * bb" "ti_numel info = int (k * 256)"
      using k_payload_blocks [OF entry tn(3) i(3)] b tn(1,2) by blast
    then show ?thesis using row by (intro k_packed_returns) (simp_all add: i(2) shape_numel_rev)
  qed
  show ?thesis
    unfolding dequantize_q4_K_packed_def dequantize_q5_K_packed_def dequantize_q6_K_packed_def block_sizes
    using k [of "''Q4_K''" 144 "dequantize_q4_K_row F"] k [of "''Q5_K''" 176 "dequantize_q5_K_row F"]
      k [of "''Q6_K''" 210 "dequantize_q6_K_row F"] k_type_entries [of info] i(1)
    by (simp add: PLAIN_DTYPES_def row_elements)
qed

definition list_torch :: "nat list torch_ops" where
  "list_torch = \<lparr>tt_from_buffer = Inr, tt_view = (\<lambda>_ _ t. Inr t), tt_to_device = Inr, tt_bytes = id\<rparr>"

definition one_tensor :: "tensor_info list" where
  "one_tensor = [\<lparr>ti_name = [119], ti_dims = [128, 2], ti_type_id = 12, ti_offset = 0\<rparr>]"

definition one_file :: "nat list" where
  "one_file = header_bytes [] one_tensor @ replicate 31 0 @ replicate 144 5"

lemma one_read:
  "length (header_bytes [] one_tensor) = 65"
  "read_gguf_header one_file = Inr \<lparr>gh_version = 3, gh_kv = [], gh_tensors = one_tensor, gh_header_end = 65, gh_data_start = 96\<rparr>"
proof -
  have f: "header_fits [] one_tensor"
    by (simp add: header_fits_def tensor_fits_def one_tensor_def string_ok_def utf8_encode_def
        utf8_encode_char_def is_scalar_def gguf_limits)
  show l: "length (header_bytes [] one_tensor) = 65"
    by (simp add: header_bytes_def tensor_bytes_def string_bytes_def u32_bytes_def u64_bytes_def GGUF_MAGIC_def
        one_tensor_def utf8_encode_def utf8_encode_char_def)
  show "read_gguf_header one_file = Inr \<lparr>gh_version = 3, gh_kv = [], gh_tensors = one_tensor, gh_header_end = 65, gh_data_start = 96\<rparr>"
    using header_read_back [of "[]" one_tensor 32 "replicate 31 0 @ replicate 144 5"] f
    by (simp add: one_file_def l checked_alignment_def power_of_two_check_def)
qed

lemma one_stream:
  "snd (iterate_gguf_checkpoint list_torch one_file None) =
    [\<lparr>gt_name = [119], gt_type_name = Some ''Q4_K'', gt_shape = [2, 128], gt_data = replicate 144 5\<rparr>]"
proof -
  have n: "ti_nbytes \<lparr>ti_name = [119], ti_dims = [128, 2], ti_type_id = 12, ti_offset = 0\<rparr> = Inr 144"
    "ti_type_name \<lparr>ti_name = [119], ti_dims = [128, 2], ti_type_id = 12, ti_offset = 0\<rparr> = Some ''Q4_K''"
    by (simp_all add: ti_nbytes_def ti_numel_def ti_type_name_def GGML_TYPES_def)
  have "take 144 (drop 96 one_file) = replicate 144 5" "length one_file = 240"
    by (simp_all add: one_file_def one_read(1))
  then show ?thesis
    by (simp add: iterate_gguf_checkpoint_def one_read(2) one_tensor_def stream_tensor_def n Let_def list_torch_def
        absolute_offset_def PLAIN_DTYPES_def torch_shape_def andThen_def)
qed

lemma streamed_tensors_dequantize_witness:
  "\<exists>vals. dequantize_q4_K_packed list_torch rat_ops (replicate 144 5) [2, 128] = Inr (vals, [2, 128]) \<and> length vals = 256"
proof -
  have "torch_keeps_bytes list_torch" by (simp add: torch_keeps_bytes_def list_torch_def)
  from streamed_tensors_dequantize [OF this, of _ one_file None rat_ops, unfolded one_stream, OF list.set_intros(1)]
  show ?thesis by (auto simp: shape_numel_def)
qed

end
