(* ===== verification/Slot_Pages.thy ===== *)
theory Slot_Pages
  imports Kv_Arena
begin

text \<open>
  The page tables of \<^verbatim>\<open>runtime/model/qwen36_slots.py\<close> (\<^verbatim>\<open>Qwen36SlotPool\<close>): which physical page
  each slot reads and writes for each of its logical pages, in the fixed-row mode with its own
  page reference counts and in the dynamic mode over the page-bundle pool of \<^verbatim>\<open>Kv_Arena\<close>.

  A page's bytes are a value of type \<open>'b\<close> (what \<^verbatim>\<open>k_pools\<close> and \<^verbatim>\<open>v_pools\<close> hold at the page, all
  backbone layers together) and of type \<open>'m\<close> (the pooled speculative head, once registered).  The
  packed pools of the NVFP4 mode (\<^verbatim>\<open>QSR_QWEN36_NVFP4_KV=1\<close>) are outside the model; copy on write does
  not copy them.  The list fields of the Python object
  that are indexed by slot are lists of the same length, \<^verbatim>\<open>num_slots + 1\<close>.  The recurrent tensors,
  the attention drivers and the staging buffers are tensor code and are left out.
\<close>

section \<open>State and construction\<close>

definition page_size :: int where
  "page_size = 128"

record ('b, 'm) slot_pool =
  num_slots :: int
  pages_per_slot :: int
  dynamic_arena :: bool
  pool_bundles :: int
  kv_arena :: arena
  slot_bundles :: "int set list"
  page_table_host :: "int list list"
  global_page_table :: "int list list"
  page_table_versions :: "int list"
  page_refcounts :: "int list"
  free_physical_pages :: "int set"
  slot_kv_len :: "int list"
  slot_committed_tokens :: "int list list"
  num_tokens_seen :: "int list"
  backbone_kv :: "int \<Rightarrow> 'b"
  mtp_cow_family :: "(int \<Rightarrow> 'm) option"

text \<open>In the fixed-row mode \<^verbatim>\<open>_arena\<close> is \<^verbatim>\<open>None\<close>; no operation reads this stand-in.\<close>

definition no_arena :: arena where
  "no_arena = \<lparr>num_bundles = 0, a_reserved = 0, assert_inv = False, b_ref = (\<lambda>_. 0), b_hash = (\<lambda>_. None),
     a_queue = kvq_init, hash_to_bundles = (\<lambda>_. None), bundle_hashes = (\<lambda>_. None), pending_cow = [],
     watermark = 0, reservations = [], evict_wired = False, evicted_log = []\<rparr>"

definition num_rows :: "('b, 'm) slot_pool \<Rightarrow> int" where
  "num_rows p = num_slots p + 1"

definition scratch_row :: "('b, 'm) slot_pool \<Rightarrow> int" where
  "scratch_row p = num_slots p"

definition max_seq_len :: "('b, 'm) slot_pool \<Rightarrow> int" where
  "max_seq_len p = pages_per_slot p * page_size"

definition pages_for :: "int \<Rightarrow> int" where
  "pages_for tokens = (tokens + page_size - 1) div page_size"

definition slot_pool_of :: "int \<Rightarrow> int \<Rightarrow> bool \<Rightarrow> int \<Rightarrow> arena \<Rightarrow> int list list \<Rightarrow> 'b \<Rightarrow> ('b, 'm) slot_pool" where
  "slot_pool_of slots pages dyn bundles a table zero =
     (let n = nat (slots + 1) in
      \<lparr>num_slots = slots, pages_per_slot = pages, dynamic_arena = dyn, pool_bundles = bundles, kv_arena = a,
       slot_bundles = replicate n {}, page_table_host = table, global_page_table = table,
       page_table_versions = replicate n 0,
       page_refcounts = (if dyn then [] else replicate (nat bundles) 1), free_physical_pages = {},
       slot_kv_len = replicate n 0, slot_committed_tokens = replicate n [], num_tokens_seen = replicate n 0,
       backbone_kv = (\<lambda>_. zero), mtp_cow_family = None\<rparr>)"

definition slot_pool_init ::
  "int \<Rightarrow> int \<Rightarrow> bool \<Rightarrow> int option \<Rightarrow> int \<Rightarrow> 'b \<Rightarrow> ('b, 'm) slot_pool res" where
  "slot_pool_init slots max_len dyn bundles wm zero =
     (if slots < 1 then Inl (ValueError ''num_slots must be >= 1'')
      else let pages = pages_for max_len;
               n = (case bundles of None \<Rightarrow> slots * pages + 8 | Some b \<Rightarrow> b)
           in if dyn then bind_res (arena_init n 1 wm True False) (\<lambda>a.
                Inr (slot_pool_of slots pages True n a (replicate (nat (slots + 1)) (replicate (nat pages) 0)) zero))
              else Inr (slot_pool_of slots pages False ((slots + 1) * pages) no_arena
                (map (\<lambda>slot. map (\<lambda>page. slot * pages + page) [0..pages - 1]) [0..slots]) zero))"

section \<open>Shared steps\<close>

abbreviation on_arena :: "(arena, 'a) prog \<Rightarrow> (('b, 'm) slot_pool, 'a) prog" where
  "on_arena \<equiv> on_field kv_arena (\<lambda>a p. p\<lparr>kv_arena := a\<rparr>)"

text \<open>\<^verbatim>\<open>str(n)\<close> and the owner name of a slot.\<close>

fun decimal :: "nat \<Rightarrow> string" where
  "decimal n = (if n < 10 then [char_of (48 + n)] else decimal (n div 10) @ [char_of (48 + n mod 10)])"

declare decimal.simps [simp del]

definition slot_owner :: "int \<Rightarrow> string" where
  "slot_owner slot = ''slot-'' @ (if slot < 0 then ''-'' @ decimal (nat (- slot)) else decimal (nat slot))"

text \<open>The position a Python list indexed by slots is read at: negative slots count from the end.\<close>

definition with_row :: "int \<Rightarrow> (nat \<Rightarrow> (('b, 'm) slot_pool, 'a) prog) \<Rightarrow> (('b, 'm) slot_pool, 'a) prog" where
  "with_row slot k = reading (\<lambda>p. py_index (num_rows p) slot) (\<lambda>i. case i of
     None \<Rightarrow> raise (IndexError ''list index out of range'') | Some j \<Rightarrow> k (nat j))"

text \<open>The argument checks the operations share.\<close>

definition live_slot :: "int \<Rightarrow> (('b, 'm) slot_pool, 'a) prog \<Rightarrow> (('b, 'm) slot_pool, 'a) prog" where
  "live_slot slot m = reading num_slots (\<lambda>n.
     guard (\<not> (0 \<le> slot \<and> slot < n)) (ValueError ''slot is not a live slot'') m)"

definition prefix_length_ok :: "int \<Rightarrow> (('b, 'm) slot_pool, 'a) prog \<Rightarrow> (('b, 'm) slot_pool, 'a) prog" where
  "prefix_length_ok kv_len m = reading max_seq_len (\<lambda>n.
     guard (\<not> (0 < kv_len \<and> kv_len \<le> n)) (ValueError ''prefix length is outside pool capacity'') m)"

definition add_bundles :: "nat \<Rightarrow> int list \<Rightarrow> (('b, 'm) slot_pool, unit) prog" where
  "add_bundles i bs = update (\<lambda>p. p\<lparr>slot_bundles := (slot_bundles p)[i := set bs \<union> slot_bundles p ! i]\<rparr>)"

definition discard_bundle :: "nat \<Rightarrow> int \<Rightarrow> (('b, 'm) slot_pool, unit) prog" where
  "discard_bundle i b = update (\<lambda>p. p\<lparr>slot_bundles := (slot_bundles p)[i := slot_bundles p ! i - {b}]\<rparr>)"

text \<open>\<^verbatim>\<open>self._arena.allocate(1, owner=...)[0]\<close>.\<close>

definition allocate_one_page :: "string \<Rightarrow> (('b, 'm) slot_pool, int) prog" where
  "allocate_one_page owner = andThen (on_arena (kv_allocate 1 owner)) (\<lambda>ids. case ids of
     [] \<Rightarrow> raise (IndexError ''list index out of range'') | b # _ \<Rightarrow> ret b)"

section \<open>Mapping a row\<close>

text \<open>The two loops over the displaced and the installed pages of a fixed row.\<close>

definition drop_page :: "int \<Rightarrow> int list \<times> int set \<Rightarrow> int list \<times> int set" where
  "drop_page page = (\<lambda>(rc, free). let c = rc ! nat page - 1 in
     (rc[nat page := c], if c = 0 then insert page free else free))"

definition hold_page :: "int \<Rightarrow> int list \<times> int set \<Rightarrow> int list \<times> int set" where
  "hold_page page = (\<lambda>(rc, free). (rc[nat page := rc ! nat page + 1], free - {page}))"

definition remap_refcounts :: "int list \<Rightarrow> int list \<Rightarrow> ('b, 'm) slot_pool \<Rightarrow> ('b, 'm) slot_pool" where
  "remap_refcounts old new p =
     (let (rc, free) = fold hold_page new (fold drop_page old (page_refcounts p, free_physical_pages p))
      in p\<lparr>page_refcounts := rc, free_physical_pages := free\<rparr>)"

definition install_row :: "nat \<Rightarrow> int list \<Rightarrow> ('b, 'm) slot_pool \<Rightarrow> ('b, 'm) slot_pool" where
  "install_row i pages p = p\<lparr>page_table_host := (page_table_host p)[i := pages],
     global_page_table := (global_page_table p)[i := pages],
     page_table_versions := (page_table_versions p)[i := page_table_versions p ! i + 1]\<rparr>"

definition set_page_table_row :: "int \<Rightarrow> int list \<Rightarrow> (('b, 'm) slot_pool, unit) prog" where
  "set_page_table_row slot pages =
     reading (\<lambda>p. (num_rows p, pages_per_slot p, pool_bundles p, dynamic_arena p)) (\<lambda>(n, w, total, dyn).
     guard (\<not> (0 \<le> slot \<and> slot < n)) (ValueError ''slot is outside the pool'') (
     guard (int (length pages) \<noteq> w) (ValueError ''slot needs another number of physical pages'') (
     guard (\<exists>page \<in> set pages. page < 0 \<or> page \<ge> total)
       (ValueError ''a page-table row must contain in-range physical pages'') (
     guard (\<not> dyn \<and> \<not> distinct pages) (ValueError ''a page-table row must contain distinct physical pages'') (
     guard (dyn \<and> \<not> distinct (filter (\<lambda>page. page \<noteq> 0) pages))
       (ValueError ''a dynamic page-table row must not repeat non-null bundles'') (
     andThen (if dyn then ret () else
       update (\<lambda>p. remap_refcounts (page_table_host p ! nat slot) pages p)) (\<lambda>_.
     update (install_row (nat slot) pages))))))))"

definition page_table_version :: "nat \<Rightarrow> ('b, 'm) slot_pool \<Rightarrow> int" where
  "page_table_version slot p = page_table_versions p ! slot"

definition write_index :: "int \<Rightarrow> int \<Rightarrow> (('b, 'm) slot_pool, int) prog" where
  "write_index slot kv_len = reading max_seq_len (\<lambda>n.
     guard (\<not> (0 \<le> kv_len \<and> kv_len < n)) (ValueError ''KV position is outside pool capacity'') (
     with_row slot (\<lambda>i. reading (\<lambda>p. page_table_host p ! i ! nat (kv_len div page_size)) (\<lambda>page.
       ret (page * page_size + kv_len mod page_size)))))"

section \<open>Copying pages\<close>

definition register_mtp_kv :: "int \<Rightarrow> (int \<Rightarrow> 'm) \<Rightarrow> (('b, 'm) slot_pool, unit) prog" where
  "register_mtp_kv rows m = reading (\<lambda>p. (dynamic_arena p, pool_bundles p)) (\<lambda>(dyn, n).
     guard (\<not> dyn) (RuntimeError ''register_mtp_kv requires dynamic_arena=True'') (
     guard (rows \<noteq> n) (ValueError ''MTP pools do not span the backbone pool'') (
     update (\<lambda>p. p\<lparr>mtp_cow_family := Some m\<rparr>))))"

text \<open>A replacement names the logical page, its old and its new physical page.\<close>

type_synonym replacement = "int \<times> int \<times> int"

definition copy_page :: "int \<Rightarrow> int \<Rightarrow> (int \<Rightarrow> 'c) \<Rightarrow> int \<Rightarrow> 'c" where
  "copy_page source target f = f(target := f source)"

text \<open>\<^verbatim>\<open>_clone_cow_pages\<close>: in order, skipping the null page.\<close>

definition clone_pages :: "replacement list \<Rightarrow> (int \<Rightarrow> 'c) \<Rightarrow> int \<Rightarrow> 'c" where
  "clone_pages reps f = fold (\<lambda>(_, source, target) g. if source = 0 then g else copy_page source target g) reps f"

definition clone_cow_pages :: "replacement list \<Rightarrow> ('b, 'm) slot_pool \<Rightarrow> ('b, 'm) slot_pool" where
  "clone_cow_pages reps p = p\<lparr>backbone_kv := clone_pages reps (backbone_kv p),
     mtp_cow_family := map_option (clone_pages reps) (mtp_cow_family p)\<rparr>"

text \<open>The loop of the fixed-row mode copies every replaced page of the backbone.\<close>

definition clone_fixed_pages :: "replacement list \<Rightarrow> ('b, 'm) slot_pool \<Rightarrow> ('b, 'm) slot_pool" where
  "clone_fixed_pages reps p = p\<lparr>backbone_kv :=
     fold (\<lambda>(_, source, target). copy_page source target) reps (backbone_kv p)\<rparr>"

text \<open>
  \<^verbatim>\<open>k_pool[target_pages] = k_pool[source_pages]\<close> on distinct targets: all sources are read before
  the first target is written.
\<close>

definition gather_scatter :: "int list \<Rightarrow> int list \<Rightarrow> ('b, 'm) slot_pool \<Rightarrow> ('b, 'm) slot_pool" where
  "gather_scatter sources targets p = p\<lparr>backbone_kv := (\<lambda>b. case map_of (zip targets sources) b of
     None \<Rightarrow> backbone_kv p b | Some source \<Rightarrow> backbone_kv p source)\<rparr>"

section \<open>Making pages private\<close>

text \<open>
  The loops over logical pages that replace some entries of a local copy of the row.  \<open>visit\<close>
  is the loop body: it answers with the new physical page, or with \<open>None\<close> where the body
  continues with the next page.
\<close>

fun remap_loop ::
  "(int \<Rightarrow> (('b, 'm) slot_pool, int option) prog) \<Rightarrow> int list \<Rightarrow> int list \<Rightarrow> replacement list \<Rightarrow>
   (('b, 'm) slot_pool, int list \<times> replacement list) prog" where
  "remap_loop visit [] row reps = ret (row, reps)"
| "remap_loop visit (lp # lps) row reps =
     guard (int (length row) \<le> lp) (IndexError ''list index out of range'') (
     andThen (visit (row ! nat lp)) (\<lambda>target. case target of
       None \<Rightarrow> remap_loop visit lps row reps
     | Some t \<Rightarrow> remap_loop visit lps (row[nat lp := t]) (reps @ [(lp, row ! nat lp, t)])))"

text \<open>The slot gives its reference to a shared or published page for a fresh private one.\<close>

definition detach_page :: "int \<Rightarrow> nat \<Rightarrow> int \<Rightarrow> (('b, 'm) slot_pool, int) prog" where
  "detach_page slot i source =
     andThen (on_arena (ensure_writable source (slot_owner slot))) (\<lambda>target.
     andThen (on_arena (decref [source] (slot_owner slot))) (\<lambda>_.
     andThen (discard_bundle i source) (\<lambda>_.
     andThen (add_bundles i [target]) (\<lambda>_. ret target))))"

definition visit_write :: "int \<Rightarrow> nat \<Rightarrow> int \<Rightarrow> (('b, 'm) slot_pool, int option) prog" where
  "visit_write slot i source =
     (if source = 0 then andThen (allocate_one_page (slot_owner slot)) (\<lambda>target.
        andThen (add_bundles i [target]) (\<lambda>_. ret (Some target)))
      else reading (\<lambda>p. (b_ref (kv_arena p) source, b_hash (kv_arena p) source)) (\<lambda>(rc, h).
        if rc > 1 \<or> h \<noteq> None then andThen (detach_page slot i source) (\<lambda>t. ret (Some t))
        else ret None))"

text \<open>The fixed-row mode takes the smallest displaced page.\<close>

definition visit_fixed :: "string \<Rightarrow> (int \<Rightarrow> bool) \<Rightarrow> int \<Rightarrow> (('b, 'm) slot_pool, int option) prog" where
  "visit_fixed exhausted aliased source =
     reading (\<lambda>p. (page_refcounts p ! nat source, free_physical_pages p)) (\<lambda>(rc, free).
     if \<not> aliased source \<or> rc \<le> 1 then ret None
     else guard (free = {}) (RuntimeError exhausted) (
       andThen (update (\<lambda>p. p\<lparr>free_physical_pages := free - {Min free}\<rparr>)) (\<lambda>_. ret (Some (Min free)))))"

text \<open>After the loop: copy the bytes, then install the row, unless nothing was replaced.\<close>

definition finish_remap :: "int \<Rightarrow> int list \<times> replacement list \<Rightarrow> (('b, 'm) slot_pool, bool) prog" where
  "finish_remap slot = (\<lambda>(row, reps).
     if reps = [] then ret False
     else reading dynamic_arena (\<lambda>dyn.
       andThen (if dyn then andThen (update (clone_cow_pages reps)) (\<lambda>_. andThen (on_arena drain_pending_cow) (\<lambda>_. ret ()))
                else update (clone_fixed_pages reps)) (\<lambda>_.
       andThen (set_page_table_row slot row) (\<lambda>_. ret True))))"

definition prepare_kv_writes :: "int \<Rightarrow> int \<Rightarrow> int \<Rightarrow> (('b, 'm) slot_pool, unit) prog" where
  "prepare_kv_writes slot start len = reading max_seq_len (\<lambda>n.
     guard (len < 0 \<or> start < 0 \<or> start + len > n) (ValueError ''KV write is outside pool capacity'') (
     if len = 0 then ret ()
     else with_row slot (\<lambda>i. reading (\<lambda>p. (page_table_host p ! i, dynamic_arena p)) (\<lambda>(row, dyn).
       andThen (remap_loop
         (if dyn then visit_write slot i
          else visit_fixed ''KV copy-on-write exhausted the fixed page pool'' (\<lambda>_. True))
         [start div page_size..(start + len - 1) div page_size] row []) (\<lambda>remapped.
       andThen (finish_remap slot remapped) (\<lambda>_. ret ()))))))"

text \<open>
  \<^verbatim>\<open>detach_scratch_aliases\<close>: only committed pages that alias the given scratch pages.  In the
  fixed-row mode these are given as positions in the scratch row.
\<close>

definition visit_alias :: "int \<Rightarrow> nat \<Rightarrow> int set \<Rightarrow> int \<Rightarrow> (('b, 'm) slot_pool, int option) prog" where
  "visit_alias slot i scratch source = reading (\<lambda>p. b_ref (kv_arena p) source) (\<lambda>rc.
     if source \<notin> scratch \<or> rc \<le> 1 then ret None
     else andThen (detach_page slot i source) (\<lambda>t. ret (Some t)))"

definition detach_scratch_aliases :: "int \<Rightarrow> int \<Rightarrow> int set \<Rightarrow> (('b, 'm) slot_pool, bool) prog" where
  "detach_scratch_aliases slot kv_len scratch = live_slot slot (prefix_length_ok kv_len (
     reading (\<lambda>p. (page_table_host p ! nat slot, dynamic_arena p, pages_per_slot p, scratch_row p * pages_per_slot p,
       pages_for (slot_kv_len p ! nat slot))) (\<lambda>(row, dyn, w, lo, committed).
     guard (\<not> dyn \<and> (\<exists>page \<in> scratch. \<not> (0 \<le> page \<and> page < w)))
       (ValueError ''scratch pages must be logical pages of the scratch arena'') (
     andThen (remap_loop
       (if dyn then visit_alias slot (nat slot) scratch
        else visit_fixed ''scratch detach exhausted the fixed page pool''
          (\<lambda>source. lo \<le> source \<and> source < lo + w \<and> source - lo \<in> scratch))
       (takeWhile (\<lambda>lp. committed = 0 \<or> lp < committed) [0..pages_for kv_len - 1]) row []) (finish_remap slot)))))"

section \<open>Copying and sharing prefixes\<close>

text \<open>The loop of \<^verbatim>\<open>copy_prefix_kv\<close> changes the host row in place.\<close>

fun fill_null_pages :: "int \<Rightarrow> int list \<Rightarrow> (('b, 'm) slot_pool, unit) prog" where
  "fill_null_pages target [] = ret ()"
| "fill_null_pages target (lp # lps) = reading (\<lambda>p. page_table_host p ! nat target ! nat lp) (\<lambda>entry.
     andThen (if entry = 0 then andThen (allocate_one_page (slot_owner target)) (\<lambda>fresh.
         andThen (update (\<lambda>p. p\<lparr>page_table_host := (page_table_host p)[nat target :=
           (page_table_host p ! nat target)[nat lp := fresh]]\<rparr>)) (\<lambda>_. add_bundles (nat target) [fresh]))
       else ret ()) (\<lambda>_. fill_null_pages target lps))"

definition copy_prefix_kv :: "int \<Rightarrow> int \<Rightarrow> int \<Rightarrow> (('b, 'm) slot_pool, unit) prog" where
  "copy_prefix_kv source target kv_len = live_slot source (live_slot target (
     if source = target \<or> kv_len = 0 then ret ()
     else prefix_length_ok kv_len (
       reading (\<lambda>p. (dynamic_arena p, pages_for kv_len)) (\<lambda>(dyn, pages).
       andThen (if dyn then andThen (fill_null_pages target [0..pages - 1]) (\<lambda>_.
           reading (\<lambda>p. page_table_host p ! nat target) (\<lambda>row. set_page_table_row target row)) else ret ()) (\<lambda>_.
       update (\<lambda>p. gather_scatter (take (nat pages) (global_page_table p ! nat source))
         (take (nat pages) (global_page_table p ! nat target)) p))))))"

definition share_prefix_kv :: "int \<Rightarrow> int \<Rightarrow> int \<Rightarrow> (('b, 'm) slot_pool, unit) prog" where
  "share_prefix_kv source target kv_len = live_slot source (live_slot target (
     if source = target \<or> kv_len = 0 then ret ()
     else prefix_length_ok kv_len (
       reading (\<lambda>p. (dynamic_arena p, take (nat (pages_for kv_len)) (page_table_host p ! nat source),
         page_table_host p ! nat target)) (\<lambda>(dyn, shared, row).
       andThen (if dyn then
           guard (0 \<in> set shared) (RuntimeError ''source slot has no bundle to share'') (
           andThen (on_arena (incref shared (slot_owner target))) (\<lambda>_.
           andThen (on_arena (consume_reservation (kv_len div page_size) (slot_owner target))) (\<lambda>_.
           add_bundles (nat target) shared)))
         else ret ()) (\<lambda>_.
       set_page_table_row target (shared @ drop (length shared) row))))))"

definition fixed_scratch_check :: "int list \<Rightarrow> (('b, 'm) slot_pool, 'a) prog \<Rightarrow> (('b, 'm) slot_pool, 'a) prog" where
  "fixed_scratch_check pages m = reading (\<lambda>p. (dynamic_arena p, scratch_row p * pages_per_slot p, pages_per_slot p)) (\<lambda>(dyn, lo, w).
     guard (\<not> dyn \<and> (\<exists>page \<in> set pages. page < lo \<or> page \<ge> lo + w))
       (ValueError ''scratch prefix pages must belong to the scratch arena'') m)"

definition copy_prefix_to_scratch :: "int \<Rightarrow> int \<Rightarrow> int list option \<Rightarrow> (('b, 'm) slot_pool, unit) prog" where
  "copy_prefix_to_scratch source kv_len scratch_pages = live_slot source (prefix_length_ok kv_len (
     reading (\<lambda>p. (dynamic_arena p, nat (scratch_row p), pages_for kv_len)) (\<lambda>(dyn, s, pages).
     andThen (if dyn then andThen (on_arena (kv_allocate pages ''scratch'')) (\<lambda>ids.
           andThen (add_bundles s ids) (\<lambda>_.
           andThen (update (\<lambda>p. p\<lparr>page_table_host := (page_table_host p)[s :=
             ids @ drop (nat pages) (page_table_host p ! s)]\<rparr>)) (\<lambda>_. ret ids)))
         else reading (\<lambda>p. take (nat pages) (page_table_host p ! s)) (\<lambda>own.
           ret (case scratch_pages of None \<Rightarrow> own | Some ids \<Rightarrow> ids))) (\<lambda>ids.
     guard (int (length ids) \<noteq> pages \<or> \<not> distinct ids)
       (ValueError ''scratch prefix needs one distinct physical page per logical page'') (
     fixed_scratch_check ids (
     andThen (update (\<lambda>p. gather_scatter (take (nat pages) (global_page_table p ! nat source)) ids p)) (\<lambda>_.
     if dyn then reading (\<lambda>p. (scratch_row p, page_table_host p ! s)) (\<lambda>(r, row). set_page_table_row r row)
     else ret ())))))))"

definition share_scratch_prefix :: "int \<Rightarrow> int \<Rightarrow> int list option \<Rightarrow> (('b, 'm) slot_pool, unit) prog" where
  "share_scratch_prefix target kv_len scratch_pages = live_slot target (prefix_length_ok kv_len (
     reading (\<lambda>p. (dynamic_arena p, pages_for kv_len, page_table_host p ! nat (scratch_row p),
       page_table_host p ! nat target)) (\<lambda>(dyn, shared, srow, row).
     let ids = (case scratch_pages of None \<Rightarrow> take (nat shared) srow | Some ids \<Rightarrow> ids) in
     guard (int (length ids) \<noteq> shared \<or> \<not> distinct ids)
       (ValueError ''scratch prefix needs one distinct physical page per logical page'') (
     fixed_scratch_check ids (
     andThen (if dyn then andThen (on_arena (incref ids (slot_owner target))) (\<lambda>_. add_bundles (nat target) ids)
       else ret ()) (\<lambda>_.
     set_page_table_row target (ids @ drop (nat shared) row)))))))"

section \<open>Slot life cycle\<close>

text \<open>
  \<^verbatim>\<open>reset_slot\<close>: the slot's references go back to the arena in ascending order and its row becomes
  null.  Zeroing the recurrent tensors of the slot is left out.
\<close>

definition pool_reset_slot :: "int \<Rightarrow> (('b, 'm) slot_pool, unit) prog" where
  "pool_reset_slot slot = with_row slot (\<lambda>i.
     andThen (update (\<lambda>p. p\<lparr>num_tokens_seen := (num_tokens_seen p)[i := 0], slot_kv_len := (slot_kv_len p)[i := 0],
       slot_committed_tokens := (slot_committed_tokens p)[i := []]\<rparr>)) (\<lambda>_.
     reading (\<lambda>p. (dynamic_arena p, slot_bundles p ! i, pages_per_slot p)) (\<lambda>(dyn, owned, w).
     if \<not> dyn then ret ()
     else andThen (on_arena (release_reservation (slot_owner slot))) (\<lambda>_.
       andThen (if owned = {} then ret ()
         else andThen (on_arena (decref (sorted_list_of_set owned) (slot_owner slot))) (\<lambda>_.
           update (\<lambda>p. p\<lparr>slot_bundles := (slot_bundles p)[i := {}]\<rparr>))) (\<lambda>_.
       reading (\<lambda>p. page_table_host p ! i) (\<lambda>row.
       if \<exists>page \<in> set row. page \<noteq> 0 then set_page_table_row slot (replicate (nat w) 0) else ret ()))))))"

definition pool_reset_all :: "(('b, 'm) slot_pool, unit) prog" where
  "pool_reset_all = reading num_rows (\<lambda>n. for_each pool_reset_slot [0..n - 1])"

definition rewind_slot :: "int \<Rightarrow> int \<Rightarrow> (('b, 'm) slot_pool, unit) prog" where
  "rewind_slot slot kv_len = reading max_seq_len (\<lambda>n.
     guard (kv_len < 0 \<or> kv_len > n) (ValueError ''kv_len out of range'') (
     with_row slot (\<lambda>i. update (\<lambda>p. p\<lparr>num_tokens_seen := (num_tokens_seen p)[i := kv_len],
       slot_kv_len := (slot_kv_len p)[i := kv_len]\<rparr>))))"

definition reserve_kv_capacity :: "int \<Rightarrow> int \<Rightarrow> (('b, 'm) slot_pool, bool) prog" where
  "reserve_kv_capacity slot tokens = live_slot slot (reading (\<lambda>p. (max_seq_len p, dynamic_arena p)) (\<lambda>(n, dyn).
     guard (tokens < 0 \<or> tokens > n) (ValueError ''request length is outside pool capacity'') (
     if \<not> dyn then ret True else on_arena (reserve (pages_for tokens) (slot_owner slot)))))"

definition release_kv_reservation :: "int \<Rightarrow> (('b, 'm) slot_pool, int) prog" where
  "release_kv_reservation slot = live_slot slot (reading dynamic_arena (\<lambda>dyn.
     if \<not> dyn then ret 0 else on_arena (release_reservation (slot_owner slot))))"

definition kv_reservation_remaining :: "int \<Rightarrow> (('b, 'm) slot_pool, int) prog" where
  "kv_reservation_remaining slot = live_slot slot (reading (\<lambda>p. (dynamic_arena p, reserved_for (kv_arena p) (slot_owner slot)))
     (\<lambda>(dyn, r). ret (if dyn then r else 0)))"

section \<open>The prefix cache\<close>

text \<open>
  The loop of \<^verbatim>\<open>publish_committed_blocks\<close> over the keys: \<open>bs\<close> is the block size.  A key that ends at
  token 0 reads the row at index -1, its last entry.
\<close>

fun committed_blocks :: "int list \<Rightarrow> int \<Rightarrow> int \<Rightarrow> bool \<Rightarrow> block_key list \<Rightarrow> (block_key \<times> int) list res" where
  "committed_blocks row kv_len bs partial [] = Inr []"
| "committed_blocks row kv_len bs partial (k # ks) =
     (let e = bk_num_tokens k in
      if e > kv_len then Inr []
      else if e mod bs \<noteq> 0 \<and> \<not> (partial \<and> e = kv_len) then committed_blocks row kv_len bs partial ks
      else case py_index (int (length row)) ((e - 1) div page_size) of
        None \<Rightarrow> Inl (IndexError ''list index out of range'')
      | Some j \<Rightarrow>
          if row ! nat j = 0 then Inl (RuntimeError ''slot has no bundle for block'')
          else bind_res (committed_blocks row kv_len bs partial ks) (\<lambda>rest. Inr ((k, row ! nat j) # rest)))"

definition publish_slot_blocks :: "int \<Rightarrow> int \<Rightarrow> block_key list \<Rightarrow> int \<Rightarrow> bool \<Rightarrow> (('b, 'm) slot_pool, int) prog" where
  "publish_slot_blocks slot kv_len keys bs partial = reading (\<lambda>p. (dynamic_arena p, max_seq_len p)) (\<lambda>(dyn, n).
     if \<not> dyn then ret 0
     else live_slot slot (
       guard (kv_len < 0 \<or> kv_len > n) (ValueError ''prefix length is outside pool capacity'') (
       guard (bs \<le> 0 \<or> page_size mod bs \<noteq> 0) (ValueError ''block_size must divide the page size'') (
       reading (\<lambda>p. committed_blocks (page_table_host p ! nat slot) kv_len bs partial keys) (\<lambda>found.
       andThen (lift_res found) (\<lambda>pairs.
       andThen (on_arena (cache_full_blocks (map fst pairs) (map snd pairs))) (\<lambda>_.
       ret (int (length pairs)))))))))"

text \<open>\<^verbatim>\<open>try: m except RuntimeError: handler else: k\<close>.\<close>

definition attempt :: "('s, 'a) prog \<Rightarrow> ('s, 'b) prog \<Rightarrow> ('a \<Rightarrow> ('s, 'b) prog) \<Rightarrow> ('s, 'b) prog" where
  "attempt m handler k = (\<lambda>s. case m s of
     (Inr x, s') \<Rightarrow> k x s'
   | (Inl (RuntimeError _), s') \<Rightarrow> handler s'
   | (Inl e, s') \<Rightarrow> (Inl e, s'))"

definition swallow :: "('s, unit) prog \<Rightarrow> ('s, unit) prog" where
  "swallow m = attempt m (ret ()) ret"

text \<open>\<^verbatim>\<open>list(dict.fromkeys(xs))\<close>.\<close>

definition first_occurrences :: "'a list \<Rightarrow> 'a list" where
  "first_occurrences xs = rev (remdups (rev xs))"

definition miss :: "int \<times> int list" where
  "miss = (0, [])"

definition undo_restore :: "int option \<Rightarrow> int list \<Rightarrow> string \<Rightarrow> (('b, 'm) slot_pool, int \<times> int list) prog" where
  "undo_restore tail sources owner =
     andThen (case tail of None \<Rightarrow> ret () | Some t \<Rightarrow> swallow (on_arena (decref [t] owner))) (\<lambda>_.
     andThen (swallow (on_arena (decref sources owner))) (\<lambda>_. ret miss))"

text \<open>The row once the sources are revived, with a private copy of a partial last page.\<close>

definition install_prefix :: "int \<Rightarrow> int \<Rightarrow> int list \<Rightarrow> int option \<Rightarrow> (('b, 'm) slot_pool, int \<times> int list) prog" where
  "install_prefix slot kv_len sources tail = with_row slot (\<lambda>i. reading (\<lambda>p. page_table_host p ! i) (\<lambda>row.
     case tail of
       None \<Rightarrow> andThen (add_bundles i sources) (\<lambda>_.
         andThen (set_page_table_row slot (sources @ drop (length sources) row)) (\<lambda>_. ret (kv_len, sources)))
     | Some t \<Rightarrow> andThen (add_bundles i (butlast sources)) (\<lambda>_.
         andThen (add_bundles i [t]) (\<lambda>_.
         andThen (update (clone_cow_pages [(pages_for kv_len - 1, last sources, t)])) (\<lambda>_.
         andThen (on_arena (decref [last sources] (slot_owner slot))) (\<lambda>_.
         andThen (set_page_table_row slot ((butlast sources @ drop (length sources - 1) row)[length sources - 1 := t])) (\<lambda>_.
         ret (kv_len, butlast sources @ [t]))))))))"

definition restorable :: "arena \<Rightarrow> int \<Rightarrow> bool" where
  "restorable a b \<longleftrightarrow> a_reserved a \<le> b \<and> b < num_bundles a \<and> \<not> (b_ref a b = 0 \<and> b_hash a b = None)"

definition restore_cached_page_prefix :: "int \<Rightarrow> int \<Rightarrow> int list \<Rightarrow> (('b, 'm) slot_pool, int \<times> int list) prog" where
  "restore_cached_page_prefix slot kv_len sources =
     reading (\<lambda>p. (dynamic_arena p, max_seq_len p, kv_arena p)) (\<lambda>(dyn, n, a).
     let owner = slot_owner slot; pages = pages_for kv_len; reserved = reserved_for a owner;
         unique = first_occurrences sources; partial = (kv_len mod page_size \<noteq> 0);
         full = int (length (if partial then butlast sources else sources)) in
     if \<not> dyn \<or> \<not> (0 < kv_len \<and> kv_len \<le> n) \<or> int (length sources) \<noteq> pages then ret miss
     else if \<exists>b \<in> set unique. \<not> restorable a b then ret miss
     else if reserved \<noteq> 0 \<and> reserved < pages then ret miss
     else attempt (on_arena (incref unique owner)) (ret miss) (\<lambda>_.
       if partial then attempt (allocate_one_page owner) (undo_restore None unique owner) (\<lambda>t.
         attempt (on_arena (consume_reservation full owner)) (undo_restore (Some t) unique owner) (\<lambda>_.
         install_prefix slot kv_len sources (Some t)))
       else attempt (on_arena (consume_reservation full owner)) (undo_restore None unique owner) (\<lambda>_.
         install_prefix slot kv_len sources None)))"

definition restore_prefix_from_cached_bundles :: "int \<Rightarrow> int \<Rightarrow> int list \<Rightarrow> (('b, 'm) slot_pool, int \<times> int list) prog" where
  "restore_prefix_from_cached_bundles slot kv_len ids =
     (if int (length ids) \<noteq> pages_for kv_len then ret miss
      else if 0 \<in> set ids then ret miss
      else restore_cached_page_prefix slot kv_len ids)"

text \<open>Several hash blocks of one physical page are folded into the entry of its logical page.\<close>

fun page_sources_loop :: "int \<Rightarrow> (block_key \<times> int) list \<Rightarrow> int list \<Rightarrow> int list" where
  "page_sources_loop kv_len [] sources = sources"
| "page_sources_loop kv_len ((k, b) # kbs) sources =
     (if bk_num_tokens k > kv_len then sources
      else let lp = (bk_num_tokens k - 1) div page_size in
        page_sources_loop kv_len kbs (if 0 \<le> lp \<and> lp < pages_for kv_len then sources[nat lp := b] else sources))"

definition page_sources :: "int \<Rightarrow> block_key list \<Rightarrow> int list \<Rightarrow> int list" where
  "page_sources kv_len keys ids = page_sources_loop kv_len (zip keys ids) (replicate (nat (pages_for kv_len)) 0)"

definition restore_prefix_from_arena :: "int \<Rightarrow> int \<Rightarrow> block_key list \<Rightarrow> (('b, 'm) slot_pool, int \<times> int list) prog" where
  "restore_prefix_from_arena slot kv_len keys = reading dynamic_arena (\<lambda>dyn.
     if \<not> dyn then ret miss
     else live_slot slot (reading (\<lambda>p. lookup_longest_prefix keys None (kv_arena p)) (\<lambda>h.
       if \<not> ph_hit h \<or> ph_bundle_ids h = [] then ret miss
       else let sources = page_sources kv_len keys (ph_bundle_ids h) in
         if 0 \<in> set sources then ret miss else restore_cached_page_prefix slot kv_len sources)))"

section \<open>A decode round\<close>

text \<open>
  The loop of \<^verbatim>\<open>build_decode_batch\<close>: each sequence's next page is made private before its physical
  row is computed and its length is advanced.
\<close>

definition advance_slot :: "nat \<Rightarrow> int \<Rightarrow> int \<Rightarrow> ('b, 'm) slot_pool \<Rightarrow> ('b, 'm) slot_pool" where
  "advance_slot i past token p = p\<lparr>slot_kv_len := (slot_kv_len p)[i := past + 1],
     slot_committed_tokens := (slot_committed_tokens p)[i := slot_committed_tokens p ! i @ [token]],
     num_tokens_seen := (num_tokens_seen p)[i := past + 1]\<rparr>"

fun decode_loop :: "(int \<times> int) list \<Rightarrow> int list \<Rightarrow> int list \<Rightarrow> (('b, 'm) slot_pool, int list \<times> int list) prog" where
  "decode_loop [] rows lens = ret (rows, lens)"
| "decode_loop ((slot, token) # rest) rows lens = with_row slot (\<lambda>i.
     reading (\<lambda>p. (slot_kv_len p ! i, max_seq_len p)) (\<lambda>(past, n).
     guard (past \<ge> n) (RuntimeError ''slot is at capacity'') (
     andThen (prepare_kv_writes slot past 1) (\<lambda>_.
     andThen (write_index slot past) (\<lambda>row.
     andThen (update (advance_slot i past token)) (\<lambda>_.
     decode_loop rest (rows @ [row]) (lens @ [past + 1])))))))"

text \<open>Assigning a list to the first \<open>b\<close> elements of a staging array: numpy repeats a single element.\<close>

definition staged :: "nat \<Rightarrow> int list \<Rightarrow> int list res" where
  "staged b xs = (if length xs = b then Inr xs else if length xs = 1 then Inr (replicate b (hd xs))
     else Inl (ValueError ''could not broadcast input array''))"

record decode_batch =
  db_input_ids :: "int list"
  db_positions :: "int list"
  db_cache_seqlens :: "int list"
  db_write_index :: "int list"
  db_slot_index :: "int list"
  db_page_table :: "int list list"

definition build_decode_batch :: "int list \<Rightarrow> int list \<Rightarrow> (('b, 'm) slot_pool, decode_batch) prog" where
  "build_decode_batch slots tokens = (let b = length slots in
     guard (b = 0) (ValueError ''build_decode_batch requires at least one slot'') (
     reading num_rows (\<lambda>n.
     guard (int b > n) (ValueError ''batch exceeds pool capacity'') (
     andThen (decode_loop (zip slots tokens) [] []) (\<lambda>(rows, lens).
     andThen (lift_res (staged b tokens)) (\<lambda>input_ids.
     andThen (lift_res (staged b (map (\<lambda>s. s - 1) lens))) (\<lambda>positions.
     andThen (lift_res (staged b lens)) (\<lambda>seqlens.
     andThen (lift_res (staged b rows)) (\<lambda>write_rows.
     guard (\<exists>s \<in> set slots. s < 0) (IndexError ''index out of range in self'') (
     reading (\<lambda>p. map (\<lambda>s. global_page_table p ! nat s) slots) (\<lambda>table.
     ret \<lparr>db_input_ids = input_ids, db_positions = positions, db_cache_seqlens = seqlens,
       db_write_index = write_rows, db_slot_index = slots, db_page_table = table\<rparr>)))))))))))"

section \<open>A batched prefill\<close>

text \<open>
  \<^verbatim>\<open>build_prefill_batch\<close> takes slots of one length and as many tokens each.  What the slots' recurrent
  states say (per layer: does it use its ordinary row, does it have a previous state) is tensor state
  and an argument.
\<close>

record prefill_batch =
  pb_input_ids :: "int list list"
  pb_positions :: "int list"
  pb_write_index :: "int list"
  pb_slot_index :: "int list"
  pb_kv_len :: int
  pb_page_table :: "int list list"
  pb_has_previous_state :: bool

fun prefill_states :: "int \<Rightarrow> (bool \<times> bool) list list \<Rightarrow> int list \<Rightarrow> bool set \<Rightarrow> (('b, 'm) slot_pool, bool set) prog" where
  "prefill_states past gdn [] seen = ret seen"
| "prefill_states past gdn (s # ss) seen = reading (\<lambda>p. num_tokens_seen p ! nat s) (\<lambda>n.
     guard (n \<noteq> past) (RuntimeError ''slot state length disagrees with pooled KV length'') (
     guard (\<exists>layer \<in> set (gdn ! nat s). \<not> fst layer) (ValueError ''batched prefill requires ordinary live GDN rows'') (
     prefill_states past gdn ss (seen \<union> snd ` set (gdn ! nat s)))))"

definition physical_row :: "('b, 'm) slot_pool \<Rightarrow> int \<Rightarrow> int \<Rightarrow> int" where
  "physical_row p s n = page_table_host p ! nat s ! nat (n div page_size) * page_size + n mod page_size"

definition build_prefill_batch ::
  "(bool \<times> bool) list list \<Rightarrow> int list \<Rightarrow> int list list \<Rightarrow> (('b, 'm) slot_pool, prefill_batch) prog" where
  "build_prefill_batch gdn slots tokens = (let q = int (length (hd tokens)) in
     guard (slots = [] \<or> length slots \<noteq> length tokens) (ValueError ''slots and token ids must be non-empty and equal length'') (
     guard (\<not> distinct slots) (ValueError ''prefill batch slots must be distinct'') (
     guard ((\<exists>ts \<in> set tokens. int (length ts) \<noteq> q) \<or> q < 1) (ValueError ''batched prefill requires one positive, uniform token count'') (
     reading (\<lambda>p. (num_slots p, max_seq_len p, map (\<lambda>s. slot_kv_len p ! nat s) slots)) (\<lambda>(n, cap, prior).
     guard (\<exists>s \<in> set slots. s < 0 \<or> s \<ge> n) (ValueError ''prefill batch contains an invalid real slot'') (
     let past = hd prior in
     guard (\<exists>x \<in> set prior. x \<noteq> past) (ValueError ''batched prefill requires equal prior KV lengths'') (
     guard (past + q > cap) (RuntimeError ''batched prefill would exceed capacity'') (
     andThen (prefill_states past gdn slots {}) (\<lambda>seen.
     guard (seen = {False, True}) (ValueError ''batched prefill requires matching GDN state regimes'') (
     andThen (for_each (\<lambda>s. prepare_kv_writes s past q) slots) (\<lambda>_.
     reading (\<lambda>p. (concat (map (\<lambda>s. map (physical_row p s) [past..past + q - 1]) slots),
       map (\<lambda>s. global_page_table p ! nat s) slots)) (\<lambda>(rows, table).
     ret \<lparr>pb_input_ids = tokens, pb_positions = concat (replicate (length slots) [past..past + q - 1]),
       pb_write_index = rows, pb_slot_index = slots, pb_kv_len = past + q, pb_page_table = table,
       pb_has_previous_state = (True \<in> seen)\<rparr>))))))))))))"

text \<open>\<^verbatim>\<open>commit_prefill_batch\<close>, called once the forward pass has succeeded.\<close>

definition commit_prefill_slot :: "int \<Rightarrow> int list \<Rightarrow> (('b, 'm) slot_pool, unit) prog" where
  "commit_prefill_slot slot tokens = with_row slot (\<lambda>i. update (\<lambda>p. let n = slot_kv_len p ! i + int (length tokens) in
     p\<lparr>num_tokens_seen := (num_tokens_seen p)[i := n], slot_kv_len := (slot_kv_len p)[i := n]\<rparr>))"

definition commit_prefill_batch :: "int list \<Rightarrow> int list list \<Rightarrow> (('b, 'm) slot_pool, unit) prog" where
  "commit_prefill_batch slots tokens =
     guard (length slots \<noteq> length tokens) (ValueError ''slots and token ids must have equal length'') (
     for_each (\<lambda>(slot, ts). commit_prefill_slot slot ts) (zip slots tokens))"

end
