(* ===== verification/Slot_Sharing.thy ===== *)
theory Slot_Sharing
  imports Slot_Pages
begin

text \<open>
  Ownership of the physical pages in the dynamic mode of \<^verbatim>\<open>Slot_Pages\<close>: every page a slot counts as
  its own has a reference of that slot, whatever calls were made and whichever of them raised; the
  rows of slots that were reset after a failed call hold only their own pages; and a write prepared
  by \<^verbatim>\<open>prepare_kv_writes\<close> reaches no page of another slot and no published page.
\<close>

section \<open>What the page-bundle pool does to counts and hashes\<close>

definition same_size :: "arena \<Rightarrow> arena \<Rightarrow> bool" where
  "same_size a a' \<longleftrightarrow> num_bundles a' = num_bundles a \<and> a_reserved a' = a_reserved a"

lemma same_size_refl [simp]: "same_size a a"
  by (simp add: same_size_def)

lemma same_size_trans: "same_size a b \<Longrightarrow> same_size b c \<Longrightarrow> same_size a c"
  by (simp add: same_size_def)

lemma usable_same_size: "same_size a a' \<Longrightarrow> usable a' b = usable a b"
  by (simp add: same_size_def usable_def)

lemma same_admin_size: "same_admin a a' \<Longrightarrow> same_size a a'"
  by (simp add: same_admin_def same_size_def)

lemma sane_step:
  assumes "sane a"
  shows "sane (snd (call_arena c a))" and "same_size a (snd (call_arena c a))"
proof -
  show "sane (snd (call_arena c a))" by (rule sane_call [OF assms])
  have "shape (num_bundles a) (a_reserved a) (assert_inv a) (watermark a) (snd (call_arena c a))"
    by (rule keeps_snd [OF shape_frame.keeps_call]) (simp add: shape_def)
  then show "same_size a (snd (call_arena c a))" by (simp add: shape_def same_size_def)
qed

lemma sane_ref:
  assumes "sane a"
  shows "0 \<le> b_ref a b" and "b_ref a b \<noteq> 0 \<Longrightarrow> usable a b" and "b_hash a b \<noteq> None \<Longrightarrow> usable a b"
proof -
  obtain xs where w: "arena_at a xs" "idx_ok a" using assms by (rule saneE)
  show "0 \<le> b_ref a b" "b_ref a b \<noteq> 0 \<Longrightarrow> usable a b" "b_hash a b \<noteq> None \<Longrightarrow> usable a b"
    using arena_atD(4,9) [OF w(1), of b] idx_okD(7) [OF w(2), of b] by blast+
qed

text \<open>An allocation either changes nothing or hands out bundles nobody held.\<close>

definition handed_out :: "int list \<Rightarrow> arena \<Rightarrow> arena \<Rightarrow> bool" where
  "handed_out ids a a' \<longleftrightarrow> sane a' \<and> same_size a a' \<and> distinct ids \<and>
     (\<forall>b \<in> set ids. usable a b \<and> b_ref a b = 0) \<and>
     (\<forall>b. b_ref a' b = (if b \<in> set ids then 1 else b_ref a b)) \<and>
     (\<forall>b. b_hash a' b = (if b \<in> set ids then None else b_hash a b))"

lemma allocate_cases:
  assumes "sane a" and "kv_allocate count owner a = (r, a')"
  shows "(\<exists>e. r = Inl e) \<and> a' = a \<or>
    (\<exists>ids. r = Inr ids \<and> int (length ids) = count \<and> handed_out ids a a')"
proof -
  obtain xs where w: "arena_at a xs" "idx_ok a" "res_ok a" using assms(1) by (rule saneE)
  let ?fits = "if reserved_for a owner = 0 then count \<le> unreserved_free_bundles a
    else count \<le> reserved_for a owner"
  show ?thesis
  proof (cases "owner \<noteq> [] \<and> 0 \<le> count \<and> count \<le> int (length xs) \<and> ?fits")
    case True
    let ?ids = "take (nat count) xs"
    obtain a1 where a1: "kv_allocate count owner a = (Inr ?ids, a1)" "sane a1"
      "\<And>b. b_ref a1 b = (if b \<in> set ?ids then 1 else b_ref a b)"
      "\<And>b. b_hash a1 b = (if b \<in> set ?ids then None else b_hash a b)"
      using allocate_run [OF assms(1) w(1), of owner count] True by metis
    have "same_size a a1"
      using sane_step(2) [OF assms(1), of "AAllocate count owner"] a1(1) by (simp add: andThen_def)
    moreover have "usable a b \<and> b_ref a b = 0" if "b \<in> set ?ids" for b
      using arena_atD(5) [OF w(1), of b] in_set_takeD [OF that] by simp
    ultimately have "handed_out ?ids a a1"
      using a1(2-4) arena_atD(6) [OF w(1)] by (simp add: handed_out_def)
    moreover have "int (length ?ids) = count" using True by (auto simp: min_def)
    ultimately show ?thesis using a1(1) assms(2) by auto
  next
    case False
    then have "\<exists>e. kv_allocate count owner a = (Inl e, a)"
      using arena_atD(7) [OF w(1)] by (auto simp: kv_allocate_def split: if_splits)
    then show ?thesis using assms(2) by auto
  qed
qed

lemma ensure_writable_cases:
  assumes "sane a" and "ensure_writable b owner a = (r, a')" and "b_ref a b > 1 \<or> b_hash a b \<noteq> None"
  shows "(\<exists>e. r = Inl e) \<and> a' = a \<or> (\<exists>t. r = Inr t \<and> 0 < b_ref a b \<and> handed_out [t] a a')"
proof (cases "usable a b \<and> b_ref a b \<noteq> 0")
  case False
  then have "\<exists>e. ensure_writable b owner a = (Inl e, a)"
    using assms(3) by (auto simp: ensure_writable_def usable_def)
  then show ?thesis using assms(2) by auto
next
  case True
  obtain r1 a1 where al: "kv_allocate 1 owner a = (r1, a1)" by fastforce
  have pos: "0 < b_ref a b" using True sane_ref(1) [OF assms(1), of b] by simp
  show ?thesis
  proof (cases r1)
    case (Inl e)
    then have "a1 = a" using allocate_cases [OF assms(1) al] by auto
    then show ?thesis
      using True Inl al assms(2,3) by (auto simp: ensure_writable_def usable_def andThen_def)
  next
    case (Inr ids)
    then have ids: "int (length ids) = 1" "handed_out ids a a1"
      using allocate_cases [OF assms(1) al] by auto
    then obtain t where t: "ids = [t]" by (cases ids) auto
    let ?a = "a1\<lparr>pending_cow := dict_set (pending_cow a1) t b\<rparr>"
    have "sane ?a"
      using ids(2) wf_pending by (simp add: handed_out_def sane_def)
    then have "handed_out [t] a ?a"
      using ids(2) t by (simp add: handed_out_def same_size_def)
    moreover have "r = Inr t" "a' = ?a"
      using True t Inr al assms(2,3) by (auto simp: ensure_writable_def usable_def andThen_def)
    ultimately show ?thesis using pos by blast
  qed
qed

lemma decref_run:
  assumes "sane a" and "distinct ids" and "\<And>b. b \<in> set ids \<Longrightarrow> 0 < b_ref a b" and "owner \<noteq> []"
  obtains a' where "decref ids owner a = (Inr (), a')" and "sane a'" and "same_size a a'"
    and "b_hash a' = b_hash a" and "\<And>b. b_ref a' b = (if b \<in> set ids then b_ref a b - 1 else b_ref a b)"
proof -
  have "\<exists>a' ys. for_each decref_one ids a = (Inr (), a') \<and> arena_at a' ys \<and> same_admin a a' \<and>
      idx_ok a' \<and> b_hash a' = b_hash a \<and> (\<forall>b. b_ref a' b = (if b \<in> set ids then b_ref a b - 1 else b_ref a b))"
    if "arena_at a xs" "idx_ok a" "distinct ids" "\<forall>b \<in> set ids. 0 < b_ref a b" for xs
    using that
  proof (induction ids arbitrary: a xs)
    case (Cons b ids)
    have b: "usable a b" "0 < b_ref a b"
      using Cons.prems(4) arena_atD(9) [OF Cons.prems(1), of b] by auto
    obtain a1 ys where a1: "decref_one b a = (Inr (), a1)" "arena_at a1 ys" "same_admin a a1"
      "b_ref a1 = (b_ref a)(b := b_ref a b - 1)" "b_hash a1 = b_hash a" "idx_ok a1 = idx_ok a"
      using decref_one_at [OF Cons.prems(1) b] by metis
    have "\<forall>c \<in> set ids. 0 < b_ref a1 c" using Cons.prems(3,4) a1(4) by auto
    then obtain a2 zs where a2: "for_each decref_one ids a1 = (Inr (), a2)" "arena_at a2 zs" "same_admin a1 a2"
      "idx_ok a2" "b_hash a2 = b_hash a1" "\<forall>c. b_ref a2 c = (if c \<in> set ids then b_ref a1 c - 1 else b_ref a1 c)"
      using Cons.IH [OF a1(2)] Cons.prems(2,3) a1(6) by auto
    have "\<forall>c. b_ref a2 c = (if c \<in> set (b # ids) then b_ref a c - 1 else b_ref a c)"
      using a2(6) a1(4) Cons.prems(3) by auto
    then show ?case
      using a1(1,5) a2(1,2,4,5) same_admin_trans [OF a1(3) a2(3)] by (auto simp: andThen_def)
  qed (auto intro: exI)
  moreover obtain xs where w: "arena_at a xs" "idx_ok a" "res_ok a" using assms(1) by (rule saneE)
  ultimately obtain a' ys where a': "for_each decref_one ids a = (Inr (), a')" "arena_at a' ys" "same_admin a a'"
    "idx_ok a'" "b_hash a' = b_hash a" "\<forall>b. b_ref a' b = (if b \<in> set ids then b_ref a b - 1 else b_ref a b)"
    using assms(2,3) by blast
  have "arena_wf a'" using a'(2,4) w(3) res_ok_cong [OF a'(3)] by (auto intro: arena_wfI)
  then have s: "sane a'" using sane_cong [OF a'(3)] assms(1) by simp
  have "decref ids owner a = (Inr (), a')"
    using a'(1) assms(4) maybe_check_ok [OF s] by (simp add: decref_def andThen_def)
  then show ?thesis using that s same_admin_size [OF a'(3)] a'(5,6) by simp
qed


lemma incref_all_counts:
  assumes "arena_wf a" and "for_each incref_one ids a = (r, a')"
  shows "b_hash a' = b_hash a \<and> (\<forall>b. b_ref a b \<le> b_ref a' b) \<and>
    (r = Inr () \<longrightarrow> (\<forall>b. b_ref a' b = b_ref a b + int (count_list ids b)))"
  using assms
proof (induction ids arbitrary: a)
  case (Cons b ids)
  obtain xs where w: "arena_at a xs" "idx_ok a" "res_ok a" using Cons.prems(1) by (rule arena_wfE)
  show ?case
  proof (cases "revivable a b")
    case False
    then show ?thesis using incref_one_bad [OF w(1) False] Cons.prems(2) by (auto simp: andThen_def)
  next
    case True
    obtain a1 where a1: "incref_one b a = (Inr (), a1)" "b_ref a1 = (b_ref a)(b := b_ref a b + 1)" "b_hash a1 = b_hash a"
      using incref_one_at [OF w(1) True] by metis
    have "arena_wf a1" using keeps_snd [OF wf_incref_one Cons.prems(1), of b] a1(1) by simp
    moreover have "for_each incref_one ids a1 = (r, a')" using Cons.prems(2) a1(1) by (simp add: andThen_def)
    ultimately have *: "b_hash a' = b_hash a1" "\<And>c. b_ref a1 c \<le> b_ref a' c"
      "r = Inr () \<Longrightarrow> b_ref a' c = b_ref a1 c + int (count_list ids c)" for c
      using Cons.IH [of a1] by blast+
    have "b_ref a c \<le> b_ref a' c" for c using *(2) [of c] a1(2) by (simp split: if_splits)
    then show ?thesis using *(1,3) a1(2,3) by auto
  qed
qed simp

lemma incref_cases:
  assumes "sane a" and "incref ids owner a = (r, a')"
  shows "sane a' \<and> same_size a a' \<and> b_hash a' = b_hash a \<and> (\<forall>b. b_ref a b \<le> b_ref a' b) \<and>
    (r = Inr () \<longrightarrow> (\<forall>b \<in> set ids. usable a b) \<and> (\<forall>b. b_ref a' b = b_ref a b + int (count_list ids b)))"
proof -
  have s: "sane a'" "same_size a a'" using sane_step [OF assms(1), of "AIncref ids owner"] assms(2) by simp_all
  let ?chk = "for_each (check_id ''INV7: cannot reference reserved bundle'') ids a"
  obtain c where c: "?chk = (c, a)" using check_ids_snd [of _ ids a] by (metis prod.collapse)
  have "fst (for_each (check_id msg) ids a) = Inr () \<Longrightarrow> \<forall>b \<in> set ids. usable a b" for msg
    by (induction ids) (auto simp: andThen_def check_id_run split: if_splits)
  from this [of "''INV7: cannot reference reserved bundle''"]
  have usable: "c = Inr () \<Longrightarrow> \<forall>b \<in> set ids. usable a b" by (simp add: c)
  obtain r1 a1 where each: "for_each incref_one ids a = (r1, a1)" by (cases "for_each incref_one ids a")
  have wf: "arena_wf a" using assms(1) by (simp add: sane_def)
  note cnt = incref_all_counts [OF wf each]
  have chk: "snd (maybe_invariant_check x) = x" for x :: arena
    by (simp add: maybe_invariant_check_def)
  have run: "incref ids owner a = (if owner = [] then (Inl (ValueError ''owner must be a non-empty string''), a)
      else case c of Inl e \<Rightarrow> (Inl e, a)
      | Inr _ \<Rightarrow> if revivals a ids > reserved_for a owner \<and>
            revivals a ids - reserved_for a owner > unreserved_free_bundles a
          then (Inl (RuntimeError ''cached hit would consume reserved capacity''), a)
          else case r1 of Inl e \<Rightarrow> (Inl e, a1) | Inr _ \<Rightarrow> maybe_invariant_check a1)"
    unfolding incref_def revivals_def
    by (cases c; cases r1) (simp_all add: andThen_def c each)
  have "a' = a \<and> r \<noteq> Inr () \<or> a' = a1 \<and> (r = Inr () \<longrightarrow> c = Inr () \<and> r1 = Inr ())"
  proof (cases c)
    case (Inl e)
    then show ?thesis using assms(2) unfolding run by (auto split: if_splits)
  next
    case c: (Inr u)
    show ?thesis
    proof (cases r1)
      case (Inl e)
      then show ?thesis using c assms(2) unfolding run by (auto split: if_splits)
    next
      case (Inr v)
      then show ?thesis
        using c assms(2) chk [of a1] unfolding run by (cases "maybe_invariant_check a1") (auto split: if_splits)
    qed
  qed
  then show ?thesis using s usable cnt by auto
qed

text \<open>Calls on the books only: they touch neither counts nor hashes.\<close>

definition book_step :: "arena \<Rightarrow> arena \<Rightarrow> bool" where
  "book_step a a' \<longleftrightarrow> sane a' \<and> same_size a a' \<and> b_ref a' = b_ref a \<and> b_hash a' = b_hash a"

lemma book_steps:
  assumes "sane a"
  shows "book_step a (snd (consume_reservation k owner a))" "book_step a (snd (release_reservation owner a))"
    "book_step a (snd (reserve k owner a))" "book_step a (snd (drain_pending_cow a))"
proof -
  have b: "b_ref (snd (consume_res owner k a)) = b_ref a \<and> b_hash (snd (consume_res owner k a)) = b_hash a"
    by (simp add: consume_res_def split: option.split)
  show "book_step a (snd (consume_reservation k owner a))"
    using sane_step [OF assms, of "AConsume k owner"] b by (auto simp: book_step_def consume_reservation_def)
  show "book_step a (snd (release_reservation owner a))"
    using sane_step [OF assms, of "ARelease owner"]
    by (simp add: book_step_def snd_andThen_ret) (simp add: release_reservation_def andThen_def)
  show "book_step a (snd (reserve k owner a))"
    using sane_step [OF assms, of "AReserve k owner"]
    by (simp add: book_step_def snd_andThen_ret) (simp add: reserve_def andThen_def check_admission_fits_def)
  show "book_step a (snd (drain_pending_cow a))"
    using sane_step [OF assms, of ADrain]
    by (simp add: book_step_def snd_andThen_ret) (simp add: drain_pending_cow_def andThen_def)
qed

lemma publish_refs:
  assumes "sane a"
  shows "b_ref (snd (cache_full_blocks ks ids a)) = b_ref a"
proof -
  have "keeps (\<lambda>x. arena_wf x \<and> b_ref x = b_ref a) (publish_guarded b k)" for b k
  proof (rule keepsI)
    fix x assume x: "arena_wf x \<and> b_ref x = b_ref a"
    then have "1 \<le> a_reserved x" by (auto elim: arena_wfE simp: arena_at_def)
    then show "arena_wf (snd (publish_guarded b k x)) \<and> b_ref (snd (publish_guarded b k x)) = b_ref a"
      using publish_guarded_Inr [of b k x] published_views(4) [of b k x] keeps_snd [OF wf_publish_guarded, of x b k] x
      by (cases "publish_guarded b k x") auto
  qed
  then have "keeps (\<lambda>x. arena_wf x \<and> b_ref x = b_ref a) (cache_full_blocks ks ids)"
    unfolding cache_full_blocks_def
    by (intro sound_guard sound_andThen [where R = "\<lambda>_ x. arena_wf x \<and> b_ref x = b_ref a"] keeps_for_each keeps_check)
      auto
  from keeps_snd [OF this, of a] show ?thesis using assms by (simp add: sane_def)
qed

section \<open>Ownership\<close>

text \<open>The slots that count a page as theirs.\<close>

definition holders :: "int set list \<Rightarrow> int \<Rightarrow> nat set" where
  "holders owned b = {i. i < length owned \<and> b \<in> owned ! i}"

lemma holders_fin [simp]: "finite (holders owned b)"
  by (simp add: holders_def)

lemma card_holders_update:
  assumes "i < length owned"
  shows "int (card (holders (owned[i := B]) b)) =
    int (card (holders owned b)) - of_bool (b \<in> owned ! i) + of_bool (b \<in> B)"
proof -
  let ?rest = "{j. j < length owned \<and> j \<noteq> i \<and> b \<in> owned ! j}"
  have fin: "finite ?rest" "i \<notin> ?rest" by auto
  have new: "holders (owned[i := B]) b = (if b \<in> B then insert i ?rest else ?rest)"
    using assms by (auto simp: holders_def nth_list_update split: if_splits)
  have old: "holders owned b = (if b \<in> owned ! i then insert i ?rest else ?rest)"
    using assms by (auto simp: holders_def)
  show ?thesis using fin unfolding new old by simp
qed

text \<open>A page of two slots has two references.\<close>

lemma two_holders:
  assumes "i < length owned" and "j < length owned" and "i \<noteq> j" and "b \<in> owned ! i" and "b \<in> owned ! j"
  shows "2 \<le> card (holders owned b)"
proof -
  have "{i, j} \<subseteq> holders owned b" using assms by (auto simp: holders_def)
  then have "card {i, j} \<le> card (holders owned b)" by (intro card_mono) auto
  then show ?thesis using assms(3) by simp
qed

text \<open>
  The books of the slot layer are right: each page has at least as many references as slots that
  count it as theirs, and a host row without a page agrees with the device's.
\<close>

definition accounted :: "('b, 'm) slot_pool \<Rightarrow> bool" where
  "accounted p \<longleftrightarrow> dynamic_arena p \<and> sane (kv_arena p) \<and> a_reserved (kv_arena p) = 1 \<and>
     num_bundles (kv_arena p) = pool_bundles p \<and> 0 \<le> num_slots p \<and>
     length (slot_bundles p) = nat (num_rows p) \<and> length (page_table_host p) = nat (num_rows p) \<and>
     length (global_page_table p) = nat (num_rows p) \<and>
     (\<forall>i < nat (num_rows p). int (length (page_table_host p ! i)) = pages_per_slot p \<and>
        (set (page_table_host p ! i) \<subseteq> {0} \<longrightarrow> global_page_table p ! i = page_table_host p ! i)) \<and>
     (\<forall>b. int (card (holders (slot_bundles p) b)) \<le> b_ref (kv_arena p) b)"

text \<open>The row of a slot: it maps to pages of the slot, each at most once, on the host and on the device.\<close>

definition row_ok :: "('b, 'm) slot_pool \<Rightarrow> nat \<Rightarrow> bool" where
  "row_ok p i \<longleftrightarrow> set (page_table_host p ! i) \<subseteq> insert 0 (slot_bundles p ! i) \<and>
     distinct (filter (\<lambda>page. page \<noteq> 0) (page_table_host p ! i)) \<and>
     global_page_table p ! i = page_table_host p ! i"

text \<open>All rows are right but those of the slots in \<open>S\<close>.\<close>

definition owned_rows :: "int set \<Rightarrow> ('b, 'm) slot_pool \<Rightarrow> bool" where
  "owned_rows S p \<longleftrightarrow> accounted p \<and> (\<forall>i < nat (num_rows p). int i \<notin> S \<longrightarrow> row_ok p i)"

lemma owned_rows_mono: "owned_rows S p \<Longrightarrow> S \<subseteq> T \<Longrightarrow> owned_rows T p"
  by (auto simp: owned_rows_def)

lemma accountedD:
  assumes "accounted p"
  shows "dynamic_arena p" "sane (kv_arena p)" "a_reserved (kv_arena p) = 1"
    "num_bundles (kv_arena p) = pool_bundles p" "0 \<le> num_slots p"
    "length (slot_bundles p) = nat (num_rows p)" "length (page_table_host p) = nat (num_rows p)"
    "length (global_page_table p) = nat (num_rows p)"
    "i < nat (num_rows p) \<Longrightarrow> int (length (page_table_host p ! i)) = pages_per_slot p"
    "int (card (holders (slot_bundles p) b)) \<le> b_ref (kv_arena p) b"
  using assms by (simp_all add: accounted_def)

lemma owned_usable:
  assumes "accounted p" and "i < nat (num_rows p)" and "b \<in> slot_bundles p ! i"
  shows "0 < b_ref (kv_arena p) b" and "0 < b" and "b < pool_bundles p"
proof -
  have "i \<in> holders (slot_bundles p) b" using assms accountedD(6) [OF assms(1)] by (simp add: holders_def)
  then have "0 < card (holders (slot_bundles p) b)" by (auto simp: card_gt_0_iff)
  then show r: "0 < b_ref (kv_arena p) b" using accountedD(10) [OF assms(1), of b] by linarith
  show "0 < b" "b < pool_bundles p"
    using sane_ref(2) [OF accountedD(2) [OF assms(1)], of b] r accountedD(3,4) [OF assms(1)] by (simp_all add: usable_def)
qed

lemma owned_finite:
  assumes "accounted p" and "i < nat (num_rows p)"
  shows "finite (slot_bundles p ! i)"
proof (rule finite_subset)
  show "slot_bundles p ! i \<subseteq> {0..pool_bundles p}" using owned_usable [OF assms] by force
qed simp

text \<open>Changing the arena and the pages of one slot keeps the books right if the counts follow.\<close>

lemma accounted_step:
  assumes "accounted p" and "i < nat (num_rows p)" and "sane a" and "same_size (kv_arena p) a"
    and "\<And>b. b_ref (kv_arena p) b - of_bool (b \<in> slot_bundles p ! i) + of_bool (b \<in> B) \<le> b_ref a b"
  shows "accounted (p\<lparr>kv_arena := a, slot_bundles := (slot_bundles p)[i := B]\<rparr>)"
proof -
  have i: "i < length (slot_bundles p)" using assms(1,2) by (simp add: accountedD(6))
  have "int (card (holders ((slot_bundles p)[i := B]) b)) \<le> b_ref a b" for b
    using card_holders_update [OF i, of B b] accountedD(10) [OF assms(1), of b] assms(5) [of b] by linarith
  then show ?thesis
    using assms(1,3,4) unfolding accounted_def same_size_def num_rows_def by simp
qed

lemma accounted_arena:
  assumes "accounted p" and "sane a" and "same_size (kv_arena p) a"
    and "\<And>b. b_ref (kv_arena p) b \<le> b_ref a b"
  shows "accounted (p\<lparr>kv_arena := a\<rparr>)"
proof -
  have "int (card (holders (slot_bundles p) b)) \<le> b_ref a b" for b
    using accountedD(10) [OF assms(1), of b] assms(4) [of b] by linarith
  then show ?thesis
    using assms(1-3) unfolding accounted_def same_size_def num_rows_def by simp
qed

lemma owned_rows_arena:
  assumes "owned_rows S p" and "sane a" and "same_size (kv_arena p) a"
    and "\<And>b. b_ref (kv_arena p) b \<le> b_ref a b"
  shows "owned_rows S (p\<lparr>kv_arena := a\<rparr>)"
  using accounted_arena [OF _ assms(2-4)] assms(1) by (simp add: owned_rows_def row_ok_def num_rows_def)

section \<open>Replacing one page\<close>

text \<open>
  Slot \<open>i\<close> has given up page \<open>s\<close> (or nothing, when \<open>s\<close> is the null page) and holds the fresh
  private page \<open>t\<close> instead.
\<close>

definition moved :: "nat \<Rightarrow> int \<Rightarrow> int \<Rightarrow> ('b, 'm) slot_pool \<Rightarrow> ('b, 'm) slot_pool \<Rightarrow> bool" where
  "moved i s t p p' \<longleftrightarrow> (\<exists>a. p' = p\<lparr>kv_arena := a, slot_bundles := (slot_bundles p)[i := insert t (slot_bundles p ! i - {s})]\<rparr> \<and>
     sane a \<and> same_size (kv_arena p) a \<and> usable (kv_arena p) t \<and> b_ref (kv_arena p) t = 0 \<and>
     (\<forall>b. b_ref a b = (if b = t then 1 else if b = s \<and> s \<noteq> 0 then b_ref (kv_arena p) b - 1 else b_ref (kv_arena p) b)) \<and>
     (\<forall>b. b_hash a b = (if b = t then None else b_hash (kv_arena p) b)))"

lemma movedE:
  assumes "moved i s t p p'"
  obtains a where "p' = p\<lparr>kv_arena := a, slot_bundles := (slot_bundles p)[i := insert t (slot_bundles p ! i - {s})]\<rparr>"
    and "sane a" and "same_size (kv_arena p) a" and "usable (kv_arena p) t" and "b_ref (kv_arena p) t = 0"
    and "\<And>b. b_ref a b = (if b = t then 1 else if b = s \<and> s \<noteq> 0 then b_ref (kv_arena p) b - 1 else b_ref (kv_arena p) b)"
    and "\<And>b. b_hash a b = (if b = t then None else b_hash (kv_arena p) b)"
  using assms unfolding moved_def by (elim exE conjE) blast

lemma slot_owner_ne [simp]: "slot_owner s \<noteq> []"
  by (simp add: slot_owner_def)

lemma allocate_one_cases:
  assumes "sane (kv_arena p)" and "allocate_one_page owner p = (r, p')"
  shows "(\<exists>e. r = Inl e) \<and> p' = p \<or> (\<exists>t a. r = Inr t \<and> p' = p\<lparr>kv_arena := a\<rparr> \<and> handed_out [t] (kv_arena p) a)"
proof -
  obtain r1 a where al: "kv_allocate 1 owner (kv_arena p) = (r1, a)" by (cases "kv_allocate 1 owner (kv_arena p)")
  show ?thesis
  proof (cases r1)
    case (Inl e)
    then have "a = kv_arena p" using allocate_cases [OF assms(1) al] by simp
    then show ?thesis using assms(2) Inl al by (auto simp: allocate_one_page_def on_field_def andThen_def)
  next
    case (Inr ids)
    then have "int (length ids) = 1 \<and> handed_out ids (kv_arena p) a" using allocate_cases [OF assms(1) al] by simp
    moreover from this obtain t where "ids = [t]" by (cases ids) auto
    ultimately show ?thesis using assms(2) Inr al by (auto simp: allocate_one_page_def on_field_def andThen_def)
  qed
qed

lemma detach_page_cases:
  assumes "accounted p" and "i < nat (num_rows p)" and "source \<in> slot_bundles p ! i"
    and "b_ref (kv_arena p) source > 1 \<or> b_hash (kv_arena p) source \<noteq> None"
    and "detach_page slot i source p = (r, p')"
  shows "(\<exists>e. r = Inl e) \<and> p' = p \<or> (\<exists>t. r = Inr t \<and> moved i source t p p')"
proof -
  let ?a = "kv_arena p"
  have i: "i < length (slot_bundles p)" using assms(1,2) by (simp add: accountedD(6))
  have src: "0 < b_ref ?a source" "source \<noteq> 0" using owned_usable [OF assms(1-3)] by simp_all
  obtain r1 a1 where e: "ensure_writable source (slot_owner slot) ?a = (r1, a1)"
    by (cases "ensure_writable source (slot_owner slot) ?a")
  note cases = ensure_writable_cases [OF accountedD(2) [OF assms(1)] e assms(4)]
  show ?thesis
  proof (cases r1)
    case (Inl err)
    then have "a1 = ?a" using cases by simp
    then show ?thesis using assms(5) Inl e by (auto simp: detach_page_def on_field_def andThen_def)
  next
    case (Inr t)
    then have h: "handed_out [t] ?a a1" using cases by simp
    then have t: "usable ?a t" "b_ref ?a t = 0" "t \<noteq> source" "sane a1" "same_size ?a a1"
      using src by (auto simp: handed_out_def)
    have "0 < b_ref a1 source" using h src t(3) by (simp add: handed_out_def)
    then obtain a2 where a2: "decref [source] (slot_owner slot) a1 = (Inr (), a2)" "sane a2" "same_size a1 a2"
      "b_hash a2 = b_hash a1" "\<And>b. b_ref a2 b = (if b \<in> set [source] then b_ref a1 b - 1 else b_ref a1 b)"
      using decref_run [OF t(4), of "[source]" "slot_owner slot"] by auto
    have "r = Inr t" "p' = p\<lparr>kv_arena := a2, slot_bundles := (slot_bundles p)[i := insert t (slot_bundles p ! i - {source})]\<rparr>"
      using assms(5) Inr e a2(1) i
      by (simp_all add: detach_page_def on_field_def andThen_def discard_bundle_def add_bundles_def)
    moreover have "b_ref a2 b = (if b = t then 1 else if b = source \<and> source \<noteq> 0 then b_ref ?a b - 1 else b_ref ?a b)"
      "b_hash a2 b = (if b = t then None else b_hash ?a b)" for b
      using a2(4,5) h t(3) src(2) by (simp_all add: handed_out_def)
    ultimately show ?thesis
      using a2(2) same_size_trans [OF t(5) a2(3)] t(1,2) by (auto simp: moved_def)
  qed
qed

text \<open>What the loop bodies of the dynamic mode do to a page of the slot's row.\<close>

definition keep_or_move :: "bool \<Rightarrow> nat \<Rightarrow> (int \<Rightarrow> (('b, 'm) slot_pool, int option) prog) \<Rightarrow> bool" where
  "keep_or_move strict i visit \<longleftrightarrow> (\<forall>p source r p'. accounted p \<and> i < nat (num_rows p) \<and>
     source \<in> insert 0 (slot_bundles p ! i) \<and> visit source p = (r, p') \<longrightarrow>
     (case r of Inl e \<Rightarrow> p' = p
      | Inr None \<Rightarrow> p' = p \<and> (strict \<longrightarrow> source \<noteq> 0 \<and> b_ref (kv_arena p) source = 1 \<and> b_hash (kv_arena p) source = None)
      | Inr (Some t) \<Rightarrow> moved i source t p p'))"

lemma visit_write_moves: "keep_or_move True i (visit_write slot i)"
  unfolding keep_or_move_def
proof (intro allI impI, elim conjE)
  fix p source r p'
  assume a: "accounted p" "i < nat (num_rows p)" "source \<in> insert 0 (slot_bundles p ! i)"
    and run: "visit_write slot i source p = (r, p')"
  let ?goal = "case r of Inl e \<Rightarrow> p' = p
      | Inr None \<Rightarrow> p' = p \<and> (True \<longrightarrow> source \<noteq> 0 \<and> b_ref (kv_arena p) source = 1 \<and> b_hash (kv_arena p) source = None)
      | Inr (Some t) \<Rightarrow> moved i source t p p'"
  have i: "i < length (slot_bundles p)" using a(1,2) by (simp add: accountedD(6))
  show ?goal
  proof (cases "source = 0")
    case True
    obtain r1 p1 where al: "allocate_one_page (slot_owner slot) p = (r1, p1)"
      by (cases "allocate_one_page (slot_owner slot) p")
    note c = allocate_one_cases [OF accountedD(2) [OF a(1)] al]
    have null: "0 \<notin> slot_bundles p ! i" using owned_usable(2) [OF a(1,2), of 0] by auto
    show ?thesis
    proof (cases r1)
      case (Inl e)
      then show ?thesis using c run True al by (auto simp: visit_write_def andThen_def)
    next
      case (Inr t)
      then obtain a1 where a1: "p1 = p\<lparr>kv_arena := a1\<rparr>" "handed_out [t] (kv_arena p) a1" using c by auto
      have "r = Inr (Some t)" "p' = p\<lparr>kv_arena := a1, slot_bundles := (slot_bundles p)[i := insert t (slot_bundles p ! i - {source})]\<rparr>"
        using run True al Inr a1(1) null by (auto simp: visit_write_def andThen_def add_bundles_def)
      then show ?thesis using a1(2) True by (auto simp: moved_def handed_out_def)
    qed
  next
    case False
    then have own: "source \<in> slot_bundles p ! i" using a(3) by simp
    let ?shared = "b_ref (kv_arena p) source > 1 \<or> b_hash (kv_arena p) source \<noteq> None"
    show ?thesis
    proof (cases ?shared)
      case True
      obtain r1 p1 where d: "detach_page slot i source p = (r1, p1)" by (cases "detach_page slot i source p")
      show ?thesis
        using detach_page_cases [OF a(1,2) own True d] run False True d
        by (cases r1) (auto simp: visit_write_def andThen_def)
    next
      case unshared: False
      then have "r = Inr None" "p' = p" using run False by (auto simp: visit_write_def)
      moreover have "b_ref (kv_arena p) source = 1"
        using unshared owned_usable(1) [OF a(1,2) own] by simp
      ultimately show ?thesis using unshared False by simp
    qed
  qed
qed

lemma visit_alias_moves: "keep_or_move False i (visit_alias slot i scratch)"
  unfolding keep_or_move_def
proof (intro allI impI, elim conjE)
  fix p source r p'
  assume a: "accounted p" "i < nat (num_rows p)" "source \<in> insert 0 (slot_bundles p ! i)"
    and run: "visit_alias slot i scratch source p = (r, p')"
  let ?goal = "case r of Inl e \<Rightarrow> p' = p
      | Inr None \<Rightarrow> p' = p \<and> (False \<longrightarrow> source \<noteq> 0 \<and> b_ref (kv_arena p) source = 1 \<and> b_hash (kv_arena p) source = None)
      | Inr (Some t) \<Rightarrow> moved i source t p p'"
  show ?goal
  proof (cases "source \<notin> scratch \<or> b_ref (kv_arena p) source \<le> 1")
    case True
    then show ?thesis using run by (auto simp: visit_alias_def)
  next
    case False
    have "b_ref (kv_arena p) 0 = 0"
      using sane_ref(2) [OF accountedD(2) [OF a(1)], of 0] accountedD(3) [OF a(1)] by (auto simp: usable_def)
    then have own: "source \<in> slot_bundles p ! i" using False a(3) by auto
    obtain r1 p1 where d: "detach_page slot i source p = (r1, p1)" by (cases "detach_page slot i source p")
    show ?thesis
      using detach_page_cases [OF a(1,2) own _ d] run False d
      by (cases r1) (auto simp: visit_alias_def andThen_def)
  qed
qed

lemma accounted_moved:
  assumes "accounted p" and "i < nat (num_rows p)" and "s \<in> insert 0 (slot_bundles p ! i)" and "moved i s t p p'"
  shows "accounted p'" and "t \<noteq> 0" and "j < nat (num_rows p) \<Longrightarrow> t \<notin> slot_bundles p ! j"
proof -
  obtain a where a: "p' = p\<lparr>kv_arena := a, slot_bundles := (slot_bundles p)[i := insert t (slot_bundles p ! i - {s})]\<rparr>"
    "sane a" "same_size (kv_arena p) a" "usable (kv_arena p) t" "b_ref (kv_arena p) t = 0"
    "\<And>b. b_ref a b = (if b = t then 1 else if b = s \<and> s \<noteq> 0 then b_ref (kv_arena p) b - 1 else b_ref (kv_arena p) b)"
    "\<And>b. b_hash a b = (if b = t then None else b_hash (kv_arena p) b)"
    using assms(4) by (elim movedE) (rule that)
  show t: "t \<noteq> 0" using a(4) accountedD(3) [OF assms(1)] by (simp add: usable_def)
  show out: "t \<notin> slot_bundles p ! j" if "j < nat (num_rows p)" for j
    using owned_usable(1) [OF assms(1) that, of t] a(5) by auto
  have null: "0 \<notin> slot_bundles p ! i" using owned_usable(2) [OF assms(1,2), of 0] by auto
  have "b_ref (kv_arena p) b - of_bool (b \<in> slot_bundles p ! i) + of_bool (b \<in> insert t (slot_bundles p ! i - {s})) \<le> b_ref a b" for b
    using a(5) a(6) [of b] out [OF assms(2)] null assms(3) by auto
  from accounted_step [OF assms(1,2) a(2,3) this] show "accounted p'" by (simp only: a(1))
qed

section \<open>Replacing the pages of a row\<close>

lemma distinct_filter_nth:
  "distinct (filter P xs) \<longleftrightarrow> (\<forall>k < length xs. \<forall>l < length xs. k \<noteq> l \<longrightarrow> P (xs ! k) \<longrightarrow> xs ! k \<noteq> xs ! l)"
proof (induction xs)
  case (Cons x xs)
  have "(\<forall>k < Suc n. Q k) \<longleftrightarrow> Q 0 \<and> (\<forall>k < n. Q (Suc k))" for n and Q :: "nat \<Rightarrow> bool"
    by (metis less_Suc_eq_0_disj)
  then show ?case using Cons.IH by (auto simp: in_set_conv_nth)
qed simp

text \<open>The page whose bytes page \<open>b\<close> holds after the copies.\<close>

definition carries :: "replacement list \<Rightarrow> int \<Rightarrow> int" where
  "carries reps = clone_pages reps (\<lambda>b. b)"

lemma clone_pages_carries: "clone_pages reps f b = f (carries reps b)"
proof (induction reps arbitrary: b rule: rev_induct)
  case (snoc x reps)
  obtain lp s t where x: "x = (lp, s, t)" by (cases x)
  show ?case
    using snoc [of b] snoc [of s] by (auto simp: carries_def clone_pages_def copy_page_def x)
qed (simp add: clone_pages_def carries_def)

lemma carries_Nil [simp]: "carries [] b = b"
  by (simp add: carries_def clone_pages_def)

lemma carries_snoc:
  "carries (reps @ [(lp, s, t)]) b = (if s \<noteq> 0 \<and> b = t then carries reps s else carries reps b)"
  by (simp add: carries_def clone_pages_def copy_page_def)

definition private_page :: "('b, 'm) slot_pool \<Rightarrow> int \<Rightarrow> bool" where
  "private_page p b \<longleftrightarrow> b \<noteq> 0 \<and> b_ref (kv_arena p) b = 1 \<and> b_hash (kv_arena p) b = None"

text \<open>
  The state of the loop over the logical pages of row \<open>i\<close>, started in \<open>p0\<close>, once the pages \<open>seen\<close>
  are behind it: what it has done to the pool and to its copy of the row.
\<close>

definition remapped :: "nat \<Rightarrow> ('b, 'm) slot_pool \<Rightarrow> int list \<Rightarrow> int list \<Rightarrow> replacement list \<Rightarrow> ('b, 'm) slot_pool \<Rightarrow> bool" where
  "remapped i p0 seen row reps p \<longleftrightarrow> accounted p \<and>
     p = p0\<lparr>kv_arena := kv_arena p, slot_bundles := (slot_bundles p0)[i := slot_bundles p ! i]\<rparr> \<and>
     length row = length (page_table_host p0 ! i) \<and> set row \<subseteq> insert 0 (slot_bundles p ! i) \<and>
     distinct (filter (\<lambda>page. page \<noteq> 0) row) \<and>
     (reps = [] \<longrightarrow> p = p0 \<and> row = page_table_host p0 ! i) \<and>
     (\<forall>k < length row. int k \<notin> set seen \<longrightarrow> row ! k = page_table_host p0 ! i ! k)"

text \<open>... and what the copies it has collected will do to the bytes.\<close>

definition bytes_kept :: "nat \<Rightarrow> ('b, 'm) slot_pool \<Rightarrow> int list \<Rightarrow> replacement list \<Rightarrow> ('b, 'm) slot_pool \<Rightarrow> bool" where
  "bytes_kept i p0 row reps p \<longleftrightarrow>
     (\<forall>k < length row. page_table_host p0 ! i ! k \<noteq> 0 \<longrightarrow>
        row ! k \<noteq> 0 \<and> carries reps (row ! k) = page_table_host p0 ! i ! k) \<and>
     (\<forall>j < nat (num_rows p0). j \<noteq> i \<longrightarrow> (\<forall>b \<in> slot_bundles p0 ! j. carries reps b = b)) \<and>
     (\<forall>b. b_hash (kv_arena p) b \<noteq> None \<longrightarrow> carries reps b = b \<and> b_hash (kv_arena p) b = b_hash (kv_arena p0) b) \<and>
     (\<forall>j < nat (num_rows p0). j \<noteq> i \<longrightarrow> (\<forall>b \<in> slot_bundles p0 ! j. private_page p0 b \<longrightarrow> private_page p b))"

lemma remappedD:
  assumes "remapped i p0 seen row reps p"
  shows "accounted p" "p = p0\<lparr>kv_arena := kv_arena p, slot_bundles := (slot_bundles p0)[i := slot_bundles p ! i]\<rparr>"
    "length row = length (page_table_host p0 ! i)" "set row \<subseteq> insert 0 (slot_bundles p ! i)"
    "distinct (filter (\<lambda>page. page \<noteq> 0) row)" "reps = [] \<Longrightarrow> p = p0 \<and> row = page_table_host p0 ! i"
    "k < length row \<Longrightarrow> int k \<notin> set seen \<Longrightarrow> row ! k = page_table_host p0 ! i ! k"
  using assms unfolding remapped_def by blast+

lemma remapped_views:
  assumes "remapped i p0 seen row reps p"
  shows "num_rows p = num_rows p0" "page_table_host p = page_table_host p0" "j \<noteq> i \<Longrightarrow> slot_bundles p ! j = slot_bundles p0 ! j"
    "num_slots p = num_slots p0" "global_page_table p = global_page_table p0" "backbone_kv p = backbone_kv p0"
    "mtp_cow_family p = mtp_cow_family p0" "pages_per_slot p = pages_per_slot p0" "pool_bundles p = pool_bundles p0"
  by (subst remappedD(2) [OF assms], simp add: num_rows_def)+

lemma remapped_start:
  assumes "accounted p" and "row_ok p i" and "i < nat (num_rows p)"
  shows "remapped i p [] (page_table_host p ! i) [] p" and "bytes_kept i p (page_table_host p ! i) [] p"
  using assms by (simp_all add: remapped_def row_ok_def bytes_kept_def)

lemma remapped_keep:
  "remapped i p0 seen row reps p \<Longrightarrow> remapped i p0 (seen @ [lp]) row reps p"
  by (simp add: remapped_def)

lemma remapped_fresh:
  assumes "remapped i p0 seen row reps p" and "i < nat (num_rows p0)" and "k < length row" and "moved i (row ! k) t p p1"
  shows "t \<noteq> 0" and "t \<notin> set row" and "accounted p1" and "row ! k \<in> insert 0 (slot_bundles p ! i)"
proof -
  note d = remappedD [OF assms(1)]
  have i: "i < nat (num_rows p)" using assms(2) remapped_views(1) [OF assms(1)] by simp
  show k: "row ! k \<in> insert 0 (slot_bundles p ! i)" using d(4) assms(3) by (auto dest: nth_mem)
  note m = accounted_moved [OF d(1) i k assms(4)]
  show "t \<noteq> 0" "accounted p1" by (rule m)+
  then show "t \<notin> set row" using m(3) [OF i] d(4) by auto
qed

lemma remapped_move:
  assumes "remapped i p0 seen row reps p" and "i < nat (num_rows p0)" and "k < length row" and "moved i (row ! k) t p p1"
  shows "remapped i p0 (seen @ [int k]) (row[k := t]) (reps @ [(int k, row ! k, t)]) p1"
proof -
  note d = remappedD [OF assms(1)] and f = remapped_fresh [OF assms]
  obtain a where a: "p1 = p\<lparr>kv_arena := a, slot_bundles := (slot_bundles p)[i := insert t (slot_bundles p ! i - {row ! k})]\<rparr>"
    using assms(4) by (elim movedE) (rule that)
  have i: "i < length (slot_bundles p)"
    using assms(2) remapped_views(1) [OF assms(1)] accountedD(6) [OF d(1)] by simp
  have same: "p1 = p0\<lparr>kv_arena := kv_arena p1, slot_bundles := (slot_bundles p0)[i := slot_bundles p1 ! i]\<rparr>"
  proof -
    have "p1 = (p0\<lparr>kv_arena := kv_arena p, slot_bundles := (slot_bundles p0)[i := slot_bundles p ! i]\<rparr>)
        \<lparr>kv_arena := a, slot_bundles := (slot_bundles p)[i := insert t (slot_bundles p ! i - {row ! k})]\<rparr>"
      using a d(2) by simp
    moreover have "(slot_bundles p)[i := X] = (slot_bundles p0)[i := X]" for X
      by (subst d(2)) simp
    moreover have "length (slot_bundles p) = length (slot_bundles p0)" by (subst d(2)) simp
    ultimately show ?thesis using i a by simp
  qed
  have kl: "row ! k \<noteq> 0 \<Longrightarrow> l < length row \<Longrightarrow> l \<noteq> k \<Longrightarrow> row ! l \<noteq> row ! k" for l
    using d(5) assms(3) unfolding distinct_filter_nth by metis
  have "set (row[k := t]) \<subseteq> insert 0 (slot_bundles p1 ! i)"
  proof
    fix x assume "x \<in> set (row[k := t])"
    then obtain l where l: "l < length row" "x = row[k := t] ! l" by (auto simp: in_set_conv_nth)
    show "x \<in> insert 0 (slot_bundles p1 ! i)"
    proof (cases "l = k")
      case True
      then show ?thesis using l i a by simp
    next
      case False
      then have x: "x = row ! l" using l by simp
      have "x \<in> insert 0 (slot_bundles p ! i)" using d(4) l(1) x by (auto dest: nth_mem)
      moreover have "x = 0 \<or> x \<noteq> row ! k" using kl [OF _ l(1) False] x by auto
      ultimately show ?thesis using i a by auto
    qed
  qed
  moreover have "distinct (filter (\<lambda>page. page \<noteq> 0) (row[k := t]))"
    unfolding distinct_filter_nth
  proof (intro allI impI)
    fix u v assume uv: "u < length (row[k := t])" "v < length (row[k := t])" "u \<noteq> v" "row[k := t] ! u \<noteq> 0"
    have "row ! u \<noteq> t" "row ! v \<noteq> t" using f(2) uv(1,2) by (auto dest: nth_mem)
    moreover have "row ! u \<noteq> 0 \<Longrightarrow> row ! u \<noteq> row ! v"
      using d(5) uv(1-3) unfolding distinct_filter_nth by simp
    ultimately show "row[k := t] ! u \<noteq> row[k := t] ! v" using uv assms(3) by (auto simp: nth_list_update split: if_splits)
  qed
  moreover have "row[k := t] ! l = page_table_host p0 ! i ! l"
    if "l < length (row[k := t])" "int l \<notin> set (seen @ [int k])" for l
    using d(7) [of l] that by simp
  ultimately show ?thesis
    unfolding remapped_def using f(3) same d(3) by simp
qed

lemma bytes_move:
  assumes "remapped i p0 seen row reps p" and "i < nat (num_rows p0)" and "k < length row" and "moved i (row ! k) t p p1"
    and "bytes_kept i p0 row reps p"
  shows "bytes_kept i p0 (row[k := t]) (reps @ [(int k, row ! k, t)]) p1"
proof -
  note d = remappedD [OF assms(1)] and f = remapped_fresh [OF assms(1-4)] and v = remapped_views [OF assms(1)]
  have i: "i < nat (num_rows p)" using assms(2) v(1) by simp
  note m = accounted_moved [OF d(1) i f(4) assms(4)]
  obtain a where a: "p1 = p\<lparr>kv_arena := a, slot_bundles := (slot_bundles p)[i := insert t (slot_bundles p ! i - {row ! k})]\<rparr>"
    "sane a" "same_size (kv_arena p) a" "usable (kv_arena p) t" "b_ref (kv_arena p) t = 0"
    "\<And>b. b_ref a b = (if b = t then 1 else if b = row ! k \<and> row ! k \<noteq> 0 then b_ref (kv_arena p) b - 1 else b_ref (kv_arena p) b)"
    "\<And>b. b_hash a b = (if b = t then None else b_hash (kv_arena p) b)"
    using assms(4) by (elim movedE) (rule that)
  let ?reps = "reps @ [(int k, row ! k, t)]"
  have "row[k := t] ! l \<noteq> 0 \<and> carries ?reps (row[k := t] ! l) = page_table_host p0 ! i ! l"
    if "l < length (row[k := t])" "page_table_host p0 ! i ! l \<noteq> 0" for l
  proof -
    have l: "row ! l \<noteq> 0" "carries reps (row ! l) = page_table_host p0 ! i ! l" "row ! l \<noteq> t"
      using assms(5) that f(2) by (auto simp: bytes_kept_def dest: nth_mem)
    then show ?thesis using that f(1) by (cases "l = k") (simp_all add: carries_snoc)
  qed
  moreover have "carries ?reps b = b" if "j < nat (num_rows p0)" "j \<noteq> i" "b \<in> slot_bundles p0 ! j" for j b
  proof -
    have "b \<noteq> t" using m(3) [of j] that v(1) v(3) [of j] by auto
    then show ?thesis using assms(5) that by (simp add: bytes_kept_def carries_snoc)
  qed
  moreover have "carries ?reps b = b \<and> b_hash (kv_arena p1) b = b_hash (kv_arena p0) b" if "b_hash (kv_arena p1) b \<noteq> None" for b
  proof -
    have "b \<noteq> t" "b_hash (kv_arena p) b \<noteq> None" "b_hash (kv_arena p1) b = b_hash (kv_arena p) b"
      using that a(1,7) by (auto split: if_splits)
    then show ?thesis using assms(5) by (simp add: bytes_kept_def carries_snoc)
  qed
  moreover have "private_page p1 b"
    if b: "j < nat (num_rows p0)" "j \<noteq> i" "b \<in> slot_bundles p0 ! j" "private_page p0 b" for j b
  proof -
    have pb: "private_page p b" using assms(5) b by (simp add: bytes_kept_def)
    have held: "j < nat (num_rows p)" "b \<in> slot_bundles p ! j" using b v(1) v(3) [of j] by simp_all
    have "b \<noteq> row ! k" if "row ! k \<noteq> 0"
    proof
      assume "b = row ! k"
      then have "b \<in> slot_bundles p ! i" using f(4) that by simp
      then have "2 \<le> card (holders (slot_bundles p) b)"
        using two_holders [of i "slot_bundles p" j b] held i b(2) accountedD(6) [OF d(1)] by simp
      then show False using accountedD(10) [OF d(1), of b] pb by (simp add: private_page_def)
    qed
    moreover have "b \<noteq> t" using m(3) [OF held(1)] held(2) by auto
    ultimately show ?thesis using pb a by (auto simp: private_page_def)
  qed
  ultimately show ?thesis unfolding bytes_kept_def by blast
qed

lemma private_after_move:
  assumes "remapped i p0 seen row reps p" and "k < length row" and "moved i (row ! k) t p p1"
    and "l < length row" and "l = k \<or> private_page p (row ! l)" and "t \<noteq> 0"
  shows "private_page p1 (row[k := t] ! l)"
proof -
  obtain a where a: "p1 = p\<lparr>kv_arena := a, slot_bundles := (slot_bundles p)[i := insert t (slot_bundles p ! i - {row ! k})]\<rparr>"
    "sane a" "same_size (kv_arena p) a" "usable (kv_arena p) t" "b_ref (kv_arena p) t = 0"
    "\<And>b. b_ref a b = (if b = t then 1 else if b = row ! k \<and> row ! k \<noteq> 0 then b_ref (kv_arena p) b - 1 else b_ref (kv_arena p) b)"
    "\<And>b. b_hash a b = (if b = t then None else b_hash (kv_arena p) b)"
    using assms(3) by (elim movedE) (rule that)
  show ?thesis
  proof (cases "l = k")
    case True
    then show ?thesis using assms(2,6) a by (simp add: private_page_def)
  next
    case False
    then have "private_page p (row ! l)" using assms(5) by simp
    moreover have "row ! k \<noteq> 0 \<Longrightarrow> row ! l \<noteq> row ! k"
      using remappedD(5) [OF assms(1)] assms(2,4) False unfolding distinct_filter_nth by metis
    ultimately show ?thesis using False a by (auto simp: private_page_def)
  qed
qed

lemma remap_loop_run:
  assumes "keep_or_move strict i visit" and "i < nat (num_rows p0)"
    and "remapped i p0 seen row reps p" and "bytes_kept i p0 row reps p"
    and "strict \<longrightarrow> (\<forall>k < length row. int k \<in> set seen \<longrightarrow> private_page p (row ! k))"
    and "\<forall>lp \<in> set lps. 0 \<le> lp" and "remap_loop visit lps row reps p = (r, p')"
  shows "case r of
      Inl e \<Rightarrow> \<exists>seen' row' reps'. remapped i p0 seen' row' reps' p'
    | Inr (row', reps') \<Rightarrow> remapped i p0 (seen @ lps) row' reps' p' \<and> bytes_kept i p0 row' reps' p' \<and>
        (strict \<longrightarrow> (\<forall>k < length row'. int k \<in> set (seen @ lps) \<longrightarrow> private_page p' (row' ! k)))"
  using assms(3-7)
proof (induction lps arbitrary: seen row reps p)
  case Nil
  then show ?case by auto
next
  case (Cons lp lps)
  show ?case
  proof (cases "int (length row) \<le> lp")
    case True
    then obtain e where "p' = p" "r = Inl e" using Cons.prems(5) by auto
    then show ?thesis using Cons.prems(1) by (simp only: sum.case) (intro exI)
  next
    case False
    define k where "k = nat lp"
    have k: "k < length row" "int k = lp" using False Cons.prems(4) by (auto simp: k_def)
    obtain r1 p1 where v: "visit (row ! k) p = (r1, p1)" by (cases "visit (row ! k) p")
    have rest: "remap_loop visit (lp # lps) row reps p = (case r1 of Inl e \<Rightarrow> (Inl e, p1)
        | Inr None \<Rightarrow> remap_loop visit lps row reps p1
        | Inr (Some t) \<Rightarrow> remap_loop visit lps (row[k := t]) (reps @ [(lp, row ! k, t)]) p1)"
      using v False by (auto simp: andThen_def k_def split: sum.split option.split)
    have "row ! k \<in> insert 0 (slot_bundles p ! i)"
      using remappedD(4) [OF Cons.prems(1)] k(1) by (auto dest: nth_mem)
    then have km: "case r1 of Inl e \<Rightarrow> p1 = p
      | Inr None \<Rightarrow> p1 = p \<and> (strict \<longrightarrow> row ! k \<noteq> 0 \<and> b_ref (kv_arena p) (row ! k) = 1 \<and> b_hash (kv_arena p) (row ! k) = None)
      | Inr (Some t) \<Rightarrow> moved i (row ! k) t p p1"
      using assms(1,2) remappedD(1) [OF Cons.prems(1)] remapped_views(1) [OF Cons.prems(1)] v
      unfolding keep_or_move_def by metis
    show ?thesis
    proof (cases r1)
      case (Inl e)
      then have "p' = p" "r = Inl e" using rest km Cons.prems(5) by auto
      then show ?thesis using Cons.prems(1) by (simp only: sum.case) (intro exI)
    next
      case (Inr o1)
      show ?thesis
      proof (cases o1)
        case None
        then have p1: "p1 = p" "strict \<longrightarrow> private_page p (row ! k)" using km Inr by (auto simp: private_page_def)
        have "strict \<longrightarrow> (\<forall>l < length row. int l \<in> set (seen @ [lp]) \<longrightarrow> private_page p (row ! l))"
          using Cons.prems(3) p1(2) k(2) by auto
        moreover have "remap_loop visit lps row reps p = (r, p')"
          using rest Cons.prems(5) Inr None p1(1) by (simp only: sum.case option.case)
        moreover have "\<forall>lp \<in> set lps. 0 \<le> lp" using Cons.prems(4) by simp
        ultimately show ?thesis
          using Cons.IH [OF remapped_keep [OF Cons.prems(1), of lp] Cons.prems(2)]
          by (simp only: append_assoc append_Cons append_Nil)
      next
        case (Some t)
        then have mv: "moved i (row ! k) t p p1" using km Inr by simp
        note f = remapped_fresh [OF Cons.prems(1) assms(2) k(1) mv]
        have "strict \<longrightarrow> (\<forall>l < length (row[k := t]). int l \<in> set (seen @ [int k]) \<longrightarrow> private_page p1 (row[k := t] ! l))"
        proof (intro impI allI)
          fix l assume l: "strict" "l < length (row[k := t])" "int l \<in> set (seen @ [int k])"
          then have "l = k \<or> private_page p (row ! l)" using Cons.prems(3) by auto
          with l(2) show "private_page p1 (row[k := t] ! l)"
            using private_after_move [OF Cons.prems(1) k(1) mv _ _ f(1)] by simp
        qed
        moreover have "remap_loop visit lps (row[k := t]) (reps @ [(int k, row ! k, t)]) p1 = (r, p')"
          using rest Cons.prems(5) Inr Some k(2) by (simp only: sum.case option.case)
        moreover have "\<forall>lp \<in> set lps. 0 \<le> lp" using Cons.prems(4) by simp
        ultimately show ?thesis
          using Cons.IH [OF remapped_move [OF Cons.prems(1) assms(2) k(1) mv]
              bytes_move [OF Cons.prems(1) assms(2) k(1) mv Cons.prems(2)]] k(2)
          by (simp only: append_assoc append_Cons append_Nil)
      qed
    qed
  qed
qed

section \<open>Installing a row\<close>

lemma set_row_cases:
  assumes "accounted p" and "set_page_table_row slot row p = (r, p')"
  shows "(\<exists>e. r = Inl e) \<and> p' = p \<or> r = Inr () \<and> p' = install_row (nat slot) row p \<and> 0 \<le> slot \<and>
    nat slot < nat (num_rows p) \<and> int (length row) = pages_per_slot p \<and> distinct (filter (\<lambda>page. page \<noteq> 0) row)"
  using assms(2) accountedD(1,5) [OF assms(1)]
  by (auto simp: set_page_table_row_def num_rows_def split: if_splits)

lemma set_row_ok:
  assumes "accounted p" and "0 \<le> slot" and "nat slot < nat (num_rows p)" and "int (length row) = pages_per_slot p"
    and "set row \<subseteq> insert 0 (slot_bundles p ! nat slot)" and "distinct (filter (\<lambda>page. page \<noteq> 0) row)"
  shows "set_page_table_row slot row p = (Inr (), install_row (nat slot) row p)"
proof -
  have "0 < pool_bundles p"
    using accountedD(3,4) [OF assms(1)] arena_atD(3) accountedD(2) [OF assms(1)] by (fastforce elim: saneE)
  moreover have "0 < page \<and> page < pool_bundles p" if "page \<in> set row" "page \<noteq> 0" for page
    using owned_usable(2,3) [OF assms(1,3), of page] assms(5) that by auto
  ultimately have "\<not> (\<exists>page \<in> set row. page < 0 \<or> page \<ge> pool_bundles p)" by force
  then show ?thesis
    using assms(2-4,6) accountedD(1) [OF assms(1)] by (simp add: set_page_table_row_def)
qed

lemma install_row_views [simp]:
  "slot_bundles (install_row i row p) = slot_bundles p" "kv_arena (install_row i row p) = kv_arena p"
  "num_rows (install_row i row p) = num_rows p" "page_table_host (install_row i row p) = (page_table_host p)[i := row]"
  "global_page_table (install_row i row p) = (global_page_table p)[i := row]"
  "backbone_kv (install_row i row p) = backbone_kv p" "mtp_cow_family (install_row i row p) = mtp_cow_family p"
  "num_slots (install_row i row p) = num_slots p" "pages_per_slot (install_row i row p) = pages_per_slot p"
  "pool_bundles (install_row i row p) = pool_bundles p" "dynamic_arena (install_row i row p) = dynamic_arena p"
  "slot_kv_len (install_row i row p) = slot_kv_len p"
  by (simp_all add: install_row_def num_rows_def)

lemma owned_rows_install:
  assumes "accounted p" and "i < nat (num_rows p)" and "int (length row) = pages_per_slot p"
    and "set row \<subseteq> insert 0 (slot_bundles p ! i)" and "distinct (filter (\<lambda>page. page \<noteq> 0) row)"
    and "\<And>j. j < nat (num_rows p) \<Longrightarrow> j \<noteq> i \<Longrightarrow> int j \<notin> S \<Longrightarrow> row_ok p j"
  shows "owned_rows S (install_row i row p)"
proof -
  have i: "i < length (page_table_host p)" "i < length (global_page_table p)"
    using assms(1,2) by (simp_all add: accountedD)
  have "accounted (install_row i row p)"
    using assms(1,3) i unfolding accounted_def by (simp add: nth_list_update)
  moreover have "row_ok (install_row i row p) j" if "j < nat (num_rows p)" "int j \<notin> S" for j
    using assms(4,5) assms(6) [of j] that i by (cases "j = i") (simp_all add: row_ok_def)
  ultimately show ?thesis by (simp add: owned_rows_def)
qed

section \<open>Prepared writes\<close>

lemma clone_cow_views [simp]:
  "slot_bundles (clone_cow_pages reps p) = slot_bundles p" "kv_arena (clone_cow_pages reps p) = kv_arena p"
  "page_table_host (clone_cow_pages reps p) = page_table_host p" "num_rows (clone_cow_pages reps p) = num_rows p"
  "global_page_table (clone_cow_pages reps p) = global_page_table p" "num_slots (clone_cow_pages reps p) = num_slots p"
  "pages_per_slot (clone_cow_pages reps p) = pages_per_slot p" "pool_bundles (clone_cow_pages reps p) = pool_bundles p"
  "dynamic_arena (clone_cow_pages reps p) = dynamic_arena p" "slot_kv_len (clone_cow_pages reps p) = slot_kv_len p"
  by (simp_all add: clone_cow_pages_def num_rows_def)

lemma accounted_cong:
  assumes "slot_bundles q = slot_bundles p" "kv_arena q = kv_arena p" "page_table_host q = page_table_host p"
    "global_page_table q = global_page_table p" "num_slots q = num_slots p" "pages_per_slot q = pages_per_slot p"
    "pool_bundles q = pool_bundles p" "dynamic_arena q = dynamic_arena p"
  shows "accounted q = accounted p" and "row_ok q i = row_ok p i" and "owned_rows S q = owned_rows S p"
  using assms by (simp_all add: accounted_def row_ok_def owned_rows_def num_rows_def)

lemma accounted_clone [simp]: "accounted (clone_cow_pages reps p) = accounted p"
  by (rule accounted_cong) simp_all

lemma accounted_book:
  assumes "accounted p" and "book_step (kv_arena p) a"
  shows "accounted (p\<lparr>kv_arena := a\<rparr>)"
  by (rule accounted_arena) (use assms in \<open>simp_all add: book_step_def\<close>)

text \<open>The rows of the other slots are not touched by the loop.\<close>

lemma remapped_rows:
  assumes "remapped i p0 seen row reps p" and "owned_rows S p0" and "j < nat (num_rows p0)" and "j \<noteq> i" and "int j \<notin> S"
  shows "row_ok p j"
  using assms(2-5) remapped_views [OF assms(1)] by (simp add: owned_rows_def row_ok_def)

text \<open>
  What a completed \<open>finish_remap\<close> leaves: the row of the loop with the bytes its pages had before;
  everything else as the loop left it.
\<close>

definition bytes_moved :: "(int \<Rightarrow> int) \<Rightarrow> ('b, 'm) slot_pool \<Rightarrow> ('b, 'm) slot_pool \<Rightarrow> bool" where
  "bytes_moved g p p' \<longleftrightarrow> (\<forall>b. backbone_kv p' b = backbone_kv p (g b)) \<and>
     mtp_cow_family p' = map_option (\<lambda>m b. m (g b)) (mtp_cow_family p)"

lemma bytes_moved_id: "bytes_moved (\<lambda>b. b) p p"
  by (simp add: bytes_moved_def option.map_ident)

lemma finish_remap_run:
  assumes "remapped i p0 seen row reps p" and "owned_rows S p0" and "0 \<le> slot" and "i = nat slot"
    and "i < nat (num_rows p0)" and "slot \<notin> S" and "finish_remap slot (row, reps) p = (r, p')"
  shows "r = Inr (reps \<noteq> []) \<and> owned_rows S p' \<and> bytes_moved (carries reps) p0 p' \<and>
    page_table_host p' = (page_table_host p0)[i := row] \<and> slot_bundles p' = slot_bundles p \<and>
    b_ref (kv_arena p') = b_ref (kv_arena p) \<and> b_hash (kv_arena p') = b_hash (kv_arena p) \<and> num_rows p' = num_rows p0"
proof (cases "reps = []")
  case True
  then have "p = p0" "row = page_table_host p0 ! i" "r = Inr False" "p' = p"
    using remappedD(6) [OF assms(1)] assms(7) by (auto simp: finish_remap_def)
  then show ?thesis using True assms(2) bytes_moved_id [of p0] by (simp add: carries_def clone_pages_def)
next
  case False
  note d = remappedD [OF assms(1)] and v = remapped_views [OF assms(1)]
  have dyn: "dynamic_arena p" by (rule accountedD(1) [OF d(1)])
  obtain x a where dr: "drain_pending_cow (kv_arena p) = (Inr x, a)" by (simp add: drain_pending_cow_def andThen_def)
  have bk: "book_step (kv_arena p) a" using book_steps(4) [OF accountedD(2) [OF d(1)]] dr by simp
  let ?q = "(clone_cow_pages reps p)\<lparr>kv_arena := a\<rparr>"
  have acc: "accounted ?q" using accounted_book [of "clone_cow_pages reps p" a] d(1) bk by simp
  have vq: "num_rows ?q = num_rows p0" "slot_bundles ?q = slot_bundles p" "pages_per_slot ?q = pages_per_slot p0"
    "page_table_host ?q = page_table_host p0" "global_page_table ?q = global_page_table p0"
    using v by (simp_all add: num_rows_def clone_cow_pages_def)
  have len: "int (length row) = pages_per_slot ?q"
    using d(3) accountedD(9) [OF _ assms(5)] assms(2) vq(3) by (simp add: owned_rows_def)
  have "set_page_table_row slot row ?q = (Inr (), install_row i row ?q)"
    unfolding assms(4) by (rule set_row_ok [OF acc assms(3)]) (use assms(4,5) len d(4,5) vq(1,2) in simp_all)
  then have run: "r = Inr True" "p' = install_row i row ?q"
    using assms(7) False dyn dr by (simp_all add: finish_remap_def andThen_def on_field_def)
  have "row_ok ?q j" if "j < nat (num_rows ?q)" "j \<noteq> i" "int j \<notin> S" for j
    using remapped_rows [OF assms(1,2)] that vq v by (simp add: row_ok_def)
  then have "owned_rows S p'"
    unfolding run(2) using acc assms(5) len d(4,5) vq by (intro owned_rows_install) simp_all
  moreover have "bytes_moved (carries reps) p0 p'"
    using v(6,7) by (simp add: run(2) bytes_moved_def clone_cow_pages_def clone_pages_carries)
      (simp add: fun_eq_iff clone_pages_carries option.map_cong)
  ultimately show ?thesis using False run vq bk by (simp add: book_step_def)
qed

text \<open>The logical pages of a write, and what a prepared write guarantees.\<close>

definition touched :: "int \<Rightarrow> int \<Rightarrow> nat \<Rightarrow> bool" where
  "touched start len k \<longleftrightarrow> 0 < len \<and> start div page_size \<le> int k \<and> int k \<le> (start + len - 1) div page_size"

definition prepared :: "nat \<Rightarrow> int \<Rightarrow> int \<Rightarrow> ('b, 'm) slot_pool \<Rightarrow> ('b, 'm) slot_pool \<Rightarrow> bool" where
  "prepared i start len p p' \<longleftrightarrow> num_rows p' = num_rows p \<and>
     (\<forall>k. touched start len k \<longrightarrow> i < nat (num_rows p) \<and> k < length (page_table_host p ! i) \<and>
        private_page p' (page_table_host p' ! i ! k) \<and> page_table_host p' ! i ! k \<in> slot_bundles p' ! i) \<and>
     (\<forall>k < length (page_table_host p ! i). \<not> touched start len k \<longrightarrow> page_table_host p' ! i ! k = page_table_host p ! i ! k) \<and>
     (\<forall>j. j \<noteq> i \<longrightarrow> page_table_host p' ! j = page_table_host p ! j \<and> slot_bundles p' ! j = slot_bundles p ! j) \<and>
     (\<exists>g. bytes_moved g p p' \<and>
        (\<forall>k < length (page_table_host p ! i). page_table_host p ! i ! k \<noteq> 0 \<longrightarrow>
           page_table_host p' ! i ! k \<noteq> 0 \<and> g (page_table_host p' ! i ! k) = page_table_host p ! i ! k) \<and>
        (\<forall>j < nat (num_rows p). j \<noteq> i \<longrightarrow> (\<forall>b \<in> slot_bundles p ! j. g b = b \<and> (private_page p b \<longrightarrow> private_page p' b))) \<and>
        (\<forall>b. b_hash (kv_arena p') b \<noteq> None \<longrightarrow> g b = b \<and> b_hash (kv_arena p') b = b_hash (kv_arena p) b))"

lemma prepared_nothing: "\<not> 0 < len \<Longrightarrow> prepared i start len p p"
  unfolding prepared_def touched_def by (auto intro: exI [of _ "\<lambda>b. b"] bytes_moved_id)

lemma touched_in_row:
  assumes "touched start len k" and "start + len \<le> w * page_size"
  shows "int k < w"
proof -
  have "(start + len - 1) div 128 < w" using assms(2) by (simp add: page_size_def)
  then show ?thesis using assms(1) by (simp add: touched_def page_size_def)
qed

lemma py_index_row:
  assumes "0 \<le> slot"
  shows "py_index n slot = (if slot < n then Some slot else None)"
  using assms by (simp add: py_index_def)

lemma prepare_run:
  assumes "owned_rows S p" and "0 \<le> slot" and "slot \<notin> S" and "prepare_kv_writes slot start len p = (r, p')"
  shows "case r of Inl e \<Rightarrow> owned_rows (insert slot S) p'
    | Inr u \<Rightarrow> owned_rows S p' \<and> prepared (nat slot) start len p p'"
proof (cases "len < 0 \<or> start < 0 \<or> start + len > max_seq_len p \<or> len = 0 \<or> num_rows p \<le> slot")
  case True
  have "owned_rows (insert slot S) p" using assms(1) by (rule owned_rows_mono) blast
  moreover have "(\<exists>e. r = Inl e) \<and> p' = p \<or> r = Inr () \<and> p' = p \<and> len = 0"
    using True assms(4)
    by (auto simp: prepare_kv_writes_def with_row_def py_index_row [OF assms(2)] split: if_splits)
  ultimately show ?thesis using assms(1) prepared_nothing [of len "nat slot" start p] by auto
next
  case False
  define i where "i = nat slot"
  have i: "i < nat (num_rows p)" using False assms(2) by (simp add: i_def)
  have acc: "accounted p" and rok: "row_ok p i"
    using assms(1-3) i by (auto simp: owned_rows_def i_def)
  let ?row = "page_table_host p ! i" and ?lps = "[start div page_size..(start + len - 1) div page_size]"
  have start: "0 \<le> start" "0 < len" using False by auto
  obtain r1 p1 where loop: "remap_loop (visit_write slot i) ?lps ?row [] p = (r1, p1)"
    by (cases "remap_loop (visit_write slot i) ?lps ?row [] p")
  have run: "prepare_kv_writes slot start len p =
      (case r1 of Inl e \<Rightarrow> (Inl e, p1) | Inr x \<Rightarrow> andThen (finish_remap slot x) (\<lambda>_. ret ()) p1)"
    using False accountedD(1) [OF acc] loop
    by (auto simp: prepare_kv_writes_def with_row_def py_index_row [OF assms(2)] i_def andThen_def split: sum.split)
  have nonneg: "\<forall>lp \<in> set ?lps. 0 \<le> lp" using start by (auto simp: page_size_def)
  have strict: "True \<longrightarrow> (\<forall>k < length ?row. int k \<in> set [] \<longrightarrow> private_page p (?row ! k))" by simp
  note res = remap_loop_run [OF visit_write_moves i remapped_start [OF acc rok i] strict nonneg loop]
  show ?thesis
  proof (cases r1)
    case (Inl e)
    then obtain seen' row' reps' where rm: "remapped i p seen' row' reps' p1" using res by auto
    have "row_ok p1 j" if "j < nat (num_rows p1)" "int j \<notin> insert slot S" for j
      using remapped_rows [OF rm assms(1)] that remapped_views(1) [OF rm] assms(2) by (auto simp: i_def)
    then have "owned_rows (insert slot S) p1" using remappedD(1) [OF rm] by (simp add: owned_rows_def)
    then show ?thesis using run Inl assms(4) by auto
  next
    case (Inr x)
    obtain row' reps' where x: "x = (row', reps')" by (cases x)
    have rm: "remapped i p ?lps row' reps' p1" "bytes_kept i p row' reps' p1"
      "\<And>k. k < length row' \<Longrightarrow> int k \<in> set ?lps \<Longrightarrow> private_page p1 (row' ! k)"
      using res Inr x by auto
    note d = remappedD [OF rm(1)]
    obtain b p2 where fin: "finish_remap slot (row', reps') p1 = (b, p2)" by (cases "finish_remap slot (row', reps') p1")
    note f = finish_remap_run [OF rm(1) assms(1,2) i_def i assms(3) fin]
    have p2: "r = Inr ()" "p' = p2" using run Inr x fin f assms(4) by (auto simp: andThen_def)
    have il: "i < length (page_table_host p)" using i accountedD(7) [OF acc] by simp
    have tch: "touched start len k \<longleftrightarrow> int k \<in> set ?lps" for k using start by (auto simp: touched_def)
    have len: "k < length row'" if "touched start len k" for k
      using touched_in_row [OF that, of "pages_per_slot p"] False accountedD(9) [OF acc i] d(3)
      by (simp add: max_seq_len_def)
    have priv: "private_page p' (row' ! k) \<and> row' ! k \<in> slot_bundles p' ! i" if "touched start len k" for k
      using rm(3) [OF len [OF that]] that tch [of k] f p2 d(4) len [OF that]
      by (auto simp: private_page_def dest: nth_mem)
    have "prepared i start len p p'"
      unfolding prepared_def
    proof (intro conjI exI [of _ "carries reps'"])
      show "\<forall>k. touched start len k \<longrightarrow> i < nat (num_rows p) \<and> k < length (page_table_host p ! i) \<and>
          private_page p' (page_table_host p' ! i ! k) \<and> page_table_host p' ! i ! k \<in> slot_bundles p' ! i"
        using priv len i il f p2 d(3) by simp
      show "\<forall>k < length (page_table_host p ! i). \<not> touched start len k \<longrightarrow> page_table_host p' ! i ! k = page_table_host p ! i ! k"
        using d(3,7) tch f p2 il by simp
      show "\<forall>j. j \<noteq> i \<longrightarrow> page_table_host p' ! j = page_table_host p ! j \<and> slot_bundles p' ! j = slot_bundles p ! j"
        using f p2 remapped_views(3) [OF rm(1)] by simp
      show "\<forall>k < length (page_table_host p ! i). page_table_host p ! i ! k \<noteq> 0 \<longrightarrow>
          page_table_host p' ! i ! k \<noteq> 0 \<and> carries reps' (page_table_host p' ! i ! k) = page_table_host p ! i ! k"
        using rm(2) f p2 il d(3) by (simp add: bytes_kept_def)
      show "\<forall>j < nat (num_rows p). j \<noteq> i \<longrightarrow> (\<forall>b \<in> slot_bundles p ! j. carries reps' b = b \<and>
          (private_page p b \<longrightarrow> private_page p' b))"
        using rm(2) f p2 unfolding bytes_kept_def private_page_def by simp
      show "\<forall>b. b_hash (kv_arena p') b \<noteq> None \<longrightarrow> carries reps' b = b \<and> b_hash (kv_arena p') b = b_hash (kv_arena p) b"
        using rm(2) f p2 by (simp add: bytes_kept_def)
    qed (use f p2 in simp_all)
    then show ?thesis using f p2 by (simp add: i_def)
  qed
qed

text \<open>Detaching aliases keeps the books in the same way.\<close>

lemma detach_rows:
  assumes "owned_rows S p" and "slot \<notin> S"
  shows "case detach_scratch_aliases slot kv_len scratch p of (Inl e, p') \<Rightarrow> owned_rows (insert slot S) p'
    | (Inr u, p') \<Rightarrow> owned_rows S p'"
proof (cases "0 \<le> slot \<and> slot < num_slots p \<and> 0 < kv_len \<and> kv_len \<le> max_seq_len p")
  case False
  have "owned_rows (insert slot S) p" using assms(1) by (rule owned_rows_mono) blast
  then show ?thesis using False by (auto simp: detach_scratch_aliases_def live_slot_def prefix_length_ok_def)
next
  case True
  define i where "i = nat slot"
  have i: "i < nat (num_rows p)" using True by (simp add: i_def num_rows_def)
  have acc: "accounted p" and rok: "row_ok p i"
    using assms True i by (auto simp: owned_rows_def i_def)
  let ?row = "page_table_host p ! i"
  define lps where "lps = takeWhile (\<lambda>lp. pages_for (slot_kv_len p ! i) = 0 \<or> lp < pages_for (slot_kv_len p ! i)) [0..pages_for kv_len - 1]"
  obtain r1 p1 where loop: "remap_loop (visit_alias slot i scratch) lps ?row [] p = (r1, p1)"
    by (cases "remap_loop (visit_alias slot i scratch) lps ?row [] p")
  have run: "detach_scratch_aliases slot kv_len scratch p =
      (case r1 of Inl e \<Rightarrow> (Inl e, p1) | Inr x \<Rightarrow> finish_remap slot x p1)"
    using True accountedD(1) [OF acc] loop
    by (auto simp: detach_scratch_aliases_def live_slot_def prefix_length_ok_def i_def lps_def andThen_def split: sum.split)
  have nonneg: "\<forall>lp \<in> set lps. 0 \<le> lp" by (auto simp: lps_def dest: set_takeWhileD)
  have strict: "False \<longrightarrow> (\<forall>k < length ?row. int k \<in> set [] \<longrightarrow> private_page p (?row ! k))" by simp
  note res = remap_loop_run [OF visit_alias_moves i remapped_start [OF acc rok i] strict nonneg loop]
  show ?thesis
  proof (cases r1)
    case (Inl e)
    then obtain seen' row' reps' where rm: "remapped i p seen' row' reps' p1" using res by auto
    have "row_ok p1 j" if "j < nat (num_rows p1)" "int j \<notin> insert slot S" for j
      using remapped_rows [OF rm assms(1)] that remapped_views(1) [OF rm] True by (auto simp: i_def)
    then have "owned_rows (insert slot S) p1" using remappedD(1) [OF rm] by (simp add: owned_rows_def)
    then show ?thesis using run Inl by simp
  next
    case (Inr x)
    obtain row' reps' where x: "x = (row', reps')" by (cases x)
    have rm: "remapped i p lps row' reps' p1" using res Inr x by auto
    obtain b p2 where fin: "finish_remap slot (row', reps') p1 = (b, p2)" by (cases "finish_remap slot (row', reps') p1")
    note f = finish_remap_run [OF rm assms(1) _ i_def i assms(2) fin]
    show ?thesis using f True run Inr x fin by simp
  qed
qed

section \<open>Sharing and copying keep the books\<close>

text \<open>The outcome of an operation on \<open>slot\<close>: the rows stay right, but its own if it raised.\<close>

definition safe_outcome :: "int set \<Rightarrow> int \<Rightarrow> 'a res \<times> ('b, 'm) slot_pool \<Rightarrow> bool" where
  "safe_outcome S slot out \<longleftrightarrow> (case out of (Inl e, p') \<Rightarrow> owned_rows (insert slot S) p' | (Inr x, p') \<Rightarrow> owned_rows S p')"

lemma safe_outcome_simps [simp]:
  "safe_outcome S slot (Inl e, p') = owned_rows (insert slot S) p'" "safe_outcome S slot (Inr x, p') = owned_rows S p'"
  by (simp_all add: safe_outcome_def)

lemma owned_insert: "owned_rows S p \<Longrightarrow> owned_rows (insert slot S) p"
  by (erule owned_rows_mono) blast

lemma safe_same: "owned_rows S p \<Longrightarrow> safe_outcome S slot (r, p)"
  by (cases r) (simp_all add: owned_insert)

lemma owned_rowsI:
  assumes "accounted q" and "0 \<le> slot" and "\<And>j. j < nat (num_rows q) \<Longrightarrow> j \<noteq> nat slot \<Longrightarrow> int j \<notin> S \<Longrightarrow> row_ok q j"
  shows "owned_rows (insert slot S) q"
  using assms by (auto simp: owned_rows_def)

lemma finish_with_row:
  assumes "accounted q" and "0 \<le> slot" and "\<And>j. j < nat (num_rows q) \<Longrightarrow> j \<noteq> nat slot \<Longrightarrow> int j \<notin> S \<Longrightarrow> row_ok q j"
    and "set row \<subseteq> insert 0 (slot_bundles q ! nat slot)"
  shows "safe_outcome S slot (set_page_table_row slot row q)"
proof (cases "set_page_table_row slot row q")
  case (Pair r p')
  from set_row_cases [OF assms(1) Pair] show ?thesis
  proof
    assume "(\<exists>e. r = Inl e) \<and> p' = q"
    then show ?thesis using Pair owned_rowsI [OF assms(1-3)] by auto
  next
    assume c: "r = Inr () \<and> p' = install_row (nat slot) row q \<and> 0 \<le> slot \<and> nat slot < nat (num_rows q) \<and>
      int (length row) = pages_per_slot q \<and> distinct (filter (\<lambda>page. page \<noteq> 0) row)"
    then have "owned_rows S (install_row (nat slot) row q)"
      using assms by (intro owned_rows_install) simp_all
    then show ?thesis using Pair c by simp
  qed
qed

lemma safe_andThen_ret:
  "safe_outcome S slot (m p) \<Longrightarrow> safe_outcome S slot (andThen m (\<lambda>_. ret x) p)"
  by (auto simp: safe_outcome_def andThen_def split: prod.splits sum.splits)

lemma owned_book:
  assumes "owned_rows S p" and "book_step (kv_arena p) a"
  shows "owned_rows S (p\<lparr>kv_arena := a\<rparr>)"
  by (rule owned_rows_arena) (use assms in \<open>simp_all add: book_step_def\<close>)

lemma shared_step:
  assumes "accounted p" and "i < nat (num_rows p)" and "incref ids owner (kv_arena p) = (Inr (), a1)" and "a = a1 \<or> book_step a1 a"
  shows "accounted (p\<lparr>kv_arena := a, slot_bundles := (slot_bundles p)[i := set ids \<union> slot_bundles p ! i]\<rparr>)"
proof (rule accounted_step [OF assms(1,2)])
  note inc = incref_cases [OF accountedD(2) [OF assms(1)] assms(3)]
  show "sane a" "same_size (kv_arena p) a"
    using inc assms(4) same_size_trans by (auto simp: book_step_def)
  have ra: "b_ref a = b_ref a1" using assms(4) by (auto simp: book_step_def)
  show "b_ref (kv_arena p) b - of_bool (b \<in> slot_bundles p ! i) + of_bool (b \<in> set ids \<union> slot_bundles p ! i) \<le> b_ref a b" for b
  proof -
    have "b_ref a b = b_ref (kv_arena p) b + int (count_list ids b)" using inc ra by simp
    moreover have "b \<in> set ids \<Longrightarrow> 1 \<le> count_list ids b"
      using count_list_0_iff [of ids b] by (cases "count_list ids b") auto
    ultimately show ?thesis by auto
  qed
qed

lemma owned_incref:
  assumes "owned_rows S p" and "incref ids owner (kv_arena p) = (r, a)"
  shows "owned_rows S (p\<lparr>kv_arena := a\<rparr>)"
  using incref_cases [OF _ assms(2)] assms(1) by (intro owned_rows_arena) (auto simp: owned_rows_def accountedD)

text \<open>After the references are taken: record the pages as the slot's and map its row to them.\<close>

lemma map_shared:
  assumes "owned_rows S p" and "0 \<le> slot" and "nat slot < nat (num_rows p)" and "slot \<notin> S"
    and "incref ids owner (kv_arena p) = (Inr (), a1)" and "a = a1 \<or> book_step a1 a"
  shows "safe_outcome S slot (andThen (add_bundles (nat slot) ids) (\<lambda>_.
    set_page_table_row slot (ids @ drop n (page_table_host p ! nat slot))) (p\<lparr>kv_arena := a\<rparr>))"
proof -
  have acc: "accounted p" using assms(1) by (simp add: owned_rows_def)
  have i: "nat slot < length (slot_bundles p)" using assms(3) accountedD(6) [OF acc] by simp
  let ?q = "p\<lparr>kv_arena := a, slot_bundles := (slot_bundles p)[nat slot := set ids \<union> slot_bundles p ! nat slot]\<rparr>"
  have "safe_outcome S slot (set_page_table_row slot (ids @ drop n (page_table_host p ! nat slot)) ?q)"
  proof (rule finish_with_row [OF _ assms(2)])
    show "accounted ?q" by (rule shared_step [OF acc assms(3,5,6)])
    show "row_ok ?q j" if "j < nat (num_rows ?q)" "j \<noteq> nat slot" "int j \<notin> S" for j
      using assms(1) that by (simp add: owned_rows_def row_ok_def num_rows_def)
    have "row_ok p (nat slot)" using assms(1-4) by (simp add: owned_rows_def)
    then show "set (ids @ drop n (page_table_host p ! nat slot)) \<subseteq> insert 0 (slot_bundles ?q ! nat slot)"
      using i by (auto simp: row_ok_def dest: in_set_dropD)
  qed
  then show ?thesis by (simp add: add_bundles_def)
qed

lemma share_rows:
  assumes "owned_rows S p" and "slot \<notin> S"
  shows "safe_outcome S slot (share_prefix_kv source slot kv_len p)"
proof (cases "0 \<le> source \<and> source < num_slots p \<and> 0 \<le> slot \<and> slot < num_slots p \<and> source \<noteq> slot \<and> kv_len \<noteq> 0 \<and>
    0 < kv_len \<and> kv_len \<le> max_seq_len p")
  case False
  then have "snd (share_prefix_kv source slot kv_len p) = p"
    by (auto simp: share_prefix_kv_def live_slot_def prefix_length_ok_def)
  then show ?thesis using safe_same [OF assms(1)] by (metis prod.collapse)
next
  case True
  define ids where "ids = take (nat (pages_for kv_len)) (page_table_host p ! nat source)"
  have i: "nat slot < nat (num_rows p)" using True by (simp add: num_rows_def)
  have acc: "accounted p" using assms(1) by (simp add: owned_rows_def)
  obtain r1 a1 where inc: "incref ids (slot_owner slot) (kv_arena p) = (r1, a1)"
    by (cases "incref ids (slot_owner slot) (kv_arena p)")
  obtain r2 a2 where con: "consume_reservation (kv_len div page_size) (slot_owner slot) a1 = (r2, a2)"
    by (cases "consume_reservation (kv_len div page_size) (slot_owner slot) a1")
  have "sane a1" using incref_cases [OF accountedD(2) [OF acc] inc] by simp
  then have bk: "book_step a1 a2" using book_steps(1) [of a1 "kv_len div page_size" "slot_owner slot"] con by simp
  have run: "share_prefix_kv source slot kv_len p =
    (if 0 \<in> set ids then (Inl (RuntimeError ''source slot has no bundle to share''), p)
     else case r1 of Inl e \<Rightarrow> (Inl e, p\<lparr>kv_arena := a1\<rparr>)
     | Inr u \<Rightarrow> case r2 of Inl e \<Rightarrow> (Inl e, p\<lparr>kv_arena := a2\<rparr>)
       | Inr v \<Rightarrow> andThen (add_bundles (nat slot) ids) (\<lambda>_.
           set_page_table_row slot (ids @ drop (length ids) (page_table_host p ! nat slot))) (p\<lparr>kv_arena := a2\<rparr>))"
    using True accountedD(1) [OF acc] inc con
    by (auto simp: share_prefix_kv_def live_slot_def prefix_length_ok_def ids_def [symmetric] andThen_def on_field_def
        add_bundles_def split: sum.split)
  have o1: "owned_rows S (p\<lparr>kv_arena := a1\<rparr>)" by (rule owned_incref [OF assms(1) inc])
  then have o2: "owned_rows S (p\<lparr>kv_arena := a2\<rparr>)" using owned_book [OF o1, of a2] bk by simp
  show ?thesis
    unfolding run
    using owned_insert [OF assms(1)] owned_insert [OF o1] owned_insert [OF o2]
      map_shared [OF assms(1) _ i assms(2) _ disjI2 [OF bk]] True inc
    by (auto split: sum.split)
qed

lemma share_scratch_rows:
  assumes "owned_rows S p" and "slot \<notin> S"
  shows "safe_outcome S slot (share_scratch_prefix slot kv_len pages p)"
proof -
  let ?n = "nat (pages_for kv_len)"
  define ids where "ids = (case pages of None \<Rightarrow> take ?n (page_table_host p ! nat (scratch_row p)) | Some ids \<Rightarrow> ids)"
  have acc: "accounted p" using assms(1) by (simp add: owned_rows_def)
  show ?thesis
  proof (cases "0 \<le> slot \<and> slot < num_slots p \<and> 0 < kv_len \<and> kv_len \<le> max_seq_len p \<and>
      int (length ids) = pages_for kv_len \<and> distinct ids")
    case False
    then have "snd (share_scratch_prefix slot kv_len pages p) = p"
      by (auto simp: share_scratch_prefix_def live_slot_def prefix_length_ok_def ids_def Let_def)
    then show ?thesis using safe_same [OF assms(1)] by (metis prod.collapse)
  next
    case True
    have i: "nat slot < nat (num_rows p)" using True by (simp add: num_rows_def)
    obtain r1 a1 where inc: "incref ids (slot_owner slot) (kv_arena p) = (r1, a1)"
      by (cases "incref ids (slot_owner slot) (kv_arena p)")
    have run: "share_scratch_prefix slot kv_len pages p =
      (case r1 of Inl e \<Rightarrow> (Inl e, p\<lparr>kv_arena := a1\<rparr>)
       | Inr u \<Rightarrow> andThen (add_bundles (nat slot) ids) (\<lambda>_.
           set_page_table_row slot (ids @ drop ?n (page_table_host p ! nat slot))) (p\<lparr>kv_arena := a1\<rparr>))"
      using True accountedD(1) [OF acc] inc
      by (auto simp: share_scratch_prefix_def live_slot_def prefix_length_ok_def ids_def [symmetric] Let_def
          fixed_scratch_check_def andThen_def on_field_def add_bundles_def split: sum.split)
    show ?thesis
      unfolding run
      using owned_insert [OF owned_incref [OF assms(1) inc]] map_shared [OF assms(1) _ i assms(2) _ disjI1 [OF refl]] True inc
      by (auto split: sum.split)
  qed
qed

lemma pages_for_bounds:
  "0 < n \<Longrightarrow> 0 < pages_for n" "n \<le> w * page_size \<Longrightarrow> pages_for n \<le> w"
proof -
  have "1 \<le> (n + 127) div 128" if "0 < n" using that by linarith
  then show "0 < n \<Longrightarrow> 0 < pages_for n" by (simp add: pages_for_def page_size_def add.commute)
  have "(n + 127) div 128 \<le> w" if "n \<le> w * 128" using that by linarith
  then show "n \<le> w * page_size \<Longrightarrow> pages_for n \<le> w" by (simp add: pages_for_def page_size_def add.commute)
qed

text \<open>While \<^verbatim>\<open>copy_prefix_kv\<close> fills the null pages of its target, host and device row may differ.\<close>

definition filling :: "nat \<Rightarrow> int set \<Rightarrow> ('b, 'm) slot_pool \<Rightarrow> bool" where
  "filling i S q \<longleftrightarrow> accounted q \<and> i < nat (num_rows q) \<and> set (page_table_host q ! i) \<subseteq> insert 0 (slot_bundles q ! i) \<and>
     (\<forall>j < nat (num_rows q). j \<noteq> i \<longrightarrow> int j \<notin> S \<longrightarrow> row_ok q j)"

text \<open>Adding fresh pages to a row and to the pages of its slot.\<close>

lemma filling_add:
  assumes "filling i S p" and "handed_out ids (kv_arena p) a" and "length row = length (page_table_host p ! i)"
    and "set row \<subseteq> set ids \<union> set (page_table_host p ! i)" and "row = page_table_host p ! i \<or> set ids \<inter> set row \<noteq> {}"
  shows "filling i S (p\<lparr>kv_arena := a, slot_bundles := (slot_bundles p)[i := set ids \<union> slot_bundles p ! i],
    page_table_host := (page_table_host p)[i := row]\<rparr>)"
proof -
  have acc: "accounted p" and i: "i < nat (num_rows p)" using assms(1) by (simp_all add: filling_def)
  have il: "i < length (slot_bundles p)" "i < length (page_table_host p)" using accountedD(6,7) [OF acc] i by simp_all
  let ?q = "p\<lparr>kv_arena := a, slot_bundles := (slot_bundles p)[i := set ids \<union> slot_bundles p ! i]\<rparr>"
  let ?q' = "p\<lparr>kv_arena := a, slot_bundles := (slot_bundles p)[i := set ids \<union> slot_bundles p ! i],
    page_table_host := (page_table_host p)[i := row]\<rparr>"
  have h: "sane a" "same_size (kv_arena p) a" "\<And>b. b_ref a b = (if b \<in> set ids then 1 else b_ref (kv_arena p) b)"
    "\<And>b. b \<in> set ids \<Longrightarrow> usable (kv_arena p) b \<and> b_ref (kv_arena p) b = 0"
    using assms(2) by (auto simp: handed_out_def)
  have q: "accounted ?q"
  proof (rule accounted_step [OF acc i h(1,2)])
    show "b_ref (kv_arena p) b - of_bool (b \<in> slot_bundles p ! i) + of_bool (b \<in> set ids \<union> slot_bundles p ! i) \<le> b_ref a b" for b
      using h(3) [of b] h(4) [of b] owned_usable(1) [OF acc i, of b] by auto
  qed
  have "0 \<notin> set ids" using h(4) [of 0] accountedD(3) [OF acc] by (auto simp: usable_def)
  then have null: "set row \<subseteq> {0} \<Longrightarrow> row = page_table_host p ! i" using assms(5) by blast
  have "accounted ?q'"
    using q il i null assms(3) unfolding accounted_def num_rows_def by (auto simp: nth_list_update)
  moreover have "row_ok ?q' j" if "j < nat (num_rows p)" "j \<noteq> i" "int j \<notin> S" for j
    using assms(1) that by (simp add: filling_def row_ok_def)
  ultimately show ?thesis using assms(1,4) i il by (auto simp: filling_def num_rows_def)
qed

lemma host_bundles_commute:
  "p\<lparr>kv_arena := a, page_table_host := x, slot_bundles := y\<rparr> = p\<lparr>kv_arena := a, slot_bundles := y, page_table_host := x\<rparr>"
  by (cases p) simp

lemma fill_null_run:
  assumes "filling (nat target) S p" and "\<forall>lp \<in> set lps. 0 \<le> lp"
  shows "filling (nat target) S (snd (fill_null_pages target lps p)) \<and>
    num_rows (snd (fill_null_pages target lps p)) = num_rows p"
  using assms
proof (induction lps arbitrary: p)
  case (Cons lp lps)
  let ?i = "nat target"
  let ?row = "page_table_host p ! ?i"
  show ?case
  proof (cases "?row ! nat lp = 0")
    case False
    then show ?thesis using Cons by simp
  next
    case True
    obtain r1 p1 where al: "allocate_one_page (slot_owner target) p = (r1, p1)"
      by (cases "allocate_one_page (slot_owner target) p")
    have acc: "accounted p" and i: "?i < nat (num_rows p)" using Cons.prems(1) by (simp_all add: filling_def)
    note c = allocate_one_cases [OF accountedD(2) [OF acc] al]
    show ?thesis
    proof (cases r1)
      case (Inl e)
      then show ?thesis using True al c Cons.prems(1) by (auto simp: andThen_def)
    next
      case (Inr t)
      then obtain a where a: "p1 = p\<lparr>kv_arena := a\<rparr>" "handed_out [t] (kv_arena p) a" using c by auto
      let ?new = "?row[nat lp := t]"
      let ?q = "p\<lparr>kv_arena := a, slot_bundles := (slot_bundles p)[?i := set [t] \<union> slot_bundles p ! ?i],
        page_table_host := (page_table_host p)[?i := ?new]\<rparr>"
      have il: "?i < length (slot_bundles p)" using accountedD(6) [OF acc] i by simp
      have "filling ?i S ?q"
      proof (rule filling_add [OF Cons.prems(1) a(2)])
        show "set ?new \<subseteq> set [t] \<union> set ?row" using set_update_subset_insert [of ?row "nat lp" t] by simp
        show "?new = ?row \<or> set [t] \<inter> set ?new \<noteq> {}"
          by (cases "nat lp < length ?row") (auto simp: set_update_memI list_update_beyond)
      qed simp
      moreover have "fill_null_pages target (lp # lps) p = fill_null_pages target lps ?q"
        using True al Inr a(1) by (simp add: andThen_def add_bundles_def) (simp add: host_bundles_commute)
      ultimately show ?thesis using Cons.IH [of ?q] Cons.prems(2) by (simp add: num_rows_def)
    qed
  qed
qed simp

lemma gather_rows [simp]: "owned_rows S (gather_scatter xs ys p) = owned_rows S p" "accounted (gather_scatter xs ys p) = accounted p"
  by (rule accounted_cong; simp add: gather_scatter_def)+

lemma copy_rows:
  assumes "owned_rows S p" and "slot \<notin> S"
  shows "safe_outcome S slot (copy_prefix_kv source slot kv_len p)"
proof (cases "0 \<le> source \<and> source < num_slots p \<and> 0 \<le> slot \<and> slot < num_slots p \<and> source \<noteq> slot \<and> kv_len \<noteq> 0 \<and>
    0 < kv_len \<and> kv_len \<le> max_seq_len p")
  case False
  then have "snd (copy_prefix_kv source slot kv_len p) = p"
    by (auto simp: copy_prefix_kv_def live_slot_def prefix_length_ok_def)
  then show ?thesis using safe_same [OF assms(1)] by (metis prod.collapse)
next
  case True
  have acc: "accounted p" using assms(1) by (simp add: owned_rows_def)
  have i: "nat slot < nat (num_rows p)" using True by (simp add: num_rows_def)
  have "row_ok p (nat slot)" using assms True i by (simp add: owned_rows_def)
  then have fill: "filling (nat slot) S p" using assms(1) i by (simp add: filling_def owned_rows_def row_ok_def)
  let ?lps = "[0..pages_for kv_len - 1]"
  obtain r1 q where q: "fill_null_pages slot ?lps p = (r1, q)" by (cases "fill_null_pages slot ?lps p")
  have fq: "filling (nat slot) S q" using fill_null_run [OF fill, of ?lps] q by simp
  have "safe_outcome S slot (set_page_table_row slot (page_table_host q ! nat slot) q)"
    using fq True by (intro finish_with_row) (simp_all add: filling_def)
  moreover obtain r2 q2 where q2: "set_page_table_row slot (page_table_host q ! nat slot) q = (r2, q2)"
    by (cases "set_page_table_row slot (page_table_host q ! nat slot) q")
  ultimately have out: "safe_outcome S slot (r2, q2)" by simp
  have "owned_rows (insert slot S) q"
    using fq True by (intro owned_rowsI) (simp_all add: filling_def)
  then show ?thesis
    using out True accountedD(1) [OF acc] q q2
    by (cases r1; cases r2) (simp_all add: copy_prefix_kv_def live_slot_def prefix_length_ok_def andThen_def)
qed

lemma to_scratch_rows:
  assumes "owned_rows S p" and "num_slots p \<notin> S"
  shows "safe_outcome S (num_slots p) (copy_prefix_to_scratch source kv_len pages p)"
proof (cases "0 \<le> source \<and> source < num_slots p \<and> 0 < kv_len \<and> kv_len \<le> max_seq_len p")
  case False
  then have "snd (copy_prefix_to_scratch source kv_len pages p) = p"
    by (auto simp: copy_prefix_to_scratch_def live_slot_def prefix_length_ok_def)
  then show ?thesis using safe_same [OF assms(1)] by (metis prod.collapse)
next
  case True
  let ?s = "num_slots p" and ?n = "pages_for kv_len"
  let ?i = "nat ?s"
  let ?row = "page_table_host p ! ?i"
  have acc: "accounted p" using assms(1) by (simp add: owned_rows_def)
  have i: "?i < nat (num_rows p)" using True by (simp add: num_rows_def)
  have il: "?i < length (slot_bundles p)" "?i < length (page_table_host p)" using accountedD(6,7) [OF acc] i by simp_all
  have n: "0 < ?n" "?n \<le> pages_per_slot p" using True pages_for_bounds [of kv_len] by (simp_all add: max_seq_len_def)
  have "row_ok p ?i" using assms True i by (simp add: owned_rows_def)
  then have fill: "filling ?i S p" using assms(1) i by (simp add: filling_def owned_rows_def row_ok_def)
  obtain r1 a where al: "kv_allocate ?n ''scratch'' (kv_arena p) = (r1, a)"
    by (cases "kv_allocate ?n ''scratch'' (kv_arena p)")
  note c = allocate_cases [OF accountedD(2) [OF acc] al]
  show ?thesis
  proof (cases r1)
    case (Inl e)
    then have "a = kv_arena p" using c by simp
    then show ?thesis
      using Inl al True accountedD(1) [OF acc] owned_insert [OF assms(1)]
      by (simp add: copy_prefix_to_scratch_def live_slot_def prefix_length_ok_def andThen_def on_field_def scratch_row_def)
  next
    case (Inr ids)
    then have ids: "int (length ids) = ?n" "handed_out ids (kv_arena p) a" "distinct ids"
      using c by (auto simp: handed_out_def)
    let ?new = "ids @ drop (nat ?n) ?row"
    let ?q = "p\<lparr>kv_arena := a, slot_bundles := (slot_bundles p)[?i := set ids \<union> slot_bundles p ! ?i],
      page_table_host := (page_table_host p)[?i := ?new]\<rparr>"
    have fq: "filling ?i S ?q"
    proof (rule filling_add [OF fill ids(2)])
      show "length ?new = length ?row" using ids(1) n accountedD(9) [OF acc i] by simp
      show "set ?new \<subseteq> set ids \<union> set ?row" by (auto dest: in_set_dropD)
      show "?new = ?row \<or> set ids \<inter> set ?new \<noteq> {}" using ids(1) n(1) by (cases ids) auto
    qed
    let ?g = "gather_scatter (take (nat ?n) (global_page_table p ! nat source)) ids ?q"
    have run: "copy_prefix_to_scratch source kv_len pages p = set_page_table_row ?s ?new ?g"
      using Inr al True accountedD(1) [OF acc] ids(1,3) il
      by (simp add: copy_prefix_to_scratch_def live_slot_def prefix_length_ok_def andThen_def on_field_def scratch_row_def
          add_bundles_def fixed_scratch_check_def) (simp add: gather_scatter_def)
    show ?thesis
      unfolding run
    proof (rule finish_with_row)
      show "accounted ?g" using fq by (simp add: filling_def)
      show "row_ok ?g j" if "j < nat (num_rows ?g)" "j \<noteq> nat ?s" "int j \<notin> S" for j
        using fq that by (simp add: filling_def row_ok_def num_rows_def gather_scatter_def)
      show "set ?new \<subseteq> insert 0 (slot_bundles ?g ! nat ?s)"
        using fq il by (simp add: filling_def gather_scatter_def)
    qed (use True in simp)
  qed
qed

end
