(* ===== verification/Slot_Calls.thy ===== *)
theory Slot_Calls
  imports Slot_Sharing
begin

text \<open>
  The remaining operations of \<^verbatim>\<open>Qwen36SlotPool\<close> over the ownership facts of \<^verbatim>\<open>Slot_Sharing\<close>: reset,
  publication, prefix restoration and the decode batch.
\<close>

section \<open>Reset\<close>

lemma accounted_counters [simp]:
  "accounted (p\<lparr>num_tokens_seen := x, slot_kv_len := y, slot_committed_tokens := z\<rparr>) = accounted p"
  "owned_rows S (p\<lparr>num_tokens_seen := x, slot_kv_len := y, slot_committed_tokens := z\<rparr>) = owned_rows S p"
  "owned_rows S (p\<lparr>num_tokens_seen := x, slot_kv_len := y\<rparr>) = owned_rows S p"
  by (rule accounted_cong; simp)+

text \<open>Giving back all pages of a slot.\<close>

lemma reset_arena:
  assumes "accounted p" and "i < nat (num_rows p)" and "owner \<noteq> []"
  shows "\<exists>a. (if slot_bundles p ! i = {} then ret ()
      else andThen (on_arena (decref (sorted_list_of_set (slot_bundles p ! i)) owner)) (\<lambda>_.
        update (\<lambda>p. p\<lparr>slot_bundles := (slot_bundles p)[i := {}]\<rparr>))) p =
      (Inr (), p\<lparr>kv_arena := a, slot_bundles := (slot_bundles p)[i := {}]\<rparr>) \<and>
    accounted (p\<lparr>kv_arena := a, slot_bundles := (slot_bundles p)[i := {}]\<rparr>)"
proof (cases "slot_bundles p ! i = {}")
  case True
  have "i < length (slot_bundles p)" using accountedD(6) [OF assms(1)] assms(2) by simp
  then have "p\<lparr>kv_arena := kv_arena p, slot_bundles := (slot_bundles p)[i := {}]\<rparr> = p"
    using True by (metis list_update_id slot_pool.surjective slot_pool.update_convs(5,6))
  then show ?thesis using True assms(1) by (intro exI [of _ "kv_arena p"]) simp
next
  case False
  have fin: "finite (slot_bundles p ! i)" by (rule owned_finite [OF assms(1,2)])
  obtain a where a: "decref (sorted_list_of_set (slot_bundles p ! i)) owner (kv_arena p) = (Inr (), a)"
    "sane a" "same_size (kv_arena p) a"
    "\<And>b. b_ref a b = (if b \<in> slot_bundles p ! i then b_ref (kv_arena p) b - 1 else b_ref (kv_arena p) b)"
  proof (rule decref_run [OF accountedD(2) [OF assms(1)] _ _ assms(3), of "sorted_list_of_set (slot_bundles p ! i)"])
    show "\<And>b. b \<in> set (sorted_list_of_set (slot_bundles p ! i)) \<Longrightarrow> 0 < b_ref (kv_arena p) b"
      using owned_usable(1) [OF assms(1,2)] fin by simp
  qed (use fin that in simp_all)
  have "accounted (p\<lparr>kv_arena := a, slot_bundles := (slot_bundles p)[i := {}]\<rparr>)"
    using a(4) by (intro accounted_step [OF assms(1,2) a(2,3)]) simp
  then show ?thesis using False a(1) by (intro exI [of _ a]) (simp add: andThen_def on_field_def)
qed

lemma reset_rows:
  assumes "owned_rows S p" and "0 \<le> slot"
  shows "pool_reset_slot slot p = (if slot < num_rows p then (Inr (), snd (pool_reset_slot slot p))
      else (Inl (IndexError ''list index out of range''), p))"
    and "owned_rows (S - {slot}) (snd (pool_reset_slot slot p)) \<or> \<not> slot < num_rows p"
    and "num_rows (snd (pool_reset_slot slot p)) = num_rows p"
proof -
  let ?goal = "pool_reset_slot slot p = (if slot < num_rows p then (Inr (), snd (pool_reset_slot slot p))
      else (Inl (IndexError ''list index out of range''), p)) \<and>
    (owned_rows (S - {slot}) (snd (pool_reset_slot slot p)) \<or> \<not> slot < num_rows p) \<and>
    num_rows (snd (pool_reset_slot slot p)) = num_rows p"
  have ?goal
  proof (cases "slot < num_rows p")
    case False
    then show ?thesis by (simp add: pool_reset_slot_def with_row_def py_index_row [OF assms(2)])
  next
    case True
    define i where "i = nat slot"
    have i: "i < nat (num_rows p)" using True assms(2) by (simp add: i_def)
    let ?p = "p\<lparr>num_tokens_seen := (num_tokens_seen p)[i := 0], slot_kv_len := (slot_kv_len p)[i := 0],
       slot_committed_tokens := (slot_committed_tokens p)[i := []]\<rparr>"
    have own: "owned_rows S ?p" using assms(1) by simp
    then have acc: "accounted ?p" unfolding owned_rows_def by blast
    obtain x a where rel: "release_reservation (slot_owner slot) (kv_arena p) = (Inr x, a)"
      by (simp add: release_reservation_def andThen_def)
    have bk: "book_step (kv_arena ?p) a"
      using book_steps(2) [OF accountedD(2) [OF acc], of "slot_owner slot"] rel by simp
    let ?q = "?p\<lparr>kv_arena := a\<rparr>"
    have accq: "accounted ?q" and ownq: "owned_rows S ?q"
      using accounted_book [OF acc bk] owned_book [OF own bk] by simp_all
    have iq: "i < nat (num_rows ?q)" using i by (simp add: num_rows_def)
    obtain a2 where a2: "(if slot_bundles ?q ! i = {} then ret ()
      else andThen (on_arena (decref (sorted_list_of_set (slot_bundles ?q ! i)) (slot_owner slot))) (\<lambda>_.
        update (\<lambda>p. p\<lparr>slot_bundles := (slot_bundles p)[i := {}]\<rparr>))) ?q =
      (Inr (), ?q\<lparr>kv_arena := a2, slot_bundles := (slot_bundles ?q)[i := {}]\<rparr>)"
      "accounted (?q\<lparr>kv_arena := a2, slot_bundles := (slot_bundles ?q)[i := {}]\<rparr>)"
      using reset_arena [OF accq iq slot_owner_ne] by blast
    define q2 where "q2 = ?q\<lparr>kv_arena := a2, slot_bundles := (slot_bundles ?q)[i := {}]\<rparr>"
    have v: "num_rows q2 = num_rows p" "pages_per_slot q2 = pages_per_slot p" "page_table_host q2 = page_table_host p"
      "global_page_table q2 = global_page_table p" "\<And>j. j \<noteq> i \<Longrightarrow> slot_bundles q2 ! j = slot_bundles p ! j"
      by (simp_all add: q2_def num_rows_def)
    have acc2: "accounted q2" using a2(2) by (simp add: q2_def)
    have others: "row_ok q2 j" if "j < nat (num_rows q2)" "j \<noteq> i" "int j \<notin> S - {slot}" for j
    proof -
      have "int j \<notin> S" using that(2,3) assms(2) by (auto simp: i_def)
      then show ?thesis using assms(1) that v by (simp add: owned_rows_def row_ok_def)
    qed
    let ?zero = "replicate (nat (pages_per_slot p)) (0::int)"
    have run: "pool_reset_slot slot p = (if \<exists>page \<in> set (page_table_host p ! i). page \<noteq> 0
        then set_page_table_row slot ?zero q2 else (Inr (), q2))"
    proof -
      have "pool_reset_slot slot p = (case (if slot_bundles ?q ! i = {} then ret ()
        else andThen (on_arena (decref (sorted_list_of_set (slot_bundles ?q ! i)) (slot_owner slot))) (\<lambda>_.
          update (\<lambda>p. p\<lparr>slot_bundles := (slot_bundles p)[i := {}]\<rparr>))) ?q of
        (Inl e, s) \<Rightarrow> (Inl e, s)
      | (Inr _, s) \<Rightarrow> if \<exists>page \<in> set (page_table_host s ! i). page \<noteq> 0
          then set_page_table_row slot ?zero s else (Inr (), s))"
        using True accountedD(1) [OF acc] rel
        by (simp add: pool_reset_slot_def with_row_def py_index_row [OF assms(2)] i_def [symmetric] andThen_def on_field_def
            split: prod.split sum.split)
      then show ?thesis unfolding a2(1) using v(3) by (simp add: q2_def)
    qed
    have wpos: "0 \<le> pages_per_slot p" "int (length (page_table_host p ! i)) = pages_per_slot p"
      using accountedD(9) [OF acc2, of i] i v by simp_all
    show ?thesis
    proof (cases "\<exists>page \<in> set (page_table_host p ! i). page \<noteq> 0")
      case True
      have "set_page_table_row slot ?zero q2 = (Inr (), install_row (nat slot) ?zero q2)"
        by (rule set_row_ok [OF acc2 assms(2)]) (use i v wpos in \<open>simp_all add: i_def set_replicate_conv_if\<close>)
      moreover have "owned_rows (S - {slot}) (install_row i ?zero q2)"
        by (rule owned_rows_install [OF acc2]) (use i v wpos others in \<open>simp_all add: set_replicate_conv_if\<close>)
      ultimately show ?thesis using True \<open>slot < num_rows p\<close> run v(1) by (simp add: i_def)
    next
      case False
      then have zero: "set (page_table_host p ! i) \<subseteq> {0}" by auto
      then have "global_page_table q2 ! i = page_table_host q2 ! i"
        using acc2 i v by (simp add: accounted_def)
      then have "row_ok q2 i" using zero v(3) False by (auto simp: row_ok_def filter_empty_conv)
      then have "owned_rows (S - {slot}) q2" using acc2 others by (auto simp: owned_rows_def)
      then show ?thesis using False \<open>slot < num_rows p\<close> run v(1) by simp
    qed
  qed
  then show "pool_reset_slot slot p = (if slot < num_rows p then (Inr (), snd (pool_reset_slot slot p))
      else (Inl (IndexError ''list index out of range''), p))"
    and "owned_rows (S - {slot}) (snd (pool_reset_slot slot p)) \<or> \<not> slot < num_rows p"
    and "num_rows (snd (pool_reset_slot slot p)) = num_rows p" by blast+
qed

section \<open>Restoring a prefix\<close>

text \<open>
  The arena while a restore holds its sources (and the private tail, once it is allocated): every
  count is the old one plus these references.
\<close>

definition pinned :: "('b, 'm) slot_pool \<Rightarrow> int list \<Rightarrow> int list \<Rightarrow> arena \<Rightarrow> bool" where
  "pinned p sources tail a \<longleftrightarrow> sane a \<and> same_size (kv_arena p) a \<and> distinct (sources @ tail) \<and>
     (\<forall>b \<in> set tail. b_ref (kv_arena p) b = 0 \<and> b_hash a b = None \<and> usable (kv_arena p) b) \<and>
     (\<forall>b. b_ref a b = b_ref (kv_arena p) b + of_bool (b \<in> set sources) + of_bool (b \<in> set tail))"

lemma pinned_owned: "owned_rows S p \<Longrightarrow> pinned p sources tail a \<Longrightarrow> owned_rows S (p\<lparr>kv_arena := a\<rparr>)"
  by (rule owned_rows_arena) (auto simp: pinned_def)

lemma pinned_book: "pinned p sources tail a \<Longrightarrow> book_step a a' \<Longrightarrow> pinned p sources tail a'"
  using same_size_trans by (auto simp: pinned_def book_step_def)

lemma pinned_incref:
  assumes "accounted p" and "distinct sources" and "incref sources owner (kv_arena p) = (Inr (), a)"
  shows "pinned p sources [] a"
proof -
  have "count_list sources b = of_bool (b \<in> set sources)" for b
    using assms(2) by (induction sources) auto
  then show ?thesis
    using incref_cases [OF accountedD(2) [OF assms(1)] assms(3)] assms(2) by (simp add: pinned_def)
qed

lemma pinned_tail:
  assumes "owned_rows S p" and "pinned p sources [] a" and "handed_out [t] a a'"
  shows "pinned p sources [t] a'"
proof -
  have h: "b_ref a t = 0" "usable a t" "sane a'" "same_size a a'" "\<And>b. b_ref a' b = (if b = t then 1 else b_ref a b)" "b_hash a' t = None"
    using assms(3) by (auto simp: handed_out_def)
  have pos: "0 \<le> b_ref (kv_arena p) t" using assms(1) by (auto simp: owned_rows_def accountedD sane_ref)
  have old: "b_ref (kv_arena p) t = 0" "t \<notin> set sources"
  proof -
    have "b_ref (kv_arena p) t + of_bool (t \<in> set sources) = 0" using assms(2) h(1) by (simp add: pinned_def)
    then show "b_ref (kv_arena p) t = 0" "t \<notin> set sources" using pos by (cases "t \<in> set sources"; simp)+
  qed
  moreover have "usable (kv_arena p) t"
    using assms(2) h(2) usable_same_size by (auto simp: pinned_def)
  ultimately show ?thesis
    using assms(2) h same_size_trans by (auto simp: pinned_def)
qed

text \<open>Undoing the pins restores every count.\<close>

lemma drop_pins:
  assumes "pinned p sources tail a" and "owned_rows S p" and "owner \<noteq> []" and "ids = sources \<and> rest = tail \<or> ids = tail \<and> rest = sources"
  obtains a' where "decref ids owner a = (Inr (), a')" and "sane a'" and "same_size (kv_arena p) a'"
    and "\<And>b. b_ref a' b = b_ref (kv_arena p) b + of_bool (b \<in> set rest)" and "b_hash a' = b_hash a"
proof -
  have pin: "sane a" "same_size (kv_arena p) a" "distinct ids" "set ids \<inter> set rest = {}"
    "\<And>b. b_ref a b = b_ref (kv_arena p) b + of_bool (b \<in> set ids) + of_bool (b \<in> set rest)"
    using assms(1,4) by (auto simp: pinned_def)
  have pos: "0 \<le> b_ref (kv_arena p) b" for b using assms(2) by (auto simp: owned_rows_def accountedD sane_ref)
  obtain a' where a': "decref ids owner a = (Inr (), a')" "sane a'" "same_size a a'" "b_hash a' = b_hash a"
    "\<And>b. b_ref a' b = (if b \<in> set ids then b_ref a b - 1 else b_ref a b)"
  proof (rule decref_run [OF pin(1,3) _ assms(3)])
    show "0 < b_ref a b" if "b \<in> set ids" for b using pin(5) [of b] pos [of b] that by simp
  qed (rule that)
  show thesis
  proof (rule that [OF a'(1,2) same_size_trans [OF pin(2) a'(3)] _ a'(4)])
    show "b_ref a' b = b_ref (kv_arena p) b + of_bool (b \<in> set rest)" for b
      using a'(5) [of b] pin(5) [of b] pin(4) by auto
  qed
qed

lemma undo_run:
  assumes "pinned p sources (case tail of None \<Rightarrow> [] | Some t \<Rightarrow> [t]) a" and "owned_rows S p" and "owner \<noteq> []"
  shows "\<exists>a'. undo_restore tail sources owner (p\<lparr>kv_arena := a\<rparr>) = (Inr miss, p\<lparr>kv_arena := a'\<rparr>) \<and>
    owned_rows S (p\<lparr>kv_arena := a'\<rparr>)"
proof -
  have pos: "0 \<le> b_ref (kv_arena p) b" for b using assms(2) by (auto simp: owned_rows_def accountedD sane_ref)
  have "\<exists>a1. (case tail of None \<Rightarrow> ret () | Some t \<Rightarrow> swallow (on_arena (decref [t] owner))) (p\<lparr>kv_arena := a\<rparr>) =
      (Inr (), p\<lparr>kv_arena := a1\<rparr>) \<and> pinned p sources [] a1"
  proof (cases tail)
    case None
    then show ?thesis using assms(1) by auto
  next
    case (Some t)
    then have pin: "pinned p sources [t] a" using assms(1) by simp
    obtain a1 where "decref [t] owner a = (Inr (), a1)" "sane a1" "same_size (kv_arena p) a1"
      "\<And>b. b_ref a1 b = b_ref (kv_arena p) b + of_bool (b \<in> set sources)"
      using drop_pins [OF pin assms(2,3), of "[t]" sources] by auto
    then show ?thesis
      using Some pin by (intro exI [of _ a1]) (auto simp: swallow_def attempt_def on_field_def pinned_def)
  qed
  then obtain a1 where a1: "(case tail of None \<Rightarrow> ret () | Some t \<Rightarrow> swallow (on_arena (decref [t] owner))) (p\<lparr>kv_arena := a\<rparr>) =
      (Inr (), p\<lparr>kv_arena := a1\<rparr>)" "pinned p sources [] a1" by blast
  obtain a2 where a2: "decref sources owner a1 = (Inr (), a2)" "sane a2" "same_size (kv_arena p) a2"
    "\<And>b. b_ref a2 b = b_ref (kv_arena p) b + of_bool (b \<in> set [])"
    using drop_pins [OF a1(2) assms(2,3), of sources "[]"] by auto
  have "undo_restore tail sources owner (p\<lparr>kv_arena := a\<rparr>) = (Inr miss, p\<lparr>kv_arena := a2\<rparr>)"
    using a1(1) a2(1) by (simp add: undo_restore_def andThen_def swallow_def attempt_def on_field_def)
  moreover have "owned_rows S (p\<lparr>kv_arena := a2\<rparr>)"
    by (rule owned_rows_arena [OF assms(2) a2(2,3)]) (simp add: a2(4))
  ultimately show ?thesis by blast
qed

text \<open>
  What a hit leaves in the slot's row: the cached pages themselves, but a private copy of a partial
  last page; no page that some slot held has changed its bytes.
\<close>

definition restored :: "nat \<Rightarrow> int \<Rightarrow> int list \<Rightarrow> int list \<Rightarrow> ('b, 'm) slot_pool \<Rightarrow> ('b, 'm) slot_pool \<Rightarrow> bool" where
  "restored i kv_len sources pages p p' \<longleftrightarrow> length pages = length sources \<and>
     page_table_host p' ! i = pages @ drop (length pages) (page_table_host p ! i) \<and> set pages \<subseteq> slot_bundles p' ! i \<and>
     (kv_len mod page_size = 0 \<longrightarrow> pages = sources) \<and>
     (kv_len mod page_size \<noteq> 0 \<longrightarrow> butlast pages = butlast sources \<and> private_page p' (last pages)) \<and>
     (\<exists>g. bytes_moved g p p' \<and> (\<forall>k < length pages. g (pages ! k) = sources ! k) \<and>
        (\<forall>j < nat (num_rows p). \<forall>b \<in> slot_bundles p ! j. g b = b))"

definition restore_outcome :: "int set \<Rightarrow> int \<Rightarrow> int \<Rightarrow> int list \<Rightarrow> ('b, 'm) slot_pool \<Rightarrow>
    (int \<times> int list) res \<times> ('b, 'm) slot_pool \<Rightarrow> bool" where
  "restore_outcome S slot kv_len sources p out \<longleftrightarrow> safe_outcome S slot out \<and>
     (case fst out of Inr (n, pages) \<Rightarrow> n = 0 \<and> pages = [] \<or>
        n = kv_len \<and> restored (nat slot) kv_len sources pages p (snd out) | Inl e \<Rightarrow> True)"

lemma restore_miss: "owned_rows S p' \<Longrightarrow> restore_outcome S slot kv_len sources p (Inr miss, p')"
  by (simp add: restore_outcome_def miss_def)

lemma restore_error: "owned_rows S p' \<Longrightarrow> restore_outcome S slot kv_len sources p (Inl e, p')"
  by (simp add: restore_outcome_def owned_insert)

text \<open>The last step of a hit: record the pages and map the row to them.\<close>

lemma install_step:
  assumes "owned_rows S p" and "0 \<le> slot" and "nat slot < nat (num_rows p)" and "slot \<notin> S"
    and "accounted (p\<lparr>kv_arena := a, slot_bundles := (slot_bundles p)[nat slot := B]\<rparr>)"
    and "q = (clone_cow_pages reps (p\<lparr>slot_bundles := (slot_bundles p)[nat slot := B]\<rparr>))\<lparr>kv_arena := a\<rparr>"
    and "set row \<subseteq> set (page_table_host p ! nat slot) \<union> B" and "slot_bundles p ! nat slot \<subseteq> B"
  shows "safe_outcome S slot (set_page_table_row slot row q)"
    and "set_page_table_row slot row q = (Inr (), p') \<Longrightarrow> bytes_moved (carries reps) p p' \<and>
      page_table_host p' ! nat slot = row \<and> slot_bundles p' ! nat slot = B \<and> kv_arena p' = a"
proof -
  let ?i = "nat slot"
  have acc: "accounted p" and rok: "row_ok p ?i" using assms(1-4) by (simp_all add: owned_rows_def)
  have il: "?i < length (slot_bundles p)" "?i < length (page_table_host p)"
    using accountedD(6,7) [OF acc] assms(3) by simp_all
  have v: "slot_bundles q = (slot_bundles p)[?i := B]" "page_table_host q = page_table_host p" "num_rows q = num_rows p"
    "global_page_table q = global_page_table p" "kv_arena q = a"
    by (simp_all add: assms(6) num_rows_def clone_cow_pages_def)
  have accq: "accounted q"
    using assms(5) unfolding assms(6) by (subst accounted_cong(1) [OF _ _ _ _ _ _ _ _]) simp_all
  show "safe_outcome S slot (set_page_table_row slot row q)"
  proof (rule finish_with_row [OF accq assms(2)])
    show "row_ok q j" if "j < nat (num_rows q)" "j \<noteq> ?i" "int j \<notin> S" for j
      using assms(1) that v by (simp add: owned_rows_def row_ok_def)
    show "set row \<subseteq> insert 0 (slot_bundles q ! ?i)" using assms(7,8) rok il v by (auto simp: row_ok_def)
  qed
  show "bytes_moved (carries reps) p p' \<and> page_table_host p' ! ?i = row \<and> slot_bundles p' ! ?i = B \<and> kv_arena p' = a"
    if "set_page_table_row slot row q = (Inr (), p')"
  proof -
    have "p' = install_row ?i row q" using set_row_cases [OF accq that] by auto
    then show ?thesis
      using v il by (simp add: bytes_moved_def assms(6) clone_cow_pages_def clone_pages_carries)
        (simp add: fun_eq_iff clone_pages_carries option.map_cong)
  qed
qed

lemma clone_pages_Nil: "clone_pages [] = (\<lambda>f. f)"
  by (simp add: clone_pages_def fun_eq_iff)

lemma install_whole:
  assumes "owned_rows S p" and "0 \<le> slot" and "nat slot < nat (num_rows p)" and "slot \<notin> S"
    and "pinned p sources [] a" and "kv_len mod page_size = 0"
  shows "restore_outcome S slot kv_len sources p (install_prefix slot kv_len sources None (p\<lparr>kv_arena := a\<rparr>))"
proof -
  let ?i = "nat slot" and ?B = "set sources \<union> slot_bundles p ! nat slot"
  have acc: "accounted p" using assms(1) by (simp add: owned_rows_def)
  have il: "?i < length (slot_bundles p)" using accountedD(6) [OF acc] assms(3) by simp
  let ?q = "(clone_cow_pages [] (p\<lparr>slot_bundles := (slot_bundles p)[?i := ?B]\<rparr>))\<lparr>kv_arena := a\<rparr>"
  let ?row = "sources @ drop (length sources) (page_table_host p ! ?i)"
  have accB: "accounted (p\<lparr>kv_arena := a, slot_bundles := (slot_bundles p)[?i := ?B]\<rparr>)"
    by (rule accounted_step [OF acc assms(3)]) (use assms(5) in \<open>auto simp: pinned_def\<close>)
  note st = install_step [OF assms(1-4) accB refl, of ?row "[]"]
  have sub: "set ?row \<subseteq> set (page_table_host p ! ?i) \<union> ?B" by (auto dest: in_set_dropD)
  obtain r p' where set: "set_page_table_row slot ?row ?q = (r, p')" by (cases "set_page_table_row slot ?row ?q")
  have qeq: "p\<lparr>kv_arena := a, slot_bundles := (slot_bundles p)[?i := ?B]\<rparr> = ?q"
    by (cases p) (simp add: clone_cow_pages_def clone_pages_Nil option.map_ident)
  have run: "install_prefix slot kv_len sources None (p\<lparr>kv_arena := a\<rparr>) =
      (case r of Inl e \<Rightarrow> (Inl e, p') | Inr u \<Rightarrow> (Inr (kv_len, sources), p'))"
    using assms(2,3) set qeq
    by (auto simp: install_prefix_def with_row_def py_index_row [OF assms(2)] num_rows_def andThen_def add_bundles_def split: sum.split)
  have safe: "safe_outcome S slot (r, p')" using st(1) sub set by simp
  show ?thesis
  proof (cases r)
    case (Inl e)
    then show ?thesis using run safe by (simp add: restore_outcome_def)
  next
    case (Inr u)
    then have f: "bytes_moved (carries []) p p'" "page_table_host p' ! ?i = ?row" "slot_bundles p' ! ?i = ?B"
      using st(2) [of p'] sub set by simp_all
    have "restored ?i kv_len sources sources p p'"
      using f assms(6) unfolding restored_def by (auto intro!: exI [of _ "carries []"])
    then show ?thesis using run safe Inr by (simp add: restore_outcome_def)
  qed
qed

lemma install_partial:
  assumes "owned_rows S p" and "0 \<le> slot" and "nat slot < nat (num_rows p)" and "slot \<notin> S"
    and "pinned p sources [t] a" and "kv_len mod page_size \<noteq> 0" and "sources \<noteq> []" and "0 \<notin> set sources"
    and "length sources \<le> length (page_table_host p ! nat slot)"
  shows "restore_outcome S slot kv_len sources p (install_prefix slot kv_len sources (Some t) (p\<lparr>kv_arena := a\<rparr>))"
proof -
  let ?i = "nat slot" and ?B = "insert t (set (butlast sources) \<union> slot_bundles p ! nat slot)"
  have acc: "accounted p" using assms(1) by (simp add: owned_rows_def)
  have il: "?i < length (slot_bundles p)" using accountedD(6) [OF acc] assms(3) by simp
  have src: "sources = butlast sources @ [last sources]" using assms(7) by simp
  have pin: "distinct sources" "t \<notin> set sources" "b_ref (kv_arena p) t = 0" "b_hash a t = None" "usable (kv_arena p) t"
    "sane a" "same_size (kv_arena p) a"
    "\<And>b. b_ref a b = b_ref (kv_arena p) b + of_bool (b \<in> set sources) + of_bool (b = t)"
    using assms(5) by (auto simp: pinned_def)
  have pos: "0 \<le> b_ref (kv_arena p) b" for b using sane_ref(1) [OF accountedD(2) [OF acc]] .
  have last: "last sources \<in> set sources" "last sources \<notin> set (butlast sources)"
  proof -
    have "distinct (butlast sources @ [last sources])" using pin(1) src by simp
    then show "last sources \<notin> set (butlast sources)" by (simp only: distinct_append) auto
    show "last sources \<in> set sources" using assms(7) by simp
  qed
  obtain a' where a': "decref [last sources] (slot_owner slot) a = (Inr (), a')" "sane a'" "same_size a a'" "b_hash a' = b_hash a"
    "\<And>b. b_ref a' b = (if b \<in> set [last sources] then b_ref a b - 1 else b_ref a b)"
  proof (rule decref_run [OF pin(6) _ _ slot_owner_ne, of "[last sources]" slot])
    show "0 < b_ref a b" if "b \<in> set [last sources]" for b using pin(2,3) pin(8) [of b] pos [of b] that last(1) by auto
  qed (simp, rule that)
  have ref': "b_ref a' b = b_ref (kv_arena p) b + of_bool (b \<in> set (butlast sources)) + of_bool (b = t)" for b
    using a'(5) [of b] pin(8) [of b] last by (subst (asm) (2) src) (auto split: if_splits)
  let ?reps = "[(pages_for kv_len - 1, last sources, t)]"
  let ?q = "(clone_cow_pages ?reps (p\<lparr>slot_bundles := (slot_bundles p)[?i := ?B]\<rparr>))\<lparr>kv_arena := a'\<rparr>"
  let ?pages = "butlast sources @ [t]"
  let ?row = "?pages @ drop (length ?pages) (page_table_host p ! ?i)"
  let ?row' = "(butlast sources @ drop (length sources - 1) (page_table_host p ! ?i))[length sources - 1 := t]"
  have out: "t \<notin> slot_bundles p ! ?i" using owned_usable(1) [OF acc assms(3), of t] pin(3) by auto
  have accB: "accounted (p\<lparr>kv_arena := a', slot_bundles := (slot_bundles p)[?i := ?B]\<rparr>)"
    by (rule accounted_step [OF acc assms(3) a'(2) same_size_trans [OF pin(7) a'(3)]]) (use ref' in auto)
  have sub: "set ?row' \<subseteq> set (page_table_host p ! ?i) \<union> ?B"
    using set_update_subset_insert [of "butlast sources @ drop (length sources - 1) (page_table_host p ! ?i)" "length sources - 1" t]
    by (auto dest: in_set_dropD)
  note st = install_step [OF assms(1-4) accB refl, of ?row' ?reps]
  obtain r p' where set: "set_page_table_row slot ?row' ?q = (r, p')" by (cases "set_page_table_row slot ?row' ?q")
  have qeq: "(clone_cow_pages ?reps (p\<lparr>kv_arena := a, slot_bundles := (slot_bundles p)[?i := ?B]\<rparr>))\<lparr>kv_arena := a'\<rparr> = ?q"
    by (cases p) (simp add: clone_cow_pages_def)
  have run: "install_prefix slot kv_len sources (Some t) (p\<lparr>kv_arena := a\<rparr>) =
      (case r of Inl e \<Rightarrow> (Inl e, p') | Inr u \<Rightarrow> (Inr (kv_len, ?pages), p'))"
    using assms(2,3) set qeq a'(1) il
    by (auto simp: install_prefix_def with_row_def py_index_row [OF assms(2)] num_rows_def andThen_def add_bundles_def
        on_field_def clone_cow_pages_def split: sum.split)
  have safe: "safe_outcome S slot (r, p')" using st(1) sub set by (simp add: subset_insertI2)
  show ?thesis
  proof (cases r)
    case (Inl e)
    then show ?thesis using run safe by (simp add: restore_outcome_def)
  next
    case (Inr u)
    then have f: "bytes_moved (carries ?reps) p p'" "page_table_host p' ! ?i = ?row'" "slot_bundles p' ! ?i = ?B" "kv_arena p' = a'"
      using st(2) [of p'] sub set by (simp_all add: subset_insertI2)
    have g: "carries ?reps b = (if b = t then last sources else b)" for b
      using carries_snoc [of "[]" "pages_for kv_len - 1" "last sources" t b] last(1) assms(8) by auto
    have n: "0 < length sources" using assms(7) by simp
    have row: "?row' = ?row"
    proof -
      let ?xs = "page_table_host p ! ?i" and ?m = "length sources - 1"
      have "drop ?m ?xs = ?xs ! ?m # drop (Suc ?m) ?xs"
        using n assms(9) by (intro Cons_nth_drop_Suc [symmetric]) linarith
      then show ?thesis by (simp add: list_update_append)
    qed
    have "restored ?i kv_len sources ?pages p p'"
      unfolding restored_def
    proof (intro conjI exI [of _ "carries ?reps"])
      show "\<forall>k < length ?pages. carries ?reps (?pages ! k) = sources ! k"
      proof (intro allI impI)
        fix k assume k: "k < length ?pages"
        show "carries ?reps (?pages ! k) = sources ! k"
        proof (cases "k < length sources - 1")
          case True
          then have "sources ! k \<noteq> t" using pin(2) nth_mem [of k sources] by auto
          then show ?thesis using True g by (simp add: nth_append nth_butlast)
        next
          case False
          then have "k = length sources - 1" using k n by simp
          then show ?thesis using g assms(7) by (simp add: nth_append last_conv_nth)
        qed
      qed
      show "\<forall>j < nat (num_rows p). \<forall>b \<in> slot_bundles p ! j. carries ?reps b = b"
        using g owned_usable(1) [OF acc] pin(3) by fastforce
      show "kv_len mod page_size \<noteq> 0 \<longrightarrow> butlast ?pages = butlast sources \<and> private_page p' (last ?pages)"
        using f(4) ref' [of t] pin(2-5) a'(4) last(1) in_set_butlastD [of t sources] accountedD(3) [OF acc]
        by (auto simp: private_page_def usable_def)
      show "page_table_host p' ! ?i = ?pages @ drop (length ?pages) (page_table_host p ! ?i)"
        using f(2) row by simp
    qed (use f assms(6) n in auto)
    then show ?thesis using run safe Inr by (simp add: restore_outcome_def)
  qed
qed

lemma attempt_cases:
  assumes "m s = (r, s')"
  shows "attempt m h k s = (case r of Inr x \<Rightarrow> k x s' | Inl e \<Rightarrow>
    (case e of RuntimeError _ \<Rightarrow> h s' | _ \<Rightarrow> (Inl e, s')))"
  using assms by (auto simp: attempt_def split: sum.split pyexc.split)

text \<open>An attempt whose handler ends in a miss or an error.\<close>

lemma attempt_outcome:
  assumes "m s = (r, s')" and "owned_rows S s'" and "restore_outcome S slot kv_len sources p (h s')"
    and "\<And>x. r = Inr x \<Longrightarrow> restore_outcome S slot kv_len sources p (k x s')"
  shows "restore_outcome S slot kv_len sources p (attempt m h k s)"
  using assms restore_error [OF assms(2)] by (auto simp: attempt_cases split: sum.split pyexc.split)

lemma undo_outcome:
  assumes "pinned p sources (case tail of None \<Rightarrow> [] | Some t \<Rightarrow> [t]) a" and "owned_rows S p"
  shows "restore_outcome S slot kv_len sources p (undo_restore tail sources (slot_owner slot) (p\<lparr>kv_arena := a\<rparr>))"
  using undo_run [OF assms slot_owner_ne, of slot] restore_miss by auto

lemma install_out_of_range:
  assumes "owned_rows S p" and "0 \<le> slot" and "\<not> nat slot < nat (num_rows p)"
  shows "restore_outcome S slot kv_len sources p (install_prefix slot kv_len sources tail p)"
proof -
  have "\<not> slot < num_rows p" using assms(2,3) by linarith
  then show ?thesis
    using restore_error [OF assms(1)] by (simp add: install_prefix_def with_row_def py_index_row [OF assms(2)])
qed

lemma restore_rows:
  assumes "owned_rows S p" and "0 \<le> slot" and "slot \<notin> S" and "distinct sources"
  shows "restore_outcome S slot kv_len sources p (restore_cached_page_prefix slot kv_len sources p)"
proof -
  let ?owner = "slot_owner slot" and ?a = "kv_arena p"
  let ?partial = "kv_len mod page_size \<noteq> 0"
  let ?full = "int (length (if ?partial then butlast sources else sources))"
  have acc: "accounted p" using assms(1) by (simp add: owned_rows_def)
  have uniq: "first_occurrences sources = sources" using assms(4) by (simp add: first_occurrences_def distinct_remdups_id)
  show ?thesis
  proof (cases "0 < kv_len \<and> kv_len \<le> max_seq_len p \<and> int (length sources) = pages_for kv_len \<and>
      (\<forall>b \<in> set sources. restorable ?a b) \<and> \<not> (reserved_for ?a ?owner \<noteq> 0 \<and> reserved_for ?a ?owner < pages_for kv_len)")
    case False
    then have "restore_cached_page_prefix slot kv_len sources p = (Inr miss, p)"
      by (auto simp: restore_cached_page_prefix_def uniq Let_def)
    then show ?thesis using restore_miss [OF assms(1)] by simp
  next
    case True
    let ?install = "\<lambda>tail. install_prefix slot kv_len sources tail"
    let ?consume = "\<lambda>tail. attempt (on_arena (consume_reservation ?full ?owner)) (undo_restore tail sources ?owner) (\<lambda>_. ?install tail)"
    have run: "restore_cached_page_prefix slot kv_len sources p =
      attempt (on_arena (incref sources ?owner)) (ret miss) (\<lambda>_.
        if ?partial then attempt (allocate_one_page ?owner) (undo_restore None sources ?owner) (\<lambda>t. ?consume (Some t))
        else ?consume None) p"
      using True accountedD(1) [OF acc] by (simp add: restore_cached_page_prefix_def uniq Let_def) blast
    obtain r1 a1 where inc: "incref sources ?owner ?a = (r1, a1)" by (cases "incref sources ?owner ?a")
    have o1: "owned_rows S (p\<lparr>kv_arena := a1\<rparr>)" by (rule owned_incref [OF assms(1) inc])
    have null: "0 \<notin> set sources" using True accountedD(3) [OF acc] by (auto simp: restorable_def)
    have n: "sources \<noteq> []" using True pages_for_bounds(1) [of kv_len] by auto
    have fits: "length sources \<le> length (page_table_host p ! nat slot)" if "nat slot < nat (num_rows p)"
      using True pages_for_bounds(2) [of kv_len "pages_per_slot p"] accountedD(9) [OF acc that] by (simp add: max_seq_len_def)
    have consume: "restore_outcome S slot kv_len sources p (?consume tail (p\<lparr>kv_arena := a\<rparr>))"
      if pin: "pinned p sources (case tail of None \<Rightarrow> [] | Some t \<Rightarrow> [t]) a" and tail: "tail = None \<longleftrightarrow> \<not> ?partial" for tail a
    proof -
      obtain r2 a2 where con: "consume_reservation ?full ?owner a = (r2, a2)" by (cases "consume_reservation ?full ?owner a")
      have "book_step a a2" using book_steps(1) [of a ?full ?owner] con pin by (simp add: pinned_def)
      then have pin2: "pinned p sources (case tail of None \<Rightarrow> [] | Some t \<Rightarrow> [t]) a2" by (rule pinned_book [OF pin])
      have o2: "owned_rows S (p\<lparr>kv_arena := a2\<rparr>)" by (rule pinned_owned [OF assms(1) pin2])
      have inst: "restore_outcome S slot kv_len sources p (?install tail (p\<lparr>kv_arena := a2\<rparr>))"
      proof (cases "nat slot < nat (num_rows p)")
        case True
        then show ?thesis
          using install_whole [OF assms(1,2) True assms(3), of sources a2 kv_len]
            install_partial [OF assms(1,2) True assms(3) _ _ n null fits [OF True], of _ a2 kv_len] pin2 tail
          by (cases tail) auto
      next
        case False
        have v: "num_rows (p\<lparr>kv_arena := a2\<rparr>) = num_rows p" by (simp add: num_rows_def)
        show ?thesis
          using False assms(2) restore_error [OF o2] v
          by (simp add: install_prefix_def with_row_def py_index_row [OF assms(2)]) linarith
      qed
      show ?thesis
      proof (rule attempt_outcome [OF _ o2])
        show "on_arena (consume_reservation ?full ?owner) (p\<lparr>kv_arena := a\<rparr>) = (r2, p\<lparr>kv_arena := a2\<rparr>)"
          by (simp add: on_field_def con)
        show "restore_outcome S slot kv_len sources p (undo_restore tail sources ?owner (p\<lparr>kv_arena := a2\<rparr>))"
          by (rule undo_outcome [OF pin2 assms(1)])
      qed (rule inst)
    qed
    show ?thesis
      unfolding run
    proof (rule attempt_outcome [OF _ o1])
      show "on_arena (incref sources ?owner) p = (r1, p\<lparr>kv_arena := a1\<rparr>)" by (simp add: on_field_def inc)
      show "restore_outcome S slot kv_len sources p (ret miss (p\<lparr>kv_arena := a1\<rparr>))" using restore_miss [OF o1] by simp
      fix u assume "r1 = Inr u"
      then have pin: "pinned p sources [] a1" using pinned_incref [OF acc assms(4)] inc by simp
      show "restore_outcome S slot kv_len sources p ((if ?partial
          then attempt (allocate_one_page ?owner) (undo_restore None sources ?owner) (\<lambda>t. ?consume (Some t))
          else ?consume None) (p\<lparr>kv_arena := a1\<rparr>))"
      proof (cases ?partial)
        case False
        then show ?thesis using consume [of None a1] pin by simp
      next
        case True
        obtain r2 p2 where al: "allocate_one_page ?owner (p\<lparr>kv_arena := a1\<rparr>) = (r2, p2)"
          by (cases "allocate_one_page ?owner (p\<lparr>kv_arena := a1\<rparr>)")
        have "sane (kv_arena (p\<lparr>kv_arena := a1\<rparr>))" using pin by (simp add: pinned_def)
        note c = allocate_one_cases [OF this al]
        show ?thesis
        proof (cases r2)
          case (Inl e)
          then have "p2 = p\<lparr>kv_arena := a1\<rparr>" using c by simp
          then have "restore_outcome S slot kv_len sources p (attempt (allocate_one_page ?owner)
              (undo_restore None sources ?owner) (\<lambda>t. ?consume (Some t)) (p\<lparr>kv_arena := a1\<rparr>))"
            using Inl undo_outcome [of p sources None a1 S slot kv_len] pin assms(1) o1
            by (intro attempt_outcome [where m = "allocate_one_page ?owner", OF al]) simp_all
          then show ?thesis using True by simp
        next
          case (Inr t)
          then obtain a2 where a2: "p2 = p\<lparr>kv_arena := a2\<rparr>" "handed_out [t] a1 a2" using c by auto
          have pin2: "pinned p sources [t] a2" by (rule pinned_tail [OF assms(1) pin a2(2)])
          have "restore_outcome S slot kv_len sources p (?consume (Some t) (p\<lparr>kv_arena := a2\<rparr>))"
            using consume [of "Some t" a2] pin2 True by simp
          then show ?thesis using True Inr a2(1) by (simp add: attempt_cases [where m = "allocate_one_page ?owner", OF al])
        qed
      qed
    qed
  qed
qed

text \<open>The sources a prefix of the arena's hash index gives.\<close>

definition arena_sources :: "('b, 'm) slot_pool \<Rightarrow> int \<Rightarrow> block_key list \<Rightarrow> int list" where
  "arena_sources p kv_len keys = page_sources kv_len keys (ph_bundle_ids (lookup_longest_prefix keys None (kv_arena p)))"

lemma restore_arena_rows:
  assumes "owned_rows S p" and "slot \<notin> S" and "0 \<notin> set (arena_sources p kv_len keys) \<Longrightarrow> distinct (arena_sources p kv_len keys)"
  shows "safe_outcome S slot (restore_prefix_from_arena slot kv_len keys p)"
proof (cases "dynamic_arena p \<and> 0 \<le> slot \<and> slot < num_slots p \<and> ph_hit (lookup_longest_prefix keys None (kv_arena p)) \<and>
    ph_bundle_ids (lookup_longest_prefix keys None (kv_arena p)) \<noteq> [] \<and> 0 \<notin> set (arena_sources p kv_len keys)")
  case True
  then have "restore_prefix_from_arena slot kv_len keys p = restore_cached_page_prefix slot kv_len (arena_sources p kv_len keys) p"
    by (simp add: restore_prefix_from_arena_def live_slot_def arena_sources_def Let_def)
  then show ?thesis using restore_rows [OF assms(1) _ assms(2) assms(3)] True by (simp add: restore_outcome_def)
next
  case False
  then have "snd (restore_prefix_from_arena slot kv_len keys p) = p"
    by (auto simp: restore_prefix_from_arena_def live_slot_def arena_sources_def Let_def)
  then show ?thesis using safe_same [OF assms(1)] by (metis prod.collapse)
qed

lemma restore_bundles_rows:
  assumes "owned_rows S p" and "0 \<le> slot" and "slot \<notin> S" and "distinct ids"
  shows "restore_outcome S slot kv_len ids p (restore_prefix_from_cached_bundles slot kv_len ids p)"
  using restore_rows [OF assms] restore_miss [OF assms(1)] by (simp add: restore_prefix_from_cached_bundles_def)

section \<open>Book-keeping calls\<close>

lemma owned_on_arena:
  assumes "owned_rows S p" and "book_step (kv_arena p) (snd (m (kv_arena p)))"
  shows "owned_rows S (snd (on_arena m p))"
  using owned_book [OF assms] by (simp add: on_field_def split_def)

lemma book_rows:
  assumes "owned_rows S p"
  shows "owned_rows S (snd (reserve_kv_capacity slot n p))" "owned_rows S (snd (release_kv_reservation slot p))"
    "owned_rows S (snd (publish_slot_blocks slot kv_len keys bs partial p))"
    "owned_rows S (snd (rewind_slot slot kv_len p))" "owned_rows S (snd (register_mtp_kv rows m p))"
proof -
  have sane: "sane (kv_arena p)" using assms by (simp add: owned_rows_def accountedD)
  show "owned_rows S (snd (reserve_kv_capacity slot n p))"
    using assms owned_on_arena [where m = "reserve (pages_for n) (slot_owner slot)", OF assms book_steps(3) [OF sane]]
    by (simp add: reserve_kv_capacity_def live_slot_def)
  show "owned_rows S (snd (release_kv_reservation slot p))"
    using assms owned_on_arena [where m = "release_reservation (slot_owner slot)", OF assms book_steps(2) [OF sane]]
    by (simp add: release_kv_reservation_def live_slot_def)
  have "owned_rows S (p\<lparr>kv_arena := snd (cache_full_blocks ks ids (kv_arena p))\<rparr>)" for ks ids
    using sane_step [OF sane, of "APublish ks ids"] publish_refs [OF sane, of ks ids]
    by (intro owned_rows_arena [OF assms]) simp_all
  then have pub: "owned_rows S (snd (on_arena (cache_full_blocks ks ids) p))" for ks ids
    by (simp add: on_field_def split_def)
  show "owned_rows S (snd (publish_slot_blocks slot kv_len keys bs partial p))"
    using assms pub
    by (cases "committed_blocks (page_table_host p ! nat slot) kv_len bs partial keys")
      (simp_all add: publish_slot_blocks_def live_slot_def snd_andThen_ret andThen_def [of "lift_res _"])
  show "owned_rows S (snd (rewind_slot slot kv_len p))"
    using assms by (simp add: rewind_slot_def with_row_def split: option.split)
  show "owned_rows S (snd (register_mtp_kv rows m p))"
  proof -
    have "owned_rows S (p\<lparr>mtp_cow_family := Some m\<rparr>) = owned_rows S p" by (rule accounted_cong) simp_all
    then show ?thesis using assms by (simp add: register_mtp_kv_def)
  qed
qed

section \<open>The decode batch\<close>

text \<open>Every trusted slot reads through its row what it read before.\<close>

definition reads_same :: "int set \<Rightarrow> ('b, 'm) slot_pool \<Rightarrow> ('b, 'm) slot_pool \<Rightarrow> bool" where
  "reads_same S p p' \<longleftrightarrow> num_rows p' = num_rows p \<and> (\<exists>g. bytes_moved g p p' \<and>
     (\<forall>j < nat (num_rows p). int j \<notin> S \<longrightarrow> (\<forall>k < length (page_table_host p ! j). page_table_host p ! j ! k \<noteq> 0 \<longrightarrow>
        k < length (page_table_host p' ! j) \<and> page_table_host p' ! j ! k \<noteq> 0 \<and>
        g (page_table_host p' ! j ! k) = page_table_host p ! j ! k)))"

lemma reads_same_refl: "reads_same S p p"
  unfolding reads_same_def using bytes_moved_id [of p] by (auto intro!: exI [of _ "\<lambda>b. b"])

lemma reads_same_trans:
  assumes "reads_same S p q" and "reads_same S q r"
  shows "reads_same S p r"
proof -
  obtain g h where g: "bytes_moved g p q" "\<forall>j < nat (num_rows p). int j \<notin> S \<longrightarrow> (\<forall>k < length (page_table_host p ! j).
      page_table_host p ! j ! k \<noteq> 0 \<longrightarrow> k < length (page_table_host q ! j) \<and> page_table_host q ! j ! k \<noteq> 0 \<and>
      g (page_table_host q ! j ! k) = page_table_host p ! j ! k)"
    and h: "bytes_moved h q r" "\<forall>j < nat (num_rows q). int j \<notin> S \<longrightarrow> (\<forall>k < length (page_table_host q ! j).
      page_table_host q ! j ! k \<noteq> 0 \<longrightarrow> k < length (page_table_host r ! j) \<and> page_table_host r ! j ! k \<noteq> 0 \<and>
      h (page_table_host r ! j ! k) = page_table_host q ! j ! k)"
    using assms unfolding reads_same_def by blast
  have n: "num_rows q = num_rows p" "num_rows r = num_rows p" using assms by (simp_all add: reads_same_def)
  have "bytes_moved (\<lambda>b. g (h b)) p r"
    using g(1) h(1) by (simp add: bytes_moved_def option.map_comp comp_def)
  then show ?thesis
    using g(2) h(2) n unfolding reads_same_def by (intro conjI exI [of _ "\<lambda>b. g (h b)"]) simp_all
qed

lemma prepared_reads:
  assumes "owned_rows S p" and "i < nat (num_rows p)" and "prepared i start len p p'"
    and "length (page_table_host p' ! i) = length (page_table_host p ! i)"
  shows "reads_same S p p'"
proof -
  obtain g where g: "bytes_moved g p p'"
    "\<forall>k < length (page_table_host p ! i). page_table_host p ! i ! k \<noteq> 0 \<longrightarrow>
      page_table_host p' ! i ! k \<noteq> 0 \<and> g (page_table_host p' ! i ! k) = page_table_host p ! i ! k"
    "\<forall>j < nat (num_rows p). j \<noteq> i \<longrightarrow> (\<forall>b \<in> slot_bundles p ! j. g b = b \<and> (private_page p b \<longrightarrow> private_page p' b))"
    using assms(3) unfolding prepared_def by blast
  have rows: "num_rows p' = num_rows p" "\<And>j. j \<noteq> i \<Longrightarrow> page_table_host p' ! j = page_table_host p ! j"
    using assms(3) by (simp_all add: prepared_def)
  have "k < length (page_table_host p' ! j) \<and> page_table_host p' ! j ! k \<noteq> 0 \<and>
      g (page_table_host p' ! j ! k) = page_table_host p ! j ! k"
    if k: "j < nat (num_rows p)" "int j \<notin> S" "k < length (page_table_host p ! j)" "page_table_host p ! j ! k \<noteq> 0" for j k
  proof (cases "j = i")
    case True
    then show ?thesis using g(2) k assms(4) by simp
  next
    case False
    have "row_ok p j" using assms(1) k by (simp add: owned_rows_def)
    then have "page_table_host p ! j ! k \<in> slot_bundles p ! j" using k by (auto simp: row_ok_def dest: nth_mem)
    then show ?thesis using g(3) k False rows(2) [OF False] by simp
  qed
  then show ?thesis unfolding reads_same_def using rows(1) g(1) by blast
qed

text \<open>Preparing a write changes neither the lengths of the sequences nor the geometry.\<close>

abbreviation lengths :: "('b, 'm) slot_pool \<Rightarrow> int \<times> int \<times> int list" where
  "lengths p \<equiv> (num_slots p, pages_per_slot p, slot_kv_len p)"

lemma unmoved_on_arena [frame_rules]: "(\<And>p a. v (p\<lparr>kv_arena := a\<rparr>) = v p) \<Longrightarrow> unmoved v (on_arena m)"
  by (simp add: unmoved_def on_field_def split_def)

lemma unmoved_guard: "unmoved v m \<Longrightarrow> unmoved v (guard c e m)"
  by (simp add: unmoved_def)

lemma unmoved_detach: "unmoved lengths (detach_page slot i source)"
  unfolding detach_page_def discard_bundle_def add_bundles_def by (auto intro!: frame_rules)

lemma unmoved_visit: "unmoved lengths (visit_write slot i source)" "unmoved lengths (visit_fixed msg f source)"
  unfolding visit_write_def visit_fixed_def allocate_one_page_def add_bundles_def
  by (auto intro!: frame_rules unmoved_detach unmoved_guard split: list.split)

lemma unmoved_remap: "(\<And>source. unmoved lengths (visit source)) \<Longrightarrow> unmoved lengths (remap_loop visit lps row reps)"
  by (induction visit lps row reps rule: remap_loop.induct) (auto intro!: frame_rules unmoved_guard split: option.split)

lemma unmoved_set_row: "unmoved lengths (set_page_table_row slot row)"
  unfolding set_page_table_row_def
  by (auto intro!: frame_rules unmoved_guard simp: remap_refcounts_def install_row_def split_def Let_def)

lemma unmoved_prepare: "unmoved lengths (prepare_kv_writes slot start len)"
  unfolding prepare_kv_writes_def with_row_def finish_remap_def
  by (auto intro!: frame_rules unmoved_guard unmoved_remap unmoved_visit unmoved_set_row
      simp: clone_cow_pages_def clone_fixed_pages_def split: option.split)

text \<open>What a batch over \<open>zs\<close> (slots with their tokens) has done when the loop ends.\<close>

definition batch_written :: "(int \<times> int) list \<Rightarrow> int list \<Rightarrow> ('b, 'm) slot_pool \<Rightarrow> ('b, 'm) slot_pool \<Rightarrow> bool" where
  "batch_written zs rows p p' \<longleftrightarrow> length rows = length zs \<and>
     (\<forall>n < length zs. let i = nat (fst (zs ! n)); past = slot_kv_len p ! i; page = page_table_host p' ! i ! nat (past div page_size) in
        i < nat (num_rows p) \<and> rows ! n = page * page_size + past mod page_size \<and>
        private_page p' page \<and> page \<in> slot_bundles p' ! i \<and> slot_kv_len p' ! i = past + 1) \<and>
     (\<forall>j < nat (num_rows p). int j \<notin> fst ` set zs \<longrightarrow> page_table_host p' ! j = page_table_host p ! j \<and>
        slot_bundles p' ! j = slot_bundles p ! j \<and> slot_kv_len p' ! j = slot_kv_len p ! j \<and>
        (\<forall>b \<in> slot_bundles p ! j. private_page p b \<longrightarrow> private_page p' b))"

lemma advance_views [simp]:
  "page_table_host (advance_slot i past t p) = page_table_host p" "slot_bundles (advance_slot i past t p) = slot_bundles p"
  "num_rows (advance_slot i past t p) = num_rows p" "private_page (advance_slot i past t p) b = private_page p b"
  "slot_kv_len (advance_slot i past t p) = (slot_kv_len p)[i := past + 1]"
  "owned_rows S (advance_slot i past t p) = owned_rows S p" "reads_same T q (advance_slot i past t p) = reads_same T q p"
  "length (slot_kv_len (advance_slot i past t p)) = length (slot_kv_len p)"
  by (simp_all add: advance_slot_def num_rows_def private_page_def reads_same_def bytes_moved_def)
    (rule accounted_cong; simp)

lemma prepare_args:
  "prepare_kv_writes slot start len p = (Inr u, p') \<Longrightarrow> 0 \<le> len \<and> 0 \<le> start \<and> start + len \<le> max_seq_len p"
  by (auto simp: prepare_kv_writes_def split: if_splits)

text \<open>One sequence of the batch.\<close>

lemma decode_step:
  fixes t :: int
  assumes "owned_rows S p" and "0 \<le> slot" and "slot \<notin> S" and "slot < num_rows p" and "past = slot_kv_len p ! nat slot"
    and "length (slot_kv_len p) = nat (num_rows p)" and "prepare_kv_writes slot past 1 p = (Inr u, p1)"
  defines "i \<equiv> nat slot" and "k \<equiv> nat (past div page_size)" and "p2 \<equiv> advance_slot (nat slot) past t p1"
  shows "write_index slot past p1 = (Inr (page_table_host p1 ! i ! k * page_size + past mod page_size), p1)"
    and "owned_rows S p2" "num_rows p2 = num_rows p" "reads_same S p p2" "length (slot_kv_len p2) = nat (num_rows p2)"
    and "private_page p2 (page_table_host p2 ! i ! k)" "page_table_host p2 ! i ! k \<in> slot_bundles p2 ! i" "slot_kv_len p2 ! i = past + 1"
    and "\<And>j. j \<noteq> i \<Longrightarrow> page_table_host p2 ! j = page_table_host p ! j \<and> slot_bundles p2 ! j = slot_bundles p ! j \<and>
      slot_kv_len p2 ! j = slot_kv_len p ! j"
    and "\<And>j b. j < nat (num_rows p) \<Longrightarrow> j \<noteq> i \<Longrightarrow> b \<in> slot_bundles p ! j \<Longrightarrow> private_page p b \<Longrightarrow> private_page p2 b"
proof -
  have i: "i < nat (num_rows p)" using assms(2,4) by (simp add: i_def)
  note res = prepare_run [OF assms(1-3,7)]
  have own: "owned_rows S p1" and pr: "prepared i past 1 p p1" using res by (simp_all add: i_def)
  have args: "0 \<le> past" "past + 1 \<le> max_seq_len p" using prepare_args [OF assms(7)] by simp_all
  have "lengths p1 = lengths p" using unmoved_prepare [of slot past 1] assms(7) unfolding unmoved_def by (metis snd_conv)
  then have same: "slot_kv_len p1 = slot_kv_len p" "pages_per_slot p1 = pages_per_slot p" "num_rows p1 = num_rows p"
    "max_seq_len p1 = max_seq_len p" by (simp_all add: num_rows_def max_seq_len_def)
  have "0 \<le> past div page_size" using args(1) by (simp add: page_size_def)
  then have tch: "touched past 1 k" by (simp add: touched_def k_def)
  have page: "private_page p1 (page_table_host p1 ! i ! k)" "page_table_host p1 ! i ! k \<in> slot_bundles p1 ! i"
    using pr tch unfolding prepared_def by blast+
  show "write_index slot past p1 = (Inr (page_table_host p1 ! i ! k * page_size + past mod page_size), p1)"
    using args same(3,4) assms(2,4) by (simp add: write_index_def with_row_def py_index_row i_def k_def)
  have "length (page_table_host p1 ! i) = length (page_table_host p ! i)"
  proof -
    have "accounted p1" "accounted p" using own assms(1) by (simp_all add: owned_rows_def)
    from this [THEN accountedD(9), of i] show ?thesis using i same(2,3) by simp
  qed
  then have reads: "reads_same S p p1" by (rule prepared_reads [OF assms(1) i pr])
  show "owned_rows S p2" "num_rows p2 = num_rows p" "reads_same S p p2" "length (slot_kv_len p2) = nat (num_rows p2)"
    "private_page p2 (page_table_host p2 ! i ! k)" "page_table_host p2 ! i ! k \<in> slot_bundles p2 ! i" "slot_kv_len p2 ! i = past + 1"
    using own reads page same i assms(6) by (simp_all add: p2_def i_def)
  show "page_table_host p2 ! j = page_table_host p ! j \<and> slot_bundles p2 ! j = slot_bundles p ! j \<and>
      slot_kv_len p2 ! j = slot_kv_len p ! j" if "j \<noteq> i" for j
    using pr that same(1) by (simp add: prepared_def p2_def i_def)
  show "private_page p2 b" if "j < nat (num_rows p)" "j \<noteq> i" "b \<in> slot_bundles p ! j" "private_page p b" for j b
    using pr that unfolding prepared_def by (auto simp: p2_def)
qed

lemma batch_written_Cons:
  assumes "batch_written zs new p2 p'" and "slot \<notin> fst ` set zs" and "0 \<le> slot" and "nat slot < nat (num_rows p)"
    and "num_rows p2 = num_rows p" and "past = slot_kv_len p ! nat slot" and "slot_kv_len p2 ! nat slot = past + 1"
    and "page = page_table_host p2 ! nat slot ! nat (past div page_size)" and "private_page p2 page" and "page \<in> slot_bundles p2 ! nat slot"
    and "\<And>j. j \<noteq> nat slot \<Longrightarrow> page_table_host p2 ! j = page_table_host p ! j \<and> slot_bundles p2 ! j = slot_bundles p ! j \<and>
      slot_kv_len p2 ! j = slot_kv_len p ! j"
    and "\<And>j b. j < nat (num_rows p) \<Longrightarrow> j \<noteq> nat slot \<Longrightarrow> b \<in> slot_bundles p ! j \<Longrightarrow> private_page p b \<Longrightarrow> private_page p2 b"
    and "\<forall>z \<in> set zs. 0 \<le> fst z"
  shows "batch_written ((slot, t) # zs) ((page * page_size + past mod page_size) # new) p p'"
proof -
  note w = assms(1) [unfolded batch_written_def]
  have head: "int (nat slot) \<notin> fst ` set zs" using assms(2,3) by simp
  have keep: "page_table_host p' ! nat slot = page_table_host p2 ! nat slot \<and> slot_bundles p' ! nat slot = slot_bundles p2 ! nat slot \<and>
      slot_kv_len p' ! nat slot = slot_kv_len p2 ! nat slot \<and> (\<forall>b \<in> slot_bundles p2 ! nat slot. private_page p2 b \<longrightarrow> private_page p' b)"
  proof -
    have "\<forall>j < nat (num_rows p2). int j \<notin> fst ` set zs \<longrightarrow> page_table_host p' ! j = page_table_host p2 ! j \<and>
        slot_bundles p' ! j = slot_bundles p2 ! j \<and> slot_kv_len p' ! j = slot_kv_len p2 ! j \<and>
        (\<forall>b \<in> slot_bundles p2 ! j. private_page p2 b \<longrightarrow> private_page p' b)" using w by blast
    then show ?thesis using head assms(4,5) by metis
  qed
  have tail: "let i = nat (fst (zs ! n)); past = slot_kv_len p ! i; page = page_table_host p' ! i ! nat (past div page_size) in
      i < nat (num_rows p) \<and> new ! n = page * page_size + past mod page_size \<and>
      private_page p' page \<and> page \<in> slot_bundles p' ! i \<and> slot_kv_len p' ! i = past + 1" if n: "n < length zs" for n
  proof -
    have "fst (zs ! n) \<noteq> slot" using assms(2) n by (metis image_eqI nth_mem)
    moreover have "0 \<le> fst (zs ! n)" using assms(13) n by simp
    ultimately have "nat (fst (zs ! n)) \<noteq> nat slot" using assms(3) by simp
    then have "slot_kv_len p2 ! nat (fst (zs ! n)) = slot_kv_len p ! nat (fst (zs ! n))" using assms(11) by simp
    moreover have "let i = nat (fst (zs ! n)); past = slot_kv_len p2 ! i; page = page_table_host p' ! i ! nat (past div page_size) in
      i < nat (num_rows p2) \<and> new ! n = page * page_size + past mod page_size \<and>
      private_page p' page \<and> page \<in> slot_bundles p' ! i \<and> slot_kv_len p' ! i = past + 1" using w n by blast
    ultimately show ?thesis by (simp only: Let_def assms(5))
  qed
  have frame: "page_table_host p' ! j = page_table_host p ! j \<and> slot_bundles p' ! j = slot_bundles p ! j \<and>
      slot_kv_len p' ! j = slot_kv_len p ! j \<and> (\<forall>b \<in> slot_bundles p ! j. private_page p b \<longrightarrow> private_page p' b)"
    if j: "j < nat (num_rows p)" "int j \<notin> fst ` set ((slot, t) # zs)" for j
  proof -
    have "j \<noteq> nat slot" "int j \<notin> fst ` set zs" using j(2) assms(3) by auto
    then show ?thesis using w assms(5) assms(11) [of j] assms(12) [of j] j(1) by auto
  qed
  have "let i = nat (fst (((slot, t) # zs) ! n)); past' = slot_kv_len p ! i; page' = page_table_host p' ! i ! nat (past' div page_size) in
      i < nat (num_rows p) \<and> ((page * page_size + past mod page_size) # new) ! n = page' * page_size + past' mod page_size \<and>
      private_page p' page' \<and> page' \<in> slot_bundles p' ! i \<and> slot_kv_len p' ! i = past' + 1" if "n < length ((slot, t) # zs)" for n
    using tail [of "n - 1"] that keep assms(4,6-10) by (cases n) (simp_all add: Let_def)
  then show ?thesis using w frame unfolding batch_written_def by simp
qed

lemma decode_loop_run:
  assumes "owned_rows S p" and "\<forall>z \<in> set zs. 0 \<le> fst z \<and> fst z \<notin> S" and "distinct (map fst zs)"
    and "length (slot_kv_len p) = nat (num_rows p)" and "decode_loop zs rows lens p = (r, p')"
  shows "case r of Inl e \<Rightarrow> owned_rows (S \<union> fst ` set zs) p'
    | Inr (rows', lens') \<Rightarrow> owned_rows S p' \<and> reads_same S p p' \<and>
        lens' = lens @ map (\<lambda>z. slot_kv_len p ! nat (fst z) + 1) zs \<and> (\<exists>new. rows' = rows @ new \<and> batch_written zs new p p')"
  using assms
proof (induction zs arbitrary: p rows lens)
  case Nil
  then show ?case using reads_same_refl by (auto simp: batch_written_def)
next
  case (Cons z zs)
  obtain slot t where z: "z = (slot, t)" by (cases z)
  have s: "0 \<le> slot" "slot \<notin> S" "slot \<notin> fst ` set zs" using Cons.prems(2,3) z by auto
  define past where "past = slot_kv_len p ! nat slot"
  have bad: "owned_rows (S \<union> fst ` set (z # zs)) q" if "owned_rows (insert slot S) q" for q
    using that by (rule owned_rows_mono) (auto simp: z)
  have keep: "owned_rows (insert slot S) p" by (rule owned_insert [OF Cons.prems(1)])
  show ?case
  proof (cases "slot < num_rows p \<and> past < max_seq_len p")
    case False
    then have "\<exists>e. r = Inl e \<and> p' = p"
      using Cons.prems(5) s(1) by (auto simp: z with_row_def py_index_row past_def split: if_splits)
    then show ?thesis using bad [OF keep] by auto
  next
    case True
    obtain r1 p1 where pr: "prepare_kv_writes slot past 1 p = (r1, p1)" by (cases "prepare_kv_writes slot past 1 p")
    show ?thesis
    proof (cases r1)
      case (Inl e)
      then have "r = Inl e" "p' = p1"
        using Cons.prems(5) True pr s(1) by (auto simp: z with_row_def py_index_row past_def [symmetric] andThen_def)
      then show ?thesis using prepare_run [OF Cons.prems(1) s(1,2) pr] Inl bad by simp
    next
      case (Inr u)
      note st = decode_step [OF Cons.prems(1) s(1,2) _ past_def Cons.prems(4), of u p1]
      have step: "slot < num_rows p" "prepare_kv_writes slot past 1 p = (Inr u, p1)" using True pr Inr by simp_all
      define p2 where "p2 = advance_slot (nat slot) past t p1"
      define page where "page = page_table_host p2 ! nat slot ! nat (past div page_size)"
      have rest: "decode_loop zs (rows @ [page * page_size + past mod page_size]) (lens @ [past + 1]) p2 = (r, p')"
        using Cons.prems(5) True step s(1) st(1) [OF step]
        by (simp add: z with_row_def py_index_row past_def [symmetric] andThen_def p2_def page_def)
      have f: "owned_rows S p2" "num_rows p2 = num_rows p" "reads_same S p p2" "length (slot_kv_len p2) = nat (num_rows p2)"
        using st(2-5) [OF step] by (simp_all add: p2_def)
      have kv: "slot_kv_len p2 ! nat (fst y) = slot_kv_len p ! nat (fst y)" if "y \<in> set zs" for y
      proof -
        have "fst y \<noteq> slot" "0 \<le> fst y" using that s(3) Cons.prems(2) by auto
        then have "nat (fst y) \<noteq> nat slot" using s(1) by simp
        then show ?thesis using st(9) [OF step] by (simp add: p2_def)
      qed
      have prems: "\<forall>z \<in> set zs. 0 \<le> fst z \<and> fst z \<notin> S" "distinct (map fst zs)" using Cons.prems(2,3) by simp_all
      note ih = Cons.IH [OF f(1) prems f(4) rest]
      show ?thesis
      proof (cases r)
        case (Inl e)
        have "owned_rows (S \<union> fst ` set (z # zs)) p'" using ih Inl by (auto elim: owned_rows_mono)
        then show ?thesis using Inl by simp
      next
        case (Inr rl)
        obtain rows' lens' where rl: "rl = (rows', lens')" by (cases rl)
        obtain new where new: "rows' = (rows @ [page * page_size + past mod page_size]) @ new" "batch_written zs new p2 p'"
          "owned_rows S p'" "reads_same S p2 p'" "lens' = (lens @ [past + 1]) @ map (\<lambda>z. slot_kv_len p2 ! nat (fst z) + 1) zs"
          using ih Inr rl by auto
        have "batch_written ((slot, t) # zs) ((page * page_size + past mod page_size) # new) p p'"
        proof (rule batch_written_Cons [OF new(2) s(3,1) _ f(2) past_def _ page_def])
          show "nat slot < nat (num_rows p)" using True s(1) by simp
          show "slot_kv_len p2 ! nat slot = past + 1" "private_page p2 page" "page \<in> slot_bundles p2 ! nat slot"
            using st(6-8) [OF step] by (simp_all add: p2_def page_def)
          show "\<And>j. j \<noteq> nat slot \<Longrightarrow> page_table_host p2 ! j = page_table_host p ! j \<and> slot_bundles p2 ! j = slot_bundles p ! j \<and>
              slot_kv_len p2 ! j = slot_kv_len p ! j" using st(9) [OF step] by (simp add: p2_def)
          show "\<And>j b. j < nat (num_rows p) \<Longrightarrow> j \<noteq> nat slot \<Longrightarrow> b \<in> slot_bundles p ! j \<Longrightarrow> private_page p b \<Longrightarrow> private_page p2 b"
            using st(10) [OF step] by (simp add: p2_def)
        qed (use prems(1) in blast)
        moreover have "lens' = lens @ map (\<lambda>z. slot_kv_len p ! nat (fst z) + 1) (z # zs)"
          using new(5) kv by (simp add: z past_def)
        ultimately show ?thesis
          using Inr rl new(1,3) reads_same_trans [OF f(3) new(4)] by (simp add: z)
      qed
    qed
  qed
qed

end
