(* ===== verification/Slot_Prefill.thy ===== *)
theory Slot_Prefill
  imports Slot_Calls
begin

text \<open>
  A batched prefill over the ownership facts of \<^verbatim>\<open>Slot_Sharing\<close>: the pages of all its slots are
  private when the loop over the slots ends, and no two tokens of the batch share a physical row.
\<close>

lemma two_holders_ref:
  assumes "accounted p" and "i < nat (num_rows p)" and "j < nat (num_rows p)" and "i \<noteq> j"
    and "b \<in> slot_bundles p ! i" and "b \<in> slot_bundles p ! j"
  shows "2 \<le> b_ref (kv_arena p) b"
proof -
  have "2 \<le> card (holders (slot_bundles p) b)"
    using two_holders [of i "slot_bundles p" j b] assms accountedD(6) [OF assms(1)] by simp
  then show ?thesis using accountedD(10) [OF assms(1), of b] by linarith
qed

text \<open>A private page of one slot is in no other slot's row.\<close>

lemma private_unmapped:
  assumes "owned_rows S p" and "i < nat (num_rows p)" and "b \<in> slot_bundles p ! i" and "private_page p b"
    and "j < nat (num_rows p)" and "j \<noteq> i"
  shows "b \<notin> slot_bundles p ! j" and "int j \<notin> S \<Longrightarrow> b \<notin> set (page_table_host p ! j)"
proof -
  have acc: "accounted p" using assms(1) by (simp add: owned_rows_def)
  show out: "b \<notin> slot_bundles p ! j"
    using two_holders_ref [OF acc assms(2,5) assms(6) [symmetric] assms(3)] assms(4) by (auto simp: private_page_def)
  assume "int j \<notin> S"
  then have "row_ok p j" using assms(1,5) by (simp add: owned_rows_def)
  then show "b \<notin> set (page_table_host p ! j)" using out assms(4) by (auto simp: row_ok_def private_page_def)
qed

lemma prepare_widths:
  assumes "owned_rows S p" and "owned_rows S p'" and "prepare_kv_writes slot start len p = (r, p')"
  shows "num_rows p' = num_rows p"
    and "j < nat (num_rows p) \<Longrightarrow> length (page_table_host p' ! j) = length (page_table_host p ! j)"
proof -
  have "lengths p' = lengths p" using unmoved_prepare [of slot start len] assms(3) unfolding unmoved_def by (metis snd_conv)
  then show n: "num_rows p' = num_rows p" by (simp add: num_rows_def)
  have w: "pages_per_slot p' = pages_per_slot p" using \<open>lengths p' = lengths p\<close> by simp
  have "accounted p'" "accounted p" using assms(1,2) by (simp_all add: owned_rows_def)
  from this [THEN accountedD(9), of j] show "j < nat (num_rows p) \<Longrightarrow> length (page_table_host p' ! j) = length (page_table_host p ! j)"
    using n w by simp
qed

lemma prepare_reads:
  assumes "owned_rows S p" and "0 \<le> slot" and "slot \<notin> S" and "prepare_kv_writes slot start len p = (Inr u, p')"
  shows "reads_same S p p'"
proof (cases "slot < num_rows p")
  case True
  then have i: "nat slot < nat (num_rows p)" using assms(2) by simp
  have "owned_rows S p'" and pr: "prepared (nat slot) start len p p'" using prepare_run [OF assms] by simp_all
  then have "length (page_table_host p' ! nat slot) = length (page_table_host p ! nat slot)"
    using prepare_widths(2) [OF assms(1) _ assms(4) i] by blast
  then show ?thesis by (rule prepared_reads [OF assms(1) i pr])
next
  case False
  then have "p' = p"
    using assms(2,4) by (auto simp: prepare_kv_writes_def with_row_def py_index_row split: if_splits)
  then show ?thesis by (simp add: reads_same_refl)
qed

section \<open>All slots of the batch\<close>

definition batch_prepared :: "int list \<Rightarrow> int \<Rightarrow> int \<Rightarrow> ('b, 'm) slot_pool \<Rightarrow> ('b, 'm) slot_pool \<Rightarrow> bool" where
  "batch_prepared ss past q p p' \<longleftrightarrow> lengths p' = lengths p \<and>
     (\<forall>s \<in> set ss. \<forall>k. touched past q k \<longrightarrow> nat s < nat (num_rows p) \<and> k < length (page_table_host p' ! nat s) \<and>
        private_page p' (page_table_host p' ! nat s ! k) \<and> page_table_host p' ! nat s ! k \<in> slot_bundles p' ! nat s) \<and>
     (\<forall>j < nat (num_rows p). int j \<notin> set ss \<longrightarrow> page_table_host p' ! j = page_table_host p ! j \<and>
        slot_bundles p' ! j = slot_bundles p ! j \<and> (\<forall>b \<in> slot_bundles p ! j. private_page p b \<longrightarrow> private_page p' b))"

lemma batch_prepared_Cons:
  assumes "prepared (nat s) past q p p1" and "lengths p1 = lengths p" and "batch_prepared ss past q p1 p'"
    and "0 \<le> s" and "s \<notin> set ss" and "\<forall>s \<in> set ss. 0 \<le> s"
    and "\<And>j. j < nat (num_rows p) \<Longrightarrow> length (page_table_host p1 ! j) = length (page_table_host p ! j)"
  shows "batch_prepared (s # ss) past q p p'"
proof -
  note b = assms(3) [unfolded batch_prepared_def]
  have n: "num_rows p1 = num_rows p" using assms(2) by (simp add: num_rows_def)
  have same: "\<forall>j. j \<noteq> nat s \<longrightarrow> page_table_host p1 ! j = page_table_host p ! j \<and> slot_bundles p1 ! j = slot_bundles p ! j"
    using assms(1) unfolding prepared_def by blast
  have kept: "\<forall>j < nat (num_rows p). j \<noteq> nat s \<longrightarrow> (\<forall>b \<in> slot_bundles p ! j. private_page p b \<longrightarrow> private_page p1 b)"
    using assms(1) unfolding prepared_def by blast
  have own: "\<forall>k. touched past q k \<longrightarrow> nat s < nat (num_rows p) \<and> k < length (page_table_host p ! nat s) \<and>
      private_page p1 (page_table_host p1 ! nat s ! k) \<and> page_table_host p1 ! nat s ! k \<in> slot_bundles p1 ! nat s"
    using assms(1) unfolding prepared_def by blast
  have out: "int (nat s) \<notin> set ss" using assms(4,5) by simp
  have "nat s < nat (num_rows p) \<and> k < length (page_table_host p' ! nat s) \<and>
      private_page p' (page_table_host p' ! nat s ! k) \<and> page_table_host p' ! nat s ! k \<in> slot_bundles p' ! nat s"
    if k: "touched past q k" for k
  proof -
    have i: "nat s < nat (num_rows p1)" using own k n by simp
    have row: "page_table_host p' ! nat s = page_table_host p1 ! nat s" "slot_bundles p' ! nat s = slot_bundles p1 ! nat s"
      "\<forall>b \<in> slot_bundles p1 ! nat s. private_page p1 b \<longrightarrow> private_page p' b"
      using b i out by blast+
    show ?thesis using own k row i n assms(7) by metis
  qed
  moreover have "page_table_host p' ! j = page_table_host p ! j \<and> slot_bundles p' ! j = slot_bundles p ! j \<and>
      (\<forall>b \<in> slot_bundles p ! j. private_page p b \<longrightarrow> private_page p' b)"
    if j: "j < nat (num_rows p)" "int j \<notin> set (s # ss)" for j
  proof -
    have "j \<noteq> nat s" "int j \<notin> set ss" using j(2) assms(4) by auto
    moreover have "page_table_host p' ! j = page_table_host p1 ! j \<and> slot_bundles p' ! j = slot_bundles p1 ! j \<and>
        (\<forall>b \<in> slot_bundles p1 ! j. private_page p1 b \<longrightarrow> private_page p' b)"
      using b j(1) n \<open>int j \<notin> set ss\<close> by simp
    ultimately show ?thesis using same kept j(1) by simp
  qed
  ultimately show ?thesis using b assms(2) n unfolding batch_prepared_def by (simp add: num_rows_def)
qed

lemma prefill_prepare_run:
  assumes "owned_rows S p" and "\<forall>s \<in> set ss. 0 \<le> s \<and> s \<notin> S" and "distinct ss"
    and "for_each (\<lambda>s. prepare_kv_writes s past q) ss p = (r, p')"
  shows "case r of Inl e \<Rightarrow> owned_rows (S \<union> set ss) p'
    | Inr u \<Rightarrow> owned_rows S p' \<and> reads_same S p p' \<and> batch_prepared ss past q p p'"
  using assms
proof (induction ss arbitrary: p)
  case Nil
  then show ?case using reads_same_refl by (auto simp: batch_prepared_def)
next
  case (Cons s ss)
  have s: "0 \<le> s" "s \<notin> S" "s \<notin> set ss" using Cons.prems(2,3) by auto
  obtain r1 p1 where pr: "prepare_kv_writes s past q p = (r1, p1)" by fastforce
  note run = prepare_run [OF Cons.prems(1) s(1,2) pr]
  show ?case
  proof (cases r1)
    case (Inl e)
    then have "owned_rows (insert s S) p1" using run by simp
    then have "owned_rows (S \<union> set (s # ss)) p1" by (rule owned_rows_mono) auto
    moreover have "r = Inl e \<and> p' = p1" using Cons.prems(4) pr Inl by (simp add: andThen_def)
    ultimately show ?thesis by simp
  next
    case (Inr u)
    then have own: "owned_rows S p1" and prep: "prepared (nat s) past q p p1" using run by simp_all
    have rest: "for_each (\<lambda>s. prepare_kv_writes s past q) ss p1 = (r, p')"
      using Cons.prems(4) pr Inr by (simp add: andThen_def)
    have IH: "case r of Inl e \<Rightarrow> owned_rows (S \<union> set ss) p'
        | Inr u \<Rightarrow> owned_rows S p' \<and> reads_same S p1 p' \<and> batch_prepared ss past q p1 p'"
      by (rule Cons.IH [OF own _ _ rest]) (use Cons.prems(2,3) in auto)
    have reads: "reads_same S p p1" using prepare_reads [OF Cons.prems(1) s(1,2)] pr Inr by blast
    have len: "lengths p1 = lengths p" using unmoved_prepare [of s past q] pr unfolding unmoved_def by (metis snd_conv)
    show ?thesis
    proof (cases r)
      case (Inl e)
      then have "owned_rows (S \<union> set ss) p'" using IH by simp
      then have "owned_rows (S \<union> set (s # ss)) p'" by (rule owned_rows_mono) auto
      then show ?thesis using Inl by simp
    next
      case r: (Inr u')
      have "batch_prepared (s # ss) past q p p'"
        by (rule batch_prepared_Cons [OF prep len _ s(1,3)])
          (use IH r Cons.prems(2) prepare_widths(2) [OF Cons.prems(1) own pr] in auto)
      then show ?thesis using IH r reads_same_trans [OF reads] by auto
    qed
  qed
qed

section \<open>The rows a batch writes\<close>

lemma row_inject:
  assumes "a * page_size + x mod page_size = b * page_size + y mod page_size"
  shows "a = b" and "x mod page_size = y mod page_size"
proof -
  have "(a * 128 + x mod 128) div 128 = a" "(b * 128 + y mod 128) div 128 = b" for a b x y :: int by simp_all
  then show "a = b" using assms unfolding page_size_def by metis
  then show "x mod page_size = y mod page_size" using assms by simp
qed

lemma physical_row_inject:
  assumes "physical_row p s m = physical_row p t n"
  shows "page_table_host p ! nat s ! nat (m div page_size) = page_table_host p ! nat t ! nat (n div page_size)"
    and "m mod page_size = n mod page_size"
  using assms row_inject unfolding physical_row_def by metis+

lemma batch_rows_distinct:
  assumes "owned_rows S p'" and "batch_prepared ss past q p p'" and "\<forall>s \<in> set ss. 0 \<le> s \<and> s \<notin> S" and "distinct ss" and "0 \<le> past"
  shows "distinct (concat (map (\<lambda>s. map (physical_row p' s) [past..past + q - 1]) ss))"
proof -
  let ?f = "\<lambda>(s, n). physical_row p' s n"
  have n: "num_rows p' = num_rows p" using assms(2) by (simp add: batch_prepared_def num_rows_def)
  define at where "at = (\<lambda>s (n :: int). page_table_host p' ! nat s ! nat (n div page_size))"
  have page: "nat s < nat (num_rows p') \<and> nat (n div page_size) < length (page_table_host p' ! nat s) \<and>
      private_page p' (at s n) \<and> at s n \<in> slot_bundles p' ! nat s"
    if "s \<in> set ss" "past \<le> n" "n \<le> past + q - 1" for s n
  proof -
    have "touched past q (nat (n div page_size))"
      using that(2,3) assms(5) by (simp add: touched_def page_size_def zdiv_mono1)
    then show ?thesis using assms(2) that(1) n unfolding batch_prepared_def at_def by simp
  qed
  have "s = t \<and> m = n"
    if st: "s \<in> set ss" "t \<in> set ss" and mn: "past \<le> m" "m \<le> past + q - 1" "past \<le> n" "n \<le> past + q - 1"
      and eq: "physical_row p' s m = physical_row p' t n" for s t m n
  proof -
    have same: "at s m = at t n" "m mod page_size = n mod page_size" using physical_row_inject [OF eq] by (simp_all add: at_def)
    have "nat s = nat t"
    proof (rule ccontr)
      assume "nat s \<noteq> nat t"
      then have "at s m \<notin> slot_bundles p' ! nat t"
        using private_unmapped(1) [OF assms(1)] page [OF st(1) mn(1,2)] page [OF st(2) mn(3,4)] by metis
      then show False using page [OF st(2) mn(3,4)] same(1) by simp
    qed
    then have s: "s = t" using assms(3) st by (metis int_nat_eq)
    have row: "row_ok p' (nat t)" using assms(1,3) st(2) page [OF st(2) mn(3,4)] by (simp add: owned_rows_def)
    have "nat (m div page_size) = nat (n div page_size)"
    proof (rule ccontr)
      assume "nat (m div page_size) \<noteq> nat (n div page_size)"
      then have "at t m \<noteq> at t n"
        using row page [OF st(2) mn(1,2)] page [OF st(2) mn(3,4)]
        unfolding row_ok_def distinct_filter_nth at_def by (auto simp: private_page_def)
      then show False using same(1) s by simp
    qed
    then have "m div page_size = n div page_size" using mn(1,3) assms(5) by (simp add: page_size_def)
    then have "m = n" using same(2) by (metis div_mult_mod_eq)
    then show ?thesis using s by simp
  qed
  then have "inj_on ?f (set (List.product ss [past..past + q - 1]))" by (auto simp: inj_on_def)
  moreover have "distinct (List.product ss [past..past + q - 1])" using assms(4) by (simp add: distinct_product)
  moreover have "map ?f (List.product ss ns) = concat (map (\<lambda>s. map (physical_row p' s) ns) ss)" for ns
    by (induction ss) (simp_all add: comp_def)
  ultimately show ?thesis by (simp add: distinct_map flip: \<open>\<And>ns. map ?f (List.product ss ns) = _ ns\<close>)
qed

section \<open>The calls\<close>

lemma prefill_states_state: "snd (prefill_states past gdn ss seen p) = p"
  by (induction past gdn ss seen rule: prefill_states.induct) simp_all

text \<open>A batch that is built has gone through the loop; one that is not has done a part of it or nothing.\<close>

lemma prefill_outcome:
  fixes tss :: "int list list"
  assumes "for_each (\<lambda>s. prepare_kv_writes s past q) ss p = (r, p')"
    and "past = hd (map (\<lambda>s. slot_kv_len p ! nat s) ss)" and "q = int (length (hd tss))"
  shows "(\<exists>e. build_prefill_batch gdn ss tss p = (Inl e, p)) \<or> snd (build_prefill_batch gdn ss tss p) = p' \<and>
    (\<forall>batch. fst (build_prefill_batch gdn ss tss p) = Inr batch \<longrightarrow> r = Inr ())"
proof -
  obtain x where st: "prefill_states past gdn ss {} p = (x, p)"
    using prefill_states_state by (metis prod.collapse)
  define ok :: "prefill_batch res \<times> ('a, 'b) slot_pool \<Rightarrow> bool" where
    "ok = (\<lambda>out. (\<exists>e. out = (Inl e, p)) \<or> snd out = p' \<and> (\<forall>batch. fst out = Inr batch \<longrightarrow> r = Inr ()))"
  have guarded: "ok (guard c e m p)" if "ok (m p)" for c e m using that by (simp add: ok_def)
  have states: "ok (andThen (prefill_states past gdn ss {}) k p)" if "\<And>seen. ok (k seen p)" for k
    using st that by (cases x) (simp_all add: andThen_def ok_def)
  have loop: "ok (andThen (for_each (\<lambda>s. prepare_kv_writes s past q) ss) (\<lambda>_. reading h (\<lambda>(rows, table). ret (k rows table))) p)" for h k
    using assms(1) by (cases r) (auto simp: andThen_def ok_def split: prod.split)
  have "ok (build_prefill_batch gdn ss tss p)"
    unfolding build_prefill_batch_def Let_def assms(3) [symmetric]
    by (rule guarded, rule guarded, rule guarded, subst reading_run, unfold prod.case, rule guarded, fold assms(2),
        rule guarded, rule guarded, rule states, rule guarded, rule loop)
  then show ?thesis by (simp add: ok_def)
qed

lemma prefill_call:
  assumes "owned_rows S p" and "\<forall>s \<in> set ss. s \<notin> S"
  shows "case fst (build_prefill_batch gdn ss tss p) of
      Inl e \<Rightarrow> owned_rows (S \<union> set ss) (snd (build_prefill_batch gdn ss tss p))
    | Inr u \<Rightarrow> owned_rows S (snd (build_prefill_batch gdn ss tss p))"
proof (cases "distinct ss \<and> (\<forall>s \<in> set ss. 0 \<le> s)")
  case False
  have late: "(\<not> c \<Longrightarrow> \<exists>e. m p = (Inl e, p)) \<Longrightarrow> \<exists>e. guard c e' m p = (Inl e, p)" for c e' and m :: "(('a, 'b) slot_pool, prefill_batch) prog"
    by simp
  have "distinct ss \<Longrightarrow> \<exists>s \<in> set ss. s < 0 \<or> num_slots p \<le> s" using False by force
  then have "\<exists>e. build_prefill_batch gdn ss tss p = (Inl e, p)"
    unfolding build_prefill_batch_def Let_def
    by (intro late, subst reading_run, unfold prod.case, intro late) blast
  then show ?thesis using assms(1) by (auto elim: owned_rows_mono)
next
  case True
  define past q where "past = hd (map (\<lambda>s. slot_kv_len p ! nat s) ss)" and "q = int (length (hd tss))"
  obtain r p' where run: "for_each (\<lambda>s. prepare_kv_writes s past q) ss p = (r, p')" by fastforce
  have out: "case r of Inl e \<Rightarrow> owned_rows (S \<union> set ss) p' | Inr u \<Rightarrow> owned_rows S p'"
    using prefill_prepare_run [OF assms(1) _ _ run] True assms(2) by (auto split: sum.splits)
  then have bad: "owned_rows (S \<union> set ss) p'"
    by (cases r) (auto intro: owned_rows_mono [of S p' "S \<union> set ss"])
  show ?thesis
    using prefill_outcome [OF run past_def q_def, of gdn] out bad owned_rows_mono [OF assms(1), of "S \<union> set ss"]
    by (auto split: sum.split)
qed

lemma commit_slot_owned: "keeps (owned_rows S) (commit_prefill_slot slot ts)"
  by (rule keepsI) (simp add: commit_prefill_slot_def with_row_def Let_def split: option.split)

lemma commit_owned: "keeps (owned_rows S) (commit_prefill_batch ss tss)"
  unfolding commit_prefill_batch_def
  by (auto intro!: sound_guard keeps_for_each commit_slot_owned simp: split_beta)

lemma guard_Inr: "guard c e m p = (Inr x, q) \<longleftrightarrow> \<not> c \<and> m p = (Inr x, q)"
  by simp

lemma prefill_success:
  assumes "build_prefill_batch gdn ss tss p = (Inr batch, p')"
  defines "past \<equiv> slot_kv_len p ! nat (hd ss)" and "q \<equiv> int (length (hd tss))"
  shows "ss \<noteq> []" "length ss = length tss" "distinct ss" "\<forall>ts \<in> set tss. int (length ts) = q" "1 \<le> q"
    and "\<forall>s \<in> set ss. 0 \<le> s \<and> s < num_slots p \<and> slot_kv_len p ! nat s = past"
    and "for_each (\<lambda>s. prepare_kv_writes s past q) ss p = (Inr (), p')"
    and "pb_write_index batch = concat (map (\<lambda>s. map (physical_row p' s) [past..past + q - 1]) ss)"
    and "pb_kv_len batch = past + q" "pb_slot_index batch = ss" "pb_input_ids batch = tss"
proof -
  define prior where "prior = map (\<lambda>s. slot_kv_len p ! nat s) ss"
  note run = assms(1) [unfolded build_prefill_batch_def Let_def guard_Inr reading_run prod.case, folded prior_def q_def]
  then have g: "ss \<noteq> []" "length ss = length tss" "distinct ss" "\<forall>ts \<in> set tss. int (length ts) = q" "1 \<le> q"
    "\<forall>s \<in> set ss. 0 \<le> s \<and> s < num_slots p" "\<forall>x \<in> set prior. x = hd prior"
    by auto
  have past: "hd prior = past" using g(1) by (simp add: prior_def past_def hd_map)
  obtain x where x: "prefill_states past gdn ss {} p = (x, p)"
    using prefill_states_state by (metis prod.collapse)
  then obtain seen where st: "prefill_states past gdn ss {} p = (Inr seen, p)"
    using run past by (cases x) (auto simp: andThen_Inl)
  have rest: "andThen (for_each (\<lambda>s. prepare_kv_writes s past q) ss) (\<lambda>_ s.
      (Inr \<lparr>pb_input_ids = tss, pb_positions = concat (replicate (length ss) [past..past + q - 1]),
          pb_write_index = concat (map (\<lambda>t. map (physical_row s t) [past..past + q - 1]) ss), pb_slot_index = ss,
          pb_kv_len = past + q, pb_page_table = map (\<lambda>t. global_page_table s ! nat t) ss,
          pb_has_previous_state = (True \<in> seen)\<rparr>, s)) p = (Inr batch, p')"
    using run past st by (auto simp: andThen_Inr split: if_splits)
  obtain u p1 where f: "for_each (\<lambda>s. prepare_kv_writes s past q) ss p = (Inr u, p1)"
    using rest by (rule andThen_InrE)
  then have "p1 = p'" "pb_write_index batch = concat (map (\<lambda>s. map (physical_row p' s) [past..past + q - 1]) ss)"
    "pb_kv_len batch = past + q" "pb_slot_index batch = ss" "pb_input_ids batch = tss"
    using rest by (auto simp: andThen_Inr)
  then show "ss \<noteq> []" "length ss = length tss" "distinct ss" "\<forall>ts \<in> set tss. int (length ts) = q" "1 \<le> q"
    "\<forall>s \<in> set ss. 0 \<le> s \<and> s < num_slots p \<and> slot_kv_len p ! nat s = past"
    "for_each (\<lambda>s. prepare_kv_writes s past q) ss p = (Inr (), p')"
    "pb_write_index batch = concat (map (\<lambda>s. map (physical_row p' s) [past..past + q - 1]) ss)"
    "pb_kv_len batch = past + q" "pb_slot_index batch = ss" "pb_input_ids batch = tss"
    using g f past by (auto simp: prior_def)
qed

text \<open>Committing a batch of different slots sets every length once.\<close>

lemma commit_loop:
  assumes "distinct (map fst zs)" and "\<forall>z \<in> set zs. 0 \<le> fst z \<and> fst z < num_rows p" and "length (slot_kv_len p) = nat (num_rows p)"
  shows "\<exists>p'. for_each (\<lambda>(slot, ts). commit_prefill_slot slot ts) zs p = (Inr (), p') \<and> num_rows p' = num_rows p \<and>
    length (slot_kv_len p') = nat (num_rows p) \<and>
    (\<forall>j < nat (num_rows p). slot_kv_len p' ! j = slot_kv_len p ! j +
       (case map_of zs (int j) of None \<Rightarrow> 0 | Some ts \<Rightarrow> int (length ts)))"
  using assms
proof (induction zs arbitrary: p)
  case (Cons z zs)
  obtain s ts where z: "z = (s, ts)" by (cases z)
  define n where "n = slot_kv_len p ! nat s + int (length ts)"
  define p1 where "p1 = p\<lparr>num_tokens_seen := (num_tokens_seen p)[nat s := n], slot_kv_len := (slot_kv_len p)[nat s := n]\<rparr>"
  have s: "0 \<le> s" "s < num_rows p" "s \<notin> fst ` set zs" using Cons.prems(1,2) z by auto
  have step: "commit_prefill_slot s ts p = (Inr (), p1)"
    using s by (simp add: commit_prefill_slot_def with_row_def py_index_row Let_def p1_def n_def)
  have n1: "num_rows p1 = num_rows p" by (simp add: p1_def num_rows_def)
  obtain p' where rest: "for_each (\<lambda>(slot, ts). commit_prefill_slot slot ts) zs p1 = (Inr (), p')" "num_rows p' = num_rows p1"
    "length (slot_kv_len p') = nat (num_rows p1)"
    "\<forall>j < nat (num_rows p1). slot_kv_len p' ! j = slot_kv_len p1 ! j + (case map_of zs (int j) of None \<Rightarrow> 0 | Some ts \<Rightarrow> int (length ts))"
    using Cons.IH [of p1] Cons.prems n1 by (auto simp: p1_def)
  have none: "map_of zs s = None" using s(3) by (simp add: map_of_eq_None_iff)
  have "slot_kv_len p' ! j = slot_kv_len p ! j + (case map_of (z # zs) (int j) of None \<Rightarrow> 0 | Some ts \<Rightarrow> int (length ts))"
    if "j < nat (num_rows p)" for j
    using rest(4) n1 that none s(1) Cons.prems(3) by (cases "j = nat s") (auto simp: z p1_def n_def nth_list_update)
  then show ?case using rest(1-3) step n1 by (simp add: z andThen_Inr)
qed simp

end
