(* ===== verification/Slot_Runs.thy ===== *)
theory Slot_Runs
  imports Slot_Prefill
begin

text \<open>
  Arbitrary sequences of the calls of \<^verbatim>\<open>Qwen36SlotPool\<close>: the discipline of its callers after an
  exception, and the books over a run.
\<close>

section \<open>Sequences of calls\<close>

text \<open>
  Between two calls the GPU kernels of the forward pass write the pools.  Which bytes they write is
  no concern of this class, so a run may contain, anywhere, a step that replaces the bytes of all
  pages by any others: the statements about a run hold whatever the pages contain.
\<close>

definition gpu_writes :: "(int \<Rightarrow> 'b) \<Rightarrow> (int \<Rightarrow> 'm) \<Rightarrow> ('b, 'm) slot_pool \<Rightarrow> ('b, 'm) slot_pool" where
  "gpu_writes f m p = p\<lparr>backbone_kv := f, mtp_cow_family := map_option (\<lambda>_. m) (mtp_cow_family p)\<rparr>"

datatype ('b, 'm) slot_call =
    SPrepare int int int
  | SDetach int int "int set"
  | SCopy int int int
  | SShare int int int
  | SToScratch int int "int list option"
  | SFromScratch int int "int list option"
  | SReset int
  | SRewind int int
  | SReserve int int
  | SRelease int
  | SPublish int int "block_key list" int bool
  | SRestore int int "block_key list"
  | SRestoreBundles int int "int list"
  | SDecode "int list" "int list"
  | SRegister int "int \<Rightarrow> 'm"
  | SPrefill "(bool \<times> bool) list list" "int list" "int list list"
  | SCommit "int list" "int list list"
  | SForward "int \<Rightarrow> 'b" "int \<Rightarrow> 'm"

primrec call_slots :: "('b, 'm) slot_call \<Rightarrow> (('b, 'm) slot_pool, unit) prog" where
  "call_slots (SPrepare s a n) = prepare_kv_writes s a n"
| "call_slots (SDetach s n ps) = andThen (detach_scratch_aliases s n ps) (\<lambda>_. ret ())"
| "call_slots (SCopy s t n) = copy_prefix_kv s t n"
| "call_slots (SShare s t n) = share_prefix_kv s t n"
| "call_slots (SToScratch s n ps) = copy_prefix_to_scratch s n ps"
| "call_slots (SFromScratch t n ps) = share_scratch_prefix t n ps"
| "call_slots (SReset s) = pool_reset_slot s"
| "call_slots (SRewind s n) = rewind_slot s n"
| "call_slots (SReserve s n) = andThen (reserve_kv_capacity s n) (\<lambda>_. ret ())"
| "call_slots (SRelease s) = andThen (release_kv_reservation s) (\<lambda>_. ret ())"
| "call_slots (SPublish s n ks bs partial) = andThen (publish_slot_blocks s n ks bs partial) (\<lambda>_. ret ())"
| "call_slots (SRestore s n ks) = andThen (restore_prefix_from_arena s n ks) (\<lambda>_. ret ())"
| "call_slots (SRestoreBundles s n ids) = andThen (restore_prefix_from_cached_bundles s n ids) (\<lambda>_. ret ())"
| "call_slots (SDecode ss ts) = andThen (build_decode_batch ss ts) (\<lambda>_. ret ())"
| "call_slots (SRegister n m) = register_mtp_kv n m"
| "call_slots (SPrefill gdn ss tss) = andThen (build_prefill_batch gdn ss tss) (\<lambda>_. ret ())"
| "call_slots (SCommit ss tss) = commit_prefill_batch ss tss"
| "call_slots (SForward f m) = update (gpu_writes f m)"

text \<open>The slots whose rows a call may leave half done when it raises.\<close>

primrec targets :: "('b, 'm) slot_pool \<Rightarrow> ('b, 'm) slot_call \<Rightarrow> int set" where
  "targets p (SPrepare s a n) = {s}"
| "targets p (SDetach s n ps) = {s}"
| "targets p (SCopy s t n) = {t}"
| "targets p (SShare s t n) = {t}"
| "targets p (SToScratch s n ps) = {scratch_row p}"
| "targets p (SFromScratch t n ps) = {t}"
| "targets p (SReset s) = {}"
| "targets p (SRewind s n) = {}"
| "targets p (SReserve s n) = {}"
| "targets p (SRelease s) = {}"
| "targets p (SPublish s n ks bs partial) = {}"
| "targets p (SRestore s n ks) = {s}"
| "targets p (SRestoreBundles s n ids) = {s}"
| "targets p (SDecode ss ts) = set ss"
| "targets p (SRegister n m) = {}"
| "targets p (SPrefill gdn ss tss) = set ss"
| "targets p (SCommit ss tss) = {}"
| "targets p (SForward f m) = {}"

text \<open>
  What the callers guarantee: slots are not negative, a batch names each slot once, and the pages
  of a restored prefix are different pages.
\<close>

primrec well_called :: "('b, 'm) slot_pool \<Rightarrow> ('b, 'm) slot_call \<Rightarrow> bool" where
  "well_called p (SPrepare s a n) = (0 \<le> s)"
| "well_called p (SDetach s n ps) = True"
| "well_called p (SCopy s t n) = True"
| "well_called p (SShare s t n) = True"
| "well_called p (SToScratch s n ps) = True"
| "well_called p (SFromScratch t n ps) = True"
| "well_called p (SReset s) = (0 \<le> s)"
| "well_called p (SRewind s n) = True"
| "well_called p (SReserve s n) = True"
| "well_called p (SRelease s) = True"
| "well_called p (SPublish s n ks bs partial) = True"
| "well_called p (SRestore s n ks) = (0 \<notin> set (arena_sources p n ks) \<longrightarrow> distinct (arena_sources p n ks))"
| "well_called p (SRestoreBundles s n ids) = (0 \<le> s \<and> distinct ids)"
| "well_called p (SDecode ss ts) = ((\<forall>s \<in> set ss. 0 \<le> s) \<and> distinct ss)"
| "well_called p (SRegister n m) = True"
| "well_called p (SPrefill gdn ss tss) = True"
| "well_called p (SCommit ss tss) = True"
| "well_called p (SForward f m) = True"

text \<open>After a call raised, its slots are suspect until they are reset.\<close>

definition suspects_after :: "int set \<Rightarrow> ('b, 'm) slot_call \<Rightarrow> ('b, 'm) slot_pool \<Rightarrow> int set" where
  "suspects_after S c p = (case fst (call_slots c p) of
     Inl _ \<Rightarrow> S \<union> targets p c
   | Inr _ \<Rightarrow> (case c of SReset s \<Rightarrow> S - {s} | _ \<Rightarrow> S))"

primrec suspects :: "('b, 'm) slot_call list \<Rightarrow> int set \<Rightarrow> ('b, 'm) slot_pool \<Rightarrow> int set" where
  "suspects [] S p = S"
| "suspects (c # cs) S p = suspects cs (suspects_after S c p) (snd (call_slots c p))"

text \<open>The discipline: a suspect slot is reset before anything else is done with it.\<close>

primrec orderly :: "('b, 'm) slot_call list \<Rightarrow> int set \<Rightarrow> ('b, 'm) slot_pool \<Rightarrow> bool" where
  "orderly [] S p = True"
| "orderly (c # cs) S p = (well_called p c \<and> targets p c \<inter> S = {} \<and>
     orderly cs (suspects_after S c p) (snd (call_slots c p)))"

section \<open>The books over a run\<close>

abbreviation dims :: "('b, 'm) slot_pool \<Rightarrow> int \<times> nat" where
  "dims p \<equiv> (num_slots p, length (slot_kv_len p))"

lemma unmoved_dims: "unmoved lengths m \<Longrightarrow> unmoved dims m"
  by (simp add: unmoved_def)

lemma unmoved_attempt: "unmoved v m \<Longrightarrow> unmoved v h \<Longrightarrow> (\<And>x. unmoved v (k x)) \<Longrightarrow> unmoved v (attempt m h k)"
  unfolding unmoved_def attempt_def by (auto split: prod.split sum.split pyexc.split) (metis snd_conv)+

lemma unmoved_with_row: "(\<And>i. unmoved v (k i)) \<Longrightarrow> unmoved v (with_row slot k)"
  unfolding with_row_def by (auto intro!: frame_rules split: option.split)

lemma unmoved_checks: "unmoved v m \<Longrightarrow> unmoved v (live_slot slot m)" "unmoved v m \<Longrightarrow> unmoved v (prefix_length_ok n m)"
  "unmoved v m \<Longrightarrow> unmoved v (fixed_scratch_check ids m)" "unmoved v (lift_res r)"
  by (simp_all add: unmoved_def live_slot_def prefix_length_ok_def fixed_scratch_check_def)

lemmas dims_rules = frame_rules unmoved_guard unmoved_attempt unmoved_with_row unmoved_checks
  unmoved_dims [OF unmoved_set_row] unmoved_dims [OF unmoved_prepare] unmoved_dims [OF unmoved_detach]

lemma unmoved_finish: "unmoved dims (finish_remap slot x)"
  by (cases x) (auto intro!: dims_rules simp: finish_remap_def clone_cow_pages_def clone_fixed_pages_def
    simp del: ret_run reading_run guard_run update_run raise_run andThen_reading andThen_guard andThen_update)

lemma unmoved_alias: "unmoved dims (remap_loop (visit_alias slot i scratch) lps row reps)"
  "unmoved dims (remap_loop (visit_fixed msg f) lps row reps)"
proof -
  have "unmoved lengths (visit_alias slot i scratch source)" for source :: int
    unfolding visit_alias_def by (auto intro!: frame_rules unmoved_detach)
  then show "unmoved dims (remap_loop (visit_alias slot i scratch) lps row reps)"
    "unmoved dims (remap_loop (visit_fixed msg f) lps row reps)"
    by (auto intro!: unmoved_dims unmoved_remap unmoved_visit)
qed

lemma unmoved_allocate_one: "unmoved dims (allocate_one_page owner)"
  unfolding allocate_one_page_def by (auto intro!: dims_rules split: list.split)

lemma unmoved_add: "unmoved dims (add_bundles i bs)"
  unfolding add_bundles_def by (auto intro!: dims_rules)

lemma unmoved_fill: "unmoved dims (fill_null_pages target lps)"
  by (induction target lps rule: fill_null_pages.induct) (auto intro!: dims_rules unmoved_allocate_one unmoved_add
      simp del: ret_run reading_run guard_run update_run raise_run andThen_reading andThen_guard andThen_update)

lemma unmoved_install: "unmoved dims (install_prefix slot n sources tail)"
  unfolding install_prefix_def
  by (auto intro!: dims_rules unmoved_add simp: clone_cow_pages_def split: option.split)

lemma unmoved_undo: "unmoved dims (undo_restore tail sources owner)"
  unfolding undo_restore_def swallow_def by (auto intro!: dims_rules split: option.split)

lemma unmoved_restore: "unmoved dims (restore_cached_page_prefix slot n sources)"
  unfolding restore_cached_page_prefix_def Let_def
  by (auto intro!: dims_rules unmoved_install unmoved_undo unmoved_allocate_one)

lemma unmoved_write_index: "unmoved dims (write_index slot n)"
  unfolding write_index_def by (auto intro!: dims_rules)

lemma unmoved_decode: "unmoved dims (decode_loop zs rows lens)"
  by (induction zs rows lens rule: decode_loop.induct)
    (auto intro!: dims_rules unmoved_write_index simp: advance_slot_def
      simp del: ret_run reading_run guard_run update_run raise_run andThen_reading andThen_guard andThen_update)

lemma unmoved_calls: "unmoved dims (call_slots c)"
proof (cases c)
  case (SDetach s n ps)
  then show ?thesis
    by (auto intro!: dims_rules unmoved_finish unmoved_alias simp: detach_scratch_aliases_def)
next
  case (SCopy s t n)
  then show ?thesis
    by (auto intro!: dims_rules unmoved_fill simp: copy_prefix_kv_def gather_scatter_def)
next
  case (SToScratch s n ps)
  then show ?thesis
    by (auto intro!: dims_rules unmoved_add simp: copy_prefix_to_scratch_def gather_scatter_def)
next
  case (SDecode ss ts)
  then show ?thesis
    by (auto intro!: dims_rules unmoved_decode simp: build_decode_batch_def Let_def)
next
  case (SPrefill gdn ss tss)
  have "unmoved dims (prefill_states past gdn ss seen)" for past seen by (simp add: unmoved_def prefill_states_state)
  then show ?thesis
    unfolding SPrefill call_slots.simps build_prefill_batch_def Let_def
    by (auto intro!: dims_rules simp del: ret_run reading_run guard_run update_run raise_run andThen_reading andThen_guard andThen_update)
next
  case (SCommit ss tss)
  then show ?thesis
    by (auto intro!: dims_rules simp: commit_prefill_batch_def commit_prefill_slot_def Let_def split_beta)
next
  case (SForward f m)
  then show ?thesis by (simp add: unmoved_def gpu_writes_def num_rows_def)
qed (auto intro!: dims_rules unmoved_add unmoved_restore
    simp: share_prefix_kv_def share_scratch_prefix_def Let_def pool_reset_slot_def rewind_slot_def reserve_kv_capacity_def
      release_kv_reservation_def publish_slot_blocks_def restore_prefix_from_arena_def
      restore_prefix_from_cached_bundles_def register_mtp_kv_def
    simp del: ret_run reading_run guard_run update_run raise_run andThen_reading andThen_guard andThen_update)

text \<open>The books and the rows of all slots that are not suspect.\<close>

definition books :: "int set \<Rightarrow> ('b, 'm) slot_pool \<Rightarrow> bool" where
  "books S p \<longleftrightarrow> owned_rows S p \<and> length (slot_kv_len p) = nat (num_rows p)"

lemma suspects_mono_outcome:
  assumes "case fst (call_slots c p) of Inl e \<Rightarrow> owned_rows (S \<union> targets p c) (snd (call_slots c p))
    | Inr u \<Rightarrow> owned_rows S (snd (call_slots c p))" and "\<And>s. c \<noteq> SReset s"
  shows "owned_rows (suspects_after S c p) (snd (call_slots c p))"
  using assms by (cases c) (auto simp: suspects_after_def split: sum.splits)

lemma safe_outcome_call:
  "safe_outcome S slot (m p) \<Longrightarrow> case fst (m p) of Inl e \<Rightarrow> owned_rows (S \<union> {slot}) (snd (m p)) | Inr u \<Rightarrow> owned_rows S (snd (m p))"
  by (auto simp: safe_outcome_def split: prod.splits sum.splits)

lemma safe_ret_call:
  assumes "safe_outcome S slot (m p)"
  shows "case fst (andThen m (\<lambda>_. ret ()) p) of
      Inl e \<Rightarrow> owned_rows (S \<union> {slot}) (snd (andThen m (\<lambda>_. ret ()) p))
    | Inr u \<Rightarrow> owned_rows S (snd (andThen m (\<lambda>_. ret ()) p))"
  by (rule safe_outcome_call [where m = "andThen m (\<lambda>_. ret ())"]) (rule safe_andThen_ret, rule assms)

lemma quiet_call:
  "owned_rows S q \<Longrightarrow> case r of Inl e \<Rightarrow> owned_rows (S \<union> T) q | Inr u \<Rightarrow> owned_rows S q"
  by (cases r) (auto elim: owned_rows_mono)

lemma decode_call:
  assumes "owned_rows S p" and "\<forall>s \<in> set ss. 0 \<le> s" and "distinct ss" and "set ss \<inter> S = {}"
    and "length (slot_kv_len p) = nat (num_rows p)"
  shows "case fst (build_decode_batch ss ts p) of Inl e \<Rightarrow> owned_rows (S \<union> set ss) (snd (build_decode_batch ss ts p))
    | Inr u \<Rightarrow> owned_rows S (snd (build_decode_batch ss ts p))"
proof -
  let ?zs = "zip ss ts"
  obtain r q where q: "decode_loop ?zs [] [] p = (r, q)" by (cases "decode_loop ?zs [] [] p")
  have sub: "fst ` set ?zs \<subseteq> set ss" by (auto dest: set_zip_leftD)
  have zs: "\<forall>z \<in> set ?zs. 0 \<le> fst z \<and> fst z \<notin> S" using sub assms(2,4) by auto
  have dist: "distinct (map fst ?zs)" using assms(3) by (simp add: map_fst_zip_take)
  note run = decode_loop_run [OF assms(1) zs dist assms(5) q]
  have bad: "owned_rows (S \<union> set ss) q"
  proof (cases r)
    case (Inl e)
    then have "owned_rows (S \<union> fst ` set ?zs) q" using run by simp
    then show ?thesis by (rule owned_rows_mono) (use sub in blast)
  next
    case (Inr x)
    then have "owned_rows S q" using run by (auto split: prod.splits)
    then show ?thesis by (rule owned_rows_mono) blast
  qed
  have "snd (build_decode_batch ss ts p) = p \<or> snd (build_decode_batch ss ts p) = q \<and>
      ((\<exists>x. fst (build_decode_batch ss ts p) = Inr x) \<longrightarrow> (\<exists>x. r = Inr x))"
    by (cases r) (auto simp: build_decode_batch_def Let_def q andThen_def split: prod.splits sum.splits)
  then show ?thesis
  proof
    assume "snd (build_decode_batch ss ts p) = p"
    then show ?thesis
      using assms(1) owned_rows_mono [OF assms(1), of "S \<union> set ss"] by (auto split: sum.split)
  next
    assume a: "snd (build_decode_batch ss ts p) = q \<and>
      ((\<exists>x. fst (build_decode_batch ss ts p) = Inr x) \<longrightarrow> (\<exists>x. r = Inr x))"
    show ?thesis
    proof (cases r)
      case (Inl e)
      then show ?thesis using a bad by (auto split: sum.split)
    next
      case (Inr x)
      then have "owned_rows S q" using run by (auto split: prod.splits)
      then show ?thesis using a quiet_call by auto
    qed
  qed
qed

lemma gpu_rows: "owned_rows S (gpu_writes f m p) = owned_rows S p"
  by (rule accounted_cong) (simp_all add: gpu_writes_def)

lemma books_call:
  assumes "books S p" and "well_called p c" and "targets p c \<inter> S = {}"
  shows "books (suspects_after S c p) (snd (call_slots c p))"
proof -
  have own: "owned_rows S p" and len: "length (slot_kv_len p) = nat (num_rows p)" using assms(1) by (simp_all add: books_def)
  have "dims (snd (call_slots c p)) = dims p" using unmoved_calls unfolding unmoved_def by (rule spec)
  then have len': "length (slot_kv_len (snd (call_slots c p))) = nat (num_rows (snd (call_slots c p)))"
    using len by (simp add: num_rows_def)
  have "owned_rows (suspects_after S c p) (snd (call_slots c p))"
  proof (cases "\<exists>s. c = SReset s")
    case True
    then obtain s where c: "c = SReset s" by blast
    have s: "0 \<le> s" using assms(2) c by simp
    note rs = reset_rows [OF own s]
    show ?thesis
    proof (cases "s < num_rows p")
      case True
      then have "fst (pool_reset_slot s p) = Inr ()" using rs(1) by (metis fst_conv)
      then show ?thesis using rs(2) True c by (simp add: suspects_after_def)
    next
      case False
      then have "pool_reset_slot s p = (Inl (IndexError ''list index out of range''), p)" using rs(1) by simp
      then show ?thesis using own c by (simp add: suspects_after_def)
    qed
  next
    case False
    have "case fst (call_slots c p) of Inl e \<Rightarrow> owned_rows (S \<union> targets p c) (snd (call_slots c p))
      | Inr u \<Rightarrow> owned_rows S (snd (call_slots c p))"
    proof (cases c)
      case (SPrepare s a n)
      then have "safe_outcome S s (prepare_kv_writes s a n p)"
        using prepare_run [OF own, of s a n] assms(2,3)
        by (cases "prepare_kv_writes s a n p"; cases "fst (prepare_kv_writes s a n p)") auto
      then show ?thesis
        using SPrepare safe_outcome_call [of S s "prepare_kv_writes s a n" p] by (simp split: sum.splits)
    next
      case (SDetach s n ps)
      then have "safe_outcome S s (detach_scratch_aliases s n ps p)"
        using detach_rows [OF own, of s n ps] assms(3) by (simp add: safe_outcome_def)
      then show ?thesis
        using SDetach safe_ret_call [where m = "detach_scratch_aliases s n ps" and p = p and S = S and slot = s]
        by (simp split: sum.splits)
    next
      case (SCopy s t n)
      then show ?thesis
        using copy_rows [OF own, of t s n] safe_outcome_call [of S t "copy_prefix_kv s t n" p] assms(3)
        by (simp split: sum.splits)
    next
      case (SShare s t n)
      then show ?thesis
        using share_rows [OF own, of t s n] safe_outcome_call [of S t "share_prefix_kv s t n" p] assms(3)
        by (simp split: sum.splits)
    next
      case (SToScratch s n ps)
      then show ?thesis
        using to_scratch_rows [OF own, of s n ps] safe_outcome_call [of S "num_slots p" "copy_prefix_to_scratch s n ps" p] assms(3)
        by (simp add: scratch_row_def split: sum.splits)
    next
      case (SFromScratch t n ps)
      then show ?thesis
        using share_scratch_rows [OF own, of t n ps] safe_outcome_call [of S t "share_scratch_prefix t n ps" p] assms(3)
        by (simp split: sum.splits)
    next
      case (SRestore s n ks)
      then have "safe_outcome S s (restore_prefix_from_arena s n ks p)"
        using restore_arena_rows [OF own, of s n ks] assms(2,3) by simp
      then show ?thesis
        using SRestore safe_ret_call [where m = "restore_prefix_from_arena s n ks" and p = p and S = S and slot = s]
        by (simp split: sum.splits)
    next
      case (SRestoreBundles s n ids)
      then have "safe_outcome S s (restore_prefix_from_cached_bundles s n ids p)"
        using restore_bundles_rows [OF own, of s ids n] assms(2,3) by (simp add: restore_outcome_def)
      then show ?thesis
        using SRestoreBundles safe_ret_call [where m = "restore_prefix_from_cached_bundles s n ids" and p = p and S = S and slot = s]
        by (simp split: sum.splits)
    next
      case (SDecode ss ts)
      then show ?thesis
        using decode_call [OF own, of ss ts] len assms(2,3)
        by (cases "build_decode_batch ss ts p"; cases "fst (build_decode_batch ss ts p)") (simp_all add: andThen_def)
    next
      case (SPrefill gdn ss tss)
      then show ?thesis
        using prefill_call [OF own, of ss gdn tss] assms(3)
        by (cases "build_prefill_batch gdn ss tss p"; cases "fst (build_prefill_batch gdn ss tss p)")
          (auto simp: andThen_def)
    next
      case (SCommit ss tss)
      then show ?thesis using keeps_snd [OF commit_owned own, of ss tss] by (simp add: quiet_call)
    next
      case (SForward f m)
      then show ?thesis using own by (simp add: gpu_rows)
    next
      case (SReset s)
      then show ?thesis using False by simp
    qed (use book_rows [OF own] in \<open>simp_all add: snd_andThen_ret quiet_call\<close>)
    then show ?thesis using False by (intro suspects_mono_outcome) auto
  qed
  then show ?thesis using len' by (simp add: books_def)
qed

lemma books_run:
  "books S p \<Longrightarrow> orderly cs S p \<Longrightarrow> books (suspects cs S p) (snd (run_calls call_slots cs p))"
proof (induction cs arbitrary: S p)
  case (Cons c cs)
  then show ?case using books_call [of S p c] by (simp del: run_calls.simps)
qed simp

lemma books_init:
  assumes "slot_pool_init slots max_len True bundles wm zero = Inr p" and "0 < max_len"
  shows "books {} p"
proof -
  let ?n = "case bundles of None \<Rightarrow> slots * pages_for max_len + 8 | Some b \<Rightarrow> b"
  have slots: "1 \<le> slots" using assms(1) by (auto simp: slot_pool_init_def split: if_splits)
  obtain a where a: "arena_init ?n 1 wm True False = Inr a"
    "p = slot_pool_of slots (pages_for max_len) True ?n a (replicate (nat (slots + 1)) (replicate (nat (pages_for max_len)) 0)) zero"
    using assms(1) slots by (auto simp: slot_pool_init_def bind_Inr Let_def)
  note i = arena_init_facts [OF a(1)]
  have sane: "sane a" using arena_init_sane [OF a(1)] by simp
  have pages: "0 \<le> pages_for max_len" using pages_for_bounds(1) [OF assms(2)] by simp
  have none: "holders (replicate k {}) b = {}" for k b by (auto simp: holders_def)
  have "accounted p"
    using sane i(5,7) pages slots none sane_ref(1) [OF sane]
    by (simp add: accounted_def a(2) slot_pool_of_def num_rows_def Let_def)
  moreover have "row_ok p j" if "j < nat (num_rows p)" for j
    using that by (simp add: row_ok_def a(2) slot_pool_of_def num_rows_def Let_def set_replicate_conv_if)
  ultimately show ?thesis
    by (simp add: books_def owned_rows_def) (simp add: a(2) slot_pool_of_def num_rows_def Let_def)
qed

end
