(* ===== verification/Slot_Isolation.thy ===== *)
theory Slot_Isolation
  imports Slot_Runs
begin

text \<open>
  What the slots of a dynamic \<^verbatim>\<open>Qwen36SlotPool\<close> may rely on, after any run of its operations: who owns
  the pages, that a prepared write reaches nobody else's bytes, that the rows a decode batch writes
  are pairwise different and private, and that a restored prefix has the bytes of the cached pages.
\<close>

section \<open>What a slot reads\<close>

text \<open>The bytes of a logical page of a slot: the backbone's and, once registered, the head's.\<close>

definition read_page :: "('b, 'm) slot_pool \<Rightarrow> nat \<Rightarrow> nat \<Rightarrow> 'b \<times> 'm option" where
  "read_page p j k = (let page = page_table_host p ! j ! k in
     (backbone_kv p page, map_option (\<lambda>m. m page) (mtp_cow_family p)))"

text \<open>Every page the slots outside \<open>S\<close> have mapped reads in the second pool as in the first.\<close>

definition reads_kept :: "int set \<Rightarrow> ('b, 'm) slot_pool \<Rightarrow> ('b, 'm) slot_pool \<Rightarrow> bool" where
  "reads_kept S p p' \<longleftrightarrow> (\<forall>j < nat (num_rows p). int j \<notin> S \<longrightarrow>
     (\<forall>k < length (page_table_host p ! j). page_table_host p ! j ! k \<noteq> 0 \<longrightarrow>
        page_table_host p' ! j ! k \<noteq> 0 \<and> read_page p' j k = read_page p j k))"

lemma bytes_moved_page:
  assumes "bytes_moved g p p'" and "g b' = b"
  shows "backbone_kv p' b' = backbone_kv p b"
    and "map_option (\<lambda>m. m b') (mtp_cow_family p') = map_option (\<lambda>m. m b) (mtp_cow_family p)"
  using assms by (auto simp: bytes_moved_def option.map_comp o_def)

lemma reads_same_kept:
  assumes "reads_same S p p'"
  shows "reads_kept S p p'"
proof -
  obtain g where g: "bytes_moved g p p'" "\<forall>j < nat (num_rows p). int j \<notin> S \<longrightarrow> (\<forall>k < length (page_table_host p ! j).
      page_table_host p ! j ! k \<noteq> 0 \<longrightarrow> k < length (page_table_host p' ! j) \<and> page_table_host p' ! j ! k \<noteq> 0 \<and>
      g (page_table_host p' ! j ! k) = page_table_host p ! j ! k)"
    using assms unfolding reads_same_def by blast
  show ?thesis unfolding reads_kept_def read_page_def Let_def using g(2) bytes_moved_page [OF g(1)] by metis
qed

lemma books_reached:
  assumes "slot_pool_init slots max_len True bundles wm zero = Inr p0" and "0 < max_len" and "orderly cs {} p0"
  shows "books (suspects cs {} p0) (snd (run_calls call_slots cs p0))"
  using books_run [OF books_init [OF assms(1,2)] assms(3)] .

section \<open>The properties\<close>

definition demo_slots :: "(int, int) slot_pool" where
  "demo_slots = (case slot_pool_init 2 128 True (Some 4) 0 0 of Inr p \<Rightarrow> p)"

lemma demo_slots_init: "slot_pool_init 2 128 True (Some 4) 0 0 = Inr demo_slots"
  by (simp add: demo_slots_def slot_pool_init_def arena_init_def kvq_init_def kvq_append_def andThen_def upto.simps
      pages_for_def page_size_def Let_def bind_res_def)

text \<open>
  Slot 0 prepares 100 tokens, the GPU gives every page bytes of its own, and slot 1 shares the page.
\<close>

definition demo_script :: "(int, int) slot_call list" where
  "demo_script = [SRegister 4 (\<lambda>_. 0), SPrepare 0 0 100, SForward (\<lambda>b. 1000 + b) (\<lambda>b. 2000 + b), SShare 0 1 100,
     SRewind 0 100, SRewind 1 100]"

text \<open>
  C8: who owns the pages.  In the dynamic mode, after any run in which a slot whose operation raised
  is reset before it is used again, every page has at least as many references as there are slots
  holding it; and the page-table row of every slot without a pending reset names only pages the slot
  holds (so pages the arena will not hand out), each at most once, and is the row the device has.
\<close>

theorem page_ownership:
  assumes "slot_pool_init slots max_len True bundles wm zero = Inr p0" and "0 < max_len" and "orderly cs {} p0"
  defines "p \<equiv> snd (run_calls call_slots cs p0)"
  shows "(\<forall>b. int (card {j. j < nat (num_rows p) \<and> b \<in> slot_bundles p ! j}) \<le> b_ref (kv_arena p) b) \<and>
    (\<forall>j < nat (num_rows p). int j \<notin> suspects cs {} p0 \<longrightarrow>
      (\<forall>page \<in> set (page_table_host p ! j). page \<noteq> 0 \<longrightarrow> page \<in> slot_bundles p ! j \<and> 1 \<le> b_ref (kv_arena p) page) \<and>
      distinct (filter (\<lambda>page. page \<noteq> 0) (page_table_host p ! j)) \<and>
      global_page_table p ! j = page_table_host p ! j)"
proof -
  have own: "owned_rows (suspects cs {} p0) p" using books_reached [OF assms(1-3)] by (simp add: books_def p_def)
  then have acc: "accounted p" by (simp add: owned_rows_def)
  have "{j. j < nat (num_rows p) \<and> b \<in> slot_bundles p ! j} = holders (slot_bundles p) b" for b
    by (simp add: holders_def accountedD(6) [OF acc])
  then show ?thesis
    using own accountedD(10) [OF acc] owned_usable(1) [OF acc] by (fastforce simp: owned_rows_def row_ok_def)
qed

text \<open>The facts the examples below share, evaluated once.\<close>

lemma demo_run:
  "orderly demo_script {} demo_slots \<and> suspects demo_script {} demo_slots = {} \<and>
   (let p = snd (run_calls call_slots demo_script demo_slots) in
      num_rows p = 3 \<and> page_table_host p = [[1], [1], [0]] \<and> b_ref (kv_arena p) 1 = 2 \<and>
      read_page p 0 0 = (1001, Some 2001) \<and> read_page p 1 0 = (1001, Some 2001) \<and> backbone_kv p 2 = 1002)"
  by code_simp

lemma demo_prepare:
  "let p = snd (run_calls call_slots demo_script demo_slots); out = prepare_kv_writes 1 100 20 p in
     fst out = Inr () \<and> page_table_host (snd out) = [[1], [2], [0]]"
  by code_simp

lemma demo_batch:
  "fst (build_decode_batch [1, 0] [7, 8] (snd (run_calls call_slots demo_script demo_slots))) =
     Inr \<lparr>db_input_ids = [7, 8], db_positions = [100, 100], db_cache_seqlens = [101, 101],
       db_write_index = [2 * 128 + 100, 1 * 128 + 100], db_slot_index = [1, 0], db_page_table = [[2], [1]]\<rparr>"
  by code_simp

theorem page_ownership_witness:
  "let p = snd (run_calls call_slots demo_script demo_slots) in
     page_table_host p ! 1 = [1] \<and> card {j. j < nat (num_rows p) \<and> 1 \<in> slot_bundles p ! j} \<le> 2 \<and>
     1 \<in> slot_bundles p ! 1"
proof -
  let ?p = "snd (run_calls call_slots demo_script demo_slots)"
  have e: "orderly demo_script {} demo_slots" "suspects demo_script {} demo_slots = {}"
    "b_ref (kv_arena ?p) 1 = 2" "page_table_host ?p ! 1 = [1]" "num_rows ?p = 3"
    using demo_run by (simp_all add: Let_def)
  have own: "int (card {j. j < nat (num_rows ?p) \<and> 1 \<in> slot_bundles ?p ! j}) \<le> b_ref (kv_arena ?p) 1"
    "\<forall>page \<in> set (page_table_host ?p ! 1). page \<noteq> 0 \<longrightarrow> page \<in> slot_bundles ?p ! 1"
    using page_ownership [OF demo_slots_init _ e(1)] e(2,5) by auto
  then show ?thesis unfolding Let_def e(4) using e(3) by simp
qed

text \<open>
  C9: writes stay private.  After such a run, when \<^verbatim>\<open>prepare_kv_writes(slot, start, len)\<close> returns
  normally on a slot without a pending reset, every page of the write is a real page with one
  reference and no published hash, in the row of this slot only; every mapped page of every slot
  reads as before, and published pages keep their bytes and their hash.  So whatever the GPU then
  writes to the pages of the write, the other slots and the published pages read as before.  The
  pages may hold any bytes: a run may contain GPU writes of any bytes anywhere.
\<close>

theorem prepared_writes_are_private:
  assumes "slot_pool_init slots max_len True bundles wm zero = Inr p0" and "0 < max_len" and "orderly cs {} p0"
  defines "p \<equiv> snd (run_calls call_slots cs p0)" and "S \<equiv> suspects cs {} p0"
  assumes "0 \<le> slot" and "slot \<notin> S" and "prepare_kv_writes slot start len p = (Inr (), p')"
  defines "written \<equiv> {page_table_host p' ! nat slot ! k | k. touched start len k}"
  shows "(\<forall>b \<in> written. private_page p' b \<and> (\<forall>j < nat (num_rows p'). j \<noteq> nat slot \<and> int j \<notin> S \<longrightarrow>
      b \<notin> set (page_table_host p' ! j))) \<and>
    reads_kept S p p' \<and>
    (\<forall>b. b_hash (kv_arena p') b \<noteq> None \<longrightarrow>
      b_hash (kv_arena p') b = b_hash (kv_arena p) b \<and> backbone_kv p' b = backbone_kv p b) \<and>
    (\<forall>f m. (\<forall>b. b \<notin> written \<longrightarrow> f b = backbone_kv p' b \<and>
          map_option (\<lambda>_. m b) (mtp_cow_family p') = map_option (\<lambda>m. m b) (mtp_cow_family p')) \<longrightarrow>
      reads_kept (insert slot S) p (gpu_writes f m p') \<and>
      (\<forall>b. b_hash (kv_arena p') b \<noteq> None \<longrightarrow> f b = backbone_kv p b))"
  (is "?private \<and> ?reads \<and> ?published \<and> ?isolated")
proof -
  have own: "owned_rows S p" using books_reached [OF assms(1-3)] by (simp add: books_def p_def S_def)
  have own': "owned_rows S p'" and pr: "prepared (nat slot) start len p p'"
    using prepare_run [OF own assms(6-8)] by simp_all
  have n: "num_rows p' = num_rows p" using pr by (simp add: prepared_def)
  obtain g where g: "bytes_moved g p p'"
    "\<forall>b. b_hash (kv_arena p') b \<noteq> None \<longrightarrow> g b = b \<and> b_hash (kv_arena p') b = b_hash (kv_arena p) b"
    using pr unfolding prepared_def by blast
  have w: "private_page p' b \<and> b \<in> slot_bundles p' ! nat slot \<and> nat slot < nat (num_rows p')" if "b \<in> written" for b
    using that pr n by (auto simp: written_def prepared_def)
  have own_pages: ?private using w private_unmapped(2) [OF own'] by blast
  have reads: ?reads using prepare_reads [OF own assms(6-8)] by (rule reads_same_kept)
  have published: ?published using g bytes_moved_page(1) [OF g(1)] by metis
  have ?isolated
  proof (intro allI impI)
    fix f m assume f: "\<forall>b. b \<notin> written \<longrightarrow> f b = backbone_kv p' b \<and>
      map_option (\<lambda>_. m b) (mtp_cow_family p') = map_option (\<lambda>m. m b) (mtp_cow_family p')"
    have "reads_kept (insert slot S) p (gpu_writes f m p')"
      unfolding reads_kept_def
    proof (intro allI impI)
      fix j k assume j: "j < nat (num_rows p)" "int j \<notin> insert slot S" "k < length (page_table_host p ! j)"
        "page_table_host p ! j ! k \<noteq> 0"
      then have r: "page_table_host p' ! j ! k \<noteq> 0" "read_page p' j k = read_page p j k"
        using reads unfolding reads_kept_def by blast+
      have "k < length (page_table_host p' ! j)"
        using prepare_widths(2) [OF own own' assms(8) j(1)] j(3) by simp
      then have "page_table_host p' ! j ! k \<notin> written"
        using own_pages j(1,2) n assms(6) by (metis insertCI nth_mem int_nat_eq)
      then show "page_table_host (gpu_writes f m p') ! j ! k \<noteq> 0 \<and> read_page (gpu_writes f m p') j k = read_page p j k"
        using f r by (simp add: read_page_def gpu_writes_def Let_def option.map_comp o_def)
    qed
    moreover have "f b = backbone_kv p b" if "b_hash (kv_arena p') b \<noteq> None" for b
      using that f w published by (metis private_page_def)
    ultimately show "reads_kept (insert slot S) p (gpu_writes f m p') \<and>
      (\<forall>b. b_hash (kv_arena p') b \<noteq> None \<longrightarrow> f b = backbone_kv p b)" by blast
  qed
  then show ?thesis using own_pages reads published by blast
qed

text \<open>
  Slot 1 makes the shared page its own before it writes token 100: its new page, which held the
  bytes 1002, now reads as the shared one, and what is written to it slot 0 does not see.
\<close>

theorem prepared_writes_are_private_witness:
  "let p = snd (run_calls call_slots demo_script demo_slots); p' = snd (prepare_kv_writes 1 100 20 p) in
     private_page p' 2 \<and> backbone_kv p 2 = 1002 \<and> read_page p' 1 0 = (1001, Some 2001) \<and>
     read_page (gpu_writes ((backbone_kv p')(2 := 77)) ((the (mtp_cow_family p'))(2 := 78)) p') 0 0 = (1001, Some 2001)"
proof -
  define p where "p = snd (run_calls call_slots demo_script demo_slots)"
  define p' where "p' = snd (prepare_kv_writes 1 100 20 p)"
  have e: "orderly demo_script {} demo_slots" "suspects demo_script {} demo_slots = {}" "page_table_host p = [[1], [1], [0]]"
    "read_page p 0 0 = (1001, Some 2001)" "read_page p 1 0 = (1001, Some 2001)" "backbone_kv p 2 = 1002" "num_rows p = 3"
    using demo_run by (simp_all add: Let_def p_def)
  have run: "prepare_kv_writes 1 100 20 p = (Inr (), p')" and row: "page_table_host p' ! 1 = [2]"
    using demo_prepare by (simp_all add: Let_def p_def p'_def prod_eq_iff)
  define q where "q = gpu_writes ((backbone_kv p')(2 := 77)) ((the (mtp_cow_family p'))(2 := 78)) p'"
  have t: "touched 100 20 k = (k = 0)" for k by (auto simp: touched_def page_size_def)
  note C = prepared_writes_are_private [OF demo_slots_init _ e(1), unfolded e(2), folded p_def, of 1 100 20 p']
  have w: "{page_table_host p' ! nat 1 ! k | k. touched 100 20 k} = {2}" using row by (auto simp: t)
  have all: "private_page p' 2" "reads_kept {} p p'" "\<forall>f m. (\<forall>b. b \<notin> {2} \<longrightarrow> f b = backbone_kv p' b \<and>
        map_option (\<lambda>_. m b) (mtp_cow_family p') = map_option (\<lambda>m. m b) (mtp_cow_family p')) \<longrightarrow>
      reads_kept (insert 1 {}) p (gpu_writes f m p')"
    using C run unfolding w by auto
  have "reads_kept (insert 1 {}) p q"
    unfolding q_def by (rule all(3) [rule_format]) (cases "mtp_cow_family p'"; simp)
  then have "read_page q 0 0 = (1001, Some 2001)" "read_page p' 1 0 = (1001, Some 2001)"
    using all(2) e by (simp_all add: reads_kept_def)
  then show ?thesis unfolding Let_def p_def [symmetric] p'_def [symmetric] q_def [symmetric] using all(1) e(6) by simp
qed

lemma batch_run:
  assumes "build_decode_batch ss ts p = (Inr batch, p')" and "length ts = length ss"
  obtains rows lens where "decode_loop (zip ss ts) [] [] p = (Inr (rows, lens), p')"
    and "length rows = length ss \<Longrightarrow> db_write_index batch = rows"
    and "length lens = length ss \<Longrightarrow> db_cache_seqlens batch = lens \<and> db_positions batch = map (\<lambda>s. s - 1) lens"
    and "db_input_ids batch = ts" and "db_slot_index batch = ss" and "db_page_table batch = map (\<lambda>s. global_page_table p' ! nat s) ss"
proof -
  obtain r q where d: "decode_loop (zip ss ts) [] [] p = (r, q)" by (cases "decode_loop (zip ss ts) [] [] p")
  obtain rows lens where r: "r = Inr (rows, lens)"
    using assms(1) d by (cases r) (auto simp: build_decode_batch_def Let_def andThen_def split: if_splits)
  show thesis
    using assms d that [of rows lens]
    by (auto simp: r build_decode_batch_def Let_def andThen_def staged_def lift_res_def split: if_splits sum.splits)
qed

text \<open>
  C10: a decode batch never writes the same row twice and never into shared state.  After such a run,
  when \<^verbatim>\<open>build_decode_batch\<close> succeeds on different slots without a pending reset, the rows it tells the
  GPU to write are pairwise different; each lies in a page with one reference and no published hash
  that is in no other slot's row, at the position the sequence had; the tables it stages are the
  slots' rows after copying on write, every length went up by one, and what any slot had mapped
  reads as before.
\<close>

theorem decode_batch_rows_are_private:
  assumes "slot_pool_init slots max_len True bundles wm zero = Inr p0" and "0 < max_len" and "orderly cs {} p0"
  defines "p \<equiv> snd (run_calls call_slots cs p0)" and "S \<equiv> suspects cs {} p0"
  assumes "distinct ss" and "\<forall>s \<in> set ss. 0 \<le> s \<and> s \<notin> S" and "length ts = length ss"
    and "build_decode_batch ss ts p = (Inr batch, p')"
  shows "distinct (db_write_index batch) \<and> length (db_write_index batch) = length ss \<and> reads_kept S p p' \<and>
    (\<forall>n < length ss. let i = nat (ss ! n); past = slot_kv_len p ! i;
         page = page_table_host p' ! i ! nat (past div page_size) in
       db_write_index batch ! n = page * page_size + past mod page_size \<and> private_page p' page \<and>
       (\<forall>j < nat (num_rows p'). j \<noteq> i \<and> int j \<notin> S \<longrightarrow> page \<notin> set (page_table_host p' ! j)) \<and>
       db_positions batch ! n = past \<and> db_cache_seqlens batch ! n = past + 1 \<and> slot_kv_len p' ! i = past + 1 \<and>
       db_page_table batch ! n = page_table_host p' ! i)"
proof -
  have bk: "owned_rows S p" "length (slot_kv_len p) = nat (num_rows p)"
    using books_reached [OF assms(1-3)] by (simp_all add: books_def p_def S_def)
  obtain rows lens where d: "decode_loop (zip ss ts) [] [] p = (Inr (rows, lens), p')"
    and out: "length rows = length ss \<Longrightarrow> db_write_index batch = rows"
      "length lens = length ss \<Longrightarrow> db_cache_seqlens batch = lens \<and> db_positions batch = map (\<lambda>s. s - 1) lens"
    and tab: "db_page_table batch = map (\<lambda>s. global_page_table p' ! nat s) ss"
    using batch_run [OF assms(9,8)] by metis
  have zs: "\<forall>z \<in> set (zip ss ts). 0 \<le> fst z \<and> fst z \<notin> S" "distinct (map fst (zip ss ts))"
    using assms(6-8) by (auto dest: set_zip_leftD)
  have own': "owned_rows S p'" and same: "reads_same S p p'" and lens: "lens = map (\<lambda>z. slot_kv_len p ! nat (fst z) + 1) (zip ss ts)"
    and w: "batch_written (zip ss ts) rows p p'"
    using decode_loop_run [OF bk(1) zs bk(2) d] by auto
  have n: "num_rows p' = num_rows p" using same by (simp add: reads_same_def)
  have len: "length rows = length ss" "length lens = length ss" using w lens assms(8) by (simp_all add: batch_written_def)
  define at where "at = (\<lambda>n. page_table_host p' ! nat (ss ! n) ! nat (slot_kv_len p ! nat (ss ! n) div page_size))"
  have step: "nat (ss ! n) < nat (num_rows p') \<and> rows ! n = at n * page_size + slot_kv_len p ! nat (ss ! n) mod page_size \<and>
      private_page p' (at n) \<and> at n \<in> slot_bundles p' ! nat (ss ! n) \<and>
      slot_kv_len p' ! nat (ss ! n) = slot_kv_len p ! nat (ss ! n) + 1" if "n < length ss" for n
    using w that assms(8) n by (simp add: batch_written_def Let_def at_def)
  have slot: "0 \<le> ss ! n \<and> ss ! n \<notin> S" if "n < length ss" for n using assms(7) that by simp
  have alone: "at n \<notin> slot_bundles p' ! j" "int j \<notin> S \<Longrightarrow> at n \<notin> set (page_table_host p' ! j)"
    if "n < length ss" "j < nat (num_rows p')" "j \<noteq> nat (ss ! n)" for n j
    using private_unmapped [OF own', of "nat (ss ! n)" "at n" j] step [OF that(1)] that(2,3) by blast+
  have "rows ! m \<noteq> rows ! n" if mn: "m < length ss" "n < length ss" "m \<noteq> n" for m n
  proof
    assume "rows ! m = rows ! n"
    then have "at m = at n" using step [OF mn(1)] step [OF mn(2)] row_inject by metis
    moreover have "nat (ss ! n) \<noteq> nat (ss ! m)"
      using assms(6) mn slot by (metis nat_eq_iff2 nth_eq_iff_index_eq)
    ultimately show False using alone(1) [OF mn(1), of "nat (ss ! n)"] step [OF mn(2)] by simp
  qed
  then have "distinct rows" using len(1) by (simp add: distinct_conv_nth)
  moreover have "db_page_table batch ! n = page_table_host p' ! nat (ss ! n)" if "n < length ss" for n
    using own' step [OF that] slot [OF that] that by (simp add: tab owned_rows_def row_ok_def)
  ultimately show ?thesis
    using out len reads_same_kept [OF same] step alone(2) lens assms(8) by (simp add: Let_def at_def)
qed

theorem decode_batch_rows_are_private_witness:
  "let p = snd (run_calls call_slots demo_script demo_slots) in
     \<exists>batch p'. build_decode_batch [1, 0] [7, 8] p = (Inr batch, p') \<and>
       db_write_index batch = [2 * 128 + 100, 1 * 128 + 100] \<and> distinct (db_write_index batch) \<and>
       read_page p' 0 0 = (1001, Some 2001) \<and> read_page p' 1 0 = (1001, Some 2001)"
proof -
  define p where "p = snd (run_calls call_slots demo_script demo_slots)"
  have e: "orderly demo_script {} demo_slots" "suspects demo_script {} demo_slots = {}" "page_table_host p = [[1], [1], [0]]"
    "read_page p 0 0 = (1001, Some 2001)" "read_page p 1 0 = (1001, Some 2001)" "num_rows p = 3"
    using demo_run by (simp_all add: Let_def p_def)
  obtain r p' where run: "build_decode_batch [1, 0] [7, 8] p = (r, p')" by (cases "build_decode_batch [1, 0] [7, 8] p")
  then obtain batch where b: "r = Inr batch" "db_write_index batch = [2 * 128 + 100, 1 * 128 + 100]"
    using demo_batch by (simp add: p_def)
  have "distinct (db_write_index batch) \<and> reads_kept {} p p'"
    using decode_batch_rows_are_private [OF demo_slots_init _ e(1), unfolded e(2), folded p_def, of "[1, 0]" "[7, 8]" batch p'] run b
    by simp
  then show ?thesis unfolding Let_def p_def [symmetric] using run b e by (auto simp: reads_kept_def)
qed

text \<open>
  C11: a batched prefill never writes a row twice and never into shared state.  After such a run, when
  \<^verbatim>\<open>build_prefill_batch\<close> succeeds on slots without a pending reset, all slots had the same length, the
  rows of all their tokens are pairwise different, every page they lie in has one reference and no
  published hash and is in no other slot's row, what any slot had mapped reads as before, and the
  commit after the forward pass raises the length of each slot by its tokens.
\<close>

theorem prefill_batch_rows_are_private:
  assumes "slot_pool_init slots max_len True bundles wm zero = Inr p0" and "0 < max_len" and "orderly cs {} p0"
  defines "p \<equiv> snd (run_calls call_slots cs p0)" and "S \<equiv> suspects cs {} p0"
  assumes "\<forall>s \<in> set ss. s \<notin> S" and "build_prefill_batch gdn ss tss p = (Inr batch, p')"
  defines "past \<equiv> slot_kv_len p ! nat (hd ss)" and "q \<equiv> int (length (hd tss))"
  shows "distinct (pb_write_index batch) \<and>
    pb_write_index batch = concat (map (\<lambda>s. map (physical_row p' s) [past..past + q - 1]) ss) \<and> reads_kept S p p' \<and>
    (\<forall>s \<in> set ss. slot_kv_len p ! nat s = past \<and> (\<forall>n. past \<le> n \<and> n < past + q \<longrightarrow>
       (let page = page_table_host p' ! nat s ! nat (n div page_size) in private_page p' page \<and>
          (\<forall>j < nat (num_rows p'). j \<noteq> nat s \<and> int j \<notin> S \<longrightarrow> page \<notin> set (page_table_host p' ! j))))) \<and>
    (\<exists>p''. commit_prefill_batch ss tss p' = (Inr (), p'') \<and> (\<forall>s \<in> set ss. slot_kv_len p'' ! nat s = past + q))"
proof -
  have bk: "owned_rows S p" "length (slot_kv_len p) = nat (num_rows p)"
    using books_reached [OF assms(1-3)] by (simp_all add: books_def p_def S_def)
  note b = prefill_success [OF assms(7), folded past_def q_def]
  have good: "\<forall>s \<in> set ss. 0 \<le> s \<and> s \<notin> S" using b(6) assms(6) by blast
  have own: "owned_rows S p'" and reads: "reads_same S p p'" and prep: "batch_prepared ss past q p p'"
    using prefill_prepare_run [OF bk(1) good b(3,7)] by simp_all
  have len: "lengths p' = lengths p" using prep by (simp add: batch_prepared_def)
  have past: "0 \<le> past"
  proof -
    obtain s rest where ss: "ss = s # rest" using b(1) by (cases ss) auto
    obtain u q1 where "prepare_kv_writes s past q p = (Inr u, q1)" using b(7) unfolding ss for_each.simps by (rule andThen_InrE)
    then show ?thesis using prepare_args by blast
  qed
  have page: "private_page p' page \<and> (\<forall>j < nat (num_rows p'). j \<noteq> nat s \<and> int j \<notin> S \<longrightarrow> page \<notin> set (page_table_host p' ! j))"
    if "s \<in> set ss" "past \<le> n" "n < past + q" "page = page_table_host p' ! nat s ! nat (n div page_size)" for s n page
  proof -
    have "touched past q (nat (n div page_size))"
      using that(2,3) past by (simp add: touched_def page_size_def zdiv_mono1)
    then have "nat s < nat (num_rows p') \<and> private_page p' page \<and> page \<in> slot_bundles p' ! nat s"
      using prep that(1,4) len by (simp add: batch_prepared_def num_rows_def)
    then show ?thesis using private_unmapped(2) [OF own] by blast
  qed
  have zs: "distinct (map fst (zip ss tss))" "\<forall>z \<in> set (zip ss tss). 0 \<le> fst z \<and> fst z < num_rows p'"
    using b(2,3,6) len by (auto simp: num_rows_def dest!: set_zip_leftD)
  obtain p'' where c: "for_each (\<lambda>(slot, ts). commit_prefill_slot slot ts) (zip ss tss) p' = (Inr (), p'')"
    "\<forall>j < nat (num_rows p'). slot_kv_len p'' ! j = slot_kv_len p' ! j +
       (case map_of (zip ss tss) (int j) of None \<Rightarrow> 0 | Some ts \<Rightarrow> int (length ts))"
    using commit_loop [OF zs] bk(2) len by (auto simp: num_rows_def)
  have "slot_kv_len p'' ! nat s = past + q" if s: "s \<in> set ss" for s
  proof -
    obtain ts where "map_of (zip ss tss) s = Some ts" using s b(2) map_of_zip_is_Some [of ss tss s] by auto
    moreover from this have "ts \<in> set tss" by (auto dest: map_of_SomeD set_zip_rightD)
    ultimately show ?thesis using c(2) s b(4,6) len by (auto simp: num_rows_def)
  qed
  then show ?thesis
    using batch_rows_distinct [OF own prep good b(3) past] b(2,6,8) reads_same_kept [OF reads] page c(1)
    by (simp add: commit_prefill_batch_def Let_def)
qed

lemma demo_prefill:
  "map_prod (\<lambda>r. case r of Inl e \<Rightarrow> [] | Inr b \<Rightarrow> pb_write_index b) (\<lambda>_. ())
     (build_prefill_batch [[(True, True)], [(True, True)], []] [1, 0] [[7, 8], [9, 10]]
       (snd (run_calls call_slots demo_script demo_slots))) = ([356, 357, 228, 229], ())"
  by code_simp

theorem prefill_batch_rows_are_private_witness:
  "let p = snd (run_calls call_slots demo_script demo_slots) in
     \<exists>batch p'. build_prefill_batch [[(True, True)], [(True, True)], []] [1, 0] [[7, 8], [9, 10]] p = (Inr batch, p') \<and>
       pb_write_index batch = [356, 357, 228, 229] \<and> distinct (pb_write_index batch) \<and>
       read_page p' 0 0 = (1001, Some 2001) \<and> read_page p' 1 0 = (1001, Some 2001)"
proof -
  define p where "p = snd (run_calls call_slots demo_script demo_slots)"
  have e: "orderly demo_script {} demo_slots" "suspects demo_script {} demo_slots = {}" "page_table_host p = [[1], [1], [0]]"
    "read_page p 0 0 = (1001, Some 2001)" "read_page p 1 0 = (1001, Some 2001)" "num_rows p = 3"
    using demo_run by (simp_all add: Let_def p_def)
  obtain r p' where run: "build_prefill_batch [[(True, True)], [(True, True)], []] [1, 0] [[7, 8], [9, 10]] p = (r, p')"
    by fastforce
  then have rows: "(case r of Inl e \<Rightarrow> [] | Inr b \<Rightarrow> pb_write_index b) = [356, 357, 228, 229]"
    using demo_prefill by (simp add: p_def)
  then obtain batch where b: "r = Inr batch" "pb_write_index batch = [356, 357, 228, 229]" by (cases r) auto
  have run': "build_prefill_batch [[(True, True)], [(True, True)], []] [1, 0] [[7, 8], [9, 10]] p = (Inr batch, p')"
    using run b(1) by simp
  have pre: "0 < (128 :: int)" "\<forall>s \<in> set [1, 0]. (s :: int) \<notin> {}" by simp_all
  have "distinct (pb_write_index batch) \<and> reads_kept {} p p'"
    using prefill_batch_rows_are_private [OF demo_slots_init _ e(1), unfolded e(2), folded p_def, OF pre run'] by blast
  then show ?thesis unfolding Let_def p_def [symmetric] using run b e by (auto simp: reads_kept_def)
qed

text \<open>Restoring a prefix leaves the rows of the other slots alone.\<close>

abbreviation row_of :: "nat \<Rightarrow> ('b, 'm) slot_pool \<Rightarrow> int \<times> int list" where
  "row_of j p \<equiv> (num_slots p, page_table_host p ! j)"

lemma row_of_set_row:
  assumes "nat slot \<noteq> j"
  shows "unmoved (row_of j) (set_page_table_row slot row)"
  unfolding set_page_table_row_def
  using assms by (auto intro!: frame_rules unmoved_guard simp: remap_refcounts_def install_row_def split_def Let_def)

lemma row_of_add: "unmoved (row_of j) (add_bundles i bs)"
  unfolding add_bundles_def by (auto intro!: frame_rules)

lemma row_of_restore:
  assumes "0 \<le> slot" and "nat slot \<noteq> j"
  shows "unmoved (row_of j) (restore_prefix_from_cached_bundles slot n ids)"
proof -
  have "unmoved (row_of j) (install_prefix slot n sources tail)" for sources tail
    unfolding install_prefix_def
    by (auto intro!: frame_rules unmoved_with_row row_of_add row_of_set_row [OF assms(2)]
      simp: clone_cow_pages_def split: option.split)
  moreover have "unmoved (row_of j) (undo_restore tail sources owner)" for tail sources owner
    unfolding undo_restore_def swallow_def by (auto intro!: frame_rules unmoved_attempt split: option.split)
  moreover have "unmoved (row_of j) (allocate_one_page owner)" for owner
    unfolding allocate_one_page_def by (auto intro!: frame_rules split: list.split)
  ultimately show ?thesis
    unfolding restore_prefix_from_cached_bundles_def restore_cached_page_prefix_def Let_def
    by (auto intro!: frame_rules unmoved_attempt)
qed

text \<open>
  C12: a prefix hit restores what was cached.  After such a run, when
  \<^verbatim>\<open>restore_prefix_from_cached_bundles(slot, n, ids)\<close> on different pages reports a hit on a slot without
  a pending reset, it reports all \<^verbatim>\<open>n\<close> tokens, the first pages of the slot's row are the reported
  pages, the slot holds them, and each reads exactly the bytes the cached page had.  Full pages are
  the cached pages themselves; a partly filled last page is a private copy, so that the tokens
  that follow do not damage the cached one.  What the other slots have mapped reads as before.
\<close>

theorem restored_prefix_is_cached:
  assumes "slot_pool_init slots max_len True bundles wm zero = Inr p0" and "0 < max_len" and "orderly cs {} p0"
  defines "p \<equiv> snd (run_calls call_slots cs p0)" and "S \<equiv> suspects cs {} p0"
  assumes "0 \<le> slot" and "slot \<notin> S" and "distinct ids"
    and "restore_prefix_from_cached_bundles slot n ids p = (Inr (m, pages), p')" and "m \<noteq> 0"
  shows "m = n \<and> length pages = length ids \<and> take (length ids) (page_table_host p' ! nat slot) = pages \<and>
    set pages \<subseteq> slot_bundles p' ! nat slot \<and>
    (\<forall>k < length ids. read_page p' (nat slot) k =
       (backbone_kv p (ids ! k), map_option (\<lambda>f. f (ids ! k)) (mtp_cow_family p))) \<and>
    (n mod page_size = 0 \<longrightarrow> pages = ids) \<and>
    (n mod page_size \<noteq> 0 \<longrightarrow> butlast pages = butlast ids \<and> private_page p' (last pages)) \<and>
    reads_kept (insert slot S) p p'"
proof -
  have own: "owned_rows S p" using books_reached [OF assms(1-3)] by (simp add: books_def p_def S_def)
  have "restore_outcome S slot n ids p (Inr (m, pages), p')"
    using restore_bundles_rows [OF own assms(6-8), of n] assms(9) by simp
  then have m: "m = n" and r: "restored (nat slot) n ids pages p p'"
    using assms(10) by (auto simp: restore_outcome_def)
  obtain g where g: "bytes_moved g p p'" "\<forall>k < length pages. g (pages ! k) = ids ! k"
    "\<forall>j < nat (num_rows p). \<forall>b \<in> slot_bundles p ! j. g b = b"
    using r unfolding restored_def by blast
  have f: "length pages = length ids" "page_table_host p' ! nat slot = pages @ drop (length pages) (page_table_host p ! nat slot)"
    "set pages \<subseteq> slot_bundles p' ! nat slot" "n mod page_size = 0 \<longrightarrow> pages = ids"
    "n mod page_size \<noteq> 0 \<longrightarrow> butlast pages = butlast ids \<and> private_page p' (last pages)"
    using r by (simp_all add: restored_def)
  have bytes: "read_page p' (nat slot) k = (backbone_kv p (ids ! k), map_option (\<lambda>f. f (ids ! k)) (mtp_cow_family p))"
    if "k < length ids" for k
    using that f(1,2) g(2) bytes_moved_page [OF g(1), of "pages ! k" "ids ! k"]
    by (simp add: read_page_def Let_def nth_append)
  have "reads_kept (insert slot S) p p'"
    unfolding reads_kept_def
  proof (intro allI impI)
    fix j k assume j: "j < nat (num_rows p)" "int j \<notin> insert slot S" "k < length (page_table_host p ! j)"
      "page_table_host p ! j ! k \<noteq> 0"
    have "nat slot \<noteq> j" using j(2) assms(6) by auto
    then have row: "page_table_host p' ! j = page_table_host p ! j"
      using row_of_restore [OF assms(6), of j n ids] assms(9) unfolding unmoved_def by (metis prod.inject snd_conv)
    have "row_ok p j" using own j(1,2) by (simp add: owned_rows_def)
    then have "page_table_host p ! j ! k \<in> slot_bundles p ! j" using j(3,4) by (auto simp: row_ok_def dest: nth_mem)
    then show "page_table_host p' ! j ! k \<noteq> 0 \<and> read_page p' j k = read_page p j k"
      using row j(1,4) g(3) bytes_moved_page [OF g(1)] by (simp add: read_page_def Let_def)
  qed
  then show ?thesis using m f bytes by simp
qed

text \<open>Slot 0 publishes its partly filled page and is reset; slot 1 restores it as a private copy.\<close>

definition cached_script :: "(int, int) slot_call list" where
  "cached_script = [SPrepare 0 0 100, SForward (\<lambda>b. 1000 + b) (\<lambda>b. 2000 + b), SPublish 0 100 [key 7 100] 128 True, SReset 0]"

definition demo_cached :: "(int, int) slot_pool" where
  "demo_cached = snd (run_calls call_slots cached_script demo_slots)"

lemma demo_restore:
  "orderly cached_script {} demo_slots \<and>
   suspects cached_script {} demo_slots = {}"
  "fst (restore_prefix_from_cached_bundles 1 100 [1] demo_cached) = Inr (100, [2]) \<and>
   backbone_kv demo_cached 1 = 1001 \<and> backbone_kv demo_cached 2 = 1002"
  by code_simp+

theorem restored_prefix_is_cached_witness:
  "let p' = snd (restore_prefix_from_cached_bundles 1 100 [1] demo_cached) in
     take 1 (page_table_host p' ! 1) = [2] \<and> backbone_kv demo_cached 2 = 1002 \<and> fst (read_page p' 1 0) = 1001 \<and>
     private_page p' 2"
proof -
  define p' where "p' = snd (restore_prefix_from_cached_bundles 1 100 [1] demo_cached)"
  have run: "restore_prefix_from_cached_bundles 1 100 [1] demo_cached = (Inr (100, [2]), p')"
    using demo_restore(2) by (simp add: p'_def prod_eq_iff)
  have e: "orderly cached_script {} demo_slots"
    "suspects cached_script {} demo_slots = {}"
    using demo_restore(1) by blast+
  note C = restored_prefix_is_cached [OF demo_slots_init _ e(1), unfolded e(2), folded demo_cached_def, of 1 "[1]" 100 100 "[2]" p']
  show ?thesis unfolding Let_def p'_def [symmetric] using C run demo_restore(2) by (simp add: page_size_def)
qed

end
