(* ===== verification/Slot_Fixed.thy ===== *)
theory Slot_Fixed
  imports Slot_Isolation
begin

text \<open>
  The fixed-row mode of \<^verbatim>\<open>Qwen36SlotPool\<close> (no page-bundle pool): every slot starts with its own pages,
  prefixes are shared by aliasing rows, and the pool's own reference counts and set of displaced
  pages decide when a write needs a copy.  The counts are right after any calls whatsoever, and a
  prepared write reaches no page another row maps.
\<close>

section \<open>The counts\<close>

definition rows_with :: "('b, 'm) slot_pool \<Rightarrow> int \<Rightarrow> nat set" where
  "rows_with p b = holders (map set (page_table_host p)) b"

text \<open>A row the pool accepts.\<close>

definition row_fits :: "('b, 'm) slot_pool \<Rightarrow> int list \<Rightarrow> bool" where
  "row_fits p row \<longleftrightarrow> int (length row) = pages_per_slot p \<and> distinct row \<and> set row \<subseteq> {0..<pool_bundles p}"

definition counted :: "('b, 'm) slot_pool \<Rightarrow> bool" where
  "counted p \<longleftrightarrow> \<not> dynamic_arena p \<and> 0 \<le> num_slots p \<and> length (page_table_host p) = nat (num_rows p) \<and>
     global_page_table p = page_table_host p \<and> length (page_refcounts p) = nat (pool_bundles p) \<and>
     mtp_cow_family p = None \<and> (\<forall>row \<in> set (page_table_host p). row_fits p row) \<and>
     (\<forall>b. 0 \<le> b \<and> b < pool_bundles p \<longrightarrow> page_refcounts p ! nat b = int (card (rows_with p b))) \<and>
     (\<forall>b \<in> free_physical_pages p. 0 \<le> b \<and> b < pool_bundles p \<and> rows_with p b = {})"

lemma countedD:
  assumes "counted p"
  shows "\<not> dynamic_arena p" "0 \<le> num_slots p" "length (page_table_host p) = nat (num_rows p)"
    "global_page_table p = page_table_host p" "length (page_refcounts p) = nat (pool_bundles p)"
    "mtp_cow_family p = None" "i < nat (num_rows p) \<Longrightarrow> row_fits p (page_table_host p ! i)"
    "0 \<le> b \<Longrightarrow> b < pool_bundles p \<Longrightarrow> page_refcounts p ! nat b = int (card (rows_with p b))"
    "b \<in> free_physical_pages p \<Longrightarrow> 0 \<le> b \<and> b < pool_bundles p \<and> rows_with p b = {}"
  using assms by (auto simp: counted_def)

lemma rows_with_iff: "j \<in> rows_with p b \<longleftrightarrow> j < length (page_table_host p) \<and> b \<in> set (page_table_host p ! j)"
  by (auto simp: rows_with_def holders_def)

lemma finite_rows_with [simp]: "finite (rows_with p b)"
  by (simp add: rows_with_def holders_def)

text \<open>The two loops of \<^verbatim>\<open>set_page_table_row\<close>.\<close>

lemma page_steps:
  "drop_page a (rc, free) = (rc[nat a := rc ! nat a - 1], if rc ! nat a - 1 = 0 then insert a free else free)"
  "hold_page a (rc, free) = (rc[nat a := rc ! nat a + 1], free - {a})"
  by (simp_all add: drop_page_def hold_page_def Let_def)

lemma fold_drop_page:
  assumes "distinct old" and "set old \<subseteq> {0..<int (length rc)}" and "fold drop_page old (rc, free) = (rc', free')"
  shows "length rc' = length rc \<and> free' = free \<union> {b \<in> set old. rc ! nat b = 1} \<and>
    (\<forall>b. 0 \<le> b \<and> b < int (length rc) \<longrightarrow> rc' ! nat b = rc ! nat b - of_bool (b \<in> set old))"
  using assms
proof (induction old arbitrary: rc free)
  case (Cons a old)
  let ?rc = "rc[nat a := rc ! nat a - 1]"
  let ?free = "if rc ! nat a - 1 = 0 then insert a free else free"
  have a: "0 \<le> a" "nat a < length rc" using Cons.prems(2) by auto
  have run: "fold drop_page old (?rc, ?free) = (rc', free')" using Cons.prems(3) by (simp only: fold_Cons comp_apply page_steps)
  have IH: "length rc' = length ?rc \<and> free' = ?free \<union> {b \<in> set old. ?rc ! nat b = 1} \<and>
    (\<forall>b. 0 \<le> b \<and> b < int (length ?rc) \<longrightarrow> rc' ! nat b = ?rc ! nat b - of_bool (b \<in> set old))"
    using Cons.prems by (intro Cons.IH [OF _ _ run]) auto
  have other: "?rc ! nat b = rc ! nat b" if "0 \<le> b" "b \<noteq> a" for b using that a by (simp add: nth_list_update eq_nat_nat_iff)
  have old: "b \<noteq> a \<and> 0 \<le> b" if "b \<in> set old" for b using that Cons.prems(1,2) by auto
  have "{b \<in> set old. ?rc ! nat b = 1} = {b \<in> set old. rc ! nat b = 1}" using other old by auto
  then have "free' = free \<union> {b \<in> set (a # old). rc ! nat b = 1}" using IH by auto
  moreover have "rc' ! nat b = rc ! nat b - of_bool (b \<in> set (a # old))" if "0 \<le> b" "b < int (length rc)" for b
    using IH that other [of b] a old [of b] by (cases "b = a") auto
  ultimately show ?case using IH by simp
qed simp

lemma fold_hold_page:
  assumes "distinct new" and "set new \<subseteq> {0..<int (length rc)}" and "fold hold_page new (rc, free) = (rc', free')"
  shows "length rc' = length rc \<and> free' = free - set new \<and>
    (\<forall>b. 0 \<le> b \<and> b < int (length rc) \<longrightarrow> rc' ! nat b = rc ! nat b + of_bool (b \<in> set new))"
  using assms
proof (induction new arbitrary: rc free)
  case (Cons a new)
  let ?rc = "rc[nat a := rc ! nat a + 1]"
  have a: "0 \<le> a" "nat a < length rc" using Cons.prems(2) by auto
  have run: "fold hold_page new (?rc, free - {a}) = (rc', free')" using Cons.prems(3) by (simp only: fold_Cons comp_apply page_steps)
  have IH: "length rc' = length ?rc \<and> free' = free - {a} - set new \<and>
    (\<forall>b. 0 \<le> b \<and> b < int (length ?rc) \<longrightarrow> rc' ! nat b = ?rc ! nat b + of_bool (b \<in> set new))"
    using Cons.prems by (intro Cons.IH [OF _ _ run]) auto
  have "rc' ! nat b = rc ! nat b + of_bool (b \<in> set (a # new))" if "0 \<le> b" "b < int (length rc)" for b
    using IH that a Cons.prems(1) by (cases "b = a") (auto simp: nth_list_update eq_nat_nat_iff)
  then show ?case using IH by auto
qed simp

text \<open>Installing a row the pool accepts keeps the counts right.\<close>

lemma counted_install:
  assumes "counted p" and "i < nat (num_rows p)" and "row_fits p row"
  defines "q \<equiv> install_row i row (remap_refcounts (page_table_host p ! i) row p)"
  shows "counted q" and "page_table_host q = (page_table_host p)[i := row]" and "num_rows q = num_rows p"
    and "backbone_kv q = backbone_kv p"
proof -
  let ?old = "page_table_host p ! i"
  note c = countedD [OF assms(1)]
  obtain rc1 free1 where d: "fold drop_page ?old (page_refcounts p, free_physical_pages p) = (rc1, free1)" by fastforce
  obtain rc free where h: "fold hold_page row (rc1, free1) = (rc, free)" by fastforce
  have n: "int (length (page_refcounts p)) = pool_bundles p \<or> pool_bundles p < 0" using c(5) by auto
  have old: "distinct ?old" "set ?old \<subseteq> {0..<int (length (page_refcounts p))}"
    using c(7) [OF assms(2)] n by (auto simp: row_fits_def)
  have d1: "length rc1 = length (page_refcounts p)" "free1 = free_physical_pages p \<union> {b \<in> set ?old. page_refcounts p ! nat b = 1}"
    "\<forall>b. 0 \<le> b \<and> b < int (length (page_refcounts p)) \<longrightarrow> rc1 ! nat b = page_refcounts p ! nat b - of_bool (b \<in> set ?old)"
    using fold_drop_page [OF old d] by blast+
  have new: "distinct row" "set row \<subseteq> {0..<int (length rc1)}" using assms(3) n d1(1) by (auto simp: row_fits_def)
  have h1: "length rc = length rc1" "free = free1 - set row"
    "\<forall>b. 0 \<le> b \<and> b < int (length rc1) \<longrightarrow> rc ! nat b = rc1 ! nat b + of_bool (b \<in> set row)"
    using fold_hold_page [OF new h] by blast+
  have q: "q = install_row i row (p\<lparr>page_refcounts := rc, free_physical_pages := free\<rparr>)"
    by (simp add: q_def remap_refcounts_def d h)
  show hostq: "page_table_host q = (page_table_host p)[i := row]" and "num_rows q = num_rows p" and "backbone_kv q = backbone_kv p"
    by (simp_all add: q install_row_def num_rows_def)
  have i: "i < length (map set (page_table_host p))" using assms(2) c(3) by simp
  have card: "int (card (rows_with q b)) = int (card (rows_with p b)) - of_bool (b \<in> set ?old) + of_bool (b \<in> set row)" for b
    using card_holders_update [OF i, of "set row" b] i by (simp add: rows_with_def hostq map_update)
  have count: "rc ! nat b = int (card (rows_with q b))" if "0 \<le> b" "b < pool_bundles p" for b
    using that d1(1,3) h1(3) n card [of b] c(8) [OF that] by simp
  have "0 \<le> b \<and> b < pool_bundles p \<and> rows_with q b = {}" if "b \<in> free" for b
  proof -
    have b: "b \<notin> set row" "b \<in> free_physical_pages p \<or> b \<in> set ?old \<and> page_refcounts p ! nat b = 1"
      using that h1(2) d1(2) by auto
    then have range: "0 \<le> b" "b < pool_bundles p" using c(9) [of b] c(7) [OF assms(2)] by (auto simp: row_fits_def)
    have "int (card (rows_with q b)) = 0"
    proof (cases "b \<in> free_physical_pages p")
      case True
      then have none: "rows_with p b = {}" using c(9) by blast
      then have "b \<notin> set ?old" using i rows_with_iff [of i p b] by simp
      then show ?thesis using card [of b] b(1) none by simp
    next
      case False
      then show ?thesis using card [of b] b c(8) [OF range] by simp
    qed
    then show ?thesis using range by simp
  qed
  moreover have "row_fits p r" if "r \<in> set ((page_table_host p)[i := row])" for r
    using that assms(2,3) c(7) c(3) by (auto simp: in_set_conv_nth nth_list_update split: if_splits)
  ultimately show "counted q"
    using c count h1(1) d1(1) hostq
    by (simp add: counted_def q install_row_def num_rows_def row_fits_def rows_with_def)
qed

lemma counted_bytes [simp]:
  "counted (p\<lparr>backbone_kv := f\<rparr>) = counted p" "counted (clone_fixed_pages reps p) = counted p"
  "counted (gather_scatter ss ts p) = counted p" "counted (advance_slot i past t p) = counted p"
  "counted (p\<lparr>num_tokens_seen := x, slot_kv_len := y, slot_committed_tokens := z\<rparr>) = counted p"
  "counted (p\<lparr>num_tokens_seen := x, slot_kv_len := y\<rparr>) = counted p"
  by (simp_all add: counted_def rows_with_def row_fits_def num_rows_def clone_fixed_pages_def gather_scatter_def advance_slot_def)

lemma counted_free: "counted p \<Longrightarrow> F \<subseteq> free_physical_pages p \<Longrightarrow> counted (p\<lparr>free_physical_pages := F\<rparr>)"
  by (auto simp: counted_def rows_with_def row_fits_def num_rows_def)

lemma set_row_counted:
  fixes slot :: int and row :: "int list"
  assumes "counted p"
  defines "ok \<equiv> 0 \<le> slot \<and> slot < num_rows p \<and> row_fits p row"
  shows "ok \<Longrightarrow> set_page_table_row slot row p =
      (Inr (), install_row (nat slot) row (remap_refcounts (page_table_host p ! nat slot) row p))"
    and "\<not> ok \<Longrightarrow> \<exists>e. set_page_table_row slot row p = (Inl e, p)"
  using countedD(1) [OF assms(1)] by (auto simp: ok_def set_page_table_row_def row_fits_def)

lemma keeps_set_row: "keeps (counted :: ('b, 'm) slot_pool \<Rightarrow> bool) (set_page_table_row slot row)"
proof (rule keepsI)
  fix p :: "('b, 'm) slot_pool" assume c: "counted p"
  show "counted (snd (set_page_table_row slot row p))"
  proof (cases "0 \<le> slot \<and> slot < num_rows p \<and> row_fits p row")
    case True
    then show ?thesis using set_row_counted(1) [OF c] counted_install(1) [OF c, of "nat slot" row] by simp
  next
    case False
    then obtain e where "set_page_table_row slot row p = (Inl e, p)" using set_row_counted(2) [OF c] by blast
    then show ?thesis using c by simp
  qed
qed

section \<open>Taking displaced pages\<close>

text \<open>The page whose bytes a page has after the copies in order.\<close>

definition moved_from :: "replacement list \<Rightarrow> int \<Rightarrow> int" where
  "moved_from reps = fold (\<lambda>(_, source, target). copy_page source target) reps (\<lambda>b. b)"

lemma moved_from_Nil [simp]: "moved_from [] b = b"
  by (simp add: moved_from_def)

lemma moved_from_snoc: "moved_from (reps @ [(l, s, t)]) b = (if b = t then moved_from reps s else moved_from reps b)"
  by (simp add: moved_from_def copy_page_def)

lemma clone_fixed_bytes: "backbone_kv (clone_fixed_pages reps p) b = backbone_kv p (moved_from reps b)"
proof (induction reps arbitrary: b rule: rev_induct)
  case (snoc r reps)
  then show ?case by (cases r) (simp add: clone_fixed_pages_def moved_from_snoc copy_page_def)
qed (simp add: clone_fixed_pages_def)

text \<open>What the loop has done to \<open>p0\<close> when its copy of row \<open>i\<close> is \<open>row\<close>.\<close>

definition taking :: "nat \<Rightarrow> ('b, 'm) slot_pool \<Rightarrow> int list \<Rightarrow> replacement list \<Rightarrow> ('b, 'm) slot_pool \<Rightarrow> bool" where
  "taking i p0 row reps p \<longleftrightarrow> (\<exists>F \<subseteq> free_physical_pages p0. p = p0\<lparr>free_physical_pages := F\<rparr>) \<and>
     length row = length (page_table_host p0 ! i) \<and> distinct row \<and>
     (\<forall>k < length row. moved_from reps (row ! k) = page_table_host p0 ! i ! k \<and>
        (row ! k \<in> set (page_table_host p0 ! i) \<or> row ! k \<in> free_physical_pages p0 - free_physical_pages p)) \<and>
     (\<forall>b. b \<notin> free_physical_pages p0 - free_physical_pages p \<longrightarrow> moved_from reps b = b) \<and>
     (reps = [] \<longrightarrow> row = page_table_host p0 ! i \<and> p = p0)"

lemma taking_start: "counted p \<Longrightarrow> i < nat (num_rows p) \<Longrightarrow> taking i p (page_table_host p ! i) [] p"
  using countedD(7) [of p i] by (auto simp: taking_def row_fits_def)

lemma free_unmapped:
  assumes "counted p" and "b \<in> free_physical_pages p" and "j < nat (num_rows p)"
  shows "b \<notin> set (page_table_host p ! j)"
  using countedD(9) [OF assms(1,2)] rows_with_iff [of j p b] countedD(3) [OF assms(1)] assms(3) by auto

lemma free_finite: "counted p \<Longrightarrow> finite (free_physical_pages p)"
  using countedD(9) [of p] by (intro finite_subset [of "free_physical_pages p" "{0..pool_bundles p}"]) force+

lemma taking_step:
  assumes "counted p0" and "i < nat (num_rows p0)" and "taking i p0 row reps p" and "k < length row"
    and "t \<in> free_physical_pages p"
  shows "taking i p0 (row[k := t]) (reps @ [(l, row ! k, t)]) (p\<lparr>free_physical_pages := free_physical_pages p - {t}\<rparr>)"
proof -
  let ?free = "free_physical_pages p" and ?orig = "free_physical_pages p0" and ?base = "page_table_host p0 ! i"
  obtain F where F: "F \<subseteq> ?orig" "p = p0\<lparr>free_physical_pages := F\<rparr>" using assms(3) unfolding taking_def by blast
  have t: "t \<in> ?orig" "t \<notin> set ?base" using assms(5) F free_unmapped [OF assms(1) _ assms(2), of t] by auto
  have old: "\<forall>k < length row. moved_from reps (row ! k) = ?base ! k \<and> (row ! k \<in> set ?base \<or> row ! k \<in> ?orig - ?free)"
    and rest: "\<forall>b. b \<notin> ?orig - ?free \<longrightarrow> moved_from reps b = b" and dist: "distinct row" and len: "length row = length ?base"
    using assms(3) by (simp_all add: taking_def)
  have new: "t \<noteq> row ! j" if "j < length row" for j using old that t(2) assms(5) by blast
  then have "t \<notin> set row" by (metis in_set_conv_nth)
  then have "distinct (row[k := t])" using dist by (simp add: distinct_list_update)
  moreover have "\<forall>j < length row. moved_from (reps @ [(l, row ! k, t)]) (row[k := t] ! j) = ?base ! j \<and>
      (row[k := t] ! j \<in> set ?base \<or> row[k := t] ! j \<in> ?orig - (?free - {t}))"
    using old new t(1) assms(4) by (auto simp: moved_from_snoc nth_list_update)
  moreover have "\<forall>b. b \<notin> ?orig - (?free - {t}) \<longrightarrow> moved_from (reps @ [(l, row ! k, t)]) b = b"
    using rest t(1) by (auto simp: moved_from_snoc)
  moreover have "\<exists>G \<subseteq> ?orig. p\<lparr>free_physical_pages := ?free - {t}\<rparr> = p0\<lparr>free_physical_pages := G\<rparr>"
    using F by (intro exI [of _ "F - {t}"]) auto
  ultimately show ?thesis using len by (simp add: taking_def)
qed

definition settled :: "('b, 'm) slot_pool \<Rightarrow> ('b, 'm) slot_pool \<Rightarrow> int \<Rightarrow> bool" where
  "settled p0 p b \<longleftrightarrow> b \<in> free_physical_pages p0 - free_physical_pages p \<or> page_refcounts p0 ! nat b \<le> 1"

lemma fixed_loop:
  assumes "counted p0" and "i < nat (num_rows p0)"
  shows "taking i p0 row reps p \<Longrightarrow> \<forall>lp \<in> set lps. 0 \<le> lp \<Longrightarrow>
    remap_loop (visit_fixed msg aliased) lps row reps p = (r, p') \<Longrightarrow>
    case r of Inl e \<Rightarrow> \<exists>F \<subseteq> free_physical_pages p0. p' = p0\<lparr>free_physical_pages := F\<rparr>
    | Inr (row', reps') \<Rightarrow> taking i p0 row' reps' p' \<and> (aliased = (\<lambda>_. True) \<longrightarrow>
        (\<forall>k < length row. int k \<in> set lps \<or> settled p0 p (row ! k) \<longrightarrow> settled p0 p' (row' ! k)))"
proof (induction "visit_fixed msg aliased :: int \<Rightarrow> (('a, 'b) slot_pool, int option) prog" lps row reps
    arbitrary: p rule: remap_loop.induct)
  case (1 row reps)
  then show ?case by auto
next
  case (2 lp lps row reps)
  let ?b = "row ! nat lp" and ?free = "free_physical_pages p"
  obtain F where F: "F \<subseteq> free_physical_pages p0" "p = p0\<lparr>free_physical_pages := F\<rparr>"
    using "2.prems"(1) unfolding taking_def by blast
  then have stop: "\<exists>F \<subseteq> free_physical_pages p0. p = p0\<lparr>free_physical_pages := F\<rparr>" by blast
  have lp: "0 \<le> lp" "\<forall>lp \<in> set lps. 0 \<le> lp" using "2.prems"(2) by auto
  show ?case
  proof (cases "int (length row) \<le> lp")
    case True
    then have "r = Inl (IndexError ''list index out of range'')" "p' = p" using "2.prems"(3) by auto
    then show ?thesis using stop by (simp only: sum.case)
  next
    case in_row: False
    then have k: "nat lp < length row" using lp(1) by linarith
    show ?thesis
    proof (cases "\<not> aliased ?b \<or> page_refcounts p ! nat ?b \<le> 1")
      case True
      then have run: "remap_loop (visit_fixed msg aliased) lps row reps p = (r, p')"
        using "2.prems"(3) in_row by (simp add: visit_fixed_def)
      note IH = "2.hyps"(1) [OF "2.prems"(1) lp(2) run]
      have "settled p0 p ?b" if "aliased = (\<lambda>_. True)" using True that F by (simp add: settled_def)
      then show ?thesis using IH lp(1) by (cases r) (auto simp: split_beta)
    next
      case False
      show ?thesis
      proof (cases "?free = {}")
        case True
        then have "r = Inl (RuntimeError msg)" "p' = p" using "2.prems"(3) False in_row by (auto simp: visit_fixed_def)
        then show ?thesis using stop by (simp only: sum.case)
      next
        case some: False
        define t where "t = Min ?free"
        let ?p = "p\<lparr>free_physical_pages := ?free - {t}\<rparr>"
        have "finite ?free" using free_finite [OF assms(1)] F finite_subset by auto
        then have t: "t \<in> ?free" using some by (simp add: t_def)
        have run: "remap_loop (visit_fixed msg aliased) lps (row[nat lp := t]) (reps @ [(lp, ?b, t)]) ?p = (r, p')"
          using "2.prems"(3) False in_row some by (simp add: visit_fixed_def t_def andThen_assoc)
        note IH = "2.hyps"(2) [OF taking_step [OF assms "2.prems"(1) k t] lp(2) run]
        have "settled p0 ?p (row[nat lp := t] ! j)" if "j < length row" "settled p0 p (row ! j) \<or> int j = lp" for j
          using that t F k lp(1) by (auto simp: settled_def nth_list_update)
        then show ?thesis using IH by (cases r) (auto simp: split_beta)
      qed
    qed
  qed
qed

lemma fixed_finish:
  assumes "counted p0" and "i < nat (num_rows p0)" and "taking i p0 row reps p" and "finish_remap slot (row, reps) p = (r, p')"
  shows "counted p' \<and> (nat slot = i \<and> 0 \<le> slot \<longrightarrow> (\<exists>b. r = Inr b) \<and>
    page_table_host p' = (page_table_host p0)[i := row] \<and> num_rows p' = num_rows p0 \<and>
    mtp_cow_family p' = None \<and> (\<forall>b. backbone_kv p' b = backbone_kv p0 (moved_from reps b)))"
proof (cases "reps = []")
  case True
  then have "row = page_table_host p0 ! i" "p = p0" using assms(3) by (simp_all add: taking_def)
  then show ?thesis using assms(1,4) countedD(6) [OF assms(1)] True by (auto simp: finish_remap_def)
next
  case False
  obtain F where F: "F \<subseteq> free_physical_pages p0" "p = p0\<lparr>free_physical_pages := F\<rparr>" using assms(3) unfolding taking_def by blast
  have c: "counted p" using counted_free [OF assms(1) F(1)] F(2) by simp
  define q where "q = clone_fixed_pages reps p"
  have cq: "counted q" using c by (simp add: q_def)
  have same: "page_table_host q = page_table_host p0" "num_rows q = num_rows p0" "pages_per_slot q = pages_per_slot p0"
    "pool_bundles q = pool_bundles p0"
    by (simp_all add: q_def clone_fixed_pages_def F(2) num_rows_def)
  have bytes: "backbone_kv q b = backbone_kv p0 (moved_from reps b)" for b by (simp add: q_def clone_fixed_bytes F(2))
  have base: "row_fits p0 (page_table_host p0 ! i)" using countedD(7) [OF assms(1,2)] .
  have fits: "row_fits q row"
  proof -
    have "b \<in> {0..<pool_bundles p0}" if b: "b \<in> set row" for b
    proof -
      obtain k where "k < length row" "b = row ! k" using b by (auto simp: in_set_conv_nth)
      then have "b \<in> set (page_table_host p0 ! i) \<or> b \<in> free_physical_pages p0"
        using assms(3) unfolding taking_def by blast
      then show ?thesis using base countedD(9) [OF assms(1), of b] by (auto simp: row_fits_def)
    qed
    then show ?thesis using assms(3) base by (auto simp: row_fits_def same taking_def)
  qed
  have run: "finish_remap slot (row, reps) p = andThen (set_page_table_row slot row) (\<lambda>_. ret True) q"
    using False countedD(1) [OF c] by (simp add: finish_remap_def q_def)
  have "counted p'"
    using keeps_snd [OF keeps_set_row cq, of slot row] run assms(4) snd_andThen_ret [of "set_page_table_row slot row" True q]
    by (metis snd_conv)
  moreover have "(\<exists>b. r = Inr b) \<and> page_table_host p' = (page_table_host p0)[i := row] \<and> num_rows p' = num_rows p0 \<and>
      mtp_cow_family p' = None \<and> (\<forall>b. backbone_kv p' b = backbone_kv p0 (moved_from reps b))" if "nat slot = i" "0 \<le> slot"
  proof -
    have ok: "0 \<le> slot \<and> slot < num_rows q \<and> row_fits q row" using that assms(2) fits same(2) by auto
    note inst = counted_install [OF cq _ fits, of i]
    have "p' = install_row i row (remap_refcounts (page_table_host q ! i) row q)" "r = Inr True"
      using set_row_counted(1) [OF cq ok] run assms(4) that(1) by (simp_all add: andThen_def)
    then show ?thesis using inst assms(2) same bytes countedD(6) [OF \<open>counted p'\<close>] by auto
  qed
  ultimately show ?thesis by blast
qed

text \<open>Preparing a write and detaching from the scratch row keep the counts, on every branch.\<close>

lemma counted_remap:
  assumes "counted p" and "i < nat (num_rows p)" and "\<forall>lp \<in> set lps. 0 \<le> lp"
  shows "counted (snd (andThen (remap_loop (visit_fixed msg aliased) lps (page_table_host p ! i) []) (finish_remap slot) p))"
proof -
  obtain r q where q: "remap_loop (visit_fixed msg aliased) lps (page_table_host p ! i) [] p = (r, q)"
    by (cases "remap_loop (visit_fixed msg aliased) lps (page_table_host p ! i) [] p")
  note loop = fixed_loop [OF assms(1,2) taking_start [OF assms(1,2)] assms(3) q]
  show ?thesis
  proof (cases r)
    case (Inl e)
    then show ?thesis using loop q counted_free [OF assms(1)] by (auto simp: andThen_def)
  next
    case (Inr x)
    obtain row reps where x: "x = (row, reps)" by (cases x)
    have "taking i p row reps q" using loop by (simp add: Inr x)
    then have "counted (snd (finish_remap slot (row, reps) q))"
      using fixed_finish [OF assms(1,2), of row reps q slot] by (metis prod.collapse)
    then show ?thesis using q by (simp add: andThen_def Inr x)
  qed
qed

lemma keeps_reading: "(\<And>s. I s \<Longrightarrow> keeps I (k (f s))) \<Longrightarrow> keeps I (reading f k)"
  by (auto simp: sound_def)

lemma keeps_prepare: "keeps (counted :: ('b, 'm) slot_pool \<Rightarrow> bool) (prepare_kv_writes slot start len)"
proof (rule keepsI)
  fix p :: "('b, 'm) slot_pool" assume c: "counted p"
  show "counted (snd (prepare_kv_writes slot start len p))"
  proof (cases "len < 0 \<or> start < 0 \<or> start + len > max_seq_len p \<or> len = 0 \<or> py_index (num_rows p) slot = None")
    case True
    then show ?thesis using c by (auto simp: prepare_kv_writes_def with_row_def)
  next
    case False
    then obtain j where j: "py_index (num_rows p) slot = Some j" by blast
    then have i: "nat j < nat (num_rows p)" by (auto simp: py_index_def split: if_splits)
    have lps: "\<forall>lp \<in> set [start div page_size..(start + len - 1) div page_size]. 0 \<le> lp"
      using False by (auto simp: page_size_def)
    show ?thesis
      using counted_remap [OF c i lps] False j countedD(1) [OF c]
      by (simp add: prepare_kv_writes_def with_row_def andThen_assoc [symmetric] snd_andThen_ret)
  qed
qed

lemma keeps_detach: "keeps (counted :: ('b, 'm) slot_pool \<Rightarrow> bool) (detach_scratch_aliases slot n scratch)"
proof (rule keepsI)
  fix p :: "('b, 'm) slot_pool" assume c: "counted p"
  have "counted (snd (andThen (remap_loop (visit_fixed msg aliased) (takeWhile f [0..pages_for n - 1]) (page_table_host p ! nat slot) [])
      (finish_remap slot) p))" if "0 \<le> slot" "slot < num_slots p" for msg aliased f
    using that by (intro counted_remap [OF c]) (auto simp: num_rows_def dest: set_takeWhileD)
  then show "counted (snd (detach_scratch_aliases slot n scratch p))"
    using c countedD(1) [OF c] by (simp add: detach_scratch_aliases_def live_slot_def prefix_length_ok_def)
qed

lemma keeps_advance: "keeps counted (update (advance_slot i past t))"
  by (simp add: sound_def)

lemma keeps_decode: "keeps (counted :: ('b, 'm) slot_pool \<Rightarrow> bool) (decode_loop zs rows lens)"
proof (induction zs rows lens rule: decode_loop.induct)
  case (2 slot t rest rows lens)
  have w: "keeps (counted :: ('b, 'm) slot_pool \<Rightarrow> bool) (write_index slot n)" for n
    by (rule keepsI) (simp add: write_index_def with_row_def split: option.split)
  show ?case
    unfolding decode_loop.simps with_row_def
    by (intro keeps_reading) (auto intro!: keeps_reading sound_guard sound_raise sound_andThen [OF keeps_prepare]
      sound_andThen [OF w] sound_andThen [OF keeps_advance] 2 split: option.split
      simp del: ret_run reading_run guard_run update_run raise_run andThen_reading andThen_guard andThen_update)
qed (simp add: sound_def)

text \<open>A call that only changes bytes and counters, or does nothing in this mode.\<close>

lemma counted_fixed_calls:
  assumes "counted p"
  shows "counted (snd (copy_prefix_kv s t n p))" "counted (snd (copy_prefix_to_scratch s n ps p))"
    "counted (snd (pool_reset_slot s p))" "counted (snd (rewind_slot s n p))" "counted (snd (reserve_kv_capacity s n p))"
    "counted (snd (release_kv_reservation s p))" "counted (snd (publish_slot_blocks s n ks bs partial p))"
    "counted (snd (restore_prefix_from_arena s n ks p))" "counted (snd (restore_prefix_from_cached_bundles s n ids p))"
    "counted (snd (register_mtp_kv n m p))"
  using assms countedD(1) [OF assms]
  by (auto simp: copy_prefix_kv_def copy_prefix_to_scratch_def pool_reset_slot_def rewind_slot_def reserve_kv_capacity_def
      release_kv_reservation_def publish_slot_blocks_def restore_prefix_from_arena_def restore_prefix_from_cached_bundles_def
      restore_cached_page_prefix_def register_mtp_kv_def live_slot_def prefix_length_ok_def with_row_def fixed_scratch_check_def
      Let_def split: option.splits)

lemma keeps_share:
  "keeps (counted :: ('b, 'm) slot_pool \<Rightarrow> bool) (share_prefix_kv s t n)"
  "keeps (counted :: ('b, 'm) slot_pool \<Rightarrow> bool) (share_scratch_prefix t n ps)"
proof -
  have "counted (snd (share_prefix_kv s t n p))" "counted (snd (share_scratch_prefix t n ps p))"
    if "counted p" for p :: "('b, 'm) slot_pool"
    using that countedD(1) [OF that] keeps_snd [OF keeps_set_row that]
    by (simp_all add: share_prefix_kv_def share_scratch_prefix_def live_slot_def prefix_length_ok_def fixed_scratch_check_def Let_def)
  then show "keeps (counted :: ('b, 'm) slot_pool \<Rightarrow> bool) (share_prefix_kv s t n)"
    "keeps (counted :: ('b, 'm) slot_pool \<Rightarrow> bool) (share_scratch_prefix t n ps)"
    by (blast intro: keepsI)+
qed

lemma keeps_batch: "keeps (counted :: ('b, 'm) slot_pool \<Rightarrow> bool) (build_decode_batch ss ts)"
proof (rule keepsI)
  fix p :: "('b, 'm) slot_pool" assume c: "counted p"
  obtain r q where q: "decode_loop (zip ss ts) [] [] p = (r, q)" by (cases "decode_loop (zip ss ts) [] [] p")
  then have cq: "counted q" using keeps_snd [OF keeps_decode c, of "zip ss ts" "[]" "[]"] by simp
  have "snd (build_decode_batch ss ts p) = p \<or> snd (build_decode_batch ss ts p) = q"
    by (cases r) (auto simp: build_decode_batch_def Let_def q andThen_def split: prod.splits sum.splits)
  then show "counted (snd (build_decode_batch ss ts p))" using c cq by auto
qed

lemma keeps_prefill: "keeps (counted :: ('b, 'm) slot_pool \<Rightarrow> bool) (build_prefill_batch gdn ss tss)"
proof (rule keepsI)
  fix p :: "('b, 'm) slot_pool" assume c: "counted p"
  define past q where "past = hd (map (\<lambda>s. slot_kv_len p ! nat s) ss)" and "q = int (length (hd tss))"
  obtain r p' where run: "for_each (\<lambda>s. prepare_kv_writes s past q) ss p = (r, p')" by fastforce
  have loop: "keeps (counted :: ('b, 'm) slot_pool \<Rightarrow> bool) (for_each (\<lambda>s. prepare_kv_writes s past q) ss)"
    by (rule keeps_for_each) (rule keeps_prepare)
  have "counted p'" using keeps_snd [OF loop c] run by simp
  then show "counted (snd (build_prefill_batch gdn ss tss p))"
    using prefill_outcome [OF run past_def q_def, of gdn] c by auto
qed

lemma keeps_commit: "keeps (counted :: ('b, 'm) slot_pool \<Rightarrow> bool) (commit_prefill_batch ss tss)"
proof -
  have "keeps (counted :: ('b, 'm) slot_pool \<Rightarrow> bool) (commit_prefill_slot slot ts)" for slot ts
    by (rule keepsI) (simp add: commit_prefill_slot_def with_row_def Let_def split: option.split)
  then show ?thesis
    unfolding commit_prefill_batch_def by (auto intro!: sound_guard keeps_for_each simp: split_beta)
qed

lemma gpu_counted: "counted p \<Longrightarrow> counted (gpu_writes f m p)"
  by (simp add: counted_def gpu_writes_def num_rows_def row_fits_def rows_with_def)

lemma keeps_slot_calls: "keeps (counted :: ('b, 'm) slot_pool \<Rightarrow> bool) (call_slots c)"
proof (rule keepsI)
  fix p :: "('b, 'm) slot_pool" assume "counted p"
  then show "counted (snd (call_slots c p))"
    using counted_fixed_calls [of p] keeps_snd [OF keeps_prepare] keeps_snd [OF keeps_detach]
      keeps_snd [OF keeps_share(1)] keeps_snd [OF keeps_share(2)] keeps_snd [OF keeps_batch]
      keeps_snd [OF keeps_prefill] keeps_snd [OF keeps_commit]
    by (cases c) (simp_all add: snd_andThen_ret gpu_counted)
qed

lemma settled_alone:
  assumes "counted p" and "i < nat (num_rows p)" and "settled p q b"
    and "b \<in> set (page_table_host p ! i) \<or> b \<in> free_physical_pages p"
  shows "rows_with p b \<subseteq> {i}"
proof (cases "b \<in> free_physical_pages p")
  case True
  then show ?thesis using countedD(9) [OF assms(1)] by blast
next
  case False
  then have b: "page_refcounts p ! nat b \<le> 1" "b \<in> set (page_table_host p ! i)"
    using assms(3,4) by (auto simp: settled_def)
  then have "0 \<le> b" "b < pool_bundles p" using countedD(7) [OF assms(1,2)] by (auto simp: row_fits_def)
  then have "card (rows_with p b) \<le> 1" using b(1) countedD(8) [OF assms(1)] by simp
  moreover have "i \<in> rows_with p b" using b(2) assms(2) countedD(3) [OF assms(1)] by (simp add: rows_with_iff)
  ultimately show ?thesis by (metis card_le_Suc0_iff_eq One_nat_def finite_rows_with singletonI subsetI)
qed

lemma fixed_prepare:
  assumes "counted p" and "0 \<le> slot" and "prepare_kv_writes slot start len p = (Inr u, p')"
  shows "counted p'" and "num_rows p' = num_rows p"
    and "j < nat (num_rows p) \<Longrightarrow> length (page_table_host p' ! j) = length (page_table_host p ! j)"
    and "j < nat (num_rows p) \<Longrightarrow> k < length (page_table_host p ! j) \<Longrightarrow> read_page p' j k = read_page p j k"
    and "touched start len k \<Longrightarrow> rows_with p' (page_table_host p' ! nat slot ! k) = {nat slot}"
proof -
  show c': "counted p'" using keeps_snd [OF keeps_prepare assms(1), of slot start len] assms(3) by simp
  have all: "num_rows p' = num_rows p \<and>
    (\<forall>j < nat (num_rows p). \<forall>k < length (page_table_host p ! j). read_page p' j k = read_page p j k) \<and>
    (\<forall>k. touched start len k \<longrightarrow> rows_with p' (page_table_host p' ! nat slot ! k) = {nat slot}) \<and>
    (\<forall>j < nat (num_rows p). length (page_table_host p' ! j) = length (page_table_host p ! j))"
  proof (cases "len = 0")
    case True
    then show ?thesis using assms(3) by (auto simp: prepare_kv_writes_def touched_def split: if_splits)
  next
    case False
    define i where "i = nat slot"
    define row where "row = page_table_host p ! i"
    define lps where "lps = [start div page_size..(start + len - 1) div page_size]"
    have args: "0 \<le> start" "0 \<le> len" "start + len \<le> max_seq_len p" "slot < num_rows p"
      using assms(2,3) False by (auto simp: prepare_kv_writes_def with_row_def py_index_row split: if_splits)
    have i: "i < nat (num_rows p)" using args(4) assms(2) by (simp add: i_def)
    have lps: "\<forall>lp \<in> set lps. 0 \<le> lp" using args(1) by (auto simp: lps_def page_size_def)
    obtain r q where q: "remap_loop (visit_fixed ''KV copy-on-write exhausted the fixed page pool'' (\<lambda>_. True)) lps row [] p = (r, q)"
      by fastforce
    have run: "andThen (\<lambda>s. (r, q)) (\<lambda>x. andThen (finish_remap slot x) (\<lambda>_. ret ())) p = (Inr u, p')"
      using assms(2,3) False args countedD(1) [OF assms(1)] q
      by (simp add: prepare_kv_writes_def with_row_def py_index_row andThen_def i_def row_def lps_def)
    then obtain row' reps where r: "r = Inr (row', reps)" by (cases r) (auto simp: andThen_def)
    note loop = fixed_loop [OF assms(1) i taking_start [OF assms(1) i, folded row_def] lps q, unfolded r]
    then have tk: "taking i p row' reps q" and st: "\<forall>k < length row. int k \<in> set lps \<longrightarrow> settled p q (row' ! k)" by simp_all
    obtain r2 q2 where f: "finish_remap slot (row', reps) q = (r2, q2)" by fastforce
    have "p' = q2" using run f r by (auto simp: andThen_def split: sum.splits)
    then have fin: "page_table_host p' = (page_table_host p)[i := row']" "num_rows p' = num_rows p" "mtp_cow_family p' = None"
      "\<And>b. backbone_kv p' b = backbone_kv p (moved_from reps b)"
      using fixed_finish [OF assms(1) i tk f] assms(2) by (simp_all add: i_def)
    have len: "length row' = length row" using tk by (simp add: taking_def row_def)
    have il: "i < length (page_table_host p)" using i countedD(3) [OF assms(1)] by simp
    have reads: "read_page p' j k = read_page p j k" if "j < nat (num_rows p)" "k < length (page_table_host p ! j)" for j k
    proof -
      have "moved_from reps (page_table_host p' ! j ! k) = page_table_host p ! j ! k"
      proof (cases "j = i")
        case True
        then show ?thesis using tk that(2) il len by (simp add: fin(1) taking_def row_def)
      next
        case False
        have "page_table_host p ! j ! k \<notin> free_physical_pages p"
          using free_unmapped [OF assms(1) _ that(1)] nth_mem [OF that(2)] by blast
        then show ?thesis using tk False by (simp add: fin(1) taking_def)
      qed
      then show ?thesis using fin(3,4) countedD(6) [OF assms(1)] by (simp add: read_page_def Let_def)
    qed
    have "rows_with p' (page_table_host p' ! i ! k) = {i}" if t: "touched start len k" for k
    proof -
      have k: "k < length row" using touched_in_row [OF t args(3) [unfolded max_seq_len_def]] countedD(7) [OF assms(1) i] by (simp add: row_fits_def row_def)
      have "settled p q (row' ! k)" using st k t by (simp add: lps_def touched_def)
      moreover have "row' ! k \<in> set row \<or> row' ! k \<in> free_physical_pages p" using tk k len by (auto simp: taking_def row_def)
      ultimately have "rows_with p (row' ! k) \<subseteq> {i}" using settled_alone [OF assms(1) i] by (simp add: row_def)
      then show ?thesis using il k len by (auto simp: rows_with_iff fin(1) nth_list_update split: if_splits)
    qed
    moreover have "length (page_table_host p' ! j) = length (page_table_host p ! j)" for j
      using len il by (cases "j = i") (simp_all add: fin(1) row_def)
    ultimately show ?thesis using fin(2) reads by (simp add: i_def)
  qed
  show "num_rows p' = num_rows p" "j < nat (num_rows p) \<Longrightarrow> length (page_table_host p' ! j) = length (page_table_host p ! j)"
    "j < nat (num_rows p) \<Longrightarrow> k < length (page_table_host p ! j) \<Longrightarrow> read_page p' j k = read_page p j k"
    "touched start len k \<Longrightarrow> rows_with p' (page_table_host p' ! nat slot ! k) = {nat slot}"
    using all by blast+
qed

section \<open>The properties\<close>

lemma div_less_pages:
  assumes "0 < (w :: int)"
  shows "b div w < c \<longleftrightarrow> b < c * w"
proof
  assume "b div w < c"
  then have "(b div w + 1) * w \<le> c * w" using assms by (intro mult_right_mono) auto
  then show "b < c * w"
    using pos_mod_bound [OF assms, of b] div_mult_mod_eq [of b w] unfolding distrib_right by linarith
next
  assume b: "b < c * w"
  show "b div w < c"
  proof (rule ccontr)
    assume "\<not> b div w < c"
    then have "c * w \<le> (b div w) * w" using assms by (intro mult_right_mono) auto
    then show False using b pos_mod_sign [OF assms, of b] div_mult_mod_eq [of b w] by linarith
  qed
qed

lemma counted_init:
  assumes "slot_pool_init slots max_len False bundles wm zero = Inr p" and "0 < max_len"
  shows "counted p"
proof -
  define w where "w = pages_for max_len"
  define table where "table = map (\<lambda>slot. map (\<lambda>page. slot * w + page) [0..w - 1]) [0..slots]"
  have s: "1 \<le> slots" "p = slot_pool_of slots w False ((slots + 1) * w) no_arena table zero"
    using assms(1) by (auto simp: slot_pool_init_def w_def table_def Let_def split: if_splits)
  have w: "0 < w" using assms(2) by (auto simp: w_def pages_for_def page_size_def)
  have table: "length table = nat (slots + 1)" "table ! j = map (\<lambda>page. int j * w + page) [0..w - 1]" if "j < nat (slots + 1)" for j
    using that by (simp_all add: table_def)
  have len: "length table = nat (slots + 1)" by (simp add: table_def)
  have mem: "b \<in> set (table ! j) \<longleftrightarrow> b div w = int j" if "j < nat (slots + 1)" for j b
  proof -
    have "b \<in> set (table ! j) \<longleftrightarrow> int j * w \<le> b \<and> b < int j * w + w" using table(2) [OF that] by auto
    also have "\<dots> \<longleftrightarrow> b div w = int j"
      using w by (auto simp: div_pos_pos_trivial int_div_pos_eq [of b w "int j" "b - int j * w"])
        (metis mult.commute div_mult_mod_eq le_add_same_cancel1 pos_mod_sign,
         metis mult.commute add_left_cancel div_mult_mod_eq add_strict_left_mono pos_mod_bound)
    finally show ?thesis .
  qed
  have rows: "rows_with p b = {nat (b div w)}" if "0 \<le> b" "b < (slots + 1) * w" for b
  proof -
    have "0 \<le> b div w" using that(1) w by (simp add: pos_imp_zdiv_nonneg_iff)
    moreover have "b div w < slots + 1" using that(2) div_less_pages [OF w] by blast
    ultimately show ?thesis using mem len by (auto simp: rows_with_def holders_def s(2) slot_pool_of_def Let_def)
  qed
  have "row_fits p r" if r: "r \<in> set table" for r
  proof -
    obtain j where j: "j < nat (slots + 1)" "r = table ! j" using r len by (auto simp: in_set_conv_nth)
    have "distinct r" "int (length r) = w" using table(2) [OF j(1)] w j(2) by (simp_all add: distinct_map inj_on_def)
    moreover have "0 \<le> b \<and> b < (slots + 1) * w" if "b \<in> set r" for b
    proof -
      have d: "b div w = int j" using mem [OF j(1)] that j(2) by simp
      moreover have "int j < slots + 1" using j(1) by linarith
      ultimately show ?thesis using w by (metis of_nat_0_le_iff pos_imp_zdiv_nonneg_iff div_less_pages)
    qed
    ultimately show ?thesis by (auto simp: row_fits_def s(2) slot_pool_of_def Let_def)
  qed
  then show ?thesis
    using rows s(1) len w by (simp add: counted_def s(2) slot_pool_of_def Let_def num_rows_def)
qed

text \<open>
  C13: the counts of the fixed-row mode.  After any calls at all, whichever of them raised, the count
  of every page is the number of rows that map it, a displaced page waiting for reuse is in no row,
  every row has the pool's width, no repeated page and only pages of the pool, and the device's
  table is the host's.
\<close>

theorem fixed_rows_are_counted:
  fixes cs :: "('b, 'm) slot_call list" and p0 :: "('b, 'm) slot_pool"
  assumes "slot_pool_init slots max_len False bundles wm zero = Inr p0" and "0 < max_len"
  defines "p \<equiv> snd (run_calls call_slots cs p0)"
  shows "(\<forall>b. 0 \<le> b \<and> b < pool_bundles p \<longrightarrow>
      page_refcounts p ! nat b = int (card {j. j < nat (num_rows p) \<and> b \<in> set (page_table_host p ! j)})) \<and>
    (\<forall>b \<in> free_physical_pages p. \<forall>j < nat (num_rows p). b \<notin> set (page_table_host p ! j)) \<and>
    (\<forall>j < nat (num_rows p). int (length (page_table_host p ! j)) = pages_per_slot p \<and>
      distinct (page_table_host p ! j) \<and> set (page_table_host p ! j) \<subseteq> {0..<pool_bundles p}) \<and>
    global_page_table p = page_table_host p"
proof -
  have c: "counted p" unfolding p_def by (rule keeps_calls [OF keeps_slot_calls counted_init [OF assms(1,2)]])
  have "{j. j < nat (num_rows p) \<and> b \<in> set (page_table_host p ! j)} = rows_with p b" for b
    using rows_with_iff [of _ p b] countedD(3) [OF c] by auto
  then show ?thesis
    using countedD(4,7,8) [OF c] free_unmapped [OF c] by (simp add: row_fits_def)
qed

text \<open>The GPU gives the pages bytes of their own; slot 1 maps slot 0's page, which displaces its own, and takes it back for its first write.\<close>

definition fixed_script :: "(int, int) slot_call list" where
  "fixed_script = [SForward (\<lambda>b. 1000 + b) (\<lambda>b. 2000 + b), SShare 0 1 100]"

definition demo_fixed :: "(int, int) slot_pool" where
  "demo_fixed = (case slot_pool_init 2 128 False None 0 0 of Inr p \<Rightarrow> p)"

lemma demo_fixed_init: "slot_pool_init 2 128 False None 0 0 = Inr demo_fixed"
  by (simp add: demo_fixed_def slot_pool_init_def Let_def)

lemma demo_fixed_run:
  "let p = snd (run_calls call_slots fixed_script demo_fixed); out = prepare_kv_writes 1 100 20 p in
     page_table_host p = [[0], [0], [2]] \<and> page_refcounts p = [2, 0, 1] \<and> free_physical_pages p = {1} \<and>
     num_rows p = 3 \<and> pool_bundles p = 3 \<and> fst out = Inr () \<and> page_table_host (snd out) = [[0], [1], [2]] \<and>
     read_page p 0 0 = (1000, None) \<and> read_page p 1 0 = (1000, None) \<and> backbone_kv p 1 = 1001"
  by code_simp

theorem fixed_rows_are_counted_witness:
  "let p = snd (run_calls call_slots fixed_script demo_fixed) in
     card {j. j < 3 \<and> 0 \<in> set (page_table_host p ! j)} = 2 \<and> 1 \<notin> set (page_table_host p ! 1)"
proof -
  define p where "p = snd (run_calls call_slots fixed_script demo_fixed)"
  have e: "page_refcounts p = [2, 0, 1]" "free_physical_pages p = {1}" "num_rows p = 3" "pool_bundles p = 3"
    using demo_fixed_run by (simp_all add: Let_def p_def)
  have all: "(\<forall>b. 0 \<le> b \<and> b < pool_bundles p \<longrightarrow>
      page_refcounts p ! nat b = int (card {j. j < nat (num_rows p) \<and> b \<in> set (page_table_host p ! j)})) \<and>
    (\<forall>b \<in> free_physical_pages p. \<forall>j < nat (num_rows p). b \<notin> set (page_table_host p ! j))"
    using fixed_rows_are_counted [OF demo_fixed_init, where cs = "fixed_script"] unfolding p_def [symmetric] by simp
  have "int (card {j. j < 3 \<and> 0 \<in> set (page_table_host p ! j)}) = 2"
    using all [THEN conjunct1, rule_format, of 0] e by simp
  moreover have "1 \<notin> set (page_table_host p ! 1)"
    using all [THEN conjunct2, rule_format, of 1 1] e by simp
  ultimately show ?thesis unfolding Let_def p_def [symmetric] by simp
qed

text \<open>
  C14: writes stay private in the fixed-row mode too.  After any calls, when
  \<^verbatim>\<open>prepare_kv_writes(slot, start, len)\<close> returns normally, every page of the write is mapped by this row
  only, every page of every row reads as before, and whatever the GPU then writes to the pages of
  the write, all other rows read as before.  The pages may hold any bytes: the calls may be
  interleaved with GPU writes of any bytes.
\<close>

theorem fixed_writes_are_private:
  fixes cs :: "('b, 'm) slot_call list" and p0 :: "('b, 'm) slot_pool"
  assumes "slot_pool_init slots max_len False bundles wm zero = Inr p0" and "0 < max_len"
  defines "p \<equiv> snd (run_calls call_slots cs p0)"
  assumes "0 \<le> slot" and "prepare_kv_writes slot start len p = (Inr (), p')"
  defines "written \<equiv> {page_table_host p' ! nat slot ! k | k. touched start len k}"
  shows "(\<forall>b \<in> written. page_refcounts p' ! nat b = 1 \<and>
      (\<forall>j < nat (num_rows p'). j \<noteq> nat slot \<longrightarrow> b \<notin> set (page_table_host p' ! j))) \<and>
    (\<forall>j < nat (num_rows p). \<forall>k < length (page_table_host p ! j). read_page p' j k = read_page p j k) \<and>
    (\<forall>f m. (\<forall>b. b \<notin> written \<longrightarrow> f b = backbone_kv p' b) \<longrightarrow>
      (\<forall>j < nat (num_rows p). j \<noteq> nat slot \<longrightarrow> (\<forall>k < length (page_table_host p ! j).
        read_page (gpu_writes f m p') j k = read_page p j k)))"
proof -
  have c: "counted p" unfolding p_def by (rule keeps_calls [OF keeps_slot_calls counted_init [OF assms(1,2)]])
  note run = fixed_prepare [OF c assms(4,5)]
  have alone: "rows_with p' b = {nat slot}" if "b \<in> written" for b using that run(5) by (auto simp: written_def)
  have one: "page_refcounts p' ! nat b = 1 \<and> (\<forall>j < nat (num_rows p'). j \<noteq> nat slot \<longrightarrow> b \<notin> set (page_table_host p' ! j))"
    if "b \<in> written" for b
  proof -
    have own: "b \<in> set (page_table_host p' ! nat slot) \<and> nat slot < nat (num_rows p')"
      using alone [OF that] rows_with_iff [of "nat slot" p' b] countedD(3) [OF run(1)] by auto
    then have "0 \<le> b \<and> b < pool_bundles p'" using countedD(7) [OF run(1), of "nat slot"] by (auto simp: row_fits_def)
    then show ?thesis
      using countedD(8) [OF run(1), of b] alone [OF that] rows_with_iff [of _ p' b] countedD(3) [OF run(1)] by auto
  qed
  moreover have "read_page (gpu_writes f m p') j k = read_page p j k"
    if "\<forall>b. b \<notin> written \<longrightarrow> f b = backbone_kv p' b" "j < nat (num_rows p)" "j \<noteq> nat slot" "k < length (page_table_host p ! j)" for f m j k
  proof -
    have "page_table_host p' ! j ! k \<notin> written"
      using one that(2-4) run(2,3) nth_mem [of k "page_table_host p' ! j"] by metis
    then show ?thesis
      using run(4) [OF that(2,4)] that(1) countedD(6) [OF run(1)] by (simp add: read_page_def gpu_writes_def Let_def)
  qed
  ultimately show ?thesis using run(4) by blast
qed

theorem fixed_writes_are_private_witness:
  "let p = snd (run_calls call_slots fixed_script demo_fixed); p' = snd (prepare_kv_writes 1 100 20 p) in
     page_table_host p' ! 1 = [1] \<and> backbone_kv p 1 = 1001 \<and> read_page p' 1 0 = (1000, None) \<and>
     read_page (gpu_writes ((backbone_kv p')(1 := 77)) (\<lambda>_. 0) p') 0 0 = (1000, None)"
proof -
  define p where "p = snd (run_calls call_slots fixed_script demo_fixed)"
  define p' where "p' = snd (prepare_kv_writes 1 100 20 p)"
  have e: "page_table_host p = [[0], [0], [2]]" "num_rows p = 3" "page_table_host p' = [[0], [1], [2]]"
    "read_page p 0 0 = (1000, None)" "read_page p 1 0 = (1000, None)" "backbone_kv p 1 = 1001"
    and run: "prepare_kv_writes 1 100 20 p = (Inr (), p')"
    using demo_fixed_run by (simp_all add: Let_def p_def p'_def prod_eq_iff)
  have t: "touched 100 20 k = (k = 0)" for k by (auto simp: touched_def page_size_def)
  have w: "{page_table_host p' ! nat 1 ! k | k. touched 100 20 k} = {1}" using e(3) by (auto simp: t)
  note C = fixed_writes_are_private [OF demo_fixed_init, where cs = "fixed_script" and slot = 1 and start = 100 and len = 20
    and p' = p', folded p_def, unfolded w]
  have "(\<forall>j < nat (num_rows p). \<forall>k < length (page_table_host p ! j). read_page p' j k = read_page p j k) \<and>
    (\<forall>f m. (\<forall>b. b \<noteq> 1 \<longrightarrow> f b = backbone_kv p' b) \<longrightarrow>
      (\<forall>j < nat (num_rows p). j \<noteq> 1 \<longrightarrow> (\<forall>k < length (page_table_host p ! j).
        read_page (gpu_writes f m p') j k = read_page p j k)))"
    using C run by simp
  then have "read_page p' 1 0 = (1000, None)"
    "read_page (gpu_writes ((backbone_kv p')(1 := 77)) (\<lambda>_. 0) p') 0 0 = (1000, None)"
    using e by simp_all
  then show ?thesis unfolding Let_def p_def [symmetric] p'_def [symmetric] using e by simp
qed

end
