(* ===== verification/Slot_Reserve.thy ===== *)
theory Slot_Reserve
  imports Slot_Isolation
begin

text \<open>
  What a reservation is worth: \<^verbatim>\<open>reserve_kv_capacity\<close> promises pages to a slot before it needs them.
  The reservations of all owners stay covered by free pages through every call of the slot pool,
  among them the prefix hits that revive cached pages, so that a later write of the slot cannot fail.
\<close>

section \<open>Calls that keep the reservations covered\<close>

lemma fundedD: "funded a \<Longrightarrow> sane a" "funded a \<Longrightarrow> covered a"
  by (simp_all add: funded_def)

lemma funded_careful: "funded a \<Longrightarrow> careful a c \<Longrightarrow> funded (snd (call_arena c a))"
  using sane_call covered_call by (simp add: funded_def)

lemma keeps_funded:
  "keeps funded (kv_allocate n owner)" "keeps funded (decref ids owner)" "keeps funded (ensure_writable b owner)"
  "keeps funded (cache_full_blocks ks ids)" "keeps funded (reserve n owner)" "keeps funded (release_reservation owner)"
  "keeps funded (consume_reservation n owner)" "keeps funded drain_pending_cow"
proof -
  have f: "keeps funded m" if "\<And>a. funded a \<Longrightarrow> careful a c \<and> snd (m a) = snd (call_arena c a)" for m :: "(arena, 'a) prog" and c
  proof (rule keepsI)
    fix a assume "funded a"
    then show "funded (snd (m a))" using that [of a] funded_careful [of a c] by simp
  qed
  show "keeps funded (kv_allocate n owner)" by (rule f [of "AAllocate n owner"]) (simp add: snd_andThen_ret)
  show "keeps funded (decref ids owner)" by (rule f [of "ADecref ids owner"]) simp
  show "keeps funded (ensure_writable b owner)" by (rule f [of "AWritable b owner"]) (simp add: snd_andThen_ret)
  show "keeps funded (cache_full_blocks ks ids)" by (rule f [of "APublish ks ids"]) simp
  show "keeps funded (reserve n owner)" by (rule f [of "AReserve n owner"]) (simp add: snd_andThen_ret)
  show "keeps funded (release_reservation owner)" by (rule f [of "ARelease owner"]) (simp add: snd_andThen_ret)
  show "keeps funded (consume_reservation n owner)" by (rule f [of "AConsume n owner"]) simp
  show "keeps funded drain_pending_cow" by (rule f [of ADrain]) (simp add: snd_andThen_ret)
qed

text \<open>Taking references to live pages takes no free page.\<close>

lemma incref_live:
  assumes "funded a" and "\<forall>b \<in> set ids. usable a b \<longrightarrow> 0 < b_ref a b"
  shows "funded (snd (incref ids owner a))"
proof -
  have s: "sane (snd (incref ids owner a))" using sane_call [OF fundedD(1) [OF assms(1)], of "AIncref ids owner"] by simp
  have wf: "arena_wf a" using fundedD(1) [OF assms(1)] by (simp add: sane_def)
  obtain c where c: "for_each (check_id ''INV7: cannot reference reserved bundle'') ids a = (c, a)"
    using check_ids_snd [of _ ids a] by (metis prod.collapse)
  have usable: "c = Inr () \<Longrightarrow> \<forall>b \<in> set ids. usable a b"
  proof -
    have "fst (for_each (check_id msg) ids a) = Inr () \<Longrightarrow> \<forall>b \<in> set ids. usable a b" for msg
      by (induction ids) (auto simp: andThen_def check_id_run split: if_splits)
    from this [of "''INV7: cannot reference reserved bundle''"] show "c = Inr () \<Longrightarrow> \<forall>b \<in> set ids. usable a b" by (simp add: c)
  qed
  obtain r a1 where each: "for_each incref_one ids a = (r, a1)" by (cases "for_each incref_one ids a")
  note f = incref_all_free [OF wf each]
  have "snd (incref ids owner a) = a \<or> c = Inr () \<and> snd (incref ids owner a) = a1"
    using c each
    by (cases c; cases r) (auto simp: incref_def andThen_def maybe_invariant_check_def split: sum.splits)
  moreover have "covered a1" if "c = Inr ()"
  proof -
    have "filter (\<lambda>b. b_ref a b = 0) ids = []" using usable [OF that] assms(2) by (auto simp: filter_empty_conv)
    then have "revivals a ids = 0" by (simp add: revivals_def)
    then show ?thesis using f covered_mono [OF fundedD(2) [OF assms(1)], of a1] by simp
  qed
  ultimately show ?thesis using s fundedD(2) [OF assms(1)] by (auto simp: funded_def)
qed

text \<open>The free pages are the usable ones without a reference.\<close>

lemma free_card: "sane a \<Longrightarrow> num_free_bundles a = int (card {b. usable a b \<and> b_ref a b = 0})"
proof -
  assume "sane a"
  then obtain xs where xs: "arena_at a xs" by (rule saneE)
  have "{b. usable a b \<and> b_ref a b = 0} = set xs" using arena_atD(5) [OF xs] by auto
  then show ?thesis using arena_atD(6,7) [OF xs] by (simp add: distinct_card)
qed

lemma free_fewer:
  assumes "sane a" and "sane a'" and "same_size a a'" and "finite X"
    and "\<And>b. b \<notin> X \<Longrightarrow> b_ref a b = 0 \<Longrightarrow> b_ref a' b = 0"
  shows "num_free_bundles a - int (card X) \<le> num_free_bundles a'"
proof -
  have "{b. usable a b \<and> b_ref a b = 0} - X \<subseteq> {b. usable a' b \<and> b_ref a' b = 0}"
    using assms(3,5) usable_same_size by auto
  moreover have "finite {b. usable a' b \<and> b_ref a' b = 0}"
    by (rule finite_subset [of _ "{a_reserved a'..num_bundles a'}"]) (auto simp: usable_def)
  ultimately have "card ({b. usable a b \<and> b_ref a b = 0} - X) \<le> card {b. usable a' b \<and> b_ref a' b = 0}"
    by (rule card_mono [rotated])
  moreover have "card {b. usable a b \<and> b_ref a b = 0} - card X \<le> card ({b. usable a b \<and> b_ref a b = 0} - X)"
    by (rule diff_card_le_card_Diff [OF assms(4)])
  ultimately show ?thesis using free_card [OF assms(1)] free_card [OF assms(2)] by linarith
qed

text \<open>A reservation is worth a page.\<close>

lemma reserved_page:
  assumes "funded a" and "1 \<le> reserved_for a owner" and "owner \<noteq> []"
  obtains t a' where "kv_allocate 1 owner a = (Inr [t], a')" and "handed_out [t] a a'"
    and "reservations a' = reservations (spend owner 1 a)"
proof -
  note sc = fundedD [OF assms(1)]
  obtain xs where w: "arena_at a xs" "res_ok a" using sc(1) by (rule saneE)
  have "reserved_for a owner \<le> dict_sum (reservations a)"
    unfolding reserved_for_def using w(2) by (intro dict_get_le_sum) (simp add: res_ok_def)
  then have c: "1 \<le> int (length xs)" using assms(2) sc(2) arena_atD(7) [OF w(1)] by (simp add: covered_def)
  obtain a' where a': "kv_allocate 1 owner a = (Inr (take (nat 1) xs), a')" "reservations a' = reservations (spend owner 1 a)"
  proof (rule allocate_run [OF sc(1) w(1) assms(3) _ c])
    show "if reserved_for a owner = 0 then 1 \<le> unreserved_free_bundles a else 1 \<le> reserved_for a owner"
      using assms(2) by simp
  qed (simp, rule that)
  obtain t where "take (nat 1) xs = [t]" using c by (cases xs) auto
  then show thesis using that [of t a'] a' allocate_cases [OF sc(1) a'(1)] by auto
qed

section \<open>The calls of the slot pool\<close>

definition backed :: "('b, 'm) slot_pool \<Rightarrow> bool" where
  "backed p \<longleftrightarrow> funded (kv_arena p)"

lemma backed_still: "unmoved kv_arena m \<Longrightarrow> keeps backed m"
  by (rule keepsI) (simp add: unmoved_def backed_def)

lemma backed_on_arena: "keeps funded m \<Longrightarrow> keeps backed (on_arena m)"
  by (rule keepsI) (auto simp: backed_def on_field_def dest: keeps_snd split: prod.split)

lemma backed_update: "(\<And>p. kv_arena (f p) = kv_arena p) \<Longrightarrow> keeps backed (update f)"
  by (rule backed_still) (simp add: unmoved_def)

lemma backed_reading: "(\<And>p. keeps backed (k (f p))) \<Longrightarrow> keeps backed (reading f k)"
  by (simp add: sound_def)

lemma backed_guard: "keeps backed m \<Longrightarrow> keeps backed (guard c e m)"
  by (simp add: guard_def sound_def)

lemma backed_checks:
  "keeps backed m \<Longrightarrow> keeps backed (live_slot slot m)" "keeps backed m \<Longrightarrow> keeps backed (prefix_length_ok n m)"
  "keeps backed m \<Longrightarrow> keeps backed (fixed_scratch_check ids m)" "keeps backed (lift_res r)"
  "(\<And>i. keeps backed (k i)) \<Longrightarrow> keeps backed (with_row slot k)"
  by (simp_all add: live_slot_def prefix_length_ok_def fixed_scratch_check_def with_row_def sound_def split: option.split)

lemma backed_set_row: "keeps backed (set_page_table_row slot row)"
  by (rule backed_still)
    (simp add: unmoved_def set_page_table_row_def andThen_def remap_refcounts_def install_row_def split_def Let_def)

lemma backed_add: "keeps backed (add_bundles i bs)" "keeps backed (discard_bundle i b)"
  by (simp_all add: add_bundles_def discard_bundle_def backed_update)

lemma backed_allocate_one: "keeps backed (allocate_one_page owner)"
  unfolding allocate_one_page_def
  by (rule sound_andThen [OF backed_on_arena [OF keeps_funded(1)]]) (auto intro: sound_ret sound_raise split: list.split)

lemmas backed_rules = sound_ret [where P = backed] sound_raise [where P = backed] sound_andThen [where R = "\<lambda>_. backed"]
  sound_if keeps_for_each [where I = backed] backed_on_arena keeps_funded backed_update backed_reading backed_guard
  backed_checks backed_set_row backed_add backed_allocate_one

lemma backed_visits:
  "keeps backed (visit_write slot i source)" "keeps backed (visit_alias slot i scratch source)"
  "keeps backed (visit_fixed msg f source)"
  unfolding visit_write_def visit_alias_def visit_fixed_def detach_page_def
  by (auto intro!: backed_rules)

lemma backed_remap: "(\<And>source. keeps backed (visit source)) \<Longrightarrow> keeps backed (remap_loop visit lps row reps)"
  by (induction visit lps row reps rule: remap_loop.induct) (auto intro!: backed_rules split: option.split
    simp del: ret_run reading_run guard_run update_run raise_run andThen_reading andThen_guard andThen_update)

lemma backed_finish: "keeps backed (finish_remap slot x)"
  unfolding finish_remap_def
  by (cases x) (auto intro!: backed_rules simp: clone_fixed_pages_def
    simp del: ret_run reading_run guard_run update_run raise_run andThen_reading andThen_guard andThen_update)

lemma backed_prepare: "keeps backed (prepare_kv_writes slot start len)"
  unfolding prepare_kv_writes_def by (auto intro!: backed_rules backed_remap backed_visits backed_finish)

lemma backed_fill: "keeps backed (fill_null_pages target lps)"
  by (induction target lps rule: fill_null_pages.induct) (auto intro!: backed_rules
    simp del: ret_run reading_run guard_run update_run raise_run andThen_reading andThen_guard andThen_update)

lemma backed_decode: "keeps backed (decode_loop zs rows lens)"
  by (induction zs rows lens rule: decode_loop.induct)
    (auto intro!: backed_rules backed_prepare simp: advance_slot_def write_index_def
      simp del: ret_run reading_run guard_run update_run raise_run andThen_reading andThen_guard andThen_update)

text \<open>All calls but those that take references to pages they did not allocate.\<close>

primrec takes_references :: "('b, 'm) slot_call \<Rightarrow> bool" where
  "takes_references (SPrepare s a n) = False"
| "takes_references (SDetach s n ps) = False"
| "takes_references (SCopy s t n) = False"
| "takes_references (SShare s t n) = True"
| "takes_references (SToScratch s n ps) = False"
| "takes_references (SFromScratch t n ps) = True"
| "takes_references (SReset s) = False"
| "takes_references (SRewind s n) = False"
| "takes_references (SReserve s n) = False"
| "takes_references (SRelease s) = False"
| "takes_references (SPublish s n ks bs partial) = False"
| "takes_references (SRestore s n ks) = True"
| "takes_references (SRestoreBundles s n ids) = True"
| "takes_references (SDecode ss ts) = False"
| "takes_references (SRegister n m) = False"
| "takes_references (SPrefill gdn ss tss) = False"
| "takes_references (SCommit ss tss) = False"
| "takes_references (SForward f m) = False"

lemmas backed_simps = ret_run reading_run guard_run update_run raise_run andThen_reading andThen_guard andThen_update

lemma backed_quiet_calls: "\<not> takes_references c \<Longrightarrow> keeps backed (call_slots c)"
proof (cases c)
  case (SPrefill gdn ss tss)
  have "keeps backed (prefill_states past gdn ss seen)" for past seen
    by (rule backed_still) (simp add: unmoved_def prefill_states_state)
  then show ?thesis
    unfolding SPrefill call_slots.simps build_prefill_batch_def Let_def
    by (auto intro!: backed_rules backed_prepare simp del: backed_simps)
qed (auto intro!: backed_rules backed_prepare backed_remap backed_visits backed_finish backed_fill backed_decode
    simp: detach_scratch_aliases_def copy_prefix_kv_def gather_scatter_def copy_prefix_to_scratch_def pool_reset_slot_def
      rewind_slot_def reserve_kv_capacity_def release_kv_reservation_def publish_slot_blocks_def build_decode_batch_def
      register_mtp_kv_def commit_prefill_batch_def commit_prefill_slot_def gpu_writes_def Let_def split_beta
    simp del: backed_simps)

section \<open>Sharing live pages\<close>

lemma row_pages_live:
  assumes "owned_rows S p" and "i < nat (num_rows p)" and "int i \<notin> S" and "b \<in> set (page_table_host p ! i)" and "b \<noteq> 0"
  shows "0 < b_ref (kv_arena p) b"
proof -
  have "accounted p" "row_ok p i" using assms(1-3) by (simp_all add: owned_rows_def)
  moreover from this have "b \<in> slot_bundles p ! i" using assms(4,5) by (auto simp: row_ok_def)
  ultimately show ?thesis using owned_usable(1) assms(2) by blast
qed

lemma backed_andThen: "backed (snd (m p)) \<Longrightarrow> (\<And>x. keeps backed (k x)) \<Longrightarrow> backed (snd (andThen m k p))"
  by (cases "m p"; cases "fst (m p)") (auto simp: andThen_def intro: keeps_snd [where I = backed])

lemma backed_incref:
  assumes "owned_rows S p" and "backed p" and "\<forall>b \<in> set ids. b \<noteq> 0 \<longrightarrow> 0 < b_ref (kv_arena p) b"
    and "\<And>x. keeps backed (k x)"
  shows "backed (snd (andThen (on_arena (incref ids owner)) k p))"
proof (rule backed_andThen [where m = "on_arena (incref ids owner)", OF _ assms(4)])
  have "\<forall>b \<in> set ids. usable (kv_arena p) b \<longrightarrow> 0 < b_ref (kv_arena p) b"
    using assms(1,3) accountedD(3) [of p] by (auto simp: owned_rows_def usable_def)
  then show "backed (snd (on_arena (incref ids owner) p))"
    using incref_live [of "kv_arena p" ids owner] assms(2) by (simp add: backed_def on_field_def split_def)
qed

lemma backed_share:
  assumes "owned_rows S p" and "backed p" and "source \<notin> S"
  shows "backed (snd (share_prefix_kv source slot kv_len p))"
proof (cases "dynamic_arena p \<and> 0 \<le> source \<and> source < num_slots p \<and> 0 \<le> slot \<and> slot < num_slots p \<and> source \<noteq> slot \<and>
    kv_len \<noteq> 0 \<and> 0 < kv_len \<and> kv_len \<le> max_seq_len p")
  case False
  have "dynamic_arena p" using assms(1) accountedD(1) by (auto simp: owned_rows_def)
  then have "snd (share_prefix_kv source slot kv_len p) = p"
    using False by (auto simp: share_prefix_kv_def live_slot_def prefix_length_ok_def)
  then show ?thesis using assms(2) by simp
next
  case True
  define ids where "ids = take (nat (pages_for kv_len)) (page_table_host p ! nat source)"
  have live: "\<forall>b \<in> set ids. b \<noteq> 0 \<longrightarrow> 0 < b_ref (kv_arena p) b"
    using row_pages_live [OF assms(1), of "nat source"] True assms(3) by (auto simp: ids_def num_rows_def dest: in_set_takeD)
  have "share_prefix_kv source slot kv_len p =
    (if 0 \<in> set ids then (Inl (RuntimeError ''source slot has no bundle to share''), p)
     else andThen (on_arena (incref ids (slot_owner slot))) (\<lambda>_.
       andThen (andThen (on_arena (consume_reservation (kv_len div page_size) (slot_owner slot))) (\<lambda>_.
         add_bundles (nat slot) ids)) (\<lambda>_.
       set_page_table_row slot (ids @ drop (length ids) (page_table_host p ! nat slot)))) p)"
    using True by (simp add: share_prefix_kv_def live_slot_def prefix_length_ok_def ids_def [symmetric] andThen_assoc)
  then show ?thesis using assms(2) by (auto intro!: backed_incref [OF assms(1,2) live] backed_rules)
qed

lemma backed_share_scratch:
  assumes "owned_rows S p" and "backed p" and "scratch_row p \<notin> S"
    and "case pages of None \<Rightarrow> True | Some ids \<Rightarrow> set ids \<subseteq> slot_bundles p ! nat (scratch_row p)"
  shows "backed (snd (share_scratch_prefix slot kv_len pages p))"
proof -
  let ?n = "nat (pages_for kv_len)"
  define ids where "ids = (case pages of None \<Rightarrow> take ?n (page_table_host p ! nat (scratch_row p)) | Some ids \<Rightarrow> ids)"
  have acc: "accounted p" using assms(1) by (simp add: owned_rows_def)
  show ?thesis
  proof (cases "0 \<le> slot \<and> slot < num_slots p \<and> 0 < kv_len \<and> kv_len \<le> max_seq_len p \<and>
      int (length ids) = pages_for kv_len \<and> distinct ids")
    case False
    then have "snd (share_scratch_prefix slot kv_len pages p) = p"
      by (auto simp: share_scratch_prefix_def live_slot_def prefix_length_ok_def ids_def Let_def)
    then show ?thesis using assms(2) by simp
  next
    case True
    have s: "nat (scratch_row p) < nat (num_rows p)" "int (nat (scratch_row p)) = scratch_row p"
      using accountedD(5) [OF acc] by (simp_all add: scratch_row_def num_rows_def)
    have "0 < b_ref (kv_arena p) b" if b: "b \<in> set ids" "b \<noteq> 0" for b
    proof (cases pages)
      case None
      then show ?thesis using row_pages_live [OF assms(1) s(1)] s(2) assms(3) b by (auto simp: ids_def dest: in_set_takeD)
    next
      case (Some xs)
      then show ?thesis using owned_usable(1) [OF acc s(1)] assms(4) b by (auto simp: ids_def)
    qed
    then have live: "\<forall>b \<in> set ids. b \<noteq> 0 \<longrightarrow> 0 < b_ref (kv_arena p) b" by blast
    have "share_scratch_prefix slot kv_len pages p = andThen (on_arena (incref ids (slot_owner slot))) (\<lambda>_.
        andThen (add_bundles (nat slot) ids) (\<lambda>_.
        set_page_table_row slot (ids @ drop ?n (page_table_host p ! nat slot)))) p"
      using True accountedD(1) [OF acc]
      by (simp add: share_scratch_prefix_def live_slot_def prefix_length_ok_def ids_def [symmetric] Let_def
          fixed_scratch_check_def andThen_assoc)
    then show ?thesis by (auto intro!: backed_incref [OF assms(1,2) live] backed_rules)
  qed
qed

section \<open>Reviving cached pages\<close>

text \<open>
  A prefix hit takes references to pages nobody holds, which shrinks the free queue before the
  reservation is used up: in between the reservations are not covered.  At the end of the call they
  are, on a hit (the private copy of a partial last page is paid with the page's share of the
  reservation, and the copied page goes back) as well as on a miss.
\<close>

lemma decref_reservations: "reservations (snd (decref ids owner a)) = reservations a"
proof -
  have "unmoved reservations (aq m)" for m :: "(kvq, 'a) prog"
    by (simp add: unmoved_def on_field_def split_def)
  moreover have "unmoved reservations (check_id msg b)" "unmoved reservations maybe_invariant_check" for msg b
    by (simp_all add: unmoved_def check_id_def maybe_invariant_check_def)
  ultimately have "unmoved reservations (decref ids owner)"
    unfolding decref_def decref_one_def by (auto intro!: frame_rules unmoved_guard)
  then show ?thesis by (simp add: unmoved_def)
qed

lemma covered_decref_live:
  assumes "sane a0" and "covered a0" and "sane a" and "same_size a0 a" and "finite X"
    and "\<And>b. b \<notin> X \<Longrightarrow> b_ref a0 b = 0 \<Longrightarrow> b_ref a b = 0"
    and "dict_sum (reservations a) \<le> dict_sum (reservations a0) - int (card X)"
  shows "funded a"
  using free_fewer [OF assms(1,3-6)] assms(2,3,7) by (simp add: funded_def covered_def)

lemma spend_sum:
  assumes "sane a" and "0 < reserved_for a owner" and "0 \<le> n" and "n \<le> reserved_for a owner"
  shows "consume_reservation n owner a = (Inr (), spend owner n a)"
    and "dict_sum (reservations (spend owner n a)) = dict_sum (reservations a) - n"
    and "reserved_for (spend owner n a) owner = reserved_for a owner - n"
proof -
  have r: "res_ok a" using assms(1) by (rule saneE)
  show "consume_reservation n owner a = (Inr (), spend owner n a)"
    using assms(3,4) by (simp add: consume_reservation_def consume_res_run [OF r])
  show "dict_sum (reservations (spend owner n a)) = dict_sum (reservations a) - n"
    "reserved_for (spend owner n a) owner = reserved_for a owner - n"
    using spend_facts [OF r, of n owner] assms(2-4) by simp_all
qed

lemma backed_attempt:
  fixes m :: "(('b, 'm) slot_pool, 'a) prog"
  assumes "keeps backed m" and "keeps backed h" and "\<And>x. keeps backed (k x)"
  shows "keeps backed (attempt m h k)"
proof (rule keepsI)
  fix s :: "('b, 'm) slot_pool" assume s: "backed s"
  obtain r s' where m: "m s = (r, s')" by fastforce
  then have s': "backed s'" using keeps_snd [OF assms(1) s] by simp
  show "backed (snd (attempt m h k s))"
    using s' keeps_snd [OF assms(2) s'] keeps_snd [OF assms(3) s']
    by (simp add: attempt_cases [where m = m, OF m] split: sum.split pyexc.split)
qed

lemma backed_undo: "keeps backed (undo_restore tail sources owner)"
  unfolding undo_restore_def swallow_def
  by (auto intro!: backed_rules backed_attempt split: option.split)

lemma backed_install: "keeps backed (install_prefix slot kv_len sources tail)"
  unfolding install_prefix_def
  by (auto intro!: backed_rules simp: clone_cow_pages_def split: option.split)

lemma restorable_revivable: "restorable a b = revivable a b"
  by (auto simp: restorable_def revivable_def usable_def)

text \<open>The hit on a partial last page, from the allocation of its private copy on.\<close>

lemma backed_partial:
  assumes "owned_rows S p" and "backed p" and "0 \<le> slot" and "nat slot < nat (num_rows p)" and "sources \<noteq> []"
    and "pinned p sources [] a" and "reservations a = reservations (kv_arena p)"
    and "int (length sources) \<le> reserved_for (kv_arena p) (slot_owner slot)"
  defines "full \<equiv> int (length (butlast sources))"
  shows "backed (snd (attempt (allocate_one_page (slot_owner slot)) (undo_restore None sources (slot_owner slot)) (\<lambda>t.
      attempt (on_arena (consume_reservation full (slot_owner slot))) (undo_restore (Some t) sources (slot_owner slot)) (\<lambda>_.
        install_prefix slot kv_len sources (Some t))) (p\<lparr>kv_arena := a\<rparr>)))"
    (is "backed (snd (attempt ?alloc ?undo ?rest ?p))")
proof -
  let ?owner = "slot_owner slot" and ?a0 = "kv_arena p"
  have sane: "sane ?a0" "covered ?a0" using assms(2) by (simp_all add: backed_def funded_def)
  have acc: "accounted p" using assms(1) by (simp add: owned_rows_def)
  have pin: "sane a" "same_size ?a0 a" using assms(6) by (simp_all add: pinned_def)
  have pos: "0 \<le> b_ref ?a0 b" for b using sane_ref(1) [OF sane(1)] .
  have n: "full = int (length sources) - 1" using assms(5) by (simp add: full_def Suc_leI)
  have own: "reserved_for a ?owner = reserved_for ?a0 ?owner" using assms(7) by (simp add: reserved_for_def)
  obtain xs where w: "arena_at a xs" using pin(1) by (rule saneE)
  show ?thesis
  proof (cases "1 \<le> num_free_bundles a")
    case False
    have one: "1 \<le> reserved_for a ?owner" using assms(5,8) own by (cases sources) auto
    have "kv_allocate 1 ?owner a = (Inl (RuntimeError ''bundle pool exhausted''), a)"
      using False by (simp add: kv_allocate_def)
    then have alloc: "?alloc ?p = (Inl (RuntimeError ''bundle pool exhausted''), ?p)"
      by (simp add: allocate_one_page_def andThen_def on_field_def)
    obtain a' where a': "decref sources ?owner a = (Inr (), a')" "sane a'" "same_size ?a0 a'"
      "\<And>b. b_ref a' b = b_ref ?a0 b + of_bool (b \<in> set [])"
      using drop_pins [OF assms(6,1) slot_owner_ne, of sources "[]" slot] by auto
    have "reservations a' = reservations ?a0"
      using decref_reservations [of sources ?owner a] a'(1) assms(7) by simp
    then have "funded a'"
      using covered_decref_live [OF sane a'(2,3), of "{}"] a'(4) by simp
    moreover have "?undo ?p = (Inr miss, p\<lparr>kv_arena := a'\<rparr>)"
      using a'(1) by (simp add: undo_restore_def andThen_def swallow_def attempt_def on_field_def)
    ultimately show ?thesis
      by (simp add: attempt_cases [where m = ?alloc, OF alloc] backed_def)
  next
    case True
    then have c: "1 \<le> int (length xs)" using arena_atD(7) [OF w] by simp
    have fits: "if reserved_for a ?owner = 0 then 1 \<le> unreserved_free_bundles a else 1 \<le> reserved_for a ?owner"
      using assms(5,8) own by (cases sources) auto
    obtain a1 where a1: "kv_allocate 1 ?owner a = (Inr (take (nat 1) xs), a1)" "reservations a1 = reservations (spend ?owner 1 a)"
      by (rule allocate_run [OF pin(1) w slot_owner_ne _ c fits]) (simp, rule that)
    obtain t where t: "take (nat 1) xs = [t]" using c by (cases xs) auto
    then have h: "handed_out [t] a a1" using allocate_cases [OF pin(1) a1(1)] by auto
    have alloc: "?alloc ?p = (Inr t, p\<lparr>kv_arena := a1\<rparr>)"
      using a1(1) t by (simp add: allocate_one_page_def andThen_def on_field_def)
    have pin1: "pinned p sources [t] a1" by (rule pinned_tail [OF assms(1,6) h])
    have pay: "consume_reservation full ?owner a1 = (Inr (), spend ?owner full a1)"
      "dict_sum (reservations (spend ?owner full a1)) = dict_sum (reservations ?a0) - 1 - full"
    proof -
      have "0 < reserved_for a ?owner" "1 \<le> reserved_for a ?owner" using assms(5,8) own by (cases sources; simp)+
      note s1 = spend_sum [OF pin(1) this(1) _ this(2)]
      have r1: "reserved_for a1 ?owner = reserved_for a ?owner - 1" "dict_sum (reservations a1) = dict_sum (reservations ?a0) - 1"
        using s1(2,3) a1(2) assms(7) by (simp_all add: reserved_for_def)
      have f: "0 \<le> full" "full \<le> reserved_for a1 ?owner" using n r1(1) assms(5,8) own by (simp_all add: full_def)
      have sa1: "sane a1" using pin1 by (simp add: pinned_def)
      have "consume_reservation full ?owner a1 = (Inr (), spend ?owner full a1) \<and>
        dict_sum (reservations (spend ?owner full a1)) = dict_sum (reservations a1) - full"
      proof (cases "0 < reserved_for a1 ?owner")
        case True
        then show ?thesis using spend_sum(1,2) [OF sa1 True f] by simp
      next
        case False
        then have "full = 0" using f by simp
        then show ?thesis using sa1 by (auto simp: consume_reservation_def consume_res_run spend_def elim: saneE)
      qed
      then show "consume_reservation full ?owner a1 = (Inr (), spend ?owner full a1)"
        "dict_sum (reservations (spend ?owner full a1)) = dict_sum (reservations ?a0) - 1 - full"
        using r1(2) by simp_all
    qed
    define a2 where "a2 = spend ?owner full a1"
    have "book_step a1 a2" using book_steps(1) [of a1 full ?owner] pay(1) pin1 by (simp add: pinned_def a2_def)
    then have pin2: "pinned p sources [t] a2" by (rule pinned_book [OF pin1])
    have two: "distinct (sources @ [t])" "sane a2" "same_size ?a0 a2"
      "\<And>b. b_ref a2 b = b_ref ?a0 b + of_bool (b \<in> set sources) + of_bool (b = t)"
      using pin2 by (auto simp: pinned_def)
    have last: "last sources \<in> set sources" using assms(5) by simp
    obtain a3 where a3: "decref [last sources] ?owner a2 = (Inr (), a3)" "sane a3" "same_size a2 a3"
      "\<And>b. b_ref a3 b = (if b \<in> set [last sources] then b_ref a2 b - 1 else b_ref a2 b)"
    proof (rule decref_run [OF two(2) _ _ slot_owner_ne, of "[last sources]" slot])
      show "0 < b_ref a2 b" if "b \<in> set [last sources]" for b using two(4) [of b] pos [of b] that last by auto
    qed (simp, rule that)
    have arena: "kv_arena (snd (install_prefix slot kv_len sources (Some t) (p\<lparr>kv_arena := a2\<rparr>))) = a3"
    proof -
      have still: "kv_arena (snd (set_page_table_row slot row q)) = kv_arena q" for row and q :: "('a, 'b) slot_pool"
        by (simp add: set_page_table_row_def andThen_def remap_refcounts_def install_row_def split_def Let_def)
      show ?thesis
        using assms(3,4) a3(1)
        by (simp add: install_prefix_def with_row_def py_index_row [OF assms(3)] num_rows_def andThen_def add_bundles_def
            on_field_def snd_andThen_ret [unfolded andThen_def] still split: prod.split sum.split)
    qed
    have "funded a3"
    proof (rule covered_decref_live [OF sane a3(2) same_size_trans [OF two(3) a3(3)]])
      show "finite (set (butlast sources) \<union> {t})" by simp
      have src: "sources = butlast sources @ [last sources]" using assms(5) by simp
      show "b_ref a3 b = 0" if "b \<notin> set (butlast sources) \<union> {t}" "b_ref ?a0 b = 0" for b
        using a3(4) [of b] two(4) [of b] that last by (subst (asm) (2) src) (auto split: if_splits)
      have d: "distinct sources" "t \<notin> set sources" using two(1) by simp_all
      have "t \<notin> set (butlast sources)" using d(2) by (metis in_set_butlastD)
      then have "card (set (butlast sources) \<union> {t}) = Suc (length (butlast sources))"
        using distinct_card [OF distinct_butlast [OF d(1)]] by simp
      then show "dict_sum (reservations a3) \<le> dict_sum (reservations ?a0) - int (card (set (butlast sources) \<union> {t}))"
        using decref_reservations [of "[last sources]" ?owner a2] a3(1) pay(2) by (simp add: a2_def full_def)
    qed
    moreover have "on_arena (consume_reservation full ?owner) (p\<lparr>kv_arena := a1\<rparr>) = (Inr (), p\<lparr>kv_arena := a2\<rparr>)"
      using pay(1) by (simp add: on_field_def a2_def)
    ultimately show ?thesis
      using arena by (simp add: attempt_cases [where m = ?alloc, OF alloc]
        attempt_cases [where m = "on_arena (consume_reservation full ?owner)"] backed_def)
  qed
qed

lemma backed_restore:
  assumes "owned_rows S p" and "backed p" and "0 \<le> slot" and "nat slot < nat (num_rows p)" and "distinct sources"
  shows "backed (snd (restore_cached_page_prefix slot kv_len sources p))"
proof -
  let ?owner = "slot_owner slot" and ?a = "kv_arena p"
  let ?partial = "kv_len mod page_size \<noteq> 0"
  define full where "full = int (length (if ?partial then butlast sources else sources))"
  have acc: "accounted p" using assms(1) by (simp add: owned_rows_def)
  have sane: "sane ?a" "covered ?a" using assms(2) by (simp_all add: backed_def funded_def)
  have uniq: "first_occurrences sources = sources" using assms(5) by (simp add: first_occurrences_def distinct_remdups_id)
  show ?thesis
  proof (cases "0 < kv_len \<and> kv_len \<le> max_seq_len p \<and> int (length sources) = pages_for kv_len \<and>
      (\<forall>b \<in> set sources. restorable ?a b) \<and> \<not> (reserved_for ?a ?owner \<noteq> 0 \<and> reserved_for ?a ?owner < pages_for kv_len)")
    case False
    then have "restore_cached_page_prefix slot kv_len sources p = (Inr miss, p)"
      by (auto simp: restore_cached_page_prefix_def uniq Let_def)
    then show ?thesis using assms(2) by simp
  next
    case True
    let ?consume = "\<lambda>tail. attempt (on_arena (consume_reservation full ?owner)) (undo_restore tail sources ?owner)
      (\<lambda>_. install_prefix slot kv_len sources tail)"
    let ?rest = "if ?partial then attempt (allocate_one_page ?owner) (undo_restore None sources ?owner) (\<lambda>t. ?consume (Some t))
        else ?consume None"
    have run: "restore_cached_page_prefix slot kv_len sources p = attempt (on_arena (incref sources ?owner)) (ret miss) (\<lambda>_. ?rest) p"
      using True accountedD(1) [OF acc] by (simp add: restore_cached_page_prefix_def full_def uniq Let_def) blast
    have n: "sources \<noteq> []" using True pages_for_bounds(1) [of kv_len] by auto
    have rest: "keeps backed ?rest"
      by (auto intro!: backed_rules backed_attempt backed_undo backed_install)
    obtain r1 a1 where inc: "incref sources ?owner ?a = (r1, a1)" by (cases "incref sources ?owner ?a")
    then have step: "on_arena (incref sources ?owner) p = (r1, p\<lparr>kv_arena := a1\<rparr>)" by (simp add: on_field_def)
    show ?thesis
    proof (cases "reserved_for ?a ?owner = 0")
      case True
      then have "funded a1"
        using funded_careful [of ?a "AIncref sources ?owner"] assms(2) inc by (simp add: backed_def)
      then have a1: "backed (p\<lparr>kv_arena := a1\<rparr>)" by (simp add: backed_def)
      have "backed (snd (?rest (p\<lparr>kv_arena := a1\<rparr>)))" by (rule keeps_snd [OF rest a1])
      then show ?thesis
        unfolding run using a1
        by (cases r1) (simp_all add: attempt_cases [where m = "on_arena (incref sources ?owner)", OF step] split: pyexc.split)
    next
      case False
      then have res: "int (length sources) \<le> reserved_for ?a ?owner" using True by simp
      have "\<forall>b \<in> set sources. revivable ?a b" using True by (simp add: restorable_revivable)
      moreover have "revivals ?a sources \<le> reserved_for ?a ?owner" using revivals_le [of ?a sources] res by linarith
      ultimately obtain a2 where a2: "incref sources ?owner ?a = (Inr (), a2)" "sane a2" "same_admin ?a a2"
        using incref_run [OF sane(1) _ slot_owner_ne, of sources slot] by metis
      then have eq: "r1 = Inr ()" "a2 = a1" using inc by simp_all
      have pin: "pinned p sources [] a1" using pinned_incref [OF acc assms(5)] inc eq by simp
      have same: "reservations a1 = reservations ?a" using a2(3) eq by (simp add: same_admin_def)
      have "backed (snd (?rest (p\<lparr>kv_arena := a1\<rparr>)))"
      proof (cases ?partial)
        case True
        then show ?thesis
          using backed_partial [OF assms(1-4) n pin same res, of kv_len] by (simp add: full_def)
      next
        case False
        have own: "0 < reserved_for a1 ?owner" "full \<le> reserved_for a1 ?owner"
          using res n same False by (cases sources; simp add: reserved_for_def full_def)+
        note pay = spend_sum [OF _ own(1) _ own(2)]
        define a3 where "a3 = spend ?owner full a1"
        have s1: "sane a1" using a2(2) eq by simp
        have con: "consume_reservation full ?owner a1 = (Inr (), a3)" "dict_sum (reservations a3) = dict_sum (reservations ?a) - full"
          using pay(1,2) [OF s1] same by (simp_all add: a3_def full_def)
        have "book_step a1 a3" using book_steps(1) [OF s1, of full ?owner] con(1) by simp
        then have pin3: "pinned p sources [] a3" by (rule pinned_book [OF pin])
        have "funded a3"
        proof (rule covered_decref_live [OF sane, of a3 "set sources"])
          show "dict_sum (reservations a3) \<le> dict_sum (reservations ?a) - int (card (set sources))"
            using con(2) False assms(5) by (simp add: full_def distinct_card)
        qed (use pin3 in \<open>simp_all add: pinned_def\<close>)
        then have "backed (p\<lparr>kv_arena := a3\<rparr>)" by (simp add: backed_def)
        moreover have "on_arena (consume_reservation full ?owner) (p\<lparr>kv_arena := a1\<rparr>) = (Inr (), p\<lparr>kv_arena := a3\<rparr>)"
          using con(1) by (simp add: on_field_def)
        ultimately show ?thesis
          using False keeps_snd [OF backed_install]
          by (simp add: attempt_cases [where m = "on_arena (consume_reservation full ?owner)"])
      qed
      then show ?thesis
        unfolding run by (simp add: attempt_cases [where m = "on_arena (incref sources ?owner)", OF step] eq(1))
    qed
  qed
qed

lemma backed_restores:
  assumes "owned_rows S p" and "backed p"
  shows "(0 \<notin> set (arena_sources p kv_len keys) \<longrightarrow> distinct (arena_sources p kv_len keys)) \<Longrightarrow>
      backed (snd (restore_prefix_from_arena slot kv_len keys p))"
    and "0 \<le> slot \<Longrightarrow> slot < num_rows p \<Longrightarrow> distinct ids \<Longrightarrow>
      backed (snd (restore_prefix_from_cached_bundles slot kv_len ids p))"
proof -
  assume d: "0 \<notin> set (arena_sources p kv_len keys) \<longrightarrow> distinct (arena_sources p kv_len keys)"
  show "backed (snd (restore_prefix_from_arena slot kv_len keys p))"
  proof (cases "dynamic_arena p \<and> 0 \<le> slot \<and> slot < num_slots p \<and> ph_hit (lookup_longest_prefix keys None (kv_arena p)) \<and>
      ph_bundle_ids (lookup_longest_prefix keys None (kv_arena p)) \<noteq> [] \<and> 0 \<notin> set (arena_sources p kv_len keys)")
    case True
    then have "restore_prefix_from_arena slot kv_len keys p = restore_cached_page_prefix slot kv_len (arena_sources p kv_len keys) p"
      by (simp add: restore_prefix_from_arena_def live_slot_def arena_sources_def Let_def)
    moreover have "nat slot < nat (num_rows p)" using True by (simp add: num_rows_def)
    ultimately show ?thesis using backed_restore [OF assms] True d by simp
  next
    case False
    then have "snd (restore_prefix_from_arena slot kv_len keys p) = p"
      by (auto simp: restore_prefix_from_arena_def live_slot_def arena_sources_def Let_def)
    then show ?thesis using assms(2) by simp
  qed
next
  assume "0 \<le> slot" "slot < num_rows p" "distinct ids"
  then show "backed (snd (restore_prefix_from_cached_bundles slot kv_len ids p))"
    using backed_restore [OF assms, of slot ids kv_len] assms(2) by (simp add: restore_prefix_from_cached_bundles_def)
qed

section \<open>Runs\<close>

text \<open>
  What sharing needs beyond the discipline of \<^verbatim>\<open>orderly\<close>: the source of shared pages is not waiting for
  its reset, named scratch pages are pages the scratch row holds, and a restored slot exists.
\<close>

primrec lends_live :: "int set \<Rightarrow> ('b, 'm) slot_pool \<Rightarrow> ('b, 'm) slot_call \<Rightarrow> bool" where
  "lends_live S p (SPrepare s a n) = True"
| "lends_live S p (SDetach s n ps) = True"
| "lends_live S p (SCopy s t n) = True"
| "lends_live S p (SShare s t n) = (s \<notin> S)"
| "lends_live S p (SToScratch s n ps) = True"
| "lends_live S p (SFromScratch t n ps) = (scratch_row p \<notin> S \<and>
     (case ps of None \<Rightarrow> True | Some ids \<Rightarrow> set ids \<subseteq> slot_bundles p ! nat (scratch_row p)))"
| "lends_live S p (SReset s) = True"
| "lends_live S p (SRewind s n) = True"
| "lends_live S p (SReserve s n) = True"
| "lends_live S p (SRelease s) = True"
| "lends_live S p (SPublish s n ks bs partial) = True"
| "lends_live S p (SRestore s n ks) = True"
| "lends_live S p (SRestoreBundles s n ids) = (s < num_rows p)"
| "lends_live S p (SDecode ss ts) = True"
| "lends_live S p (SRegister n m) = True"
| "lends_live S p (SPrefill gdn ss tss) = True"
| "lends_live S p (SCommit ss tss) = True"
| "lends_live S p (SForward f m) = True"

primrec lending :: "('b, 'm) slot_call list \<Rightarrow> int set \<Rightarrow> ('b, 'm) slot_pool \<Rightarrow> bool" where
  "lending [] S p = True"
| "lending (c # cs) S p = (lends_live S p c \<and> lending cs (suspects_after S c p) (snd (call_slots c p)))"

lemma backed_call:
  assumes "books S p" and "backed p" and "well_called p c" and "lends_live S p c"
  shows "backed (snd (call_slots c p))"
proof (cases "takes_references c")
  case False
  show ?thesis by (rule keeps_snd [OF backed_quiet_calls [OF False] assms(2)])
next
  case True
  have own: "owned_rows S p" using assms(1) by (simp add: books_def)
  show ?thesis
    using True assms(3,4) backed_share [OF own assms(2)] backed_share_scratch [OF own assms(2)] backed_restores [OF own assms(2)]
    by (cases c) (simp_all add: snd_andThen_ret)
qed

lemma backed_run:
  "books S p \<Longrightarrow> backed p \<Longrightarrow> orderly cs S p \<Longrightarrow> lending cs S p \<Longrightarrow> backed (snd (run_calls call_slots cs p))"
proof (induction cs arbitrary: S p)
  case (Cons c cs)
  then show ?case using books_call [of S p c] backed_call [of S p c] by (simp del: run_calls.simps)
qed simp

lemma backed_init:
  assumes "slot_pool_init slots max_len True bundles wm zero = Inr p"
  shows "backed p"
proof -
  obtain n a table where "arena_init n 1 wm True False = Inr a" "p = slot_pool_of slots (pages_for max_len) True n a table zero"
    using assms by (auto simp: slot_pool_init_def bind_Inr Let_def split: if_splits)
  then show ?thesis using arena_init_sane [of n 1 wm True False a] by (simp add: backed_def funded_def slot_pool_of_def Let_def)
qed

section \<open>A reserved write succeeds\<close>

lemma visit_write_served:
  assumes "accounted p" and "i < nat (num_rows p)" and "source \<in> insert 0 (slot_bundles p ! i)" and "backed p"
    and "\<not> private_page p source \<Longrightarrow> 1 \<le> reserved_for (kv_arena p) (slot_owner slot)"
  shows "\<exists>answer p'. visit_write slot i source p = (Inr answer, p') \<and> (answer = None \<longleftrightarrow> private_page p source) \<and>
    reservations (kv_arena p') =
      (if private_page p source then reservations (kv_arena p) else reservations (spend (slot_owner slot) 1 (kv_arena p)))"
proof (cases "private_page p source")
  case True
  then show ?thesis by (simp add: visit_write_def private_page_def)
next
  case False
  let ?a = "kv_arena p" and ?owner = "slot_owner slot"
  obtain t a where al: "kv_allocate 1 ?owner ?a = (Inr [t], a)" "handed_out [t] ?a a" "reservations a = reservations (spend ?owner 1 ?a)"
    using reserved_page [of ?a ?owner] assms(4,5) False by (auto simp: backed_def)
  show ?thesis
  proof (cases "source = 0")
    case True
    then show ?thesis
      using al(1,3) False by (simp add: visit_write_def allocate_one_page_def andThen_def on_field_def add_bundles_def)
  next
    case nonnull: False
    then have own: "source \<in> slot_bundles p ! i" using assms(3) by simp
    note src = owned_usable [OF assms(1,2) own]
    have shared: "b_ref ?a source > 1 \<or> b_hash ?a source \<noteq> None"
      using False nonnull src(1) by (auto simp: private_page_def)
    define a1 where "a1 = a\<lparr>pending_cow := dict_set (pending_cow a) t source\<rparr>"
    have e: "ensure_writable source ?owner ?a = (Inr t, a1)"
      using al(1) shared src accountedD(3,4) [OF assms(1)] by (auto simp: ensure_writable_def andThen_def a1_def)
    have sa: "sane a1" using al(2) wf_pending by (simp add: handed_out_def sane_def a1_def)
    have "0 < b_ref a1 source" using al(2) src(1) by (simp add: handed_out_def a1_def)
    then obtain a2 where a2: "decref [source] ?owner a1 = (Inr (), a2)"
      using decref_run [OF sa, of "[source]" ?owner] by auto
    then have "reservations a2 = reservations (spend ?owner 1 ?a)"
      using decref_reservations [of "[source]" ?owner a1] al(3) by (simp add: a1_def)
    then show ?thesis
      using False nonnull shared e a2
      by (simp add: visit_write_def detach_page_def andThen_def on_field_def discard_bundle_def add_bundles_def)
  qed
qed

text \<open>Replacing one page of the row does not change which of the other pages are private.\<close>

lemma private_unchanged:
  assumes "remapped i p0 seen row reps p" and "i < nat (num_rows p0)" and "k < length row" and "moved i (row ! k) t p p1"
    and "l < length row" and "l \<noteq> k"
  shows "private_page p1 (row ! l) = private_page p (row ! l)"
proof -
  obtain a where a: "p1 = p\<lparr>kv_arena := a, slot_bundles := (slot_bundles p)[i := insert t (slot_bundles p ! i - {row ! k})]\<rparr>"
    "\<And>b. b_ref a b = (if b = t then 1 else if b = row ! k \<and> row ! k \<noteq> 0 then b_ref (kv_arena p) b - 1 else b_ref (kv_arena p) b)"
    "\<And>b. b_hash a b = (if b = t then None else b_hash (kv_arena p) b)"
    using assms(4) by (elim movedE) (rule that)
  have "row ! l \<noteq> t" using remapped_fresh(2) [OF assms(1-4)] assms(5) by auto
  moreover have "row ! k \<noteq> 0 \<Longrightarrow> row ! l \<noteq> row ! k"
    using remappedD(5) [OF assms(1)] assms(3,5,6) unfolding distinct_filter_nth by metis
  ultimately show ?thesis by (auto simp: private_page_def a)
qed

text \<open>How many of the given logical pages need a new physical page.\<close>

definition pages_due :: "('b, 'm) slot_pool \<Rightarrow> int list \<Rightarrow> int list \<Rightarrow> int" where
  "pages_due p row lps = int (length (filter (\<lambda>lp. \<not> private_page p (row ! nat lp)) lps))"

lemma served_loop:
  assumes "i < nat (num_rows p0)" and "remapped i p0 seen row reps p" and "backed p" and "distinct lps"
    and "\<forall>lp \<in> set lps. 0 \<le> lp \<and> lp < int (length row)"
    and "pages_due p row lps \<le> reserved_for (kv_arena p) (slot_owner slot)"
  shows "\<exists>row' reps' p'. remap_loop (visit_write slot i) lps row reps p = (Inr (row', reps'), p') \<and>
    (\<forall>owner. reserved_for (kv_arena p') owner =
       reserved_for (kv_arena p) owner - (if owner = slot_owner slot then pages_due p row lps else 0))"
  using assms(2-6)
proof (induction lps arbitrary: seen row reps p)
  case Nil
  then show ?case by (simp add: pages_due_def)
next
  case (Cons lp lps)
  define k where "k = nat lp"
  let ?owner = "slot_owner slot"
  have k: "k < length row" "int k = lp" using Cons.prems(4) by (auto simp: k_def)
  have i: "i < nat (num_rows p)" using assms(1) remapped_views(1) [OF Cons.prems(1)] by simp
  have acc: "accounted p" by (rule remappedD(1) [OF Cons.prems(1)])
  have src: "row ! k \<in> insert 0 (slot_bundles p ! i)" using remappedD(4) [OF Cons.prems(1)] k(1) by (auto dest: nth_mem)
  have due: "pages_due p row (lp # lps) = of_bool (\<not> private_page p (row ! k)) + pages_due p row lps"
    by (simp add: pages_due_def k_def)
  have pos: "0 \<le> pages_due p row lps" by (simp add: pages_due_def)
  have one: "1 \<le> reserved_for (kv_arena p) ?owner" if "\<not> private_page p (row ! k)"
    using that Cons.prems(5) due pos by simp
  obtain answer p1 where v: "visit_write slot i (row ! k) p = (Inr answer, p1)" "answer = None \<longleftrightarrow> private_page p (row ! k)"
    "reservations (kv_arena p1) = (if private_page p (row ! k) then reservations (kv_arena p)
       else reservations (spend ?owner 1 (kv_arena p)))"
    using visit_write_served [OF acc i src Cons.prems(2) one] by blast
  have res: "reserved_for (kv_arena p1) owner =
      reserved_for (kv_arena p) owner - (if owner = ?owner \<and> \<not> private_page p (row ! k) then 1 else 0)" for owner
  proof (cases "private_page p (row ! k)")
    case True
    then show ?thesis using v(3) by (simp add: reserved_for_def)
  next
    case False
    have r: "res_ok (kv_arena p)" using Cons.prems(2) by (auto simp: backed_def funded_def elim: saneE)
    show ?thesis
      using spend_facts(3) [OF r, of 1 ?owner owner] one [OF False] v(3) False by (simp add: reserved_for_def)
  qed
  have b1: "backed p1" using keeps_snd [OF backed_visits(1) Cons.prems(2), of slot i "row ! k"] v(1) by simp
  have rng: "nat lp < length row" "\<not> int (length row) \<le> lp" using k by simp_all
  have dist: "distinct lps" "lp \<notin> set lps" using Cons.prems(3) by simp_all
  show ?case
  proof (cases answer)
    case None
    then have priv: "private_page p (row ! k)" using v(2) by simp
    then have "p1 = p" using v(1) by (simp add: visit_write_def private_page_def)
    then have run: "remap_loop (visit_write slot i) (lp # lps) row reps p = remap_loop (visit_write slot i) lps row reps p"
      using v(1) None rng by (simp add: andThen_def k_def)
    have same: "pages_due p row (lp # lps) = pages_due p row lps" using due priv by simp
    have "\<forall>l \<in> set lps. 0 \<le> l \<and> l < int (length row)" using Cons.prems(4) by simp
    then show ?thesis
      using Cons.IH [OF remapped_keep [OF Cons.prems(1), of lp] Cons.prems(2) dist(1)] Cons.prems(5)
      unfolding run same by blast
  next
    case (Some t)
    then have priv: "\<not> private_page p (row ! k)" using v(2) by auto
    have mv: "moved i (row ! k) t p p1"
      using visit_write_moves acc i src v(1) Some unfolding keep_or_move_def by fastforce
    have run: "remap_loop (visit_write slot i) (lp # lps) row reps p =
        remap_loop (visit_write slot i) lps (row[k := t]) (reps @ [(int k, row ! k, t)]) p1"
      using v(1) Some rng k(2) by (simp add: andThen_def k_def)
    have same: "pages_due p1 (row[k := t]) lps = pages_due p row lps"
    proof -
      have "private_page p1 (row[k := t] ! nat l) = private_page p (row ! nat l)" if "l \<in> set lps" for l
      proof -
        have "nat l \<noteq> k" "nat l < length row" using that Cons.prems(4) dist(2) k(2) by auto
        then show ?thesis using private_unchanged [OF Cons.prems(1) assms(1) k(1) mv] by simp
      qed
      then show ?thesis by (simp add: pages_due_def cong: filter_cong)
    qed
    have fits: "pages_due p1 (row[k := t]) lps \<le> reserved_for (kv_arena p1) ?owner"
      using same res [of ?owner] Cons.prems(5) due priv by simp
    have in_range: "\<forall>l \<in> set lps. 0 \<le> l \<and> l < int (length (row[k := t]))" using Cons.prems(4) by simp
    obtain row' reps' p' where rest: "remap_loop (visit_write slot i) lps (row[k := t]) (reps @ [(int k, row ! k, t)]) p1 = (Inr (row', reps'), p')"
      "\<forall>owner. reserved_for (kv_arena p') owner =
         reserved_for (kv_arena p1) owner - (if owner = ?owner then pages_due p1 (row[k := t]) lps else 0)"
      using Cons.IH [OF remapped_move [OF Cons.prems(1) assms(1) k(1) mv] b1 dist(1) in_range fits] by blast
    have "reserved_for (kv_arena p') owner =
        reserved_for (kv_arena p) owner - (if owner = ?owner then pages_due p row (lp # lps) else 0)" for owner
      using rest(2) [rule_format, of owner] res [of owner] due priv same by (cases "owner = ?owner") simp_all
    then show ?thesis using rest(1) unfolding run by blast
  qed
qed

lemma finish_reservations: "unmoved (\<lambda>p. reservations (kv_arena p)) (finish_remap slot x)"
proof -
  have "unmoved (\<lambda>p. reservations (kv_arena p)) (on_arena drain_pending_cow)"
    by (simp add: unmoved_def on_field_def drain_pending_cow_def andThen_def)
  moreover have "unmoved (\<lambda>p. reservations (kv_arena p)) (set_page_table_row slot row)" for row
    by (simp add: unmoved_def set_page_table_row_def andThen_def remap_refcounts_def install_row_def split_def Let_def)
  moreover have "unmoved (\<lambda>p. reservations (kv_arena p)) (update (clone_cow_pages reps))"
    "unmoved (\<lambda>p. reservations (kv_arena p)) (update (clone_fixed_pages reps))" for reps
    by (simp_all add: unmoved_def clone_cow_pages_def clone_fixed_pages_def)
  ultimately show ?thesis
    unfolding finish_remap_def split_def
    by (intro unmoved_if unmoved_ret unmoved_reading unmoved_andThen)
qed

lemma prepare_served:
  assumes "owned_rows S p" and "backed p" and "0 \<le> slot" and "slot < num_rows p" and "slot \<notin> S"
    and "0 \<le> start" and "0 < len" and "start + len \<le> max_seq_len p"
  defines "due \<equiv> pages_due p (page_table_host p ! nat slot) [start div page_size..(start + len - 1) div page_size]"
  assumes "due \<le> reserved_for (kv_arena p) (slot_owner slot)"
  shows "\<exists>p'. prepare_kv_writes slot start len p = (Inr (), p') \<and>
    (\<forall>owner. reserved_for (kv_arena p') owner =
       reserved_for (kv_arena p) owner - (if owner = slot_owner slot then due else 0))"
proof -
  define i where "i = nat slot"
  let ?row = "page_table_host p ! i" and ?lps = "[start div page_size..(start + len - 1) div page_size]"
  have i: "i < nat (num_rows p)" using assms(3,4) by (simp add: i_def)
  have acc: "accounted p" and rok: "row_ok p i"
    using assms(1,3,5) i by (auto simp: owned_rows_def i_def)
  have "(start + len - 1) div page_size < pages_per_slot p"
    using assms(8) by (simp add: max_seq_len_def page_size_def)
  then have rng: "\<forall>lp \<in> set ?lps. 0 \<le> lp \<and> lp < int (length ?row)"
    using assms(6) accountedD(9) [OF acc i] by (auto simp: page_size_def)
  have due: "due = pages_due p ?row ?lps" by (simp add: due_def i_def)
  then have fits: "pages_due p ?row ?lps \<le> reserved_for (kv_arena p) (slot_owner slot)" using assms(10) by simp
  obtain row' reps' p1 where loop: "remap_loop (visit_write slot i) ?lps ?row [] p = (Inr (row', reps'), p1)"
    "\<And>owner. reserved_for (kv_arena p1) owner = reserved_for (kv_arena p) owner - (if owner = slot_owner slot then due else 0)"
    using served_loop [OF i remapped_start(1) [OF acc rok i] assms(2) distinct_upto rng fits] unfolding due by blast
  have strict: "True \<longrightarrow> (\<forall>k < length ?row. int k \<in> set [] \<longrightarrow> private_page p (?row ! k))" by simp
  have nonneg: "\<forall>lp \<in> set ?lps. 0 \<le> lp" using rng by blast
  have rm: "remapped i p ?lps row' reps' p1"
    using remap_loop_run [OF visit_write_moves i remapped_start [OF acc rok i] strict nonneg loop(1)]
    by (simp only: sum.case prod.case append_Nil)
  obtain r p' where fin: "finish_remap slot (row', reps') p1 = (r, p')" by (cases "finish_remap slot (row', reps') p1")
  have "r = Inr (reps' \<noteq> [])" using finish_remap_run [OF rm assms(1,3) i_def i assms(5) fin] by blast
  then have "prepare_kv_writes slot start len p = (Inr (), p')"
    using assms(3,4,6-8) accountedD(1) [OF acc] loop(1) fin
    by (simp add: prepare_kv_writes_def with_row_def py_index_row [OF assms(3)] i_def andThen_def)
  moreover have "reservations (kv_arena p') = reservations (kv_arena p1)"
    using finish_reservations [of slot "(row', reps')"] fin unfolding unmoved_def by (metis snd_conv)
  ultimately show ?thesis using loop(2) by (simp add: reserved_for_def)
qed

lemma due_card:
  assumes "0 \<le> start" and "0 < len"
  shows "pages_due p row [start div page_size..(start + len - 1) div page_size] =
    int (card {k. touched start len k \<and> \<not> private_page p (row ! k)})"
proof -
  let ?lps = "[start div page_size..(start + len - 1) div page_size]"
  let ?xs = "filter (\<lambda>lp. \<not> private_page p (row ! nat lp)) ?lps"
  have nonneg: "0 \<le> lp" if "lp \<in> set ?lps" for lp using that assms(1) by (auto simp: page_size_def)
  have "{k. touched start len k \<and> \<not> private_page p (row ! k)} = nat ` set ?xs"
  proof (intro set_eqI iffI)
    fix k assume "k \<in> {k. touched start len k \<and> \<not> private_page p (row ! k)}"
    then have "int k \<in> set ?xs" by (simp add: touched_def)
    then show "k \<in> nat ` set ?xs" by (metis image_eqI nat_int)
  next
    fix k assume "k \<in> nat ` set ?xs"
    then obtain lp where lp: "lp \<in> set ?xs" "k = nat lp" by blast
    have b: "start div page_size \<le> lp" "lp \<le> (start + len - 1) div page_size" "\<not> private_page p (row ! nat lp)"
      using lp(1) by simp_all
    have "int (nat lp) = lp" using nonneg [of lp] lp(1) by simp
    then show "k \<in> {k. touched start len k \<and> \<not> private_page p (row ! k)}"
      using b assms(2) by (simp only: touched_def lp(2) mem_Collect_eq simp_thms)
  qed
  moreover have "inj_on nat (set ?xs)" using nonneg by (auto simp: inj_on_def eq_nat_nat_iff)
  moreover have "card (set ?xs) = length ?xs" by (rule distinct_card) simp
  ultimately show ?thesis by (simp add: pages_due_def card_image)
qed

section \<open>The property\<close>

text \<open>
  C5: a reservation is a promise.  In the dynamic mode, after any run in which a slot whose operation
  raised is reset before it is used again and pages are shared from such rows only, a slot without a
  pending reset whose reservation is at least the number of touched pages that need a page of their
  own (not mapped yet, shared, or published) can write: \<^verbatim>\<open>prepare_kv_writes\<close> returns normally, uses up
  exactly that part of the reservation and no other, whatever prefix hits, evictions and
  other slots' writes came between the reservation and the write.
\<close>

theorem reserved_writes_succeed:
  assumes "slot_pool_init slots max_len True bundles wm zero = Inr p0" and "0 < max_len"
    and "orderly cs {} p0" and "lending cs {} p0"
  defines "p \<equiv> snd (run_calls call_slots cs p0)" and "S \<equiv> suspects cs {} p0"
  assumes "0 \<le> slot" and "slot < num_rows p" and "slot \<notin> S"
    and "0 \<le> start" and "0 < len" and "start + len \<le> max_seq_len p"
  defines "due \<equiv> int (card {k. touched start len k \<and> \<not> private_page p (page_table_host p ! nat slot ! k)})"
  assumes "due \<le> reserved_for (kv_arena p) (slot_owner slot)"
  shows "\<exists>p'. prepare_kv_writes slot start len p = (Inr (), p') \<and>
    (\<forall>owner. reserved_for (kv_arena p') owner =
       reserved_for (kv_arena p) owner - (if owner = slot_owner slot then due else 0))"
proof -
  have own: "owned_rows S p" using books_reached [OF assms(1-3)] by (simp add: books_def p_def S_def)
  have "backed p"
    unfolding p_def by (rule backed_run [OF books_init [OF assms(1,2)] backed_init [OF assms(1)] assms(3,4)])
  note serve = prepare_served [OF own this assms(7-12)]
  have eq: "due = pages_due p (page_table_host p ! nat slot) [start div page_size..(start + len - 1) div page_size]"
    unfolding due_def by (rule due_card [OF assms(10,11), symmetric])
  show ?thesis using serve assms(14) unfolding eq by blast
qed

text \<open>
  Slot 1 reserves a page and shares the partly filled page of slot 0.  One page is left: slot 0, which
  reserved nothing, does not get it for its next token, and slot 1 does.
\<close>

definition reserve_slots :: "(int, int) slot_pool" where
  "reserve_slots = (case slot_pool_init 2 128 True (Some 3) 0 0 of Inr p \<Rightarrow> p)"

lemma reserve_slots_init: "slot_pool_init 2 128 True (Some 3) 0 0 = Inr reserve_slots"
  by (simp add: reserve_slots_def slot_pool_init_def arena_init_def kvq_init_def kvq_append_def andThen_def upto.simps
      pages_for_def page_size_def Let_def bind_res_def)

definition reserve_script :: "(int, int) slot_call list" where
  "reserve_script = [SPrepare 0 0 100, SReserve 1 128, SShare 0 1 100, SRewind 1 100, SPrepare 0 100 20]"

lemma reserve_run:
  "orderly reserve_script {} reserve_slots \<and> lending reserve_script {} reserve_slots \<and>
   suspects reserve_script {} reserve_slots = {0} \<and>
   fst (run_calls call_slots reserve_script reserve_slots) =
     [Inr (), Inr (), Inr (), Inr (), Inl (RuntimeError ''bundle allocation would consume reserved capacity'')]"
  "let p = snd (run_calls call_slots reserve_script reserve_slots) in
     num_rows p = 3 \<and> max_seq_len p = 128 \<and> page_table_host p ! 1 = [1] \<and> b_ref (kv_arena p) 1 = 2 \<and>
     reserved_for (kv_arena p) (slot_owner 1) = 1"
  by code_simp+

theorem reserved_writes_succeed_witness:
  "let p = snd (run_calls call_slots reserve_script reserve_slots) in
     reserved_for (kv_arena p) (slot_owner 1) = 1 \<and>
     (\<exists>p'. prepare_kv_writes 1 100 20 p = (Inr (), p') \<and> reserved_for (kv_arena p') (slot_owner 1) = 0)"
proof -
  define p where "p = snd (run_calls call_slots reserve_script reserve_slots)"
  have e: "orderly reserve_script {} reserve_slots" "lending reserve_script {} reserve_slots"
    "suspects reserve_script {} reserve_slots = {0}" "num_rows p = 3" "max_seq_len p = 128" "page_table_host p ! 1 = [1]"
    "b_ref (kv_arena p) 1 = 2" "reserved_for (kv_arena p) (slot_owner 1) = 1"
    using reserve_run by (simp_all add: Let_def p_def)
  have t: "touched 100 20 k = (k = 0)" for k by (auto simp: touched_def page_size_def)
  have "{k. touched 100 20 k \<and> \<not> private_page p (page_table_host p ! nat 1 ! k)} = {0}"
    using e(6,7) by (auto simp: t private_page_def)
  then have due: "int (card {k. touched 100 20 k \<and> \<not> private_page p (page_table_host p ! nat 1 ! k)}) = 1" by simp
  show ?thesis
    unfolding Let_def p_def [symmetric]
    using reserved_writes_succeed [OF reserve_slots_init _ e(1,2), unfolded e(3), folded p_def, of 1 100 20, unfolded due] e(4,5,8)
    by auto
qed

end
