(* ===== verification/Spec2Isabelle.thy ===== *)
theory Spec2Isabelle
  imports Kv_Arena Recurrent_Pool Prefix_Publish Thinking_Budget Rejection_Sampling Dspark_Schedule
    Tool_Stream Tool_Roundtrip Engine_Decode Stream_Channel Engine_Requests Gguf_Loader Slot_Fixed Slot_Reserve
begin

text \<open>
  BlackweLLM is a single-node LLM inference server: HTTP handlers (\<^verbatim>\<open>server/app.py\<close>) hand requests to an
  engine thread (\<^verbatim>\<open>server/engine.py\<close>) that schedules them over a fixed number of slots; the runtime
  keeps their attention KV cache in pools of blocks, their recurrent state in checkpoints, decodes
  speculatively, and the server turns tokens back into reasoning, content and tool calls.  This
  development models the host-side logic of these parts.  What runs on the GPU is left out.

  \<^bold>\<open>Memory.\<close>  \<^verbatim>\<open>Free_Queue\<close> and \<^verbatim>\<open>Block_Pool\<close> model \<^verbatim>\<open>runtime/block_pool.py\<close>: the intrusive doubly linked
  free queue (links as maps, sentinels -1 and -2) with its refinement to lists, and the block pool
  (reference counts, content index, eviction order).  \<^verbatim>\<open>Kv_Queue\<close> and \<^verbatim>\<open>Kv_Arena\<close> model
  \<^verbatim>\<open>runtime/model/qwen36_kv_arena.py\<close>: the page-bundle pool with reservations, copy on write, prefix
  lookup and its own assertions.  \<^verbatim>\<open>Recurrent_Pool\<close> models \<^verbatim>\<open>runtime/recurrent_state_pool.py\<close>,
  \<^verbatim>\<open>Slot_Resources\<close> models \<^verbatim>\<open>runtime/slot_resource_manager.py\<close> with \<^verbatim>\<open>PrefixHit\<close> of
  \<^verbatim>\<open>runtime/backends/protocol.py\<close>, \<^verbatim>\<open>Inv_Checks\<close> models \<^verbatim>\<open>bfdiag/invariants\<close>.  Lemmas: every operation
  keeps the representation invariant on every branch, exceptions included; theorems quantify over all
  sequences of calls with any arguments (\<^verbatim>\<open>run_calls\<close> of the prelude), where an exception is caught
  by the caller and leaves the state the raising code left.

  \<^bold>\<open>Slots.\<close>  \<^verbatim>\<open>Slot_Pages\<close> models the page tables and batches of \<^verbatim>\<open>runtime/model/qwen36_slots.py\<close>
  (\<^verbatim>\<open>Qwen36SlotPool\<close>) over \<^verbatim>\<open>Kv_Arena\<close>, in the dynamic and in the fixed-row mode: which physical page a
  slot reads and writes, copy on write, sharing, the scratch row, publication and restoration of
  prefixes, decode and prefill batches.  The bytes of a page are abstract values, one for the pools
  \<^verbatim>\<open>k_pools\<close> and \<^verbatim>\<open>v_pools\<close> and one for the pooled speculative head; the packed NVFP4 pools are left out.  \<^verbatim>\<open>Slot_Sharing\<close>, \<^verbatim>\<open>Slot_Calls\<close> and \<^verbatim>\<open>Slot_Prefill\<close> prove what
  each operation of the dynamic mode does to references, rows and bytes, exceptions included;
  \<^verbatim>\<open>Slot_Runs\<close> has arbitrary sequences of calls, between which the GPU may write any bytes into the
  pages.  A call that raises may leave the row of its slot half
  done (\<^verbatim>\<open>suspects\<close>), and the callers' discipline is that such a slot is reset before it is used again
  (\<^verbatim>\<open>orderly\<close>).  \<^verbatim>\<open>Slot_Isolation\<close> has the resulting properties: who owns a page, that prepared writes,
  decode and prefill batches reach private pages only, and that a restored prefix has the cached bytes.
  \<^verbatim>\<open>Slot_Reserve\<close> shows through the same runs that reserved pages stay available: a write within the
  reservation of its slot returns.
  \<^verbatim>\<open>Slot_Fixed\<close> does the same for the fixed-row mode, whose own counts are right without any discipline.

  \<^bold>\<open>Prefix cache.\<close>  \<^verbatim>\<open>Prefix_Hash\<close> and \<^verbatim>\<open>Prefix_Publish\<close> model
  \<^verbatim>\<open>oracle/qwen36_vllm/prefix_cache.py\<close>: byte-exact block messages, the hash chain, publishing with
  deduplication into the block pool, and reconciliation with recurrent checkpoints.  The digest
  (blake2b) is a parameter; theorems that need it assume it does not collide on the messages at hand.

  \<^bold>\<open>Decoding.\<close>  \<^verbatim>\<open>Mtp_Accept\<close> and \<^verbatim>\<open>Rejection_Sampling\<close> model \<^verbatim>\<open>runtime/mtp_accept.py\<close> (and the validation of
  \<^verbatim>\<open>runtime/sampling.py\<close>): greedy, batched, sampled and sparse accept/reject decisions.
  \<^verbatim>\<open>Dspark_Schedule\<close> models \<^verbatim>\<open>runtime/dspark_schedule.py\<close>: how many drafted tokens to verify.
  \<^verbatim>\<open>Thinking_Budget\<close> models \<^verbatim>\<open>runtime/thinking_budget.py\<close>.  Floating-point numbers are rationals, so
  rounding is not modelled; random draws are parameters.

  \<^bold>\<open>Text.\<close>  \<^verbatim>\<open>Py_Text\<close> has Python's string searches over lists of code points.  \<^verbatim>\<open>Stop_Match\<close> models
  \<^verbatim>\<open>server/formats/stop.py\<close>, \<^verbatim>\<open>Think_Text\<close> models \<^verbatim>\<open>server/formats/thinking.py\<close>, \<^verbatim>\<open>Tool_Calls\<close> models
  \<^verbatim>\<open>server/formats/tools.py\<close> and \<^verbatim>\<open>server/formats/tool_parsers/\<close>, \<^verbatim>\<open>Stream_Proc\<close> models
  \<^verbatim>\<open>server/formats/stream.py\<close>.  Regular expressions are written out as the searches they perform.  The
  step relation \<^verbatim>\<open>stream_reach\<close> interleaves token batches, drains and queries in any order; its
  invariants give that streamed content, reasoning and (\<^verbatim>\<open>Tool_Stream\<close>) tool calls agree with the
  non-streaming answer, where no usage block hides a call.  \<^verbatim>\<open>Tool_Roundtrip\<close> renders calls and parses them
  back, up to the outer white space the parser drops.  Tokenizer, JSON and
  fresh ids are parameters; the theorems ask of the tokenizer that decoded text only grows.

  \<^bold>\<open>Engine.\<close>  \<^verbatim>\<open>Engine_State\<close> has the state of \<^verbatim>\<open>server/engine.py\<close>: requests, slot entries, retained slots,
  the pending prefill, the queue, futures and free slots, with request acceptance, completion and slot
  release.  \<^verbatim>\<open>Engine_Slots\<close> models cancellation, warm continuation, chunked prefill and admission (with
  prefix deduplication), \<^verbatim>\<open>Engine_Round\<close> the decode round, timeouts, the watchdog, recovery, and
  \<^verbatim>\<open>engine_round\<close>, which composes them in the order of the engine thread.  What the backend answers
  (capacity, prefill results, committed tokens, exceptions) is an input of the round and does not depend on
  the calls made in it; a future is set at once, where the code hands the result to the event loop.  A round that
  returns keeps every slot in exactly one place (\<^verbatim>\<open>Engine_Round\<close>) and every accepted request queued,
  in the prefill, on a slot or answered exactly once (\<^verbatim>\<open>Engine_Requests\<close>); for rounds that raise, the
  theory proves on concrete states what is lost.  \<^verbatim>\<open>Engine_Stop\<close> models the stop-sequence tracker that
  retracts committed tokens, \<^verbatim>\<open>Engine_Decode\<close> the plain and the speculative commit of tokens and their
  equality, \<^verbatim>\<open>Stream_Channel\<close> the buffer between the engine thread and the event loop, whose steps
  interleave in any order.

  \<^bold>\<open>Checkpoints.\<close>  \<^verbatim>\<open>Byte_Strings\<close> has packed integers and the UTF-8 decoder with replacement.
  \<^verbatim>\<open>Gguf_Header\<close> models \<^verbatim>\<open>loader/gguf_header.py\<close>: a small calculus shows that its readers look only at the
  bytes they pass and raise only their own error, and that what is written is read back.  \<^verbatim>\<open>Gguf_Dequant\<close>
  models \<^verbatim>\<open>loader/gguf_dequant.py\<close> with the tables of \<^verbatim>\<open>loader/gguf_quant_tables.py\<close> over arbitrary
  floating-point operations: packed blocks are taken apart into their fields.  \<^verbatim>\<open>Gguf_Loader\<close> models the
  tensor stream of \<^verbatim>\<open>runtime/loading/gguf.py\<close> and the summary of \<^verbatim>\<open>loader/inspect_gguf.py\<close>; torch calls are
  parameters, of which it is assumed that a buffer keeps its bytes.

  \<^bold>\<open>Conventions.\<close>  An operation that can raise is a \<^verbatim>\<open>prog\<close> of the prelude: a function from the state to a
  result, \<^verbatim>\<open>Inl\<close> the exception or \<^verbatim>\<open>Inr\<close> the value, and the state afterwards, which keeps what was
  done before a raise.  Integers are unbounded as in Python, and written out at their width where the
  code packs them into bytes.  Loops are structural or have a proved measure; no fuel is needed except
  for walking the linked queue, bounded by its length counter.  Locales state the interfaces between
  components (the free queue the block pool relies on, the name contract of tool parsers) and are
  interpreted on the model's own operations.

  \<^bold>\<open>Not modelled.\<close>  GPU backends, kernels, tensor code, weight placement and graph capture
  under \<^verbatim>\<open>runtime/\<close> and \<^verbatim>\<open>kernels/\<close>: they call torch and CUDA code that is not in the repository.  The
  HTTP handlers of \<^verbatim>\<open>server/app.py\<close> and the request and response formats: I/O and JSON plumbing.  Of
  the engine: construction, model loading, the submit coroutines, statistics and the coalescing wait.
  Of the slot pool: the recurrent tensors and their checkpoints, the commit of physical memory, attention
  drivers and capacity reports.  Tracing, metrics, diagnostics, probes, benchmarks, scripts and tests.
\<close>

end
